(* ===== verification/Prelude.thy ===== *)
theory Prelude
  imports Main
begin

text \<open>
  Shared vocabulary of the development: Python exceptions as values, the result type every
  fallible operation returns, Python dictionaries built by a comprehension, and the generic
  lemmas on lists and results that the component theories use.
\<close>

named_theorems plan_simps \<open>evaluation rules of the plan-tree properties\<close>
named_theorems result_simps \<open>evaluation rules of the result monad\<close>

subsection \<open>Exceptions and results\<close>

text \<open>The exception classes the modelled code raises; messages are not modelled.\<close>

datatype py_error = IndexError | KeyError | ValueError | TypeError | AssertionError
  | NotImplementedError | AttributeError | StopIterationError
  | NameError

type_synonym 'a result = "py_error + 'a"

definition rbind :: "'a result \<Rightarrow> ('a \<Rightarrow> 'b result) \<Rightarrow> 'b result" where
  "rbind r f = (case r of Inl e \<Rightarrow> Inl e | Inr x \<Rightarrow> f x)"

lemma rbind_Inl [simp, result_simps]: "rbind (Inl e) f = Inl e"
  by (simp add: rbind_def)

lemma rbind_Inr [simp, result_simps]: "rbind (Inr x) f = f x"
  by (simp add: rbind_def)

lemma rbind_assoc: "rbind (rbind r f) g = rbind r (\<lambda>x. rbind (f x) g)"
  by (cases r) simp_all

lemma rbind_eq_Inr_iff: "rbind r f = Inr y \<longleftrightarrow> (\<exists>x. r = Inr x \<and> f x = Inr y)"
  by (cases r) auto

text \<open>A Python loop that evaluates a fallible expression for each element, left to right.\<close>

fun mapM :: "('a \<Rightarrow> 'b result) \<Rightarrow> 'a list \<Rightarrow> 'b list result" where
  "mapM f [] = Inr []"
| "mapM f (x # xs) = rbind (f x) (\<lambda>y. rbind (mapM f xs) (\<lambda>ys. Inr (y # ys)))"

lemma mapM_cong [fundef_cong]:
  "xs = ys \<Longrightarrow> (\<And>x. x \<in> set ys \<Longrightarrow> f x = g x) \<Longrightarrow> mapM f xs = mapM g ys"
  by (induction xs arbitrary: ys) auto

lemma mapM_Inr_iff: "mapM f xs = Inr ys \<longleftrightarrow> map f xs = map Inr ys"
  by (induction xs arbitrary: ys) (auto simp: rbind_eq_Inr_iff map_eq_Cons_conv)

lemma mapM_total [simp]: "mapM (\<lambda>x. Inr (g x)) xs = Inr (map g xs)"
  by (induction xs) auto

lemma mapM_InrI: "(\<And>x. x \<in> set xs \<Longrightarrow> f x = Inr (g x)) \<Longrightarrow> mapM f xs = Inr (map g xs)"
  by (induction xs) auto

lemma mapM_length: "mapM f xs = Inr ys \<Longrightarrow> length ys = length xs"
  using mapM_Inr_iff map_eq_imp_length_eq by metis

text \<open>A Python loop whose body updates a state and may raise.\<close>

fun foldM :: "('a \<Rightarrow> 's \<Rightarrow> 's result) \<Rightarrow> 'a list \<Rightarrow> 's \<Rightarrow> 's result" where
  "foldM f [] s = Inr s"
| "foldM f (x # xs) s = rbind (f x s) (foldM f xs)"

lemma foldM_append: "foldM f (xs @ ys) s = rbind (foldM f xs s) (foldM f ys)"
proof (induction xs arbitrary: s)
  case (Cons x xs)
  then show ?case by (cases "f x s") simp_all
qed simp

text \<open>
  A loop over \<open>xs\<close> refines the pure loop over the same items when every step refines the
  pure step.
\<close>

lemma foldM_refines:
  assumes "R s a" and "\<And>x s a. x \<in> set xs \<Longrightarrow> R s a \<Longrightarrow> \<exists>s'. f x s = Inr s' \<and> R s' (g x a)"
  shows "\<exists>s'. foldM f xs s = Inr s' \<and> R s' (fold g xs a)"
  using assms
proof (induction xs arbitrary: s a)
  case (Cons x xs)
  then obtain s1 where "f x s = Inr s1" "R s1 (g x a)" by fastforce
  with Cons show ?case by simp
qed simp

text \<open>\<open>any(...)\<close> and \<open>all(...)\<close> over a fallible test stop at the first decisive element.\<close>

fun any_while :: "('a \<Rightarrow> bool result) \<Rightarrow> 'a list \<Rightarrow> bool result" where
  "any_while p [] = Inr False"
| "any_while p (x # xs) = rbind (p x) (\<lambda>b. if b then Inr True else any_while p xs)"

fun all_while :: "('a \<Rightarrow> bool result) \<Rightarrow> 'a list \<Rightarrow> bool result" where
  "all_while p [] = Inr True"
| "all_while p (x # xs) = rbind (p x) (\<lambda>b. if b then all_while p xs else Inr False)"

lemma any_while_total [simp]: "any_while (\<lambda>x. Inr (p x)) xs = Inr (list_ex p xs)"
  by (induction xs) auto

lemma all_while_total [simp]: "all_while (\<lambda>x. Inr (p x)) xs = Inr (list_all p xs)"
  by (induction xs) auto

text \<open>An assertion: \<open>assert b\<close> in the source.\<close>

definition assert_that :: "bool \<Rightarrow> unit result" where
  "assert_that b = (if b then Inr () else Inl AssertionError)"

lemma assert_that_simps [simp, result_simps]:
  "assert_that True = Inr ()" "assert_that False = Inl AssertionError"
  by (simp_all add: assert_that_def)

lemma assert_that_Inr_iff [simp]: "assert_that b = Inr u \<longleftrightarrow> b"
  by (simp add: assert_that_def)

subsection \<open>Dictionaries built by a comprehension\<close>

text \<open>
  \<open>{k: v for k, v in items}\<close>: a later item with the same key overwrites an earlier one.
\<close>

definition dict_of :: "('k \<times> 'v) list \<Rightarrow> 'k \<Rightarrow> 'v option" where
  "dict_of items = map_of (rev items)"

lemma dict_of_Nil [simp]: "dict_of [] = Map.empty"
  by (simp add: dict_of_def)

lemma dict_of_Cons: "dict_of ((k, v) # items) =
    (\<lambda>x. case dict_of items x of None \<Rightarrow> (if x = k then Some v else None) | Some w \<Rightarrow> Some w)"
  by (auto simp: dict_of_def map_add_def fun_eq_iff split: option.splits)

lemma dom_dict_of [simp]: "dom (dict_of items) = fst ` set items"
  by (simp add: dict_of_def dom_map_of_conv_image_fst)

lemma dict_of_SomeD: "dict_of items k = Some v \<Longrightarrow> (k, v) \<in> set items"
  by (auto simp: dict_of_def dest: map_of_SomeD)

lemma dict_of_eq_None_iff: "dict_of items k = None \<longleftrightarrow> k \<notin> fst ` set items"
  by (simp add: dict_of_def map_of_eq_None_iff)

lemma dict_of_distinct:
  assumes "distinct (map fst items)" "(k, v) \<in> set items"
  shows "dict_of items k = Some v"
proof -
  from assms(1) have "distinct (map fst (rev items))"
    by (simp flip: rev_map)
  then show ?thesis
    using assms(2) by (simp add: dict_of_def)
qed

lemma dict_of_map_identity: "dict_of (map (\<lambda>x. (x, f x)) xs) k = (if k \<in> set xs then Some (f k) else None)"
  by (induction xs) (auto simp: dict_of_Cons)

lemma map_add_delete:
  "m1 k = None \<Longrightarrow> m2 k = None \<Longrightarrow> (m2(k \<mapsto> v) ++ m1)(k := None) = m2 ++ m1"
  by (auto simp: map_add_def fun_eq_iff split: option.splits)

lemma dict_of_append: "dict_of (xs @ ys) k = (case dict_of ys k of None \<Rightarrow> dict_of xs k | Some v \<Rightarrow> Some v)"
  by (simp add: dict_of_def map_add_def split: option.split)

lemma dict_of_map_value: "dict_of (map (\<lambda>(k, v). (k, f v)) xs) k = map_option f (dict_of xs k)"
  by (induction xs) (auto simp: dict_of_Cons split: option.split)

lemma dict_of_filter_key: "P k \<Longrightarrow> dict_of (filter (\<lambda>(k, v). P k) items) k = dict_of items k"
  by (induction items) (auto simp: dict_of_Cons split: option.split)

text \<open>\<open>mapping[k]\<close>: a missing key raises.\<close>

definition lookup_or :: "py_error \<Rightarrow> ('k \<Rightarrow> 'v option) \<Rightarrow> 'k \<Rightarrow> 'v result" where
  "lookup_or err m k = (case m k of None \<Rightarrow> Inl err | Some v \<Rightarrow> Inr v)"

lemma lookup_or_simps [simp, result_simps]:
  "m k = None \<Longrightarrow> lookup_or err m k = Inl err" "m k = Some v \<Longrightarrow> lookup_or err m k = Inr v"
  by (simp_all add: lookup_or_def)

lemma lookup_or_Inr_iff [simp]: "lookup_or err m k = Inr v \<longleftrightarrow> m k = Some v"
  by (simp add: lookup_or_def split: option.split)

text \<open>\<open>mapping.get(k, k)\<close>: look a key up, keep it when it is absent.\<close>

definition get_or_self :: "('k \<Rightarrow> 'k option) \<Rightarrow> 'k \<Rightarrow> 'k" where
  "get_or_self m k = (case m k of None \<Rightarrow> k | Some v \<Rightarrow> v)"

lemma get_or_self_empty [simp]: "get_or_self Map.empty k = k"
  by (simp add: get_or_self_def)

lemma get_or_self_Some [simp]: "m k = Some v \<Longrightarrow> get_or_self m k = v"
  by (simp add: get_or_self_def)

lemma get_or_self_None [simp]: "m k = None \<Longrightarrow> get_or_self m k = k"
  by (simp add: get_or_self_def)

text \<open>Python's truth value of an optional integer: \<open>None\<close> and \<open>0\<close> are false.\<close>

definition truthy_int :: "int option \<Rightarrow> bool" where
  "truthy_int x = (case x of None \<Rightarrow> False | Some i \<Rightarrow> i \<noteq> 0)"

lemma truthy_int_simps [simp]: "\<not> truthy_int None" "truthy_int (Some i) \<longleftrightarrow> i \<noteq> 0"
  by (simp_all add: truthy_int_def)

subsection \<open>Lists\<close>

lemma map_eq_self: "(\<And>x. x \<in> set xs \<Longrightarrow> f x = x) \<Longrightarrow> map f xs = xs"
  by (induction xs) auto

text \<open>Appending an element unless it is there; first occurrences in order.\<close>

definition insert_end :: "'a \<Rightarrow> 'a list \<Rightarrow> 'a list" where
  "insert_end x xs = (if x \<in> set xs then xs else xs @ [x])"

definition first_occurrences :: "'a list \<Rightarrow> 'a list" where
  "first_occurrences xs = rev (remdups (rev xs))"

lemma set_insert_end [simp]: "set (insert_end x xs) = insert x (set xs)"
  by (auto simp: insert_end_def)

lemma distinct_insert_end [simp]: "distinct (insert_end x xs) \<longleftrightarrow> distinct xs"
  by (auto simp: insert_end_def)

lemma first_occurrences_snoc: "first_occurrences (xs @ [x]) = insert_end x (first_occurrences xs)"
  by (simp add: first_occurrences_def insert_end_def)

lemma fold_insert_end: "fold insert_end xs [] = first_occurrences xs"
proof (induction xs rule: rev_induct)
  case (snoc x xs)
  then show ?case by (simp add: first_occurrences_snoc)
qed (simp add: first_occurrences_def)

lemma distinct_map_filter_subset: "distinct (map f xs) \<Longrightarrow> distinct (map f (filter P xs))"
  by (induction xs) auto

subsection \<open>Dictionaries in order\<close>

text \<open>The items of a dictionary built from pairs: a key keeps its first place and its last value.\<close>

definition dict_items :: "('k \<times> 'v) list \<Rightarrow> ('k \<times> 'v) list" where
  "dict_items pairs = map (\<lambda>k. (k, the (dict_of pairs k))) (first_occurrences (map fst pairs))"

lemma first_occurrences_distinct: "distinct xs \<Longrightarrow> first_occurrences xs = xs"
proof (induction xs rule: rev_induct)
  case (snoc x xs)
  then show ?case by (simp add: first_occurrences_snoc insert_end_def)
qed (simp add: first_occurrences_def)

lemma dict_items_distinct:
  assumes "distinct (map fst pairs)"
  shows "dict_items pairs = pairs"
proof -
  have "(fst p, the (dict_of pairs (fst p))) = p" if "p \<in> set pairs" for p
    using dict_of_distinct [OF assms, of "fst p" "snd p"] that by simp
  then show ?thesis using first_occurrences_distinct [OF assms] by (simp add: dict_items_def map_idI)
qed

subsection \<open>Fallible maps\<close>

lemma mapM_each: "mapM f xs = Inr ys \<Longrightarrow> x \<in> set xs \<Longrightarrow> \<exists>y \<in> set ys. f x = Inr y"
  unfolding mapM_Inr_iff by (metis (no_types, lifting) image_iff list.set_map)

lemma mapM_exists: "(\<And>x. x \<in> set xs \<Longrightarrow> \<exists>y. f x = Inr y) \<Longrightarrow> \<exists>ys. mapM f xs = Inr ys"
  using bchoice [of "set xs" "\<lambda>x y. f x = Inr y"] mapM_InrI [of xs f] by blast

lemma mapM_holds: "mapM f xs = Inr ys \<Longrightarrow> (\<And>x y. x \<in> set xs \<Longrightarrow> f x = Inr y \<Longrightarrow> P y) \<Longrightarrow> \<forall>y \<in> set ys. P y"
proof (induction xs arbitrary: ys)
  case (Cons x xs)
  then obtain y zs where "f x = Inr y" "mapM f xs = Inr zs" "ys = y # zs" by (auto simp: rbind_eq_Inr_iff)
  then show ?case using Cons.IH [of zs] Cons.prems(2) by auto
qed simp

lemma mapM_round_trip:
  assumes "\<And>x. x \<in> set xs \<Longrightarrow> \<exists>y. f x = Inr y \<and> g y = Inr (h x)"
  shows "\<exists>ys. mapM f xs = Inr ys \<and> mapM g ys = Inr (map h xs)"
  using assms
proof (induction xs)
  case (Cons x xs)
  then obtain y ys where "f x = Inr y" "g y = Inr (h x)" "mapM f xs = Inr ys" "mapM g ys = Inr (map h xs)" by (metis list.set_intros)
  then show ?case by (intro exI [of _ "y # ys"]) simp
qed simp

lemma mapM_back: "(\<And>x. x \<in> set xs \<Longrightarrow> f (h x) = Inr x) \<Longrightarrow> mapM f (map h xs) = Inr xs"
  by (induction xs) auto

end
