(* ===== verification/Slices.thy ===== *)
theory Slices
  imports Prelude
begin

text \<open>
  The slice arithmetic of \<^verbatim>\<open>bigframes/core/slices.py\<close>: normalising a Python slice to forward
  offsets, dropping parts that have no effect, counting the rows a slice keeps, and the
  no-op and reversal tests. The reference is Python's own slicing of a list, modelled first.
\<close>

subsection \<open>Python slicing of a sequence of known length\<close>

type_synonym slice_def = "int option \<times> int option \<times> int option"

text \<open>\<open>slice.indices(n)\<close> for a step that is not zero (the language rejects a zero step).\<close>

definition slice_start :: "int option \<Rightarrow> int \<Rightarrow> int \<Rightarrow> int" where
  "slice_start start step n =
     (let lower = (if step < 0 then - 1 else 0); upper = (if step < 0 then n - 1 else n)
      in case start of
           None \<Rightarrow> (if step < 0 then upper else lower)
         | Some a \<Rightarrow> (if a < 0 then max (a + n) lower else min a upper))"

definition slice_stop :: "int option \<Rightarrow> int \<Rightarrow> int \<Rightarrow> int" where
  "slice_stop stop step n =
     (let lower = (if step < 0 then - 1 else 0); upper = (if step < 0 then n - 1 else n)
      in case stop of
           None \<Rightarrow> (if step < 0 then lower else upper)
         | Some b \<Rightarrow> (if b < 0 then max (b + n) lower else min b upper))"

definition range_length :: "int \<Rightarrow> int \<Rightarrow> int \<Rightarrow> nat" where
  "range_length a b s =
     (if 0 < s \<and> a < b then nat ((b - a - 1) div s + 1)
      else if s < 0 \<and> b < a then nat ((a - b - 1) div (- s) + 1)
      else 0)"

definition py_range :: "int \<Rightarrow> int \<Rightarrow> int \<Rightarrow> int list" where
  "py_range a b s = map (\<lambda>k. a + int k * s) [0..<range_length a b s]"

definition the_step :: "int option \<Rightarrow> int" where
  "the_step step = (case step of None \<Rightarrow> 1 | Some s \<Rightarrow> s)"

fun slice_positions :: "slice_def \<Rightarrow> int \<Rightarrow> int list" where
  "slice_positions (start, stop, step) n =
     py_range (slice_start start (the_step step) n) (slice_stop stop (the_step step) n)
       (the_step step)"

definition py_slice :: "slice_def \<Rightarrow> 'a list \<Rightarrow> 'a list" where
  "py_slice sl xs = map (\<lambda>i. xs ! nat i) (slice_positions sl (int (length xs)))"

subsection \<open>The code\<close>

text \<open>\<open>slice[2] or 1\<close>: a zero step counts as 1.\<close>

definition step_or_one :: "int option \<Rightarrow> int" where
  "step_or_one step = (case step of None \<Rightarrow> 1 | Some s \<Rightarrow> (if s = 0 then 1 else s))"

fun to_forward_offsets :: "slice_def \<Rightarrow> int \<Rightarrow> int \<times> int option \<times> int" where
  "to_forward_offsets (start0, stop0, step0) input_rows =
     (let step = step_or_one step0;
          start = (case start0 of
                     None \<Rightarrow> (if step > 0 then 0 else input_rows - 1)
                   | Some a \<Rightarrow>
                       (if a < 0 then max 0 (input_rows + a)
                        else (if step < 0 then min a (input_rows - 1) else a)));
          stop = (case stop0 of
                    None \<Rightarrow> None
                  | Some b \<Rightarrow>
                      (if b < 0 then
                         (if step > 0 then Some (max 0 (input_rows + b))
                          else (if input_rows + b \<ge> 0 then Some (input_rows + b) else None))
                       else Some (min b input_rows)))
      in (start, stop, step))"

definition is_forward :: "int option \<Rightarrow> bool" where
  "is_forward step = (case step of None \<Rightarrow> True | Some s \<Rightarrow> s > 0)"

fun remove_unused_parts :: "slice_def \<Rightarrow> int \<Rightarrow> slice_def" where
  "remove_unused_parts (start, stop, step) input_rows =
     (let start' = (case start of
            None \<Rightarrow> None
          | Some a \<Rightarrow>
              (if is_forward step \<and> (a = 0 \<or> a \<le> - input_rows) then None
               else if \<not> is_forward step \<and> (a = - 1 \<or> a \<ge> input_rows - 1) then None
               else Some a));
          stop' = (case stop of
            None \<Rightarrow> None
          | Some b \<Rightarrow>
              (if is_forward step \<and> b \<ge> input_rows then None
               else if \<not> is_forward step \<and> b \<le> - input_rows - 1 then None
               else Some b));
          step' = (if step = Some 1 then None else step)
      in (start', stop', step'))"

definition slice_output_rows :: "slice_def \<Rightarrow> int \<Rightarrow> int" where
  "slice_output_rows sl input_size =
     (case to_forward_offsets sl input_size of (start, stop, step) \<Rightarrow>
        (if step > 0 then
           (let stop' = (case stop of None \<Rightarrow> input_size | Some b \<Rightarrow> b)
            in max 0 ((stop' - start + step - 1) div step))
         else
           (let stop' = (case stop of None \<Rightarrow> - 1 | Some b \<Rightarrow> b)
            in max 0 ((start - stop' - step - 1) div (- step)))))"

definition is_noop :: "slice_def \<Rightarrow> int option \<Rightarrow> bool" where
  "is_noop slice_df input_size =
     (case (if truthy_int input_size then remove_unused_parts slice_df (the input_size)
            else slice_df) of
        (start, stop, step) \<Rightarrow>
          \<not> truthy_int start \<and> stop = None \<and> (step = None \<or> step = Some 1))"

definition is_reverse :: "slice_def \<Rightarrow> int option \<Rightarrow> bool" where
  "is_reverse slice_df input_size =
     (case (if truthy_int input_size then remove_unused_parts slice_df (the input_size)
            else slice_df) of
        (start, stop, step) \<Rightarrow> start = None \<and> stop = None \<and> step = Some (- 1))"

subsection \<open>Counting the elements of a range\<close>

lemma range_length_pos:
  assumes "0 < s"
  shows "int (range_length a b s) = max 0 ((b - a + s - 1) div s)"
proof (cases "a < b")
  case True
  have "(b - a + s - 1) div s = (b - a - 1) div s + 1"
    using assms div_add_self2 [of s "b - a - 1"] by (simp add: algebra_simps)
  then show ?thesis
    using assms True by (simp add: range_length_def pos_imp_zdiv_nonneg_iff)
next
  case False
  then have "(b - a + s - 1) div s \<le> (s - 1) div s"
    using assms by (intro zdiv_mono1) auto
  also have "(s - 1) div s = 0"
    using assms by simp
  finally show ?thesis
    using assms False by (simp add: range_length_def)
qed

lemma range_length_neg:
  assumes "s < 0"
  shows "int (range_length a b s) = max 0 ((a - b - s - 1) div (- s))"
proof -
  have "range_length a b s = range_length b a (- s)"
    using assms by (simp add: range_length_def)
  then show ?thesis
    using range_length_pos [of "- s" b a] assms by (simp add: algebra_simps)
qed

text \<open>The elements of a range, and a range as the selected part of an initial segment.\<close>

lemma py_range_mem_pos:
  assumes "0 < s"
  shows "p \<in> set (py_range a b s) \<longleftrightarrow> a \<le> p \<and> p < b \<and> (p - a) mod s = 0"
proof
  assume "p \<in> set (py_range a b s)"
  then obtain k where k: "p = a + int k * s" "k < range_length a b s" "a < b"
    using assms by (auto simp: py_range_def range_length_def split: if_splits)
  then have "int k \<le> (b - a - 1) div s"
    using assms by (auto simp: range_length_def split: if_splits)
  then have "int k * s \<le> b - a - 1"
    using pos_mod_sign [OF assms, of "b - a - 1"] div_mult_mod_eq [of "b - a - 1" s]
      mult_right_mono [of "int k" "(b - a - 1) div s" s] assms by linarith
  then show "a \<le> p \<and> p < b \<and> (p - a) mod s = 0"
    using k assms by simp
next
  assume p: "a \<le> p \<and> p < b \<and> (p - a) mod s = 0"
  let ?k = "(p - a) div s"
  have k: "p - a = ?k * s" "0 \<le> ?k"
    using p assms by (auto simp: pos_imp_zdiv_nonneg_iff)
  have "?k \<le> (b - a - 1) div s"
    using p assms by (intro zdiv_mono1) auto
  then have "nat ?k < range_length a b s"
    using p assms k(2) by (auto simp: range_length_def)
  moreover have "p = a + int (nat ?k) * s" using k by simp
  ultimately show "p \<in> set (py_range a b s)"
    unfolding py_range_def set_map by (intro image_eqI [of _ _ "nat ?k"]) simp_all
qed

lemma py_range_neg: "py_range a b s = map (\<lambda>p. - p) (py_range (- a) (- b) (- s))"
  by (simp add: py_range_def range_length_def)

lemma py_range_mem_neg:
  assumes "s < 0"
  shows "p \<in> set (py_range a b s) \<longleftrightarrow> b < p \<and> p \<le> a \<and> (a - p) mod (- s) = 0"
proof -
  have "p \<in> set (py_range a b s) \<longleftrightarrow> - p \<in> set (py_range (- a) (- b) (- s))"
    by (force simp: py_range_neg [of a b s])
  then show ?thesis
    using assms by (auto simp: py_range_mem_pos)
qed

lemma slice_positions_range:
  assumes "p \<in> set (slice_positions sl n)" "0 \<le> n"
  shows "0 \<le> p \<and> p < n"
proof -
  obtain start stop step where sl: "sl = (start, stop, step)" by (cases sl)
  consider "the_step step = 0" | "0 < the_step step" | "the_step step < 0" by linarith
  then show ?thesis
  proof cases
    case 1
    with assms sl show ?thesis by (simp add: py_range_def range_length_def)
  next
    case 2
    have "0 \<le> slice_start start (the_step step) n" "slice_stop stop (the_step step) n \<le> n"
      using 2 assms(2) by (auto simp: slice_start_def slice_stop_def Let_def split: option.split)
    with 2 assms sl show ?thesis by (auto simp: py_range_mem_pos)
  next
    case 3
    have "slice_start start (the_step step) n \<le> n - 1" "- 1 \<le> slice_stop stop (the_step step) n"
      using 3 assms(2) by (auto simp: slice_start_def slice_stop_def Let_def split: option.split)
    with 3 assms sl show ?thesis by (auto simp: py_range_mem_neg)
  qed
qed

lemma sorted_py_range: "0 < s \<Longrightarrow> sorted_wrt (<) (py_range a b s)"
  by (auto simp: py_range_def sorted_wrt_iff_nth_less)

lemma sorted_wrt_less_eq:
  fixes xs ys :: "int list"
  shows "sorted_wrt (<) xs \<Longrightarrow> sorted_wrt (<) ys \<Longrightarrow> set xs = set ys \<Longrightarrow> xs = ys"
  by (metis sorted_distinct_set_unique strict_sorted_iff)

lemma sorted_filter_upt: "sorted_wrt (<) (filter P (map int [0..<n]))"
  by (intro sorted_wrt_filter) (simp add: sorted_wrt_map)

lemma py_range_filter_pos:
  assumes "0 < s" "0 \<le> a" "b \<le> int n"
  shows "py_range a b s = filter (\<lambda>p. a \<le> p \<and> p < b \<and> (p - a) mod s = 0) (map int [0..<n])"
proof (rule sorted_wrt_less_eq [OF sorted_py_range [OF assms(1)] sorted_filter_upt])
  have "p \<in> int ` {0..<n}" if "a \<le> p" "p < b" for p
    using that assms by (intro image_eqI [of _ _ "nat p"]) auto
  then show "set (py_range a b s) = set (filter (\<lambda>p. a \<le> p \<and> p < b \<and> (p - a) mod s = 0) (map int [0..<n]))"
    by (auto simp: py_range_mem_pos [OF assms(1)])
qed

lemma py_range_filter_neg:
  assumes "s < 0" "- 1 \<le> b" "a < int n"
  shows "py_range a b s = rev (filter (\<lambda>p. b < p \<and> p \<le> a \<and> (a - p) mod (- s) = 0) (map int [0..<n]))"
proof -
  have "rev (py_range a b s) = filter (\<lambda>p. b < p \<and> p \<le> a \<and> (a - p) mod (- s) = 0) (map int [0..<n])"
  proof (rule sorted_wrt_less_eq [OF _ sorted_filter_upt])
    show "sorted_wrt (<) (rev (py_range a b s))"
      using assms(1) sorted_py_range [of "- s" "- a" "- b"]
      by (simp add: py_range_neg [of a b s] sorted_wrt_rev sorted_wrt_map)
    have "p \<in> int ` {0..<n}" if "b < p" "p \<le> a" for p
      using that assms by (intro image_eqI [of _ _ "nat p"]) auto
    then show "set (rev (py_range a b s)) =
        set (filter (\<lambda>p. b < p \<and> p \<le> a \<and> (a - p) mod (- s) = 0) (map int [0..<n]))"
      by (auto simp: py_range_mem_neg [OF assms(1)])
  qed
  then show ?thesis by (simp add: rev_swap)
qed

lemma py_range_empty: "(if 0 < s then b \<le> a else a \<le> b) \<Longrightarrow> py_range a b s = []"
  by (auto simp: py_range_def range_length_def split: if_splits)

lemma py_range_unit: "py_range 0 (int n) 1 = map int [0..<n]"
  by (simp add: py_range_def range_length_def)

lemma py_range_unit_reverse: "py_range (int n - 1) (- 1) (- 1) = rev (map int [0..<n])"
proof (intro nth_equalityI)
  show len: "length (py_range (int n - 1) (- 1) (- 1)) = length (rev (map int [0..<n]))"
    by (simp add: py_range_def range_length_def)
  show "py_range (int n - 1) (- 1) (- 1) ! i = rev (map int [0..<n]) ! i"
    if "i < length (py_range (int n - 1) (- 1) (- 1))" for i
    using that len by (simp add: py_range_def rev_nth of_nat_diff)
qed

subsection \<open>Forward offsets\<close>

text \<open>
  The slices on which the normalisation is exact: the step is not zero (the language rejects
  it) and a backward slice does not start before the first row.
\<close>

fun forward_safe :: "slice_def \<Rightarrow> int \<Rightarrow> bool" where
  "forward_safe (start, stop, step) n =
     (step \<noteq> Some 0 \<and>
      (the_step step < 0 \<longrightarrow> (case start of None \<Rightarrow> True | Some a \<Rightarrow> - n \<le> a)))"

lemma step_or_one_eq: "step \<noteq> Some 0 \<Longrightarrow> step_or_one step = the_step step"
  by (auto simp: step_or_one_def the_step_def split: option.splits)

lemma the_step_nonzero: "step \<noteq> Some 0 \<Longrightarrow> the_step step \<noteq> 0"
  by (auto simp: the_step_def split: option.splits)

definition stop_or_end :: "int option \<Rightarrow> int \<Rightarrow> int \<Rightarrow> int" where
  "stop_or_end stop step n = (case stop of None \<Rightarrow> (if step > 0 then n else - 1) | Some b \<Rightarrow> b)"

lemma forward_offsets_range:
  assumes safe: "forward_safe (start, stop, step) n" and n: "0 \<le> n"
    and fw: "to_forward_offsets (start, stop, step) n = (a, b, s)"
  shows "s = the_step step"
    and "py_range a (stop_or_end b s n) s = slice_positions (start, stop, step) n"
proof -
  have s: "s = the_step step" "s \<noteq> 0"
    using fw safe by (auto simp: Let_def step_or_one_eq the_step_nonzero)
  show "s = the_step step" by (rule s(1))
  show "py_range a (stop_or_end b s n) s = slice_positions (start, stop, step) n"
  proof (cases "s > 0")
    case True
    then have b: "stop_or_end b s n = slice_stop stop s n" "slice_stop stop s n \<le> n"
      using fw s n by (auto simp: Let_def step_or_one_eq stop_or_end_def slice_stop_def
          the_step_def step_or_one_def split: option.splits if_splits)
    have a: "slice_start start s n = min a n \<or> a = slice_start start s n"
      using fw s n True by (auto simp: Let_def slice_start_def step_or_one_def the_step_def
          split: option.splits if_splits)
    show ?thesis
    proof (cases "a \<le> n")
      case True
      then show ?thesis using a b s by auto
    next
      case False
      then have "py_range a (stop_or_end b s n) s = []" "py_range (min a n) (stop_or_end b s n) s = []"
        using b \<open>s > 0\<close> by (auto intro!: py_range_empty)
      then show ?thesis using a b s by auto
    qed
  next
    case False
    with s have neg: "s < 0" by simp
    have a: "a = slice_start start s n" "a \<le> n - 1 \<or> a = 0"
      using fw s n neg safe by (auto simp: Let_def slice_start_def step_or_one_def the_step_def
          split: option.splits if_splits)
    show ?thesis
    proof (cases "stop_or_end b s n = slice_stop stop s n")
      case True
      then show ?thesis using a s by simp
    next
      case differ: False
      then have "n - 1 \<le> stop_or_end b s n" "slice_stop stop s n = n - 1"
        using fw s n neg by (auto simp: Let_def stop_or_end_def slice_stop_def step_or_one_def
            the_step_def split: option.splits if_splits)
      moreover have "slice_start start s n \<le> n - 1"
        using neg safe s n by (auto simp: slice_start_def split: option.splits)
      ultimately show ?thesis
        using a s neg by (simp add: py_range_empty)
    qed
  qed
qed


text \<open>The four operations in terms of the rows they keep.\<close>

lemma slice_output_rows_eq_length:
  assumes "forward_safe sl n" "0 \<le> n"
  shows "slice_output_rows sl n = int (length (slice_positions sl n))"
proof -
  obtain start stop step where sl: "sl = (start, stop, step)" by (cases sl)
  obtain a b s where fw: "to_forward_offsets sl n = (a, b, s)"
    by (cases "to_forward_offsets sl n")
  note range = forward_offsets_range [OF assms(1) [unfolded sl] assms(2) fw [unfolded sl]]
  have s: "s \<noteq> 0"
    using range(1) assms(1) sl by (auto simp: the_step_def split: option.splits)
  have "slice_output_rows sl n = int (range_length a (stop_or_end b s n) s)"
    using s fw by (cases "s > 0") (auto simp: slice_output_rows_def range_length_pos
        range_length_neg stop_or_end_def Let_def split: option.splits)
  also have "\<dots> = int (length (py_range a (stop_or_end b s n) s))"
    by (simp add: py_range_def)
  finally show ?thesis using range(2) sl by simp
qed

text \<open>
  A backward slice from before the first row: Python keeps nothing, the code moves the start to the
  first row, which is counted unless the stop is at or above it.
\<close>

lemma slice_output_rows_before_first:
  assumes "0 \<le> n" "step < 0" "start < - n"
  shows "slice_positions (Some start, stop, Some step) n = [] \<and>
    slice_output_rows (Some start, stop, Some step) n = (if \<forall>b. stop = Some b \<longrightarrow> b < - n then 1 else 0)"
proof
  have "slice_start (Some start) step n = - 1" "- 1 \<le> slice_stop stop step n"
    using assms by (auto simp: slice_start_def slice_stop_def Let_def split: option.split)
  then show "slice_positions (Some start, stop, Some step) n = []"
    using assms(2) by (simp add: the_step_def py_range_empty)
  have count: "max 0 ((0 - b - step - 1) div - step) = 0" if "0 \<le> b" for b
  proof -
    have "(0 - b - step - 1) div - step \<le> (- step - 1) div - step" using that assms(2) by (intro zdiv_mono1) simp_all
    also have "\<dots> = 0" using assms(2) by (simp add: div_pos_pos_trivial)
    finally show ?thesis by simp
  qed
  obtain b where b: "to_forward_offsets (Some start, stop, Some step) n = (0, b, step)"
    "b = (case stop of None \<Rightarrow> None | Some c \<Rightarrow> if c < - n then None else Some (if c < 0 then n + c else min c n))"
    using assms by (auto simp: step_or_one_def Let_def split: option.split)
  show "slice_output_rows (Some start, stop, Some step) n = (if \<forall>b. stop = Some b \<longrightarrow> b < - n then 1 else 0)"
    unfolding slice_output_rows_def b(1) using assms count by (auto simp: b(2) Let_def split: option.splits)
qed

lemma to_forward_offsets_positions:
  assumes "forward_safe sl n" "0 < n" "to_forward_offsets sl n = (a, b, s)"
  shows "slice_positions (Some a, b, Some s) n = slice_positions sl n"
    and "0 \<le> a" "b = None \<or> 0 \<le> the b"
proof -
  obtain start stop step where sl: "sl = (start, stop, step)" by (cases sl)
  note range = forward_offsets_range [OF assms(1) [unfolded sl] less_imp_le [OF assms(2)]
      assms(3) [unfolded sl]]
  show a: "0 \<le> a" and b: "b = None \<or> 0 \<le> the b"
    using assms sl by (auto simp: Let_def step_or_one_def split: option.splits if_splits)
  have s: "s \<noteq> 0" "s = the_step step"
    using range(1) assms(1) sl by (auto simp: the_step_def split: option.splits)
  have ab: "a \<le> n - 1" if "s < 0"
    using assms sl that s(2) by (auto simp: Let_def step_or_one_def the_step_def
        split: option.splits if_splits)
  have stop: "b = None \<or> the b \<le> n"
    using assms sl by (auto simp: Let_def step_or_one_def split: option.splits if_splits)
  have "slice_positions (Some a, b, Some s) n = py_range a (stop_or_end b s n) s"
  proof (cases "s > 0")
    case True
    then have "slice_stop b s n = stop_or_end b s n" "stop_or_end b s n \<le> n"
      using b stop by (auto simp: slice_stop_def stop_or_end_def split: option.splits)
    moreover have "slice_start (Some a) s n = min a n"
      using True a by (simp add: slice_start_def)
    ultimately show ?thesis
      using True by (cases "a \<le> n") (auto simp: the_step_def py_range_empty)
  next
    case False
    with s have neg: "s < 0" by simp
    have "slice_start (Some a) s n = a"
      using neg a ab by (simp add: slice_start_def)
    moreover have "slice_stop b s n = stop_or_end b s n
        \<or> (n - 1 \<le> stop_or_end b s n \<and> slice_stop b s n = n - 1)"
      using neg b stop by (auto simp: slice_stop_def stop_or_end_def split: option.splits)
    ultimately show ?thesis
      using neg ab by (auto simp: the_step_def py_range_empty)
  qed
  then show "slice_positions (Some a, b, Some s) n = slice_positions sl n"
    using range(2) sl by simp
qed

lemma remove_unused_parts_positions:
  assumes "0 \<le> n" "snd (snd sl) \<noteq> Some 0"
  shows "slice_positions (remove_unused_parts sl n) n = slice_positions sl n"
proof -
  obtain start stop step where sl: "sl = (start, stop, step)" by (cases sl)
  obtain start' stop' step' where r: "remove_unused_parts sl n = (start', stop', step')"
    by (cases "remove_unused_parts sl n")
  have step: "the_step step' = the_step step" "the_step step \<noteq> 0"
    using r sl assms(2) by (auto simp: Let_def the_step_def split: if_splits option.splits)
  have fwd: "is_forward step \<longleftrightarrow> 0 < the_step step"
    by (simp add: is_forward_def the_step_def split: option.splits)
  have "slice_start start' (the_step step) n = slice_start start (the_step step) n"
    using r sl assms(1) step(2) fwd
    by (auto simp: Let_def slice_start_def split: if_splits option.splits)
  moreover have "slice_stop stop' (the_step step) n = slice_stop stop (the_step step) n"
    using r sl assms(1) step(2) fwd
    by (auto simp: Let_def slice_stop_def split: if_splits option.splits)
  ultimately show ?thesis
    using r sl step(1) by simp
qed

lemma py_slice_full: "slice_positions sl (int (length xs)) = map int [0..<length xs] \<Longrightarrow> py_slice sl xs = xs"
  by (simp add: py_slice_def comp_def map_nth)

lemma py_slice_backwards:
  "slice_positions sl (int (length xs)) = rev (map int [0..<length xs]) \<Longrightarrow> py_slice sl xs = rev xs"
  by (simp add: py_slice_def comp_def map_nth rev_map [symmetric])

lemma length_py_slice: "length (py_slice sl xs) = length (slice_positions sl (int (length xs)))"
  by (simp add: py_slice_def)

lemma noop_parts_positions:
  assumes "\<not> truthy_int start" "step = None \<or> step = Some 1"
  shows "slice_positions (start, None, step) (int n) = map int [0..<n]"
  using assms by (auto simp: slice_start_def slice_stop_def the_step_def py_range_unit
      truthy_int_def split: option.splits)

lemma reverse_parts_positions:
  "slice_positions (None, None, Some (- 1)) (int n) = rev (map int [0..<n])"
  by (simp add: slice_start_def slice_stop_def the_step_def py_range_unit_reverse)

text \<open>A length hint given to the tests: absent, or the true length.\<close>

definition size_hint :: "int option \<Rightarrow> 'a list \<Rightarrow> bool" where
  "size_hint rows xs \<longleftrightarrow> rows = None \<or> rows = Some (int (length xs))"

lemma is_noop_sound:
  assumes "is_noop sl rows" "size_hint rows xs" "snd (snd sl) \<noteq> Some 0"
  shows "py_slice sl xs = xs"
proof (rule py_slice_full, cases "truthy_int rows")
  case True
  with assms(2) have size: "rows = Some (int (length xs))"
    by (auto simp: size_hint_def)
  obtain start stop step where r: "remove_unused_parts sl (int (length xs)) = (start, stop, step)"
    by (cases "remove_unused_parts sl (int (length xs))")
  then have "\<not> truthy_int start" "stop = None" "step = None \<or> step = Some 1"
    using assms(1) True size by (auto simp: is_noop_def)
  then show "slice_positions sl (int (length xs)) = map int [0..<length xs]"
    using noop_parts_positions remove_unused_parts_positions [of "int (length xs)" sl] assms(3) r
    by simp
next
  case False
  obtain start stop step where "sl = (start, stop, step)" by (cases sl)
  then show "slice_positions sl (int (length xs)) = map int [0..<length xs]"
    using assms(1) False noop_parts_positions [of start step "length xs"]
    by (auto simp: is_noop_def)
qed

lemma is_reverse_sound:
  assumes "is_reverse sl rows" "size_hint rows xs" "snd (snd sl) \<noteq> Some 0"
  shows "py_slice sl xs = rev xs"
proof (rule py_slice_backwards, cases "truthy_int rows")
  case True
  with assms(2) have size: "rows = Some (int (length xs))"
    by (auto simp: size_hint_def)
  then have "remove_unused_parts sl (int (length xs)) = (None, None, Some (- 1))"
    using assms(1) True by (auto simp: is_reverse_def split: prod.splits)
  then show "slice_positions sl (int (length xs)) = rev (map int [0..<length xs])"
    using reverse_parts_positions remove_unused_parts_positions [of "int (length xs)" sl] assms(3)
    by simp
next
  case False
  then have "sl = (None, None, Some (- 1))"
    using assms(1) by (auto simp: is_reverse_def split: prod.splits)
  then show "slice_positions sl (int (length xs)) = rev (map int [0..<length xs])"
    using reverse_parts_positions by simp
qed

end
