(* ===== verification/Sequences.thy ===== *)
theory Sequences
  imports Prelude
begin

text \<open>
  \<^verbatim>\<open>ChainedSequence\<close> of \<^verbatim>\<open>bigframes/core/sequences.py\<close>: a read-only sequence stored as a
  tuple of parts, flattened and defragmented when it is built. The abstraction is the
  concatenation of the parts; indexing, length and iteration are shown to be those of the
  concatenation.
\<close>

subsection \<open>Building\<close>

text \<open>An argument of the constructor: a plain sequence, or a chained one with its parts.\<close>

datatype 'a part = Plain "'a list" | Chained "'a list list"

type_synonym 'a chained = "'a list list"

fun flatten_parts :: "'a part list \<Rightarrow> 'a list list" where
  "flatten_parts [] = []"
| "flatten_parts (Chained ps # parts) = ps @ flatten_parts parts"
| "flatten_parts (Plain xs # parts) = xs # flatten_parts parts"

definition TARGET_SIZE :: nat where "TARGET_SIZE = 128"
definition MAX_MERGABLE :: nat where "MAX_MERGABLE = 32"

text \<open>
  The generator \<^verbatim>\<open>_defrag_parts\<close>: the queue of small parts and its item count are the loop
  state; the result is the list of the parts it yields.
\<close>

fun defrag_loop :: "'a list list \<Rightarrow> 'a list list \<Rightarrow> nat \<Rightarrow> 'a list list" where
  "defrag_loop [] queue queued = queue"
| "defrag_loop (part # parts) queue queued =
     (let (out, queue1, queued1) =
            (if length part > MAX_MERGABLE then (queue @ [part], [], 0)
             else ([], queue @ [part], queued + length part))
      in if queued1 \<ge> TARGET_SIZE
         then out @ [concat queue1] @ defrag_loop parts [] 0
         else out @ defrag_loop parts queue1 queued1)"

definition defrag_parts :: "'a list list \<Rightarrow> 'a list list" where
  "defrag_parts parts = defrag_loop parts [] 0"

definition chained_init :: "'a part list \<Rightarrow> 'a chained" where
  "chained_init parts = defrag_parts (flatten_parts parts)"

subsection \<open>Reading\<close>

definition chained_len :: "'a chained \<Rightarrow> nat" where
  "chained_len parts = sum_list (map length parts)"

definition chained_iter :: "'a chained \<Rightarrow> 'a list" where
  "chained_iter parts = concat parts"

fun getitem_loop :: "'a list list \<Rightarrow> int \<Rightarrow> int \<Rightarrow> 'a result" where
  "getitem_loop [] index offset = Inl IndexError"
| "getitem_loop (part # parts) index offset =
     (if index - offset < int (length part) then Inr (part ! nat (index - offset))
      else getitem_loop parts index (offset + int (length part)))"

definition chained_getitem :: "'a chained \<Rightarrow> int \<Rightarrow> 'a result" where
  "chained_getitem parts index0 =
     (let index = (if index0 < 0 then int (chained_len parts) + index0 else index0)
      in if index < 0 then Inl IndexError else getitem_loop parts index 0)"

subsection \<open>The abstraction\<close>

definition part_items :: "'a part \<Rightarrow> 'a list" where
  "part_items p = (case p of Plain xs \<Rightarrow> xs | Chained ps \<Rightarrow> concat ps)"

text \<open>Indexing of a Python list, negative indices included.\<close>

definition py_index :: "'a list \<Rightarrow> int \<Rightarrow> 'a result" where
  "py_index xs i =
     (let j = (if i < 0 then int (length xs) + i else i)
      in if 0 \<le> j \<and> j < int (length xs) then Inr (xs ! nat j) else Inl IndexError)"

lemma concat_flatten_parts: "concat (flatten_parts parts) = concat (map part_items parts)"
  by (induction parts rule: flatten_parts.induct) (auto simp: part_items_def)

lemma concat_defrag_loop: "concat (defrag_loop parts queue n) = concat queue @ concat parts"
  by (induction parts queue n rule: defrag_loop.induct) (auto simp: Let_def)

lemma concat_defrag_parts: "concat (defrag_parts parts) = concat parts"
  by (simp add: defrag_parts_def concat_defrag_loop)

lemma getitem_loop_eq:
  assumes "offset \<le> index"
  shows "getitem_loop parts index offset =
    (if nat (index - offset) < length (concat parts) then Inr (concat parts ! nat (index - offset))
     else Inl IndexError)"
  using assms
proof (induction parts index offset rule: getitem_loop.induct)
  case (1 index offset)
  then show ?case by simp
next
  case (2 part parts index offset)
  show ?case
  proof (cases "index - offset < int (length part)")
    case True
    with 2(2) show ?thesis by (auto simp: nth_append nat_less_iff)
  next
    case False
    with 2 have "nat (index - (offset + int (length part))) = nat (index - offset) - length part"
      by simp
    with False 2 show ?thesis by (auto simp: nth_append)
  qed
qed

lemma chained_getitem_index: "chained_getitem parts i = py_index (concat parts) i"
  by (auto simp: chained_getitem_def py_index_def Let_def getitem_loop_eq chained_len_def
      length_concat nat_less_iff)

text \<open>No small parts are ever merged into one longer than the target plus one mergeable part.\<close>

lemma defrag_loop_sizes:
  assumes "\<forall>p \<in> set queue. length p \<le> MAX_MERGABLE" "length (concat queue) = n" "n < TARGET_SIZE"
    and "out \<in> set (defrag_loop parts queue n)"
  shows "length out < TARGET_SIZE + MAX_MERGABLE \<or> out \<in> set parts"
  using assms
proof (induction parts queue n rule: defrag_loop.induct)
  case (1 queue queued)
  then show ?case by (auto simp: TARGET_SIZE_def MAX_MERGABLE_def)
next
  case (2 part parts queue queued)
  consider (big) "length part > MAX_MERGABLE" | (full) "length part \<le> MAX_MERGABLE"
      "queued + length part \<ge> TARGET_SIZE" | (queue) "length part \<le> MAX_MERGABLE"
      "queued + length part < TARGET_SIZE"
    by linarith
  then show ?case
  proof cases
    case big
    with 2 show ?thesis by (fastforce simp: TARGET_SIZE_def)
  next
    case full
    with 2 show ?thesis by (fastforce simp: TARGET_SIZE_def)
  next
    case queue
    with 2 show ?thesis by (fastforce simp: TARGET_SIZE_def)
  qed
qed

end
