(* ===== verification/Ordered_Sets.thy ===== *)
theory Ordered_Sets
  imports Prelude
begin

text \<open>
  \<^verbatim>\<open>InsertionOrderedSet\<close> of \<^verbatim>\<open>bigframes/core/ordered_sets.py\<close>: a dictionary from elements to
  the nodes of a doubly linked list with two sentinels. The nodes live in an explicit store
  (addresses are natural numbers, a fresh counter allocates them), because the operations
  mutate the links of shared node objects. The abstraction is the list of elements in
  insertion order, and every operation is shown to refine the list operation it stands for.
\<close>

subsection \<open>The store\<close>

record 'a list_node =
  node_value :: "'a option"
  node_prev :: "nat option"
  node_next :: "nat option"

record 'a ordered_set =
  os_dict :: "'a \<Rightarrow> nat option"
  os_heap :: "nat \<Rightarrow> 'a list_node"
  os_head :: nat
  os_tail :: nat
  os_fresh :: nat

definition new_node :: "'a option \<Rightarrow> 'a list_node" where
  "new_node v = \<lparr>node_value = v, node_prev = None, node_next = None\<rparr>"

definition set_next :: "nat \<Rightarrow> nat option \<Rightarrow> (nat \<Rightarrow> 'a list_node) \<Rightarrow> nat \<Rightarrow> 'a list_node" where
  "set_next a x h = h(a := (h a)\<lparr>node_next := x\<rparr>)"

definition set_prev :: "nat \<Rightarrow> nat option \<Rightarrow> (nat \<Rightarrow> 'a list_node) \<Rightarrow> nat \<Rightarrow> 'a list_node" where
  "set_prev a x h = h(a := (h a)\<lparr>node_prev := x\<rparr>)"

subsection \<open>The operations\<close>

text \<open>Reading an attribute of \<^verbatim>\<open>None\<close> raises; the \<open>TypeError\<close> branches below stand for that.\<close>

definition append_node :: "nat \<Rightarrow> 'a ordered_set \<Rightarrow> 'a ordered_set result" where
  "append_node node s =
     (case node_prev (os_heap s (os_tail s)) of
        None \<Rightarrow> Inl TypeError
      | Some last_node \<Rightarrow>
          (let h1 = set_next last_node (Some node) (os_heap s);
               h2 = set_prev node (Some last_node) h1;
               h3 = set_next node (Some (os_tail s)) h2;
               h4 = set_prev (os_tail s) (Some node) h3
           in Inr (s\<lparr>os_heap := h4\<rparr>)))"

definition unlink_node :: "nat \<Rightarrow> 'a ordered_set \<Rightarrow> 'a ordered_set result" where
  "unlink_node node s =
     (case (node_prev (os_heap s node), node_next (os_heap s node)) of
        (Some p, Some q) \<Rightarrow>
          (let h1 = set_next p (Some q) (os_heap s);
               h2 = set_prev q (Some p) h1;
               h3 = set_prev node None h2;
               h4 = set_next node None h3
           in Inr (s\<lparr>os_heap := h4\<rparr>))
      | _ \<Rightarrow> Inl TypeError)"

definition os_contains :: "'a ordered_set \<Rightarrow> 'a \<Rightarrow> bool" where
  "os_contains s x \<longleftrightarrow> os_dict s x \<noteq> None"

definition os_add :: "'a \<Rightarrow> 'a ordered_set \<Rightarrow> 'a ordered_set result" where
  "os_add x s =
     (if os_contains s x then Inr s
      else let a = os_fresh s;
               s1 = s\<lparr>os_heap := (os_heap s)(a := new_node (Some x)), os_fresh := Suc a,
                      os_dict := (os_dict s)(x \<mapsto> a)\<rparr>
           in append_node a s1)"

definition os_discard :: "'a \<Rightarrow> 'a ordered_set \<Rightarrow> 'a ordered_set result" where
  "os_discard x s =
     (case os_dict s x of
        None \<Rightarrow> Inr s
      | Some node \<Rightarrow> unlink_node node (s\<lparr>os_dict := (os_dict s)(x := None)\<rparr>))"

definition os_remove :: "'a \<Rightarrow> 'a ordered_set \<Rightarrow> 'a ordered_set result" where
  "os_remove x s = (if \<not> os_contains s x then Inl KeyError else os_discard x s)"

definition os_update :: "'a list \<Rightarrow> 'a ordered_set \<Rightarrow> 'a ordered_set result" where
  "os_update xs s = foldM os_add xs s"

definition os_clear :: "'a ordered_set \<Rightarrow> 'a ordered_set" where
  "os_clear s = s\<lparr>os_dict := Map.empty,
     os_heap := set_prev (os_tail s) (Some (os_head s))
                  (set_next (os_head s) (Some (os_tail s)) (os_heap s))\<rparr>"

text \<open>A new set: two sentinels, linked to each other.\<close>

definition os_empty :: "'a ordered_set" where
  "os_empty = \<lparr>os_dict = Map.empty,
     os_heap = set_prev 1 (Some 0) (set_next 0 (Some 1) (\<lambda>_. new_node None)),
     os_head = 0, os_tail = 1, os_fresh = 2\<rparr>"

definition os_init :: "'a list \<Rightarrow> 'a ordered_set result" where
  "os_init xs = os_update xs os_empty"

text \<open>
  Iteration follows the links from the head's successor to the tail sentinel; it is partial
  because a broken chain would never reach the tail.
\<close>

partial_function (option) os_walk ::
    "(nat \<Rightarrow> 'a list_node) \<Rightarrow> nat \<Rightarrow> nat option \<Rightarrow> 'a option list option" where
  "os_walk h tail cur =
     (case cur of
        None \<Rightarrow> None
      | Some a \<Rightarrow>
          (if a = tail then Some []
           else Option.bind (os_walk h tail (node_next (h a)))
                  (\<lambda>vs. Some (node_value (h a) # vs))))"

definition os_iter :: "'a ordered_set \<Rightarrow> 'a option list option" where
  "os_iter s = os_walk (os_heap s) (os_tail s) (node_next (os_heap s (os_head s)))"

text \<open>The values of an iteration; a sentinel's missing value is never among them.\<close>

definition os_items :: "'a ordered_set \<Rightarrow> 'a list result" where
  "os_items s =
     (case os_iter s of
        None \<Rightarrow> Inl TypeError
      | Some vs \<Rightarrow> mapM (\<lambda>v. case v of None \<Rightarrow> Inl TypeError | Some x \<Rightarrow> Inr x) vs)"

text \<open>\<^verbatim>\<open>_replace_contents\<close>: clear, then add the items of the source set in its order.\<close>

definition os_replace_contents :: "'a list \<Rightarrow> 'a ordered_set \<Rightarrow> 'a ordered_set result" where
  "os_replace_contents source s = os_update source (os_clear s)"

subsection \<open>The abstraction: the elements in insertion order\<close>

fun chain :: "(nat \<Rightarrow> 'a list_node) \<Rightarrow> nat \<Rightarrow> nat list \<Rightarrow> nat \<Rightarrow> bool" where
  "chain h p [] q \<longleftrightarrow> node_next (h p) = Some q \<and> node_prev (h q) = Some p"
| "chain h p (a # as) q \<longleftrightarrow>
     node_next (h p) = Some a \<and> node_prev (h a) = Some p \<and> chain h a as q"

definition os_rep :: "'a ordered_set \<Rightarrow> nat list \<Rightarrow> 'a list \<Rightarrow> bool" where
  "os_rep s as xs \<longleftrightarrow>
     distinct (os_head s # os_tail s # as) \<and>
     chain (os_heap s) (os_head s) as (os_tail s) \<and>
     map (\<lambda>a. node_value (os_heap s a)) as = map Some xs \<and>
     distinct xs \<and> os_dict s = map_of (zip xs as) \<and>
     (\<forall>a \<in> set (os_head s # os_tail s # as). a < os_fresh s)"

definition represents :: "'a ordered_set \<Rightarrow> 'a list \<Rightarrow> bool" where
  "represents s xs \<longleftrightarrow> (\<exists>as. os_rep s as xs)"


subsection \<open>Chains\<close>

lemma chain_append: "chain h p (as @ b # bs) q \<longleftrightarrow> chain h p as b \<and> chain h b bs q"
  by (induction as arbitrary: p) auto

lemma chain_cong:
  assumes "\<And>a. a \<in> set (p # as) \<Longrightarrow> node_next (h' a) = node_next (h a)"
    and "\<And>a. a \<in> set (as @ [q]) \<Longrightarrow> node_prev (h' a) = node_prev (h a)"
  shows "chain h' p as q \<longleftrightarrow> chain h p as q"
  using assms by (induction as arbitrary: p) auto

lemma chain_first: "chain h p as q \<Longrightarrow> node_next (h p) = Some (hd (as @ [q]))"
  by (cases as) auto

lemma chain_last: "chain h p as q \<Longrightarrow> node_prev (h q) = Some (last (p # as))"
  by (induction as arbitrary: p) auto

lemma chain_extend:
  assumes "chain h p as q" "distinct (p # q # a # as)"
    and "\<And>b. b \<noteq> last (p # as) \<Longrightarrow> b \<noteq> a \<Longrightarrow> node_next (h' b) = node_next (h b)"
    and "\<And>b. b \<noteq> q \<Longrightarrow> b \<noteq> a \<Longrightarrow> node_prev (h' b) = node_prev (h b)"
    and "node_next (h' (last (p # as))) = Some a" "node_next (h' a) = Some q"
    and "node_prev (h' a) = Some (last (p # as))" "node_prev (h' q) = Some a"
  shows "chain h' p (as @ [a]) q"
proof (cases as rule: rev_cases)
  case Nil
  with assms show ?thesis by auto
next
  case (snoc bs b)
  with assms(1) have "chain h p bs b"
    by (simp add: chain_append)
  then have "chain h' p bs b"
    by (rule iffD2 [OF chain_cong, rotated 2]) (use assms(2) snoc in \<open>auto intro!: assms(3,4)\<close>)
  with assms snoc show ?thesis by (auto simp: chain_append)
qed

lemma chain_shrink:
  assumes "chain h p (bs @ a # cs) q" "distinct (p # q # bs @ a # cs)"
    and "\<And>b. b \<noteq> last (p # bs) \<Longrightarrow> b \<noteq> a \<Longrightarrow> node_next (h' b) = node_next (h b)"
    and "\<And>b. b \<noteq> hd (cs @ [q]) \<Longrightarrow> b \<noteq> a \<Longrightarrow> node_prev (h' b) = node_prev (h b)"
    and "node_next (h' (last (p # bs))) = Some (hd (cs @ [q]))"
    and "node_prev (h' (hd (cs @ [q]))) = Some (last (p # bs))"
  shows "chain h' p (bs @ cs) q"
proof -
  from assms(1) have h: "chain h p bs a" "chain h a cs q"
    by (simp_all add: chain_append)
  have l: "last (p # bs) \<in> set (p # bs)"
    by (rule last_in_set) simp
  have rest: "chain h' l cs q" if "l = last (p # bs)" for l
  proof (cases cs)
    case Nil
    with assms that show ?thesis by simp
  next
    case (Cons c cs')
    with h(2) have "chain h c cs' q" by simp
    moreover have "chain h' c cs' q \<longleftrightarrow> chain h c cs' q"
    proof (rule chain_cong)
      fix b
      assume "b \<in> set (c # cs')"
      then have "b \<noteq> l" "b \<noteq> a"
        using assms(2) Cons l that by auto
      then show "node_next (h' b) = node_next (h b)"
        using assms(3) that by simp
    next
      fix b
      assume "b \<in> set (cs' @ [q])"
      then have "b \<noteq> c" "b \<noteq> a"
        using assms(2) Cons by auto
      then show "node_prev (h' b) = node_prev (h b)"
        using assms(4) Cons by simp
    qed
    ultimately have "chain h' c cs' q" by simp
    with assms(5,6) Cons that show ?thesis by simp
  qed
  show ?thesis
  proof (cases bs rule: rev_cases)
    case Nil
    with rest show ?thesis by simp
  next
    case (snoc bs' b)
    with h(1) have "chain h p bs' b" by (simp add: chain_append)
    then have "chain h' p bs' b"
      by (rule iffD2 [OF chain_cong, rotated 2])
        (use assms(2) snoc in \<open>auto intro!: assms(3,4) simp: hd_append split: if_splits list.splits\<close>)
    with rest snoc show ?thesis by (simp add: chain_append)
  qed
qed

lemma walk_chain:
  assumes "chain h p as q" "q \<notin> set as"
  shows "os_walk h q (node_next (h p)) = Some (map (\<lambda>a. node_value (h a)) as)"
  using assms
proof (induction as arbitrary: p)
  case Nil
  then show ?case by (simp add: os_walk.simps)
next
  case (Cons a as)
  then have "os_walk h q (node_next (h a)) = Some (map (\<lambda>a. node_value (h a)) as)" by simp
  with Cons.prems show ?case by (subst os_walk.simps) auto
qed

subsection \<open>Every operation refines its list operation\<close>

lemma rep_dict: "os_rep s as xs \<Longrightarrow> os_dict s = map_of (zip xs as) \<and> length xs = length as"
  by (auto simp: os_rep_def dest!: map_eq_imp_length_eq)

lemma rep_contains: "os_rep s as xs \<Longrightarrow> os_contains s x \<longleftrightarrow> x \<in> set xs"
  by (drule rep_dict) (auto simp: os_contains_def map_of_zip_is_None)

lemma rep_empty: "os_rep os_empty [] []"
  by (simp add: os_rep_def os_empty_def set_next_def set_prev_def)

lemma rep_add_new:
  assumes rep: "os_rep s as xs" and new: "x \<notin> set xs"
  shows "\<exists>s'. os_add x s = Inr s' \<and> os_rep s' (as @ [os_fresh s]) (xs @ [x])"
proof -
  let ?a = "os_fresh s" and ?l = "last (os_head s # as)" and ?t = "os_tail s"
  define h where "h = set_prev ?t (Some ?a) (set_next ?a (Some ?t) (set_prev ?a (Some ?l)
              (set_next ?l (Some ?a) ((os_heap s)(?a := new_node (Some x))))))"
  let ?s' = "s\<lparr>os_heap := h, os_fresh := Suc ?a, os_dict := (os_dict s)(x \<mapsto> ?a)\<rparr>"
  have ch: "chain (os_heap s) (os_head s) as ?t" and
    dis: "distinct (os_head s # ?t # ?a # as)" and
    bound: "\<forall>a \<in> set (os_head s # ?t # as). a < ?a"
    using rep by (auto simp: os_rep_def)
  have "?l \<in> set (os_head s # as)" by (rule last_in_set) simp
  with dis have lt: "?l \<noteq> ?a" "?l \<noteq> ?t" "?t \<noteq> ?a" by auto
  have add: "os_add x s = Inr ?s'"
    using chain_last [OF ch] rep_contains [OF rep, of x] new lt
    by (simp add: os_add_def append_node_def Let_def h_def)
  have chain: "chain h (os_head s) (as @ [?a]) ?t"
    by (rule chain_extend [OF ch dis])
      (use lt in \<open>auto simp: set_next_def set_prev_def h_def\<close>)
  have nv: "node_value (h a) = (if a = ?a then Some x else node_value (os_heap s a))" for a
    using lt by (auto simp: set_next_def set_prev_def new_node_def h_def)
  have "map (\<lambda>a. node_value (h a)) as = map (\<lambda>a. node_value (os_heap s a)) as"
    by (rule map_cong) (use dis nv in auto)
  also have "\<dots> = map Some xs"
    using rep by (simp add: os_rep_def)
  finally have vals: "map (\<lambda>a. node_value (h a)) (as @ [?a]) = map Some (xs @ [x])"
    using nv [of ?a] by simp
  have "x \<notin> dom (map_of (zip xs as))"
    using rep_dict [OF rep] new by (simp add: domIff map_of_zip_is_None)
  then have dict: "(os_dict s)(x \<mapsto> ?a) = map_of (zip (xs @ [x]) (as @ [?a]))"
    using rep_dict [OF rep] by (simp add: map_add_upd_left)
  have "distinct (os_head s # ?t # as @ [?a])" "distinct (xs @ [x])"
    "\<forall>a \<in> set (os_head s # ?t # as @ [?a]). a < Suc ?a"
    using dis rep new bound by (auto simp: os_rep_def)
  then have "os_rep ?s' (as @ [?a]) (xs @ [x])"
    unfolding os_rep_def using chain vals dict by simp
  with add show ?thesis by blast
qed

lemma rep_discard:
  assumes rep: "os_rep s (bs @ a # cs) (ys @ x # zs)" and len: "length bs = length ys"
  shows "\<exists>s'. os_discard x s = Inr s' \<and> os_rep s' (bs @ cs) (ys @ zs)"
proof -
  let ?p = "last (os_head s # bs)" and ?q = "hd (cs @ [os_tail s])"
  define h where "h = set_next a None (set_prev a None (set_prev ?q (Some ?p)
              (set_next ?p (Some ?q) (os_heap s))))"
  let ?s' = "s\<lparr>os_dict := (os_dict s)(x := None), os_heap := h\<rparr>"
  have ch: "chain (os_heap s) (os_head s) (bs @ a # cs) (os_tail s)" and
    dis: "distinct (os_head s # os_tail s # bs @ a # cs)" and
    xs: "distinct (ys @ x # zs)" and
    bound: "\<forall>b \<in> set (os_head s # os_tail s # bs @ a # cs). b < os_fresh s"
    using rep by (auto simp: os_rep_def)
  then have "chain (os_heap s) (os_head s) bs a" "chain (os_heap s) a cs (os_tail s)"
    by (simp_all add: chain_append)
  then have links: "node_prev (os_heap s a) = Some ?p" "node_next (os_heap s a) = Some ?q"
    by (simp_all add: chain_last chain_first)
  have lens: "length zs = length cs"
    using len rep_dict [OF rep] by simp
  have dict: "os_dict s = map_of (zip ys bs @ (x, a) # zip zs cs)"
    using rep_dict [OF rep] len by simp
  have "?p \<in> set (os_head s # bs)" "?q \<in> set (cs @ [os_tail s])"
    by (rule last_in_set hd_in_set; simp)+
  with dis have neq: "?p \<noteq> a" "?q \<noteq> a" "?p \<noteq> ?q" by auto
  have none: "map_of (zip ys bs) x = None" "map_of (zip zs cs) x = None"
    using xs len lens by (simp_all add: map_of_zip_is_None)
  then have "os_dict s x = Some a"
    by (simp add: dict map_add_def)
  then have discard: "os_discard x s = Inr ?s'"
    using links by (simp add: os_discard_def unlink_node_def Let_def h_def)
  have chain: "chain h (os_head s) (bs @ cs) (os_tail s)"
    by (rule chain_shrink [OF ch dis]) (use neq in \<open>auto simp: set_next_def set_prev_def h_def\<close>)
  have "node_value (h b) = node_value (os_heap s b)" for b
    by (auto simp: set_next_def set_prev_def h_def)
  moreover have "map (\<lambda>b. node_value (os_heap s b)) (bs @ a # cs) = map Some (ys @ x # zs)"
    using rep by (simp add: os_rep_def)
  ultimately have vals: "map (\<lambda>b. node_value (h b)) (bs @ cs) = map Some (ys @ zs)"
    using len by (simp add: append_eq_append_conv)
  have "map_of (zip ys bs @ (x, a) # zip zs cs) = (map_of (zip zs cs))(x \<mapsto> a) ++ map_of (zip ys bs)"
    by simp
  then have upd: "(os_dict s)(x := None) = map_of (zip (ys @ zs) (bs @ cs))"
    using len none by (simp only: dict map_add_delete zip_append map_of_append)
  have "distinct (os_head s # os_tail s # bs @ cs)" "distinct (ys @ zs)"
    "\<forall>b \<in> set (os_head s # os_tail s # bs @ cs). b < os_fresh s"
    using dis xs bound by simp_all
  then have "os_rep ?s' (bs @ cs) (ys @ zs)"
    unfolding os_rep_def using chain vals upd by simp
  with discard show ?thesis by blast
qed


lemma represents_empty: "represents os_empty []"
  using rep_empty by (auto simp: represents_def)

lemma represents_distinct: "represents s xs \<Longrightarrow> distinct xs"
  by (auto simp: represents_def os_rep_def)

lemma represents_contains: "represents s xs \<Longrightarrow> os_contains s x \<longleftrightarrow> x \<in> set xs"
  by (auto simp: represents_def rep_contains)

lemma represents_iter:
  assumes "represents s xs"
  shows "os_iter s = Some (map Some xs)"
proof -
  from assms obtain as where rep: "os_rep s as xs" by (auto simp: represents_def)
  then have "os_iter s = Some (map (\<lambda>a. node_value (os_heap s a)) as)"
    unfolding os_iter_def by (intro walk_chain) (auto simp: os_rep_def)
  with rep show ?thesis by (simp add: os_rep_def)
qed

lemma represents_items: "represents s xs \<Longrightarrow> os_items s = Inr xs"
  by (simp add: os_items_def represents_iter mapM_Inr_iff)

lemma represents_add:
  assumes "represents s xs"
  shows "\<exists>s'. os_add x s = Inr s' \<and> represents s' (insert_end x xs)"
proof (cases "x \<in> set xs")
  case True
  with assms show ?thesis
    using represents_contains [of s xs x] by (auto simp: os_add_def insert_end_def)
next
  case False
  with assms show ?thesis
    using rep_add_new by (fastforce simp: represents_def insert_end_def)
qed

lemma represents_discard:
  assumes "represents s xs"
  shows "\<exists>s'. os_discard x s = Inr s' \<and> represents s' (remove1 x xs)"
proof (cases "x \<in> set xs")
  case True
  then obtain ys zs where xs: "xs = ys @ x # zs" "x \<notin> set ys" by (auto dest: split_list_first)
  from assms obtain as where rep: "os_rep s as xs" by (auto simp: represents_def)
  then have "length as = length ys + Suc (length zs)"
    using rep_dict [OF rep] xs by simp
  then obtain bs a cs where as: "as = bs @ a # cs" "length bs = length ys"
    by (metis Suc_length_conv append_eq_conv_conj le_add1 length_drop length_take min.absorb2
        add_diff_cancel_left' append_take_drop_id)
  from rep_discard [of s bs a cs ys x zs] rep as xs show ?thesis
    by (auto simp: represents_def remove1_append)
next
  case False
  with assms have "os_dict s x = None"
    using represents_contains [of s xs x] by (simp add: os_contains_def)
  with assms False show ?thesis by (auto simp: os_discard_def remove1_idem)
qed

lemma represents_clear:
  assumes "represents s xs"
  shows "represents (os_clear s) []"
proof -
  from assms have "os_head s \<noteq> os_tail s" "os_head s < os_fresh s" "os_tail s < os_fresh s"
    by (auto simp: represents_def os_rep_def)
  then have "os_rep (os_clear s) [] []"
    by (simp add: os_rep_def os_clear_def set_next_def set_prev_def)
  then show ?thesis by (auto simp: represents_def)
qed

subsection \<open>The interface\<close>

text \<open>
  What a client relies on: the abstraction is a distinct list; adding appends a new element,
  discarding removes one, iterating yields the list.
\<close>

locale insertion_ordered =
  fixes empty_set :: "'s"
    and add :: "'a \<Rightarrow> 's \<Rightarrow> 's result"
    and discard :: "'a \<Rightarrow> 's \<Rightarrow> 's result"
    and contains :: "'s \<Rightarrow> 'a \<Rightarrow> bool"
    and items :: "'s \<Rightarrow> 'a list result"
    and rep :: "'s \<Rightarrow> 'a list \<Rightarrow> bool"
  assumes rep_empty_set: "rep empty_set []"
    and rep_distinct: "rep s xs \<Longrightarrow> distinct xs"
    and rep_add: "rep s xs \<Longrightarrow> \<exists>s'. add x s = Inr s' \<and> rep s' (insert_end x xs)"
    and rep_discard: "rep s xs \<Longrightarrow> \<exists>s'. discard x s = Inr s' \<and> rep s' (remove1 x xs)"
    and rep_contains: "rep s xs \<Longrightarrow> contains s x \<longleftrightarrow> x \<in> set xs"
    and rep_items: "rep s xs \<Longrightarrow> items s = Inr xs"
begin

lemma rep_unique: "rep s xs \<Longrightarrow> rep s ys \<Longrightarrow> xs = ys"
  by (drule rep_items)+ simp

lemma rep_update:
  assumes "rep s xs"
  shows "\<exists>s'. foldM add ys s = Inr s' \<and> rep s' (fold insert_end ys xs)"
  using assms by (rule foldM_refines) (rule rep_add)

lemma init_items: "\<exists>s'. foldM add ys empty_set = Inr s' \<and> items s' = Inr (first_occurrences ys)"
  using rep_update [OF rep_empty_set, of ys] rep_items by (auto simp: fold_insert_end)

lemma discard_contains:
  assumes "rep s xs"
  shows "\<exists>s'. discard x s = Inr s' \<and> (\<forall>y. contains s' y \<longleftrightarrow> y \<noteq> x \<and> contains s y)"
proof -
  obtain s' where s': "discard x s = Inr s'" "rep s' (remove1 x xs)"
    using rep_discard [OF assms] by blast
  then have "contains s' y \<longleftrightarrow> y \<noteq> x \<and> contains s y" for y
    using rep_distinct [OF assms] rep_contains [OF assms] rep_contains [OF s'(2)] by auto
  with s' show ?thesis by blast
qed

lemma discard_all:
  assumes "rep s xs"
  shows "\<exists>s'. foldM discard ys s = Inr s' \<and> rep s' (fold remove1 ys xs)"
  using assms by (rule foldM_refines) (rule rep_discard)

end

interpretation ios: insertion_ordered os_empty os_add os_discard os_contains os_items represents
  by unfold_locales
    (fact represents_empty represents_distinct represents_add represents_discard
      represents_contains represents_items)+

end
