(* ===== verification/Dtypes.thy ===== *)
theory Dtypes
  imports Prelude
begin

text \<open>
  The column types of \<^verbatim>\<open>bigframes/dtypes.py\<close>: the type constants, the predicates used by the
  operator signatures, and the coercion to a common type. An expression type is \<open>None\<close> for
  the type of the null scalar. Arrow list and struct types are constructors with their
  element and field types; \<^verbatim>\<open>Type_Conversions\<close> has the types as the libraries represent them.
\<close>

datatype dtype =
    INT_DTYPE | FLOAT_DTYPE | BOOL_DTYPE | STRING_DTYPE | BYTES_DTYPE
  | DATE_DTYPE | TIME_DTYPE | DATETIME_DTYPE | TIMESTAMP_DTYPE | TIMEDELTA_DTYPE
  | NUMERIC_DTYPE | BIGNUMERIC_DTYPE | GEO_DTYPE | JSON_DTYPE
  | LIST_DTYPE dtype | STRUCT_DTYPE "(string \<times> dtype) list"

type_synonym etype = "dtype option"

definition OBJ_REF_DTYPE :: dtype where
  "OBJ_REF_DTYPE = STRUCT_DTYPE
     [(''uri'', STRING_DTYPE), (''version'', STRING_DTYPE), (''authorizer'', STRING_DTYPE),
      (''details'', JSON_DTYPE)]"

definition DEFAULT_DTYPE :: dtype where
  "DEFAULT_DTYPE = FLOAT_DTYPE"

subsection \<open>The table of simple types\<close>

record simple_dtype_info =
  info_dtype :: dtype
  logical_bytes :: nat
  orderable :: bool
  clusterable :: bool

definition SIMPLE_TYPES :: "simple_dtype_info list" where
  "SIMPLE_TYPES = map (\<lambda>(d, b, ord, clu). \<lparr>info_dtype = d, logical_bytes = b, orderable = ord, clusterable = clu\<rparr>)
     [(INT_DTYPE, 8, True, True),
      (FLOAT_DTYPE, 8, True, False),
      (BOOL_DTYPE, 1, True, True),
      (STRING_DTYPE, 8, True, True),
      (JSON_DTYPE, 8, False, False),
      (DATE_DTYPE, 4, True, True),
      (TIME_DTYPE, 8, True, False),
      (DATETIME_DTYPE, 8, True, True),
      (TIMESTAMP_DTYPE, 8, True, True),
      (BYTES_DTYPE, 8, True, False),
      (NUMERIC_DTYPE, 16, True, True),
      (BIGNUMERIC_DTYPE, 32, True, True),
      (GEO_DTYPE, 40, False, True)]"

definition NUMERIC_BIGFRAMES_TYPES_RESTRICTIVE :: "dtype list" where
  "NUMERIC_BIGFRAMES_TYPES_RESTRICTIVE = [FLOAT_DTYPE, INT_DTYPE]"

definition NUMERIC_BIGFRAMES_TYPES_PERMISSIVE :: "dtype list" where
  "NUMERIC_BIGFRAMES_TYPES_PERMISSIVE =
     NUMERIC_BIGFRAMES_TYPES_RESTRICTIVE @ [BOOL_DTYPE, NUMERIC_DTYPE, BIGNUMERIC_DTYPE]"

definition TEMPORAL_BIGFRAMES_TYPES :: "dtype list" where
  "TEMPORAL_BIGFRAMES_TYPES = [DATE_DTYPE, TIMESTAMP_DTYPE, DATETIME_DTYPE] @ [TIME_DTYPE]"

subsection \<open>Predicates\<close>

definition is_datetime_like :: "etype \<Rightarrow> bool" where
  "is_datetime_like t \<longleftrightarrow> t \<in> {Some DATETIME_DTYPE, Some TIMESTAMP_DTYPE}"

definition is_date_like :: "etype \<Rightarrow> bool" where
  "is_date_like t \<longleftrightarrow> t \<in> {Some DATETIME_DTYPE, Some TIMESTAMP_DTYPE, Some DATE_DTYPE}"

definition is_time_like :: "etype \<Rightarrow> bool" where
  "is_time_like t \<longleftrightarrow> t \<in> {Some DATETIME_DTYPE, Some TIMESTAMP_DTYPE, Some TIME_DTYPE}"

definition is_geo_like :: "etype \<Rightarrow> bool" where
  "is_geo_like t \<longleftrightarrow> t = Some GEO_DTYPE"

definition is_binary_like :: "etype \<Rightarrow> bool" where
  "is_binary_like t \<longleftrightarrow> t \<in> {Some BOOL_DTYPE, Some BYTES_DTYPE, Some INT_DTYPE}"

definition is_string_like :: "etype \<Rightarrow> bool" where
  "is_string_like t \<longleftrightarrow> t \<in> {Some STRING_DTYPE, Some BYTES_DTYPE}"

fun is_array_like :: "etype \<Rightarrow> bool" where
  "is_array_like (Some (LIST_DTYPE _)) \<longleftrightarrow> True"
| "is_array_like _ \<longleftrightarrow> False"

fun is_struct_like :: "etype \<Rightarrow> bool" where
  "is_struct_like (Some (STRUCT_DTYPE _)) \<longleftrightarrow> True"
| "is_struct_like _ \<longleftrightarrow> False"

definition is_numeric :: "etype \<Rightarrow> bool" where
  "is_numeric t \<longleftrightarrow> (case t of None \<Rightarrow> False | Some d \<Rightarrow> d \<in> set NUMERIC_BIGFRAMES_TYPES_PERMISSIVE)"

definition is_orderable :: "etype \<Rightarrow> bool" where
  "is_orderable t \<longleftrightarrow>
     (case t of None \<Rightarrow> False
      | Some d \<Rightarrow> d \<in> set (map info_dtype (filter orderable SIMPLE_TYPES)) \<or> d = TIMEDELTA_DTYPE)"

definition is_comparable :: "etype \<Rightarrow> bool" where
  "is_comparable t \<longleftrightarrow> t \<noteq> None \<and> is_orderable t"

definition is_bool_coercable :: "etype \<Rightarrow> bool" where
  "is_bool_coercable t \<longleftrightarrow> t = None \<or> is_numeric t \<or> is_string_like t"

definition dtype_for_etype :: "etype \<Rightarrow> dtype" where
  "dtype_for_etype t = (case t of None \<Rightarrow> DEFAULT_DTYPE | Some d \<Rightarrow> d)"

subsection \<open>Coercion\<close>

definition hierarchy :: "dtype list" where
  "hierarchy = [BOOL_DTYPE, INT_DTYPE, NUMERIC_DTYPE, BIGNUMERIC_DTYPE, FLOAT_DTYPE]"

fun index_of :: "'a list \<Rightarrow> 'a \<Rightarrow> nat" where
  "index_of [] y = 0"
| "index_of (x # xs) y = (if x = y then 0 else Suc (index_of xs y))"

definition lcd_type :: "etype list \<Rightarrow> etype result" where
  "lcd_type ts =
     (if ts = [] then Inl ValueError
      else let unique = remdups (map the (filter (\<lambda>t. t \<noteq> None) ts))
           in if unique = [] then Inr None
              else if length unique = 1 then Inr (Some (hd unique))
              else if \<exists>d \<in> set unique. d \<notin> set hierarchy then Inr None
              else Inr (Some (hierarchy ! foldr max (map (index_of hierarchy) unique) 0)))"

definition can_coerce :: "etype \<Rightarrow> etype \<Rightarrow> bool" where
  "can_coerce source target \<longleftrightarrow>
     (case source of None \<Rightarrow> True
      | Some s \<Rightarrow> s = STRING_DTYPE \<and>
          (case target of None \<Rightarrow> False | Some t \<Rightarrow> t \<in> set (TEMPORAL_BIGFRAMES_TYPES @ [JSON_DTYPE])))"

definition coerce_to_common :: "etype \<Rightarrow> etype \<Rightarrow> etype result" where
  "coerce_to_common e1 e2 =
     rbind (if e1 \<noteq> None \<and> e2 \<noteq> None then lcd_type [e1, e2] else Inr None)
       (\<lambda>common. if common \<noteq> None then Inr common
          else if can_coerce e1 e2 then Inr e2
          else if can_coerce e2 e1 then Inr e1
          else Inl TypeError)"

definition can_compare :: "etype \<Rightarrow> etype \<Rightarrow> bool" where
  "can_compare t1 t2 \<longleftrightarrow>
     (case coerce_to_common t1 t2 of Inl _ \<Rightarrow> False | Inr t \<Rightarrow> is_comparable t)"

lemmas dtype_tables = SIMPLE_TYPES_def NUMERIC_BIGFRAMES_TYPES_PERMISSIVE_def
  NUMERIC_BIGFRAMES_TYPES_RESTRICTIVE_def TEMPORAL_BIGFRAMES_TYPES_def hierarchy_def

lemmas dtype_predicates = is_datetime_like_def is_date_like_def is_time_like_def is_geo_like_def
  is_binary_like_def is_string_like_def is_numeric_def is_orderable_def is_comparable_def
  is_bool_coercable_def

lemma lcd_type_pair:
  "lcd_type [Some d1, Some d2] =
     Inr (if d1 = d2 then Some d1
          else if d1 \<in> set hierarchy \<and> d2 \<in> set hierarchy
          then Some (hierarchy ! max (index_of hierarchy d1) (index_of hierarchy d2))
          else None)"
  by (simp add: lcd_type_def)

lemma lcd_type_commute: "lcd_type [Some d1, Some d2] = lcd_type [Some d2, Some d1]"
  by (simp add: lcd_type_pair max.commute)

lemma coerce_to_common_commute: "coerce_to_common e1 e2 = coerce_to_common e2 e1"
  by (cases e1; cases e2)
    (auto simp: coerce_to_common_def can_coerce_def lcd_type_commute rbind_def dtype_tables
      split: sum.splits)

lemma lcd_type_self [simp]: "lcd_type [Some d, Some d] = Inr (Some d)"
  by (simp add: lcd_type_pair)

lemma coerce_to_common_self: "coerce_to_common e e = Inr e"
  by (cases e) (simp_all add: coerce_to_common_def can_coerce_def)

lemma index_of_nth: "x \<in> set xs \<Longrightarrow> index_of xs x < length xs \<and> xs ! index_of xs x = x"
  by (induction xs) auto

lemma is_numeric_hierarchy: "is_numeric (Some d) \<longleftrightarrow> d \<in> set hierarchy"
  by (auto simp: is_numeric_def dtype_tables)

text \<open>
  On numeric types the coercion is the least upper bound in the order of the hierarchy, so it
  is total, stays numeric, and is associative.
\<close>

lemma coerce_numeric:
  assumes "is_numeric (Some d1)" "is_numeric (Some d2)"
  shows "coerce_to_common (Some d1) (Some d2) =
    Inr (Some (hierarchy ! max (index_of hierarchy d1) (index_of hierarchy d2)))"
  using assms index_of_nth [of d1 hierarchy]
  by (auto simp: coerce_to_common_def lcd_type_pair is_numeric_hierarchy)

lemma index_of_hierarchy_nth: "i < length hierarchy \<Longrightarrow> index_of hierarchy (hierarchy ! i) = i"
  by (auto simp: hierarchy_def less_Suc_eq numeral_nat)

lemma coerce_numeric_index:
  assumes "is_numeric (Some d1)" "is_numeric (Some d2)"
  obtains d where "coerce_to_common (Some d1) (Some d2) = Inr (Some d)" "is_numeric (Some d)"
    "index_of hierarchy d = max (index_of hierarchy d1) (index_of hierarchy d2)"
proof
  let ?i = "max (index_of hierarchy d1) (index_of hierarchy d2)"
  have i: "?i < length hierarchy"
    using assms index_of_nth [of d1] index_of_nth [of d2] by (simp add: is_numeric_hierarchy)
  show "coerce_to_common (Some d1) (Some d2) = Inr (Some (hierarchy ! ?i))"
    by (rule coerce_numeric [OF assms])
  show "is_numeric (Some (hierarchy ! ?i))"
    using i nth_mem by (auto simp: is_numeric_hierarchy)
  show "index_of hierarchy (hierarchy ! ?i) = ?i"
    by (rule index_of_hierarchy_nth [OF i])
qed

end
