(* ===== verification/Operators.thy ===== *)
theory Operators
  imports Dtypes Complex_Main
begin

text \<open>
  The operators of \<^verbatim>\<open>bigframes/operations\<close>: scalar operators with their type signatures and
  traits, and the aggregation and window operators with theirs. Float parameters are
  rationals (a finite float is one). An operator of a module not listed here is
  \<open>OpaqueOp\<close>, which carries the traits and the output type its class declares.
\<close>

subsection \<open>Type signatures (\<^verbatim>\<open>operations/type.py\<close>)\<close>

type_synonym signature = "etype list \<Rightarrow> etype result"

text \<open>\<^verbatim>\<open>as_method\<close> asserts the number of arguments and passes them to the signature.\<close>

definition unary_method :: "(etype \<Rightarrow> etype result) \<Rightarrow> signature" where
  "unary_method f ts = (case ts of [t] \<Rightarrow> f t | _ \<Rightarrow> Inl AssertionError)"

definition binary_method :: "(etype \<Rightarrow> etype \<Rightarrow> etype result) \<Rightarrow> signature" where
  "binary_method f ts = (case ts of [l, r] \<Rightarrow> f l r | _ \<Rightarrow> Inl AssertionError)"

definition TypePreserving :: "(etype \<Rightarrow> bool) \<Rightarrow> etype \<Rightarrow> etype result" where
  "TypePreserving p t = (if \<not> p t then Inl TypeError else Inr t)"

definition FixedOutputType :: "(etype \<Rightarrow> bool) \<Rightarrow> etype \<Rightarrow> etype \<Rightarrow> etype result" where
  "FixedOutputType p fixed_type t =
     (if t \<noteq> None \<and> \<not> p t then Inl TypeError else Inr fixed_type)"

definition UnaryRealNumeric :: "etype \<Rightarrow> etype result" where
  "UnaryRealNumeric t =
     (if t = None then Inr (Some FLOAT_DTYPE)
      else if \<not> is_numeric t then Inl TypeError
      else if t \<in> {Some INT_DTYPE, Some BOOL_DTYPE} then Inr (Some FLOAT_DTYPE)
      else Inr t)"

definition BinaryNumeric :: "etype \<Rightarrow> etype \<Rightarrow> etype result" where
  "BinaryNumeric l r =
     (if l \<noteq> None \<and> \<not> is_numeric l then Inl TypeError
      else if r \<noteq> None \<and> \<not> is_numeric r then Inl TypeError
      else coerce_to_common l r)"

definition BinaryRealNumeric :: "etype \<Rightarrow> etype \<Rightarrow> etype result" where
  "BinaryRealNumeric l r =
     (if l \<noteq> None \<and> \<not> is_numeric l then Inl TypeError
      else if r \<noteq> None \<and> \<not> is_numeric r then Inl TypeError
      else rbind (coerce_to_common l r)
             (\<lambda>lcd. if lcd = Some INT_DTYPE then Inr (Some FLOAT_DTYPE) else Inr lcd))"

definition CoerceCommon :: "etype \<Rightarrow> etype \<Rightarrow> etype result" where
  "CoerceCommon l r = coerce_to_common l r"

definition Comparison :: "etype \<Rightarrow> etype \<Rightarrow> etype result" where
  "Comparison l r = (if \<not> can_compare l r then Inl TypeError else Inr (Some BOOL_DTYPE))"

definition Logical :: "etype \<Rightarrow> etype \<Rightarrow> etype result" where
  "Logical l r =
     (if l = None \<or> r = None then Inr (Some BOOL_DTYPE)
      else if \<not> is_binary_like l then Inl TypeError
      else if \<not> is_binary_like r then Inl TypeError
      else if l \<noteq> r then Inl TypeError
      else Inr l)"

subsection \<open>Scalar operators\<close>

datatype real_numeric_fn = Sin | Cos | Tan | Arcsin | Arccos | Arctan | Sinh | Cosh | Tanh
  | Arcsinh | Arccosh | Arctanh | Floor | Ceil | Exp | Expm1 | Ln | Log10 | Log1p | Sqrt

datatype scalar_op =
    AndOp | OrOp | XorOp
  | EqOp | EqNullsMatchOp | NeOp | LtOp | GtOp | LeOp | GeOp
  | RealNumericOp real_numeric_fn
  | AbsOp | PosOp | NegOp
  | AddOp | SubOp | MulOp | DivOp | FloorDivOp | ModOp
  | PowOp | Arctan2Op | RoundOp | UnsafePowOp | IsNanOp | IsFiniteOp
  | InvertOp | IsNullOp | NotNullOp | HashOp
  | FillNaOp | MaximumOp | MinimumOp | CoalesceOp | WhereOp | ClipOp
  | RowKey | SqlScalarOp (sql_output: etype) (sql_template: string) (sql_deterministic: bool)
  | RemoteFunctionOp (function_def: string) (function_output: etype) (function_arity: nat)
      (apply_on_null: bool)
  | OpaqueOp (opaque_name: string) (opaque_output: etype) (opaque_bijective: bool)
      (opaque_deterministic: bool) (opaque_expensive: bool)

text \<open>Reading \<^verbatim>\<open>input_types[i]\<close>.\<close>

definition arg :: "etype list \<Rightarrow> nat \<Rightarrow> etype result" where
  "arg ts i = (if i < length ts then Inr (ts ! i) else Inl IndexError)"

definition with_two :: "(etype \<Rightarrow> etype \<Rightarrow> etype result) \<Rightarrow> signature" where
  "with_two f ts = rbind (arg ts 0) (\<lambda>l. rbind (arg ts 1) (\<lambda>r. f l r))"

definition numeric_or_none :: "etype \<Rightarrow> bool" where
  "numeric_or_none t \<longleftrightarrow> t = None \<or> is_numeric t"

definition AddOp_output_type :: "etype list \<Rightarrow> etype result" where
  "AddOp_output_type ts = with_two (\<lambda>l r.
     if \<forall>t \<in> set ts. t = Some STRING_DTYPE then Inr l
     else if is_datetime_like l \<and> r = Some TIMEDELTA_DTYPE then Inr l
     else if l = Some TIMEDELTA_DTYPE \<and> is_datetime_like r then Inr r
     else if l = Some DATE_DTYPE \<and> r = Some TIMEDELTA_DTYPE then Inr (Some DATETIME_DTYPE)
     else if l = Some TIMEDELTA_DTYPE \<and> r = Some DATE_DTYPE then Inr (Some DATETIME_DTYPE)
     else if l = Some TIMEDELTA_DTYPE \<and> r = Some TIMEDELTA_DTYPE then Inr (Some TIMEDELTA_DTYPE)
     else if numeric_or_none l \<and> numeric_or_none r then coerce_to_common l r
     else Inl TypeError) ts"

definition SubOp_output_type :: "etype list \<Rightarrow> etype result" where
  "SubOp_output_type ts = with_two (\<lambda>l r.
     if l = Some DATETIME_DTYPE \<and> r = Some DATETIME_DTYPE then Inr (Some TIMEDELTA_DTYPE)
     else if l = Some TIMESTAMP_DTYPE \<and> r = Some TIMESTAMP_DTYPE then Inr (Some TIMEDELTA_DTYPE)
     else if l = Some DATE_DTYPE \<and> r = Some DATE_DTYPE then Inr (Some TIMEDELTA_DTYPE)
     else if is_datetime_like l \<and> r = Some TIMEDELTA_DTYPE then Inr l
     else if l = Some DATE_DTYPE \<and> r = Some TIMEDELTA_DTYPE then Inr (Some DATETIME_DTYPE)
     else if l = Some TIMEDELTA_DTYPE \<and> r = Some TIMEDELTA_DTYPE then Inr (Some TIMEDELTA_DTYPE)
     else if l = Some BOOL_DTYPE \<and> r = Some BOOL_DTYPE then Inl TypeError
     else if numeric_or_none l \<and> numeric_or_none r then coerce_to_common l r
     else Inl TypeError) ts"

definition MulOp_output_type :: "etype list \<Rightarrow> etype result" where
  "MulOp_output_type ts = with_two (\<lambda>l r.
     if l = Some TIMEDELTA_DTYPE \<and> r \<in> {Some INT_DTYPE, Some FLOAT_DTYPE}
     then Inr (Some TIMEDELTA_DTYPE)
     else if l \<in> {Some INT_DTYPE, Some FLOAT_DTYPE} \<and> r = Some TIMEDELTA_DTYPE
     then Inr (Some TIMEDELTA_DTYPE)
     else if numeric_or_none l \<and> numeric_or_none r then coerce_to_common l r
     else Inl TypeError) ts"

definition DivOp_output_type :: "etype list \<Rightarrow> etype result" where
  "DivOp_output_type ts = with_two (\<lambda>l r.
     if l = Some TIMEDELTA_DTYPE \<and> is_numeric r then Inr (Some TIMEDELTA_DTYPE)
     else if l = Some TIMEDELTA_DTYPE \<and> r = Some TIMEDELTA_DTYPE then Inr (Some FLOAT_DTYPE)
     else if l = Some BOOL_DTYPE \<and> r = Some BOOL_DTYPE then Inl TypeError
     else if numeric_or_none l \<and> numeric_or_none r
     then rbind (coerce_to_common l r)
            (\<lambda>lcd. Inr (if lcd = Some INT_DTYPE then Some FLOAT_DTYPE else lcd))
     else Inl TypeError) ts"

definition FloorDivOp_output_type :: "etype list \<Rightarrow> etype result" where
  "FloorDivOp_output_type ts = with_two (\<lambda>l r.
     if l = Some TIMEDELTA_DTYPE \<and> r = Some TIMEDELTA_DTYPE then Inr (Some INT_DTYPE)
     else if l = Some TIMEDELTA_DTYPE \<and> is_numeric r then Inr (Some TIMEDELTA_DTYPE)
     else if l = Some BOOL_DTYPE \<and> r = Some BOOL_DTYPE then Inl TypeError
     else if numeric_or_none l \<and> numeric_or_none r then coerce_to_common l r
     else Inl TypeError) ts"

definition ModOp_output_type :: "etype list \<Rightarrow> etype result" where
  "ModOp_output_type ts = with_two (\<lambda>l r.
     if l = Some TIMEDELTA_DTYPE \<and> r = Some TIMEDELTA_DTYPE then Inr (Some TIMEDELTA_DTYPE)
     else if l \<in> {Some NUMERIC_DTYPE, Some BIGNUMERIC_DTYPE}
             \<or> r \<in> {Some NUMERIC_DTYPE, Some BIGNUMERIC_DTYPE} then Inl TypeError
     else if l = Some BOOL_DTYPE \<and> r = Some BOOL_DTYPE then Inl TypeError
     else if numeric_or_none l \<and> numeric_or_none r then coerce_to_common l r
     else Inl TypeError) ts"

definition WhereOp_output_type :: "etype list \<Rightarrow> etype result" where
  "WhereOp_output_type ts =
     rbind (arg ts 1) (\<lambda>c. if c \<noteq> Some BOOL_DTYPE then Inl TypeError
       else rbind (arg ts 0) (\<lambda>a. rbind (arg ts 2) (\<lambda>b. coerce_to_common a b)))"

definition ClipOp_output_type :: "etype list \<Rightarrow> etype result" where
  "ClipOp_output_type ts =
     rbind (arg ts 0) (\<lambda>a. rbind (arg ts 1) (\<lambda>lo. rbind (arg ts 2) (\<lambda>hi.
       rbind (coerce_to_common lo hi) (\<lambda>b. coerce_to_common a b))))"

text \<open>
  \<open>output_type\<close> of every operator; the operators made by the factories
  \<^verbatim>\<open>create_unary_op\<close> and \<^verbatim>\<open>create_binary_op\<close> use their signature as the method.
\<close>

fun op_output_type :: "scalar_op \<Rightarrow> etype list \<Rightarrow> etype result" where
  "op_output_type AndOp = binary_method Logical"
| "op_output_type OrOp = binary_method Logical"
| "op_output_type XorOp = binary_method Logical"
| "op_output_type EqOp = binary_method Comparison"
| "op_output_type EqNullsMatchOp = binary_method Comparison"
| "op_output_type NeOp = binary_method Comparison"
| "op_output_type LtOp = binary_method Comparison"
| "op_output_type GtOp = binary_method Comparison"
| "op_output_type LeOp = binary_method Comparison"
| "op_output_type GeOp = binary_method Comparison"
| "op_output_type (RealNumericOp _) = unary_method UnaryRealNumeric"
| "op_output_type AbsOp = unary_method (TypePreserving (\<lambda>t. is_numeric t \<or> t = Some TIMEDELTA_DTYPE))"
| "op_output_type PosOp = unary_method (TypePreserving (\<lambda>t. is_numeric t \<or> t = Some TIMEDELTA_DTYPE))"
| "op_output_type NegOp = unary_method (TypePreserving (\<lambda>t. is_numeric t \<or> t = Some TIMEDELTA_DTYPE))"
| "op_output_type AddOp = AddOp_output_type"
| "op_output_type SubOp = SubOp_output_type"
| "op_output_type MulOp = MulOp_output_type"
| "op_output_type DivOp = DivOp_output_type"
| "op_output_type FloorDivOp = FloorDivOp_output_type"
| "op_output_type ModOp = ModOp_output_type"
| "op_output_type PowOp = binary_method BinaryNumeric"
| "op_output_type Arctan2Op = binary_method BinaryRealNumeric"
| "op_output_type RoundOp = binary_method BinaryNumeric"
| "op_output_type UnsafePowOp = binary_method BinaryRealNumeric"
| "op_output_type IsNanOp = unary_method (FixedOutputType is_numeric (Some BOOL_DTYPE))"
| "op_output_type IsFiniteOp = unary_method (FixedOutputType is_numeric (Some BOOL_DTYPE))"
| "op_output_type InvertOp = unary_method (TypePreserving is_binary_like)"
| "op_output_type IsNullOp = unary_method (FixedOutputType (\<lambda>_. True) (Some BOOL_DTYPE))"
| "op_output_type NotNullOp = unary_method (FixedOutputType (\<lambda>_. True) (Some BOOL_DTYPE))"
| "op_output_type HashOp = unary_method (FixedOutputType is_string_like (Some INT_DTYPE))"
| "op_output_type FillNaOp = binary_method CoerceCommon"
| "op_output_type MaximumOp = binary_method CoerceCommon"
| "op_output_type MinimumOp = binary_method CoerceCommon"
| "op_output_type CoalesceOp = binary_method CoerceCommon"
| "op_output_type WhereOp = WhereOp_output_type"
| "op_output_type ClipOp = ClipOp_output_type"
| "op_output_type RowKey = (\<lambda>_. Inr (Some STRING_DTYPE))"
| "op_output_type (SqlScalarOp t _ _) = (\<lambda>_. Inr t)"
| "op_output_type (RemoteFunctionOp _ t _ _) = (\<lambda>_. Inr t)"
| "op_output_type (OpaqueOp _ t _ _ _) = (\<lambda>_. Inr t)"

text \<open>The traits: the defaults of \<^verbatim>\<open>ScalarOp\<close>, and the classes that override them.\<close>

fun op_is_bijective :: "scalar_op \<Rightarrow> bool" where
  "op_is_bijective RowKey = True"
| "op_is_bijective (OpaqueOp _ _ b _ _) = b"
| "op_is_bijective _ = False"

fun op_deterministic :: "scalar_op \<Rightarrow> bool" where
  "op_deterministic RowKey = False"
| "op_deterministic (SqlScalarOp _ _ d) = d"
| "op_deterministic (OpaqueOp _ _ _ d _) = d"
| "op_deterministic _ = True"

fun op_expensive :: "scalar_op \<Rightarrow> bool" where
  "op_expensive (RemoteFunctionOp _ _ _ _) = True"
| "op_expensive (OpaqueOp _ _ _ _ e) = e"
| "op_expensive _ = False"


subsection \<open>Aggregation and window operators (\<^verbatim>\<open>operations/aggregations.py\<close>)\<close>

datatype window_op =
    SizeOp | SizeUnaryOp | SumOp | MedianOp | QuantileOp (quantile_q: rat) (quantile_floor: bool)
  | ApproxQuartilesOp (quartile: int) | ApproxTopCountOp (top_number: int)
  | MeanOp (mean_floor: bool) | ProductOp | MaxOp | MinOp | StdOp (std_floor: bool) | VarOp | PopVarOp
  | CountOp | ArrayAggOp | StringAggOp (agg_sep: string) | QcutOp (quantiles: int)
  | NuniqueOp | AnyValueOp | RowNumberOp | RankOp | DenseRankOp
  | FirstOp | FirstNonNullOp | LastOp | LastNonNullOp
  | ShiftOp (shift_periods: int) | DiffOp (diff_periods: int)
  | TimeSeriesDiffOp (ts_periods: int) | DateSeriesDiffOp (ds_periods: int)
  | AllOp | AnyOp | CorrOp | CovOp

definition orderable_type :: "etype \<Rightarrow> etype result" where
  "orderable_type t = (if \<not> is_orderable t then Inl TypeError else Inr t)"

definition timedelta_or :: "(etype \<Rightarrow> etype result) \<Rightarrow> etype \<Rightarrow> etype result" where
  "timedelta_or f t = (if t = Some TIMEDELTA_DTYPE then Inr (Some TIMEDELTA_DTYPE) else f t)"

text \<open>
  \<open>output_type\<close>, in the order of the classes. A list or struct type needs an Arrow element
  type; the null type has none there, so those branches raise on it.
\<close>

definition SumOp_output_type :: "etype \<Rightarrow> etype result" where
  "SumOp_output_type t =
     (if t = Some TIMEDELTA_DTYPE then Inr (Some TIMEDELTA_DTYPE)
      else if is_numeric t then Inr (if t = Some BOOL_DTYPE then Some INT_DTYPE else t)
      else Inl TypeError)"

definition MedianOp_output_type :: "etype \<Rightarrow> etype result" where
  "MedianOp_output_type t =
     (if \<not> is_orderable t then Inl TypeError
      else Inr (if t = Some BOOL_DTYPE then Some INT_DTYPE else t))"

definition DiffOp_output_type :: "etype \<Rightarrow> etype result" where
  "DiffOp_output_type t = (if is_date_like t then Inr (Some TIMEDELTA_DTYPE) else Inr t)"

definition ApproxTopCountOp_output_type :: "etype \<Rightarrow> etype result" where
  "ApproxTopCountOp_output_type t =
     rbind (orderable_type t) (\<lambda>_. case t of
       None \<Rightarrow> Inl ValueError
     | Some d \<Rightarrow> Inr (Some (LIST_DTYPE (STRUCT_DTYPE [(''value'', d), (''count'', INT_DTYPE)]))))"

text \<open>
  The properties of an operator class: number of arguments, traits and \<open>output_type\<close>. The
  trait on nulls and \<open>min_values\<close> is the negation of \<open>skips_nulls\<close> unless a class overrides it.
\<close>

record window_traits =
  t_arguments :: nat
  t_skips_nulls :: bool
  t_nulls_count :: "bool option"
  t_implicitly_inherits_order :: bool
  t_order_independent :: bool
  t_can_be_windowized :: bool
  t_output_type :: signature

definition WindowOp_traits :: window_traits where
  "WindowOp_traits = \<lparr>t_arguments = 0, t_skips_nulls = True, t_nulls_count = None,
     t_implicitly_inherits_order = True, t_order_independent = False, t_can_be_windowized = True,
     t_output_type = (\<lambda>_. Inl NotImplementedError)\<rparr>"

definition UnaryWindowOp_traits :: window_traits where
  "UnaryWindowOp_traits = WindowOp_traits\<lparr>t_arguments := 1, t_output_type := (\<lambda>ts. arg ts 0)\<rparr>"

definition AggregateOp_traits :: "window_traits \<Rightarrow> window_traits" where
  "AggregateOp_traits base = base\<lparr>t_order_independent := True\<rparr>"

definition NullaryAggregateOp_traits :: window_traits where
  "NullaryAggregateOp_traits = AggregateOp_traits WindowOp_traits\<lparr>t_arguments := 0\<rparr>"

definition UnaryAggregateOp_traits :: window_traits where
  "UnaryAggregateOp_traits = AggregateOp_traits UnaryWindowOp_traits"

definition BinaryAggregateOp_traits :: window_traits where
  "BinaryAggregateOp_traits = AggregateOp_traits WindowOp_traits\<lparr>t_arguments := 2\<rparr>"

definition SizeOp_traits :: window_traits where
  "SizeOp_traits = NullaryAggregateOp_traits\<lparr>t_output_type := (\<lambda>_. Inr (Some INT_DTYPE))\<rparr>"

definition SizeUnaryOp_traits :: window_traits where
  "SizeUnaryOp_traits = UnaryAggregateOp_traits\<lparr>t_skips_nulls := False,
     t_output_type := (\<lambda>_. Inr (Some INT_DTYPE))\<rparr>"

definition SumOp_traits :: window_traits where
  "SumOp_traits = UnaryAggregateOp_traits\<lparr>t_output_type := (\<lambda>ts. rbind (arg ts 0) SumOp_output_type)\<rparr>"

definition MedianOp_traits :: window_traits where
  "MedianOp_traits = UnaryAggregateOp_traits\<lparr>t_order_independent := True,
     t_output_type := (\<lambda>ts. rbind (arg ts 0) MedianOp_output_type)\<rparr>"

definition QuantileOp_traits :: window_traits where
  "QuantileOp_traits = UnaryAggregateOp_traits\<lparr>t_order_independent := True,
     t_output_type := (\<lambda>ts. rbind (arg ts 0) (timedelta_or UnaryRealNumeric))\<rparr>"

definition ApproxQuartilesOp_traits :: window_traits where
  "ApproxQuartilesOp_traits = UnaryAggregateOp_traits\<lparr>t_output_type := (\<lambda>ts. rbind (arg ts 0) orderable_type),
     t_can_be_windowized := False\<rparr>"

definition ApproxTopCountOp_traits :: window_traits where
  "ApproxTopCountOp_traits = UnaryAggregateOp_traits\<lparr>t_output_type := (\<lambda>ts. rbind (arg ts 0) ApproxTopCountOp_output_type),
     t_can_be_windowized := False\<rparr>"

definition MeanOp_traits :: window_traits where
  "MeanOp_traits = UnaryAggregateOp_traits\<lparr>t_output_type := (\<lambda>ts. rbind (arg ts 0) (timedelta_or UnaryRealNumeric))\<rparr>"

definition ProductOp_traits :: window_traits where
  "ProductOp_traits = UnaryAggregateOp_traits\<lparr>t_output_type := (\<lambda>ts. rbind (arg ts 0) (FixedOutputType is_numeric (Some FLOAT_DTYPE)))\<rparr>"

definition MaxOp_traits :: window_traits where
  "MaxOp_traits = UnaryAggregateOp_traits\<lparr>t_output_type := (\<lambda>ts. rbind (arg ts 0) (TypePreserving is_orderable))\<rparr>"

definition MinOp_traits :: window_traits where
  "MinOp_traits = UnaryAggregateOp_traits\<lparr>t_output_type := (\<lambda>ts. rbind (arg ts 0) (TypePreserving is_orderable))\<rparr>"

definition StdOp_traits :: window_traits where
  "StdOp_traits = UnaryAggregateOp_traits\<lparr>t_output_type := (\<lambda>ts. rbind (arg ts 0) (timedelta_or (FixedOutputType is_numeric (Some FLOAT_DTYPE))))\<rparr>"

definition VarOp_traits :: window_traits where
  "VarOp_traits = UnaryAggregateOp_traits\<lparr>t_output_type := (\<lambda>ts. rbind (arg ts 0) (FixedOutputType is_numeric (Some FLOAT_DTYPE)))\<rparr>"

definition PopVarOp_traits :: window_traits where
  "PopVarOp_traits = UnaryAggregateOp_traits\<lparr>t_output_type := (\<lambda>ts. rbind (arg ts 0) (FixedOutputType is_numeric (Some FLOAT_DTYPE)))\<rparr>"

definition CountOp_traits :: window_traits where
  "CountOp_traits = UnaryAggregateOp_traits\<lparr>t_skips_nulls := False,
     t_output_type := (\<lambda>ts. rbind (arg ts 0) (FixedOutputType (\<lambda>_. True) (Some INT_DTYPE)))\<rparr>"

definition ArrayAggOp_traits :: window_traits where
  "ArrayAggOp_traits = UnaryAggregateOp_traits\<lparr>t_order_independent := False,
     t_skips_nulls := True,
     t_output_type := (\<lambda>ts. rbind (arg ts 0) (\<lambda>t. case t of None \<Rightarrow> Inl ValueError | Some d \<Rightarrow> Inr (Some (LIST_DTYPE d))))\<rparr>"

definition StringAggOp_traits :: window_traits where
  "StringAggOp_traits = UnaryAggregateOp_traits\<lparr>t_order_independent := False,
     t_skips_nulls := True,
     t_output_type := (\<lambda>ts. rbind (arg ts 0) (\<lambda>t. if t \<noteq> Some STRING_DTYPE then Inl TypeError else Inr (Some STRING_DTYPE)))\<rparr>"

definition QcutOp_traits :: window_traits where
  "QcutOp_traits = UnaryWindowOp_traits\<lparr>t_skips_nulls := False,
     t_output_type := (\<lambda>ts. rbind (arg ts 0) (FixedOutputType is_orderable (Some INT_DTYPE))),
     t_order_independent := True\<rparr>"

definition NuniqueOp_traits :: window_traits where
  "NuniqueOp_traits = UnaryAggregateOp_traits\<lparr>t_skips_nulls := False,
     t_output_type := (\<lambda>_. Inr (Some INT_DTYPE))\<rparr>"

definition AnyValueOp_traits :: window_traits where
  "AnyValueOp_traits = UnaryAggregateOp_traits\<lparr>t_skips_nulls := True\<rparr>"

definition RowNumberOp_traits :: window_traits where
  "RowNumberOp_traits = WindowOp_traits\<lparr>t_skips_nulls := False,
     t_output_type := (\<lambda>_. Inr (Some INT_DTYPE))\<rparr>"

definition RankOp_traits :: window_traits where
  "RankOp_traits = UnaryWindowOp_traits\<lparr>t_skips_nulls := False,
     t_output_type := (\<lambda>_. Inr (Some INT_DTYPE)),
     t_implicitly_inherits_order := False\<rparr>"

definition DenseRankOp_traits :: window_traits where
  "DenseRankOp_traits = UnaryWindowOp_traits\<lparr>t_skips_nulls := False,
     t_output_type := (\<lambda>_. Inr (Some INT_DTYPE)),
     t_implicitly_inherits_order := False\<rparr>"

definition FirstOp_traits :: window_traits where
  "FirstOp_traits = UnaryWindowOp_traits"

definition FirstNonNullOp_traits :: window_traits where
  "FirstNonNullOp_traits = UnaryWindowOp_traits\<lparr>t_skips_nulls := False,
     t_nulls_count := Some False\<rparr>"

definition LastOp_traits :: window_traits where
  "LastOp_traits = UnaryWindowOp_traits"

definition LastNonNullOp_traits :: window_traits where
  "LastNonNullOp_traits = UnaryWindowOp_traits\<lparr>t_skips_nulls := False,
     t_nulls_count := Some False\<rparr>"

definition ShiftOp_traits :: window_traits where
  "ShiftOp_traits = UnaryWindowOp_traits\<lparr>t_skips_nulls := False\<rparr>"

definition DiffOp_traits :: window_traits where
  "DiffOp_traits = UnaryWindowOp_traits\<lparr>t_skips_nulls := False,
     t_output_type := (\<lambda>ts. rbind (arg ts 0) DiffOp_output_type)\<rparr>"

definition TimeSeriesDiffOp_traits :: window_traits where
  "TimeSeriesDiffOp_traits = UnaryWindowOp_traits\<lparr>t_skips_nulls := False,
     t_output_type := (\<lambda>ts. rbind (arg ts 0) (\<lambda>t. if is_datetime_like t then Inr (Some TIMEDELTA_DTYPE) else Inl TypeError))\<rparr>"

definition DateSeriesDiffOp_traits :: window_traits where
  "DateSeriesDiffOp_traits = UnaryWindowOp_traits\<lparr>t_skips_nulls := False,
     t_output_type := (\<lambda>ts. rbind (arg ts 0) (\<lambda>t. if t = Some DATE_DTYPE then Inr (Some TIMEDELTA_DTYPE) else Inl TypeError))\<rparr>"

definition AllOp_traits :: window_traits where
  "AllOp_traits = UnaryAggregateOp_traits\<lparr>t_output_type := (\<lambda>ts. rbind (arg ts 0) (FixedOutputType is_bool_coercable (Some BOOL_DTYPE)))\<rparr>"

definition AnyOp_traits :: window_traits where
  "AnyOp_traits = UnaryAggregateOp_traits\<lparr>t_output_type := (\<lambda>ts. rbind (arg ts 0) (FixedOutputType is_bool_coercable (Some BOOL_DTYPE)))\<rparr>"

definition CorrOp_traits :: window_traits where
  "CorrOp_traits = BinaryAggregateOp_traits\<lparr>t_output_type := with_two BinaryRealNumeric\<rparr>"

definition CovOp_traits :: window_traits where
  "CovOp_traits = BinaryAggregateOp_traits\<lparr>t_output_type := with_two BinaryRealNumeric\<rparr>"

fun window_op_traits :: "window_op \<Rightarrow> window_traits" where
  "window_op_traits SizeOp = SizeOp_traits"
| "window_op_traits SizeUnaryOp = SizeUnaryOp_traits"
| "window_op_traits SumOp = SumOp_traits"
| "window_op_traits MedianOp = MedianOp_traits"
| "window_op_traits (QuantileOp _ _) = QuantileOp_traits"
| "window_op_traits (ApproxQuartilesOp _) = ApproxQuartilesOp_traits"
| "window_op_traits (ApproxTopCountOp _) = ApproxTopCountOp_traits"
| "window_op_traits (MeanOp _) = MeanOp_traits"
| "window_op_traits ProductOp = ProductOp_traits"
| "window_op_traits MaxOp = MaxOp_traits"
| "window_op_traits MinOp = MinOp_traits"
| "window_op_traits (StdOp _) = StdOp_traits"
| "window_op_traits VarOp = VarOp_traits"
| "window_op_traits PopVarOp = PopVarOp_traits"
| "window_op_traits CountOp = CountOp_traits"
| "window_op_traits ArrayAggOp = ArrayAggOp_traits"
| "window_op_traits (StringAggOp _) = StringAggOp_traits"
| "window_op_traits (QcutOp _) = QcutOp_traits"
| "window_op_traits NuniqueOp = NuniqueOp_traits"
| "window_op_traits AnyValueOp = AnyValueOp_traits"
| "window_op_traits RowNumberOp = RowNumberOp_traits"
| "window_op_traits RankOp = RankOp_traits"
| "window_op_traits DenseRankOp = DenseRankOp_traits"
| "window_op_traits FirstOp = FirstOp_traits"
| "window_op_traits FirstNonNullOp = FirstNonNullOp_traits"
| "window_op_traits LastOp = LastOp_traits"
| "window_op_traits LastNonNullOp = LastNonNullOp_traits"
| "window_op_traits (ShiftOp _) = ShiftOp_traits"
| "window_op_traits (DiffOp _) = DiffOp_traits"
| "window_op_traits (TimeSeriesDiffOp _) = TimeSeriesDiffOp_traits"
| "window_op_traits (DateSeriesDiffOp _) = DateSeriesDiffOp_traits"
| "window_op_traits AllOp = AllOp_traits"
| "window_op_traits AnyOp = AnyOp_traits"
| "window_op_traits CorrOp = CorrOp_traits"
| "window_op_traits CovOp = CovOp_traits"

definition order_independent :: "window_op \<Rightarrow> bool" where
  "order_independent op = t_order_independent (window_op_traits op)"
definition implicitly_inherits_order :: "window_op \<Rightarrow> bool" where
  "implicitly_inherits_order op = t_implicitly_inherits_order (window_op_traits op)"
definition skips_nulls :: "window_op \<Rightarrow> bool" where
  "skips_nulls op = t_skips_nulls (window_op_traits op)"
definition nulls_count_for_min_values :: "window_op \<Rightarrow> bool" where
  "nulls_count_for_min_values op =
     (case t_nulls_count (window_op_traits op) of None \<Rightarrow> \<not> skips_nulls op | Some b \<Rightarrow> b)"
definition can_be_windowized :: "window_op \<Rightarrow> bool" where
  "can_be_windowized op = t_can_be_windowized (window_op_traits op)"
definition win_output_type :: "window_op \<Rightarrow> signature" where
  "win_output_type op = t_output_type (window_op_traits op)"

lemmas window_traits_defs = WindowOp_traits_def UnaryWindowOp_traits_def AggregateOp_traits_def
  NullaryAggregateOp_traits_def UnaryAggregateOp_traits_def BinaryAggregateOp_traits_def
  SizeOp_traits_def SizeUnaryOp_traits_def SumOp_traits_def MedianOp_traits_def
  QuantileOp_traits_def ApproxQuartilesOp_traits_def ApproxTopCountOp_traits_def
  MeanOp_traits_def ProductOp_traits_def MaxOp_traits_def MinOp_traits_def StdOp_traits_def
  VarOp_traits_def PopVarOp_traits_def CountOp_traits_def ArrayAggOp_traits_def
  StringAggOp_traits_def QcutOp_traits_def NuniqueOp_traits_def AnyValueOp_traits_def
  RowNumberOp_traits_def RankOp_traits_def DenseRankOp_traits_def FirstOp_traits_def
  FirstNonNullOp_traits_def LastOp_traits_def LastNonNullOp_traits_def ShiftOp_traits_def
  DiffOp_traits_def TimeSeriesDiffOp_traits_def DateSeriesDiffOp_traits_def AllOp_traits_def
  AnyOp_traits_def CorrOp_traits_def CovOp_traits_def

end
