(* ===== verification/Expressions.thy ===== *)
theory Expressions
  imports Operators
begin

text \<open>
  Column identifiers, fields and the expression trees of \<^verbatim>\<open>core/identifiers.py\<close>,
  \<^verbatim>\<open>core/field.py\<close>, \<^verbatim>\<open>core/expression.py\<close> and \<^verbatim>\<open>core/agg_expressions.py\<close>. An expression class
  becomes a constructor; the properties a class defines become one definition per class, from
  the class's own data and its children's properties (a record that plays the role of the
  method table), and dispatch is the primitive recursion \<open>expr_props\<close>.
\<close>

subsection \<open>Column identifiers and fields\<close>

datatype column_id = ColumnId (id_name: string) | SerialColumnId (id_name: string) (id_serial: nat)

fun digits :: "nat \<Rightarrow> string" where
  "digits n = (if n < 10 then [char_of (48 + n)] else digits (n div 10) @ [char_of (48 + n mod 10)])"

declare digits.simps [simp del]

fun id_sql :: "column_id \<Rightarrow> string" where
  "id_sql (ColumnId nm) = nm"
| "id_sql (SerialColumnId nm i) = nm @ ''_'' @ digits i"

fun local_normalized :: "column_id \<Rightarrow> column_id" where
  "local_normalized (ColumnId nm) = ColumnId nm"
| "local_normalized (SerialColumnId nm i) = ColumnId (id_sql (SerialColumnId nm i))"

text \<open>\<^verbatim>\<open>generate_guid\<close>: the counter is the state, the next identifier and counter the result.\<close>

definition generate_guid :: "string \<Rightarrow> nat \<Rightarrow> string \<times> nat" where
  "generate_guid prefix counter = (''bfuid_'' @ prefix @ digits (counter + 1), counter + 1)"

definition ColumnId_unique :: "nat \<Rightarrow> column_id \<times> nat" where
  "ColumnId_unique counter =
     (case generate_guid ''col_'' counter of (nm, counter') \<Rightarrow> (ColumnId nm, counter'))"

record field =
  field_id :: column_id
  field_dtype :: etype
  field_nullable :: bool

definition with_nullable :: "field \<Rightarrow> field" where
  "with_nullable f = \<lparr>field_id = field_id f, field_dtype = field_dtype f, field_nullable = True\<rparr>"

definition with_nonnull :: "field \<Rightarrow> field" where
  "with_nonnull f = \<lparr>field_id = field_id f, field_dtype = field_dtype f, field_nullable = False\<rparr>"

definition with_id :: "column_id \<Rightarrow> field \<Rightarrow> field" where
  "with_id i f = \<lparr>field_id = i, field_dtype = field_dtype f, field_nullable = field_nullable f\<rparr>"

lemma field_id_simps [simp]:
  "field_id (with_nullable f) = field_id f" "field_id (with_nonnull f) = field_id f"
  "field_id (with_id i f) = i"
  by (simp_all add: with_nullable_def with_nonnull_def with_id_def)

subsection \<open>The trees\<close>

text \<open>Python values of constants; \<open>NaV\<close> is \<^verbatim>\<open>pandas.NA\<close>, \<open>NanV\<close> the float not-a-number.\<close>

datatype pyvalue = NoneV | NaV | NanV | BoolV bool | IntV int | FloatV rat | StrV string

definition is_na :: "pyvalue \<Rightarrow> bool" where
  "is_na v \<longleftrightarrow> v \<in> {NoneV, NaV, NanV}"

datatype ordering_direction = ASC | DESC

datatype 'e ordering_expression =
  OrderingExpression (scalar_expression: 'e) (order_direction: ordering_direction) (na_last: bool)

text \<open>Window bounds; a range bound is a time distance in nanoseconds.\<close>

datatype window_bounds =
    RowsWindowBounds (bounds_start: "int option") (bounds_end: "int option")
  | RangeWindowBounds (bounds_start: "int option") (bounds_end: "int option")

datatype 'e window_spec =
  WindowSpec (grouping_keys: "'e list") (window_ordering: "'e ordering_expression list")
    (window_bounds: "window_bounds option") (min_periods: int)

text \<open>A column reference, bare or with the schema bound.\<close>

datatype deref = DerefOp (ref_id: column_id) | ResolvedDerefOp (ref_id: column_id) etype bool

datatype expr =
    ScalarConstantExpression pyvalue etype
  | UnboundVariableExpression string
  | Deref deref
  | OpExpression scalar_op "expr list"
  | NullaryAggregation window_op
  | UnaryAggregation window_op expr
  | BinaryAggregation window_op expr expr
  | WindowExpression expr "expr window_spec"

definition window_expressions :: "'e window_spec \<Rightarrow> 'e list" where
  "window_expressions w = grouping_keys w @ map scalar_expression (window_ordering w)"

text \<open>\<^verbatim>\<open>WindowSpec.transform_exprs\<close> is the map of the datatype; its fallible form below.\<close>

definition transform_exprs :: "('e \<Rightarrow> 'f) \<Rightarrow> 'e window_spec \<Rightarrow> 'f window_spec" where
  "transform_exprs t w =
     WindowSpec (map t (grouping_keys w)) (map (map_ordering_expression t) (window_ordering w))
       (window_bounds w) (min_periods w)"

lemma transform_exprs_map: "transform_exprs t w = map_window_spec t w"
  by (cases w) (simp add: transform_exprs_def)

fun children :: "expr \<Rightarrow> expr list" where
  "children (OpExpression op inputs) = inputs"
| "children (UnaryAggregation op a) = [a]"
| "children (BinaryAggregation op l r) = [l, r]"
| "children (WindowExpression a w) = a # window_expressions w"
| "children _ = []"

subsection \<open>The properties of each class\<close>

record expr_info =
  p_free_variables :: "string list"
  p_column_references :: "column_id list"
  p_is_const :: bool
  p_nullable :: bool
  p_is_resolved :: bool
  p_output_type :: "etype result"
  p_is_bijective :: bool
  p_deterministic :: bool
  p_is_identity :: bool
  p_is_scalar_expr :: bool

text \<open>
  \<^verbatim>\<open>Expression\<close>: the defaults, from the children's properties. The abstract properties have no
  default; every class below gives them.
\<close>

definition Expression_props :: "expr_info list \<Rightarrow> expr_info" where
  "Expression_props cs = \<lparr>p_free_variables = [], p_column_references = [], p_is_const = False,
     p_nullable = True, p_is_resolved = False, p_output_type = Inl NotImplementedError,
     p_is_bijective = False, p_deterministic = True, p_is_identity = False,
     p_is_scalar_expr = list_all p_is_scalar_expr cs\<rparr>"

definition ScalarConstantExpression_props :: "pyvalue \<Rightarrow> etype \<Rightarrow> expr_info" where
  "ScalarConstantExpression_props v t = (Expression_props [])\<lparr>p_is_const := True,
     p_column_references := [], p_nullable := is_na v, p_is_resolved := True,
     p_output_type := Inr t, p_is_bijective := True\<rparr>"

definition UnboundVariableExpression_props :: "string \<Rightarrow> expr_info" where
  "UnboundVariableExpression_props i = (Expression_props [])\<lparr>p_free_variables := [i],
     p_is_const := False, p_column_references := [], p_is_resolved := False,
     p_output_type := Inl ValueError, p_is_bijective := True, p_is_identity := True\<rparr>"

definition DerefOp_props :: "column_id \<Rightarrow> expr_info" where
  "DerefOp_props i = (Expression_props [])\<lparr>p_column_references := [i], p_is_const := False,
     p_nullable := True, p_is_resolved := False, p_output_type := Inl ValueError,
     p_is_bijective := True, p_is_identity := True\<rparr>"

definition ResolvedDerefOp_props :: "column_id \<Rightarrow> etype \<Rightarrow> bool \<Rightarrow> expr_info" where
  "ResolvedDerefOp_props i t n = (DerefOp_props i)\<lparr>p_is_resolved := True, p_nullable := n,
     p_output_type := Inr t\<rparr>"

definition deref_props :: "deref \<Rightarrow> expr_info" where
  "deref_props d = (case d of DerefOp i \<Rightarrow> DerefOp_props i
                    | ResolvedDerefOp i t n \<Rightarrow> ResolvedDerefOp_props i t n)"

text \<open>
  \<^verbatim>\<open>OpExpression.nullable\<close> asks the expression's own \<^verbatim>\<open>is_identity\<close>, which this class does not
  override, so it is always true.
\<close>

definition OpExpression_props :: "scalar_op \<Rightarrow> expr_info list \<Rightarrow> expr_info" where
  "OpExpression_props op cs =
     (let base = Expression_props cs; resolved = list_all p_is_resolved cs
      in base\<lparr>p_column_references := concat (map p_column_references cs),
           p_free_variables := concat (map p_free_variables cs),
           p_is_const := list_all p_is_const cs,
           p_nullable := \<not> (p_is_identity base \<and> \<not> list_ex p_nullable cs),
           p_is_resolved := resolved,
           p_output_type := (if \<not> resolved then Inl ValueError
                             else rbind (mapM p_output_type cs) (op_output_type op)),
           p_is_bijective := list_all p_is_bijective cs \<and> op_is_bijective op,
           p_deterministic := list_all p_deterministic cs \<and> op_deterministic op\<rparr>)"

definition Aggregation_props :: "window_op \<Rightarrow> expr_info list \<Rightarrow> expr_info" where
  "Aggregation_props op cs =
     (let resolved = list_all p_is_resolved cs
      in (Expression_props cs)\<lparr>p_column_references := concat (map p_column_references cs),
           p_free_variables := concat (map p_free_variables cs),
           p_is_const := list_all p_is_const cs,
           p_is_resolved := resolved,
           p_output_type := (if \<not> resolved then Inl ValueError
                             else rbind (mapM p_output_type cs) (win_output_type op)),
           p_is_scalar_expr := False\<rparr>)"

definition WindowExpression_props :: "expr_info \<Rightarrow> expr_info window_spec \<Rightarrow> expr_info" where
  "WindowExpression_props a w =
     (let cs = a # window_expressions w
      in (Expression_props cs)\<lparr>p_column_references := concat (map p_column_references cs),
           p_free_variables := concat (map p_free_variables cs),
           p_is_const := list_all p_is_const cs,
           p_is_resolved := list_all p_is_resolved cs,
           p_output_type := p_output_type a,
           p_is_scalar_expr := False\<rparr>)"

primrec expr_props :: "expr \<Rightarrow> expr_info" where
  "expr_props (ScalarConstantExpression v t) = ScalarConstantExpression_props v t"
| "expr_props (UnboundVariableExpression i) = UnboundVariableExpression_props i"
| "expr_props (Deref d) = deref_props d"
| "expr_props (OpExpression op inputs) = OpExpression_props op (map expr_props inputs)"
| "expr_props (NullaryAggregation op) = Aggregation_props op []"
| "expr_props (UnaryAggregation op a) = Aggregation_props op [expr_props a]"
| "expr_props (BinaryAggregation op l r) = Aggregation_props op [expr_props l, expr_props r]"
| "expr_props (WindowExpression a w) = WindowExpression_props (expr_props a) (map_window_spec expr_props w)"

definition free_variables :: "expr \<Rightarrow> string list" where
  "free_variables e = p_free_variables (expr_props e)"
definition column_references :: "expr \<Rightarrow> column_id list" where
  "column_references e = p_column_references (expr_props e)"
definition is_const :: "expr \<Rightarrow> bool" where "is_const e = p_is_const (expr_props e)"
definition nullable :: "expr \<Rightarrow> bool" where "nullable e = p_nullable (expr_props e)"
definition is_resolved :: "expr \<Rightarrow> bool" where "is_resolved e = p_is_resolved (expr_props e)"
definition output_type :: "expr \<Rightarrow> etype result" where "output_type e = p_output_type (expr_props e)"
definition is_bijective :: "expr \<Rightarrow> bool" where "is_bijective e = p_is_bijective (expr_props e)"
definition deterministic :: "expr \<Rightarrow> bool" where "deterministic e = p_deterministic (expr_props e)"
definition is_identity :: "expr \<Rightarrow> bool" where "is_identity e = p_is_identity (expr_props e)"
definition is_scalar_expr :: "expr \<Rightarrow> bool" where "is_scalar_expr e = p_is_scalar_expr (expr_props e)"

definition is_aggregation :: "expr \<Rightarrow> bool" where
  "is_aggregation e = (case e of NullaryAggregation _ \<Rightarrow> True | UnaryAggregation _ _ \<Rightarrow> True
                       | BinaryAggregation _ _ _ \<Rightarrow> True | _ \<Rightarrow> False)"

text \<open>The operator of an aggregation; another expression has no such operator.\<close>

definition agg_op :: "expr \<Rightarrow> window_op result" where
  "agg_op e = (case e of NullaryAggregation op \<Rightarrow> Inr op | UnaryAggregation op _ \<Rightarrow> Inr op
               | BinaryAggregation op _ _ \<Rightarrow> Inr op | _ \<Rightarrow> Inl AttributeError)"

text \<open>Constants get the type of their value where none is given.\<close>

fun infer_literal_type :: "pyvalue \<Rightarrow> etype" where
  "infer_literal_type NoneV = None"
| "infer_literal_type NaV = None"
| "infer_literal_type NanV = None"
| "infer_literal_type (BoolV b) = Some BOOL_DTYPE"
| "infer_literal_type (IntV i) = Some INT_DTYPE"
| "infer_literal_type (FloatV q) = Some FLOAT_DTYPE"
| "infer_literal_type (StrV s) = Some STRING_DTYPE"

definition const :: "pyvalue \<Rightarrow> etype \<Rightarrow> expr" where
  "const v t = ScalarConstantExpression v (if t \<noteq> None then t else infer_literal_type v)"

text \<open>
  \<^verbatim>\<open>walk\<close> yields the expression and then, for every child, that child's own children; and
  \<^verbatim>\<open>expensive\<close> asks whether an operator yielded by it is.
\<close>

definition walk :: "expr \<Rightarrow> expr list" where
  "walk e = e # concat (map children (children e))"

definition expensive :: "expr \<Rightarrow> bool" where
  "expensive e \<longleftrightarrow>
     list_ex (\<lambda>x. case x of OpExpression op _ \<Rightarrow> op_expensive op | _ \<Rightarrow> False) (walk e)"


subsection \<open>Binding references and variables\<close>

definition sequence_all :: "'a result list \<Rightarrow> 'a list result" where
  "sequence_all rs = mapM (\<lambda>r. r) rs"

definition sequence_order :: "'a result ordering_expression \<Rightarrow> 'a ordering_expression result" where
  "sequence_order p = rbind (scalar_expression p)
     (\<lambda>e. Inr (OrderingExpression e (order_direction p) (na_last p)))"

definition sequence_window :: "'a result window_spec \<Rightarrow> 'a window_spec result" where
  "sequence_window w =
     rbind (sequence_all (grouping_keys w)) (\<lambda>ks.
       rbind (mapM sequence_order (window_ordering w)) (\<lambda>os.
         Inr (WindowSpec ks os (window_bounds w) (min_periods w))))"

type_synonym bindings = "column_id \<Rightarrow> expr option"

text \<open>\<open>partial\<close> is the flag \<^verbatim>\<open>allow_partial_bindings\<close>.\<close>

definition bind_deref :: "bindings \<Rightarrow> bool \<Rightarrow> deref \<Rightarrow> expr result" where
  "bind_deref b partial d =
     (case b (ref_id d) of
        Some e \<Rightarrow> Inr e
      | None \<Rightarrow> if \<not> partial then Inl ValueError else Inr (Deref d))"

primrec bind_refs :: "bindings \<Rightarrow> bool \<Rightarrow> expr \<Rightarrow> expr result" where
  "bind_refs b partial (ScalarConstantExpression v t) = Inr (ScalarConstantExpression v t)"
| "bind_refs b partial (UnboundVariableExpression i) = Inr (UnboundVariableExpression i)"
| "bind_refs b partial (Deref d) = bind_deref b partial d"
| "bind_refs b partial (OpExpression op inputs) =
     rbind (sequence_all (map (bind_refs b partial) inputs)) (\<lambda>xs. Inr (OpExpression op xs))"
| "bind_refs b partial (NullaryAggregation op) = Inr (NullaryAggregation op)"
| "bind_refs b partial (UnaryAggregation op a) =
     rbind (bind_refs b partial a) (\<lambda>a'. Inr (UnaryAggregation op a'))"
| "bind_refs b partial (BinaryAggregation op l r) =
     rbind (bind_refs b partial l) (\<lambda>l'. rbind (bind_refs b partial r)
       (\<lambda>r'. Inr (BinaryAggregation op l' r')))"
| "bind_refs b partial (WindowExpression a w) =
     rbind (bind_refs b partial a) (\<lambda>a'.
       rbind (sequence_window (map_window_spec (bind_refs b partial) w))
         (\<lambda>w'. Inr (WindowExpression a' w')))"

primrec bind_variables :: "(string \<Rightarrow> expr option) \<Rightarrow> bool \<Rightarrow> expr \<Rightarrow> expr result" where
  "bind_variables b partial (ScalarConstantExpression v t) = Inr (ScalarConstantExpression v t)"
| "bind_variables b partial (UnboundVariableExpression i) =
     (case b i of
        Some e \<Rightarrow> Inr e
      | None \<Rightarrow> if \<not> partial then Inl ValueError else Inr (UnboundVariableExpression i))"
| "bind_variables b partial (Deref d) = Inr (Deref d)"
| "bind_variables b partial (OpExpression op inputs) =
     rbind (sequence_all (map (bind_variables b partial) inputs)) (\<lambda>xs. Inr (OpExpression op xs))"
| "bind_variables b partial (NullaryAggregation op) = Inr (NullaryAggregation op)"
| "bind_variables b partial (UnaryAggregation op a) =
     rbind (bind_variables b partial a) (\<lambda>a'. Inr (UnaryAggregation op a'))"
| "bind_variables b partial (BinaryAggregation op l r) =
     rbind (bind_variables b partial l) (\<lambda>l'. rbind (bind_variables b partial r)
       (\<lambda>r'. Inr (BinaryAggregation op l' r')))"
| "bind_variables b partial (WindowExpression a w) =
     rbind (bind_variables b partial a) (\<lambda>a'.
       rbind (sequence_window (map_window_spec (bind_variables b partial) w))
         (\<lambda>w'. Inr (WindowExpression a' w')))"

type_synonym id_mapping = "column_id \<Rightarrow> column_id option"

definition deref_bindings :: "id_mapping \<Rightarrow> bindings" where
  "deref_bindings m i = map_option (\<lambda>j. Deref (DerefOp j)) (m i)"

definition remap_column_refs :: "id_mapping \<Rightarrow> bool \<Rightarrow> expr \<Rightarrow> expr result" where
  "remap_column_refs m partial e = bind_refs (deref_bindings m) partial e"

definition bind_schema_fields :: "expr \<Rightarrow> (column_id \<Rightarrow> field option) \<Rightarrow> expr result" where
  "bind_schema_fields e field_by_id =
     (if is_resolved e then Inr e
      else bind_refs (\<lambda>i. map_option
             (\<lambda>f. Deref (ResolvedDerefOp (field_id f) (field_dtype f) (field_nullable f)))
             (field_by_id i)) False e)"

text \<open>\<^verbatim>\<open>transform_children\<close> and the bottom-up transformation.\<close>

fun expr_transform_children :: "(expr \<Rightarrow> expr) \<Rightarrow> expr \<Rightarrow> expr" where
  "expr_transform_children t (OpExpression op inputs) = OpExpression op (map t inputs)"
| "expr_transform_children t (UnaryAggregation op a) = UnaryAggregation op (t a)"
| "expr_transform_children t (BinaryAggregation op l r) = BinaryAggregation op (t l) (t r)"
| "expr_transform_children t (WindowExpression a w) = WindowExpression (t a) (transform_exprs t w)"
| "expr_transform_children t e = e"

primrec expr_bottom_up :: "(expr \<Rightarrow> expr) \<Rightarrow> expr \<Rightarrow> expr" where
  "expr_bottom_up t (ScalarConstantExpression v ty) = t (ScalarConstantExpression v ty)"
| "expr_bottom_up t (UnboundVariableExpression i) = t (UnboundVariableExpression i)"
| "expr_bottom_up t (Deref d) = t (Deref d)"
| "expr_bottom_up t (OpExpression op inputs) = t (OpExpression op (map (expr_bottom_up t) inputs))"
| "expr_bottom_up t (NullaryAggregation op) = t (NullaryAggregation op)"
| "expr_bottom_up t (UnaryAggregation op a) = t (UnaryAggregation op (expr_bottom_up t a))"
| "expr_bottom_up t (BinaryAggregation op l r) =
     t (BinaryAggregation op (expr_bottom_up t l) (expr_bottom_up t r))"
| "expr_bottom_up t (WindowExpression a w) =
     t (WindowExpression (expr_bottom_up t a) (map_window_spec (expr_bottom_up t) w))"

subsection \<open>Substitution: what binding does when it does not raise\<close>

primrec subst_expr :: "(deref \<Rightarrow> expr) \<Rightarrow> expr \<Rightarrow> expr" where
  "subst_expr s (ScalarConstantExpression v t) = ScalarConstantExpression v t"
| "subst_expr s (UnboundVariableExpression i) = UnboundVariableExpression i"
| "subst_expr s (Deref d) = s d"
| "subst_expr s (OpExpression op inputs) = OpExpression op (map (subst_expr s) inputs)"
| "subst_expr s (NullaryAggregation op) = NullaryAggregation op"
| "subst_expr s (UnaryAggregation op a) = UnaryAggregation op (subst_expr s a)"
| "subst_expr s (BinaryAggregation op l r) = BinaryAggregation op (subst_expr s l) (subst_expr s r)"
| "subst_expr s (WindowExpression a w) = WindowExpression (subst_expr s a) (map_window_spec (subst_expr s) w)"

definition bound_to :: "bindings \<Rightarrow> deref \<Rightarrow> expr" where
  "bound_to b d = (case b (ref_id d) of None \<Rightarrow> Deref d | Some e \<Rightarrow> e)"

lemma window_expressions_map: "window_expressions (map_window_spec f w) = map f (window_expressions w)"
  by (cases w) (auto simp: window_expressions_def ordering_expression.map_sel)

lemma set_ordering_expression_eq [simp]: "set_ordering_expression p = {scalar_expression p}"
  by (cases p) simp

lemma set_window_expressions: "set (window_expressions w) = set_window_spec w"
  by (cases w) (auto simp: window_expressions_def)

lemma mapM_error:
  assumes "\<And>x. x \<in> set xs \<Longrightarrow> f x = (if P x then Inr (g x) else Inl err)"
  shows "mapM f xs = (if list_all P xs then Inr (map g xs) else Inl err)"
  using assms by (induction xs) auto

lemma mapM_map: "mapM f (map g xs) = mapM (\<lambda>x. f (g x)) xs"
  by (induction xs) auto

lemma sequence_window_error:
  assumes "\<And>x. x \<in> set_window_spec w \<Longrightarrow> f x = (if P x then Inr (g x) else Inl err)"
  shows "sequence_window (map_window_spec f w) =
    (if list_all P (window_expressions w) then Inr (map_window_spec g w) else Inl err)"
proof (cases w)
  case (WindowSpec ks os bnd mp)
  have "mapM f ks = (if list_all P ks then Inr (map g ks) else Inl err)"
    using assms WindowSpec by (intro mapM_error) auto
  moreover have "mapM (\<lambda>p. sequence_order (map_ordering_expression f p)) os =
      (if list_all (\<lambda>p. P (scalar_expression p)) os
       then Inr (map (map_ordering_expression g) os) else Inl err)"
  proof (rule mapM_error)
    fix p assume "p \<in> set os"
    moreover obtain e d n where "p = OrderingExpression e d n" by (cases p)
    ultimately show "sequence_order (map_ordering_expression f p) =
        (if P (scalar_expression p) then Inr (map_ordering_expression g p) else Inl err)"
      using assms [of e] WindowSpec by (force simp: sequence_order_def)
  qed
  ultimately show ?thesis
    using WindowSpec by (auto simp: sequence_window_def sequence_all_def mapM_map
        window_expressions_def list_all_iff)
qed


lemma references_simps [simp]:
  "column_references (ScalarConstantExpression v t) = []"
  "column_references (UnboundVariableExpression i) = []"
  "column_references (Deref d) = [ref_id d]"
  "column_references (OpExpression op inputs) = concat (map column_references inputs)"
  "column_references (NullaryAggregation w) = []"
  "column_references (UnaryAggregation w a) = column_references a"
  "column_references (BinaryAggregation w l r) = column_references l @ column_references r"
  "column_references (WindowExpression a ws) =
     column_references a @ concat (map column_references (window_expressions ws))"
  by (simp_all add: column_references_def [abs_def] ScalarConstantExpression_props_def
      UnboundVariableExpression_props_def deref_props_def DerefOp_props_def
      ResolvedDerefOp_props_def OpExpression_props_def Aggregation_props_def
      WindowExpression_props_def Expression_props_def Let_def comp_def window_expressions_map
      split: deref.split)

lemma resolved_simps [simp]:
  "is_resolved (ScalarConstantExpression v t)"
  "\<not> is_resolved (UnboundVariableExpression i)"
  "is_resolved (Deref d) \<longleftrightarrow> (case d of DerefOp _ \<Rightarrow> False | ResolvedDerefOp _ _ _ \<Rightarrow> True)"
  "is_resolved (OpExpression op inputs) \<longleftrightarrow> list_all is_resolved inputs"
  "is_resolved (NullaryAggregation w)"
  "is_resolved (UnaryAggregation w a) \<longleftrightarrow> is_resolved a"
  "is_resolved (BinaryAggregation w l r) \<longleftrightarrow> is_resolved l \<and> is_resolved r"
  "is_resolved (WindowExpression a ws) \<longleftrightarrow> is_resolved a \<and> list_all is_resolved (window_expressions ws)"
  by (simp_all add: is_resolved_def ScalarConstantExpression_props_def
      UnboundVariableExpression_props_def deref_props_def DerefOp_props_def
      ResolvedDerefOp_props_def OpExpression_props_def Aggregation_props_def
      WindowExpression_props_def Expression_props_def Let_def window_expressions_map
      list_all_iff split: deref.split)

lemma free_variables_simps [simp]:
  "free_variables (ScalarConstantExpression v t) = []"
  "free_variables (UnboundVariableExpression i) = [i]"
  "free_variables (Deref d) = []"
  "free_variables (OpExpression op inputs) = concat (map free_variables inputs)"
  "free_variables (NullaryAggregation w) = []"
  "free_variables (UnaryAggregation w a) = free_variables a"
  "free_variables (BinaryAggregation w l r) = free_variables l @ free_variables r"
  "free_variables (WindowExpression a ws) =
     free_variables a @ concat (map free_variables (window_expressions ws))"
  by (simp_all add: free_variables_def [abs_def] ScalarConstantExpression_props_def
      UnboundVariableExpression_props_def deref_props_def DerefOp_props_def
      ResolvedDerefOp_props_def OpExpression_props_def Aggregation_props_def
      WindowExpression_props_def Expression_props_def Let_def comp_def window_expressions_map
      split: deref.split)

definition all_bound :: "bindings \<Rightarrow> bool \<Rightarrow> expr \<Rightarrow> bool" where
  "all_bound b partial e \<longleftrightarrow> partial \<or> (\<forall>i \<in> set (column_references e). b i \<noteq> None)"

text \<open>
  Binding raises exactly when a strict binding misses a column; otherwise it is substitution.
\<close>

lemma bind_refs_subst:
  "bind_refs b partial e =
     (if all_bound b partial e then Inr (subst_expr (bound_to b) e) else Inl ValueError)"
proof (induction e)
  case (Deref d)
  then show ?case by (auto simp: bind_deref_def bound_to_def all_bound_def split: option.splits)
next
  case (OpExpression op inputs)
  then have "mapM (bind_refs b partial) inputs =
      (if list_all (all_bound b partial) inputs then Inr (map (subst_expr (bound_to b)) inputs)
       else Inl ValueError)"
    by (intro mapM_error)
  then show ?case
    by (auto simp: sequence_all_def mapM_map all_bound_def list_all_iff)
next
  case (WindowExpression a w)
  then have "sequence_window (map_window_spec (bind_refs b partial) w) =
      (if list_all (all_bound b partial) (window_expressions w)
       then Inr (map_window_spec (subst_expr (bound_to b)) w) else Inl ValueError)"
    by (intro sequence_window_error)
  with WindowExpression(1) show ?case
    by (auto simp: all_bound_def list_all_iff)
qed (auto simp: all_bound_def)

lemma bind_refs_Inr: "bind_refs b partial e = Inr e' \<Longrightarrow> e' = subst_expr (bound_to b) e"
  by (simp add: bind_refs_subst split: if_splits)

lemma bind_refs_partial [simp]: "bind_refs b True e = Inr (subst_expr (bound_to b) e)"
  by (simp add: bind_refs_subst all_bound_def)

lemma subst_expr_cong:
  assumes "\<And>d. ref_id d \<in> set (column_references e) \<Longrightarrow> s d = s' d"
  shows "subst_expr s e = subst_expr s' e"
  using assms
proof (induction e)
  case (WindowExpression a w)
  then have "map_window_spec (subst_expr s) w = map_window_spec (subst_expr s') w"
    by (intro window_spec.map_cong refl) (force simp: set_window_expressions)
  with WindowExpression show ?case by simp
qed (auto, blast?)

lemma subst_expr_Deref [simp]: "subst_expr Deref e = e"
proof (induction e)
  case (WindowExpression a w)
  then show ?case by (simp cong: window_spec.map_cong add: window_spec.map_ident)
qed (auto intro: map_eq_self)

lemma references_subst:
  "column_references (subst_expr (bound_to b) e) =
     concat (map (\<lambda>i. case b i of None \<Rightarrow> [i] | Some x \<Rightarrow> column_references x) (column_references e))"
proof (induction e)
  case (Deref d)
  then show ?case by (simp add: bound_to_def split: option.split)
next
  case (OpExpression op inputs)
  then show ?case by (induction inputs) auto
next
  case (WindowExpression a w)
  then have "concat (map (column_references \<circ> subst_expr (bound_to b)) xs) =
      concat (map (\<lambda>i. case b i of None \<Rightarrow> [i] | Some x \<Rightarrow> column_references x)
        (concat (map column_references xs)))" if "set xs \<subseteq> set_window_spec w" for xs
    using that by (induction xs) auto
  with WindowExpression show ?case
    by (simp add: window_expressions_map set_window_expressions)
qed auto

lemma resolved_subst:
  assumes "\<forall>i \<in> set (column_references e). \<exists>x. b i = Some x \<and> is_resolved x"
    and "free_variables e = []"
  shows "is_resolved (subst_expr (bound_to b) e)"
  using assms
proof (induction e)
  case (Deref d)
  then show ?case by (auto simp: bound_to_def)
next
  case (WindowExpression a w)
  then show ?case
    by (auto simp: window_expressions_map list_all_iff set_window_expressions)
qed (auto simp: list_all_iff)

end
