(* ===== verification/Schema.thy ===== *)
theory Schema
  imports Expressions
begin

text \<open>
  \<^verbatim>\<open>core/schema.py\<close>: an array schema is a sequence of named types; looking a type up goes
  through the dictionary of the items, in which a later item of the same name wins.
\<close>

type_synonym array_schema = "(string \<times> etype) list"

definition schema_names :: "array_schema \<Rightarrow> string list" where
  "schema_names items = map fst items"

definition schema_dtypes :: "array_schema \<Rightarrow> etype list" where
  "schema_dtypes items = map snd items"

definition schema_get_type :: "array_schema \<Rightarrow> string \<Rightarrow> etype result" where
  "schema_get_type items i = lookup_or KeyError (dict_of items) i"

definition schema_drop :: "string list \<Rightarrow> array_schema \<Rightarrow> array_schema" where
  "schema_drop columns items = filter (\<lambda>item. fst item \<notin> set columns) items"

definition schema_select :: "string list \<Rightarrow> array_schema \<Rightarrow> array_schema result" where
  "schema_select columns items =
     mapM (\<lambda>nm. rbind (schema_get_type items nm) (\<lambda>t. Inr (nm, t))) columns"

definition schema_rename :: "(string \<Rightarrow> string option) \<Rightarrow> array_schema \<Rightarrow> array_schema" where
  "schema_rename mapping items = map (\<lambda>(c, t). (get_or_self mapping c, t)) items"

definition schema_append :: "string \<times> etype \<Rightarrow> array_schema \<Rightarrow> array_schema" where
  "schema_append item items = items @ [item]"

definition schema_prepend :: "string \<times> etype \<Rightarrow> array_schema \<Rightarrow> array_schema" where
  "schema_prepend item items = item # items"

definition schema_update_dtype :: "string \<Rightarrow> etype \<Rightarrow> array_schema \<Rightarrow> array_schema" where
  "schema_update_dtype i t items = map (\<lambda>item. if fst item = i then (i, t) else item) items"

lemma schema_get_type_total: "i \<in> set (schema_names items) \<Longrightarrow> \<exists>t. schema_get_type items i = Inr t"
  using dict_of_eq_None_iff [of items i]
  by (auto simp: schema_get_type_def schema_names_def lookup_or_def image_iff split: option.splits)

lemma schema_select_names: "schema_select columns items = Inr items' \<Longrightarrow> schema_names items' = columns"
proof (induction columns arbitrary: items')
  case (Cons c cs)
  then show ?case by (auto simp: schema_select_def schema_names_def rbind_eq_Inr_iff)
qed (simp add: schema_select_def schema_names_def)

lemma schema_select_keeps:
  assumes "schema_select columns items = Inr items'" "c \<in> set columns"
  shows "schema_get_type items' c = schema_get_type items c"
proof -
  have typed: "schema_get_type items nm = Inr t" if "(nm, t) \<in> set items'" for nm t
    using assms(1) that
  proof (induction columns arbitrary: items')
    case (Cons c cs)
    then show ?case by (auto simp: schema_select_def rbind_eq_Inr_iff)
  qed (simp add: schema_select_def)
  have "c \<in> fst ` set items'"
    using schema_select_names [OF assms(1)] assms(2) by (auto simp: schema_names_def)
  then obtain t where "dict_of items' c = Some t"
    using dict_of_eq_None_iff [of items' c] by auto
  then show ?thesis
    using typed [of c t] dict_of_SomeD [of items' c t] by (auto simp: schema_get_type_def lookup_or_def)
qed

end
