(* ===== verification/Windows.thy ===== *)
theory Windows
  imports Expressions
begin

text \<open>
  \<^verbatim>\<open>core/window_spec.py\<close>: the window constructors, the validation of bounds, the tests on
  bounds, and the operations on a window specification.
\<close>

subsection \<open>Bounds\<close>

datatype window_closed = ClosedRight | ClosedLeft | ClosedBoth | ClosedNeither | ClosedOther string

text \<open>\<^verbatim>\<open>__post_init__\<close>: a start after the end is rejected.\<close>

definition bounds_ok :: "int option \<Rightarrow> int option \<Rightarrow> bool" where
  "bounds_ok start stop =
     (case start of None \<Rightarrow> True
      | Some s \<Rightarrow> (case stop of None \<Rightarrow> True | Some e \<Rightarrow> \<not> s > e))"

definition rows_bounds :: "int option \<Rightarrow> int option \<Rightarrow> window_bounds result" where
  "rows_bounds start stop =
     (if bounds_ok start stop then Inr (RowsWindowBounds start stop) else Inl ValueError)"

definition range_bounds :: "int option \<Rightarrow> int option \<Rightarrow> window_bounds result" where
  "range_bounds start stop =
     (if bounds_ok start stop then Inr (RangeWindowBounds start stop) else Inl ValueError)"

definition from_window_size :: "int \<Rightarrow> window_closed \<Rightarrow> window_bounds result" where
  "from_window_size window closed_ends =
     (case closed_ends of
        ClosedRight \<Rightarrow> rows_bounds (Some (- (window - 1))) (Some 0)
      | ClosedLeft \<Rightarrow> rows_bounds (Some (- window)) (Some (- 1))
      | ClosedBoth \<Rightarrow> rows_bounds (Some (- window)) (Some 0)
      | ClosedNeither \<Rightarrow> rows_bounds (Some (- (window - 1))) (Some (- 1))
      | ClosedOther _ \<Rightarrow> Inl ValueError)"

text \<open>Time windows, in nanoseconds; a tick is one microsecond.\<close>

definition tick :: int where "tick = 1000"

definition from_timedelta_window :: "int \<Rightarrow> window_closed \<Rightarrow> window_bounds result" where
  "from_timedelta_window window closed_ends =
     (case closed_ends of
        ClosedRight \<Rightarrow> range_bounds (Some (- (window - tick))) (Some 0)
      | ClosedLeft \<Rightarrow> range_bounds (Some (- window)) (Some (- tick))
      | ClosedBoth \<Rightarrow> range_bounds (Some (- window)) (Some 0)
      | ClosedNeither \<Rightarrow> range_bounds (Some (- (window - tick))) (Some (- tick))
      | ClosedOther _ \<Rightarrow> Inl ValueError)"

subsection \<open>Constructors\<close>

definition unbound :: "column_id list \<Rightarrow> int \<Rightarrow> expr ordering_expression list \<Rightarrow> expr window_spec" where
  "unbound keys mp order_by = WindowSpec (map (\<lambda>k. Deref (DerefOp k)) keys) order_by None mp"

definition rows_window :: "column_id list \<Rightarrow> int option \<Rightarrow> int option \<Rightarrow> int
    \<Rightarrow> expr ordering_expression list \<Rightarrow> expr window_spec result" where
  "rows_window keys start stop mp order_by =
     rbind (rows_bounds start stop)
       (\<lambda>b. Inr (WindowSpec (map (\<lambda>k. Deref (DerefOp k)) keys) order_by (Some b) mp))"

definition cumulative_rows :: "column_id list \<Rightarrow> int \<Rightarrow> expr window_spec result" where
  "cumulative_rows keys mp =
     rbind (rows_bounds None (Some 0))
       (\<lambda>b. Inr (WindowSpec (map (\<lambda>k. Deref (DerefOp k)) keys) [] (Some b) mp))"

definition inverse_cumulative_rows :: "column_id list \<Rightarrow> int \<Rightarrow> expr window_spec result" where
  "inverse_cumulative_rows keys mp =
     rbind (rows_bounds (Some 0) None)
       (\<lambda>b. Inr (WindowSpec (map (\<lambda>k. Deref (DerefOp k)) keys) [] (Some b) mp))"

subsection \<open>Tests and operations\<close>

definition is_row_bounded :: "'e window_spec \<Rightarrow> bool" where
  "is_row_bounded w \<longleftrightarrow>
     (case window_bounds w of
        Some (RowsWindowBounds start stop) \<Rightarrow> start \<noteq> None \<or> stop \<noteq> None
      | _ \<Rightarrow> False)"

definition is_range_bounded :: "'e window_spec \<Rightarrow> bool" where
  "is_range_bounded w \<longleftrightarrow>
     (case window_bounds w of Some (RangeWindowBounds _ _) \<Rightarrow> True | _ \<Rightarrow> False)"

definition is_unbounded :: "'e window_spec \<Rightarrow> bool" where
  "is_unbounded w \<longleftrightarrow>
     (case window_bounds w of None \<Rightarrow> True
      | Some b \<Rightarrow> bounds_start b = None \<and> bounds_end b = None)"

definition all_referenced_columns :: "expr window_spec \<Rightarrow> column_id set" where
  "all_referenced_columns w =
     set (concat (map column_references (grouping_keys w)) @
          concat (map (\<lambda>p. column_references (scalar_expression p)) (window_ordering w)))"

definition without_order :: "bool \<Rightarrow> 'e window_spec \<Rightarrow> 'e window_spec result" where
  "without_order force w =
     (if is_row_bounded w \<and> \<not> force then Inl ValueError
      else Inr (WindowSpec (grouping_keys w) [] (window_bounds w) (min_periods w)))"

definition ordering_bind_refs :: "bindings \<Rightarrow> bool \<Rightarrow> expr ordering_expression
    \<Rightarrow> expr ordering_expression result" where
  "ordering_bind_refs b partial p =
     rbind (bind_refs b partial (scalar_expression p))
       (\<lambda>e. Inr (OrderingExpression e (order_direction p) (na_last p)))"

definition ordering_remap :: "id_mapping \<Rightarrow> bool \<Rightarrow> expr ordering_expression
    \<Rightarrow> expr ordering_expression result" where
  "ordering_remap m partial p = ordering_bind_refs (deref_bindings m) partial p"

definition window_remap :: "id_mapping \<Rightarrow> bool \<Rightarrow> expr window_spec \<Rightarrow> expr window_spec result" where
  "window_remap m partial w =
     rbind (mapM (remap_column_refs m partial) (grouping_keys w)) (\<lambda>ks.
       rbind (mapM (ordering_remap m partial) (window_ordering w)) (\<lambda>os.
         Inr (WindowSpec ks os (window_bounds w) (min_periods w))))"

lemma all_referenced_columns_eq:
  "all_referenced_columns w = (\<Union>e \<in> set (window_expressions w). set (column_references e))"
  by (auto simp: all_referenced_columns_def window_expressions_def)

text \<open>The number of rows a bounded row window covers.\<close>

fun covered_rows :: "window_bounds \<Rightarrow> int option" where
  "covered_rows (RowsWindowBounds (Some s) (Some e)) = Some (e - s + 1)"
| "covered_rows _ = None"

lemma from_window_size_cases:
  "from_window_size n ClosedRight = (if n \<ge> 1 then Inr (RowsWindowBounds (Some (1 - n)) (Some 0)) else Inl ValueError)"
  "from_window_size n ClosedLeft = (if n \<ge> 1 then Inr (RowsWindowBounds (Some (- n)) (Some (- 1))) else Inl ValueError)"
  "from_window_size n ClosedBoth = (if n \<ge> 0 then Inr (RowsWindowBounds (Some (- n)) (Some 0)) else Inl ValueError)"
  "from_window_size n ClosedNeither = (if n \<ge> 2 then Inr (RowsWindowBounds (Some (1 - n)) (Some (- 1))) else Inl ValueError)"
  by (auto simp: from_window_size_def rows_bounds_def bounds_ok_def)

lemma ordering_bind_refs_partial [simp]:
  "ordering_bind_refs b True p = Inr (map_ordering_expression (subst_expr (bound_to b)) p)"
  by (cases p) (simp add: ordering_bind_refs_def)

lemma window_remap_partial:
  "window_remap m True w = Inr (map_window_spec (subst_expr (bound_to (deref_bindings m))) w)"
proof (cases w)
  case (WindowSpec ks os b mp)
  have "mapM (remap_column_refs m True) ks = Inr (map (subst_expr (bound_to (deref_bindings m))) ks)"
    by (rule mapM_InrI) (simp add: remap_column_refs_def)
  moreover have "mapM (ordering_remap m True) os =
      Inr (map (map_ordering_expression (subst_expr (bound_to (deref_bindings m)))) os)"
    by (rule mapM_InrI) (simp add: ordering_remap_def)
  ultimately show ?thesis
    using WindowSpec by (simp add: window_remap_def)
qed

end
