(* ===== verification/Row_Orderings.thy ===== *)
theory Row_Orderings
  imports Windows
begin

text \<open>
  Row orderings of \<^verbatim>\<open>core/ordering.py\<close>: \<^verbatim>\<open>RowOrdering\<close>, its subclass \<^verbatim>\<open>TotalOrdering\<close> with the
  columns whose identities make it total, and the operations on both. The set of those
  columns is given by its identifiers.
\<close>

subsection \<open>Ordering expressions\<close>

fun reverse_direction :: "ordering_direction \<Rightarrow> ordering_direction" where
  "reverse_direction d = (if d = ASC then DESC else ASC)"

definition is_ascending :: "ordering_direction \<Rightarrow> bool" where
  "is_ascending d \<longleftrightarrow> d = ASC"

definition referenced_columns :: "expr ordering_expression \<Rightarrow> column_id set" where
  "referenced_columns p = set (column_references (scalar_expression p))"

definition with_reverse :: "'e ordering_expression \<Rightarrow> 'e ordering_expression" where
  "with_reverse p = OrderingExpression (scalar_expression p) (reverse_direction (order_direction p))
     (\<not> na_last p)"

definition ascending_over :: "column_id \<Rightarrow> bool \<Rightarrow> expr ordering_expression" where
  "ascending_over i nulls_last = OrderingExpression (Deref (DerefOp i)) ASC nulls_last"

definition descending_over :: "column_id \<Rightarrow> bool \<Rightarrow> expr ordering_expression" where
  "descending_over i nulls_last = OrderingExpression (Deref (DerefOp i)) DESC nulls_last"

subsection \<open>Row orderings\<close>

record integer_encoding =
  is_encoded :: bool
  enc_sequential :: bool

definition no_encoding :: integer_encoding where
  "no_encoding = \<lparr>is_encoded = False, enc_sequential = False\<rparr>"

datatype row_ordering =
    RowOrdering (ordering_value_columns: "expr ordering_expression list") (int_encoding: integer_encoding)
  | TotalOrdering (ordering_value_columns: "expr ordering_expression list") (int_encoding: integer_encoding)
      (total_ordering_columns: "column_id set")

definition ordering_referenced :: "row_ordering \<Rightarrow> column_id set" where
  "ordering_referenced ord = (\<Union>p \<in> set (ordering_value_columns ord). referenced_columns p)"

definition ordering_is_sequential :: "row_ordering \<Rightarrow> bool" where
  "ordering_is_sequential ord \<longleftrightarrow> is_encoded (int_encoding ord) \<and> enc_sequential (int_encoding ord)"

fun is_total_ordering :: "row_ordering \<Rightarrow> bool" where
  "is_total_ordering (RowOrdering _ _) = False"
| "is_total_ordering (TotalOrdering _ _ _) = True"

text \<open>\<^verbatim>\<open>__post_init__\<close>: the identity columns must be referenced by the ordering.\<close>

definition mk_total :: "expr ordering_expression list \<Rightarrow> integer_encoding \<Rightarrow> column_id set
    \<Rightarrow> row_ordering result" where
  "mk_total parts enc cols =
     (if cols \<subseteq> (\<Union>p \<in> set parts. referenced_columns p) then Inr (TotalOrdering parts enc cols)
      else Inl AssertionError)"

definition from_offset_col :: "column_id \<Rightarrow> row_ordering result" where
  "from_offset_col col = mk_total [ascending_over col True]
     \<lparr>is_encoded = True, enc_sequential = True\<rparr> {col}"

definition from_primary_key :: "column_id list \<Rightarrow> row_ordering result" where
  "from_primary_key keys = mk_total (map (\<lambda>c. ascending_over c True) keys) no_encoding (set keys)"

fun total_order_col :: "row_ordering \<Rightarrow> expr ordering_expression option" where
  "total_order_col (RowOrdering _ _) = None"
| "total_order_col (TotalOrdering parts _ _) =
     (case parts of
        [p] \<Rightarrow> (if order_direction p \<noteq> ASC then None else Some p)
      | _ \<Rightarrow> None)"

fun ordering_with_reverse :: "row_ordering \<Rightarrow> row_ordering result" where
  "ordering_with_reverse (RowOrdering parts enc) = Inr (RowOrdering (map with_reverse parts) no_encoding)"
| "ordering_with_reverse (TotalOrdering parts enc cols) = mk_total (map with_reverse parts) no_encoding cols"

fun ordering_remap_refs :: "id_mapping \<Rightarrow> bool \<Rightarrow> row_ordering \<Rightarrow> row_ordering result" where
  "ordering_remap_refs m partial (RowOrdering parts enc) =
     rbind (mapM (ordering_remap m partial) parts) (\<lambda>ps. Inr (RowOrdering ps no_encoding))"
| "ordering_remap_refs m partial (TotalOrdering parts enc cols) =
     rbind (mapM (ordering_remap m partial) parts)
       (\<lambda>ps. mk_total ps enc (get_or_self m ` cols))"

fun with_non_sequential :: "row_ordering \<Rightarrow> row_ordering result" where
  "with_non_sequential (RowOrdering parts enc) =
     Inr (if enc_sequential enc
          then RowOrdering parts \<lparr>is_encoded = is_encoded enc, enc_sequential = False\<rparr>
          else RowOrdering parts enc)"
| "with_non_sequential (TotalOrdering parts enc cols) =
     (if enc_sequential enc
      then mk_total parts \<lparr>is_encoded = is_encoded enc, enc_sequential = False\<rparr> cols
      else Inr (TotalOrdering parts enc cols))"

text \<open>\<^verbatim>\<open>RowOrdering._truncate_ordering\<close>: the loop state is the set of columns seen.\<close>

fun truncate_row :: "column_id set \<Rightarrow> expr ordering_expression list \<Rightarrow> expr ordering_expression list" where
  "truncate_row seen [] = []"
| "truncate_row seen (p # ps) =
     (let e = scalar_expression p in
      if \<not> set (column_references e) \<subseteq> seen
      then p # truncate_row (if is_bijective e then seen \<union> set (column_references e) else seen) ps
      else truncate_row seen ps)"

text \<open>\<^verbatim>\<open>TotalOrdering._truncate_ordering\<close> stops once the identity columns have been seen.\<close>

fun truncate_total :: "column_id set \<Rightarrow> column_id set \<Rightarrow> expr ordering_expression list
    \<Rightarrow> expr ordering_expression list \<Rightarrow> expr ordering_expression list result" where
  "truncate_total must seen acc [] = (if must = {} then Inr [] else Inl ValueError)"
| "truncate_total must seen acc (p # ps) =
     (let e = scalar_expression p in
      if \<not> set (column_references e) \<subseteq> seen
      then (let seen' = (if is_bijective e then seen \<union> set (column_references e) else seen);
                acc' = acc @ [p]
            in if must \<subseteq> seen' then Inr acc' else truncate_total must seen' acc' ps)
      else truncate_total must seen acc ps)"

fun with_ordering_columns :: "expr ordering_expression list \<Rightarrow> row_ordering \<Rightarrow> row_ordering result" where
  "with_ordering_columns new (RowOrdering parts enc) =
     Inr (RowOrdering (truncate_row {} (new @ parts)) no_encoding)"
| "with_ordering_columns new (TotalOrdering parts enc cols) =
     rbind (truncate_total cols {} [] (new @ parts)) (\<lambda>ps. mk_total ps no_encoding cols)"

fun join_ordering :: "row_ordering \<Rightarrow> row_ordering \<Rightarrow> row_ordering result" where
  "join_ordering (TotalOrdering ps enc cols) (TotalOrdering qs enc' cols') =
     mk_total (ps @ qs) no_encoding (cols \<union> cols')"
| "join_ordering a b =
     Inr (RowOrdering (ordering_value_columns a @ ordering_value_columns b) no_encoding)"

subsection \<open>Well-formed total orderings\<close>

text \<open>
  What the code keeps true of the total orderings it builds: each identity column is
  referenced by an ordering part that is a bijection of its columns, so a truncation always
  finds them all.
\<close>

definition keyed_by :: "column_id set \<Rightarrow> expr ordering_expression list \<Rightarrow> bool" where
  "keyed_by cols parts \<longleftrightarrow>
     cols \<subseteq> (\<Union>p \<in> {p \<in> set parts. is_bijective (scalar_expression p)}. referenced_columns p)"

fun wf_ordering :: "row_ordering \<Rightarrow> bool" where
  "wf_ordering (RowOrdering parts enc) = True"
| "wf_ordering (TotalOrdering parts enc cols) = keyed_by cols parts"


definition bijective_columns :: "expr ordering_expression list \<Rightarrow> column_id set" where
  "bijective_columns ps = (\<Union>p \<in> {p \<in> set ps. is_bijective (scalar_expression p)}. referenced_columns p)"

lemma keyed_by_alt: "keyed_by cols ps \<longleftrightarrow> cols \<subseteq> bijective_columns ps"
  by (simp add: keyed_by_def bijective_columns_def)

lemma bijective_columns_simps [simp]:
  "bijective_columns [] = {}"
  "bijective_columns (p # ps) =
     (if is_bijective (scalar_expression p) then referenced_columns p else {}) \<union> bijective_columns ps"
  "bijective_columns (ps @ qs) = bijective_columns ps \<union> bijective_columns qs"
  by (auto simp: bijective_columns_def)

lemma bijective_columns_subset: "bijective_columns ps \<subseteq> (\<Union>p \<in> set ps. referenced_columns p)"
  by (auto simp: bijective_columns_def)

lemma mk_total_keyed: "keyed_by cols ps \<Longrightarrow> mk_total ps enc cols = Inr (TotalOrdering ps enc cols)"
  using bijective_columns_subset [of ps] by (auto simp: mk_total_def keyed_by_alt)

lemma truncate_total_sound:
  assumes "truncate_total must seen acc ps = Inr out" "seen = bijective_columns acc"
  shows "keyed_by must out"
  using assms
proof (induction must seen acc ps rule: truncate_total.induct)
  case (1 must seen acc)
  then show ?case by (auto simp: keyed_by_def split: if_splits)
next
  case (2 must seen acc p ps)
  show ?case
  proof (cases "set (column_references (scalar_expression p)) \<subseteq> seen")
    case True
    with 2 show ?thesis by simp
  next
    case False
    with 2 show ?thesis
      by (auto simp: Let_def keyed_by_alt referenced_columns_def Un_commute split: if_splits)
  qed
qed

lemma truncate_total_succeeds:
  assumes "must \<subseteq> seen \<union> bijective_columns ps" "\<not> must \<subseteq> seen \<or> must = {}"
  shows "\<exists>out. truncate_total must seen acc ps = Inr out"
  using assms
proof (induction must seen acc ps rule: truncate_total.induct)
  case (1 must seen acc)
  then show ?case by auto
next
  case (2 must seen acc p ps)
  let ?seen' = "if is_bijective (scalar_expression p)
    then seen \<union> set (column_references (scalar_expression p)) else seen"
  have sub: "must \<subseteq> ?seen' \<union> bijective_columns ps"
    using 2(3) by (auto simp: referenced_columns_def split: if_splits)
  show ?case
  proof (cases "set (column_references (scalar_expression p)) \<subseteq> seen")
    case True
    then have "must \<subseteq> seen \<union> bijective_columns ps" using sub by (auto split: if_splits)
    with 2 True show ?thesis by simp
  next
    case False
    then show ?thesis
      using 2(1) [OF refl _ refl refl] 2(3) sub by (auto simp: Let_def)
  qed
qed

lemma with_ordering_columns_wf:
  assumes "wf_ordering ord"
  shows "\<exists>ord'. with_ordering_columns new ord = Inr ord' \<and> wf_ordering ord' \<and>
           is_total_ordering ord' = is_total_ordering ord"
proof (cases ord)
  case (RowOrdering parts enc)
  then show ?thesis by simp
next
  case (TotalOrdering parts enc cols)
  then have "cols \<subseteq> {} \<union> bijective_columns (new @ parts)"
    using assms by (auto simp: keyed_by_alt)
  then obtain out where out: "truncate_total cols {} [] (new @ parts) = Inr out"
    using truncate_total_succeeds by (metis subset_empty)
  then have "keyed_by cols out"
    using truncate_total_sound by fastforce
  with out TotalOrdering show ?thesis by (simp add: mk_total_keyed)
qed

lemma scalar_with_reverse [simp]: "scalar_expression (with_reverse p) = scalar_expression p"
  by (simp add: with_reverse_def)

lemma bijective_columns_reverse [simp]: "bijective_columns (map with_reverse ps) = bijective_columns ps"
  by (induction ps) (simp_all add: referenced_columns_def)

lemma ordering_with_reverse_wf:
  "wf_ordering ord \<Longrightarrow> \<exists>ord'. ordering_with_reverse ord = Inr ord' \<and> wf_ordering ord' \<and>
     ordering_value_columns ord' = map with_reverse (ordering_value_columns ord) \<and>
     is_total_ordering ord' = is_total_ordering ord"
  by (cases ord) (simp_all add: mk_total_keyed keyed_by_alt)

lemma with_non_sequential_wf:
  "wf_ordering ord \<Longrightarrow> \<exists>ord'. with_non_sequential ord = Inr ord' \<and> wf_ordering ord' \<and> is_total_ordering ord' = is_total_ordering ord \<and>
     \<not> ordering_is_sequential ord' \<and> ordering_value_columns ord' = ordering_value_columns ord"
  by (cases ord) (auto simp: mk_total_keyed ordering_is_sequential_def)

lemma join_ordering_wf:
  "wf_ordering a \<Longrightarrow> wf_ordering b \<Longrightarrow> \<exists>ord'. join_ordering a b = Inr ord' \<and> wf_ordering ord' \<and>
     ordering_value_columns ord' = ordering_value_columns a @ ordering_value_columns b \<and>
     (is_total_ordering ord' \<longleftrightarrow> is_total_ordering a \<and> is_total_ordering b)"
  by (cases a; cases b) (simp_all add: mk_total_keyed keyed_by_alt le_supI1 le_supI2)

lemma is_bijective_simps [simp]:
  "is_bijective (ScalarConstantExpression v t)"
  "is_bijective (UnboundVariableExpression i)"
  "is_bijective (Deref d)"
  "is_bijective (OpExpression op inputs) \<longleftrightarrow> list_all is_bijective inputs \<and> op_is_bijective op"
  "\<not> is_bijective (NullaryAggregation w)"
  "\<not> is_bijective (UnaryAggregation w a)"
  "\<not> is_bijective (BinaryAggregation w l r)"
  "\<not> is_bijective (WindowExpression a ws)"
  by (simp_all add: is_bijective_def [abs_def] ScalarConstantExpression_props_def
      UnboundVariableExpression_props_def deref_props_def DerefOp_props_def
      ResolvedDerefOp_props_def OpExpression_props_def Aggregation_props_def
      WindowExpression_props_def Expression_props_def Let_def list_all_iff split: deref.split)

text \<open>Renaming references: the columns follow, and a bijection stays one.\<close>

lemma references_rename:
  "column_references (subst_expr (bound_to (deref_bindings m)) e) = map (get_or_self m) (column_references e)"
proof -
  have "(case deref_bindings m i of None \<Rightarrow> [i] | Some x \<Rightarrow> column_references x) = [get_or_self m i]" for i
    by (simp add: deref_bindings_def get_or_self_def split: option.split)
  then show ?thesis
    by (simp add: references_subst)
qed

lemma is_bijective_rename:
  "is_bijective (subst_expr (bound_to (deref_bindings m)) e) = is_bijective e"
proof (induction e)
  case (Deref d)
  then show ?case by (simp add: bound_to_def deref_bindings_def split: option.split)
qed (auto simp: list_all_iff)

lemma bijective_columns_rename:
  "bijective_columns (map (map_ordering_expression (subst_expr (bound_to (deref_bindings m)))) ps) =
     get_or_self m ` bijective_columns ps"
  by (induction ps)
    (auto simp: referenced_columns_def references_rename is_bijective_rename
      ordering_expression.map_sel)

lemma ordering_remap_wf:
  assumes "wf_ordering ord"
  shows "\<exists>ord'. ordering_remap_refs m True ord = Inr ord' \<and> wf_ordering ord' \<and>
     is_total_ordering ord' = is_total_ordering ord"
proof -
  have "mapM (ordering_remap m True) ps =
      Inr (map (map_ordering_expression (subst_expr (bound_to (deref_bindings m)))) ps)" for ps
    by (rule mapM_InrI) (simp add: ordering_remap_def)
  with assms show ?thesis
    by (cases ord) (auto simp: mk_total_keyed keyed_by_alt bijective_columns_rename image_mono)
qed

lemma from_primary_key_wf: "\<exists>ord. from_primary_key keys = Inr ord \<and> wf_ordering ord \<and> is_total_ordering ord"
proof -
  have "keyed_by (set keys) (map (\<lambda>c. ascending_over c True) keys)"
    by (auto simp: keyed_by_def ascending_over_def referenced_columns_def)
  then show ?thesis by (simp add: from_primary_key_def mk_total_keyed)
qed

lemma from_offset_col_wf:
  "\<exists>ord. from_offset_col c = Inr ord \<and> wf_ordering ord \<and> ordering_is_sequential ord \<and>
     total_order_col ord = Some (ascending_over c True)"
  by (simp add: from_offset_col_def mk_total_def ascending_over_def referenced_columns_def
      keyed_by_def ordering_is_sequential_def)

subsection \<open>What an ordering means\<close>

text \<open>
  Comparing two rows by a list of parts: the first part that tells them apart decides. A part
  compares the values of its expression, nulls first or last, in its direction; \<open>cmp\<close> is the
  three-way comparison of two values, negative, zero or positive.
\<close>

definition part_compare :: "('v \<Rightarrow> bool) \<Rightarrow> ('v \<Rightarrow> 'v \<Rightarrow> int) \<Rightarrow> 'e ordering_expression \<Rightarrow> 'v \<Rightarrow> 'v \<Rightarrow> int" where
  "part_compare null cmp p a b =
     (if null a \<and> null b then 0
      else if null a then (if na_last p then 1 else - 1)
      else if null b then (if na_last p then - 1 else 1)
      else if order_direction p = ASC then cmp a b else - cmp a b)"

fun rows_compare :: "('v \<Rightarrow> bool) \<Rightarrow> ('v \<Rightarrow> 'v \<Rightarrow> int) \<Rightarrow> ('e \<Rightarrow> 'r \<Rightarrow> 'v)
    \<Rightarrow> 'e ordering_expression list \<Rightarrow> 'r \<Rightarrow> 'r \<Rightarrow> int" where
  "rows_compare null cmp val [] r s = 0"
| "rows_compare null cmp val (p # ps) r s =
     (let c = part_compare null cmp p (val (scalar_expression p) r) (val (scalar_expression p) s)
      in if c \<noteq> 0 then c else rows_compare null cmp val ps r s)"

lemma part_compare_reverse: "part_compare null cmp (with_reverse p) a b = - part_compare null cmp p a b"
  by (cases "order_direction p") (auto simp: part_compare_def with_reverse_def)

lemma rows_compare_reverse:
  "rows_compare null cmp val (map with_reverse ps) r s = - rows_compare null cmp val ps r s"
  by (induction ps) (simp_all add: part_compare_reverse Let_def)

text \<open>
  What truncation relies on: the value of an expression depends on its columns only, equal
  values of a bijective expression come from equal columns, and the comparison of two values
  is zero only for equal ones.
\<close>

locale row_values =
  fixes column :: "'r \<Rightarrow> column_id \<Rightarrow> 'v" and val :: "expr \<Rightarrow> 'r \<Rightarrow> 'v"
    and null :: "'v \<Rightarrow> bool" and cmp :: "'v \<Rightarrow> 'v \<Rightarrow> int"
  assumes depends: "(\<And>i. i \<in> set (column_references e) \<Longrightarrow> column r i = column s i) \<Longrightarrow> val e r = val e s"
    and bijective: "is_bijective e \<Longrightarrow> val e r = val e s \<Longrightarrow> i \<in> set (column_references e)
      \<Longrightarrow> column r i = column s i"
    and cmp_zero: "\<not> null a \<Longrightarrow> \<not> null b \<Longrightarrow> cmp a b = 0 \<longleftrightarrow> a = b"
    and null_eq: "null a \<Longrightarrow> null b \<Longrightarrow> a = b"
begin

lemma part_compare_zero: "part_compare null cmp p a b = 0 \<longleftrightarrow> a = b"
  using cmp_zero [of a b] cmp_zero [of b b] null_eq [of a b]
  by (auto simp: part_compare_def)

lemma rows_compare_truncate:
  assumes "\<And>i. i \<in> seen \<Longrightarrow> column r i = column s i"
  shows "rows_compare null cmp val (truncate_row seen ps) r s = rows_compare null cmp val ps r s"
  using assms
proof (induction seen ps rule: truncate_row.induct)
  case (1 seen)
  then show ?case by simp
next
  case (2 seen p ps)
  let ?e = "scalar_expression p"
  show ?case
  proof (cases "set (column_references ?e) \<subseteq> seen")
    case True
    then have "val ?e r = val ?e s"
      using 2(3) by (intro depends) auto
    then have "part_compare null cmp p (val ?e r) (val ?e s) = 0"
      by (simp add: part_compare_zero)
    with True 2 show ?thesis by (simp add: Let_def)
  next
    case False
    show ?thesis
    proof (cases "val ?e r = val ?e s")
      case True
      then have "column r i = column s i"
        if "i \<in> (if is_bijective ?e then seen \<union> set (column_references ?e) else seen)" for i
        using that 2(3) bijective [of ?e r s i] by (auto split: if_splits)
      then show ?thesis
        using 2(1) False by (simp add: Let_def)
    next
      case differ: False
      then have "part_compare null cmp p (val ?e r) (val ?e s) \<noteq> 0"
        by (simp add: part_compare_zero)
      with False show ?thesis by (simp add: Let_def)
    qed
  qed
qed

text \<open>
  The truncation of a total ordering drops the parts after its identity columns: rows that the
  kept parts do not tell apart have the same identity, so are the same row.
\<close>

lemma rows_compare_append:
  "rows_compare null cmp val (ps @ qs) r s =
     (if rows_compare null cmp val ps r s \<noteq> 0 then rows_compare null cmp val ps r s
      else rows_compare null cmp val qs r s)"
  by (induction ps) (simp_all add: Let_def)

lemma rows_compare_refl: "rows_compare null cmp val ps r r = 0"
  by (induction ps) (simp_all add: part_compare_zero)

lemma rows_compare_truncate_total:
  assumes "truncate_total must seen acc ps = Inr qs"
    and "(\<And>i. i \<in> must \<Longrightarrow> column r i = column s i) \<Longrightarrow> r = s"
    and "rows_compare null cmp val acc r s = 0 \<Longrightarrow> (\<And>i. i \<in> seen \<Longrightarrow> column r i = column s i)"
    and "must \<noteq> {}"
  shows "rows_compare null cmp val qs r s = rows_compare null cmp val (acc @ ps) r s"
  using assms
proof (induction must seen acc ps rule: truncate_total.induct)
  case (2 must seen acc p ps)
  let ?e = "scalar_expression p"
  let ?seen = "if is_bijective ?e then seen \<union> set (column_references ?e) else seen"
  let ?cmp = "rows_compare null cmp val"
  have split: "?cmp (acc @ p # ps) r s = (if ?cmp acc r s \<noteq> 0 then ?cmp acc r s else ?cmp (p # ps) r s)" for ps
    by (rule rows_compare_append)
  show ?case
  proof (cases "set (column_references ?e) \<subseteq> seen")
    case True
    have "?cmp qs r s = ?cmp (acc @ ps) r s"
      using 2(2) [OF refl] True 2(3-) by simp
    moreover have "part_compare null cmp p (val ?e r) (val ?e s) = 0" if "?cmp acc r s = 0"
    proof -
      have "val ?e r = val ?e s" using True 2(5) [OF that] by (intro depends) auto
      then show ?thesis by (simp add: part_compare_zero)
    qed
    ultimately show ?thesis by (simp add: rows_compare_append)
  next
    case False
    have seen: "column r i = column s i" if "?cmp (acc @ [p]) r s = 0" "i \<in> ?seen" for i
    proof -
      have "?cmp acc r s = 0" "part_compare null cmp p (val ?e r) (val ?e s) = 0"
        using that(1) by (auto simp: split Let_def split: if_splits)
      then show ?thesis
        using that(2) 2(5) bijective [of ?e r s i] by (auto simp: part_compare_zero split: if_splits)
    qed
    show ?thesis
    proof (cases "must \<subseteq> ?seen")
      case True
      then have qs: "qs = acc @ [p]" using 2(3) False by (simp add: Let_def)
      have "?cmp (acc @ [p] @ ps) r s = ?cmp (acc @ [p]) r s"
      proof (cases "?cmp (acc @ [p]) r s = 0")
        case tie: True
        then have "r = s" using 2(4) seen True by blast
        then show ?thesis by (simp add: rows_compare_refl)
      next
        case False
        then show ?thesis using rows_compare_append [of "acc @ [p]" ps r s] by simp
      qed
      then show ?thesis by (simp add: qs)
    next
      case more: False
      then have "?cmp qs r s = ?cmp ((acc @ [p]) @ ps) r s"
        using 2(1) [OF refl False refl refl more _ 2(4) seen 2(6)] 2(3) False by (simp add: Let_def)
      then show ?thesis by simp
    qed
  qed
qed simp

end

end
