(* ===== verification/Foundation_Properties.thy ===== *)
theory Foundation_Properties
  imports Slices Sequences Ordered_Sets Dtypes Schema Windows Row_Orderings
begin

text \<open>
  The properties of the components below the plan: slice arithmetic, chained sequences, ordered
  sets, type coercion, expressions, schemas, windows and row orderings. Each property is
  followed by a witness where it has hypotheses.
\<close>

subsection \<open>Slices\<close>

text \<open>
  C33: \<open>slice_output_rows\<close> is the number of rows Python's own slicing keeps, for every start, stop
  and step, unless a backward slice starts before the first row.
\<close>

theorem slice_output_rows_counts:
  assumes "forward_safe sl n" "0 \<le> n"
  shows "slice_output_rows sl n = int (length (slice_positions sl n))"
  using assms by (rule slice_output_rows_eq_length)

theorem slice_output_rows_counts_witness:
  "slice_output_rows (Some (- 2), None, Some (- 3)) 10 = int (length (slice_positions (Some (- 2), None, Some (- 3)) 10))"
  by (rule slice_output_rows_counts) (simp_all add: the_step_def)

text \<open>
  C34: \<open>slice_output_rows\<close> on every backward slice that starts before the first row: Python's slicing keeps no
  row, and the code counts one exactly when the slice has no stop or one that is before the first row too.
\<close>

theorem slice_output_rows_overcounts:
  assumes "0 \<le> n" "step < 0" "start < - n"
  shows "slice_positions (Some start, stop, Some step) n = [] \<and>
    slice_output_rows (Some start, stop, Some step) n = (if \<forall>b. stop = Some b \<longrightarrow> b < - n then 1 else 0)"
  using assms by (rule slice_output_rows_before_first)

theorem slice_output_rows_overcounts_witness:
  "slice_positions (Some (- 6), None, Some (- 1)) 5 = [] \<and> slice_output_rows (Some (- 6), None, Some (- 1)) 5 = 1"
  using slice_output_rows_overcounts [of 5 "- 1" "- 6" None] by simp

text \<open>
  \<open>remove_unused_parts\<close> drops starts, stops and steps that have no effect, so the slice
  keeps the same rows of a sequence of the given length.
\<close>

lemma remove_unused_parts_same_rows:
  assumes "0 \<le> n" "snd (snd sl) \<noteq> Some 0"
  shows "slice_positions (remove_unused_parts sl n) n = slice_positions sl n"
  using assms by (rule remove_unused_parts_positions)

text \<open>a slice that \<open>is_noop\<close> accepts, with the true length or with no length, returns the sequence itself.\<close>

lemma is_noop_identity:
  assumes "is_noop sl rows" "size_hint rows xs" "snd (snd sl) \<noteq> Some 0"
  shows "py_slice sl xs = xs"
  using assms by (rule is_noop_sound)

text \<open>a slice that \<open>is_reverse\<close> accepts, with the true length or with no length, reverses the sequence.\<close>

lemma is_reverse_reversal:
  assumes "is_reverse sl rows" "size_hint rows xs" "snd (snd sl) \<noteq> Some 0"
  shows "py_slice sl xs = rev xs"
  using assms by (rule is_reverse_sound)

subsection \<open>Sequences and sets\<close>

text \<open>
  A chained sequence is the concatenation of its arguments: indexing it, negative indices and
  errors included, its length and its iteration are those of the concatenated list, whatever
  flattening and defragmenting did to the parts.
\<close>

lemma chained_sequence_concatenates:
  "chained_getitem (chained_init parts) i = py_index (concat (map part_items parts)) i \<and>
   chained_iter (chained_init parts) = concat (map part_items parts) \<and>
   chained_len (chained_init parts) = length (concat (map part_items parts))"
proof -
  have "concat (chained_init parts) = concat (map part_items parts)"
    by (simp add: chained_init_def concat_defrag_parts concat_flatten_parts)
  then show ?thesis
    by (simp add: chained_getitem_index chained_iter_def chained_len_def flip: length_concat)
qed

text \<open>
  Defragmenting never builds a part of 160 items or more: a longer part of a chained sequence
  is one it was given.
\<close>

lemma chained_parts_bounded:
  assumes "part \<in> set (chained_init parts)" "160 \<le> length part"
  shows "part \<in> set (flatten_parts parts)"
  using defrag_loop_sizes [of "[]" 0 part "flatten_parts parts"] assms
  by (simp add: chained_init_def defrag_parts_def TARGET_SIZE_def MAX_MERGABLE_def)

text \<open>
  C35: the linked-list ordered set, built from a list and then stripped of another, never raises
  and iterates the first occurrences of the first list that are not in the second, in order.
\<close>

theorem ordered_set_order:
  "\<exists>s s'. foldM os_add xs os_empty = Inr s \<and> foldM os_discard ys s = Inr s' \<and>
     os_items s' = Inr (filter (\<lambda>x. x \<notin> set ys) (first_occurrences xs)) \<and>
     (\<forall>x. os_contains s' x \<longleftrightarrow> x \<in> set xs \<and> x \<notin> set ys)"
proof -
  obtain s where s: "foldM os_add xs os_empty = Inr s" "represents s (first_occurrences xs)"
    using ios.rep_update [OF represents_empty, of xs] by (auto simp: fold_insert_end)
  have dist: "distinct (first_occurrences xs)" "set (first_occurrences xs) = set xs"
    using represents_distinct [OF s(2)] by (simp_all add: first_occurrences_def)
  obtain s' where s': "foldM os_discard ys s = Inr s'" "represents s' (fold remove1 ys (first_occurrences xs))"
    using ios.discard_all [OF s(2), of ys] by blast
  have "fold remove1 ys zs = filter (\<lambda>x. x \<notin> set ys) zs" if "distinct zs" for zs
    using that by (induction ys arbitrary: zs) (auto simp: distinct_remove1_removeAll removeAll_filter_not_eq intro: filter_cong)
  with s s' dist show ?thesis
    using represents_items [OF s'(2)] represents_contains [OF s'(2)] by auto
qed

subsection \<open>Types and expressions\<close>

text \<open>
  The coercion of two types to a common one does not depend on their order, returns the type
  itself for equal types, and on numeric types is the least upper bound in the widening order,
  so it is associative there.
\<close>

lemma coerce_to_common_lattice:
  "coerce_to_common e1 e2 = coerce_to_common e2 e1 \<and> coerce_to_common e1 e1 = Inr e1 \<and>
   (list_all (\<lambda>d. is_numeric (Some d)) [a, b, c] \<longrightarrow>
      rbind (coerce_to_common (Some a) (Some b)) (\<lambda>t. coerce_to_common t (Some c)) =
      rbind (coerce_to_common (Some b) (Some c)) (\<lambda>t. coerce_to_common (Some a) t) \<and>
      coerce_to_common (Some a) (Some b) = Inr (Some (hierarchy ! max (index_of hierarchy a) (index_of hierarchy b))))"
proof (intro conjI impI)
  show "coerce_to_common e1 e2 = coerce_to_common e2 e1" by (rule coerce_to_common_commute)
  show "coerce_to_common e1 e1 = Inr e1" by (rule coerce_to_common_self)
next
  assume "list_all (\<lambda>d. is_numeric (Some d)) [a, b, c]"
  then have num: "is_numeric (Some a)" "is_numeric (Some b)" "is_numeric (Some c)" by simp_all
  obtain d where d: "coerce_to_common (Some a) (Some b) = Inr (Some d)" "is_numeric (Some d)"
    "index_of hierarchy d = max (index_of hierarchy a) (index_of hierarchy b)"
    using coerce_numeric_index [OF num(1,2)] .
  obtain e where e: "coerce_to_common (Some b) (Some c) = Inr (Some e)" "is_numeric (Some e)"
    "index_of hierarchy e = max (index_of hierarchy b) (index_of hierarchy c)"
    using coerce_numeric_index [OF num(2,3)] .
  show "rbind (coerce_to_common (Some a) (Some b)) (\<lambda>t. coerce_to_common t (Some c)) =
      rbind (coerce_to_common (Some b) (Some c)) (\<lambda>t. coerce_to_common (Some a) t)"
    using num d e by (simp add: coerce_numeric max.assoc)
  show "coerce_to_common (Some a) (Some b) = Inr (Some (hierarchy ! max (index_of hierarchy a) (index_of hierarchy b)))"
    by (rule coerce_numeric [OF num(1,2)])
qed

text \<open>
  C36: binding the column references of an expression raises \<open>ValueError\<close> exactly when a strict
  binding misses one of them; otherwise the result is the substitution, and its references are
  those of the bound expressions in order.
\<close>

theorem bind_refs_substitutes:
  "bind_refs b partial e =
     (if partial \<or> (\<forall>i \<in> set (column_references e). b i \<noteq> None)
      then Inr (subst_expr (bound_to b) e) else Inl ValueError) \<and>
   column_references (subst_expr (bound_to b) e) =
     concat (map (\<lambda>i. case b i of None \<Rightarrow> [i] | Some x \<Rightarrow> column_references x) (column_references e))"
  by (simp only: bind_refs_subst all_bound_def references_subst simp_thms)

theorem bind_refs_substitutes_witness:
  "bind_refs [ColumnId ''a'' \<mapsto> ScalarConstantExpression (IntV 1) None] False
     (OpExpression AddOp [Deref (DerefOp (ColumnId ''a'')), Deref (DerefOp (ColumnId ''b''))]) = Inl ValueError"
  using bind_refs_substitutes [of "[ColumnId ''a'' \<mapsto> ScalarConstantExpression (IntV 1) None]" False
      "OpExpression AddOp [Deref (DerefOp (ColumnId ''a'')), Deref (DerefOp (ColumnId ''b''))]"]
  by simp

text \<open>
  Binding an expression without free variables to the fields of a schema that has all its
  columns succeeds, and the result is resolved and refers to the same columns.
\<close>

lemma bind_schema_resolves:
  assumes "free_variables e = []" "\<And>i. i \<in> set (column_references e) \<Longrightarrow> \<exists>f. fs i = Some f \<and> field_id f = i"
  shows "\<exists>e'. bind_schema_fields e fs = Inr e' \<and> is_resolved e' \<and> column_references e' = column_references e"
proof (cases "is_resolved e")
  case True
  then show ?thesis by (simp add: bind_schema_fields_def)
next
  case False
  define b where "b i = map_option (\<lambda>f. Deref (ResolvedDerefOp (field_id f) (field_dtype f) (field_nullable f))) (fs i)" for i
  have b: "\<exists>x. b i = Some x \<and> is_resolved x \<and> column_references x = [i]" if "i \<in> set (column_references e)" for i
    using assms(2) [OF that] by (auto simp: b_def)
  have "concat (map (\<lambda>i. case b i of None \<Rightarrow> [i] | Some x \<Rightarrow> column_references x) is) = is"
    if "set is \<subseteq> set (column_references e)" for "is"
    using that b by (induction "is") fastforce+
  then have "column_references (subst_expr (bound_to b) e) = column_references e"
    by (simp add: references_subst)
  moreover have "is_resolved (subst_expr (bound_to b) e)"
    using b assms(1) by (intro resolved_subst) blast+
  moreover have "bind_schema_fields e fs = Inr (subst_expr (bound_to b) e)"
  proof -
    have "all_bound b False e" using b by (force simp: all_bound_def)
    then show ?thesis
      using False by (simp add: bind_schema_fields_def bind_refs_subst flip: b_def)
  qed
  ultimately show ?thesis by blast
qed

text \<open>
  Selecting columns of a schema succeeds exactly when the schema has them all (a missing one
  is a \<open>KeyError\<close>), gives them in the order asked for and keeps their types.
\<close>

lemma schema_select_columns:
  "(case schema_select columns items of
      Inl err \<Rightarrow> err = KeyError \<and> \<not> set columns \<subseteq> set (schema_names items)
    | Inr items' \<Rightarrow> set columns \<subseteq> set (schema_names items) \<and> schema_names items' = columns \<and>
        list_all (\<lambda>c. schema_get_type items' c = schema_get_type items c) columns)"
proof (cases "schema_select columns items")
  case (Inl err)
  have get: "schema_get_type items c = (if c \<in> set (schema_names items) then Inr (the (dict_of items c)) else Inl KeyError)" for c
    using dict_of_eq_None_iff [of items c]
    by (auto simp: schema_get_type_def schema_names_def lookup_or_def image_iff split: option.splits)
  have "schema_select columns items =
      (if list_all (\<lambda>c. c \<in> set (schema_names items)) columns
       then Inr (map (\<lambda>c. (c, the (dict_of items c))) columns) else Inl KeyError)"
    unfolding schema_select_def by (rule mapM_error) (simp add: get)
  with Inl show ?thesis by (auto simp: list_all_iff split: if_splits)
next
  case (Inr items')
  have keeps: "schema_get_type items' c = schema_get_type items c" if "c \<in> set columns" for c
    by (rule schema_select_keeps [OF Inr that])
  have "c \<in> set (schema_names items)" if c: "c \<in> set columns" for c
  proof (rule ccontr)
    assume "c \<notin> set (schema_names items)"
    then have "dict_of items c = None" by (simp add: dict_of_eq_None_iff schema_names_def)
    then have "schema_get_type items' c = Inl KeyError"
      using keeps [OF c] by (simp add: schema_get_type_def lookup_or_def)
    moreover have "\<exists>t. schema_get_type items' c = Inr t"
      using c schema_select_names [OF Inr] by (intro schema_get_type_total) simp
    ultimately show False by simp
  qed
  with Inr keeps schema_select_names [OF Inr] show ?thesis by (auto simp: list_all_iff)
qed

subsection \<open>Windows and orderings\<close>

text \<open>
  a row window made from a pandas window size covers as many rows as the size says, one more
  when both ends are closed and one fewer when neither is; the sizes that would cover no row
  and other spellings of the closed ends are rejected with \<open>ValueError\<close>.
\<close>

lemma from_window_size_covers:
  "from_window_size n closure =
     (let rows = (case closure of ClosedRight \<Rightarrow> n | ClosedLeft \<Rightarrow> n | ClosedBoth \<Rightarrow> n + 1 | ClosedNeither \<Rightarrow> n - 1
         | ClosedOther _ \<Rightarrow> 0);
          last = (case closure of ClosedRight \<Rightarrow> 0 | ClosedBoth \<Rightarrow> 0 | _ \<Rightarrow> - 1)
      in if rows \<ge> 1 then Inr (RowsWindowBounds (Some (last + 1 - rows)) (Some last)) else Inl ValueError)"
  by (cases closure) (auto simp: from_window_size_def rows_bounds_def bounds_ok_def Let_def)



end
