(* ===== verification/Nodes.thy ===== *)
theory Nodes
  imports Schema Row_Orderings Slices
begin

text \<open>
  The plan nodes of \<^verbatim>\<open>core/nodes.py\<close> over the interface of \<^verbatim>\<open>core/bigframe_node.py\<close>. A node
  class is a constructor; the properties a class defines are one definition per class, from
  the node's own data and its children's properties, starting from the defaults of the base
  classes; \<open>props_of\<close> is the dispatch. A chained sequence of fields is the list of its items
  (theory \<open>Sequences\<close> shows that indexing and iterating it are those of that list).
\<close>

subsection \<open>Sources and scan lists\<close>

datatype scan_item = ScanItem (scan_id: column_id) (source_id: string)

type_synonym scan_list = "scan_item list"

definition scan_with_id :: "column_id \<Rightarrow> scan_item \<Rightarrow> scan_item" where
  "scan_with_id i item = ScanItem i (source_id item)"

definition scan_with_source_id :: "string \<Rightarrow> scan_item \<Rightarrow> scan_item" where
  "scan_with_source_id s item = ScanItem (scan_id item) s"

definition scan_filter_cols :: "column_id set \<Rightarrow> scan_list \<Rightarrow> scan_list" where
  "scan_filter_cols ids items =
     (let kept = filter (\<lambda>item. scan_id item \<in> ids) items
      in if length kept = 0 then take 1 items else kept)"

text \<open>The selections are the items of a dictionary, old identifier to new one.\<close>

definition scan_project :: "(column_id \<times> column_id) list \<Rightarrow> scan_list \<Rightarrow> scan_list result" where
  "scan_project selections items =
     (let by_id = dict_of (map (\<lambda>item. (scan_id item, item)) items)
      in rbind (mapM (\<lambda>(old_id, new_id). rbind (lookup_or KeyError by_id old_id)
                       (\<lambda>item. Inr (scan_with_id new_id item))) selections)
           (\<lambda>kept. Inr (if length kept = 0 then take 1 items else kept)))"

definition scan_remap_source_ids :: "(string \<Rightarrow> string option) \<Rightarrow> scan_list \<Rightarrow> scan_list" where
  "scan_remap_source_ids mapping items =
     map (\<lambda>item. scan_with_source_id (get_or_self mapping (source_id item)) item) items"

definition scan_append :: "string \<Rightarrow> dtype \<Rightarrow> column_id \<Rightarrow> scan_list \<Rightarrow> scan_list" where
  "scan_append s dtype i items = items @ [ScanItem i s]"

text \<open>
  A local table by its key in the data the session holds, its schema and its row count; a
  BigQuery table by its name, physical columns with their nullability, and clustering columns.
\<close>

type_synonym session = "nat option"

record local_source =
  local_key :: nat
  local_schema :: array_schema
  local_row_count :: int

record bq_table =
  table_name :: string
  physical_schema :: "(string \<times> bool) list"
  cluster_cols :: "string list option"

record bq_source =
  src_table :: bq_table
  src_schema :: array_schema
  src_predicate :: "string option"
  src_ordering :: "row_ordering option"
  src_n_rows :: "int option"

definition physical_names :: "bq_table \<Rightarrow> string list" where
  "physical_names t = map fst (physical_schema t)"

definition schema_by_id :: "bq_table \<Rightarrow> string \<Rightarrow> bool option" where
  "schema_by_id t = dict_of (physical_schema t)"

definition BigqueryDataSource_post_init :: "bq_source \<Rightarrow> unit result" where
  "BigqueryDataSource_post_init s =
     assert_that (set (schema_names (src_schema s)) \<subseteq> set (physical_names (src_table s)))"

subsection \<open>The node classes\<close>

datatype join_type = InnerJoin | OuterJoin | LeftJoin | RightJoin | CrossJoin

datatype column_def = ColumnDef (cdef_expression: expr) (cdef_id: column_id)

datatype bfnode =
    SliceNode bfnode "int option" "int option" int
  | InNode bfnode bfnode deref column_id
  | JoinNode bfnode bfnode "(deref \<times> deref) list" join_type bool
  | ConcatNode "bfnode list" "column_id list"
  | FromRangeNode bfnode bfnode int column_id
  | ReadLocalNode local_source scan_list session "column_id option"
  | ReadTableNode bq_source scan_list session
  | CachedTableNode bq_source scan_list session bfnode
  | PromoteOffsetsNode bfnode column_id
  | FilterNode bfnode expr
  | OrderByNode bfnode "expr ordering_expression list" bool
  | ReversedNode bfnode bool
  | SelectionNode bfnode "(deref \<times> column_id) list"
  | ProjectionNode bfnode "(expr \<times> column_id) list"
  | AggregateNode bfnode "(expr \<times> column_id) list" "deref list" "expr ordering_expression list" bool
  | WindowOpNode bfnode "column_def list" "expr window_spec"
  | RandomSampleNode bfnode rat
  | ExplodeNode bfnode "deref list" "column_id option"
  | ResultNode bfnode "(deref \<times> string) list" "row_ordering option" "int option"
  | CteNode bfnode

text \<open>\<^verbatim>\<open>child_nodes\<close>: a cached table's original plan is not a child.\<close>

fun child_nodes :: "bfnode \<Rightarrow> bfnode list" where
  "child_nodes (SliceNode c _ _ _) = [c]"
| "child_nodes (InNode l r _ _) = [l, r]"
| "child_nodes (JoinNode l r _ _ _) = [l, r]"
| "child_nodes (ConcatNode cs _) = cs"
| "child_nodes (FromRangeNode s e _ _) = [s, e]"
| "child_nodes (ReadLocalNode _ _ _ _) = []"
| "child_nodes (ReadTableNode _ _ _) = []"
| "child_nodes (CachedTableNode _ _ _ _) = []"
| "child_nodes (PromoteOffsetsNode c _) = [c]"
| "child_nodes (FilterNode c _) = [c]"
| "child_nodes (OrderByNode c _ _) = [c]"
| "child_nodes (ReversedNode c _) = [c]"
| "child_nodes (SelectionNode c _) = [c]"
| "child_nodes (ProjectionNode c _) = [c]"
| "child_nodes (AggregateNode c _ _ _ _) = [c]"
| "child_nodes (WindowOpNode c _ _) = [c]"
| "child_nodes (RandomSampleNode c _) = [c]"
| "child_nodes (ExplodeNode c _ _) = [c]"
| "child_nodes (ResultNode c _ _ _) = [c]"
| "child_nodes (CteNode c) = [c]"

fun transform_children :: "(bfnode \<Rightarrow> bfnode) \<Rightarrow> bfnode \<Rightarrow> bfnode" where
  "transform_children t (SliceNode c a b s) = SliceNode (t c) a b s"
| "transform_children t (InNode l r x i) = InNode (t l) (t r) x i"
| "transform_children t (JoinNode l r cond ty p) = JoinNode (t l) (t r) cond ty p"
| "transform_children t (ConcatNode cs out) = ConcatNode (map t cs) out"
| "transform_children t (FromRangeNode s e st i) = FromRangeNode (t s) (t e) st i"
| "transform_children t (ReadLocalNode d sl se off) = ReadLocalNode d sl se off"
| "transform_children t (ReadTableNode src sl se) = ReadTableNode src sl se"
| "transform_children t (CachedTableNode src sl se orig) = CachedTableNode src sl se orig"
| "transform_children t (PromoteOffsetsNode c i) = PromoteOffsetsNode (t c) i"
| "transform_children t (FilterNode c p) = FilterNode (t c) p"
| "transform_children t (OrderByNode c ps tot) = OrderByNode (t c) ps tot"
| "transform_children t (ReversedNode c rv) = ReversedNode (t c) rv"
| "transform_children t (SelectionNode c ps) = SelectionNode (t c) ps"
| "transform_children t (ProjectionNode c as) = ProjectionNode (t c) as"
| "transform_children t (AggregateNode c as ks os dn) = AggregateNode (t c) as ks os dn"
| "transform_children t (WindowOpNode c ds w) = WindowOpNode (t c) ds w"
| "transform_children t (RandomSampleNode c fr) = RandomSampleNode (t c) fr"
| "transform_children t (ExplodeNode c cols off) = ExplodeNode (t c) cols off"
| "transform_children t (ResultNode c outs ord n) = ResultNode (t c) outs ord n"
| "transform_children t (CteNode c) = CteNode (t c)"

lemma child_nodes_transform [simp]: "child_nodes (transform_children t n) = map t (child_nodes n)"
  by (cases n) simp_all

lemma transform_children_cong [fundef_cong]:
  "n = n' \<Longrightarrow> (\<And>c. c \<in> set (child_nodes n') \<Longrightarrow> t c = t' c)
    \<Longrightarrow> transform_children t n = transform_children t' n'"
  by (cases n') auto

lemma transform_children_comp:
  "transform_children t (transform_children t' n) = transform_children (\<lambda>c. t (t' c)) n"
  by (cases n) simp_all

lemma transform_children_id [simp]: "transform_children (\<lambda>c. c) n = n"
  by (cases n) simp_all

lemma size_list_member: "x \<in> set xs \<Longrightarrow> size x < Suc (size_list size xs)"
  by (induction xs) auto

lemma size_child_nodes: "c \<in> set (child_nodes n) \<Longrightarrow> size c < size n"
  by (cases n) (auto dest: size_list_member)


subsection \<open>The properties of a node\<close>

record node_props =
  n_deterministic :: bool
  n_row_preserving :: bool
  n_non_local :: bool
  n_row_count :: "int option"
  n_node_defined_ids :: "column_id list result"
  n_session :: "session result"
  n_fields :: "field list result"
  n_variables_introduced :: "int result"
  n_relation_ops_created :: int
  n_joins :: bool
  n_order_ambiguous :: bool
  n_explicitly_ordered :: bool
  n_defines_namespace :: bool
  n_referenced_ids :: "column_id set"
  n_node_expressions :: "expr list"
  n_height :: nat
  n_total_variables :: "int result"
  n_total_relational_ops :: int
  n_total_joins :: int
  n_defined_variables :: "string set result"

definition mk_field :: "column_id \<Rightarrow> etype \<Rightarrow> bool \<Rightarrow> field" where
  "mk_field i t n = \<lparr>field_id = i, field_dtype = t, field_nullable = n\<rparr>"

lemma mk_field_simps [simp]:
  "field_id (mk_field i t n) = i" "field_dtype (mk_field i t n) = t"
  "field_nullable (mk_field i t n) = n"
  by (simp_all add: mk_field_def)

definition fields_by_id :: "field list \<Rightarrow> column_id \<Rightarrow> field option" where
  "fields_by_id fs = dict_of (map (\<lambda>f. (field_id f, f)) fs)"

text \<open>\<^verbatim>\<open>session\<close>: the one session of the children, an error when there are several.\<close>

definition combined_session :: "session result list \<Rightarrow> session result" where
  "combined_session ss =
     rbind (mapM (\<lambda>s. s) ss) (\<lambda>found.
       let sessions = filter (\<lambda>s. s \<noteq> None) found; unique_sessions = length (remdups sessions)
       in if unique_sessions > 1 then Inl ValueError
          else if unique_sessions = 1 then Inr (hd sessions) else Inr None)"

text \<open>
  The defaults of \<^verbatim>\<open>BigFrameNode\<close>, and the properties it derives from those a class overrides
  and the children's: height, totals and the variables of the namespace.
\<close>

definition BigFrameNode_props :: "node_props list \<Rightarrow> node_props" where
  "BigFrameNode_props cs = \<lparr>n_deterministic = True, n_row_preserving = True, n_non_local = False,
     n_row_count = None, n_node_defined_ids = Inr [],
     n_session = combined_session (map n_session cs),
     n_fields = Inl NotImplementedError, n_variables_introduced = Inl NotImplementedError,
     n_relation_ops_created = 1, n_joins = False, n_order_ambiguous = False,
     n_explicitly_ordered = False, n_defines_namespace = False, n_referenced_ids = {},
     n_node_expressions = [], n_height = 0, n_total_variables = Inr 0,
     n_total_relational_ops = 0, n_total_joins = 0, n_defined_variables = Inr {}\<rparr>"

definition BigFrameNode_height :: "node_props list \<Rightarrow> nat" where
  "BigFrameNode_height cs = (if cs = [] then 0 else Max (set (map n_height cs)) + 1)"

definition BigFrameNode_total_variables :: "node_props list \<Rightarrow> node_props \<Rightarrow> int result" where
  "BigFrameNode_total_variables cs p =
     rbind (n_variables_introduced p) (\<lambda>own.
       rbind (mapM n_total_variables cs) (\<lambda>subs. Inr (own + sum_list subs)))"

definition BigFrameNode_total_relational_ops :: "node_props list \<Rightarrow> node_props \<Rightarrow> int" where
  "BigFrameNode_total_relational_ops cs p =
     n_relation_ops_created p + sum_list (map n_total_relational_ops cs)"

definition BigFrameNode_total_joins :: "node_props list \<Rightarrow> node_props \<Rightarrow> int" where
  "BigFrameNode_total_joins cs p = of_bool (n_joins p) + sum_list (map n_total_joins cs)"

definition BigFrameNode_defined_variables :: "node_props list \<Rightarrow> node_props \<Rightarrow> string set result" where
  "BigFrameNode_defined_variables cs p =
     rbind (n_fields p) (\<lambda>fs.
       let self_defined = set (map (\<lambda>f. id_name (field_id f)) fs)
       in if n_defines_namespace p then Inr self_defined
          else rbind (mapM n_defined_variables cs)
                 (\<lambda>subs. Inr (self_defined \<union> \<Union> (set subs))))"

definition BigFrameNode_derived :: "node_props list \<Rightarrow> node_props \<Rightarrow> node_props" where
  "BigFrameNode_derived cs p = p\<lparr>n_height := BigFrameNode_height cs,
     n_total_variables := BigFrameNode_total_variables cs p,
     n_total_relational_ops := BigFrameNode_total_relational_ops cs p,
     n_total_joins := BigFrameNode_total_joins cs p,
     n_defined_variables := BigFrameNode_defined_variables cs p\<rparr>"

definition UnaryNode_props :: "node_props \<Rightarrow> node_props" where
  "UnaryNode_props c = (BigFrameNode_props [c])\<lparr>n_fields := n_fields c,
     n_explicitly_ordered := n_explicitly_ordered c, n_order_ambiguous := n_order_ambiguous c\<rparr>"

definition OVERHEAD_VARIABLES :: int where "OVERHEAD_VARIABLES = 5"

definition SliceNode_row_count :: "int option \<Rightarrow> int option \<Rightarrow> int \<Rightarrow> int option \<Rightarrow> int option" where
  "SliceNode_row_count start stop step child_length =
     (case child_length of None \<Rightarrow> None
      | Some n \<Rightarrow> Some (slice_output_rows (start, stop, Some step) n))"

definition SliceNode_props :: "node_props \<Rightarrow> int option \<Rightarrow> int option \<Rightarrow> int \<Rightarrow> node_props" where
  "SliceNode_props c start stop step = (UnaryNode_props c)\<lparr>n_row_preserving := False,
     n_non_local := True, n_variables_introduced := Inr 2, n_relation_ops_created := 2,
     n_row_count := SliceNode_row_count start stop step (n_row_count c),
     n_node_defined_ids := Inr [], n_referenced_ids := {}\<rparr>"

definition InNode_added_fields :: "column_id \<Rightarrow> field list" where
  "InNode_added_fields indicator = [mk_field indicator (Some BOOL_DTYPE) False]"

definition InNode_props :: "node_props \<Rightarrow> node_props \<Rightarrow> deref \<Rightarrow> column_id \<Rightarrow> node_props" where
  "InNode_props l r left_col indicator = (BigFrameNode_props [l, r])\<lparr>n_row_preserving := False,
     n_non_local := True, n_order_ambiguous := False, n_explicitly_ordered := True,
     n_fields := rbind (n_fields l) (\<lambda>fs. Inr (fs @ InNode_added_fields indicator)),
     n_variables_introduced := Inr 1, n_joins := True, n_row_count := n_row_count l,
     n_node_defined_ids := Inr [indicator], n_referenced_ids := {ref_id left_col},
     n_node_expressions := [Deref left_col]\<rparr>"

definition JoinNode_fields :: "node_props \<Rightarrow> node_props \<Rightarrow> join_type \<Rightarrow> field list result" where
  "JoinNode_fields l r ty =
     rbind (n_fields l) (\<lambda>lf. rbind (n_fields r) (\<lambda>rf. Inr (
        (if ty \<in> {RightJoin, OuterJoin} then map with_nullable lf else lf) @
        (if ty \<in> {LeftJoin, OuterJoin} then map with_nullable rf else rf))))"

definition JoinNode_row_count :: "int option \<Rightarrow> int option \<Rightarrow> join_type \<Rightarrow> int option" where
  "JoinNode_row_count l r ty =
     (if ty = CrossJoin
      then (case l of None \<Rightarrow> None | Some n \<Rightarrow> (case r of None \<Rightarrow> None | Some m \<Rightarrow> Some (n * m)))
      else None)"

definition JoinNode_props :: "node_props \<Rightarrow> node_props \<Rightarrow> (deref \<times> deref) list \<Rightarrow> join_type
    \<Rightarrow> bool \<Rightarrow> node_props" where
  "JoinNode_props l r conditions ty propogate_order = (BigFrameNode_props [l, r])\<lparr>
     n_row_preserving := False, n_non_local := True, n_order_ambiguous := True,
     n_explicitly_ordered := propogate_order, n_fields := JoinNode_fields l r ty,
     n_variables_introduced := Inr OVERHEAD_VARIABLES, n_joins := True,
     n_row_count := JoinNode_row_count (n_row_count l) (n_row_count r) ty,
     n_node_defined_ids := Inr [],
     n_referenced_ids := (\<Union>(a, b) \<in> set conditions. {ref_id a, ref_id b}),
     n_node_expressions := concat (map (\<lambda>(a, b). [Deref a, Deref b]) conditions)\<rparr>"

definition ConcatNode_fields :: "node_props list \<Rightarrow> column_id list \<Rightarrow> field list result" where
  "ConcatNode_fields cs output_ids =
     (case cs of [] \<Rightarrow> Inl IndexError
      | c # _ \<Rightarrow> rbind (n_fields c) (\<lambda>fs.
          Inr (map (\<lambda>(i, f). mk_field i (field_dtype f) True) (zip output_ids fs))))"

fun ConcatNode_row_count :: "int \<Rightarrow> int option list \<Rightarrow> int option" where
  "ConcatNode_row_count subtotal [] = Some subtotal"
| "ConcatNode_row_count subtotal (None # counts) = None"
| "ConcatNode_row_count subtotal (Some n # counts) = ConcatNode_row_count (subtotal + n) counts"

definition ConcatNode_props :: "node_props list \<Rightarrow> column_id list \<Rightarrow> node_props" where
  "ConcatNode_props cs output_ids = (BigFrameNode_props cs)\<lparr>
     n_order_ambiguous := list_ex n_order_ambiguous cs, n_explicitly_ordered := True,
     n_fields := ConcatNode_fields cs output_ids,
     n_variables_introduced := rbind (ConcatNode_fields cs output_ids)
       (\<lambda>fs. Inr (int (length fs) + OVERHEAD_VARIABLES)),
     n_row_count := ConcatNode_row_count 0 (map n_row_count cs),
     n_node_defined_ids := Inr output_ids\<rparr>"

definition FromRangeNode_fields :: "node_props \<Rightarrow> column_id \<Rightarrow> field list result" where
  "FromRangeNode_fields start output_id =
     rbind (n_fields start) (\<lambda>fs.
       case fs of [] \<Rightarrow> Inl StopIterationError
       | f # _ \<Rightarrow> Inr [mk_field output_id (field_dtype f) False])"

definition FromRangeNode_props :: "node_props \<Rightarrow> node_props \<Rightarrow> column_id \<Rightarrow> node_props" where
  "FromRangeNode_props start stop output_id = (BigFrameNode_props [start, stop])\<lparr>
     n_order_ambiguous := False, n_explicitly_ordered := True,
     n_fields := FromRangeNode_fields start output_id,
     n_variables_introduced := rbind (FromRangeNode_fields start output_id)
       (\<lambda>fs. Inr (int (length fs) + OVERHEAD_VARIABLES)),
     n_row_count := None, n_node_defined_ids := Inr [output_id], n_defines_namespace := True\<rparr>"

definition ReadLocalNode_fields :: "local_source \<Rightarrow> scan_list \<Rightarrow> column_id option \<Rightarrow> field list result" where
  "ReadLocalNode_fields d items offsets_col =
     rbind (mapM (\<lambda>item. rbind (schema_get_type (local_schema d) (source_id item))
                    (\<lambda>t. Inr (mk_field (scan_id item) t True))) items)
       (\<lambda>fs. Inr (case offsets_col of None \<Rightarrow> fs
                  | Some i \<Rightarrow> fs @ [mk_field i (Some INT_DTYPE) False]))"

definition ReadLocalNode_props :: "local_source \<Rightarrow> scan_list \<Rightarrow> session \<Rightarrow> column_id option \<Rightarrow> node_props" where
  "ReadLocalNode_props d items sess offsets_col = (BigFrameNode_props [])\<lparr>
     n_session := Inr sess, n_fields := ReadLocalNode_fields d items offsets_col,
     n_variables_introduced := Inr (int (length items) + 1),
     n_order_ambiguous := False, n_explicitly_ordered := True,
     n_row_count := Some (local_row_count d),
     n_node_defined_ids := rbind (ReadLocalNode_fields d items offsets_col)
       (\<lambda>fs. Inr (map field_id fs))\<rparr>"

definition ReadTableNode_fields :: "bq_source \<Rightarrow> scan_list \<Rightarrow> field list result" where
  "ReadTableNode_fields src items =
     mapM (\<lambda>item. rbind (schema_get_type (src_schema src) (source_id item)) (\<lambda>t.
                    rbind (lookup_or KeyError (schema_by_id (src_table src)) (source_id item))
                      (\<lambda>nullable. Inr (mk_field (scan_id item) t nullable)))) items"

definition ReadTableNode_order_ambiguous :: "bq_source \<Rightarrow> bool" where
  "ReadTableNode_order_ambiguous src =
     (case src_ordering src of None \<Rightarrow> True | Some ord \<Rightarrow> \<not> is_total_ordering ord)"

definition ReadTableNode_props :: "bq_source \<Rightarrow> scan_list \<Rightarrow> session \<Rightarrow> node_props" where
  "ReadTableNode_props src items sess = (BigFrameNode_props [])\<lparr>
     n_session := Inr sess, n_fields := ReadTableNode_fields src items,
     n_relation_ops_created := 3,
     n_order_ambiguous := ReadTableNode_order_ambiguous src,
     n_explicitly_ordered := (src_ordering src \<noteq> None),
     n_variables_introduced := Inr (int (length items) + 1),
     n_row_count := src_n_rows src, n_node_defined_ids := Inr (map scan_id items)\<rparr>"


definition PromoteOffsetsNode_added_fields :: "column_id \<Rightarrow> field list" where
  "PromoteOffsetsNode_added_fields i = [mk_field i (Some INT_DTYPE) False]"

definition PromoteOffsetsNode_props :: "node_props \<Rightarrow> column_id \<Rightarrow> node_props" where
  "PromoteOffsetsNode_props c i = (UnaryNode_props c)\<lparr>n_non_local := True,
     n_fields := rbind (n_fields c) (\<lambda>fs. Inr (fs @ PromoteOffsetsNode_added_fields i)),
     n_relation_ops_created := 2, n_variables_introduced := Inr 1, n_row_count := n_row_count c,
     n_node_defined_ids := Inr [i], n_referenced_ids := {}\<rparr>"

definition FilterNode_props :: "node_props \<Rightarrow> expr \<Rightarrow> node_props" where
  "FilterNode_props c predicate = (UnaryNode_props c)\<lparr>n_row_preserving := False,
     n_variables_introduced := Inr 1, n_row_count := None, n_node_defined_ids := Inr [],
     n_referenced_ids := set (column_references predicate), n_node_expressions := [predicate]\<rparr>"

definition OrderByNode_props :: "node_props \<Rightarrow> expr ordering_expression list \<Rightarrow> node_props" where
  "OrderByNode_props c by = (UnaryNode_props c)\<lparr>n_variables_introduced := Inr 0,
     n_relation_ops_created := 0, n_explicitly_ordered := True, n_row_count := n_row_count c,
     n_node_defined_ids := Inr [], n_referenced_ids := \<Union> (set (map referenced_columns by)),
     n_node_expressions := map scalar_expression by\<rparr>"

definition ReversedNode_props :: "node_props \<Rightarrow> node_props" where
  "ReversedNode_props c = (UnaryNode_props c)\<lparr>n_variables_introduced := Inr 0,
     n_relation_ops_created := 0, n_row_count := n_row_count c, n_node_defined_ids := Inr [],
     n_referenced_ids := {}\<rparr>"

definition selected_field :: "(column_id \<Rightarrow> field option) \<Rightarrow> deref \<Rightarrow> column_id \<Rightarrow> field result" where
  "selected_field input_fields_by_id ref output =
     rbind (lookup_or KeyError input_fields_by_id (ref_id ref))
       (\<lambda>f. Inr (mk_field output (field_dtype f) (field_nullable f)))"

definition SelectionNode_fields :: "field list result \<Rightarrow> (deref \<times> column_id) list \<Rightarrow> field list result" where
  "SelectionNode_fields child_fields pairs =
     rbind child_fields (\<lambda>fs. mapM (\<lambda>(ref, output). selected_field (fields_by_id fs) ref output) pairs)"

definition has_multi_referenced_ids :: "(deref \<times> column_id) list \<Rightarrow> bool" where
  "has_multi_referenced_ids pairs =
     (let referenced = map (\<lambda>(ref, _). ref_id ref) pairs
      in length referenced \<noteq> card (set referenced))"

definition SelectionNode_props :: "node_props \<Rightarrow> (deref \<times> column_id) list \<Rightarrow> node_props" where
  "SelectionNode_props c pairs = (UnaryNode_props c)\<lparr>n_fields := SelectionNode_fields (n_fields c) pairs,
     n_variables_introduced := Inr 0, n_defines_namespace := True, n_row_count := n_row_count c,
     n_node_defined_ids := Inr (map snd pairs), n_node_expressions := map (\<lambda>(ref, _). Deref ref) pairs\<rparr>"

definition any_nullable :: "(column_id \<Rightarrow> field option) \<Rightarrow> column_id list \<Rightarrow> bool result" where
  "any_nullable m = any_while (\<lambda>i. rbind (lookup_or KeyError m i) (\<lambda>f. Inr (field_nullable f)))"

definition projected_field :: "(column_id \<Rightarrow> field option) \<Rightarrow> expr \<Rightarrow> column_id \<Rightarrow> field result" where
  "projected_field m e i =
     rbind (bind_schema_fields e m) (\<lambda>bound_expr.
       rbind (output_type bound_expr) (\<lambda>t.
         let f = mk_field i (Some (dtype_for_etype t)) (nullable bound_expr)
         in if is_identity bound_expr
            then rbind (any_nullable m (column_references e))
                   (\<lambda>n. Inr (if \<not> n then with_nonnull f else f))
            else Inr f))"

definition ProjectionNode_added_fields :: "field list result \<Rightarrow> (expr \<times> column_id) list \<Rightarrow> field list result" where
  "ProjectionNode_added_fields child_fields assignments =
     mapM (\<lambda>(e, i). rbind child_fields (\<lambda>fs. projected_field (fields_by_id fs) e i)) assignments"

definition ProjectionNode_props :: "node_props \<Rightarrow> (expr \<times> column_id) list \<Rightarrow> node_props" where
  "ProjectionNode_props c assignments = (UnaryNode_props c)\<lparr>
     n_fields := rbind (n_fields c) (\<lambda>fs.
       rbind (ProjectionNode_added_fields (n_fields c) assignments) (\<lambda>added. Inr (fs @ added))),
     n_variables_introduced := Inr (int (length (filter (\<lambda>(e, _). \<not> is_identity e) assignments))),
     n_row_count := n_row_count c, n_node_defined_ids := Inr (map snd assignments),
     n_referenced_ids := (\<Union>(e, _) \<in> set assignments. set (column_references e)),
     n_node_expressions := map fst assignments\<rparr>"

definition aggregated_field :: "(column_id \<Rightarrow> field option) \<Rightarrow> expr \<Rightarrow> column_id \<Rightarrow> field result" where
  "aggregated_field m agg i =
     rbind (bind_schema_fields agg m) (\<lambda>bound_expr.
       rbind (output_type bound_expr) (\<lambda>t. Inr (mk_field i t True)))"

definition AggregateNode_fields :: "field list result \<Rightarrow> (expr \<times> column_id) list \<Rightarrow> deref list
    \<Rightarrow> bool \<Rightarrow> field list result" where
  "AggregateNode_fields child_fields aggregations by_column_ids dropna =
     rbind (mapM (\<lambda>ref. rbind child_fields (\<lambda>fs.
              rbind (lookup_or KeyError (fields_by_id fs) (ref_id ref))
                (\<lambda>f. Inr (if dropna then with_nonnull f else f)))) by_column_ids) (\<lambda>by_fields.
       rbind (mapM (\<lambda>(agg, i). rbind child_fields (\<lambda>fs. aggregated_field (fields_by_id fs) agg i))
                aggregations) (\<lambda>agg_items. Inr (by_fields @ agg_items)))"

definition AggregateNode_props :: "node_props \<Rightarrow> (expr \<times> column_id) list \<Rightarrow> deref list
    \<Rightarrow> expr ordering_expression list \<Rightarrow> bool \<Rightarrow> node_props" where
  "AggregateNode_props c aggregations by_column_ids order_by dropna = (UnaryNode_props c)\<lparr>
     n_row_preserving := False, n_non_local := True,
     n_fields := AggregateNode_fields (n_fields c) aggregations by_column_ids dropna,
     n_variables_introduced := Inr (int (length aggregations) + int (length by_column_ids)),
     n_order_ambiguous := False, n_explicitly_ordered := True,
     n_row_count := (if by_column_ids = [] then Some 1 else None),
     n_node_defined_ids := Inr (map snd aggregations),
     n_node_expressions := map Deref by_column_ids @ map fst aggregations @ map scalar_expression order_by\<rparr>"

definition WindowOpNode_added_fields :: "field list result \<Rightarrow> column_def list \<Rightarrow> field list result" where
  "WindowOpNode_added_fields child_fields agg_exprs =
     mapM (\<lambda>cdef. rbind child_fields (\<lambda>fs.
             aggregated_field (fields_by_id fs) (cdef_expression cdef) (cdef_id cdef))) agg_exprs"

definition WindowOpNode_props :: "node_props \<Rightarrow> column_def list \<Rightarrow> expr window_spec \<Rightarrow> node_props" where
  "WindowOpNode_props c agg_exprs w = (UnaryNode_props c)\<lparr>n_non_local := True,
     n_fields := rbind (n_fields c) (\<lambda>fs.
       rbind (WindowOpNode_added_fields (n_fields c) agg_exprs) (\<lambda>added. Inr (fs @ added))),
     n_variables_introduced := Inr 1, n_relation_ops_created := 2, n_row_count := n_row_count c,
     n_node_defined_ids := rbind (WindowOpNode_added_fields (n_fields c) agg_exprs)
       (\<lambda>added. Inr (map field_id added)),
     n_referenced_ids := (\<Union>cdef \<in> set agg_exprs. set (column_references (cdef_expression cdef)))
       \<union> all_referenced_columns w,
     n_node_expressions := map cdef_expression agg_exprs @ window_expressions w\<rparr>"

definition RandomSampleNode_props :: "node_props \<Rightarrow> node_props" where
  "RandomSampleNode_props c = (UnaryNode_props c)\<lparr>n_deterministic := False,
     n_row_preserving := False, n_variables_introduced := Inr 1, n_row_count := None,
     n_node_defined_ids := Inr [], n_referenced_ids := {}\<rparr>"

text \<open>The element type of an array column; another type has no \<^verbatim>\<open>value_type\<close>.\<close>

fun array_value_type :: "etype \<Rightarrow> etype result" where
  "array_value_type (Some (LIST_DTYPE t)) = Inr (Some t)"
| "array_value_type _ = Inl AttributeError"

definition ExplodeNode_fields :: "field list result \<Rightarrow> deref list \<Rightarrow> column_id option \<Rightarrow> field list result" where
  "ExplodeNode_fields child_fields column_ids offsets_col =
     rbind child_fields (\<lambda>cf.
       rbind (mapM (\<lambda>f. if field_id f \<in> set (map ref_id column_ids)
                        then rbind (lookup_or KeyError (fields_by_id cf) (field_id f)) (\<lambda>g.
                               rbind (array_value_type (field_dtype g))
                                 (\<lambda>t. Inr (mk_field (field_id f) t True)))
                        else Inr f) cf)
         (\<lambda>fs. Inr (case offsets_col of None \<Rightarrow> fs
                    | Some i \<Rightarrow> fs @ [mk_field i (Some INT_DTYPE) False])))"

definition ExplodeNode_props :: "node_props \<Rightarrow> deref list \<Rightarrow> column_id option \<Rightarrow> node_props" where
  "ExplodeNode_props c column_ids offsets_col = (UnaryNode_props c)\<lparr>n_row_preserving := False,
     n_fields := ExplodeNode_fields (n_fields c) column_ids offsets_col,
     n_relation_ops_created := 3, n_variables_introduced := Inr (int (length column_ids) + 1),
     n_row_count := None,
     n_node_defined_ids := Inr (case offsets_col of None \<Rightarrow> [] | Some i \<Rightarrow> [i]),
     n_referenced_ids := set (map ref_id column_ids), n_node_expressions := map Deref column_ids\<rparr>"

definition ResultNode_fields :: "field list result \<Rightarrow> (deref \<times> string) list \<Rightarrow> field list result" where
  "ResultNode_fields child_fields output_cols =
     rbind child_fields (\<lambda>fs.
       mapM (\<lambda>(ref, output). selected_field (fields_by_id fs) ref (ColumnId output)) output_cols)"

definition ResultNode_row_count :: "int option \<Rightarrow> int option \<Rightarrow> int option" where
  "ResultNode_row_count child_count limit =
     (case child_count of None \<Rightarrow> None
      | Some n \<Rightarrow> (case limit of None \<Rightarrow> Some n | Some k \<Rightarrow> Some (min k n)))"

definition ResultNode_props :: "node_props \<Rightarrow> (deref \<times> string) list \<Rightarrow> int option \<Rightarrow> node_props" where
  "ResultNode_props c output_cols limit = (UnaryNode_props c)\<lparr>n_node_defined_ids := Inr [],
     n_fields := ResultNode_fields (n_fields c) output_cols,
     n_row_count := ResultNode_row_count (n_row_count c) limit,
     n_variables_introduced := Inr 0, n_node_expressions := map (\<lambda>(ref, _). Deref ref) output_cols\<rparr>"

definition CteNode_props :: "node_props \<Rightarrow> node_props" where
  "CteNode_props c = (UnaryNode_props c)\<lparr>n_fields := n_fields c, n_variables_introduced := Inr 0,
     n_row_count := n_row_count c, n_node_defined_ids := Inr []\<rparr>"

subsection \<open>Dispatch\<close>

definition own_props :: "(bfnode \<Rightarrow> node_props) \<Rightarrow> bfnode \<Rightarrow> node_props" where
  "own_props P n = (case n of
     SliceNode c a b s \<Rightarrow> SliceNode_props (P c) a b s
   | InNode l r x i \<Rightarrow> InNode_props (P l) (P r) x i
   | JoinNode l r conds ty p \<Rightarrow> JoinNode_props (P l) (P r) conds ty p
   | ConcatNode cs out \<Rightarrow> ConcatNode_props (map P cs) out
   | FromRangeNode a b st i \<Rightarrow> FromRangeNode_props (P a) (P b) i
   | ReadLocalNode d items sess off \<Rightarrow> ReadLocalNode_props d items sess off
   | ReadTableNode src items sess \<Rightarrow> ReadTableNode_props src items sess
   | CachedTableNode src items sess orig \<Rightarrow> ReadTableNode_props src items sess
   | PromoteOffsetsNode c i \<Rightarrow> PromoteOffsetsNode_props (P c) i
   | FilterNode c p \<Rightarrow> FilterNode_props (P c) p
   | OrderByNode c by tot \<Rightarrow> OrderByNode_props (P c) by
   | ReversedNode c rv \<Rightarrow> ReversedNode_props (P c)
   | SelectionNode c pairs \<Rightarrow> SelectionNode_props (P c) pairs
   | ProjectionNode c as \<Rightarrow> ProjectionNode_props (P c) as
   | AggregateNode c as ks os dn \<Rightarrow> AggregateNode_props (P c) as ks os dn
   | WindowOpNode c ds w \<Rightarrow> WindowOpNode_props (P c) ds w
   | RandomSampleNode c fr \<Rightarrow> RandomSampleNode_props (P c)
   | ExplodeNode c cols off \<Rightarrow> ExplodeNode_props (P c) cols off
   | ResultNode c outs ord k \<Rightarrow> ResultNode_props (P c) outs k
   | CteNode c \<Rightarrow> CteNode_props (P c))"

lemma own_props_cong [fundef_cong]:
  "n = n' \<Longrightarrow> (\<And>c. c \<in> set (child_nodes n') \<Longrightarrow> P c = Q c) \<Longrightarrow> own_props P n = own_props Q n'"
  by (cases n') (auto simp: own_props_def cong: map_cong)

function props_of :: "bfnode \<Rightarrow> node_props" where
  "props_of n = BigFrameNode_derived (map props_of (child_nodes n)) (own_props props_of n)"
  by pat_completeness auto
termination by (relation "measure size") (auto simp: size_child_nodes)

declare props_of.simps [simp del]

definition node_fields :: "bfnode \<Rightarrow> field list result" where "node_fields n = n_fields (props_of n)"
definition row_count :: "bfnode \<Rightarrow> int option" where "row_count n = n_row_count (props_of n)"
definition node_defined_ids :: "bfnode \<Rightarrow> column_id list result" where
  "node_defined_ids n = n_node_defined_ids (props_of n)"
definition node_session :: "bfnode \<Rightarrow> session result" where "node_session n = n_session (props_of n)"
definition order_ambiguous :: "bfnode \<Rightarrow> bool" where "order_ambiguous n = n_order_ambiguous (props_of n)"
definition explicitly_ordered :: "bfnode \<Rightarrow> bool" where
  "explicitly_ordered n = n_explicitly_ordered (props_of n)"
definition referenced_ids :: "bfnode \<Rightarrow> column_id set" where
  "referenced_ids n = n_referenced_ids (props_of n)"
definition node_expressions :: "bfnode \<Rightarrow> expr list" where
  "node_expressions n = n_node_expressions (props_of n)"
definition variables_introduced :: "bfnode \<Rightarrow> int result" where
  "variables_introduced n = n_variables_introduced (props_of n)"
definition total_variables :: "bfnode \<Rightarrow> int result" where
  "total_variables n = n_total_variables (props_of n)"
definition total_relational_ops :: "bfnode \<Rightarrow> int" where
  "total_relational_ops n = n_total_relational_ops (props_of n)"
definition total_joins :: "bfnode \<Rightarrow> int" where "total_joins n = n_total_joins (props_of n)"
definition height :: "bfnode \<Rightarrow> nat" where "height n = n_height (props_of n)"
definition defined_variables :: "bfnode \<Rightarrow> string set result" where
  "defined_variables n = n_defined_variables (props_of n)"

definition planning_complexity :: "bfnode \<Rightarrow> int result" where
  "planning_complexity n = rbind (total_variables n)
     (\<lambda>v. Inr (v * total_relational_ops n * (1 + total_joins n)))"

definition ids :: "bfnode \<Rightarrow> column_id list result" where
  "ids n = rbind (node_fields n) (\<lambda>fs. Inr (map field_id fs))"

definition node_schema :: "bfnode \<Rightarrow> array_schema result" where
  "node_schema n = rbind (node_fields n) (\<lambda>fs. Inr (map (\<lambda>f. (id_name (field_id f), field_dtype f)) fs))"

definition field_by_id :: "bfnode \<Rightarrow> (column_id \<Rightarrow> field option) result" where
  "field_by_id n = rbind (node_fields n) (\<lambda>fs. Inr (fields_by_id fs))"

definition get_type :: "bfnode \<Rightarrow> column_id \<Rightarrow> etype result" where
  "get_type n i = rbind (node_fields n) (\<lambda>fs.
     rbind (lookup_or KeyError (dict_of (map (\<lambda>f. (field_id f, field_dtype f)) fs)) i) Inr)"


lemma props_of_simps:
  "props_of (SliceNode c a b s) =
     BigFrameNode_derived [props_of c] (SliceNode_props (props_of c) a b s)"
  "props_of (InNode l r x i) =
     BigFrameNode_derived [props_of l, props_of r] (InNode_props (props_of l) (props_of r) x i)"
  "props_of (JoinNode l r conds ty po) =
     BigFrameNode_derived [props_of l, props_of r] (JoinNode_props (props_of l) (props_of r) conds ty po)"
  "props_of (ConcatNode cs out) =
     BigFrameNode_derived (map props_of cs) (ConcatNode_props (map props_of cs) out)"
  "props_of (FromRangeNode s0 e0 st i) =
     BigFrameNode_derived [props_of s0, props_of e0] (FromRangeNode_props (props_of s0) (props_of e0) i)"
  "props_of (ReadLocalNode d items sess off) =
     BigFrameNode_derived [] (ReadLocalNode_props d items sess off)"
  "props_of (ReadTableNode src items sess) =
     BigFrameNode_derived [] (ReadTableNode_props src items sess)"
  "props_of (CachedTableNode src items sess orig) =
     BigFrameNode_derived [] (ReadTableNode_props src items sess)"
  "props_of (PromoteOffsetsNode c i) =
     BigFrameNode_derived [props_of c] (PromoteOffsetsNode_props (props_of c) i)"
  "props_of (FilterNode c p) =
     BigFrameNode_derived [props_of c] (FilterNode_props (props_of c) p)"
  "props_of (OrderByNode c by tot) =
     BigFrameNode_derived [props_of c] (OrderByNode_props (props_of c) by)"
  "props_of (ReversedNode c rv) =
     BigFrameNode_derived [props_of c] (ReversedNode_props (props_of c))"
  "props_of (SelectionNode c pairs) =
     BigFrameNode_derived [props_of c] (SelectionNode_props (props_of c) pairs)"
  "props_of (ProjectionNode c asg) =
     BigFrameNode_derived [props_of c] (ProjectionNode_props (props_of c) asg)"
  "props_of (AggregateNode c aggs ks os dn) =
     BigFrameNode_derived [props_of c] (AggregateNode_props (props_of c) aggs ks os dn)"
  "props_of (WindowOpNode c ds w) =
     BigFrameNode_derived [props_of c] (WindowOpNode_props (props_of c) ds w)"
  "props_of (RandomSampleNode c fr) =
     BigFrameNode_derived [props_of c] (RandomSampleNode_props (props_of c))"
  "props_of (ExplodeNode c cols off) =
     BigFrameNode_derived [props_of c] (ExplodeNode_props (props_of c) cols off)"
  "props_of (ResultNode c outs ord k) =
     BigFrameNode_derived [props_of c] (ResultNode_props (props_of c) outs k)"
  "props_of (CteNode c) =
     BigFrameNode_derived [props_of c] (CteNode_props (props_of c))"
  by (subst props_of.simps, simp add: own_props_def)+

lemmas class_props = BigFrameNode_props_def UnaryNode_props_def BigFrameNode_derived_def
  SliceNode_props_def InNode_props_def JoinNode_props_def ConcatNode_props_def
  FromRangeNode_props_def ReadLocalNode_props_def ReadTableNode_props_def
  PromoteOffsetsNode_props_def FilterNode_props_def OrderByNode_props_def ReversedNode_props_def
  SelectionNode_props_def ProjectionNode_props_def AggregateNode_props_def
  WindowOpNode_props_def RandomSampleNode_props_def ExplodeNode_props_def
  ResultNode_props_def CteNode_props_def

lemma fields_simps [simp]:
  "node_fields (SliceNode c a b s) = node_fields c"
  "node_fields (InNode l r x i) = rbind (node_fields l) (\<lambda>fs. Inr (fs @ InNode_added_fields i))"
  "node_fields (JoinNode l r conds ty po) =
     rbind (node_fields l) (\<lambda>lf. rbind (node_fields r) (\<lambda>rf. Inr (
        (if ty \<in> {RightJoin, OuterJoin} then map with_nullable lf else lf) @
        (if ty \<in> {LeftJoin, OuterJoin} then map with_nullable rf else rf))))"
  "node_fields (ConcatNode cs out) =
     (case cs of [] \<Rightarrow> Inl IndexError
      | c # _ \<Rightarrow> rbind (node_fields c) (\<lambda>fs.
          Inr (map (\<lambda>(i, f). mk_field i (field_dtype f) True) (zip out fs))))"
  "node_fields (FromRangeNode s0 e0 st i) =
     rbind (node_fields s0) (\<lambda>fs.
       case fs of [] \<Rightarrow> Inl StopIterationError | f # _ \<Rightarrow> Inr [mk_field i (field_dtype f) False])"
  "node_fields (ReadLocalNode d items sess off) = ReadLocalNode_fields d items off"
  "node_fields (ReadTableNode src items sess) = ReadTableNode_fields src items"
  "node_fields (CachedTableNode src items sess orig) = ReadTableNode_fields src items"
  "node_fields (PromoteOffsetsNode c i) = rbind (node_fields c) (\<lambda>fs. Inr (fs @ PromoteOffsetsNode_added_fields i))"
  "node_fields (FilterNode c p) = node_fields c"
  "node_fields (OrderByNode c by tot) = node_fields c"
  "node_fields (ReversedNode c rv) = node_fields c"
  "node_fields (SelectionNode c pairs) = SelectionNode_fields (node_fields c) pairs"
  "node_fields (ProjectionNode c asg) =
     rbind (node_fields c) (\<lambda>fs.
       rbind (ProjectionNode_added_fields (node_fields c) asg) (\<lambda>added. Inr (fs @ added)))"
  "node_fields (AggregateNode c aggs ks os dn) = AggregateNode_fields (node_fields c) aggs ks dn"
  "node_fields (WindowOpNode c ds w) =
     rbind (node_fields c) (\<lambda>fs.
       rbind (WindowOpNode_added_fields (node_fields c) ds) (\<lambda>added. Inr (fs @ added)))"
  "node_fields (RandomSampleNode c fr) = node_fields c"
  "node_fields (ExplodeNode c cols off) = ExplodeNode_fields (node_fields c) cols off"
  "node_fields (ResultNode c outs ord k) = ResultNode_fields (node_fields c) outs"
  "node_fields (CteNode c) = node_fields c"
  by (simp_all add: node_fields_def props_of_simps class_props FromRangeNode_fields_def
      ConcatNode_fields_def JoinNode_fields_def split: list.split)

lemma row_count_simps [simp]:
  "row_count (SliceNode c a b s) = SliceNode_row_count a b s (row_count c)"
  "row_count (InNode l r x i) = row_count l"
  "row_count (JoinNode l r conds ty po) = JoinNode_row_count (row_count l) (row_count r) ty"
  "row_count (ConcatNode cs out) = ConcatNode_row_count 0 (map row_count cs)"
  "row_count (FromRangeNode s0 e0 st i) = None"
  "row_count (ReadLocalNode d items sess off) = Some (local_row_count d)"
  "row_count (ReadTableNode src items sess) = src_n_rows src"
  "row_count (CachedTableNode src items sess orig) = src_n_rows src"
  "row_count (PromoteOffsetsNode c i) = row_count c"
  "row_count (FilterNode c p) = None"
  "row_count (OrderByNode c by tot) = row_count c"
  "row_count (ReversedNode c rv) = row_count c"
  "row_count (SelectionNode c pairs) = row_count c"
  "row_count (ProjectionNode c asg) = row_count c"
  "row_count (AggregateNode c aggs ks os dn) = (if ks = [] then Some 1 else None)"
  "row_count (WindowOpNode c ds w) = row_count c"
  "row_count (RandomSampleNode c fr) = None"
  "row_count (ExplodeNode c cols off) = None"
  "row_count (ResultNode c outs ord k) = ResultNode_row_count (row_count c) k"
  "row_count (CteNode c) = row_count c"
  by (simp_all add: row_count_def [abs_def] props_of_simps class_props comp_def)

lemma order_ambiguous_simps [simp]:
  "order_ambiguous (SliceNode c a b s) = order_ambiguous c"
  "order_ambiguous (InNode l r x i) = False"
  "order_ambiguous (JoinNode l r conds ty po) = True"
  "order_ambiguous (ConcatNode cs out) = list_ex order_ambiguous cs"
  "order_ambiguous (FromRangeNode s0 e0 st i) = False"
  "order_ambiguous (ReadLocalNode d items sess off) = False"
  "order_ambiguous (ReadTableNode src items sess) = ReadTableNode_order_ambiguous src"
  "order_ambiguous (CachedTableNode src items sess orig) = ReadTableNode_order_ambiguous src"
  "order_ambiguous (PromoteOffsetsNode c i) = order_ambiguous c"
  "order_ambiguous (FilterNode c p) = order_ambiguous c"
  "order_ambiguous (OrderByNode c by tot) = order_ambiguous c"
  "order_ambiguous (ReversedNode c rv) = order_ambiguous c"
  "order_ambiguous (SelectionNode c pairs) = order_ambiguous c"
  "order_ambiguous (ProjectionNode c asg) = order_ambiguous c"
  "order_ambiguous (AggregateNode c aggs ks os dn) = False"
  "order_ambiguous (WindowOpNode c ds w) = order_ambiguous c"
  "order_ambiguous (RandomSampleNode c fr) = order_ambiguous c"
  "order_ambiguous (ExplodeNode c cols off) = order_ambiguous c"
  "order_ambiguous (ResultNode c outs ord k) = order_ambiguous c"
  "order_ambiguous (CteNode c) = order_ambiguous c"
  by (simp_all add: order_ambiguous_def [abs_def] props_of_simps class_props comp_def list_ex_iff)

lemma referenced_ids_simps [simp]:
  "referenced_ids (SliceNode c a b s) = {}"
  "referenced_ids (InNode l r x i) = {ref_id x}"
  "referenced_ids (JoinNode l r conds ty po) = (\<Union>(a, b) \<in> set conds. {ref_id a, ref_id b})"
  "referenced_ids (ConcatNode cs out) = {}"
  "referenced_ids (FromRangeNode s0 e0 st i) = {}"
  "referenced_ids (ReadLocalNode d items sess off) = {}"
  "referenced_ids (ReadTableNode src items sess) = {}"
  "referenced_ids (CachedTableNode src items sess orig) = {}"
  "referenced_ids (PromoteOffsetsNode c i) = {}"
  "referenced_ids (FilterNode c p) = set (column_references p)"
  "referenced_ids (OrderByNode c by tot) = \<Union> (set (map referenced_columns by))"
  "referenced_ids (ReversedNode c rv) = {}"
  "referenced_ids (SelectionNode c pairs) = {}"
  "referenced_ids (ProjectionNode c asg) = (\<Union>(e, _) \<in> set asg. set (column_references e))"
  "referenced_ids (AggregateNode c aggs ks os dn) = {}"
  "referenced_ids (WindowOpNode c ds w) = (\<Union>cdef \<in> set ds. set (column_references (cdef_expression cdef))) \<union> all_referenced_columns w"
  "referenced_ids (RandomSampleNode c fr) = {}"
  "referenced_ids (ExplodeNode c cols off) = set (map ref_id cols)"
  "referenced_ids (ResultNode c outs ord k) = {}"
  "referenced_ids (CteNode c) = {}"
  by (simp_all add: referenced_ids_def props_of_simps class_props)

end
