(* ===== verification/Node_Operations.thy ===== *)
theory Node_Operations
  imports Nodes
begin

text \<open>
  Operations on plan nodes: renaming the variables a node defines (\<^verbatim>\<open>remap_vars\<close>) and the ones
  it refers to (\<^verbatim>\<open>remap_refs\<close>), validation, and the queries only some classes answer.
\<close>

subsection \<open>Renaming defined variables\<close>

definition InNode_remap_vars :: "id_mapping \<Rightarrow> bfnode \<Rightarrow> bfnode \<Rightarrow> deref \<Rightarrow> column_id \<Rightarrow> bfnode" where
  "InNode_remap_vars m l r left_col indicator = InNode l r left_col (get_or_self m indicator)"

definition ConcatNode_remap_vars :: "id_mapping \<Rightarrow> bfnode list \<Rightarrow> column_id list \<Rightarrow> bfnode" where
  "ConcatNode_remap_vars m cs output_ids = ConcatNode cs (map (get_or_self m) output_ids)"

definition FromRangeNode_remap_vars :: "id_mapping \<Rightarrow> bfnode \<Rightarrow> bfnode \<Rightarrow> int \<Rightarrow> column_id \<Rightarrow> bfnode" where
  "FromRangeNode_remap_vars m start stop step output_id =
     FromRangeNode start stop step (get_or_self m output_id)"

definition remap_scan :: "id_mapping \<Rightarrow> scan_list \<Rightarrow> scan_list" where
  "remap_scan m items = map (\<lambda>item. ScanItem (get_or_self m (scan_id item)) (source_id item)) items"

definition ReadLocalNode_remap_vars :: "id_mapping \<Rightarrow> local_source \<Rightarrow> scan_list \<Rightarrow> session
    \<Rightarrow> column_id option \<Rightarrow> bfnode" where
  "ReadLocalNode_remap_vars m d items sess offsets_col =
     ReadLocalNode d (remap_scan m items) sess (map_option (get_or_self m) offsets_col)"

definition ReadTableNode_remap_vars :: "id_mapping \<Rightarrow> bq_source \<Rightarrow> scan_list \<Rightarrow> session \<Rightarrow> bfnode" where
  "ReadTableNode_remap_vars m src items sess = ReadTableNode src (remap_scan m items) sess"

definition PromoteOffsetsNode_remap_vars :: "id_mapping \<Rightarrow> bfnode \<Rightarrow> column_id \<Rightarrow> bfnode" where
  "PromoteOffsetsNode_remap_vars m c i = PromoteOffsetsNode c (get_or_self m i)"

definition AliasedRef_identity :: "column_id \<Rightarrow> deref \<times> column_id" where
  "AliasedRef_identity i = (DerefOp i, i)"

definition AliasedRef_remap_vars :: "id_mapping \<Rightarrow> deref \<times> column_id \<Rightarrow> deref \<times> column_id" where
  "AliasedRef_remap_vars m p = (fst p, get_or_self m (snd p))"

definition SelectionNode_remap_vars :: "id_mapping \<Rightarrow> bfnode \<Rightarrow> (deref \<times> column_id) list \<Rightarrow> bfnode" where
  "SelectionNode_remap_vars m c pairs = SelectionNode c (map (AliasedRef_remap_vars m) pairs)"

definition ProjectionNode_remap_vars :: "id_mapping \<Rightarrow> bfnode \<Rightarrow> (expr \<times> column_id) list \<Rightarrow> bfnode" where
  "ProjectionNode_remap_vars m c assignments =
     ProjectionNode c (map (\<lambda>(e, i). (e, get_or_self m i)) assignments)"

definition AggregateNode_remap_vars :: "id_mapping \<Rightarrow> bfnode \<Rightarrow> (expr \<times> column_id) list \<Rightarrow> deref list
    \<Rightarrow> expr ordering_expression list \<Rightarrow> bool \<Rightarrow> bfnode" where
  "AggregateNode_remap_vars m c aggregations ks order_by dropna =
     AggregateNode c (map (\<lambda>(a, i). (a, get_or_self m i)) aggregations) ks order_by dropna"

definition WindowOpNode_remap_vars :: "id_mapping \<Rightarrow> bfnode \<Rightarrow> column_def list \<Rightarrow> expr window_spec \<Rightarrow> bfnode" where
  "WindowOpNode_remap_vars m c agg_exprs w =
     WindowOpNode c (map (\<lambda>cdef. ColumnDef (cdef_expression cdef) (get_or_self m (cdef_id cdef))) agg_exprs) w"

definition ExplodeNode_remap_vars :: "id_mapping \<Rightarrow> bfnode \<Rightarrow> deref list \<Rightarrow> column_id option \<Rightarrow> bfnode" where
  "ExplodeNode_remap_vars m c column_ids offsets_col =
     (case offsets_col of None \<Rightarrow> ExplodeNode c column_ids None
      | Some i \<Rightarrow> (case m i of None \<Rightarrow> ExplodeNode c column_ids (Some i)
                   | Some j \<Rightarrow> ExplodeNode c column_ids (Some j)))"

fun remap_vars :: "id_mapping \<Rightarrow> bfnode \<Rightarrow> bfnode" where
  "remap_vars m (InNode l r x i) = InNode_remap_vars m l r x i"
| "remap_vars m (ConcatNode cs out) = ConcatNode_remap_vars m cs out"
| "remap_vars m (FromRangeNode a b st i) = FromRangeNode_remap_vars m a b st i"
| "remap_vars m (ReadLocalNode d items sess off) = ReadLocalNode_remap_vars m d items sess off"
| "remap_vars m (ReadTableNode src items sess) = ReadTableNode_remap_vars m src items sess"
| "remap_vars m (CachedTableNode src items sess orig) = CachedTableNode src (remap_scan m items) sess orig"
| "remap_vars m (PromoteOffsetsNode c i) = PromoteOffsetsNode_remap_vars m c i"
| "remap_vars m (SelectionNode c pairs) = SelectionNode_remap_vars m c pairs"
| "remap_vars m (ProjectionNode c asg) = ProjectionNode_remap_vars m c asg"
| "remap_vars m (AggregateNode c aggs ks os dn) = AggregateNode_remap_vars m c aggs ks os dn"
| "remap_vars m (WindowOpNode c ds w) = WindowOpNode_remap_vars m c ds w"
| "remap_vars m (ExplodeNode c cols off) = ExplodeNode_remap_vars m c cols off"
| "remap_vars m n = n"

subsection \<open>Renaming references\<close>

definition deref_remap :: "id_mapping \<Rightarrow> bool \<Rightarrow> deref \<Rightarrow> deref result" where
  "deref_remap m partial d =
     (case m (ref_id d) of Some j \<Rightarrow> Inr (DerefOp j)
      | None \<Rightarrow> if \<not> partial then Inl ValueError else Inr d)"

lemma deref_remap_bind:
  "remap_column_refs m partial (Deref d) = rbind (deref_remap m partial d) (\<lambda>d'. Inr (Deref d'))"
  by (simp add: remap_column_refs_def bind_deref_def deref_bindings_def deref_remap_def split: option.split)

definition InNode_remap_refs :: "id_mapping \<Rightarrow> bfnode \<Rightarrow> bfnode \<Rightarrow> deref \<Rightarrow> column_id \<Rightarrow> bfnode result" where
  "InNode_remap_refs m l r left_col indicator =
     rbind (deref_remap m True left_col) (\<lambda>d. Inr (InNode l r d indicator))"

definition JoinNode_remap_refs :: "id_mapping \<Rightarrow> bfnode \<Rightarrow> bfnode \<Rightarrow> (deref \<times> deref) list
    \<Rightarrow> join_type \<Rightarrow> bool \<Rightarrow> bfnode result" where
  "JoinNode_remap_refs m l r conditions ty po =
     rbind (mapM (\<lambda>(a, b). rbind (deref_remap m True a) (\<lambda>a'.
                    rbind (deref_remap m True b) (\<lambda>b'. Inr (a', b')))) conditions)
       (\<lambda>conds. Inr (JoinNode l r conds ty po))"

definition FilterNode_remap_refs :: "id_mapping \<Rightarrow> bfnode \<Rightarrow> expr \<Rightarrow> bfnode result" where
  "FilterNode_remap_refs m c predicate =
     rbind (remap_column_refs m True predicate) (\<lambda>p. Inr (FilterNode c p))"

definition OrderByNode_transform_exprs :: "(expr \<Rightarrow> expr) \<Rightarrow> bfnode
    \<Rightarrow> expr ordering_expression list \<Rightarrow> bool \<Rightarrow> bfnode" where
  "OrderByNode_transform_exprs fn c by is_total_order =
     OrderByNode c (map (map_ordering_expression fn) by) is_total_order"

text \<open>Every referenced column is looked up in the mapping, so one without an entry raises.\<close>

definition OrderByNode_remap_refs :: "id_mapping \<Rightarrow> bfnode \<Rightarrow> expr ordering_expression list
    \<Rightarrow> bool \<Rightarrow> bfnode result" where
  "OrderByNode_remap_refs m c by is_total_order =
     (let all_refs = \<Union> (set (map referenced_columns by)) in
      if \<exists>i \<in> all_refs. m i = None then Inl KeyError
      else rbind (mapM (ordering_bind_refs
                    (\<lambda>i. if i \<in> all_refs then deref_bindings m i else None) True) by)
             (\<lambda>by'. Inr (OrderByNode c by' is_total_order)))"

definition AliasedRef_remap_refs :: "id_mapping \<Rightarrow> deref \<times> column_id \<Rightarrow> deref \<times> column_id" where
  "AliasedRef_remap_refs m p = (DerefOp (get_or_self m (ref_id (fst p))), snd p)"

definition SelectionNode_remap_refs :: "id_mapping \<Rightarrow> bfnode \<Rightarrow> (deref \<times> column_id) list \<Rightarrow> bfnode result" where
  "SelectionNode_remap_refs m c pairs = Inr (SelectionNode c (map (AliasedRef_remap_refs m) pairs))"

definition ProjectionNode_remap_refs :: "id_mapping \<Rightarrow> bfnode \<Rightarrow> (expr \<times> column_id) list \<Rightarrow> bfnode result" where
  "ProjectionNode_remap_refs m c assignments =
     rbind (mapM (\<lambda>(e, i). rbind (remap_column_refs m True e) (\<lambda>e'. Inr (e', i))) assignments)
       (\<lambda>asg. Inr (ProjectionNode c asg))"

definition AggregateNode_remap_refs :: "id_mapping \<Rightarrow> bfnode \<Rightarrow> (expr \<times> column_id) list \<Rightarrow> deref list
    \<Rightarrow> expr ordering_expression list \<Rightarrow> bool \<Rightarrow> bfnode result" where
  "AggregateNode_remap_refs m c aggregations by_column_ids order_by dropna =
     rbind (mapM (\<lambda>(a, i). rbind (remap_column_refs m True a) (\<lambda>a'. Inr (a', i))) aggregations) (\<lambda>aggs.
       rbind (mapM (deref_remap m False) by_column_ids) (\<lambda>ks.
         rbind (mapM (ordering_remap m False) order_by) (\<lambda>os.
           Inr (AggregateNode c aggs ks os dropna))))"

definition WindowOpNode_remap_refs :: "id_mapping \<Rightarrow> bfnode \<Rightarrow> column_def list \<Rightarrow> expr window_spec
    \<Rightarrow> bfnode result" where
  "WindowOpNode_remap_refs m c agg_exprs w =
     rbind (mapM (\<lambda>cdef. rbind (remap_column_refs m True (cdef_expression cdef))
                    (\<lambda>e. Inr (ColumnDef e (cdef_id cdef)))) agg_exprs) (\<lambda>ds.
       rbind (window_remap m True w) (\<lambda>w'. Inr (WindowOpNode c ds w')))"

definition ExplodeNode_remap_refs :: "id_mapping \<Rightarrow> bfnode \<Rightarrow> deref list \<Rightarrow> column_id option \<Rightarrow> bfnode result" where
  "ExplodeNode_remap_refs m c column_ids offsets_col =
     rbind (mapM (deref_remap m False) column_ids) (\<lambda>cols. Inr (ExplodeNode c cols offsets_col))"

definition ResultNode_remap_refs :: "id_mapping \<Rightarrow> bfnode \<Rightarrow> (deref \<times> string) list
    \<Rightarrow> row_ordering option \<Rightarrow> int option \<Rightarrow> bfnode result" where
  "ResultNode_remap_refs m c output_cols order_by limit =
     rbind (mapM (\<lambda>(d, nm). rbind (deref_remap m False d) (\<lambda>d'. Inr (d', nm))) output_cols) (\<lambda>outs.
       rbind (case order_by of None \<Rightarrow> Inr None
              | Some ord \<Rightarrow> rbind (ordering_remap_refs m False ord) (\<lambda>ord'. Inr (Some ord')))
         (\<lambda>ord'. Inr (ResultNode c outs ord' limit)))"

fun remap_refs :: "id_mapping \<Rightarrow> bfnode \<Rightarrow> bfnode result" where
  "remap_refs m (InNode l r x i) = InNode_remap_refs m l r x i"
| "remap_refs m (JoinNode l r conds ty po) = JoinNode_remap_refs m l r conds ty po"
| "remap_refs m (FilterNode c p) = FilterNode_remap_refs m c p"
| "remap_refs m (OrderByNode c by tot) = OrderByNode_remap_refs m c by tot"
| "remap_refs m (SelectionNode c pairs) = SelectionNode_remap_refs m c pairs"
| "remap_refs m (ProjectionNode c asg) = ProjectionNode_remap_refs m c asg"
| "remap_refs m (AggregateNode c aggs ks os dn) = AggregateNode_remap_refs m c aggs ks os dn"
| "remap_refs m (WindowOpNode c ds w) = WindowOpNode_remap_refs m c ds w"
| "remap_refs m (ExplodeNode c cols off) = ExplodeNode_remap_refs m c cols off"
| "remap_refs m (ResultNode c outs ord k) = ResultNode_remap_refs m c outs ord k"
| "remap_refs m n = Inr n"


subsection \<open>Additive nodes\<close>

text \<open>
  The classes that append fields to one of their children. The fields, the base and its
  replacement are defined on these classes only; elsewhere the attribute is missing.
\<close>

fun is_additive :: "bfnode \<Rightarrow> bool" where
  "is_additive (InNode _ _ _ _) = True"
| "is_additive (PromoteOffsetsNode _ _) = True"
| "is_additive (ProjectionNode _ _) = True"
| "is_additive (WindowOpNode _ _ _) = True"
| "is_additive n = False"

fun added_fields :: "bfnode \<Rightarrow> field list result" where
  "added_fields (InNode l r x i) = Inr (InNode_added_fields i)"
| "added_fields (PromoteOffsetsNode c i) = Inr (PromoteOffsetsNode_added_fields i)"
| "added_fields (ProjectionNode c asg) = ProjectionNode_added_fields (node_fields c) asg"
| "added_fields (WindowOpNode c ds w) = WindowOpNode_added_fields (node_fields c) ds"
| "added_fields n = Inl AttributeError"

fun additive_base :: "bfnode \<Rightarrow> bfnode result" where
  "additive_base (InNode l r x i) = Inr l"
| "additive_base (PromoteOffsetsNode c i) = Inr c"
| "additive_base (ProjectionNode c asg) = Inr c"
| "additive_base (WindowOpNode c ds w) = Inr c"
| "additive_base n = Inl AttributeError"

fun replace_additive_base :: "bfnode \<Rightarrow> bfnode \<Rightarrow> bfnode result" where
  "replace_additive_base (InNode l r x i) b = Inr (InNode b r x i)"
| "replace_additive_base (PromoteOffsetsNode c i) b = Inr (PromoteOffsetsNode b i)"
| "replace_additive_base (ProjectionNode c asg) b = Inr (ProjectionNode b asg)"
| "replace_additive_base (WindowOpNode c ds w) b = Inr (WindowOpNode b ds w)"
| "replace_additive_base n b = Inl AttributeError"

text \<open>\<^verbatim>\<open>UnaryNode.replace_child\<close>.\<close>

fun is_unary :: "bfnode \<Rightarrow> bool" where
  "is_unary (InNode _ _ _ _) = False"
| "is_unary (JoinNode _ _ _ _ _) = False"
| "is_unary (ConcatNode _ _) = False"
| "is_unary (FromRangeNode _ _ _ _) = False"
| "is_unary (ReadLocalNode _ _ _ _) = False"
| "is_unary (ReadTableNode _ _ _) = False"
| "is_unary (CachedTableNode _ _ _ _) = False"
| "is_unary n = True"

definition replace_child :: "bfnode \<Rightarrow> bfnode \<Rightarrow> bfnode result" where
  "replace_child n new_child =
     (if is_unary n then Inr (transform_children (\<lambda>_. new_child) n) else Inl AttributeError)"

lemma additive_fields:
  assumes "is_additive n" "additive_base n = Inr b"
  shows "node_fields n = rbind (node_fields b) (\<lambda>fs. rbind (added_fields n) (\<lambda>added. Inr (fs @ added)))"
  using assms by (cases n) simp_all

subsection \<open>Queries of single classes\<close>

definition SliceNode_is_limit :: "int option \<Rightarrow> int option \<Rightarrow> int \<Rightarrow> bool" where
  "SliceNode_is_limit start stop step \<longleftrightarrow>
     \<not> truthy_int start \<and> step = 1 \<and> (case stop of None \<Rightarrow> False | Some e \<Rightarrow> e > 0)"

definition SliceNode_is_noop :: "bfnode \<Rightarrow> int option \<Rightarrow> int option \<Rightarrow> int \<Rightarrow> bool" where
  "SliceNode_is_noop c start stop step \<longleftrightarrow>
     (\<not> truthy_int start \<or> start = Some 0) \<and> step = 1 \<and> (stop = None \<or> stop = row_count c)"

definition InNode_joins_nulls :: "bfnode \<Rightarrow> bfnode \<Rightarrow> deref \<Rightarrow> bool result" where
  "InNode_joins_nulls l r left_col =
     rbind (field_by_id l) (\<lambda>m. rbind (lookup_or KeyError m (ref_id left_col)) (\<lambda>lf.
       rbind (node_fields r) (\<lambda>rf. case rf of [] \<Rightarrow> Inl IndexError
         | f # _ \<Rightarrow> Inr (field_nullable lf \<or> field_nullable f))))"

fun JoinNode_joins_nulls :: "bfnode \<Rightarrow> bfnode \<Rightarrow> (deref \<times> deref) list \<Rightarrow> bool result" where
  "JoinNode_joins_nulls l r [] = Inr False"
| "JoinNode_joins_nulls l r ((a, b) # conditions) =
     rbind (field_by_id l) (\<lambda>ml. rbind (lookup_or KeyError ml (ref_id a)) (\<lambda>fa.
       if \<not> field_nullable fa then JoinNode_joins_nulls l r conditions
       else rbind (field_by_id r) (\<lambda>mr. rbind (lookup_or KeyError mr (ref_id b)) (\<lambda>fb.
         if field_nullable fb then Inr True else JoinNode_joins_nulls l r conditions))))"

definition AggregateNode_has_ordered_ops :: "(expr \<times> column_id) list \<Rightarrow> bool result" where
  "AggregateNode_has_ordered_ops aggregations =
     rbind (all_while (\<lambda>(agg, _). rbind (agg_op agg) (\<lambda>op. Inr (order_independent op))) aggregations)
       (\<lambda>independent. Inr (\<not> independent))"

definition WindowOpNode_inherits_order :: "column_def list \<Rightarrow> expr window_spec \<Rightarrow> bool result" where
  "WindowOpNode_inherits_order agg_exprs w =
     rbind (any_while (\<lambda>cdef. rbind (agg_op (cdef_expression cdef))
              (\<lambda>op. Inr (\<not> order_independent op \<and> implicitly_inherits_order op))) agg_exprs)
       (\<lambda>op_inherits_order. Inr (op_inherits_order \<or> is_row_bounded w))"

fun roots :: "bfnode \<Rightarrow> bfnode set" where
  "roots (FromRangeNode a b st i) = {FromRangeNode a b st i}"
| "roots (ReadLocalNode d items sess off) = {ReadLocalNode d items sess off}"
| "roots (ReadTableNode src items sess) = {ReadTableNode src items sess}"
| "roots (CachedTableNode src items sess orig) = {CachedTableNode src items sess orig}"
| "roots (InNode l r x i) = roots l \<union> roots r"
| "roots (JoinNode l r conds ty po) = roots l \<union> roots r"
| "roots (ConcatNode cs out) = \<Union> (set (map roots cs))"
| "roots (SliceNode c a b s) = roots c"
| "roots (PromoteOffsetsNode c i) = roots c"
| "roots (FilterNode c p) = roots c"
| "roots (OrderByNode c by tot) = roots c"
| "roots (ReversedNode c rv) = roots c"
| "roots (SelectionNode c pairs) = roots c"
| "roots (ProjectionNode c asg) = roots c"
| "roots (AggregateNode c aggs ks os dn) = roots c"
| "roots (WindowOpNode c ds w) = roots c"
| "roots (RandomSampleNode c fr) = roots c"
| "roots (ExplodeNode c cols off) = roots c"
| "roots (ResultNode c outs ord k) = roots c"
| "roots (CteNode c) = roots c"

text \<open>\<^verbatim>\<open>fast_offsets\<close> and \<^verbatim>\<open>fast_ordered_limit\<close> of the leaves.\<close>

definition ReadTableNode_fast_offsets :: "bq_source \<Rightarrow> bool" where
  "ReadTableNode_fast_offsets src =
     (case src_ordering src of None \<Rightarrow> False | Some ord \<Rightarrow> ordering_is_sequential ord)"

text \<open>An identity expression is read as a column reference; a free variable has no such name.\<close>

fun deref_name :: "expr \<Rightarrow> string result" where
  "deref_name (Deref d) = Inr (id_name (ref_id d))"
| "deref_name _ = Inl AttributeError"

definition ReadTableNode_fast_ordered_limit :: "bq_source \<Rightarrow> bool result" where
  "ReadTableNode_fast_ordered_limit src =
     (case src_ordering src of None \<Rightarrow> Inr False
      | Some ord \<Rightarrow>
          (let order_cols = ordering_value_columns ord in
           if \<not> list_all (\<lambda>p. is_identity (scalar_expression p)) order_cols then Inr False
           else rbind (mapM (\<lambda>p. deref_name (scalar_expression p)) order_cols) (\<lambda>order_col_ids.
             case cluster_cols (src_table src) of None \<Rightarrow> Inr False
             | Some cluster \<Rightarrow> Inr (order_col_ids = take (length order_col_ids) cluster))))"

subsection \<open>Columns of the source's ordering\<close>

text \<open>
  \<^verbatim>\<open>ReadTableNode.with_order_cols\<close>: scan the physical columns the ordering needs and the
  scan list lacks, under fresh identifiers; the counter of \<^verbatim>\<open>guid.py\<close> is threaded. Without an
  ordering the code refers to a module that is imported for type checking only.
\<close>

fun fresh_scans :: "nat \<Rightarrow> string list \<Rightarrow> scan_list \<times> nat" where
  "fresh_scans counter [] = ([], counter)"
| "fresh_scans counter (nm # nms) =
     (case ColumnId_unique counter of (i, counter') \<Rightarrow>
        (case fresh_scans counter' nms of (items, counter'') \<Rightarrow> (ScanItem i nm # items, counter'')))"

definition ReadTableNode_with_order_cols :: "nat \<Rightarrow> bq_source \<Rightarrow> scan_list
    \<Rightarrow> ((scan_list \<times> row_ordering) \<times> nat) result" where
  "ReadTableNode_with_order_cols counter src items =
     (case src_ordering src of None \<Rightarrow> Inl NameError
      | Some ord \<Rightarrow>
          (let order_cols = id_sql ` ordering_referenced ord; scan_cols = set (map source_id items);
               missing = filter (\<lambda>nm. nm \<in> order_cols \<and> nm \<notin> scan_cols) (physical_names (src_table src))
           in case fresh_scans counter missing of (new_scan_cols, counter') \<Rightarrow>
                rbind (ordering_remap_refs
                         (dict_of (map (\<lambda>item. (ColumnId (source_id item), scan_id item)) new_scan_cols))
                         True ord)
                  (\<lambda>new_order. Inr ((items @ new_scan_cols, new_order), counter'))))"

subsection \<open>Consumed identifiers\<close>

definition SelectionNode_consumed_ids :: "(deref \<times> column_id) list \<Rightarrow> column_id set" where
  "SelectionNode_consumed_ids pairs = set (map (\<lambda>(ref, _). ref_id ref) pairs)"

definition AggregateNode_consumed_ids :: "(expr \<times> column_id) list \<Rightarrow> deref list
    \<Rightarrow> expr ordering_expression list \<Rightarrow> column_id set" where
  "AggregateNode_consumed_ids aggregations by_column_ids order_by =
     set (map ref_id by_column_ids @ concat (map (\<lambda>(agg, _). column_references agg) aggregations)
          @ concat (map (\<lambda>p. column_references (scalar_expression p)) order_by))"

definition ResultNode_consumed_ids :: "(deref \<times> string) list \<Rightarrow> row_ordering option \<Rightarrow> column_id set" where
  "ResultNode_consumed_ids output_cols order_by =
     set (map (\<lambda>(ref, _). ref_id ref) output_cols) \<union>
     (case order_by of None \<Rightarrow> {} | Some ord \<Rightarrow> ordering_referenced ord)"

text \<open>\<^verbatim>\<open>JoinNode\<close> unpacks its identifiers as the arguments of a one-argument constructor.\<close>

definition JoinNode_consumed_ids :: "column_id list \<Rightarrow> column_id set \<Rightarrow> column_id set result" where
  "JoinNode_consumed_ids own referenced =
     (if length own + card referenced = 0 then Inr {} else Inl TypeError)"

fun consumed_ids :: "bfnode \<Rightarrow> column_id set result" where
  "consumed_ids (FilterNode c p) = rbind (ids c) (\<lambda>is. Inr (set is \<union> set (column_references p)))"
| "consumed_ids (OrderByNode c by tot) =
     rbind (ids c) (\<lambda>is. Inr (set is \<union> \<Union> (set (map referenced_columns by))))"
| "consumed_ids (SelectionNode c pairs) = Inr (SelectionNode_consumed_ids pairs)"
| "consumed_ids (ProjectionNode c asg) = Inr (\<Union>(e, _) \<in> set asg. set (column_references e))"
| "consumed_ids (AggregateNode c aggs ks os dn) = Inr (AggregateNode_consumed_ids aggs ks os)"
| "consumed_ids (WindowOpNode c ds w) = rbind (ids (WindowOpNode c ds w)) (\<lambda>is. Inr (set is))"
| "consumed_ids (ResultNode c outs ord k) = Inr (ResultNode_consumed_ids outs ord)"
| "consumed_ids (JoinNode l r conds ty po) =
     rbind (ids (JoinNode l r conds ty po))
       (\<lambda>is. JoinNode_consumed_ids is (referenced_ids (JoinNode l r conds ty po)))"
| "consumed_ids n = Inl AttributeError"

end
