(* ===== verification/Node_Semantics.thy ===== *)
theory Node_Semantics
  imports Node_Operations Complex_Main
begin

text \<open>
  What a plan computes: the rows of every node class, after the reference engine of
  \<^verbatim>\<open>core/compile/polars/compiler.py\<close>. The values of scalar operators and aggregates, the stored
  tables and the random choices are the engine's, a parameter of the evaluation; a row assigns
  a value to every column, and only the columns of the node are observed.
\<close>

subsection \<open>Values, rows and engines\<close>

datatype sql_value = NULL | BoolS bool | IntS int | FloatS rat | NaNS | StringS string
  | ArrayS "sql_value list"

fun literal :: "pyvalue \<Rightarrow> sql_value" where
  "literal NoneV = NULL"
| "literal NaV = NULL"
| "literal NanV = NaNS"
| "literal (BoolV b) = BoolS b"
| "literal (IntV i) = IntS i"
| "literal (FloatV q) = FloatS q"
| "literal (StrV s) = StringS s"

type_synonym row = "column_id \<Rightarrow> sql_value"

record engine =
  op_value :: "scalar_op \<Rightarrow> sql_value list \<Rightarrow> sql_value"
  agg_value :: "window_op \<Rightarrow> sql_value list list \<Rightarrow> sql_value"
  window_value :: "window_op \<Rightarrow> window_bounds option \<Rightarrow> int \<Rightarrow> sql_value list list
    \<Rightarrow> sql_value list list \<Rightarrow> nat \<Rightarrow> sql_value"
  value_order :: "sql_value \<Rightarrow> sql_value \<Rightarrow> int"
  equal_keys :: "sql_value \<Rightarrow> sql_value \<Rightarrow> bool"
  local_rows :: "nat \<Rightarrow> (string \<Rightarrow> sql_value) list"
  table_rows :: "bq_source \<Rightarrow> (string \<Rightarrow> sql_value) list"
  sampled :: "rat \<Rightarrow> nat \<Rightarrow> nat \<Rightarrow> bool"
  range_values :: "sql_value \<Rightarrow> sql_value \<Rightarrow> int \<Rightarrow> sql_value list"

primrec eval :: "engine \<Rightarrow> row \<Rightarrow> expr \<Rightarrow> sql_value" where
  "eval E r (ScalarConstantExpression v t) = (if t = None then NULL else literal v)"
| "eval E r (UnboundVariableExpression i) = NULL"
| "eval E r (Deref d) = r (ref_id d)"
| "eval E r (OpExpression op inputs) = op_value E op (map (eval E r) inputs)"
| "eval E r (NullaryAggregation op) = NULL"
| "eval E r (UnaryAggregation op a) = NULL"
| "eval E r (BinaryAggregation op a b) = NULL"
| "eval E r (WindowExpression a w) = NULL"

text \<open>The operator and the argument expressions of an aggregation.\<close>

fun agg_parts :: "expr \<Rightarrow> (window_op \<times> expr list) option" where
  "agg_parts (NullaryAggregation op) = Some (op, [])"
| "agg_parts (UnaryAggregation op a) = Some (op, [a])"
| "agg_parts (BinaryAggregation op a b) = Some (op, [a, b])"
| "agg_parts _ = None"

definition eval_agg :: "engine \<Rightarrow> row list \<Rightarrow> expr \<Rightarrow> sql_value" where
  "eval_agg E rs e = (case agg_parts e of None \<Rightarrow> NULL
     | Some (op, args) \<Rightarrow> agg_value E op (map (\<lambda>r. map (eval E r) args) rs))"

subsection \<open>The columns of a node\<close>

primrec out_ids :: "bfnode \<Rightarrow> column_id list" where
  "out_ids (SliceNode c a b s) = out_ids c"
| "out_ids (InNode l r x i) = out_ids l @ [i]"
| "out_ids (JoinNode l r conds ty po) = out_ids l @ out_ids r"
| "out_ids (ConcatNode cs out) =
     (case map out_ids cs of [] \<Rightarrow> [] | is # _ \<Rightarrow> map fst (zip out is))"
| "out_ids (FromRangeNode s0 e0 st i) = [i]"
| "out_ids (ReadLocalNode d items sess off) =
     map scan_id items @ (case off of None \<Rightarrow> [] | Some i \<Rightarrow> [i])"
| "out_ids (ReadTableNode src items sess) = map scan_id items"
| "out_ids (CachedTableNode src items sess orig) = map scan_id items"
| "out_ids (PromoteOffsetsNode c i) = out_ids c @ [i]"
| "out_ids (FilterNode c p) = out_ids c"
| "out_ids (OrderByNode c by tot) = out_ids c"
| "out_ids (ReversedNode c rv) = out_ids c"
| "out_ids (SelectionNode c pairs) = map snd pairs"
| "out_ids (ProjectionNode c asg) = out_ids c @ map snd asg"
| "out_ids (AggregateNode c aggs ks os dn) = map ref_id ks @ map snd aggs"
| "out_ids (WindowOpNode c ds w) = out_ids c @ map cdef_id ds"
| "out_ids (RandomSampleNode c fr) = out_ids c"
| "out_ids (ExplodeNode c cols off) = out_ids c @ (case off of None \<Rightarrow> [] | Some i \<Rightarrow> [i])"
| "out_ids (ResultNode c outs ord k) = map (\<lambda>(_, nm). ColumnId nm) outs"
| "out_ids (CteNode c) = out_ids c"

subsection \<open>The rows of each class\<close>

text \<open>Appending one column, in the order of the rows.\<close>

definition with_column :: "column_id \<Rightarrow> sql_value list \<Rightarrow> row list \<Rightarrow> row list" where
  "with_column i vs rs = map (\<lambda>(r, v). r(i := v)) (zip rs vs)"

definition scan_row :: "scan_list \<Rightarrow> (string \<Rightarrow> sql_value) \<Rightarrow> row" where
  "scan_row items src = (\<lambda>i. case dict_of (map (\<lambda>it. (scan_id it, source_id it)) items) i of
     None \<Rightarrow> NULL | Some s \<Rightarrow> src s)"

definition offsets :: "'a list \<Rightarrow> sql_value list" where
  "offsets rs = map (\<lambda>k. IntS (int k)) [0..<length rs]"

definition promote_offsets :: "column_id \<Rightarrow> row list \<Rightarrow> row list" where
  "promote_offsets i rs = with_column i (offsets rs) rs"

definition read_local :: "engine \<Rightarrow> local_source \<Rightarrow> scan_list \<Rightarrow> column_id option \<Rightarrow> row list" where
  "read_local E d items off =
     (let rs = map (scan_row items) (local_rows E (local_key d))
      in case off of None \<Rightarrow> rs | Some i \<Rightarrow> promote_offsets i rs)"

definition read_table :: "engine \<Rightarrow> bq_source \<Rightarrow> scan_list \<Rightarrow> row list" where
  "read_table E src items = map (scan_row items) (table_rows E src)"

definition filter_rows :: "engine \<Rightarrow> expr \<Rightarrow> row list \<Rightarrow> row list" where
  "filter_rows E p rs = filter (\<lambda>r. eval E r p = BoolS True) rs"

text \<open>The stable sort by a list of ordering parts.\<close>

fun insert_by :: "('a \<Rightarrow> 'a \<Rightarrow> int) \<Rightarrow> 'a \<Rightarrow> 'a list \<Rightarrow> 'a list" where
  "insert_by cmp x [] = [x]"
| "insert_by cmp x (y # ys) = (if cmp x y \<le> 0 then x # y # ys else y # insert_by cmp x ys)"

definition stable_sort :: "('a \<Rightarrow> 'a \<Rightarrow> int) \<Rightarrow> 'a list \<Rightarrow> 'a list" where
  "stable_sort cmp xs = foldr (insert_by cmp) xs []"

definition row_compare :: "engine \<Rightarrow> expr ordering_expression list \<Rightarrow> row \<Rightarrow> row \<Rightarrow> int" where
  "row_compare E parts = rows_compare (\<lambda>v. v = NULL) (value_order E) (\<lambda>e r. eval E r e) parts"

definition sort_rows :: "engine \<Rightarrow> expr ordering_expression list \<Rightarrow> row list \<Rightarrow> row list" where
  "sort_rows E parts rs = stable_sort (row_compare E parts) rs"

definition project_row :: "engine \<Rightarrow> (expr \<times> column_id) list \<Rightarrow> row \<Rightarrow> row" where
  "project_row E asg r = (\<lambda>i. case dict_of (map (\<lambda>(e, j). (j, e)) asg) i of
     None \<Rightarrow> r i | Some e \<Rightarrow> eval E r e)"

definition select_row :: "(deref \<times> column_id) list \<Rightarrow> row \<Rightarrow> row" where
  "select_row pairs r = (\<lambda>i. case dict_of (map (\<lambda>(d, j). (j, d)) pairs) i of
     None \<Rightarrow> NULL | Some d \<Rightarrow> r (ref_id d))"

definition pair_row :: "column_id list \<Rightarrow> row \<Rightarrow> row \<Rightarrow> row" where
  "pair_row left_ids l r = (\<lambda>i. if i \<in> set left_ids then l i else r i)"

definition joins :: "engine \<Rightarrow> (deref \<times> deref) list \<Rightarrow> row \<Rightarrow> row \<Rightarrow> bool" where
  "joins E conds l r \<longleftrightarrow> list_all (\<lambda>(a, b). equal_keys E (l (ref_id a)) (r (ref_id b))) conds"

definition null_row :: row where "null_row = (\<lambda>_. NULL)"

text \<open>
  The ordered join: matches in left order and then right order, an unmatched row with nulls on
  the other side; a right join is ordered by the right side, an outer join has the unmatched
  right rows last.
\<close>

definition left_join :: "(row \<Rightarrow> row \<Rightarrow> row) \<Rightarrow> (row \<Rightarrow> row \<Rightarrow> bool) \<Rightarrow> row list \<Rightarrow> row list \<Rightarrow> row list" where
  "left_join pair on ls rs = concat (map (\<lambda>l.
     let ms = filter (on l) rs in if ms = [] then [pair l null_row] else map (pair l) ms) ls)"

definition inner_join :: "(row \<Rightarrow> row \<Rightarrow> row) \<Rightarrow> (row \<Rightarrow> row \<Rightarrow> bool) \<Rightarrow> row list \<Rightarrow> row list \<Rightarrow> row list" where
  "inner_join pair on ls rs = concat (map (\<lambda>l. map (pair l) (filter (on l) rs)) ls)"

definition ordered_join :: "(row \<Rightarrow> row \<Rightarrow> row) \<Rightarrow> (row \<Rightarrow> row \<Rightarrow> bool) \<Rightarrow> join_type
    \<Rightarrow> row list \<Rightarrow> row list \<Rightarrow> row list" where
  "ordered_join pair on ty ls rs =
     (case ty of
        InnerJoin \<Rightarrow> inner_join pair on ls rs
      | CrossJoin \<Rightarrow> inner_join pair (\<lambda>_ _. True) ls rs
      | LeftJoin \<Rightarrow> left_join pair on ls rs
      | RightJoin \<Rightarrow> left_join (\<lambda>r l. pair l r) (\<lambda>r l. on l r) rs ls
      | OuterJoin \<Rightarrow> left_join pair on ls rs @
          map (pair null_row) (filter (\<lambda>r. \<not> list_ex (\<lambda>l. on l r) ls) rs))"

definition isin_rows :: "engine \<Rightarrow> deref \<Rightarrow> column_id \<Rightarrow> column_id list \<Rightarrow> row list \<Rightarrow> row list \<Rightarrow> row list" where
  "isin_rows E left_col i right_ids ls rs = map (\<lambda>l. l(i := BoolS
     (list_ex (\<lambda>r. case right_ids of [] \<Rightarrow> False | j # _ \<Rightarrow> equal_keys E (l (ref_id left_col)) (r j)) rs))) ls"

definition concat_row :: "column_id list \<Rightarrow> column_id list \<Rightarrow> row \<Rightarrow> row" where
  "concat_row out child_ids r = (\<lambda>i. case dict_of (zip out (map r child_ids)) i of
     None \<Rightarrow> NULL | Some v \<Rightarrow> v)"

definition first_cell :: "column_id list \<Rightarrow> row list \<Rightarrow> sql_value" where
  "first_cell is rs = (case is of [] \<Rightarrow> NULL | i # _ \<Rightarrow> (case rs of [] \<Rightarrow> NULL | r # _ \<Rightarrow> r i))"

definition range_rows :: "column_id \<Rightarrow> sql_value list \<Rightarrow> row list" where
  "range_rows i vs = map (\<lambda>v. null_row(i := v)) vs"

text \<open>
  Aggregation: null keys dropped on demand, the rows ordered, one output row for each key in
  key order, nulls last; without keys one row for all.
\<close>

definition agg_row :: "engine \<Rightarrow> (expr \<times> column_id) list \<Rightarrow> column_id list \<Rightarrow> sql_value list
    \<Rightarrow> row list \<Rightarrow> row" where
  "agg_row E aggs ks key grp = (\<lambda>i.
     case dict_of (zip ks key @ map (\<lambda>(e, j). (j, eval_agg E grp e)) aggs) i of
       None \<Rightarrow> NULL | Some v \<Rightarrow> v)"

definition key_compare :: "engine \<Rightarrow> sql_value list \<Rightarrow> sql_value list \<Rightarrow> int" where
  "key_compare E xs ys = rows_compare (\<lambda>v. v = NULL) (value_order E) (\<lambda>n vs. vs ! n)
     (map (\<lambda>n. OrderingExpression n ASC True) [0..<length xs]) xs ys"

definition aggregate_rows :: "engine \<Rightarrow> (expr \<times> column_id) list \<Rightarrow> column_id list
    \<Rightarrow> expr ordering_expression list \<Rightarrow> bool \<Rightarrow> row list \<Rightarrow> row list" where
  "aggregate_rows E aggs ks os dropna rs =
     (let kept = (if dropna \<and> ks \<noteq> [] then filter (\<lambda>r. \<forall>k \<in> set ks. r k \<noteq> NULL) rs else rs);
          sorted = (if os \<noteq> [] then sort_rows E os kept else kept);
          keys = stable_sort (key_compare E) (first_occurrences (map (\<lambda>r. map r ks) sorted))
      in if ks = [] then [agg_row E aggs [] [] sorted]
         else map (\<lambda>key. agg_row E aggs ks key (filter (\<lambda>r. map r ks = key) sorted)) keys)"

text \<open>Window functions: the rows with the same keys, in window order, and the row's place there.\<close>

definition partition_of :: "engine \<Rightarrow> expr window_spec \<Rightarrow> row list \<Rightarrow> nat \<Rightarrow> nat list" where
  "partition_of E w rs k = stable_sort (\<lambda>a b. row_compare E (window_ordering w) (rs ! a) (rs ! b))
     (filter (\<lambda>j. map (eval E (rs ! j)) (grouping_keys w) = map (eval E (rs ! k)) (grouping_keys w))
       [0..<length rs])"

definition window_cell :: "engine \<Rightarrow> expr window_spec \<Rightarrow> row list \<Rightarrow> expr \<Rightarrow> nat \<Rightarrow> sql_value" where
  "window_cell E w rs e k = (case agg_parts e of None \<Rightarrow> NULL
     | Some (op, args) \<Rightarrow>
         (let part = partition_of E w rs k
          in window_value E op (window_bounds w) (min_periods w)
               (map (\<lambda>j. map (eval E (rs ! j)) args) part)
               (map (\<lambda>j. map (\<lambda>p. eval E (rs ! j) (scalar_expression p)) (window_ordering w)) part)
               (index_of part k)))"

definition window_rows :: "engine \<Rightarrow> expr window_spec \<Rightarrow> column_def list \<Rightarrow> row list \<Rightarrow> row list" where
  "window_rows E w ds rs = map (\<lambda>k. \<lambda>i.
     case dict_of (map (\<lambda>d. (cdef_id d, cdef_expression d)) ds) i of
       None \<Rightarrow> (rs ! k) i | Some e \<Rightarrow> window_cell E w rs e k) [0..<length rs]"

definition sample_rows :: "engine \<Rightarrow> rat \<Rightarrow> row list \<Rightarrow> row list" where
  "sample_rows E fr rs = map ((!) rs) (filter (sampled E fr (length rs)) [0..<length rs])"

fun array_items :: "sql_value \<Rightarrow> sql_value list" where
  "array_items (ArrayS vs) = vs"
| "array_items _ = []"

definition explode_row :: "column_id list \<Rightarrow> column_id option \<Rightarrow> row \<Rightarrow> row list" where
  "explode_row cols off r =
     (let n = (case cols of [] \<Rightarrow> 0 | c # _ \<Rightarrow> length (array_items (r c)))
      in map (\<lambda>k. \<lambda>i.
           if off = Some i then IntS (int k)
           else if i \<in> set cols
             then (let vs = array_items (r i) in if k < length vs then vs ! k else NULL)
           else r i) [0..<max 1 n])"

definition result_rows :: "engine \<Rightarrow> (deref \<times> string) list \<Rightarrow> row_ordering option \<Rightarrow> int option
    \<Rightarrow> row list \<Rightarrow> row list" where
  "result_rows E outs ord k rs =
     (let sorted = (case ord of None \<Rightarrow> rs | Some o' \<Rightarrow> sort_rows E (ordering_value_columns o') rs);
          limited = (case k of None \<Rightarrow> sorted | Some n \<Rightarrow> take (nat n) sorted)
      in map (select_row (map (\<lambda>(d, nm). (d, ColumnId nm)) outs)) limited)"

primrec rows :: "engine \<Rightarrow> bfnode \<Rightarrow> row list" where
  "rows E (SliceNode c a b s) = py_slice (a, b, Some s) (rows E c)"
| "rows E (InNode l r x i) = isin_rows E x i (out_ids r) (rows E l) (rows E r)"
| "rows E (JoinNode l r conds ty po) =
     ordered_join (pair_row (out_ids l)) (joins E conds) ty (rows E l) (rows E r)"
| "rows E (ConcatNode cs out) =
     concat (map (\<lambda>(is, rs). map (concat_row out is) rs) (zip (map out_ids cs) (map (rows E) cs)))"
| "rows E (FromRangeNode s0 e0 st i) =
     range_rows i (range_values E (first_cell (out_ids s0) (rows E s0))
                                  (first_cell (out_ids e0) (rows E e0)) st)"
| "rows E (ReadLocalNode d items sess off) = read_local E d items off"
| "rows E (ReadTableNode src items sess) = read_table E src items"
| "rows E (CachedTableNode src items sess orig) = read_table E src items"
| "rows E (PromoteOffsetsNode c i) = promote_offsets i (rows E c)"
| "rows E (FilterNode c p) = filter_rows E p (rows E c)"
| "rows E (OrderByNode c by tot) = sort_rows E by (rows E c)"
| "rows E (ReversedNode c rv) = rev (rows E c)"
| "rows E (SelectionNode c pairs) = map (select_row pairs) (rows E c)"
| "rows E (ProjectionNode c asg) = map (project_row E asg) (rows E c)"
| "rows E (AggregateNode c aggs ks os dn) = aggregate_rows E aggs (map ref_id ks) os dn (rows E c)"
| "rows E (WindowOpNode c ds w) = window_rows E w ds (rows E c)"
| "rows E (RandomSampleNode c fr) = sample_rows E fr (rows E c)"
| "rows E (ExplodeNode c cols off) = concat (map (explode_row (map ref_id cols) off) (rows E c))"
| "rows E (ResultNode c outs ord k) = result_rows E outs ord k (rows E c)"
| "rows E (CteNode c) = rows E c"

text \<open>What is observed of a node: its columns, and the table of their values.\<close>

definition table :: "engine \<Rightarrow> bfnode \<Rightarrow> sql_value list list" where
  "table E n = map (\<lambda>r. map r (out_ids n)) (rows E n)"

definition same_output :: "engine \<Rightarrow> bfnode \<Rightarrow> bfnode \<Rightarrow> bool" where
  "same_output E n m \<longleftrightarrow> out_ids n = out_ids m \<and> table E n = table E m"

end
