(* ===== verification/Node_Agreement.thy ===== *)
theory Node_Agreement
  imports Node_Semantics
begin

text \<open>
  Which columns the rows of a node depend on. Two lists of rows agree on a set of columns when
  they are as long and each pair of rows has the same values there; every class computes
  agreeing rows from rows that agree on the columns it refers to.
\<close>

definition agree :: "column_id set \<Rightarrow> row \<Rightarrow> row \<Rightarrow> bool" where
  "agree S r r' \<longleftrightarrow> (\<forall>i \<in> S. r i = r' i)"

definition rows_agree :: "column_id set \<Rightarrow> row list \<Rightarrow> row list \<Rightarrow> bool" where
  "rows_agree S rs rs' \<longleftrightarrow> list_all2 (agree S) rs rs'"

named_theorems agreement \<open>rows that agree, class by class\<close>

lemma agree_refl [simp]: "agree S r r"
  by (simp add: agree_def)

lemma rows_agree_refl [simp]: "rows_agree S rs rs"
  by (simp add: rows_agree_def list_all2_same)

lemma agree_mono: "agree S r r' \<Longrightarrow> T \<subseteq> S \<Longrightarrow> agree T r r'"
  by (auto simp: agree_def)

lemma rows_agree_mono: "rows_agree S rs rs' \<Longrightarrow> T \<subseteq> S \<Longrightarrow> rows_agree T rs rs'"
  by (auto simp: rows_agree_def elim!: list_all2_mono dest: agree_mono)

lemma rows_agree_trans: "rows_agree S rs rs' \<Longrightarrow> rows_agree S rs' rs'' \<Longrightarrow> rows_agree S rs rs''"
  by (auto simp: rows_agree_def list_all2_conv_all_nth agree_def)

lemma rows_agree_sym: "rows_agree S rs rs' \<Longrightarrow> rows_agree S rs' rs"
  by (auto simp: rows_agree_def list_all2_conv_all_nth agree_def)

lemma rows_agree_length: "rows_agree S rs rs' \<Longrightarrow> length rs = length rs'"
  by (auto simp: rows_agree_def dest: list_all2_lengthD)

lemma rows_agree_nth: "rows_agree S rs rs' \<Longrightarrow> k < length rs \<Longrightarrow> agree S (rs ! k) (rs' ! k)"
  by (auto simp: rows_agree_def dest: list_all2_nthD)

lemma rows_agreeI:
  "length rs = length rs' \<Longrightarrow> (\<And>k. k < length rs \<Longrightarrow> agree S (rs ! k) (rs' ! k)) \<Longrightarrow> rows_agree S rs rs'"
  by (simp add: rows_agree_def list_all2_conv_all_nth)

lemma rows_agree_map:
  "rows_agree S rs rs' \<Longrightarrow> (\<And>r r'. agree S r r' \<Longrightarrow> agree T (f r) (g r'))
    \<Longrightarrow> rows_agree T (map f rs) (map g rs')"
  by (auto simp: rows_agree_def list_all2_conv_all_nth)

lemma rows_agree_table:
  "rows_agree (set is) rs rs' \<Longrightarrow> map (\<lambda>r. map r is) rs = map (\<lambda>r. map r is) rs'"
  by (rule nth_equalityI) (auto simp: rows_agree_def list_all2_conv_all_nth agree_def)

lemma same_output_agree:
  "out_ids n = out_ids m \<Longrightarrow> rows_agree (set (out_ids m)) (rows E n) (rows E m) \<Longrightarrow> same_output E n m"
  by (simp add: same_output_def table_def rows_agree_table)

subsection \<open>Expressions and orderings\<close>

lemma agree_eval:
  "agree (set (column_references e)) r r' \<Longrightarrow> eval E r e = eval E r' e"
proof (induction e)
  case (OpExpression op inputs)
  then have "map (eval E r) inputs = map (eval E r') inputs"
    by (auto simp: agree_def)
  then show ?case by (simp del: map_eq_conv)
qed (auto simp: agree_def)

lemma eval_cong: "set (column_references e) \<subseteq> S \<Longrightarrow> agree S r r' \<Longrightarrow> eval E r e = eval E r' e"
  by (rule agree_eval) (rule agree_mono)

definition parts_refs :: "expr ordering_expression list \<Rightarrow> column_id set" where
  "parts_refs parts = \<Union> (set (map referenced_columns parts))"

lemma row_compare_cong:
  assumes "parts_refs parts \<subseteq> S" "agree S r r'" "agree S s s'"
  shows "row_compare E parts r s = row_compare E parts r' s'"
  using assms(1)
proof (induction parts)
  case (Cons p ps)
  then have "eval E r (scalar_expression p) = eval E r' (scalar_expression p)"
    "eval E s (scalar_expression p) = eval E s' (scalar_expression p)"
    using assms by (auto simp: parts_refs_def referenced_columns_def intro!: eval_cong [where S = S])
  with Cons show ?case by (simp add: row_compare_def parts_refs_def Let_def)
qed (simp add: row_compare_def)

lemma insert_by_rel:
  assumes "R x x'" "list_all2 R ys ys'"
    and "\<And>a a' b b'. R a a' \<Longrightarrow> R b b' \<Longrightarrow> cmp a b = cmp' a' b'"
  shows "list_all2 R (insert_by cmp x ys) (insert_by cmp' x' ys')"
  using assms(2) assms(1,3) by (induction ys ys' rule: list_all2_induct) auto

lemma stable_sort_rel:
  assumes "list_all2 R xs xs'" "\<And>a a' b b'. R a a' \<Longrightarrow> R b b' \<Longrightarrow> cmp a b = cmp' a' b'"
  shows "list_all2 R (stable_sort cmp xs) (stable_sort cmp' xs')"
  using assms(1) unfolding stable_sort_def
  by (induction xs xs' rule: list_all2_induct) (auto intro!: insert_by_rel assms(2))

lemma set_insert_by [simp]: "set (insert_by cmp x ys) = insert x (set ys)"
  by (induction ys) auto

lemma set_stable_sort [simp]: "set (stable_sort cmp xs) = set xs"
  by (induction xs) (auto simp: stable_sort_def)

lemma length_insert_by [simp]: "length (insert_by cmp x ys) = Suc (length ys)"
  by (induction ys) auto

lemma length_stable_sort [simp]: "length (stable_sort cmp xs) = length xs"
  by (induction xs) (auto simp: stable_sort_def)

lemma insert_by_cong:
  "(\<And>y. y \<in> set ys \<Longrightarrow> cmp x y = cmp' x y) \<Longrightarrow> insert_by cmp x ys = insert_by cmp' x ys"
  by (induction ys) auto

lemma stable_sort_cong:
  "(\<And>x y. x \<in> set xs \<Longrightarrow> y \<in> set xs \<Longrightarrow> cmp x y = cmp' x y) \<Longrightarrow> stable_sort cmp xs = stable_sort cmp' xs"
proof (induction xs)
  case (Cons x xs)
  then have "stable_sort cmp xs = stable_sort cmp' xs" by simp
  moreover have "insert_by cmp x (stable_sort cmp' xs) = insert_by cmp' x (stable_sort cmp' xs)"
    using Cons(2) by (intro insert_by_cong) simp
  ultimately show ?case by (simp add: stable_sort_def)
qed (simp add: stable_sort_def)

subsection \<open>Classes that keep the columns\<close>

lemma slice_agree [agreement]:
  assumes "rows_agree S rs rs'"
  shows "rows_agree S (py_slice sl rs) (py_slice sl rs')"
proof -
  have len: "length rs = length rs'" using assms by (rule rows_agree_length)
  show ?thesis
  proof (rule rows_agreeI)
    fix k assume k: "k < length (py_slice sl rs)"
    let ?p = "slice_positions sl (int (length rs)) ! k"
    have "0 \<le> ?p \<and> ?p < int (length rs)"
      using k by (intro slice_positions_range [of _ sl]) (auto simp: py_slice_def)
    then have "agree S (rs ! nat ?p) (rs' ! nat ?p)"
      by (intro rows_agree_nth [OF assms]) linarith
    with k show "agree S (py_slice sl rs ! k) (py_slice sl rs' ! k)"
      by (simp add: py_slice_def len)
  qed (simp add: py_slice_def len)
qed

lemma filter_agree [agreement]:
  assumes "rows_agree S rs rs'" "set (column_references p) \<subseteq> S"
  shows "rows_agree S (filter_rows E p rs) (filter_rows E p rs')"
  using assms(1) unfolding rows_agree_def filter_rows_def
  by (induction rs rs' rule: list_all2_induct) (auto dest: eval_cong [OF assms(2), of _ _ E])

lemma sort_agree [agreement]:
  assumes "rows_agree S rs rs'" "parts_refs parts \<subseteq> S"
  shows "rows_agree S (sort_rows E parts rs) (sort_rows E parts rs')"
  using assms(1) unfolding rows_agree_def sort_rows_def
  by (rule stable_sort_rel) (rule row_compare_cong [OF assms(2)])

lemma rev_agree [agreement]: "rows_agree S rs rs' \<Longrightarrow> rows_agree S (rev rs) (rev rs')"
  by (simp add: rows_agree_def list_all2_rev)

lemma sample_agree [agreement]:
  assumes "rows_agree S rs rs'"
  shows "rows_agree S (sample_rows E fr rs) (sample_rows E fr rs')"
proof -
  have len: "length rs = length rs'" using assms by (rule rows_agree_length)
  show ?thesis
  proof (rule rows_agreeI)
    fix k assume k: "k < length (sample_rows E fr rs)"
    let ?i = "filter (sampled E fr (length rs)) [0..<length rs] ! k"
    have "?i < length rs"
      using k nth_mem [of k "filter (sampled E fr (length rs)) [0..<length rs]"]
      by (auto simp: sample_rows_def)
    then have "agree S (rs ! ?i) (rs' ! ?i)" by (rule rows_agree_nth [OF assms])
    with k show "agree S (sample_rows E fr rs ! k) (sample_rows E fr rs' ! k)"
      by (simp add: sample_rows_def len)
  qed (simp add: sample_rows_def len)
qed


subsection \<open>Classes that define columns\<close>

lemma promote_agree [agreement]:
  assumes "rows_agree S rs rs'"
  shows "rows_agree (insert i S) (promote_offsets i rs) (promote_offsets i rs')"
proof (rule rows_agreeI)
  show "length (promote_offsets i rs) = length (promote_offsets i rs')"
    using rows_agree_length [OF assms] by (simp add: promote_offsets_def with_column_def offsets_def)
  fix k assume "k < length (promote_offsets i rs)"
  then show "agree (insert i S) (promote_offsets i rs ! k) (promote_offsets i rs' ! k)"
    using rows_agree_length [OF assms] rows_agree_nth [OF assms, of k]
    by (auto simp: promote_offsets_def with_column_def offsets_def agree_def)
qed

lemma promote_base: "rows_agree (- {i}) (promote_offsets i rs) rs"
  by (rule rows_agreeI) (auto simp: promote_offsets_def with_column_def offsets_def agree_def)

lemma project_row_other: "i \<notin> snd ` set asg \<Longrightarrow> project_row E asg r i = r i"
  using dict_of_eq_None_iff [of "map (\<lambda>(e, j). (j, e)) asg" i]
  by (force simp: project_row_def)

lemma project_agree [agreement]:
  assumes "rows_agree S rs rs'" "\<And>e j. (e, j) \<in> set asg \<Longrightarrow> set (column_references e) \<subseteq> S"
  shows "rows_agree (S \<union> snd ` set asg) (map (project_row E asg) rs) (map (project_row E asg) rs')"
proof (rule rows_agree_map [OF assms(1)])
  fix r r' assume a: "agree S r r'"
  have "project_row E asg r i = project_row E asg r' i" if i: "i \<in> S \<union> snd ` set asg" for i
  proof (cases "dict_of (map (\<lambda>(e, j). (j, e)) asg) i")
    case None
    then have "i \<in> S" using i by (force simp: dict_of_eq_None_iff)
    with None a show ?thesis by (simp add: project_row_def agree_def)
  next
    case (Some e)
    then have "set (column_references e) \<subseteq> S"
      using dict_of_SomeD [OF Some] assms(2) by auto
    with Some a show ?thesis by (auto simp: project_row_def intro: eval_cong)
  qed
  then show "agree (S \<union> snd ` set asg) (project_row E asg r) (project_row E asg r')"
    by (simp add: agree_def)
qed

lemma project_base: "rows_agree (- snd ` set asg) (map (project_row E asg) rs) rs"
  by (rule rows_agreeI) (auto simp: agree_def project_row_other)

lemma project_filter:
  "rows_agree N (map (project_row E (filter (\<lambda>(e, j). j \<in> N) asg)) rs) (map (project_row E asg) rs)"
proof (rule rows_agreeI)
  fix k assume "k < length (map (project_row E (filter (\<lambda>(e, j). j \<in> N) asg)) rs)"
  moreover have "map (\<lambda>(e, j). (j, e)) (filter (\<lambda>(e, j). j \<in> N) asg) =
      filter (\<lambda>(j, e). j \<in> N) (map (\<lambda>(e, j). (j, e)) asg)"
    by (induction asg) auto
  ultimately show "agree N (map (project_row E (filter (\<lambda>(e, j). j \<in> N) asg)) rs ! k)
      (map (project_row E asg) rs ! k)"
    by (simp add: agree_def project_row_def dict_of_filter_key [where P = "\<lambda>j. j \<in> N"])
qed simp

lemma rows_agree_UNIV: "rows_agree UNIV rs rs' \<Longrightarrow> rs = rs'"
  by (auto simp: rows_agree_def agree_def list_all2_conv_all_nth fun_eq_iff intro!: nth_equalityI)

lemma select_agree [agreement]:
  assumes "rows_agree S rs rs'" "\<And>d j. (d, j) \<in> set pairs \<Longrightarrow> ref_id d \<in> S"
  shows "map (select_row pairs) rs = map (select_row pairs) rs'"
proof -
  have "rows_agree UNIV (map (select_row pairs) rs) (map (select_row pairs) rs')"
  proof (rule rows_agree_map [OF assms(1)])
    fix r r' assume a: "agree S r r'"
    have "r (ref_id d) = r' (ref_id d)" if "dict_of (map (\<lambda>(d, j). (j, d)) pairs) i = Some d" for i d
      using dict_of_SomeD [OF that] assms(2) a by (auto simp: agree_def)
    then show "agree UNIV (select_row pairs r) (select_row pairs r')"
      by (auto simp: agree_def select_row_def split: option.split)
  qed
  then show ?thesis by (rule rows_agree_UNIV)
qed

lemma isin_agree [agreement]:
  assumes "rows_agree S ls ls'" "ref_id x \<in> S"
  shows "rows_agree (insert i S) (isin_rows E x i is ls rs) (isin_rows E x i is ls' rs)"
  unfolding isin_rows_def using assms(2)
  by (intro rows_agree_map [OF assms(1)]) (auto simp: agree_def split: list.split)

lemma isin_base: "rows_agree (- {i}) (isin_rows E x i is ls rs) ls"
  by (rule rows_agreeI) (auto simp: isin_rows_def agree_def)

lemma explode_agree [agreement]:
  assumes "rows_agree S rs rs'" "set cols \<subseteq> S"
  shows "rows_agree (S \<union> set_option off) (concat (map (explode_row cols off) rs))
    (concat (map (explode_row cols off) rs'))"
proof -
  have "rows_agree (S \<union> set_option off) (explode_row cols off r) (explode_row cols off r')"
    if "agree S r r'" for r r'
  proof -
    have "(case cols of [] \<Rightarrow> 0 | c # _ \<Rightarrow> length (array_items (r c))) =
        (case cols of [] \<Rightarrow> 0 | c # _ \<Rightarrow> length (array_items (r' c)))"
      using that assms(2) by (auto simp: agree_def split: list.split)
    then show ?thesis
      using that assms(2) unfolding explode_row_def Let_def
      by (intro rows_agreeI) (auto simp: agree_def)
  qed
  with assms(1) show ?thesis
    unfolding rows_agree_def by (induction rs rs' rule: list_all2_induct) (auto intro: list_all2_appendI)
qed

subsection \<open>Joins\<close>

lemma pair_agree:
  assumes "agree S l l'" "agree T r r'"
    and "\<And>i. i \<in> U \<Longrightarrow> i \<in> set is \<longleftrightarrow> i \<in> set is'"
    and "\<And>i. i \<in> U \<Longrightarrow> i \<in> set is \<Longrightarrow> i \<in> S" "\<And>i. i \<in> U \<Longrightarrow> i \<notin> set is \<Longrightarrow> i \<in> T"
  shows "agree U (pair_row is l r) (pair_row is' l' r')"
  using assms by (auto simp: agree_def pair_row_def)

lemma joins_agree:
  assumes "agree S l l'" "agree T r r'" "\<And>a b. (a, b) \<in> set conds \<Longrightarrow> ref_id a \<in> S \<and> ref_id b \<in> T"
  shows "joins E conds l r = joins E conds l' r'"
  using assms by (fastforce simp: joins_def agree_def list_all_iff)

lemma filter_rel:
  assumes "list_all2 R xs ys" "\<And>x y. R x y \<Longrightarrow> P x = Q y"
  shows "list_all2 R (filter P xs) (filter Q ys)"
  using assms(1) by (induction rule: list_all2_induct) (auto dest: assms(2))

lemma list_ex_rel:
  assumes "list_all2 R xs ys" "\<And>x y. R x y \<Longrightarrow> P x = Q y"
  shows "list_ex P xs = list_ex Q ys"
  using assms(1) by (induction rule: list_all2_induct) (auto dest: assms(2))

lemma concat_map_rel:
  assumes "list_all2 R xs ys" "\<And>x y. R x y \<Longrightarrow> list_all2 T (f x) (g y)"
  shows "list_all2 T (concat (map f xs)) (concat (map g ys))"
  using assms(1) by (induction rule: list_all2_induct) (auto intro: list_all2_appendI dest: assms(2))

lemma map_rel:
  assumes "list_all2 R xs ys" "\<And>x y. R x y \<Longrightarrow> T (f x) (g y)"
  shows "list_all2 T (map f xs) (map g ys)"
  using assms(1) by (induction rule: list_all2_induct) (auto dest: assms(2))

lemma left_join_rel:
  assumes "list_all2 R ls ls'" "list_all2 T rs rs'" "T null_row null_row"
    and "\<And>a a' b b'. R a a' \<Longrightarrow> T b b' \<Longrightarrow> U (pair a b) (pair' a' b')"
    and "\<And>a a' b b'. R a a' \<Longrightarrow> T b b' \<Longrightarrow> on a b = on' a' b'"
  shows "list_all2 U (left_join pair on ls rs) (left_join pair' on' ls' rs')"
  unfolding left_join_def
proof (rule concat_map_rel [OF assms(1)])
  fix l l' assume l: "R l l'"
  have m: "list_all2 T (filter (on l) rs) (filter (on' l') rs')"
    by (rule filter_rel [OF assms(2)]) (rule assms(5) [OF l])
  then have "filter (on l) rs = [] \<longleftrightarrow> filter (on' l') rs' = []"
    by auto
  moreover have "list_all2 U (map (pair l) (filter (on l) rs)) (map (pair' l') (filter (on' l') rs'))"
    by (rule map_rel [OF m]) (rule assms(4) [OF l])
  ultimately show "list_all2 U
      (let ms = filter (on l) rs in if ms = [] then [pair l null_row] else map (pair l) ms)
      (let ms = filter (on' l') rs' in if ms = [] then [pair' l' null_row] else map (pair' l') ms)"
    using assms(3,4) l by (simp add: Let_def)
qed

lemma inner_join_rel:
  assumes "list_all2 R ls ls'" "list_all2 T rs rs'"
    and "\<And>a a' b b'. R a a' \<Longrightarrow> T b b' \<Longrightarrow> U (pair a b) (pair' a' b')"
    and "\<And>a a' b b'. R a a' \<Longrightarrow> T b b' \<Longrightarrow> on a b = on' a' b'"
  shows "list_all2 U (inner_join pair on ls rs) (inner_join pair' on' ls' rs')"
  unfolding inner_join_def
  by (rule concat_map_rel [OF assms(1)], rule map_rel [OF filter_rel [OF assms(2)]])
    (auto intro: assms(3) dest: assms(4))

lemma join_agree [agreement]:
  assumes "rows_agree S ls ls'" "rows_agree T rs rs'"
    and "\<And>a b. (a, b) \<in> set conds \<Longrightarrow> ref_id a \<in> S \<and> ref_id b \<in> T"
    and "\<And>i. i \<in> U \<Longrightarrow> i \<in> set is \<longleftrightarrow> i \<in> set is'"
    and "\<And>i. i \<in> U \<Longrightarrow> i \<in> set is \<Longrightarrow> i \<in> S" "\<And>i. i \<in> U \<Longrightarrow> i \<notin> set is \<Longrightarrow> i \<in> T"
  shows "rows_agree U (ordered_join (pair_row is) (joins E conds) ty ls rs)
    (ordered_join (pair_row is') (joins E conds) ty ls' rs')"
proof -
  note rel = assms(1,2) [unfolded rows_agree_def]
  have pair: "agree S a a' \<Longrightarrow> agree T b b' \<Longrightarrow> agree U (pair_row is a b) (pair_row is' a' b')"
    for a a' b b' by (rule pair_agree [OF _ _ assms(4,5,6)])
  have on: "agree S a a' \<Longrightarrow> agree T b b' \<Longrightarrow> joins E conds a b = joins E conds a' b'"
    for a a' b b' by (rule joins_agree [OF _ _ assms(3)])
  have left: "list_all2 (agree U) (left_join (pair_row is) (joins E conds) ls rs)
      (left_join (pair_row is') (joins E conds) ls' rs')"
    by (rule left_join_rel [OF rel]) (auto intro: pair dest: on)
  show ?thesis
  proof (cases ty)
    case InnerJoin
    then show ?thesis
      by (auto simp: rows_agree_def ordered_join_def intro: inner_join_rel [OF rel] pair dest: on)
  next
    case CrossJoin
    then show ?thesis
      by (auto simp: rows_agree_def ordered_join_def intro: inner_join_rel [OF rel] pair)
  next
    case LeftJoin
    then show ?thesis using left by (simp add: rows_agree_def ordered_join_def)
  next
    case RightJoin
    have "list_all2 (agree U) (left_join (\<lambda>r l. pair_row is l r) (\<lambda>r l. joins E conds l r) rs ls)
        (left_join (\<lambda>r l. pair_row is' l r) (\<lambda>r l. joins E conds l r) rs' ls')"
      by (rule left_join_rel [OF rel(2,1)]) (auto intro: pair dest: on)
    with RightJoin show ?thesis by (simp add: rows_agree_def ordered_join_def)
  next
    case OuterJoin
    have "list_all2 (agree U)
        (map (pair_row is null_row) (filter (\<lambda>r. \<not> list_ex (\<lambda>l. joins E conds l r) ls) rs))
        (map (pair_row is' null_row) (filter (\<lambda>r. \<not> list_ex (\<lambda>l. joins E conds l r) ls') rs'))"
    proof (rule map_rel [OF filter_rel [OF rel(2)]])
      fix r r' assume r: "agree T r r'"
      have "list_ex (\<lambda>l. joins E conds l r) ls = list_ex (\<lambda>l. joins E conds l r') ls'"
        by (rule list_ex_rel [OF rel(1)]) (rule on [OF _ r])
      then show "(\<not> list_ex (\<lambda>l. joins E conds l r) ls) = (\<not> list_ex (\<lambda>l. joins E conds l r') ls')"
        by simp
    qed (rule pair [OF agree_refl])
    with OuterJoin left show ?thesis
      by (simp add: rows_agree_def ordered_join_def list_all2_appendI)
  qed
qed

subsection \<open>Windows and aggregates\<close>

lemma agg_parts_refs: "agg_parts e = Some (op, args) \<Longrightarrow> a \<in> set args \<Longrightarrow>
    set (column_references a) \<subseteq> set (column_references e)"
  by (cases e) auto

lemma agg_args_cong:
  assumes "agg_parts e = Some (op, args)" "set (column_references e) \<subseteq> S" "agree S r r'" "a \<in> set args"
  shows "eval E r a = eval E r' a"
  using agg_parts_refs [OF assms(1,4)] assms(2,3) by (blast intro: eval_cong)

lemma eval_agg_cong:
  assumes "rows_agree S rs rs'" "set (column_references e) \<subseteq> S"
  shows "eval_agg E rs e = eval_agg E rs' e"
proof (cases "agg_parts e")
  case (Some x)
  obtain op args where x: "x = (op, args)" by (cases x)
  have "map (\<lambda>r. map (eval E r) args) rs = map (\<lambda>r. map (eval E r) args) rs'"
    using rows_agree_nth [OF assms(1)] agg_args_cong [OF Some [unfolded x] assms(2)]
    by (intro nth_equalityI) (simp_all add: rows_agree_length [OF assms(1)])
  with Some x show ?thesis by (simp add: eval_agg_def)
qed (simp add: eval_agg_def)

lemma partition_agree:
  assumes "rows_agree S rs rs'" "all_referenced_columns w \<subseteq> S" "k < length rs"
  shows "partition_of E w rs k = partition_of E w rs' k"
proof -
  have refs: "set (column_references e) \<subseteq> S" if "e \<in> set (window_expressions w)" for e
    using assms(2) that by (auto simp: all_referenced_columns_eq)
  have keys: "map (eval E (rs ! j)) (grouping_keys w) = map (eval E (rs' ! j)) (grouping_keys w)"
    if "j < length rs" for j
    using rows_agree_nth [OF assms(1) that] refs by (auto simp: window_expressions_def intro!: eval_cong [where S = S])
  have parts: "parts_refs (window_ordering w) \<subseteq> S"
    using refs by (auto simp: parts_refs_def referenced_columns_def window_expressions_def)
  have "filter (\<lambda>j. map (eval E (rs ! j)) (grouping_keys w) = map (eval E (rs ! k)) (grouping_keys w)) [0..<length rs] =
      filter (\<lambda>j. map (eval E (rs' ! j)) (grouping_keys w) = map (eval E (rs' ! k)) (grouping_keys w)) [0..<length rs']"
    using keys assms(3) by (intro filter_cong) (auto simp: rows_agree_length [OF assms(1)] simp del: map_eq_conv)
  then show ?thesis
    unfolding partition_of_def
    by (auto intro!: stable_sort_cong row_compare_cong [OF parts] rows_agree_nth [OF assms(1)]
        simp: rows_agree_length [OF assms(1)])
qed

lemma set_partition_of: "j \<in> set (partition_of E w rs k) \<Longrightarrow> j < length rs"
  by (auto simp: partition_of_def)

lemma window_cell_agree:
  assumes "rows_agree S rs rs'" "all_referenced_columns w \<subseteq> S" "set (column_references e) \<subseteq> S"
    and "k < length rs"
  shows "window_cell E w rs e k = window_cell E w rs' e k"
proof (cases "agg_parts e")
  case (Some x)
  obtain op args where x: "x = (op, args)" by (cases x)
  note part = partition_agree [OF assms(1,2,4)]
  have "map (\<lambda>j. map (eval E (rs ! j)) args) (partition_of E w rs' k) =
      map (\<lambda>j. map (eval E (rs' ! j)) args) (partition_of E w rs' k)"
    using rows_agree_nth [OF assms(1)] agg_args_cong [OF Some [unfolded x] assms(3)]
    by (intro map_cong refl) (simp add: rows_agree_length [OF assms(1)] set_partition_of)
  moreover have "map (\<lambda>j. map (\<lambda>p. eval E (rs ! j) (scalar_expression p)) (window_ordering w)) (partition_of E w rs' k) =
      map (\<lambda>j. map (\<lambda>p. eval E (rs' ! j) (scalar_expression p)) (window_ordering w)) (partition_of E w rs' k)"
  proof (intro map_cong refl)
    fix j p assume "j \<in> set (partition_of E w rs' k)" "p \<in> set (window_ordering w)"
    then show "eval E (rs ! j) (scalar_expression p) = eval E (rs' ! j) (scalar_expression p)"
      using rows_agree_nth [OF assms(1), of j] assms(2)
      by (intro eval_cong [of _ S]) (auto simp: all_referenced_columns_def rows_agree_length [OF assms(1)]
          dest!: set_partition_of)
  qed
  ultimately show ?thesis
    using Some x part by (simp add: window_cell_def Let_def del: map_eq_conv)
qed (simp add: window_cell_def)

lemma window_agree [agreement]:
  assumes "rows_agree S rs rs'" "all_referenced_columns w \<subseteq> S"
    and "\<And>d. d \<in> set ds \<Longrightarrow> set (column_references (cdef_expression d)) \<subseteq> S"
  shows "rows_agree (S \<union> cdef_id ` set ds) (window_rows E w ds rs) (window_rows E w ds rs')"
proof (rule rows_agreeI)
  show "length (window_rows E w ds rs) = length (window_rows E w ds rs')"
    by (simp add: window_rows_def rows_agree_length [OF assms(1)])
  fix k assume "k < length (window_rows E w ds rs)"
  then have k: "k < length rs" by (simp add: window_rows_def)
  have "(window_rows E w ds rs ! k) i = (window_rows E w ds rs' ! k) i"
    if i: "i \<in> S \<union> cdef_id ` set ds" for i
  proof (cases "dict_of (map (\<lambda>d. (cdef_id d, cdef_expression d)) ds) i")
    case None
    then have "i \<in> S" using i by (force simp: dict_of_eq_None_iff)
    then show ?thesis
      using k None rows_agree_nth [OF assms(1) k]
      by (simp add: window_rows_def agree_def rows_agree_length [OF assms(1)])
  next
    case (Some e)
    then have "set (column_references e) \<subseteq> S"
      using dict_of_SomeD [OF Some] assms(3) by auto
    then show ?thesis
      using k Some window_cell_agree [OF assms(1,2) _ k]
      by (simp add: window_rows_def rows_agree_length [OF assms(1)])
  qed
  then show "agree (S \<union> cdef_id ` set ds) (window_rows E w ds rs ! k) (window_rows E w ds rs' ! k)"
    by (simp add: agree_def)
qed

lemma window_base: "rows_agree (- cdef_id ` set ds) (window_rows E w ds rs) rs"
proof (rule rows_agreeI)
  fix k assume "k < length (window_rows E w ds rs)"
  moreover have "dict_of (map (\<lambda>d. (cdef_id d, cdef_expression d)) ds) i = None"
    if "i \<notin> cdef_id ` set ds" for i
    using that by (force simp: dict_of_eq_None_iff)
  ultimately show "agree (- cdef_id ` set ds) (window_rows E w ds rs ! k) (rs ! k)"
    by (auto simp: window_rows_def agree_def)
qed (simp add: window_rows_def)

lemma agg_row_cong:
  assumes "rows_agree S grp grp'" "\<And>e j. (e, j) \<in> set aggs \<Longrightarrow> set (column_references e) \<subseteq> S"
  shows "agg_row E aggs ks key grp = agg_row E aggs ks key grp'"
proof -
  have "map (\<lambda>(e, j). (j, eval_agg E grp e)) aggs = map (\<lambda>(e, j). (j, eval_agg E grp' e)) aggs"
    using eval_agg_cong [OF assms(1)] assms(2) by auto
  then show ?thesis by (simp add: agg_row_def del: map_eq_conv)
qed

lemma aggregate_agree [agreement]:
  assumes "rows_agree S rs rs'" "set ks \<subseteq> S" "parts_refs os \<subseteq> S"
    and "\<And>e j. (e, j) \<in> set aggs \<Longrightarrow> set (column_references e) \<subseteq> S"
  shows "aggregate_rows E aggs ks os dropna rs = aggregate_rows E aggs ks os dropna rs'"
proof -
  define kept where "kept rs = (if dropna \<and> ks \<noteq> [] then filter (\<lambda>r. \<forall>k \<in> set ks. r k \<noteq> NULL) rs else rs)"
    for rs :: "row list"
  define sorted where "sorted rs = (if os \<noteq> [] then sort_rows E os (kept rs) else kept rs)" for rs
  have "rows_agree S (kept rs) (kept rs')"
    using assms(1,2) by (auto simp: kept_def rows_agree_def agree_def subset_iff intro!: filter_rel)
  then have sorted: "rows_agree S (sorted rs) (sorted rs')"
    using sort_agree [OF _ assms(3)] by (auto simp: sorted_def)
  have key: "map r ks = map r' ks" if "agree S r r'" for r r'
    using that assms(2) by (auto simp: agree_def)
  have keys: "map (\<lambda>r. map r ks) (sorted rs) = map (\<lambda>r. map r ks) (sorted rs')"
    using sorted key unfolding rows_agree_def
    by (induction rule: list_all2_induct) (auto simp del: map_eq_conv)
  have "rows_agree S (filter (\<lambda>r. map r ks = v) (sorted rs)) (filter (\<lambda>r. map r ks = v) (sorted rs'))" for v
    using sorted unfolding rows_agree_def by (rule filter_rel) (use key in metis)
  then have grp: "agg_row E aggs ks v (filter (\<lambda>r. map r ks = v) (sorted rs)) =
      agg_row E aggs ks v (filter (\<lambda>r. map r ks = v) (sorted rs'))" for v
    by (rule agg_row_cong [OF _ assms(4)])
  have single: "agg_row E aggs [] [] (sorted rs) = agg_row E aggs [] [] (sorted rs')"
    by (rule agg_row_cong [OF sorted assms(4)])
  have body: "aggregate_rows E aggs ks os dropna xs =
      (if ks = [] then [agg_row E aggs [] [] (sorted xs)]
       else map (\<lambda>v. agg_row E aggs ks v (filter (\<lambda>r. map r ks = v) (sorted xs)))
         (stable_sort (key_compare E) (first_occurrences (map (\<lambda>r. map r ks) (sorted xs)))))" for xs
    by (simp add: aggregate_rows_def Let_def sorted_def kept_def)
  show ?thesis
    unfolding body keys by (simp only: grp single)
qed

text \<open>Aggregations may be dropped as long as the columns looked at keep theirs.\<close>

lemma agg_row_prune:
  assumes "\<And>i. i \<in> N \<Longrightarrow> dict_of (map (\<lambda>(e, j). (j, e)) aggs') i = dict_of (map (\<lambda>(e, j). (j, e)) aggs) i"
  shows "agree N (agg_row E aggs' ks key grp) (agg_row E aggs ks key grp)"
proof -
  have swap: "dict_of (map (\<lambda>(e, j). (j, eval_agg E grp e)) xs) i =
      map_option (eval_agg E grp) (dict_of (map (\<lambda>(e, j). (j, e)) xs) i)" for xs i
    using dict_of_map_value [of "eval_agg E grp" "map (\<lambda>(e, j). (j, e)) xs" i]
    by (simp add: case_prod_unfold comp_def)
  then show ?thesis
    unfolding agree_def agg_row_def by (simp add: dict_of_append swap assms)
qed

lemma aggregate_prune:
  assumes "\<And>i. i \<in> N \<Longrightarrow> dict_of (map (\<lambda>(e, j). (j, e)) aggs') i = dict_of (map (\<lambda>(e, j). (j, e)) aggs) i"
  shows "rows_agree N (aggregate_rows E aggs' ks os dropna rs) (aggregate_rows E aggs ks os dropna rs)"
  unfolding aggregate_rows_def Let_def
  by (auto intro!: rows_agreeI agg_row_prune assms)

end
