(* ===== verification/Plan_Equivalence.thy ===== *)
theory Plan_Equivalence
  imports Node_Agreement
begin

text \<open>
  Well-scoped plans, in which every reference is to a column of the child and no column is
  defined twice, and the equivalence of plans: the same columns and the same table. The
  equivalence is a congruence for every class of well-scoped nodes, which is what lets a
  rewrite of one node be applied anywhere in a plan.
\<close>

subsection \<open>The columns of the fields\<close>

lemma mapM_Inr_map:
  assumes "mapM f xs = Inr ys" "\<And>x y. x \<in> set xs \<Longrightarrow> f x = Inr y \<Longrightarrow> g y = h x"
  shows "map g ys = map h xs"
  using assms by (induction xs arbitrary: ys) (auto simp: rbind_eq_Inr_iff)

lemma explode_field_ids:
  assumes "ExplodeNode_fields (Inr cf) cols off = Inr fs"
  shows "map field_id fs = map field_id cf @ (case off of None \<Rightarrow> [] | Some i \<Rightarrow> [i])"
proof -
  obtain ys where ys: "mapM (\<lambda>f. if field_id f \<in> set (map ref_id cols)
        then rbind (lookup_or KeyError (fields_by_id cf) (field_id f)) (\<lambda>g.
               rbind (array_value_type (field_dtype g)) (\<lambda>t. Inr (mk_field (field_id f) t True)))
        else Inr f) cf = Inr ys"
    "fs = (case off of None \<Rightarrow> ys | Some i \<Rightarrow> ys @ [mk_field i (Some INT_DTYPE) False])"
    using assms by (auto simp: ExplodeNode_fields_def rbind_eq_Inr_iff)
  have "map field_id ys = map field_id cf"
    by (rule mapM_Inr_map [OF ys(1)]) (auto simp: rbind_eq_Inr_iff split: if_splits)
  with ys(2) show ?thesis by (simp split: option.split)
qed

lemma added_field_ids:
  assumes "mapM (\<lambda>(e, i). rbind cf (\<lambda>fs. aggregated_field (fields_by_id fs) e i)) asg = Inr fs"
  shows "map field_id fs = map snd asg"
  by (rule mapM_Inr_map [OF assms]) (auto simp: rbind_eq_Inr_iff aggregated_field_def)

lemma window_field_ids:
  assumes "WindowOpNode_added_fields cf ds = Inr fs"
  shows "map field_id fs = map cdef_id ds"
  by (rule mapM_Inr_map [OF assms [unfolded WindowOpNode_added_fields_def]])
    (auto simp: rbind_eq_Inr_iff aggregated_field_def)

lemma projection_field_ids:
  assumes "ProjectionNode_added_fields cf asg = Inr fs"
  shows "map field_id fs = map snd asg"
  by (rule mapM_Inr_map [OF assms [unfolded ProjectionNode_added_fields_def]])
    (auto simp: rbind_eq_Inr_iff projected_field_def Let_def split: if_splits)

lemma selection_field_ids:
  assumes "SelectionNode_fields cf pairs = Inr fs"
  shows "map field_id fs = map snd pairs"
proof -
  obtain gs where "mapM (\<lambda>(ref, output). selected_field (fields_by_id gs) ref output) pairs = Inr fs"
    using assms by (auto simp: SelectionNode_fields_def rbind_eq_Inr_iff)
  then show ?thesis
    by (rule mapM_Inr_map) (auto simp: selected_field_def rbind_eq_Inr_iff)
qed

lemma result_field_ids:
  assumes "ResultNode_fields cf outs = Inr fs"
  shows "map field_id fs = map (\<lambda>(_, nm). ColumnId nm) outs"
proof -
  obtain gs where "mapM (\<lambda>(ref, output). selected_field (fields_by_id gs) ref (ColumnId output)) outs = Inr fs"
    using assms by (auto simp: ResultNode_fields_def rbind_eq_Inr_iff)
  then show ?thesis
    by (rule mapM_Inr_map) (auto simp: selected_field_def rbind_eq_Inr_iff)
qed

lemma aggregate_field_ids:
  assumes "AggregateNode_fields cf aggs ks dn = Inr fs"
  shows "map field_id fs = map ref_id ks @ map snd aggs"
proof -
  obtain ys zs where "mapM (\<lambda>ref. rbind cf (\<lambda>fs. rbind (lookup_or KeyError (fields_by_id fs) (ref_id ref))
        (\<lambda>f. Inr (if dn then with_nonnull f else f)))) ks = Inr ys"
    and zs: "mapM (\<lambda>(agg, i). rbind cf (\<lambda>fs. aggregated_field (fields_by_id fs) agg i)) aggs = Inr zs"
    and fs: "fs = ys @ zs"
    using assms by (auto simp: AggregateNode_fields_def rbind_eq_Inr_iff)
  then have "map field_id ys = map ref_id ks"
    by (elim mapM_Inr_map) (auto simp: rbind_eq_Inr_iff fields_by_id_def dest!: dict_of_SomeD)
  then show ?thesis using fs added_field_ids [OF zs] by simp
qed

lemma leaf_field_ids:
  "ReadLocalNode_fields d items off = Inr fs \<Longrightarrow>
     map field_id fs = map scan_id items @ (case off of None \<Rightarrow> [] | Some i \<Rightarrow> [i])"
  "ReadTableNode_fields src items = Inr fs \<Longrightarrow> map field_id fs = map scan_id items"
proof -
  assume "ReadLocalNode_fields d items off = Inr fs"
  then obtain ys where ys: "mapM (\<lambda>item. rbind (schema_get_type (local_schema d) (source_id item))
        (\<lambda>t. Inr (mk_field (scan_id item) t True))) items = Inr ys"
    "fs = (case off of None \<Rightarrow> ys | Some i \<Rightarrow> ys @ [mk_field i (Some INT_DTYPE) False])"
    by (auto simp: ReadLocalNode_fields_def rbind_eq_Inr_iff)
  have "map field_id ys = map scan_id items"
    by (rule mapM_Inr_map [OF ys(1)]) (auto simp: rbind_eq_Inr_iff)
  with ys(2) show "map field_id fs = map scan_id items @ (case off of None \<Rightarrow> [] | Some i \<Rightarrow> [i])"
    by (simp split: option.split)
next
  assume "ReadTableNode_fields src items = Inr fs"
  then show "map field_id fs = map scan_id items"
    unfolding ReadTableNode_fields_def by (rule mapM_Inr_map) (auto simp: rbind_eq_Inr_iff)
qed

lemma fields_out_ids: "node_fields n = Inr fs \<Longrightarrow> map field_id fs = out_ids n"
proof (induction n arbitrary: fs)
  case (ConcatNode cs out)
  show ?case
  proof (cases cs)
    case (Cons c cs')
    then obtain x where x: "node_fields c = Inr x"
      "fs = map (\<lambda>(i, f). mk_field i (field_dtype f) True) (zip out x)"
      using ConcatNode.prems by (auto simp: rbind_eq_Inr_iff)
    then have "length x = length (out_ids c)"
      using ConcatNode.IH [of c x] Cons by (metis length_map list.set_intros(1))
    with x Cons show ?thesis by (simp add: case_prod_unfold comp_def map_fst_zip_take)
  qed (use ConcatNode.prems in simp)
next
  case (JoinNode l r conds ty po)
  then show ?case by (fastforce simp: rbind_eq_Inr_iff comp_def)
next
  case (FromRangeNode s0 e0 st i)
  then show ?case by (cases "node_fields s0") (auto split: list.splits)
next
  case (ExplodeNode c cols off)
  from ExplodeNode.prems obtain cf where "node_fields c = Inr cf"
    by (auto simp: ExplodeNode_fields_def rbind_eq_Inr_iff)
  with ExplodeNode explode_field_ids [of cf cols off fs] show ?case by simp
qed (auto simp: rbind_eq_Inr_iff InNode_added_fields_def PromoteOffsetsNode_added_fields_def
    leaf_field_ids selection_field_ids projection_field_ids aggregate_field_ids window_field_ids
    result_field_ids split: list.splits)

lemma ids_out_ids: "ids n = Inr is \<Longrightarrow> is = out_ids n"
  by (auto simp: ids_def rbind_eq_Inr_iff fields_out_ids)


subsection \<open>Well-scoped plans\<close>

primrec scoped :: "bfnode \<Rightarrow> bool" where
  "scoped (SliceNode c a b s) = scoped c"
| "scoped (InNode l r x i) = (scoped l \<and> scoped r \<and> ref_id x \<in> set (out_ids l) \<and> i \<notin> set (out_ids l))"
| "scoped (JoinNode l r conds ty po) = (scoped l \<and> scoped r \<and> set (out_ids l) \<inter> set (out_ids r) = {} \<and>
     list_all (\<lambda>(a, b). ref_id a \<in> set (out_ids l) \<and> ref_id b \<in> set (out_ids r)) conds)"
| "scoped (ConcatNode cs out) = (list_all (\<lambda>b. b) (map scoped cs) \<and> cs \<noteq> [] \<and> distinct out \<and>
     list_all (\<lambda>n. n = length out) (map (\<lambda>is. length is) (map out_ids cs)))"
| "scoped (FromRangeNode s0 e0 st i) = (scoped s0 \<and> scoped e0)"
| "scoped (ReadLocalNode d items sess off) =
     (distinct (map scan_id items) \<and> (\<forall>i \<in> set_option off. i \<notin> set (map scan_id items)))"
| "scoped (ReadTableNode src items sess) = distinct (map scan_id items)"
| "scoped (CachedTableNode src items sess orig) = distinct (map scan_id items)"
| "scoped (PromoteOffsetsNode c i) = (scoped c \<and> i \<notin> set (out_ids c))"
| "scoped (FilterNode c p) = (scoped c \<and> set (column_references p) \<subseteq> set (out_ids c))"
| "scoped (OrderByNode c by tot) = (scoped c \<and> parts_refs by \<subseteq> set (out_ids c))"
| "scoped (ReversedNode c rv) = scoped c"
| "scoped (SelectionNode c pairs) = (scoped c \<and> distinct (map snd pairs) \<and>
     list_all (\<lambda>(d, _). ref_id d \<in> set (out_ids c)) pairs)"
| "scoped (ProjectionNode c asg) = (scoped c \<and> distinct (map snd asg) \<and>
     list_all (\<lambda>(e, j). set (column_references e) \<subseteq> set (out_ids c) \<and> j \<notin> set (out_ids c)) asg)"
| "scoped (AggregateNode c aggs ks os dn) = (scoped c \<and> distinct (map ref_id ks @ map snd aggs) \<and>
     set (map ref_id ks) \<subseteq> set (out_ids c) \<and> parts_refs os \<subseteq> set (out_ids c) \<and>
     list_all (\<lambda>(e, _). set (column_references e) \<subseteq> set (out_ids c)) aggs)"
| "scoped (WindowOpNode c ds w) = (scoped c \<and> distinct (map cdef_id ds) \<and>
     all_referenced_columns w \<subseteq> set (out_ids c) \<and>
     list_all (\<lambda>d. set (column_references (cdef_expression d)) \<subseteq> set (out_ids c) \<and>
                   cdef_id d \<notin> set (out_ids c)) ds)"
| "scoped (RandomSampleNode c fr) = scoped c"
| "scoped (ExplodeNode c cols off) = (scoped c \<and> set (map ref_id cols) \<subseteq> set (out_ids c) \<and>
     (\<forall>i \<in> set_option off. i \<notin> set (out_ids c)))"
| "scoped (ResultNode c outs ord k) = (scoped c \<and> distinct (map snd outs) \<and>
     list_all (\<lambda>(d, _). ref_id d \<in> set (out_ids c)) outs \<and>
     (\<forall>x \<in> set_option ord. parts_refs (ordering_value_columns x) \<subseteq> set (out_ids c)))"
| "scoped (CteNode c) = scoped c"

lemma scoped_children: "scoped n \<Longrightarrow> c \<in> set (child_nodes n) \<Longrightarrow> scoped c"
  by (cases n) (auto simp: list_all_iff)

lemma scoped_distinct: "scoped n \<Longrightarrow> distinct (out_ids n)"
proof (induction n)
  case (ConcatNode cs out)
  then show ?case by (cases cs) (auto simp: map_fst_zip_take)
next
  case (ResultNode c outs ord k)
  have "distinct (map ColumnId (map snd outs))"
    using ResultNode.prems by (subst distinct_map) (auto simp: inj_on_def)
  then show ?case by (simp add: comp_def case_prod_unfold)
qed (auto simp: list_all_iff split: option.split)


subsection \<open>Equivalence is a congruence\<close>

lemma same_output_iff:
  "same_output E n m \<longleftrightarrow> out_ids n = out_ids m \<and> rows_agree (set (out_ids m)) (rows E n) (rows E m)"
proof
  assume same: "same_output E n m"
  then have ids: "out_ids n = out_ids m"
    and tab: "map (\<lambda>r. map r (out_ids m)) (rows E n) = map (\<lambda>r. map r (out_ids m)) (rows E m)"
    by (auto simp: same_output_def table_def)
  have len: "length (rows E n) = length (rows E m)"
    using tab map_eq_imp_length_eq by blast
  have "map (rows E n ! k) (out_ids m) = map (rows E m ! k) (out_ids m)" if "k < length (rows E n)" for k
    using that len tab by (metis (no_types, lifting) nth_map)
  then have "rows_agree (set (out_ids m)) (rows E n) (rows E m)"
    by (intro rows_agreeI len) (auto simp: agree_def)
  with ids show "out_ids n = out_ids m \<and> rows_agree (set (out_ids m)) (rows E n) (rows E m)" by simp
qed (simp add: same_output_agree)

lemma same_output_refl [simp]: "same_output E n n"
  by (simp add: same_output_def)

lemma same_output_trans: "same_output E n m \<Longrightarrow> same_output E m k \<Longrightarrow> same_output E n k"
  by (simp add: same_output_def)

lemma same_output_sym: "same_output E n m \<Longrightarrow> same_output E m n"
  by (simp add: same_output_def)

lemma scoped_transform:
  assumes "scoped n" "\<And>c. c \<in> set (child_nodes n) \<Longrightarrow> scoped (t c) \<and> out_ids (t c) = out_ids c"
  shows "scoped (transform_children t n) \<and> out_ids (transform_children t n) = out_ids n"
  using assms
proof (cases n)
  case (ConcatNode cs out)
  then have "map out_ids (map t cs) = map out_ids cs" using assms by auto
  moreover have "list_all (\<lambda>b. b) (map scoped (map t cs))" using ConcatNode assms by (auto simp: list_all_iff)
  ultimately show ?thesis using ConcatNode assms(1) by (simp del: map_map)
qed auto

lemma concat_agree:
  assumes "rows_agree (set is) rs rs'"
  shows "map (concat_row out is) rs = map (concat_row out is) rs'"
proof -
  have "rows_agree UNIV (map (concat_row out is) rs) (map (concat_row out is) rs')"
  proof (rule rows_agree_map [OF assms])
    fix r r' assume "agree (set is) r r'"
    then have "map r is = map r' is" by (auto simp: agree_def)
    then show "agree UNIV (concat_row out is r) (concat_row out is r')"
      by (simp add: agree_def concat_row_def del: map_eq_conv)
  qed
  then show ?thesis by (rule rows_agree_UNIV)
qed

lemma first_cell_agree: "rows_agree (set is) rs rs' \<Longrightarrow> first_cell is rs = first_cell is rs'"
  by (cases rs; cases rs') (auto simp: first_cell_def rows_agree_def agree_def split: list.split)

lemma result_agree:
  assumes "rows_agree S rs rs'" "\<And>d j. (d, j) \<in> set outs \<Longrightarrow> ref_id d \<in> S"
    and "\<And>x. ord = Some x \<Longrightarrow> parts_refs (ordering_value_columns x) \<subseteq> S"
  shows "result_rows E outs ord k rs = result_rows E outs ord k rs'"
proof -
  define sorted where "sorted rs = (case ord of None \<Rightarrow> rs
    | Some o' \<Rightarrow> sort_rows E (ordering_value_columns o') rs)" for rs
  have "rows_agree S (sorted rs) (sorted rs')"
    using assms(1,3) by (auto simp: sorted_def intro: sort_agree split: option.split)
  then have "rows_agree S (take n (sorted rs)) (take n (sorted rs'))" for n
    by (simp add: rows_agree_def list_all2_takeI)
  then have "rows_agree S (case k of None \<Rightarrow> sorted rs | Some n \<Rightarrow> take (nat n) (sorted rs))
      (case k of None \<Rightarrow> sorted rs' | Some n \<Rightarrow> take (nat n) (sorted rs'))"
    using \<open>rows_agree S (sorted rs) (sorted rs')\<close> by (simp split: option.split)
  then have "map (select_row (map (\<lambda>(d, nm). (d, ColumnId nm)) outs))
        (case k of None \<Rightarrow> sorted rs | Some n \<Rightarrow> take (nat n) (sorted rs)) =
      map (select_row (map (\<lambda>(d, nm). (d, ColumnId nm)) outs))
        (case k of None \<Rightarrow> sorted rs' | Some n \<Rightarrow> take (nat n) (sorted rs'))"
    by (rule select_agree) (use assms(2) in auto)
  then show ?thesis by (simp add: result_rows_def Let_def flip: sorted_def)
qed

lemma transform_children_same_output:
  assumes "scoped n" "\<And>c. c \<in> set (child_nodes n) \<Longrightarrow> same_output E (t c) c"
  shows "same_output E (transform_children t n) n"
proof -
  have kids: "out_ids (t c) = out_ids c" "rows_agree (set (out_ids c)) (rows E (t c)) (rows E c)"
    if "c \<in> set (child_nodes n)" for c
    using assms(2) [OF that] by (simp_all add: same_output_iff)
  show ?thesis
  proof (cases n)
    case (SliceNode c a b s)
    with kids show ?thesis by (simp add: same_output_iff slice_agree)
  next
    case (InNode l r x i)
    then have "rows_agree (set (out_ids r)) (rows E (t r)) (rows E r)" using kids by simp
    then have "list_ex (\<lambda>r'. case out_ids r of [] \<Rightarrow> False | j # _ \<Rightarrow> equal_keys E v (r' j)) (rows E (t r)) =
        list_ex (\<lambda>r'. case out_ids r of [] \<Rightarrow> False | j # _ \<Rightarrow> equal_keys E v (r' j)) (rows E r)" for v
      unfolding rows_agree_def
      by (rule list_ex_rel) (auto simp: agree_def split: list.split)
    then have "isin_rows E x i (out_ids r) (rows E (t l)) (rows E (t r)) =
        isin_rows E x i (out_ids r) (rows E (t l)) (rows E r)"
      by (simp add: isin_rows_def)
    with InNode kids assms(1) show ?thesis by (simp add: same_output_iff isin_agree)
  next
    case (JoinNode l r conds ty po)
    have "rows_agree (set (out_ids l) \<union> set (out_ids r))
        (ordered_join (pair_row (out_ids l)) (joins E conds) ty (rows E (t l)) (rows E (t r)))
        (ordered_join (pair_row (out_ids l)) (joins E conds) ty (rows E l) (rows E r))"
      using JoinNode kids assms(1)
      by (intro join_agree [of "set (out_ids l)" _ _ "set (out_ids r)"]) (auto simp: list_all_iff)
    with JoinNode kids show ?thesis by (simp add: same_output_iff)
  next
    case (ConcatNode cs out)
    have "map (\<lambda>(is, rs). map (concat_row out is) rs) (zip (map out_ids (map t cs)) (map (rows E) (map t cs))) =
        map (\<lambda>(is, rs). map (concat_row out is) rs) (zip (map out_ids cs) (map (rows E) cs))"
      using kids ConcatNode concat_agree by (auto simp: zip_map_map zip_same_conv_map)
    moreover have "map out_ids (map t cs) = map out_ids cs" using kids ConcatNode by auto
    ultimately show ?thesis using ConcatNode by (simp add: same_output_iff del: map_map)
  next
    case (FromRangeNode s0 e0 st i)
    with kids have "first_cell (out_ids s0) (rows E (t s0)) = first_cell (out_ids s0) (rows E s0)"
      "first_cell (out_ids e0) (rows E (t e0)) = first_cell (out_ids e0) (rows E e0)"
      by (auto intro: first_cell_agree)
    with FromRangeNode kids show ?thesis by (simp add: same_output_iff)
  next
    case (PromoteOffsetsNode c i)
    with kids promote_agree [of "set (out_ids c)" "rows E (t c)" "rows E c" i] show ?thesis
      by (simp add: same_output_iff)
  next
    case (FilterNode c p)
    with kids assms(1) show ?thesis by (simp add: same_output_iff filter_agree)
  next
    case (OrderByNode c ps tot)
    with kids assms(1) show ?thesis by (simp add: same_output_iff sort_agree)
  next
    case (ReversedNode c rv)
    with kids show ?thesis by (simp add: same_output_iff rev_agree)
  next
    case (SelectionNode c pairs)
    with kids assms(1) have "map (select_row pairs) (rows E (t c)) = map (select_row pairs) (rows E c)"
      by (intro select_agree [of "set (out_ids c)"]) (auto simp: list_all_iff)
    with SelectionNode show ?thesis by (simp add: same_output_iff)
  next
    case (ProjectionNode c asg)
    with kids assms(1) have "rows_agree (set (out_ids c) \<union> snd ` set asg)
        (map (project_row E asg) (rows E (t c))) (map (project_row E asg) (rows E c))"
      by (intro project_agree) (auto simp: list_all_iff)
    with ProjectionNode kids show ?thesis by (simp add: same_output_iff)
  next
    case (AggregateNode c aggs ks os dn)
    with kids assms(1) have "aggregate_rows E aggs (map ref_id ks) os dn (rows E (t c)) =
        aggregate_rows E aggs (map ref_id ks) os dn (rows E c)"
      by (intro aggregate_agree [of "set (out_ids c)"]) (auto simp: list_all_iff)
    with AggregateNode show ?thesis by (simp add: same_output_iff)
  next
    case (WindowOpNode c ds w)
    with kids assms(1) have "rows_agree (set (out_ids c) \<union> cdef_id ` set ds)
        (window_rows E w ds (rows E (t c))) (window_rows E w ds (rows E c))"
      by (intro window_agree) (auto simp: list_all_iff)
    with WindowOpNode kids show ?thesis by (simp add: same_output_iff)
  next
    case (RandomSampleNode c fr)
    with kids show ?thesis by (simp add: same_output_iff sample_agree)
  next
    case (ExplodeNode c cols off)
    with kids assms(1) have "rows_agree (set (out_ids c) \<union> set_option off)
        (concat (map (explode_row (map ref_id cols) off) (rows E (t c))))
        (concat (map (explode_row (map ref_id cols) off) (rows E c)))"
      by (intro explode_agree) auto
    with ExplodeNode kids show ?thesis by (cases off) (simp_all add: same_output_iff)
  next
    case (ResultNode c outs ord k)
    with kids assms(1) have "result_rows E outs ord k (rows E (t c)) = result_rows E outs ord k (rows E c)"
      by (intro result_agree [of "set (out_ids c)"]) (auto simp: list_all_iff)
    with ResultNode show ?thesis by (simp add: same_output_iff)
  next
    case (CteNode c)
    with kids show ?thesis by (simp add: same_output_iff)
  qed (simp_all add: same_output_iff)
qed

lemma select_row_dict: "distinct (map snd pairs) \<Longrightarrow> (d, j) \<in> set pairs \<Longrightarrow> select_row pairs r j = r (ref_id d)"
proof -
  assume "distinct (map snd pairs)" "(d, j) \<in> set pairs"
  then have "dict_of (map (\<lambda>(d, j). (j, d)) pairs) j = Some d"
    by (intro dict_of_distinct) (auto simp: comp_def case_prod_unfold intro: rev_image_eqI)
  then show ?thesis by (simp add: select_row_def)
qed


lemma select_identity:
  "select_row (map AliasedRef_identity is) r i = (if i \<in> set is then r i else NULL)"
proof -
  have "map (\<lambda>(d, j). (j, d)) (map AliasedRef_identity is) = map (\<lambda>i. (i, DerefOp i)) is"
    by (simp add: AliasedRef_identity_def)
  then show ?thesis
    by (simp add: select_row_def dict_of_map_identity del: map_map)
qed

lemma select_identity_rows: "rows_agree (set is) (map (select_row (map AliasedRef_identity is)) rs) rs"
  by (intro rows_agreeI) (simp_all add: agree_def select_identity)

end
