(* ===== verification/Traversals.thy ===== *)
theory Traversals
  imports Plan_Equivalence
begin

text \<open>
  The plan algorithms of \<^verbatim>\<open>core/bigframe_node.py\<close>: the walk over unique nodes, the topological
  order (Kahn's algorithm with its dictionaries of parents and out-degrees), and the
  bottom-up, top-down and reducing traversals with their tables of results. A transformation
  may raise, and threads a state, which is the counter of generated identifiers for the
  rewrites that make new columns.
\<close>

subsection \<open>Unique nodes\<close>

function node_count :: "bfnode \<Rightarrow> nat" where
  "node_count n = Suc (sum_list (map node_count (child_nodes n)))"
  by pat_completeness auto
termination by (relation "measure size") (auto simp: size_child_nodes)

declare node_count.simps [simp del]

text \<open>The stack grows at its right end in the code, at the head here.\<close>

function unique_loop :: "bfnode list \<Rightarrow> bfnode set \<Rightarrow> bfnode list" where
  "unique_loop [] seen = []"
| "unique_loop (item # stack) seen =
     (if item \<notin> seen
      then item # unique_loop (rev (child_nodes item) @ stack) (insert item seen)
      else unique_loop stack seen)"
  by pat_completeness auto
termination
  by (relation "measure (\<lambda>(stack, _). sum_list (map node_count stack))")
    (auto simp: rev_map [symmetric] sum_list_rev node_count.simps)

definition unique_nodes :: "bfnode \<Rightarrow> bfnode list" where
  "unique_nodes n = unique_loop [n] {}"

text \<open>The nodes of a plan, for reference.\<close>

inductive_set subnodes :: "bfnode \<Rightarrow> bfnode set" for r0 where
  root: "r0 \<in> subnodes r0"
| child: "n \<in> subnodes r0 \<Longrightarrow> c \<in> set (child_nodes n) \<Longrightarrow> c \<in> subnodes r0"

lemma unique_loop_distinct: "distinct (unique_loop stack seen) \<and> set (unique_loop stack seen) \<inter> seen = {}"
  by (induction stack seen rule: unique_loop.induct) auto

lemma unique_loop_sound:
  "set stack \<subseteq> subnodes r0 \<Longrightarrow> set (unique_loop stack seen) \<subseteq> subnodes r0"
  by (induction stack seen rule: unique_loop.induct) (auto intro: subnodes.child split: if_splits)

lemma unique_loop_complete:
  assumes "\<And>x c. x \<in> seen \<Longrightarrow> c \<in> set (child_nodes x) \<Longrightarrow> c \<in> seen \<union> set stack"
  shows "set stack \<subseteq> seen \<union> set (unique_loop stack seen) \<and>
    (\<forall>x \<in> seen \<union> set (unique_loop stack seen). set (child_nodes x) \<subseteq> seen \<union> set (unique_loop stack seen))"
  using assms
proof (induction stack seen rule: unique_loop.induct)
  case (1 seen)
  then show ?case by fastforce
next
  case (2 item stack seen)
  show ?case
  proof (cases "item \<in> seen")
    case True
    then show ?thesis using 2(2) [OF _] 2(3) by auto
  next
    case False
    have "c \<in> insert item seen \<union> set (rev (child_nodes item) @ stack)"
      if "x \<in> insert item seen" "c \<in> set (child_nodes x)" for x c
      using that 2(3) [of x c] by auto
    from 2(1) [OF False this] show ?thesis
      using False by auto
  qed
qed

lemma unique_nodes_set: "set (unique_nodes n) = subnodes n"
proof
  show "set (unique_nodes n) \<subseteq> subnodes n"
    unfolding unique_nodes_def by (rule unique_loop_sound) (simp add: subnodes.root)
  have *: "n \<in> set (unique_nodes n)" "\<And>x. x \<in> set (unique_nodes n) \<Longrightarrow> set (child_nodes x) \<subseteq> set (unique_nodes n)"
    using unique_loop_complete [of "{}" "[n]"] by (auto simp: unique_nodes_def)
  show "subnodes n \<subseteq> set (unique_nodes n)"
  proof
    fix x assume "x \<in> subnodes n"
    then show "x \<in> set (unique_nodes n)" by induction (use * in auto)
  qed
qed

lemma distinct_unique_nodes: "distinct (unique_nodes n)"
  using unique_loop_distinct [of "[n]" "{}"] by (simp add: unique_nodes_def del: unique_loop.simps)

subsection \<open>Topological order\<close>

definition child_to_parents :: "bfnode list \<Rightarrow> bfnode \<Rightarrow> bfnode list" where
  "child_to_parents nodes c =
     concat (map (\<lambda>node. map (\<lambda>_. node) (filter (\<lambda>x. x = c) (child_nodes node))) nodes)"

definition initial_degrees :: "bfnode \<Rightarrow> int" where
  "initial_degrees node = int (length (child_nodes node))"

text \<open>One parent of a finished node: its degree falls, at zero it joins the queue.\<close>

fun release :: "bfnode \<Rightarrow> bfnode list \<times> (bfnode \<Rightarrow> int) \<Rightarrow> bfnode list \<times> (bfnode \<Rightarrow> int)" where
  "release p (queue, degree) =
     (let degree' = degree(p := degree p - 1)
      in (if degree' p = 0 then queue @ [p] else queue, degree'))"

partial_function (option) topo_loop :: "(bfnode \<Rightarrow> bfnode list) \<Rightarrow> bfnode list \<Rightarrow> (bfnode \<Rightarrow> int)
    \<Rightarrow> bfnode list option" where
  "topo_loop parents queue degree =
     (case queue of [] \<Rightarrow> Some []
      | item # rest \<Rightarrow>
          (case fold release (parents item) (rest, degree) of
             (queue', degree') \<Rightarrow>
               Option.bind (topo_loop parents queue' degree') (\<lambda>out. Some (item # out))))"

definition iter_nodes_topo :: "bfnode \<Rightarrow> bfnode list option" where
  "iter_nodes_topo r0 =
     (let nodes = unique_nodes r0
      in topo_loop (child_to_parents nodes) (filter (\<lambda>n. length (child_nodes n) = 0) nodes) initial_degrees)"

lemma count_list_pos: "0 < count_list xs x \<Longrightarrow> x \<in> set xs"
  by (metis count_notin less_numeral_extra(3))

lemma fold_release:
  assumes "\<And>n. int (count_list ps n) \<le> degree n"
  shows "\<exists>new degree'. fold release ps (queue, degree) = (queue @ new, degree') \<and>
    (\<forall>n. degree' n = degree n - int (count_list ps n)) \<and> distinct new \<and>
    set new = {n \<in> set ps. degree n = int (count_list ps n)}"
  using assms
proof (induction ps arbitrary: queue degree)
  case Nil
  then show ?case by simp
next
  case (Cons p ps)
  define d where "d = degree(p := degree p - 1)"
  have le: "int (count_list ps n) \<le> d n" for n
    using Cons.prems [of n] by (auto simp: d_def split: if_splits)
  define q where "q = (if d p = 0 then queue @ [p] else queue)"
  obtain new degree' where IH: "fold release ps (q, d) = (q @ new, degree')"
    "\<And>n. degree' n = d n - int (count_list ps n)" "distinct new"
    "set new = {n \<in> set ps. d n = int (count_list ps n)}"
    using Cons.IH [OF le, of q] by auto
  have step: "fold release (p # ps) (queue, degree) = (q @ new, degree')"
    using IH(1) by (simp add: d_def q_def Let_def)
  have deg: "degree' n = degree n - int (count_list (p # ps) n)" for n
    using IH(2) by (auto simp: d_def)
  show ?case
  proof (cases "d p = 0")
    case True
    then have zero: "count_list ps p = 0" using le [of p] by simp
    then have "p \<notin> set ps" by (simp add: count_list_0_iff)
    then show ?thesis
      using step deg IH(3,4) True zero
      by (intro exI [of _ "p # new"] exI [of _ degree']) (auto simp: q_def d_def)
  next
    case False
    then have "p \<in> set ps" if "degree p = int (count_list (p # ps) p)"
      using that False by (intro count_list_pos) (auto simp: d_def)
    then show ?thesis
      using step deg IH(3,4) False
      by (intro exI [of _ new] exI [of _ degree']) (auto simp: q_def d_def)
  qed
qed


lemma count_child_to_parents:
  assumes "distinct nodes" "n \<in> set nodes"
  shows "count_list (child_to_parents nodes c) n = length (filter (\<lambda>x. x = c) (child_nodes n))"
proof -
  have count: "count_list (map (\<lambda>_. m) xs) n = (if m = n then length xs else 0)" for m and xs :: "bfnode list"
    by (induction xs) auto
  have other: "count_list (child_to_parents ns c) n = 0" if "n \<notin> set ns" for ns
    using that by (auto simp: child_to_parents_def count_list_0_iff)
  from assms show ?thesis
  proof (induction nodes)
    case (Cons m ms)
    have "child_to_parents (m # ms) c =
        map (\<lambda>_. m) (filter (\<lambda>x. x = c) (child_nodes m)) @ child_to_parents ms c"
      by (simp add: child_to_parents_def)
    then show ?case
      using Cons other [of ms] by (auto simp: count count_list_append)
  qed simp
qed

lemma child_to_parents_other: "n \<notin> set nodes \<Longrightarrow> n \<notin> set (child_to_parents nodes c)"
  by (auto simp: child_to_parents_def)

text \<open>The number of children not yet yielded is the degree; at zero a node is queued or done.\<close>

definition topo_state :: "bfnode list \<Rightarrow> bfnode list \<Rightarrow> bfnode list \<Rightarrow> (bfnode \<Rightarrow> int) \<Rightarrow> bool" where
  "topo_state nodes finished queue degree \<longleftrightarrow>
     distinct (finished @ queue) \<and> set (finished @ queue) \<subseteq> set nodes \<and>
     (\<forall>n. degree n \<ge> 0) \<and>
     (\<forall>n \<in> set nodes. degree n = int (length (filter (\<lambda>c. c \<notin> set finished) (child_nodes n))) \<and>
        (n \<in> set (finished @ queue) \<longleftrightarrow> degree n = 0))"

lemma length_filter_split:
  "x \<notin> F \<Longrightarrow> length (filter (\<lambda>c. c \<notin> F) xs) =
     length (filter (\<lambda>c. c = x) xs) + length (filter (\<lambda>c. c \<notin> insert x F) xs)"
  by (induction xs) auto

lemma topo_step:
  assumes "distinct nodes" "topo_state nodes finished (item # rest) degree"
    and "fold release (child_to_parents nodes item) (rest, degree) = (queue', degree')"
  shows "topo_state nodes (finished @ [item]) queue' degree'"
proof -
  let ?ps = "child_to_parents nodes item"
  have st: "distinct (finished @ item # rest)" "set (finished @ item # rest) \<subseteq> set nodes"
    "\<And>n. degree n \<ge> 0"
    "\<And>n. n \<in> set nodes \<Longrightarrow> degree n = int (length (filter (\<lambda>c. c \<notin> set finished) (child_nodes n)))"
    "\<And>n. n \<in> set nodes \<Longrightarrow> n \<in> set (finished @ item # rest) \<longleftrightarrow> degree n = 0"
    using assms(2) by (auto simp: topo_state_def)
  have count: "int (count_list ?ps n) =
      degree n - int (length (filter (\<lambda>c. c \<notin> insert item (set finished)) (child_nodes n)))"
    if "n \<in> set nodes" for n
    using st(4) [OF that] count_child_to_parents [OF assms(1) that, of item]
      length_filter_split [of item "set finished" "child_nodes n"] st(1) by simp
  have "int (count_list ?ps n) \<le> degree n" for n
  proof (cases "n \<in> set nodes")
    case False
    then have "count_list ?ps n = 0" by (simp add: child_to_parents_other count_list_0_iff)
    with st(3) [of n] show ?thesis by simp
  qed (simp add: count)
  from fold_release [OF this, where queue = rest]
  obtain new where new: "queue' = rest @ new" "\<And>n. degree' n = degree n - int (count_list ?ps n)"
    "distinct new" "set new = {n \<in> set ?ps. degree n = int (count_list ?ps n)}"
    using assms(3) by force
  have new_nodes: "n \<in> set nodes" if "n \<in> set new" for n
    using that new(4) child_to_parents_other by blast
  have positive: "degree n > 0" if "n \<in> set new" for n
    using that new(4) by (auto simp: count_list_0_iff zero_less_iff_neq_zero)
  have fresh: "set new \<inter> set (finished @ item # rest) = {}"
    using positive st(5) new_nodes by fastforce
  have deg': "degree' n = int (length (filter (\<lambda>c. c \<notin> set (finished @ [item])) (child_nodes n)))"
    if "n \<in> set nodes" for n
    using new(2) [of n] count [OF that] by simp
  moreover have "degree' n \<ge> 0" for n
    using \<open>\<And>n. int (count_list ?ps n) \<le> degree n\<close> [of n] new(2) [of n] by simp
  moreover have "n \<in> set ((finished @ [item]) @ queue') \<longleftrightarrow> degree' n = 0" if n: "n \<in> set nodes" for n
  proof (cases "degree n = 0")
    case True
    then show ?thesis
      using st(5) [OF n] new(1,2) \<open>degree' n \<ge> 0\<close> by auto
  next
    case False
    then have "n \<notin> set (finished @ item # rest)" using st(5) [OF n] by simp
    moreover have "n \<in> set ?ps" if "degree n = int (count_list ?ps n)"
      using that False by (intro count_list_pos) auto
    ultimately show ?thesis
      using new(1,2,4) by auto
  qed
  moreover have "set ((finished @ [item]) @ queue') \<subseteq> set nodes"
    using st(2) new(1) new_nodes by auto
  moreover have "distinct ((finished @ [item]) @ queue')"
    using st(1) new(1,3) fresh by auto
  ultimately show ?thesis by (simp add: topo_state_def)
qed

lemma topo_done:
  assumes "topo_state nodes finished [] degree" "\<And>n. n \<in> set nodes \<Longrightarrow> set (child_nodes n) \<subseteq> set nodes"
  shows "set nodes = set finished"
proof -
  have "n \<in> set nodes \<Longrightarrow> n \<in> set finished" for n
  proof (induction "size n" arbitrary: n rule: less_induct)
    case less
    have "c \<in> set finished" if "c \<in> set (child_nodes n)" for c
      using less size_child_nodes [OF that] assms(2) that by blast
    then have "filter (\<lambda>c. c \<notin> set finished) (child_nodes n) = []" by (auto simp: filter_empty_conv)
    then show ?case using less.prems assms(1) by (auto simp: topo_state_def)
  qed
  then show ?thesis using assms(1) by (auto simp: topo_state_def)
qed

definition topological :: "bfnode list \<Rightarrow> bool" where
  "topological order \<longleftrightarrow> (\<forall>k < length order. set (child_nodes (order ! k)) \<subseteq> set (take k order))"

lemma topo_loop_result:
  assumes "distinct nodes" "\<And>n. n \<in> set nodes \<Longrightarrow> set (child_nodes n) \<subseteq> set nodes"
    and "topo_state nodes finished queue degree" "topological finished"
  shows "\<exists>out. topo_loop (child_to_parents nodes) queue degree = Some out \<and>
    distinct (finished @ out) \<and> set (finished @ out) = set nodes \<and> topological (finished @ out)"
  using assms(3,4)
proof (induction "card (set nodes - set finished)" arbitrary: finished queue degree rule: less_induct)
  case less
  show ?case
  proof (cases queue)
    case Nil
    then have "set nodes = set finished" using topo_done [OF _ assms(2)] less.prems(1) by blast
    then show ?thesis
      using Nil less.prems by (auto simp: topo_loop.simps topo_state_def)
  next
    case (Cons item rest)
    obtain queue' degree' where step: "fold release (child_to_parents nodes item) (rest, degree) = (queue', degree')"
      by fastforce
    have st: "topo_state nodes (finished @ [item]) queue' degree'"
      by (rule topo_step [OF assms(1) _ step]) (use less.prems(1) Cons in simp)
    have item: "item \<in> set nodes" "item \<notin> set finished" "degree item = 0"
      using less.prems(1) Cons by (auto simp: topo_state_def)
    then have "filter (\<lambda>c. c \<notin> set finished) (child_nodes item) = []"
      using less.prems(1) by (auto simp: topo_state_def)
    then have "set (child_nodes item) \<subseteq> set finished" by (auto simp: filter_empty_conv)
    then have "topological (finished @ [item])"
      using less.prems(2) by (auto simp: topological_def nth_append less_Suc_eq)
    moreover have "card (set nodes - set (finished @ [item])) < card (set nodes - set finished)"
      using item by (intro psubset_card_mono) auto
    ultimately obtain out where "topo_loop (child_to_parents nodes) queue' degree' = Some out"
      "distinct ((finished @ [item]) @ out)" "set ((finished @ [item]) @ out) = set nodes"
      "topological ((finished @ [item]) @ out)"
      using less.hyps [OF _ st] by blast
    then show ?thesis
      using Cons step by (intro exI [of _ "item # out"]) (simp add: topo_loop.simps)
  qed
qed

text \<open>
  The topological order always ends, yields every node of the plan once, children first.
\<close>

lemma iter_nodes_topo_result:
  "\<exists>order. iter_nodes_topo n = Some order \<and> distinct order \<and> set order = subnodes n \<and> topological order"
proof -
  let ?nodes = "unique_nodes n"
  have closed: "set (child_nodes m) \<subseteq> set ?nodes" if "m \<in> set ?nodes" for m
    using that by (auto simp: unique_nodes_set intro: subnodes.child)
  have "topo_state ?nodes [] (filter (\<lambda>n. length (child_nodes n) = 0) ?nodes) initial_degrees"
    by (auto simp: topo_state_def distinct_unique_nodes initial_degrees_def)
  from topo_loop_result [OF distinct_unique_nodes closed this]
  show ?thesis
    by (auto simp: iter_nodes_topo_def Let_def topological_def unique_nodes_set)
qed


subsection \<open>Transformations\<close>

type_synonym 's step = "bfnode \<Rightarrow> 's \<Rightarrow> (bfnode \<times> 's) result"

type_synonym results = "bfnode \<Rightarrow> bfnode option"

text \<open>\<^verbatim>\<open>node.transform_children(lambda x: results[x])\<close>.\<close>

definition with_results :: "results \<Rightarrow> bfnode \<Rightarrow> bfnode result" where
  "with_results R n = rbind (mapM (lookup_or KeyError R) (child_nodes n))
     (\<lambda>_. Inr (transform_children (\<lambda>c. get_or_self R c) n))"

fun bottom_up_loop :: "'s step \<Rightarrow> bfnode list \<Rightarrow> results \<Rightarrow> 's \<Rightarrow> (results \<times> 's) result" where
  "bottom_up_loop t [] R s = Inr (R, s)"
| "bottom_up_loop t (node # nodes) R s =
     rbind (with_results R node) (\<lambda>m.
       rbind (t m s) (\<lambda>(m', s'). bottom_up_loop t nodes (R(node \<mapsto> m')) s'))"

text \<open>\<open>None\<close> would be a traversal that does not end.\<close>

definition bottom_up :: "'s step \<Rightarrow> bfnode \<Rightarrow> 's \<Rightarrow> (bfnode \<times> 's) result option" where
  "bottom_up t r0 s = map_option (\<lambda>order.
     rbind (bottom_up_loop t order Map.empty s) (\<lambda>(R, s').
       rbind (lookup_or KeyError R r0) (\<lambda>m. Inr (m, s')))) (iter_nodes_topo r0)"

fun reduce_up_loop :: "(bfnode \<Rightarrow> 'a list \<Rightarrow> 'a result) \<Rightarrow> bfnode list \<Rightarrow> (bfnode \<Rightarrow> 'a option)
    \<Rightarrow> (bfnode \<Rightarrow> 'a option) result" where
  "reduce_up_loop f [] R = Inr R"
| "reduce_up_loop f (node # nodes) R =
     rbind (mapM (lookup_or KeyError R) (child_nodes node)) (\<lambda>child_results.
       rbind (f node child_results) (\<lambda>v. reduce_up_loop f nodes (R(node \<mapsto> v))))"

definition reduce_up :: "(bfnode \<Rightarrow> 'a list \<Rightarrow> 'a result) \<Rightarrow> bfnode \<Rightarrow> 'a result option" where
  "reduce_up f r0 = map_option (\<lambda>order.
     rbind (reduce_up_loop f order Map.empty) (\<lambda>R. lookup_or KeyError R r0)) (iter_nodes_topo r0)"

partial_function (option) top_down_loop :: "'s step \<Rightarrow> (bfnode \<times> bfnode option) list \<Rightarrow> results
    \<Rightarrow> 's \<Rightarrow> (results \<times> 's) result option" where
  "top_down_loop t stack R s =
     (case stack of [] \<Rightarrow> Some (Inr (R, s))
      | (node, t_node) # rest \<Rightarrow>
          (if t_node = None \<and> R node \<noteq> None then top_down_loop t rest R s
           else case (case t_node of None \<Rightarrow> t node s | Some m \<Rightarrow> Inr (m, s)) of
             Inl e \<Rightarrow> Some (Inl e)
           | Inr (m, s') \<Rightarrow>
               (case find (\<lambda>c. R c = None) (rev (child_nodes m)) of
                  Some c \<Rightarrow> top_down_loop t ((c, None) # (node, Some m) # rest) R s'
                | None \<Rightarrow> top_down_loop t rest (R(node \<mapsto> transform_children (get_or_self R) m)) s')))"

definition top_down :: "'s step \<Rightarrow> bfnode \<Rightarrow> 's \<Rightarrow> (bfnode \<times> 's) result option" where
  "top_down t r0 s = map_option (\<lambda>res. rbind res (\<lambda>(R, s').
       rbind (lookup_or KeyError R r0) (\<lambda>m. Inr (m, s'))))
     (top_down_loop t [(r0, None)] Map.empty s)"

text \<open>A transformation without a state.\<close>

definition pure_step :: "(bfnode \<Rightarrow> bfnode result) \<Rightarrow> unit step" where
  "pure_step t n s = rbind (t n) (\<lambda>m. Inr (m, s))"

lemma with_results_Inr:
  "with_results R n = Inr m \<longleftrightarrow>
     (\<forall>c \<in> set (child_nodes n). R c \<noteq> None) \<and> m = transform_children (get_or_self R) n"
proof -
  have "(\<exists>xs. mapM (lookup_or KeyError R) cs = Inr xs) \<longleftrightarrow> (\<forall>c \<in> set cs. R c \<noteq> None)" for cs
    by (induction cs) (auto simp: rbind_eq_Inr_iff)
  then show ?thesis by (auto simp: with_results_def rbind_eq_Inr_iff)
qed

subsection \<open>Bottom-up is structural recursion\<close>

function bottom_up_spec :: "(bfnode \<Rightarrow> bfnode result) \<Rightarrow> bfnode \<Rightarrow> bfnode result" where
  "bottom_up_spec t n =
     rbind (mapM (bottom_up_spec t) (child_nodes n)) (\<lambda>_.
       t (transform_children (\<lambda>c. case bottom_up_spec t c of Inr m \<Rightarrow> m | Inl _ \<Rightarrow> c) n))"
  by pat_completeness auto
termination by (relation "measure (\<lambda>(_, n). size n)") (auto simp: size_child_nodes)

declare bottom_up_spec.simps [simp del]

lemma bottom_up_spec_child:
  assumes "bottom_up_spec t n = Inr m" "c \<in> set (child_nodes n)"
  shows "\<exists>m'. bottom_up_spec t c = Inr m'"
proof -
  obtain ys where "mapM (bottom_up_spec t) (child_nodes n) = Inr ys"
    using assms(1) by (subst (asm) bottom_up_spec.simps) (auto simp: rbind_eq_Inr_iff)
  then have "map (bottom_up_spec t) (child_nodes n) = map Inr ys" by (simp add: mapM_Inr_iff)
  then have "bottom_up_spec t c \<in> Inr ` set ys"
    using assms(2) by (metis image_eqI list.set_map)
  then show ?thesis by auto
qed

lemma bottom_up_spec_subnode:
  assumes "bottom_up_spec t r0 = Inr m" "n \<in> subnodes r0"
  shows "\<exists>m'. bottom_up_spec t n = Inr m'"
  using assms(2) by induction (use assms(1) bottom_up_spec_child in blast)+

lemma bottom_up_spec_results:
  assumes "\<And>c. c \<in> set (child_nodes n) \<Longrightarrow> \<exists>m. R c = Some m \<and> bottom_up_spec t c = Inr m"
  shows "bottom_up_spec t n = t (transform_children (get_or_self R) n)"
proof -
  have "mapM (bottom_up_spec t) (child_nodes n) = Inr (map (get_or_self R) (child_nodes n))"
    by (rule mapM_InrI) (use assms in force)
  moreover have "transform_children (\<lambda>c. case bottom_up_spec t c of Inr m \<Rightarrow> m | Inl _ \<Rightarrow> c) n =
      transform_children (get_or_self R) n"
    by (rule transform_children_cong) (use assms in force)+
  ultimately show ?thesis by (subst bottom_up_spec.simps) simp
qed

lemma topological_next:
  assumes "topological (finished @ n # nodes)"
  shows "set (child_nodes n) \<subseteq> set finished"
proof -
  have "set (child_nodes ((finished @ n # nodes) ! length finished)) \<subseteq>
      set (take (length finished) (finished @ n # nodes))"
    using assms unfolding topological_def by (metis add_diff_cancel_left' length_append
        length_greater_0_conv less_add_same_cancel1 list.distinct(1))
  then show ?thesis by simp
qed

lemma bottom_up_loop_exact:
  assumes "topological (finished @ nodes)" "dom R = set finished"
    and "\<And>x m. R x = Some m \<Longrightarrow> bottom_up_spec t x = Inr m"
  shows "(\<forall>R' u. bottom_up_loop (pure_step t) nodes R () = Inr (R', u) \<longrightarrow>
       dom R' = set (finished @ nodes) \<and> (\<forall>x m. R' x = Some m \<longrightarrow> bottom_up_spec t x = Inr m)) \<and>
    ((\<forall>x \<in> set nodes. \<exists>m. bottom_up_spec t x = Inr m) \<longrightarrow>
       (\<exists>R'. bottom_up_loop (pure_step t) nodes R () = Inr (R', ())))"
  using assms
proof (induction nodes arbitrary: finished R)
  case Nil
  then show ?case by auto
next
  case (Cons n nodes)
  have kids: "set (child_nodes n) \<subseteq> set finished" by (rule topological_next [OF Cons.prems(1)])
  then have known: "\<exists>m. R c = Some m \<and> bottom_up_spec t c = Inr m" if "c \<in> set (child_nodes n)" for c
    using that Cons.prems(2,3) by blast
  let ?m = "transform_children (get_or_self R) n"
  have wr: "with_results R n = Inr ?m" using known by (auto simp: with_results_Inr)
  have spec: "bottom_up_spec t n = t ?m" by (rule bottom_up_spec_results) (rule known)
  show ?case
  proof (cases "t ?m")
    case (Inl e)
    then show ?thesis using wr spec by (simp add: pure_step_def)
  next
    case (Inr m')
    have "topological ((finished @ [n]) @ nodes)" "dom (R(n \<mapsto> m')) = set (finished @ [n])"
      "\<And>x m. (R(n \<mapsto> m')) x = Some m \<Longrightarrow> bottom_up_spec t x = Inr m"
      using Cons.prems spec Inr by (auto split: if_splits)
    from Cons.IH [OF this] show ?thesis
      using wr Inr spec by (simp add: pure_step_def fun_upd_def)
  qed
qed

lemma bottom_up_exact:
  "\<exists>res. bottom_up (pure_step t) r0 () = Some res \<and> (\<forall>m. res = Inr (m, ()) \<longleftrightarrow> bottom_up_spec t r0 = Inr m)"
proof -
  obtain order where order: "iter_nodes_topo r0 = Some order" "set order = subnodes r0" "topological order"
    using iter_nodes_topo_result by blast
  let ?run = "bottom_up_loop (pure_step t) order Map.empty ()"
  have sound: "dom R' = subnodes r0 \<and> (\<forall>x m. R' x = Some m \<longrightarrow> bottom_up_spec t x = Inr m)"
    if "?run = Inr (R', ())" for R'
    using bottom_up_loop_exact [of "[]" order Map.empty t] order(2,3) that by simp
  have complete: "\<exists>R'. ?run = Inr (R', ())" if "\<forall>x \<in> subnodes r0. \<exists>m. bottom_up_spec t x = Inr m"
    using bottom_up_loop_exact [of "[]" order Map.empty t] order(2,3) that by simp
  have "(\<exists>R'. ?run = Inr (R', ()) \<and> R' r0 = Some m) \<longleftrightarrow> bottom_up_spec t r0 = Inr m" for m
  proof
    assume spec: "bottom_up_spec t r0 = Inr m"
    have "\<forall>x \<in> subnodes r0. \<exists>m. bottom_up_spec t x = Inr m"
      using bottom_up_spec_subnode [OF spec] by blast
    then obtain R' where R': "?run = Inr (R', ())" using complete by blast
    note R'_spec = sound [OF R', THEN conjunct1] sound [OF R', THEN conjunct2, rule_format]
    then obtain m' where m': "R' r0 = Some m'"
      using subnodes.root [of r0] by blast
    then have "m' = m" using R'_spec(2) [OF m'] spec by simp
    with R' m' show "\<exists>R'. ?run = Inr (R', ()) \<and> R' r0 = Some m" by blast
  next
    assume "\<exists>R'. ?run = Inr (R', ()) \<and> R' r0 = Some m"
    then show "bottom_up_spec t r0 = Inr m" using sound by blast
  qed
  moreover have "bottom_up (pure_step t) r0 () = Some (rbind (bottom_up_loop (pure_step t) order Map.empty ())
      (\<lambda>(R, s'). rbind (lookup_or KeyError R r0) (\<lambda>m. Inr (m, s'))))"
    using order(1) by (simp add: bottom_up_def)
  ultimately show ?thesis
    by (simp add: rbind_eq_Inr_iff)
qed

subsection \<open>Top-down returns\<close>

text \<open>
  A node on the stack is finished: either the step raises, or the loop goes on with the rest of
  the stack and a result for the node.
\<close>

definition finishes :: "'s step \<Rightarrow> bfnode \<times> bfnode option \<Rightarrow> results \<Rightarrow> 's \<Rightarrow> bool" where
  "finishes t entry R s \<longleftrightarrow> (\<forall>rest. (\<exists>e. top_down_loop t (entry # rest) R s = Some (Inl e)) \<or>
     (\<exists>R' s'. top_down_loop t (entry # rest) R s = top_down_loop t rest R' s' \<and>
        R' (fst entry) \<noteq> None \<and> dom R \<subseteq> dom R'))"

lemma top_down_loop_done:
  "find (\<lambda>c. R c = None) (rev (child_nodes m)) = None \<Longrightarrow>
     top_down_loop t ((n, Some m) # rest) R s = top_down_loop t rest (R(n \<mapsto> transform_children (get_or_self R) m)) s"
  "R n \<noteq> None \<Longrightarrow> top_down_loop t ((n, None) # rest) R s = top_down_loop t rest R s"
  by (simp_all add: top_down_loop.simps [of _ "_ # _"])

lemma top_down_loop_stop: "top_down_loop t [] R s = Some (Inr (R, s))"
  by (simp add: top_down_loop.simps)

lemma finishes_transformed:
  assumes "\<And>c R s. c \<in> set (child_nodes m) \<Longrightarrow> finishes t (c, None) R s"
  shows "finishes t (n, Some m) R s"
proof (induction "card {c \<in> set (child_nodes m). R c = None}" arbitrary: R s rule: less_induct)
  case (less R s)
  show ?case
    unfolding finishes_def
  proof
    fix rest
    show "(\<exists>e. top_down_loop t ((n, Some m) # rest) R s = Some (Inl e)) \<or>
      (\<exists>R' s'. top_down_loop t ((n, Some m) # rest) R s = top_down_loop t rest R' s' \<and>
         R' (fst (n, Some m)) \<noteq> None \<and> dom R \<subseteq> dom R')"
    proof (cases "find (\<lambda>c. R c = None) (rev (child_nodes m))")
      case None
      from top_down_loop_done(1) [OF this] show ?thesis
        by (intro disjI2 exI [of _ "R(n \<mapsto> transform_children (get_or_self R) m)"] exI [of _ s]) auto
    next
      case (Some c)
      then have c: "c \<in> set (child_nodes m)" "R c = None"
        by (auto simp: find_Some_iff) (metis length_rev nth_mem set_rev)
      have loop: "top_down_loop t ((n, Some m) # rest) R s = top_down_loop t ((c, None) # (n, Some m) # rest) R s"
        using Some by (subst top_down_loop.simps) simp
      consider (err) e where "top_down_loop t ((c, None) # (n, Some m) # rest) R s = Some (Inl e)"
        | (ok) R' s' where "top_down_loop t ((c, None) # (n, Some m) # rest) R s = top_down_loop t ((n, Some m) # rest) R' s'"
          "R' c \<noteq> None" "dom R \<subseteq> dom R'"
        using assms [OF c(1), of R s] unfolding finishes_def fst_conv by blast
      then show ?thesis
      proof cases
        case ok
        have "{x \<in> set (child_nodes m). R' x = None} \<subset> {x \<in> set (child_nodes m). R x = None}"
          using ok(2,3) c by (force simp: dom_def)
        then have "card {x \<in> set (child_nodes m). R' x = None} < card {x \<in> set (child_nodes m). R x = None}"
          by (intro psubset_card_mono) simp_all
        from less [OF this, of s'] ok loop show ?thesis
          unfolding finishes_def by (metis order_trans)
      qed (use loop in simp)
    qed
  qed
qed

lemma finishes_all:
  assumes "wf rel" "ok n"
    and step: "\<And>n s m s' c. ok n \<Longrightarrow> t n s = Inr (m, s') \<Longrightarrow> c \<in> set (child_nodes m) \<Longrightarrow> (c, n) \<in> rel \<and> ok c"
  shows "finishes t (n, None) R s"
  using assms(1,2)
proof (induction n arbitrary: R s rule: wf_induct_rule)
  case (less n R s)
  show ?case
  proof (cases "R n = None")
    case False
    with top_down_loop_done(2) [of R n t _ s, OF False] show ?thesis
      unfolding finishes_def by (intro allI disjI2 exI [of _ R] exI [of _ s]) auto
  next
    case True
    show ?thesis
    proof (cases "t n s")
      case (Inl e)
      then show ?thesis
        unfolding finishes_def using True by (subst (1) top_down_loop.simps) simp
    next
      case (Inr res)
      obtain m s' where res: "res = (m, s')" by (cases res)
      have kids: "finishes t (c, None) R s" if "c \<in> set (child_nodes m)" for c R s
        using less.IH step [OF less.prems] Inr res that by blast
      have loop: "top_down_loop t ((n, None) # rest) R s = top_down_loop t ((n, Some m) # rest) R s'" for rest
        using True Inr res by (subst (1 2) top_down_loop.simps) simp
      have "finishes t (n, Some m) R s'" by (rule finishes_transformed) (rule kids)
      then show ?thesis by (simp add: finishes_def loop)
    qed
  qed
qed

text \<open>
  If the children of what a step returns are below the node in a well-founded order, the
  traversal returns.
\<close>

lemma top_down_returns:
  assumes "wf rel" "ok r0"
    and "\<And>n s m s' c. ok n \<Longrightarrow> t n s = Inr (m, s') \<Longrightarrow> c \<in> set (child_nodes m) \<Longrightarrow> (c, n) \<in> rel \<and> ok c"
  shows "\<exists>res. top_down t r0 s = Some res"
proof -
  have "\<exists>res. top_down_loop t [(r0, None)] Map.empty s = Some res"
    using finishes_all [of rel ok r0 t Map.empty s, OF assms(1,2)] assms(3)
    unfolding finishes_def by (metis top_down_loop_stop)
  then show ?thesis by (auto simp: top_down_def)
qed

end
