(* ===== verification/Rewrite_Framework.thy ===== *)
theory Rewrite_Framework
  imports Traversals
begin

text \<open>
  What a rewrite of one node promises, and what the traversals make of it: a locale whose
  parameters are the rewrite step and the states of its identifier generator, whose law is
  that a step keeps the validity and the table of a node, and whose lemmas lift the law to the
  bottom-up and top-down rewrites of whole plans. Every rewrite rule of the development
  interprets it.
\<close>

text \<open>A condition on every node of a plan.\<close>

definition everywhere :: "(bfnode \<Rightarrow> bool) \<Rightarrow> bfnode \<Rightarrow> bool" where
  "everywhere P n \<longleftrightarrow> list_all P (unique_nodes n)"

lemma subnodes_trans: "m \<in> subnodes c \<Longrightarrow> c \<in> subnodes n \<Longrightarrow> m \<in> subnodes n"
  by (induction rule: subnodes.induct) (auto intro: subnodes.child)

lemma subnodes_unfold: "subnodes n = insert n (\<Union>c \<in> set (child_nodes n). subnodes c)"
proof
  show "subnodes n \<subseteq> insert n (\<Union>c \<in> set (child_nodes n). subnodes c)"
  proof
    fix x assume "x \<in> subnodes n"
    then show "x \<in> insert n (\<Union>c \<in> set (child_nodes n). subnodes c)"
      by induction (auto intro: subnodes.intros)
  qed
  show "insert n (\<Union>c \<in> set (child_nodes n). subnodes c) \<subseteq> subnodes n"
    by (auto intro: subnodes.root subnodes_trans [OF _ subnodes.child [OF subnodes.root]])
qed

lemma everywhere_iff: "everywhere P n \<longleftrightarrow> P n \<and> list_all (everywhere P) (child_nodes n)"
  unfolding everywhere_def list_all_iff unique_nodes_set by (subst subnodes_unfold) auto

lemmas everywhere_simps [simp] =
  everywhere_iff [of _ "SliceNode c a b s" for c a b s, simplified]
  everywhere_iff [of _ "InNode l r x i" for l r x i, simplified]
  everywhere_iff [of _ "JoinNode l r conds ty po" for l r conds ty po, simplified]
  everywhere_iff [of _ "ConcatNode cs out" for cs out, simplified]
  everywhere_iff [of _ "FromRangeNode s0 e0 st i" for s0 e0 st i, simplified]
  everywhere_iff [of _ "ReadLocalNode d items sess off" for d items sess off, simplified]
  everywhere_iff [of _ "ReadTableNode src items sess" for src items sess, simplified]
  everywhere_iff [of _ "CachedTableNode src items sess orig" for src items sess orig, simplified]
  everywhere_iff [of _ "PromoteOffsetsNode c i" for c i, simplified]
  everywhere_iff [of _ "FilterNode c p" for c p, simplified]
  everywhere_iff [of _ "OrderByNode c ps tot" for c ps tot, simplified]
  everywhere_iff [of _ "ReversedNode c rv" for c rv, simplified]
  everywhere_iff [of _ "SelectionNode c pairs" for c pairs, simplified]
  everywhere_iff [of _ "ProjectionNode c asg" for c asg, simplified]
  everywhere_iff [of _ "AggregateNode c aggs ks os dn" for c aggs ks os dn, simplified]
  everywhere_iff [of _ "WindowOpNode c ds w" for c ds w, simplified]
  everywhere_iff [of _ "RandomSampleNode c fr" for c fr, simplified]
  everywhere_iff [of _ "ExplodeNode c cols off" for c cols off, simplified]
  everywhere_iff [of _ "ResultNode c outs ord k" for c outs ord k, simplified]
  everywhere_iff [of _ "CteNode c" for c, simplified]

lemma everywhere_child: "everywhere P n \<Longrightarrow> c \<in> set (child_nodes n) \<Longrightarrow> everywhere P c"
  by (auto simp: everywhere_iff [of P n] list_all_iff)

lemma everywhere_transform:
  assumes "P (transform_children t n)" "\<And>c. c \<in> set (child_nodes n) \<Longrightarrow> everywhere P (t c)"
  shows "everywhere P (transform_children t n)"
  by (subst everywhere_iff) (use assms in \<open>auto simp: list_all_iff\<close>)

text \<open>The size of a plan, with a weight for every class of nodes, for the termination of rewrites.\<close>

function weight :: "(bfnode \<Rightarrow> nat) \<Rightarrow> bfnode \<Rightarrow> nat" where
  "weight w n = w n + sum_list (map (weight w) (child_nodes n))"
  by pat_completeness auto
termination
  by (relation "measure (\<lambda>(w, n). size n)") (auto dest: size_child_nodes)

declare weight.simps [simp del]

lemmas weight_simps [simp] =
  weight.simps [of _ "SliceNode c a b s" for c a b s, simplified]
  weight.simps [of _ "InNode l r x i" for l r x i, simplified]
  weight.simps [of _ "JoinNode l r conds ty po" for l r conds ty po, simplified]
  weight.simps [of _ "ConcatNode cs out" for cs out, simplified]
  weight.simps [of _ "FromRangeNode s0 e0 st i" for s0 e0 st i, simplified]
  weight.simps [of _ "ReadLocalNode d items sess off" for d items sess off, simplified]
  weight.simps [of _ "ReadTableNode src items sess" for src items sess, simplified]
  weight.simps [of _ "CachedTableNode src items sess orig" for src items sess orig, simplified]
  weight.simps [of _ "PromoteOffsetsNode c i" for c i, simplified]
  weight.simps [of _ "FilterNode c p" for c p, simplified]
  weight.simps [of _ "OrderByNode c ps tot" for c ps tot, simplified]
  weight.simps [of _ "ReversedNode c rv" for c rv, simplified]
  weight.simps [of _ "SelectionNode c pairs" for c pairs, simplified]
  weight.simps [of _ "ProjectionNode c asg" for c asg, simplified]
  weight.simps [of _ "AggregateNode c aggs ks os dn" for c aggs ks os dn, simplified]
  weight.simps [of _ "WindowOpNode c ds w" for c ds w, simplified]
  weight.simps [of _ "RandomSampleNode c fr" for c fr, simplified]
  weight.simps [of _ "ExplodeNode c cols off" for c cols off, simplified]
  weight.simps [of _ "ResultNode c outs ord k" for c outs ord k, simplified]
  weight.simps [of _ "CteNode c" for c, simplified]

lemma weight_transform:
  "w (transform_children t n) = w n \<Longrightarrow> (\<And>c. c \<in> set (child_nodes n) \<Longrightarrow> weight w (t c) = weight w c) \<Longrightarrow>
     weight w (transform_children t n) = weight w n"
  by (simp add: weight.simps [of w "transform_children t n"] weight.simps [of w n] comp_def cong: map_cong)

lemma weight_child: "c \<in> set (child_nodes n) \<Longrightarrow> weight w c + w n \<le> weight w n"
  by (subst (2) weight.simps) (simp add: member_le_sum_list)

text \<open>Plans every node of which has fields: no lookup of a column or of a type raises.\<close>

definition typed :: "bfnode \<Rightarrow> bool" where
  "typed n \<longleftrightarrow> everywhere (\<lambda>m. \<exists>fs. node_fields m = Inr fs) n"

lemma typed_iff: "typed n \<longleftrightarrow> (\<exists>fs. node_fields n = Inr fs) \<and> list_all typed (child_nodes n)"
  unfolding typed_def [abs_def] by (rule everywhere_iff)

lemma node_fields_transform:
  "(\<And>c. c \<in> set (child_nodes n) \<Longrightarrow> node_fields (t c) = node_fields c) \<Longrightarrow>
     node_fields (transform_children t n) = node_fields n"
  by (cases n) (auto split: list.split)

text \<open>Plans with the same columns, the same fields and the same table.\<close>

definition same_plan :: "engine \<Rightarrow> bfnode \<Rightarrow> bfnode \<Rightarrow> bool" where
  "same_plan E m n \<longleftrightarrow> same_output E m n \<and> node_fields m = node_fields n"

lemma same_plan_refl [simp]: "same_plan E n n"
  by (simp add: same_plan_def same_output_def)

lemma same_plan_trans: "same_plan E k m \<Longrightarrow> same_plan E m n \<Longrightarrow> same_plan E k n"
  by (auto simp: same_plan_def intro: same_output_trans)

lemma same_plan_transform:
  assumes "scoped n" "typed n" "\<And>c. c \<in> set (child_nodes n) \<Longrightarrow> (scoped (t c) \<and> typed (t c)) \<and> same_plan E (t c) c"
  shows "scoped (transform_children t n) \<and> typed (transform_children t n) \<and> same_plan E (transform_children t n) n"
proof -
  have fields: "node_fields (transform_children t n) = node_fields n"
    using assms(3) by (intro node_fields_transform) (simp add: same_plan_def)
  moreover have "scoped (transform_children t n)"
    using scoped_transform [OF assms(1), of t] assms(3) by (simp add: same_plan_def same_output_def)
  moreover have "same_output E (transform_children t n) n"
    using assms(3) by (intro transform_children_same_output [OF assms(1)]) (simp add: same_plan_def)
  moreover have "typed (transform_children t n)"
    using assms(2,3) fields by (simp add: typed_iff [of n] typed_iff [of "transform_children t n"] list_all_iff)
  ultimately show ?thesis by (simp add: same_plan_def)
qed

lemma fields_by_id_member:
  "distinct (map field_id fs) \<Longrightarrow> f \<in> set fs \<Longrightarrow> fields_by_id fs (field_id f) = Some f"
  unfolding fields_by_id_def by (rule dict_of_distinct) (auto simp: comp_def)

lemma select_identity_fields:
  assumes "node_fields n = Inr fs" "distinct (map field_id fs)" "set gs \<subseteq> set fs"
  shows "node_fields (SelectionNode n (map AliasedRef_identity (map field_id gs))) = Inr gs"
proof -
  have "mapM (\<lambda>(ref, output). selected_field (fields_by_id fs) ref output) (map AliasedRef_identity (map field_id gs)) = Inr gs"
    using assms(3) fields_by_id_member [OF assms(2)]
    by (induction gs) (auto simp: AliasedRef_identity_def selected_field_def lookup_or_def mk_field_def)
  then show ?thesis by (simp add: SelectionNode_fields_def assms(1))
qed

text \<open>
  What a rewrite of one node promises, for a relation \<open>sim\<close> of plans that survives the replacement
  of children.
\<close>

locale plan_rewrite =
  fixes step :: "'s step" and sim :: "bfnode \<Rightarrow> bfnode \<Rightarrow> bool" and valid :: "bfnode \<Rightarrow> bool"
    and known :: "'s \<Rightarrow> bfnode \<Rightarrow> bool" and later :: "'s \<Rightarrow> 's \<Rightarrow> bool"
  assumes step_sound: "valid n \<Longrightarrow> known s n \<Longrightarrow> step n s = Inr (m, s') \<Longrightarrow>
      valid m \<and> sim m n \<and> known s' m \<and> later s s'"
    and sim_trans: "sim k m \<Longrightarrow> sim m n \<Longrightarrow> sim k n"
    and valid_child: "valid n \<Longrightarrow> c \<in> set (child_nodes n) \<Longrightarrow> valid c"
    and valid_transform: "valid n \<Longrightarrow>
      (\<And>c. c \<in> set (child_nodes n) \<Longrightarrow> valid (t c) \<and> sim (t c) c) \<Longrightarrow>
      valid (transform_children t n) \<and> sim (transform_children t n) n"
    and later_refl: "later s s"
    and later_trans: "later s s' \<Longrightarrow> later s' s'' \<Longrightarrow> later s s''"
    and known_later: "known s n \<Longrightarrow> later s s' \<Longrightarrow> known s' n"
    and known_child: "known s n \<Longrightarrow> c \<in> set (child_nodes n) \<Longrightarrow> known s c"
    and known_transform: "valid n \<Longrightarrow> known s n \<Longrightarrow>
      (\<And>c. c \<in> set (child_nodes n) \<Longrightarrow> known s (t c) \<and> sim (t c) c) \<Longrightarrow>
      known s (transform_children t n)"
begin

definition good :: "'s \<Rightarrow> bfnode \<Rightarrow> bfnode \<Rightarrow> bool" where
  "good s n m \<longleftrightarrow> valid m \<and> sim m n \<and> known s m"

definition good_results :: "'s \<Rightarrow> results \<Rightarrow> bool" where
  "good_results s R \<longleftrightarrow> (\<forall>n m. R n = Some m \<longrightarrow> good s n m)"

lemma good_later: "good s n m \<Longrightarrow> later s s' \<Longrightarrow> good s' n m"
  by (auto simp: good_def intro: known_later)

lemma good_results_later: "good_results s R \<Longrightarrow> later s s' \<Longrightarrow> good_results s' R"
  by (auto simp: good_results_def intro: good_later)

lemma good_transform:
  assumes "valid n" "known s n" "\<And>c. c \<in> set (child_nodes n) \<Longrightarrow> good s c (t c)"
  shows "good s n (transform_children t n)"
  using valid_transform [OF assms(1), of t] known_transform [OF assms(1,2), of t] assms(3)
  by (simp add: good_def)

lemma bottom_up_loop_sound:
  "bottom_up_loop step nodes R s = Inr (R', s') \<Longrightarrow> good_results s R \<Longrightarrow>
     (\<And>n. n \<in> set nodes \<Longrightarrow> valid n \<and> known s n) \<Longrightarrow> good_results s' R' \<and> later s s'"
proof (induction nodes arbitrary: R s)
  case Nil
  then show ?case by (simp add: later_refl)
next
  case (Cons n nodes)
  from Cons.prems(1) obtain m m' s1 where m: "with_results R n = Inr m" "step m s = Inr (m', s1)"
    "bottom_up_loop step nodes (R(n \<mapsto> m')) s1 = Inr (R', s')"
    by (auto simp: rbind_eq_Inr_iff)
  have "good s n m"
    using m(1) Cons.prems(2,3) by (auto simp: with_results_Inr good_results_def intro!: good_transform)
  then have m': "good s1 n m'" "later s s1"
    using step_sound [OF _ _ m(2)] sim_trans by (auto simp: good_def)
  then have "good_results s1 (R(n \<mapsto> m'))"
    using good_results_later [OF Cons.prems(2)] by (auto simp: good_results_def)
  then have "good_results s' R' \<and> later s1 s'"
    using Cons.IH [OF m(3)] Cons.prems(3) known_later [OF _ m'(2)] by (simp add: fun_upd_def)
  then show ?case using m'(2) later_trans by blast
qed

lemma bottom_up_sound:
  assumes "bottom_up step r0 s = Some (Inr (m, s'))" "valid r0" "known s r0"
  shows "valid m \<and> sim m r0 \<and> known s' m"
proof -
  obtain order where order: "iter_nodes_topo r0 = Some order" "set order = subnodes r0"
    using iter_nodes_topo_result by blast
  obtain R where R: "bottom_up_loop step order Map.empty s = Inr (R, s')" "R r0 = Some m"
    using assms(1) order(1) by (auto simp: bottom_up_def rbind_eq_Inr_iff)
  have "valid n \<and> known s n" if "n \<in> subnodes r0" for n
    using that by induction (use assms valid_child known_child in blast)+
  with R(1) order(2) have "good_results s' R"
    using bottom_up_loop_sound [of order Map.empty s R s'] by (simp add: good_results_def)
  with R(2) show ?thesis by (simp add: good_results_def good_def)
qed

lemma bottom_up_loop_domain: "bottom_up_loop f nodes R s = Inr (R', s') \<Longrightarrow> dom R \<union> set nodes \<subseteq> dom R'"
proof (induction nodes arbitrary: R s)
  case (Cons n nodes)
  then obtain m' s1 where "bottom_up_loop f nodes (R(n \<mapsto> m')) s1 = Inr (R', s')"
    by (auto simp: rbind_eq_Inr_iff)
  from Cons.IH [OF this] show ?case by (simp del: fun_upd_apply)
qed simp

text \<open>The top-down stack: nodes to do, and nodes transformed whose children are not done yet.\<close>

definition good_stack :: "'s \<Rightarrow> (bfnode \<times> bfnode option) list \<Rightarrow> bool" where
  "good_stack s stack \<longleftrightarrow> (\<forall>(n, t_n) \<in> set stack. valid n \<and> known s n \<and>
     (\<forall>m \<in> set_option t_n. good s n m))"

lemma good_stack_later: "good_stack s stack \<Longrightarrow> later s s' \<Longrightarrow> good_stack s' stack"
  by (fastforce simp: good_stack_def intro: known_later good_later)

lemma good_replaced:
  assumes "good s n m" "good_results s R" "\<forall>c \<in> set (child_nodes m). R c \<noteq> None"
  shows "good s n (transform_children (get_or_self R) m)"
proof -
  have "good s c (get_or_self R c)" if "c \<in> set (child_nodes m)" for c
    using that assms(2,3) by (force simp: good_results_def)
  then have "good s m (transform_children (get_or_self R) m)"
    using assms(1) by (intro good_transform) (auto simp: good_def)
  with assms(1) show ?thesis by (auto simp: good_def intro: sim_trans)
qed

lemma top_down_loop_sound:
  assumes "top_down_loop step stack R s = Some (Inr (R', s'))" "good_stack s stack" "good_results s R"
  shows "good_results s' R'"
proof -
  define claim where "claim t stack R s res \<longleftrightarrow> t = step \<longrightarrow>
      (\<forall>R' s'. res = Inr (R', s') \<longrightarrow> good_stack s stack \<longrightarrow> good_results s R \<longrightarrow> good_results s' R')"
    for t stack R s and res :: "(results \<times> 's) result"
  have "claim step stack R s (Inr (R', s'))"
  proof (rule top_down_loop.raw_induct [where P = claim, OF _ assms(1)])
    fix loop t stack R s res
    assume IH: "\<And>t stack R s res. loop t stack R s = Some res \<Longrightarrow> claim t stack R s res"
      and body: "(case stack of [] \<Rightarrow> Some (Inr (R, s))
        | (node, t_node) # rest \<Rightarrow>
            if t_node = None \<and> R node \<noteq> None then loop t rest R s
            else case case t_node of None \<Rightarrow> t node s | Some m \<Rightarrow> Inr (m, s) of
              Inl e \<Rightarrow> Some (Inl e)
            | Inr (m, s') \<Rightarrow>
                (case find (\<lambda>c. R c = None) (rev (child_nodes m)) of
                   None \<Rightarrow> loop t rest (R(node \<mapsto> transform_children (get_or_self R) m)) s'
                 | Some c \<Rightarrow> loop t ((c, None) # (node, Some m) # rest) R s')) = Some res"
    show "claim t stack R s res"
      unfolding claim_def
    proof (intro allI impI)
      fix R' s' assume t: "t = step" and res: "res = Inr (R', s')" "good_stack s stack" "good_results s R"
      show "good_results s' R'"
      proof (cases stack)
        case Nil
        with body res show ?thesis by simp
      next
        case (Cons x rest)
        obtain node t_node where x: "x = (node, t_node)" by (cases x)
        have node: "valid node" "known s node" "\<And>m. t_node = Some m \<Longrightarrow> good s node m"
          and rest: "good_stack s rest"
          using res(2) Cons x by (auto simp: good_stack_def)
        show ?thesis
        proof (cases "t_node = None \<and> R node \<noteq> None")
          case True
          then have "loop t rest R s = Some res" using body Cons x by simp
          from IH [OF this] show ?thesis using res rest t by (auto simp: claim_def)
        next
          case False
          then obtain m s1 where m: "(case t_node of None \<Rightarrow> t node s | Some m \<Rightarrow> Inr (m, s)) = Inr (m, s1)"
            using body Cons x res(1) by (cases "case t_node of None \<Rightarrow> t node s | Some m \<Rightarrow> Inr (m, s)") auto
          then have next_state: "(case find (\<lambda>c. R c = None) (rev (child_nodes m)) of
                None \<Rightarrow> loop t rest (R(node \<mapsto> transform_children (get_or_self R) m)) s1
              | Some c \<Rightarrow> loop t ((c, None) # (node, Some m) # rest) R s1) = Some res"
            using body False unfolding Cons x by (simp split: if_splits)
          from m have good: "good s1 node m" "later s s1"
            using node step_sound [OF node(1,2)] t
            by (auto simp: good_def later_refl split: option.splits)
          have rest': "good_stack s1 rest" "good_results s1 R" "known s1 node"
            using good_stack_later [OF rest good(2)] good_results_later [OF res(3) good(2)]
              known_later [OF node(2) good(2)] by auto
          show ?thesis
          proof (cases "find (\<lambda>c. R c = None) (rev (child_nodes m))")
            case None
            then have "loop t rest (R(node \<mapsto> transform_children (get_or_self R) m)) s1 = Some res"
              using next_state by simp
            moreover have "\<forall>c \<in> set (child_nodes m). R c \<noteq> None"
              using None by (auto simp: find_None_iff)
            then have "good_results s1 (R(node \<mapsto> transform_children (get_or_self R) m))"
              using good_replaced [OF good(1) rest'(2)] rest'(2) by (simp add: good_results_def)
            ultimately show ?thesis using IH [of t rest] res(1) rest'(1) t by (auto simp: claim_def)
          next
            case (Some c)
            then have "loop t ((c, None) # (node, Some m) # rest) R s1 = Some res"
              using next_state by simp
            moreover have "c \<in> set (child_nodes m)"
              using Some by (auto simp: find_Some_iff intro: nth_mem)
                (metis length_rev nth_mem set_rev)
            then have "good_stack s1 ((c, None) # (node, Some m) # rest)"
              using good rest' node(1) valid_child [of m c] known_child [of s1 m c]
              by (auto simp: good_stack_def good_def)
            ultimately show ?thesis using IH [of t "(c, None) # (node, Some m) # rest"] res(1) rest'(2) t
              by (auto simp: claim_def)
          qed
        qed
      qed
    qed
  qed
  with assms show ?thesis by (simp add: claim_def)
qed

lemma top_down_sound:
  assumes "top_down step r0 s = Some (Inr (m, s'))" "valid r0" "known s r0"
  shows "valid m \<and> sim m r0 \<and> known s' m"
proof -
  obtain R where R: "top_down_loop step [(r0, None)] Map.empty s = Some (Inr (R, s'))" "R r0 = Some m"
    using assms(1) by (auto simp: top_down_def rbind_eq_Inr_iff)
  have "good_results s' R"
    by (rule top_down_loop_sound [OF R(1)]) (use assms in \<open>auto simp: good_stack_def good_results_def\<close>)
  with R(2) show ?thesis by (simp add: good_results_def good_def)
qed

end

subsection \<open>What a bottom-up rewrite leaves behind\<close>

lemma bottom_up_loop_establishes:
  assumes "bottom_up_loop step nodes R s = Inr (R', s')" "\<forall>n m. R n = Some m \<longrightarrow> holds m" "\<forall>n \<in> set nodes. shape n"
    and "\<And>n t. shape n \<Longrightarrow> shape (transform_children t n)"
    and "\<And>n s m s'. shape n \<Longrightarrow> step n s = Inr (m, s') \<Longrightarrow> (\<And>c. c \<in> set (child_nodes n) \<Longrightarrow> holds c) \<Longrightarrow> holds m"
  shows "\<forall>n m. R' n = Some m \<longrightarrow> holds m"
  using assms(1-3)
proof (induction nodes arbitrary: R s)
  case (Cons n nodes)
  from Cons.prems(1) obtain m m' s1 where m: "with_results R n = Inr m" "step m s = Inr (m', s1)"
    "bottom_up_loop step nodes (R(n \<mapsto> m')) s1 = Inr (R', s')"
    by (auto simp: rbind_eq_Inr_iff)
  have "holds c" if "c \<in> set (child_nodes m)" for c
    using that m(1) Cons.prems(2) by (auto simp: with_results_Inr)
  moreover have "shape m" using m(1) Cons.prems(3) assms(4) by (simp add: with_results_Inr)
  ultimately have "holds m'" using assms(5) m(2) by blast
  then have "\<forall>x y. (R(n \<mapsto> m')) x = Some y \<longrightarrow> holds y" using Cons.prems(2) by simp
  with Cons.prems(3) show ?case by (intro Cons.IH [OF m(3)]) simp_all
qed simp

lemma bottom_up_establishes:
  assumes "bottom_up step r0 s = Some (Inr (m, s'))" "\<And>n. n \<in> subnodes r0 \<Longrightarrow> shape n"
    and "\<And>n t. shape n \<Longrightarrow> shape (transform_children t n)"
    and "\<And>n s m s'. shape n \<Longrightarrow> step n s = Inr (m, s') \<Longrightarrow> (\<And>c. c \<in> set (child_nodes n) \<Longrightarrow> holds c) \<Longrightarrow> holds m"
  shows "holds m"
proof -
  obtain order where order: "iter_nodes_topo r0 = Some order" "set order = subnodes r0"
    using iter_nodes_topo_result by blast
  obtain R where loop: "bottom_up_loop step order Map.empty s = Inr (R, s')" "R r0 = Some m"
    using assms(1) order(1) by (auto simp: bottom_up_def rbind_eq_Inr_iff)
  have "\<forall>x y. R x = Some y \<longrightarrow> holds y"
  proof (rule bottom_up_loop_establishes [where shape = shape, OF loop(1)])
    show "\<forall>n \<in> set order. shape n" using order(2) assms(2) by simp
  qed (use assms(3,4) in \<open>simp_all\<close>)
  then show ?thesis using loop(2) by blast
qed

subsection \<open>Rewrites that always return\<close>

locale total_rewrite = plan_rewrite +
  assumes step_returns: "valid n \<Longrightarrow> known s n \<Longrightarrow> \<exists>m s'. step n s = Inr (m, s')"
begin

lemma bottom_up_loop_returns:
  assumes "topological (finished @ nodes)" "dom R = set finished" "good_results s R"
    and "\<And>n. n \<in> set nodes \<Longrightarrow> valid n \<and> known s n"
  shows "\<exists>R' s'. bottom_up_loop step nodes R s = Inr (R', s')"
  using assms
proof (induction nodes arbitrary: finished R s)
  case (Cons n nodes)
  have "set (child_nodes n) \<subseteq> dom R" using topological_next [OF Cons.prems(1)] Cons.prems(2) by simp
  then have kids: "\<forall>c \<in> set (child_nodes n). R c \<noteq> None" by blast
  define m where "m = transform_children (get_or_self R) n"
  have m: "with_results R n = Inr m" using kids by (auto simp: with_results_Inr m_def)
  have "good s n m"
    unfolding m_def using Cons.prems(3,4) kids by (intro good_transform) (force simp: good_results_def)+
  then obtain m' s1 where m': "step m s = Inr (m', s1)" using step_returns [of m s] by (auto simp: good_def)
  have good: "good s1 n m'" "later s s1"
    using step_sound [OF _ _ m'] \<open>good s n m\<close> sim_trans by (auto simp: good_def)
  have "\<exists>R' s'. bottom_up_loop step nodes (R(n \<mapsto> m')) s1 = Inr (R', s')"
  proof (rule Cons.IH)
    show "topological ((finished @ [n]) @ nodes)" using Cons.prems(1) by simp
    show "dom (R(n \<mapsto> m')) = set (finished @ [n])" using Cons.prems(2) by simp
    show "good_results s1 (R(n \<mapsto> m'))"
      using good good_results_later [OF Cons.prems(3)] by (simp add: good_results_def)
    show "valid x \<and> known s1 x" if "x \<in> set nodes" for x
      using Cons.prems(4) [of x] that known_later [OF _ good(2)] by simp
  qed
  then show ?case using m m' by (simp add: fun_upd_def)
qed simp

lemma bottom_up_returns:
  assumes "valid r0" "known s r0"
  shows "\<exists>m s'. bottom_up step r0 s = Some (Inr (m, s')) \<and> valid m \<and> sim m r0 \<and> known s' m"
proof -
  obtain order where order: "iter_nodes_topo r0 = Some order" "set order = subnodes r0" "topological order"
    using iter_nodes_topo_result by blast
  have nodes: "valid n \<and> known s n" if "n \<in> subnodes r0" for n
    using that by induction (use assms valid_child known_child in blast)+
  have "\<exists>R s'. bottom_up_loop step order Map.empty s = Inr (R, s')"
    by (rule bottom_up_loop_returns [of "[]"]) (use order nodes in \<open>simp_all add: good_results_def\<close>)
  then obtain R s' where R: "bottom_up_loop step order Map.empty s = Inr (R, s')" by blast
  have "r0 \<in> set order" using order(2) subnodes.root by blast
  moreover have "set order \<subseteq> dom R" using bottom_up_loop_domain [OF R] by simp
  ultimately obtain m where "R r0 = Some m" by blast
  then have "bottom_up step r0 s = Some (Inr (m, s'))"
    using R order(1) by (simp add: bottom_up_def lookup_or_def)
  then show ?thesis using bottom_up_sound [OF _ assms] by blast
qed

end

end
