(* ===== verification/Ordering_Semantics.thy ===== *)
theory Ordering_Semantics
  imports Node_Agreement
begin

text \<open>
  The meaning of the orderings of \<^verbatim>\<open>core/ordering.py\<close> over the rows of a plan: an engine that
  computes bijective operators injectively and compares only equal values as equal gives the
  laws of \<open>row_values\<close>, so truncating the parts of an ordering does not change the sort.
\<close>

definition keeps_keys :: "engine \<Rightarrow> bool" where
  "keeps_keys E \<longleftrightarrow>
     (\<forall>op xs ys. op_is_bijective op \<longrightarrow> length xs = length ys \<longrightarrow> op_value E op xs = op_value E op ys \<longrightarrow> xs = ys) \<and>
     (\<forall>a b. a \<noteq> NULL \<longrightarrow> b \<noteq> NULL \<longrightarrow> (value_order E a b = 0 \<longleftrightarrow> a = b))"

definition tuple_engine :: engine where
  "tuple_engine = \<lparr> op_value = (\<lambda>_. ArrayS), agg_value = (\<lambda>_ _. NULL), window_value = (\<lambda>_ _ _ _ _ _. NULL),
     value_order = (\<lambda>a b. if a = b then 0 else 1), equal_keys = (=), local_rows = (\<lambda>_. []),
     table_rows = (\<lambda>_. []), sampled = (\<lambda>_ _ _. True), range_values = (\<lambda>_ _ _. []) \<rparr>"

lemma keeps_keys_tuple: "keeps_keys tuple_engine"
  by (simp add: keeps_keys_def tuple_engine_def)

typedef key_engine = "{E. keeps_keys E}"
  using keeps_keys_tuple by blast

lemma key_engine: "keeps_keys (Rep_key_engine K)"
  using Rep_key_engine by simp

lemma eval_depends:
  "(\<And>i. i \<in> set (column_references e) \<Longrightarrow> r i = s i) \<Longrightarrow> eval E r e = eval E s e"
proof (induction e)
  case (OpExpression op inputs)
  then have "map (eval E r) inputs = map (eval E s) inputs" by auto
  then show ?case by (simp del: map_eq_conv)
qed simp_all

lemma eval_bijective:
  assumes "keeps_keys E"
  shows "is_bijective e \<Longrightarrow> eval E r e = eval E s e \<Longrightarrow> i \<in> set (column_references e) \<Longrightarrow> r i = s i"
proof (induction e)
  case (OpExpression op inputs)
  then have "op_value E op (map (eval E r) inputs) = op_value E op (map (eval E s) inputs)" "op_is_bijective op"
    by simp_all
  then have "map (eval E r) inputs = map (eval E s) inputs"
    using conjunct1 [OF assms [unfolded keeps_keys_def], rule_format, of op "map (eval E r) inputs" "map (eval E s) inputs"]
    by simp
  with OpExpression show ?case by (auto simp: list_all_iff)
qed simp_all

interpretation plan_order: row_values "\<lambda>r i. r i" "\<lambda>e r. eval (Rep_key_engine K) r e" "\<lambda>v. v = NULL"
  "value_order (Rep_key_engine K)" for K
proof unfold_locales
  fix e and r s :: row assume "\<And>i. i \<in> set (column_references e) \<Longrightarrow> r i = s i"
  then show "eval (Rep_key_engine K) r e = eval (Rep_key_engine K) s e" by (rule eval_depends)
next
  fix e r s i assume "is_bijective e" "eval (Rep_key_engine K) r e = eval (Rep_key_engine K) s e"
    "i \<in> set (column_references e)"
  then show "r i = s i" using eval_bijective [OF key_engine] by blast
next
  fix a b assume "a \<noteq> NULL" "b \<noteq> NULL"
  then show "(value_order (Rep_key_engine K) a b = 0) = (a = b)"
    using key_engine [of K] by (simp add: keeps_keys_def)
qed simp_all

lemma row_compare_truncate:
  assumes "keeps_keys E"
  shows "row_compare E (truncate_row {} ps) = row_compare E ps"
proof -
  obtain K where E: "E = Rep_key_engine K"
    using assms Rep_key_engine_cases [of E] by auto
  show ?thesis
    using plan_order.rows_compare_truncate [of "{}" _ _ K ps] by (auto simp: E row_compare_def)
qed

lemma row_compare_truncate_total:
  assumes "keeps_keys E" "truncate_total must {} [] ps = Inr qs" "must \<noteq> {}"
    and "(\<And>i. i \<in> must \<Longrightarrow> r i = s i) \<Longrightarrow> r = s"
  shows "row_compare E qs r s = row_compare E ps r s"
proof -
  obtain K where E: "E = Rep_key_engine K"
    using assms(1) Rep_key_engine_cases [of E] by auto
  show ?thesis
    using plan_order.rows_compare_truncate_total [OF assms(2) _ _ assms(3), of r s K] assms(4)
    by (simp add: E row_compare_def)
qed

subsection \<open>Sorts\<close>

lemma sort_truncate_row: "keeps_keys E \<Longrightarrow> sort_rows E (truncate_row {} ps) rs = sort_rows E ps rs"
  by (simp add: sort_rows_def row_compare_truncate)

lemma sort_truncate_total:
  assumes "keeps_keys E" "truncate_total must {} [] ps = Inr qs" "must \<noteq> {}"
    and "\<And>r s. r \<in> set rs \<Longrightarrow> s \<in> set rs \<Longrightarrow> (\<And>i. i \<in> must \<Longrightarrow> r i = s i) \<Longrightarrow> r = s"
  shows "sort_rows E qs rs = sort_rows E ps rs"
  unfolding sort_rows_def
  by (intro stable_sort_cong row_compare_truncate_total [OF assms(1-3)]) (use assms(4) in blast)

end
