(* ===== verification/Sample_Plans.thy ===== *)
theory Sample_Plans
  imports Rewrite_Framework Ordering_Semantics
begin

text \<open>
  A small engine over integers and a table of three rows, and plans over it: the concrete inputs
  at which the properties are applied.
\<close>

definition col :: "string \<Rightarrow> deref" where "col nm = DerefOp (ColumnId nm)"

definition sample_table :: bq_source where
  "sample_table = \<lparr> src_table = \<lparr> table_name = ''p.d.t'',
       physical_schema = [(''a'', True), (''b'', True), (''c'', True)], cluster_cols = None \<rparr>,
     src_schema = [(''a'', Some INT_DTYPE), (''b'', Some INT_DTYPE), (''c'', Some STRING_DTYPE)],
     src_predicate = None, src_ordering = None, src_n_rows = Some 3 \<rparr>"

definition int_op :: "scalar_op \<Rightarrow> int \<Rightarrow> int \<Rightarrow> sql_value" where
  "int_op op a b = (case op of
       AddOp \<Rightarrow> IntS (a + b) | SubOp \<Rightarrow> IntS (a - b) | MulOp \<Rightarrow> IntS (a * b)
     | ModOp \<Rightarrow> (if b = 0 then NULL else IntS (a mod b))
     | FloorDivOp \<Rightarrow> (if b = 0 then NULL else IntS (a div b))
     | EqOp \<Rightarrow> BoolS (a = b) | NeOp \<Rightarrow> BoolS (a \<noteq> b) | GtOp \<Rightarrow> BoolS (a > b) | GeOp \<Rightarrow> BoolS (a \<ge> b)
     | LtOp \<Rightarrow> BoolS (a < b) | LeOp \<Rightarrow> BoolS (a \<le> b) | _ \<Rightarrow> NULL)"

definition sample_op :: "scalar_op \<Rightarrow> sql_value list \<Rightarrow> sql_value" where
  "sample_op op vs =
     (if op_is_bijective op then ArrayS vs
      else case vs of
          [IntS a, IntS b] \<Rightarrow> int_op op a b
        | [BoolS a, BoolS b] \<Rightarrow> if op = AndOp then BoolS (a \<and> b) else NULL
        | _ \<Rightarrow> NULL)"

definition sample_order :: "sql_value \<Rightarrow> sql_value \<Rightarrow> int" where
  "sample_order a b = (case (a, b) of (IntS x, IntS y) \<Rightarrow> x - y | _ \<Rightarrow> if a = b then 0 else 1)"

definition sample_engine :: engine where
  "sample_engine = \<lparr> op_value = sample_op,
     agg_value = (\<lambda>_ rs. IntS (int (length rs))), window_value = (\<lambda>_ _ _ args _ k. IntS (int k)),
     value_order = sample_order, equal_keys = (\<lambda>a b. a \<noteq> NULL \<and> a = b),
     local_rows = (\<lambda>_. [\<lambda>s. if s = ''a'' then IntS 1 else NULL]),
     table_rows = (\<lambda>_. map (\<lambda>(x, y) s. if s = ''a'' then IntS x else if s = ''b'' then IntS y else StringS s)
       [(3, 1), (1, 2), (2, 2)]),
     sampled = (\<lambda>_ _ _. True), range_values = (\<lambda>_ _ _. []) \<rparr>"

definition sample_scan :: bfnode where
  "sample_scan = ReadTableNode sample_table [ScanItem (ColumnId ''a'') ''a'', ScanItem (ColumnId ''b'') ''b'',
     ScanItem (ColumnId ''c'') ''c''] None"

definition sample_filter :: bfnode where
  "sample_filter = FilterNode sample_scan (OpExpression GtOp [Deref (col ''a''), ScalarConstantExpression (IntV 1) (Some INT_DTYPE)])"

definition sample_selection :: bfnode where
  "sample_selection = SelectionNode sample_filter [(col ''b'', ColumnId ''x'')]"

lemmas sample_defs = sample_scan_def sample_filter_def sample_selection_def sample_table_def col_def

lemma keeps_keys_sample: "keeps_keys sample_engine"
proof -
  have "sample_op op xs = ArrayS xs" if "op_is_bijective op" for op xs
    using that by (simp add: sample_op_def)
  moreover have "sample_order a b = 0 \<longleftrightarrow> a = b" for a b
    by (auto simp: sample_order_def split: sql_value.split)
  ultimately show ?thesis by (simp add: keeps_keys_def sample_engine_def)
qed

lemma sample_rows:
  "length (rows sample_engine sample_scan) = 3" "length (rows sample_engine sample_filter) = 2"
  by (simp_all add: sample_defs sample_engine_def sample_op_def int_op_def read_table_def filter_rows_def scan_row_def dict_of_def)

lemma sample_scan_fields:
  "node_fields sample_scan = Inr [mk_field (ColumnId ''a'') (Some INT_DTYPE) True,
     mk_field (ColumnId ''b'') (Some INT_DTYPE) True, mk_field (ColumnId ''c'') (Some STRING_DTYPE) True]"
  by (simp add: sample_defs ReadTableNode_fields_def schema_get_type_def lookup_or_def dict_of_def schema_by_id_def)

lemma sample_ids:
  "ids sample_scan = Inr [ColumnId ''a'', ColumnId ''b'', ColumnId ''c'']"
  "ids sample_filter = Inr [ColumnId ''a'', ColumnId ''b'', ColumnId ''c'']"
  "ids sample_selection = Inr [ColumnId ''x'']"
  by (simp_all add: ids_def sample_scan_fields sample_filter_def sample_selection_def SelectionNode_fields_def
      selected_field_def lookup_or_def dict_of_def fields_by_id_def col_def)

lemma sample_scoped: "scoped sample_scan" "scoped sample_filter" "scoped sample_selection"
  by (simp_all add: sample_defs)

lemma sample_typed: "typed sample_scan" "typed sample_filter"
proof -
  show scan: "typed sample_scan" using sample_scan_fields by (simp add: typed_iff [of sample_scan]) (simp add: sample_scan_def)
  then show "typed sample_filter"
    using sample_scan_fields by (simp add: sample_filter_def typed_iff [of "FilterNode _ _"])
qed

definition sample_columns :: bfnode where
  "sample_columns = SelectionNode sample_scan [(col ''b'', ColumnId ''x''), (col ''a'', ColumnId ''y'')]"

lemma sample_columns_typed: "typed sample_columns"
proof -
  have "node_fields sample_columns = Inr [mk_field (ColumnId ''x'') (Some INT_DTYPE) True, mk_field (ColumnId ''y'') (Some INT_DTYPE) True]"
    using sample_scan_fields
    by (simp add: sample_columns_def SelectionNode_fields_def selected_field_def lookup_or_def dict_of_def fields_by_id_def col_def)
  then show ?thesis
    using sample_typed(1) by (simp add: typed_iff [of sample_columns]) (simp add: sample_columns_def)
qed

end
