(* ===== verification/Node_Metadata.thy ===== *)
theory Node_Metadata
  imports Rewrite_Framework
begin

text \<open>
  What the metadata of a node says of its rows: the row count, where the node gives one, is the
  number of rows the node computes, provided the sources report their own sizes rightly.
\<close>

fun counted :: "engine \<Rightarrow> bfnode \<Rightarrow> bool" where
  "counted E (SliceNode c a b s) = forward_safe (a, b, Some s) (int (length (rows E c)))"
| "counted E (ReadLocalNode d items sess off) = (local_row_count d = int (length (local_rows E (local_key d))))"
| "counted E (ReadTableNode src items sess) = (src_n_rows src \<in> {None, Some (int (length (table_rows E src)))})"
| "counted E (CachedTableNode src items sess orig) =
     (src_n_rows src \<in> {None, Some (int (length (table_rows E src)))})"
| "counted E (ResultNode c outs ord (Some k)) = (0 \<le> k)"
| "counted E _ = True"

lemma insert_by_length: "length (insert_by f x ys) = Suc (length ys)"
  by (induction ys) auto

lemma sort_rows_length [simp]: "length (sort_rows E ps rs) = length rs"
  unfolding sort_rows_def stable_sort_def by (induction rs) (simp_all add: insert_by_length)

lemma row_lengths [simp]:
  "length (isin_rows E x i is ls rs) = length ls"
  "length (promote_offsets i rs) = length rs"
  "length (window_rows E w ds rs) = length rs"
  "length (read_local E d items off) = length (local_rows E (local_key d))"
  "length (read_table E src items) = length (table_rows E src)"
  by (simp_all add: isin_rows_def promote_offsets_def with_column_def offsets_def window_rows_def
      read_local_def read_table_def Let_def split: option.split)

lemma cross_join_length: "length (ordered_join pair on CrossJoin ls rs) = length ls * length rs"
  by (induction ls) (simp_all add: ordered_join_def inner_join_def)

lemma aggregate_single: "length (aggregate_rows E aggs [] os dn rs) = 1"
  by (simp add: aggregate_rows_def)

lemma result_rows_length:
  "length (result_rows E outs ord k rs) = (case k of None \<Rightarrow> length rs | Some n \<Rightarrow> min (length rs) (nat n))"
  by (simp add: result_rows_def Let_def split: option.split)

lemma concat_count:
  "ConcatNode_row_count m counts = Some k \<Longrightarrow> length counts = length ls \<Longrightarrow>
     (\<And>j n. j < length counts \<Longrightarrow> counts ! j = Some n \<Longrightarrow> int (ls ! j) = n) \<Longrightarrow> m + int (sum_list ls) = k"
proof (induction m counts arbitrary: ls rule: ConcatNode_row_count.induct)
  case (3 m n counts)
  then obtain l ls' where ls: "ls = l # ls'" by (cases ls) auto
  have "int l = n" using 3(4) [of 0 n] ls by simp
  moreover have "m + n + int (sum_list ls') = k"
  proof (rule 3(1))
    fix j n' assume "j < length counts" "counts ! j = Some n'"
    then show "int (ls' ! j) = n'" using 3(4) [of "Suc j" n'] ls by simp
  qed (use 3(2,3) ls in simp_all)
  ultimately show ?case using ls by simp
qed simp_all

lemma concat_rows_length:
  "length (rows E (ConcatNode cs out)) = sum_list (map (\<lambda>c. length (rows E c)) cs)"
  by (induction cs) simp_all

lemma row_count_rows:
  assumes "everywhere (counted E) n" "row_count n = Some k"
  shows "int (length (rows E n)) = k"
  using assms
proof (induction n arbitrary: k)
  case (SliceNode c a b s)
  then obtain m where m: "row_count c = Some m" "k = slice_output_rows (a, b, Some s) m"
    by (auto simp: SliceNode_row_count_def split: option.splits)
  moreover have "int (length (rows E c)) = m" using SliceNode m(1) by simp
  ultimately show ?case
    using SliceNode.prems(1) slice_output_rows_eq_length [of "(a, b, Some s)" m]
    by (simp add: length_py_slice del: slice_positions.simps forward_safe.simps)
next
  case (JoinNode l r conds ty po)
  then obtain a b where "ty = CrossJoin" "row_count l = Some a" "row_count r = Some b" "k = a * b"
    by (auto simp: JoinNode_row_count_def split: if_splits option.splits)
  with JoinNode show ?case by (auto simp: cross_join_length)
next
  case (ConcatNode cs out)
  have "0 + int (sum_list (map (\<lambda>c. length (rows E c)) cs)) = k"
  proof (rule concat_count)
    show "ConcatNode_row_count 0 (map row_count cs) = Some k" using ConcatNode.prems by simp
    fix j m assume "j < length (map row_count cs)" "map row_count cs ! j = Some m"
    then show "int (map (\<lambda>c. length (rows E c)) cs ! j) = m"
      using ConcatNode.IH [of "cs ! j" m] ConcatNode.prems by (auto simp: list_all_iff)
  qed simp
  then show ?case by (simp add: concat_rows_length del: rows.simps)
next
  case (AggregateNode c aggs ks os dn)
  then show ?case by (auto simp: aggregate_single split: if_splits)
next
  case (ResultNode c outs ord lim)
  then show ?case
    by (cases lim) (auto simp: ResultNode_row_count_def result_rows_length min_def split: option.splits)
qed (auto simp: list_all_iff)

lemma SliceNode_noop_rows:
  assumes "SliceNode_is_noop c start stop step" "everywhere (counted E) c"
  shows "rows E (SliceNode c start stop step) = rows E c"
proof -
  let ?n = "int (length (rows E c))"
  have step: "step = 1" and start: "slice_start start 1 ?n = 0"
    using assms(1) by (auto simp: SliceNode_is_noop_def truthy_int_def slice_start_def split: option.splits)
  have "stop = None \<or> stop = Some ?n"
    using assms(1) row_count_rows [OF assms(2)]
    by (cases "row_count c") (auto simp: SliceNode_is_noop_def)
  then have stop: "slice_stop stop 1 ?n = ?n" by (auto simp: slice_stop_def)
  have "py_slice (start, stop, Some step) (rows E c) = rows E c"
    by (rule py_slice_full) (simp add: step the_step_def start stop py_range_unit)
  then show ?thesis by simp
qed

lemma counted_same: "counted E (transform_children t n) = counted E n"
  if "\<And>c. c \<in> set (child_nodes n) \<Longrightarrow> length (rows E (t c)) = length (rows E c)"
  proof (cases n)
  case (ResultNode c outs ord k)
  then show ?thesis by (cases k) auto
qed (use that in auto)

lemma counted_transform:
  assumes "everywhere (counted E) n"
    and "\<And>c. c \<in> set (child_nodes n) \<Longrightarrow> everywhere (counted E) (t c) \<and> same_output E (t c) c"
  shows "everywhere (counted E) (transform_children t n)"
proof (rule everywhere_transform)
  have "length (rows E (t c)) = length (rows E c)" if "c \<in> set (child_nodes n)" for c
    using assms(2) [OF that] rows_agree_length by (auto simp: same_output_iff)
  from counted_same [OF this] show "counted E (transform_children t n)"
    using assms(1) everywhere_iff [of "counted E" n] by simp
qed (use assms(2) in blast)

end
