(* ===== verification/Plan_Properties.thy ===== *)
theory Plan_Properties
  imports Sample_Plans Node_Metadata
begin

text \<open>
  The properties of plan nodes and of their traversal: the columns and the row count a node
  reports, the equivalence of plans, the orders in which the traversals visit a plan, and the
  meaning of ordering parts.
\<close>

subsection \<open>What a node reports\<close>

text \<open>
  C31: the row count a node reports, where it reports one, is the number of rows it computes, if
  the sources report their sizes rightly and no slice starts before the first row backwards.
\<close>

theorem row_count_is_exact:
  assumes "everywhere (counted E) n" "row_count n = Some k"
  shows "int (length (rows E n)) = k"
  using assms by (rule row_count_rows)

theorem row_count_is_exact_witness:
  "int (length (rows sample_engine (SliceNode sample_scan (Some 1) None 1))) = 2"
proof (rule row_count_is_exact)
  show "everywhere (counted sample_engine) (SliceNode sample_scan (Some 1) None 1)"
    by (simp add: sample_defs sample_engine_def)
  show "row_count (SliceNode sample_scan (Some 1) None 1) = Some 2"
    by (simp add: sample_defs SliceNode_row_count_def slice_output_rows_def step_or_one_def)
qed

text \<open>
  a slice node that calls itself a no-op returns the rows of its child, where the child's row
  count is exact.
\<close>

lemma slice_node_noop:
  assumes "SliceNode_is_noop c start stop step" "everywhere (counted E) c"
  shows "same_output E (SliceNode c start stop step) c"
  using SliceNode_noop_rows [OF assms] by (simp add: same_output_iff)

subsection \<open>Equivalence and traversal\<close>

text \<open>
  C30: \<^verbatim>\<open>transform_children\<close> replaces exactly the children of a node: those of the new node are the images of the
  old ones, in order, replacing again is replacing by the composition, and replacing each by itself
  changes nothing. Where a well-scoped node of any class has its children replaced by well-scoped plans
  with the same columns and the same table, the new node is well scoped and has the columns and the table of the old one.
\<close>

theorem equivalence_is_congruence:
  assumes "scoped n" "\<And>c. c \<in> set (child_nodes n) \<Longrightarrow> scoped (t c) \<and> same_output E (t c) c"
  shows "child_nodes (transform_children t n) = map t (child_nodes n) \<and>
    transform_children u (transform_children t n) = transform_children (\<lambda>c. u (t c)) n \<and> transform_children (\<lambda>c. c) n = n \<and>
    scoped (transform_children t n) \<and> same_output E (transform_children t n) n"
  using transform_children_same_output [of n E t] scoped_transform [of n t] assms
  by (auto simp: transform_children_comp same_output_def)

definition sample_narrowed :: bfnode where
  "sample_narrowed = SelectionNode sample_scan (map AliasedRef_identity (out_ids sample_scan))"

lemma sample_narrowed_same: "scoped sample_narrowed" "same_output E sample_narrowed sample_scan"
proof -
  have "map snd (map AliasedRef_identity is) = is" for "is" by (induction "is") (simp_all add: AliasedRef_identity_def)
  then show "same_output E sample_narrowed sample_scan"
    unfolding sample_narrowed_def
    by (intro same_output_agree) (simp_all add: select_identity_rows)
  show "scoped sample_narrowed" by (simp add: sample_narrowed_def sample_defs AliasedRef_identity_def)
qed

theorem equivalence_is_congruence_witness:
  "child_nodes (transform_children (\<lambda>c. sample_narrowed) sample_filter) = [sample_narrowed] \<and>
   same_output sample_engine (transform_children (\<lambda>c. sample_narrowed) sample_filter) sample_filter"
proof -
  have "child_nodes sample_filter = [sample_scan]" by (simp add: sample_filter_def)
  then show ?thesis
    using equivalence_is_congruence [of sample_filter "\<lambda>c. sample_narrowed" sample_engine "\<lambda>c. c"] sample_scoped(2) sample_narrowed_same by simp
qed

text \<open>
  C29: \<open>iter_nodes_topo\<close> always returns; it yields every distinct node of the plan exactly once, and
  each node after all its children.
\<close>

theorem topological_order:
  "\<exists>order. iter_nodes_topo n = Some order \<and> distinct order \<and> set order = set (unique_nodes n) \<and>
     (\<forall>j < length order. set (child_nodes (order ! j)) \<subseteq> set (take j order))"
proof -
  obtain order where o: "iter_nodes_topo n = Some order" "distinct order" "set order = subnodes n" "topological order"
    using iter_nodes_topo_result by blast
  then show ?thesis by (simp add: unique_nodes_set topological_def)
qed

theorem topological_order_witness:
  "\<exists>order. iter_nodes_topo sample_filter = Some order \<and> distinct order \<and> set order = {sample_filter, sample_scan}"
proof -
  have "set (unique_nodes sample_filter) = {sample_filter, sample_scan}"
    by (simp add: unique_nodes_def sample_filter_def sample_scan_def insert_commute)
  then show ?thesis using topological_order [of sample_filter] by metis
qed

text \<open>
  C27: \<open>bottom_up\<close> with a transformation without state is structural recursion: it always returns,
  and its result is the transformation of the node whose children are the results of the
  recursion, whatever nodes the plan shares.
\<close>

theorem bottom_up_is_recursion:
  "\<exists>res. bottom_up (pure_step t) r0 () = Some res \<and>
     (\<forall>m. res = Inr (m, ()) \<longleftrightarrow> bottom_up_spec t r0 = Inr m)"
  by (rule bottom_up_exact)

text \<open>
  C28: \<open>top_down\<close> returns, with a plan or an exception, for every transformation whose results have
  children smaller than the node transformed.
\<close>

theorem top_down_terminates:
  assumes "wf r" "\<And>n s m s' c. t n s = Inr (m, s') \<Longrightarrow> c \<in> set (child_nodes m) \<Longrightarrow> (c, n) \<in> r"
  shows "\<exists>res. top_down t r0 s = Some res"
  using assms by (intro top_down_returns [of r "\<lambda>_. True"]) auto

theorem top_down_terminates_witness: "\<exists>res. top_down (\<lambda>n s. Inr (n, Suc s)) sample_selection 0 = Some res"
  by (rule top_down_terminates [of "measure size"]) (auto dest: size_child_nodes)

subsection \<open>Orderings\<close>

text \<open>
  Reversing every part of an ordering, direction and place of nulls both, reverses the
  comparison of rows it stands for.
\<close>

lemma reversed_parts_reverse_rows:
  "row_compare E (map with_reverse ps) r s = - row_compare E ps r s"
  by (simp add: row_compare_def rows_compare_reverse)

text \<open>
  Truncating the parts of a partial ordering, which drops a part whose columns were all
  referenced by earlier bijective parts, does not change the sort of any rows.
\<close>

lemma truncated_ordering_sorts_alike:
  assumes "keeps_keys E"
  shows "sort_rows E (truncate_row {} ps) rs = sort_rows E ps rs"
  using assms by (rule sort_truncate_row)

end
