(* ===== verification/Rewrite_Pruning.thy ===== *)
theory Rewrite_Pruning
  imports Rewrite_Framework
begin

text \<open>
  Column pruning (\<^verbatim>\<open>core/rewrite/pruning.py\<close>): a selection pushes the set of columns it needs
  into its child, class by class, until nothing changes or the attempts run out. The rewrite
  keeps the columns and the table of every well-scoped selection, result and aggregate.
\<close>

subsection \<open>The code\<close>

definition prune_node :: "column_id set \<Rightarrow> bfnode \<Rightarrow> bfnode result" where
  "prune_node keep n = rbind (ids n) (\<lambda>own.
     if set own - keep = {} then Inr n
     else let kept = filter (\<lambda>i. i \<in> keep) own;
              ids_to_keep = (if kept \<noteq> [] then kept else take 1 own)
          in Inr (SelectionNode n (map AliasedRef_identity ids_to_keep)))"

definition pruned_aggregations :: "column_id set \<Rightarrow> (expr \<times> column_id) list \<Rightarrow> (expr \<times> column_id) list" where
  "pruned_aggregations used aggs =
     (let kept = filter (\<lambda>(_, i). i \<in> used) aggs in if kept \<noteq> [] then kept else take 1 aggs)"

definition prune_readlocal :: "column_id set \<Rightarrow> local_source \<Rightarrow> scan_list \<Rightarrow> session
    \<Rightarrow> column_id option \<Rightarrow> bfnode" where
  "prune_readlocal keep d items sess off =
     ReadLocalNode d (scan_filter_cols keep items) sess
       (case off of None \<Rightarrow> None | Some i \<Rightarrow> if i \<in> keep then Some i else None)"

definition prune_readtable :: "column_id set \<Rightarrow> bq_source \<Rightarrow> scan_list \<Rightarrow> session \<Rightarrow> bfnode" where
  "prune_readtable keep src items sess = ReadTableNode src (scan_filter_cols keep items) sess"

definition transform_childrenM :: "(bfnode \<Rightarrow> bfnode result) \<Rightarrow> bfnode \<Rightarrow> bfnode result" where
  "transform_childrenM t n = rbind (mapM t (child_nodes n))
     (\<lambda>_. Inr (transform_children (\<lambda>c. case t c of Inr m \<Rightarrow> m | Inl _ \<Rightarrow> c) n))"

text \<open>\<^verbatim>\<open>list.index\<close> and indexing a tuple.\<close>

fun list_index :: "'a list \<Rightarrow> 'a \<Rightarrow> nat result" where
  "list_index [] x = Inl ValueError"
| "list_index (y # ys) x = (if y = x then Inr 0 else rbind (list_index ys x) (\<lambda>k. Inr (Suc k)))"

definition nth_or :: "'a list \<Rightarrow> nat \<Rightarrow> 'a result" where
  "nth_or xs k = (if k < length xs then Inr (xs ! k) else Inl IndexError)"

definition prune_additive :: "bfnode \<Rightarrow> (deref \<times> column_id) list \<Rightarrow> bfnode result" where
  "prune_additive child pairs =
     (let consumed = SelectionNode_consumed_ids pairs in
      rbind (added_fields child) (\<lambda>added.
        if set (map field_id added) \<inter> consumed = {}
        then rbind (additive_base child) (\<lambda>base. Inr (SelectionNode base pairs))
        else let needed_ids = consumed \<union> referenced_ids child;
                 child' = (case child of
                    ProjectionNode c asg \<Rightarrow> ProjectionNode c (filter (\<lambda>(_, i). i \<in> needed_ids) asg)
                  | _ \<Rightarrow> child)
             in rbind (additive_base child') (\<lambda>base.
                  rbind (prune_node needed_ids base) (\<lambda>base'.
                    rbind (replace_additive_base child' base') (\<lambda>new. Inr (SelectionNode new pairs))))))"

definition prune_concat :: "bfnode list \<Rightarrow> column_id list \<Rightarrow> (deref \<times> column_id) list \<Rightarrow> bfnode result" where
  "prune_concat cs output_ids pairs =
     rbind (ids (ConcatNode cs output_ids)) (\<lambda>own.
       rbind (mapM (\<lambda>(ref, _). list_index own (ref_id ref)) pairs) (\<lambda>indices.
         if length indices = 0 then Inr (SelectionNode (ConcatNode cs output_ids) pairs)
         else rbind (mapM (\<lambda>concat_node.
                  rbind (ids concat_node) (\<lambda>cc_ids.
                    rbind (mapM (\<lambda>i. rbind (nth_or cc_ids i) (\<lambda>j. Inr (AliasedRef_identity j))) indices)
                      (\<lambda>sub. Inr (SelectionNode concat_node sub)))) cs) (\<lambda>new_children.
           rbind (ids (SelectionNode (ConcatNode cs output_ids) pairs))
             (\<lambda>out. Inr (ConcatNode new_children out)))))"

text \<open>The child's class decides; classes that are not listed stop the pruning.\<close>

definition prune_under :: "bfnode \<Rightarrow> (deref \<times> column_id) list \<Rightarrow> bfnode result" where
  "prune_under child pairs =
     (let consumed = SelectionNode_consumed_ids pairs;
          through = rbind (transform_childrenM (prune_node (consumed \<union> referenced_ids child)) child)
                      (\<lambda>new. Inr (SelectionNode new pairs))
      in case child of
           SelectionNode c inner \<Rightarrow>
             rbind (remap_refs (dict_of (map (\<lambda>(ref, i). (i, ref_id ref)) inner)) (SelectionNode child pairs))
               (\<lambda>new. replace_child new c)
         | InNode _ _ _ _ \<Rightarrow> prune_additive child pairs
         | PromoteOffsetsNode _ _ \<Rightarrow> prune_additive child pairs
         | ProjectionNode _ _ \<Rightarrow> prune_additive child pairs
         | WindowOpNode _ _ _ \<Rightarrow> prune_additive child pairs
         | ConcatNode cs out \<Rightarrow> prune_concat cs out pairs
         | RandomSampleNode _ _ \<Rightarrow> through
         | ReversedNode _ _ \<Rightarrow> through
         | OrderByNode _ _ _ \<Rightarrow> through
         | FilterNode _ _ \<Rightarrow> through
         | SliceNode _ _ _ _ \<Rightarrow> through
         | JoinNode _ _ _ _ _ \<Rightarrow> through
         | ExplodeNode _ _ _ \<Rightarrow> through
         | AggregateNode c aggs ks os dn \<Rightarrow>
             Inr (SelectionNode (AggregateNode c (pruned_aggregations consumed aggs) ks os dn) pairs)
         | ReadLocalNode d items sess off \<Rightarrow>
             Inr (SelectionNode (prune_readlocal consumed d items sess off) pairs)
         | ReadTableNode src items sess \<Rightarrow>
             Inr (SelectionNode (prune_readtable consumed src items sess) pairs)
         | CachedTableNode src items sess orig \<Rightarrow>
             Inr (SelectionNode (CachedTableNode src (scan_filter_cols consumed items) sess orig) pairs)
         | _ \<Rightarrow> Inr (SelectionNode child pairs))"

definition prune_selection_child :: "bfnode \<Rightarrow> (deref \<times> column_id) list \<Rightarrow> bfnode result" where
  "prune_selection_child child pairs =
     rbind (ids (SelectionNode child pairs)) (\<lambda>own.
       rbind (ids child) (\<lambda>child_ids.
         if own = child_ids \<and> list_all (\<lambda>(ref, i). ref_id ref = i) pairs then Inr child
         else prune_under child pairs))"

fun prune_once :: "bfnode \<Rightarrow> bfnode result" where
  "prune_once (SelectionNode c pairs) = prune_selection_child c pairs"
| "prune_once (ResultNode c outs ord k) =
     rbind (prune_node (ResultNode_consumed_ids outs ord) c) (\<lambda>c'. Inr (ResultNode c' outs ord k))"
| "prune_once (AggregateNode c aggs ks os dn) =
     rbind (prune_node (AggregateNode_consumed_ids aggs ks os) c)
       (\<lambda>c'. Inr (AggregateNode c' aggs ks os dn))"
| "prune_once n = Inr n"

text \<open>\<^verbatim>\<open>to_fixed\<close>: the attempts left, the previous result and the current one.\<close>

fun to_fixed_loop :: "(bfnode \<Rightarrow> bfnode result) \<Rightarrow> nat \<Rightarrow> bfnode option \<Rightarrow> bfnode \<Rightarrow> bfnode result" where
  "to_fixed_loop f 0 previous current = Inr current"
| "to_fixed_loop f (Suc k) previous current =
     (if previous = Some current then Inr current
      else rbind (f current) (\<lambda>new. to_fixed_loop f k (Some current) new))"

definition to_fixed :: "nat \<Rightarrow> (bfnode \<Rightarrow> bfnode result) \<Rightarrow> bfnode \<Rightarrow> bfnode result" where
  "to_fixed max_iterations f n = rbind (f n) (\<lambda>current. to_fixed_loop f (max_iterations - 1) None current)"

definition prune_columns :: "bfnode \<Rightarrow> bfnode result" where
  "prune_columns = to_fixed 100 prune_once"

definition column_pruning :: "bfnode \<Rightarrow> bfnode result option" where
  "column_pruning r0 = map_option (\<lambda>res. rbind res (\<lambda>(m, _). Inr m))
     (top_down (pure_step prune_columns) r0 ())"


subsection \<open>Narrowing a node\<close>

text \<open>
  A narrowed node is well scoped, has a part of the columns that includes those kept, and
  agrees on them.
\<close>

definition narrowed :: "engine \<Rightarrow> column_id set \<Rightarrow> bfnode \<Rightarrow> bfnode \<Rightarrow> bool" where
  "narrowed E keep m n \<longleftrightarrow> scoped m \<and> set (out_ids m) \<subseteq> set (out_ids n) \<and>
     keep \<inter> set (out_ids n) \<subseteq> set (out_ids m) \<and>
     rows_agree (keep \<inter> set (out_ids n)) (rows E m) (rows E n)"

lemma narrowed_refl [simp]: "scoped n \<Longrightarrow> narrowed E keep n n"
  by (simp add: narrowed_def)

lemma select_identity_narrowed:
  assumes "scoped n" "set is \<subseteq> set (out_ids n)" "distinct is" "keep \<inter> set (out_ids n) \<subseteq> set is"
  shows "narrowed E keep (SelectionNode n (map AliasedRef_identity is)) n"
proof -
  have "map snd (map AliasedRef_identity is) = is" "map (ref_id \<circ> fst) (map AliasedRef_identity is) = is"
    by (induction "is") (simp_all add: AliasedRef_identity_def)
  moreover have "list_all (\<lambda>(d, _). ref_id d \<in> set (out_ids n)) (map AliasedRef_identity is)"
    using assms(2) by (auto simp: list_all_iff AliasedRef_identity_def)
  moreover have "rows_agree (keep \<inter> set (out_ids n)) (map (select_row (map AliasedRef_identity is)) (rows E n)) (rows E n)"
    using assms(4) by (intro rows_agreeI) (auto simp: agree_def select_identity)
  ultimately show ?thesis
    using assms by (simp add: narrowed_def del: map_map)
qed

lemma prune_node_narrowed:
  assumes "prune_node keep n = Inr m" "scoped n"
  shows "narrowed E keep m n"
proof -
  obtain own where own1: "ids n = Inr own"
    using assms(1) by (auto simp: prune_node_def rbind_eq_Inr_iff)
  note own = own1 ids_out_ids [OF own1]
  have dist: "distinct own" using own(2) scoped_distinct [OF assms(2)] by simp
  show ?thesis
  proof (cases "set own - keep = {}")
    case True
    then show ?thesis using assms own by (simp add: prune_node_def)
  next
    case False
    let ?kept = "filter (\<lambda>i. i \<in> keep) own"
    let ?keep = "if ?kept \<noteq> [] then ?kept else take 1 own"
    have m: "m = SelectionNode n (map AliasedRef_identity ?keep)"
      using False assms(1) own(1) by (simp add: prune_node_def Let_def)
    have "keep \<inter> set own \<subseteq> set ?keep" by (auto simp: filter_empty_conv)
    moreover have "set ?keep \<subseteq> set own" "distinct ?keep"
      using dist set_take_subset [of 1 own] by auto
    ultimately show ?thesis
      unfolding m using assms(2) own(2) by (intro select_identity_narrowed) auto
  qed
qed

text \<open>Selecting from a narrowed child is the same selection.\<close>

lemma select_narrowed:
  assumes "narrowed E keep m c" "scoped (SelectionNode c pairs)" "SelectionNode_consumed_ids pairs \<subseteq> keep"
  shows "scoped (SelectionNode m pairs) \<and> same_output E (SelectionNode m pairs) (SelectionNode c pairs)"
proof -
  have refs: "ref_id d \<in> keep \<inter> set (out_ids c)" if "(d, j) \<in> set pairs" for d j
    using assms(2,3) that by (auto simp: SelectionNode_consumed_ids_def list_all_iff)
  then have "map (select_row pairs) (rows E m) = map (select_row pairs) (rows E c)"
    using assms(1) by (intro select_agree [of "keep \<inter> set (out_ids c)"]) (auto simp: narrowed_def)
  moreover have "ref_id d \<in> set (out_ids m)" if "(d, j) \<in> set pairs" for d j
    using refs [OF that] assms(1) by (auto simp: narrowed_def)
  ultimately show ?thesis
    using assms(1,2) by (auto simp: narrowed_def same_output_iff list_all_iff)
qed

text \<open>A class that passes columns through narrows with its children.\<close>

fun passes_through :: "bfnode \<Rightarrow> bool" where
  "passes_through (RandomSampleNode _ _) = True"
| "passes_through (ReversedNode _ _) = True"
| "passes_through (OrderByNode _ _ _) = True"
| "passes_through (FilterNode _ _) = True"
| "passes_through (SliceNode _ _ _ _) = True"
| "passes_through (JoinNode _ _ _ _ _) = True"
| "passes_through (ExplodeNode _ _ _) = True"
| "passes_through _ = False"

lemma transform_narrowed:
  assumes "passes_through n" "scoped n" "referenced_ids n \<subseteq> keep"
    and "\<And>c. c \<in> set (child_nodes n) \<Longrightarrow> narrowed E keep (t c) c"
  shows "narrowed E keep (transform_children t n) n"
proof (cases n)
  case (SliceNode c a b s)
  with assms(4) show ?thesis by (auto simp: narrowed_def slice_agree)
next
  case (FilterNode c p)
  then have kid: "narrowed E keep (t c) c" and refs: "set (column_references p) \<subseteq> keep \<inter> set (out_ids c)"
    using assms by auto
  have "rows_agree (keep \<inter> set (out_ids c)) (filter_rows E p (rows E (t c))) (filter_rows E p (rows E c))"
    using kid by (intro filter_agree refs) (simp add: narrowed_def)
  with FilterNode kid refs show ?thesis by (auto simp: narrowed_def)
next
  case (OrderByNode c ps tot)
  then have kid: "narrowed E keep (t c) c" and refs: "parts_refs ps \<subseteq> keep \<inter> set (out_ids c)"
    using assms by (auto simp: parts_refs_def)
  have "rows_agree (keep \<inter> set (out_ids c)) (sort_rows E ps (rows E (t c))) (sort_rows E ps (rows E c))"
    using kid by (intro sort_agree refs) (simp add: narrowed_def)
  with OrderByNode kid refs show ?thesis by (auto simp: narrowed_def)
next
  case (ReversedNode c rv)
  with assms(4) show ?thesis by (auto simp: narrowed_def rev_agree)
next
  case (RandomSampleNode c fr)
  with assms(4) show ?thesis by (auto simp: narrowed_def sample_agree)
next
  case (JoinNode l r conds ty po)
  have kids: "narrowed E keep (t l) l" "narrowed E keep (t r) r"
    using JoinNode assms(4) by auto
  have conds: "ref_id a \<in> keep \<inter> set (out_ids l)" "ref_id b \<in> keep \<inter> set (out_ids r)"
    if "(a, b) \<in> set conds" for a b
    using JoinNode assms(2,3) that by (auto simp: list_all_iff)
  have "rows_agree (keep \<inter> (set (out_ids l) \<union> set (out_ids r)))
      (ordered_join (pair_row (out_ids (t l))) (joins E conds) ty (rows E (t l)) (rows E (t r)))
      (ordered_join (pair_row (out_ids l)) (joins E conds) ty (rows E l) (rows E r))"
    using kids conds
    by (intro join_agree [of "keep \<inter> set (out_ids l)" _ _ "keep \<inter> set (out_ids r)"]) (auto simp: narrowed_def)
  moreover have "ref_id a \<in> set (out_ids (t l)) \<and> ref_id b \<in> set (out_ids (t r))"
    if "(a, b) \<in> set conds" for a b
    using conds [OF that] kids by (auto simp: narrowed_def)
  moreover have "set (out_ids (t l)) \<inter> set (out_ids (t r)) = {}"
    using kids assms(2) JoinNode by (auto simp: narrowed_def)
  ultimately show ?thesis
    using JoinNode kids by (auto simp: narrowed_def list_all_iff)
next
  case (ExplodeNode c cols off)
  have kid: "narrowed E keep (t c) c" using ExplodeNode assms(4) by simp
  have cols: "set (map ref_id cols) \<subseteq> keep \<inter> set (out_ids c)" using ExplodeNode assms by auto
  have "rows_agree (keep \<inter> set (out_ids c) \<union> set_option off)
      (concat (map (explode_row (map ref_id cols) off) (rows E (t c))))
      (concat (map (explode_row (map ref_id cols) off) (rows E c)))"
    using kid by (intro explode_agree cols) (simp add: narrowed_def)
  then have "rows_agree (keep \<inter> set (out_ids n)) (rows E (transform_children t n)) (rows E n)"
    using ExplodeNode by (auto elim!: rows_agree_mono split: option.splits)
  moreover have "set (map ref_id cols) \<subseteq> set (out_ids (t c))"
    using cols kid unfolding narrowed_def by blast
  then have "scoped (transform_children t n)"
    using ExplodeNode kid assms(2) by (auto simp: narrowed_def)
  ultimately show ?thesis
    using ExplodeNode kid by (auto simp: narrowed_def split: option.splits)
qed (use assms(1) in simp_all)

lemma transform_childrenM_Inr:
  assumes "transform_childrenM t n = Inr m"
  shows "\<exists>g. m = transform_children g n \<and> (\<forall>c \<in> set (child_nodes n). t c = Inr (g c))"
proof -
  obtain ys where "mapM t (child_nodes n) = Inr ys"
    and m: "m = transform_children (\<lambda>c. case t c of Inr m \<Rightarrow> m | Inl _ \<Rightarrow> c) n"
    using assms by (auto simp: transform_childrenM_def rbind_eq_Inr_iff)
  then have "map t (child_nodes n) = map Inr ys" by (simp add: mapM_Inr_iff)
  then have "\<exists>y. t c = Inr y" if "c \<in> set (child_nodes n)" for c
    using that by (metis (no_types, lifting) image_iff list.set_map)
  then show ?thesis using m by (intro exI [of _ "\<lambda>c. case t c of Inr m \<Rightarrow> m | Inl _ \<Rightarrow> c"]) force
qed

lemma prune_through_sound:
  assumes "passes_through child" "scoped (SelectionNode child pairs)"
    and "transform_childrenM (prune_node (SelectionNode_consumed_ids pairs \<union> referenced_ids child)) child = Inr m"
  shows "scoped (SelectionNode m pairs) \<and> same_output E (SelectionNode m pairs) (SelectionNode child pairs)"
proof -
  let ?keep = "SelectionNode_consumed_ids pairs \<union> referenced_ids child"
  obtain g where g: "m = transform_children g child"
    "\<And>c. c \<in> set (child_nodes child) \<Longrightarrow> prune_node ?keep c = Inr (g c)"
    using transform_childrenM_Inr [OF assms(3)] by auto
  have "narrowed E ?keep m child"
    unfolding g(1) using assms(1,2) scoped_children [of child]
    by (intro transform_narrowed prune_node_narrowed g(2)) auto
  then show ?thesis by (rule select_narrowed [OF _ assms(2)]) simp
qed


subsection \<open>The remaining classes\<close>

lemma additive_base_agree:
  assumes "scoped n" "additive_base n = Inr b"
  shows "scoped b \<and> set (out_ids b) \<subseteq> set (out_ids n) \<and> rows_agree (set (out_ids b)) (rows E b) (rows E n)"
  using assms
proof (cases n)
  case (InNode l r x i)
  then show ?thesis
    using assms rows_agree_sym [OF isin_base [of i E x "out_ids r" "rows E l" "rows E r"]]
    by (auto elim!: rows_agree_mono)
next
  case (PromoteOffsetsNode c i)
  then show ?thesis
    using assms rows_agree_sym [OF promote_base [of i "rows E c"]] by (auto elim!: rows_agree_mono)
next
  case (ProjectionNode c asg)
  then show ?thesis
    using assms rows_agree_sym [OF project_base [of asg E "rows E c"]]
    by (auto simp: list_all_iff elim!: rows_agree_mono)
next
  case (WindowOpNode c ds w)
  then show ?thesis
    using assms rows_agree_sym [OF window_base [of ds E w "rows E c"]]
    by (auto simp: list_all_iff elim!: rows_agree_mono)
qed auto

lemma additive_field_ids:
  assumes "additive_base n = Inr b" "added_fields n = Inr added"
  shows "out_ids n = out_ids b @ map field_id added"
  using assms by (cases n) (auto simp: InNode_added_fields_def PromoteOffsetsNode_added_fields_def
      projection_field_ids window_field_ids)

text \<open>Replacing the base of an additive node by a narrowed one narrows the node.\<close>

lemma replace_base_narrowed:
  assumes "scoped n" "additive_base n = Inr b" "replace_additive_base n b' = Inr m"
    and "narrowed E keep b' b" "referenced_ids n \<subseteq> keep"
  shows "narrowed E keep m n"
  using assms(2)
proof (cases n)
  case (InNode l r x i)
  with assms have kid: "narrowed E keep b' l" and x: "ref_id x \<in> keep \<inter> set (out_ids l)"
    and m: "m = InNode b' r x i" by auto
  have "rows_agree (insert i (keep \<inter> set (out_ids l))) (rows E m) (rows E n)"
    unfolding m InNode rows.simps using kid by (intro isin_agree x) (simp add: narrowed_def)
  with InNode kid x m assms(1) show ?thesis
    by (auto simp: narrowed_def elim!: rows_agree_mono)
next
  case (PromoteOffsetsNode c i)
  with assms have kid: "narrowed E keep b' c" and m: "m = PromoteOffsetsNode b' i" by auto
  have "rows_agree (insert i (keep \<inter> set (out_ids c))) (rows E m) (rows E n)"
    unfolding m PromoteOffsetsNode rows.simps using kid by (intro promote_agree) (simp add: narrowed_def)
  with PromoteOffsetsNode kid m assms(1) show ?thesis
    by (auto simp: narrowed_def elim!: rows_agree_mono)
next
  case (ProjectionNode c asg)
  with assms have kid: "narrowed E keep b' c" and m: "m = ProjectionNode b' asg" by auto
  have refs: "set (column_references e) \<subseteq> keep \<inter> set (out_ids c)" if "(e, j) \<in> set asg" for e j
    using ProjectionNode assms(1,5) that by (auto simp: list_all_iff)
  have "rows_agree (keep \<inter> set (out_ids c) \<union> snd ` set asg) (rows E m) (rows E n)"
    unfolding m ProjectionNode rows.simps using kid refs by (intro project_agree) (auto simp: narrowed_def)
  moreover have "set (column_references e) \<subseteq> set (out_ids b')" if "(e, j) \<in> set asg" for e j
    using refs [OF that] kid unfolding narrowed_def by blast
  ultimately show ?thesis
    using ProjectionNode kid m assms(1)
    by (auto simp: narrowed_def list_all_iff elim!: rows_agree_mono)
next
  case (WindowOpNode c ds w)
  with assms have kid: "narrowed E keep b' c" and m: "m = WindowOpNode b' ds w" by auto
  have refs: "set (column_references (cdef_expression d)) \<subseteq> keep \<inter> set (out_ids c)" if "d \<in> set ds" for d
    using WindowOpNode assms(1,5) that by (auto simp: list_all_iff)
  have wrefs: "all_referenced_columns w \<subseteq> keep \<inter> set (out_ids c)"
    using WindowOpNode assms(1,5) by auto
  have "rows_agree (keep \<inter> set (out_ids c) \<union> cdef_id ` set ds) (rows E m) (rows E n)"
    unfolding m WindowOpNode rows.simps using kid refs
    by (intro window_agree wrefs) (auto simp: narrowed_def)
  moreover have "set (column_references (cdef_expression d)) \<subseteq> set (out_ids b')" if "d \<in> set ds" for d
    using refs [OF that] kid unfolding narrowed_def by blast
  moreover have "all_referenced_columns w \<subseteq> set (out_ids b')"
    using wrefs kid unfolding narrowed_def by blast
  ultimately show ?thesis
    using WindowOpNode kid m assms(1)
    by (auto simp: narrowed_def list_all_iff elim!: rows_agree_mono)
qed auto

lemma narrowed_trans:
  assumes "narrowed E keep m n" "narrowed E keep n k"
  shows "narrowed E keep m k"
proof -
  have "rows_agree (keep \<inter> set (out_ids k)) (rows E m) (rows E n)"
    using assms by (auto simp: narrowed_def elim: rows_agree_mono)
  then show ?thesis
    using assms unfolding narrowed_def by (blast intro: rows_agree_trans)
qed

lemma project_filter_narrowed:
  assumes "scoped (ProjectionNode c asg)"
  shows "narrowed E keep (ProjectionNode c (filter (\<lambda>(_, i). i \<in> keep) asg)) (ProjectionNode c asg)"
proof -
  have "rows_agree keep (rows E (ProjectionNode c (filter (\<lambda>(e, j). j \<in> keep) asg))) (rows E (ProjectionNode c asg))"
    by (simp add: project_filter)
  moreover have "scoped (ProjectionNode c (filter (\<lambda>(_, i). i \<in> keep) asg))"
    using assms by (auto simp: list_all_iff distinct_map_filter_subset)
  ultimately show ?thesis
    by (auto simp: narrowed_def elim: rows_agree_mono)
qed

lemma prune_additive_sound:
  assumes "prune_additive child pairs = Inr m" "scoped (SelectionNode child pairs)"
  shows "scoped m \<and> same_output E m (SelectionNode child pairs)"
proof -
  let ?consumed = "SelectionNode_consumed_ids pairs"
  obtain added where added: "added_fields child = Inr added"
    using assms(1) by (auto simp: prune_additive_def Let_def rbind_eq_Inr_iff)
  show ?thesis
  proof (cases "set (map field_id added) \<inter> ?consumed = {}")
    case True
    then obtain base where base: "additive_base child = Inr base" "m = SelectionNode base pairs"
      using assms(1) added by (auto simp: prune_additive_def Let_def rbind_eq_Inr_iff)
    have "narrowed E ?consumed base child"
      using True additive_base_agree [OF _ base(1), of E] additive_field_ids [OF base(1) added] assms(2)
      by (auto simp: narrowed_def elim!: rows_agree_mono)
    then show ?thesis unfolding base(2) by (rule select_narrowed [OF _ assms(2)]) simp
  next
    case False
    define keep where "keep = ?consumed \<union> referenced_ids child"
    define child' where "child' = (case child of
        ProjectionNode c asg \<Rightarrow> ProjectionNode c (filter (\<lambda>(_, i). i \<in> keep) asg) | _ \<Rightarrow> child)"
    obtain base base' new where step: "additive_base child' = Inr base" "prune_node keep base = Inr base'"
      "replace_additive_base child' base' = Inr new" "m = SelectionNode new pairs"
      using assms(1) added False
      by (auto simp: prune_additive_def Let_def rbind_eq_Inr_iff simp flip: keep_def child'_def)
    have child': "narrowed E keep child' child"
    proof (cases "\<exists>c asg. child = ProjectionNode c asg")
      case True
      then obtain c asg where child: "child = ProjectionNode c asg" by blast
      have "child' = ProjectionNode c (filter (\<lambda>(_, i). i \<in> keep) asg)" by (simp add: child'_def child)
      with child assms(2) project_filter_narrowed [of c asg E keep] show ?thesis by simp
    next
      case False
      then have "child' = child" by (auto simp: child'_def split: bfnode.split)
      then show ?thesis using assms(2) by simp
    qed
    have "scoped child'" using child' by (simp add: narrowed_def)
    moreover have "scoped base"
      using additive_base_agree [OF \<open>scoped child'\<close> step(1)] by simp
    moreover have "referenced_ids child' \<subseteq> keep"
      by (auto simp: child'_def keep_def split: bfnode.split)
    ultimately have "narrowed E keep new child'"
      using replace_base_narrowed [OF _ step(1,3)] prune_node_narrowed [OF step(2)] by blast
    then have "narrowed E keep new child" using child' by (rule narrowed_trans)
    then show ?thesis unfolding step(4) by (rule select_narrowed [OF _ assms(2)]) (simp add: keep_def)
  qed
qed

lemma dict_of_pruned_aggs:
  assumes "i \<in> used"
  shows "dict_of (map (\<lambda>(e, j). (j, e)) (pruned_aggregations used aggs)) i = dict_of (map (\<lambda>(e, j). (j, e)) aggs) i"
proof (cases "filter (\<lambda>(_, i). i \<in> used) aggs = []")
  case True
  then have none: "i \<notin> fst ` set (map (\<lambda>(e, j). (j, e)) aggs)"
    using assms by (force simp: filter_empty_conv)
  then have "i \<notin> fst ` set (map (\<lambda>(e, j). (j, e)) (take 1 aggs))"
    using set_take_subset [of 1 aggs] by force
  with none True show ?thesis
    by (simp add: pruned_aggregations_def dict_of_eq_None_iff [THEN iffD2])
next
  case False
  have "map (\<lambda>(e, j). (j, e)) (filter (\<lambda>(_, i). i \<in> used) aggs) =
      filter (\<lambda>(j, e). j \<in> used) (map (\<lambda>(e, j). (j, e)) aggs)"
    by (induction aggs) auto
  with False show ?thesis
    by (simp add: pruned_aggregations_def dict_of_filter_key [where P = "\<lambda>j. j \<in> used", OF assms])
qed

lemma prune_aggregate_narrowed:
  assumes "scoped (AggregateNode c aggs ks os dn)"
  shows "narrowed E used (AggregateNode c (pruned_aggregations used aggs) ks os dn) (AggregateNode c aggs ks os dn)"
proof -
  let ?aggs = "pruned_aggregations used aggs"
  have sub: "set ?aggs \<subseteq> set aggs"
    using set_take_subset [of 1 aggs] by (auto simp: pruned_aggregations_def Let_def)
  have "distinct (map snd (take 1 aggs))" by (cases aggs) auto
  then have "distinct (map snd ?aggs)"
    using assms by (auto simp: pruned_aggregations_def Let_def distinct_map_filter_subset)
  moreover have "list_all P ?aggs" if "list_all P aggs" for P
    using that sub by (auto simp: list_all_iff)
  ultimately have "scoped (AggregateNode c ?aggs ks os dn)"
    using assms sub by auto
  moreover have "used \<inter> snd ` set aggs \<subseteq> snd ` set ?aggs"
    by (force simp: pruned_aggregations_def Let_def filter_empty_conv)
  moreover have "rows_agree used (rows E (AggregateNode c ?aggs ks os dn)) (rows E (AggregateNode c aggs ks os dn))"
    by (simp add: aggregate_prune dict_of_pruned_aggs)
  ultimately show ?thesis
    using sub by (auto simp: narrowed_def elim: rows_agree_mono)
qed


lemma scan_row_filter:
  "i \<in> keep \<Longrightarrow> scan_row (scan_filter_cols keep items) src i = scan_row items src i"
proof (cases "filter (\<lambda>item. scan_id item \<in> keep) items = []")
  case True
  assume i: "i \<in> keep"
  then have none: "i \<notin> fst ` set (map (\<lambda>it. (scan_id it, source_id it)) items)"
    using True by (force simp: filter_empty_conv)
  then have "i \<notin> fst ` set (map (\<lambda>it. (scan_id it, source_id it)) (take 1 items))"
    using set_take_subset [of 1 items] by force
  with none True show ?thesis
    by (simp add: scan_filter_cols_def scan_row_def dict_of_eq_None_iff [THEN iffD2])
next
  case False
  assume i: "i \<in> keep"
  have "map (\<lambda>it. (scan_id it, source_id it)) (filter (\<lambda>item. scan_id item \<in> keep) items) =
      filter (\<lambda>(j, s). j \<in> keep) (map (\<lambda>it. (scan_id it, source_id it)) items)"
    by (induction items) auto
  with False show ?thesis
    by (simp add: scan_filter_cols_def scan_row_def dict_of_filter_key [where P = "\<lambda>j. j \<in> keep", OF i])
qed

lemma scan_rows_filter: "rows_agree keep (map (scan_row (scan_filter_cols keep items)) src) (map (scan_row items) src)"
  by (rule rows_agreeI) (auto simp: agree_def scan_row_filter)

lemma scan_filter_subset: "set (scan_filter_cols keep items) \<subseteq> set items"
  "keep \<inter> scan_id ` set items \<subseteq> scan_id ` set (scan_filter_cols keep items)"
  using set_take_subset [of 1 items] by (auto simp: scan_filter_cols_def Let_def filter_empty_conv)

lemma scan_filter_distinct: "distinct (map scan_id items) \<Longrightarrow> distinct (map scan_id (scan_filter_cols keep items))"
  by (cases items) (auto simp: scan_filter_cols_def Let_def distinct_map_filter_subset)

lemma prune_leaf_narrowed:
  "scoped (ReadLocalNode d items sess off) \<Longrightarrow>
     narrowed E keep (prune_readlocal keep d items sess off) (ReadLocalNode d items sess off)"
  "scoped (ReadTableNode src items sess) \<Longrightarrow>
     narrowed E keep (prune_readtable keep src items sess) (ReadTableNode src items sess)"
  "scoped (CachedTableNode src items sess orig) \<Longrightarrow>
     narrowed E keep (CachedTableNode src (scan_filter_cols keep items) sess orig) (CachedTableNode src items sess orig)"
proof -
  let ?items = "scan_filter_cols keep items"
  assume sc: "scoped (ReadLocalNode d items sess off)"
  have agree: "rows_agree keep (map (scan_row ?items) src) (map (scan_row items) src)" for src
    by (rule scan_rows_filter)
  let ?off = "case off of None \<Rightarrow> None | Some i \<Rightarrow> if i \<in> keep then Some i else None"
  have "rows_agree keep (read_local E d ?items ?off) (read_local E d items off)"
  proof (cases off)
    case (Some i)
    show ?thesis
    proof (cases "i \<in> keep")
      case True
      then show ?thesis
        using promote_agree [OF agree, of i] Some by (auto simp: read_local_def Let_def insert_absorb)
    next
      case False
      have "rows_agree keep (promote_offsets i (map (scan_row items) src)) (map (scan_row items) src)" for src
        by (rule rows_agree_mono [OF promote_base]) (use False in auto)
      from rows_agree_trans [OF agree rows_agree_sym [OF this]] show ?thesis
        using Some False by (simp add: read_local_def Let_def)
    qed
  qed (simp add: read_local_def agree)
  then show "narrowed E keep (prune_readlocal keep d items sess off) (ReadLocalNode d items sess off)"
    using sc scan_filter_distinct [of items keep] scan_filter_subset [of keep items]
    by (auto simp: narrowed_def prune_readlocal_def elim: rows_agree_mono split: option.splits if_splits)
next
  assume "scoped (ReadTableNode src items sess)"
  then show "narrowed E keep (prune_readtable keep src items sess) (ReadTableNode src items sess)"
    using scan_filter_distinct [of items keep] scan_filter_subset [of keep items]
    by (auto simp: narrowed_def prune_readtable_def read_table_def intro: rows_agree_mono [OF scan_rows_filter])
next
  assume "scoped (CachedTableNode src items sess orig)"
  then show "narrowed E keep (CachedTableNode src (scan_filter_cols keep items) sess orig) (CachedTableNode src items sess orig)"
    using scan_filter_distinct [of items keep] scan_filter_subset [of keep items]
    by (auto simp: narrowed_def read_table_def intro: rows_agree_mono [OF scan_rows_filter])
qed

text \<open>Two selections in a row are one, through the inner selection's renaming.\<close>

lemma select_select:
  assumes "\<And>d j. (d, j) \<in> set pairs \<Longrightarrow> ref_id d \<in> snd ` set inner"
  shows "select_row (map (AliasedRef_remap_refs (dict_of (map (\<lambda>(ref, i). (i, ref_id ref)) inner))) pairs) r =
    select_row pairs (select_row inner r)"
proof
  fix i
  let ?m = "dict_of (map (\<lambda>(ref, i). (i, ref_id ref)) inner)"
  have outer: "dict_of (map (\<lambda>(d, j). (j, d)) (map (AliasedRef_remap_refs ?m) pairs)) i =
      map_option (\<lambda>d. DerefOp (get_or_self ?m (ref_id d))) (dict_of (map (\<lambda>(d, j). (j, d)) pairs) i)"
    using dict_of_map_value [of "\<lambda>d. DerefOp (get_or_self ?m (ref_id d))" "map (\<lambda>(d, j). (j, d)) pairs" i]
    by (simp add: comp_def case_prod_unfold AliasedRef_remap_refs_def)
  have m: "?m k = map_option ref_id (dict_of (map (\<lambda>(d, j). (j, d)) inner) k)" for k
    using dict_of_map_value [of ref_id "map (\<lambda>(d, j). (j, d)) inner" k]
    by (simp add: comp_def case_prod_unfold)
  have "r (get_or_self ?m (ref_id d)) = select_row inner r (ref_id d)"
    if "dict_of (map (\<lambda>(d, j). (j, d)) pairs) i = Some d" for d
  proof -
    have "ref_id d \<in> snd ` set inner" using dict_of_SomeD [OF that] assms by auto
    then have "dict_of (map (\<lambda>(d, j). (j, d)) inner) (ref_id d) \<noteq> None"
      unfolding dict_of_eq_None_iff by force
    then show ?thesis by (auto simp: m select_row_def get_or_self_def)
  qed
  then show "select_row (map (AliasedRef_remap_refs ?m) pairs) r i = select_row pairs (select_row inner r) i"
    using outer by (simp add: select_row_def del: map_map split: option.split)
qed

lemma merge_selections_sound:
  assumes "scoped (SelectionNode (SelectionNode c inner) pairs)"
  shows "scoped (SelectionNode c (map (AliasedRef_remap_refs (dict_of (map (\<lambda>(ref, i). (i, ref_id ref)) inner))) pairs)) \<and>
    same_output E (SelectionNode c (map (AliasedRef_remap_refs (dict_of (map (\<lambda>(ref, i). (i, ref_id ref)) inner))) pairs))
      (SelectionNode (SelectionNode c inner) pairs)"
proof -
  let ?m = "dict_of (map (\<lambda>(ref, i). (i, ref_id ref)) inner)"
  have refs: "ref_id d \<in> snd ` set inner" if "(d, j) \<in> set pairs" for d j
    using assms that by (auto simp: list_all_iff)
  have "get_or_self ?m k \<in> set (out_ids c)" if "k \<in> snd ` set inner" for k
  proof -
    have "?m k \<noteq> None" using that unfolding dict_of_eq_None_iff by force
    then obtain j where "?m k = Some j" by blast
    then show ?thesis using dict_of_SomeD [of _ k j] assms by (fastforce simp: list_all_iff)
  qed
  then have "list_all (\<lambda>(d, _). ref_id d \<in> set (out_ids c)) (map (AliasedRef_remap_refs ?m) pairs)"
    using refs by (fastforce simp: list_all_iff AliasedRef_remap_refs_def)
  moreover have "map snd (map (AliasedRef_remap_refs ?m) pairs) = map snd pairs"
    by (simp add: AliasedRef_remap_refs_def)
  moreover have "map (select_row (map (AliasedRef_remap_refs ?m) pairs)) (rows E c) =
      map (select_row pairs) (map (select_row inner) (rows E c))"
    using select_select [OF refs] by simp
  ultimately show ?thesis
    using assms by (simp add: same_output_iff del: map_map)
qed


text \<open>A selection under a concatenation is done in every input, by position.\<close>

lemma list_index_nth: "list_index xs x = Inr k \<Longrightarrow> k < length xs \<and> xs ! k = x"
  by (induction xs arbitrary: k) (auto simp: rbind_eq_Inr_iff split: if_splits)

lemma dict_of_zip:
  "distinct ks \<Longrightarrow> length vs = length ks \<Longrightarrow> k < length ks \<Longrightarrow> dict_of (zip ks vs) (ks ! k) = Some (vs ! k)"
  by (rule dict_of_distinct) (auto simp: in_set_conv_nth)

lemma prune_concat_child:
  assumes "mapM (\<lambda>i. rbind (nth_or cc i) (\<lambda>j. Inr (AliasedRef_identity j))) indices = Inr sub"
  shows "sub = map (\<lambda>i. AliasedRef_identity (cc ! i)) indices \<and> (\<forall>i \<in> set indices. i < length cc)"
  using assms
  by (induction indices arbitrary: sub) (auto simp: rbind_eq_Inr_iff nth_or_def split: if_splits)

lemma mapM_Inr_member: "mapM f xs = Inr ys \<Longrightarrow> y \<in> set ys \<Longrightarrow> \<exists>x \<in> set xs. f x = Inr y"
  by (induction xs arbitrary: ys) (auto simp: rbind_eq_Inr_iff)

lemma mapM_list_index:
  assumes "mapM (\<lambda>(ref, _). list_index own (ref_id ref)) pairs = Inr indices"
  shows "length indices = length pairs \<and> map ((!) own) indices = map (ref_id \<circ> fst) pairs \<and>
    (\<forall>k \<in> set indices. k < length own)"
  using assms
  by (induction pairs arbitrary: indices) (auto simp: rbind_eq_Inr_iff dest: list_index_nth)

lemma rows_agree_concat:
  "(\<And>c. c \<in> set cs \<Longrightarrow> rows_agree S (f c) (g c)) \<Longrightarrow>
     rows_agree S (concat (map f cs)) (concat (map g cs))"
  by (induction cs) (auto simp: rows_agree_def intro: list_all2_appendI)

lemma concat_rows:
  "rows E (ConcatNode cs out) = concat (map (\<lambda>c. map (concat_row out (out_ids c)) (rows E c)) cs)"
  by (induction cs) simp_all

lemma prune_concat_row:
  assumes "length indices = length pairs" "map ((!) out) indices = map (ref_id \<circ> fst) pairs"
    and "\<forall>k \<in> set indices. k < length out" "length own = length out"
    and "distinct out" "distinct (map snd pairs)"
  shows "agree (set (map snd pairs))
    (concat_row (map snd pairs) (map ((!) own) indices)
      (select_row (map (\<lambda>i. AliasedRef_identity (own ! i)) indices) r))
    (select_row pairs (concat_row out own r))"
  unfolding agree_def
proof
  fix j assume "j \<in> set (map snd pairs)"
  then obtain k where k: "k < length pairs" "snd (pairs ! k) = j"
    by (auto simp: in_set_conv_nth)
  let ?i = "indices ! k"
  have i: "?i < length out" "out ! ?i = ref_id (fst (pairs ! k))"
    using k assms(1-3) nth_map [of k indices "(!) out"] by simp_all
  define r' where "r' = select_row (map (\<lambda>i. AliasedRef_identity (own ! i)) indices) r"
  have "r' (own ! ?i) = r (own ! ?i)"
    unfolding r'_def using select_identity [of "map ((!) own) indices" r "own ! ?i"] k(1) assms(1) by (auto simp: comp_def)
  moreover have "dict_of (zip (map snd pairs) vs) j = Some (vs ! k)" if "length vs = length pairs" for vs :: "sql_value list"
    using dict_of_zip [OF assms(6), of vs k] that k by simp
  moreover have "dict_of (map (\<lambda>(d, j). (j, d)) pairs) j = Some (fst (pairs ! k))"
    by (rule dict_of_distinct) (use k assms(6) in \<open>force simp: in_set_conv_nth comp_def case_prod_unfold\<close>)+
  moreover have "dict_of (zip out (map r own)) (out ! ?i) = Some (r (own ! ?i))"
    using dict_of_zip [OF assms(5), of "map r own" ?i] i(1) assms(4) by simp
  ultimately show "concat_row (map snd pairs) (map ((!) own) indices)
      (select_row (map (\<lambda>i. AliasedRef_identity (own ! i)) indices) r) j =
    select_row pairs (concat_row out own r) j"
    unfolding r'_def [symmetric] using assms(1) k i(2) by (simp add: concat_row_def select_row_def)
qed

text \<open>
  Two ways in which a plan keeps the concatenation case sound: every selection refers to a
  column once, or there is no concatenation at all.
\<close>

fun selects_once :: "bool \<Rightarrow> bfnode \<Rightarrow> bool" where
  "selects_once True (SelectionNode c pairs) = distinct (map (ref_id \<circ> fst) pairs)"
| "selects_once False (ConcatNode cs out) = False"
| "selects_once _ _ = True"

abbreviation prunable :: "bool \<Rightarrow> bfnode \<Rightarrow> bool" where
  "prunable b n \<equiv> scoped n \<and> everywhere (selects_once b) n"

lemma selects_once_transform: "selects_once b (transform_children t n) = selects_once b n"
  by (cases b; cases n) simp_all

lemma prune_concat_sound:
  assumes "prune_concat cs out pairs = Inr m" "scoped (SelectionNode (ConcatNode cs out) pairs)"
    and "distinct (map (ref_id \<circ> fst) pairs)"
  shows "scoped m \<and> same_output E m (SelectionNode (ConcatNode cs out) pairs)"
proof -
  let ?n = "SelectionNode (ConcatNode cs out) pairs"
  obtain own indices where own: "ids (ConcatNode cs out) = Inr own"
    and indices: "mapM (\<lambda>(ref, _). list_index own (ref_id ref)) pairs = Inr indices"
    using assms(1) by (auto simp: prune_concat_def rbind_eq_Inr_iff)
  have lengths: "length (out_ids c) = length out" if "c \<in> set cs" for c
    using assms(2) that by (auto simp: list_all_iff)
  have "own = out"
    using ids_out_ids [OF own] assms(2) lengths by (cases cs) (auto simp: map_fst_zip_take)
  note ix = mapM_list_index [OF indices [unfolded this]]
  show ?thesis
  proof (cases "length indices = 0")
    case True
    then have "m = ?n" using assms(1) own indices by (simp add: prune_concat_def)
    then show ?thesis using assms(2) by simp
  next
    case False
    define new where "new c = SelectionNode c (map (\<lambda>i. AliasedRef_identity (out_ids c ! i)) indices)" for c
    obtain kids out' where kids: "mapM (\<lambda>c. rbind (ids c) (\<lambda>cc. rbind (mapM (\<lambda>i. rbind (nth_or cc i)
          (\<lambda>j. Inr (AliasedRef_identity j))) indices) (\<lambda>sub. Inr (SelectionNode c sub)))) cs = Inr kids"
      and "ids ?n = Inr out'" "m = ConcatNode kids out'"
      using assms(1) own indices False by (auto simp: prune_concat_def rbind_eq_Inr_iff)
    then have m: "m = ConcatNode kids (map snd pairs)" using ids_out_ids [of ?n] by simp
    have "map id kids = map new cs"
      by (rule mapM_Inr_map [OF kids])
        (auto simp: rbind_eq_Inr_iff new_def dest!: ids_out_ids prune_concat_child)
    then have m: "m = ConcatNode (map new cs) (map snd pairs)" using m by simp
    have "distinct indices"
      using assms(3) ix by (metis distinct_map)
    then have "scoped (new c)" if "c \<in> set cs" for c
    proof -
      have c: "scoped c" "distinct (out_ids c)"
        using assms(2) that scoped_distinct by (auto simp: list_all_iff)
      have "inj_on ((!) (out_ids c)) (set indices)"
        using c(2) ix lengths [OF that] by (auto simp: inj_on_def nth_eq_iff_index_eq)
      then have "distinct (map ((!) (out_ids c)) indices)"
        using \<open>distinct indices\<close> by (simp add: distinct_map)
      with c ix lengths [OF that] show ?thesis
        by (auto simp: new_def AliasedRef_identity_def comp_def list_all_iff)
    qed
    moreover have "length (out_ids (new c)) = length pairs" for c
      using ix by (simp add: new_def)
    ultimately have scoped: "scoped m"
      using assms(2) unfolding m by (auto simp: list_all_iff)
    have "rows_agree (set (map snd pairs)) (map (concat_row (map snd pairs) (out_ids (new c))) (rows E (new c)))
        (map (select_row pairs) (map (concat_row out (out_ids c)) (rows E c)))" if "c \<in> set cs" for c
    proof -
      have "agree (set (map snd pairs))
          (concat_row (map snd pairs) (out_ids (new c)) (select_row (map (\<lambda>i. AliasedRef_identity (out_ids c ! i)) indices) r))
          (select_row pairs (concat_row out (out_ids c) r))" for r
      proof -
        have "out_ids (new c) = map ((!) (out_ids c)) indices"
          by (simp add: new_def AliasedRef_identity_def)
        then show ?thesis
          using prune_concat_row [of indices pairs out "out_ids c" r] ix lengths [OF that] assms(2) by simp
      qed
      then show ?thesis
        by (intro rows_agreeI) (simp_all add: new_def del: set_map)
    qed
    then have "rows_agree (set (map snd pairs)) (rows E m) (rows E ?n)"
      unfolding m rows.simps(13) concat_rows map_concat map_map comp_def [of "map (select_row pairs)"]
      by (intro rows_agree_concat) simp
    moreover have "out_ids m = map snd pairs"
      unfolding m using assms(2) ix by (cases cs) (auto simp: new_def map_fst_zip_take)
    ultimately show ?thesis using scoped by (simp add: same_output_iff)
  qed
qed

subsection \<open>One step\<close>

lemma noop_selection:
  assumes "scoped (SelectionNode c pairs)" "map snd pairs = out_ids c" "list_all (\<lambda>(ref, i). ref_id ref = i) pairs"
  shows "same_output E c (SelectionNode c pairs)"
proof -
  have "select_row pairs r i = r i" if i: "i \<in> set (out_ids c)" for r i
  proof -
    have "i \<in> snd ` set pairs" using i assms(2) by (metis list.set_map)
    then have "dict_of (map (\<lambda>(d, j). (j, d)) pairs) i \<noteq> None" unfolding dict_of_eq_None_iff by force
    then obtain d where "dict_of (map (\<lambda>(d, j). (j, d)) pairs) i = Some d" by blast
    moreover from dict_of_SomeD [OF this] have "ref_id d = i" using assms(3) by (auto simp: list_all_iff)
    ultimately show ?thesis by (simp add: select_row_def)
  qed
  then have "rows_agree (set (out_ids c)) (rows E c) (map (select_row pairs) (rows E c))"
    by (intro rows_agreeI) (auto simp: agree_def)
  then show ?thesis using assms(2) by (simp add: same_output_iff)
qed

lemma prune_under_sound:
  assumes "prune_under child pairs = Inr m" "prunable b (SelectionNode child pairs)"
  shows "scoped m \<and> same_output E m (SelectionNode child pairs)"
proof -
  let ?n = "SelectionNode child pairs"
  have scoped: "scoped ?n" using assms(2) by simp
  have through: "scoped m \<and> same_output E m ?n"
    if "passes_through child"
      "rbind (transform_childrenM (prune_node (SelectionNode_consumed_ids pairs \<union> referenced_ids child)) child)
        (\<lambda>new. Inr (SelectionNode new pairs)) = Inr m"
    using that prune_through_sound [OF _ scoped, of _ E] by (auto simp: rbind_eq_Inr_iff)
  show ?thesis
  proof (cases child)
    case (SelectionNode c inner)
    then show ?thesis
      using assms(1) merge_selections_sound [of c inner pairs E] scoped
      by (auto simp: prune_under_def Let_def rbind_eq_Inr_iff SelectionNode_remap_refs_def replace_child_def)
  next
    case (ConcatNode cs out)
    moreover from this have b: "b = True" using assms(2) by (cases b) auto
    ultimately show ?thesis
      using assms prune_concat_sound [of cs out pairs m E] by (simp add: prune_under_def Let_def)
  next
    case (AggregateNode c aggs ks os dn)
    then show ?thesis
      using assms(1) scoped select_narrowed [OF prune_aggregate_narrowed]
      by (auto simp: prune_under_def Let_def)
  next
    case (ReadLocalNode d items sess off)
    then show ?thesis
      using assms(1) scoped select_narrowed [OF prune_leaf_narrowed(1)]
      by (auto simp: prune_under_def Let_def)
  next
    case (ReadTableNode src items sess)
    then show ?thesis
      using assms(1) scoped select_narrowed [OF prune_leaf_narrowed(2)]
      by (auto simp: prune_under_def Let_def)
  next
    case (CachedTableNode src items sess orig)
    then show ?thesis
      using assms(1) scoped select_narrowed [OF prune_leaf_narrowed(3)]
      by (auto simp: prune_under_def Let_def)
  qed (use assms(1) scoped through prune_additive_sound [OF _ scoped, of m E] in \<open>simp_all add: prune_under_def\<close>)
qed

text \<open>The step keeps the condition on selections.\<close>

lemma prune_node_selects:
  assumes "prune_node keep n = Inr m" "prunable b n"
  shows "everywhere (selects_once b) m"
proof (cases "m = n")
  case False
  then obtain own where own: "ids n = Inr own" "m = SelectionNode n (map AliasedRef_identity
      (if filter (\<lambda>i. i \<in> keep) own \<noteq> [] then filter (\<lambda>i. i \<in> keep) own else take 1 own))"
    using assms(1) by (auto simp: prune_node_def Let_def rbind_eq_Inr_iff split: if_splits)
  have "distinct own" using ids_out_ids [OF own(1)] scoped_distinct assms(2) by simp
  then show ?thesis
    using assms(2) own(2) by (cases b) (simp_all add: AliasedRef_identity_def comp_def)
qed (use assms(2) in simp)

lemma prune_additive_selects:
  assumes "prune_additive child pairs = Inr m" "prunable b (SelectionNode child pairs)"
  shows "everywhere (selects_once b) m"
proof -
  have sel: "everywhere (selects_once b) (SelectionNode c pairs)" if "everywhere (selects_once b) c" for c
    using assms(2) that by (cases b) auto
  have kid: "prunable b base" if "prunable b n" "additive_base n = Inr base" for n base
    using that by (cases n) auto
  have new: "everywhere (selects_once b) new"
    if "prunable b n" "replace_additive_base n base = Inr new" "everywhere (selects_once b) base" for n base new
    using that by (cases n; cases b) auto
  have project: "prunable b (ProjectionNode c (filter (\<lambda>(_, i). i \<in> keep) asg))"
    if "prunable b (ProjectionNode c asg)" for c keep asg
    using that by (cases b) (auto simp: list_all_iff distinct_map_filter_subset)
  have child: "prunable b child" using assms(2) by auto
  show ?thesis
    using assms(1) child unfolding prune_additive_def Let_def
    by (cases child)
      (auto simp: rbind_eq_Inr_iff split: if_splits intro!: sel
        intro: kid [THEN conjunct2] new prune_node_selects project)
qed

lemma prune_concat_selects:
  assumes "prune_concat cs out pairs = Inr m" "prunable b (SelectionNode (ConcatNode cs out) pairs)"
  shows "everywhere (selects_once b) m"
proof -
  have b: "b = True" using assms(2) by (cases b) auto
  obtain own indices where own: "ids (ConcatNode cs out) = Inr own"
    and indices: "mapM (\<lambda>(ref, _). list_index own (ref_id ref)) pairs = Inr indices"
    using assms(1) by (auto simp: prune_concat_def rbind_eq_Inr_iff)
  note ix = mapM_list_index [OF indices]
  show ?thesis
  proof (cases "length indices = 0")
    case True
    then have "m = SelectionNode (ConcatNode cs out) pairs"
      using assms(1) own indices by (simp add: prune_concat_def)
    then show ?thesis using assms(2) by simp
  next
    case False
    obtain kids out' where kids: "mapM (\<lambda>c. rbind (ids c) (\<lambda>cc. rbind (mapM (\<lambda>i. rbind (nth_or cc i)
          (\<lambda>j. Inr (AliasedRef_identity j))) indices) (\<lambda>sub. Inr (SelectionNode c sub)))) cs = Inr kids"
      and m: "m = ConcatNode kids out'"
      using assms(1) own indices False by (auto simp: prune_concat_def rbind_eq_Inr_iff)
    have "distinct indices"
      using assms(2) b ix by (metis distinct_map everywhere_simps(13) selects_once.simps(1))
    have "everywhere (selects_once b) k" if member: "k \<in> set kids" for k
    proof -
      obtain c cc sub where c: "c \<in> set cs" and cc: "ids c = Inr cc"
        and sub: "mapM (\<lambda>i. rbind (nth_or cc i) (\<lambda>j. Inr (AliasedRef_identity j))) indices = Inr sub"
        and k: "k = SelectionNode c sub"
        using mapM_Inr_member [OF kids member] by (auto simp: rbind_eq_Inr_iff)
      have "distinct cc"
        using ids_out_ids [OF cc] scoped_distinct c assms(2) by (auto simp: list_all_iff)
      then have "inj_on ((!) cc) (set indices)"
        using prune_concat_child [OF sub] by (auto simp: inj_on_def nth_eq_iff_index_eq)
      then have "distinct (map ((!) cc) indices)" using \<open>distinct indices\<close> by (simp add: distinct_map)
      then show ?thesis
        using prune_concat_child [OF sub] c assms(2) b
        by (auto simp: k AliasedRef_identity_def comp_def list_all_iff)
    qed
    then show ?thesis using b by (simp add: m list_all_iff)
  qed
qed

lemma merged_refs_distinct:
  assumes "distinct (map snd inner)" "distinct (map (ref_id \<circ> fst) inner)"
    "distinct (map (ref_id \<circ> fst) pairs)" "list_all (\<lambda>(d, _). ref_id d \<in> snd ` set inner) pairs"
  shows "distinct (map (ref_id \<circ> fst)
    (map (AliasedRef_remap_refs (dict_of (map (\<lambda>(ref, i). (i, ref_id ref)) inner))) pairs))"
proof -
  let ?m = "dict_of (map (\<lambda>(ref, i). (i, ref_id ref)) inner)"
  have m: "\<exists>d. (d, k) \<in> set inner \<and> get_or_self ?m k = ref_id d" if "k \<in> snd ` set inner" for k
  proof -
    have "?m k \<noteq> None" using that unfolding dict_of_eq_None_iff by force
    then obtain j where "?m k = Some j" by blast
    then show ?thesis using dict_of_SomeD [of _ k j] by fastforce
  qed
  have "inj_on (get_or_self ?m) (snd ` set inner)"
  proof (rule inj_onI)
    fix x y assume xy: "x \<in> snd ` set inner" "y \<in> snd ` set inner" "get_or_self ?m x = get_or_self ?m y"
    obtain d d' where "(d, x) \<in> set inner" "(d', y) \<in> set inner" "ref_id d = ref_id d'"
      using m [OF xy(1)] m [OF xy(2)] xy(3) by force
    moreover have "inj_on (ref_id \<circ> fst) (set inner)" using assms(2) by (simp only: distinct_map)
    ultimately show "x = y" using inj_onD [of "ref_id \<circ> fst" "set inner" "(d, x)" "(d', y)"] by simp
  qed
  then have "inj_on (get_or_self ?m) (set (map (ref_id \<circ> fst) pairs))"
    by (rule inj_on_subset) (use assms(4) in \<open>auto simp: list_all_iff\<close>)
  then have "distinct (map (get_or_self ?m) (map (ref_id \<circ> fst) pairs))"
    using assms(3) by (simp add: distinct_map del: map_map)
  then show ?thesis by (simp add: AliasedRef_remap_refs_def comp_def)
qed

lemma prune_under_selects:
  assumes "prune_under child pairs = Inr m" "prunable b (SelectionNode child pairs)"
  shows "everywhere (selects_once b) m"
proof -
  have sel: "everywhere (selects_once b) (SelectionNode c pairs)" if "everywhere (selects_once b) c" for c
    using assms(2) that by (cases b) auto
  have through: "everywhere (selects_once b) m"
    if run: "rbind (transform_childrenM (prune_node (SelectionNode_consumed_ids pairs \<union> referenced_ids child)) child)
        (\<lambda>new. Inr (SelectionNode new pairs)) = Inr m"
  proof -
    obtain new where new: "m = SelectionNode new pairs"
      "transform_childrenM (prune_node (SelectionNode_consumed_ids pairs \<union> referenced_ids child)) child = Inr new"
      using run by (auto simp: rbind_eq_Inr_iff)
    obtain g where g: "new = transform_children g child" "\<And>c. c \<in> set (child_nodes child) \<Longrightarrow>
        prune_node (SelectionNode_consumed_ids pairs \<union> referenced_ids child) c = Inr (g c)"
      using transform_childrenM_Inr [OF new(2)] by auto
    have "everywhere (selects_once b) (g c)" if "c \<in> set (child_nodes child)" for c
      using g(2) [OF that] assms(2) that scoped_children [OF _ that] everywhere_child [OF _ that]
      by (intro prune_node_selects [OF g(2)]) auto
    then have "everywhere (selects_once b) new"
      unfolding g(1) using assms(2)
      by (intro everywhere_transform) (auto simp: selects_once_transform everywhere_iff [of _ child])
    then show ?thesis unfolding new(1) by (rule sel)
  qed
  show ?thesis
  proof (cases child)
    case (SelectionNode c inner)
    then have "m = SelectionNode c (map (AliasedRef_remap_refs (dict_of (map (\<lambda>(ref, i). (i, ref_id ref)) inner))) pairs)"
      using assms(1) by (auto simp: prune_under_def Let_def rbind_eq_Inr_iff SelectionNode_remap_refs_def replace_child_def)
    then show ?thesis
      using assms(2) SelectionNode merged_refs_distinct [of inner pairs] by (cases b) auto
  next
    case (AggregateNode c aggs ks os dn)
    then show ?thesis using assms by (cases b) (auto simp: prune_under_def Let_def)
  next
    case (ReadLocalNode d items sess off)
    then show ?thesis using assms by (cases b) (auto simp: prune_under_def prune_readlocal_def Let_def)
  next
    case (ReadTableNode src items sess)
    then show ?thesis using assms by (cases b) (auto simp: prune_under_def prune_readtable_def Let_def)
  next
    case (CachedTableNode src items sess orig)
    then show ?thesis using assms by (cases b) (auto simp: prune_under_def Let_def)
  qed (use assms through prune_additive_selects [OF _ assms(2)] prune_concat_selects in
      \<open>simp_all add: prune_under_def\<close>)
qed

lemma prune_selection_child_sound:
  assumes "prune_selection_child child pairs = Inr m" "prunable b (SelectionNode child pairs)"
  shows "prunable b m \<and> same_output E m (SelectionNode child pairs)"
proof -
  obtain own child_ids where ids: "ids (SelectionNode child pairs) = Inr own" "ids child = Inr child_ids"
    using assms(1) by (auto simp: prune_selection_child_def rbind_eq_Inr_iff)
  show ?thesis
  proof (cases "own = child_ids \<and> list_all (\<lambda>(ref, i). ref_id ref = i) pairs")
    case True
    then have "m = child" using assms(1) ids by (simp add: prune_selection_child_def)
    then show ?thesis
      using noop_selection [of child pairs E] True assms(2) ids [THEN ids_out_ids] by simp
  next
    case False
    then have "prune_under child pairs = Inr m"
      using assms(1) ids unfolding prune_selection_child_def by (auto simp: rbind_eq_Inr_iff split: if_splits)
    then show ?thesis using prune_under_sound prune_under_selects assms(2) by blast
  qed
qed

text \<open>
  The forms of a step: the selection is gone, still there (over a narrowed or a lower node), or pushed
  into every input of a concatenation.
\<close>

fun pruned_form :: "bfnode \<Rightarrow> (deref \<times> column_id) list \<Rightarrow> bfnode \<Rightarrow> bool" where
  "pruned_form child pairs (SelectionNode c' pairs') = (map snd pairs' = map snd pairs \<or> SelectionNode c' pairs' = child)"
| "pruned_form (ConcatNode cs out) pairs (ConcatNode kids out') =
     (list_all2 (\<lambda>k c. \<exists>sub. k = SelectionNode c sub) kids cs \<or> ConcatNode kids out' = ConcatNode cs out)"
| "pruned_form child pairs m = (m = child)"

lemma pruned_form_same [simp]: "pruned_form n pairs n"
  by (cases n) simp_all

lemma prune_concat_form:
  assumes "prune_concat cs out pairs = Inr m"
  shows "pruned_form (ConcatNode cs out) pairs m"
proof -
  consider "m = SelectionNode (ConcatNode cs out) pairs"
    | indices kids out' where "mapM (\<lambda>c. rbind (ids c) (\<lambda>cc. rbind (mapM (\<lambda>i. rbind (nth_or cc i)
          (\<lambda>j. Inr (AliasedRef_identity j))) indices) (\<lambda>sub. Inr (SelectionNode c sub)))) cs = Inr kids"
      "m = ConcatNode kids out'"
    using assms by (auto simp: prune_concat_def rbind_eq_Inr_iff split: if_splits)
  then show ?thesis
  proof cases
    case 2
    have "list_all2 (\<lambda>k c. \<exists>sub. k = SelectionNode c sub) kids cs"
      using 2(1) by (induction cs arbitrary: kids) (auto simp: rbind_eq_Inr_iff)
    then show ?thesis using 2(2) by simp
  qed simp
qed

lemma prune_selection_child_form:
  assumes "prune_selection_child child pairs = Inr m"
  shows "pruned_form child pairs m"
proof (cases "m = child")
  case False
  then have "prune_under child pairs = Inr m"
    using assms by (auto simp: prune_selection_child_def rbind_eq_Inr_iff split: if_splits)
  then show ?thesis
    using prune_concat_form [of _ _ pairs m]
    by (cases child) (auto simp: prune_under_def Let_def rbind_eq_Inr_iff prune_additive_def SelectionNode_remap_refs_def
        replace_child_def AliasedRef_remap_refs_def comp_def case_prod_unfold split: if_splits)
qed simp

lemma prune_concat_scoped_iff:
  assumes "prune_selection_child (ConcatNode cs out) pairs = Inr m" "scoped (SelectionNode (ConcatNode cs out) pairs)"
    and "\<not> distinct (map (ref_id \<circ> fst) pairs)"
  shows "(\<exists>kids out'. m = ConcatNode kids out' \<and> (\<forall>k \<in> set kids. \<not> distinct (out_ids k))) \<and> \<not> scoped m"
proof -
  have snds: "distinct (map snd pairs)" using assms(2) by simp
  have "\<not> list_all (\<lambda>(ref, i). ref_id ref = i) pairs"
  proof
    assume "list_all (\<lambda>(ref, i). ref_id ref = i) pairs"
    then have "map (ref_id \<circ> fst) pairs = map snd pairs" by (auto simp: list_all_iff)
    with snds assms(3) show False by simp
  qed
  then have "prune_concat cs out pairs = Inr m"
    using assms(1) by (auto simp: prune_selection_child_def prune_under_def rbind_eq_Inr_iff)
  moreover have "pairs \<noteq> []" using assms(3) by auto
  ultimately obtain own indices kids out' where own: "mapM (\<lambda>(ref, _). list_index own (ref_id ref)) pairs = Inr indices"
    and kids: "mapM (\<lambda>c. rbind (ids c) (\<lambda>cc. rbind (mapM (\<lambda>i. rbind (nth_or cc i)
          (\<lambda>j. Inr (AliasedRef_identity j))) indices) (\<lambda>sub. Inr (SelectionNode c sub)))) cs = Inr kids" "m = ConcatNode kids out'"
    using mapM_list_index [of _ pairs]
    by (fastforce simp: prune_concat_def rbind_eq_Inr_iff split: if_splits)
  have "indices = map (\<lambda>i. projr (list_index own i)) (map (ref_id \<circ> fst) pairs)"
    using own by (induction pairs arbitrary: indices) (auto simp: rbind_eq_Inr_iff)
  then have repeated: "\<not> distinct indices" using assms(3) by (metis distinct_map)
  have kid: "\<not> distinct (out_ids k)" if member: "k \<in> set kids" for k
  proof -
    obtain c cc sub where sub: "mapM (\<lambda>i. rbind (nth_or cc i) (\<lambda>j. Inr (AliasedRef_identity j))) indices = Inr sub" "k = SelectionNode c sub"
      using mapM_Inr_member [OF kids(1) member] by (auto simp: rbind_eq_Inr_iff)
    then have "out_ids k = map (\<lambda>i. cc ! i) indices"
      using prune_concat_child [OF sub(1)] by (simp add: AliasedRef_identity_def comp_def)
    then show ?thesis using repeated by (simp add: distinct_map)
  qed
  moreover have "\<not> scoped m"
  proof
    assume "scoped m"
    then obtain k where "k \<in> set kids" "scoped k" unfolding kids(2) by (cases kids) auto
    then show False using kid scoped_distinct by blast
  qed
  ultimately show ?thesis using kids(2) by blast
qed

lemma prune_concat_step_scoped:
  assumes "prune_selection_child (ConcatNode cs out) pairs = Inr m" "scoped (SelectionNode (ConcatNode cs out) pairs)"
    and "distinct (map (ref_id \<circ> fst) pairs)"
  shows "scoped m"
proof (cases "m = ConcatNode cs out")
  case False
  then have "prune_concat cs out pairs = Inr m"
    using assms(1) by (auto simp: prune_selection_child_def prune_under_def rbind_eq_Inr_iff split: if_splits)
  then show ?thesis using prune_concat_sound assms(2,3) by blast
qed (use assms(2) in simp)

lemma result_narrowed:
  assumes "narrowed E (ResultNode_consumed_ids outs ord) c' c" "scoped (ResultNode c outs ord k)"
  shows "scoped (ResultNode c' outs ord k) \<and> same_output E (ResultNode c' outs ord k) (ResultNode c outs ord k)"
proof -
  let ?keep = "ResultNode_consumed_ids outs ord \<inter> set (out_ids c)"
  have refs: "ref_id d \<in> ?keep" if pair: "(d, j) \<in> set outs" for d j
  proof -
    have "ref_id d \<in> set (out_ids c)" using assms(2) pair by (auto simp: list_all_iff)
    moreover have "ref_id d \<in> ResultNode_consumed_ids outs ord"
      using pair by (force simp: ResultNode_consumed_ids_def)
    ultimately show ?thesis by blast
  qed
  have ord: "parts_refs (ordering_value_columns x) \<subseteq> ?keep" if "ord = Some x" for x
    using assms(2) that by (auto simp: ResultNode_consumed_ids_def ordering_referenced_def parts_refs_def)
  have keep: "?keep \<subseteq> set (out_ids c')" using assms(1) by (simp add: narrowed_def)
  have "result_rows E outs ord k (rows E c') = result_rows E outs ord k (rows E c)"
    using assms(1) refs ord by (intro result_agree [of ?keep]) (auto simp: narrowed_def)
  moreover have "scoped (ResultNode c' outs ord k)"
  proof -
    have "list_all (\<lambda>(d, _). ref_id d \<in> set (out_ids c')) outs"
      unfolding list_all_iff using refs keep by blast
    moreover have "\<forall>x \<in> set_option ord. parts_refs (ordering_value_columns x) \<subseteq> set (out_ids c')"
      using ord keep by fastforce
    ultimately show ?thesis using assms by (simp add: narrowed_def)
  qed
  ultimately show ?thesis by (simp add: same_output_iff)
qed

lemma aggregate_narrowed:
  assumes "narrowed E (AggregateNode_consumed_ids aggs ks os) c' c" "scoped (AggregateNode c aggs ks os dn)"
  shows "scoped (AggregateNode c' aggs ks os dn) \<and>
    same_output E (AggregateNode c' aggs ks os dn) (AggregateNode c aggs ks os dn)"
proof -
  let ?keep = "AggregateNode_consumed_ids aggs ks os \<inter> set (out_ids c)"
  have refs: "set (map ref_id ks) \<subseteq> ?keep" "parts_refs os \<subseteq> ?keep"
    using assms(2) by (auto simp: AggregateNode_consumed_ids_def parts_refs_def referenced_columns_def)
  have agg: "set (column_references e) \<subseteq> ?keep" if pair: "(e, j) \<in> set aggs" for e j
  proof -
    have "set (column_references e) \<subseteq> set (out_ids c)" using assms(2) pair by (auto simp: list_all_iff)
    moreover have "set (column_references e) \<subseteq> AggregateNode_consumed_ids aggs ks os"
      using pair by (force simp: AggregateNode_consumed_ids_def)
    ultimately show ?thesis by blast
  qed
  have keep: "?keep \<subseteq> set (out_ids c')" using assms(1) by (simp add: narrowed_def)
  have "aggregate_rows E aggs (map ref_id ks) os dn (rows E c') = aggregate_rows E aggs (map ref_id ks) os dn (rows E c)"
    using assms(1) refs agg by (intro aggregate_agree [of ?keep]) (auto simp: narrowed_def)
  moreover have "set (map ref_id ks) \<subseteq> set (out_ids c')" "parts_refs os \<subseteq> set (out_ids c')"
    using refs keep by blast+
  moreover have "list_all (\<lambda>(e, _). set (column_references e) \<subseteq> set (out_ids c')) aggs"
    unfolding list_all_iff using agg keep by blast
  ultimately show ?thesis using assms by (simp add: same_output_iff narrowed_def)
qed

lemma prune_once_sound:
  assumes "prune_once n = Inr m" "prunable b n"
  shows "prunable b m \<and> same_output E m n"
proof (cases n)
  case (SelectionNode c pairs)
  then show ?thesis
    using prune_selection_child_sound [of c pairs m b E] assms by simp
next
  case (ResultNode c outs ord k)
  then obtain c' where c': "prune_node (ResultNode_consumed_ids outs ord) c = Inr c'" "m = ResultNode c' outs ord k"
    using assms(1) by (auto simp: rbind_eq_Inr_iff)
  have "narrowed E (ResultNode_consumed_ids outs ord) c' c"
    using c'(1) assms(2) ResultNode by (intro prune_node_narrowed) auto
  moreover have "prunable b c" using assms(2) ResultNode by (cases b) auto
  then have "everywhere (selects_once b) c'" by (rule prune_node_selects [OF c'(1)])
  ultimately show ?thesis
    using result_narrowed assms(2) ResultNode c'(2) by (cases b) auto
next
  case (AggregateNode c aggs ks os dn)
  then obtain c' where c': "prune_node (AggregateNode_consumed_ids aggs ks os) c = Inr c'"
      "m = AggregateNode c' aggs ks os dn"
    using assms(1) by (auto simp: rbind_eq_Inr_iff)
  have "narrowed E (AggregateNode_consumed_ids aggs ks os) c' c"
    using c'(1) assms(2) AggregateNode by (intro prune_node_narrowed) auto
  moreover have "prunable b c" using assms(2) AggregateNode by (cases b) auto
  then have "everywhere (selects_once b) c'" by (rule prune_node_selects [OF c'(1)])
  ultimately show ?thesis
    using aggregate_narrowed assms(2) AggregateNode c'(2) by (cases b) auto
qed (use assms in auto)

subsection \<open>To a fixed point, over a plan\<close>

lemma to_fixed_loop_sound:
  assumes "\<And>n m. f n = Inr m \<Longrightarrow> P n \<Longrightarrow> P m \<and> same_output E m n"
  shows "to_fixed_loop f k previous n = Inr m \<Longrightarrow> P n \<Longrightarrow> P m \<and> same_output E m n"
proof (induction k arbitrary: previous n)
  case (Suc k)
  show ?case
  proof (cases "previous = Some n")
    case False
    then obtain new where new: "f n = Inr new" "to_fixed_loop f k (Some n) new = Inr m"
      using Suc.prems(1) by (auto simp: rbind_eq_Inr_iff)
    have "P new \<and> same_output E new n" by (rule assms [OF new(1) Suc.prems(2)])
    with Suc.IH [OF new(2)] show ?thesis by (auto intro: same_output_trans)
  qed (use Suc.prems in simp)
qed simp

lemma prune_columns_sound:
  assumes "prune_columns n = Inr m" "prunable b n"
  shows "prunable b m \<and> same_output E m n"
proof -
  obtain n' where n': "prune_once n = Inr n'" "to_fixed_loop prune_once 99 None n' = Inr m"
    using assms(1) by (auto simp: prune_columns_def to_fixed_def rbind_eq_Inr_iff)
  have "prunable b n' \<and> same_output E n' n" by (rule prune_once_sound [OF n'(1) assms(2)])
  then show ?thesis
    using to_fixed_loop_sound [of prune_once "prunable b" E, OF prune_once_sound n'(2)]
    by (auto intro: same_output_trans)
qed

interpretation pruning: plan_rewrite "pure_step prune_columns" "same_output E" "prunable b" "\<lambda>_ _. True" "\<lambda>_ _. True" for E b
proof unfold_locales
  fix n m :: bfnode and s s' :: unit
  assume "prunable b n" "pure_step prune_columns n s = Inr (m, s')"
  then show "prunable b m \<and> same_output E m n \<and> True \<and> True"
    using prune_columns_sound by (auto simp: pure_step_def rbind_eq_Inr_iff)
next
  fix n c assume "prunable b n" "c \<in> set (child_nodes n)"
  then show "prunable b c" using scoped_children everywhere_child by blast
next
  fix n t assume n: "prunable b n"
    and kids: "\<And>c. c \<in> set (child_nodes n) \<Longrightarrow> prunable b (t c) \<and> same_output E (t c) c"
  have "everywhere (selects_once b) (transform_children t n)"
    using n kids by (intro everywhere_transform)
      (auto simp: selects_once_transform everywhere_iff [of "selects_once b" n])
  then show "prunable b (transform_children t n) \<and> same_output E (transform_children t n) n"
    using scoped_transform [of n t] transform_children_same_output [of n E t] n kids by (auto simp: same_output_def)
qed (auto intro: same_output_trans)

subsection \<open>Pruning returns\<close>

text \<open>
  A step adds no node but selections, and no selection on top: the traversal meets plans with
  fewer other nodes, or with fewer selections on top.
\<close>

fun not_selection :: "bfnode \<Rightarrow> nat" where
  "not_selection (SelectionNode _ _) = 0"
| "not_selection _ = 1"

fun selections_on_top :: "bfnode \<Rightarrow> nat" where
  "selections_on_top (SelectionNode c _) = Suc (selections_on_top c)"
| "selections_on_top _ = 0"

definition prune_measure :: "(bfnode \<times> bfnode) set" where
  "prune_measure = inv_image (less_than <*lex*> less_than) (\<lambda>n. (weight not_selection n, selections_on_top n))"

definition pruned_below :: "bfnode \<Rightarrow> bfnode \<Rightarrow> bool" where
  "pruned_below m n \<longleftrightarrow> weight not_selection m < weight not_selection n \<or>
     weight not_selection m = weight not_selection n \<and> selections_on_top m \<le> selections_on_top n"

lemma pruned_below_trans: "pruned_below m n \<Longrightarrow> pruned_below n k \<Longrightarrow> pruned_below m k"
  by (auto simp: pruned_below_def)

lemma not_selection_transform: "not_selection (transform_children t n) = not_selection n"
  by (cases n) simp_all

lemma prune_node_weight: "prune_node keep n = Inr m \<Longrightarrow> weight not_selection m = weight not_selection n"
  by (auto simp: prune_node_def Let_def rbind_eq_Inr_iff split: if_splits)

lemma replace_base_weight:
  "additive_base n = Inr b \<Longrightarrow> replace_additive_base n b' = Inr m \<Longrightarrow> weight not_selection b' = weight not_selection b \<Longrightarrow>
     weight not_selection m = weight not_selection n \<and> selections_on_top m = 0 \<and> selections_on_top n = 0"
  by (cases n) auto

lemma prune_additive_below:
  assumes "prune_additive child pairs = Inr m"
  shows "pruned_below m (SelectionNode child pairs)"
proof -
  have base: "weight not_selection b < weight not_selection n" if "additive_base n = Inr b" for n b
    using that by (cases n) auto
  show ?thesis
    using assms unfolding prune_additive_def Let_def
    by (cases child)
      (auto simp: rbind_eq_Inr_iff pruned_below_def split: if_splits dest: base prune_node_weight)
qed

lemma prune_concat_below:
  assumes "prune_concat cs out pairs = Inr m"
  shows "pruned_below m (SelectionNode (ConcatNode cs out) pairs)"
proof -
  consider "m = SelectionNode (ConcatNode cs out) pairs"
    | indices kids out' where "mapM (\<lambda>c. rbind (ids c) (\<lambda>cc. rbind (mapM (\<lambda>i. rbind (nth_or cc i)
          (\<lambda>j. Inr (AliasedRef_identity j))) indices) (\<lambda>sub. Inr (SelectionNode c sub)))) cs = Inr kids"
      "m = ConcatNode kids out'"
    using assms by (auto simp: prune_concat_def rbind_eq_Inr_iff split: if_splits)
  then show ?thesis
  proof cases
    case 2
    then have "map (weight not_selection) kids = map (weight not_selection) cs"
      by (elim mapM_Inr_map) (auto simp: rbind_eq_Inr_iff)
    then have "sum_list (map (weight not_selection) kids) = sum_list (map (weight not_selection) cs)"
      by (rule arg_cong)
    then show ?thesis using 2(2) by (simp add: pruned_below_def)
  qed (simp add: pruned_below_def)
qed

lemma prune_under_below:
  assumes "prune_under child pairs = Inr m"
  shows "pruned_below m (SelectionNode child pairs)"
proof -
  have through: "pruned_below m (SelectionNode child pairs)"
    if passes: "passes_through child" and run:
      "rbind (transform_childrenM (prune_node (SelectionNode_consumed_ids pairs \<union> referenced_ids child)) child)
        (\<lambda>new. Inr (SelectionNode new pairs)) = Inr m"
  proof -
    obtain g where g: "m = SelectionNode (transform_children g child) pairs"
      "\<And>c. c \<in> set (child_nodes child) \<Longrightarrow>
        prune_node (SelectionNode_consumed_ids pairs \<union> referenced_ids child) c = Inr (g c)"
      using run by (auto simp: rbind_eq_Inr_iff dest!: transform_childrenM_Inr)
    have "weight not_selection (transform_children g child) = weight not_selection child"
      by (rule weight_transform) (auto simp: not_selection_transform dest: g(2) prune_node_weight)
    then show ?thesis using passes by (cases child) (simp_all add: g(1) pruned_below_def)
  qed
  show ?thesis
    using assms through prune_additive_below [of child pairs m] prune_concat_below [of _ _ pairs m]
    by (cases child) (auto simp: prune_under_def Let_def pruned_below_def prune_readlocal_def prune_readtable_def
        rbind_eq_Inr_iff SelectionNode_remap_refs_def replace_child_def)
qed

lemma prune_once_below: "prune_once n = Inr m \<Longrightarrow> pruned_below m n"
  by (cases n) (auto simp: prune_selection_child_def rbind_eq_Inr_iff pruned_below_def
      dest: prune_under_below [unfolded pruned_below_def] prune_node_weight split: if_splits)

lemma to_fixed_loop_below:
  "to_fixed_loop prune_once k previous n = Inr m \<Longrightarrow> pruned_below m n"
proof (induction k arbitrary: previous n)
  case (Suc k)
  then show ?case
    by (auto simp: rbind_eq_Inr_iff pruned_below_def [of m m] split: if_splits
        dest!: Suc.IH prune_once_below intro: pruned_below_trans)
qed (simp add: pruned_below_def)

lemma prune_columns_below: "prune_columns n = Inr m \<Longrightarrow> pruned_below m n"
  by (auto simp: prune_columns_def to_fixed_def rbind_eq_Inr_iff
      dest!: to_fixed_loop_below prune_once_below intro: pruned_below_trans)

lemma column_pruning_returns: "\<exists>res. column_pruning r0 = Some res"
proof -
  have "(c, n) \<in> prune_measure" if "prune_columns n = Inr m" "c \<in> set (child_nodes m)" for n m c
    using prune_columns_below [OF that(1)] that(2) weight_child [OF that(2), of not_selection]
    by (cases m) (auto simp: prune_measure_def pruned_below_def)
  then have "\<exists>res. top_down (pure_step prune_columns) r0 () = Some res"
    by (intro top_down_returns [of prune_measure "\<lambda>_. True"])
      (auto simp: prune_measure_def pure_step_def rbind_eq_Inr_iff)
  then show ?thesis by (auto simp: column_pruning_def)
qed

lemma column_pruning_sound:
  assumes "column_pruning r0 = Some (Inr m)" "prunable b r0"
  shows "prunable b m \<and> same_output E m r0"
proof -
  have "top_down (pure_step prune_columns) r0 () = Some (Inr (m, ()))"
    using assms(1) by (auto simp: column_pruning_def rbind_eq_Inr_iff)
  from pruning.top_down_sound [OF this, of b E] assms(2) show ?thesis by simp
qed

end
