(* ===== verification/Reference_Renaming.thy ===== *)
theory Reference_Renaming
  imports Rewrite_Framework
begin

text \<open>
  What renaming the references of a node does to its rows: the renamed node over some rows computes
  what the node computes over those rows read through the renaming. Additive nodes are described
  by the cells they add.
\<close>

subsection \<open>Expressions\<close>

text \<open>A row read through a renaming of columns, and an expression and an ordering part renamed.\<close>

definition pre :: "id_mapping \<Rightarrow> row \<Rightarrow> row" where
  "pre m r = (\<lambda>i. r (get_or_self m i))"

abbreviation rename_expr :: "id_mapping \<Rightarrow> expr \<Rightarrow> expr" where
  "rename_expr m \<equiv> subst_expr (bound_to (deref_bindings m))"

abbreviation rename_part :: "id_mapping \<Rightarrow> expr ordering_expression \<Rightarrow> expr ordering_expression" where
  "rename_part m \<equiv> map_ordering_expression (rename_expr m)"

definition rename_deref :: "id_mapping \<Rightarrow> deref \<Rightarrow> deref" where
  "rename_deref m d = (case m (ref_id d) of Some j \<Rightarrow> DerefOp j | None \<Rightarrow> d)"

lemma ref_id_rename [simp]: "ref_id (rename_deref m d) = get_or_self m (ref_id d)"
  by (simp add: rename_deref_def get_or_self_def split: option.split)

lemma deref_remap_partial [simp]: "deref_remap m True d = Inr (rename_deref m d)"
  by (simp add: deref_remap_def rename_deref_def split: option.split)

lemma deref_remap_strict: "ref_id d \<in> dom m \<Longrightarrow> deref_remap m b d = Inr (rename_deref m d)"
  by (auto simp: deref_remap_def rename_deref_def)

lemma eval_rename: "eval E r (rename_expr m e) = eval E (pre m r) e"
proof (induction e)
  case (Deref d)
  then show ?case by (simp add: bound_to_def deref_bindings_def pre_def get_or_self_def split: option.split)
next
  case (OpExpression op inputs)
  then have "map (eval E r) (map (rename_expr m) inputs) = map (eval E (pre m r)) inputs" by simp
  then show ?case by (simp add: comp_def del: map_map map_eq_conv)
qed simp_all

lemma refs_rename: "column_references (rename_expr m e) = map (get_or_self m) (column_references e)"
proof -
  have "concat (map (\<lambda>i. case deref_bindings m i of None \<Rightarrow> [i] | Some x \<Rightarrow> column_references x) is) = map (get_or_self m) is" for "is"
    by (induction "is") (auto simp: deref_bindings_def get_or_self_def split: option.split)
  then show ?thesis by (simp add: references_subst)
qed

lemma remap_partial [simp]: "remap_column_refs m True e = Inr (rename_expr m e)"
  by (simp add: remap_column_refs_def)

lemma ordering_remap_part:
  "b \<or> referenced_columns p \<subseteq> dom m \<Longrightarrow> ordering_remap m b p = Inr (rename_part m p)"
  by (cases p) (auto simp: ordering_remap_def ordering_bind_refs_def bind_refs_subst all_bound_def deref_bindings_def
      referenced_columns_def)

lemma agg_parts_rename:
  "agg_parts (rename_expr m e) = map_option (\<lambda>(op, args). (op, map (rename_expr m) args)) (agg_parts e)"
  by (cases e) (auto simp: bound_to_def deref_bindings_def split: option.split)

subsection \<open>Operations that keep the columns\<close>

lemma filter_pre: "filter_rows E p (map (pre m) rs) = map (pre m) (filter_rows E (rename_expr m p) rs)"
  by (simp add: filter_rows_def filter_map comp_def eval_rename)

lemma rename_part_sel [simp]:
  "scalar_expression (rename_part m p) = rename_expr m (scalar_expression p)"
  "order_direction (rename_part m p) = order_direction p" "na_last (rename_part m p) = na_last p"
  by (cases p; simp)+

lemma row_compare_pre: "row_compare E ps (pre m r) (pre m s) = row_compare E (map (rename_part m) ps) r s"
proof -
  have "part_compare nl ord (rename_part m p) = part_compare nl ord p" for nl and ord :: "sql_value \<Rightarrow> sql_value \<Rightarrow> int" and p
    by (intro ext) (simp add: part_compare_def)
  then show ?thesis by (induction ps) (simp_all add: row_compare_def eval_rename Let_def)
qed

lemma stable_sort_map: "stable_sort cmp (map f xs) = map f (stable_sort (\<lambda>x y. cmp (f x) (f y)) xs)"
proof -
  have "insert_by cmp (f x) (map f ys) = map f (insert_by (\<lambda>x y. cmp (f x) (f y)) x ys)" for x ys
    by (induction ys) auto
  then show ?thesis unfolding stable_sort_def by (induction xs) simp_all
qed

lemma sort_pre: "sort_rows E ps (map (pre m) rs) = map (pre m) (sort_rows E (map (rename_part m) ps) rs)"
  by (simp add: sort_rows_def stable_sort_map row_compare_pre)

lemma sample_map: "sample_rows E fr (map f rs) = map f (sample_rows E fr rs)"
  by (simp add: sample_rows_def)

lemma py_slice_map: "py_slice sl (map f xs) = map f (py_slice sl xs)"
proof -
  have "map f xs ! nat j = f (xs ! nat j)" if "j \<in> set (slice_positions sl (int (length xs)))" for j
    using slice_positions_range [OF that] by (intro nth_map) linarith
  then show ?thesis by (simp add: py_slice_def)
qed

subsection \<open>The cells an additive node adds\<close>

fun added_ids :: "bfnode \<Rightarrow> column_id list" where
  "added_ids (InNode l r x i) = [i]"
| "added_ids (PromoteOffsetsNode c i) = [i]"
| "added_ids (ProjectionNode c asg) = map snd asg"
| "added_ids (WindowOpNode c ds w) = map cdef_id ds"
| "added_ids n = []"

fun additive_refs :: "bfnode \<Rightarrow> column_id set" where
  "additive_refs (InNode l r x i) = {ref_id x}"
| "additive_refs (ProjectionNode c asg) = (\<Union>(e, _) \<in> set asg. set (column_references e))"
| "additive_refs (WindowOpNode c ds w) = all_referenced_columns w \<union> (\<Union>d \<in> set ds. set (column_references (cdef_expression d)))"
| "additive_refs n = {}"

text \<open>The cell in a column added to the \<open>k\<close>th of some rows.\<close>

fun additive_cell :: "engine \<Rightarrow> bfnode \<Rightarrow> row list \<Rightarrow> nat \<Rightarrow> column_id \<Rightarrow> sql_value" where
  "additive_cell E (InNode l r x i) rs k j = BoolS
     (list_ex (\<lambda>s. case out_ids r of [] \<Rightarrow> False | a # _ \<Rightarrow> equal_keys E ((rs ! k) (ref_id x)) (s a)) (rows E r))"
| "additive_cell E (PromoteOffsetsNode c i) rs k j = IntS (int k)"
| "additive_cell E (ProjectionNode c asg) rs k j =
     (case dict_of (map (\<lambda>(e, i). (i, e)) asg) j of None \<Rightarrow> NULL | Some e \<Rightarrow> eval E (rs ! k) e)"
| "additive_cell E (WindowOpNode c ds w) rs k j =
     (case dict_of (map (\<lambda>d. (cdef_id d, cdef_expression d)) ds) j of None \<Rightarrow> NULL | Some e \<Rightarrow> window_cell E w rs e k)"
| "additive_cell E n rs k j = NULL"

definition extend_rows :: "column_id set \<Rightarrow> (nat \<Rightarrow> column_id \<Rightarrow> sql_value) \<Rightarrow> row list \<Rightarrow> row list" where
  "extend_rows A V rs = map (\<lambda>k i. if i \<in> A then V k i else (rs ! k) i) [0..<length rs]"

lemma length_extend [simp]: "length (extend_rows A V rs) = length rs"
  by (simp add: extend_rows_def)

lemma nth_extend [simp]: "k < length rs \<Longrightarrow> (extend_rows A V rs ! k) i = (if i \<in> A then V k i else (rs ! k) i)"
  by (simp add: extend_rows_def)

lemma dict_key_iff: "dict_of (map (\<lambda>x. (f x, g x)) xs) i = None \<longleftrightarrow> i \<notin> f ` set xs"
  by (simp add: dict_of_eq_None_iff image_image)

lemma dict_key_Some: "dict_of (map (\<lambda>x. (f x, g x)) xs) i = Some v \<Longrightarrow> i \<in> f ` set xs"
  using dict_key_iff [of f g xs i] by auto

lemma project_cell:
  "project_row E asg r j = (if j \<in> snd ` set asg
     then case dict_of (map (\<lambda>(e, i). (i, e)) asg) j of None \<Rightarrow> NULL | Some e \<Rightarrow> eval E r e else r j)"
  by (auto simp: project_row_def dict_key_iff case_prod_unfold dest: dict_key_Some split: option.split)

lemma additive_rows:
  assumes "additive_base n = Inr b"
  shows "rows E n = extend_rows (set (added_ids n)) (additive_cell E n (rows E b)) (rows E b)"
proof (rule nth_equalityI)
  show "length (rows E n) = length (extend_rows (set (added_ids n)) (additive_cell E n (rows E b)) (rows E b))"
    using assms by (cases n) (simp_all add: isin_rows_def promote_offsets_def with_column_def offsets_def window_rows_def)
  fix k assume "k < length (rows E n)"
  with assms show "rows E n ! k = extend_rows (set (added_ids n)) (additive_cell E n (rows E b)) (rows E b) ! k"
    by (cases n) (auto simp: fun_eq_iff extend_rows_def isin_rows_def promote_offsets_def with_column_def offsets_def
        window_rows_def project_cell dict_key_iff dest: dict_key_Some split: option.split)
qed

lemma additive_scoped:
  assumes "additive_base n = Inr b"
  shows "scoped n \<longleftrightarrow> scoped b \<and> distinct (added_ids n) \<and> set (added_ids n) \<inter> set (out_ids b) = {} \<and>
    additive_refs n \<subseteq> set (out_ids b) \<and> (\<forall>l r x i. n = InNode l r x i \<longrightarrow> scoped r)"
  using assms by (cases n) (auto simp: list_all_iff)

lemma additive_out_ids: "additive_base n = Inr b \<Longrightarrow> out_ids n = out_ids b @ added_ids n"
  by (cases n) simp_all

lemma additive_cell_agree:
  assumes "additive_base n = Inr b" "additive_refs n \<subseteq> S" "rows_agree S rs rs'" "k < length rs"
  shows "additive_cell E n rs k j = additive_cell E n rs' k j"
proof -
  have k: "agree S (rs ! k) (rs' ! k)" by (rule rows_agree_nth [OF assms(3,4)])
  show ?thesis
  proof (cases n)
    case (InNode l r x i)
    then have "(rs ! k) (ref_id x) = (rs' ! k) (ref_id x)" using k assms(2) by (auto simp: agree_def)
    then show ?thesis by (simp add: InNode cong: list.case_cong)
  next
    case (ProjectionNode c asg)
    have "eval E (rs ! k) e = eval E (rs' ! k) e" if "dict_of (map (\<lambda>(e, i). (i, e)) asg) j = Some e" for e
      using dict_of_SomeD [OF that] assms(2) k by (intro eval_cong [of e S]) (auto simp: ProjectionNode)
    then show ?thesis by (auto simp: ProjectionNode split: option.split)
  next
    case (WindowOpNode c ds w)
    have "window_cell E w rs e k = window_cell E w rs' e k"
      if "dict_of (map (\<lambda>d. (cdef_id d, cdef_expression d)) ds) j = Some e" for e
      using dict_of_SomeD [OF that] assms(2-4) by (intro window_cell_agree [where S = S]) (auto simp: WindowOpNode)
    then show ?thesis by (auto simp: WindowOpNode split: option.split)
  qed (use assms(1) in simp_all)
qed

subsection \<open>Additive nodes with renamed references\<close>

lemma partition_pre:
  assumes "k < length rs"
  shows "partition_of E w (map (pre m) rs) k = partition_of E (map_window_spec (rename_expr m) w) rs k"
proof -
  obtain ks os b mp where w: "w = WindowSpec ks os b mp" by (cases w)
  have "row_compare E os (map (pre m) rs ! i) (map (pre m) rs ! j) = row_compare E (map (rename_part m) os) (rs ! i) (rs ! j)"
    if "i < length rs" "j < length rs" for i j
    using that by (simp add: row_compare_pre)
  moreover have "filter (\<lambda>j. map (eval E (map (pre m) rs ! j)) ks = map (eval E (map (pre m) rs ! k)) ks) [0..<length rs] =
      filter (\<lambda>j. map (eval E (rs ! j)) (map (rename_expr m) ks) = map (eval E (rs ! k)) (map (rename_expr m) ks)) [0..<length rs]"
    using assms by (intro filter_cong) (auto simp: eval_rename)
  ultimately show ?thesis
    by (simp add: partition_of_def w del: map_eq_conv map_map) (rule stable_sort_cong, auto)
qed

lemma window_cell_pre:
  assumes "k < length rs"
  shows "window_cell E w (map (pre m) rs) e k = window_cell E (map_window_spec (rename_expr m) w) rs (rename_expr m e) k"
proof -
  obtain ks os b mp where w: "w = WindowSpec ks os b mp" by (cases w)
  note part = partition_pre [OF assms, of E w m]
  have rows: "j < length rs" if "j \<in> set (partition_of E (map_window_spec (rename_expr m) w) rs k)" for j
    using set_partition_of [OF that] .
  show ?thesis
    unfolding window_cell_def agg_parts_rename part
    using rows by (auto simp: w Let_def eval_rename comp_def split: option.split intro!: arg_cong2 [where f = "\<lambda>xs ys. window_value E _ _ _ xs ys _"])
qed

lemma dict_of_rename: "dict_of (map (\<lambda>x. (f x, g (h x))) xs) i = map_option g (dict_of (map (\<lambda>x. (f x, h x)) xs) i)"
  by (induction xs) (auto simp: dict_of_Cons split: option.split)

lemma additive_remap:
  assumes "additive_base n = Inr b"
  shows "\<exists>n'. remap_refs m n = Inr n' \<and> additive_base n' = Inr b \<and> added_ids n' = added_ids n \<and>
    additive_refs n' = get_or_self m ` additive_refs n \<and>
    (\<forall>l r x i. n' = InNode l r x i \<longrightarrow> (\<exists>l' x' i'. n = InNode l' r x' i')) \<and>
    (\<forall>rs k j. k < length rs \<longrightarrow> additive_cell E n' rs k j = additive_cell E n (map (pre m) rs) k j)"
proof (cases n)
  case (InNode l r x i)
  then show ?thesis using assms by (simp add: InNode_remap_refs_def pre_def cong: list.case_cong)
next
  case (PromoteOffsetsNode c i)
  then show ?thesis using assms by simp
next
  case (ProjectionNode c asg)
  have asg: "mapM (\<lambda>(e, i). Inr (rename_expr m e, i)) asg =
      Inr (map (\<lambda>(e, i). (rename_expr m e, i)) asg)"
    by (rule mapM_InrI) auto
  have cells: "dict_of (map (\<lambda>(e, i). (i, e)) (map (\<lambda>(e, i). (rename_expr m e, i)) asg)) j =
      map_option (rename_expr m) (dict_of (map (\<lambda>(e, i). (i, e)) asg) j)" for j
    using dict_of_rename [of snd "rename_expr m" fst asg j] by (simp add: comp_def case_prod_unfold)
  have names: "map snd (map (\<lambda>(e, i). (rename_expr m e, i)) asg) = map snd asg" by (simp add: case_prod_unfold comp_def)
  have refs: "(\<Union>(e, _) \<in> set (map (\<lambda>(e, i). (rename_expr m e, i)) asg). set (column_references e)) =
      get_or_self m ` (\<Union>(e, _) \<in> set asg. set (column_references e))"
    by (auto simp: refs_rename image_UN case_prod_unfold)
  show ?thesis
    using assms refs names
    by (auto simp: ProjectionNode ProjectionNode_remap_refs_def asg cells eval_rename simp del: map_map split: option.split)
next
  case (WindowOpNode c ds w)
  have ds: "mapM (\<lambda>d. rbind (remap_column_refs m True (cdef_expression d)) (\<lambda>e. Inr (ColumnDef e (cdef_id d)))) ds =
      Inr (map (\<lambda>d. ColumnDef (rename_expr m (cdef_expression d)) (cdef_id d)) ds)"
    by (rule mapM_InrI) simp
  have cells: "dict_of (map (\<lambda>d. (cdef_id d, cdef_expression d)) (map (\<lambda>d. ColumnDef (rename_expr m (cdef_expression d)) (cdef_id d)) ds)) j =
      map_option (rename_expr m) (dict_of (map (\<lambda>d. (cdef_id d, cdef_expression d)) ds) j)" for j
    using dict_of_rename [of cdef_id "rename_expr m" cdef_expression ds j] by (simp add: comp_def)
  have names: "map cdef_id (map (\<lambda>d. ColumnDef (rename_expr m (cdef_expression d)) (cdef_id d)) ds) = map cdef_id ds"
    by (simp add: comp_def)
  have refs: "all_referenced_columns (map_window_spec (rename_expr m) w) = get_or_self m ` all_referenced_columns w"
    by (auto simp: all_referenced_columns_eq window_expressions_map refs_rename)
  show ?thesis
    using assms
    by (auto simp: WindowOpNode WindowOpNode_remap_refs_def ds cells refs names window_remap_partial window_cell_pre comp_def refs_rename
        image_Un image_UN simp del: map_map split: option.split)
next
qed (use assms in simp_all)

lemma additive_replace:
  assumes "additive_base n = Inr b"
  obtains n1 where "replace_additive_base n b' = Inr n1" "additive_base n1 = Inr b'" "added_ids n1 = added_ids n"
    "additive_refs n1 = additive_refs n" "additive_cell E n1 = additive_cell E n"
    "\<forall>l r x i. n1 = InNode l r x i \<longrightarrow> (\<exists>l'. n = InNode l' r x i)"
  using assms by (cases n) (auto simp: fun_eq_iff)

text \<open>Renaming the added columns: the cells move with their identifiers.\<close>

lemma dict_of_rename_key:
  assumes "inj_on v (f ` set xs)" "i \<in> f ` set xs"
  shows "dict_of (map (\<lambda>x. (v (f x), g x)) xs) (v i) = dict_of (map (\<lambda>x. (f x, g x)) xs) i"
  using assms
proof (induction xs)
  case (Cons x xs)
  have none: "dict_of (map (\<lambda>x. (f x, g x)) xs) i = None \<longleftrightarrow> i \<notin> f ` set xs" by (rule dict_key_iff)
  show ?case
  proof (cases "i \<in> f ` set xs")
    case True
    then have "dict_of (map (\<lambda>x. (v (f x), g x)) xs) (v i) = dict_of (map (\<lambda>x. (f x, g x)) xs) i"
      using Cons by (simp add: inj_on_insert)
    with True none show ?thesis by (auto simp: dict_of_Cons split: option.split)
  next
    case False
    then have i: "i = f x" using Cons.prems(2) by auto
    have "v i \<notin> (\<lambda>x. v (f x)) ` set xs" using Cons.prems False by (auto simp: inj_on_def)
    then have "dict_of (map (\<lambda>x. (v (f x), g x)) xs) (v i) = None"
      using dict_key_iff [of "\<lambda>x. v (f x)" g xs] by simp
    with False none i show ?thesis by (simp add: dict_of_Cons)
  qed
qed simp

lemma additive_remap_vars:
  assumes "additive_base n = Inr b" "inj_on (get_or_self v) (set (added_ids n))"
  shows "additive_base (remap_vars v n) = Inr b \<and> added_ids (remap_vars v n) = map (get_or_self v) (added_ids n) \<and>
    additive_refs (remap_vars v n) = additive_refs n \<and>
    (\<forall>l r x i. remap_vars v n = InNode l r x i \<longrightarrow> (\<exists>i'. n = InNode l r x i')) \<and>
    (\<forall>rs k. \<forall>j \<in> set (added_ids n). additive_cell E (remap_vars v n) rs k (get_or_self v j) = additive_cell E n rs k j)"
proof (cases n)
  case (ProjectionNode c asg)
  have "dict_of (map (\<lambda>(e, i). (i, e)) (map (\<lambda>(e, i). (e, get_or_self v i)) asg)) (get_or_self v j) =
      dict_of (map (\<lambda>(e, i). (i, e)) asg) j" if "j \<in> snd ` set asg" for j
    using dict_of_rename_key [of "get_or_self v" snd asg j fst] assms(2) that
    by (simp add: ProjectionNode comp_def case_prod_unfold)
  with assms(1) show ?thesis
    by (auto simp: ProjectionNode ProjectionNode_remap_vars_def comp_def case_prod_unfold)
next
  case (WindowOpNode c ds w)
  have "dict_of (map (\<lambda>d. (cdef_id d, cdef_expression d)) (map (\<lambda>d. ColumnDef (cdef_expression d) (get_or_self v (cdef_id d))) ds)) (get_or_self v j) =
      dict_of (map (\<lambda>d. (cdef_id d, cdef_expression d)) ds) j" if "j \<in> cdef_id ` set ds" for j
    using dict_of_rename_key [of "get_or_self v" cdef_id ds j cdef_expression] assms(2) that
    by (simp add: WindowOpNode comp_def)
  with assms(1) show ?thesis
    by (auto simp: WindowOpNode WindowOpNode_remap_vars_def comp_def)
qed (use assms in \<open>simp_all add: InNode_remap_vars_def PromoteOffsetsNode_remap_vars_def\<close>)

text \<open>
  An additive node over another base: its references read through \<open>m\<close>, its columns renamed by \<open>v\<close>.
\<close>

definition extend_mapping :: "column_id list \<Rightarrow> id_mapping \<Rightarrow> id_mapping \<Rightarrow> id_mapping" where
  "extend_mapping added v m = (\<lambda>i. if i \<in> set added then Some (get_or_self v i) else m i)"

lemma extend_mapping_get [simp]:
  "get_or_self (extend_mapping added v m) i = (if i \<in> set added then get_or_self v i else get_or_self m i)"
  by (simp add: extend_mapping_def get_or_self_def)

lemma additive_renamed:
  assumes "additive_base n = Inr b" "scoped n" "scoped b'"
    and "rows_agree (set (out_ids b)) (rows E b) (map (pre m) (rows E b'))"
    and "get_or_self m ` set (out_ids b) \<subseteq> set (out_ids b')"
    and "inj_on (get_or_self v) (set (added_ids n))" "get_or_self v ` set (added_ids n) \<inter> set (out_ids b') = {}"
  shows "\<exists>n1 n2. replace_additive_base n b' = Inr n1 \<and> remap_refs m n1 = Inr n2 \<and> scoped (remap_vars v n2) \<and>
    additive_base (remap_vars v n2) = Inr b' \<and> added_ids (remap_vars v n2) = map (get_or_self v) (added_ids n) \<and>
    rows_agree (set (out_ids n)) (rows E n) (map (pre (extend_mapping (added_ids n) v m)) (rows E (remap_vars v n2)))"
proof -
  obtain n1 where n1: "replace_additive_base n b' = Inr n1" "additive_base n1 = Inr b'" "added_ids n1 = added_ids n"
    "additive_refs n1 = additive_refs n" "additive_cell E n1 = additive_cell E n"
    "\<forall>l r x i. n1 = InNode l r x i \<longrightarrow> (\<exists>l'. n = InNode l' r x i)"
    by (rule additive_replace [OF assms(1)])
  obtain n2 where n2: "remap_refs m n1 = Inr n2" "additive_base n2 = Inr b'" "added_ids n2 = added_ids n"
    "additive_refs n2 = get_or_self m ` additive_refs n"
    "\<forall>l r x i. n2 = InNode l r x i \<longrightarrow> (\<exists>l' x' i'. n1 = InNode l' r x' i')"
    "\<And>rs k j. k < length rs \<Longrightarrow> additive_cell E n2 rs k j = additive_cell E n (map (pre m) rs) k j"
    using additive_remap [OF n1(2), of m E] n1(3-5) by auto
  let ?n3 = "remap_vars v n2"
  have n3: "additive_base ?n3 = Inr b'" "added_ids ?n3 = map (get_or_self v) (added_ids n)"
    "additive_refs ?n3 = get_or_self m ` additive_refs n"
    "\<forall>l r x i. ?n3 = InNode l r x i \<longrightarrow> (\<exists>i'. n2 = InNode l r x i')"
    "\<And>rs k j. j \<in> set (added_ids n) \<Longrightarrow> additive_cell E ?n3 rs k (get_or_self v j) = additive_cell E n2 rs k j"
    using additive_remap_vars [OF n2(2), of v E] assms(6) n2(3,4) by auto
  have n: "distinct (added_ids n)" "set (added_ids n) \<inter> set (out_ids b) = {}" "additive_refs n \<subseteq> set (out_ids b)"
    "\<forall>l r x i. n = InNode l r x i \<longrightarrow> scoped r"
    using additive_scoped [OF assms(1)] assms(2) by blast+
  have "additive_refs ?n3 \<subseteq> set (out_ids b')" using n(3) assms(5) n3(3) by blast
  moreover have "scoped r" if "?n3 = InNode l r x i" for l r x i
    using n3(4) n2(5) n1(6) n(4) that by metis
  ultimately have "scoped ?n3"
    unfolding additive_scoped [OF n3(1)] using assms(3,6,7) n(1) n3(2) by (simp add: distinct_map)
  moreover have "rows_agree (set (out_ids n)) (rows E n) (map (pre (extend_mapping (added_ids n) v m)) (rows E ?n3))"
  proof (rule rows_agreeI)
    have len: "length (rows E b) = length (rows E b')" using rows_agree_length [OF assms(4)] by simp
    then show "length (rows E n) = length (map (pre (extend_mapping (added_ids n) v m)) (rows E ?n3))"
      by (simp add: additive_rows [OF assms(1)] additive_rows [OF n3(1)])
    fix k assume "k < length (rows E n)"
    then have k: "k < length (rows E b)" by (simp add: additive_rows [OF assms(1)])
    have "(rows E n ! k) i = pre (extend_mapping (added_ids n) v m) (rows E ?n3 ! k) i" if "i \<in> set (out_ids n)" for i
    proof (cases "i \<in> set (added_ids n)")
      case True
      have "additive_cell E n (rows E b) k i = additive_cell E n (map (pre m) (rows E b')) k i"
        by (rule additive_cell_agree [OF assms(1) n(3) assms(4) k])
      also have "\<dots> = additive_cell E ?n3 (rows E b') k (get_or_self v i)"
        using n2(6) n3(5) True k len by simp
      finally show ?thesis
        using True k len n3(2) by (simp add: additive_rows [OF assms(1)] additive_rows [OF n3(1)] pre_def)
    next
      case False
      then have i: "i \<in> set (out_ids b)" using that additive_out_ids [OF assms(1)] by simp
      then have "get_or_self m i \<notin> get_or_self v ` set (added_ids n)" using assms(5,7) by blast
      moreover have "(rows E b ! k) i = (rows E b' ! k) (get_or_self m i)"
        using rows_agree_nth [OF assms(4) k] i k len by (simp add: agree_def pre_def)
      ultimately show ?thesis
        using False k len n3(2) by (simp add: additive_rows [OF assms(1)] additive_rows [OF n3(1)] pre_def)
    qed
    then show "agree (set (out_ids n)) (rows E n ! k) (map (pre (extend_mapping (added_ids n) v m)) (rows E ?n3) ! k)"
      using k len by (simp add: agree_def additive_rows [OF n3(1)])
  qed
  ultimately show ?thesis using n1(1) n2(1) n3(1,2) by blast
qed

end
