(* ===== verification/Fresh_Ids.thy ===== *)
theory Fresh_Ids
  imports Rewrite_Framework
begin

text \<open>
  The identifiers that \<^verbatim>\<open>core/guid.py\<close> generates: the decimal numeral of a counter makes them
  distinct, and a plan is older than a counter when no column of it is an identifier still to be
  generated.
\<close>

subsection \<open>Numerals\<close>

definition digits_value :: "string \<Rightarrow> nat" where
  "digits_value s = foldl (\<lambda>n c. 10 * n + (of_char c - 48)) 0 s"

lemma digits_value_digits: "digits_value (digits n) = n"
proof (induction n rule: digits.induct)
  case (1 n)
  have c: "of_char (char_of (48 + d) :: char) = (48 + d :: nat)" if "d < 10" for d
    using that by (simp add: of_char_of)
  show ?case
  proof (cases "n < 10")
    case True
    then show ?thesis using c [of n] by (subst digits.simps) (simp add: digits_value_def)
  next
    case False
    then show ?thesis
      using 1 c [of "n mod 10"] by (subst digits.simps) (simp add: digits_value_def)
  qed
qed

lemma digits_inject [simp]: "digits m = digits n \<longleftrightarrow> m = n"
  by (metis digits_value_digits)

subsection \<open>Generated identifiers\<close>

definition guid_id :: "nat \<Rightarrow> column_id" where
  "guid_id k = ColumnId (''bfuid_col_'' @ digits k)"

lemma ColumnId_unique_eq: "ColumnId_unique counter = (guid_id (Suc counter), Suc counter)"
  by (simp add: ColumnId_unique_def generate_guid_def guid_id_def)

lemma guid_id_inject [simp]: "guid_id j = guid_id k \<longleftrightarrow> j = k"
  by (simp add: guid_id_def)

definition older :: "nat \<Rightarrow> column_id \<Rightarrow> bool" where
  "older counter i \<longleftrightarrow> (\<forall>k. i = guid_id k \<longrightarrow> k \<le> counter)"

lemma older_guid [simp]: "older counter (guid_id k) \<longleftrightarrow> k \<le> counter"
  by (auto simp: older_def)

lemma older_mono: "older s i \<Longrightarrow> s \<le> s' \<Longrightarrow> older s' i"
  by (force simp: older_def)

definition ids_older :: "nat \<Rightarrow> bfnode \<Rightarrow> bool" where
  "ids_older counter n \<longleftrightarrow> everywhere (\<lambda>m. list_all (older counter) (out_ids m)) n"

lemma ids_older_mono: "ids_older s n \<Longrightarrow> s \<le> s' \<Longrightarrow> ids_older s' n"
  unfolding ids_older_def everywhere_def list_all_iff using older_mono by blast

lemma ids_older_child: "ids_older s n \<Longrightarrow> c \<in> set (child_nodes n) \<Longrightarrow> ids_older s c"
  unfolding ids_older_def by (rule everywhere_child)

lemma ids_older_out: "ids_older s n \<Longrightarrow> i \<in> set (out_ids n) \<Longrightarrow> older s i"
  by (auto simp: ids_older_def everywhere_iff [of _ n] list_all_iff)

lemma ids_older_fresh: "ids_older s n \<Longrightarrow> s < k \<Longrightarrow> guid_id k \<notin> set (out_ids n)"
  using ids_older_out [of s n "guid_id k"] by auto

lemma ids_older_iff: "ids_older s n \<longleftrightarrow> list_all (older s) (out_ids n) \<and> list_all (ids_older s) (child_nodes n)"
  unfolding ids_older_def [abs_def] by (rule everywhere_iff)

lemma ids_older_transform:
  assumes "scoped n" "ids_older s n"
    and "\<And>c. c \<in> set (child_nodes n) \<Longrightarrow> ids_older s (t c) \<and> same_output E (t c) c"
  shows "ids_older s (transform_children t n)"
proof -
  have "out_ids (transform_children t n) = out_ids n"
    using transform_children_same_output [OF assms(1), of E t] assms(3) by (simp add: same_output_def)
  then show ?thesis
    using assms(2,3) by (simp add: ids_older_iff [of s n] ids_older_iff [of s "transform_children t n"] list_all_iff)
qed

end
