(* ===== verification/Row_Alignment.thy ===== *)
theory Row_Alignment
  imports Reference_Renaming Fresh_Ids
begin

text \<open>
  \<^verbatim>\<open>core/rewrite/implicit_align.py\<close>: two plans that only select from and add columns to a shared
  descendant are joined row by row, without a join: the selections are pulled up, and the nodes
  the right plan adds are put on top of the left plan.
\<close>

subsection \<open>The shared descendant\<close>

fun is_alignable :: "bfnode \<Rightarrow> bool" where
  "is_alignable (SelectionNode c pairs) = True"
| "is_alignable n = is_additive n"

text \<open>Only the left side of a membership test is entered.\<close>

definition descend :: "bfnode \<Rightarrow> bfnode list" where
  "descend n = (if is_additive n then (case additive_base n of Inr b \<Rightarrow> [b] | Inl _ \<Rightarrow> []) else child_nodes n)"

abbreviation plan_size :: "bfnode \<Rightarrow> nat" where "plan_size \<equiv> weight (\<lambda>_. 1)"

lemma sum_size_descend: "sum_list (map plan_size (descend n)) < plan_size n"
proof (cases "is_additive n")
  case True
  then obtain b where "additive_base n = Inr b" "b \<in> set (child_nodes n)" by (cases n) auto
  with weight_child [of b n "\<lambda>_. 1"] True show ?thesis by (simp add: descend_def)
next
  case False
  then show ?thesis by (simp add: descend_def weight.simps [of _ n])
qed

text \<open>A set of nodes is a list without duplicates.\<close>

function first_shared_descendent :: "(bfnode \<Rightarrow> bool) \<Rightarrow> bfnode list \<Rightarrow> bfnode option" where
  "first_shared_descendent descendable nodes =
     (if nodes = [] then None
      else if length nodes = 1 then Some (hd nodes)
      else (let min_height = Min (set (map height nodes));
                higher = filter (\<lambda>n. height n > min_height) nodes;
                to_descend = (if higher = [] then nodes else higher)
            in if list_ex (\<lambda>n. \<not> descendable n) to_descend then None
               else first_shared_descendent descendable
                      (remdups (filter (\<lambda>n. n \<notin> set to_descend) nodes @ concat (map descend to_descend)))))"
  by pat_completeness auto

lemma sum_size_remdups: "sum_list (map plan_size (remdups xs)) \<le> sum_list (map plan_size xs)"
  by (induction xs) auto

lemma sum_size_concat: "sum_list (map plan_size (concat (map descend ns))) + length ns \<le> sum_list (map plan_size ns)"
proof (induction ns)
  case (Cons n ns)
  then show ?case using sum_size_descend [of n] by simp
qed simp

lemma sum_size_partition: "sum_list (map plan_size (filter (\<lambda>n. \<not> P n) ns)) + sum_list (map plan_size (filter P ns)) = sum_list (map plan_size ns)"
  by (induction ns) auto

termination first_shared_descendent
proof (relation "measure (\<lambda>(_, nodes). sum_list (map plan_size nodes))")
  fix descendable :: "bfnode \<Rightarrow> bool" and nodes :: "bfnode list" and h higher to_descend
  assume "nodes \<noteq> []" "higher = filter (\<lambda>n. height n > h) nodes" "to_descend = (if higher = [] then nodes else higher)"
  then have td: "to_descend \<noteq> []" "filter (\<lambda>n. n \<in> set to_descend) nodes = to_descend"
    by (auto simp: filter_empty_conv intro: filter_cong)
  let ?next = "filter (\<lambda>n. n \<notin> set to_descend) nodes @ concat (map descend to_descend)"
  have "sum_list (map plan_size ?next) < sum_list (map plan_size nodes)"
    using sum_size_concat [of to_descend] sum_size_partition [of "\<lambda>n. n \<in> set to_descend" nodes] td by (cases to_descend) simp_all
  then show "((descendable, remdups ?next), descendable, nodes) \<in> measure (\<lambda>(_, nodes). sum_list (map plan_size nodes))"
    using sum_size_remdups [of ?next] by simp
qed simp

declare first_shared_descendent.simps [simp del]

text \<open>A chain of selections and additive nodes over a descendant.\<close>

inductive aligned_over :: "bfnode \<Rightarrow> bfnode \<Rightarrow> bool" for stop :: bfnode where
  stop: "aligned_over stop stop"
| selection: "aligned_over stop c \<Longrightarrow> aligned_over stop (SelectionNode c pairs)"
| additive: "additive_base n = Inr b \<Longrightarrow> aligned_over stop b \<Longrightarrow> aligned_over stop n"

lemma descend_alignable:
  assumes "is_alignable n"
  obtains c pairs where "n = SelectionNode c pairs" "descend n = [c]"
  | b where "additive_base n = Inr b" "descend n = [b]"
  using assms by (cases n) (auto simp: descend_def)

lemma first_shared_aligned:
  assumes "first_shared_descendent is_alignable nodes = Some d" "n \<in> set nodes"
  shows "aligned_over d n"
  using assms
proof (induction is_alignable nodes arbitrary: n rule: first_shared_descendent.induct)
  case (1 nodes)
  let ?higher = "filter (\<lambda>n. height n > Min (set (map height nodes))) nodes"
  let ?td = "if ?higher = [] then nodes else ?higher"
  let ?next = "filter (\<lambda>n. n \<notin> set ?td) nodes @ concat (map descend ?td)"
  show ?case
  proof (cases "length nodes = 1")
    case True
    then obtain x where "nodes = [x]" by (auto simp: length_Suc_conv)
    with 1(2,3) show ?thesis by (simp add: first_shared_descendent.simps [of is_alignable "[x]"] aligned_over.stop)
  next
    case False
    have "nodes \<noteq> []" using 1(3) by auto
    with False 1(2) have step: "\<not> list_ex (\<lambda>n. \<not> is_alignable n) ?td" "first_shared_descendent is_alignable (remdups ?next) = Some d"
      by (simp_all add: first_shared_descendent.simps [of is_alignable nodes] Let_def split: if_splits)
    have IH: "aligned_over d x" if "x \<in> set ?next" for x
      using 1(1) [OF \<open>nodes \<noteq> []\<close> False refl refl refl step] that by simp
    show ?thesis
    proof (cases "n \<in> set ?td")
      case True
      then have "is_alignable n" using step(1) by (auto simp: list_ex_iff)
      moreover have "aligned_over d x" if "x \<in> set (descend n)" for x using IH True that by auto
      ultimately show ?thesis
        by (elim descend_alignable) (auto intro: aligned_over.intros)
    next
      case False
      then show ?thesis using IH 1(3) by simp
    qed
  qed
qed

subsection \<open>Pulling up the selections\<close>

definition selection_mapping :: "(deref \<times> column_id) list \<Rightarrow> id_mapping" where
  "selection_mapping pairs = dict_of (map (\<lambda>(ref, out). (out, ref_id ref)) pairs)"

text \<open>A dictionary comprehension that draws a new identifier for every field.\<close>

fun unique_renames :: "column_id list \<Rightarrow> nat \<Rightarrow> (column_id \<times> column_id) list \<times> nat" where
  "unique_renames [] counter = ([], counter)"
| "unique_renames (i # is) counter =
     (case ColumnId_unique counter of (j, counter1) \<Rightarrow>
      case unique_renames is counter1 of (renames, counter2) \<Rightarrow> ((i, j) # renames, counter2))"

definition pull_up_additive :: "bool \<Rightarrow> bfnode \<Rightarrow> ((bfnode \<times> (deref \<times> column_id) list) \<times> nat) result
    \<Rightarrow> ((bfnode \<times> (deref \<times> column_id) list) \<times> nat) result" where
  "pull_up_additive rename_vars n base_result =
     rbind base_result (\<lambda>((child_node, child_selections), counter).
     rbind (replace_additive_base n child_node) (\<lambda>new_node.
     rbind (remap_refs (selection_mapping child_selections) new_node) (\<lambda>new_node.
     rbind (added_fields n) (\<lambda>added.
       let (renames, counter') = (if rename_vars then unique_renames (map field_id added) counter else ([], counter));
           new_node = (if rename_vars then remap_vars (dict_of renames) new_node else new_node);
           added_selections = map (\<lambda>f. AliasedRef_remap_refs (dict_of renames) (AliasedRef_identity (field_id f))) added
       in Inr ((new_node, child_selections @ added_selections), counter')))))"

function pull_up_selection :: "bool \<Rightarrow> bfnode \<Rightarrow> bfnode \<Rightarrow> nat
    \<Rightarrow> ((bfnode \<times> (deref \<times> column_id) list) \<times> nat) result" where
  "pull_up_selection rename_vars stop n counter =
     (if n = stop then rbind (node_fields n) (\<lambda>fs. Inr ((n, map (\<lambda>f. AliasedRef_identity (field_id f)) fs), counter))
      else case additive_base n of
        Inr b \<Rightarrow> pull_up_additive rename_vars n (pull_up_selection rename_vars stop b counter)
      | Inl _ \<Rightarrow> (case n of
          SelectionNode c pairs \<Rightarrow>
            rbind (pull_up_selection rename_vars stop c counter) (\<lambda>((child_node, child_selections), counter').
              Inr ((child_node, map (AliasedRef_remap_refs (selection_mapping child_selections)) pairs), counter'))
        | _ \<Rightarrow> Inl ValueError))"
  by pat_completeness auto

lemma size_additive_base: "additive_base n = Inr b \<Longrightarrow> size b < size n"
  by (cases n) simp_all

termination pull_up_selection
  by (relation "measure (\<lambda>(_, _, n, _). size n)") (auto dest: size_additive_base)

declare pull_up_selection.simps [simp del]

text \<open>The nodes the appended tree adds to the divergent node, on top of the base tree.\<close>

function linearize_trees :: "bfnode \<Rightarrow> bfnode \<Rightarrow> bfnode \<Rightarrow> bfnode result" where
  "linearize_trees divergent base_tree append_tree =
     (if append_tree = divergent then Inr base_tree
      else case additive_base append_tree of
        Inl _ \<Rightarrow> Inl AssertionError
      | Inr b \<Rightarrow> rbind (linearize_trees divergent base_tree b) (replace_additive_base append_tree))"
  by pat_completeness auto
termination
  by (relation "measure (\<lambda>(_, _, n). size n)") (auto dest: size_additive_base)

declare linearize_trees.simps [simp del]

subsection \<open>The value of a column\<close>

text \<open>The expression of a column over the first node that is neither a selection nor a projection.\<close>

primrec expression_spec :: "bfnode \<Rightarrow> expr \<Rightarrow> (expr \<times> bfnode) result" where
  "expression_spec (SelectionNode c pairs) e =
     rbind (bind_refs (dict_of (map (\<lambda>(ref, i). (i, Deref ref)) pairs)) True e) (expression_spec c)"
| "expression_spec (ProjectionNode c asg) e =
     rbind (bind_refs (dict_of (map (\<lambda>(x, i). (i, x)) asg)) True e) (expression_spec c)"
| "expression_spec (WindowOpNode c ds w) e =
     rbind (added_fields (WindowOpNode c ds w)) (\<lambda>added.
       if set (column_references e) \<inter> field_id ` set added = {} then expression_spec c e
       else Inr (e, WindowOpNode c ds w))"
| "expression_spec (PromoteOffsetsNode c i) e =
     rbind (added_fields (PromoteOffsetsNode c i)) (\<lambda>added.
       if set (column_references e) \<inter> field_id ` set added = {} then expression_spec c e
       else Inr (e, PromoteOffsetsNode c i))"
| "expression_spec (InNode l r x i) e =
     rbind (added_fields (InNode l r x i)) (\<lambda>added.
       if set (column_references e) \<inter> field_id ` set added = {} then expression_spec l e
       else Inr (e, InNode l r x i))"
| "expression_spec (SliceNode c a b s) e = Inr (e, SliceNode c a b s)"
| "expression_spec (JoinNode l r conds ty po) e = Inr (e, JoinNode l r conds ty po)"
| "expression_spec (ConcatNode cs out) e = Inr (e, ConcatNode cs out)"
| "expression_spec (FromRangeNode s0 e0 st i) e = Inr (e, FromRangeNode s0 e0 st i)"
| "expression_spec (ReadLocalNode d items sess off) e = Inr (e, ReadLocalNode d items sess off)"
| "expression_spec (ReadTableNode src items sess) e = Inr (e, ReadTableNode src items sess)"
| "expression_spec (CachedTableNode src items sess orig) e = Inr (e, CachedTableNode src items sess orig)"
| "expression_spec (FilterNode c p) e = Inr (e, FilterNode c p)"
| "expression_spec (OrderByNode c ps tot) e = Inr (e, OrderByNode c ps tot)"
| "expression_spec (ReversedNode c rv) e = Inr (e, ReversedNode c rv)"
| "expression_spec (AggregateNode c aggs ks os dn) e = Inr (e, AggregateNode c aggs ks os dn)"
| "expression_spec (RandomSampleNode c fr) e = Inr (e, RandomSampleNode c fr)"
| "expression_spec (ExplodeNode c cols off) e = Inr (e, ExplodeNode c cols off)"
| "expression_spec (ResultNode c outs ord k) e = Inr (e, ResultNode c outs ord k)"
| "expression_spec (CteNode c) e = Inr (e, CteNode c)"

definition get_expression_spec :: "bfnode \<Rightarrow> column_id \<Rightarrow> (expr \<times> bfnode) result" where
  "get_expression_spec n i = expression_spec n (Deref (DerefOp i))"

fun same_keys :: "bfnode \<Rightarrow> bfnode \<Rightarrow> (string \<times> string) list \<Rightarrow> bool result" where
  "same_keys l r [] = Inr True"
| "same_keys l r ((l_key, r_key) # keys) =
     rbind (get_expression_spec l (ColumnId l_key)) (\<lambda>l_spec.
     rbind (get_expression_spec r (ColumnId r_key)) (\<lambda>r_spec.
       if l_spec \<noteq> r_spec then Inr False else same_keys l r keys))"

definition try_row_join :: "bfnode \<Rightarrow> bfnode \<Rightarrow> (string \<times> string) list \<Rightarrow> nat \<Rightarrow> (bfnode option \<times> nat) result" where
  "try_row_join l_node r_node join_keys counter =
     (case first_shared_descendent is_alignable (remdups [l_node, r_node]) of
        None \<Rightarrow> Inr (None, counter)
      | Some divergent \<Rightarrow>
          rbind (same_keys l_node r_node join_keys) (\<lambda>same.
          if \<not> same then Inr (None, counter)
          else rbind (pull_up_selection False divergent l_node counter) (\<lambda>((l, l_selection), counter1).
               rbind (pull_up_selection True divergent r_node counter1) (\<lambda>((r, r_selection), counter2).
               rbind (linearize_trees divergent l r) (\<lambda>merged.
                 Inr (Some (SelectionNode merged (l_selection @ r_selection)), counter2))))))"

subsection \<open>What pulling up keeps\<close>

lemma added_fields_ids: "added_fields n = Inr fs \<Longrightarrow> map field_id fs = added_ids n"
  by (cases n) (auto simp: InNode_added_fields_def PromoteOffsetsNode_added_fields_def
      dest: projection_field_ids window_field_ids)

lemma typed_added:
  assumes "typed n" "additive_base n = Inr b"
  shows "\<exists>fs. added_fields n = Inr fs"
proof -
  have "is_additive n" using assms(2) by (cases n) simp_all
  then show ?thesis
    using assms(1) additive_fields [of n b] assms(2) by (auto simp: typed_iff [of n] rbind_eq_Inr_iff)
qed

text \<open>
  A node and selections that stand for a plan: the selections give its columns, in order, from
  columns of the node, and the rows are those of the node read through them.
\<close>

definition stands_for :: "engine \<Rightarrow> bfnode \<Rightarrow> (deref \<times> column_id) list \<Rightarrow> bfnode \<Rightarrow> bool" where
  "stands_for E m sels n \<longleftrightarrow> scoped m \<and> map snd sels = out_ids n \<and>
     (\<forall>(d, i) \<in> set sels. ref_id d \<in> set (out_ids m)) \<and>
     rows_agree (set (out_ids n)) (rows E n) (map (pre (selection_mapping sels)) (rows E m))"

lemma selection_mapping_image:
  assumes "map snd sels = is" "\<forall>(d, i) \<in> set sels. ref_id d \<in> S"
  shows "get_or_self (selection_mapping sels) ` set is \<subseteq> S"
proof -
  have "get_or_self (selection_mapping sels) i \<in> S" if "i \<in> snd ` set sels" for i
  proof -
    have "selection_mapping sels i \<noteq> None"
      using that by (simp add: selection_mapping_def case_prod_unfold dict_key_iff)
    then obtain j where j: "selection_mapping sels i = Some j" by blast
    then have "j \<in> S" using assms(2) by (force simp: selection_mapping_def dest!: dict_of_SomeD)
    with j show ?thesis by simp
  qed
  then show ?thesis using assms(1) by auto
qed

lemma stands_for_identity:
  assumes "scoped n"
  shows "stands_for E n (map AliasedRef_identity (out_ids n)) n"
proof -
  have "selection_mapping (map AliasedRef_identity (out_ids n)) i = (if i \<in> set (out_ids n) then Some i else None)" for i
    using dict_of_map_identity [of "\<lambda>i. i" "out_ids n" i] by (simp add: selection_mapping_def AliasedRef_identity_def comp_def)
  then show ?thesis
    using assms by (auto simp: stands_for_def AliasedRef_identity_def comp_def pre_def get_or_self_def agree_def intro!: rows_agreeI)
qed

lemma selection_mapping_lookup:
  "selection_mapping pairs i = map_option ref_id (dict_of (map (\<lambda>(d, j). (j, d)) pairs) i)"
  "selection_mapping (map (AliasedRef_remap_refs m) pairs) i =
     map_option (\<lambda>d. get_or_self m (ref_id d)) (dict_of (map (\<lambda>(d, j). (j, d)) pairs) i)"
  using dict_of_rename [of snd ref_id fst pairs i] dict_of_rename [of snd "\<lambda>d. get_or_self m (ref_id d)" fst pairs i]
  by (simp_all add: selection_mapping_def AliasedRef_remap_refs_def case_prod_unfold comp_def)

lemma stands_for_selection:
  assumes "stands_for E m sels c" "scoped (SelectionNode c pairs)"
  shows "stands_for E m (map (AliasedRef_remap_refs (selection_mapping sels)) pairs) (SelectionNode c pairs)"
proof -
  let ?pairs = "map (AliasedRef_remap_refs (selection_mapping sels)) pairs"
  have c: "scoped m" "map snd sels = out_ids c" "\<forall>(d, i) \<in> set sels. ref_id d \<in> set (out_ids m)"
    "rows_agree (set (out_ids c)) (rows E c) (map (pre (selection_mapping sels)) (rows E m))"
    using assms(1) by (simp_all add: stands_for_def)
  have refs: "ref_id d \<in> set (out_ids c)" if "(d, i) \<in> set pairs" for d i
    using assms(2) that by (auto simp: list_all_iff)
  have "\<forall>(d, i) \<in> set ?pairs. ref_id d \<in> set (out_ids m)"
    using refs selection_mapping_image [OF c(2,3)] by (force simp: AliasedRef_remap_refs_def)
  moreover have "rows_agree (snd ` set pairs) (map (select_row pairs) (rows E c)) (map (pre (selection_mapping ?pairs)) (rows E m))"
  proof (rule rows_agreeI)
    show len: "length (map (select_row pairs) (rows E c)) = length (map (pre (selection_mapping ?pairs)) (rows E m))"
      using rows_agree_length [OF c(4)] by simp
    fix k assume "k < length (map (select_row pairs) (rows E c))"
    then have k: "k < length (rows E c)" "k < length (rows E m)" using len by simp_all
    have "select_row pairs (rows E c ! k) i = pre (selection_mapping ?pairs) (rows E m ! k) i" if i: "i \<in> snd ` set pairs" for i
    proof -
      obtain d where d: "dict_of (map (\<lambda>(d, j). (j, d)) pairs) i = Some d"
        using i dict_key_iff [of snd fst pairs i] by (auto simp: case_prod_unfold)
      then have "ref_id d \<in> set (out_ids c)" using refs by (auto dest!: dict_of_SomeD)
      then show ?thesis
        using d rows_agree_nth [OF c(4) k(1)] k(2)
        by (simp add: select_row_def pre_def selection_mapping_lookup(2) agree_def get_or_self_def)
    qed
    then show "agree (snd ` set pairs) (map (select_row pairs) (rows E c) ! k) (map (pre (selection_mapping ?pairs)) (rows E m) ! k)"
      using k by (simp add: agree_def)
  qed
  ultimately show ?thesis
    using c(1) by (simp add: stands_for_def AliasedRef_remap_refs_def comp_def)
qed

lemma stands_for_additive:
  assumes "stands_for E m sels b" "additive_base n = Inr b" "scoped n"
    and "inj_on (get_or_self v) (set (added_ids n))" "get_or_self v ` set (added_ids n) \<inter> set (out_ids m) = {}"
  shows "\<exists>n1 n2. replace_additive_base n m = Inr n1 \<and> remap_refs (selection_mapping sels) n1 = Inr n2 \<and>
    additive_base (remap_vars v n2) = Inr m \<and> added_ids (remap_vars v n2) = map (get_or_self v) (added_ids n) \<and>
    stands_for E (remap_vars v n2) (sels @ map (\<lambda>i. AliasedRef_remap_refs v (AliasedRef_identity i)) (added_ids n)) n"
proof -
  let ?sels = "sels @ map (\<lambda>i. AliasedRef_remap_refs v (AliasedRef_identity i)) (added_ids n)"
  obtain n1 n2 where n: "replace_additive_base n m = Inr n1" "remap_refs (selection_mapping sels) n1 = Inr n2"
    "scoped (remap_vars v n2)" "additive_base (remap_vars v n2) = Inr m"
    "added_ids (remap_vars v n2) = map (get_or_self v) (added_ids n)"
    "rows_agree (set (out_ids n)) (rows E n) (map (pre (extend_mapping (added_ids n) v (selection_mapping sels))) (rows E (remap_vars v n2)))"
    using additive_renamed [OF assms(2,3) _ _ _ assms(4,5), of E "selection_mapping sels"] assms(1)
      selection_mapping_image [of sels "out_ids b" "set (out_ids m)"] by (auto simp: stands_for_def)
  have "selection_mapping ?sels = extend_mapping (added_ids n) v (selection_mapping sels)"
  proof
    fix i
    have "dict_of (map (\<lambda>i. (i, get_or_self v i)) (added_ids n)) i = (if i \<in> set (added_ids n) then Some (get_or_self v i) else None)"
      by (rule dict_of_map_identity)
    then show "selection_mapping ?sels i = extend_mapping (added_ids n) v (selection_mapping sels) i"
      by (simp add: selection_mapping_def extend_mapping_def dict_of_append AliasedRef_remap_refs_def AliasedRef_identity_def comp_def)
  qed
  then have "stands_for E (remap_vars v n2) ?sels n"
    using n assms(1) additive_out_ids [OF assms(2)] additive_out_ids [OF n(4)]
    by (auto simp: stands_for_def AliasedRef_remap_refs_def AliasedRef_identity_def comp_def)
  with n show ?thesis by blast
qed

lemma unique_renames_zip:
  "unique_renames is k = (zip is (map guid_id [Suc k..<Suc k + length is]), k + length is)"
proof (induction "is" arbitrary: k)
  case (Cons i "is")
  have "[Suc k..<Suc k + length (i # is)] = Suc k # [Suc (Suc k)..<Suc (Suc k) + length is]"
    by (simp add: upt_rec)
  then show ?case by (simp add: Cons ColumnId_unique_eq)
qed simp

lemma unique_renames_spec:
  assumes "unique_renames is k = (renames, k')" "distinct is"
  shows "inj_on (get_or_self (dict_of renames)) (set is)" "k \<le> k'"
    and "i \<in> set is \<Longrightarrow> \<exists>j. get_or_self (dict_of renames) i = guid_id j \<and> k < j \<and> j \<le> k'"
proof -
  have renames: "renames = zip is (map guid_id [Suc k..<Suc k + length is])" "k' = k + length is"
    using assms(1) by (simp_all only: unique_renames_zip prod.inject)
  have look: "get_or_self (dict_of renames) (is ! p) = guid_id (Suc k + p)" if "p < length is" for p
  proof -
    have "(is ! p, guid_id (Suc k + p)) \<in> set renames"
      using that by (auto simp: renames in_set_zip simp del: upt_Suc intro!: exI [of _ p])
    then have "dict_of renames (is ! p) = Some (guid_id (Suc k + p))"
      using assms(2) by (intro dict_of_distinct) (simp_all add: renames map_fst_zip_take)
    then show ?thesis by simp
  qed
  show "inj_on (get_or_self (dict_of renames)) (set is)"
  proof (rule inj_onI)
    fix x y assume "x \<in> set is" "y \<in> set is" "get_or_self (dict_of renames) x = get_or_self (dict_of renames) y"
    then show "x = y" using look by (auto simp: in_set_conv_nth)
  qed
  show "k \<le> k'" using renames by simp
  show "\<exists>j. get_or_self (dict_of renames) i = guid_id j \<and> k < j \<and> j \<le> k'" if "i \<in> set is"
    using that look renames(2) by (auto simp: in_set_conv_nth)
qed

lemma remap_vars_empty: "is_additive n \<Longrightarrow> remap_vars Map.empty n = n"
  by (cases n) (simp_all add: InNode_remap_vars_def PromoteOffsetsNode_remap_vars_def ProjectionNode_remap_vars_def
      WindowOpNode_remap_vars_def case_prod_unfold map_idI)

text \<open>Additive nodes on top of a descendant.\<close>

inductive additive_over :: "bfnode \<Rightarrow> bfnode \<Rightarrow> bool" for stop :: bfnode where
  stop: "additive_over stop stop"
| additive: "additive_base n = Inr b \<Longrightarrow> additive_over stop b \<Longrightarrow> additive_over stop n"

definition plan_ids :: "bfnode \<Rightarrow> column_id set" where
  "plan_ids n = (\<Union>m \<in> subnodes n. set (out_ids m))"

lemma plan_ids_child: "c \<in> set (child_nodes n) \<Longrightarrow> plan_ids c \<subseteq> plan_ids n"
  unfolding plan_ids_def using subnodes_unfold [of n] by auto

lemma plan_ids_self: "set (out_ids n) \<subseteq> plan_ids n"
  unfolding plan_ids_def using subnodes.root by blast

lemma additive_base_child: "additive_base n = Inr b \<Longrightarrow> b \<in> set (child_nodes n)"
  by (cases n) auto

text \<open>No additive node defines an identifier that a node below its base has.\<close>

definition unshadowed :: "bfnode \<Rightarrow> bool" where
  "unshadowed n \<longleftrightarrow> everywhere (\<lambda>m. case additive_base m of Inl _ \<Rightarrow> True | Inr b \<Rightarrow> set (added_ids m) \<inter> plan_ids b = {}) n"

lemma unshadowed_additive:
  "unshadowed n \<Longrightarrow> additive_base n = Inr b \<Longrightarrow> set (added_ids n) \<inter> plan_ids b = {} \<and> unshadowed b"
  using everywhere_child [of _ n b] additive_base_child [of n b]
  by (auto simp: unshadowed_def everywhere_iff [of _ n])

text \<open>The identifiers the pulled-up node may have beside those of the descendant.\<close>

definition new_ids :: "bool \<Rightarrow> bfnode \<Rightarrow> nat \<Rightarrow> nat \<Rightarrow> column_id set" where
  "new_ids rename_vars n k k' = (if rename_vars then guid_id ` {k<..k'} else plan_ids n)"

lemma pull_up_additive_sound:
  assumes "stands_for E m sels b" "additive_base n = Inr b" "scoped n" "typed n" "k \<le> k1"
    and "additive_over stop m" "set (out_ids m) \<subseteq> set (out_ids stop) \<union> new_ids rename_vars b k k1"
    and "if rename_vars then list_all (older k) (out_ids stop) else unshadowed n \<and> set (out_ids stop) \<subseteq> plan_ids b"
  shows "\<exists>m' sels' k'. pull_up_additive rename_vars n (Inr ((m, sels), k1)) = Inr ((m', sels'), k') \<and> k1 \<le> k' \<and>
    stands_for E m' sels' n \<and> additive_over stop m' \<and> set (out_ids m') \<subseteq> set (out_ids stop) \<union> new_ids rename_vars n k k'"
proof -
  obtain added where added: "added_fields n = Inr added" "map field_id added = added_ids n"
    using typed_added [OF assms(4,2)] added_fields_ids by blast
  have dist: "distinct (added_ids n)" using additive_scoped [OF assms(2)] assms(3) by blast
  obtain renames k' where renames: "(if rename_vars then unique_renames (added_ids n) k1 else ([], k1)) = (renames, k')"
    by (cases "if rename_vars then unique_renames (added_ids n) k1 else ([], k1)")
  let ?v = "dict_of renames"
  have v: "inj_on (get_or_self ?v) (set (added_ids n))" "get_or_self ?v ` set (added_ids n) \<inter> set (out_ids m) = {}" "k1 \<le> k'"
    "get_or_self ?v ` set (added_ids n) \<subseteq> new_ids rename_vars n k k'"
  proof -
    show "inj_on (get_or_self ?v) (set (added_ids n))" "k1 \<le> k'"
      using renames unique_renames_spec(1,2) [of "added_ids n" k1 renames k'] dist by (auto simp: inj_on_def split: if_splits)
    show "get_or_self ?v ` set (added_ids n) \<inter> set (out_ids m) = {}"
    proof (cases rename_vars)
      case True
      have "get_or_self ?v i \<notin> set (out_ids m)" if i: "i \<in> set (added_ids n)" for i
      proof -
        obtain j where j: "get_or_self ?v i = guid_id j" "k1 < j"
          using unique_renames_spec(3) [of "added_ids n" k1 renames k' i] renames dist i True by auto
        then have "guid_id j \<notin> set (out_ids stop)" using assms(5,8) True by (auto simp: list_all_iff)
        then show ?thesis using assms(7) j True by (auto simp: new_ids_def)
      qed
      then show ?thesis by blast
    next
      case False
      then have "set (out_ids m) \<subseteq> plan_ids b" using assms(7,8) by (auto simp: new_ids_def)
      moreover have "set (added_ids n) \<inter> plan_ids b = {}"
        using unshadowed_additive [OF _ assms(2)] assms(8) False by simp
      ultimately show ?thesis using renames False by auto
    qed
    show "get_or_self ?v ` set (added_ids n) \<subseteq> new_ids rename_vars n k k'"
    proof (cases rename_vars)
      case True
      have "get_or_self ?v i \<in> guid_id ` {k<..k'}" if "i \<in> set (added_ids n)" for i
        using unique_renames_spec(3) [of "added_ids n" k1 renames k' i] renames dist that True assms(5) by auto
      then show ?thesis using True by (auto simp: new_ids_def)
    next
      case False
      then show ?thesis using renames plan_ids_self [of n] additive_out_ids [OF assms(2)] by (auto simp: new_ids_def)
    qed
  qed
  let ?sels = "sels @ map (\<lambda>i. AliasedRef_remap_refs ?v (AliasedRef_identity i)) (added_ids n)"
  obtain n1 n2 where n: "replace_additive_base n m = Inr n1" "remap_refs (selection_mapping sels) n1 = Inr n2"
    "additive_base (remap_vars ?v n2) = Inr m" "added_ids (remap_vars ?v n2) = map (get_or_self ?v) (added_ids n)"
    "stands_for E (remap_vars ?v n2) ?sels n"
    using stands_for_additive [OF assms(1,2,3) v(1,2)] by blast
  have node: "(if rename_vars then remap_vars ?v n2 else n2) = remap_vars ?v n2"
  proof (cases rename_vars)
    case False
    have "is_additive n2" using n(3) by (cases n2) (simp_all add: ExplodeNode_remap_vars_def AggregateNode_remap_vars_def
      ReadLocalNode_remap_vars_def ReadTableNode_remap_vars_def SelectionNode_remap_vars_def ConcatNode_remap_vars_def
      FromRangeNode_remap_vars_def split: option.splits)
    then show ?thesis using renames False by (auto simp: remap_vars_empty)
  qed simp
  have "pull_up_additive rename_vars n (Inr ((m, sels), k1)) = Inr ((remap_vars ?v n2, ?sels), k')"
    using n(1,2) added(1) renames node
    by (cases rename_vars) (auto simp: pull_up_additive_def comp_def Let_def simp flip: added(2))
  moreover have "set (out_ids (remap_vars ?v n2)) \<subseteq> set (out_ids stop) \<union> new_ids rename_vars n k k'"
  proof -
    have "new_ids rename_vars b k k1 \<subseteq> new_ids rename_vars n k k'"
      using v(3) plan_ids_child [OF additive_base_child [OF assms(2)]] by (auto simp: new_ids_def)
    then show ?thesis
      using assms(7) v(4) additive_out_ids [OF n(3)] n(4) by auto
  qed
  ultimately show ?thesis
    using n(3,5) v(3) additive_over.additive [OF n(3) assms(6)] by blast
qed

lemma aligned_ids: "aligned_over stop n \<Longrightarrow> set (out_ids stop) \<subseteq> plan_ids n"
proof (induction rule: aligned_over.induct)
  case stop
  then show ?case by (rule plan_ids_self)
next
  case (selection c pairs)
  then show ?case using plan_ids_child [of c "SelectionNode c pairs"] by auto
next
  case (additive n b)
  then show ?case using plan_ids_child [OF additive_base_child] by blast
qed

lemma typed_child: "typed n \<Longrightarrow> c \<in> set (child_nodes n) \<Longrightarrow> typed c"
  using typed_iff [of n] by (auto simp: list_all_iff)

definition pulled :: "engine \<Rightarrow> bool \<Rightarrow> bfnode \<Rightarrow> bfnode \<Rightarrow> nat \<Rightarrow> ((bfnode \<times> (deref \<times> column_id) list) \<times> nat) result \<Rightarrow> bool" where
  "pulled E rename_vars stop n k res \<longleftrightarrow> (\<exists>m sels k'. res = Inr ((m, sels), k') \<and> k \<le> k' \<and> stands_for E m sels n \<and>
     additive_over stop m \<and> set (out_ids m) \<subseteq> set (out_ids stop) \<union> new_ids rename_vars n k k')"

lemma pull_up_stop:
  assumes "scoped stop" "typed stop"
  shows "pulled E rename_vars stop stop k (pull_up_selection rename_vars stop stop k)"
proof -
  obtain fs where fs: "node_fields stop = Inr fs" "map field_id fs = out_ids stop"
    using assms(2) fields_out_ids typed_iff by blast
  then have "pull_up_selection rename_vars stop stop k = Inr ((stop, map AliasedRef_identity (out_ids stop)), k)"
    by (simp add: pull_up_selection.simps [of rename_vars stop stop k] comp_def flip: fs(2))
  then show ?thesis
    using stands_for_identity [OF assms(1)] by (auto simp: pulled_def intro: additive_over.stop)
qed

lemma pull_up_selection_sound:
  assumes "aligned_over stop n" "scoped n" "typed n"
    and "if rename_vars then list_all (older k) (out_ids stop) else unshadowed n"
  shows "pulled E rename_vars stop n k (pull_up_selection rename_vars stop n k)"
  using assms
proof (induction rule: aligned_over.induct)
  case stop
  then show ?case by (intro pull_up_stop)
next
  case (selection c pairs)
  let ?n = "SelectionNode c pairs"
  show ?case
  proof (cases "?n = stop")
    case True
    then show ?thesis using selection.prems pull_up_stop [of stop E rename_vars k] by simp
  next
    case False
    have "pulled E rename_vars stop c k (pull_up_selection rename_vars stop c k)"
      using selection.prems everywhere_child [of _ ?n c] typed_child [of ?n c]
      by (intro selection.IH) (auto simp: unshadowed_def split: if_splits)
    then obtain m sels k' where m: "pull_up_selection rename_vars stop c k = Inr ((m, sels), k')" "k \<le> k'" "stands_for E m sels c"
      "additive_over stop m" "set (out_ids m) \<subseteq> set (out_ids stop) \<union> new_ids rename_vars c k k'"
      by (auto simp: pulled_def)
    have "new_ids rename_vars c k k' \<subseteq> new_ids rename_vars ?n k k'"
      using plan_ids_child [of c ?n] by (auto simp: new_ids_def)
    with m stands_for_selection [OF m(3) selection.prems(1)] False show ?thesis
      by (auto simp: pulled_def pull_up_selection.simps [of rename_vars stop ?n k])
  qed
next
  case (additive n b)
  show ?case
  proof (cases "n = stop")
    case True
    then show ?thesis using additive.prems pull_up_stop [of stop E rename_vars k] by simp
  next
    case False
    have shadow: "if rename_vars then list_all (older k) (out_ids stop) else unshadowed n \<and> set (out_ids stop) \<subseteq> plan_ids b"
      using additive.prems(3) aligned_ids [OF additive.hyps(2)] by simp
    have "pulled E rename_vars stop b k (pull_up_selection rename_vars stop b k)"
      using additive.prems additive_scoped [OF additive.hyps(1)] typed_child [OF _ additive_base_child [OF additive.hyps(1)]]
        unshadowed_additive [OF _ additive.hyps(1)] by (intro additive.IH) (auto split: if_splits)
    then obtain m sels k1 where m: "pull_up_selection rename_vars stop b k = Inr ((m, sels), k1)" "k \<le> k1" "stands_for E m sels b"
      "additive_over stop m" "set (out_ids m) \<subseteq> set (out_ids stop) \<union> new_ids rename_vars b k k1"
      by (auto simp: pulled_def)
    obtain m' sels' k' where "pull_up_additive rename_vars n (Inr ((m, sels), k1)) = Inr ((m', sels'), k')" "k1 \<le> k'"
      "stands_for E m' sels' n" "additive_over stop m'" "set (out_ids m') \<subseteq> set (out_ids stop) \<union> new_ids rename_vars n k k'"
      using pull_up_additive_sound [OF m(3) additive.hyps(1) additive.prems(1,2) m(2,4,5) shadow] by blast
    with m(1,2) additive.hyps(1) False show ?thesis
      by (auto simp: pulled_def pull_up_selection.simps [of rename_vars stop n k])
  qed
qed

subsection \<open>What linearizing keeps\<close>

lemma additive_rebased:
  assumes "additive_base n = Inr b" "scoped n" "scoped b'" "set (out_ids b) \<subseteq> set (out_ids b')"
    and "rows_agree (set (out_ids b)) (rows E b') (rows E b)" "set (added_ids n) \<inter> set (out_ids b') = {}"
  shows "\<exists>n'. replace_additive_base n b' = Inr n' \<and> scoped n' \<and> out_ids n' = out_ids b' @ added_ids n \<and>
    rows_agree (set (out_ids n)) (rows E n') (rows E n) \<and> rows_agree (set (out_ids b')) (rows E n') (rows E b')"
proof -
  obtain n' where n': "replace_additive_base n b' = Inr n'" "additive_base n' = Inr b'" "added_ids n' = added_ids n"
    "additive_refs n' = additive_refs n" "additive_cell E n' = additive_cell E n"
    "\<forall>l r x i. n' = InNode l r x i \<longrightarrow> (\<exists>l'. n = InNode l' r x i)"
    by (rule additive_replace [OF assms(1)])
  have n: "distinct (added_ids n)" "set (added_ids n) \<inter> set (out_ids b) = {}" "additive_refs n \<subseteq> set (out_ids b)"
    "\<forall>l r x i. n = InNode l r x i \<longrightarrow> scoped r"
    using additive_scoped [OF assms(1)] assms(2) by blast+
  have refs: "additive_refs n' \<subseteq> set (out_ids b')" using assms(4) n(3) n'(4) by blast
  have right: "scoped r" if "n' = InNode l r x i" for l r x i using n'(6) n(4) that by metis
  have "scoped n'"
    unfolding additive_scoped [OF n'(2)] using assms(3,6) n(1) n'(3) refs right by simp
  moreover have "rows_agree (set (out_ids n)) (rows E n') (rows E n)"
  proof (rule rows_agreeI)
    have len: "length (rows E b') = length (rows E b)" using rows_agree_length [OF assms(5)] .
    then show "length (rows E n') = length (rows E n)"
      by (simp add: additive_rows [OF assms(1)] additive_rows [OF n'(2)])
    fix k assume "k < length (rows E n')"
    then have k: "k < length (rows E b')" by (simp add: additive_rows [OF n'(2)])
    have "additive_cell E n (rows E b') k i = additive_cell E n (rows E b) k i" for i
      by (rule additive_cell_agree [OF assms(1) n(3) assms(5) k])
    then show "agree (set (out_ids n)) (rows E n' ! k) (rows E n ! k)"
      using k len rows_agree_nth [OF assms(5) k] additive_out_ids [OF assms(1)]
      by (auto simp: agree_def additive_rows [OF assms(1)] additive_rows [OF n'(2)] n'(3,5))
  qed
  moreover have "rows_agree (set (out_ids b')) (rows E n') (rows E b')"
    using assms(6) by (intro rows_agreeI) (auto simp: agree_def additive_rows [OF n'(2)] n'(3))
  ultimately show ?thesis using n'(1,3) additive_out_ids [OF n'(2)] by auto
qed

lemma additive_over_rows:
  "additive_over stop n \<Longrightarrow> scoped n \<Longrightarrow> set (out_ids stop) \<subseteq> set (out_ids n) \<and> rows_agree (set (out_ids stop)) (rows E n) (rows E stop)"
proof (induction rule: additive_over.induct)
  case (additive n b)
  have n: "scoped b" "set (added_ids n) \<inter> set (out_ids b) = {}"
    using additive_scoped [OF additive.hyps(1)] additive.prems by blast+
  have "rows_agree (set (out_ids b)) (rows E n) (rows E b)"
    using n(2) by (intro rows_agreeI) (auto simp: agree_def additive_rows [OF additive.hyps(1)])
  moreover have stop: "set (out_ids stop) \<subseteq> set (out_ids b)" "rows_agree (set (out_ids stop)) (rows E b) (rows E stop)"
    using additive.IH [OF n(1)] by simp_all
  ultimately have "rows_agree (set (out_ids stop)) (rows E n) (rows E stop)"
    using rows_agree_trans [OF rows_agree_mono] by blast
  with stop(1) show ?case using additive_out_ids [OF additive.hyps(1)] by auto
qed simp

lemma linearize_sound:
  assumes "additive_over divergent r" "scoped r" "scoped l" "set (out_ids divergent) \<subseteq> set (out_ids l)"
    and "rows_agree (set (out_ids divergent)) (rows E l) (rows E divergent)"
    and "(set (out_ids r) - set (out_ids divergent)) \<inter> set (out_ids l) = {}"
  shows "\<exists>m. linearize_trees divergent l r = Inr m \<and> scoped m \<and> set (out_ids m) = set (out_ids l) \<union> set (out_ids r) \<and>
    rows_agree (set (out_ids r)) (rows E m) (rows E r) \<and> rows_agree (set (out_ids l)) (rows E m) (rows E l)"
proof (cases "r = divergent")
  case True
  then show ?thesis using assms by (auto simp: linearize_trees.simps [of divergent l divergent])
next
  case False
  from assms(1,2,6) False show ?thesis
  proof (induction rule: additive_over.induct)
    case (additive n b)
    have n: "scoped b" "set (added_ids n) \<inter> set (out_ids b) = {}"
      using additive_scoped [OF additive.hyps(1)] additive.prems(1) by blast+
    have out: "set (out_ids n) = set (out_ids b) \<union> set (added_ids n)" using additive_out_ids [OF additive.hyps(1)] by simp
    have below: "set (out_ids divergent) \<subseteq> set (out_ids b)" using additive_over_rows [OF additive.hyps(2) n(1)] by blast
    have "\<exists>m. linearize_trees divergent l b = Inr m \<and> scoped m \<and> set (out_ids m) = set (out_ids l) \<union> set (out_ids b) \<and>
        rows_agree (set (out_ids b)) (rows E m) (rows E b) \<and> rows_agree (set (out_ids l)) (rows E m) (rows E l)"
    proof (cases "b = divergent")
      case True
      then show ?thesis using assms(3-5) by (auto simp: linearize_trees.simps [of divergent l divergent])
    next
      case False
      then show ?thesis using additive.IH n(1) additive.prems(2) out by auto
    qed
    then obtain m where m: "linearize_trees divergent l b = Inr m" "scoped m" "set (out_ids m) = set (out_ids l) \<union> set (out_ids b)"
      "rows_agree (set (out_ids b)) (rows E m) (rows E b)" "rows_agree (set (out_ids l)) (rows E m) (rows E l)"
      by blast
    have "set (added_ids n) \<inter> set (out_ids m) = {}" using additive.prems(2) n(2) below out m(3) by auto
    from additive_rebased [OF additive.hyps(1) additive.prems(1) m(2) _ m(4) this] m(3)
    obtain n' where "replace_additive_base n m = Inr n'" "scoped n'" "out_ids n' = out_ids m @ added_ids n"
      "rows_agree (set (out_ids n)) (rows E n') (rows E n)" "rows_agree (set (out_ids m)) (rows E n') (rows E m)"
      by auto
    then show ?case
      using additive.hyps(1) additive.prems(3) m(1,3,5) out
      by (auto simp: linearize_trees.simps [of divergent l n] intro: rows_agree_trans rows_agree_mono)
  qed simp
qed

subsection \<open>What the specification of a column means\<close>

lemma eval_bound:
  "eval E r (subst_expr (bound_to b) e) = eval E (\<lambda>i. case b i of None \<Rightarrow> r i | Some x \<Rightarrow> eval E r x) e"
proof (induction e)
  case (Deref d)
  then show ?case by (simp add: bound_to_def split: option.split)
next
  case (OpExpression op inputs)
  then have "map (eval E r) (map (subst_expr (bound_to b)) inputs) =
      map (eval E (\<lambda>i. case b i of None \<Rightarrow> r i | Some x \<Rightarrow> eval E r x)) inputs" by simp
  then show ?case by (simp add: comp_def del: map_map map_eq_conv)
qed simp_all

text \<open>An expression over a node has, row by row, the value of another over another node.\<close>

definition same_values :: "engine \<Rightarrow> bfnode \<Rightarrow> expr \<Rightarrow> bfnode \<Rightarrow> expr \<Rightarrow> bool" where
  "same_values E n e m e' \<longleftrightarrow> map (\<lambda>r. eval E r e) (rows E n) = map (\<lambda>r. eval E r e') (rows E m)"

lemma same_values_refl: "same_values E n e n e"
  by (simp add: same_values_def)

lemma same_values_trans: "same_values E n e m e' \<Longrightarrow> same_values E m e' p e'' \<Longrightarrow> same_values E n e p e''"
  by (simp add: same_values_def)

lemma same_values_below:
  assumes "additive_base n = Inr b" "set (column_references e) \<inter> set (added_ids n) = {}"
  shows "same_values E n e b e"
  unfolding same_values_def
proof (rule nth_equalityI)
  fix k assume "k < length (map (\<lambda>r. eval E r e) (rows E n))"
  then have "k < length (rows E b)" by (simp add: additive_rows [OF assms(1)])
  moreover from this have "eval E (rows E n ! k) e = eval E (rows E b ! k) e"
    using assms(2) by (intro eval_cong [of e "set (column_references e)"]) (auto simp: additive_rows [OF assms(1)] agree_def)
  ultimately show "map (\<lambda>r. eval E r e) (rows E n) ! k = map (\<lambda>r. eval E r e) (rows E b) ! k"
    by (simp add: additive_rows [OF assms(1)])
qed (simp add: additive_rows [OF assms(1)])

lemma spec_of_additive:
  assumes "typed n" "scoped n" "additive_base n = Inr b" "set (column_references e) \<subseteq> set (out_ids n)"
    and "expression_spec n e = rbind (added_fields n) (\<lambda>added.
       if set (column_references e) \<inter> field_id ` set added = {} then expression_spec b e else Inr (e, n))"
    and IH: "set (column_references e) \<subseteq> set (out_ids b) \<Longrightarrow> \<exists>e' m. expression_spec b e = Inr (e', m) \<and> same_values E b e m e'"
  shows "\<exists>e' m. expression_spec n e = Inr (e', m) \<and> same_values E n e m e'"
proof -
  obtain added where added: "added_fields n = Inr added" "map field_id added = added_ids n"
    using typed_added [OF assms(1,3)] added_fields_ids by blast
  have ids: "field_id ` set added = set (added_ids n)" using arg_cong [OF added(2), of set] by simp
  show ?thesis
  proof (cases "set (column_references e) \<inter> set (added_ids n) = {}")
    case True
    then have "set (column_references e) \<subseteq> set (out_ids b)" using assms(4) additive_out_ids [OF assms(3)] by auto
    with IH True show ?thesis
      using same_values_trans [OF same_values_below [OF assms(3) True]] by (auto simp: assms(5) added(1) ids)
  next
    case False
    then show ?thesis by (simp add: assms(5) added(1) ids same_values_refl)
  qed
qed

lemma spec_sound:
  assumes "typed n" "scoped n" "set (column_references e) \<subseteq> set (out_ids n)"
  shows "\<exists>e' m. expression_spec n e = Inr (e', m) \<and> same_values E n e m e'"
  using assms
proof (induction n arbitrary: e)
  case (SelectionNode c pairs)
  let ?b = "dict_of (map (\<lambda>(ref, i). (i, Deref ref)) pairs)"
  let ?e = "subst_expr (bound_to ?b) e"
  have look: "?b i = map_option Deref (dict_of (map (\<lambda>(d, j). (j, d)) pairs) i)" for i
    using dict_of_rename [of snd Deref fst pairs i] by (simp add: case_prod_unfold)
  have bound: "\<exists>d. dict_of (map (\<lambda>(d, j). (j, d)) pairs) i = Some d \<and> ref_id d \<in> set (out_ids c)"
    if "i \<in> set (column_references e)" for i
  proof -
    have "i \<in> snd ` set pairs" using that SelectionNode.prems(3) by auto
    then obtain d where "dict_of (map (\<lambda>(d, j). (j, d)) pairs) i = Some d"
      using dict_key_iff [of snd fst pairs i] by (auto simp: case_prod_unfold)
    then show ?thesis using SelectionNode.prems(2) by (auto simp: list_all_iff dest!: dict_of_SomeD)
  qed
  have "eval E (select_row pairs r) e = eval E r ?e" for r
    unfolding eval_bound using bound
    by (intro eval_cong [of e "set (column_references e)"]) (auto simp: agree_def select_row_def look dest!: bound)
  then have "same_values E (SelectionNode c pairs) e c ?e" by (simp add: same_values_def)
  moreover have "set (column_references ?e) \<subseteq> set (out_ids c)"
    using bound by (fastforce simp: references_subst look)
  ultimately show ?case
    using SelectionNode.IH [of ?e] SelectionNode.prems typed_child [of "SelectionNode c pairs" c]
    by (auto dest: same_values_trans)
next
  case (ProjectionNode c asg)
  let ?b = "dict_of (map (\<lambda>(x, i). (i, x)) asg)"
  let ?e = "subst_expr (bound_to ?b) e"
  have "eval E (project_row E asg r) e = eval E r ?e" for r
    unfolding eval_bound project_row_def ..
  then have "same_values E (ProjectionNode c asg) e c ?e" by (simp add: same_values_def)
  moreover have "set (column_references ?e) \<subseteq> set (out_ids c)"
  proof -
    have "set (case ?b i of None \<Rightarrow> [i] | Some x \<Rightarrow> column_references x) \<subseteq> set (out_ids c)" if "i \<in> set (column_references e)" for i
    proof (cases "?b i")
      case None
      then have "i \<notin> snd ` set asg" using dict_key_iff [of snd fst asg i] by (simp add: case_prod_unfold)
      then show ?thesis using None that ProjectionNode.prems(3) by auto
    next
      case (Some x)
      then have "(x, i) \<in> set asg" by (auto dest!: dict_of_SomeD)
      then show ?thesis using Some ProjectionNode.prems(2) by (auto simp: list_all_iff)
    qed
    then show ?thesis by (auto simp: references_subst)
  qed
  ultimately show ?case
    using ProjectionNode.IH [of ?e] ProjectionNode.prems typed_child [of "ProjectionNode c asg" c]
    by (auto dest: same_values_trans)
next
  case (WindowOpNode c ds w)
  have "typed c" "scoped c" using WindowOpNode.prems(1,2) typed_child [of "WindowOpNode c ds w" c] by simp_all
  note below = WindowOpNode.IH [OF this]
  show ?case
    by (rule spec_of_additive [OF WindowOpNode.prems(1,2) _ WindowOpNode.prems(3), of c]) (simp_all only: additive_base.simps expression_spec.simps below)
next
  case (PromoteOffsetsNode c i)
  have "typed c" "scoped c" using PromoteOffsetsNode.prems(1,2) typed_child [of "PromoteOffsetsNode c i" c] by simp_all
  note below = PromoteOffsetsNode.IH [OF this]
  show ?case
    by (rule spec_of_additive [OF PromoteOffsetsNode.prems(1,2) _ PromoteOffsetsNode.prems(3), of c]) (simp_all only: additive_base.simps expression_spec.simps below)
next
  case (InNode l r x i)
  have "typed l" "scoped l" using InNode.prems(1,2) typed_child [of "InNode l r x i" l] by simp_all
  note below = InNode.IH(1) [OF this]
  show ?case
    by (rule spec_of_additive [OF InNode.prems(1,2) _ InNode.prems(3), of l]) (simp_all only: additive_base.simps expression_spec.simps below)
qed (auto intro: same_values_refl)

text \<open>The values that the specification of a column stands for.\<close>

definition spec_values :: "engine \<Rightarrow> bfnode \<Rightarrow> column_id \<Rightarrow> sql_value list \<Rightarrow> bool" where
  "spec_values E n i vs \<longleftrightarrow> (\<exists>e m. get_expression_spec n i = Inr (e, m) \<and> vs = map (\<lambda>r. eval E r e) (rows E m))"

abbreviation column_values :: "engine \<Rightarrow> bfnode \<Rightarrow> column_id \<Rightarrow> sql_value list" where
  "column_values E n i \<equiv> map (\<lambda>r. r i) (rows E n)"

lemma column_spec_values:
  "typed n \<Longrightarrow> scoped n \<Longrightarrow> i \<in> set (out_ids n) \<Longrightarrow> spec_values E n i (column_values E n i)"
  using spec_sound [of n "Deref (DerefOp i)" E] by (auto simp: spec_values_def get_expression_spec_def same_values_def)

text \<open>A column that a selection hides is still found below it.\<close>

lemma hidden_spec_values: "i \<notin> snd ` set pairs \<Longrightarrow> spec_values E c i vs \<Longrightarrow> spec_values E (SelectionNode c pairs) i vs"
  using dict_key_iff [of snd "\<lambda>x. Deref (fst x)" pairs i]
  by (simp add: spec_values_def get_expression_spec_def bind_deref_def case_prod_unfold)

lemma same_keys_sound:
  assumes "\<forall>(a, b) \<in> set keys. spec_values E l (ColumnId a) (lv a) \<and> spec_values E r (ColumnId b) (rv b)"
  shows "\<exists>same. same_keys l r keys = Inr same \<and> (same \<longrightarrow> (\<forall>(a, b) \<in> set keys. lv a = rv b))"
  using assms
proof (induction keys)
  case (Cons key keys)
  then show ?case by (auto simp: spec_values_def split: prod.split)
qed (simp, blast)

subsection \<open>The joined plan\<close>

lemma select_row_mapping: "select_row pairs s i = (case selection_mapping pairs i of None \<Rightarrow> NULL | Some j \<Rightarrow> s j)"
  by (simp add: select_row_def selection_mapping_lookup(1) split: option.split)

lemma selection_mapping_append:
  "selection_mapping (xs @ ys) i = (if i \<in> snd ` set ys then selection_mapping ys i else selection_mapping xs i)"
  using dict_key_iff [of snd "\<lambda>x. ref_id (fst x)" ys i]
  by (auto simp: selection_mapping_def dict_of_append case_prod_unfold split: option.split)

lemma selection_mapping_Some: "i \<in> snd ` set xs \<Longrightarrow> \<exists>j. selection_mapping xs i = Some j"
  using dict_key_iff [of snd "\<lambda>x. ref_id (fst x)" xs i] by (auto simp: selection_mapping_def case_prod_unfold)

text \<open>A node that keeps the rows of \<open>m\<close>, read through the part of a selection that stands for \<open>n\<close>.\<close>

lemma stands_for_under:
  assumes "stands_for E m sels n" "rows_agree (set (out_ids m)) (rows E m') (rows E m)"
    and "\<And>i. i \<in> set (out_ids n) \<Longrightarrow> selection_mapping all i = selection_mapping sels i"
  shows "rows_agree (set (out_ids n)) (rows E (SelectionNode m' all)) (rows E n)"
proof (rule rows_agreeI)
  have n: "map snd sels = out_ids n" "\<forall>(d, i) \<in> set sels. ref_id d \<in> set (out_ids m)"
    "rows_agree (set (out_ids n)) (rows E n) (map (pre (selection_mapping sels)) (rows E m))"
    using assms(1) by (simp_all add: stands_for_def)
  have len: "length (rows E m') = length (rows E m)" "length (rows E m) = length (rows E n)"
    using rows_agree_length [OF assms(2)] rows_agree_length [OF n(3)] by simp_all
  then show "length (rows E (SelectionNode m' all)) = length (rows E n)" by simp
  fix k assume "k < length (rows E (SelectionNode m' all))"
  then have k: "k < length (rows E m')" by simp
  have "(rows E (SelectionNode m' all) ! k) i = (rows E n ! k) i" if i: "i \<in> set (out_ids n)" for i
  proof -
    have "i \<in> snd ` set sels" using i by (simp flip: n(1))
    then obtain j where j: "selection_mapping sels i = Some j" using selection_mapping_Some by blast
    then have "j \<in> set (out_ids m)" using selection_mapping_image [OF n(1,2)] i by force
    then show ?thesis
      using j k len i rows_agree_nth [OF assms(2) k] rows_agree_nth [OF n(3), of k]
      by (simp add: select_row_mapping assms(3) agree_def pre_def)
  qed
  then show "agree (set (out_ids n)) (rows E (SelectionNode m' all) ! k) (rows E n ! k)" by (simp add: agree_def)
qed

definition row_joined :: "engine \<Rightarrow> bfnode \<Rightarrow> bfnode \<Rightarrow> bfnode \<Rightarrow> bool" where
  "row_joined E m l r \<longleftrightarrow> scoped m \<and> out_ids m = out_ids l @ out_ids r \<and>
     rows_agree (set (out_ids l)) (rows E m) (rows E l) \<and> rows_agree (set (out_ids r)) (rows E m) (rows E r)"

lemma row_join_sound:
  assumes "scoped l" "scoped r" "typed l" "typed r" "unshadowed l" "ids_older k l"
    and "set (out_ids l) \<inter> set (out_ids r) = {}"
    and "\<forall>(a, b) \<in> set keys. spec_values E l (ColumnId a) (lv a) \<and> spec_values E r (ColumnId b) (rv b)"
  shows "\<exists>res k'. try_row_join l r keys k = Inr (res, k') \<and> k \<le> k' \<and>
    (\<forall>m. res = Some m \<longrightarrow> row_joined E m l r \<and> (\<forall>(a, b) \<in> set keys. lv a = rv b))"
proof (cases "first_shared_descendent is_alignable (remdups [l, r])")
  case None
  then show ?thesis by (auto simp: try_row_join_def)
next
  case (Some stop)
  obtain same where same: "same_keys l r keys = Inr same" "same \<Longrightarrow> \<forall>(a, b) \<in> set keys. lv a = rv b"
    using same_keys_sound [OF assms(8)] by blast
  show ?thesis
  proof (cases same)
    case False
    then show ?thesis using Some same(1) by (auto simp: try_row_join_def)
  next
    case True
    have over: "aligned_over stop l" "aligned_over stop r"
      using first_shared_aligned [OF Some] by simp_all
    have old: "j \<le> k" if "guid_id j \<in> plan_ids l" for j
      using assms(6) that by (force simp: plan_ids_def ids_older_def everywhere_def list_all_iff unique_nodes_set)
    obtain l1 l_sel k1 where l1: "pull_up_selection False stop l k = Inr ((l1, l_sel), k1)" "k \<le> k1" "stands_for E l1 l_sel l"
      "additive_over stop l1" "set (out_ids l1) \<subseteq> set (out_ids stop) \<union> plan_ids l"
      using pull_up_selection_sound [OF over(1) assms(1,3), of False k E] assms(5) by (auto simp: pulled_def new_ids_def)
    then have l1_ids: "set (out_ids l1) \<subseteq> plan_ids l" using aligned_ids [OF over(1)] by blast
    have "list_all (older k1) (out_ids stop)"
      using old aligned_ids [OF over(1)] l1(2) by (fastforce simp: list_all_iff older_def)
    then obtain r1 r_sel k2 where r1: "pull_up_selection True stop r k1 = Inr ((r1, r_sel), k2)" "k1 \<le> k2" "stands_for E r1 r_sel r"
      "additive_over stop r1" "set (out_ids r1) \<subseteq> set (out_ids stop) \<union> guid_id ` {k1<..k2}"
      using pull_up_selection_sound [OF over(2) assms(2,4), of True k1 E] by (auto simp: pulled_def new_ids_def)
    have sc: "scoped l1" "scoped r1" using l1(3) r1(3) by (simp_all add: stands_for_def)
    have "(set (out_ids r1) - set (out_ids stop)) \<inter> set (out_ids l1) = {}"
      using r1(5) l1(2) l1_ids old by fastforce
    then obtain m where m: "linearize_trees stop l1 r1 = Inr m" "scoped m" "set (out_ids m) = set (out_ids l1) \<union> set (out_ids r1)"
      "rows_agree (set (out_ids r1)) (rows E m) (rows E r1)" "rows_agree (set (out_ids l1)) (rows E m) (rows E l1)"
      using linearize_sound [OF r1(4) sc(2,1)] additive_over_rows [OF l1(4) sc(1), of E] by blast
    let ?m = "SelectionNode m (l_sel @ r_sel)"
    have sels: "map snd l_sel = out_ids l" "map snd r_sel = out_ids r"
      "\<forall>(d, i) \<in> set (l_sel @ r_sel). ref_id d \<in> set (out_ids m)"
      using l1(3) r1(3) m(3) by (auto simp: stands_for_def)
    have names: "snd ` set r_sel = set (out_ids r)" using arg_cong [OF sels(2), of set] by simp
    have agree: "rows_agree (set (out_ids l)) (rows E ?m) (rows E l)" "rows_agree (set (out_ids r)) (rows E ?m) (rows E r)"
      using assms(7) by (auto intro!: stands_for_under [OF l1(3) m(5)] stands_for_under [OF r1(3) m(4)]
          simp: selection_mapping_append names simp del: rows.simps)
    have "distinct (out_ids l)" "distinct (out_ids r)" using assms(1,2) scoped_distinct by blast+
    then have joined: "row_joined E ?m l r"
      using m(2) sels assms(7) agree by (auto simp: row_joined_def list_all_iff simp del: rows.simps)
    have "try_row_join l r keys k = Inr (Some ?m, k2)"
      using Some same(1) True l1(1) r1(1) m(1) by (simp add: try_row_join_def)
    then show ?thesis using joined same(2) [OF True] l1(2) r1(2) by (auto simp del: rows.simps)
  qed
qed

end
