(* ===== verification/Field_Renaming.thy ===== *)
theory Field_Renaming
  imports Row_Alignment
begin

text \<open>
  The fields of a node do not depend on the names of the columns below it: expressions that are not
  yet bound to a schema have the same types after their references are renamed.
\<close>

subsection \<open>Expressions that are not bound to a schema\<close>

primrec plain :: "expr \<Rightarrow> bool" where
  "plain (ScalarConstantExpression v t) = True"
| "plain (UnboundVariableExpression i) = True"
| "plain (Deref d) = (d = DerefOp (ref_id d))"
| "plain (OpExpression op inputs) = list_all (\<lambda>b. b) (map plain inputs)"
| "plain (NullaryAggregation w) = True"
| "plain (UnaryAggregation w a) = plain a"
| "plain (BinaryAggregation w l r) = (plain l \<and> plain r)"
| "plain (WindowExpression a w) = (plain a \<and> list_all (\<lambda>b. b) (window_expressions (map_window_spec plain w)))"

text \<open>What the type of an expression depends on.\<close>

definition type_info :: "expr \<Rightarrow> bool \<times> etype result \<times> bool \<times> bool" where
  "type_info e = (is_resolved e, output_type e, nullable e, is_identity e)"

lemma type_info_lists:
  assumes "map type_info es = map type_info es'"
  shows "list_all (\<lambda>e. p_is_resolved (expr_props e)) es = list_all (\<lambda>e. p_is_resolved (expr_props e)) es'"
    "list_ex (\<lambda>e. p_nullable (expr_props e)) es = list_ex (\<lambda>e. p_nullable (expr_props e)) es'"
    "map (\<lambda>e. p_output_type (expr_props e)) es = map (\<lambda>e. p_output_type (expr_props e)) es'"
proof -
  have infos: "map (f \<circ> type_info) es = map (f \<circ> type_info) es'" for f :: "bool \<times> etype result \<times> bool \<times> bool \<Rightarrow> 'b"
    using arg_cong [OF assms, of "map f"] by simp
  have resolved: "map (\<lambda>e. p_is_resolved (expr_props e)) es = map (\<lambda>e. p_is_resolved (expr_props e)) es'"
    using infos [of fst] by (simp add: comp_def type_info_def is_resolved_def)
  have null: "map (\<lambda>e. p_nullable (expr_props e)) es = map (\<lambda>e. p_nullable (expr_props e)) es'"
    using infos [of "\<lambda>(_, _, n, _). n"] by (simp add: comp_def type_info_def nullable_def)
  show "list_all (\<lambda>e. p_is_resolved (expr_props e)) es = list_all (\<lambda>e. p_is_resolved (expr_props e)) es'"
    using arg_cong [OF resolved, of "list_all (\<lambda>b. b)"] by (simp add: list_all_iff)
  show "list_ex (\<lambda>e. p_nullable (expr_props e)) es = list_ex (\<lambda>e. p_nullable (expr_props e)) es'"
    using arg_cong [OF null, of "list_ex (\<lambda>b. b)"] by (simp add: list_ex_iff)
  show "map (\<lambda>e. p_output_type (expr_props e)) es = map (\<lambda>e. p_output_type (expr_props e)) es'"
    using infos [of "\<lambda>(_, t, _, _). t"] by (simp add: comp_def type_info_def output_type_def)
qed

lemma mapM_comp: "mapM f (map g xs) = mapM (\<lambda>x. f (g x)) xs"
  by (induction xs) simp_all

lemma mapM_map_cong: "map f xs = map f ys \<Longrightarrow> mapM f xs = mapM f ys"
  using mapM_comp [of "\<lambda>r. r" f] by metis

lemma OpExpression_info:
  assumes "map type_info es = map type_info es'"
  shows "type_info (OpExpression op es) = type_info (OpExpression op es')"
  using type_info_lists(1,2) [OF assms] mapM_map_cong [OF type_info_lists(3) [OF assms]]
  by (simp add: type_info_def is_resolved_def output_type_def nullable_def is_identity_def OpExpression_props_def Let_def
      Expression_props_def mapM_comp list_all_iff list_ex_iff)

lemma Aggregation_info:
  assumes "map type_info es = map type_info es'"
  shows "p_is_resolved (Aggregation_props op (map expr_props es)) = p_is_resolved (Aggregation_props op (map expr_props es'))"
    "p_output_type (Aggregation_props op (map expr_props es)) = p_output_type (Aggregation_props op (map expr_props es'))"
    "p_nullable (Aggregation_props op (map expr_props es)) = p_nullable (Aggregation_props op (map expr_props es'))"
    "p_is_identity (Aggregation_props op (map expr_props es)) = p_is_identity (Aggregation_props op (map expr_props es'))"
  using type_info_lists(1) [OF assms] mapM_map_cong [OF type_info_lists(3) [OF assms]]
  by (simp_all add: Aggregation_props_def Let_def Expression_props_def mapM_comp list_all_iff)

text \<open>Substitutions with the same types give expressions with the same types.\<close>

lemma subst_type_info:
  assumes "plain e" "\<And>i. i \<in> set (column_references e) \<Longrightarrow> type_info (s (DerefOp i)) = type_info (s' (DerefOp i))"
  shows "type_info (subst_expr s e) = type_info (subst_expr s' e)"
  using assms
proof (induction e)
  case (Deref d)
  then show ?case by (cases d) simp_all
next
  case (OpExpression op inputs)
  have "map type_info (map (subst_expr s) inputs) = map type_info (map (subst_expr s') inputs)"
    using OpExpression by (auto simp: list_all_iff)
  then show ?case using OpExpression_info [of "map (subst_expr s) inputs" "map (subst_expr s') inputs" op] by simp
next
  case (UnaryAggregation op a)
  then have "map type_info [subst_expr s a] = map type_info [subst_expr s' a]" by simp
  from Aggregation_info [OF this, of op] show ?case
    by (simp add: type_info_def is_resolved_def output_type_def nullable_def is_identity_def)
next
  case (BinaryAggregation op a b)
  then have "map type_info [subst_expr s a, subst_expr s b] = map type_info [subst_expr s' a, subst_expr s' b]" by simp
  from Aggregation_info [OF this, of op] show ?case
    by (simp add: type_info_def is_resolved_def output_type_def nullable_def is_identity_def)
next
  case (WindowExpression a w)
  let ?es = "\<lambda>t. subst_expr t a # window_expressions (map_window_spec (subst_expr t) w)"
  have "map type_info (?es s) = map type_info (?es s')"
    using WindowExpression by (auto simp: window_expressions_map list_all_iff set_window_expressions)
  from type_info_lists(1,3) [OF this] show ?case
    using WindowExpression.IH(1) WindowExpression.prems
    by (simp add: type_info_def is_resolved_def output_type_def nullable_def is_identity_def WindowExpression_props_def Let_def
        Expression_props_def window_expressions_map list_all_iff)
qed simp_all

subsection \<open>Binding after renaming\<close>

text \<open>Two fields that differ in their identifier at most, and two schemas that agree through a renaming.\<close>

definition like_field :: "field \<Rightarrow> field \<Rightarrow> bool" where
  "like_field f g \<longleftrightarrow> field_dtype f = field_dtype g \<and> field_nullable f = field_nullable g"

definition renamed_fields :: "id_mapping \<Rightarrow> column_id set \<Rightarrow> (column_id \<Rightarrow> field option) \<Rightarrow> (column_id \<Rightarrow> field option) \<Rightarrow> bool" where
  "renamed_fields r S m m' \<longleftrightarrow> (\<forall>i \<in> S. rel_option like_field (m i) (m' (get_or_self r i)))"

lemma resolved_references:
  assumes "plain e" "is_resolved e"
  shows "column_references e = []"
  using assms
proof (induction e)
  case (Deref d)
  then show ?case by (cases d) (simp_all add: is_resolved_def deref_props_def DerefOp_props_def Expression_props_def)
next
  case (WindowExpression a w)
  then show ?case by (auto simp: list_all_iff window_expressions_map set_window_expressions)
qed (auto simp: list_all_iff)

lemma rename_info: "plain e \<Longrightarrow> type_info (rename_expr r e) = type_info e"
proof -
  assume "plain e"
  then have "type_info (subst_expr (bound_to (deref_bindings r)) e) = type_info (subst_expr Deref e)"
    by (rule subst_type_info)
      (auto simp: type_info_def is_resolved_def output_type_def nullable_def is_identity_def bound_to_def deref_bindings_def
        deref_props_def DerefOp_props_def Expression_props_def split: option.split)
  then show ?thesis by simp
qed

lemma subst_subst: "subst_expr s (subst_expr t e) = subst_expr (\<lambda>d. subst_expr s (t d)) e"
proof (induction e)
  case (WindowExpression a w)
  then show ?case by (simp add: window_spec.map_comp comp_def cong: window_spec.map_cong)
qed auto

lemma plain_rename: "plain e \<Longrightarrow> plain (rename_expr r e)"
proof (induction e)
  case (Deref d)
  then show ?case by (simp add: bound_to_def deref_bindings_def split: option.split)
next
  case (WindowExpression a w)
  then show ?case by (auto simp: list_all_iff window_expressions_map set_window_expressions)
qed (auto simp: list_all_iff)

definition schema_binding :: "(column_id \<Rightarrow> field option) \<Rightarrow> bindings" where
  "schema_binding m = (\<lambda>i. map_option (\<lambda>f. Deref (ResolvedDerefOp (field_id f) (field_dtype f) (field_nullable f))) (m i))"

lemma bind_schema_alt:
  "bind_schema_fields e m = (if is_resolved e then Inr e
     else if \<forall>i \<in> set (column_references e). m i \<noteq> None then Inr (subst_expr (bound_to (schema_binding m)) e) else Inl ValueError)"
  by (auto simp: bind_schema_fields_def schema_binding_def [symmetric] bind_refs_subst all_bound_def)
    (auto simp: schema_binding_def)

lemma bind_rename:
  assumes "plain e" "renamed_fields r (set (column_references e)) m m'" "bind_schema_fields e m = Inr b"
  shows "\<exists>b'. bind_schema_fields (rename_expr r e) m' = Inr b' \<and> type_info b' = type_info b"
proof (cases "is_resolved e")
  case True
  then have "rename_expr r e = subst_expr Deref e"
    using resolved_references [OF assms(1)] by (intro subst_expr_cong) simp
  then show ?thesis using True assms(3) by (simp add: bind_schema_alt)
next
  case False
  have "is_resolved (rename_expr r e) = is_resolved e" using rename_info [OF assms(1)] by (simp add: type_info_def)
  then have res: "\<not> is_resolved (rename_expr r e)" using False by simp
  have bound: "\<forall>i \<in> set (column_references e). m i \<noteq> None" and b: "b = subst_expr (bound_to (schema_binding m)) e"
    using assms(3) False by (auto simp: bind_schema_alt split: if_splits)
  have like: "\<exists>f g. m i = Some f \<and> m' (get_or_self r i) = Some g \<and> like_field f g" if "i \<in> set (column_references e)" for i
    using that assms(2) bound by (fastforce simp: renamed_fields_def option_rel_Some1)
  have "\<forall>i \<in> set (column_references (rename_expr r e)). m' i \<noteq> None"
    using like by (fastforce simp: refs_rename)
  moreover have "type_info (subst_expr (bound_to (schema_binding m')) (rename_expr r e)) = type_info b"
    unfolding b subst_subst
  proof (rule subst_type_info [OF assms(1)])
    fix i assume "i \<in> set (column_references e)"
    then obtain f g where fg: "m i = Some f" "m' (get_or_self r i) = Some g" "like_field f g" using like by blast
    then have "subst_expr (bound_to (schema_binding m')) (bound_to (deref_bindings r) (DerefOp i)) =
        Deref (ResolvedDerefOp (field_id g) (field_dtype g) (field_nullable g))"
      by (cases "r i") (simp_all add: bound_to_def deref_bindings_def schema_binding_def)
    with fg show "type_info (subst_expr (bound_to (schema_binding m')) (bound_to (deref_bindings r) (DerefOp i))) =
        type_info (bound_to (schema_binding m) (DerefOp i))"
      by (simp add: bound_to_def schema_binding_def type_info_def is_resolved_def output_type_def nullable_def is_identity_def
          deref_props_def ResolvedDerefOp_props_def DerefOp_props_def Expression_props_def like_field_def)
  qed
  ultimately show ?thesis using res by (simp add: bind_schema_alt)
qed

lemma aggregated_rename:
  assumes "plain e" "renamed_fields r (set (column_references e)) m m'" "aggregated_field m e i = Inr f"
  shows "aggregated_field m' (rename_expr r e) i = Inr f"
proof -
  obtain b where b: "bind_schema_fields e m = Inr b" using assms(3) by (auto simp: aggregated_field_def rbind_eq_Inr_iff)
  obtain b' where "bind_schema_fields (rename_expr r e) m' = Inr b'" "output_type b' = output_type b"
    using bind_rename [OF assms(1,2) b] by (auto simp: type_info_def)
  then show ?thesis using assms(3) b by (simp add: aggregated_field_def)
qed

lemma any_nullable_rename: "renamed_fields r (set is) m m' \<Longrightarrow> any_nullable m' (map (get_or_self r) is) = any_nullable m is"
proof (induction "is")
  case (Cons i "is")
  then have "rel_option like_field (m i) (m' (get_or_self r i))" by (simp add: renamed_fields_def)
  then show ?case
    using Cons by (cases "m i"; cases "m' (get_or_self r i)") (simp_all add: any_nullable_def renamed_fields_def like_field_def lookup_or_def)
qed (simp add: any_nullable_def)

lemma projected_rename:
  assumes "plain e" "renamed_fields r (set (column_references e)) m m'" "projected_field m e i = Inr f"
  shows "projected_field m' (rename_expr r e) i = Inr f"
proof -
  obtain b where b: "bind_schema_fields e m = Inr b" using assms(3) by (auto simp: projected_field_def rbind_eq_Inr_iff)
  obtain b' where "bind_schema_fields (rename_expr r e) m' = Inr b'" "output_type b' = output_type b" "nullable b' = nullable b"
    "is_identity b' = is_identity b"
    using bind_rename [OF assms(1,2) b] by (auto simp: type_info_def)
  then show ?thesis using assms(3) b unfolding projected_field_def refs_rename any_nullable_rename [OF assms(2)] by simp
qed

end
