(* ===== verification/Rewrite_Slices.thy ===== *)
theory Rewrite_Slices
  imports Fresh_Ids Node_Metadata
begin

text \<open>
  \<^verbatim>\<open>core/rewrite/slices.py\<close>: a slice becomes the child, its reversal, or a filter on generated
  offsets; a limit at the root of a query is pulled into the query's result. The filters are
  right where the residues they test are those of the slice; the counter of generated
  identifiers is the state of the rewrite.
\<close>

subsection \<open>The code\<close>

text \<open>The operators of the predicates, with Python's \<^verbatim>\<open>or const(True)\<close> for an empty list.\<close>

definition int_const :: "int \<Rightarrow> expr" where "int_const v = const (IntV v) None"

fun merge_predicates :: "expr list \<Rightarrow> expr option" where
  "merge_predicates [] = None"
| "merge_predicates (p # ps) = Some (foldl (\<lambda>a b. OpExpression AndOp [a, b]) p ps)"

definition or_true :: "expr option \<Rightarrow> expr" where
  "or_true p = (case p of None \<Rightarrow> const (BoolV True) None | Some e \<Rightarrow> e)"

definition residue_cond :: "expr \<Rightarrow> int \<Rightarrow> expr" where
  "residue_cond diff step = OpExpression EqOp [OpExpression ModOp [diff, int_const step], int_const 0]"

definition convert_simple_slice :: "expr \<Rightarrow> int \<Rightarrow> int option \<Rightarrow> int \<Rightarrow> expr result" where
  "convert_simple_slice off start stop step =
     rbind (assert_that (start \<ge> 0)) (\<lambda>_.
     rbind (assert_that (case stop of None \<Rightarrow> True | Some b \<Rightarrow> b \<ge> 0)) (\<lambda>_.
       Inr (or_true (merge_predicates (
         (if start > 0 then [OpExpression GeOp [off, int_const start]] else []) @
         (case stop of Some b \<Rightarrow> if b \<ge> 0 then [OpExpression LtOp [off, int_const b]] else [] | None \<Rightarrow> []) @
         (if step > 1 then [residue_cond (OpExpression SubOp [off, int_const start]) step] else []))))))"

definition complex_start_cond :: "expr \<Rightarrow> expr \<Rightarrow> int \<Rightarrow> int \<Rightarrow> expr" where
  "complex_start_cond fwd bwd start step =
     (if start > 0 \<and> step > 0 then OpExpression GeOp [fwd, int_const start]
      else if start \<ge> 0 \<and> step < 0 then OpExpression LeOp [fwd, int_const start]
      else if start < 0 \<and> step > 0 then OpExpression LeOp [bwd, int_const (- start - 1)]
      else OpExpression GeOp [bwd, int_const (- start - 1)])"

definition complex_stop_cond :: "expr \<Rightarrow> expr \<Rightarrow> int \<Rightarrow> int \<Rightarrow> expr" where
  "complex_stop_cond fwd bwd stop step =
     (if stop \<ge> 0 \<and> step > 0 then OpExpression LtOp [fwd, int_const stop]
      else if stop \<ge> 0 \<and> step < 0 then OpExpression GtOp [fwd, int_const stop]
      else if stop < 0 \<and> step > 0 then OpExpression GtOp [bwd, int_const (- stop - 1)]
      else OpExpression LtOp [bwd, int_const (- stop - 1)])"

definition complex_start_diff :: "expr \<Rightarrow> expr \<Rightarrow> int \<Rightarrow> int \<Rightarrow> expr" where
  "complex_start_diff fwd bwd start step =
     (if step > 1 \<and> start \<ge> 0 then OpExpression SubOp [fwd, int_const start]
      else if step > 1 \<and> start < 0 then OpExpression SubOp [bwd, int_const (- start + 1)]
      else if step < 0 \<and> start \<ge> 0 then OpExpression AddOp [fwd, int_const start]
      else OpExpression AddOp [bwd, int_const (- start + 1)])"

definition convert_complex_slice :: "expr \<Rightarrow> expr \<Rightarrow> int \<Rightarrow> int option \<Rightarrow> int \<Rightarrow> expr result" where
  "convert_complex_slice fwd bwd start stop step =
     rbind (assert_that (step \<noteq> 0)) (\<lambda>_.
       Inr (or_true (merge_predicates (
         (if start \<noteq> 0 \<or> step < 0 then [complex_start_cond fwd bwd start step] else []) @
         (case stop of None \<Rightarrow> [] | Some b \<Rightarrow> [complex_stop_cond fwd bwd b step]) @
         (if step \<noteq> 1 then [residue_cond (complex_start_diff fwd bwd start step) step] else [])))))"

definition add_offsets :: "bfnode \<Rightarrow> nat \<Rightarrow> (bfnode \<times> column_id) \<times> nat" where
  "add_offsets n counter =
     (case ColumnId_unique counter of (i, counter') \<Rightarrow> ((PromoteOffsetsNode n i, i), counter'))"

definition drop_cols :: "bfnode \<Rightarrow> column_id list \<Rightarrow> bfnode result" where
  "drop_cols n dropped = rbind (ids n)
     (\<lambda>own. Inr (SelectionNode n (map (\<lambda>i. (DerefOp i, i)) (filter (\<lambda>i. i \<notin> set dropped) own))))"

definition slice_as_filter :: "bfnode \<Rightarrow> int option \<Rightarrow> int option \<Rightarrow> int \<Rightarrow> nat \<Rightarrow> (bfnode \<times> nat) result" where
  "slice_as_filter n start stop step counter =
     (if (case start of None \<Rightarrow> True | Some a \<Rightarrow> a \<ge> 0) \<and> (case stop of None \<Rightarrow> True | Some b \<Rightarrow> b \<ge> 0) \<and> step > 0
      then (case add_offsets n counter of ((offset_node, i), counter1) \<Rightarrow>
        rbind (convert_simple_slice (Deref (DerefOp i)) (case start of None \<Rightarrow> 0 | Some a \<Rightarrow> a) stop step) (\<lambda>p.
        rbind (drop_cols (FilterNode offset_node p) [i]) (\<lambda>m. Inr (m, counter1))))
      else
        (let default_start = (if step \<ge> 0 then 0 else - 1);
             start' = (case start of Some a \<Rightarrow> a | None \<Rightarrow> default_start);
             ((dual_indexed, fwd, bwd), counter2) =
               (if step < 0 then
                  (case add_offsets n counter of ((fwd_node, fwd), counter1) \<Rightarrow>
                   case add_offsets (ReversedNode fwd_node True) counter1 of ((bwd_node, bwd), counter2) \<Rightarrow>
                     ((bwd_node, fwd, bwd), counter2))
                else
                  (case add_offsets (ReversedNode n True) counter of ((bwd_node, bwd), counter1) \<Rightarrow>
                   case add_offsets (ReversedNode bwd_node True) counter1 of ((fwd_node, fwd), counter2) \<Rightarrow>
                     ((fwd_node, fwd, bwd), counter2)))
         in rbind (convert_complex_slice (Deref (DerefOp fwd)) (Deref (DerefOp bwd)) start' stop step) (\<lambda>p.
            rbind (drop_cols (FilterNode dual_indexed p) [fwd, bwd]) (\<lambda>m. Inr (m, counter2)))))"

definition rewrite_slice_node :: "bfnode \<Rightarrow> int option \<Rightarrow> int option \<Rightarrow> int \<Rightarrow> nat \<Rightarrow> (bfnode \<times> nat) result" where
  "rewrite_slice_node c start stop step counter =
     (if is_noop (start, stop, Some step) (row_count c) then Inr (c, counter)
      else if is_reverse (start, stop, Some step) (row_count c) then Inr (ReversedNode c True, counter)
      else if truthy_int (row_count c)
      then (case to_forward_offsets (start, stop, Some step) (the (row_count c)) of
              (a, b, s) \<Rightarrow> slice_as_filter c (Some a) b s counter)
      else slice_as_filter c start stop step counter)"

fun rewrite_slice :: "nat step" where
  "rewrite_slice (SliceNode c start stop step) counter = rewrite_slice_node c start stop step counter"
| "rewrite_slice n counter = Inr (n, counter)"

text \<open>Limits: a head of the rows is pulled out of a plan, through no-op slices and row-wise nodes.\<close>

primrec pull_out_limit :: "bfnode \<Rightarrow> bfnode \<times> int option" where
  "pull_out_limit (SliceNode c start stop step) =
     (if SliceNode_is_limit start stop step
      then (case pull_out_limit c of (new_root, prior_limit) \<Rightarrow>
              (new_root, Some (case prior_limit of
                 Some p \<Rightarrow> if p < the stop then p else the stop | None \<Rightarrow> the stop)))
      else if SliceNode_is_noop c start stop step then pull_out_limit c
      else (SliceNode c start stop step, None))"
| "pull_out_limit (SelectionNode c pairs) =
     (case pull_out_limit c of (new_child, prior_limit) \<Rightarrow>
        if prior_limit \<noteq> None then (SelectionNode new_child pairs, prior_limit) else (SelectionNode c pairs, None))"
| "pull_out_limit (ProjectionNode c asg) =
     (case pull_out_limit c of (new_child, prior_limit) \<Rightarrow>
        if prior_limit \<noteq> None then (ProjectionNode new_child asg, prior_limit) else (ProjectionNode c asg, None))"
| "pull_out_limit (InNode l r x i) = (InNode l r x i, None)"
| "pull_out_limit (JoinNode l r conds ty po) = (JoinNode l r conds ty po, None)"
| "pull_out_limit (ConcatNode cs out) = (ConcatNode cs out, None)"
| "pull_out_limit (FromRangeNode s0 e0 st i) = (FromRangeNode s0 e0 st i, None)"
| "pull_out_limit (ReadLocalNode d items sess off) = (ReadLocalNode d items sess off, None)"
| "pull_out_limit (ReadTableNode src items sess) = (ReadTableNode src items sess, None)"
| "pull_out_limit (CachedTableNode src items sess orig) = (CachedTableNode src items sess orig, None)"
| "pull_out_limit (PromoteOffsetsNode c i) = (PromoteOffsetsNode c i, None)"
| "pull_out_limit (FilterNode c p) = (FilterNode c p, None)"
| "pull_out_limit (OrderByNode c ps tot) = (OrderByNode c ps tot, None)"
| "pull_out_limit (ReversedNode c rv) = (ReversedNode c rv, None)"
| "pull_out_limit (AggregateNode c aggs ks os dn) = (AggregateNode c aggs ks os dn, None)"
| "pull_out_limit (WindowOpNode c ds w) = (WindowOpNode c ds w, None)"
| "pull_out_limit (RandomSampleNode c fr) = (RandomSampleNode c fr, None)"
| "pull_out_limit (ExplodeNode c cols off) = (ExplodeNode c cols off, None)"
| "pull_out_limit (ResultNode c outs ord k) = (ResultNode c outs ord k, None)"
| "pull_out_limit (CteNode c) = (CteNode c, None)"

definition pull_up_limits :: "bfnode \<Rightarrow> (deref \<times> string) list \<Rightarrow> row_ordering option \<Rightarrow> int option \<Rightarrow> bfnode" where
  "pull_up_limits c outs ord limit =
     (case pull_out_limit c of (new_child, pulled_limit) \<Rightarrow>
        if new_child = c then ResultNode c outs ord limit
        else case pulled_limit of
          None \<Rightarrow> ResultNode new_child outs ord limit
        | Some p \<Rightarrow> ResultNode new_child outs ord (Some (if truthy_int limit then min p (the limit) else p)))"

subsection \<open>What the predicates test\<close>

text \<open>
  An engine whose integer operators are those of the integers; of the remainder only the test
  against zero matters.
\<close>

definition integer_ops :: "engine \<Rightarrow> bool" where
  "integer_ops E \<longleftrightarrow> (\<forall>a b.
     op_value E GeOp [IntS a, IntS b] = BoolS (a \<ge> b) \<and> op_value E LeOp [IntS a, IntS b] = BoolS (a \<le> b) \<and>
     op_value E GtOp [IntS a, IntS b] = BoolS (a > b) \<and> op_value E LtOp [IntS a, IntS b] = BoolS (a < b) \<and>
     op_value E EqOp [IntS a, IntS b] = BoolS (a = b) \<and>
     op_value E AddOp [IntS a, IntS b] = IntS (a + b) \<and> op_value E SubOp [IntS a, IntS b] = IntS (a - b) \<and>
     (b \<noteq> 0 \<longrightarrow> (\<exists>m. op_value E ModOp [IntS a, IntS b] = IntS m \<and> (m = 0 \<longleftrightarrow> b dvd a)))) \<and>
   (\<forall>p q. op_value E AndOp [BoolS p, BoolS q] = BoolS (p \<and> q))"

lemma integer_opsD:
  assumes "integer_ops E"
  shows "op_value E GeOp [IntS a, IntS b] = BoolS (a \<ge> b)" "op_value E LeOp [IntS a, IntS b] = BoolS (a \<le> b)"
    "op_value E GtOp [IntS a, IntS b] = BoolS (a > b)" "op_value E LtOp [IntS a, IntS b] = BoolS (a < b)"
    "op_value E EqOp [IntS a, IntS b] = BoolS (a = b)"
    "op_value E AddOp [IntS a, IntS b] = IntS (a + b)" "op_value E SubOp [IntS a, IntS b] = IntS (a - b)"
    "op_value E AndOp [BoolS p, BoolS q] = BoolS (p \<and> q)"
  using assms unfolding integer_ops_def by blast+

lemma eval_int_const [simp]: "eval E r (int_const v) = IntS v"
  by (simp add: int_const_def const_def)

lemma eval_residue:
  assumes "integer_ops E" "eval E r diff = IntS d" "step \<noteq> 0"
  shows "eval E r (residue_cond diff step) = BoolS (step dvd d)"
proof -
  obtain m where m: "op_value E ModOp [IntS d, IntS step] = IntS m" "m = 0 \<longleftrightarrow> step dvd d"
    using assms(1,3) unfolding integer_ops_def by blast
  then show ?thesis
    using assms(2) integer_opsD(5) [OF assms(1)] by (simp add: residue_cond_def)
qed

lemma eval_conjunction:
  assumes "integer_ops E" "\<And>p. p \<in> set ps \<Longrightarrow> eval E r p = BoolS (holds p)"
  shows "eval E r (or_true (merge_predicates ps)) = BoolS (list_all holds ps)"
proof -
  have fold: "eval E r (foldl (\<lambda>a b. OpExpression AndOp [a, b]) p qs) = BoolS (v \<and> list_all holds qs)"
    if "eval E r p = BoolS v" "\<And>q. q \<in> set qs \<Longrightarrow> eval E r q = BoolS (holds q)" for p v qs
    using that
  proof (induction qs arbitrary: p v)
    case (Cons q qs)
    have "eval E r (OpExpression AndOp [p, q]) = BoolS (v \<and> holds q)"
      using Cons.prems integer_opsD(8) [OF assms(1)] by simp
    from Cons.IH [OF this] Cons.prems show ?case by simp
  qed simp
  show ?thesis
    using assms(2) by (cases ps) (simp_all add: or_true_def const_def fold)
qed

lemma merge_append_cond:
  assumes "integer_ops E" "list_all (\<lambda>(p, v). eval E r p = BoolS v) pvs"
  shows "eval E r (or_true (merge_predicates (map fst pvs))) = BoolS (list_all snd pvs)"
proof -
  define holds where "holds p = (eval E r p = BoolS True)" for p
  have "eval E r p = BoolS (holds p)" if "p \<in> set (map fst pvs)" for p
    using that assms(2) by (force simp: holds_def list_all_iff)
  from eval_conjunction [OF assms(1) this]
  have "eval E r (or_true (merge_predicates (map fst pvs))) = BoolS (list_all holds (map fst pvs))" .
  also have "list_all holds (map fst pvs) = list_all snd pvs"
    using assms(2) by (induction pvs) (auto simp: holds_def)
  finally show ?thesis .
qed

text \<open>The positions the simple predicate accepts, and those the complex one accepts.\<close>

definition simple_test :: "int \<Rightarrow> int option \<Rightarrow> int \<Rightarrow> int \<Rightarrow> bool" where
  "simple_test start stop step f \<longleftrightarrow> start \<le> f \<and> (case stop of None \<Rightarrow> True | Some b \<Rightarrow> f < b) \<and> step dvd (f - start)"

definition complex_test :: "int \<Rightarrow> int option \<Rightarrow> int \<Rightarrow> int \<Rightarrow> int \<Rightarrow> bool" where
  "complex_test start stop step f g \<longleftrightarrow>
     (if start \<ge> 0 then (if step > 0 then start \<le> f else f \<le> start)
      else (if step > 0 then g \<le> - start - 1 else - start - 1 \<le> g)) \<and>
     (case stop of None \<Rightarrow> True | Some b \<Rightarrow>
        if b \<ge> 0 then (if step > 0 then f < b else b < f)
        else (if step > 0 then - b - 1 < g else g < - b - 1)) \<and>
     step dvd (if step > 0 then (if start \<ge> 0 then f - start else g - (- start + 1))
               else (if start \<ge> 0 then f + start else g + (- start + 1)))"

lemma eval_simple_slice:
  assumes "integer_ops E" "convert_simple_slice (Deref (DerefOp i)) start stop step = Inr p" "0 < step" "r i = IntS f" "0 \<le> f"
  shows "eval E r p = BoolS (simple_test start stop step f)"
proof -
  let ?off = "Deref (DerefOp i)"
  let ?pvs = "(if start > 0 then [(OpExpression GeOp [?off, int_const start], start \<le> f)] else []) @
      (case stop of Some b \<Rightarrow> if b \<ge> 0 then [(OpExpression LtOp [?off, int_const b], f < b)] else [] | None \<Rightarrow> []) @
      (if step > 1 then [(residue_cond (OpExpression SubOp [?off, int_const start]) step, step dvd (f - start))] else [])"
  have "0 \<le> start" "case stop of None \<Rightarrow> True | Some b \<Rightarrow> 0 \<le> b"
    and p: "p = or_true (merge_predicates (map fst ?pvs))"
    using assms(2) by (auto simp: convert_simple_slice_def rbind_eq_Inr_iff split: option.splits)
  moreover have "list_all (\<lambda>(p, v). eval E r p = BoolS v) ?pvs"
    using assms(1,4) by (auto simp: integer_opsD eval_residue split: option.split)
  moreover have "list_all snd ?pvs = simple_test start stop step f"
  proof -
    have "1 < step \<or> step = 1" using assms(3) by linarith
    with \<open>0 \<le> start\<close> \<open>case stop of None \<Rightarrow> True | Some b \<Rightarrow> 0 \<le> b\<close> assms(5) show ?thesis
      by (auto simp: simple_test_def split: option.splits)
  qed
  ultimately show ?thesis
    using merge_append_cond [OF assms(1), of r ?pvs] by simp
qed

lemma eval_complex_slice:
  assumes "integer_ops E" "convert_complex_slice (Deref (DerefOp i)) (Deref (DerefOp j)) start stop step = Inr p"
    and "r i = IntS f" "r j = IntS g" "0 \<le> f" "step \<noteq> 0"
  shows "eval E r p = BoolS (complex_test start stop step f g)"
proof -
  let ?fwd = "Deref (DerefOp i)" and ?bwd = "Deref (DerefOp j)"
  let ?vstart = "if start \<ge> 0 then (if step > 0 then start \<le> f else f \<le> start)
      else (if step > 0 then g \<le> - start - 1 else - start - 1 \<le> g)"
  let ?vstop = "\<lambda>b. if b \<ge> 0 then (if step > 0 then f < b else b < f)
        else (if step > 0 then - b - 1 < g else g < - b - 1)"
  let ?diff = "if step > 0 then (if start \<ge> 0 then f - start else g - (- start + 1))
               else (if start \<ge> 0 then f + start else g + (- start + 1))"
  let ?pvs = "(if start \<noteq> 0 \<or> step < 0 then [(complex_start_cond ?fwd ?bwd start step, ?vstart)] else []) @
      (case stop of None \<Rightarrow> [] | Some b \<Rightarrow> [(complex_stop_cond ?fwd ?bwd b step, ?vstop b)]) @
      (if step \<noteq> 1 then [(residue_cond (complex_start_diff ?fwd ?bwd start step) step, step dvd ?diff)] else [])"
  have p: "p = or_true (merge_predicates (map fst ?pvs))"
    using assms(2) by (auto simp: convert_complex_slice_def rbind_eq_Inr_iff split: option.splits)
  have "eval E r (complex_start_cond ?fwd ?bwd start step) = BoolS ?vstart" if "start \<noteq> 0 \<or> step < 0"
    using assms(1,3,4,6) that by (auto simp: complex_start_cond_def integer_opsD)
  moreover have "eval E r (complex_stop_cond ?fwd ?bwd b step) = BoolS (?vstop b)" for b
    using assms(1,3,4,6) by (auto simp: complex_stop_cond_def integer_opsD)
  moreover have "eval E r (complex_start_diff ?fwd ?bwd start step) = IntS ?diff" if "step \<noteq> 1"
    using assms(1,3,4,6) that by (auto simp: complex_start_diff_def integer_opsD)
  ultimately have "list_all (\<lambda>(p, v). eval E r p = BoolS v) ?pvs"
    using assms(6) eval_residue [OF assms(1)] by (auto split: option.split)
  from merge_append_cond [OF assms(1) this] show ?thesis
    unfolding p complex_test_def using assms(5) by (auto split: option.splits)
qed

subsection \<open>The positions they keep\<close>

lemma simple_positions:
  assumes "0 \<le> start" "case stop of None \<Rightarrow> True | Some b \<Rightarrow> 0 \<le> b" "0 < step"
  shows "slice_positions (Some start, stop, Some step) (int n) = filter (simple_test start stop step) (map int [0..<n])"
proof -
  let ?a = "slice_start (Some start) step (int n)" and ?b = "slice_stop stop step (int n)"
  have a: "?a = min start (int n)" using assms by (simp add: slice_start_def)
  have b: "?b \<le> int n" and lt: "p < ?b \<longleftrightarrow> (case stop of None \<Rightarrow> True | Some b \<Rightarrow> p < b)" if "p < int n" for p
    using assms that by (auto simp: slice_stop_def split: option.splits)
  have "?b \<le> int n" using assms by (auto simp: slice_stop_def split: option.splits)
  then have "slice_positions (Some start, stop, Some step) (int n) =
      filter (\<lambda>p. ?a \<le> p \<and> p < ?b \<and> (p - ?a) mod step = 0) (map int [0..<n])"
    using py_range_filter_pos [OF assms(3), of ?a ?b n] a assms(1) by (simp add: the_step_def)
  also have "\<dots> = filter (simple_test start stop step) (map int [0..<n])"
  proof (rule filter_cong [OF refl])
    fix p assume "p \<in> set (map int [0..<n])"
    then have "p < int n" by auto
    with lt [OF this] show "(?a \<le> p \<and> p < ?b \<and> (p - ?a) mod step = 0) = simple_test start stop step p"
      by (cases "start \<le> int n") (auto simp: a simple_test_def dvd_eq_mod_eq_0)
  qed
  finally show ?thesis .
qed

text \<open>
  The complex predicate tests the residue of a position against an anchor; it is right when the
  anchor and the first position of the slice differ by a multiple of the step.
\<close>

definition anchor :: "int \<Rightarrow> int \<Rightarrow> int \<Rightarrow> int" where
  "anchor start step n =
     (if step > 0 then (if start \<ge> 0 then start else n - 2 + start) else (if start \<ge> 0 then - start else n - start))"

definition residue_ok :: "int \<Rightarrow> int \<Rightarrow> int \<Rightarrow> bool" where
  "residue_ok start step n \<longleftrightarrow>
     0 < step \<and> 0 \<le> start \<or> step dvd (anchor start step n - slice_start (Some start) step n)"

lemma residue_ok_unit:
  assumes "\<bar>step\<bar> = 1"
  shows "residue_ok start step n"
proof -
  have "\<bar>step\<bar> dvd d" for d :: int using assms by simp
  then show ?thesis unfolding abs_dvd_iff by (simp add: residue_ok_def)
qed

lemma complex_test_residue:
  "complex_test start stop step p (n - 1 - p) \<longleftrightarrow>
     (if start \<ge> 0 then (if step > 0 then start \<le> p else p \<le> start)
      else (if step > 0 then n + start \<le> p else p \<le> n + start)) \<and>
     (case stop of None \<Rightarrow> True | Some b \<Rightarrow>
        if b \<ge> 0 then (if step > 0 then p < b else b < p)
        else (if step > 0 then p < n + b else n + b < p)) \<and>
     step dvd (p - anchor start step n)"
proof -
  have "step dvd (n - 1 - p - (- start + 1)) \<longleftrightarrow> step dvd (p - (n - 2 + start))"
    using dvd_minus_iff [of step "p - (n - 2 + start)"] by (simp add: algebra_simps)
  moreover have "step dvd (n - 1 - p + (- start + 1)) \<longleftrightarrow> step dvd (p - (n - start))"
    using dvd_minus_iff [of step "p - (n - start)"] by (simp add: algebra_simps)
  ultimately show ?thesis
    by (auto simp: complex_test_def anchor_def split: option.split)
qed

lemma complex_positions_pos:
  assumes "0 < step" "residue_ok start step (int n)"
  shows "slice_positions (Some start, stop, Some step) (int n) =
    filter (\<lambda>p. complex_test start stop step p (int n - 1 - p)) (map int [0..<n])"
proof -
  let ?a = "slice_start (Some start) step (int n)" and ?b = "slice_stop stop step (int n)"
  have a: "?a = (if start < 0 then max (start + int n) 0 else min start (int n))"
    using assms(1) by (simp add: slice_start_def)
  have b: "?b = (case stop of None \<Rightarrow> int n | Some b \<Rightarrow> if b < 0 then max (b + int n) 0 else min b (int n))"
    using assms(1) by (simp add: slice_stop_def Let_def split: option.split)
  have "0 \<le> ?a" "?b \<le> int n" unfolding a b by (auto split: option.split)
  then have "slice_positions (Some start, stop, Some step) (int n) =
      filter (\<lambda>p. ?a \<le> p \<and> p < ?b \<and> (p - ?a) mod step = 0) (map int [0..<n])"
    using py_range_filter_pos [OF assms(1), of ?a ?b n] by (simp add: the_step_def)
  also have "\<dots> = filter (\<lambda>p. complex_test start stop step p (int n - 1 - p)) (map int [0..<n])"
  proof (rule filter_cong [OF refl])
    fix p assume "p \<in> set (map int [0..<n])"
    then have p: "0 \<le> p" "p < int n" by auto
    have start: "?a \<le> p \<longleftrightarrow> (if start \<ge> 0 then start \<le> p else int n + start \<le> p)"
      using p unfolding a by auto
    have stop: "p < ?b \<longleftrightarrow> (case stop of None \<Rightarrow> True | Some b \<Rightarrow> if b \<ge> 0 then p < b else p < int n + b)"
      using p unfolding b by (auto split: option.split)
    have residue: "(p - ?a) mod step = 0 \<longleftrightarrow> step dvd (p - anchor start step (int n))" if "?a \<le> p"
    proof (cases "0 \<le> start")
      case True
      then have "?a = anchor start step (int n)" using that p assms(1) by (auto simp: a anchor_def split: if_splits)
      then show ?thesis by (simp add: dvd_eq_mod_eq_0)
    next
      case False
      then have "step dvd (anchor start step (int n) - ?a)" using assms(2) by (simp add: residue_ok_def)
      then have "step dvd (p - anchor start step (int n)) \<longleftrightarrow> step dvd (p - ?a)"
        using dvd_add_left_iff [of step "anchor start step (int n) - ?a" "p - anchor start step (int n)"] by simp
      then show ?thesis by (simp add: dvd_eq_mod_eq_0)
    qed
    show "(?a \<le> p \<and> p < ?b \<and> (p - ?a) mod step = 0) = complex_test start stop step p (int n - 1 - p)"
      unfolding complex_test_residue using start stop residue assms(1) by (auto split: option.splits)
  qed
  finally show ?thesis .
qed

lemma complex_positions_neg:
  assumes "step < 0" "residue_ok start step (int n)"
  shows "slice_positions (Some start, stop, Some step) (int n) =
    rev (filter (\<lambda>p. complex_test start stop step p (int n - 1 - p)) (map int [0..<n]))"
proof -
  let ?a = "slice_start (Some start) step (int n)" and ?b = "slice_stop stop step (int n)"
  have a: "?a = (if start < 0 then max (start + int n) (- 1) else min start (int n - 1))"
    using assms(1) by (simp add: slice_start_def)
  have b: "?b = (case stop of None \<Rightarrow> - 1 | Some b \<Rightarrow> if b < 0 then max (b + int n) (- 1) else min b (int n - 1))"
    using assms(1) by (simp add: slice_stop_def Let_def split: option.split)
  have "?a < int n" "- 1 \<le> ?b" unfolding a b by (auto split: option.split)
  then have "slice_positions (Some start, stop, Some step) (int n) =
      rev (filter (\<lambda>p. ?b < p \<and> p \<le> ?a \<and> (?a - p) mod (- step) = 0) (map int [0..<n]))"
    using py_range_filter_neg [OF assms(1), of ?b ?a n] by (simp add: the_step_def)
  also have "filter (\<lambda>p. ?b < p \<and> p \<le> ?a \<and> (?a - p) mod (- step) = 0) (map int [0..<n]) =
      filter (\<lambda>p. complex_test start stop step p (int n - 1 - p)) (map int [0..<n])"
  proof (rule filter_cong [OF refl])
    fix p assume "p \<in> set (map int [0..<n])"
    then have p: "0 \<le> p" "p < int n" by auto
    have start: "p \<le> ?a \<longleftrightarrow> (if start \<ge> 0 then p \<le> start else p \<le> int n + start)"
      using p unfolding a by auto
    have stop: "?b < p \<longleftrightarrow> (case stop of None \<Rightarrow> True | Some b \<Rightarrow> if b \<ge> 0 then b < p else int n + b < p)"
      using p unfolding b by (auto split: option.split)
    have "step dvd (anchor start step (int n) - ?a)" using assms by (auto simp: residue_ok_def)
    then have "step dvd (p - anchor start step (int n)) \<longleftrightarrow> step dvd (p - ?a)"
      using dvd_add_left_iff [of step "anchor start step (int n) - ?a" "p - anchor start step (int n)"] by simp
    also have "\<dots> \<longleftrightarrow> (?a - p) mod (- step) = 0"
      using dvd_minus_iff [of step "p - ?a"] by (simp add: flip: dvd_eq_mod_eq_0)
    finally show "(?b < p \<and> p \<le> ?a \<and> (?a - p) mod (- step) = 0) = complex_test start stop step p (int n - 1 - p)"
      unfolding complex_test_residue using start stop assms(1) by (auto split: option.splits)
  qed
  finally show ?thesis .
qed

subsection \<open>The rows they keep\<close>

lemma promote_offsets_map: "promote_offsets i rs = map (\<lambda>k. (rs ! k)(i := IntS (int k))) [0..<length rs]"
  by (rule nth_equalityI) (simp_all add: promote_offsets_def with_column_def offsets_def)

lemma rev_map_upt: "rev (map f [0..<n]) = map (\<lambda>k. f (n - 1 - k)) [0..<n]"
  by (rule nth_equalityI) (simp_all add: rev_nth)

lemma filter_rows_map:
  assumes "\<And>k. k < n \<Longrightarrow> eval E (f k) p = BoolS (T (int k))"
  shows "filter_rows E p (map f [0..<n]) = map (\<lambda>j. f (nat j)) (filter T (map int [0..<n]))"
proof -
  have "filter (\<lambda>k. eval E (f k) p = BoolS True) [0..<n] = filter (\<lambda>k. T (int k)) [0..<n]"
    by (rule filter_cong) (simp_all add: assms)
  then show ?thesis by (simp add: filter_rows_def filter_map comp_def)
qed

lemma rows_agree_maps: "(\<And>x. x \<in> set xs \<Longrightarrow> agree S (f x) (g x)) \<Longrightarrow> rows_agree S (map f xs) (map g xs)"
  by (rule rows_agreeI) simp_all

lemma filtered_forward:
  assumes "slice_positions sl (int (length rs)) = filter T (map int [0..<length rs])"
    and "\<And>k. k < length rs \<Longrightarrow> eval E (f k) p = BoolS (T (int k)) \<and> agree S (f k) (rs ! k)"
  shows "rows_agree S (filter_rows E p (map f [0..<length rs])) (py_slice sl rs)"
proof -
  have "filter_rows E p (map f [0..<length rs]) = map (\<lambda>j. f (nat j)) (filter T (map int [0..<length rs]))"
    by (rule filter_rows_map) (simp add: assms(2))
  moreover have "rows_agree S (map (\<lambda>j. f (nat j)) (filter T (map int [0..<length rs])))
      (map (\<lambda>j. rs ! nat j) (filter T (map int [0..<length rs])))"
    by (rule rows_agree_maps) (use assms(2) in auto)
  ultimately show ?thesis unfolding py_slice_def assms(1) by simp
qed

lemma filtered_backward:
  assumes "slice_positions sl (int (length rs)) = rev (filter T (map int [0..<length rs]))"
    and "\<And>k. k < length rs \<Longrightarrow> eval E (f k) p = BoolS (T (int k)) \<and> agree S (f k) (rs ! k)"
  shows "rows_agree S (filter_rows E p (rev (map f [0..<length rs]))) (py_slice sl rs)"
proof -
  have "filter_rows E p (rev (map f [0..<length rs])) = rev (filter_rows E p (map f [0..<length rs]))"
    by (simp add: filter_rows_def rev_filter)
  also have "\<dots> = rev (map (\<lambda>j. f (nat j)) (filter T (map int [0..<length rs])))"
    by (subst filter_rows_map [where T = T]) (simp_all add: assms(2))
  finally have rows: "filter_rows E p (rev (map f [0..<length rs])) =
      map (\<lambda>j. f (nat j)) (rev (filter T (map int [0..<length rs])))"
    by (simp only: rev_map)
  have "rows_agree S (map (\<lambda>j. f (nat j)) (rev (filter T (map int [0..<length rs]))))
      (map (\<lambda>j. rs ! nat j) (rev (filter T (map int [0..<length rs]))))"
    by (rule rows_agree_maps) (use assms(2) in auto)
  then show ?thesis unfolding rows py_slice_def assms(1) .
qed

text \<open>The rows under the offsets that a slice generates, in either direction.\<close>

lemma promote_map: "promote_offsets j (map h [0..<n]) = map (\<lambda>k. (h k)(j := IntS (int k))) [0..<n]"
  by (rule nth_equalityI) (simp_all add: promote_offsets_map)

lemma dual_indexed_rows:
  "promote_offsets j (rev (promote_offsets i rs)) =
      rev (map (\<lambda>k. (rs ! k)(i := IntS (int k), j := IntS (int (length rs) - 1 - int k))) [0..<length rs])"
  "promote_offsets i (rev (promote_offsets j (rev rs))) =
      map (\<lambda>k. (rs ! k)(j := IntS (int (length rs) - 1 - int k), i := IntS (int k))) [0..<length rs]"
proof -
  show "promote_offsets j (rev (promote_offsets i rs)) =
      rev (map (\<lambda>k. (rs ! k)(i := IntS (int k), j := IntS (int (length rs) - 1 - int k))) [0..<length rs])"
    unfolding promote_offsets_map [of i] rev_map_upt promote_map
    by (rule map_cong [OF refl]) (auto simp: of_nat_diff)
  have rs: "rev rs = map (\<lambda>k. rs ! (length rs - 1 - k)) [0..<length rs]"
    using rev_map_upt [of "(!) rs" "length rs"] by (simp add: map_nth)
  show "promote_offsets i (rev (promote_offsets j (rev rs))) =
      map (\<lambda>k. (rs ! k)(j := IntS (int (length rs) - 1 - int k), i := IntS (int k))) [0..<length rs]"
    unfolding rs promote_map rev_map_upt
    by (rule map_cong [OF refl]) (auto simp: of_nat_diff)
qed

lemma slice_start_default:
  "0 \<le> n \<Longrightarrow> step \<noteq> 0 \<Longrightarrow> slice_positions (start, stop, Some step) n =
     slice_positions (Some (case start of Some a \<Rightarrow> a | None \<Rightarrow> if step \<ge> 0 then 0 else - 1), stop, Some step) n"
  by (auto simp: slice_start_def the_step_def split: option.split)

lemma same_positions_same_slice:
  "slice_positions sl (int (length rs)) = slice_positions sl' (int (length rs)) \<Longrightarrow> py_slice sl rs = py_slice sl' rs"
  by (simp add: py_slice_def)

subsection \<open>A slice as a filter\<close>

lemma int_const_refs [simp]: "column_references (int_const v) = []"
  by (simp add: int_const_def const_def)

lemma merged_refs: "set (column_references (or_true (merge_predicates ps))) = (\<Union>p \<in> set ps. set (column_references p))"
proof -
  have "set (column_references (foldl (\<lambda>a b. OpExpression AndOp [a, b]) p qs)) =
      set (column_references p) \<union> (\<Union>q \<in> set qs. set (column_references q))" for p qs
    by (induction qs arbitrary: p) auto
  then show ?thesis by (cases ps) (simp_all add: or_true_def const_def)
qed

lemma merged_refs_subset:
  "list_all (\<lambda>p. set (column_references p) \<subseteq> S) ps \<Longrightarrow> set (column_references (or_true (merge_predicates ps))) \<subseteq> S"
  by (auto simp: merged_refs list_all_iff)

lemma simple_slice_refs:
  assumes "convert_simple_slice off start stop step = Inr p"
  shows "set (column_references p) \<subseteq> set (column_references off)"
proof -
  from assms obtain ps where p: "p = or_true (merge_predicates ps)" and "ps =
      (if start > 0 then [OpExpression GeOp [off, int_const start]] else []) @
      (case stop of Some b \<Rightarrow> if b \<ge> 0 then [OpExpression LtOp [off, int_const b]] else [] | None \<Rightarrow> []) @
      (if step > 1 then [residue_cond (OpExpression SubOp [off, int_const start]) step] else [])"
    unfolding convert_simple_slice_def rbind_eq_Inr_iff sum.inject by blast
  then have "list_all (\<lambda>p. set (column_references p) \<subseteq> set (column_references off)) ps"
    by (simp add: residue_cond_def split: option.split)
  then show ?thesis unfolding p by (rule merged_refs_subset)
qed

lemma complex_slice_refs:
  assumes "convert_complex_slice fwd bwd start stop step = Inr p"
  shows "set (column_references p) \<subseteq> set (column_references fwd) \<union> set (column_references bwd)"
proof -
  from assms obtain ps where p: "p = or_true (merge_predicates ps)" and "ps =
      (if start \<noteq> 0 \<or> step < 0 then [complex_start_cond fwd bwd start step] else []) @
      (case stop of None \<Rightarrow> [] | Some b \<Rightarrow> [complex_stop_cond fwd bwd b step]) @
      (if step \<noteq> 1 then [residue_cond (complex_start_diff fwd bwd start step) step] else [])"
    unfolding convert_complex_slice_def rbind_eq_Inr_iff sum.inject by blast
  then have "list_all (\<lambda>p. set (column_references p) \<subseteq> set (column_references fwd) \<union> set (column_references bwd)) ps"
    by (auto simp: residue_cond_def complex_start_cond_def complex_stop_cond_def complex_start_diff_def split: option.split)
  then show ?thesis unfolding p by (rule merged_refs_subset)
qed

lemma drop_cols_Inr:
  "drop_cols n dropped = Inr m \<Longrightarrow>
     m = SelectionNode n (map AliasedRef_identity (filter (\<lambda>i. i \<notin> set dropped) (out_ids n)))"
  by (auto simp: drop_cols_def rbind_eq_Inr_iff AliasedRef_identity_def [abs_def] dest: ids_out_ids)

lemma dropped_filter_sound:
  assumes "drop_cols (FilterNode n p) dropped = Inr m" "scoped n" "filter (\<lambda>i. i \<notin> set dropped) (out_ids n) = out_ids c"
    and "set (column_references p) \<subseteq> set (out_ids n)" "distinct (out_ids c)"
    and "rows_agree (set (out_ids c)) (filter_rows E p (rows E n)) (py_slice (start, stop, Some step) (rows E c))"
    and "ids_older s' n"
  shows "scoped m \<and> same_output E m (SliceNode c start stop step) \<and> ids_older s' m"
proof -
  have m: "m = SelectionNode (FilterNode n p) (map AliasedRef_identity (out_ids c))"
    using drop_cols_Inr [OF assms(1)] assms(3) by simp
  have sub: "set (out_ids c) \<subseteq> set (out_ids n)" using assms(3) by (metis filter_is_subset)
  have out: "map snd (map AliasedRef_identity (out_ids c)) = out_ids c"
    by (simp add: AliasedRef_identity_def comp_def)
  then have "scoped m"
    using assms(2,4,5) sub by (auto simp: m list_all_iff AliasedRef_identity_def simp del: map_map)
  moreover have "rows_agree (set (out_ids c)) (rows E m) (rows E (SliceNode c start stop step))"
    using rows_agree_trans [OF select_identity_rows assms(6)] by (simp add: m)
  then have "same_output E m (SliceNode c start stop step)"
    using out by (simp add: m same_output_iff del: map_map)
  moreover have "list_all (older s') (out_ids n)" using assms(7) by (simp add: ids_older_iff [of s' n])
  then have "ids_older s' m"
    using assms(7) out sub by (auto simp: m ids_older_def list_all_iff simp del: map_map)
  ultimately show ?thesis by blast
qed

text \<open>When the offsets of a slice are right: always on the simple path, else with a right residue.\<close>

definition slice_exact :: "int option \<Rightarrow> int option \<Rightarrow> int \<Rightarrow> int \<Rightarrow> bool" where
  "slice_exact start stop step n \<longleftrightarrow> step \<noteq> 0 \<and>
     ((case start of None \<Rightarrow> True | Some a \<Rightarrow> a \<ge> 0) \<and> (case stop of None \<Rightarrow> True | Some b \<Rightarrow> b \<ge> 0) \<and> step > 0 \<or>
      residue_ok (case start of Some a \<Rightarrow> a | None \<Rightarrow> if step \<ge> 0 then 0 else - 1) step n)"

lemma simple_slice_sound:
  assumes "integer_ops E" "scoped c" "ids_older s c"
    and "convert_simple_slice (Deref (DerefOp (guid_id (Suc s)))) start stop step = Inr p" "0 < step"
    and "drop_cols (FilterNode (PromoteOffsetsNode c (guid_id (Suc s))) p) [guid_id (Suc s)] = Inr m"
  shows "scoped m \<and> same_output E m (SliceNode c (Some start) stop step) \<and> ids_older (Suc s) m"
proof (rule dropped_filter_sound [OF assms(6)])
  let ?i = "guid_id (Suc s)"
  have fresh: "?i \<notin> set (out_ids c)" using ids_older_fresh [OF assms(3)] by simp
  then show "scoped (PromoteOffsetsNode c ?i)" using assms(2) by simp
  have "filter (\<lambda>j. j \<noteq> ?i) (out_ids c) = out_ids c" using fresh by (auto simp: filter_id_conv)
  then show "filter (\<lambda>i. i \<notin> set [?i]) (out_ids (PromoteOffsetsNode c ?i)) = out_ids c" by simp
  show "set (column_references p) \<subseteq> set (out_ids (PromoteOffsetsNode c ?i))"
    using simple_slice_refs [OF assms(4)] by auto
  show "distinct (out_ids c)" using scoped_distinct [OF assms(2)] .
  have start: "0 \<le> start" "case stop of None \<Rightarrow> True | Some b \<Rightarrow> 0 \<le> b"
    using assms(4) by (auto simp: convert_simple_slice_def rbind_eq_Inr_iff)
  show "rows_agree (set (out_ids c)) (filter_rows E p (rows E (PromoteOffsetsNode c ?i)))
      (py_slice (Some start, stop, Some step) (rows E c))"
    unfolding rows.simps promote_offsets_map
  proof (rule filtered_forward [OF simple_positions [OF start assms(5)]])
    fix k assume "k < length (rows E c)"
    then show "eval E ((rows E c ! k)(?i := IntS (int k))) p = BoolS (simple_test start stop step (int k)) \<and>
        agree (set (out_ids c)) ((rows E c ! k)(?i := IntS (int k))) (rows E c ! k)"
      using eval_simple_slice [OF assms(1,4,5)] fresh by (auto simp: agree_def)
  qed
  show "ids_older (Suc s) (PromoteOffsetsNode c ?i)"
    using ids_older_mono [OF assms(3), of "Suc s"] ids_older_iff [of "Suc s" c]
    by (simp add: ids_older_iff [of "Suc s" "PromoteOffsetsNode c ?i"])
qed

lemma complex_slice_sound:
  assumes "integer_ops E" "scoped c" "ids_older s c" "step \<noteq> 0" "residue_ok start step (int (length (rows E c)))"
    and "fwd = (if step < 0 then guid_id (Suc s) else guid_id (Suc (Suc s)))"
    and "bwd = (if step < 0 then guid_id (Suc (Suc s)) else guid_id (Suc s))"
    and "convert_complex_slice (Deref (DerefOp fwd)) (Deref (DerefOp bwd)) start stop step = Inr p"
    and "n = (if step < 0 then PromoteOffsetsNode (ReversedNode (PromoteOffsetsNode c fwd) True) bwd
              else PromoteOffsetsNode (ReversedNode (PromoteOffsetsNode (ReversedNode c True) bwd) True) fwd)"
    and "drop_cols (FilterNode n p) [fwd, bwd] = Inr m"
  shows "scoped m \<and> same_output E m (SliceNode c (Some start) stop step) \<and> ids_older (Suc (Suc s)) m"
proof (rule dropped_filter_sound [OF assms(10)])
  let ?rs = "rows E c" and ?T = "\<lambda>p. complex_test start stop step p (int (length (rows E c)) - 1 - p)"
  have fresh: "fwd \<notin> set (out_ids c)" "bwd \<notin> set (out_ids c)" "fwd \<noteq> bwd"
    using ids_older_fresh [OF assms(3)] by (auto simp: assms(6,7))
  then show "scoped n" using assms(2) by (simp add: assms(9))
  have out: "set (out_ids n) = insert fwd (insert bwd (set (out_ids c)))" by (auto simp: assms(9))
  have "filter (\<lambda>j. j \<noteq> fwd \<and> j \<noteq> bwd) (out_ids c) = out_ids c" using fresh by (auto simp: filter_id_conv)
  then show "filter (\<lambda>i. i \<notin> set [fwd, bwd]) (out_ids n) = out_ids c" by (simp add: assms(9))
  show "set (column_references p) \<subseteq> set (out_ids n)"
    using complex_slice_refs [OF assms(8)] by (auto simp: out)
  show "distinct (out_ids c)" using scoped_distinct [OF assms(2)] .
  have test: "eval E r p = BoolS (?T (int k)) \<and> agree (set (out_ids c)) r (?rs ! k)"
    if "r fwd = IntS (int k)" "r bwd = IntS (int (length ?rs) - 1 - int k)" "agree (set (out_ids c)) r (?rs ! k)" for r k
    using eval_complex_slice [OF assms(1,8) that(1,2) _ assms(4)] that(3) by simp
  show "rows_agree (set (out_ids c)) (filter_rows E p (rows E n)) (py_slice (Some start, stop, Some step) ?rs)"
  proof (cases "step < 0")
    case True
    have rows: "rows E n = rev (map (\<lambda>k. (?rs ! k)(fwd := IntS (int k), bwd := IntS (int (length ?rs) - 1 - int k))) [0..<length ?rs])"
      using True dual_indexed_rows(1) by (simp add: assms(9))
    show ?thesis
      unfolding rows
    proof (rule filtered_backward [OF complex_positions_neg [OF True assms(5)]])
      fix k assume "k < length ?rs"
      show "eval E ((?rs ! k)(fwd := IntS (int k), bwd := IntS (int (length ?rs) - 1 - int k))) p = BoolS (?T (int k)) \<and>
          agree (set (out_ids c)) ((?rs ! k)(fwd := IntS (int k), bwd := IntS (int (length ?rs) - 1 - int k))) (?rs ! k)"
        using fresh by (intro test) (auto simp: agree_def)
    qed
  next
    case False
    then have pos: "0 < step" using assms(4) by simp
    have rows: "rows E n = map (\<lambda>k. (?rs ! k)(bwd := IntS (int (length ?rs) - 1 - int k), fwd := IntS (int k))) [0..<length ?rs]"
      using False dual_indexed_rows(2) by (simp add: assms(9))
    show ?thesis
      unfolding rows
    proof (rule filtered_forward [OF complex_positions_pos [OF pos assms(5)]])
      fix k assume "k < length ?rs"
      show "eval E ((?rs ! k)(bwd := IntS (int (length ?rs) - 1 - int k), fwd := IntS (int k))) p = BoolS (?T (int k)) \<and>
          agree (set (out_ids c)) ((?rs ! k)(bwd := IntS (int (length ?rs) - 1 - int k), fwd := IntS (int k))) (?rs ! k)"
        using fresh by (intro test) (auto simp: agree_def)
    qed
  qed
  have "list_all (older (Suc (Suc s))) (out_ids c)" "ids_older (Suc (Suc s)) c"
    using ids_older_mono [OF assms(3), of "Suc (Suc s)"] ids_older_iff [of "Suc (Suc s)" c] by simp_all
  then show "ids_older (Suc (Suc s)) n"
    by (simp add: assms(6,7,9) ids_older_iff [of _ "PromoteOffsetsNode _ _"] ids_older_iff [of _ "ReversedNode _ _"])
qed

subsection \<open>The rewrite of a slice\<close>

lemma same_rows_same_output:
  "same_output E m (SliceNode c a' b' s') \<Longrightarrow> py_slice (a', b', Some s') (rows E c) = py_slice (a, b, Some s) (rows E c) \<Longrightarrow>
     same_output E m (SliceNode c a b s)"
  by (simp add: same_output_iff)

lemma slice_as_filter_sound:
  assumes "integer_ops E" "scoped c" "ids_older s c" "slice_exact start stop step (int (length (rows E c)))"
    and "slice_as_filter c start stop step s = Inr (m, s')"
  shows "scoped m \<and> same_output E m (SliceNode c start stop step) \<and> ids_older s' m \<and> s \<le> s'"
proof -
  define start' where "start' = (case start of Some a \<Rightarrow> a | None \<Rightarrow> if step \<ge> 0 then 0 else - 1)"
  have step: "step \<noteq> 0" using assms(4) by (simp add: slice_exact_def)
  then have slice: "py_slice (Some start', stop, Some step) (rows E c) = py_slice (start, stop, Some step) (rows E c)"
    using slice_start_default [of "int (length (rows E c))" step start stop]
    by (intro same_positions_same_slice) (simp add: start'_def)
  show ?thesis
  proof (cases "(case start of None \<Rightarrow> True | Some a \<Rightarrow> a \<ge> 0) \<and> (case stop of None \<Rightarrow> True | Some b \<Rightarrow> b \<ge> 0) \<and> step > 0")
    case True
    then have "start' = (case start of None \<Rightarrow> 0 | Some a \<Rightarrow> a)" by (auto simp: start'_def split: option.split)
    with True assms(5) obtain p where
      "convert_simple_slice (Deref (DerefOp (guid_id (Suc s)))) start' stop step = Inr p"
      "drop_cols (FilterNode (PromoteOffsetsNode c (guid_id (Suc s))) p) [guid_id (Suc s)] = Inr m" "s' = Suc s"
      by (auto simp: slice_as_filter_def add_offsets_def ColumnId_unique_eq rbind_eq_Inr_iff)
    with simple_slice_sound [OF assms(1-3)] True have
      "scoped m \<and> same_output E m (SliceNode c (Some start') stop step) \<and> ids_older s' m" "s \<le> s'"
      by auto
    then show ?thesis using same_rows_same_output [OF _ slice] by blast
  next
    case False
    let ?fwd = "if step < 0 then guid_id (Suc s) else guid_id (Suc (Suc s))"
    let ?bwd = "if step < 0 then guid_id (Suc (Suc s)) else guid_id (Suc s)"
    let ?n = "if step < 0 then PromoteOffsetsNode (ReversedNode (PromoteOffsetsNode c ?fwd) True) ?bwd
              else PromoteOffsetsNode (ReversedNode (PromoteOffsetsNode (ReversedNode c True) ?bwd) True) ?fwd"
    have exact: "residue_ok start' step (int (length (rows E c)))"
      using assms(4) False by (auto simp: slice_exact_def start'_def)
    from False assms(5) obtain p where
      "convert_complex_slice (Deref (DerefOp ?fwd)) (Deref (DerefOp ?bwd)) start' stop step = Inr p"
      "drop_cols (FilterNode ?n p) [?fwd, ?bwd] = Inr m" "s' = Suc (Suc s)"
      by (auto simp: slice_as_filter_def add_offsets_def ColumnId_unique_eq rbind_eq_Inr_iff start'_def Let_def split: if_splits)
    with complex_slice_sound [OF assms(1-3) step exact refl refl _ refl] have
      "scoped m \<and> same_output E m (SliceNode c (Some start') stop step) \<and> ids_older s' m" "s \<le> s'"
      by auto
    then show ?thesis using same_rows_same_output [OF _ slice] by blast
  qed
qed

text \<open>
  A plan whose slices the rewrite gets right: the offsets are exact for the rows that reach each
  slice, as written and once they are made non-negative.
\<close>

fun slice_fits :: "engine \<Rightarrow> bfnode \<Rightarrow> bool" where
  "slice_fits E (SliceNode c start stop step) =
     (let n = int (length (rows E c)) in
      slice_exact start stop step n \<and>
      (0 < n \<longrightarrow> (case to_forward_offsets (start, stop, Some step) n of (a, b, s) \<Rightarrow> slice_exact (Some a) b s n)))"
| "slice_fits E _ = True"

definition slices_fit :: "engine \<Rightarrow> bfnode \<Rightarrow> bool" where
  "slices_fit E n \<longleftrightarrow> everywhere (\<lambda>m. counted E m \<and> slice_fits E m) n"

lemma slices_fit_iff:
  "slices_fit E n \<longleftrightarrow> counted E n \<and> slice_fits E n \<and> list_all (slices_fit E) (child_nodes n)"
  unfolding slices_fit_def [abs_def] by (subst everywhere_iff) simp

lemma slices_fit_counted: "slices_fit E n \<Longrightarrow> everywhere (counted E) n"
  by (auto simp: slices_fit_def everywhere_def list_all_iff)

lemma drop_cols_node: "drop_cols n dropped = Inr m \<Longrightarrow> \<exists>pairs. m = SelectionNode n pairs"
  by (auto simp: drop_cols_def rbind_eq_Inr_iff)

lemma slice_as_filter_fits:
  assumes "slices_fit E c" "slice_as_filter c start stop step s = Inr (m, s')"
  shows "slices_fit E m"
  using assms by (auto simp: slice_as_filter_def add_offsets_def rbind_eq_Inr_iff Let_def slices_fit_iff [of E "FilterNode _ _"]
      slices_fit_iff [of E "SelectionNode _ _"] slices_fit_iff [of E "PromoteOffsetsNode _ _"]
      slices_fit_iff [of E "ReversedNode _ _"] split: if_splits prod.splits dest!: drop_cols_node)

text \<open>The filter has the fields of the child, and it is always built.\<close>

lemma drop_cols_fields:
  assumes "typed n" "node_fields n = Inr gs" "distinct (map field_id gs)"
  shows "\<exists>m. drop_cols n dropped = Inr m \<and> typed m \<and> node_fields m = Inr (filter (\<lambda>f. field_id f \<notin> set dropped) gs)"
proof -
  define kept where "kept = filter (\<lambda>f. field_id f \<notin> set dropped) gs"
  define m where "m = SelectionNode n (map AliasedRef_identity (map field_id kept))"
  have "drop_cols n dropped = Inr m"
    using assms(2) by (simp add: drop_cols_def ids_def m_def kept_def filter_map comp_def AliasedRef_identity_def)
  moreover have "node_fields m = Inr kept"
    unfolding m_def by (rule select_identity_fields [OF assms(2,3)]) (auto simp: kept_def)
  then have "node_fields m = Inr kept" "typed m"
    using assms(1) by (simp_all add: typed_iff [of m]) (simp add: m_def)
  ultimately show ?thesis by (simp add: kept_def)
qed

lemma slice_as_filter_returns:
  assumes "typed c" "scoped c" "ids_older s c" "step \<noteq> 0"
  shows "\<exists>m s'. slice_as_filter c start stop step s = Inr (m, s') \<and> typed m \<and> node_fields m = node_fields c"
proof -
  let ?i = "guid_id (Suc s)" and ?j = "guid_id (Suc (Suc s))"
  have typed_simps: "typed (FilterNode n p) \<longleftrightarrow> typed n" "typed (ReversedNode n r) \<longleftrightarrow> typed n"
    "typed (PromoteOffsetsNode n i) \<longleftrightarrow> typed n" for n p r i
    by (auto simp: typed_iff [of "FilterNode n p"] typed_iff [of "ReversedNode n r"] typed_iff [of n]
        typed_iff [of "PromoteOffsetsNode n i"])
  obtain fs where fs: "node_fields c = Inr fs" using assms(1) typed_iff by blast
  have ids: "map field_id fs = out_ids c" using fields_out_ids [OF fs] by simp
  have fresh: "?i \<notin> set (out_ids c)" "?j \<notin> set (out_ids c)" using ids_older_fresh [OF assms(3)] by simp_all
  have "distinct (map field_id fs)" using scoped_distinct [OF assms(2)] ids by simp
  moreover have out: "field_id f \<in> set (out_ids c)" if "f \<in> set fs" for f using that ids by (metis image_eqI list.set_map)
  ultimately have offsets: "\<exists>m. drop_cols (FilterNode n p) dropped = Inr m \<and> typed m \<and> node_fields m = Inr fs"
    if "node_fields n = Inr (fs @ extra)" "typed n" "distinct (map field_id extra)" "set dropped = field_id ` set extra"
      "set dropped \<inter> set (out_ids c) = {}" for n p dropped extra
    using drop_cols_fields [of "FilterNode n p" "fs @ extra" dropped] that
    by (force simp: typed_simps filter_empty_conv filter_id_conv)
  show ?thesis
  proof (cases "(case start of None \<Rightarrow> True | Some a \<Rightarrow> a \<ge> 0) \<and> (case stop of None \<Rightarrow> True | Some b \<Rightarrow> b \<ge> 0) \<and> step > 0")
    case True
    then obtain p where "convert_simple_slice (Deref (DerefOp ?i)) (case start of None \<Rightarrow> 0 | Some a \<Rightarrow> a) stop step = Inr p"
      by (auto simp: convert_simple_slice_def assert_that_def split: option.splits)
    moreover have "\<exists>m. drop_cols (FilterNode (PromoteOffsetsNode c ?i) p) [?i] = Inr m \<and> typed m \<and> node_fields m = Inr fs"
      by (rule offsets [where extra = "PromoteOffsetsNode_added_fields ?i"])
        (use fs fresh assms(1) in \<open>simp_all add: typed_simps PromoteOffsetsNode_added_fields_def\<close>)
    ultimately show ?thesis
      using True fs by (auto simp: slice_as_filter_def add_offsets_def ColumnId_unique_eq)
  next
    case False
    let ?fwd = "if step < 0 then ?i else ?j" and ?bwd = "if step < 0 then ?j else ?i"
    let ?n = "if step < 0 then PromoteOffsetsNode (ReversedNode (PromoteOffsetsNode c ?fwd) True) ?bwd
              else PromoteOffsetsNode (ReversedNode (PromoteOffsetsNode (ReversedNode c True) ?bwd) True) ?fwd"
    define start' where "start' = (case start of Some a \<Rightarrow> a | None \<Rightarrow> if step \<ge> 0 then 0 else - 1)"
    obtain p where p: "convert_complex_slice (Deref (DerefOp ?fwd)) (Deref (DerefOp ?bwd)) start' stop step = Inr p"
      using assms(4) by (auto simp: convert_complex_slice_def assert_that_def)
    have "\<exists>m. drop_cols (FilterNode ?n p) [?fwd, ?bwd] = Inr m \<and> typed m \<and> node_fields m = Inr fs"
      by (rule offsets [where extra = "PromoteOffsetsNode_added_fields ?i @ PromoteOffsetsNode_added_fields ?j"])
        (use fs fresh assms(1) in \<open>auto simp: typed_simps PromoteOffsetsNode_added_fields_def\<close>)
    with p [unfolded start'_def] False fs assms(4) show ?thesis
      by (cases start; cases "step < 0") (auto simp: slice_as_filter_def add_offsets_def ColumnId_unique_eq Let_def)
  qed
qed

lemma rewrite_slice_node_cases:
  assumes "rewrite_slice_node c start stop step s = Inr (m, s')"
  obtains "is_noop (start, stop, Some step) (row_count c)" "m = c" "s' = s"
  | "is_reverse (start, stop, Some step) (row_count c)" "m = ReversedNode c True" "s' = s"
  | "truthy_int (row_count c)" "(case to_forward_offsets (start, stop, Some step) (the (row_count c)) of
      (a, b, k) \<Rightarrow> slice_as_filter c (Some a) b k s) = Inr (m, s')"
  | "slice_as_filter c start stop step s = Inr (m, s')"
proof -
  note node = assms [unfolded rewrite_slice_node_def]
  show ?thesis
  proof (cases "is_noop (start, stop, Some step) (row_count c)")
    case True
    from node [unfolded if_P [OF True]] have "m = c" "s' = s" by simp_all
    with True show ?thesis by (rule that(1))
  next
    case False
    note node = node [unfolded if_not_P [OF False]]
    show ?thesis
    proof (cases "is_reverse (start, stop, Some step) (row_count c)")
      case True
      from node [unfolded if_P [OF True]] have "m = ReversedNode c True" "s' = s" by simp_all
      with True show ?thesis by (rule that(2))
    next
      case False
      note node = node [unfolded if_not_P [OF False]]
      show ?thesis
      proof (cases "truthy_int (row_count c)")
        case True
        then show ?thesis using node [unfolded if_P [OF True]] by (rule that(3))
      next
        case False
        then show ?thesis using node [unfolded if_not_P [OF False]] by (intro that(4))
      qed
    qed
  qed
qed

fun is_slice :: "bfnode \<Rightarrow> bool" where
  "is_slice (SliceNode c a b s) = True"
| "is_slice _ = False"

lemma rewrite_slice_fields:
  assumes "typed n" "scoped n" "slices_fit E n" "ids_older s n"
  shows "\<exists>m s'. rewrite_slice n s = Inr (m, s') \<and> typed m \<and> node_fields m = node_fields n"
proof (cases "is_slice n")
  case True
  then obtain c start stop step where n: "n = SliceNode c start stop step" by (cases n) auto
  have c: "typed c" "scoped c" "ids_older s c"
    using assms ids_older_child [of s n c] by (simp_all add: n typed_iff [of "SliceNode _ _ _ _"])
  have "step \<noteq> 0" using assms(3) by (auto simp: slices_fit_iff [of E "SliceNode _ _ _ _"] n slice_exact_def Let_def)
  note filtered = slice_as_filter_returns [OF c]
  show ?thesis
  proof (cases "truthy_int (row_count c)")
    case True
    obtain a b k where fw: "to_forward_offsets (start, stop, Some step) (the (row_count c)) = (a, b, k)"
      by (cases "to_forward_offsets (start, stop, Some step) (the (row_count c))")
    have "k = step" using fw \<open>step \<noteq> 0\<close> by (auto simp: step_or_one_def Let_def)
    with filtered [OF \<open>step \<noteq> 0\<close>, of "Some a" b] fw True show ?thesis
      using c(1) by (simp add: n rewrite_slice_node_def typed_iff [of "ReversedNode _ _"])
        (metis typed_iff)
  next
    case False
    with filtered [OF \<open>step \<noteq> 0\<close>, of start stop] show ?thesis
      using c(1) by (simp add: n rewrite_slice_node_def typed_iff [of "ReversedNode _ _"]) (metis typed_iff)
  qed
next
  case False
  then have "rewrite_slice n s = Inr (n, s)" by (cases n) simp_all
  then show ?thesis using assms(1) by simp
qed

lemma rewrite_slice_sound:
  assumes "integer_ops E" "scoped n" "slices_fit E n" "ids_older s n" "rewrite_slice n s = Inr (m, s')"
  shows "scoped m \<and> slices_fit E m \<and> same_output E m n \<and> ids_older s' m \<and> s \<le> s'"
proof (cases n)
  case (SliceNode c start stop step)
  let ?sl = "(start, stop, Some step)"
  have c: "scoped c" "slices_fit E c" "ids_older s c"
    using assms(2-4) ids_older_child [of s n c] by (simp_all add: SliceNode slices_fit_iff [of E "SliceNode _ _ _ _"])
  have fits: "counted E n" "slice_fits E n" using assms(3) slices_fit_iff by blast+
  then have step: "step \<noteq> 0" and exact: "slice_exact start stop step (int (length (rows E c)))"
    by (auto simp: SliceNode slice_exact_def Let_def)
  have hint: "size_hint (row_count c) (rows E c)"
    using row_count_rows [OF slices_fit_counted [OF c(2)]] by (cases "row_count c") (auto simp: size_hint_def)
  have filter_case: ?thesis
    if "slice_exact a b k (int (length (rows E c)))" "slice_as_filter c a b k s = Inr (m, s')"
      "py_slice (a, b, Some k) (rows E c) = py_slice ?sl (rows E c)" for a b k
  proof -
    have "scoped m \<and> same_output E m (SliceNode c a b k) \<and> ids_older s' m \<and> s \<le> s'"
      using slice_as_filter_sound [OF assms(1) c(1,3) that(1,2)] .
    then show ?thesis
      using slice_as_filter_fits [OF c(2) that(2)] same_rows_same_output [OF _ that(3)] by (auto simp: SliceNode)
  qed
  have noop: ?thesis if "is_noop ?sl (row_count c)" "m = c" "s' = s"
    using that c is_noop_sound [OF that(1) hint] step by (simp add: SliceNode same_output_iff)
  have reverse: ?thesis if "is_reverse ?sl (row_count c)" "m = ReversedNode c True" "s' = s"
  proof -
    have "list_all (older s) (out_ids c)" using c(3) ids_older_iff by blast
    then show ?thesis
      using that c is_reverse_sound [OF that(1) hint] step
      by (simp add: SliceNode same_output_iff slices_fit_iff [of E "ReversedNode _ _"] ids_older_iff [of s "ReversedNode _ _"])
  qed
  have known: ?thesis if "truthy_int (row_count c)"
    "(case to_forward_offsets ?sl (the (row_count c)) of (a, b, k) \<Rightarrow> slice_as_filter c (Some a) b k s) = Inr (m, s')"
  proof -
    from that(1) hint have size: "row_count c = Some (int (length (rows E c)))" "0 < int (length (rows E c))"
      by (auto simp: size_hint_def truthy_int_def)
    obtain a b k where fw: "to_forward_offsets ?sl (int (length (rows E c))) = (a, b, k)"
      by (cases "to_forward_offsets ?sl (int (length (rows E c)))")
    have "slice_positions (Some a, b, Some k) (int (length (rows E c))) = slice_positions ?sl (int (length (rows E c)))"
      using to_forward_offsets_positions(1) [OF _ size(2) fw] fits(1) by (simp add: SliceNode)
    note same = same_positions_same_slice [OF this]
    have "slice_exact (Some a) b k (int (length (rows E c)))"
      using fits(2) size(2) fw by (simp add: SliceNode Let_def)
    moreover have "slice_as_filter c (Some a) b k s = Inr (m, s')" using that(2) size(1) fw by simp
    ultimately show ?thesis using filter_case same by blast
  qed
  have "rewrite_slice_node c start stop step s = Inr (m, s')" using assms(5) by (simp add: SliceNode)
  then consider "is_noop ?sl (row_count c)" "m = c" "s' = s" | "is_reverse ?sl (row_count c)" "m = ReversedNode c True" "s' = s"
    | "truthy_int (row_count c)"
      "(case to_forward_offsets ?sl (the (row_count c)) of (a, b, k) \<Rightarrow> slice_as_filter c (Some a) b k s) = Inr (m, s')"
    | "slice_as_filter c start stop step s = Inr (m, s')"
    by (rule rewrite_slice_node_cases)
  then show ?thesis
  proof cases
    case 4
    then show ?thesis using filter_case exact by blast
  qed (use noop reverse known in blast)+
qed (use assms in auto)

lemma slices_fit_transform:
  assumes "slices_fit E n" "\<And>c. c \<in> set (child_nodes n) \<Longrightarrow> slices_fit E (t c) \<and> same_output E (t c) c"
  shows "slices_fit E (transform_children t n)"
proof -
  have len: "length (rows E (t c)) = length (rows E c)" if "c \<in> set (child_nodes n)" for c
    using assms(2) [OF that] rows_agree_length by (auto simp: same_output_iff)
  have "slice_fits E (transform_children t n) = slice_fits E n"
    using len by (cases n) auto
  then show ?thesis
    using assms counted_same [OF len] by (simp add: slices_fit_iff [of E n] slices_fit_iff [of E "transform_children t n"] list_all_iff)
qed

definition sliceable :: "engine \<Rightarrow> bfnode \<Rightarrow> bool" where
  "sliceable E n \<longleftrightarrow> integer_ops E \<and> (scoped n \<and> typed n) \<and> slices_fit E n"

lemma rewrite_slice_step:
  assumes "sliceable E n" "ids_older s n" "rewrite_slice n s = Inr (m, s')"
  shows "sliceable E m \<and> same_plan E m n \<and> ids_older s' m \<and> s \<le> s'"
  using rewrite_slice_sound [of E n s m s'] rewrite_slice_fields [of n E s] assms
  by (auto simp: sliceable_def same_plan_def)

interpretation slicing: total_rewrite rewrite_slice "same_plan E" "sliceable E" ids_older "(\<le>)" for E
proof unfold_locales
  fix n m and s s' :: nat
  assume "sliceable E n" "ids_older s n" "rewrite_slice n s = Inr (m, s')"
  then show "sliceable E m \<and> same_plan E m n \<and> ids_older s' m \<and> s \<le> s'" by (rule rewrite_slice_step)
next
  fix n and s :: nat assume "sliceable E n" "ids_older s n"
  then show "\<exists>m s'. rewrite_slice n s = Inr (m, s')"
    using rewrite_slice_fields [of n E s] by (auto simp: sliceable_def)
next
  fix n t
  assume n: "sliceable E n"
    and kids: "\<And>c. c \<in> set (child_nodes n) \<Longrightarrow> sliceable E (t c) \<and> same_plan E (t c) c"
  then have "slices_fit E (transform_children t n)"
    by (intro slices_fit_transform) (auto simp: sliceable_def same_plan_def)
  then show "sliceable E (transform_children t n) \<and> same_plan E (transform_children t n) n"
    using same_plan_transform [of n t E] n kids by (auto simp: sliceable_def)
next
  fix n c assume "sliceable E n" "c \<in> set (child_nodes n)"
  then show "sliceable E c"
    using scoped_children [of n c] typed_iff [of n] slices_fit_iff [of E n] by (auto simp: sliceable_def list_all_iff)
next
  fix n t and s :: nat
  assume "sliceable E n" "ids_older s n"
    and "\<And>c. c \<in> set (child_nodes n) \<Longrightarrow> ids_older s (t c) \<and> same_plan E (t c) c"
  then show "ids_older s (transform_children t n)"
    using ids_older_transform [of n s t E] by (auto simp: sliceable_def same_plan_def)
qed (auto intro: ids_older_mono ids_older_child same_plan_trans)

subsection \<open>The whole rewrite\<close>

definition no_slices :: "bfnode \<Rightarrow> bool" where
  "no_slices n \<longleftrightarrow> everywhere (\<lambda>m. \<not> is_slice m) n"

lemma no_slices_iff: "no_slices n \<longleftrightarrow> \<not> is_slice n \<and> list_all no_slices (child_nodes n)"
  unfolding no_slices_def [abs_def] by (rule everywhere_iff)

lemma slice_as_filter_no_slices:
  assumes "no_slices c" "slice_as_filter c start stop step s = Inr (m, s')"
  shows "no_slices m"
  using assms by (auto simp: slice_as_filter_def add_offsets_def rbind_eq_Inr_iff Let_def no_slices_iff [of "FilterNode _ _"]
      no_slices_iff [of "SelectionNode _ _"] no_slices_iff [of "PromoteOffsetsNode _ _"]
      no_slices_iff [of "ReversedNode _ _"] split: if_splits prod.splits dest!: drop_cols_node)

lemma rewrite_slice_no_slices:
  assumes "rewrite_slice n s = Inr (m, s')" "\<And>c. c \<in> set (child_nodes n) \<Longrightarrow> no_slices c"
  shows "no_slices m"
proof (cases "is_slice n")
  case True
  then obtain c start stop step where n: "n = SliceNode c start stop step" by (cases n) auto
  then have c: "no_slices c" using assms(2) by simp
  have "rewrite_slice_node c start stop step s = Inr (m, s')" using assms(1) by (simp add: n)
  then show ?thesis
  proof (cases rule: rewrite_slice_node_cases)
    case 3
    then show ?thesis using slice_as_filter_no_slices [OF c] by (auto split: prod.splits)
  qed (use c slice_as_filter_no_slices [OF c] in \<open>simp_all add: no_slices_iff [of "ReversedNode _ _"]\<close>)
next
  case False
  then have "m = n" using assms(1) by (cases n) simp_all
  with False assms(2) show ?thesis by (simp add: no_slices_iff [of n] list_all_iff)
qed

lemma rewrite_slices_sound:
  assumes "sliceable E r0" "ids_older s r0"
  shows "\<exists>m s'. bottom_up rewrite_slice r0 s = Some (Inr (m, s')) \<and> sliceable E m \<and> same_plan E m r0 \<and> no_slices m"
proof -
  obtain m s' where m: "bottom_up rewrite_slice r0 s = Some (Inr (m, s'))" "sliceable E m" "same_plan E m r0"
    using slicing.bottom_up_returns [OF assms] by blast
  have "no_slices m" by (rule bottom_up_establishes [OF m(1), of "\<lambda>_. True"]) (simp_all add: rewrite_slice_no_slices)
  with m show ?thesis by blast
qed

lemma unit_slice_fits:
  assumes "\<bar>step\<bar> = 1 \<or> 0 < step \<and> (case start of None \<Rightarrow> True | Some a \<Rightarrow> 0 \<le> a)"
    and "forward_safe (start, stop, Some step) (int (length (rows E c)))"
  shows "slice_fits E (SliceNode c start stop step)"
proof -
  let ?n = "int (length (rows E c))"
  have step: "step \<noteq> 0" using assms(1) by auto
  have exact: "slice_exact start stop step ?n"
    using assms(1) residue_ok_unit step by (auto simp: slice_exact_def residue_ok_def split: option.splits)
  have "slice_exact (Some a) b s ?n"
    if "0 < ?n" "to_forward_offsets (start, stop, Some step) ?n = (a, b, s)" for a b s
  proof -
    have "s = step" using that(2) step by (auto simp: step_or_one_def Let_def)
    moreover have "0 \<le> a" using to_forward_offsets_positions(2) [OF assms(2) that] .
    ultimately show ?thesis
      using assms(1) residue_ok_unit step by (auto simp: slice_exact_def residue_ok_def)
  qed
  then show ?thesis using exact by (auto simp: Let_def simp del: to_forward_offsets.simps)
qed

subsection \<open>Limits\<close>

lemma take_map_upt: "map ((!) xs) [0..<min (length xs) k] = take k xs"
  by (rule nth_equalityI) simp_all

lemma py_slice_head: "\<not> truthy_int start \<Longrightarrow> 0 < k \<Longrightarrow> py_slice (start, Some k, Some 1) xs = take (nat k) xs"
proof -
  assume "\<not> truthy_int start" "0 < k"
  then have "slice_positions (start, Some k, Some 1) (int (length xs)) = py_range 0 (int (min (length xs) (nat k))) 1"
    by (cases start; cases "k = int (length xs)")
      (auto simp: slice_start_def slice_stop_def the_step_def truthy_int_def min_def Let_def)
  then show ?thesis
    by (simp add: py_slice_def py_range_unit comp_def take_map_upt)
qed

lemma pull_out_limit_sound:
  assumes "pull_out_limit n = (m, limit)" "everywhere (counted E) n"
  shows "out_ids m = out_ids n \<and> (case limit of None \<Rightarrow> rows E m = rows E n
    | Some k \<Rightarrow> 0 < k \<and> rows E n = take (nat k) (rows E m))"
  using assms
proof (induction n arbitrary: m limit)
  case (SliceNode c start stop step)
  show ?case
  proof (cases "SliceNode_is_limit start stop step")
    case True
    then obtain k where k: "stop = Some k" "0 < k" "step = 1" "\<not> truthy_int start"
      by (auto simp: SliceNode_is_limit_def split: option.splits)
    obtain m' prior where c: "pull_out_limit c = (m', prior)" by (cases "pull_out_limit c")
    then have "m' = m" "limit = Some (case prior of Some p \<Rightarrow> if p < k then p else k | None \<Rightarrow> k)"
      using SliceNode.prems(1) True k(1) by (auto split: option.splits)
    with SliceNode.IH [OF c] SliceNode.prems(2) k show ?thesis
      by (auto simp: py_slice_head split: option.splits)
  next
    case no_limit: False
    show ?thesis
    proof (cases "SliceNode_is_noop c start stop step")
      case True
      have c: "everywhere (counted E) c" using SliceNode.prems(2) by simp
      from True no_limit SliceNode.prems(1) have "pull_out_limit c = (m, limit)" by simp
      from SliceNode.IH [OF this c] show ?thesis
        unfolding SliceNode_noop_rows [OF True c] by simp
    next
      case False
      with no_limit SliceNode.prems(1) show ?thesis by auto
    qed
  qed
next
  case (SelectionNode c pairs)
  then show ?case by (auto simp: take_map split: prod.splits if_splits option.splits)
next
  case (ProjectionNode c asg)
  then show ?case by (auto simp: take_map split: prod.splits if_splits option.splits)
qed auto

lemma pull_up_limits_sound:
  assumes "everywhere (counted E) c" "limit \<noteq> Some 0"
  shows "same_output E (pull_up_limits c outs None limit) (ResultNode c outs None limit)"
proof -
  obtain m pulled where p: "pull_out_limit c = (m, pulled)" by (cases "pull_out_limit c")
  note sound = pull_out_limit_sound [OF p assms(1)]
  show ?thesis
  proof (cases "m = c \<or> pulled = None")
    case True
    then show ?thesis
      using sound p by (auto simp: pull_up_limits_def same_output_iff result_rows_def split: option.splits)
  next
    case False
    then obtain k where k: "pulled = Some k" "0 < k" "rows E c = take (nat k) (rows E m)" "out_ids m = out_ids c" "m \<noteq> c"
      using sound by auto
    then show ?thesis
      using p assms(2)
      by (cases limit; cases "limit = Some k") (auto simp: pull_up_limits_def same_output_iff result_rows_def truthy_int_def min_def)
  qed
qed

text \<open>Pulling a limit takes a slice away, so the plan below is never the plan itself.\<close>

lemma pull_out_limit_None: "pull_out_limit n = (m, None) \<Longrightarrow> size m \<le> size n"
  by (induction n arbitrary: m) (auto split: if_splits prod.splits option.splits)

lemma pull_out_limit_smaller: "pull_out_limit n = (m, Some k) \<Longrightarrow> size m < size n"
proof (induction n arbitrary: m k)
  case (SliceNode c start stop step)
  have "size m \<le> size c" if "pull_out_limit c = (m, prior)" for prior
    using that SliceNode.IH pull_out_limit_None [of c] by (cases prior) (auto intro: less_imp_le)
  with SliceNode show ?case by (fastforce split: if_splits prod.splits)
qed (auto split: if_splits prod.splits)

lemma pull_up_limits_dropped:
  assumes "everywhere (counted E) c" "pull_out_limit c = (m, taken)"
  shows "rows E (ResultNode c outs None (Some 0)) = [] \<and>
    same_output E (pull_up_limits c outs None (Some 0)) (ResultNode c outs None (if taken = None then Some 0 else None))"
proof (cases taken)
  case None
  then show ?thesis
    using pull_out_limit_sound [OF assms(2,1)] assms(2)
    by (auto simp: pull_up_limits_def same_output_iff result_rows_def)
next
  case (Some k)
  then have "m \<noteq> c" using pull_out_limit_smaller [of c m k] assms(2) by auto
  then show ?thesis
    using pull_out_limit_sound [OF assms(2,1)] assms(2) Some
    by (auto simp: pull_up_limits_def same_output_iff result_rows_def truthy_int_def)
qed

end
