(* ===== verification/Rewrite_Scans.thy ===== *)
theory Rewrite_Scans
  imports Rewrite_Slices
begin

text \<open>
  \<^verbatim>\<open>core/rewrite/scan_reduction.py\<close> and \<^verbatim>\<open>fold_row_count.py\<close>: a selection over a scan becomes a scan of
  the selected columns, and the size of a table of known length becomes a local table of one row.
\<close>

subsection \<open>Scans of selected columns\<close>

text \<open>
  The guard of the code against local scans with offsets tests the selection itself and never
  holds; it is left out.
\<close>

definition scan_selection :: "(deref \<times> column_id) list \<Rightarrow> (column_id \<times> column_id) list" where
  "scan_selection pairs = map (\<lambda>(ref, i). (ref_id ref, i)) pairs"

fun merge_scan :: "bfnode \<Rightarrow> bfnode result" where
  "merge_scan (SelectionNode (ReadTableNode src items sess) pairs) =
     (if has_multi_referenced_ids pairs then Inr (SelectionNode (ReadTableNode src items sess) pairs)
      else rbind (scan_project (scan_selection pairs) items) (\<lambda>items'. Inr (ReadTableNode src items' sess)))"
| "merge_scan (SelectionNode (CachedTableNode src items sess orig) pairs) =
     (if has_multi_referenced_ids pairs then Inr (SelectionNode (CachedTableNode src items sess orig) pairs)
      else rbind (scan_project (scan_selection pairs) items) (\<lambda>items'. Inr (CachedTableNode src items' sess orig)))"
| "merge_scan (SelectionNode (ReadLocalNode d items sess off) pairs) =
     (if has_multi_referenced_ids pairs then Inr (SelectionNode (ReadLocalNode d items sess off) pairs)
      else rbind (scan_project (scan_selection pairs) items) (\<lambda>items'. Inr (ReadLocalNode d items' sess off)))"
| "merge_scan n = Inr n"

fun is_table_scan :: "bfnode \<Rightarrow> bool" where
  "is_table_scan (ReadTableNode src items sess) = True"
| "is_table_scan (CachedTableNode src items sess orig) = True"
| "is_table_scan _ = False"

fun is_local_scan :: "bfnode \<Rightarrow> bool" where
  "is_local_scan (ReadLocalNode d items sess off) = True"
| "is_local_scan _ = False"

fun is_selection :: "bfnode \<Rightarrow> bool" where
  "is_selection (SelectionNode c pairs) = True"
| "is_selection _ = False"

text \<open>The outer option is a traversal that does not end, the inner one the code's own.\<close>

definition try_reduce_to_table_scan :: "bfnode \<Rightarrow> bfnode option result option" where
  "try_reduce_to_table_scan r0 =
     (if list_ex (\<lambda>n. \<not> (is_table_scan n \<or> is_selection n)) (unique_nodes r0) then Some (Inr None)
      else map_option (\<lambda>res. rbind res (\<lambda>(m, _). Inr (if is_table_scan m then Some m else None)))
             (bottom_up (pure_step merge_scan) r0 ()))"

text \<open>The plan without its limit, as a scan, with the limit.\<close>

definition try_reduce_to_local_scan :: "bfnode \<Rightarrow> (bfnode \<times> int option) option result option" where
  "try_reduce_to_local_scan node =
     (case pull_out_limit node of (n, limit) \<Rightarrow>
        if \<not> list_all (\<lambda>n. is_local_scan n \<or> is_selection n) (unique_nodes n) then Some (Inr None)
        else map_option (\<lambda>res. rbind res (\<lambda>(m, _). Inr (if is_local_scan m then Some (m, limit) else None)))
               (bottom_up (pure_step merge_scan) n ()))"

subsection \<open>A scan of selected columns\<close>

lemma scan_row_lookup:
  "scan_row items src j = (case dict_of (map (\<lambda>it. (scan_id it, it)) items) j of None \<Rightarrow> NULL | Some it \<Rightarrow> src (source_id it))"
proof -
  have "dict_of (map (\<lambda>it. (scan_id it, source_id it)) items) j =
      map_option source_id (dict_of (map (\<lambda>it. (scan_id it, it)) items) j)"
    using dict_of_map_value [of source_id "map (\<lambda>it. (scan_id it, it)) items" j] by (simp add: comp_def)
  then show ?thesis by (simp add: scan_row_def split: option.split)
qed

definition picked :: "scan_list \<Rightarrow> (deref \<times> column_id) list \<Rightarrow> scan_list result" where
  "picked items pairs = mapM (\<lambda>(old_id, new_id).
     rbind (lookup_or KeyError (dict_of (map (\<lambda>it. (scan_id it, it)) items)) old_id)
       (\<lambda>it. Inr (scan_with_id new_id it))) (scan_selection pairs)"

lemma scan_project_picked:
  "pairs \<noteq> [] \<Longrightarrow> scan_project (scan_selection pairs) items = picked items pairs"
  by (cases "picked items pairs")
    (auto simp: scan_project_def picked_def Let_def scan_selection_def rbind_eq_Inr_iff dest!: mapM_length)

lemma picked_Cons:
  "picked items ((d, i) # pairs) = Inr its \<longleftrightarrow>
     (\<exists>it its'. dict_of (map (\<lambda>it. (scan_id it, it)) items) (ref_id d) = Some it \<and> picked items pairs = Inr its' \<and>
        its = scan_with_id i it # its')"
  by (auto simp: picked_def scan_selection_def rbind_eq_Inr_iff lookup_or_def split: option.splits)

lemma picked_ids: "picked items pairs = Inr its \<Longrightarrow> map scan_id its = map snd pairs"
  by (induction pairs arbitrary: its) (auto simp: picked_def [of _ "[]"] scan_selection_def picked_Cons scan_with_id_def)

lemma picked_lookup:
  "picked items pairs = Inr its \<Longrightarrow>
     map_option source_id (dict_of (map (\<lambda>it. (scan_id it, it)) its) i) =
     (case dict_of (map (\<lambda>(d, j). (j, d)) pairs) i of None \<Rightarrow> None
      | Some d \<Rightarrow> map_option source_id (dict_of (map (\<lambda>it. (scan_id it, it)) items) (ref_id d)))"
proof (induction pairs arbitrary: its)
  case (Cons p pairs)
  then obtain d j it its' where p: "p = (d, j)" "dict_of (map (\<lambda>it. (scan_id it, it)) items) (ref_id d) = Some it"
    "picked items pairs = Inr its'" "its = scan_with_id j it # its'"
    by (cases p) (auto simp: picked_Cons)
  have "set (map scan_id its') = set (map snd pairs)" using picked_ids [OF p(3)] by simp
  then have "dict_of (map (\<lambda>it. (scan_id it, it)) its') i = None \<longleftrightarrow> dict_of (map (\<lambda>(d, j). (j, d)) pairs) i = None"
    by (simp add: dict_of_eq_None_iff image_image case_prod_unfold)
  with Cons.IH [OF p(3)] p show ?case
    by (auto simp: dict_of_Cons scan_with_id_def split: option.splits)
qed (simp add: picked_def scan_selection_def)

lemma picked_rows: "picked items pairs = Inr its \<Longrightarrow> scan_row its src = select_row pairs (scan_row items src)"
proof
  fix i assume "picked items pairs = Inr its"
  from picked_lookup [OF this, of i] show "scan_row its src i = select_row pairs (scan_row items src) i"
    by (auto simp: select_row_def scan_row_lookup split: option.splits)
qed

text \<open>The fields of a scan, with the type and nullability of a source column as \<open>h\<close>.\<close>

definition scan_fields :: "(string \<Rightarrow> (etype \<times> bool) result) \<Rightarrow> scan_list \<Rightarrow> field list result" where
  "scan_fields h items = mapM (\<lambda>it. rbind (h (source_id it)) (\<lambda>(t, nullable). Inr (mk_field (scan_id it) t nullable))) items"

lemma scan_fields_ids: "scan_fields h items = Inr fs \<Longrightarrow> map field_id fs = map scan_id items"
  by (induction items arbitrary: fs) (auto simp: scan_fields_def rbind_eq_Inr_iff)

lemma scan_fields_lookup:
  "scan_fields h items = Inr fs \<Longrightarrow> dict_of (map (\<lambda>it. (scan_id it, it)) items) j = Some it \<Longrightarrow>
     \<exists>t nullable. h (source_id it) = Inr (t, nullable) \<and> fields_by_id fs j = Some (mk_field (scan_id it) t nullable)"
proof (induction items arbitrary: fs)
  case (Cons x items)
  from Cons.prems(1) obtain t n fs' where fs: "h (source_id x) = Inr (t, n)" "scan_fields h items = Inr fs'"
    "fs = mk_field (scan_id x) t n # fs'"
    by (auto simp: scan_fields_def rbind_eq_Inr_iff)
  show ?case
  proof (cases "dict_of (map (\<lambda>it. (scan_id it, it)) items) j")
    case None
    moreover have "set (map field_id fs') = set (map scan_id items)" using scan_fields_ids [OF fs(2)] by simp
    ultimately have "fields_by_id fs' j = None" by (simp add: fields_by_id_def dict_of_eq_None_iff image_image)
    with None Cons.prems(2) fs show ?thesis
      by (auto simp: fields_by_id_def dict_of_Cons split: if_splits)
  next
    case (Some it')
    with Cons.IH [OF fs(2)] Cons.prems(2) fs(3) show ?thesis
      by (auto simp: fields_by_id_def dict_of_Cons)
  qed
qed simp

lemma picked_fields:
  assumes "scan_fields h items = Inr fs" "picked items pairs = Inr its"
  shows "scan_fields h its = SelectionNode_fields (Inr fs) pairs"
  using assms(2)
proof (induction pairs arbitrary: its)
  case (Cons p pairs)
  then obtain d i it its' where p: "p = (d, i)" "dict_of (map (\<lambda>it. (scan_id it, it)) items) (ref_id d) = Some it"
    "picked items pairs = Inr its'" "its = scan_with_id i it # its'"
    by (cases p) (auto simp: picked_Cons)
  with scan_fields_lookup [OF assms(1) p(2)] Cons.IH [OF p(3)] show ?case
    by (auto simp: scan_fields_def SelectionNode_fields_def selected_field_def lookup_or_def scan_with_id_def)
qed (simp add: picked_def scan_selection_def scan_fields_def SelectionNode_fields_def)

lemma rbind_return: "rbind r Inr = r"
  by (cases r) simp_all

lemma table_fields_scan:
  "ReadTableNode_fields src items = scan_fields (\<lambda>s. rbind (schema_get_type (src_schema src) s) (\<lambda>t.
     rbind (lookup_or KeyError (schema_by_id (src_table src)) s) (\<lambda>nullable. Inr (t, nullable)))) items"
  by (simp add: ReadTableNode_fields_def scan_fields_def rbind_assoc)

lemma local_fields_scan:
  "ReadLocalNode_fields d items None = scan_fields (\<lambda>s. rbind (schema_get_type (local_schema d) s) (\<lambda>t. Inr (t, True))) items"
  by (simp add: ReadLocalNode_fields_def scan_fields_def rbind_assoc)
    (rule rbind_return)

text \<open>A plan whose selections are never empty and whose local scans have no offsets.\<close>

fun mergeable :: "bfnode \<Rightarrow> bool" where
  "mergeable (SelectionNode c pairs) = (pairs \<noteq> [])"
| "mergeable (ReadLocalNode d items sess off) = (off = None)"
| "mergeable _ = True"

definition scannable :: "bfnode \<Rightarrow> bool" where
  "scannable n \<longleftrightarrow> (scoped n \<and> typed n) \<and> everywhere mergeable n"

lemma merged_scan_sound:
  assumes "picked items pairs = Inr its" "scoped (SelectionNode n pairs)" "typed (SelectionNode n pairs)"
    and "node_fields n = scan_fields h items" "node_fields m = scan_fields h its"
    and "rows E n = map (scan_row items) src" "rows E m = map (scan_row its) src"
    and "out_ids m = map scan_id its" "child_nodes m = []" "scoped m \<longleftrightarrow> distinct (map scan_id its)" "mergeable m"
  shows "scannable m \<and> same_plan E m (SelectionNode n pairs)"
proof -
  have ids: "map scan_id its = map snd pairs" by (rule picked_ids [OF assms(1)])
  obtain fs where fs: "node_fields n = Inr fs"
    using assms(3) typed_iff [of "SelectionNode n pairs"] typed_iff [of n] by auto
  then have fields: "node_fields m = node_fields (SelectionNode n pairs)"
    using picked_fields [OF _ assms(1), of h fs] assms(4,5) by simp
  then have "typed m" using assms(3,9) typed_iff [of "SelectionNode n pairs"] by (simp add: typed_iff [of m])
  moreover have "scoped m" using assms(2,10) ids by simp
  moreover have "everywhere mergeable m" using assms(9,11) by (simp add: everywhere_iff [of _ m])
  moreover have "rows E m = rows E (SelectionNode n pairs)"
    using picked_rows [OF assms(1)] assms(6,7) by simp
  then have "same_output E m (SelectionNode n pairs)"
    using assms(8) ids by (simp add: same_output_iff)
  ultimately show ?thesis using fields by (simp add: scannable_def same_plan_def)
qed

lemma merge_scan_sound:
  assumes "scannable n" "merge_scan n = Inr m"
  shows "scannable m \<and> same_plan E m n"
  using assms
proof (induction n rule: merge_scan.induct)
  case (1 src items sess pairs)
  show ?case
  proof (cases "has_multi_referenced_ids pairs")
    case False
    have "pairs \<noteq> []" using 1(1) by (simp add: scannable_def)
    with 1(2) False obtain its where its: "picked items pairs = Inr its" "m = ReadTableNode src its sess"
      by (auto simp: rbind_eq_Inr_iff scan_project_picked)
    show ?thesis
      by (rule merged_scan_sound [OF its(1)])
        (use 1(1) its(2) in \<open>simp_all add: scannable_def table_fields_scan read_table_def\<close>)
  qed (use 1 in simp)
next
  case (2 src items sess orig pairs)
  show ?case
  proof (cases "has_multi_referenced_ids pairs")
    case False
    have "pairs \<noteq> []" using 2(1) by (simp add: scannable_def)
    with 2(2) False obtain its where its: "picked items pairs = Inr its" "m = CachedTableNode src its sess orig"
      by (auto simp: rbind_eq_Inr_iff scan_project_picked)
    show ?thesis
      by (rule merged_scan_sound [OF its(1)])
        (use 2(1) its(2) in \<open>simp_all add: scannable_def table_fields_scan read_table_def\<close>)
  qed (use 2 in simp)
next
  case (3 d items sess off pairs)
  show ?case
  proof (cases "has_multi_referenced_ids pairs")
    case False
    have off: "pairs \<noteq> []" "off = None" using 3(1) by (simp_all add: scannable_def)
    with 3(2) False obtain its where its: "picked items pairs = Inr its" "m = ReadLocalNode d its sess off"
      by (auto simp: rbind_eq_Inr_iff scan_project_picked)
    show ?thesis
      by (rule merged_scan_sound [OF its(1)])
        (use 3(1) its(2) off in \<open>simp_all add: scannable_def local_fields_scan read_local_def\<close>)
  qed (use 3 in simp)
qed (simp_all)

text \<open>Where the selection has fields, the scan has the columns it selects.\<close>

lemma picked_returns:
  assumes "scan_fields h items = Inr fs" "SelectionNode_fields (Inr fs) pairs = Inr gs"
  shows "\<exists>its. picked items pairs = Inr its"
  using assms(2)
proof (induction pairs arbitrary: gs)
  case (Cons p pairs)
  obtain d i where p: "p = (d, i)" by (cases p)
  from Cons.prems obtain gs' f where gs: "SelectionNode_fields (Inr fs) pairs = Inr gs'" "fields_by_id fs (ref_id d) = Some f"
    by (auto simp: SelectionNode_fields_def p rbind_eq_Inr_iff selected_field_def lookup_or_def split: option.splits)
  then have "ref_id d \<in> set (map field_id fs)" by (force simp: fields_by_id_def dest: dict_of_SomeD)
  then have "ref_id d \<in> scan_id ` set items" using scan_fields_ids [OF assms(1)] by simp
  then obtain it where "dict_of (map (\<lambda>it. (scan_id it, it)) items) (ref_id d) = Some it"
    by (cases "dict_of (map (\<lambda>it. (scan_id it, it)) items) (ref_id d)") (auto simp: dict_of_eq_None_iff image_image)
  with Cons.IH [OF gs(1)] show ?case by (auto simp: p picked_Cons)
qed (simp add: picked_def scan_selection_def)

lemma merge_scan_returns: "scannable n \<Longrightarrow> \<exists>m. merge_scan n = Inr m"
proof (induction n rule: merge_scan.induct)
  case (1 src items sess pairs)
  then obtain fs gs where "node_fields (ReadTableNode src items sess) = Inr fs" "SelectionNode_fields (Inr fs) pairs = Inr gs" "pairs \<noteq> []"
    by (auto simp: scannable_def typed_iff [of "SelectionNode _ _"] typed_iff [of "ReadTableNode _ _ _"])
  then show ?case using picked_returns by (fastforce simp: table_fields_scan scan_project_picked)
next
  case (2 src items sess orig pairs)
  then obtain fs gs where "node_fields (CachedTableNode src items sess orig) = Inr fs" "SelectionNode_fields (Inr fs) pairs = Inr gs" "pairs \<noteq> []"
    by (auto simp: scannable_def typed_iff [of "SelectionNode _ _"] typed_iff [of "CachedTableNode _ _ _ _"])
  then show ?case using picked_returns by (fastforce simp: table_fields_scan scan_project_picked)
next
  case (3 d items sess off pairs)
  then obtain fs gs where "node_fields (ReadLocalNode d items sess None) = Inr fs" "SelectionNode_fields (Inr fs) pairs = Inr gs" "pairs \<noteq> []"
    by (auto simp: scannable_def typed_iff [of "SelectionNode _ _"] typed_iff [of "ReadLocalNode _ _ _ _"])
  then show ?case using picked_returns by (fastforce simp: local_fields_scan scan_project_picked)
qed simp_all

lemma mergeable_transform: "mergeable (transform_children t n) = mergeable n"
  by (cases n) simp_all

lemma scannable_child: "scannable n \<Longrightarrow> c \<in> set (child_nodes n) \<Longrightarrow> scannable c"
  using scoped_children [of n c] typed_iff [of n] everywhere_iff [of mergeable n] by (auto simp: scannable_def list_all_iff)

interpretation scanning: total_rewrite "pure_step merge_scan" "same_plan E" scannable "\<lambda>_ _. True" "\<lambda>_ _. True" for E
proof unfold_locales
  fix n m and s s' :: unit assume "scannable n" "pure_step merge_scan n s = Inr (m, s')"
  then show "scannable m \<and> same_plan E m n \<and> True \<and> True"
    using merge_scan_sound by (auto simp: pure_step_def rbind_eq_Inr_iff)
next
  fix n and s :: unit assume "scannable n"
  then show "\<exists>m s'. pure_step merge_scan n s = Inr (m, s')"
    using merge_scan_returns by (fastforce simp: pure_step_def)
next
  fix n t
  assume n: "scannable n" and kids: "\<And>c. c \<in> set (child_nodes n) \<Longrightarrow> scannable (t c) \<and> same_plan E (t c) c"
  then have "everywhere mergeable (transform_children t n)"
    by (intro everywhere_transform) (auto simp: scannable_def mergeable_transform everywhere_iff [of mergeable n])
  then show "scannable (transform_children t n) \<and> same_plan E (transform_children t n) n"
    using same_plan_transform [of n t E] n kids by (auto simp: scannable_def)
qed (auto intro: scannable_child same_plan_trans)

lemma merge_scans: "scannable r0 \<Longrightarrow> \<exists>m. bottom_up (pure_step merge_scan) r0 () = Some (Inr (m, ())) \<and> scannable m \<and> same_plan E m r0"
  using scanning.bottom_up_returns [of r0 "()" E] by simp

lemma table_scan_sound:
  assumes "scannable r0" "try_reduce_to_table_scan r0 = Some (Inr (Some m))"
  shows "is_table_scan m \<and> same_plan E m r0"
  using merge_scans [OF assms(1), of E] assms(2)
  by (auto simp: try_reduce_to_table_scan_def split: if_splits)

lemma local_scan_sound:
  assumes "everywhere (counted E) r0" "try_reduce_to_local_scan r0 = Some (Inr (Some (m, limit)))"
    and "scannable (fst (pull_out_limit r0))"
  shows "is_local_scan m \<and> out_ids m = out_ids r0 \<and>
    rows_agree (set (out_ids r0)) (case limit of None \<Rightarrow> rows E m | Some k \<Rightarrow> take (nat k) (rows E m)) (rows E r0)"
proof -
  obtain n where n: "pull_out_limit r0 = (n, limit)" "is_local_scan m" "same_plan E m n"
    using merge_scans [OF assms(3), of E] assms(2)
    by (auto simp: try_reduce_to_local_scan_def split: if_splits prod.splits)
  then have "rows_agree (set (out_ids n)) (rows E m) (rows E n)" "out_ids m = out_ids n"
    by (simp_all add: same_plan_def same_output_iff)
  then show ?thesis
    using pull_out_limit_sound [OF n(1) assms(1)] n(2)
    by (auto simp: rows_agree_def list_all2_takeI split: option.splits)
qed

text \<open>A plan of table scans and selections that use no column twice is always reduced.\<close>

fun selects_scans :: "bfnode \<Rightarrow> bool" where
  "selects_scans (SelectionNode c pairs) = (\<not> has_multi_referenced_ids pairs)"
| "selects_scans n = is_table_scan n"

lemma selects_scans_transform: "selects_scans (transform_children t n) = selects_scans n"
  by (cases n) simp_all

lemma selects_scans_merge:
  "selects_scans n \<Longrightarrow> merge_scan n = Inr m \<Longrightarrow> (\<And>c. c \<in> set (child_nodes n) \<Longrightarrow> is_table_scan c) \<Longrightarrow> is_table_scan m"
  by (induction n rule: merge_scan.induct) (auto simp: rbind_eq_Inr_iff)

lemma table_scan_complete:
  assumes "scannable r0" "everywhere selects_scans r0"
  shows "\<exists>m. try_reduce_to_table_scan r0 = Some (Inr (Some m)) \<and> is_table_scan m \<and> same_plan E m r0"
proof -
  obtain m where m: "bottom_up (pure_step merge_scan) r0 () = Some (Inr (m, ()))" "same_plan E m r0"
    using merge_scans [OF assms(1)] by blast
  have nodes: "selects_scans n" if "n \<in> subnodes r0" for n
    using assms(2) that by (simp add: everywhere_def list_all_iff unique_nodes_set)
  have "is_table_scan m"
    by (rule bottom_up_establishes [OF m(1), of selects_scans])
      (auto simp: nodes selects_scans_transform pure_step_def rbind_eq_Inr_iff intro: selects_scans_merge)
  moreover have "is_table_scan n \<or> is_selection n" if "n \<in> subnodes r0" for n
    using nodes [OF that] by (cases n) simp_all
  ultimately show ?thesis
    using m by (auto simp: try_reduce_to_table_scan_def list_ex_iff unique_nodes_set)
qed

subsection \<open>Row counts\<close>

text \<open>
  The table of one count that the code builds with pyarrow: its key among the local tables is a
  parameter, and so are its rows, which the engine holds.
\<close>

definition count_table :: "(int \<Rightarrow> nat) \<Rightarrow> int \<Rightarrow> local_source" where
  "count_table key k = \<lparr>local_key = key k, local_schema = [(''count'', Some INT_DTYPE)], local_row_count = 1\<rparr>"

fun fold_row_counts :: "(int \<Rightarrow> nat) \<Rightarrow> bfnode \<Rightarrow> bfnode result" where
  "fold_row_counts key (AggregateNode c aggs ks os dn) =
     (if length ks > 0 then Inr (AggregateNode c aggs ks os dn)
      else case row_count c of
        None \<Rightarrow> Inr (AggregateNode c aggs ks os dn)
      | Some k \<Rightarrow> rbind (all_while (\<lambda>(agg, _). rbind (agg_op agg) (\<lambda>op. Inr (op = SizeOp))) aggs) (\<lambda>sizes.
          if \<not> sizes then Inr (AggregateNode c aggs ks os dn)
          else rbind (node_session (AggregateNode c aggs ks os dn)) (\<lambda>sess.
            Inr (ReadLocalNode (count_table key k) (map (\<lambda>(_, i). ScanItem i ''count'') aggs) sess None))))"
| "fold_row_counts key n = Inr n"

definition counts_rows :: "engine \<Rightarrow> (int \<Rightarrow> nat) \<Rightarrow> bool" where
  "counts_rows E key \<longleftrightarrow> (\<forall>k \<ge> 0. map (\<lambda>r. r ''count'') (local_rows E (key k)) = [IntS k]) \<and>
     (\<forall>rs. agg_value E SizeOp rs = IntS (int (length rs)))"

lemma all_sizes:
  "all_while (\<lambda>(agg, _). rbind (agg_op agg) (\<lambda>op. Inr (op = SizeOp))) aggs = Inr True \<Longrightarrow>
     (e, i) \<in> set aggs \<Longrightarrow> \<exists>args. agg_parts e = Some (SizeOp, args)"
  by (induction aggs) (auto simp: rbind_eq_Inr_iff agg_op_def split: expr.splits if_splits)

lemma size_agg_row:
  assumes "counts_rows E key" "all_while (\<lambda>(agg, _). rbind (agg_op agg) (\<lambda>op. Inr (op = SizeOp))) aggs = Inr True" "i \<in> snd ` set aggs"
  shows "agg_row E aggs [] [] rs i = IntS (int (length rs))"
proof -
  have counted: "eval_agg E rs e = IntS (int (length rs))" if "(e, j) \<in> set aggs" for e j
    using all_sizes [OF assms(2) that] assms(1) by (auto simp: eval_agg_def counts_rows_def)
  have "dict_of (map (\<lambda>(e, j). (j, eval_agg E rs e)) aggs) i \<noteq> None"
    using assms(3) by (auto simp: dict_of_eq_None_iff image_image case_prod_unfold)
  then obtain v where v: "dict_of (map (\<lambda>(e, j). (j, eval_agg E rs e)) aggs) i = Some v" by blast
  then have "v = IntS (int (length rs))" using counted by (auto dest!: dict_of_SomeD)
  with v show ?thesis by (simp add: agg_row_def)
qed

lemma count_scan_row:
  assumes "i \<in> snd ` set aggs"
  shows "scan_row (map (\<lambda>(_, i). ScanItem i ''count'') aggs) r i = r ''count''"
proof -
  let ?items = "map (\<lambda>it. (scan_id it, source_id it)) (map (\<lambda>(_, i). ScanItem i ''count'') aggs)"
  have "dict_of ?items i \<noteq> None"
    using assms by (auto simp: dict_of_eq_None_iff image_image case_prod_unfold)
  then obtain v where v: "dict_of ?items i = Some v" by blast
  then have "v = ''count''" by (auto dest!: dict_of_SomeD)
  with v show ?thesis by (simp add: scan_row_def)
qed

lemma fold_row_counts_cases:
  assumes "fold_row_counts key n = Inr m"
  obtains "m = n" | c aggs os dn k sess where "n = AggregateNode c aggs [] os dn" "row_count c = Some k"
    "all_while (\<lambda>(agg, _). rbind (agg_op agg) (\<lambda>op. Inr (op = SizeOp))) aggs = Inr True"
    "m = ReadLocalNode (count_table key k) (map (\<lambda>(_, i). ScanItem i ''count'') aggs) sess None"
  using assms by (induction key n rule: fold_row_counts.induct) (auto simp: rbind_eq_Inr_iff split: if_splits option.splits)

lemma fold_row_counts_sound:
  assumes "counts_rows E key" "scoped n" "everywhere (counted E) n" "fold_row_counts key n = Inr m"
  shows "scoped m \<and> everywhere (counted E) m \<and> same_output E m n"
  using assms(4)
proof (cases rule: fold_row_counts_cases)
  case (2 c aggs os dn k sess)
  have k: "int (length (rows E c)) = k"
    using row_count_rows [of E c k] assms(3) 2(1,2) by simp
  obtain sorted where sorted: "rows E n = [agg_row E aggs [] [] sorted]" "length sorted = length (rows E c)"
    by (rule that [of "if os \<noteq> [] then sort_rows E os (rows E c) else rows E c"]) (simp_all add: 2(1) aggregate_rows_def)
  obtain r where r: "local_rows E (key k) = [r]" "r ''count'' = IntS k"
  proof -
    have "map (\<lambda>r. r ''count'') (local_rows E (key k)) = [IntS k]" using assms(1) k by (auto simp: counts_rows_def)
    then show ?thesis by (auto intro: that)
  qed
  have out: "out_ids m = map snd aggs" "out_ids n = map snd aggs"
    by (simp_all add: 2(1,4) comp_def case_prod_unfold)
  have "rows_agree (set (map snd aggs)) (rows E m) (rows E n)"
    using r(1) sorted(1) 2(4)
    by (auto simp: read_local_def count_table_def rows_agree_def agree_def count_scan_row r(2)
        size_agg_row [OF assms(1) 2(3)] sorted(2) k)
  then have "same_output E m n" using out by (simp add: same_output_iff)
  moreover have "scoped m" using assms(2) by (simp add: 2(1,4) comp_def case_prod_unfold)
  moreover have "everywhere (counted E) m" by (simp add: 2(4) count_table_def r(1))
  ultimately show ?thesis by blast
qed (use assms in \<open>simp add: same_output_def\<close>)

interpretation folding: plan_rewrite "pure_step (fold_row_counts key)" "same_output E"
  "\<lambda>n. counts_rows E key \<and> scoped n \<and> everywhere (counted E) n" "\<lambda>_ _. True" "\<lambda>_ _. True" for E key
proof unfold_locales
  fix n m and s s' :: unit
  assume "counts_rows E key \<and> scoped n \<and> everywhere (counted E) n" "pure_step (fold_row_counts key) n s = Inr (m, s')"
  then show "(counts_rows E key \<and> scoped m \<and> everywhere (counted E) m) \<and> same_output E m n \<and> True \<and> True"
    using fold_row_counts_sound by (auto simp: pure_step_def rbind_eq_Inr_iff)
next
  fix n t
  assume n: "counts_rows E key \<and> scoped n \<and> everywhere (counted E) n"
    and kids: "\<And>c. c \<in> set (child_nodes n) \<Longrightarrow>
      (counts_rows E key \<and> scoped (t c) \<and> everywhere (counted E) (t c)) \<and> same_output E (t c) c"
  then show "(counts_rows E key \<and> scoped (transform_children t n) \<and> everywhere (counted E) (transform_children t n)) \<and>
      same_output E (transform_children t n) n"
    using counted_transform [of E n t] scoped_transform [of n t] transform_children_same_output [of n E t]
    by (auto simp: same_output_def)
qed (auto intro: scoped_children same_output_trans everywhere_child)

lemma fold_counts_sound:
  assumes "bottom_up (pure_step (fold_row_counts key)) r0 () = Some (Inr (m, ()))"
    and "counts_rows E key" "scoped r0" "everywhere (counted E) r0"
  shows "scoped m \<and> same_output E m r0"
  using folding.bottom_up_sound [OF assms(1), of E] assms(2-4) by simp

end
