(* ===== verification/Rewrite_Selections.thy ===== *)
theory Rewrite_Selections
  imports Field_Renaming Rewrite_Scans
begin

text \<open>
  \<^verbatim>\<open>core/rewrite/select_pullup.py\<close>: selections are pulled up above the nodes over them, bottom-up,
  until they meet a join, a concatenation or the root. Here are the rewrite, the plans it applies to, and
  the nodes that keep the columns of their child; theory \<open>Selection_Soundness\<close> has the others.
\<close>

subsection \<open>The rewrite\<close>

definition source_items :: "scan_list \<Rightarrow> scan_list" where
  "source_items items = map (\<lambda>it. ScanItem (ColumnId (source_id it)) (source_id it)) items"

definition source_selection :: "scan_list \<Rightarrow> (deref \<times> column_id) list" where
  "source_selection items = map (\<lambda>it. (DerefOp (ColumnId (source_id it)), scan_id it)) items"

fun pull_up_source_ids :: "bfnode \<Rightarrow> bfnode" where
  "pull_up_source_ids (ReadTableNode src items sess) =
     (if list_all (\<lambda>it. id_sql (scan_id it) = source_id it) items then ReadTableNode src items sess
      else SelectionNode (ReadTableNode src (source_items items) sess) (source_selection items))"
| "pull_up_source_ids (CachedTableNode src items sess orig) =
     (if list_all (\<lambda>it. id_sql (scan_id it) = source_id it) items then CachedTableNode src items sess orig
      else SelectionNode (CachedTableNode src (source_items items) sess orig) (source_selection items))"
| "pull_up_source_ids n = n"

text \<open>The node with its references read through the selection, over the child of the selection.\<close>

definition pushed_down :: "bfnode \<Rightarrow> bfnode \<Rightarrow> (deref \<times> column_id) list \<Rightarrow> bfnode result" where
  "pushed_down n c pairs = rbind (remap_refs (selection_mapping pairs) n) (\<lambda>n'. replace_child n' c)"

definition pull_over_aggregate :: "bfnode \<Rightarrow> bfnode \<Rightarrow> (deref \<times> column_id) list \<Rightarrow> bfnode result" where
  "pull_over_aggregate n c pairs =
     rbind (pushed_down n c pairs) (\<lambda>pushed_down_agg.
     rbind (ids n) (\<lambda>is.
       Inr (SelectionNode pushed_down_agg
              (map (\<lambda>i. AliasedRef_remap_refs (selection_mapping pairs) (AliasedRef_identity i)) is))))"

definition pull_over_explode :: "bfnode \<Rightarrow> column_id option \<Rightarrow> bfnode \<Rightarrow> (deref \<times> column_id) list \<Rightarrow> bfnode result" where
  "pull_over_explode n offsets_col c pairs =
     rbind (pushed_down n c pairs) (\<lambda>pushed_down_node.
       Inr (SelectionNode pushed_down_node
              (case offsets_col of None \<Rightarrow> pairs | Some i \<Rightarrow> pairs @ [(DerefOp i, i)])))"

definition pull_over_additive :: "bfnode \<Rightarrow> bfnode \<Rightarrow> (deref \<times> column_id) list \<Rightarrow> bfnode result" where
  "pull_over_additive n c pairs =
     rbind (replace_additive_base n c) (\<lambda>n'.
     rbind (remap_refs (selection_mapping pairs) n') (\<lambda>pushed_down_node.
     rbind (added_fields n) (\<lambda>added.
       Inr (SelectionNode pushed_down_node (pairs @ map (\<lambda>f. (DerefOp (field_id f), field_id f)) added)))))"

fun pull_up_select_unary :: "bfnode \<Rightarrow> bfnode \<Rightarrow> bfnode result" where
  "pull_up_select_unary n (SelectionNode c pairs) =
     (case n of
        ReversedNode _ _ \<Rightarrow> rbind (pushed_down n c pairs) (\<lambda>pushed. Inr (SelectionNode pushed pairs))
      | OrderByNode _ _ _ \<Rightarrow> rbind (pushed_down n c pairs) (\<lambda>pushed. Inr (SelectionNode pushed pairs))
      | SliceNode _ _ _ _ \<Rightarrow> rbind (pushed_down n c pairs) (\<lambda>pushed. Inr (SelectionNode pushed pairs))
      | FilterNode _ _ \<Rightarrow> rbind (pushed_down n c pairs) (\<lambda>pushed. Inr (SelectionNode pushed pairs))
      | RandomSampleNode _ _ \<Rightarrow> rbind (pushed_down n c pairs) (\<lambda>pushed. Inr (SelectionNode pushed pairs))
      | SelectionNode _ _ \<Rightarrow> pushed_down n c pairs
      | ResultNode _ _ _ _ \<Rightarrow> pushed_down n c pairs
      | AggregateNode _ _ _ _ _ \<Rightarrow> pull_over_aggregate n c pairs
      | ExplodeNode _ _ offsets_col \<Rightarrow> pull_over_explode n offsets_col c pairs
      | PromoteOffsetsNode _ _ \<Rightarrow> pull_over_additive n c pairs
      | ProjectionNode _ _ \<Rightarrow> pull_over_additive n c pairs
      | WindowOpNode _ _ _ \<Rightarrow> pull_over_additive n c pairs
      | _ \<Rightarrow> Inr n)"
| "pull_up_select_unary n child = Inr n"

definition pull_up_selects_under_join :: "bfnode \<Rightarrow> bfnode" where
  "pull_up_selects_under_join n = n"

text \<open>
  The test for a selection without effect compares a generator with a tuple of identifiers, which
  are never equal: every child is kept.
\<close>

definition handle_selects_under_concat :: "bfnode list \<Rightarrow> column_id list \<Rightarrow> bfnode result" where
  "handle_selects_under_concat cs out =
     rbind (mapM (\<lambda>child. case child of SelectionNode c pairs \<Rightarrow> rbind (ids c) (\<lambda>_. Inr child) | _ \<Rightarrow> Inr child) cs)
       (\<lambda>new_children. Inr (ConcatNode new_children out))"

fun pull_up_select :: "bool \<Rightarrow> bfnode \<Rightarrow> bfnode result" where
  "pull_up_select prefer_source_names (ReadLocalNode d items sess off) = Inr (ReadLocalNode d items sess off)"
| "pull_up_select prefer_source_names (ReadTableNode src items sess) =
     Inr (if prefer_source_names then pull_up_source_ids (ReadTableNode src items sess) else ReadTableNode src items sess)"
| "pull_up_select prefer_source_names (CachedTableNode src items sess orig) =
     Inr (if prefer_source_names then pull_up_source_ids (CachedTableNode src items sess orig) else CachedTableNode src items sess orig)"
| "pull_up_select prefer_source_names (JoinNode l r conds ty po) = Inr (pull_up_selects_under_join (JoinNode l r conds ty po))"
| "pull_up_select prefer_source_names (ConcatNode cs out) = handle_selects_under_concat cs out"
| "pull_up_select prefer_source_names n =
     (if is_unary n then (case child_nodes n of [child] \<Rightarrow> pull_up_select_unary n child | _ \<Rightarrow> Inl AttributeError) else Inr n)"

definition defer_selection :: "bfnode \<Rightarrow> bfnode result option" where
  "defer_selection r0 = map_option (map_sum id fst) (bottom_up (pure_step (pull_up_select True)) r0 ())"

subsection \<open>Plans whose selections can be pulled up\<close>

fun scan_names :: "bfnode \<Rightarrow> column_id set" where
  "scan_names (ReadTableNode src items sess) = ColumnId ` source_id ` set items"
| "scan_names (CachedTableNode src items sess orig) = ColumnId ` source_id ` set items"
| "scan_names n = {}"

text \<open>Every name that a column of the plan, or of a table it reads, has.\<close>

definition names_below :: "bfnode \<Rightarrow> column_id set" where
  "names_below n = (\<Union>m \<in> subnodes n. set (out_ids m) \<union> scan_names m)"

lemma names_below_unfold: "names_below n = set (out_ids n) \<union> scan_names n \<union> (\<Union>c \<in> set (child_nodes n). names_below c)"
  unfolding names_below_def by (subst subnodes_unfold) auto

fun defined_ids :: "bfnode \<Rightarrow> column_id set" where
  "defined_ids (AggregateNode c aggs ks os dn) = set (map snd aggs)"
| "defined_ids (ExplodeNode c cols off) = set_option off"
| "defined_ids n = set (added_ids n)"

text \<open>The expressions whose types are the fields of a node.\<close>

fun typed_exprs :: "bfnode \<Rightarrow> expr list" where
  "typed_exprs (ProjectionNode c asg) = map fst asg"
| "typed_exprs (AggregateNode c aggs ks os dn) = map fst aggs"
| "typed_exprs (WindowOpNode c ds w) = map cdef_expression ds"
| "typed_exprs n = []"

fun selects_each_once :: "bfnode \<Rightarrow> bool" where
  "selects_each_once (SelectionNode c pairs) = distinct (map (ref_id \<circ> fst) pairs)"
| "selects_each_once (ReadTableNode src items sess) = distinct (map source_id items)"
| "selects_each_once (CachedTableNode src items sess orig) = distinct (map source_id items)"
| "selects_each_once n = True"

fun result_ordered :: "bfnode \<Rightarrow> bool" where
  "result_ordered (ResultNode c outs ord k) = (\<forall>x \<in> set_option ord. wf_ordering x)"
| "result_ordered n = True"

definition pullable :: "bfnode \<Rightarrow> bool" where
  "pullable n \<longleftrightarrow> (\<forall>c \<in> set (child_nodes n). defined_ids n \<inter> names_below c = {}) \<and>
     list_all plain (typed_exprs n) \<and> selects_each_once n \<and> result_ordered n"

definition lifted :: "bfnode \<Rightarrow> bool" where
  "lifted n \<longleftrightarrow> scoped n \<and> typed n \<and> everywhere pullable n"

definition lifted_sim :: "engine \<Rightarrow> bfnode \<Rightarrow> bfnode \<Rightarrow> bool" where
  "lifted_sim E m n \<longleftrightarrow> same_plan E m n \<and> names_below m \<subseteq> names_below n"

subsection \<open>The fields read through a selection\<close>

lemma selection_mapping_pair:
  assumes "distinct (map snd pairs)" "(d, i) \<in> set pairs"
  shows "selection_mapping pairs i = Some (ref_id d)"
proof -
  have "(i, ref_id d) \<in> set (map (\<lambda>(ref, out). (out, ref_id ref)) pairs)" using assms(2) by force
  moreover have "distinct (map fst (map (\<lambda>(ref, out). (out, ref_id ref)) pairs))"
    using assms(1) by (simp add: case_prod_unfold comp_def)
  ultimately show ?thesis unfolding selection_mapping_def by (rule dict_of_distinct [rotated])
qed

lemma selection_mapping_inj:
  assumes "distinct (map snd pairs)" "distinct (map (ref_id \<circ> fst) pairs)"
  shows "inj_on (get_or_self (selection_mapping pairs)) (snd ` set pairs)"
proof (rule inj_onI)
  fix i j assume "i \<in> snd ` set pairs" "j \<in> snd ` set pairs"
    "get_or_self (selection_mapping pairs) i = get_or_self (selection_mapping pairs) j"
  then obtain d e where "(d, i) \<in> set pairs" "(e, j) \<in> set pairs" "ref_id d = ref_id e"
    using selection_mapping_pair [OF assms(1)] by fastforce
  then have "(d, i) = (e, j)"
    using inj_onD [of "ref_id \<circ> fst" "set pairs" "(d, i)" "(e, j)"] assms(2) by (simp add: distinct_map)
  then show "i = j" by simp
qed

lemma selected_fields:
  assumes "SelectionNode_fields (Inr fc) pairs = Inr fs" "distinct (map snd pairs)" "(d, i) \<in> set pairs"
  shows "\<exists>f. fields_by_id fc (ref_id d) = Some f \<and> fields_by_id fs i = Some (mk_field i (field_dtype f) (field_nullable f))"
proof -
  have all: "map (\<lambda>(ref, output). selected_field (fields_by_id fc) ref output) pairs = map Inr fs"
    using assms(1) by (simp add: SelectionNode_fields_def mapM_Inr_iff)
  have "selected_field (fields_by_id fc) d i \<in> set (map (\<lambda>(ref, output). selected_field (fields_by_id fc) ref output) pairs)"
    using assms(3) by force
  then obtain g where g: "selected_field (fields_by_id fc) d i = Inr g" "g \<in> set fs" unfolding all by auto
  then obtain f where f: "fields_by_id fc (ref_id d) = Some f" "g = mk_field i (field_dtype f) (field_nullable f)"
    by (auto simp: selected_field_def rbind_eq_Inr_iff)
  have "map field_id fs = map snd pairs" using selection_field_ids [OF assms(1)] .
  then have "fields_by_id fs (field_id g) = Some g" using assms(2) g(2) by (intro fields_by_id_member) simp_all
  with f show ?thesis by simp
qed

lemma selection_renames:
  assumes "SelectionNode_fields (Inr fc) pairs = Inr fs" "distinct (map snd pairs)"
  shows "renamed_fields (selection_mapping pairs) (snd ` set pairs) (fields_by_id fs) (fields_by_id fc)"
  unfolding renamed_fields_def
proof
  fix i assume "i \<in> snd ` set pairs"
  then obtain d where d: "(d, i) \<in> set pairs" by auto
  obtain f where "fields_by_id fc (ref_id d) = Some f" "fields_by_id fs i = Some (mk_field i (field_dtype f) (field_nullable f))"
    using selected_fields [OF assms d] by blast
  then show "rel_option like_field (fields_by_id fs i) (fields_by_id fc (get_or_self (selection_mapping pairs) i))"
    using selection_mapping_pair [OF assms(2) d] by (simp add: like_field_def)
qed


subsection \<open>Plans that keep their selection on top\<close>

lemma stands_for_base:
  assumes "scoped (SelectionNode c pairs)"
  shows "stands_for E c pairs (SelectionNode c pairs)"
proof -
  have "select_row pairs r i = pre (selection_mapping pairs) r i" if "(d, i) \<in> set pairs" for r d i
    using selection_mapping_pair [OF _ that] assms by (simp add: select_row_mapping pre_def)
  then show ?thesis using assms by (auto simp: stands_for_def list_all_iff agree_def intro!: rows_agreeI)
qed

lemma same_plan_lifted:
  assumes "same_plan E m n" "typed n"
  shows "\<exists>fs. node_fields m = Inr fs"
  using assms by (simp add: same_plan_def typed_iff [of n])

lemma selection_sound:
  assumes "stands_for E p sels n" "lifted n" "lifted p" "node_fields (SelectionNode p sels) = node_fields n"
    and "names_below p \<subseteq> names_below n" "distinct (map (ref_id \<circ> fst) sels)"
  shows "lifted (SelectionNode p sels) \<and> lifted_sim E (SelectionNode p sels) n"
proof -
  have p: "scoped p" "map snd sels = out_ids n" "\<forall>(d, i) \<in> set sels. ref_id d \<in> set (out_ids p)"
    using assms(1) by (auto simp: stands_for_def)
  have "scoped (SelectionNode p sels)"
    using p scoped_distinct [of n] assms(2) by (auto simp: lifted_def list_all_iff)
  moreover have "typed (SelectionNode p sels)"
    using assms(2-4) typed_iff [of n] typed_iff [of "SelectionNode p sels"] by (simp add: lifted_def)
  moreover have "everywhere pullable (SelectionNode p sels)"
    using assms(3,6) by (simp add: lifted_def pullable_def)
  moreover have "rows_agree (set (out_ids n)) (rows E (SelectionNode p sels)) (rows E n)"
    by (rule stands_for_under [OF assms(1)]) simp_all
  then have "same_output E (SelectionNode p sels) n"
    using p(2) by (simp add: same_output_iff del: rows.simps)
  moreover have "names_below (SelectionNode p sels) \<subseteq> names_below n"
    using assms(5) p(2) names_below_unfold [of n] by (auto simp: names_below_unfold [of "SelectionNode p sels"])
  ultimately show ?thesis using assms(4) by (simp add: lifted_def lifted_sim_def same_plan_def)
qed

lemma lifted_child: "lifted n \<Longrightarrow> c \<in> set (child_nodes n) \<Longrightarrow> lifted c"
  using scoped_children [of n c] typed_iff [of n] everywhere_child [of pullable n c] by (auto simp: lifted_def list_all_iff)

lemma liftedI:
  assumes "scoped p" "pullable p" "node_fields p = Inr fs" "\<And>c. c \<in> set (child_nodes p) \<Longrightarrow> lifted c"
  shows "lifted p"
  using assms typed_iff [of p] by (auto simp: lifted_def everywhere_iff [of pullable p] list_all_iff)


text \<open>What is used of a node over a selection.\<close>

lemma over_selection:
  assumes "lifted n" "child_nodes n = [SelectionNode c pairs]"
  shows "lifted c" "scoped (SelectionNode c pairs)" "distinct (map snd pairs)" "distinct (map (ref_id \<circ> fst) pairs)"
    "\<exists>fc fs. node_fields c = Inr fc \<and> node_fields (SelectionNode c pairs) = Inr fs \<and> SelectionNode_fields (Inr fc) pairs = Inr fs"
    "names_below n = set (out_ids n) \<union> scan_names n \<union> snd ` set pairs \<union> names_below c"
    "rows_agree (snd ` set pairs) (map (select_row pairs) (rows E c)) (map (pre (selection_mapping pairs)) (rows E c))"
    "\<And>i. i \<in> snd ` set pairs \<Longrightarrow> \<exists>j. selection_mapping pairs i = Some j \<and> j \<in> set (out_ids c)"
    "set (out_ids c) \<subseteq> names_below c"
proof -
  have sel: "lifted (SelectionNode c pairs)" using lifted_child [OF assms(1)] assms(2) by simp
  then show "lifted c" using lifted_child by fastforce
  show sc: "scoped (SelectionNode c pairs)" using sel by (simp add: lifted_def)
  then show dist: "distinct (map snd pairs)" by simp
  show "distinct (map (ref_id \<circ> fst) pairs)" using sel by (simp add: lifted_def pullable_def)
  show "\<exists>fc fs. node_fields c = Inr fc \<and> node_fields (SelectionNode c pairs) = Inr fs \<and> SelectionNode_fields (Inr fc) pairs = Inr fs"
    using sel typed_iff [of "SelectionNode c pairs"] typed_iff [of c] by (auto simp: lifted_def)
  show "names_below n = set (out_ids n) \<union> scan_names n \<union> snd ` set pairs \<union> names_below c"
    using assms(2) by (simp add: names_below_unfold [of n] names_below_unfold [of "SelectionNode c pairs"] Un_assoc)
  show "rows_agree (snd ` set pairs) (map (select_row pairs) (rows E c)) (map (pre (selection_mapping pairs)) (rows E c))"
    using stands_for_base [OF sc, of E] by (simp add: stands_for_def)
  show "\<exists>j. selection_mapping pairs i = Some j \<and> j \<in> set (out_ids c)" if "i \<in> snd ` set pairs" for i
    using selection_mapping_pair [OF dist] sc that by (fastforce simp: list_all_iff)
  show "set (out_ids c) \<subseteq> names_below c" by (subst names_below_unfold) auto
qed

subsection \<open>Nodes that keep the columns\<close>

lemma kept_sound:
  assumes "lifted n" "child_nodes n = [SelectionNode c pairs]" "out_ids n = map snd pairs"
    and "node_fields n = node_fields (SelectionNode c pairs)"
    and "child_nodes p = [c]" "out_ids p = out_ids c" "node_fields p = node_fields c" "scoped p" "pullable p" "scan_names p = {}"
    and "rows_agree (snd ` set pairs) (rows E n) (map (pre (selection_mapping pairs)) (rows E p))"
  shows "lifted (SelectionNode p pairs) \<and> lifted_sim E (SelectionNode p pairs) n"
proof (rule selection_sound)
  note n = over_selection [OF assms(1,2)]
  show "stands_for E p pairs n"
    using n(2) assms(3,6,8,11) by (auto simp: stands_for_def list_all_iff)
  obtain fc where "node_fields c = Inr fc" using n(5) by blast
  then show "lifted p" using n(1) assms(5,7-9) liftedI [of p fc] by simp
  show "node_fields (SelectionNode p pairs) = node_fields n" using assms(4,7) by simp
  show "names_below p \<subseteq> names_below n"
    using assms(5,6,10) n(6,9) by (auto simp: names_below_unfold [of p])
qed (use over_selection(4) [OF assms(1,2)] assms(1) in simp_all)

lemma mapping_dom: "i \<in> snd ` set pairs \<Longrightarrow> selection_mapping pairs i \<noteq> None"
  using selection_mapping_Some by fastforce

lemma parts_refs_rename: "parts_refs (map (rename_part m) ps) = get_or_self m ` parts_refs ps"
  by (auto simp: parts_refs_def referenced_columns_def refs_rename)

lemma remap_order:
  assumes "parts_refs by \<subseteq> snd ` set pairs"
  shows "OrderByNode_remap_refs (selection_mapping pairs) c by tot =
    Inr (OrderByNode c (map (rename_part (selection_mapping pairs)) by) tot)"
proof -
  let ?m = "selection_mapping pairs" and ?refs = "\<Union> (set (map referenced_columns by))"
  have part: "ordering_bind_refs (\<lambda>i. if i \<in> ?refs then deref_bindings ?m i else None) True p = Inr (rename_part ?m p)"
    if "p \<in> set by" for p
  proof -
    have "subst_expr (bound_to (\<lambda>i. if i \<in> ?refs then deref_bindings ?m i else None)) (scalar_expression p) =
        rename_expr ?m (scalar_expression p)"
      using that by (intro subst_expr_cong) (auto simp: referenced_columns_def bound_to_def)
    then show ?thesis by (cases p) (simp add: ordering_bind_refs_def bind_refs_subst all_bound_def)
  qed
  have "\<not> (\<exists>i \<in> ?refs. ?m i = None)"
    using assms mapping_dom [of _ pairs] unfolding parts_refs_def by blast
  moreover have "mapM (ordering_bind_refs (\<lambda>i. if i \<in> ?refs then deref_bindings ?m i else None) True) by =
      Inr (map (rename_part ?m) by)"
    using part by (intro mapM_InrI) blast
  ultimately show ?thesis by (simp only: OrderByNode_remap_refs_def Let_def if_False rbind_Inr)
qed


lemma keeps_columns_sound:
  assumes "lifted n" "child_nodes n = [SelectionNode c pairs]"
    and "case n of ReversedNode _ _ \<Rightarrow> True | OrderByNode _ _ _ \<Rightarrow> True | SliceNode _ _ _ _ \<Rightarrow> True | FilterNode _ _ \<Rightarrow> True
      | RandomSampleNode _ _ \<Rightarrow> True | _ \<Rightarrow> False"
  shows "\<exists>p. pushed_down n c pairs = Inr p \<and> lifted (SelectionNode p pairs) \<and> lifted_sim E (SelectionNode p pairs) n"
proof -
  let ?m = "selection_mapping pairs"
  note n = over_selection [OF assms(1,2)]
  have scoped: "scoped c" "scoped n" using n(1) assms(1) by (simp_all add: lifted_def)
  note rows = n(7) [of E] and sound = kept_sound [OF assms(1,2)]
  have refs: "get_or_self ?m ` S \<subseteq> set (out_ids c)" if "S \<subseteq> snd ` set pairs" for S
    using n(8) that by fastforce
  show ?thesis
  proof (cases n)
    case (ReversedNode d rv)
    have "lifted (SelectionNode (ReversedNode c rv) pairs) \<and> lifted_sim E (SelectionNode (ReversedNode c rv) pairs) n"
      by (rule sound) (use ReversedNode assms(2) scoped rows in \<open>simp_all add: pullable_def rev_agree flip: rev_map\<close>)
    then show ?thesis using ReversedNode by (simp add: pushed_down_def replace_child_def)
  next
    case (SliceNode d a b s)
    have "lifted (SelectionNode (SliceNode c a b s) pairs) \<and> lifted_sim E (SelectionNode (SliceNode c a b s) pairs) n"
      by (rule sound) (use SliceNode assms(2) scoped rows in \<open>simp_all add: pullable_def slice_agree flip: py_slice_map\<close>)
    then show ?thesis using SliceNode by (simp add: pushed_down_def replace_child_def)
  next
    case (RandomSampleNode d fr)
    have "lifted (SelectionNode (RandomSampleNode c fr) pairs) \<and> lifted_sim E (SelectionNode (RandomSampleNode c fr) pairs) n"
      by (rule sound) (use RandomSampleNode assms(2) scoped rows in \<open>simp_all add: pullable_def sample_agree flip: sample_map\<close>)
    then show ?thesis using RandomSampleNode by (simp add: pushed_down_def replace_child_def)
  next
    case (FilterNode d q)
    have q: "set (column_references q) \<subseteq> snd ` set pairs" using FilterNode assms(2) scoped(2) by simp
    have "lifted (SelectionNode (FilterNode c (rename_expr ?m q)) pairs) \<and> lifted_sim E (SelectionNode (FilterNode c (rename_expr ?m q)) pairs) n"
      by (rule sound) (use FilterNode assms(2) scoped rows q refs [OF q] in \<open>simp_all add: pullable_def filter_agree refs_rename flip: filter_pre\<close>)
    then show ?thesis using FilterNode by (simp add: pushed_down_def FilterNode_remap_refs_def replace_child_def)
  next
    case (OrderByNode d ps tot)
    have q: "parts_refs ps \<subseteq> snd ` set pairs" using OrderByNode assms(2) scoped(2) by simp
    have "lifted (SelectionNode (OrderByNode c (map (rename_part ?m) ps) tot) pairs) \<and>
        lifted_sim E (SelectionNode (OrderByNode c (map (rename_part ?m) ps) tot) pairs) n"
      by (rule sound) (use OrderByNode assms(2) scoped rows q refs [OF q] in \<open>simp_all add: pullable_def sort_agree parts_refs_rename flip: sort_pre\<close>)
    then show ?thesis using OrderByNode by (simp add: pushed_down_def remap_order [OF q] replace_child_def)
  qed (use assms(3) in simp_all)
qed

subsection \<open>A selection or a result over a selection\<close>

lemma over_selection_sound:
  assumes "lifted (SelectionNode (SelectionNode c pairs) outer)"
  shows "\<exists>m. pushed_down (SelectionNode (SelectionNode c pairs) outer) c pairs = Inr m \<and> lifted m \<and>
    lifted_sim E m (SelectionNode (SelectionNode c pairs) outer)"
proof -
  let ?m = "selection_mapping pairs" and ?n = "SelectionNode (SelectionNode c pairs) outer"
  let ?sels = "map (AliasedRef_remap_refs ?m) outer"
  have kids: "child_nodes ?n = [SelectionNode c pairs]" by simp
  note n = over_selection [OF assms kids]
  have sc: "scoped ?n" and once: "distinct (map (ref_id \<circ> fst) outer)" using assms by (simp_all add: lifted_def pullable_def)
  have refs: "ref_id d \<in> snd ` set pairs" if "(d, i) \<in> set outer" for d i using sc that by (auto simp: list_all_iff)
  have "lifted (SelectionNode c ?sels) \<and> lifted_sim E (SelectionNode c ?sels) ?n"
  proof (rule selection_sound)
    show "stands_for E c ?sels ?n" by (rule stands_for_selection [OF stands_for_base [OF n(2)] sc])
    show "names_below c \<subseteq> names_below ?n" using n(6) by auto
    have "inj_on (get_or_self ?m) (ref_id ` fst ` set outer)"
      using refs by (intro inj_on_subset [OF selection_mapping_inj [OF n(3,4)]]) auto
    with once show "distinct (map (ref_id \<circ> fst) ?sels)"
      by (auto simp: distinct_map AliasedRef_remap_refs_def image_image image_comp inj_on_def)
    obtain fc fs where f: "node_fields c = Inr fc" "node_fields (SelectionNode c pairs) = Inr fs" "SelectionNode_fields (Inr fc) pairs = Inr fs"
      using n(5) by blast
    have "selected_field (fields_by_id fc) (fst (AliasedRef_remap_refs ?m p)) (snd p) = selected_field (fields_by_id fs) (fst p) (snd p)"
      if "p \<in> set outer" for p
    proof -
      have "ref_id (fst p) \<in> snd ` set pairs" using refs [of "fst p" "snd p"] that by simp
      then obtain d where d: "(d, ref_id (fst p)) \<in> set pairs" by auto
      then have "get_or_self ?m (ref_id (fst p)) = ref_id d" using selection_mapping_pair [OF n(3)] by simp
      moreover obtain f where "fields_by_id fc (ref_id d) = Some f"
          "fields_by_id fs (ref_id (fst p)) = Some (mk_field (ref_id (fst p)) (field_dtype f) (field_nullable f))"
        using selected_fields [OF f(3) n(3) d] by blast
      ultimately show ?thesis by (simp add: selected_field_def AliasedRef_remap_refs_def lookup_or_def)
    qed
    then show "node_fields (SelectionNode c ?sels) = node_fields ?n"
      using f by (simp add: SelectionNode_fields_def mapM_comp case_prod_unfold AliasedRef_remap_refs_def cong: mapM_cong)
  qed (use assms n(1) in simp_all)
  then show ?thesis by (simp add: pushed_down_def SelectionNode_remap_refs_def replace_child_def)
qed


lemma remap_ordering:
  assumes "wf_ordering ord" "parts_refs (ordering_value_columns ord) \<subseteq> dom m"
  shows "\<exists>ord'. ordering_remap_refs m False ord = Inr ord' \<and> wf_ordering ord' \<and>
    ordering_value_columns ord' = map (rename_part m) (ordering_value_columns ord)"
proof -
  have parts: "mapM (ordering_remap m b) (ordering_value_columns ord) = Inr (map (rename_part m) (ordering_value_columns ord))" for b
    using assms(2) by (intro mapM_InrI ordering_remap_part) (auto simp: parts_refs_def)
  obtain ord' where ord': "ordering_remap_refs m True ord = Inr ord'" "wf_ordering ord'"
    using ordering_remap_wf [OF assms(1)] by blast
  moreover have "ordering_remap_refs m False ord = ordering_remap_refs m True ord"
    using parts [of True] parts [of False] by (cases ord) simp_all
  moreover have "ordering_value_columns ord' = map (rename_part m) (ordering_value_columns ord)"
    using ord'(1) parts [of True] by (cases ord) (auto simp: mk_total_def rbind_eq_Inr_iff split: if_splits)
  ultimately show ?thesis by auto
qed

lemma result_pre:
  assumes "\<And>x. ord = Some x \<Longrightarrow> \<exists>x'. ord' = Some x' \<and> ordering_value_columns x' = map (rename_part m) (ordering_value_columns x)"
    and "ord = None \<Longrightarrow> ord' = None"
  shows "result_rows E outs ord k (map (pre m) rs) = result_rows E (map (\<lambda>(d, nm). (rename_deref m d, nm)) outs) ord' k rs"
proof -
  let ?outs = "map (\<lambda>(d, nm). (d, ColumnId nm))"
  have "dict_of (map (\<lambda>(d, j). (j, d)) (?outs (map (\<lambda>(d, nm). (rename_deref m d, nm)) outs))) i =
      map_option (rename_deref m) (dict_of (map (\<lambda>(d, j). (j, d)) (?outs outs)) i)" for i
    using dict_of_rename [of "\<lambda>p. ColumnId (snd p)" "rename_deref m" fst outs i] by (simp add: comp_def case_prod_unfold)
  then have "select_row (?outs (map (\<lambda>(d, nm). (rename_deref m d, nm)) outs)) r = select_row (?outs outs) (pre m r)" for r
    by (intro ext) (simp add: select_row_def pre_def del: map_map split: option.split)
  then have select: "map (select_row (?outs outs)) (map (pre m) xs) = map (select_row (?outs (map (\<lambda>(d, nm). (rename_deref m d, nm)) outs))) xs" for xs
    by simp
  show ?thesis
    using assms by (cases ord; cases k) (auto simp: result_rows_def sort_pre take_map select simp del: map_map)
qed

lemma result_sound:
  assumes "lifted (ResultNode (SelectionNode c pairs) outs ord k)"
  shows "\<exists>m. pushed_down (ResultNode (SelectionNode c pairs) outs ord k) c pairs = Inr m \<and> lifted m \<and>
    lifted_sim E m (ResultNode (SelectionNode c pairs) outs ord k)"
proof -
  let ?m = "selection_mapping pairs" and ?n = "ResultNode (SelectionNode c pairs) outs ord k"
  let ?outs = "map (\<lambda>(d, nm). (rename_deref ?m d, nm)) outs"
  have kids: "child_nodes ?n = [SelectionNode c pairs]" by simp
  note n = over_selection [OF assms kids]
  have sc: "scoped ?n" and wf: "\<forall>x \<in> set_option ord. wf_ordering x" using assms by (simp_all add: lifted_def pullable_def)
  have refs: "ref_id d \<in> snd ` set pairs" if "(d, i) \<in> set outs" for d i using sc that by (auto simp: list_all_iff)
  have dom: "snd ` set pairs \<subseteq> dom ?m" using mapping_dom by fastforce
  have outs: "mapM (\<lambda>(d, nm). rbind (deref_remap ?m False d) (\<lambda>d'. Inr (d', nm))) outs = Inr ?outs"
    using refs dom by (intro mapM_InrI) (auto simp: deref_remap_strict subset_iff)
  obtain ord' where ord': "(case ord of None \<Rightarrow> Inr None
      | Some x \<Rightarrow> rbind (ordering_remap_refs ?m False x) (\<lambda>x'. Inr (Some x'))) = Inr ord'"
    "\<And>x. ord = Some x \<Longrightarrow> \<exists>x'. ord' = Some x' \<and> ordering_value_columns x' = map (rename_part ?m) (ordering_value_columns x)"
    "ord = None \<Longrightarrow> ord' = None" "\<forall>x \<in> set_option ord'. wf_ordering x"
  proof (cases ord)
    case None
    show thesis by (rule that [of None]) (simp_all add: None)
  next
    case (Some x)
    then have "parts_refs (ordering_value_columns x) \<subseteq> dom ?m" using sc by (intro subset_trans [OF _ dom]) simp
    then obtain x' where x': "ordering_remap_refs ?m False x = Inr x'" "wf_ordering x'"
        "ordering_value_columns x' = map (rename_part ?m) (ordering_value_columns x)"
      using remap_ordering [of x ?m] wf Some by auto
    show thesis by (rule that [of "Some x'"]) (use Some x' in simp_all)
  qed
  let ?p = "ResultNode c ?outs ord' k"
  have pushed: "pushed_down ?n c pairs = Inr ?p"
    by (simp add: pushed_down_def ResultNode_remap_refs_def outs ord'(1) replace_child_def)
  obtain fc fs where f: "node_fields c = Inr fc" "node_fields (SelectionNode c pairs) = Inr fs" "SelectionNode_fields (Inr fc) pairs = Inr fs"
    using n(5) by blast
  have same_fields: "node_fields ?p = node_fields ?n"
  proof -
    have "selected_field (fields_by_id fc) (rename_deref ?m d) i = selected_field (fields_by_id fs) d i"
      if "(d, nm) \<in> set outs" for d nm i
    proof -
      have "ref_id d \<in> snd ` set pairs" by (rule refs [OF that])
      then obtain e where e: "(e, ref_id d) \<in> set pairs" by auto
      moreover obtain g where "fields_by_id fc (ref_id e) = Some g"
          "fields_by_id fs (ref_id d) = Some (mk_field (ref_id d) (field_dtype g) (field_nullable g))"
        using selected_fields [OF f(3) n(3) e] by blast
      ultimately show ?thesis
        using selection_mapping_pair [OF n(3) e] by (simp add: selected_field_def lookup_or_def)
    qed
    then show ?thesis
      using f by (auto simp: ResultNode_fields_def mapM_comp case_prod_unfold intro!: mapM_cong)
  qed
  have orders: "parts_refs (ordering_value_columns x') \<subseteq> set (out_ids c)" if "ord' = Some x'" for x'
  proof -
    obtain x where "ord = Some x" "ordering_value_columns x' = map (rename_part ?m) (ordering_value_columns x)"
      using ord'(2,3) \<open>ord' = Some x'\<close> by (cases ord) auto
    then show ?thesis using sc n(8) by (fastforce simp: parts_refs_rename)
  qed
  have "scoped ?p"
    using n(1) sc refs n(8) orders by (fastforce simp: lifted_def list_all_iff comp_def case_prod_unfold)
  moreover obtain rf where "node_fields ?n = Inr rf" using assms typed_iff [of ?n] by (auto simp: lifted_def)
  moreover have "pullable ?p" using ord'(4) by (simp add: pullable_def)
  ultimately have "lifted ?p" using n(1) same_fields by (intro liftedI [of ?p rf]) simp_all
  moreover have "rows E ?p = rows E ?n"
  proof -
    have "rows E ?n = result_rows E outs ord k (map (pre ?m) (rows E c))"
      using sc by (simp, intro result_agree [OF n(7)]) (auto simp: list_all_iff)
    then show ?thesis using result_pre [of ord ord' ?m E outs k "rows E c"] ord'(2,3) by simp
  qed
  then have "same_output E ?p ?n" by (simp add: same_output_iff comp_def case_prod_unfold)
  moreover have "names_below ?p \<subseteq> names_below ?n"
    by (auto simp: n(6) names_below_unfold [of ?p])
  ultimately show ?thesis using pushed same_fields by (simp add: lifted_sim_def same_plan_def)
qed

end
