(* ===== verification/Selection_Soundness.thy ===== *)
theory Selection_Soundness
  imports Rewrite_Selections
begin

text \<open>
  Pulling selections up over aggregations, explosions, additive nodes and out of table scans, and the
  rewrite of whole plans: it always returns, keeps the plan and leaves no node of one child but a
  common table expression over a selection.
\<close>

subsection \<open>An aggregation over a selection\<close>

abbreviation rename_pairs :: "id_mapping \<Rightarrow> (expr \<times> column_id) list \<Rightarrow> (expr \<times> column_id) list" where
  "rename_pairs m \<equiv> map (\<lambda>(e, i). (rename_expr m e, i))"

lemma eval_agg_pre: "eval_agg E (map (pre m) rs) e = eval_agg E rs (rename_expr m e)"
  by (auto simp: eval_agg_def agg_parts_rename eval_rename comp_def split: option.split)

lemma dict_of_inj_key:
  "inj_on v S \<Longrightarrow> fst ` set items \<subseteq> S \<Longrightarrow> i \<in> S \<Longrightarrow> dict_of (map (\<lambda>(k, x). (v k, x)) items) (v i) = dict_of items i"
proof (induction items)
  case (Cons x items)
  then have "v (fst x) = v i \<longleftrightarrow> fst x = i" by (intro inj_on_eq_iff) auto
  with Cons show ?case by (cases x) (auto simp: dict_of_Cons split: option.split)
qed simp

lemma agg_row_pre:
  assumes "inj_on (get_or_self m) (set ks \<union> snd ` set aggs)" "\<And>i. i \<in> snd ` set aggs \<Longrightarrow> m i = None" "i \<in> set ks \<union> snd ` set aggs"
  shows "agg_row E aggs ks key (map (pre m) grp) i = agg_row E (rename_pairs m aggs) (map (get_or_self m) ks) key grp (get_or_self m i)"
proof -
  let ?items = "zip ks key @ map (\<lambda>(e, j). (j, eval_agg E (map (pre m) grp) e)) aggs"
  have "get_or_self m j = j" if "(e, j) \<in> set aggs" for e j
    using assms(2) [of j] that by force
  then have "map (\<lambda>(k, x). (get_or_self m k, x)) ?items =
      zip (map (get_or_self m) ks) key @ map (\<lambda>(e, j). (j, eval_agg E grp e)) (rename_pairs m aggs)"
    by (auto simp: zip_map1 eval_agg_pre)
  moreover have "dict_of (map (\<lambda>(k, x). (get_or_self m k, x)) ?items) (get_or_self m i) = dict_of ?items i"
    using assms(1,3) by (intro dict_of_inj_key [of _ "set ks \<union> snd ` set aggs"]) (force dest: set_zip_leftD)+
  ultimately show ?thesis by (simp only: agg_row_def)
qed

lemma aggregate_pre:
  assumes "inj_on (get_or_self m) (set ks \<union> snd ` set aggs)" "\<And>i. i \<in> snd ` set aggs \<Longrightarrow> m i = None"
    and "\<And>i. i \<in> set ks \<union> snd ` set aggs \<Longrightarrow> get_or_self m' i = get_or_self m i"
  shows "rows_agree (set ks \<union> snd ` set aggs) (aggregate_rows E aggs ks os dn (map (pre m) rs))
    (map (pre m') (aggregate_rows E (rename_pairs m aggs) (map (get_or_self m) ks) (map (rename_part m) os) dn rs))"
proof -
  let ?ks = "map (get_or_self m) ks"
  define kept where "kept = (if dn \<and> ks \<noteq> [] then filter (\<lambda>r. \<forall>k \<in> set ?ks. r k \<noteq> NULL) rs else rs)"
  define sorted where "sorted = (if os \<noteq> [] then sort_rows E (map (rename_part m) os) kept else kept)"
  have kept: "(if dn \<and> ks \<noteq> [] then filter (\<lambda>r. \<forall>k \<in> set ks. r k \<noteq> NULL) (map (pre m) rs) else map (pre m) rs) = map (pre m) kept"
    by (simp add: kept_def filter_map comp_def pre_def)
  have sorted: "(if os \<noteq> [] then sort_rows E os (map (pre m) kept) else map (pre m) kept) = map (pre m) sorted"
    by (simp add: sorted_def sort_pre)
  have keys: "map (pre m r) ks = map r ?ks" for r by (simp add: pre_def)
  have groups: "filter (\<lambda>r. map r ks = key) (map (pre m) sorted) = map (pre m) (filter (\<lambda>r. map r ?ks = key) sorted)" for key
    by (simp add: filter_map comp_def pre_def)
  have row: "agree (set ks \<union> snd ` set aggs) (agg_row E aggs ks key (map (pre m) grp))
      (pre m' (agg_row E (rename_pairs m aggs) ?ks key grp))" for key grp
    using agg_row_pre [OF assms(1,2)] assms(3) by (simp add: agree_def pre_def)
  have left: "aggregate_rows E aggs ks os dn (map (pre m) rs) =
      (if ks = [] then [agg_row E aggs [] [] (map (pre m) sorted)]
       else map (\<lambda>key. agg_row E aggs ks key (map (pre m) (filter (\<lambda>r. map r ?ks = key) sorted)))
         (stable_sort (key_compare E) (first_occurrences (map (\<lambda>r. map r ?ks) sorted))))"
    unfolding aggregate_rows_def Let_def kept sorted groups by (simp add: comp_def keys)
  have right: "aggregate_rows E (rename_pairs m aggs) ?ks (map (rename_part m) os) dn rs =
      (if ks = [] then [agg_row E (rename_pairs m aggs) [] [] sorted]
       else map (\<lambda>key. agg_row E (rename_pairs m aggs) ?ks key (filter (\<lambda>r. map r ?ks = key) sorted))
         (stable_sort (key_compare E) (first_occurrences (map (\<lambda>r. map r ?ks) sorted))))"
    by (simp add: aggregate_rows_def Let_def kept_def sorted_def)
  show ?thesis
    unfolding left right using row [of "[]"] row
    by (auto simp: rows_agree_def list_all2_conv_all_nth)
qed


lemma reselected:
  assumes "list_all2 like_field fp fn" "map (ref_id \<circ> fst) sels = map field_id fp" "map snd sels = map field_id fn"
    and "distinct (map field_id fp)"
  shows "SelectionNode_fields (Inr fp) sels = Inr fn"
proof -
  have "map (\<lambda>(ref, output). selected_field (fields_by_id fp) ref output) sels = map Inr fn"
  proof (rule nth_equalityI)
    show len: "length (map (\<lambda>(ref, output). selected_field (fields_by_id fp) ref output) sels) = length (map Inr fn)"
      using arg_cong [OF assms(3), of length] by simp
    fix k assume "k < length (map (\<lambda>(ref, output). selected_field (fields_by_id fp) ref output) sels)"
    then have k: "k < length sels" "k < length fn" "k < length fp"
      using len list_all2_lengthD [OF assms(1)] by simp_all
    have ids: "ref_id (fst (sels ! k)) = field_id (fp ! k)" "snd (sels ! k) = field_id (fn ! k)"
      using arg_cong [OF assms(2), of "\<lambda>xs. xs ! k"] arg_cong [OF assms(3), of "\<lambda>xs. xs ! k"] k by simp_all
    have "fields_by_id fp (field_id (fp ! k)) = Some (fp ! k)" by (rule fields_by_id_member [OF assms(4)]) (use k in simp)
    then show "map (\<lambda>(ref, output). selected_field (fields_by_id fp) ref output) sels ! k = map Inr fn ! k"
      using k ids list_all2_nthD [OF assms(1) k(3)]
      by (cases "fn ! k") (simp add: case_prod_unfold selected_field_def lookup_or_def like_field_def mk_field_def)
  qed
  then show ?thesis by (simp add: SelectionNode_fields_def mapM_Inr_iff)
qed

lemma grouped_fields_rename:
  assumes "renamed_fields m (ref_id ` set ks) mn mp"
    and "mapM (\<lambda>ref. rbind (lookup_or KeyError mn (ref_id ref)) (\<lambda>f. Inr (if dn then with_nonnull f else f))) ks = Inr by_n"
  shows "\<exists>by_p. mapM (\<lambda>ref. rbind (lookup_or KeyError mp (ref_id ref)) (\<lambda>f. Inr (if dn then with_nonnull f else f)))
      (map (rename_deref m) ks) = Inr by_p \<and> list_all2 like_field by_p by_n"
  using assms
proof (induction ks arbitrary: by_n)
  case (Cons k ks)
  from Cons.prems(2) obtain f gs where f: "mn (ref_id k) = Some f" "by_n = (if dn then with_nonnull f else f) # gs"
    "mapM (\<lambda>ref. rbind (lookup_or KeyError mn (ref_id ref)) (\<lambda>f. Inr (if dn then with_nonnull f else f))) ks = Inr gs"
    by (auto simp: rbind_eq_Inr_iff lookup_or_def split: option.splits)
  obtain g where g: "mp (get_or_self m (ref_id k)) = Some g" "like_field f g"
    using Cons.prems(1) f(1) by (auto simp: renamed_fields_def option_rel_Some1)
  obtain by_p where "mapM (\<lambda>ref. rbind (lookup_or KeyError mp (ref_id ref)) (\<lambda>f. Inr (if dn then with_nonnull f else f)))
      (map (rename_deref m) ks) = Inr by_p" "list_all2 like_field by_p gs"
    using Cons.IH [OF _ f(3)] Cons.prems(1) by (auto simp: renamed_fields_def)
  with g f(2) show ?case by (auto simp: lookup_or_def like_field_def [abs_def] with_nonnull_def)
qed simp

lemma aggregate_sound:
  assumes "lifted (AggregateNode (SelectionNode c pairs) aggs ks os dn)"
  shows "\<exists>m. pull_over_aggregate (AggregateNode (SelectionNode c pairs) aggs ks os dn) c pairs = Inr m \<and> lifted m \<and>
    lifted_sim E m (AggregateNode (SelectionNode c pairs) aggs ks os dn)"
proof -
  let ?m = "selection_mapping pairs" and ?n = "AggregateNode (SelectionNode c pairs) aggs ks os dn"
  let ?p = "AggregateNode c (rename_pairs ?m aggs) (map (rename_deref ?m) ks) (map (rename_part ?m) os) dn"
  let ?sels = "map (\<lambda>i. AliasedRef_remap_refs ?m (AliasedRef_identity i)) (out_ids ?n)"
  have kids: "child_nodes ?n = [SelectionNode c pairs]" by simp
  note n = over_selection [OF assms kids]
  have sc: "scoped ?n" and own: "snd ` set aggs \<inter> names_below (SelectionNode c pairs) = {}" and plain: "list_all plain (map fst aggs)"
    using assms by (simp_all add: lifted_def pullable_def)
  have dom: "snd ` set pairs \<subseteq> dom ?m" using mapping_dom by fastforce
  have new: "i \<notin> names_below c \<and> i \<notin> snd ` set pairs \<and> ?m i = None" if "i \<in> snd ` set aggs" for i
  proof -
    have "i \<notin> snd ` set pairs \<union> names_below c" using own that by (auto simp: names_below_unfold [of "SelectionNode c pairs"])
    then show ?thesis using dict_key_iff [of snd "\<lambda>x. ref_id (fst x)" pairs i] by (simp add: selection_mapping_def case_prod_unfold)
  qed
  have mapped: "ref_id k \<in> snd ` set pairs" if "k \<in> set ks" for k using sc that by auto
  have key: "get_or_self ?m (ref_id k) \<in> set (out_ids c)" if "k \<in> set ks" for k using n(8) mapped that by fastforce
  have inj: "inj_on (get_or_self ?m) (set (map ref_id ks) \<union> snd ` set aggs)"
  proof (rule inj_onI)
    fix i j assume ij: "i \<in> set (map ref_id ks) \<union> snd ` set aggs" "j \<in> set (map ref_id ks) \<union> snd ` set aggs"
      "get_or_self ?m i = get_or_self ?m j"
    have "i \<in> snd ` set pairs \<or> i \<in> snd ` set aggs" "j \<in> snd ` set pairs \<or> j \<in> snd ` set aggs"
      using ij(1,2) mapped by auto
    then consider "i \<in> snd ` set pairs" "j \<in> snd ` set pairs" | "i \<in> snd ` set aggs" "j \<in> snd ` set aggs"
      | "i \<in> snd ` set pairs" "j \<in> snd ` set aggs" | "i \<in> snd ` set aggs" "j \<in> snd ` set pairs"
      by blast
    then show "i = j"
    proof cases
      case 1
      then show ?thesis using ij(3) inj_onD [OF selection_mapping_inj [OF n(3,4)]] by blast
    next
      case 3
      then have "get_or_self ?m i \<in> names_below c" "get_or_self ?m j = j" using n(8,9) new by fastforce+
      then show ?thesis using new 3 ij(3) by simp
    next
      case 4
      then have "get_or_self ?m j \<in> names_below c" "get_or_self ?m i = i" using n(8,9) new by fastforce+
      then show ?thesis using new 4 ij(3) by simp
    qed (use new ij(3) in simp)
  qed
  have out: "out_ids ?p = map (get_or_self ?m) (out_ids ?n)"
    using new by (auto simp: case_prod_unfold comp_def)
  have dist: "distinct (out_ids ?p)"
    unfolding out distinct_map using inj by (intro conjI scoped_distinct [OF sc]) simp
  have refs: "get_or_self ?m ` S \<subseteq> set (out_ids c)" if "S \<subseteq> snd ` set pairs" for S
    using n(8) that by fastforce
  have args: "set (column_references e) \<subseteq> snd ` set pairs" if "(e, i) \<in> set aggs" for e i
    using sc that by (auto simp: list_all_iff)
  have "get_or_self ?m x \<in> set (out_ids c)" if "(e, i) \<in> set aggs" "x \<in> set (column_references e)" for e i x
    using refs [OF args [OF that(1)]] that(2) by blast
  then have scoped: "scoped ?p"
    using n(1) sc dist refs key by (auto simp: lifted_def list_all_iff parts_refs_rename refs_rename)
  obtain fc fs where f: "node_fields c = Inr fc" "node_fields (SelectionNode c pairs) = Inr fs" "SelectionNode_fields (Inr fc) pairs = Inr fs"
    using n(5) by blast
  obtain fn where fn: "node_fields ?n = Inr fn" using assms typed_iff [of ?n] by (auto simp: lifted_def)
  then obtain by_n agg_n where parts: "fn = by_n @ agg_n"
    "mapM (\<lambda>ref. rbind (lookup_or KeyError (fields_by_id fs) (ref_id ref)) (\<lambda>f. Inr (if dn then with_nonnull f else f))) ks = Inr by_n"
    "mapM (\<lambda>(agg, i). aggregated_field (fields_by_id fs) agg i) aggs = Inr agg_n"
    using f(2) by (auto simp: AggregateNode_fields_def rbind_eq_Inr_iff simp del: fields_simps(13))
  have renamed: "renamed_fields ?m S (fields_by_id fs) (fields_by_id fc)" if "S \<subseteq> snd ` set pairs" for S
    using selection_renames [OF f(3) n(3)] that by (auto simp: renamed_fields_def)
  obtain by_p where by_p: "mapM (\<lambda>ref. rbind (lookup_or KeyError (fields_by_id fc) (ref_id ref)) (\<lambda>f. Inr (if dn then with_nonnull f else f)))
      (map (rename_deref ?m) ks) = Inr by_p" "list_all2 like_field by_p by_n"
    using grouped_fields_rename [OF renamed parts(2)] mapped by blast
  have agg: "aggregated_field (fields_by_id fc) (rename_expr ?m e) i = aggregated_field (fields_by_id fs) e i"
    if "(e, i) \<in> set aggs" for e i
  proof -
    have "aggregated_field (fields_by_id fs) e i \<in> set (map (\<lambda>(agg, i). aggregated_field (fields_by_id fs) agg i) aggs)"
      using that by force
    then obtain f where "aggregated_field (fields_by_id fs) e i = Inr f"
      unfolding parts(3) [unfolded mapM_Inr_iff] by auto
    moreover have "plain e" using plain that by (force simp: list_all_iff)
    ultimately show ?thesis using aggregated_rename [OF _ renamed [OF args [OF that]]] by metis
  qed
  have "mapM (\<lambda>(agg, i). aggregated_field (fields_by_id fc) agg i) (rename_pairs ?m aggs) = Inr agg_n"
    unfolding mapM_comp parts(3) [symmetric] by (intro mapM_cong refl) (auto simp: agg)
  with by_p(1) f(1) have fp: "node_fields ?p = Inr (by_p @ agg_n)"
    by (simp add: AggregateNode_fields_def case_prod_unfold del: map_map)
  have names: "map field_id (by_p @ agg_n) = out_ids ?p" "map field_id fn = out_ids ?n"
    using fields_out_ids [OF fp] fields_out_ids [OF fn] by blast+
  have "list_all2 like_field (by_p @ agg_n) fn"
    unfolding parts(1) using by_p(2) by (intro list_all2_appendI) (simp_all add: list_all2_same like_field_def)
  then have fields: "node_fields (SelectionNode ?p ?sels) = node_fields ?n"
    unfolding fields_simps(13) fp fn using names dist out
    by (intro reselected) (simp_all add: AliasedRef_remap_refs_def AliasedRef_identity_def comp_def del: out_ids.simps)
  have mapping: "selection_mapping ?sels i = Some (get_or_self ?m i)" if "i \<in> set (out_ids ?n)" for i
    using that dict_of_map_identity [of "get_or_self ?m" "out_ids ?n" i]
    by (simp add: selection_mapping_def AliasedRef_remap_refs_def AliasedRef_identity_def comp_def del: out_ids.simps)
  have "rows E ?n = aggregate_rows E aggs (map ref_id ks) os dn (map (pre ?m) (rows E c))"
    using sc args by (simp, intro aggregate_agree [OF n(7)]) (auto simp: list_all_iff)
  moreover have "rows_agree (set (map ref_id ks) \<union> snd ` set aggs) (aggregate_rows E aggs (map ref_id ks) os dn (map (pre ?m) (rows E c)))
      (map (pre (selection_mapping ?sels)) (rows E ?p))"
    using aggregate_pre [OF inj, of "selection_mapping ?sels" E os dn "rows E c"] new mapping by (simp add: comp_def)
  ultimately have agree: "rows_agree (set (out_ids ?n)) (rows E ?n) (map (pre (selection_mapping ?sels)) (rows E ?p))" by simp
  have sel_refs: "\<forall>(d, i) \<in> set ?sels. ref_id d \<in> set (out_ids ?p)"
    unfolding out by (auto simp: AliasedRef_remap_refs_def AliasedRef_identity_def simp del: out_ids.simps)
  have "stands_for E ?p ?sels ?n"
    unfolding stands_for_def
    by (intro conjI scoped agree sel_refs) (simp add: AliasedRef_remap_refs_def AliasedRef_identity_def comp_def del: out_ids.simps)
  then have "lifted (SelectionNode ?p ?sels) \<and> lifted_sim E (SelectionNode ?p ?sels) ?n"
  proof (rule selection_sound [OF _ assms _ fields])
    have "defined_ids ?p \<inter> names_below c = {}" using new by (auto simp: case_prod_unfold)
    moreover have "list_all plain (typed_exprs ?p)" using plain by (auto simp: list_all_iff plain_rename)
    ultimately show "lifted ?p" using n(1) scoped fp liftedI [of ?p] by (simp add: pullable_def)
    show "names_below ?p \<subseteq> names_below ?n"
      unfolding n(6) names_below_unfold [of ?p] using key n(9) by (auto simp: case_prod_unfold comp_def)
    show "distinct (map (ref_id \<circ> fst) ?sels)"
      using dist out by (simp add: AliasedRef_remap_refs_def AliasedRef_identity_def comp_def del: out_ids.simps)
  qed
  moreover have "ids ?n = Inr (out_ids ?n)" using fn names(2) by (simp add: ids_def del: out_ids.simps)
  moreover have "pushed_down ?n c pairs = Inr ?p" 
  proof -
    have "mapM (deref_remap ?m False) ks = Inr (map (rename_deref ?m) ks)"
      using mapped dom by (intro mapM_InrI deref_remap_strict) blast
    moreover have "mapM (ordering_remap ?m False) os = Inr (map (rename_part ?m) os)"
    proof (intro mapM_InrI ordering_remap_part disjI2)
      fix q assume "q \<in> set os"
      then have "referenced_columns q \<subseteq> parts_refs os" by (auto simp: parts_refs_def)
      also have "\<dots> \<subseteq> snd ` set pairs" using sc by simp
      finally show "referenced_columns q \<subseteq> dom ?m" using dom by blast
    qed
    ultimately show ?thesis
      by (simp add: pushed_down_def AggregateNode_remap_refs_def replace_child_def case_prod_unfold del: map_map)
  qed
  ultimately show ?thesis by (simp add: pull_over_aggregate_def del: out_ids.simps)
qed


subsection \<open>An explosion over a selection\<close>

lemma explode_row_pre:
  assumes "inj_on (get_or_self m) S" "set cols \<subseteq> S" "i \<in> S \<union> set_option off"
    and "\<And>x. off = Some x \<Longrightarrow> x \<notin> S \<and> x \<notin> get_or_self m ` S \<and> get_or_self m' x = x"
    and "\<And>x. x \<in> S \<Longrightarrow> get_or_self m' x = get_or_self m x"
  shows "map (\<lambda>r. r i) (explode_row cols off (pre m r)) = map (\<lambda>r. r i) (map (pre m') (explode_row (map (get_or_self m) cols) off r))"
proof -
  have items: "(case cols of [] \<Rightarrow> 0 | c # _ \<Rightarrow> length (array_items (pre m r c))) =
      (case map (get_or_self m) cols of [] \<Rightarrow> 0 | c # _ \<Rightarrow> length (array_items (r c)))"
    by (simp add: pre_def split: list.split)
  have other: "off \<noteq> Some (get_or_self m i) \<and> (i \<in> set cols \<longleftrightarrow> get_or_self m i \<in> get_or_self m ` set cols)" if "i \<in> S"
  proof -
    have "off \<noteq> Some (get_or_self m i)" using assms(4) that by blast
    moreover have "i \<in> set cols \<longleftrightarrow> get_or_self m i \<in> get_or_self m ` set cols"
      using inj_on_image_mem_iff [OF assms(1) that assms(2)] by simp
    ultimately show ?thesis by blast
  qed
  show ?thesis
  proof (cases "i \<in> S")
    case True
    then have "off \<noteq> Some i" using assms(4) by blast
    with True other [OF True] assms(5) show ?thesis
      unfolding explode_row_def Let_def items by (auto simp: pre_def)
  next
    case False
    then have "off = Some i" using assms(3) by auto
    with assms(4) show ?thesis unfolding explode_row_def Let_def items by (simp add: pre_def)
  qed
qed

lemma rows_agree_columns:
  assumes "length rs = length rs'" "\<And>i. i \<in> S \<Longrightarrow> map (\<lambda>r. r i) rs = map (\<lambda>r. r i) rs'"
  shows "rows_agree S rs rs'"
proof (intro rows_agreeI assms(1))
  fix k assume k: "k < length rs"
  have "(rs ! k) i = (rs' ! k) i" if "i \<in> S" for i
    using arg_cong [OF assms(2) [OF that], of "\<lambda>xs. xs ! k"] k assms(1) by simp
  then show "agree S (rs ! k) (rs' ! k)" by (simp add: agree_def)
qed

lemma explode_pre:
  assumes "inj_on (get_or_self m) S" "set cols \<subseteq> S"
    and "\<And>x. off = Some x \<Longrightarrow> x \<notin> S \<and> x \<notin> get_or_self m ` S \<and> get_or_self m' x = x"
    and "\<And>x. x \<in> S \<Longrightarrow> get_or_self m' x = get_or_self m x"
  shows "rows_agree (S \<union> set_option off) (concat (map (explode_row cols off) (map (pre m) rs)))
    (map (pre m') (concat (map (explode_row (map (get_or_self m) cols) off) rs)))"
proof (induction rs)
  case (Cons r rs)
  have "length (explode_row cols off (pre m r)) = length (explode_row (map (get_or_self m) cols) off r)"
    by (simp add: explode_row_def Let_def pre_def split: list.split)
  then have "rows_agree (S \<union> set_option off) (explode_row cols off (pre m r)) (map (pre m') (explode_row (map (get_or_self m) cols) off r))"
    using explode_row_pre [OF assms(1,2) _ assms(3,4)] by (intro rows_agree_columns) simp_all
  with Cons show ?case by (simp add: rows_agree_def list_all2_appendI)
qed simp

definition exploded_field :: "column_id set \<Rightarrow> field \<Rightarrow> field result" where
  "exploded_field cols f = (if field_id f \<in> cols
     then rbind (array_value_type (field_dtype f)) (\<lambda>t. Inr (mk_field (field_id f) t True)) else Inr f)"

lemma ExplodeNode_fields_alt:
  assumes "distinct (map field_id fs)"
  shows "ExplodeNode_fields (Inr fs) cols off = rbind (mapM (exploded_field (ref_id ` set cols)) fs)
    (\<lambda>gs. Inr (gs @ (case off of None \<Rightarrow> [] | Some i \<Rightarrow> [mk_field i (Some INT_DTYPE) False])))"
proof -
  have "mapM (\<lambda>f. if field_id f \<in> set (map ref_id cols)
      then rbind (lookup_or KeyError (fields_by_id fs) (field_id f)) (\<lambda>g. rbind (array_value_type (field_dtype g))
        (\<lambda>t. Inr (mk_field (field_id f) t True))) else Inr f) fs = mapM (exploded_field (ref_id ` set cols)) fs"
    by (rule mapM_cong) (simp_all add: exploded_field_def lookup_or_def fields_by_id_member [OF assms])
  then show ?thesis by (auto simp: ExplodeNode_fields_def split: option.split intro: arg_cong2 [where f = rbind])
qed

lemma mapM_mapM: "mapM g xs = Inr ys \<Longrightarrow> mapM f ys = mapM (\<lambda>x. rbind (g x) f) xs"
  by (induction xs arbitrary: ys) (auto simp: rbind_eq_Inr_iff)


lemma selection_fields_append:
  assumes "SelectionNode_fields (Inr gc) pairs = Inr gs" "distinct (map field_id added)"
    and "field_id ` set added \<inter> field_id ` set gc = {}"
  shows "SelectionNode_fields (Inr (gc @ added)) (pairs @ map (\<lambda>f. (DerefOp (field_id f), field_id f)) added) = Inr (gs @ added)"
proof -
  let ?m = "fields_by_id (gc @ added)"
  have look: "?m j = (case fields_by_id added j of None \<Rightarrow> fields_by_id gc j | Some f \<Rightarrow> Some f)" for j
    unfolding fields_by_id_def by (simp add: dict_of_append)
  have old: "?m j = Some f" if "fields_by_id gc j = Some f" for j f
  proof -
    have "j \<in> field_id ` set gc" using that by (force simp: fields_by_id_def dest!: dict_of_SomeD)
    then have "fields_by_id added j = None"
      using assms(3) dict_key_iff [of field_id "\<lambda>f. f" added j] by (auto simp: fields_by_id_def)
    with that show ?thesis by (simp add: look)
  qed
  have "map (\<lambda>(ref, output). selected_field (fields_by_id gc) ref output) pairs = map Inr gs"
    using assms(1) by (simp add: SelectionNode_fields_def mapM_Inr_iff)
  moreover have "selected_field ?m d i = selected_field (fields_by_id gc) d i" if "(d, i) \<in> set pairs" for d i
  proof -
    have "selected_field (fields_by_id gc) d i \<in> set (map Inr gs)"
      unfolding calculation [symmetric] using that by force
    then obtain f where "fields_by_id gc (ref_id d) = Some f" by (auto simp: selected_field_def rbind_eq_Inr_iff)
    then show ?thesis by (simp add: selected_field_def lookup_or_def old)
  qed
  then have "map (\<lambda>(ref, output). selected_field ?m ref output) pairs = map (\<lambda>(ref, output). selected_field (fields_by_id gc) ref output) pairs"
    by auto
  ultimately have "map (\<lambda>(ref, output). selected_field ?m ref output) pairs = map Inr gs" by (rule trans [rotated])
  moreover have "selected_field ?m (DerefOp (field_id f)) (field_id f) = Inr f" if "f \<in> set added" for f
    using fields_by_id_member [OF assms(2) that] by (simp add: look selected_field_def lookup_or_def mk_field_def)
  ultimately show ?thesis by (simp add: SelectionNode_fields_def mapM_Inr_iff)
qed

lemma explode_selected_fields:
  assumes "SelectionNode_fields (Inr fc) pairs = Inr fs" "distinct (map snd pairs)" "distinct (map field_id fc)"
    and "mapM (exploded_field cols) fs = Inr gs" "cols \<subseteq> snd ` set pairs" "distinct (map (ref_id \<circ> fst) pairs)"
  shows "\<exists>gc. mapM (exploded_field (get_or_self (selection_mapping pairs) ` cols)) fc = Inr gc \<and> map field_id gc = map field_id fc \<and>
    SelectionNode_fields (Inr gc) pairs = Inr gs"
proof -
  let ?m = "selection_mapping pairs"
  let ?cols = "get_or_self ?m ` cols"
  have ids: "map field_id fs = map snd pairs" by (rule selection_field_ids [OF assms(1)])
  then have dist: "distinct (map field_id fs)" using assms(2) by simp
  have member: "i \<in> cols \<longleftrightarrow> ref_id d \<in> ?cols" if "(d, i) \<in> set pairs" for d i
  proof -
    have "i \<in> snd ` set pairs" using that by force
    then show ?thesis
      using inj_on_image_mem_iff [OF selection_mapping_inj [OF assms(2,6)] _ assms(5)] selection_mapping_pair [OF assms(2) that] by force
  qed
  have explodes: "\<exists>h. exploded_field ?cols f = Inr h \<and> field_id h = field_id f" if f: "f \<in> set fc" for f
  proof (cases "field_id f \<in> ?cols")
    case True
    then obtain i where i: "i \<in> cols" "field_id f = get_or_self ?m i" by auto
    then obtain d where d: "(d, i) \<in> set pairs" using assms(5) by auto
    then have "field_id f = ref_id d" using selection_mapping_pair [OF assms(2) d] i(2) by simp
    then have "fields_by_id fc (ref_id d) = Some f" using fields_by_id_member [OF assms(3) f] by simp
    then have "fields_by_id fs i = Some (mk_field i (field_dtype f) (field_nullable f))"
      using selected_fields [OF assms(1,2) d] by auto
    then have "mk_field i (field_dtype f) (field_nullable f) \<in> set fs" by (auto simp: fields_by_id_def dest!: dict_of_SomeD)
    then have "\<exists>h. exploded_field cols (mk_field i (field_dtype f) (field_nullable f)) = Inr h"
      using assms(4) unfolding mapM_Inr_iff by (metis imageE imageI list.set_map)
    then show ?thesis using True i(1) by (auto simp: exploded_field_def rbind_eq_Inr_iff)
  next
    case False
    then show ?thesis by (simp add: exploded_field_def)
  qed
  then obtain h where h: "\<And>f. f \<in> set fc \<Longrightarrow> exploded_field ?cols f = Inr (h f) \<and> field_id (h f) = field_id f" by metis
  then have gc: "mapM (exploded_field ?cols) fc = Inr (map h fc)" by (intro mapM_InrI) blast
  have hc: "map field_id (map h fc) = map field_id fc" using h by simp
  have "selected_field (fields_by_id (map h fc)) d i = rbind (selected_field (fields_by_id fc) d i) (exploded_field cols)"
    if d: "(d, i) \<in> set pairs" for d i
  proof -
    obtain f where f: "fields_by_id fc (ref_id d) = Some f" using selected_fields [OF assms(1,2) d] by blast
    then have fc: "f \<in> set fc" "field_id f = ref_id d" by (auto simp: fields_by_id_def dest!: dict_of_SomeD)
    have "fields_by_id (map h fc) (field_id (h f)) = Some (h f)"
      by (rule fields_by_id_member) (simp_all only: hc assms(3), simp add: fc(1))
    then have "fields_by_id (map h fc) (ref_id d) = Some (h f)" using h fc by simp
    then show ?thesis
      using f h [OF fc(1)] fc(2) member [OF d]
      by (auto simp: selected_field_def lookup_or_def exploded_field_def rbind_eq_Inr_iff split: if_splits) (metis mk_field_simps(2,3))
  qed
  then have "SelectionNode_fields (Inr (map h fc)) pairs = mapM (\<lambda>(d, i). rbind (selected_field (fields_by_id fc) d i) (exploded_field cols)) pairs"
    by (auto simp: SelectionNode_fields_def intro!: mapM_cong)
  also have "\<dots> = Inr gs"
    using mapM_mapM [of "\<lambda>(d, i). selected_field (fields_by_id fc) d i" pairs fs "exploded_field cols"] assms(1,4)
    by (simp add: SelectionNode_fields_def case_prod_unfold)
  finally show ?thesis using gc hc by blast
qed


lemma explode_sound:
  assumes "lifted (ExplodeNode (SelectionNode c pairs) cols off)"
  shows "\<exists>m. pull_over_explode (ExplodeNode (SelectionNode c pairs) cols off) off c pairs = Inr m \<and> lifted m \<and>
    lifted_sim E m (ExplodeNode (SelectionNode c pairs) cols off)"
proof -
  let ?m = "selection_mapping pairs" and ?n = "ExplodeNode (SelectionNode c pairs) cols off"
  let ?p = "ExplodeNode c (map (rename_deref ?m) cols) off"
  let ?sels = "case off of None \<Rightarrow> pairs | Some i \<Rightarrow> pairs @ [(DerefOp i, i)]"
  have kids: "child_nodes ?n = [SelectionNode c pairs]" by simp
  note n = over_selection [OF assms kids]
  have sc: "scoped ?n" and own: "set_option off \<inter> names_below (SelectionNode c pairs) = {}"
    using assms by (simp_all add: lifted_def pullable_def)
  then have new: "i \<notin> names_below c" "i \<notin> snd ` set pairs" if "off = Some i" for i
    using that by (auto simp: names_below_unfold [of "SelectionNode c pairs"])
  have cols: "set (map ref_id cols) \<subseteq> snd ` set pairs" using sc by simp
  have image: "get_or_self ?m ` (snd ` set pairs) \<subseteq> set (out_ids c)" using n(8) by fastforce
  have map_cols: "map ref_id (map (rename_deref ?m) cols) = map (get_or_self ?m) (map ref_id cols)" by simp
  have "get_or_self ?m (ref_id k) \<in> set (out_ids c)" if "k \<in> set cols" for k
    using that cols image by (auto simp: image_subset_iff subset_iff)
  then have scoped: "scoped ?p"
    using n(1,9) new(1) by (auto simp: lifted_def)
  have mapping: "get_or_self (selection_mapping ?sels) x = get_or_self ?m x" if "x \<in> snd ` set pairs" for x
  proof (cases off)
    case (Some i)
    then have "x \<noteq> i" using that new(2) by blast
    then show ?thesis using Some by (simp add: get_or_self_def selection_mapping_append)
  qed simp
  have own_off: "get_or_self (selection_mapping ?sels) x = x" if "off = Some x" for x
    using that new(2) selection_mapping_append [of pairs "[(DerefOp x, x)]" x]
    by (simp add: selection_mapping_def [of "[(DerefOp x, x)]"] dict_of_Cons)
  have own_new: "x \<notin> snd ` set pairs \<and> x \<notin> get_or_self ?m ` (snd ` set pairs) \<and> get_or_self (selection_mapping ?sels) x = x"
    if "off = Some x" for x
    using new [OF that] own_off [OF that] image n(9) by blast
  have "rows_agree (snd ` set pairs \<union> set_option off) (rows E ?n) (concat (map (explode_row (map ref_id cols) off) (map (pre ?m) (rows E c))))"
    using explode_agree [OF n(7) cols, of off E] by simp
  moreover have "rows_agree (snd ` set pairs \<union> set_option off)
      (concat (map (explode_row (map ref_id cols) off) (map (pre ?m) (rows E c)))) (map (pre (selection_mapping ?sels)) (rows E ?p))"
    unfolding rows.simps map_cols
    by (intro explode_pre [OF selection_mapping_inj [OF n(3,4)] cols own_new mapping])
  ultimately have agree: "rows_agree (set (out_ids ?n)) (rows E ?n) (map (pre (selection_mapping ?sels)) (rows E ?p))"
    by (cases off) (auto dest: rows_agree_trans simp del: rows.simps)
  have sel_refs: "\<forall>(d, i) \<in> set ?sels. ref_id d \<in> set (out_ids ?p)"
    using n(2) by (auto simp: list_all_iff split: option.splits)
  have stands: "stands_for E ?p ?sels ?n"
    unfolding stands_for_def by (intro conjI scoped agree sel_refs) (simp split: option.split)
  obtain fc fs where f: "node_fields c = Inr fc" "node_fields (SelectionNode c pairs) = Inr fs" "SelectionNode_fields (Inr fc) pairs = Inr fs"
    using n(5) by blast
  have dist: "distinct (map field_id fc)" "distinct (map field_id fs)"
    using fields_out_ids [OF f(1)] scoped_distinct [of c] n(1,3) selection_field_ids [OF f(3)] by (simp_all add: lifted_def)
  obtain fn where fn: "node_fields ?n = Inr fn" using assms typed_iff [of ?n] by (auto simp: lifted_def)
  let ?added = "case off of None \<Rightarrow> [] | Some i \<Rightarrow> [mk_field i (Some INT_DTYPE) False]"
  obtain gs where gs: "mapM (exploded_field (ref_id ` set cols)) fs = Inr gs" "fn = gs @ ?added"
    using fn f(2) ExplodeNode_fields_alt [OF dist(2), of cols off] by (auto simp: rbind_eq_Inr_iff simp del: fields_simps(13))
  have "ref_id ` set cols \<subseteq> snd ` set pairs" using cols by simp
  then obtain gc where gc: "mapM (exploded_field (get_or_self ?m ` ref_id ` set cols)) fc = Inr gc" "map field_id gc = map field_id fc"
    "SelectionNode_fields (Inr gc) pairs = Inr gs"
    using explode_selected_fields [OF f(3) n(3) dist(1) gs(1) _ n(4)] by blast
  have fp: "node_fields ?p = Inr (gc @ ?added)"
    using ExplodeNode_fields_alt [OF dist(1), of "map (rename_deref ?m) cols" off] gc(1) f(1) by (simp add: image_image)
  have "field_id ` set gc = set (out_ids c)"
    using arg_cong [OF gc(2), of set] fields_out_ids [OF f(1)] arg_cong [of "map field_id fc" _ set] by simp
  then have "field_id ` set ?added \<inter> field_id ` set gc = {}" using new(1) n(9) by (cases off) auto
  then have "SelectionNode_fields (Inr (gc @ ?added)) (pairs @ map (\<lambda>f. (DerefOp (field_id f), field_id f)) ?added) = Inr (gs @ ?added)"
    by (intro selection_fields_append [OF gc(3)]) (simp split: option.split)
  moreover have "pairs @ map (\<lambda>f. (DerefOp (field_id f), field_id f)) ?added = ?sels" by (simp split: option.split)
  ultimately have fields: "node_fields (SelectionNode ?p ?sels) = node_fields ?n"
    unfolding fields_simps(13) fp fn gs(2) by simp
  have "lifted (SelectionNode ?p ?sels) \<and> lifted_sim E (SelectionNode ?p ?sels) ?n"
  proof (rule selection_sound [OF stands assms _ fields])
    have "defined_ids ?p \<inter> names_below c = {}" using new by (cases off) simp_all
    then show "lifted ?p" using n(1) scoped fp liftedI [of ?p] by (simp add: pullable_def)
    show "names_below ?p \<subseteq> names_below ?n"
      unfolding n(6) names_below_unfold [of ?p] using n(9) by auto
    have "i \<notin> ref_id ` fst ` set pairs" if "off = Some i" for i
      using new(1) [OF that] n(2,9) by (auto simp: list_all_iff)
    then show "distinct (map (ref_id \<circ> fst) ?sels)"
      using n(4) by (auto simp: image_image split: option.split)
  qed
  moreover have "mapM (deref_remap ?m False) cols = Inr (map (rename_deref ?m) cols)"
    using cols mapping_dom by (intro mapM_InrI deref_remap_strict) fastforce
  then have "pushed_down ?n c pairs = Inr ?p"
    by (simp add: pushed_down_def ExplodeNode_remap_refs_def replace_child_def)
  ultimately show ?thesis by (simp add: pull_over_explode_def)
qed


subsection \<open>An additive node over a selection\<close>

lemma added_fields_renamed:
  assumes "child_nodes n = [SelectionNode c pairs]" "additive_base n = Inr (SelectionNode c pairs)" "scoped n" "list_all plain (typed_exprs n)"
    and "replace_additive_base n c = Inr n1" "remap_refs m n1 = Inr n2" "added_fields n = Inr added"
    and "node_fields c = Inr fc" "node_fields (SelectionNode c pairs) = Inr fs" "renamed_fields m (snd ` set pairs) (fields_by_id fs) (fields_by_id fc)"
  shows "added_fields n2 = Inr added \<and> child_nodes n2 = [c] \<and> list_all plain (typed_exprs n2) \<and> selects_each_once n2 \<and> result_ordered n2 \<and>
    defined_ids n2 = set (added_ids n2) \<and> is_additive n2 \<and> scan_names n2 = {} \<and> defined_ids n = set (added_ids n)"
proof -
  have renamed: "renamed_fields m S (fields_by_id fs) (fields_by_id fc)" if "S \<subseteq> snd ` set pairs" for S
    using assms(10) that by (auto simp: renamed_fields_def)
  show ?thesis
  proof (cases n)
    case (PromoteOffsetsNode d i)
    then show ?thesis using assms by auto
  next
    case (ProjectionNode d asg)
    then have d: "d = SelectionNode c pairs" using assms(2) by simp
    have n2: "n2 = ProjectionNode c (rename_pairs m asg)"
      using assms(5,6) by (auto simp: ProjectionNode ProjectionNode_remap_refs_def case_prod_unfold)
    have "map (\<lambda>(e, i). projected_field (fields_by_id fs) e i) asg = map Inr added"
      using assms(7,9) by (simp add: ProjectionNode d ProjectionNode_added_fields_def mapM_Inr_iff del: fields_simps)
    moreover have "projected_field (fields_by_id fc) (rename_expr m e) i = projected_field (fields_by_id fs) e i" if "(e, i) \<in> set asg" for e i
    proof -
      have "projected_field (fields_by_id fs) e i \<in> set (map Inr added)" unfolding calculation [symmetric] using that by force
      moreover have "plain e" "set (column_references e) \<subseteq> snd ` set pairs"
        using assms(3,4) that by (force simp: ProjectionNode d list_all_iff)+
      ultimately show ?thesis using projected_rename [OF _ renamed] by auto
    qed
    then have "map (\<lambda>(e, i). projected_field (fields_by_id fc) e i) (rename_pairs m asg) = map (\<lambda>(e, i). projected_field (fields_by_id fs) e i) asg"
      by auto
    ultimately have "added_fields n2 = Inr added"
      using assms(8) by (simp add: n2 ProjectionNode_added_fields_def mapM_Inr_iff del: map_map)
    then show ?thesis using assms(4) by (auto simp: n2 ProjectionNode list_all_iff plain_rename)
  next
    case (WindowOpNode d ds w)
    then have d: "d = SelectionNode c pairs" using assms(2) by simp
    let ?ds = "map (\<lambda>d. ColumnDef (rename_expr m (cdef_expression d)) (cdef_id d)) ds"
    obtain w' where n2: "n2 = WindowOpNode c ?ds w'"
      using assms(5,6) by (auto simp: WindowOpNode WindowOpNode_remap_refs_def window_remap_partial)
    have "map (\<lambda>d. aggregated_field (fields_by_id fs) (cdef_expression d) (cdef_id d)) ds = map Inr added"
      using assms(7,9) by (simp add: WindowOpNode d WindowOpNode_added_fields_def mapM_Inr_iff del: fields_simps)
    moreover have "aggregated_field (fields_by_id fc) (rename_expr m (cdef_expression x)) (cdef_id x) =
        aggregated_field (fields_by_id fs) (cdef_expression x) (cdef_id x)" if "x \<in> set ds" for x
    proof -
      have "aggregated_field (fields_by_id fs) (cdef_expression x) (cdef_id x) \<in> set (map Inr added)"
        unfolding calculation [symmetric] using that by force
      moreover have "plain (cdef_expression x)" "set (column_references (cdef_expression x)) \<subseteq> snd ` set pairs"
        using assms(3,4) that by (force simp: WindowOpNode d list_all_iff)+
      ultimately show ?thesis using aggregated_rename [OF _ renamed] by auto
    qed
    ultimately have "added_fields n2 = Inr added"
      using assms(8) by (simp add: n2 WindowOpNode_added_fields_def mapM_Inr_iff cong: map_cong)
    then show ?thesis using assms(4) by (auto simp: n2 WindowOpNode list_all_iff plain_rename)
  qed (use assms(1,2) in simp_all)
qed

lemma additive_sound:
  assumes "lifted n" "child_nodes n = [SelectionNode c pairs]" "additive_base n = Inr (SelectionNode c pairs)"
  shows "\<exists>m. pull_over_additive n c pairs = Inr m \<and> lifted m \<and> lifted_sim E m n"
proof -
  let ?m = "selection_mapping pairs"
  note n = over_selection [OF assms(1,2)]
  have sc: "scoped n" and pull: "pullable n" and typed: "typed n"
    using assms(1) by (simp_all add: lifted_def everywhere_iff [of pullable n])
  obtain fc fs where f: "node_fields c = Inr fc" "node_fields (SelectionNode c pairs) = Inr fs" "SelectionNode_fields (Inr fc) pairs = Inr fs"
    using n(5) by blast
  have base: "stands_for E c pairs (SelectionNode c pairs)" by (rule stands_for_base [OF n(2)])
  obtain added where added: "added_fields n = Inr added" "map field_id added = added_ids n"
    using typed_added [OF typed assms(3)] added_fields_ids by blast
  have own: "set (added_ids n) \<inter> (snd ` set pairs \<union> names_below c) = {}"
  proof -
    have "defined_ids n = set (added_ids n)" using assms(2,3) by (cases n) simp_all
    then show ?thesis using pull assms(2) by (auto simp: pullable_def names_below_unfold [of "SelectionNode c pairs"])
  qed
  have "inj_on (get_or_self Map.empty) (set (added_ids n))" "get_or_self Map.empty ` set (added_ids n) \<inter> set (out_ids c) = {}"
    using own n(9) by (auto simp: inj_on_def)
  then obtain n1 p where p: "replace_additive_base n c = Inr n1" "remap_refs ?m n1 = Inr p"
    "additive_base (remap_vars Map.empty p) = Inr c" "added_ids (remap_vars Map.empty p) = map (get_or_self Map.empty) (added_ids n)"
    "stands_for E (remap_vars Map.empty p) (pairs @ map (\<lambda>i. AliasedRef_remap_refs Map.empty (AliasedRef_identity i)) (added_ids n)) n"
    using stands_for_additive [OF base assms(3) sc] by blast
  have q: "added_fields p = Inr added" "child_nodes p = [c]" "list_all plain (typed_exprs p)" "selects_each_once p" "result_ordered p"
    "defined_ids p = set (added_ids p)" "is_additive p" "scan_names p = {}"
    using added_fields_renamed [OF assms(2,3) sc _ p(1,2) added(1) f(1,2) selection_renames [OF f(3) n(3)]] pull
    by (simp_all add: pullable_def)
  note same = remap_vars_empty [OF q(7)]
  let ?sels = "pairs @ map (\<lambda>f. (DerefOp (field_id f), field_id f)) added"
  have p': "additive_base p = Inr c" "added_ids p = added_ids n" "stands_for E p ?sels n"
    using p(3-5) by (simp_all add: same AliasedRef_remap_refs_def AliasedRef_identity_def comp_def flip: added(2))
  have fp: "node_fields p = Inr (fc @ added)" using additive_fields [OF q(7) p'(1)] f(1) q(1) by simp
  have "node_fields n = Inr (fs @ added)"
    using additive_fields [OF _ assms(3)] assms(3) f(2) added(1) by (cases n) simp_all
  moreover have "SelectionNode_fields (Inr (fc @ added)) ?sels = Inr (fs @ added)"
  proof (rule selection_fields_append [OF f(3)])
    show "distinct (map field_id added)" using additive_scoped [OF assms(3)] sc added(2) by simp
    have "field_id ` set added = set (added_ids n)" "field_id ` set fc = set (out_ids c)"
      using arg_cong [OF added(2), of set] arg_cong [OF fields_out_ids [OF f(1)], of set] by simp_all
    then show "field_id ` set added \<inter> field_id ` set fc = {}" using own n(9) by auto
  qed
  ultimately have fields: "node_fields (SelectionNode p ?sels) = node_fields n" unfolding fields_simps(13) fp by simp
  have "lifted (SelectionNode p ?sels) \<and> lifted_sim E (SelectionNode p ?sels) n"
  proof (rule selection_sound [OF p'(3) assms(1) _ fields])
    have "pullable p" using q p'(2) own by (auto simp: pullable_def)
    moreover have "scoped p" using p'(3) by (simp add: stands_for_def)
    ultimately show "lifted p" using n(1) fp q(2) liftedI [of p] by simp
    show "names_below p \<subseteq> names_below n"
      using n(9) q(2,8) additive_out_ids [OF p'(1)] additive_out_ids [OF assms(3)] p'(2)
      unfolding n(6) names_below_unfold [of p] by auto
    have "ref_id ` fst ` set pairs \<inter> set (added_ids n) = {}" using own n(2,9) by (fastforce simp: list_all_iff)
    then show "distinct (map (ref_id \<circ> fst) ?sels)"
      using n(4) additive_scoped [OF assms(3)] sc by (simp add: comp_def image_image flip: added(2))
  qed
  then show ?thesis using p(1,2) added(1) by (simp add: pull_over_additive_def)
qed


subsection \<open>Scans under the names of their source\<close>

lemma source_fields:
  "scan_fields h items = Inr fn \<Longrightarrow> \<exists>fp. scan_fields h (source_items items) = Inr fp \<and> list_all2 like_field fp fn"
proof (induction items arbitrary: fn)
  case (Cons it items)
  then obtain t nullable gn where it: "h (source_id it) = Inr (t, nullable)" "scan_fields h items = Inr gn"
    "fn = mk_field (scan_id it) t nullable # gn"
    by (auto simp: scan_fields_def rbind_eq_Inr_iff)
  with Cons.IH [OF it(2)] show ?case by (auto simp: scan_fields_def source_items_def like_field_def)
qed (simp add: scan_fields_def source_items_def)

lemma source_row:
  assumes "distinct (map scan_id items)" "it \<in> set items"
  shows "scan_row items r (scan_id it) = pre (selection_mapping (source_selection items)) (scan_row (source_items items) r) (scan_id it)"
proof -
  have "dict_of (map (\<lambda>it. (scan_id it, source_id it)) items) (scan_id it) = Some (source_id it)"
    using assms by (intro dict_of_distinct) (auto simp: comp_def)
  moreover have "selection_mapping (source_selection items) (scan_id it) = Some (ColumnId (source_id it))"
    unfolding selection_mapping_def source_selection_def
    using assms by (intro dict_of_distinct) (auto simp: comp_def)
  moreover have "dict_of (map (\<lambda>i. (ColumnId (source_id i), source_id i)) items) (ColumnId (source_id it)) = Some (source_id it)"
  proof -
    have "dict_of (map (\<lambda>i. (ColumnId (source_id i), source_id i)) items) (ColumnId (source_id it)) \<noteq> None"
      using assms(2) by (auto simp: dict_of_eq_None_iff image_image)
    then obtain s where s: "dict_of (map (\<lambda>i. (ColumnId (source_id i), source_id i)) items) (ColumnId (source_id it)) = Some s" by blast
    then have "s = source_id it" by (auto dest!: dict_of_SomeD)
    with s show ?thesis by simp
  qed
  ultimately show ?thesis by (simp add: scan_row_def pre_def source_items_def comp_def)
qed

lemma source_sound:
  assumes "lifted n" "child_nodes p = []" "pullable p" "scan_names p = ColumnId ` source_id ` set items" "scan_names n = scan_names p"
    and "node_fields n = scan_fields h items" "node_fields p = scan_fields h (source_items items)"
    and "rows E n = map (scan_row items) src" "rows E p = map (scan_row (source_items items)) src"
    and "out_ids n = map scan_id items" "out_ids p = map scan_id (source_items items)"
    and "scoped n \<longleftrightarrow> distinct (map scan_id items)" "scoped p \<longleftrightarrow> distinct (map scan_id (source_items items))"
    and "distinct (map source_id items)"
  shows "lifted (SelectionNode p (source_selection items)) \<and> lifted_sim E (SelectionNode p (source_selection items)) n"
proof -
  have source_ids: "map scan_id (source_items items) = map ColumnId (map source_id items)" by (simp add: source_items_def)
  have "distinct (map scan_id (source_items items))"
    unfolding source_ids distinct_map [of ColumnId] using assms(14) by (simp add: inj_on_def)
  then have scoped: "scoped p" using assms(13) by simp
  have dist: "distinct (map scan_id items)" using assms(1,12) by (simp add: lifted_def)
  obtain fn where fn: "scan_fields h items = Inr fn" using assms(1,6) typed_iff [of n] by (auto simp: lifted_def)
  then obtain fp where fp: "scan_fields h (source_items items) = Inr fp" "list_all2 like_field fp fn" using source_fields by blast
  have sels: "map snd (source_selection items) = map scan_id items" "map (ref_id \<circ> fst) (source_selection items) = map scan_id (source_items items)"
    by (simp_all add: source_selection_def source_items_def)
  have names: "map field_id fp = map scan_id (source_items items)" "map field_id fn = map scan_id items"
    using scan_fields_ids [OF fp(1)] scan_fields_ids [OF fn] by simp_all
  show ?thesis
  proof (rule selection_sound)
    have "rows_agree (set (out_ids n)) (rows E n) (map (pre (selection_mapping (source_selection items))) (rows E p))"
      unfolding assms(8-10) using source_row [OF dist] by (intro rows_agreeI) (auto simp: agree_def)
    then show "stands_for E p (source_selection items) n"
      using scoped sels assms(10,11) by (auto simp: stands_for_def source_selection_def source_items_def)
    show "lifted p" using liftedI [of p fp] scoped assms(2,3,7) fp(1) by simp
    show "node_fields (SelectionNode p (source_selection items)) = node_fields n"
      unfolding fields_simps(13) assms(6,7) fp(1) fn
      using fp(2) sels names \<open>distinct (map scan_id (source_items items))\<close> by (intro reselected) simp_all
    show "names_below p \<subseteq> names_below n"
      using assms(2,4,5,11) by (auto simp: names_below_unfold [of p] names_below_unfold [of n] source_items_def)
    show "distinct (map (ref_id \<circ> fst) (source_selection items))"
      unfolding sels(2) by (rule \<open>distinct (map scan_id (source_items items))\<close>)
  qed (rule assms(1))
qed

lemma source_ids_sound:
  assumes "lifted n"
  shows "lifted (pull_up_source_ids n) \<and> lifted_sim E (pull_up_source_ids n) n"
proof (cases "pull_up_source_ids n = n")
  case True
  then show ?thesis using assms by (simp add: lifted_sim_def)
next
  case False
  have same: "map source_id (source_items items) = map source_id items" for items by (simp add: source_items_def)
  then have set_same: "ColumnId ` source_id ` set (source_items items) = ColumnId ` source_id ` set items" for items
    by (metis set_map)
  from False show ?thesis
  proof (cases n)
    case (ReadTableNode src items sess)
    have "lifted (SelectionNode (ReadTableNode src (source_items items) sess) (source_selection items)) \<and>
        lifted_sim E (SelectionNode (ReadTableNode src (source_items items) sess) (source_selection items)) n"
      by (rule source_sound [OF assms])
        (use ReadTableNode assms in \<open>simp_all add: table_fields_scan read_table_def pullable_def same set_same lifted_def\<close>)
    then show ?thesis using False by (auto simp: ReadTableNode split: if_splits)
  next
    case (CachedTableNode src items sess orig)
    have "lifted (SelectionNode (CachedTableNode src (source_items items) sess orig) (source_selection items)) \<and>
        lifted_sim E (SelectionNode (CachedTableNode src (source_items items) sess orig) (source_selection items)) n"
      by (rule source_sound [OF assms])
        (use CachedTableNode assms in \<open>simp_all add: table_fields_scan read_table_def pullable_def same set_same lifted_def\<close>)
    then show ?thesis using False by (auto simp: CachedTableNode split: if_splits)
  qed simp_all
qed


subsection \<open>Every plan\<close>

lemma lifted_sim_refl: "lifted_sim E n n"
  by (simp add: lifted_sim_def)

lemma select_unary_sound:
  assumes "lifted n" "child_nodes n = [c]" "is_unary n"
  shows "\<exists>m. pull_up_select_unary n c = Inr m \<and> lifted m \<and> lifted_sim E m n"
proof (cases "is_selection c")
  case True
  then obtain d pairs where c: "c = SelectionNode d pairs" by (cases c) simp_all
  note kid = assms(1) assms(2) [unfolded c]
  show ?thesis
  proof (cases n)
    case (SelectionNode x outer)
    then show ?thesis using over_selection_sound [of d pairs outer E] kid c by simp
  next
    case (ResultNode x outs ord k)
    then show ?thesis using result_sound [of d pairs outs ord k E] kid c by simp
  next
    case (AggregateNode x aggs ks os dn)
    then show ?thesis using aggregate_sound [of d pairs aggs ks os dn E] kid c by simp
  next
    case (ExplodeNode x cols off)
    then show ?thesis using explode_sound [of d pairs cols off E] kid c by simp
  next
    case (PromoteOffsetsNode x i)
    then show ?thesis using additive_sound [OF kid, of E] kid c by simp
  next
    case (ProjectionNode x asg)
    then show ?thesis using additive_sound [OF kid, of E] kid c by simp
  next
    case (WindowOpNode x ds w)
    then show ?thesis using additive_sound [OF kid, of E] kid c by simp
  next
    case (CteNode x)
    then show ?thesis using kid c by (simp add: lifted_sim_refl)
  qed (use keeps_columns_sound [OF kid, of E] assms(2,3) c in auto)
next
  case False
  then show ?thesis using assms(1) by (cases c) (simp_all add: lifted_sim_refl)
qed

lemma concat_kept:
  assumes "lifted (ConcatNode cs out)"
  shows "handle_selects_under_concat cs out = Inr (ConcatNode cs out)"
proof -
  have "(case child of SelectionNode c pairs \<Rightarrow> rbind (ids c) (\<lambda>_. Inr child) | _ \<Rightarrow> Inr child) = Inr child" if "child \<in> set cs" for child
  proof -
    have "lifted child" using lifted_child [OF assms] that by simp
    then show ?thesis
      using typed_iff [of child] by (cases child) (auto simp: lifted_def ids_def typed_iff)
  qed
  then have "mapM (\<lambda>child. case child of SelectionNode c pairs \<Rightarrow> rbind (ids c) (\<lambda>_. Inr child) | _ \<Rightarrow> Inr child) cs = Inr (map (\<lambda>c. c) cs)"
    by (rule mapM_InrI)
  then show ?thesis by (simp add: handle_selects_under_concat_def)
qed

lemma pull_up_select_sound:
  assumes "lifted n"
  shows "\<exists>m. pull_up_select True n = Inr m \<and> lifted m \<and> lifted_sim E m n"
proof (cases "is_unary n")
  case True
  then obtain c where c: "child_nodes n = [c]" by (cases n) simp_all
  then have "pull_up_select True n = pull_up_select_unary n c" using True by (cases n) simp_all
  then show ?thesis using select_unary_sound [OF assms c True, of E] by simp
next
  case False
  then show ?thesis
    using assms source_ids_sound [OF assms, of E] concat_kept
    by (cases n) (auto simp: lifted_sim_refl pull_up_selects_under_join_def simp del: pull_up_source_ids.simps)
qed

lemma pullable_transform:
  assumes "pullable n" "\<And>c. c \<in> set (child_nodes n) \<Longrightarrow> names_below (t c) \<subseteq> names_below c"
  shows "pullable (transform_children t n)"
proof -
  have "defined_ids (transform_children t n) = defined_ids n" "typed_exprs (transform_children t n) = typed_exprs n"
    "selects_each_once (transform_children t n) = selects_each_once n" "result_ordered (transform_children t n) = result_ordered n"
    by (cases n; simp)+
  then show ?thesis using assms by (fastforce simp: pullable_def)
qed

interpretation pulling: total_rewrite "pure_step (pull_up_select True)" "lifted_sim E" lifted "\<lambda>_ _. True" "\<lambda>_ _. True" for E
proof unfold_locales
  fix n m and s s' :: unit assume "lifted n" "pure_step (pull_up_select True) n s = Inr (m, s')"
  then show "lifted m \<and> lifted_sim E m n \<and> True \<and> True"
    using pull_up_select_sound [of n E] by (auto simp: pure_step_def)
next
  fix n and s :: unit assume "lifted n"
  then show "\<exists>m s'. pure_step (pull_up_select True) n s = Inr (m, s')"
    using pull_up_select_sound [of n E] by (auto simp: pure_step_def)
next
  fix n t
  assume n: "lifted n" and kids: "\<And>c. c \<in> set (child_nodes n) \<Longrightarrow> lifted (t c) \<and> lifted_sim E (t c) c"
  have same: "scoped (transform_children t n) \<and> typed (transform_children t n) \<and> same_plan E (transform_children t n) n"
    using same_plan_transform [of n t E] n kids by (auto simp: lifted_def lifted_sim_def)
  have "everywhere pullable (transform_children t n)"
    using n kids by (intro everywhere_transform pullable_transform) (auto simp: lifted_def lifted_sim_def everywhere_iff [of pullable n])
  moreover have "names_below (transform_children t n) \<subseteq> names_below n"
  proof -
    have "scan_names (transform_children t n) = scan_names n" by (cases n) simp_all
    then show ?thesis
      using same kids unfolding names_below_unfold [of n] names_below_unfold [of "transform_children t n"]
      by (fastforce simp: lifted_sim_def same_plan_def same_output_def)
  qed
  ultimately show "lifted (transform_children t n) \<and> lifted_sim E (transform_children t n) n"
    using same by (simp add: lifted_def lifted_sim_def)
qed (auto intro: lifted_child same_plan_trans simp: lifted_sim_def)

subsection \<open>Where the selections end\<close>

text \<open>No node over one other but a common table expression is left over a selection.\<close>

fun is_cte :: "bfnode \<Rightarrow> bool" where
  "is_cte (CteNode c) = True"
| "is_cte n = False"

definition unselected_below :: "bfnode \<Rightarrow> bool" where
  "unselected_below n \<longleftrightarrow> is_unary n \<and> \<not> is_cte n \<longrightarrow> list_all (\<lambda>c. \<not> is_selection c) (child_nodes n)"

lemma pushed_shape:
  "pushed_down n c pairs = Inr p \<Longrightarrow> child_nodes p = [c] \<and> is_selection p = is_selection n"
  by (cases n) (auto simp: pushed_down_def replace_child_def rbind_eq_Inr_iff FilterNode_remap_refs_def OrderByNode_remap_refs_def
      SelectionNode_remap_refs_def ProjectionNode_remap_refs_def AggregateNode_remap_refs_def WindowOpNode_remap_refs_def
      ExplodeNode_remap_refs_def ResultNode_remap_refs_def InNode_remap_refs_def JoinNode_remap_refs_def Let_def split: if_splits)

lemma additive_pushed_shape:
  "replace_additive_base n c = Inr n' \<Longrightarrow> is_unary n \<Longrightarrow> remap_refs m n' = Inr p \<Longrightarrow> child_nodes p = [c] \<and> \<not> is_selection p"
  by (cases n) (auto simp: rbind_eq_Inr_iff ProjectionNode_remap_refs_def WindowOpNode_remap_refs_def)

lemma settled_pushed:
  "child_nodes p = [c] \<Longrightarrow> \<not> is_selection c \<Longrightarrow> everywhere unselected_below c \<Longrightarrow> everywhere unselected_below p"
  by (simp add: everywhere_iff [of _ p] unselected_below_def)

lemma concat_children:
  assumes "handle_selects_under_concat cs out = Inr m"
  shows "m = ConcatNode cs out"
proof -
  have "new_children = cs"
    if "mapM (\<lambda>child. case child of SelectionNode c pairs \<Rightarrow> rbind (ids c) (\<lambda>_. Inr child) | _ \<Rightarrow> Inr child) cs = Inr new_children" for new_children
    using that by (induction cs arbitrary: new_children) (auto simp: rbind_eq_Inr_iff split: bfnode.splits)
  then show ?thesis using assms by (auto simp: handle_selects_under_concat_def rbind_eq_Inr_iff)
qed

lemma pull_up_settles:
  assumes "pull_up_select True n = Inr m" "\<And>c. c \<in> set (child_nodes n) \<Longrightarrow> everywhere unselected_below c"
  shows "everywhere unselected_below m"
proof (cases "is_unary n")
  case True
  then obtain x where x: "child_nodes n = [x]" by (cases n) simp_all
  then have step: "pull_up_select_unary n x = Inr m" using True assms(1) by (cases n) simp_all
  have kid: "everywhere unselected_below x" using assms(2) x by simp
  show ?thesis
  proof (cases "is_selection x")
    case True
    then obtain c pairs where c: "x = SelectionNode c pairs" by (cases x) simp_all
    have below: "\<not> is_selection c" "everywhere unselected_below c"
      using kid by (simp_all add: c unselected_below_def)
    have over: "everywhere unselected_below (SelectionNode p sels)" if "child_nodes p = [c]" "\<not> is_selection p" for p sels
      using settled_pushed [OF that(1) below] that(2) by (simp add: unselected_below_def)
    show ?thesis
    proof (cases "is_cte n")
      case True
      then have "m = n" using step by (cases n) (simp_all add: c)
      then show ?thesis using True x kid by (simp add: everywhere_iff [of _ n] unselected_below_def)
    next
      case False
      then show ?thesis
        using step x \<open>is_unary n\<close> below
        by (cases n) (auto simp: c rbind_eq_Inr_iff pull_over_aggregate_def pull_over_explode_def pull_over_additive_def
            simp del: everywhere_simps(13) remap_refs.simps replace_additive_base.simps
            dest!: pushed_shape additive_pushed_shape intro!: over intro: settled_pushed)
    qed
  next
    case False
    then have "m = n" using step by (cases x) simp_all
    then show ?thesis using kid x False by (simp add: everywhere_iff [of _ n] unselected_below_def)
  qed
next
  case False
  then show ?thesis
    using assms
    by (cases n) (auto simp: pull_up_selects_under_join_def unselected_below_def list_all_iff everywhere_iff [of _ "SelectionNode _ _"]
        dest!: concat_children split: if_splits)
qed


lemma defer_selection_sound:
  assumes "lifted r0"
  shows "\<exists>m. defer_selection r0 = Some (Inr m) \<and> lifted m \<and> same_plan E m r0 \<and> everywhere unselected_below m"
proof -
  obtain m where m: "bottom_up (pure_step (pull_up_select True)) r0 () = Some (Inr (m, ()))" "lifted m" "same_plan E m r0"
    using pulling.bottom_up_returns [OF assms, of "()" E] by (auto simp: lifted_sim_def)
  moreover have "everywhere unselected_below m"
    by (rule bottom_up_establishes [OF m(1), of "\<lambda>_. True"]) (auto simp: pure_step_def rbind_eq_Inr_iff intro: pull_up_settles)
  ultimately show ?thesis by (auto simp: defer_selection_def)
qed

end
