(* ===== verification/Rewrite_Properties.thy ===== *)
theory Rewrite_Properties
  imports Selection_Soundness Sample_Plans
begin

text \<open>
  The properties of the rewrites of \<^verbatim>\<open>core/rewrite\<close> other than pruning, each at a concrete plan.
\<close>

subsection \<open>Slices\<close>

lemma integer_ops_sample: "integer_ops sample_engine"
  by (auto simp: integer_ops_def sample_engine_def sample_op_def int_op_def dvd_eq_mod_eq_0)

text \<open>
  C23: Rewriting the slices of a plan bottom-up always returns, and gives a plan without slices that
  has the columns, the fields and the table of the original. The engine's integer operators are those of
  integers; the plan is well scoped, its fields can be computed, it has no column whose identifier is still to be
  generated, its sources report their sizes rightly and no limit is negative; and its slices fit: no slice
  starts before the first row backwards, and where a slice counts from the end, or by a step from a negative
  start, the residue that the code tests is that of the slice, as written and in forward offsets.
\<close>

theorem slice_rewrite_keeps_plan:
  assumes "sliceable E r0" "ids_older s r0"
  shows "\<exists>m s'. bottom_up rewrite_slice r0 s = Some (Inr (m, s')) \<and> sliceable E m \<and> same_plan E m r0 \<and> no_slices m"
  by (rule rewrite_slices_sound [OF assms])

lemma sample_fits: "slices_fit sample_engine sample_filter" "ids_older s sample_filter"
  by (simp_all add: sample_defs slices_fit_iff [of _ "FilterNode _ _"] slices_fit_iff [of _ "ReadTableNode _ _ _"]
      ids_older_iff [of _ "FilterNode _ _"] ids_older_iff [of _ "ReadTableNode _ _ _"] older_def guid_id_def sample_engine_def)

lemma sample_slice_ok:
  "sliceable sample_engine (SliceNode sample_filter (Some 1) None 1)" "ids_older 0 (SliceNode sample_filter (Some 1) None 1)"
proof -
  have "slice_fits sample_engine (SliceNode sample_filter (Some 1) None 1)"
    by (rule unit_slice_fits) (simp_all add: the_step_def)
  then show "sliceable sample_engine (SliceNode sample_filter (Some 1) None 1)"
    using sample_typed(2) sample_scoped(2) sample_fits(1) integer_ops_sample typed_iff [of sample_filter]
    by (simp add: sliceable_def slices_fit_iff [of _ "SliceNode _ _ _ _"] typed_iff [of "SliceNode _ _ _ _"] the_step_def
        del: slice_fits.simps)
  show "ids_older 0 (SliceNode sample_filter (Some 1) None 1)"
    using sample_fits(2) ids_older_iff [of 0 sample_filter] by (simp add: ids_older_iff [of 0 "SliceNode _ _ _ _"])
qed

theorem slice_rewrite_keeps_plan_witness:
  "\<exists>m s'. bottom_up rewrite_slice (SliceNode sample_filter (Some 1) None 1) 0 = Some (Inr (m, s')) \<and>
     sliceable sample_engine m \<and> same_plan sample_engine m (SliceNode sample_filter (Some 1) None 1) \<and> no_slices m"
  by (rule slice_rewrite_keeps_plan [OF sample_slice_ok])

text \<open>
  A slice of step 1 or -1, or with a positive step from a start that is not negative, is rewritten
  into a plan with the same columns, fields and table whatever the number of rows, provided a
  backward slice does not start before the first row.
\<close>

lemma unit_slice_rewrite_keeps_plan:
  assumes "\<bar>step\<bar> = 1 \<or> 0 < step \<and> (case start of None \<Rightarrow> True | Some a \<Rightarrow> 0 \<le> a)"
    and "forward_safe (start, stop, Some step) (int (length (rows E c)))" "sliceable E c" "ids_older s c"
  shows "\<exists>m s'. rewrite_slice (SliceNode c start stop step) s = Inr (m, s') \<and> same_plan E m (SliceNode c start stop step)"
proof -
  have "slices_fit E (SliceNode c start stop step)"
    using unit_slice_fits [OF assms(1,2)] assms(2,3)
    by (simp add: sliceable_def slices_fit_iff [of E "SliceNode _ _ _ _"] del: slice_fits.simps forward_safe.simps)
  then have "sliceable E (SliceNode c start stop step)"
    using assms(3) typed_iff [of c] by (simp add: sliceable_def typed_iff [of "SliceNode _ _ _ _"])
  moreover have "ids_older s (SliceNode c start stop step)"
    using assms(4) ids_older_iff [of s c] by (simp add: ids_older_iff [of s "SliceNode _ _ _ _"])
  ultimately show ?thesis using slicing.step_returns slicing.step_sound by blast
qed

lemma sample_fields: "node_fields sample_filter = Inr [mk_field (ColumnId ''a'') (Some INT_DTYPE) True,
     mk_field (ColumnId ''b'') (Some INT_DTYPE) True, mk_field (ColumnId ''c'') (Some STRING_DTYPE) True]"
  using sample_scan_fields by (simp add: sample_filter_def)

lemma sample_filter_rows: "\<exists>r0 r1. rows sample_engine sample_filter = [r0, r1] \<and>
    r0 (ColumnId ''a'') = IntS 3 \<and> r1 (ColumnId ''a'') = IntS 2"
  by (simp add: sample_defs sample_engine_def sample_op_def int_op_def read_table_def filter_rows_def scan_row_def dict_of_def)

text \<open>
  C24: a slice with the step -3 of two rows of unknown number keeps the first row where Python's
  slice keeps the last.
\<close>

theorem slice_rewrite_wrong_residue:
  "\<exists>m s'. rewrite_slice (SliceNode sample_filter None None (- 3)) 0 = Inr (m, s') \<and>
     map (\<lambda>r. r (ColumnId ''a'')) (rows sample_engine m) = [IntS 3] \<and>
     map (\<lambda>r. r (ColumnId ''a'')) (rows sample_engine (SliceNode sample_filter None None (- 3))) = [IntS 2]"
proof -
  obtain r0 r1 where rs: "rows sample_engine sample_filter = [r0, r1]" "r0 (ColumnId ''a'') = IntS 3" "r1 (ColumnId ''a'') = IntS 2"
    using sample_filter_rows by blast
  let ?m = "SelectionNode (FilterNode (PromoteOffsetsNode (ReversedNode (PromoteOffsetsNode sample_filter (guid_id 1)) True) (guid_id 2))
      (or_true (merge_predicates [OpExpression GeOp [Deref (DerefOp (guid_id 2)), int_const 0],
         residue_cond (OpExpression AddOp [Deref (DerefOp (guid_id 2)), int_const 2]) (- 3)])))
      (map AliasedRef_identity [ColumnId ''a'', ColumnId ''b'', ColumnId ''c''])"
  have fresh: "ColumnId [x] \<noteq> guid_id k" for x k by (simp add: guid_id_def)
  have row_count: "row_count sample_filter = None" by (simp add: sample_filter_def)
  have rewritten: "rewrite_slice (SliceNode sample_filter None None (- 3)) 0 = Inr (?m, 2)"
    using sample_fields fresh
    by (simp add: rewrite_slice_node_def is_noop_def is_reverse_def slice_as_filter_def add_offsets_def ColumnId_unique_eq
        convert_complex_slice_def complex_start_cond_def complex_start_diff_def drop_cols_def ids_def
        PromoteOffsetsNode_added_fields_def AliasedRef_identity_def numeral_2_eq_2 truthy_int_def row_count)
  have kept: "map (\<lambda>r. r (ColumnId ''a'')) (rows sample_engine ?m) = [IntS 3]"
    using rs by (simp add: promote_offsets_map filter_rows_def residue_cond_def int_const_def const_def or_true_def sample_engine_def
        sample_op_def int_op_def AliasedRef_identity_def select_row_def dict_of_def guid_id_def)
  have sliced: "map (\<lambda>r. r (ColumnId ''a'')) (rows sample_engine (SliceNode sample_filter None None (- 3))) = [IntS 2]"
    using rs by (simp add: py_slice_def slice_start_def slice_stop_def the_step_def py_range_def range_length_def)
  show ?thesis by (intro exI conjI) (rule rewritten kept sliced)+
qed

subsection \<open>Limits\<close>

text \<open>
  C25: Pulling the limits of a plan into its result node keeps the result, where the result node has no order
  of its own, as the compiler calls it, and not the limit 0 (which is lost). The sources report their
  sizes rightly, no slice of the plan starts before the first row backwards, and no limit within the plan is
  negative.
\<close>

theorem pull_up_limits_keeps_result:
  assumes "everywhere (counted E) c" "limit \<noteq> Some 0"
  shows "same_output E (pull_up_limits c outs None limit) (ResultNode c outs None limit)"
  by (rule pull_up_limits_sound [OF assms])

theorem pull_up_limits_keeps_result_witness:
  "same_output sample_engine (ResultNode sample_scan [(col ''a'', ''a'')] None (Some 1))
     (ResultNode (SliceNode sample_scan None (Some 2) 1) [(col ''a'', ''a'')] None (Some 1))"
  using pull_up_limits_keeps_result [of sample_engine "SliceNode sample_scan None (Some 2) 1" "Some 1" "[(col ''a'', ''a'')]"]
  by (simp add: pull_up_limits_def SliceNode_is_limit_def truthy_int_def sample_defs sample_engine_def)



subsection \<open>Scans and row counts\<close>

text \<open>
  C37: A well-scoped plan of table scans and selections whose fields can be computed, where every selection selects
  some column and uses none twice, is always reduced to one table scan, with the columns, the fields and
  the table of the plan. (An empty selection is left out: the scan keeps one column for it.)
\<close>

theorem table_scan_reduced:
  assumes "scannable r0" "everywhere selects_scans r0"
  shows "\<exists>m. try_reduce_to_table_scan r0 = Some (Inr (Some m)) \<and> is_table_scan m \<and> same_plan E m r0"
  by (rule table_scan_complete [OF assms])

lemma sample_columns_ok: "scannable sample_columns" "everywhere selects_scans sample_columns"
proof -
  note sample_columns_typed
  moreover have "scoped sample_columns" by (simp add: sample_columns_def sample_defs)
  moreover have "everywhere mergeable sample_columns" by (simp add: sample_columns_def sample_defs)
  ultimately show "scannable sample_columns" by (simp add: scannable_def)
  show "everywhere selects_scans sample_columns"
    by (simp add: sample_columns_def sample_defs has_multi_referenced_ids_def)
qed

theorem table_scan_reduced_witness:
  "\<exists>m. try_reduce_to_table_scan sample_columns = Some (Inr (Some m)) \<and> is_table_scan m \<and> same_plan sample_engine m sample_columns"
  by (rule table_scan_reduced [OF sample_columns_ok])

subsection \<open>Selections\<close>

text \<open>
  C8: deferring the selections of a plan always returns, and gives a plan with the columns, the
  fields and the table of the original in which no node of one child but a common table expression is over
  a selection, provided no name is defined twice on a path and no selection uses a column twice.
\<close>

theorem defer_selection_keeps_plan:
  assumes "lifted r0"
  shows "\<exists>m. defer_selection r0 = Some (Inr m) \<and> lifted m \<and> same_plan E m r0 \<and> everywhere unselected_below m"
  by (rule defer_selection_sound [OF assms])

lemma sample_lifted: "lifted (FilterNode sample_columns (OpExpression GtOp [Deref (col ''y''), ScalarConstantExpression (IntV 1) (Some INT_DTYPE)]))"
proof -
  have "typed sample_columns" by (rule sample_columns_typed)
  moreover have "scoped sample_columns" by (simp add: sample_columns_def sample_defs)
  moreover have "everywhere pullable sample_columns"
    by (simp add: sample_columns_def sample_defs pullable_def)
  ultimately show ?thesis
    using typed_iff [of sample_columns]
    by (simp add: lifted_def pullable_def typed_iff [of "FilterNode _ _"]) (simp add: sample_columns_def col_def)
qed

theorem defer_selection_keeps_plan_witness:
  "\<exists>m. defer_selection (FilterNode sample_columns (OpExpression GtOp [Deref (col ''y''), ScalarConstantExpression (IntV 1) (Some INT_DTYPE)])) =
       Some (Inr m) \<and> lifted m \<and>
     same_plan sample_engine m (FilterNode sample_columns (OpExpression GtOp [Deref (col ''y''), ScalarConstantExpression (IntV 1) (Some INT_DTYPE)])) \<and>
     everywhere unselected_below m"
  by (rule defer_selection_keeps_plan [OF sample_lifted])

text \<open>The cells of an explosion that was pushed below a selection, at the columns that the selection makes of one column.\<close>

lemma explode_pushed_cells:
  assumes "distinct (map snd pairs)" "(d, x) \<in> set pairs" "ref_id d' = ref_id d"
    and "set cols \<subseteq> snd ` set pairs" "x \<in> set cols" "off \<noteq> Some x" "off \<noteq> Some (ref_id d)"
  shows "map (\<lambda>r. r (ref_id d')) (explode_row (map (get_or_self (selection_mapping pairs)) cols) off s) =
    map (\<lambda>r. r x) (explode_row cols off (select_row pairs s))"
proof -
  let ?g = "get_or_self (selection_mapping pairs)"
  have cell: "select_row pairs s i = s (?g i)" if "i \<in> set cols" for i
  proof -
    have "i \<in> snd ` set pairs" using assms(4) that by blast
    then obtain e where "(e, i) \<in> set pairs" by force
    then show ?thesis using selection_mapping_pair [OF assms(1)] by (simp add: select_row_mapping get_or_self_def)
  qed
  have "?g x = ref_id d" using selection_mapping_pair [OF assms(1,2)] by (simp add: get_or_self_def)
  then have "ref_id d \<in> ?g ` set cols" "select_row pairs s x = s (ref_id d)" using assms(5) cell [OF assms(5)] by force+
  moreover have "(case cols of [] \<Rightarrow> 0 | c # _ \<Rightarrow> length (array_items (select_row pairs s c))) =
      (case map ?g cols of [] \<Rightarrow> 0 | c # _ \<Rightarrow> length (array_items (s c)))"
    using cell by (cases cols) auto
  ultimately show ?thesis using assms(3,5-7) by (simp add: explode_row_def)
qed

lemma explode_kept_cells: "off \<noteq> Some y \<Longrightarrow> y \<notin> set cols \<Longrightarrow> r \<in> set (explode_row cols off s) \<Longrightarrow> r y = s y"
  by (auto simp: explode_row_def Let_def)

text \<open>
  C17: An explosion is pushed below a selection with every use of a column exploded. Where a selection makes
  two columns of one and the explosion is of the first, the rewritten plan has the exploded values in the second
  column too, row for row, which in the plan it was given has the values of the selected column as they are.
\<close>

theorem explode_repeated_column:
  assumes "scoped (ExplodeNode (SelectionNode c pairs) cols off)" "set_option off \<inter> set (out_ids c) = {}"
    and "(d, x) \<in> set pairs" "(d', y) \<in> set pairs" "ref_id d' = ref_id d"
    and "x \<in> set (map ref_id cols)" "y \<notin> set (map ref_id cols)"
    and "pull_up_select prefer (ExplodeNode (SelectionNode c pairs) cols off) = Inr m"
  shows "map (\<lambda>r. r y) (rows E m) = map (\<lambda>r. r x) (rows E (ExplodeNode (SelectionNode c pairs) cols off)) \<and>
    (\<forall>r \<in> set (rows E (ExplodeNode (SelectionNode c pairs) cols off)). \<exists>s \<in> set (rows E c). r y = s (ref_id d))"
proof
  let ?m = "selection_mapping pairs"
  have dist: "distinct (map snd pairs)" and cols: "set (map ref_id cols) \<subseteq> snd ` set pairs"
    and off: "off \<noteq> Some x" "off \<noteq> Some y" "off \<noteq> Some (ref_id d)" "\<And>i. off = Some i \<Longrightarrow> i \<notin> snd ` set pairs"
    using assms(1-4) by (force simp: list_all_iff)+
  obtain cols' where cols': "mapM (deref_remap ?m False) cols = Inr cols'"
    and m: "m = SelectionNode (ExplodeNode c cols' off) (case off of None \<Rightarrow> pairs | Some i \<Rightarrow> pairs @ [(DerefOp i, i)])"
    using assms(8) by (auto simp: pull_over_explode_def pushed_down_def ExplodeNode_remap_refs_def replace_child_def rbind_eq_Inr_iff)
  have "map ref_id cols' = map (get_or_self ?m) (map ref_id cols)"
    using cols' by (induction cols arbitrary: cols') (auto simp: rbind_eq_Inr_iff deref_remap_def get_or_self_def split: option.splits)
  moreover have "select_row (case off of None \<Rightarrow> pairs | Some i \<Rightarrow> pairs @ [(DerefOp i, i)]) r y = r (ref_id d')" for r
    using off dist assms(4) by (intro select_row_dict) (auto split: option.split)
  ultimately show "map (\<lambda>r. r y) (rows E m) = map (\<lambda>r. r x) (rows E (ExplodeNode (SelectionNode c pairs) cols off))"
    using explode_pushed_cells [OF dist assms(3,5) cols assms(6) off(1,3)] by (simp add: m map_concat comp_def)
  have "select_row pairs s y = s (ref_id d)" for s using select_row_dict [OF dist assms(4)] assms(5) by simp
  then show "\<forall>r \<in> set (rows E (ExplodeNode (SelectionNode c pairs) cols off)). \<exists>s \<in> set (rows E c). r y = s (ref_id d)"
    using explode_kept_cells [OF off(2) assms(7)] by fastforce
qed

definition sample_exploded :: bfnode where
  "sample_exploded = ExplodeNode (SelectionNode sample_scan [(col ''a'', ColumnId ''x''), (col ''a'', ColumnId ''y'')]) [col ''x''] None"

theorem explode_repeated_column_witness:
  "\<exists>m. pull_up_select True sample_exploded = Inr m \<and> map (\<lambda>r. r (ColumnId ''y'')) (rows sample_engine sample_exploded) = [IntS 3, IntS 1, IntS 2] \<and>
     map (\<lambda>r. r (ColumnId ''y'')) (rows sample_engine m) = [NULL, NULL, NULL]"
proof -
  let ?m = "SelectionNode (ExplodeNode sample_scan [col ''a''] None) [(col ''a'', ColumnId ''x''), (col ''a'', ColumnId ''y'')]"
  have m: "pull_up_select True sample_exploded = Inr ?m"
    by (simp add: sample_exploded_def pull_over_explode_def pushed_down_def ExplodeNode_remap_refs_def deref_remap_def selection_mapping_def
      replace_child_def dict_of_def sample_defs)
  have rows: "map (\<lambda>r. r (ColumnId ''x'')) (rows sample_engine sample_exploded) = [NULL, NULL, NULL]"
    "map (\<lambda>r. r (ColumnId ''y'')) (rows sample_engine sample_exploded) = [IntS 3, IntS 1, IntS 2]"
    by (simp_all add: sample_exploded_def dict_of_def sample_defs sample_engine_def read_table_def scan_row_def select_row_def explode_row_def)
  have "map (\<lambda>r. r (ColumnId ''y'')) (rows sample_engine ?m) = map (\<lambda>r. r (ColumnId ''x'')) (rows sample_engine sample_exploded)"
    unfolding sample_exploded_def
    by (rule explode_repeated_column [THEN conjunct1, OF _ _ _ _ _ _ _ m [unfolded sample_exploded_def], of "col ''a''" "ColumnId ''x''" "col ''a''"])
      (simp_all add: sample_defs col_def)
  then show ?thesis using m rows by auto
qed

end
