(* ===== verification/Array_Values.thy ===== *)
theory Array_Values
  imports Row_Alignment
begin

text \<open>
  \<^verbatim>\<open>ArrayValue\<close> of \<^verbatim>\<open>core/array_value.py\<close>: the immutable table values from which plans are built.
  A value is its plan; an operation that generates identifiers threads their counter. The plans
  that the operations build are well scoped, hold no identifier still to be generated, and never
  define a column again.
\<close>

type_synonym array_value = bfnode

subsection \<open>Columns\<close>

definition deref_col :: "string \<Rightarrow> deref" where
  "deref_col nm = DerefOp (ColumnId nm)"

definition ArrayValue_column_ids :: "array_value \<Rightarrow> string list result" where
  "ArrayValue_column_ids av = rbind (node_schema av) (\<lambda>s. Inr (schema_names s))"

definition ArrayValue_get_column_type :: "array_value \<Rightarrow> string \<Rightarrow> etype result" where
  "ArrayValue_get_column_type av key = rbind (node_schema av) (\<lambda>s. schema_get_type s key)"

text \<open>\<^verbatim>\<open>_gen_namespaced_uids\<close>\<close>

fun gen_namespaced_uids :: "nat \<Rightarrow> nat \<Rightarrow> string list \<times> nat" where
  "gen_namespaced_uids 0 counter = ([], counter)"
| "gen_namespaced_uids (Suc n) counter =
     (case ColumnId_unique counter of (i, counter1) \<Rightarrow>
      case gen_namespaced_uids n counter1 of (names, counter2) \<Rightarrow> (id_name i # names, counter2))"

definition gen_namespaced_uid :: "nat \<Rightarrow> string \<times> nat" where
  "gen_namespaced_uid counter = (case gen_namespaced_uids 1 counter of (names, counter') \<Rightarrow> (hd names, counter'))"

subsection \<open>Sources\<close>

definition ArrayValue_from_managed :: "local_source \<Rightarrow> session \<Rightarrow> array_value" where
  "ArrayValue_from_managed source session =
     ReadLocalNode source (map (\<lambda>(column, _). ScanItem (ColumnId column) column) (local_schema source)) session None"

definition ArrayValue_from_range :: "array_value \<Rightarrow> array_value \<Rightarrow> int \<Rightarrow> array_value" where
  "ArrayValue_from_range start end step = FromRangeNode start end step (ColumnId ''labels'')"

definition ArrayValue_from_bq_data_source :: "bq_source \<Rightarrow> scan_list \<Rightarrow> session \<Rightarrow> array_value" where
  "ArrayValue_from_bq_data_source source scan_list session = ReadTableNode source scan_list session"

subsection \<open>Operations\<close>

definition ArrayValue_row_count :: "array_value \<Rightarrow> nat \<Rightarrow> array_value \<times> nat" where
  "ArrayValue_row_count av counter =
     (case generate_guid ''col_'' counter of (name, counter') \<Rightarrow>
        (AggregateNode av [(NullaryAggregation SizeOp, ColumnId name)] [] [] True, counter'))"

text \<open>A predicate by name is a scalar expression, which \<^verbatim>\<open>filter\<close> puts into a filter node.\<close>

definition ArrayValue_filter_by_id :: "array_value \<Rightarrow> string \<Rightarrow> bool \<Rightarrow> array_value" where
  "ArrayValue_filter_by_id av predicate_id keep_null =
     (let predicate = Deref (deref_col predicate_id);
          predicate = (if keep_null then OpExpression FillNaOp [predicate, const (BoolV True) None] else predicate)
      in FilterNode av predicate)"

definition ArrayValue_order_by :: "array_value \<Rightarrow> expr ordering_expression list \<Rightarrow> bool \<Rightarrow> array_value" where
  "ArrayValue_order_by av by_cols is_total_order = OrderByNode av by_cols is_total_order"

definition ArrayValue_reversed :: "array_value \<Rightarrow> array_value" where
  "ArrayValue_reversed av = ReversedNode av True"

definition ArrayValue_slice :: "array_value \<Rightarrow> int option \<Rightarrow> int option \<Rightarrow> int option \<Rightarrow> array_value" where
  "ArrayValue_slice av start stop step = SliceNode av start stop (case step of Some s \<Rightarrow> s | None \<Rightarrow> 1)"

definition ArrayValue_promote_offsets :: "array_value \<Rightarrow> nat \<Rightarrow> (array_value \<times> string) \<times> nat" where
  "ArrayValue_promote_offsets av counter =
     (case gen_namespaced_uid counter of (col_id, counter') \<Rightarrow> ((PromoteOffsetsNode av (ColumnId col_id), col_id), counter'))"

definition ArrayValue_concat :: "array_value \<Rightarrow> array_value list \<Rightarrow> nat \<Rightarrow> (array_value \<times> nat) result" where
  "ArrayValue_concat av other counter =
     rbind (ArrayValue_column_ids av) (\<lambda>names.
       case gen_namespaced_uids (length names) counter of (out, counter') \<Rightarrow>
         Inr (ConcatNode (av # other) (map ColumnId out), counter'))"

definition ArrayValue_compute_values :: "array_value \<Rightarrow> expr list \<Rightarrow> nat \<Rightarrow> (array_value \<times> string list) \<times> nat" where
  "ArrayValue_compute_values av assignments counter =
     (case gen_namespaced_uids (length assignments) counter of (col_ids, counter') \<Rightarrow>
        ((ProjectionNode av (zip assignments (map ColumnId col_ids)), col_ids), counter'))"

definition ArrayValue_project_to_id :: "array_value \<Rightarrow> expr \<Rightarrow> nat \<Rightarrow> (array_value \<times> string) \<times> nat" where
  "ArrayValue_project_to_id av expression counter =
     (case ArrayValue_compute_values av [expression] counter of ((array_val, names), counter') \<Rightarrow>
        ((array_val, hd names), counter'))"

definition ArrayValue_assign :: "array_value \<Rightarrow> string \<Rightarrow> string \<Rightarrow> array_value result" where
  "ArrayValue_assign av src_id destination_id =
     rbind (ArrayValue_column_ids av) (\<lambda>column_ids.
       Inr (SelectionNode av
         (if destination_id \<in> set column_ids
          then map (\<lambda>col_id. (deref_col (if col_id = destination_id then src_id else col_id), ColumnId col_id)) column_ids
          else map (\<lambda>col_id. AliasedRef_identity (ColumnId col_id)) column_ids @
               [(deref_col src_id, ColumnId destination_id)])))"

definition ArrayValue_create_constant :: "array_value \<Rightarrow> pyvalue \<Rightarrow> dtype option \<Rightarrow> nat \<Rightarrow> (array_value \<times> string) \<times> nat" where
  "ArrayValue_create_constant av value dtype counter =
     (let dtype = (if is_na value then (case dtype of Some t \<Rightarrow> Some t | None \<Rightarrow> Some DEFAULT_DTYPE) else dtype)
      in ArrayValue_project_to_id av (const value dtype) counter)"

text \<open>The references selected so far, the names seen and the counter.\<close>

fun select_refs :: "bool \<Rightarrow> string list \<Rightarrow> string set \<Rightarrow> nat \<Rightarrow> ((deref \<times> column_id) list \<times> nat) result" where
  "select_refs allow_renames [] seen counter = Inr ([], counter)"
| "select_refs allow_renames (nm # names) seen counter =
     (if nm \<notin> seen then
        rbind (select_refs allow_renames names (insert nm seen) counter) (\<lambda>(refs, counter').
          Inr (AliasedRef_identity (ColumnId nm) # refs, counter'))
      else if allow_renames then
        (case generate_guid ''col_'' counter of (new_name, counter1) \<Rightarrow>
          rbind (select_refs allow_renames names (insert nm seen) counter1) (\<lambda>(refs, counter').
            Inr ((deref_col nm, ColumnId new_name) # refs, counter')))
      else Inl ValueError)"

definition ArrayValue_select_columns :: "array_value \<Rightarrow> string list \<Rightarrow> bool \<Rightarrow> nat \<Rightarrow> (array_value \<times> nat) result" where
  "ArrayValue_select_columns av column_ids allow_renames counter =
     rbind (select_refs allow_renames column_ids {} counter) (\<lambda>(selections, counter').
       Inr (SelectionNode av selections, counter'))"

text \<open>The overrides are a dictionary's pairs.\<close>

definition ArrayValue_rename_columns :: "array_value \<Rightarrow> (string \<times> string) list \<Rightarrow> array_value result" where
  "ArrayValue_rename_columns av col_id_overrides =
     (if col_id_overrides = [] then Inr av
      else rbind (ArrayValue_column_ids av) (\<lambda>names.
           rbind (ids av) (\<lambda>old_ids.
             Inr (SelectionNode av
               (zip (map DerefOp old_ids) (map (\<lambda>nm. ColumnId (get_or_self (dict_of col_id_overrides) nm)) names))))))"

definition ArrayValue_drop_columns :: "array_value \<Rightarrow> string list \<Rightarrow> nat \<Rightarrow> (array_value \<times> nat) result" where
  "ArrayValue_drop_columns av columns counter =
     rbind (ArrayValue_column_ids av) (\<lambda>column_ids.
       ArrayValue_select_columns av (filter (\<lambda>col_id. col_id \<notin> set columns) column_ids) False counter)"

definition ArrayValue_aggregate :: "array_value \<Rightarrow> (expr \<times> string) list \<Rightarrow> string list \<Rightarrow> bool \<Rightarrow> array_value" where
  "ArrayValue_aggregate av aggregations by_column_ids dropna =
     AggregateNode av (map (\<lambda>(agg, name). (agg, ColumnId name)) aggregations) (map deref_col by_column_ids) [] dropna"

definition ArrayValue_project_window_expr :: "array_value \<Rightarrow> expr list \<Rightarrow> expr window_spec \<Rightarrow> nat
    \<Rightarrow> (array_value \<times> string list) \<times> nat" where
  "ArrayValue_project_window_expr av expressions window counter =
     (case gen_namespaced_uids (length expressions) counter of (id_strings, counter') \<Rightarrow>
        ((WindowOpNode av (map (\<lambda>(expression, id_str). ColumnDef expression (ColumnId id_str)) (zip expressions id_strings)) window,
          id_strings), counter'))"

definition ArrayValue_isin :: "array_value \<Rightarrow> array_value \<Rightarrow> string \<Rightarrow> nat \<Rightarrow> ((array_value \<times> string) \<times> nat) result" where
  "ArrayValue_isin av other lcol counter =
     rbind (ArrayValue_column_ids other) (\<lambda>other_columns.
     rbind (assert_that (length other_columns = 1)) (\<lambda>_.
       case ColumnId_unique counter of (i, counter') \<Rightarrow> Inr ((InNode av other (deref_col lcol) i, id_name i), counter')))"

subsection \<open>Joins\<close>

text \<open>The values of a dictionary comprehension that draws an identifier for every name already taken.\<close>

fun conflict_renames :: "string set \<Rightarrow> string list \<Rightarrow> nat \<Rightarrow> (string \<times> string) list \<times> nat" where
  "conflict_renames taken [] counter = ([], counter)"
| "conflict_renames taken (nm # names) counter =
     (if nm \<notin> taken then
        (case conflict_renames taken names counter of (renames, counter') \<Rightarrow> ((nm, nm) # renames, counter'))
      else
        (case generate_guid ''col_'' counter of (new_name, counter1) \<Rightarrow>
         case conflict_renames taken names counter1 of (renames, counter') \<Rightarrow> ((nm, new_name) # renames, counter')))"

definition ArrayValue_prepare_join_names :: "array_value \<Rightarrow> array_value \<Rightarrow> nat
    \<Rightarrow> ((bfnode \<times> (string \<times> string) list) \<times> nat) result" where
  "ArrayValue_prepare_join_names av other counter =
     rbind (ids other) (\<lambda>other_ids.
     rbind (ids av) (\<lambda>own_ids.
       if set other_ids \<inter> set own_ids \<noteq> {} then
         rbind (ArrayValue_column_ids av) (\<lambda>column_ids.
           case conflict_renames (set column_ids) (map id_name other_ids) counter of (renames, counter') \<Rightarrow>
             let r_mapping = dict_items renames
             in Inr ((SelectionNode other (map (\<lambda>(old_id, new_id). (deref_col old_id, ColumnId new_id)) r_mapping), r_mapping), counter'))
       else rbind (ArrayValue_column_ids other) (\<lambda>names. Inr ((other, dict_items (map (\<lambda>nm. (nm, nm)) names)), counter))))"

definition identity_mapping :: "array_value \<Rightarrow> (string \<times> string) list result" where
  "identity_mapping av = rbind (ids av) (\<lambda>is. Inr (dict_items (map (\<lambda>i. (id_name i, id_name i)) is)))"

fun check_join_types :: "array_value \<Rightarrow> array_value \<Rightarrow> (string \<times> string) list \<Rightarrow> unit result" where
  "check_join_types av other [] = Inr ()"
| "check_join_types av other ((lcol, rcol) # conditions) =
     rbind (ArrayValue_get_column_type av lcol) (\<lambda>ltype.
     rbind (ArrayValue_get_column_type other rcol) (\<lambda>rtype.
       if \<not> can_compare ltype rtype then Inl TypeError else check_join_types av other conditions))"

text \<open>\<^verbatim>\<open>strictly_ordered\<close> is the session's ordering mode.\<close>

definition ArrayValue_relational_join :: "bool \<Rightarrow> array_value \<Rightarrow> array_value \<Rightarrow> (string \<times> string) list \<Rightarrow> join_type \<Rightarrow> bool option
    \<Rightarrow> nat \<Rightarrow> ((array_value \<times> (string \<times> string) list \<times> (string \<times> string) list) \<times> nat) result" where
  "ArrayValue_relational_join strictly_ordered av other conditions join_type propogate_order counter =
     rbind (check_join_types av other conditions) (\<lambda>_.
     rbind (identity_mapping av) (\<lambda>l_mapping.
     rbind (ArrayValue_prepare_join_names av other counter) (\<lambda>((other_node, r_mapping), counter').
     rbind (mapM (\<lambda>(l_col, r_col).
              rbind (lookup_or KeyError (dict_of l_mapping) l_col) (\<lambda>l.
              rbind (lookup_or KeyError (dict_of r_mapping) r_col) (\<lambda>r. Inr (deref_col l, deref_col r)))) conditions) (\<lambda>conds.
       Inr ((JoinNode av other_node conds join_type (propogate_order = Some True \<or> strictly_ordered), l_mapping, r_mapping), counter')))))"

definition ArrayValue_try_row_join :: "array_value \<Rightarrow> array_value \<Rightarrow> (string \<times> string) list \<Rightarrow> nat
    \<Rightarrow> ((array_value \<times> (string \<times> string) list \<times> (string \<times> string) list) option \<times> nat) result" where
  "ArrayValue_try_row_join av other conditions counter =
     rbind (identity_mapping av) (\<lambda>l_mapping.
     rbind (ArrayValue_prepare_join_names av other counter) (\<lambda>((other_node, r_mapping), counter1).
     rbind (try_row_join av other_node conditions counter1) (\<lambda>(result_node, counter2).
       case result_node of
         None \<Rightarrow> Inr (None, counter2)
       | Some n \<Rightarrow> Inr (Some (n, l_mapping, r_mapping), counter2))))"

definition ArrayValue_explode :: "array_value \<Rightarrow> string list \<Rightarrow> array_value result" where
  "ArrayValue_explode av column_ids =
     rbind (assert_that (column_ids \<noteq> [])) (\<lambda>_.
     rbind (mapM (\<lambda>column_id. rbind (ArrayValue_get_column_type av column_id) (\<lambda>t. assert_that (is_array_like t))) column_ids) (\<lambda>_.
       Inr (ExplodeNode av (map deref_col column_ids) None)))"

definition ArrayValue_uniform_sampling :: "array_value \<Rightarrow> rat \<Rightarrow> array_value" where
  "ArrayValue_uniform_sampling av fraction = RandomSampleNode av fraction"

end
