(* ===== verification/Built_Plans.thy ===== *)
theory Built_Plans
  imports Array_Values
begin

text \<open>
  The plans that the operations of \<^verbatim>\<open>ArrayValue\<close> build, as a relation between the counter of
  identifiers and a plan, and what holds of all of them: the rewrites may rely on it.
\<close>

subsection \<open>Generated names\<close>

lemma id_name_guid [simp]: "ColumnId (id_name (guid_id j)) = guid_id j"
  by (simp add: guid_id_def)

lemma generate_guid_eq: "generate_guid ''col_'' k = (id_name (guid_id (Suc k)), Suc k)"
  by (simp add: generate_guid_def guid_id_def)

abbreviation uids :: "nat \<Rightarrow> nat \<Rightarrow> column_id list" where
  "uids n k \<equiv> map guid_id [Suc k..<Suc k + n]"

lemma gen_uids: "gen_namespaced_uids n k = (map id_name (uids n k), k + n)"
proof (induction n arbitrary: k)
  case (Suc n)
  have "[Suc k..<Suc k + Suc n] = Suc k # [Suc (Suc k)..<Suc (Suc k) + n]" by (simp add: upt_rec)
  then show ?case by (simp add: Suc ColumnId_unique_eq)
qed simp

lemma gen_uid: "gen_namespaced_uid k = (id_name (guid_id (Suc k)), Suc k)"
  by (simp add: gen_namespaced_uid_def ColumnId_unique_eq)

lemma column_of_uids: "map (\<lambda>x. ColumnId (id_name (guid_id x))) js = map guid_id js"
  by simp

subsection \<open>Well-built plans\<close>

definition built_id :: "nat \<Rightarrow> column_id \<Rightarrow> bool" where
  "built_id k i \<longleftrightarrow> older k i \<and> i = ColumnId (id_name i)"

lemma built_guid [simp]: "built_id k (guid_id j) \<longleftrightarrow> j \<le> k"
  by (simp add: built_id_def)

lemma built_id_mono: "built_id k i \<Longrightarrow> k \<le> k' \<Longrightarrow> built_id k' i"
  by (auto simp: built_id_def older_mono)

text \<open>Every node is well scoped, has built columns and adds only columns that are new below it.\<close>

definition adds_new :: "bfnode \<Rightarrow> bool" where
  "adds_new n = (case additive_base n of Inl _ \<Rightarrow> True | Inr b \<Rightarrow> set (added_ids n) \<inter> plan_ids b = {})"

abbreviation built_node :: "nat \<Rightarrow> bfnode \<Rightarrow> bool" where
  "built_node k n \<equiv> scoped n \<and> adds_new n \<and> list_all (built_id k) (out_ids n)"

definition well_built :: "nat \<Rightarrow> bfnode \<Rightarrow> bool" where
  "well_built k = everywhere (built_node k)"

lemma everywhere_mono: "everywhere P n \<Longrightarrow> (\<And>m. P m \<Longrightarrow> Q m) \<Longrightarrow> everywhere Q n"
  by (auto simp: everywhere_def list_all_iff)

lemma well_built_mono: "well_built k n \<Longrightarrow> k \<le> k' \<Longrightarrow> well_built k' n"
  unfolding well_built_def by (erule everywhere_mono) (auto simp: list_all_iff intro: built_id_mono)

lemma well_builtD:
  assumes "well_built k n"
  shows "scoped n" "unshadowed n" "ids_older k n" "list_all (built_id k) (out_ids n)"
  using assms everywhere_iff [of "built_node k" n]
  by (auto simp: well_built_def unshadowed_def ids_older_def adds_new_def [abs_def] built_id_def list_all_iff elim!: everywhere_mono)

lemma plan_ids_built: "well_built k n \<Longrightarrow> i \<in> plan_ids n \<Longrightarrow> built_id k i"
  by (auto simp: well_built_def everywhere_def plan_ids_def list_all_iff unique_nodes_set)

lemma plan_ids_old: "well_built k n \<Longrightarrow> k < j \<Longrightarrow> guid_id j \<notin> plan_ids n"
  using plan_ids_built [of k n "guid_id j"] by auto

lemma built_names: "well_built k n \<Longrightarrow> i \<in> set (out_ids n) \<Longrightarrow> ColumnId (id_name i) = i"
  using well_builtD(4) by (auto simp: list_all_iff built_id_def)

lemma out_ids_old: "well_built k n \<Longrightarrow> k < j \<Longrightarrow> guid_id j \<notin> set (out_ids n)"
  using plan_ids_old plan_ids_self by blast

text \<open>The names of the columns, where the fields resolve.\<close>

lemma column_ids_eq: "ArrayValue_column_ids av = Inr names \<Longrightarrow> names = map id_name (out_ids av)"
  by (auto simp: ArrayValue_column_ids_def node_schema_def rbind_eq_Inr_iff schema_names_def comp_def
      simp flip: fields_out_ids)

lemma ids_column_ids: "ids av = Inr is \<Longrightarrow> ArrayValue_column_ids av = Inr (map id_name is)"
  by (auto simp: ids_def ArrayValue_column_ids_def node_schema_def rbind_eq_Inr_iff schema_names_def)

lemma typed_ids: "typed n \<Longrightarrow> ids n = Inr (out_ids n)"
  using typed_iff [of n] by (auto simp: ids_def fields_out_ids)

lemma typed_column_ids: "typed n \<Longrightarrow> ArrayValue_column_ids n = Inr (map id_name (out_ids n))"
  by (intro ids_column_ids typed_ids)

subsection \<open>Building plans\<close>

lemma well_built_iff: "well_built k n \<longleftrightarrow> built_node k n \<and> list_all (well_built k) (child_nodes n)"
  unfolding well_built_def [abs_def] by (rule everywhere_iff)

lemmas well_built_simps =
  well_built_iff [of _ "SliceNode c a b s" for c a b s, simplified]
  well_built_iff [of _ "InNode l r x i" for l r x i, simplified]
  well_built_iff [of _ "JoinNode l r conds ty po" for l r conds ty po, simplified]
  well_built_iff [of _ "ConcatNode cs out" for cs out, simplified]
  well_built_iff [of _ "FromRangeNode s0 e0 st i" for s0 e0 st i, simplified]
  well_built_iff [of _ "ReadLocalNode d items sess off" for d items sess off, simplified]
  well_built_iff [of _ "ReadTableNode src items sess" for src items sess, simplified]
  well_built_iff [of _ "PromoteOffsetsNode c i" for c i, simplified]
  well_built_iff [of _ "FilterNode c p" for c p, simplified]
  well_built_iff [of _ "OrderByNode c ps tot" for c ps tot, simplified]
  well_built_iff [of _ "ReversedNode c rv" for c rv, simplified]
  well_built_iff [of _ "SelectionNode c pairs" for c pairs, simplified]
  well_built_iff [of _ "ProjectionNode c asg" for c asg, simplified]
  well_built_iff [of _ "AggregateNode c aggs ks os dn" for c aggs ks os dn, simplified]
  well_built_iff [of _ "WindowOpNode c ds w" for c ds w, simplified]
  well_built_iff [of _ "RandomSampleNode c fr" for c fr, simplified]
  well_built_iff [of _ "ExplodeNode c cols off" for c cols off, simplified]

text \<open>
  The plans built so far at a value of the counter. Each rule is an operation that returned, on
  plans built before, with columns of those plans.
\<close>

abbreviation has_column :: "bfnode \<Rightarrow> string \<Rightarrow> bool" where
  "has_column n nm \<equiv> ColumnId nm \<in> set (out_ids n)"

abbreviation over_columns :: "bfnode \<Rightarrow> expr \<Rightarrow> bool" where
  "over_columns n e \<equiv> set (column_references e) \<subseteq> set (out_ids n)"

inductive built :: "nat \<Rightarrow> array_value \<Rightarrow> bool" where
  later: "built k n \<Longrightarrow> k \<le> k' \<Longrightarrow> built k' n"
| from_managed: "distinct (schema_names (local_schema d)) \<Longrightarrow>
     list_all (\<lambda>nm. built_id k (ColumnId nm)) (schema_names (local_schema d)) \<Longrightarrow> built k (ArrayValue_from_managed d sess)"
| from_range: "built k start \<Longrightarrow> built k end' \<Longrightarrow> built k (ArrayValue_from_range start end' step)"
| from_bq_data_source: "distinct (map scan_id items) \<Longrightarrow> list_all (\<lambda>item. built_id k (scan_id item)) items \<Longrightarrow>
     built k (ArrayValue_from_bq_data_source src items sess)"
| row_count: "built k n \<Longrightarrow> ArrayValue_row_count n k = (m, k') \<Longrightarrow> built k' m"
| filter_by_id: "built k n \<Longrightarrow> has_column n nm \<Longrightarrow> built k (ArrayValue_filter_by_id n nm keep_null)"
| order_by: "built k n \<Longrightarrow> parts_refs parts \<subseteq> set (out_ids n) \<Longrightarrow> built k (ArrayValue_order_by n parts is_total)"
| reversed: "built k n \<Longrightarrow> built k (ArrayValue_reversed n)"
| slice: "built k n \<Longrightarrow> built k (ArrayValue_slice n a b s)"
| promote_offsets: "built k n \<Longrightarrow> ArrayValue_promote_offsets n k = ((m, nm), k') \<Longrightarrow> built k' m"
| concat: "built k n \<Longrightarrow> \<forall>m \<in> set ms. built k m \<and> length (out_ids m) = length (out_ids n) \<Longrightarrow>
     ArrayValue_concat n ms k = Inr (m, k') \<Longrightarrow> built k' m"
| compute_values: "built k n \<Longrightarrow> list_all (over_columns n) es \<Longrightarrow> ArrayValue_compute_values n es k = ((m, names), k') \<Longrightarrow> built k' m"
| assign: "built k n \<Longrightarrow> has_column n a \<Longrightarrow> built_id k (ColumnId b) \<Longrightarrow> ArrayValue_assign n a b = Inr m \<Longrightarrow> built k m"
| select_columns: "built k n \<Longrightarrow> list_all (has_column n) names \<Longrightarrow>
     ArrayValue_select_columns n names allow_renames k = Inr (m, k') \<Longrightarrow> built k' m"
| rename_columns: "built k n \<Longrightarrow> ArrayValue_rename_columns n overrides = Inr m \<Longrightarrow> distinct (out_ids m) \<Longrightarrow>
     list_all (\<lambda>(_, nm). built_id k (ColumnId nm)) overrides \<Longrightarrow> built k m"
| drop_columns: "built k n \<Longrightarrow> ArrayValue_drop_columns n names k = Inr (m, k') \<Longrightarrow> built k' m"
| aggregate: "built k n \<Longrightarrow> list_all (\<lambda>(e, _). over_columns n e) aggs \<Longrightarrow> list_all (has_column n) keys \<Longrightarrow>
     distinct (keys @ map snd aggs) \<Longrightarrow> list_all (\<lambda>(_, nm). built_id k (ColumnId nm)) aggs \<Longrightarrow>
     built k (ArrayValue_aggregate n aggs keys dropna)"
| project_window_expr: "built k n \<Longrightarrow> list_all (over_columns n) es \<Longrightarrow> all_referenced_columns w \<subseteq> set (out_ids n) \<Longrightarrow>
     ArrayValue_project_window_expr n es w k = ((m, names), k') \<Longrightarrow> built k' m"
| isin: "built k n \<Longrightarrow> built k other \<Longrightarrow> has_column n nm \<Longrightarrow> ArrayValue_isin n other nm k = Inr ((m, out), k') \<Longrightarrow> built k' m"
| relational_join: "built k l \<Longrightarrow> built k r \<Longrightarrow>
     ArrayValue_relational_join strict l r conds ty po k = Inr ((m, maps), k') \<Longrightarrow> built k' m"
| try_row_join: "built k l \<Longrightarrow> built k r \<Longrightarrow> typed l \<Longrightarrow> typed r \<Longrightarrow>
     ArrayValue_try_row_join l r conds k = Inr (Some (m, maps), k') \<Longrightarrow> built k' m"
| explode: "built k n \<Longrightarrow> list_all (has_column n) names \<Longrightarrow> ArrayValue_explode n names = Inr m \<Longrightarrow> built k m"
| uniform_sampling: "built k n \<Longrightarrow> built k (ArrayValue_uniform_sampling n fraction)"

subsection \<open>Each operation keeps plans well built\<close>

named_theorems keeps_built \<open>operations that keep plans well built\<close>

lemma additive_new:
  assumes "well_built k n" "set is \<subseteq> guid_id ` {k<..}"
  shows "set is \<inter> plan_ids n = {}" "set is \<inter> set (out_ids n) = {}"
proof -
  have "i \<notin> plan_ids n" if i: "i \<in> set is" for i
  proof -
    obtain j where "i = guid_id j" "k < j" using assms(2) i by blast
    then show ?thesis using plan_ids_old [OF assms(1)] by simp
  qed
  then show "set is \<inter> plan_ids n = {}" by blast
  then show "set is \<inter> set (out_ids n) = {}" using plan_ids_self by blast
qed

lemma uids_new: "set (uids m k) \<subseteq> guid_id ` {k<..}" "distinct (uids m k)" "list_all (built_id (k + m)) (uids m k)"
  by (auto simp: distinct_map inj_on_def list_all_iff simp del: upt_Suc)

lemma built_old: "well_built k n \<Longrightarrow> k \<le> k' \<Longrightarrow> list_all (built_id k') (out_ids n)"
  by (rule well_builtD(4) [OF well_built_mono])

lemma build_from_managed [keeps_built]:
  "distinct (schema_names (local_schema d)) \<Longrightarrow> list_all (\<lambda>nm. built_id k (ColumnId nm)) (schema_names (local_schema d)) \<Longrightarrow>
    well_built k (ArrayValue_from_managed d sess)"
  by (auto simp: ArrayValue_from_managed_def well_built_simps adds_new_def schema_names_def distinct_map inj_on_def
      list_all_iff case_prod_unfold)

lemma build_from_range [keeps_built]:
  "well_built k start \<Longrightarrow> well_built k end' \<Longrightarrow> well_built k (ArrayValue_from_range start end' step)"
  by (simp add: ArrayValue_from_range_def well_built_simps adds_new_def built_id_def older_def guid_id_def well_builtD(1))

lemma build_from_bq_data_source [keeps_built]:
  "distinct (map scan_id items) \<Longrightarrow> list_all (\<lambda>item. built_id k (scan_id item)) items \<Longrightarrow>
    well_built k (ArrayValue_from_bq_data_source src items sess)"
  by (simp add: ArrayValue_from_bq_data_source_def well_built_simps adds_new_def list_all_iff)

lemma build_plain [keeps_built]:
  "well_built k n \<Longrightarrow> has_column n nm \<Longrightarrow> well_built k (ArrayValue_filter_by_id n nm keep_null)"
  "well_built k n \<Longrightarrow> parts_refs parts \<subseteq> set (out_ids n) \<Longrightarrow> well_built k (ArrayValue_order_by n parts is_total)"
  "well_built k n \<Longrightarrow> well_built k (ArrayValue_reversed n)"
  "well_built k n \<Longrightarrow> well_built k (ArrayValue_slice n a b s)"
  "well_built k n \<Longrightarrow> well_built k (ArrayValue_uniform_sampling n fraction)"
  using well_builtD [of k n]
  by (simp_all add: ArrayValue_filter_by_id_def ArrayValue_order_by_def ArrayValue_reversed_def ArrayValue_slice_def
      ArrayValue_uniform_sampling_def well_built_simps adds_new_def deref_col_def const_def Let_def)

lemma build_row_count [keeps_built]:
  "well_built k n \<Longrightarrow> ArrayValue_row_count n k = (m, k') \<Longrightarrow> well_built k' m"
  using well_builtD [of k n] well_built_mono [of k n "Suc k"]
  by (auto simp: ArrayValue_row_count_def generate_guid_eq well_built_simps adds_new_def parts_refs_def)

lemma build_promote_offsets [keeps_built]:
  assumes "well_built k n" "ArrayValue_promote_offsets n k = ((m, nm), k')"
  shows "well_built k' m"
proof -
  have "m = PromoteOffsetsNode n (guid_id (Suc k))" "k' = Suc k"
    using assms(2) by (auto simp: ArrayValue_promote_offsets_def gen_uid)
  then show ?thesis
    using well_builtD(1) [OF assms(1)] well_built_mono [OF assms(1), of "Suc k"] additive_new [OF assms(1), of "[guid_id (Suc k)]"]
      built_old [OF assms(1), of "Suc k"]
    by (simp add: well_built_simps adds_new_def)
qed

lemma build_projection_node:
  assumes "well_built k n" "distinct (map snd asg)" "set (map snd asg) \<inter> plan_ids n = {}" "list_all (built_id k) (map snd asg)"
    and "\<forall>(e, _) \<in> set asg. over_columns n e"
  shows "well_built k (ProjectionNode n asg)"
  using assms well_builtD [OF assms(1)] plan_ids_self [of n]
  by (fastforce simp: well_built_simps adds_new_def list_all_iff)

lemma build_window_node:
  assumes "well_built k n" "distinct (map cdef_id ds)" "set (map cdef_id ds) \<inter> plan_ids n = {}" "list_all (built_id k) (map cdef_id ds)"
    and "\<forall>d \<in> set ds. over_columns n (cdef_expression d)" "all_referenced_columns w \<subseteq> set (out_ids n)"
  shows "well_built k (WindowOpNode n ds w)"
  using assms well_builtD [OF assms(1)] plan_ids_self [of n]
  by (auto simp: well_built_simps adds_new_def list_all_iff)

lemma build_compute_values [keeps_built]:
  assumes "well_built k n" "list_all (over_columns n) es" "ArrayValue_compute_values n es k = ((m, names), k')"
  shows "well_built k' m"
proof -
  let ?ids = "uids (length es) k"
  have m: "m = ProjectionNode n (zip es ?ids)" "k' = k + length es"
    using assms(3) by (auto simp: ArrayValue_compute_values_def gen_uids comp_def simp del: upt_Suc)
  have ids: "map snd (zip es ?ids) = ?ids" by (simp add: map_snd_zip_take del: upt_Suc)
  have "over_columns n e" if "(e, i) \<in> set (zip es ?ids)" for e i
    using set_zip_leftD [OF that] assms(2) by (simp add: list_all_iff)
  then show ?thesis
    unfolding m using additive_new(1) [OF assms(1) uids_new(1)] uids_new(2,3)
    by (intro build_projection_node well_built_mono [OF assms(1)]) (auto simp only: ids le_add1)
qed

lemma build_concat [keeps_built]:
  assumes "well_built k n" "\<forall>m \<in> set ms. well_built k m \<and> length (out_ids m) = length (out_ids n)"
    and "ArrayValue_concat n ms k = Inr (m, k')"
  shows "well_built k' m"
proof -
  let ?ids = "uids (length (out_ids n)) k"
  have m: "m = ConcatNode (n # ms) ?ids" "k' = k + length (out_ids n)"
    using assms(3) by (auto simp: ArrayValue_concat_def rbind_eq_Inr_iff gen_uids comp_def dest!: column_ids_eq simp del: upt_Suc)
  have "set (map fst (zip ?ids (out_ids n))) \<subseteq> set ?ids" by (auto dest: set_zip_leftD simp del: upt_Suc set_map)
  then have "list_all (built_id k') (map fst (zip ?ids (out_ids n)))"
    using uids_new(3) [where k = k and m = "length (out_ids n)"] unfolding list_all_iff m(2) by blast
  moreover have "well_built k' x" "scoped x" if "x \<in> set (n # ms)" for x
    using assms(1,2) that m(2) well_built_mono [of k x k'] well_builtD(1) [of k x] by auto
  ultimately show ?thesis
    using uids_new(2) [where k = k and m = "length (out_ids n)"] assms(2)
    by (auto simp: m(1) well_built_simps adds_new_def list_all_iff simp del: upt_Suc)
qed

text \<open>A selection of columns of a plan.\<close>

lemma build_selection:
  assumes "well_built k n" "k \<le> k'" "distinct (map snd pairs)"
    and "\<forall>(d, i) \<in> set pairs. ref_id d \<in> set (out_ids n) \<and> built_id k' i"
  shows "well_built k' (SelectionNode n pairs)"
  using assms well_builtD(1) [OF assms(1)] well_built_mono [OF assms(1,2)]
  by (auto simp: well_built_simps adds_new_def list_all_iff)

lemma build_assign [keeps_built]:
  assumes "well_built k n" "has_column n a" "built_id k (ColumnId b)" "ArrayValue_assign n a b = Inr m"
  shows "well_built k m"
proof -
  have old: "ColumnId (id_name i) = i" "built_id k i" if "i \<in> set (out_ids n)" for i
    using built_names [OF assms(1) that] well_builtD(4) [OF assms(1)] that by (simp_all add: list_all_iff)
  then have names: "map (\<lambda>x. ColumnId (id_name x)) (out_ids n) = out_ids n" by (simp add: map_idI)
  have dist: "distinct (out_ids n)" by (rule scoped_distinct [OF well_builtD(1) [OF assms(1)]])
  show ?thesis
  proof (cases "b \<in> id_name ` set (out_ids n)")
    case True
    then have m: "m = SelectionNode n (map (\<lambda>i. (deref_col (if id_name i = b then a else id_name i), ColumnId (id_name i))) (out_ids n))"
      using assms(4) by (auto simp: ArrayValue_assign_def rbind_eq_Inr_iff comp_def dest!: column_ids_eq)
    show ?thesis
      unfolding m using assms(2) old names dist
      by (intro build_selection [OF assms(1)]) (auto simp: comp_def deref_col_def)
  next
    case False
    then have m: "m = SelectionNode n (map (\<lambda>i. AliasedRef_identity (ColumnId (id_name i))) (out_ids n) @ [(deref_col a, ColumnId b)])"
      using assms(4) by (auto simp: ArrayValue_assign_def rbind_eq_Inr_iff comp_def dest!: column_ids_eq)
    have "ColumnId b \<notin> set (out_ids n)" using False by force
    then show ?thesis
      unfolding m using assms(2,3) old names dist
      by (intro build_selection [OF assms(1)]) (auto simp: comp_def deref_col_def AliasedRef_identity_def)
  qed
qed

lemma select_refs_built:
  assumes "select_refs allow_renames names seen k = Inr (refs, k')" "\<forall>nm \<in> set names \<union> seen. built_id k0 (ColumnId nm)" "k0 \<le> k"
  shows "k \<le> k' \<and> distinct (map snd refs) \<and> (\<forall>(d, i) \<in> set refs. d \<in> deref_col ` set names \<and> built_id k' i) \<and>
    snd ` set refs \<subseteq> (ColumnId ` (set names - seen)) \<union> guid_id ` {k<..k'}"
  using assms
proof (induction allow_renames names seen k arbitrary: refs k' rule: select_refs.induct)
  case (2 allow_renames nm names seen k)
  show ?case
  proof (cases "nm \<in> seen")
    case False
    then obtain refs' where refs': "select_refs allow_renames names (insert nm seen) k = Inr (refs', k')"
      "refs = AliasedRef_identity (ColumnId nm) # refs'"
      using "2.prems"(1) by (auto simp: rbind_eq_Inr_iff split: prod.splits)
    have IH: "k \<le> k'" "distinct (map snd refs')"
      "\<forall>(d, i) \<in> set refs'. d \<in> deref_col ` set names \<and> built_id k' i"
      "snd ` set refs' \<subseteq> (ColumnId ` (set names - insert nm seen)) \<union> guid_id ` {k<..k'}"
      using "2.IH"(1) [OF False refs'(1)] "2.prems"(2,3) by auto
    have nm: "built_id k0 (ColumnId nm)" using "2.prems"(2) by simp
    then have "ColumnId nm \<notin> guid_id ` {k<..k'}" using "2.prems"(3) by fastforce
    then have "ColumnId nm \<notin> snd ` set refs'" using IH(4) by auto
    then show ?thesis
      using IH refs'(2) False built_id_mono [OF nm, of k'] "2.prems"(3)
      by (auto simp: AliasedRef_identity_def deref_col_def)
  next
    case True
    then obtain refs' where refs': "allow_renames" "select_refs allow_renames names (insert nm seen) (Suc k) = Inr (refs', k')"
      "refs = (deref_col nm, guid_id (Suc k)) # refs'"
      using "2.prems"(1) by (auto simp: rbind_eq_Inr_iff generate_guid_eq split: if_splits prod.splits)
    have IH: "Suc k \<le> k'" "distinct (map snd refs')"
      "\<forall>(d, i) \<in> set refs'. d \<in> deref_col ` set names \<and> built_id k' i"
      "snd ` set refs' \<subseteq> (ColumnId ` (set names - insert nm seen)) \<union> guid_id ` {Suc k<..k'}"
      using "2.IH"(2) [OF _ refs'(1) _ refs'(2)] True "2.prems"(2,3) by (auto simp: generate_guid_eq)
    have "guid_id (Suc k) \<notin> ColumnId ` set names"
    proof
      assume "guid_id (Suc k) \<in> ColumnId ` set names"
      then have "built_id k0 (guid_id (Suc k))" using "2.prems"(2) by (auto simp del: built_guid)
      then show False using "2.prems"(3) by simp
    qed
    then have "guid_id (Suc k) \<notin> snd ` set refs'" using IH(4) by auto
    then show ?thesis using IH refs'(3) True by (auto simp: deref_col_def)
  qed
qed auto

lemma build_select_columns [keeps_built]:
  assumes "well_built k n" "list_all (has_column n) names" "ArrayValue_select_columns n names allow_renames k = Inr (m, k')"
  shows "well_built k' m"
proof -
  obtain refs where refs: "select_refs allow_renames names {} k = Inr (refs, k')" "m = SelectionNode n refs"
    using assms(3) by (auto simp: ArrayValue_select_columns_def rbind_eq_Inr_iff)
  have "\<forall>nm \<in> set names \<union> {}. built_id k (ColumnId nm)"
    using assms(2) well_builtD(4) [OF assms(1)] by (auto simp: list_all_iff)
  from select_refs_built [OF refs(1) this] show ?thesis
    unfolding refs(2) using assms(2) by (intro build_selection [OF assms(1)]) (fastforce simp: list_all_iff deref_col_def)+
qed

lemma build_drop_columns [keeps_built]:
  assumes "well_built k n" "ArrayValue_drop_columns n names k = Inr (m, k')"
  shows "well_built k' m"
proof -
  obtain "is" where "ArrayValue_select_columns n (filter (\<lambda>nm. nm \<notin> set names) (map id_name (out_ids n))) False k = Inr (m, k')"
    using assms(2) by (auto simp: ArrayValue_drop_columns_def rbind_eq_Inr_iff dest!: column_ids_eq)
  then show ?thesis
    using built_names [OF assms(1)] by (intro build_select_columns [OF assms(1)]) (auto simp: list_all_iff)
qed

lemma zip_map_same: "zip (map f xs) (map g xs) = map (\<lambda>x. (f x, g x)) xs"
  by (induction xs) simp_all

lemma get_or_self_built:
  assumes "\<forall>(_, nm) \<in> set overrides. built_id k (ColumnId nm)" "built_id k (ColumnId nm)"
  shows "built_id k (ColumnId (get_or_self (dict_of overrides) nm))"
  using assms by (cases "dict_of overrides nm") (auto dest: dict_of_SomeD)

lemma build_rename_columns [keeps_built]:
  assumes "well_built k n" "ArrayValue_rename_columns n overrides = Inr m" "distinct (out_ids m)"
    and "list_all (\<lambda>(_, nm). built_id k (ColumnId nm)) overrides"
  shows "well_built k m"
proof (cases "overrides = []")
  case True
  then show ?thesis using assms(1,2) by (simp add: ArrayValue_rename_columns_def)
next
  case False
  let ?pairs = "map (\<lambda>i. (DerefOp i, ColumnId (get_or_self (dict_of overrides) (id_name i)))) (out_ids n)"
  have m: "m = SelectionNode n ?pairs"
    using assms(2) False by (auto simp: ArrayValue_rename_columns_def rbind_eq_Inr_iff comp_def zip_map_same dest!: column_ids_eq ids_out_ids)
  have "built_id k (ColumnId (id_name i))" if "i \<in> set (out_ids n)" for i
    using built_names [OF assms(1) that] well_builtD(4) [OF assms(1)] that by (simp add: list_all_iff)
  then have "built_id k (ColumnId (get_or_self (dict_of overrides) (id_name i)))" if "i \<in> set (out_ids n)" for i
    using assms(4) that by (intro get_or_self_built) (auto simp: list_all_iff)
  then show ?thesis
    unfolding m using assms(3)
    by (intro build_selection [OF assms(1)]) (auto simp: m)
qed

lemma build_aggregate [keeps_built]:
  assumes "well_built k n" "list_all (\<lambda>(e, _). over_columns n e) aggs" "list_all (has_column n) keys"
    and "distinct (keys @ map snd aggs)" "list_all (\<lambda>(_, nm). built_id k (ColumnId nm)) aggs"
  shows "well_built k (ArrayValue_aggregate n aggs keys dropna)"
proof -
  have dist: "distinct (map ColumnId keys)" "distinct (map (\<lambda>x. ColumnId (snd x)) aggs)"
    "\<And>nm x. nm \<in> set keys \<Longrightarrow> x \<in> set aggs \<Longrightarrow> nm \<noteq> snd x"
    using assms(4) by (auto simp: distinct_map inj_on_def)
  have "built_id k (ColumnId nm)" if "has_column n nm" for nm
    using that well_builtD(4) [OF assms(1)] by (simp add: list_all_iff)
  then show ?thesis
    using assms(1-3,5) dist well_builtD(1) [OF assms(1)]
    by (auto simp: ArrayValue_aggregate_def well_built_simps adds_new_def list_all_iff deref_col_def parts_refs_def
        case_prod_unfold comp_def)
qed

lemma build_project_window_expr [keeps_built]:
  assumes "well_built k n" "list_all (over_columns n) es" "all_referenced_columns w \<subseteq> set (out_ids n)"
    and "ArrayValue_project_window_expr n es w k = ((m, names), k')"
  shows "well_built k' m"
proof -
  let ?ids = "uids (length es) k"
  let ?ds = "map (\<lambda>(e, i). ColumnDef e i) (zip es ?ids)"
  have zip: "map (\<lambda>(e, nm). ColumnDef e (ColumnId nm)) (zip es (map id_name ?ids)) = ?ds"
    by (simp add: zip_map2 case_prod_unfold comp_def del: upt_Suc)
  then have m: "m = WindowOpNode n ?ds w" "k' = k + length es"
    using assms(4) by (auto simp: ArrayValue_project_window_expr_def gen_uids simp del: upt_Suc map_map)
  have ids: "map cdef_id ?ds = ?ids" by (simp add: case_prod_unfold comp_def map_snd_zip_take del: upt_Suc)
  have "over_columns n (cdef_expression d)" if d: "d \<in> set ?ds" for d
  proof -
    obtain p where p: "p \<in> set (zip es ?ids)" "d = (\<lambda>(e, i). ColumnDef e i) p" using d unfolding set_map by blast
    then have "cdef_expression d = fst p" "fst p \<in> set es"
      using set_zip_leftD [of "fst p" "snd p"] by (simp_all add: case_prod_unfold del: upt_Suc)
    then show ?thesis using assms(2) by (simp add: list_all_iff)
  qed
  then show ?thesis
    unfolding m using additive_new(1) [OF assms(1) uids_new(1)] uids_new(2,3) assms(3)
    by (intro build_window_node well_built_mono [OF assms(1)]) (auto simp only: ids le_add1)
qed

lemma build_isin [keeps_built]:
  assumes "well_built k n" "well_built k other" "has_column n nm" "ArrayValue_isin n other nm k = Inr ((m, out), k')"
  shows "well_built k' m"
proof -
  have m: "m = InNode n other (deref_col nm) (guid_id (Suc k))" "k' = Suc k"
    using assms(4) by (auto simp: ArrayValue_isin_def rbind_eq_Inr_iff ColumnId_unique_eq)
  show ?thesis
    using well_builtD(1) [OF assms(1)] well_builtD(1) [OF assms(2)] well_built_mono [OF assms(1), of k'] well_built_mono [OF assms(2), of k']
      additive_new [OF assms(1), of "[guid_id (Suc k)]"] built_old [OF assms(1), of k'] assms(3)
    by (simp add: m well_built_simps adds_new_def deref_col_def)
qed

lemma build_explode [keeps_built]:
  assumes "well_built k n" "list_all (has_column n) names" "ArrayValue_explode n names = Inr m"
  shows "well_built k m"
  using assms well_builtD [OF assms(1)]
  by (auto simp: ArrayValue_explode_def rbind_eq_Inr_iff well_built_simps adds_new_def list_all_iff deref_col_def)

subsection \<open>Names for a join\<close>

lemma conflict_renames_spec:
  assumes "conflict_renames taken names k = (renames, k')" "distinct names" "\<forall>nm \<in> set names. built_id k0 (ColumnId nm)" "k0 \<le> k"
  shows "k \<le> k'" "map fst renames = names" "distinct (map snd renames)"
    "\<forall>(a, b) \<in> set renames. built_id k' (ColumnId b) \<and> (if a \<in> taken then ColumnId b \<in> guid_id ` {k<..k'} else b = a)"
proof -
  have "k \<le> k' \<and> map fst renames = names \<and> distinct (map snd renames) \<and>
    (\<forall>(a, b) \<in> set renames. built_id k' (ColumnId b) \<and> (if a \<in> taken then ColumnId b \<in> guid_id ` {k<..k'} else b = a))"
    using assms
  proof (induction taken names k arbitrary: renames k' rule: conflict_renames.induct)
    case (2 taken nm names k)
    have old: "ColumnId nm \<notin> guid_id ` {k<..j}" for j
    proof
      assume "ColumnId nm \<in> guid_id ` {k<..j}"
      then obtain i where "ColumnId nm = guid_id i" "k < i" by auto
      then show False using "2.prems"(3,4) built_guid [of k0 i] by simp
    qed
    show ?case
    proof (cases "nm \<in> taken")
      case False
      then obtain renames' where renames': "conflict_renames taken names k = (renames', k')" "renames = (nm, nm) # renames'"
        using "2.prems"(1) by (auto split: prod.splits)
      have IH: "k \<le> k'" "map fst renames' = names" "distinct (map snd renames')"
        "\<forall>(a, b) \<in> set renames'. built_id k' (ColumnId b) \<and> (if a \<in> taken then ColumnId b \<in> guid_id ` {k<..k'} else b = a)"
        using "2.IH"(1) [OF False renames'(1)] "2.prems"(2-4) by auto
      have "(a, nm) \<notin> set renames'" for a
      proof
        assume a: "(a, nm) \<in> set renames'"
        then have "a \<in> set names" using IH(2) by force
        then show False using a IH(4) old [of k'] "2.prems"(2) by (auto split: if_splits)
      qed
      then show ?thesis
        using IH renames'(2) False built_id_mono [of k0 "ColumnId nm" k'] "2.prems"(3,4) by auto
    next
      case True
      then obtain renames' where renames': "conflict_renames taken names (Suc k) = (renames', k')"
        "renames = (nm, id_name (guid_id (Suc k))) # renames'"
        using "2.prems"(1) by (auto simp: generate_guid_eq split: prod.splits)
      have IH: "Suc k \<le> k'" "map fst renames' = names" "distinct (map snd renames')"
        "\<forall>(a, b) \<in> set renames'. built_id k' (ColumnId b) \<and> (if a \<in> taken then ColumnId b \<in> guid_id ` {Suc k<..k'} else b = a)"
        using "2.IH"(2) [of "id_name (guid_id (Suc k))" "Suc k"] renames'(1) True "2.prems"(2-4) by (auto simp: generate_guid_eq)
      have "(a, id_name (guid_id (Suc k))) \<notin> set renames'" for a
      proof
        assume a: "(a, id_name (guid_id (Suc k))) \<in> set renames'"
        show False
        proof (cases "a \<in> taken")
          case True
          then show False using a IH(4) by (auto split: if_splits)
        next
          case False
          then have "a \<in> set names" "ColumnId a = guid_id (Suc k)" using a IH(2,4) by force+
          then show False using "2.prems"(3,4) built_guid [of k0 "Suc k"] by auto
        qed
      qed
      moreover have "\<forall>(a, b) \<in> set renames'. built_id k' (ColumnId b) \<and> (if a \<in> taken then ColumnId b \<in> guid_id ` {k<..k'} else b = a)"
        using IH(4) by (fastforce split: if_splits)
      ultimately show ?thesis using IH(1-3) renames'(2) True by auto
    qed
  qed simp
  then show "k \<le> k'" "map fst renames = names" "distinct (map snd renames)"
    "\<forall>(a, b) \<in> set renames. built_id k' (ColumnId b) \<and> (if a \<in> taken then ColumnId b \<in> guid_id ` {k<..k'} else b = a)"
    by blast+
qed

lemma built_names_distinct: "well_built k n \<Longrightarrow> distinct (map id_name (out_ids n))"
  using scoped_distinct [OF well_builtD(1)] built_names by (auto simp: distinct_map intro!: inj_onI) metis

lemma built_columns: "well_built k n \<Longrightarrow> map (\<lambda>i. ColumnId (id_name i)) (out_ids n) = out_ids n"
  by (simp add: map_idI built_names)

lemma prepare_cases:
  assumes "well_built k l" "well_built k r" "ArrayValue_prepare_join_names l r k = Inr ((r', mapping), k')"
  obtains (same) "r' = r" "mapping = map (\<lambda>i. (id_name i, id_name i)) (out_ids r)" "k' = k" "set (out_ids l) \<inter> set (out_ids r) = {}"
  | (renamed) "conflict_renames (id_name ` set (out_ids l)) (map id_name (out_ids r)) k = (mapping, k')"
      "r' = SelectionNode r (map (\<lambda>(a, b). (deref_col a, ColumnId b)) mapping)"
proof (cases "set (out_ids r) \<inter> set (out_ids l) = {}")
  case True
  have "dict_items (map (\<lambda>nm. (nm, nm)) (map id_name (out_ids r))) = map (\<lambda>i. (id_name i, id_name i)) (out_ids r)"
    using built_names_distinct [OF assms(2)] by (subst dict_items_distinct) (simp_all add: comp_def)
  then show ?thesis
    using assms(3) True same Int_commute [of "set (out_ids l)"]
    by (auto simp: ArrayValue_prepare_join_names_def rbind_eq_Inr_iff dest!: ids_out_ids column_ids_eq)
next
  case False
  let ?c = "conflict_renames (id_name ` set (out_ids l)) (map id_name (out_ids r)) k"
  obtain renames j where renames: "?c = (renames, j)" by (cases ?c)
  have "map fst renames = map id_name (out_ids r)"
    using conflict_renames_spec(2) [OF renames built_names_distinct [OF assms(2)], of k] well_builtD(4) [OF assms(2)]
      built_names [OF assms(2)] by (auto simp: list_all_iff)
  then have "dict_items renames = renames"
    using built_names_distinct [OF assms(2)] by (intro dict_items_distinct) simp
  then show ?thesis
    using assms(3) renamed renames
    by (auto simp: ArrayValue_prepare_join_names_def rbind_eq_Inr_iff False dest!: ids_out_ids column_ids_eq)
qed

lemma built_name_list: "well_built k n \<Longrightarrow> \<forall>nm \<in> set (map id_name (out_ids n)). built_id k (ColumnId nm)"
  using well_builtD(4) built_names by (auto simp: list_all_iff)

lemma mapM_returns: "(\<And>x. x \<in> set xs \<Longrightarrow> \<exists>y. f x = Inr y) \<Longrightarrow> \<exists>ys. mapM f xs = Inr ys"
  by (induction xs) fastforce+

lemma typed_selection:
  assumes "typed c" "\<forall>(d, i) \<in> set pairs. ref_id d \<in> set (out_ids c)"
  shows "typed (SelectionNode c pairs)"
proof -
  obtain fs where fs: "node_fields c = Inr fs" "map field_id fs = out_ids c"
    using assms(1) fields_out_ids typed_iff by blast
  have "\<exists>f. fields_by_id fs i = Some f" if "i \<in> set (out_ids c)" for i
    using that dict_key_iff [of field_id "\<lambda>f. f" fs i] by (simp add: fields_by_id_def flip: fs(2))
  then have "\<exists>y. selected_field (fields_by_id fs) d i = Inr y" if "(d, i) \<in> set pairs" for d i
    using assms(2) that by (fastforce simp: selected_field_def lookup_or_def)
  then have "\<exists>gs. SelectionNode_fields (Inr fs) pairs = Inr gs"
    unfolding SelectionNode_fields_def rbind_Inr by (intro mapM_returns) auto
  then show ?thesis using assms(1) fs(1) by (simp add: typed_iff [of "SelectionNode _ _"])
qed

text \<open>The columns of the other side and what they become.\<close>

lemma prepare_spec:
  assumes "well_built k l" "well_built k r" "ArrayValue_prepare_join_names l r k = Inr ((r', mapping), k')"
  shows "k \<le> k'" "well_built k' r'" "set (out_ids l) \<inter> set (out_ids r') = {}"
    "map fst mapping = map id_name (out_ids r)" "map (\<lambda>p. ColumnId (snd p)) mapping = out_ids r'"
    "\<forall>(a, b) \<in> set mapping. column_values E r' (ColumnId b) = column_values E r (ColumnId a)"
    "typed r \<Longrightarrow> typed r'"
    "\<lbrakk>typed r; has_column r a\<rbrakk> \<Longrightarrow> spec_values E r' (ColumnId a) (column_values E r (ColumnId a))"
proof -
  have "k \<le> k' \<and> well_built k' r' \<and> set (out_ids l) \<inter> set (out_ids r') = {} \<and> map fst mapping = map id_name (out_ids r) \<and>
    map (\<lambda>p. ColumnId (snd p)) mapping = out_ids r' \<and>
    (\<forall>(a, b) \<in> set mapping. column_values E r' (ColumnId b) = column_values E r (ColumnId a)) \<and> (typed r \<longrightarrow> typed r') \<and>
    (\<forall>a. typed r \<longrightarrow> has_column r a \<longrightarrow> spec_values E r' (ColumnId a) (column_values E r (ColumnId a)))"
  proof (rule prepare_cases [OF assms], goal_cases)
    case 1
    then show ?case
      using assms(2) built_columns [OF assms(2)] column_spec_values [of r _ E] well_builtD(1) [OF assms(2)] by (auto simp: comp_def)
  next
    case 2
    let ?pairs = "map (\<lambda>(a, b). (deref_col a, ColumnId b)) mapping"
    note spec = conflict_renames_spec [OF 2(1) built_names_distinct [OF assms(2)] built_name_list [OF assms(2)] order_refl]
    have src: "has_column r a" if "(a, b) \<in> set mapping" for a b
      using that arg_cong [OF spec(2), of set] built_names [OF assms(2)] by force
    have outs: "map snd ?pairs = map (\<lambda>p. ColumnId (snd p)) mapping" by (simp add: case_prod_unfold comp_def)
    have dist: "distinct (map snd ?pairs)"
      using spec(3) unfolding outs by (simp add: distinct_map inj_on_def)
    have built: "well_built k' (SelectionNode r ?pairs)"
      using src spec(4) dist by (intro build_selection [OF assms(2) spec(1)]) (auto simp: deref_col_def)
    have new: "ColumnId b \<notin> set (out_ids l)" if p: "(a, b) \<in> set mapping" for a b
    proof (cases "a \<in> id_name ` set (out_ids l)")
      case True
      then have "ColumnId b \<in> guid_id ` {k<..k'}" using bspec [OF spec(4) p] by simp
      then obtain j where "ColumnId b = guid_id j" "k < j" by auto
      then show ?thesis using out_ids_old [OF assms(1)] by simp
    next
      case False
      then have "b = a" using bspec [OF spec(4) p] by simp
      then show ?thesis using False by (metis column_id.sel(1) image_eqI)
    qed
    have look: "selection_mapping ?pairs (ColumnId b) = Some (ColumnId a)" if "(a, b) \<in> set mapping" for a b
    proof -
      have "(ColumnId b, ColumnId a) \<in> set (map (\<lambda>(d, i). (i, ref_id d)) ?pairs)" using that by (force simp: deref_col_def)
      then show ?thesis using dist
        unfolding selection_mapping_def by (intro dict_of_distinct) (simp_all add: case_prod_unfold comp_def)
    qed
    then have cells: "column_values E (SelectionNode r ?pairs) (ColumnId b) = column_values E r (ColumnId a)" if "(a, b) \<in> set mapping" for a b
      using that by (simp add: select_row_mapping)
    have typed: "typed (SelectionNode r ?pairs)" if "typed r"
      using src by (intro typed_selection [OF that]) (auto simp: deref_col_def)
    have "spec_values E (SelectionNode r ?pairs) (ColumnId a) (column_values E r (ColumnId a))" if a: "typed r" "has_column r a" for a
    proof (cases "a \<in> id_name ` set (out_ids l)")
      case True
      have "ColumnId a \<notin> snd ` set ?pairs"
      proof
        assume "ColumnId a \<in> snd ` set ?pairs"
        then obtain c where c: "(c, a) \<in> set mapping" by auto
        have "built_id k (ColumnId a)" using built_name_list [OF assms(2)] a(2) by force
        then have "ColumnId a \<notin> guid_id ` {k<..k'}" by (auto simp: built_id_def older_def)
        then show False using bspec [OF spec(4) c] True by (auto split: if_splits)
      qed
      then show ?thesis using column_spec_values [OF a(1) well_builtD(1) [OF assms(2)] a(2)] by (rule hidden_spec_values)
    next
      case False
      have "a \<in> fst ` set mapping" using a(2) arg_cong [OF spec(2), of set] by force
      then obtain b where "(a, b) \<in> set mapping" by auto
      with bspec [OF spec(4) this] False have p: "(a, a) \<in> set mapping" by simp
      then have "ColumnId a \<in> set (out_ids (SelectionNode r ?pairs))" by force
      then show ?thesis
        using column_spec_values [OF typed [OF a(1)] well_builtD(1) [OF built], of "ColumnId a" E] cells [OF p] by (simp only:)
    qed
    then show ?case
      using 2(2) spec(1,2) built new cells typed outs by (auto simp: comp_def case_prod_unfold simp del: map_map)
  qed
  then show "k \<le> k'" "well_built k' r'" "set (out_ids l) \<inter> set (out_ids r') = {}"
    "map fst mapping = map id_name (out_ids r)" "map (\<lambda>p. ColumnId (snd p)) mapping = out_ids r'"
    "\<forall>(a, b) \<in> set mapping. column_values E r' (ColumnId b) = column_values E r (ColumnId a)"
    "typed r \<Longrightarrow> typed r'"
    "\<lbrakk>typed r; has_column r a\<rbrakk> \<Longrightarrow> spec_values E r' (ColumnId a) (column_values E r (ColumnId a))"
    by blast+
qed

subsection \<open>Joins\<close>

lemma identity_mapping_eq:
  assumes "well_built k n" "identity_mapping n = Inr mapping"
  shows "mapping = map (\<lambda>i. (id_name i, id_name i)) (out_ids n)"
  using assms(2) built_names_distinct [OF assms(1)]
  by (auto simp: identity_mapping_def rbind_eq_Inr_iff comp_def dest!: ids_out_ids intro!: dict_items_distinct)

lemma build_relational_join [keeps_built]:
  assumes "well_built k l" "well_built k r" "ArrayValue_relational_join strict l r conds ty po k = Inr ((m, maps), k')"
  shows "well_built k' m"
proof -
  obtain l_mapping r' r_mapping cs where join: "identity_mapping l = Inr l_mapping"
    "ArrayValue_prepare_join_names l r k = Inr ((r', r_mapping), k')"
    "mapM (\<lambda>(l_col, r_col). rbind (lookup_or KeyError (dict_of l_mapping) l_col) (\<lambda>l.
       rbind (lookup_or KeyError (dict_of r_mapping) r_col) (\<lambda>r. Inr (deref_col l, deref_col r)))) conds = Inr cs"
    "m = JoinNode l r' cs ty (po = Some True \<or> strict)"
    using assms(3) by (auto simp: ArrayValue_relational_join_def rbind_eq_Inr_iff split: prod.splits)
  note r' = prepare_spec(1-5) [OF assms(1,2) join(2)]
  have "ref_id a \<in> set (out_ids l) \<and> ref_id b \<in> set (out_ids r')" if ab: "(a, b) \<in> set cs" for a b
  proof -
    let ?f = "\<lambda>(l_col, r_col). rbind (lookup_or KeyError (dict_of l_mapping) l_col) (\<lambda>l.
        rbind (lookup_or KeyError (dict_of r_mapping) r_col) (\<lambda>r. Inr (deref_col l, deref_col r)))"
    have "Inr (a, b) \<in> set (map ?f conds)" using ab join(3) [unfolded mapM_Inr_iff] by simp
    then obtain p where "?f p = Inr (a, b)" by auto
    then obtain lc rc where "rbind (lookup_or KeyError (dict_of l_mapping) lc) (\<lambda>l.
        rbind (lookup_or KeyError (dict_of r_mapping) rc) (\<lambda>r. Inr (deref_col l, deref_col r))) = Inr (a, b)"
      by (cases p) auto
    then obtain x y where xy: "dict_of l_mapping lc = Some x" "dict_of r_mapping rc = Some y" "a = deref_col x" "b = deref_col y"
      by (auto simp: rbind_eq_Inr_iff)
    have "has_column l x"
      using dict_of_SomeD [OF xy(1)] built_names [OF assms(1)] unfolding identity_mapping_eq [OF assms(1) join(1)] by auto
    moreover have "has_column r' y"
      using dict_of_SomeD [OF xy(2)] arg_cong [OF r'(5), of set] by force
    ultimately show ?thesis using xy(3,4) by (simp add: deref_col_def)
  qed
  then show ?thesis
    using r'(1-3) well_built_mono [OF assms(1) r'(1)] well_builtD(1) [OF r'(2)] well_builtD(1) [OF assms(1)]
      well_builtD(4) [OF r'(2)] built_old [OF assms(1) r'(1)]
    by (auto simp: join(4) well_built_simps adds_new_def list_all_iff)
qed

text \<open>Pulling selections up keeps plans well built.\<close>

lemma additive_subplans:
  assumes "additive_base n = Inr b" "x \<in> set (child_nodes n)"
  obtains "x = b" | l r y i where "n = InNode l r y i" "x = r"
  using assms by (cases n) auto

lemma build_additive:
  assumes "additive_base n = Inr b" "scoped n" "well_built k b" "set (added_ids n) \<inter> plan_ids b = {}"
    and "list_all (built_id k) (added_ids n)" "\<And>l r y i. n = InNode l r y i \<Longrightarrow> well_built k r"
  shows "well_built k n"
proof -
  have "well_built k x" if "x \<in> set (child_nodes n)" for x
    using additive_subplans [OF assms(1) that] assms(3,6) by metis
  then show ?thesis
    using assms(1-5) additive_out_ids [OF assms(1)] well_builtD(4) [OF assms(3)]
    by (auto simp: well_built_iff [of k n] adds_new_def list_all_iff)
qed

lemma plan_ids_additive:
  assumes "additive_base n = Inr b"
  shows "plan_ids n = set (out_ids n) \<union> plan_ids b \<union> (case n of InNode l r y i \<Rightarrow> plan_ids r | _ \<Rightarrow> {})"
  unfolding plan_ids_def subnodes_unfold [of n] using assms by (cases n) auto

lemma pull_up_additive_built:
  assumes "pull_up_additive rename_vars n (Inr ((m, sels), k1)) = Inr ((m', sels'), k')" "additive_base n = Inr b" "scoped m'"
    and "well_built k1 m" "well_built k0 n" "k0 \<le> k1"
    and "plan_ids m \<subseteq> (if rename_vars then plan_ids b \<union> guid_id ` {k0<..k1} else plan_ids b)"
  shows "k1 \<le> k' \<and> well_built k' m' \<and> plan_ids m' \<subseteq> (if rename_vars then plan_ids n \<union> guid_id ` {k0<..k'} else plan_ids n)"
proof -
  have n: "scoped n" "set (added_ids n) \<inter> plan_ids b = {}" "well_built k0 b"
    using assms(5) additive_base_child [OF assms(2)] assms(2) by (auto simp: well_built_iff [of k0 n] adds_new_def list_all_iff)
  have dist: "distinct (added_ids n)" using additive_scoped [OF assms(2)] n(1) by blast
  obtain n1 n2 added where eqs: "replace_additive_base n m = Inr n1" "remap_refs (selection_mapping sels) n1 = Inr n2"
    "added_fields n = Inr added"
    using assms(1) by (auto simp: pull_up_additive_def rbind_eq_Inr_iff)
  obtain renames k2 where names: "(if rename_vars then unique_renames (added_ids n) k1 else ([], k1)) = (renames, k2)"
    by (cases "if rename_vars then unique_renames (added_ids n) k1 else ([], k1)")
  have "k2 = k'" "m' = (if rename_vars then remap_vars (dict_of renames) n2 else n2)"
    using assms(1) eqs names added_fields_ids [OF eqs(3)]
    by (cases rename_vars; simp add: pull_up_additive_def Let_def)+
  note eq = eqs names [unfolded this(1)] this(2)
  let ?v = "dict_of renames"
  have inj: "inj_on (get_or_self ?v) (set (added_ids n))"
    using eq(4) unique_renames_spec(1) [of "added_ids n" k1 renames k'] dist by (auto simp: inj_on_def split: if_splits)
  obtain n1' where n1: "replace_additive_base n m = Inr n1'" "additive_base n1' = Inr m" "added_ids n1' = added_ids n"
    "\<forall>l r x i. n1' = InNode l r x i \<longrightarrow> (\<exists>l'. n = InNode l' r x i)"
    by (rule additive_replace [OF assms(2)])
  obtain n2' where n2: "remap_refs (selection_mapping sels) n1' = Inr n2'" "additive_base n2' = Inr m" "added_ids n2' = added_ids n"
    "\<forall>l r x i. n2' = InNode l r x i \<longrightarrow> (\<exists>l' x' i'. n1' = InNode l' r x' i')"
    using additive_remap [OF n1(2), of "selection_mapping sels"] n1(3) by metis
  have same: "n1' = n1" "n2' = n2" using eq(1,2) n1(1) n2(1) by simp_all
  have "is_additive n2" using n2(2) unfolding same by (cases n2) simp_all
  then have m': "m' = remap_vars ?v n2"
    using eq(4,5) by (auto simp: remap_vars_empty split: if_splits)
  note n3 = additive_remap_vars [OF n2(2), of ?v, unfolded n2(3), OF inj, unfolded same(2), folded m']
  have base: "additive_base m' = Inr m" "added_ids m' = map (get_or_self ?v) (added_ids n)" using n3 by blast+
  have right: "\<exists>l' x' i'. n = InNode l' r x' i'" if "m' = InNode l r x i" for l r x i
    using n3 n2(4) n1(4) that unfolding same by metis
  have "k1 \<le> k'" using eq(4) unique_renames_spec(2) [of "added_ids n" k1 renames k'] dist by (auto split: if_splits)
  have new: "set (added_ids m') \<subseteq> (if rename_vars then guid_id ` {k1<..k'} else set (added_ids n))"
  proof (cases rename_vars)
    case True
    have "get_or_self ?v i \<in> guid_id ` {k1<..k'}" if "i \<in> set (added_ids n)" for i
      using unique_renames_spec(3) [of "added_ids n" k1 renames k' i] eq(4) dist that True by auto
    then show ?thesis using True base(2) by auto
  next
    case False
    then show ?thesis using eq(4) base(2) by auto
  qed
  have fresh: "set (added_ids m') \<inter> plan_ids m = {}"
    using new plan_ids_old [OF assms(4)] assms(7) n(2) by (auto split: if_splits)
  have own: "built_id k0 i" if "i \<in> set (added_ids n)" for i
    using that additive_out_ids [OF assms(2)] well_builtD(4) [OF assms(5)] by (auto simp: list_all_iff)
  have ids: "list_all (built_id k') (added_ids m')"
    using new own built_id_mono assms(6) \<open>k1 \<le> k'\<close> by (fastforce simp: list_all_iff split: if_splits)
  have "well_built k' r" if m'_in: "m' = InNode l r x i" for l r x i
  proof -
    obtain l' x' i' where "n = InNode l' r x' i'" using right [OF m'_in] by blast
    then have "well_built k0 r" using assms(5) by (simp add: well_built_simps)
    then show ?thesis using assms(6) \<open>k1 \<le> k'\<close> by (intro well_built_mono [of k0 r k']) simp_all
  qed
  then have "well_built k' m'"
    by (rule build_additive [OF base(1) assms(3) well_built_mono [OF assms(4) \<open>k1 \<le> k'\<close>] fresh ids])
  moreover have "(case m' of InNode l r y i \<Rightarrow> plan_ids r | _ \<Rightarrow> {}) \<subseteq> plan_ids n"
    using right plan_ids_child [of _ n] by (cases m') fastforce+
  moreover have "plan_ids b \<subseteq> plan_ids n" by (rule plan_ids_child [OF additive_base_child [OF assms(2)]])
  moreover have "set (added_ids n) \<subseteq> plan_ids n" using plan_ids_self [of n] additive_out_ids [OF assms(2)] by auto
  ultimately show ?thesis
    using new assms(6,7) plan_ids_self [of m] \<open>k1 \<le> k'\<close>
    unfolding plan_ids_additive [OF base(1)] additive_out_ids [OF base(1)] by (auto split: if_splits)
qed

lemma pull_at_stop: "pull_up_selection rename_vars stop stop k = Inr ((m, sels), k') \<Longrightarrow> m = stop \<and> k' = k"
  by (subst (asm) pull_up_selection.simps) (auto simp: rbind_eq_Inr_iff)

lemma pulled_scoped:
  assumes "aligned_over stop n" "pull_up_selection rename_vars stop n k = Inr ((m, sels), k')" "well_built k n" "typed n"
  shows "scoped m"
proof -
  have "if rename_vars then list_all (older k) (out_ids stop) else unshadowed n"
    using aligned_ids [OF assms(1)] plan_ids_built [OF assms(3)] well_builtD(2) [OF assms(3)] by (auto simp: list_all_iff built_id_def)
  from pull_up_selection_sound [OF assms(1) well_builtD(1) [OF assms(3)] assms(4) this] assms(2)
  show ?thesis by (auto simp: pulled_def stands_for_def)
qed

lemma pull_up_selection_built:
  assumes "aligned_over stop n" "pull_up_selection rename_vars stop n k = Inr ((m, sels), k')" "well_built k n" "typed n"
  shows "k \<le> k' \<and> well_built k' m \<and> plan_ids m \<subseteq> (if rename_vars then plan_ids n \<union> guid_id ` {k<..k'} else plan_ids n)"
  using assms
proof (induction arbitrary: m sels k' rule: aligned_over.induct)
  case stop
  then show ?case using pull_at_stop [of rename_vars stop k m sels k'] by auto
next
  case (selection c pairs)
  let ?n = "SelectionNode c pairs"
  show ?case
  proof (cases "?n = stop")
    case True
    then show ?thesis using selection.prems pull_at_stop [of rename_vars ?n k m sels k'] by (auto simp del: everywhere_simps)
  next
    case False
    then obtain sels' where "pull_up_selection rename_vars stop c k = Inr ((m, sels'), k')"
      using selection.prems(1) by (auto simp: pull_up_selection.simps [of rename_vars stop ?n] rbind_eq_Inr_iff split: prod.splits)
    moreover have "well_built k c" "typed c"
      using selection.prems(2,3) typed_child [of ?n c] by (simp_all add: well_built_simps)
    ultimately show ?thesis using selection.IH plan_ids_child [of c ?n] by fastforce
  qed
next
  case (additive n b)
  show ?case
  proof (cases "n = stop")
    case True
    then show ?thesis using additive.prems pull_at_stop [of rename_vars n k m sels k'] by auto
  next
    case False
    let ?below = "pull_up_selection rename_vars stop b k"
    have step: "pull_up_additive rename_vars n ?below = Inr ((m, sels), k')"
      using additive.prems(1) False additive.hyps(1) by (simp add: pull_up_selection.simps [of rename_vars stop n])
    then obtain m1 sels1 k1 where below: "?below = Inr ((m1, sels1), k1)"
      by (cases ?below) (auto simp: pull_up_additive_def)
    have b: "well_built k b" "typed b"
      using additive.prems(2,3) additive_base_child [OF additive.hyps(1)] typed_child [of n b]
      by (auto simp: well_built_iff [of k n] list_all_iff)
    note IH = additive.IH [OF below b]
    have "scoped m" by (rule pulled_scoped [OF aligned_over.additive [OF additive.hyps] additive.prems])
    then show ?thesis
      using pull_up_additive_built [OF step [unfolded below] additive.hyps(1) _ _ additive.prems(2)] IH by (auto split: if_splits)
  qed
qed

lemma additive_over_ids: "additive_over stop n \<Longrightarrow> plan_ids stop \<subseteq> plan_ids n"
proof (induction rule: additive_over.induct)
  case (additive n b)
  then show ?case using plan_ids_child [OF additive_base_child] by blast
qed simp

lemma linearize_built:
  assumes "linearize_trees divergent l r = Inr m" "scoped m" "additive_over divergent r" "well_built k l" "well_built k r"
    and "(set (out_ids r) - plan_ids divergent) \<inter> plan_ids l = {}"
  shows "well_built k m \<and> plan_ids m \<subseteq> plan_ids l \<union> plan_ids r"
  using assms(3,1,2,5,6)
proof (induction arbitrary: m rule: additive_over.induct)
  case stop
  then show ?case using assms(4) by (auto simp: linearize_trees.simps [of divergent l divergent])
next
  case (additive n b)
  show ?case
  proof (cases "n = divergent")
    case True
    then show ?thesis using additive.prems(1) assms(4) by (auto simp: linearize_trees.simps [of divergent l divergent])
  next
    case False
    then obtain m1 where m1: "linearize_trees divergent l b = Inr m1" "replace_additive_base n m1 = Inr m"
      using additive.prems(1) additive.hyps(1) by (auto simp: linearize_trees.simps [of divergent l n] rbind_eq_Inr_iff)
    have b: "well_built k b" "plan_ids b \<subseteq> plan_ids n" "set (added_ids n) \<inter> plan_ids b = {}"
      using additive.prems(3) additive_base_child [OF additive.hyps(1)] plan_ids_child [of b n] additive.hyps(1)
      by (auto simp: well_built_iff [of k n] adds_new_def list_all_iff)
    obtain m' where m': "replace_additive_base n m1 = Inr m'" "additive_base m' = Inr m1" "added_ids m' = added_ids n"
      "\<forall>l r x i. m' = InNode l r x i \<longrightarrow> (\<exists>l'. n = InNode l' r x i)"
      by (rule additive_replace [OF additive.hyps(1)])
    then have "m' = m" using m1(2) by simp
    note base = m'(2-4) [unfolded this]
    have "scoped m1" using additive_scoped [OF base(1)] additive.prems(2) by blast
    then have IH: "well_built k m1" "plan_ids m1 \<subseteq> plan_ids l \<union> plan_ids b"
      using additive.IH [OF m1(1) _ b(1)] additive.prems(4) additive_out_ids [OF additive.hyps(1)] by auto
    have own: "set (added_ids n) \<subseteq> set (out_ids n)" "list_all (built_id k) (added_ids n)"
      using additive_out_ids [OF additive.hyps(1)] well_builtD(4) [OF additive.prems(3)] by auto
    have "set (added_ids n) \<inter> plan_ids l = {}"
      using own(1) b(3) additive_over_ids [OF additive.hyps(2)] additive.prems(4) by blast
    then have fresh: "set (added_ids m) \<inter> plan_ids m1 = {}" using IH(2) b(3) base(2) by auto
    have right: "well_built k r \<and> plan_ids r \<subseteq> plan_ids n" if "m = InNode l' r x i" for l' r x i
      using base(3) additive.prems(3) plan_ids_child [of r n] that by (auto simp: well_built_simps)
    have "well_built k m"
      using right own(2) base(2) by (intro build_additive [OF base(1) additive.prems(2) IH(1) fresh]) auto
    moreover have "(case m of InNode l r y i \<Rightarrow> plan_ids r | _ \<Rightarrow> {}) \<subseteq> plan_ids n"
      using right by (cases m) auto
    ultimately show ?thesis
      using IH(2) own(1) b(2) base(2) plan_ids_self [of m1] plan_ids_self [of n]
      unfolding plan_ids_additive [OF base(1)] additive_out_ids [OF base(1)] by auto
  qed
qed

lemma expression_spec_returns: "typed n \<Longrightarrow> \<exists>res. expression_spec n e = Inr res"
proof (induction n arbitrary: e)
  case (WindowOpNode c ds w)
  then show ?case using typed_child [of "WindowOpNode c ds w" c] typed_added [of "WindowOpNode c ds w" c] by auto
next
  case (PromoteOffsetsNode c i)
  then show ?case using typed_child [of "PromoteOffsetsNode c i" c] typed_added [of "PromoteOffsetsNode c i" c] by auto
next
  case (InNode l r x i)
  then show ?case using typed_child [of "InNode l r x i" l] typed_added [of "InNode l r x i" l] by auto
next
  case (SelectionNode c pairs)
  then show ?case using typed_child [of "SelectionNode c pairs" c] by simp
next
  case (ProjectionNode c asg)
  then show ?case using typed_child [of "ProjectionNode c asg" c] by simp
qed auto

lemma spec_values_exist: "typed n \<Longrightarrow> \<exists>vs. \<forall>a. spec_values E n (ColumnId a) (vs a)"
proof -
  assume "typed n"
  then have "\<forall>a. \<exists>v. spec_values E n (ColumnId a) v"
    using expression_spec_returns [of n] by (force simp: spec_values_def get_expression_spec_def)
  then show ?thesis by (rule choice)
qed

lemma build_row_join:
  assumes "well_built k l" "well_built k r" "typed l" "typed r" "set (out_ids l) \<inter> set (out_ids r) = {}"
    and "try_row_join l r keys k = Inr (Some m, k')"
  shows "k \<le> k' \<and> well_built k' m"
proof -
  obtain stop same l1 l_sel k1 r1 r_sel merged where join:
    "first_shared_descendent is_alignable (remdups [l, r]) = Some stop"
    "pull_up_selection False stop l k = Inr ((l1, l_sel), k1)" "pull_up_selection True stop r k1 = Inr ((r1, r_sel), k')"
    "linearize_trees stop l1 r1 = Inr merged" "m = SelectionNode merged (l_sel @ r_sel)"
    using assms(6) by (auto simp: try_row_join_def rbind_eq_Inr_iff split: option.splits if_splits prod.splits)
  have over: "aligned_over stop l" "aligned_over stop r" using first_shared_aligned [OF join(1)] by simp_all
  obtain lv rv where "\<forall>a. spec_values undefined l (ColumnId a) (lv a)" "\<forall>b. spec_values undefined r (ColumnId b) (rv b)"
    using spec_values_exist assms(3,4) by metis
  then have "\<forall>(a, b) \<in> set keys. spec_values undefined l (ColumnId a) (lv a) \<and> spec_values undefined r (ColumnId b) (rv b)" by auto
  from row_join_sound [OF well_builtD(1) [OF assms(1)] well_builtD(1) [OF assms(2)] assms(3,4) well_builtD(2,3) [OF assms(1)] assms(5) this]
  have m: "scoped m" "out_ids m = out_ids l @ out_ids r" using assms(6) by (auto simp: row_joined_def)
  have l1: "k \<le> k1" "well_built k1 l1" "plan_ids l1 \<subseteq> plan_ids l"
    using pull_up_selection_built [OF over(1) join(2) assms(1,3)] by auto
  have r: "well_built k1 r" by (rule well_built_mono [OF assms(2) l1(1)])
  have r1: "k1 \<le> k'" "well_built k' r1" "plan_ids r1 \<subseteq> plan_ids r \<union> guid_id ` {k1<..k'}"
    using pull_up_selection_built [OF over(2) join(3) r assms(4)] by auto
  have "list_all (older k1) (out_ids stop)"
    using aligned_ids [OF over(2)] plan_ids_built [OF r] by (auto simp: list_all_iff built_id_def)
  then have pulled: "additive_over stop r1" "set (out_ids r1) \<subseteq> set (out_ids stop) \<union> guid_id ` {k1<..k'}"
    using pull_up_selection_sound [OF over(2) well_builtD(1) [OF r] assms(4), of True k1] join(3)
    by (auto simp: pulled_def new_ids_def)
  have "(set (out_ids r1) - plan_ids stop) \<inter> plan_ids l1 = {}"
    using pulled(2) plan_ids_self [of stop] plan_ids_old [OF l1(2)] by fastforce
  then have "well_built k' merged"
    using linearize_built [OF join(4) _ pulled(1) well_built_mono [OF l1(2) r1(1)] r1(2)] m(1) join(5) by simp
  moreover have "list_all (built_id k') (out_ids m)"
    unfolding m(2) using built_old [OF assms(1), of k'] built_old [OF assms(2), of k'] l1(1) r1(1) by simp
  ultimately show ?thesis
    using m(1) l1(1) r1(1) by (simp add: join(5) well_built_iff [of _ "SelectionNode _ _"] adds_new_def)
qed

lemma build_try_row_join [keeps_built]:
  assumes "well_built k l" "well_built k r" "typed l" "typed r" "ArrayValue_try_row_join l r conds k = Inr (Some (m, maps), k')"
  shows "well_built k' m"
proof -
  obtain r' r_mapping k1 where join: "ArrayValue_prepare_join_names l r k = Inr ((r', r_mapping), k1)"
    "try_row_join l r' conds k1 = Inr (Some m, k')"
    using assms(5) by (auto simp: ArrayValue_try_row_join_def rbind_eq_Inr_iff split: prod.splits option.splits)
  note r' = prepare_spec(1-3,7) [OF assms(1,2) join(1)]
  show ?thesis
    using build_row_join [OF well_built_mono [OF assms(1) r'(1)] r'(2) assms(3) r'(4) [OF assms(4)] r'(3) join(2)] by blast
qed

lemma built_well_built: "built k n \<Longrightarrow> well_built k n"
  by (induction rule: built.induct) (blast intro: keeps_built well_built_mono)+

subsection \<open>What a row join returns\<close>

lemma prepare_returns:
  assumes "typed l" "typed r"
  shows "\<exists>r' mapping k'. ArrayValue_prepare_join_names l r k = Inr ((r', mapping), k')"
  using typed_ids [OF assms(1)] typed_ids [OF assms(2)] typed_column_ids [OF assms(1)] typed_column_ids [OF assms(2)]
  by (auto simp: ArrayValue_prepare_join_names_def Let_def split: prod.split)

text \<open>The columns of a joined plan have the values of the columns they stand for.\<close>

definition carries :: "engine \<Rightarrow> bfnode \<Rightarrow> bfnode \<Rightarrow> (string \<times> string) list \<Rightarrow> bool" where
  "carries E m n mapping \<longleftrightarrow> map fst mapping = map id_name (out_ids n) \<and>
     (\<forall>(a, b) \<in> set mapping. column_values E m (ColumnId b) = column_values E n (ColumnId a))"

lemma column_agree: "rows_agree S (rows E m) (rows E n) \<Longrightarrow> i \<in> S \<Longrightarrow> column_values E m i = column_values E n i"
  by (auto simp: rows_agree_def list_all2_conv_all_nth agree_def intro!: nth_equalityI)

lemma array_row_join_sound:
  assumes "well_built k l" "well_built k r" "typed l" "typed r"
    and "\<forall>(a, b) \<in> set conds. has_column l a \<and> has_column r b"
  shows "\<exists>res k'. ArrayValue_try_row_join l r conds k = Inr (res, k') \<and>
    (\<forall>m l_map r_map. res = Some (m, l_map, r_map) \<longrightarrow> carries E m l l_map \<and> carries E m r r_map \<and>
       (\<forall>(a, b) \<in> set conds. column_values E l (ColumnId a) = column_values E r (ColumnId b)))"
proof -
  obtain r' r_mapping k1 where prep: "ArrayValue_prepare_join_names l r k = Inr ((r', r_mapping), k1)"
    using prepare_returns [OF assms(3,4)] by blast
  note r' = prepare_spec(1-5,7) [OF assms(1,2) prep] and cells = prepare_spec(6,8) [OF assms(1,2) prep, where E = E]
  have l: "well_built k1 l" by (rule well_built_mono [OF assms(1) r'(1)])
  obtain l_mapping where l_map: "identity_mapping l = Inr l_mapping" "l_mapping = map (\<lambda>i. (id_name i, id_name i)) (out_ids l)"
  proof -
    have "\<exists>x. identity_mapping l = Inr x" by (simp add: identity_mapping_def typed_ids [OF assms(3)])
    then show thesis using identity_mapping_eq [OF assms(1)] that by blast
  qed
  have keys: "\<forall>(a, b) \<in> set conds. spec_values E l (ColumnId a) (column_values E l (ColumnId a)) \<and>
      spec_values E r' (ColumnId b) (column_values E r (ColumnId b))"
    using assms(5) column_spec_values [OF assms(3) well_builtD(1) [OF assms(1)]] cells(2) [OF assms(4)] by auto
  obtain res k' where join: "try_row_join l r' conds k1 = Inr (res, k')"
    "\<And>m. res = Some m \<Longrightarrow> row_joined E m l r' \<and>
      (\<forall>(a, b) \<in> set conds. column_values E l (ColumnId a) = column_values E r (ColumnId b))"
    using row_join_sound [OF well_builtD(1) [OF l] well_builtD(1) [OF r'(2)] assms(3) r'(6) [OF assms(4)] well_builtD(2,3) [OF l] r'(3) keys]
    by blast
  have left: "carries E m l l_mapping" if "row_joined E m l r'" for m
    using that column_agree [of "set (out_ids l)" E m l] built_names [OF assms(1)]
    by (auto simp: carries_def l_map(2) row_joined_def comp_def)
  have "carries E m r r_mapping" if m: "row_joined E m l r'" for m
  proof -
    have "ColumnId b \<in> set (out_ids r')" if "(a, b) \<in> set r_mapping" for a b
      using that arg_cong [OF r'(5), of set] by force
    then have "column_values E m (ColumnId b) = column_values E r' (ColumnId b)" if "(a, b) \<in> set r_mapping" for a b
      using that column_agree [of "set (out_ids r')" E m r'] m by (auto simp: row_joined_def)
    then show ?thesis using r'(4) cells(1) by (auto simp: carries_def)
  qed
  then show ?thesis
    using join left by (cases res) (auto simp: ArrayValue_try_row_join_def l_map(1) prep)
qed

end
