(* ===== verification/Array_Operations.thy ===== *)
theory Array_Operations
  imports Built_Plans
begin

text \<open>
  The operations of \<^verbatim>\<open>ArrayValue\<close> as one type, and what they ask of their arguments. The code checks few of
  these conditions itself: an operation on a well-built plan gives a well-scoped plan exactly when they hold.
\<close>

subsection \<open>Operations and their arguments\<close>

datatype array_op =
    RowCount | FilterById string bool | OrderBy "expr ordering_expression list" bool | Reversed
  | Slice "int option" "int option" "int option" | PromoteOffsets | Concatenate "array_value list"
  | ComputeValues "expr list" | ProjectToId expr | CreateConstant pyvalue "dtype option" | Assign string string
  | SelectColumns "string list" bool | RenameColumns "(string \<times> string) list" | DropColumns "string list"
  | AggregateBy "(expr \<times> string) list" "string list" bool | ProjectWindow "expr list" "expr window_spec"
  | IsIn array_value string | RelationalJoin bool array_value "(string \<times> string) list" join_type "bool option"
  | Explode "string list" | UniformSampling rat

fun perform :: "array_op \<Rightarrow> array_value \<Rightarrow> nat \<Rightarrow> (array_value \<times> nat) result" where
  "perform RowCount av counter = Inr (ArrayValue_row_count av counter)"
| "perform (FilterById predicate_id keep_null) av counter = Inr (ArrayValue_filter_by_id av predicate_id keep_null, counter)"
| "perform (OrderBy by is_total_order) av counter = Inr (ArrayValue_order_by av by is_total_order, counter)"
| "perform Reversed av counter = Inr (ArrayValue_reversed av, counter)"
| "perform (Slice start stop step) av counter = Inr (ArrayValue_slice av start stop step, counter)"
| "perform PromoteOffsets av counter = (case ArrayValue_promote_offsets av counter of ((m, _), counter') \<Rightarrow> Inr (m, counter'))"
| "perform (Concatenate others) av counter = ArrayValue_concat av others counter"
| "perform (ComputeValues assignments) av counter =
     (case ArrayValue_compute_values av assignments counter of ((m, _), counter') \<Rightarrow> Inr (m, counter'))"
| "perform (ProjectToId expression) av counter =
     (case ArrayValue_project_to_id av expression counter of ((m, _), counter') \<Rightarrow> Inr (m, counter'))"
| "perform (CreateConstant v dtype) av counter =
     (case ArrayValue_create_constant av v dtype counter of ((m, _), counter') \<Rightarrow> Inr (m, counter'))"
| "perform (Assign source destination) av counter = rbind (ArrayValue_assign av source destination) (\<lambda>m. Inr (m, counter))"
| "perform (SelectColumns names allow_renames) av counter = ArrayValue_select_columns av names allow_renames counter"
| "perform (RenameColumns overrides) av counter = rbind (ArrayValue_rename_columns av overrides) (\<lambda>m. Inr (m, counter))"
| "perform (DropColumns names) av counter = ArrayValue_drop_columns av names counter"
| "perform (AggregateBy aggs keys dropna) av counter = Inr (ArrayValue_aggregate av aggs keys dropna, counter)"
| "perform (ProjectWindow es w) av counter =
     (case ArrayValue_project_window_expr av es w counter of ((m, _), counter') \<Rightarrow> Inr (m, counter'))"
| "perform (IsIn other lcol) av counter = rbind (ArrayValue_isin av other lcol counter) (\<lambda>((m, _), counter'). Inr (m, counter'))"
| "perform (RelationalJoin strict other conds ty po) av counter =
     rbind (ArrayValue_relational_join strict av other conds ty po counter) (\<lambda>((m, _), counter'). Inr (m, counter'))"
| "perform (Explode names) av counter = rbind (ArrayValue_explode av names) (\<lambda>m. Inr (m, counter))"
| "perform (UniformSampling fraction) av counter = Inr (ArrayValue_uniform_sampling av fraction, counter)"

fun operands :: "array_op \<Rightarrow> array_value list" where
  "operands (Concatenate others) = others"
| "operands (IsIn other lcol) = [other]"
| "operands (RelationalJoin strict other conds ty po) = [other]"
| "operands op = []"

text \<open>
  The arguments refer to columns of the plan, the inputs of a concatenation are equally wide, and the names
  that a renaming or an aggregation makes are different.
\<close>

fun sound_args :: "array_op \<Rightarrow> array_value \<Rightarrow> bool" where
  "sound_args (FilterById predicate_id keep_null) av = has_column av predicate_id"
| "sound_args (OrderBy by is_total_order) av = (parts_refs by \<subseteq> set (out_ids av))"
| "sound_args (Concatenate others) av = (\<forall>other \<in> set others. length (out_ids other) = length (out_ids av))"
| "sound_args (ComputeValues assignments) av = list_all (over_columns av) assignments"
| "sound_args (ProjectToId expression) av = over_columns av expression"
| "sound_args (Assign source destination) av = has_column av source"
| "sound_args (SelectColumns names allow_renames) av = list_all (has_column av) names"
| "sound_args (RenameColumns overrides) av = distinct (map (\<lambda>i. get_or_self (dict_of overrides) (id_name i)) (out_ids av))"
| "sound_args (AggregateBy aggs keys dropna) av =
     (list_all (\<lambda>(e, _). over_columns av e) aggs \<and> list_all (has_column av) keys \<and> distinct (keys @ map snd aggs))"
| "sound_args (ProjectWindow es w) av = (list_all (over_columns av) es \<and> all_referenced_columns w \<subseteq> set (out_ids av))"
| "sound_args (IsIn other lcol) av = has_column av lcol"
| "sound_args (Explode names) av = list_all (has_column av) names"
| "sound_args op av = True"

text \<open>The names that the caller chooses.\<close>

fun chosen_names :: "array_op \<Rightarrow> string list" where
  "chosen_names (Assign source destination) = [destination]"
| "chosen_names (RenameColumns overrides) = map snd overrides"
| "chosen_names (AggregateBy aggs keys dropna) = map snd aggs"
| "chosen_names op = []"

subsection \<open>Sound arguments give well-built plans\<close>

lemma rename_columns_node:
  assumes "well_built k n" "ArrayValue_rename_columns n overrides = Inr m"
  shows "map (\<lambda>i. ColumnId (get_or_self (dict_of overrides) (id_name i))) (out_ids n) = out_ids m"
    "scoped m \<longleftrightarrow> distinct (out_ids m)"
proof -
  have "out_ids m = map (\<lambda>i. ColumnId (get_or_self (dict_of overrides) (id_name i))) (out_ids n) \<and> (scoped m \<longleftrightarrow> distinct (out_ids m))"
  proof (cases "overrides = []")
    case True
    then have "m = n" "\<And>i. get_or_self (dict_of overrides) i = i"
      using assms(2) by (simp_all add: ArrayValue_rename_columns_def get_or_self_def dict_of_def)
    then show ?thesis using built_columns [OF assms(1)] well_builtD(1) [OF assms(1)] scoped_distinct by simp
  next
    case False
    then have "m = SelectionNode n (map (\<lambda>i. (DerefOp i, ColumnId (get_or_self (dict_of overrides) (id_name i)))) (out_ids n))"
      using assms(2) by (auto simp: ArrayValue_rename_columns_def rbind_eq_Inr_iff comp_def zip_map_same dest!: column_ids_eq ids_out_ids)
    then show ?thesis using well_builtD(1) [OF assms(1)] by (simp add: list_all_iff comp_def)
  qed
  then show "map (\<lambda>i. ColumnId (get_or_self (dict_of overrides) (id_name i))) (out_ids n) = out_ids m" "scoped m \<longleftrightarrow> distinct (out_ids m)"
    by simp_all
qed

lemma distinct_columns: "distinct (map (\<lambda>i. ColumnId (f i)) is) \<longleftrightarrow> distinct (map f is)"
  by (simp add: distinct_map inj_on_def)

lemma perform_well_built:
  assumes "well_built k av" "\<forall>other \<in> set (operands op). well_built k other" "perform op av k = Inr (m, k')"
    and "sound_args op av" "list_all (\<lambda>nm. built_id k (ColumnId nm)) (chosen_names op)"
  shows "well_built k' m"
proof (cases op)
  case (RenameColumns overrides)
  then have m: "ArrayValue_rename_columns av overrides = Inr m" "k' = k" using assms(3) by (auto simp: rbind_eq_Inr_iff)
  have "distinct (out_ids m)"
    using assms(4) RenameColumns unfolding rename_columns_node(1) [OF assms(1) m(1), symmetric] by (simp add: distinct_columns)
  then show ?thesis
    using build_rename_columns [OF assms(1) m(1)] assms(5) RenameColumns m(2) by (simp add: list_all_iff case_prod_unfold)
next
  case (AggregateBy aggs keys dropna)
  then show ?thesis
    using assms build_aggregate [OF assms(1), of aggs keys dropna] by (simp add: list_all_iff case_prod_unfold)
next
  case (ProjectToId e)
  then show ?thesis
    using assms build_compute_values [OF assms(1), of "[e]"] by (auto simp: ArrayValue_project_to_id_def split: prod.splits)
next
  case (CreateConstant v t)
  then show ?thesis
    using assms build_compute_values [OF assms(1), of "[const v d]" for d]
    by (auto simp: ArrayValue_create_constant_def ArrayValue_project_to_id_def Let_def const_def split: prod.splits if_splits)
next
  case (RelationalJoin strict other conds ty po)
  then show ?thesis using assms build_relational_join [OF assms(1), of other] by (auto simp: rbind_eq_Inr_iff)
next
  case (IsIn other lcol)
  then show ?thesis using assms build_isin [OF assms(1), of other] by (auto simp: rbind_eq_Inr_iff)
qed (use assms in \<open>auto simp: rbind_eq_Inr_iff split: prod.splits intro: keeps_built\<close>)

subsection \<open>Other arguments do not\<close>

lemma zip_refs:
  assumes "list_all (\<lambda>(e, j). over_columns n e \<and> Q j) (zip es js)" "length js = length es"
  shows "list_all (over_columns n) es"
proof -
  have "list_all (\<lambda>p. over_columns n (fst p)) (zip es js)" using assms(1) by (simp add: list_all_iff case_prod_unfold)
  then have "list_all (over_columns n) (map fst (zip es js))" by (simp add: list_all_iff)
  then show ?thesis using assms(2) by simp
qed

lemma compute_values_refs:
  assumes "ArrayValue_compute_values n es k = ((m, names), k')" "scoped m"
  shows "list_all (over_columns n) es"
proof -
  have "m = ProjectionNode n (zip es (map ColumnId names))" "length names = length es"
    using assms(1) by (auto simp: ArrayValue_compute_values_def gen_uids simp del: upt_Suc map_map)
  then show ?thesis using assms(2) by (intro zip_refs [where js = "map ColumnId names" and Q = "\<lambda>j. j \<notin> set (out_ids n)"]) simp_all
qed

lemma project_window_refs:
  assumes "ArrayValue_project_window_expr n es w k = ((m, names), k')" "scoped m"
  shows "list_all (over_columns n) es \<and> all_referenced_columns w \<subseteq> set (out_ids n)"
proof -
  have m: "m = WindowOpNode n (map (\<lambda>(e, nm). ColumnDef e (ColumnId nm)) (zip es names)) w" "length names = length es"
    using assms(1) by (auto simp: ArrayValue_project_window_expr_def gen_uids simp del: upt_Suc map_map)
  then have "list_all (\<lambda>(e, nm). over_columns n e \<and> ColumnId nm \<notin> set (out_ids n)) (zip es names)"
    using assms(2) by (fastforce simp: list_all_iff)
  then show ?thesis using m assms(2) zip_refs [of n "\<lambda>nm. ColumnId nm \<notin> set (out_ids n)" es names] by simp
qed

lemma select_refs_sources: "select_refs allow_renames names seen k = Inr (refs, k') \<Longrightarrow> map (ref_id \<circ> fst) refs = map ColumnId names"
  by (induction allow_renames names seen k arbitrary: refs k' rule: select_refs.induct)
    (auto simp: rbind_eq_Inr_iff AliasedRef_identity_def deref_col_def split: if_splits prod.splits)

lemma select_columns_refs:
  assumes "ArrayValue_select_columns n names allow_renames k = Inr (m, k')" "scoped m"
  shows "list_all (has_column n) names"
proof -
  obtain refs where refs: "select_refs allow_renames names {} k = Inr (refs, k')" "m = SelectionNode n refs"
    using assms(1) by (auto simp: ArrayValue_select_columns_def rbind_eq_Inr_iff)
  have "set (map (ref_id \<circ> fst) refs) \<subseteq> set (out_ids n)" using assms(2) refs(2) by (auto simp: list_all_iff)
  then show ?thesis unfolding select_refs_sources [OF refs(1)] by (auto simp: list_all_iff)
qed

lemma assign_refs:
  assumes "well_built k n" "ArrayValue_assign n a b = Inr m" "scoped m"
  shows "has_column n a"
proof (cases "b \<in> id_name ` set (out_ids n)")
  case True
  then have "m = SelectionNode n (map (\<lambda>i. (deref_col (if id_name i = b then a else id_name i), ColumnId (id_name i))) (out_ids n))"
    using assms(2) by (auto simp: ArrayValue_assign_def rbind_eq_Inr_iff comp_def dest!: column_ids_eq)
  then show ?thesis using True assms(3) by (auto simp: list_all_iff deref_col_def)
next
  case False
  then have "m = SelectionNode n (map (\<lambda>i. AliasedRef_identity (ColumnId (id_name i))) (out_ids n) @ [(deref_col a, ColumnId b)])"
    using assms(2) by (auto simp: ArrayValue_assign_def rbind_eq_Inr_iff comp_def dest!: column_ids_eq)
  then show ?thesis using assms(3) by (simp add: deref_col_def)
qed

lemma concat_widths:
  assumes "ArrayValue_concat n ms k = Inr (m, k')" "scoped m"
  shows "\<forall>other \<in> set ms. length (out_ids other) = length (out_ids n)"
proof -
  have "m = ConcatNode (n # ms) (uids (length (out_ids n)) k)"
    using assms(1) by (auto simp: ArrayValue_concat_def rbind_eq_Inr_iff gen_uids comp_def dest!: column_ids_eq simp del: upt_Suc)
  then show ?thesis using assms(2) by (simp add: list_all_iff del: upt_Suc)
qed

lemma perform_scoped_args:
  assumes "well_built k av" "perform op av k = Inr (m, k')" "scoped m"
  shows "sound_args op av"
proof (cases op)
  case (ComputeValues es)
  then show ?thesis using assms compute_values_refs by (auto split: prod.splits)
next
  case (ProjectToId e)
  then show ?thesis
    using assms compute_values_refs [of av "[e]"] by (auto simp: ArrayValue_project_to_id_def split: prod.splits)
next
  case (ProjectWindow es w)
  then show ?thesis using assms project_window_refs by (auto split: prod.splits)
next
  case (RenameColumns overrides)
  then have "ArrayValue_rename_columns av overrides = Inr m" using assms(2) by (auto simp: rbind_eq_Inr_iff)
  then have "distinct (map (\<lambda>i. ColumnId (get_or_self (dict_of overrides) (id_name i))) (out_ids av))"
    using rename_columns_node [OF assms(1)] assms(3) by simp
  then show ?thesis unfolding distinct_columns by (simp add: RenameColumns)
next
  case (AggregateBy aggs keys dropna)
  have names: "distinct (map ColumnId keys @ map (\<lambda>x. ColumnId (snd x)) aggs) \<longleftrightarrow> distinct (keys @ map snd aggs)"
    by (auto simp: distinct_map inj_on_def)
  have "m = AggregateNode av (map (\<lambda>(agg, name). (agg, ColumnId name)) aggs) (map deref_col keys) [] dropna"
    using assms(2) AggregateBy by (simp add: ArrayValue_aggregate_def)
  then have "distinct (map ColumnId keys @ map (\<lambda>x. ColumnId (snd x)) aggs)" "set (map ColumnId keys) \<subseteq> set (out_ids av)"
    "\<forall>p \<in> set aggs. over_columns av (fst p)"
    using assms(3) by (simp_all add: deref_col_def comp_def case_prod_unfold list_all_iff)
  then show ?thesis
    unfolding names AggregateBy by (auto simp: list_all_iff case_prod_unfold image_subset_iff simp del: distinct_append)
next
  case (IsIn other lcol)
  then show ?thesis using assms by (auto simp: ArrayValue_isin_def rbind_eq_Inr_iff deref_col_def split: prod.splits)
next
  case (Explode names)
  then show ?thesis using assms by (auto simp: ArrayValue_explode_def rbind_eq_Inr_iff deref_col_def list_all_iff image_subset_iff)
next
  case (FilterById nm keep_null)
  then show ?thesis using assms by (cases keep_null) (auto simp: ArrayValue_filter_by_id_def deref_col_def Let_def)
next
  case (OrderBy parts is_total)
  then show ?thesis using assms by (auto simp: ArrayValue_order_by_def)
qed (use assms in \<open>auto simp: rbind_eq_Inr_iff dest: select_columns_refs assign_refs concat_widths\<close>)

end
