(* ===== verification/Array_Properties.thy ===== *)
theory Array_Properties
  imports Array_Operations Sample_Plans
begin

text \<open>
  The properties of the plans that array values build and of their row joins, each at a concrete
  plan.
\<close>

lemma sample_built: "built 0 sample_scan"
proof -
  have "built 0 (ArrayValue_from_bq_data_source sample_table
      [ScanItem (ColumnId ''a'') ''a'', ScanItem (ColumnId ''b'') ''b'', ScanItem (ColumnId ''c'') ''c''] None)"
    by (rule built.from_bq_data_source) (simp_all add: built_id_def older_def guid_id_def)
  then show ?thesis by (simp add: ArrayValue_from_bq_data_source_def sample_scan_def)
qed

definition sample_offsets :: bfnode where
  "sample_offsets = PromoteOffsetsNode sample_scan (guid_id 1)"

lemma sample_built_offsets: "built 1 sample_offsets"
  unfolding sample_offsets_def
  by (rule built.promote_offsets [OF sample_built, where nm = "id_name (guid_id 1)"]) (simp add: ArrayValue_promote_offsets_def gen_uid)



text \<open>
  C6: joining two built array values row by row always returns; where it gives a plan, that plan
  holds, under the names it maps them to, the values of every column of either side row for row,
  and the join keys of both sides have equal values in every row.
\<close>

theorem row_join_carries_columns:
  assumes "built k l" "built k r" "typed l" "typed r"
    and "\<forall>(a, b) \<in> set conds. ColumnId a \<in> set (out_ids l) \<and> ColumnId b \<in> set (out_ids r)"
  shows "\<exists>res k'. ArrayValue_try_row_join l r conds k = Inr (res, k') \<and>
    (\<forall>m l_map r_map. res = Some (m, l_map, r_map) \<longrightarrow> carries E m l l_map \<and> carries E m r r_map \<and>
       (\<forall>(a, b) \<in> set conds. map (\<lambda>s. s (ColumnId a)) (rows E l) = map (\<lambda>s. s (ColumnId b)) (rows E r)))"
  by (rule array_row_join_sound [OF built_well_built [OF assms(1)] built_well_built [OF assms(2)] assms(3-5)])

definition sample_renamed :: bfnode where
  "sample_renamed = SelectionNode sample_scan [(col ''a'', ColumnId ''x''), (col ''b'', ColumnId ''y''), (col ''c'', ColumnId ''z'')]"

lemma sample_offsets_typed: "typed sample_offsets"
  using sample_typed(1) sample_scan_fields by (simp add: sample_offsets_def typed_iff [of "PromoteOffsetsNode _ _"])

lemma sample_scan_ids: "out_ids sample_scan = [ColumnId ''a'', ColumnId ''b'', ColumnId ''c'']"
  by (simp add: sample_scan_def)

lemma sample_renamed_typed: "typed sample_renamed"
  unfolding sample_renamed_def by (rule typed_selection [OF sample_typed(1)]) (simp add: sample_scan_ids col_def)

lemma sample_renamed_built: "built 1 sample_renamed"
proof (rule built.rename_columns [OF built.later [OF sample_built], of 1 "[(''a'', ''x''), (''b'', ''y''), (''c'', ''z'')]"])
  show "ArrayValue_rename_columns sample_scan [(''a'', ''x''), (''b'', ''y''), (''c'', ''z'')] = Inr sample_renamed"
    using typed_column_ids [OF sample_typed(1)] typed_ids [OF sample_typed(1)]
    by (simp add: ArrayValue_rename_columns_def sample_scan_ids sample_renamed_def col_def get_or_self_def dict_of_def)
qed (simp_all add: sample_renamed_def built_id_def older_def guid_id_def)

lemma sample_shared:
  "first_shared_descendent is_alignable (remdups [sample_offsets, sample_renamed]) = Some sample_scan"
proof -
  have height: "height sample_renamed = height sample_scan + 1" "height sample_offsets = height sample_scan + 1"
    by (simp_all add: sample_renamed_def sample_offsets_def height_def props_of.simps [of "SelectionNode _ _"]
        props_of.simps [of "PromoteOffsetsNode _ _"] BigFrameNode_derived_def BigFrameNode_height_def)
  have "first_shared_descendent is_alignable [sample_scan] = Some sample_scan"
    by (simp add: first_shared_descendent.simps)
  then show ?thesis
    by (simp add: first_shared_descendent.simps [of _ "[sample_offsets, sample_renamed]"] height)
      (simp add: sample_renamed_def sample_offsets_def descend_def)
qed

lemma sample_joined:
  assumes "ArrayValue_try_row_join sample_offsets sample_renamed [(''a'', ''x'')] 1 = Inr (res, k)"
  shows "res \<noteq> None"
proof -
  have disjoint: "set (out_ids sample_renamed) \<inter> set (out_ids sample_offsets) = {}"
    by (simp add: sample_scan_ids sample_renamed_def sample_offsets_def guid_id_def)
  have prep: "\<exists>mapping. ArrayValue_prepare_join_names sample_offsets sample_renamed 1 = Inr ((sample_renamed, mapping), 1)"
    using typed_ids [OF sample_offsets_typed] typed_ids [OF sample_renamed_typed] typed_column_ids [OF sample_renamed_typed]
    by (simp add: ArrayValue_prepare_join_names_def disjoint del: out_ids.simps)
  have "get_expression_spec sample_offsets (ColumnId ''a'') = Inr (Deref (DerefOp (ColumnId ''a'')), sample_scan)"
    "get_expression_spec sample_renamed (ColumnId ''x'') = Inr (Deref (DerefOp (ColumnId ''a'')), sample_scan)"
    by (simp_all add: get_expression_spec_def sample_renamed_def sample_offsets_def sample_scan_def PromoteOffsetsNode_added_fields_def mk_field_def
        guid_id_def bind_deref_def dict_of_def col_def)
  then have "same_keys sample_offsets sample_renamed [(''a'', ''x'')] = Inr True" by simp
  then show ?thesis
    using assms prep sample_shared
    by (auto simp: ArrayValue_try_row_join_def try_row_join_def rbind_eq_Inr_iff split: option.splits prod.splits)
qed

theorem row_join_carries_columns_witness:
  "\<exists>m l_map r_map k. ArrayValue_try_row_join sample_offsets sample_renamed [(''a'', ''x'')] 1 = Inr (Some (m, l_map, r_map), k) \<and>
     carries sample_engine m sample_offsets l_map \<and> carries sample_engine m sample_renamed r_map"
proof -
  have "\<forall>(a, b) \<in> set [(''a'', ''x'')]. ColumnId a \<in> set (out_ids sample_offsets) \<and> ColumnId b \<in> set (out_ids sample_renamed)"
    by (simp add: sample_scan_ids sample_offsets_def sample_renamed_def)
  from row_join_carries_columns [OF sample_built_offsets sample_renamed_built sample_offsets_typed sample_renamed_typed this, of sample_engine]
  obtain res k where "ArrayValue_try_row_join sample_offsets sample_renamed [(''a'', ''x'')] 1 = Inr (res, k)"
    "\<And>m l_map r_map. res = Some (m, l_map, r_map) \<Longrightarrow>
       carries sample_engine m sample_offsets l_map \<and> carries sample_engine m sample_renamed r_map"
    by blast
  then show ?thesis using sample_joined by (cases res) auto
qed

end
