(* ===== verification/Stable_Sorting.thy ===== *)
theory Stable_Sorting
  imports Ordering_Semantics "HOL-Library.Multiset" "HOL-Library.Countable"
begin

text \<open>
  Sorting by a three-way comparison: a stable sort is a sorted permutation, a permutation of a
  strictly sorted list sorts to that list, and equal items keep their order. The interface is a
  comparison that is antisymmetric and transitive; comparing rows by a list of ordering parts
  provides it for an engine with a lawful order of values.
\<close>

subsection \<open>Comparisons\<close>

locale comparison =
  fixes cmp :: "'a \<Rightarrow> 'a \<Rightarrow> int"
  assumes swap: "cmp y x < 0 \<longleftrightarrow> 0 < cmp x y"
    and trans: "cmp x y \<le> 0 \<Longrightarrow> cmp y z \<le> 0 \<Longrightarrow> cmp x z \<le> 0"
begin

lemma refl: "cmp x x = 0"
  using swap [of x x] by linarith

lemma zero_sym: "cmp x y = 0 \<longleftrightarrow> cmp y x = 0"
  using swap [of x y] swap [of y x] by linarith

lemma le_total: "cmp x y \<le> 0 \<or> cmp y x \<le> 0"
  using swap [of x y] by linarith

lemma not_less: "\<not> cmp x y < 0 \<longleftrightarrow> cmp y x \<le> 0"
  using swap [of x y] by linarith

lemma less_le_trans: "cmp x y < 0 \<Longrightarrow> cmp y z \<le> 0 \<Longrightarrow> cmp x z < 0"
  using trans [of y z x] not_less [of x z] not_less [of x y] by blast

lemma le_less_trans: "cmp x y \<le> 0 \<Longrightarrow> cmp y z < 0 \<Longrightarrow> cmp x z < 0"
  using trans [of z x y] not_less [of x z] not_less [of y z] by blast

lemma sorted_insert: "sorted_wrt (\<lambda>x y. cmp x y \<le> 0) ys \<Longrightarrow> sorted_wrt (\<lambda>x y. cmp x y \<le> 0) (insert_by cmp x ys)"
proof (induction ys)
  case (Cons y ys)
  then show ?case using le_total [of x y] trans [of x y] by auto
qed simp

lemma sorted_stable_sort: "sorted_wrt (\<lambda>x y. cmp x y \<le> 0) (stable_sort cmp xs)"
  by (induction xs) (auto simp: stable_sort_def intro: sorted_insert)

lemma sorted_unique:
  assumes "sorted_wrt (\<lambda>x y. cmp x y < 0) xs" "sorted_wrt (\<lambda>x y. cmp x y \<le> 0) ys" "mset ys = mset xs"
  shows "ys = xs"
  using assms
proof (induction xs arbitrary: ys)
  case (Cons x xs)
  obtain z zs where ys: "ys = z # zs" using Cons.prems(3) by (cases ys) auto
  have sets: "set ys = set (x # xs)" using Cons.prems(3) by (metis set_mset_mset)
  have "z = x"
  proof (rule ccontr)
    assume "z \<noteq> x"
    then have "z \<in> set xs" "x \<in> set zs" using sets ys by auto
    then have "cmp x z < 0" "cmp z x \<le> 0" using Cons.prems(1,2) ys by auto
    then show False using swap [of x z] by simp
  qed
  then show ?case using Cons ys by simp
qed simp

lemma strict_sort:
  assumes "\<And>i j. i < j \<Longrightarrow> j < length xs \<Longrightarrow> cmp (xs ! i) (xs ! j) \<noteq> 0" "sorted_wrt (\<lambda>x y. cmp x y \<le> 0) xs"
  shows "sorted_wrt (\<lambda>x y. cmp x y < 0) xs"
  unfolding sorted_wrt_iff_nth_less
proof (intro allI impI)
  fix i j assume ij: "i < j" "j < length xs"
  then have "cmp (xs ! i) (xs ! j) \<le> 0" using assms(2) by (simp add: sorted_wrt_iff_nth_less)
  with assms(1) [OF ij] show "cmp (xs ! i) (xs ! j) < 0" by linarith
qed

end

lemma mset_insert_by [simp]: "mset (insert_by cmp x ys) = add_mset x (mset ys)"
  by (induction ys) auto

lemma mset_stable_sort [simp]: "mset (stable_sort cmp xs) = mset xs"
  by (induction xs) (auto simp: stable_sort_def)

context comparison begin

lemma stable_sort_unique: "sorted_wrt (\<lambda>x y. cmp x y < 0) xs \<Longrightarrow> mset ys = mset xs \<Longrightarrow> stable_sort cmp ys = xs"
  by (rule sorted_unique [OF _ sorted_stable_sort]) simp_all

lemma stable_sort_perm: "mset ys = mset xs \<Longrightarrow> sorted_wrt (\<lambda>x y. cmp x y < 0) (stable_sort cmp xs) \<Longrightarrow> stable_sort cmp ys = stable_sort cmp xs"
  by (rule stable_sort_unique) simp_all

text \<open>Items that compare equal keep their order.\<close>

lemma stable_insert:
  assumes "\<forall>y \<in> set ys. before x y" "sorted_wrt (\<lambda>a b. cmp a b < 0 \<or> cmp a b = 0 \<and> before a b) ys"
  shows "sorted_wrt (\<lambda>a b. cmp a b < 0 \<or> cmp a b = 0 \<and> before a b) (insert_by cmp x ys)"
  using assms
proof (induction ys)
  case (Cons y ys)
  show ?case
  proof (cases "cmp x y \<le> 0")
    case True
    have "cmp x z < 0 \<or> cmp x z = 0 \<and> before x z" if "z \<in> set (y # ys)" for z
    proof -
      have "cmp y z \<le> 0" using that Cons.prems(2) by (auto simp: refl)
      then have "cmp x z \<le> 0" using trans True by blast
      then show ?thesis using Cons.prems(1) that by auto
    qed
    then show ?thesis using True Cons.prems(2) by simp
  next
    case False
    then have "cmp y x < 0" using swap [of y x] by linarith
    then show ?thesis using False Cons by auto
  qed
qed simp

lemma stable_sort_stable:
  "sorted_wrt before xs \<Longrightarrow> sorted_wrt (\<lambda>a b. cmp a b < 0 \<or> cmp a b = 0 \<and> before a b) (stable_sort cmp xs)"
proof (induction xs)
  case (Cons x xs)
  have "\<forall>y \<in> set (stable_sort cmp xs). before x y" using Cons.prems by (metis mset_stable_sort set_mset_mset sorted_wrt.simps(2))
  then have "sorted_wrt (\<lambda>a b. cmp a b < 0 \<or> cmp a b = 0 \<and> before a b) (insert_by cmp x (stable_sort cmp xs))"
    using Cons by (intro stable_insert) auto
  then show ?case by (simp add: stable_sort_def)
qed (simp add: stable_sort_def)

end

subsection \<open>Comparing rows\<close>

definition lawful_order :: "engine \<Rightarrow> bool" where
  "lawful_order E \<longleftrightarrow> keeps_keys E \<and>
     (\<forall>a b. a \<noteq> NULL \<longrightarrow> b \<noteq> NULL \<longrightarrow> (value_order E b a < 0 \<longleftrightarrow> 0 < value_order E a b)) \<and>
     (\<forall>a b c. a \<noteq> NULL \<longrightarrow> b \<noteq> NULL \<longrightarrow> c \<noteq> NULL \<longrightarrow> value_order E a b \<le> 0 \<longrightarrow> value_order E b c \<le> 0 \<longrightarrow> value_order E a c \<le> 0)"

abbreviation value_compare :: "engine \<Rightarrow> 'e ordering_expression \<Rightarrow> sql_value \<Rightarrow> sql_value \<Rightarrow> int" where
  "value_compare E \<equiv> part_compare (\<lambda>v. v = NULL) (value_order E)"

lemma value_compare_swap: "lawful_order E \<Longrightarrow> value_compare E p b a < 0 \<longleftrightarrow> 0 < value_compare E p a b"
  by (auto simp: part_compare_def lawful_order_def)

lemma value_compare_trans:
  assumes "lawful_order E" "value_compare E p a b \<le> 0" "value_compare E p b c \<le> 0"
  shows "value_compare E p a c \<le> 0"
proof (cases "a = NULL \<or> b = NULL \<or> c = NULL")
  case True
  then show ?thesis using assms(2,3) by (auto simp: part_compare_def split: if_splits)
next
  case False
  have laws: "value_order E x y \<le> 0 \<Longrightarrow> value_order E y z \<le> 0 \<Longrightarrow> value_order E x z \<le> 0"
    "value_order E y x < 0 \<longleftrightarrow> 0 < value_order E x y" if "x \<noteq> NULL" "y \<noteq> NULL" "z \<noteq> NULL" for x y z
    using assms(1) that unfolding lawful_order_def by blast+
  show ?thesis
  proof (cases "order_direction p = ASC")
    case True
    then show ?thesis using False assms(2,3) laws(1) [of a b c] by (simp add: part_compare_def)
  next
    case desc: False
    then have "value_order E c b \<le> 0" "value_order E b a \<le> 0"
      using False assms(2,3) laws(2) [of c b a] laws(2) [of b a c] laws(2) [of b c a] laws(2) [of a b c]
      by (simp_all add: part_compare_def)
    then have "value_order E c a \<le> 0" using False laws(1) [of c b a] by blast
    then show ?thesis using False desc laws(2) [of c a b] laws(2) [of a c b] by (simp add: part_compare_def)
  qed
qed

lemma value_compare_comparison: "lawful_order E \<Longrightarrow> comparison (value_compare E p)"
  by unfold_locales (auto simp: value_compare_swap intro: value_compare_trans)

text \<open>Any list of parts, over any way of reading the values of a row.\<close>

lemma rows_compare_comparison:
  assumes "lawful_order E"
  shows "comparison (rows_compare (\<lambda>v. v = NULL) (value_order E) val ps)"
proof (induction ps)
  case Nil
  show ?case by unfold_locales simp_all
next
  case (Cons p ps)
  let ?v = "val (scalar_expression p)" and ?c = "value_compare E p" and ?r = "rows_compare (\<lambda>v. v = NULL) (value_order E) val"
  note v = value_compare_comparison [OF assms, of p]
  show ?case
  proof unfold_locales
    fix r s
    show "?r (p # ps) s r < 0 \<longleftrightarrow> 0 < ?r (p # ps) r s"
      using comparison.swap [OF v, of "?v s" "?v r"] comparison.swap [OF v, of "?v r" "?v s"] comparison.swap [OF Cons.IH, of s r]
      unfolding rows_compare.simps Let_def by (auto split: if_splits)
  next
    fix r s t assume le: "?r (p # ps) r s \<le> 0" "?r (p # ps) s t \<le> 0"
    have first: "?c (?v r) (?v s) \<le> 0" "?c (?v s) (?v t) \<le> 0"
      using le unfolding rows_compare.simps Let_def by (auto split: if_splits)
    show "?r (p # ps) r t \<le> 0"
    proof (cases "?c (?v r) (?v s) = 0 \<and> ?c (?v s) (?v t) = 0")
      case True
      then have "?c (?v r) (?v t) \<le> 0" "?r ps r s \<le> 0" "?r ps s t \<le> 0"
        using le comparison.trans [OF v first] unfolding rows_compare.simps Let_def by auto
      then show ?thesis
        using comparison.trans [OF Cons.IH] unfolding rows_compare.simps Let_def by auto
    next
      case False
      then have "?c (?v r) (?v t) < 0"
        using first comparison.less_le_trans [OF v, of "?v r" "?v s" "?v t"] comparison.le_less_trans [OF v, of "?v r" "?v s" "?v t"] by linarith
      then show ?thesis unfolding rows_compare.simps Let_def by simp
    qed
  qed
qed

lemma rows_compare_zero:
  assumes "keeps_keys E"
  shows "rows_compare (\<lambda>v. v = NULL) (value_order E) val ps r s = 0 \<longleftrightarrow>
     (\<forall>p \<in> set ps. val (scalar_expression p) r = val (scalar_expression p) s)"
proof (induction ps)
  case (Cons p ps)
  have "value_compare E p a b = 0 \<longleftrightarrow> a = b" for a b
    using assms by (auto simp: part_compare_def keeps_keys_def)
  with Cons show ?case by (auto simp: Let_def)
qed simp

lemma row_compare_comparison: "lawful_order E \<Longrightarrow> comparison (row_compare E ps)"
  unfolding row_compare_def by (rule rows_compare_comparison)

lemma row_compare_append:
  "row_compare E (ps @ qs) r s = (if row_compare E ps r s \<noteq> 0 then row_compare E ps r s else row_compare E qs r s)"
  unfolding row_compare_def by (induction ps) (simp_all add: Let_def)

lemma row_compare_reverse: "row_compare E (map with_reverse ps) r s = - row_compare E ps r s"
  unfolding row_compare_def by (rule rows_compare_reverse)

lemma row_compare_Nil [simp]: "row_compare E [] r s = 0"
  by (simp add: row_compare_def)

lemma row_compare_single:
  "row_compare E [p] r s = value_compare E p (eval E r (scalar_expression p)) (eval E s (scalar_expression p))"
  by (simp add: row_compare_def Let_def)

text \<open>The values of a plan can be ordered lawfully: they are countable.\<close>

instantiation sql_value :: countable
begin
instance by countable_datatype
end

lemma lawful_counting: "lawful_order (tuple_engine\<lparr>value_order := \<lambda>a b. int (to_nat a) - int (to_nat b)\<rparr>)"
  by (simp add: lawful_order_def keeps_keys_def tuple_engine_def)

typedef lawful_engine = "{E. lawful_order E}"
  using lawful_counting by blast

interpretation row_order: comparison "row_compare (Rep_lawful_engine L) ps" for L ps
  using Rep_lawful_engine [of L] row_compare_comparison by simp

interpretation key_order: comparison
  "rows_compare (\<lambda>v. v = NULL) (value_order (Rep_lawful_engine L)) (\<lambda>n vs. vs ! n) ps" for L ps
  using Rep_lawful_engine [of L] rows_compare_comparison by simp

subsection \<open>Sorting rows\<close>

lemma sort_rows_Nil [simp]: "sort_rows E [] rs = rs"
proof -
  have "insert_by (row_compare E []) r rs = r # rs" for r rs by (cases rs) simp_all
  then show ?thesis by (induction rs) (simp_all add: sort_rows_def stable_sort_def)
qed

lemma mset_sort_rows [simp]: "mset (sort_rows E ps rs) = mset rs"
  by (simp add: sort_rows_def)

text \<open>
  Strictly sorted rows: no two compare equal. A permutation of them sorts to them, and sorting
  them by further parts first makes them strictly sorted by all.
\<close>

definition strict :: "engine \<Rightarrow> expr ordering_expression list \<Rightarrow> row list \<Rightarrow> bool" where
  "strict E ps rs \<longleftrightarrow> sorted_wrt (\<lambda>r s. row_compare E ps r s < 0) rs"

lemma strict_sort_unique:
  assumes "lawful_order E" "strict E ps zs" "mset rs = mset zs"
  shows "sort_rows E ps rs = zs"
  unfolding sort_rows_def
  by (rule comparison.stable_sort_unique [OF row_compare_comparison [OF assms(1)] assms(2) [unfolded strict_def] assms(3)])

lemma strict_distinct:
  assumes "lawful_order E" "strict E ps rs"
  shows "distinct rs"
proof -
  have "sorted_wrt (\<noteq>) rs"
    by (rule sorted_wrt_mono_rel [OF _ assms(2) [unfolded strict_def]])
      (use comparison.refl [OF row_compare_comparison [OF assms(1)]] in force)
  then show ?thesis by (induction rs) auto
qed

lemma strict_extend:
  assumes "lawful_order E" "strict E ps zs"
  shows "strict E (new @ ps) (sort_rows E new zs)"
  using comparison.stable_sort_stable [OF row_compare_comparison [OF assms(1), of new] assms(2) [unfolded strict_def]]
  unfolding strict_def sort_rows_def by (rule sorted_wrt_mono_rel [rotated]) (auto simp: row_compare_append)

end
