(* ===== verification/Order_Representation.thy ===== *)
theory Order_Representation
  imports Stable_Sorting Reference_Renaming
begin

text \<open>
  Rows whose order is kept in an ordering: a list of rows in any order represents the rows of a
  plan when some permutation of it agrees with them, and with a total ordering when that
  permutation is strictly sorted by the parts of the ordering and told apart by its identity
  columns. Each class of nodes computes rows that represent its own rows from rows that
  represent those of its child.
\<close>

subsection \<open>Arranged rows\<close>

definition identified :: "column_id set \<Rightarrow> row list \<Rightarrow> bool" where
  "identified cols rs \<longleftrightarrow> sorted_wrt (\<lambda>r s. \<exists>c \<in> cols. r c \<noteq> s c) rs"

definition encoded :: "expr ordering_expression list \<Rightarrow> integer_encoding \<Rightarrow> row list \<Rightarrow> bool" where
  "encoded ps enc rs \<longleftrightarrow> (is_encoded enc \<longrightarrow> (\<exists>c. ps = [ascending_over c True] \<and>
     (enc_sequential enc \<longrightarrow> (\<forall>k < length rs. (rs ! k) c = IntS (int k)))))"

fun arranged :: "engine \<Rightarrow> row_ordering \<Rightarrow> row list \<Rightarrow> bool" where
  "arranged E (RowOrdering ps enc) rs \<longleftrightarrow> False"
| "arranged E (TotalOrdering ps enc cols) rs \<longleftrightarrow>
     strict E ps rs \<and> identified cols rs \<and> keyed_by cols ps \<and> encoded ps enc rs"

definition reordered :: "column_id set \<Rightarrow> row list \<Rightarrow> row list \<Rightarrow> bool" where
  "reordered S rs ts \<longleftrightarrow> (\<exists>zs. mset zs = mset rs \<and> rows_agree S zs ts)"

definition realizes :: "engine \<Rightarrow> row_ordering \<Rightarrow> column_id set \<Rightarrow> row list \<Rightarrow> row list \<Rightarrow> bool" where
  "realizes E ord S rs ts \<longleftrightarrow> (\<exists>zs. mset zs = mset rs \<and> rows_agree S zs ts \<and> arranged E ord zs)"

named_theorems representation \<open>rows that represent rows, class by class\<close>

lemma realizesI: "mset zs = mset rs \<Longrightarrow> rows_agree S zs ts \<Longrightarrow> arranged E ord zs \<Longrightarrow> realizes E ord S rs ts"
  by (auto simp: realizes_def)

lemma reorderedI: "mset zs = mset rs \<Longrightarrow> rows_agree S zs ts \<Longrightarrow> reordered S rs ts"
  by (auto simp: reordered_def)

lemma realizes_reordered: "realizes E ord S rs ts \<Longrightarrow> reordered S rs ts"
  by (auto simp: realizes_def reordered_def)

lemma realizes_total: "realizes E ord S rs ts \<Longrightarrow> is_total_ordering ord \<and> wf_ordering ord"
  by (cases ord) (auto simp: realizes_def)

lemma arranged_total: "arranged E ord rs \<Longrightarrow> is_total_ordering ord \<and> wf_ordering ord"
  by (cases ord) auto

lemma reordered_agree: "rows_agree S rs ts \<Longrightarrow> reordered S rs ts"
  by (auto simp: reordered_def)

lemma reordered_mset: "mset rs = mset ts \<Longrightarrow> reordered S rs ts"
  by (auto simp: reordered_def intro: exI [of _ ts])

lemma reordered_mono: "reordered S rs ts \<Longrightarrow> T \<subseteq> S \<Longrightarrow> reordered T rs ts"
  by (auto simp: reordered_def intro: rows_agree_mono)

lemma realizes_mono: "realizes E ord S rs ts \<Longrightarrow> T \<subseteq> S \<Longrightarrow> realizes E ord T rs ts"
  by (auto simp: realizes_def intro: rows_agree_mono)

lemma reordered_trans:
  assumes "reordered S rs ts" "reordered S ts us"
  shows "reordered S rs us"
proof -
  obtain zs where zs: "mset zs = mset rs" "rows_agree S zs ts" using assms(1) by (auto simp: reordered_def)
  obtain ws where ws: "mset ws = mset ts" "rows_agree S ws us" using assms(2) by (auto simp: reordered_def)
  have "list_all2 (agree S) ts zs" using rows_agree_sym [OF zs(2)] by (simp add: rows_agree_def)
  then obtain vs where "list_all2 (agree S) ws vs" "mset vs = mset zs"
    using list_all2_reorder_left_invariance [OF _ ws(1)] by metis
  then show ?thesis
    using zs(1) ws(2) by (intro reorderedI [of vs]) (auto simp: rows_agree_def [symmetric] intro: rows_agree_sym rows_agree_trans)
qed

lemma reordered_length: "reordered S rs ts \<Longrightarrow> length rs = length ts"
  by (metis reordered_def rows_agree_length size_mset)

text \<open>A sort by the parts of the ordering gives the rows back, in their order.\<close>

lemma realizes_sorted:
  assumes "lawful_order E" "realizes E ord S rs ts"
  shows "rows_agree S (sort_rows E (ordering_value_columns ord) rs) ts"
  using assms(2) strict_sort_unique [OF assms(1)] by (cases ord) (auto simp: realizes_def)

text \<open>Rows told apart by columns are so in any order.\<close>

lemma identified_perm:
  assumes "identified cols rs" "mset ss = mset rs"
  shows "identified cols ss"
proof -
  have "distinct (map (\<lambda>r i. if i \<in> cols then r i else NULL) rs) \<longleftrightarrow> identified cols rs" for rs :: "row list"
    unfolding identified_def by (induction rs) (auto simp: fun_eq_iff, metis)
  moreover have "distinct (map f ss) \<longleftrightarrow> distinct (map f rs)" for f :: "row \<Rightarrow> row"
    using assms(2) by (metis distinct_count_atmost_1 mset_map set_mset_mset)
  ultimately show ?thesis using assms(1) by blast
qed

lemma identified_apart:
  assumes "identified cols rs" "r \<in> set rs" "s \<in> set rs" "\<And>i. i \<in> cols \<Longrightarrow> r i = s i"
  shows "r = s"
  using assms unfolding identified_def by (induction rs) fastforce+

lemma identified_empty: "identified {} rs \<Longrightarrow> length rs \<le> 1"
  unfolding identified_def by (cases rs rule: remdups_adj.cases) auto

subsection \<open>Maps, filters and reversal\<close>

lemma reordered_map [representation]:
  assumes "reordered S rs ts" "\<And>r t. agree S r t \<Longrightarrow> agree T (f r) (g t)"
  shows "reordered T (map f rs) (map g ts)"
proof -
  obtain zs where "mset zs = mset rs" "rows_agree S zs ts" using assms(1) by (auto simp: reordered_def)
  then show ?thesis
    using assms(2) by (intro reorderedI [of "map f zs"]) (auto intro: rows_agree_map)
qed

lemma realizes_rearranged:
  assumes "realizes E ord S rs ts" "\<And>r t. agree S r t \<Longrightarrow> agree T (f r) (g t)"
    and "\<And>zs. arranged E ord zs \<Longrightarrow> arranged E ord' (map f zs)"
  shows "realizes E ord' T (map f rs) (map g ts)"
proof -
  obtain zs where "mset zs = mset rs" "rows_agree S zs ts" "arranged E ord zs" using assms(1) by (auto simp: realizes_def)
  then show ?thesis
    using assms(2,3) by (intro realizesI [of "map f zs"]) (auto intro: rows_agree_map)
qed

lemma keyed_refs: "keyed_by cols ps \<Longrightarrow> cols \<subseteq> parts_refs ps"
  using bijective_columns_subset [of ps] by (auto simp: keyed_by_alt parts_refs_def)

lemma parts_refs_ordering: "parts_refs (ordering_value_columns ord) = ordering_referenced ord"
  by (simp add: parts_refs_def ordering_referenced_def)

lemma strict_map: "(\<And>r s. row_compare E ps' (f r) (f s) = row_compare E ps r s) \<Longrightarrow> strict E ps' (map f zs) \<longleftrightarrow> strict E ps zs"
  by (simp add: strict_def sorted_wrt_map)

text \<open>Changing columns that the ordering does not refer to.\<close>

lemma strict_agree:
  assumes "strict E ps zs" "rows_agree S ws zs" "parts_refs ps \<subseteq> S"
  shows "strict E ps ws"
  unfolding strict_def sorted_wrt_iff_nth_less
proof (intro allI impI)
  fix i j assume ij: "i < j" "j < length ws"
  then have "row_compare E ps (ws ! i) (ws ! j) = row_compare E ps (zs ! i) (zs ! j)"
    by (intro row_compare_cong [OF assms(3)] rows_agree_nth [OF assms(2)]) simp_all
  then show "row_compare E ps (ws ! i) (ws ! j) < 0"
    using assms(1) ij rows_agree_length [OF assms(2)] by (simp add: strict_def sorted_wrt_iff_nth_less)
qed

lemma identified_agree:
  assumes "identified cols zs" "rows_agree S ws zs" "cols \<subseteq> S"
  shows "identified cols ws"
  unfolding identified_def sorted_wrt_iff_nth_less
proof (intro allI impI)
  fix i j assume ij: "i < j" "j < length ws"
  then have "\<exists>c \<in> cols. (zs ! i) c \<noteq> (zs ! j) c"
    using assms(1) rows_agree_length [OF assms(2)] by (simp add: identified_def sorted_wrt_iff_nth_less)
  moreover have "agree S (ws ! i) (zs ! i)" "agree S (ws ! j) (zs ! j)"
    using ij by (auto intro: rows_agree_nth [OF assms(2)])
  ultimately show "\<exists>c \<in> cols. (ws ! i) c \<noteq> (ws ! j) c" using assms(3) by (auto simp: agree_def subset_iff)
qed

lemma arranged_agree:
  assumes "arranged E ord zs" "rows_agree (ordering_referenced ord) ws zs"
  shows "arranged E ord ws"
proof (cases ord)
  case (TotalOrdering ps enc cols)
  have refs: "parts_refs ps = ordering_referenced ord" using parts_refs_ordering [of ord] TotalOrdering by simp
  have keyed: "keyed_by cols ps" using assms(1) by (simp add: TotalOrdering)
  have enc: "c \<in> ordering_referenced ord" if "ps = [ascending_over c True]" for c
    using that refs by (auto simp: parts_refs_def ascending_over_def referenced_columns_def)
  have "encoded ps enc ws"
    using assms(1) enc rows_agree_nth [OF assms(2)] rows_agree_length [OF assms(2)]
    by (auto simp: TotalOrdering encoded_def agree_def)
  then show ?thesis
    using assms(1) strict_agree [OF _ assms(2), of E ps] identified_agree [OF _ assms(2), of cols] keyed_refs [OF keyed] refs
    by (simp add: TotalOrdering)
qed (use assms in simp)

lemma arranged_keep:
  assumes "arranged E ord zs" "\<And>r c. c \<in> ordering_referenced ord \<Longrightarrow> f r c = r c"
  shows "arranged E ord (map f zs)"
  by (rule arranged_agree [OF assms(1)]) (auto intro!: rows_agreeI simp: agree_def assms(2))

lemma realizes_map [representation]:
  assumes "realizes E ord S rs ts" "\<And>r t. agree S r t \<Longrightarrow> agree T (f r) (g t)"
    and "\<And>r c. c \<in> ordering_referenced ord \<Longrightarrow> f r c = r c"
  shows "realizes E ord T (map f rs) (map g ts)"
  using assms(1,2) by (rule realizes_rearranged) (use assms(3) in \<open>auto intro: arranged_keep\<close>)

text \<open>Renaming the columns of the ordering.\<close>

lemma ordering_remap_parts:
  assumes "ordering_remap_refs m partial ord = Inr ord'"
  shows "ordering_value_columns ord' = map (rename_part m) (ordering_value_columns ord)"
proof -
  have part: "ordering_remap m partial p = Inr q \<Longrightarrow> q = rename_part m p" for p q
    by (cases p) (auto simp: ordering_remap_def ordering_bind_refs_def bind_refs_subst rbind_eq_Inr_iff all_bound_def deref_bindings_def
        split: if_splits)
  have "mapM (ordering_remap m partial) ps = Inr qs \<Longrightarrow> qs = map (rename_part m) ps" for ps qs
    using part by (auto simp: mapM_Inr_iff list_eq_iff_nth_eq)
  then show ?thesis using assms by (cases ord) (auto simp: rbind_eq_Inr_iff mk_total_def split: if_splits)
qed

lemma ordering_remap_referenced:
  assumes "ordering_remap_refs m partial ord = Inr ord'"
  shows "ordering_referenced ord' = get_or_self m ` ordering_referenced ord"
  unfolding ordering_referenced_def ordering_remap_parts [OF assms]
  by (auto simp: referenced_columns_def refs_rename)

lemma arranged_rename:
  assumes "arranged E ord zs" "ordering_remap_refs m partial ord = Inr ord'"
    and "\<And>r c. c \<in> ordering_referenced ord \<Longrightarrow> f r (get_or_self m c) = r c"
  shows "arranged E ord' (map f zs)"
proof (cases ord)
  case (TotalOrdering ps enc cols)
  obtain ps' where ps': "mapM (ordering_remap m partial) ps = Inr ps'" "ord' = TotalOrdering ps' enc (get_or_self m ` cols)"
    using assms(2) by (auto simp: TotalOrdering rbind_eq_Inr_iff mk_total_def split: if_splits)
  have ps: "ps' = map (rename_part m) ps"
    using ordering_remap_parts [OF assms(2)] by (simp add: TotalOrdering ps'(2))
  have refs: "parts_refs ps = ordering_referenced ord" using parts_refs_ordering [of ord] TotalOrdering by simp
  have same: "row_compare E ps' (f r) (f s) = row_compare E ps r s" for r s
    unfolding ps row_compare_pre [symmetric]
    using assms(3) refs by (intro row_compare_cong [of ps "parts_refs ps"]) (auto simp: agree_def pre_def)
  have cols: "c \<in> cols \<Longrightarrow> f r (get_or_self m c) = r c" for r c
    using assms(1,3) keyed_refs [of cols ps] refs TotalOrdering by auto
  have "encoded ps' enc (map f zs)"
  proof (cases "is_encoded enc")
    case True
    then obtain c where c: "ps = [ascending_over c True]" "enc_sequential enc \<Longrightarrow> \<forall>k < length zs. (zs ! k) c = IntS (int k)"
      using assms(1) by (auto simp: TotalOrdering encoded_def)
    have "ps' = [ascending_over (get_or_self m c) True]"
      by (auto simp: ps c ascending_over_def bound_to_def deref_bindings_def get_or_self_def split: option.split)
    moreover have "f r (get_or_self m c) = r c" for r
      using assms(3) refs by (auto simp: c parts_refs_def ascending_over_def referenced_columns_def)
    ultimately show ?thesis using c(2) by (auto simp: encoded_def)
  qed (simp add: encoded_def)
  moreover have "keyed_by (get_or_self m ` cols) ps'"
    using assms(1) by (auto simp: TotalOrdering keyed_by_alt ps bijective_columns_rename)
  ultimately show ?thesis
    using assms(1) strict_map [OF same] by (auto simp: TotalOrdering ps'(2) identified_def sorted_wrt_map cols elim!: sorted_wrt_mono_rel [rotated])
qed (use assms in simp)

lemma realizes_rename [representation]:
  assumes "realizes E ord S rs ts" "\<And>r t. agree S r t \<Longrightarrow> agree T (f r) (g t)"
    and "ordering_remap_refs m partial ord = Inr ord'"
    and "\<And>r c. c \<in> ordering_referenced ord \<Longrightarrow> f r (get_or_self m c) = r c"
  shows "realizes E ord' T (map f rs) (map g ts)"
  using assms(1,2) by (rule realizes_rearranged) (use assms(3,4) in \<open>auto intro: arranged_rename\<close>)

lemma reordered_filter [representation]:
  assumes "reordered S rs ts" "\<And>r t. agree S r t \<Longrightarrow> P r = Q t"
  shows "reordered S (filter P rs) (filter Q ts)"
proof -
  obtain zs where zs: "mset zs = mset rs" "rows_agree S zs ts" using assms(1) by (auto simp: reordered_def)
  have "rows_agree S (filter P zs) (filter Q ts)"
    using zs(2) unfolding rows_agree_def by (rule filter_rel) (rule assms(2))
  with zs(1) show ?thesis by (intro reorderedI [of "filter P zs"]) auto
qed

lemma arranged_filter:
  "arranged E ord zs \<Longrightarrow> with_non_sequential ord = Inr ord' \<Longrightarrow> arranged E ord' (filter P zs)"
  by (cases ord) (auto simp: strict_def identified_def sorted_wrt_filter encoded_def mk_total_def split: if_splits)

lemma realizes_filter [representation]:
  assumes "realizes E ord S rs ts" "\<And>r t. agree S r t \<Longrightarrow> P r = Q t" "with_non_sequential ord = Inr ord'"
  shows "realizes E ord' S (filter P rs) (filter Q ts)"
proof -
  obtain zs where zs: "mset zs = mset rs" "rows_agree S zs ts" "arranged E ord zs" using assms(1) by (auto simp: realizes_def)
  have "rows_agree S (filter P zs) (filter Q ts)"
    using zs(2) unfolding rows_agree_def by (rule filter_rel) (rule assms(2))
  then show ?thesis using zs(1) arranged_filter [OF zs(3) assms(3)] by (intro realizesI [of "filter P zs"]) auto
qed

lemma reordered_rev [representation]: "reordered S rs ts \<Longrightarrow> reordered S rs (rev ts)"
  unfolding reordered_def by (metis mset_rev rev_agree)

lemma realizes_rev [representation]:
  assumes "lawful_order E" "realizes E ord S rs ts" "ordering_with_reverse ord = Inr ord'"
  shows "realizes E ord' S rs (rev ts)"
proof -
  obtain zs where zs: "mset zs = mset rs" "rows_agree S zs ts" "arranged E ord zs" using assms(2) by (auto simp: realizes_def)
  obtain ps enc cols where ord: "ord = TotalOrdering ps enc cols" using zs(3) by (cases ord) auto
  then have ord': "ord' = TotalOrdering (map with_reverse ps) no_encoding cols"
    using assms(3) by (auto simp: mk_total_def split: if_splits)
  have swap: "0 < row_compare E ps s r \<longleftrightarrow> row_compare E ps r s < 0" for r s
    using comparison.swap [OF row_compare_comparison [OF assms(1)]] by blast
  have "strict E (map with_reverse ps) (rev zs)"
    using zs(3) by (simp add: ord strict_def sorted_wrt_rev row_compare_reverse swap)
  moreover have "identified cols (rev zs)"
    using identified_perm [of cols zs "rev zs"] zs(3) by (simp add: ord)
  ultimately have "arranged E ord' (rev zs)"
    using zs(3) by (simp add: ord ord' keyed_by_alt encoded_def no_encoding_def)
  with zs(1,2) show ?thesis by (intro realizesI [of "rev zs"]) (auto intro: rev_agree)
qed

subsection \<open>Sorting\<close>

text \<open>Sorting further, by parts that read the rows represented as other parts read the rows.\<close>

lemma sort_rows_rel:
  assumes "rows_agree S zs ts" "set zs \<subseteq> R"
    and "\<And>r s t u. r \<in> R \<Longrightarrow> s \<in> R \<Longrightarrow> agree S r t \<Longrightarrow> agree S s u \<Longrightarrow> row_compare E new r s = row_compare E old t u"
  shows "rows_agree S (sort_rows E new zs) (sort_rows E old ts)"
proof -
  have "list_all2 (\<lambda>r t. r \<in> R \<and> agree S r t) zs ts"
    using assms(1,2) unfolding rows_agree_def by (auto simp: list_all2_conv_all_nth)
  then have "list_all2 (\<lambda>r t. r \<in> R \<and> agree S r t) (sort_rows E new zs) (sort_rows E old ts)"
    unfolding sort_rows_def by (rule stable_sort_rel) (use assms(3) in blast)
  then show ?thesis unfolding rows_agree_def by (rule list_all2_mono) simp
qed

lemma reordered_sort [representation]: "reordered S rs ts \<Longrightarrow> parts_refs ps \<subseteq> S \<Longrightarrow> reordered S rs (sort_rows E ps ts)"
  unfolding reordered_def by (metis mset_sort_rows sort_agree)

lemma truncate_strict:
  assumes "lawful_order E" "strict E ps zs" "identified cols zs" "truncate_total cols {} [] ps = Inr qs"
  shows "strict E qs zs"
proof (cases "cols = {}")
  case True
  then have "length zs \<le> 1" using identified_empty assms(3) by blast
  then show ?thesis by (cases zs) (auto simp: strict_def)
next
  case False
  have keys: "keeps_keys E" using assms(1) by (simp add: lawful_order_def)
  have "row_compare E qs r s < 0" if "row_compare E ps r s < 0" "r \<in> set zs" "s \<in> set zs" for r s
    using that row_compare_truncate_total [OF keys assms(4) False, of r s] identified_apart [OF assms(3) that(2,3)] by simp
  then show ?thesis using assms(2) unfolding strict_def by (rule sorted_wrt_mono_rel)
qed

lemma arranged_sort:
  assumes "lawful_order E" "arranged E ord zs" "with_ordering_columns new ord = Inr ord'"
  shows "arranged E ord' (sort_rows E new zs)"
proof -
  obtain ps enc cols where ord: "ord = TotalOrdering ps enc cols" using assms(2) by (cases ord) auto
  then obtain qs where qs: "truncate_total cols {} [] (new @ ps) = Inr qs" "ord' = TotalOrdering qs no_encoding cols"
    using assms(3) by (auto simp: rbind_eq_Inr_iff mk_total_def split: if_splits)
  let ?zs = "sort_rows E new zs"
  have "identified cols ?zs" using identified_perm [of cols zs ?zs] assms(2) by (simp add: ord)
  moreover have "strict E (new @ ps) ?zs" using assms(2) by (intro strict_extend [OF assms(1)]) (simp add: ord)
  ultimately show ?thesis
    using truncate_strict [OF assms(1) _ _ qs(1)] truncate_total_sound [OF qs(1)]
    by (simp add: qs(2) encoded_def no_encoding_def)
qed

lemma realizes_sort [representation]:
  assumes "lawful_order E" "realizes E ord S rs ts" "with_ordering_columns new ord = Inr ord'"
    and "\<And>r s t u. r \<in> set rs \<Longrightarrow> s \<in> set rs \<Longrightarrow> agree S r t \<Longrightarrow> agree S s u \<Longrightarrow> row_compare E new r s = row_compare E old t u"
  shows "realizes E ord' S rs (sort_rows E old ts)"
proof -
  obtain zs where zs: "mset zs = mset rs" "rows_agree S zs ts" "arranged E ord zs" using assms(2) by (auto simp: realizes_def)
  have "set zs = set rs" using zs(1) by (metis set_mset_mset)
  then have "rows_agree S (sort_rows E new zs) (sort_rows E old ts)"
    using zs(2) assms(4) by (intro sort_rows_rel [where R = "set rs"]) auto
  then show ?thesis
    using zs(1) arranged_sort [OF assms(1) zs(3) assms(3)] by (intro realizesI [of "sort_rows E new zs"]) auto
qed

text \<open>Sorting by parts that tell all rows apart, whatever their order was.\<close>

definition part_values :: "engine \<Rightarrow> expr ordering_expression list \<Rightarrow> row \<Rightarrow> sql_value list" where
  "part_values E ps r = map (\<lambda>p. eval E r (scalar_expression p)) ps"

definition told_apart :: "engine \<Rightarrow> expr ordering_expression list \<Rightarrow> row list \<Rightarrow> bool" where
  "told_apart E ps rs \<longleftrightarrow> distinct (map (part_values E ps) rs)"

definition alike :: "'e ordering_expression \<Rightarrow> 'f ordering_expression \<Rightarrow> bool" where
  "alike p q \<longleftrightarrow> order_direction p = order_direction q \<and> na_last p = na_last q"

lemma row_compare_keys:
  assumes "list_all2 alike ps qs" "part_values E ps r = part_values E qs t" "part_values E ps s = part_values E qs u"
  shows "row_compare E ps r s = row_compare E qs t u"
  using assms
  by (induction ps qs rule: list_all2_induct) (auto simp: part_values_def alike_def row_compare_def part_compare_def Let_def)

lemma row_compare_key_zero: "keeps_keys E \<Longrightarrow> row_compare E ps r s = 0 \<longleftrightarrow> part_values E ps r = part_values E ps s"
  unfolding row_compare_def by (simp add: rows_compare_zero part_values_def)

lemma told_apart_strict:
  assumes "lawful_order E" "told_apart E ps zs"
  shows "strict E ps (sort_rows E ps zs)"
proof -
  have keys: "keeps_keys E" using assms(1) by (simp add: lawful_order_def)
  have "mset (map (part_values E ps) (sort_rows E ps zs)) = mset (map (part_values E ps) zs)" by simp
  then have "distinct (map (part_values E ps) (sort_rows E ps zs))"
    using assms(2) unfolding told_apart_def by (metis mset_eq_imp_distinct_iff)
  then have "row_compare E ps (sort_rows E ps zs ! i) (sort_rows E ps zs ! j) \<noteq> 0" if "i < j" "j < length zs" for i j
    using that by (auto simp: row_compare_key_zero [OF keys] distinct_conv_nth sort_rows_def)
  then show ?thesis
    unfolding strict_def sort_rows_def using comparison.sorted_stable_sort [OF row_compare_comparison [OF assms(1)]]
    by (intro comparison.strict_sort [OF row_compare_comparison [OF assms(1)]]) auto
qed

definition over_columns :: "expr ordering_expression list \<Rightarrow> column_id list \<Rightarrow> bool" where
  "over_columns ps is \<longleftrightarrow> list_all2 (\<lambda>p i. \<exists>d. scalar_expression p = Deref d \<and> ref_id d = i) ps is"

lemma over_columns_key: "over_columns ps is \<Longrightarrow> part_values E ps r = map r is"
  unfolding over_columns_def by (induction rule: list_all2_induct) (auto simp: part_values_def)

lemma over_columns_keyed: "over_columns ps is \<Longrightarrow> keyed_by (set is) ps"
  unfolding over_columns_def keyed_by_alt
  by (induction rule: list_all2_induct) (auto simp: referenced_columns_def)

lemma identified_keys: "distinct (map (\<lambda>r. map r is) rs) \<Longrightarrow> identified (set is) rs"
  unfolding identified_def by (induction rs) auto

lemma realizes_sort_total [representation]:
  assumes "lawful_order E" "reordered S rs ts" "told_apart E old ts" "list_all2 alike new old" "over_columns new is"
    and "\<And>r t. r \<in> set rs \<Longrightarrow> agree S r t \<Longrightarrow> part_values E new r = part_values E old t"
    and "mk_total new no_encoding (set is) = Inr ord'"
  shows "realizes E ord' S rs (sort_rows E old ts)"
proof -
  obtain zs where zs: "mset zs = mset rs" "rows_agree S zs ts" using assms(2) by (auto simp: reordered_def)
  have sets: "set zs = set rs" using zs(1) by (metis set_mset_mset)
  have "map (part_values E new) zs = map (part_values E old) ts"
    using rows_agree_length [OF zs(2)] rows_agree_nth [OF zs(2)] sets assms(6)
    by (metis (no_types, lifting) length_map nth_equalityI nth_map nth_mem)
  then have apart: "told_apart E new zs" using assms(3) by (simp add: told_apart_def)
  let ?zs = "sort_rows E new zs"
  have "distinct (map (\<lambda>r. map r is) zs)"
    using apart over_columns_key [OF assms(5)] by (simp add: told_apart_def cong: map_cong)
  then have "identified (set is) ?zs" using identified_perm [of "set is" zs ?zs] identified_keys by simp
  then have "arranged E ord' ?zs"
    using assms(7) told_apart_strict [OF assms(1) apart] over_columns_keyed [OF assms(5)]
    by (auto simp: mk_total_def encoded_def no_encoding_def split: if_splits)
  moreover have "rows_agree S ?zs (sort_rows E old ts)"
    using zs(2) by (rule sort_rows_rel [where R = "set rs"]) (use sets assms(4,6) in \<open>auto intro!: row_compare_keys\<close>)
  ultimately show ?thesis using zs(1) by (intro realizesI [of ?zs]) auto
qed

end
