(* ===== verification/Rewrite_Order.thy ===== *)
theory Rewrite_Order
  imports Fresh_Ids
begin

text \<open>
  \<^verbatim>\<open>core/rewrite/order.py\<close>: the order of the rows of a plan is pulled up into a list of ordering
  expressions over a plan without row order, and made explicit in windows and aggregations. The two
  recursive functions are memoized: the state is the counter of identifiers and their two caches.
\<close>

subsection \<open>The state\<close>

record pull_state =
  id_counter :: nat
  pulled_cache :: "bfnode \<Rightarrow> (bfnode \<times> row_ordering) option"
  removed_cache :: "bfnode \<Rightarrow> bfnode option"

type_synonym 'a pull = "pull_state \<Rightarrow> ('a \<times> pull_state) result"

definition lift :: "'a result \<Rightarrow> 'a pull" where
  "lift r s = rbind r (\<lambda>x. Inr (x, s))"

definition sbind :: "'a pull \<Rightarrow> ('a \<Rightarrow> 'b pull) \<Rightarrow> 'b pull" where
  "sbind m f s = rbind (m s) (\<lambda>(x, s'). f x s')"

lemma sbind_cong [fundef_cong]:
  "m s = m' s' \<Longrightarrow> (\<And>x t. m' s' = Inr (x, t) \<Longrightarrow> f x t = f' x t) \<Longrightarrow> sbind m f s = sbind m' f' s'"
  by (cases "m' s'") (auto simp: sbind_def)

lemma sbind_eq_Inr: "sbind m f s = Inr (y, s'') \<longleftrightarrow> (\<exists>x s'. m s = Inr (x, s') \<and> f x s' = Inr (y, s''))"
  by (auto simp: sbind_def rbind_eq_Inr_iff)

lemma lift_eq_Inr: "lift r s = Inr (y, s') \<longleftrightarrow> r = Inr y \<and> s' = s"
  by (auto simp: lift_def rbind_eq_Inr_iff)

definition fresh_id :: "column_id pull" where
  "fresh_id s = (case ColumnId_unique (id_counter s) of (i, counter) \<Rightarrow> Inr (i, s\<lparr>id_counter := counter\<rparr>))"

primrec fresh_ids :: "'a list \<Rightarrow> ('a \<times> column_id) list pull" where
  "fresh_ids [] s = Inr ([], s)"
| "fresh_ids (x # xs) s = sbind fresh_id (\<lambda>i. sbind (fresh_ids xs) (\<lambda>rest. lift (Inr ((x, i) # rest)))) s"

text \<open>A loop over a list, with the state threaded through.\<close>

primrec thread :: "('a \<Rightarrow> 'b pull) \<Rightarrow> 'a list \<Rightarrow> 'b list pull" where
  "thread f [] s = Inr ([], s)"
| "thread f (x # xs) s = sbind (f x) (\<lambda>y. sbind (thread f xs) (\<lambda>ys. lift (Inr (y # ys)))) s"

lemma thread_cong [fundef_cong]:
  "xs = ys \<Longrightarrow> s = t \<Longrightarrow> (\<And>x u. x \<in> set ys \<Longrightarrow> f x u = g x u) \<Longrightarrow> thread f xs s = thread g ys t"
proof (induction xs arbitrary: ys s t)
  case (Cons x xs)
  have rest: "thread f xs u = thread g xs u" for u using Cons.IH [OF refl refl] Cons.prems by auto
  have "sbind (f x) (\<lambda>y. sbind (thread f xs) (\<lambda>ys. lift (Inr (y # ys)))) t =
      sbind (g x) (\<lambda>y. sbind (thread g xs) (\<lambda>ys. lift (Inr (y # ys)))) t"
    using Cons.prems by (intro sbind_cong rest refl) auto
  then show ?case using Cons.prems by auto
qed auto

subsection \<open>The columns an ordering adds\<close>

text \<open>An ordering by a column needs no new one; any other expression is projected first.\<close>

fun project_parts :: "bfnode \<Rightarrow> expr ordering_expression list
    \<Rightarrow> (bfnode \<times> expr ordering_expression list \<times> column_id list) pull" where
  "project_parts new_node [] s = Inr ((new_node, [], []), s)"
| "project_parts new_node (part # parts) s =
     (case scalar_expression part of
        Deref d \<Rightarrow> sbind (project_parts new_node parts) (\<lambda>(m, new_by, is).
          lift (Inr (m, part # new_by, ref_id d # is))) s
      | e \<Rightarrow> sbind fresh_id (\<lambda>i.
          sbind (project_parts (ProjectionNode new_node [(e, i)]) parts) (\<lambda>(m, new_by, is).
            lift (Inr (m, OrderingExpression (Deref (DerefOp i)) (order_direction part) (na_last part) # new_by, i # is)))) s)"

definition row_number :: "column_id \<Rightarrow> row_ordering \<Rightarrow> bfnode \<Rightarrow> bfnode" where
  "row_number i order c = WindowOpNode c [ColumnDef (NullaryAggregation RowNumberOp) i]
     (unbound [] 0 (ordering_value_columns order))"

definition rewrite_promote_offsets :: "bfnode \<Rightarrow> column_id \<Rightarrow> bfnode" where
  "rewrite_promote_offsets c i = WindowOpNode c [ColumnDef (NullaryAggregation RowNumberOp) i] (unbound [] 0 [])"

definition pull_order_promote :: "column_id \<Rightarrow> bfnode \<times> row_ordering \<Rightarrow> (bfnode \<times> row_ordering) result" where
  "pull_order_promote col_id = (\<lambda>(child_result, child_order).
     rbind (from_offset_col col_id) (\<lambda>new_order.
       if is_total_ordering child_order \<and> ordering_is_sequential child_order
       then (case total_order_col child_order of None \<Rightarrow> Inl AssertionError
             | Some order_expression \<Rightarrow>
                 Inr (ProjectionNode child_result [(scalar_expression order_expression, col_id)], new_order))
       else Inr (row_number col_id child_order child_result, new_order)))"

text \<open>
  The hidden ordering columns of a selection are kept under new identifiers. The code walks a
  set; the order taken here is that of the first references.
\<close>

definition ordering_columns :: "row_ordering \<Rightarrow> column_id list" where
  "ordering_columns order =
     remdups (concat (map (\<lambda>p. column_references (scalar_expression p)) (ordering_value_columns order)))"

definition get_id_mapping :: "(deref \<times> column_id) list \<Rightarrow> id_mapping" where
  "get_id_mapping pairs = dict_of (map (\<lambda>(ref, i). (ref_id ref, i)) pairs)"

definition pull_order_selection :: "(deref \<times> column_id) list \<Rightarrow> bfnode \<times> row_ordering \<Rightarrow> (bfnode \<times> row_ordering) pull" where
  "pull_order_selection pairs = (\<lambda>(child_result, child_order).
     let selected_ids = set (map (\<lambda>(ref, _). ref_id ref) pairs);
         unselected_order_cols = filter (\<lambda>col. col \<notin> selected_ids) (ordering_columns child_order)
     in sbind (fresh_ids unselected_order_cols) (\<lambda>new_selections.
          let all_selections = pairs @ map (\<lambda>(k, v). (DerefOp k, v)) new_selections
          in sbind (lift (ordering_remap_refs (get_id_mapping all_selections) False child_order)) (\<lambda>new_order.
               lift (Inr (SelectionNode child_result all_selections, new_order)))))"

definition rename_cols :: "bfnode \<Rightarrow> column_id list \<Rightarrow> (bfnode \<times> id_mapping) pull" where
  "rename_cols node cols =
     sbind (fresh_ids cols) (\<lambda>renames.
       let mappings = dict_of renames
       in sbind (lift (ids node)) (\<lambda>is.
            lift (Inr (SelectionNode node (map (\<lambda>i. AliasedRef_remap_vars mappings (AliasedRef_identity i)) is), mappings))))"

text \<open>The side a join fills with nulls gets a constant column that comes first in its ordering.\<close>

definition add_indicator :: "bool \<Rightarrow> bfnode \<Rightarrow> row_ordering \<Rightarrow> (bfnode \<times> row_ordering) pull" where
  "add_indicator can_be_null child order =
     (if \<not> can_be_null then lift (Inr (child, order))
      else sbind fresh_id (\<lambda>indicator.
        sbind (lift (with_ordering_columns [descending_over indicator True] order)) (\<lambda>order'.
          lift (Inr (ProjectionNode child [(const (BoolV True) None, indicator)], order')))))"

definition resolve_conflicts :: "bfnode \<Rightarrow> bfnode \<Rightarrow> row_ordering \<Rightarrow> (bfnode \<times> row_ordering) pull" where
  "resolve_conflicts left_child right_child right_order =
     sbind (lift (ids left_child)) (\<lambda>ls. sbind (lift (ids right_child)) (\<lambda>rs.
       let conflicts = filter (\<lambda>i. i \<in> set rs) ls
       in if conflicts = [] then lift (Inr (right_child, right_order))
          else sbind (rename_cols right_child conflicts) (\<lambda>(right_child', mapping).
            sbind (lift (ordering_remap_refs mapping True right_order)) (\<lambda>right_order'.
              lift (Inr (right_child', right_order'))))))"

definition join_pulled :: "(deref \<times> deref) list \<Rightarrow> join_type \<Rightarrow> bool \<Rightarrow> bfnode \<times> row_ordering
    \<Rightarrow> bfnode \<times> row_ordering \<Rightarrow> (bfnode \<times> row_ordering) pull" where
  "join_pulled conds ty po = (\<lambda>(left_child, left_order) (right_child, right_order).
     sbind (resolve_conflicts left_child right_child right_order) (\<lambda>(right_child, right_order).
     sbind (add_indicator (ty \<in> {RightJoin, OuterJoin}) left_child left_order) (\<lambda>(left_child, left_order).
     sbind (add_indicator (ty \<in> {LeftJoin, OuterJoin}) right_child right_order) (\<lambda>(right_child, right_order).
     sbind (lift (if ty \<noteq> RightJoin then join_ordering left_order right_order else join_ordering right_order left_order)) (\<lambda>new_order.
       lift (Inr (JoinNode left_child right_child conds ty po, new_order)))))))"

text \<open>One input of a concatenation: its offsets, its place among the inputs and its own columns.\<close>

definition concat_source :: "int \<Rightarrow> bfnode \<Rightarrow> bfnode \<times> row_ordering \<Rightarrow> bfnode pull" where
  "concat_source i source = (\<lambda>(new_source, order).
     sbind fresh_id (\<lambda>offsets_id. sbind fresh_id (\<lambda>table_id.
     sbind (lift (if is_total_ordering order \<and> is_encoded (int_encoding order)
                  then (case total_order_col order of None \<Rightarrow> Inl AssertionError
                        | Some order_expression \<Rightarrow> Inr (ProjectionNode new_source [(scalar_expression order_expression, offsets_id)]))
                  else Inr (row_number offsets_id order new_source))) (\<lambda>new_source.
     sbind (lift (ids source)) (\<lambda>is.
       lift (Inr (SelectionNode (ProjectionNode new_source [(const (IntV i) None, table_id)])
                    (map AliasedRef_identity (is @ [table_id, offsets_id])))))))))"

definition concat_pulled :: "bfnode list \<Rightarrow> column_id list \<Rightarrow> (bfnode \<times> row_ordering) pull" where
  "concat_pulled new_sources output_ids =
     sbind fresh_id (\<lambda>union_offsets_id. sbind fresh_id (\<lambda>union_table_id.
     sbind (lift (from_primary_key [union_table_id, union_offsets_id])) (\<lambda>new_ordering.
       lift (Inr (ConcatNode new_sources (output_ids @ [union_table_id, union_offsets_id]), new_ordering)))))"

definition pull_order_explode :: "deref list \<Rightarrow> column_id option \<Rightarrow> bfnode \<times> row_ordering \<Rightarrow> (bfnode \<times> row_ordering) pull" where
  "pull_order_explode cols offsets_col = (\<lambda>(child_result, child_order).
     sbind (case offsets_col of None \<Rightarrow> fresh_id | Some i \<Rightarrow> lift (Inr i)) (\<lambda>offsets_id.
     sbind (lift (from_offset_col offsets_id)) (\<lambda>inner_order.
     sbind (lift (join_ordering child_order inner_order)) (\<lambda>new_order.
       lift (Inr (ExplodeNode child_result cols (Some offsets_id), new_order))))))"

definition pull_order_local :: "local_source \<Rightarrow> scan_list \<Rightarrow> session \<Rightarrow> column_id option \<Rightarrow> (bfnode \<times> row_ordering) pull" where
  "pull_order_local d items sess offsets_col =
     sbind (case offsets_col of None \<Rightarrow> fresh_id | Some i \<Rightarrow> lift (Inr i)) (\<lambda>offsets_id.
     sbind (lift (from_offset_col offsets_id)) (\<lambda>order.
       lift (Inr (ReadLocalNode d items sess (Some offsets_id), order))))"

definition pull_order_table :: "(bq_source \<Rightarrow> scan_list \<Rightarrow> session \<Rightarrow> bfnode) \<Rightarrow> bq_source \<Rightarrow> scan_list \<Rightarrow> session
    \<Rightarrow> (bfnode \<times> row_ordering) pull" where
  "pull_order_table node src items sess s =
     (if src_ordering src = None then Inr ((node src items sess, RowOrdering [] no_encoding), s)
      else rbind (ReadTableNode_with_order_cols (id_counter s) src items) (\<lambda>((items', order), counter).
        Inr ((node src items' sess, order), s\<lparr>id_counter := counter\<rparr>)))"

definition order_window :: "expr window_spec \<Rightarrow> row_ordering \<Rightarrow> expr window_spec" where
  "order_window w child_order = WindowSpec (grouping_keys w) (window_ordering w @ ordering_value_columns child_order)
     (window_bounds w) (min_periods w)"

text \<open>
  The columns of the original node selected from what its order removal returned. The code compares
  \<^verbatim>\<open>result.ids\<close> with \<^verbatim>\<open>node.ids\<close> first, but \<^verbatim>\<open>ids\<close> makes a new generator at every access, so the two are
  never equal, not even for the same node, and the selection is always added.
\<close>

definition identity_selection :: "bfnode \<Rightarrow> bfnode \<Rightarrow> bfnode result" where
  "identity_selection result node =
     rbind (ids result) (\<lambda>_. rbind (ids node) (\<lambda>ns. Inr (SelectionNode result (map AliasedRef_identity ns))))"


subsection \<open>Pulling up and removing the order\<close>

definition cached_pull :: "bfnode \<Rightarrow> (bfnode \<times> row_ordering) pull \<Rightarrow> (bfnode \<times> row_ordering) pull" where
  "cached_pull node compute s =
     (case pulled_cache s node of
        Some result \<Rightarrow> Inr (result, s)
      | None \<Rightarrow> sbind compute (\<lambda>result s'. Inr (result, s'\<lparr>pulled_cache := (pulled_cache s')(node \<mapsto> result)\<rparr>)) s)"

definition cached_remove :: "bfnode \<Rightarrow> bfnode pull \<Rightarrow> bfnode pull" where
  "cached_remove node compute s =
     (case removed_cache s node of
        Some result \<Rightarrow> Inr (result, s)
      | None \<Rightarrow> sbind compute (\<lambda>result s'. Inr (result, s'\<lparr>removed_cache := (removed_cache s')(node \<mapsto> result)\<rparr>)) s)"

lemma cached_pull_cong [fundef_cong]:
  "n = n' \<Longrightarrow> s = s' \<Longrightarrow> m s' = m' s' \<Longrightarrow> cached_pull n m s = cached_pull n' m' s'"
  by (auto simp: cached_pull_def intro: sbind_cong split: option.split)

lemma cached_remove_cong [fundef_cong]:
  "n = n' \<Longrightarrow> s = s' \<Longrightarrow> m s' = m' s' \<Longrightarrow> cached_remove n m s = cached_remove n' m' s'"
  by (auto simp: cached_remove_def intro: sbind_cong split: option.split)

text \<open>The children of a node replaced, one after the other.\<close>

definition transform_children_with :: "(bfnode \<Rightarrow> bfnode pull) \<Rightarrow> bfnode \<Rightarrow> bfnode pull" where
  "transform_children_with f node =
     sbind (thread f (child_nodes node)) (\<lambda>cs.
       lift (Inr (transform_children (\<lambda>c. get_or_self (dict_of (zip (child_nodes node) cs)) c) node)))"

lemma transform_children_with_cong [fundef_cong]:
  "n = n' \<Longrightarrow> s = s' \<Longrightarrow> (\<And>c u. c \<in> set (child_nodes n') \<Longrightarrow> f c u = g c u) \<Longrightarrow>
     transform_children_with f n s = transform_children_with g n' s'"
  by (auto simp: transform_children_with_def intro!: sbind_cong thread_cong)

definition strictly :: "bfnode \<Rightarrow> bfnode pull \<Rightarrow> bfnode pull" where
  "strictly node m = sbind m (\<lambda>result. lift (identity_selection result node))"

lemma strictly_cong [fundef_cong]:
  "n = n' \<Longrightarrow> s = s' \<Longrightarrow> m s' = m' s' \<Longrightarrow> strictly n m s = strictly n' m' s'"
  by (auto simp: strictly_def intro: sbind_cong)

lemma enumerate_member: "(i, x) \<in> set (enumerate k xs) \<Longrightarrow> x \<in> set xs"
  by (auto simp: enumerate_eq_zip dest: set_zip_rightD)

function (sequential) pull_up_order_inner :: "bfnode \<Rightarrow> (bfnode \<times> row_ordering) pull"
  and pull_up_order_step :: "bfnode \<Rightarrow> (bfnode \<times> row_ordering) pull"
  and remove_order :: "bfnode \<Rightarrow> bfnode pull"
  and remove_order_step :: "bfnode \<Rightarrow> bfnode pull" where
  "pull_up_order_inner node s = cached_pull node (pull_up_order_step node) s"
| "pull_up_order_step (ReversedNode c rv) s =
     sbind (pull_up_order_inner c) (\<lambda>(child_result, child_order).
       sbind (lift (ordering_with_reverse child_order)) (\<lambda>new_order. lift (Inr (child_result, new_order)))) s"
| "pull_up_order_step (OrderByNode c parts is_total_order) s =
     (if is_total_order
      then sbind (remove_order c) (\<lambda>child_result.
        sbind (project_parts child_result parts) (\<lambda>(new_node, new_by, is).
        sbind (lift (mk_total new_by no_encoding (set is))) (\<lambda>new_order. lift (Inr (new_node, new_order))))) s
      else sbind (pull_up_order_inner c) (\<lambda>(child_result, child_order).
        sbind (project_parts child_result parts) (\<lambda>(new_node, new_by, is).
        sbind (lift (with_ordering_columns new_by child_order)) (\<lambda>new_order. lift (Inr (new_node, new_order))))) s)"
| "pull_up_order_step (ProjectionNode c asg) s =
     sbind (pull_up_order_inner c) (\<lambda>(child_result, child_order). lift (Inr (ProjectionNode child_result asg, child_order))) s"
| "pull_up_order_step (JoinNode l r conds ty propogate_order) s =
     (if propogate_order
      then sbind (pull_up_order_inner l) (\<lambda>left. sbind (pull_up_order_inner r) (join_pulled conds ty propogate_order left)) s
      else sbind (strictly l (remove_order l)) (\<lambda>left_child. sbind (strictly r (remove_order r)) (\<lambda>right_child.
        lift (Inr (JoinNode left_child right_child conds ty propogate_order, RowOrdering [] no_encoding)))) s)"
| "pull_up_order_step (ConcatNode cs output_ids) s =
     sbind (thread (\<lambda>(i, source). sbind (pull_up_order_inner source) (concat_source (int i) source)) (enumerate 0 cs)) (\<lambda>new_sources.
       concat_pulled new_sources output_ids) s"
| "pull_up_order_step (FromRangeNode start stop step output_id) s =
     sbind (strictly start (remove_order start)) (\<lambda>new_start. sbind (strictly stop (remove_order stop)) (\<lambda>new_end.
     sbind (lift (from_primary_key [output_id])) (\<lambda>order.
       lift (Inr (FromRangeNode start stop step output_id, order))))) s"
| "pull_up_order_step (ReadLocalNode d items sess offsets_col) s = pull_order_local d items sess offsets_col s"
| "pull_up_order_step (ReadTableNode src items sess) s = pull_order_table ReadTableNode src items sess s"
| "pull_up_order_step (CachedTableNode src items sess orig) s =
     pull_order_table (\<lambda>src items sess. CachedTableNode src items sess orig) src items sess s"
| "pull_up_order_step (PromoteOffsetsNode c col_id) s =
     sbind (pull_up_order_inner c) (\<lambda>child. lift (pull_order_promote col_id child)) s"
| "pull_up_order_step (FilterNode c p) s =
     sbind (pull_up_order_inner c) (\<lambda>(child_result, child_order).
       sbind (lift (with_non_sequential child_order)) (\<lambda>order. lift (Inr (FilterNode child_result p, order)))) s"
| "pull_up_order_step (InNode l r x i) s =
     sbind (pull_up_order_inner l) (\<lambda>(child_result, child_order).
     sbind (strictly r (remove_order r)) (\<lambda>subquery_result.
       lift (Inr (InNode child_result subquery_result x i, child_order)))) s"
| "pull_up_order_step (SelectionNode c pairs) s =
     sbind (pull_up_order_inner c) (pull_order_selection pairs) s"
| "pull_up_order_step (AggregateNode c aggs ks os dn) s =
     sbind (lift (AggregateNode_has_ordered_ops aggs)) (\<lambda>has_ordered_ops s.
       if has_ordered_ops
       then sbind (pull_up_order_inner c) (\<lambda>(child_result, child_order).
         sbind (lift (with_ordering_columns os child_order)) (\<lambda>new_order_by.
         sbind (lift (from_primary_key (map ref_id ks))) (\<lambda>new_order.
           lift (Inr (AggregateNode child_result aggs ks (ordering_value_columns new_order_by) dn, new_order))))) s
       else sbind (remove_order c) (\<lambda>child_result.
         sbind (lift (from_primary_key (map ref_id ks))) (\<lambda>new_order.
           lift (Inr (AggregateNode child_result aggs ks os dn, new_order)))) s) s"
| "pull_up_order_step (WindowOpNode c ds w) s =
     sbind (pull_up_order_inner c) (\<lambda>(child_result, child_order).
     sbind (lift (WindowOpNode_inherits_order ds w)) (\<lambda>inherits_order.
       lift (Inr (WindowOpNode child_result ds (if inherits_order then order_window w child_order else w), child_order)))) s"
| "pull_up_order_step (RandomSampleNode c fr) s =
     sbind (pull_up_order_inner c) (\<lambda>(child_result, child_order).
       sbind (lift (with_non_sequential child_order)) (\<lambda>order. lift (Inr (RandomSampleNode child_result fr, order)))) s"
| "pull_up_order_step (ExplodeNode c cols offsets_col) s =
     sbind (pull_up_order_inner c) (pull_order_explode cols offsets_col) s"
| "pull_up_order_step node s = Inl ValueError"
| "remove_order node s = cached_remove node (remove_order_step node) s"
| "remove_order_step (OrderByNode c parts is_total_order) s = remove_order c s"
| "remove_order_step (ReversedNode c rv) s = remove_order c s"
| "remove_order_step (WindowOpNode c ds w) s =
     sbind (lift (WindowOpNode_inherits_order ds w)) (\<lambda>inherits_order s.
       if inherits_order
       then sbind (pull_up_order_inner c) (\<lambda>(child_result, child_order).
         lift (Inr (WindowOpNode child_result ds (order_window w child_order)))) s
       else transform_children_with remove_order (WindowOpNode c ds w) s) s"
| "remove_order_step (PromoteOffsetsNode c i) s =
     (case rewrite_promote_offsets c i of
        WindowOpNode c' ds w \<Rightarrow>
          sbind (lift (WindowOpNode_inherits_order ds w)) (\<lambda>inherits_order s.
            if inherits_order
            then sbind (pull_up_order_inner c) (\<lambda>(child_result, child_order).
              lift (Inr (WindowOpNode child_result ds (order_window w child_order)))) s
            else sbind (remove_order c) (\<lambda>child_result. lift (Inr (WindowOpNode child_result ds w))) s) s
      | _ \<Rightarrow> Inl AttributeError)"
| "remove_order_step (AggregateNode c aggs ks os dn) s =
     sbind (lift (AggregateNode_has_ordered_ops aggs)) (\<lambda>has_ordered_ops s.
       if has_ordered_ops
       then sbind (pull_up_order_inner c) (\<lambda>(child_result, child_order).
         sbind (lift (with_ordering_columns os child_order)) (\<lambda>new_order_by.
           lift (Inr (AggregateNode child_result aggs ks (ordering_value_columns new_order_by) dn)))) s
       else transform_children_with remove_order (AggregateNode c aggs ks os dn) s) s"
| "remove_order_step node s = transform_children_with remove_order node s"
  by pat_completeness auto
termination
  by (relation "measure (\<lambda>x. case x of
        Inl (Inl (n, s)) \<Rightarrow> 2 * size n + 1 | Inl (Inr (n, s)) \<Rightarrow> 2 * size n
      | Inr (Inl (n, s)) \<Rightarrow> 2 * size n + 1 | Inr (Inr (n, s)) \<Rightarrow> 2 * size n)")
    (auto dest!: size_child_nodes enumerate_member simp: rewrite_promote_offsets_def less_Suc_eq_le dest: size_list_member)

declare pull_up_order_inner.simps [simp del]
declare remove_order.simps [simp del]

subsection \<open>The entry points\<close>

definition empty_pull :: "nat \<Rightarrow> pull_state" where
  "empty_pull counter = \<lparr>id_counter = counter, pulled_cache = Map.empty, removed_cache = Map.empty\<rparr>"

definition pull_up_order :: "bfnode \<Rightarrow> bool \<Rightarrow> nat \<Rightarrow> ((bfnode \<times> row_ordering) \<times> nat) result" where
  "pull_up_order r0 order_root counter =
     rbind (if order_root then pull_up_order_inner r0 (empty_pull counter)
            else sbind (remove_order r0) (\<lambda>m. lift (Inr (m, RowOrdering [] no_encoding))) (empty_pull counter))
       (\<lambda>(result, s). Inr (result, id_counter s))"

fun defer_order :: "bfnode \<Rightarrow> bool \<Rightarrow> nat \<Rightarrow> (bfnode \<times> nat) result" where
  "defer_order (ResultNode c output_cols ord limit) output_hidden_row_keys counter =
     rbind (pull_up_order c True counter) (\<lambda>((new_child, order), counter').
     rbind (case ord of None \<Rightarrow> Inr order | Some o' \<Rightarrow> with_ordering_columns (ordering_value_columns o') order) (\<lambda>order_by.
     rbind (if output_hidden_row_keys then rbind (ids new_child) (\<lambda>is. Inr (map (\<lambda>i. (DerefOp i, id_sql i)) is)) else Inr output_cols) (\<lambda>output_names.
       Inr (ResultNode new_child output_names (Some order_by) limit, counter'))))"
| "defer_order n output_hidden_row_keys counter = Inl AttributeError"

definition bake_order :: "bfnode \<Rightarrow> nat \<Rightarrow> (bfnode \<times> nat) result" where
  "bake_order node counter = rbind (pull_up_order node False counter) (\<lambda>((m, order), counter'). Inr (m, counter'))"

end
