(* ===== verification/Order_Windows.thy ===== *)
theory Order_Windows
  imports Order_Representation Rewrite_Order
begin

text \<open>
  Windows, offsets and aggregates over rows in another order: what an engine must promise of its
  aggregate and window functions, and that a window whose order is made explicit computes over
  any permutation of the rows what it computes over the rows in their order.
\<close>

subsection \<open>Engines whose functions respect order independence\<close>

definition ordered_engine :: "engine \<Rightarrow> bool" where
  "ordered_engine E \<longleftrightarrow> lawful_order E \<and>
     (\<forall>a b. value_order E (IntS a) (IntS b) < 0 \<longleftrightarrow> a < b) \<and>
     (\<forall>op xs ys. order_independent op \<longrightarrow> mset xs = mset ys \<longrightarrow> agg_value E op xs = agg_value E op ys) \<and>
     (\<forall>op (w :: expr window_spec) xs xs' i i'. order_independent op \<or> \<not> implicitly_inherits_order op \<longrightarrow> \<not> is_row_bounded w \<longrightarrow>
        mset xs = mset xs' \<longrightarrow> i < length xs \<longrightarrow> i' < length xs' \<longrightarrow> xs ! i = xs' ! i' \<longrightarrow>
        window_value E op (window_bounds w) (min_periods w) (map fst xs) (map snd xs) i =
          window_value E op (window_bounds w) (min_periods w) (map fst xs') (map snd xs') i') \<and>
     (\<forall>op (w :: expr window_spec) args keys keys' i. implicitly_inherits_order op \<longrightarrow> \<not> is_range_bounded w \<longrightarrow>
        length keys = length keys' \<longrightarrow>
        window_value E op (window_bounds w) (min_periods w) args keys i = window_value E op (window_bounds w) (min_periods w) args keys' i) \<and>
     (\<forall>mp args keys i. i < length args \<longrightarrow> window_value E RowNumberOp None mp args keys i = IntS (int i)) \<and>
     (\<forall>a b step. 0 < step \<longrightarrow> NULL \<notin> set (range_values E a b step) \<and>
        sorted_wrt (\<lambda>v u. value_order E v u < 0) (range_values E a b step))"

lemma ordered_engineD:
  assumes "ordered_engine E"
  shows "lawful_order E" "keeps_keys E"
    "value_order E (IntS a) (IntS b) < 0 \<longleftrightarrow> a < b"
    "order_independent op \<Longrightarrow> mset xs = mset ys \<Longrightarrow> agg_value E op xs = agg_value E op ys"
    "order_independent op \<or> \<not> implicitly_inherits_order op \<Longrightarrow> \<not> is_row_bounded (w :: expr window_spec) \<Longrightarrow> mset ps = mset qs \<Longrightarrow>
       i < length ps \<Longrightarrow> i' < length qs \<Longrightarrow> ps ! i = qs ! i' \<Longrightarrow>
       window_value E op (window_bounds w) (min_periods w) (map fst ps) (map snd ps) i =
         window_value E op (window_bounds w) (min_periods w) (map fst qs) (map snd qs) i'"
    "implicitly_inherits_order op \<Longrightarrow> \<not> is_range_bounded (w :: expr window_spec) \<Longrightarrow> length keys = length keys' \<Longrightarrow>
       window_value E op (window_bounds w) (min_periods w) args keys i = window_value E op (window_bounds w) (min_periods w) args keys' i"
    "i < length args \<Longrightarrow> window_value E RowNumberOp None mp args keys i = IntS (int i)"
    "0 < step \<Longrightarrow> NULL \<notin> set (range_values E u v step) \<and> sorted_wrt (\<lambda>v u. value_order E v u < 0) (range_values E u v step)"
proof -
  note laws = assms [unfolded ordered_engine_def]
  note rest = laws [THEN conjunct2, THEN conjunct2] and windows = laws [THEN conjunct2, THEN conjunct2, THEN conjunct2]
  show lawful: "lawful_order E" by (rule laws [THEN conjunct1])
  then show "keeps_keys E" by (simp add: lawful_order_def)
  show "value_order E (IntS a) (IntS b) < 0 \<longleftrightarrow> a < b" by (rule laws [THEN conjunct2, THEN conjunct1, rule_format])
  show "order_independent op \<Longrightarrow> mset xs = mset ys \<Longrightarrow> agg_value E op xs = agg_value E op ys"
    by (rule rest [THEN conjunct1, rule_format])
  show "order_independent op \<or> \<not> implicitly_inherits_order op \<Longrightarrow> \<not> is_row_bounded w \<Longrightarrow> mset ps = mset qs \<Longrightarrow>
       i < length ps \<Longrightarrow> i' < length qs \<Longrightarrow> ps ! i = qs ! i' \<Longrightarrow>
       window_value E op (window_bounds w) (min_periods w) (map fst ps) (map snd ps) i =
         window_value E op (window_bounds w) (min_periods w) (map fst qs) (map snd qs) i'" for w :: "expr window_spec"
    by (rule windows [THEN conjunct1, rule_format])
  show "implicitly_inherits_order op \<Longrightarrow> \<not> is_range_bounded w \<Longrightarrow> length keys = length keys' \<Longrightarrow>
       window_value E op (window_bounds w) (min_periods w) args keys i = window_value E op (window_bounds w) (min_periods w) args keys' i"
    for w :: "expr window_spec" by (rule windows [THEN conjunct2, THEN conjunct1, rule_format])
  show "i < length args \<Longrightarrow> window_value E RowNumberOp None mp args keys i = IntS (int i)"
    by (rule windows [THEN conjunct2, THEN conjunct2, THEN conjunct1, rule_format])
  show "0 < step \<Longrightarrow> NULL \<notin> set (range_values E u v step) \<and> sorted_wrt (\<lambda>v u. value_order E v u < 0) (range_values E u v step)"
    by (rule windows [THEN conjunct2, THEN conjunct2, THEN conjunct2, rule_format])
qed

subsection \<open>Partitions as rows\<close>

definition same_group :: "engine \<Rightarrow> expr window_spec \<Rightarrow> row \<Rightarrow> row \<Rightarrow> bool" where
  "same_group E w r s \<longleftrightarrow> map (eval E s) (grouping_keys w) = map (eval E r) (grouping_keys w)"

definition partition_rows :: "engine \<Rightarrow> expr window_spec \<Rightarrow> row list \<Rightarrow> row \<Rightarrow> row list" where
  "partition_rows E w rs r = sort_rows E (window_ordering w) (filter (same_group E w r) rs)"

lemma map_nth_filter: "map ((!) rs) (filter (\<lambda>j. P (rs ! j)) [0..<length rs]) = filter P rs"
proof -
  have "filter P rs = filter P (map ((!) rs) [0..<length rs])" by (simp add: map_nth)
  then show ?thesis by (simp add: filter_map comp_def)
qed

lemma partition_of_rows: "map ((!) rs) (partition_of E w rs k) = partition_rows E w rs (rs ! k)"
  unfolding partition_of_def partition_rows_def sort_rows_def same_group_def
  by (simp only: stable_sort_map [where f = "(!) rs" and cmp = "row_compare E (window_ordering w)", symmetric]
      map_nth_filter [of rs "\<lambda>s. map (eval E s) (grouping_keys w) = map (eval E (rs ! k)) (grouping_keys w)"])

lemma partition_of_self: "k < length rs \<Longrightarrow> k \<in> set (partition_of E w rs k)"
  by (simp add: partition_of_def)

text \<open>A window function reads the rows of the partition, their sort keys and the row's place.\<close>

definition window_inputs :: "engine \<Rightarrow> expr window_spec \<Rightarrow> expr list \<Rightarrow> row list \<Rightarrow> (sql_value list \<times> sql_value list) list" where
  "window_inputs E w args ps = map (\<lambda>r. (map (eval E r) args, part_values E (window_ordering w) r)) ps"

lemma window_cell_rows:
  assumes "agg_parts e = Some (op, args)" "k < length rs"
  shows "\<exists>i < length (partition_rows E w rs (rs ! k)). partition_rows E w rs (rs ! k) ! i = rs ! k \<and>
    window_cell E w rs e k = window_value E op (window_bounds w) (min_periods w)
      (map fst (window_inputs E w args (partition_rows E w rs (rs ! k))))
      (map snd (window_inputs E w args (partition_rows E w rs (rs ! k)))) i"
proof -
  let ?part = "partition_of E w rs k" and ?i = "index_of (partition_of E w rs k) k"
  have i: "?i < length ?part" "?part ! ?i = k" using index_of_nth [OF partition_of_self [OF assms(2)]] by auto
  have "map ((!) rs) ?part ! ?i = rs ! k" using i by simp
  then have "?i < length (partition_rows E w rs (rs ! k)) \<and> partition_rows E w rs (rs ! k) ! ?i = rs ! k"
    using i(1) unfolding partition_of_rows [symmetric] by simp
  moreover have "window_cell E w rs e k = window_value E op (window_bounds w) (min_periods w)
      (map fst (window_inputs E w args (partition_rows E w rs (rs ! k))))
      (map snd (window_inputs E w args (partition_rows E w rs (rs ! k)))) ?i"
    unfolding partition_of_rows [symmetric] by (simp add: window_cell_def assms(1) Let_def window_inputs_def part_values_def comp_def)
  ultimately show ?thesis by blast
qed

lemma mset_partition_rows: "mset rs = mset zs \<Longrightarrow> mset (partition_rows E w rs r) = mset (partition_rows E w zs r)"
  by (simp add: partition_rows_def)

text \<open>Functions that do not depend on the order of the rows.\<close>

lemma window_cell_symmetric:
  assumes "ordered_engine E" "mset rs = mset zs" "k < length rs" "l < length zs" "rs ! k = zs ! l"
    and "\<And>op args. agg_parts e = Some (op, args) \<Longrightarrow> order_independent op \<or> \<not> implicitly_inherits_order op" "\<not> is_row_bounded w"
  shows "window_cell E w rs e k = window_cell E w zs e l"
proof (cases "agg_parts e")
  case (Some x)
  then obtain op args where e: "agg_parts e = Some (op, args)" by (cases x) auto
  let ?P = "partition_rows E w rs (rs ! k)" and ?Q = "partition_rows E w zs (zs ! l)"
  obtain i where i: "i < length ?P" "?P ! i = rs ! k" "window_cell E w rs e k = window_value E op (window_bounds w) (min_periods w)
      (map fst (window_inputs E w args ?P)) (map snd (window_inputs E w args ?P)) i"
    using window_cell_rows [OF e assms(3)] by blast
  obtain j where j: "j < length ?Q" "?Q ! j = zs ! l" "window_cell E w zs e l = window_value E op (window_bounds w) (min_periods w)
      (map fst (window_inputs E w args ?Q)) (map snd (window_inputs E w args ?Q)) j"
    using window_cell_rows [OF e assms(4)] by blast
  have "mset (window_inputs E w args ?P) = mset (window_inputs E w args ?Q)"
    unfolding window_inputs_def mset_map assms(5) by (simp add: mset_partition_rows [OF assms(2)])
  moreover have "window_inputs E w args ?P ! i = window_inputs E w args ?Q ! j"
    using i(1,2) j(1,2) assms(5) by (simp add: window_inputs_def)
  ultimately show ?thesis
    unfolding i(3) j(3) using i(1) j(1)
    by (intro ordered_engineD(5) [OF assms(1) assms(6) [OF e] assms(7)]) (simp_all add: window_inputs_def)
qed (simp add: window_cell_def)

text \<open>Functions that inherit the order, with the order appended to that of the window.\<close>

lemma window_cell_ordered:
  assumes "ordered_engine E" "strict E ps zs" "ps = ordering_value_columns ord"
    and "mset rs = mset zs" "k < length rs" "l < length zs" "rs ! k = zs ! l"
    and "\<And>op args. agg_parts e = Some (op, args) \<Longrightarrow> implicitly_inherits_order op" "\<not> is_range_bounded w"
  shows "window_cell E (order_window w ord) rs e k = window_cell E w zs e l"
proof (cases "agg_parts e")
  case (Some x)
  then obtain op args where e: "agg_parts e = Some (op, args)" by (cases x) auto
  let ?w = "order_window w ord"
  let ?P = "partition_rows E ?w rs (rs ! k)" and ?Q = "partition_rows E w zs (zs ! l)"
  obtain i where i: "i < length ?P" "?P ! i = rs ! k" "window_cell E ?w rs e k = window_value E op (window_bounds ?w) (min_periods ?w)
      (map fst (window_inputs E ?w args ?P)) (map snd (window_inputs E ?w args ?P)) i"
    using window_cell_rows [OF e assms(5)] by blast
  obtain j where j: "j < length ?Q" "?Q ! j = zs ! l" "window_cell E w zs e l = window_value E op (window_bounds w) (min_periods w)
      (map fst (window_inputs E w args ?Q)) (map snd (window_inputs E w args ?Q)) j"
    using window_cell_rows [OF e assms(6)] by blast
  have group: "same_group E ?w = same_group E w" by (auto simp: same_group_def order_window_def intro!: ext)
  have "strict E ps (filter (same_group E w (zs ! l)) zs)"
    using assms(2) unfolding strict_def by (rule sorted_wrt_filter)
  then have strict: "strict E (window_ordering w @ ps) ?Q"
    unfolding partition_rows_def by (rule strict_extend [OF ordered_engineD(1) [OF assms(1)]])
  have "sort_rows E (window_ordering w @ ps) (filter (same_group E w (zs ! l)) rs) = ?Q"
    by (rule strict_sort_unique [OF ordered_engineD(1) [OF assms(1)] strict]) (simp add: partition_rows_def assms(4))
  then have same: "?P = ?Q"
    using partition_rows_def [of E ?w rs "zs ! l"] by (simp add: group assms(3,7)) (simp add: order_window_def)
  have "i < length ?Q" "?Q ! i = zs ! l" using i(1,2) unfolding same by (simp_all add: assms(7))
  then have "i = j"
    using j(1,2) strict_distinct [OF ordered_engineD(1) [OF assms(1)] strict] by (metis nth_eq_iff_index_eq)
  then show ?thesis
    unfolding i(3) j(3) same using ordered_engineD(6) [OF assms(1) assms(8) [OF e] assms(9)]
    by (simp add: window_inputs_def order_window_def comp_def)
qed (simp add: window_cell_def)

subsection \<open>Windows over rows in another order\<close>

lemma mset_row_by_row:
  assumes "mset rs = mset zs" "length as = length rs" "length bs = length zs"
    and "\<And>k l. k < length rs \<Longrightarrow> l < length zs \<Longrightarrow> rs ! k = zs ! l \<Longrightarrow> as ! k = bs ! l"
  shows "mset as = mset bs"
proof -
  let ?g = "\<lambda>r. bs ! index_of zs r"
  have sets: "set rs = set zs" using assms(1) by (metis set_mset_mset)
  have place: "index_of zs r < length zs \<and> zs ! index_of zs r = r" if "r \<in> set zs" for r
    using index_of_nth [OF that] .
  have "as = map ?g rs"
  proof (rule nth_equalityI)
    fix k assume "k < length as"
    then have k: "k < length rs" using assms(2) by simp
    then have "rs ! k \<in> set zs" using sets nth_mem by blast
    note p = place [OF this]
    have "as ! k = bs ! index_of zs (rs ! k)" by (rule assms(4) [OF k conjunct1 [OF p] conjunct2 [OF p, symmetric]])
    then show "as ! k = map ?g rs ! k" using k by simp
  qed (simp add: assms(2))
  moreover have "bs = map ?g zs"
  proof (rule nth_equalityI)
    fix l assume "l < length bs"
    then have l: "l < length zs" using assms(3) by simp
    then obtain k where k: "k < length rs" "rs ! k = zs ! l" using sets by (metis in_set_conv_nth nth_mem)
    note p = place [OF nth_mem [OF l]]
    have "as ! k = bs ! l" by (rule assms(4) [OF k(1) l k(2)])
    moreover have "as ! k = ?g (zs ! l)"
      by (rule assms(4) [OF k(1) conjunct1 [OF p]]) (simp add: k(2) conjunct2 [OF p])
    ultimately show "bs ! l = map ?g zs ! l" using l by simp
  qed (simp add: assms(3))
  ultimately show ?thesis by (metis assms(1) mset_map)
qed

lemma window_rows_nth: "k < length rs \<Longrightarrow> window_rows E w ds rs ! k = (\<lambda>i.
     case dict_of (map (\<lambda>d. (cdef_id d, cdef_expression d)) ds) i of None \<Rightarrow> (rs ! k) i | Some e \<Rightarrow> window_cell E w rs e k)"
  unfolding window_rows_def by (subst nth_map) (simp_all cong: option.case_cong)

lemma length_window_rows [simp]: "length (window_rows E w ds rs) = length rs"
  by (simp add: window_rows_def)

lemma mset_window_rows:
  assumes "mset rs = mset zs"
    and "\<And>d k l. d \<in> set ds \<Longrightarrow> k < length rs \<Longrightarrow> l < length zs \<Longrightarrow> rs ! k = zs ! l \<Longrightarrow>
      window_cell E w rs (cdef_expression d) k = window_cell E w' zs (cdef_expression d) l"
  shows "mset (window_rows E w ds rs) = mset (window_rows E w' ds zs)"
proof (rule mset_row_by_row [OF assms(1)])
  fix k l assume kl: "k < length rs" "l < length zs" "rs ! k = zs ! l"
  have "window_cell E w rs e k = window_cell E w' zs e l"
    if "dict_of (map (\<lambda>d. (cdef_id d, cdef_expression d)) ds) i = Some e" for i e
    using dict_of_SomeD [OF that] assms(2) [OF _ kl] by auto
  then show "window_rows E w ds rs ! k = window_rows E w' ds zs ! l"
    using kl by (auto simp: window_rows_nth intro!: ext split: option.split)
qed simp_all

definition symmetric_window :: "column_def list \<Rightarrow> expr window_spec \<Rightarrow> bool" where
  "symmetric_window ds w \<longleftrightarrow> \<not> is_row_bounded w \<and> list_all (\<lambda>d. case agg_parts (cdef_expression d) of None \<Rightarrow> True
     | Some (op, args) \<Rightarrow> order_independent op \<or> \<not> implicitly_inherits_order op) ds"

definition inheriting_window :: "column_def list \<Rightarrow> expr window_spec \<Rightarrow> bool" where
  "inheriting_window ds w \<longleftrightarrow> \<not> is_range_bounded w \<and> list_all (\<lambda>d. case agg_parts (cdef_expression d) of None \<Rightarrow> True
     | Some (op, args) \<Rightarrow> implicitly_inherits_order op) ds"

definition window_refs :: "column_def list \<Rightarrow> expr window_spec \<Rightarrow> column_id set" where
  "window_refs ds w = all_referenced_columns w \<union> (\<Union>d \<in> set ds. set (column_references (cdef_expression d)))"

lemma window_rows_agree: "rows_agree S zs ts \<Longrightarrow> window_refs ds w \<subseteq> S \<Longrightarrow>
    rows_agree (S \<union> cdef_id ` set ds) (window_rows E w ds zs) (window_rows E w ds ts)"
  by (rule window_agree) (auto simp: window_refs_def)

lemma arranged_window: "arranged E ord zs \<Longrightarrow> cdef_id ` set ds \<inter> ordering_referenced ord = {} \<Longrightarrow> arranged E ord (window_rows E w ds zs)"
  by (erule arranged_agree) (rule rows_agree_mono [OF window_base], blast)

lemma window_rows_symmetric:
  "ordered_engine E \<Longrightarrow> symmetric_window ds w \<Longrightarrow> mset rs = mset zs \<Longrightarrow> mset (window_rows E w ds rs) = mset (window_rows E w ds zs)"
  by (rule mset_window_rows, assumption, rule window_cell_symmetric) (auto simp: symmetric_window_def list_all_iff split: option.splits)

lemma reordered_window [representation]:
  assumes "ordered_engine E" "symmetric_window ds w" "window_refs ds w \<subseteq> S" "reordered S rs ts"
  shows "reordered (S \<union> cdef_id ` set ds) (window_rows E w ds rs) (window_rows E w ds ts)"
  using assms(4) window_rows_symmetric [OF assms(1,2)] window_rows_agree [OF _ assms(3)] unfolding reordered_def by metis

lemma realizes_window [representation]:
  assumes "ordered_engine E" "symmetric_window ds w" "window_refs ds w \<subseteq> S" "realizes E ord S rs ts"
    and "cdef_id ` set ds \<inter> ordering_referenced ord = {}"
  shows "realizes E ord (S \<union> cdef_id ` set ds) (window_rows E w ds rs) (window_rows E w ds ts)"
  using assms(4) window_rows_symmetric [OF assms(1,2)] window_rows_agree [OF _ assms(3)] arranged_window [OF _ assms(5)]
  unfolding realizes_def by metis

lemma arranged_strict: "arranged E ord zs \<Longrightarrow> strict E (ordering_value_columns ord) zs"
  by (cases ord) auto

lemma realizes_ordered_window [representation]:
  assumes "ordered_engine E" "inheriting_window ds w" "window_refs ds w \<subseteq> S" "realizes E ord S rs ts"
    and "cdef_id ` set ds \<inter> ordering_referenced ord = {}"
  shows "realizes E ord (S \<union> cdef_id ` set ds) (window_rows E (order_window w ord) ds rs) (window_rows E w ds ts)"
proof -
  obtain zs where zs: "mset zs = mset rs" "rows_agree S zs ts" "arranged E ord zs" using assms(4) by (auto simp: realizes_def)
  have "mset (window_rows E (order_window w ord) ds rs) = mset (window_rows E w ds zs)"
    by (rule mset_window_rows [OF zs(1) [symmetric]], rule window_cell_ordered [OF assms(1) arranged_strict [OF zs(3)]])
      (use zs(1) assms(2) in \<open>auto simp: inheriting_window_def list_all_iff split: option.splits\<close>)
  then show ?thesis
    using window_rows_agree [OF zs(2) assms(3)] arranged_window [OF zs(3) assms(5)] by (intro realizesI) auto
qed

subsection \<open>Offsets\<close>

lemma promote_nth: "k < length rs \<Longrightarrow> promote_offsets i rs ! k = (rs ! k)(i := IntS (int k))"
  by (simp add: promote_offsets_def with_column_def offsets_def)

lemma length_promote [simp]: "length (promote_offsets i rs) = length rs"
  by (simp add: promote_offsets_def with_column_def offsets_def)

lemma index_of_upt: "k < n \<Longrightarrow> index_of [0..<n] k = k"
  using index_of_nth [of k "[0..<n]"] by (metis add_0 atLeastLessThan_iff bot_nat_0.extremum length_upt minus_nat.diff_0 nth_upt set_upt)

lemma row_number_promote:
  assumes "ordered_engine E"
  shows "window_rows E (unbound [] 0 []) [ColumnDef (NullaryAggregation RowNumberOp) i] rs = promote_offsets i rs"
proof (rule nth_equalityI)
  fix k assume "k < length (window_rows E (unbound [] 0 []) [ColumnDef (NullaryAggregation RowNumberOp) i] rs)"
  then have k: "k < length rs" by simp
  have "stable_sort (\<lambda>a b. 0 :: int) ks = ks" for ks :: "nat list"
  proof (induction ks)
    case (Cons k ks)
    moreover have "insert_by (\<lambda>a b. 0 :: int) k ks = k # ks" by (cases ks) simp_all
    ultimately show ?case by (simp add: stable_sort_def)
  qed (simp add: stable_sort_def)
  then have "partition_of E (unbound [] 0 []) rs k = [0..<length rs]"
    by (simp add: partition_of_def unbound_def)
  moreover have "index_of [0..<length rs] k = k" using k by (rule index_of_upt)
  ultimately have "window_cell E (unbound [] 0 []) rs (NullaryAggregation RowNumberOp) k = IntS (int k)"
    using k ordered_engineD(7) [OF assms] by (simp add: window_cell_def unbound_def)
  then show "window_rows E (unbound [] 0 []) [ColumnDef (NullaryAggregation RowNumberOp) i] rs ! k = promote_offsets i rs ! k"
    using k by (auto simp: window_rows_nth promote_nth dict_of_Cons fun_eq_iff)
qed simp

lemma order_window_unbound: "order_window (unbound ks mp []) ord = unbound ks mp (ordering_value_columns ord)"
  by (simp add: order_window_def unbound_def)

lemma inheriting_row_number: "inheriting_window [ColumnDef (NullaryAggregation RowNumberOp) i] (unbound [] 0 [])"
  by (simp add: inheriting_window_def is_range_bounded_def unbound_def implicitly_inherits_order_def RowNumberOp_traits_def WindowOp_traits_def)

text \<open>The row number by an ordering, over rows in any order, is the offset of the row in that order.\<close>

lemma mset_row_number:
  assumes "ordered_engine E" "arranged E ord zs" "mset zs = mset rs"
  shows "mset (window_rows E (unbound [] 0 (ordering_value_columns ord)) [ColumnDef (NullaryAggregation RowNumberOp) i] rs) =
    mset (promote_offsets i zs)"
  unfolding order_window_unbound [symmetric] row_number_promote [OF assms(1), symmetric]
  by (rule mset_window_rows [OF assms(3) [symmetric]], rule window_cell_ordered [OF assms(1) arranged_strict [OF assms(2)]])
    (use assms(3) inheriting_row_number [of i] in \<open>auto simp: inheriting_window_def\<close>)

lemma compare_ints:
  assumes "ordered_engine E" "r c = IntS a" "s c = IntS b"
  shows "row_compare E (ascending_over c nulls # ps) r s < 0 \<longleftrightarrow> a < b \<or> a = b \<and> row_compare E ps r s < 0"
proof -
  have "value_order E (IntS a) (IntS b) = 0 \<longleftrightarrow> a = b"
    using ordered_engineD(2) [OF assms(1)] by (simp add: keeps_keys_def)
  moreover have "value_order E (IntS a) (IntS b) < 0 \<longleftrightarrow> a < b" by (rule ordered_engineD(3) [OF assms(1)])
  ultimately show ?thesis
    using assms(2,3) by (auto simp: row_compare_def ascending_over_def part_compare_def)
qed

lemma arranged_offsets:
  assumes "ordered_engine E" "from_offset_col i = Inr ord" "\<And>k. k < length zs \<Longrightarrow> (zs ! k) i = IntS (int k)"
  shows "arranged E ord zs"
proof -
  have ord: "ord = TotalOrdering [ascending_over i True] \<lparr>is_encoded = True, enc_sequential = True\<rparr> {i}"
    using assms(2) by (auto simp: from_offset_col_def mk_total_def split: if_splits)
  have "strict E [ascending_over i True] zs"
    using compare_ints [OF assms(1)] assms(3) by (simp add: strict_def sorted_wrt_iff_nth_less)
  then show ?thesis
    using assms(3) by (auto simp: ord identified_def sorted_wrt_iff_nth_less encoded_def keyed_by_def referenced_columns_def ascending_over_def)
qed

lemma arranged_promote: "ordered_engine E \<Longrightarrow> from_offset_col i = Inr ord \<Longrightarrow> arranged E ord (promote_offsets i zs)"
  by (rule arranged_offsets, assumption, assumption) (simp add: promote_nth)

text \<open>A sequential encoding already holds the offsets.\<close>

lemma sequential_column:
  assumes "arranged E ord zs" "ordering_is_sequential ord" "total_order_col ord = Some p"
  shows "map (project_row E [(scalar_expression p, i)]) zs = promote_offsets i zs"
proof -
  obtain c where c: "p = ascending_over c True" "\<And>k. k < length zs \<Longrightarrow> (zs ! k) c = IntS (int k)"
    using assms by (cases ord) (auto simp: encoded_def ordering_is_sequential_def ascending_over_def split: list.splits)
  show ?thesis
    by (rule nth_equalityI) (auto simp: c promote_nth project_row_def dict_of_Cons ascending_over_def fun_eq_iff)
qed

lemma realizes_promote [representation]:
  assumes "ordered_engine E" "pull_order_promote i (m, ord) = Inr (m', ord')" "realizes E ord S (rows E m) ts"
  shows "realizes E ord' (insert i S) (rows E m') (promote_offsets i ts)"
proof -
  obtain zs where zs: "mset zs = mset (rows E m)" "rows_agree S zs ts" "arranged E ord zs" using assms(3) by (auto simp: realizes_def)
  have ord': "from_offset_col i = Inr ord'"
    using assms(2) by (auto simp: pull_order_promote_def rbind_eq_Inr_iff split: if_splits option.splits)
  have "mset (promote_offsets i zs) = mset (rows E m')"
  proof (cases "is_total_ordering ord \<and> ordering_is_sequential ord")
    case True
    then obtain p where p: "total_order_col ord = Some p" "m' = ProjectionNode m [(scalar_expression p, i)]"
      using assms(2) by (auto simp: pull_order_promote_def rbind_eq_Inr_iff split: if_splits option.splits)
    have "mset (map (project_row E [(scalar_expression p, i)]) zs) = mset (rows E m')"
      by (simp add: p(2) zs(1))
    then show ?thesis using sequential_column [OF zs(3) _ p(1)] True by simp
  next
    case False
    then have "m' = row_number i ord m"
      using assms(2) by (auto simp: pull_order_promote_def rbind_eq_Inr_iff split: if_splits option.splits)
    then show ?thesis using mset_row_number [OF assms(1) zs(3,1)] by (simp add: row_number_def)
  qed
  then show ?thesis using arranged_promote [OF assms(1) ord'] promote_agree [OF zs(2)] by (intro realizesI)
qed

end
