(* ===== verification/Order_Groups.thy ===== *)
theory Order_Groups
  imports Order_Windows
begin

text \<open>
  Aggregations, concatenations, joins and the other classes with several rows for one, over rows
  in another order.
\<close>

subsection \<open>Aggregations\<close>

definition order_free :: "(expr \<times> column_id) list \<Rightarrow> bool" where
  "order_free aggs \<longleftrightarrow> list_all (\<lambda>(e, _). case agg_parts e of None \<Rightarrow> True | Some (op, args) \<Rightarrow> order_independent op) aggs"

definition keyed_rows :: "column_id list \<Rightarrow> bool \<Rightarrow> row list \<Rightarrow> row list" where
  "keyed_rows ks dropna rs = (if dropna \<and> ks \<noteq> [] then filter (\<lambda>r. \<forall>k \<in> set ks. r k \<noteq> NULL) rs else rs)"

definition group_keys :: "engine \<Rightarrow> column_id list \<Rightarrow> row list \<Rightarrow> sql_value list list" where
  "group_keys E ks rs = stable_sort (key_compare E) (first_occurrences (map (\<lambda>r. map r ks) rs))"

definition aggregate_groups :: "engine \<Rightarrow> (expr \<times> column_id) list \<Rightarrow> column_id list \<Rightarrow> row list \<Rightarrow> row list" where
  "aggregate_groups E aggs ks rs =
     (if ks = [] then [agg_row E aggs [] [] rs]
      else map (\<lambda>key. agg_row E aggs ks key (filter (\<lambda>r. map r ks = key) rs)) (group_keys E ks rs))"

lemma aggregate_rows_groups:
  "aggregate_rows E aggs ks os dropna rs = aggregate_groups E aggs ks (sort_rows E os (keyed_rows ks dropna rs))"
  by (simp add: aggregate_rows_def Let_def keyed_rows_def aggregate_groups_def group_keys_def)

lemma mset_keyed_rows: "mset rs = mset zs \<Longrightarrow> mset (keyed_rows ks dropna rs) = mset (keyed_rows ks dropna zs)"
  by (simp add: keyed_rows_def)

lemma rows_compare_rel:
  "list_all2 (\<lambda>p q. alike p q \<and> val (scalar_expression p) r = val' (scalar_expression q) r' \<and>
     val (scalar_expression p) s = val' (scalar_expression q) s') ps qs \<Longrightarrow>
   rows_compare null cmp val ps r s = rows_compare null cmp val' qs r' s'"
  by (induction ps qs rule: list_all2_induct) (auto simp: alike_def part_compare_def Let_def)

lemma key_compare_rows:
  "row_compare E (map (\<lambda>c. ascending_over c True) ks) r s = key_compare E (map r ks) (map s ks)"
  unfolding key_compare_def row_compare_def
  by (rule rows_compare_rel) (simp add: list_all2_conv_all_nth alike_def ascending_over_def)

text \<open>The keys are strictly sorted, so depend only on the set of keys.\<close>

definition keys_compare :: "engine \<Rightarrow> nat \<Rightarrow> sql_value list \<Rightarrow> sql_value list \<Rightarrow> int" where
  "keys_compare E n = rows_compare (\<lambda>v. v = NULL) (value_order E) (\<lambda>k vs. vs ! k) (map (\<lambda>k. OrderingExpression k ASC True) [0..<n])"

lemma keys_compare_zero:
  "keeps_keys E \<Longrightarrow> length xs = n \<Longrightarrow> length ys = n \<Longrightarrow> keys_compare E n xs ys = 0 \<longleftrightarrow> xs = ys"
  by (auto simp: keys_compare_def rows_compare_zero intro: nth_equalityI)

lemma group_keys_fixed: "group_keys E ks rs = stable_sort (keys_compare E (length ks)) (first_occurrences (map (\<lambda>r. map r ks) rs))"
  unfolding group_keys_def
  by (rule stable_sort_cong) (auto simp: first_occurrences_def key_compare_def keys_compare_def)

lemma set_first_occurrences [simp]: "set (first_occurrences xs) = set xs"
  by (simp add: first_occurrences_def)

lemma distinct_first_occurrences [simp]: "distinct (first_occurrences xs)"
  by (simp add: first_occurrences_def)

lemma set_group_keys: "set (group_keys E ks rs) = (\<lambda>r. map r ks) ` set rs"
  by (simp add: group_keys_def)

lemma group_keys_strict:
  assumes "lawful_order E"
  shows "sorted_wrt (\<lambda>x y. keys_compare E (length ks) x y < 0) (group_keys E ks rs)"
proof -
  note cmp = rows_compare_comparison [OF assms, where ps = "map (\<lambda>k. OrderingExpression k ASC True) [0..<length ks]" and
      val = "\<lambda>k vs. vs ! k", folded keys_compare_def]
  have keys: "keeps_keys E" using assms by (simp add: lawful_order_def)
  have "mset (group_keys E ks rs) = mset (first_occurrences (map (\<lambda>r. map r ks) rs))" by (simp add: group_keys_def)
  then have dist: "distinct (group_keys E ks rs)" by (metis distinct_first_occurrences mset_eq_imp_distinct_iff)
  have len: "length (group_keys E ks rs ! i) = length ks" if "i < length (group_keys E ks rs)" for i
    using nth_mem [OF that] by (auto simp: set_group_keys)
  have sorted: "sorted_wrt (\<lambda>x y. keys_compare E (length ks) x y \<le> 0) (group_keys E ks rs)"
    unfolding group_keys_fixed by (rule comparison.sorted_stable_sort [OF cmp])
  show ?thesis
    by (rule comparison.strict_sort [OF cmp _ sorted]) (use dist len keys_compare_zero [OF keys] in \<open>auto simp: nth_eq_iff_index_eq\<close>)
qed

lemma group_keys_perm:
  assumes "lawful_order E" "mset rs = mset zs"
  shows "group_keys E ks rs = group_keys E ks zs"
proof -
  note cmp = rows_compare_comparison [OF assms(1), where ps = "map (\<lambda>k. OrderingExpression k ASC True) [0..<length ks]" and
      val = "\<lambda>k vs. vs ! k", folded keys_compare_def]
  have "set rs = set zs" using assms(2) by (metis set_mset_mset)
  then have "set (first_occurrences (map (\<lambda>r. map r ks) rs)) = set (first_occurrences (map (\<lambda>r. map r ks) zs))" by simp
  then have "mset (first_occurrences (map (\<lambda>r. map r ks) rs)) = mset (first_occurrences (map (\<lambda>r. map r ks) zs))"
    by (simp only: set_eq_iff_mset_eq_distinct distinct_first_occurrences)
  then have "mset (first_occurrences (map (\<lambda>r. map r ks) rs)) = mset (group_keys E ks zs)" by (simp add: group_keys_def)
  then show ?thesis
    unfolding group_keys_fixed [of E ks rs] by (rule comparison.stable_sort_unique [OF cmp group_keys_strict [OF assms(1)]])
qed

lemma eval_agg_perm:
  assumes "ordered_engine E" "mset rs = mset zs" "\<And>op args. agg_parts e = Some (op, args) \<Longrightarrow> order_independent op"
  shows "eval_agg E rs e = eval_agg E zs e"
  using assms by (auto simp: eval_agg_def split: option.split intro!: ordered_engineD(4))

lemma agg_row_perm:
  assumes "ordered_engine E" "mset rs = mset zs" "order_free aggs"
  shows "agg_row E aggs ks key rs = agg_row E aggs ks key zs"
proof -
  have "map (\<lambda>(e, j). (j, eval_agg E rs e)) aggs = map (\<lambda>(e, j). (j, eval_agg E zs e)) aggs"
    using assms by (auto simp: order_free_def list_all_iff intro!: eval_agg_perm)
  then show ?thesis by (simp only: agg_row_def)
qed

lemma aggregate_groups_perm:
  assumes "ordered_engine E" "mset rs = mset zs" "order_free aggs"
  shows "aggregate_groups E aggs ks rs = aggregate_groups E aggs ks zs"
proof -
  have "agg_row E aggs ks key (filter P rs) = agg_row E aggs ks key (filter P zs)" for ks key P
    by (rule agg_row_perm [OF assms(1) _ assms(3)]) (simp add: assms(2))
  then show ?thesis
    unfolding aggregate_groups_def group_keys_perm [OF ordered_engineD(1) [OF assms(1)] assms(2)] agg_row_perm [OF assms] by simp
qed

text \<open>The rows of an aggregation are strictly sorted by its keys.\<close>

lemma agg_row_keys:
  assumes "distinct (ks @ map snd aggs)" "length key = length ks"
  shows "map (agg_row E aggs ks key grp) ks = key"
proof (rule nth_equalityI)
  fix n assume "n < length (map (agg_row E aggs ks key grp) ks)"
  then have n: "n < length ks" by simp
  then have "ks ! n \<notin> snd ` set aggs" using assms(1) by (auto dest: nth_mem)
  then have "dict_of (map (\<lambda>(e, j). (j, eval_agg E grp e)) aggs) (ks ! n) = None"
    by (force simp: dict_of_eq_None_iff)
  moreover have "dict_of (zip ks key) (ks ! n) = Some (key ! n)"
    using assms n by (intro dict_of_distinct) (auto simp: in_set_zip)
  ultimately show "map (agg_row E aggs ks key grp) ks ! n = key ! n"
    using n by (simp add: agg_row_def dict_of_append)
qed (simp add: assms(2))

lemma arranged_aggregate:
  assumes "ordered_engine E" "from_primary_key ks = Inr ord" "distinct (ks @ map snd aggs)"
  shows "arranged E ord (aggregate_groups E aggs ks rs)"
proof -
  have ord: "ord = TotalOrdering (map (\<lambda>c. ascending_over c True) ks) no_encoding (set ks)"
    using assms(2) by (auto simp: from_primary_key_def mk_total_def split: if_splits)
  have keyed: "keyed_by (set ks) (map (\<lambda>c. ascending_over c True) ks)"
    by (auto simp: keyed_by_def ascending_over_def referenced_columns_def)
  have "strict E (map (\<lambda>c. ascending_over c True) ks) (aggregate_groups E aggs ks rs) \<and> identified (set ks) (aggregate_groups E aggs ks rs)"
  proof (cases "ks = []")
    case True
    then show ?thesis by (simp add: aggregate_groups_def strict_def identified_def)
  next
    case False
    let ?keys = "group_keys E ks rs"
    have rows: "map (aggregate_groups E aggs ks rs ! k) ks = ?keys ! k" if "k < length ?keys" for k
      using False that agg_row_keys [OF assms(3)] nth_mem [OF that] by (auto simp: aggregate_groups_def set_group_keys)
    have len: "length (aggregate_groups E aggs ks rs) = length ?keys" using False by (simp add: aggregate_groups_def)
    have strict: "sorted_wrt (\<lambda>x y. keys_compare E (length ks) x y < 0) ?keys"
      by (rule group_keys_strict [OF ordered_engineD(1) [OF assms(1)]])
    have size: "length (?keys ! k) = length ks" if "k < length ?keys" for k
      using nth_mem [OF that] by (auto simp: set_group_keys)
    have "keys_compare E (length ks) x y = key_compare E x y" if "length x = length ks" for x y
      using that by (simp add: keys_compare_def key_compare_def)
    then have "strict E (map (\<lambda>c. ascending_over c True) ks) (aggregate_groups E aggs ks rs)"
      using strict size by (simp add: strict_def sorted_wrt_iff_nth_less len key_compare_rows rows)
    moreover have "map (\<lambda>r. map r ks) (aggregate_groups E aggs ks rs) = ?keys"
      using rows by (intro nth_equalityI) (simp_all add: len)
    moreover have "distinct ?keys"
    proof -
      have "mset ?keys = mset (first_occurrences (map (\<lambda>r. map r ks) rs))" by (simp add: group_keys_def)
      then show ?thesis by (metis distinct_first_occurrences mset_eq_imp_distinct_iff)
    qed
    ultimately show ?thesis using identified_keys [of ks] by simp
  qed
  then show ?thesis using keyed by (simp add: ord encoded_def no_encoding_def)
qed

definition agg_refs :: "(expr \<times> column_id) list \<Rightarrow> column_id list \<Rightarrow> expr ordering_expression list \<Rightarrow> column_id set" where
  "agg_refs aggs ks os = set ks \<union> parts_refs os \<union> (\<Union>(e, j) \<in> set aggs. set (column_references e))"

lemma aggregate_rows_agree:
  "rows_agree S zs ts \<Longrightarrow> agg_refs aggs ks os \<subseteq> S \<Longrightarrow> aggregate_rows E aggs ks os dn zs = aggregate_rows E aggs ks os dn ts"
  by (rule aggregate_agree) (auto simp: agg_refs_def)

lemma aggregate_reordered:
  assumes "ordered_engine E" "order_free aggs" "agg_refs aggs ks os \<subseteq> S" "reordered S rs ts"
  shows "aggregate_rows E aggs ks os dn rs = aggregate_rows E aggs ks os dn ts"
proof -
  obtain zs where zs: "mset zs = mset rs" "rows_agree S zs ts" using assms(4) by (auto simp: reordered_def)
  have "mset (sort_rows E os (keyed_rows ks dn rs)) = mset (sort_rows E os (keyed_rows ks dn zs))"
    using mset_keyed_rows [OF zs(1) [symmetric]] by simp
  then have "aggregate_rows E aggs ks os dn rs = aggregate_rows E aggs ks os dn zs"
    unfolding aggregate_rows_groups by (rule aggregate_groups_perm [OF assms(1) _ assms(2)])
  then show ?thesis using aggregate_rows_agree [OF zs(2) assms(3)] by simp
qed

lemma aggregate_ordered:
  assumes "ordered_engine E" "agg_refs aggs ks os \<subseteq> S" "realizes E ord S rs ts" "with_ordering_columns os ord = Inr ord'"
  shows "aggregate_rows E aggs ks (ordering_value_columns ord') dn rs = aggregate_rows E aggs ks os dn ts"
proof -
  obtain zs where zs: "mset zs = mset rs" "rows_agree S zs ts" "arranged E ord zs" using assms(3) by (auto simp: realizes_def)
  obtain ps enc cols where ord: "ord = TotalOrdering ps enc cols" using zs(3) by (cases ord) auto
  have "arranged E (TotalOrdering ps no_encoding cols) (keyed_rows ks dn zs)"
    using zs(3) by (auto simp: ord keyed_rows_def strict_def identified_def sorted_wrt_filter encoded_def no_encoding_def)
  moreover have "with_ordering_columns os (TotalOrdering ps no_encoding cols) = Inr ord'"
    using assms(4) by (simp add: ord)
  ultimately have "arranged E ord' (sort_rows E os (keyed_rows ks dn zs))"
    by (rule arranged_sort [OF ordered_engineD(1) [OF assms(1)]])
  then have "sort_rows E (ordering_value_columns ord') (keyed_rows ks dn rs) = sort_rows E os (keyed_rows ks dn zs)"
    using mset_keyed_rows [OF zs(1)] by (intro strict_sort_unique [OF ordered_engineD(1) [OF assms(1)] arranged_strict]) simp_all
  then have "aggregate_rows E aggs ks (ordering_value_columns ord') dn rs = aggregate_rows E aggs ks os dn zs"
    by (simp add: aggregate_rows_groups)
  then show ?thesis using aggregate_rows_agree [OF zs(2) assms(2)] by simp
qed

lemma realizes_aggregate [representation]:
  assumes "ordered_engine E" "from_primary_key ks = Inr ord" "distinct (ks @ map snd aggs)" "rs = aggregate_rows E aggs ks os dn ts"
  shows "realizes E ord S rs (aggregate_rows E aggs ks os dn ts)"
  using arranged_aggregate [OF assms(1-3)] by (intro realizesI [OF refl]) (simp_all add: assms(4) aggregate_rows_groups)

subsection \<open>Ranges and tests of membership\<close>

lemma arranged_range:
  assumes "ordered_engine E" "from_primary_key [i] = Inr ord" "0 < step"
  shows "arranged E ord (range_rows i (range_values E u v step))"
proof -
  have ord: "ord = TotalOrdering [ascending_over i True] no_encoding {i}"
    using assms(2) by (auto simp: from_primary_key_def mk_total_def split: if_splits)
  let ?vs = "range_values E u v step"
  note laws = ordered_engineD(8) [OF assms(1,3), of u v]
  have eq: "row_compare E [ascending_over i True] (null_row(i := a)) (null_row(i := b)) = value_order E a b" if "a \<in> set ?vs" "b \<in> set ?vs" for a b
    using laws that by (auto simp: row_compare_single part_compare_def ascending_over_def)
  have "strict E [ascending_over i True] (range_rows i ?vs)"
    unfolding strict_def range_rows_def sorted_wrt_map by (rule sorted_wrt_mono_rel [OF _ conjunct2 [OF laws]]) (simp add: eq)
  moreover have "identified {i} (range_rows i ?vs)"
  proof -
    have "keeps_keys E" by (rule ordered_engineD(2) [OF assms(1)])
    have zero: "value_order E a a = 0" if "a \<noteq> NULL" for a using \<open>keeps_keys E\<close> that by (simp add: keeps_keys_def)
    have "a \<noteq> b" if "value_order E a b < 0" "a \<in> set ?vs" for a b using that laws zero [of a] by (cases "a = NULL") auto
    then show ?thesis
      unfolding identified_def range_rows_def sorted_wrt_map by (intro sorted_wrt_mono_rel [OF _ conjunct2 [OF laws]]) auto
  qed
  ultimately show ?thesis
    by (auto simp: ord keyed_by_def ascending_over_def referenced_columns_def encoded_def no_encoding_def)
qed

lemma isin_right:
  assumes "reordered T rs rs'" "\<And>j js. is = j # js \<Longrightarrow> j \<in> T"
  shows "isin_rows E x i is ls rs = isin_rows E x i is ls rs'"
proof (cases "is")
  case (Cons j js)
  obtain zs where zs: "mset zs = mset rs" "rows_agree T zs rs'" using assms(1) by (auto simp: reordered_def)
  have sets: "set zs = set rs" using zs(1) by (metis set_mset_mset)
  have "list_ex (\<lambda>r. equal_keys E v (r j)) zs = list_ex (\<lambda>r. equal_keys E v (r j)) rs'" for v
    using zs(2) unfolding rows_agree_def by (rule list_ex_rel) (use assms(2) [OF Cons] in \<open>auto simp: agree_def\<close>)
  then have "list_ex (\<lambda>r. equal_keys E v (r j)) rs = list_ex (\<lambda>r. equal_keys E v (r j)) rs'" for v
    using sets by (simp add: list_ex_iff)
  then show ?thesis by (simp add: isin_rows_def Cons)
qed (simp add: isin_rows_def list_ex_iff)

subsection \<open>Joins and explosions\<close>

lemma mset_concat_map:
  assumes "mset xs = mset ys" "\<And>x. x \<in> set xs \<Longrightarrow> mset (f x) = mset (g x)"
  shows "mset (concat (map f xs)) = mset (concat (map g ys))"
proof -
  have "mset (concat (map h zs)) = sum_mset (image_mset (\<lambda>z. mset (h z)) (mset zs))" for h :: "'a \<Rightarrow> 'b list" and zs
    by (induction zs) simp_all
  moreover have "image_mset (\<lambda>z. mset (f z)) (mset xs) = image_mset (\<lambda>z. mset (g z)) (mset xs)"
    by (rule image_mset_cong) (use assms(2) in auto)
  ultimately show ?thesis using assms(1) by simp
qed

lemma mset_left_join:
  assumes "mset ls = mset ls'" "mset rs = mset rs'"
  shows "mset (left_join pair on ls rs) = mset (left_join pair on ls' rs')"
  unfolding left_join_def
proof (rule mset_concat_map [OF assms(1)])
  fix l
  have m: "mset (filter (on l) rs) = mset (filter (on l) rs')" by (simp add: assms(2))
  then have "filter (on l) rs = [] \<longleftrightarrow> filter (on l) rs' = []" by (metis mset_zero_iff)
  then show "mset (let ms = filter (on l) rs in if ms = [] then [pair l null_row] else map (pair l) ms) =
      mset (let ms = filter (on l) rs' in if ms = [] then [pair l null_row] else map (pair l) ms)"
    using assms(2) by (simp add: Let_def)
qed

lemma mset_ordered_join:
  assumes "mset ls = mset ls'" "mset rs = mset rs'"
  shows "mset (ordered_join pair on ty ls rs) = mset (ordered_join pair on ty ls' rs')"
proof -
  have sets: "set ls = set ls'" using assms(1) by (metis set_mset_mset)
  have inner: "mset (inner_join pair on ls rs) = mset (inner_join pair on ls' rs')" for on
    unfolding inner_join_def by (rule mset_concat_map [OF assms(1)]) (simp add: assms(2))
  show ?thesis
    using inner mset_left_join [OF assms] mset_left_join [OF assms(2,1)] sets
    by (cases ty) (auto simp: ordered_join_def list_ex_iff assms(2))
qed

lemma reordered_join [representation]:
  assumes "reordered S ls ls'" "reordered T rs rs'"
    and "\<And>a b. (a, b) \<in> set conds \<Longrightarrow> ref_id a \<in> S \<and> ref_id b \<in> T"
    and "\<And>i. i \<in> U \<Longrightarrow> i \<in> set is \<longleftrightarrow> i \<in> set is'"
    and "\<And>i. i \<in> U \<Longrightarrow> i \<in> set is \<Longrightarrow> i \<in> S" "\<And>i. i \<in> U \<Longrightarrow> i \<notin> set is \<Longrightarrow> i \<in> T"
  shows "reordered U (ordered_join (pair_row is) (joins E conds) ty ls rs) (ordered_join (pair_row is') (joins E conds) ty ls' rs')"
proof -
  obtain zl where zl: "mset zl = mset ls" "rows_agree S zl ls'" using assms(1) by (auto simp: reordered_def)
  obtain zr where zr: "mset zr = mset rs" "rows_agree T zr rs'" using assms(2) by (auto simp: reordered_def)
  show ?thesis
    by (rule reorderedI [OF mset_ordered_join [OF zl(1) zr(1)]]) (rule join_agree [OF zl(2) zr(2) assms(3-6)])
qed

lemma explode_row_offset:
  "i \<notin> S \<Longrightarrow> rows_agree S (explode_row cols (Some i) r) (explode_row cols None r)"
  by (auto simp: explode_row_def Let_def agree_def intro!: rows_agreeI)

lemma reordered_explode [representation]:
  assumes "reordered S rs ts" "set cols \<subseteq> S"
  shows "reordered (S \<union> set_option off) (concat (map (explode_row cols off) rs)) (concat (map (explode_row cols off) ts))"
proof -
  obtain zs where zs: "mset zs = mset rs" "rows_agree S zs ts" using assms(1) by (auto simp: reordered_def)
  show ?thesis
    by (rule reorderedI [OF mset_concat_map [OF zs(1) refl]]) (rule explode_agree [OF zs(2) assms(2)])
qed

lemma reordered_explode_offsets [representation]:
  assumes "reordered S rs ts" "set cols \<subseteq> S" "i \<notin> S"
  shows "reordered S (concat (map (explode_row cols (Some i)) rs)) (concat (map (explode_row cols None) ts))"
proof -
  obtain zs where zs: "mset zs = mset rs" "rows_agree S zs ts" using assms(1) by (auto simp: reordered_def)
  have "rows_agree S (concat (map (explode_row cols (Some i)) zs)) (concat (map (explode_row cols None) zs))"
    unfolding rows_agree_def
    by (rule concat_map_rel [where R = "(=)"]) (use explode_row_offset [OF assms(3)] in \<open>auto simp: list.rel_eq rows_agree_def\<close>)
  moreover have "rows_agree S (concat (map (explode_row cols None) zs)) (concat (map (explode_row cols None) ts))"
    using explode_agree [OF zs(2) assms(2), of None] by simp
  ultimately show ?thesis
    by (intro reorderedI [OF mset_concat_map [OF zs(1) refl]]) (rule rows_agree_trans)
qed

subsection \<open>Concatenations\<close>

lemma concat_row_agree: "agree (set is) r r' \<Longrightarrow> concat_row out is r = concat_row out is r'"
proof -
  assume "agree (set is) r r'"
  then have "map r is = map r' is" by (auto simp: agree_def)
  then show ?thesis by (simp only: concat_row_def)
qed

lemma reordered_append: "reordered S rs ts \<Longrightarrow> reordered S rs' ts' \<Longrightarrow> reordered S (rs @ rs') (ts @ ts')"
  unfolding reordered_def by (metis list_all2_appendI mset_append rows_agree_def)

lemma reordered_concat_nodes [representation]:
  assumes "list_all2 (\<lambda>m n. out_ids m = out_ids n \<and> reordered (set (out_ids n)) (rows E m) (rows E n)) ms ns"
  shows "reordered UNIV (rows E (ConcatNode ms out)) (rows E (ConcatNode ns out))"
  using assms
proof (induction rule: list_all2_induct)
  case Nil
  show ?case by (simp add: reordered_def)
next
  case (Cons m ms n ns)
  have "reordered UNIV (map (concat_row out (out_ids n)) (rows E m)) (map (concat_row out (out_ids n)) (rows E n))"
    by (rule reordered_map [OF conjunct2 [OF Cons.hyps(1)]]) (metis agree_refl concat_row_agree)
  with Cons show ?case by (auto intro: reordered_append)
qed

text \<open>Lists that are strictly sorted each, and told apart by their number, are strictly sorted one after the other.\<close>

definition numbered :: "engine \<Rightarrow> column_id \<Rightarrow> column_id \<Rightarrow> int \<Rightarrow> row list \<Rightarrow> bool" where
  "numbered E t u i rs \<longleftrightarrow> strict E [ascending_over u True] rs \<and> (\<forall>r \<in> set rs. r t = IntS i)"

lemma strict_numbered:
  assumes "ordered_engine E" "\<And>k. k < length rss \<Longrightarrow> numbered E t u (i + int k) (rss ! k)"
  shows "strict E [ascending_over t True, ascending_over u True] (concat rss)"
  using assms(2)
proof (induction rss arbitrary: i)
  case Nil
  show ?case by (simp add: strict_def)
next
  case (Cons rs rss)
  have "strict E [ascending_over t True, ascending_over u True] (concat rss)"
    using Cons.prems [of "Suc k" for k] by (intro Cons.IH [of "i + 1"]) (simp add: add.assoc)
  moreover have first: "numbered E t u i rs" using Cons.prems [of 0] by simp
  have later: "\<exists>j > i. s t = IntS j" if s: "s \<in> set (concat rss)" for s
  proof -
    obtain rs' where rs': "rs' \<in> set rss" "s \<in> set rs'" using s by auto
    then obtain k where k: "k < length rss" "rss ! k = rs'" by (metis in_set_conv_nth)
    then have "s t = IntS (i + int (Suc k))" using Cons.prems [of "Suc k"] rs'(2) by (simp add: numbered_def)
    then show ?thesis by (intro exI [of _ "i + int (Suc k)"]) simp
  qed
  have "row_compare E [ascending_over t True, ascending_over u True] r s < 0" if "r \<in> set rs" "s \<in> set (concat rss)" for r s
    using later [OF that(2)] that(1) first by (auto simp: numbered_def compare_ints [OF assms(1)])
  moreover have "strict E [ascending_over t True, ascending_over u True] rs"
    unfolding strict_def
  proof (rule sorted_wrt_mono_rel [OF _ conjunct1 [OF first [unfolded numbered_def strict_def]]])
    fix r s assume "r \<in> set rs" "s \<in> set rs" and less: "row_compare E [ascending_over u True] r s < 0"
    then have "r t = IntS i" "s t = IntS i" using first unfolding numbered_def by blast+
    then show "row_compare E [ascending_over t True, ascending_over u True] r s < 0"
      using compare_ints [OF assms(1)] less by blast
  qed
  ultimately show ?case by (auto simp: strict_def sorted_wrt_append)
qed

lemma strict_identified:
  assumes "lawful_order E" "strict E (map (\<lambda>c. ascending_over c True) ks) zs"
  shows "identified (set ks) zs"
proof -
  have keys: "keeps_keys E" using assms(1) by (simp add: lawful_order_def)
  show ?thesis
    unfolding identified_def
  proof (rule sorted_wrt_mono_rel [OF _ assms(2) [unfolded strict_def]])
    fix r s assume "row_compare E (map (\<lambda>c. ascending_over c True) ks) r s < 0"
    then have "part_values E (map (\<lambda>c. ascending_over c True) ks) r \<noteq> part_values E (map (\<lambda>c. ascending_over c True) ks) s"
      using row_compare_key_zero [OF keys, of "map (\<lambda>c. ascending_over c True) ks" r s] by simp
    then show "\<exists>c \<in> set ks. r c \<noteq> s c" by (auto simp: part_values_def ascending_over_def)
  qed
qed

lemma arranged_numbered:
  assumes "ordered_engine E" "\<And>k. k < length rss \<Longrightarrow> numbered E t u (int k) (rss ! k)" "from_primary_key [t, u] = Inr ord"
  shows "arranged E ord (concat rss)"
proof -
  have ord: "ord = TotalOrdering [ascending_over t True, ascending_over u True] no_encoding {t, u}"
    using assms(3) by (auto simp: from_primary_key_def mk_total_def split: if_splits)
  have strict: "strict E [ascending_over t True, ascending_over u True] (concat rss)"
    using strict_numbered [OF assms(1), of rss t u 0] assms(2) by simp
  moreover have "identified {t, u} (concat rss)"
    using strict_identified [OF ordered_engineD(1) [OF assms(1)], of "[t, u]" "concat rss"] strict by simp
  moreover have "keyed_by {t, u} [ascending_over t True, ascending_over u True]"
    by (simp add: keyed_by_alt ascending_over_def referenced_columns_def)
  ultimately show ?thesis by (simp add: ord encoded_def no_encoding_def)
qed

end
