(* ===== verification/Order_Soundness.thy ===== *)
theory Order_Soundness
  imports Order_Groups
begin

text \<open>
  \<^verbatim>\<open>core/rewrite/order.py\<close> keeps the rows of a plan: the node that \<^verbatim>\<open>pull_up_order\<close> returns computes the
  same rows in some order, and where the plan determines its order the ordering returned with it
  sorts them back. The proof follows the two memoized functions with an invariant of their caches.
\<close>

subsection \<open>Plans whose order is determined\<close>

definition table_ordered :: "bq_source \<Rightarrow> bool" where
  "table_ordered src \<longleftrightarrow> (case src_ordering src of None \<Rightarrow> False | Some ord \<Rightarrow> is_total_ordering ord)"

fun has_total_order :: "bfnode \<Rightarrow> bool" where
  "has_total_order (InNode l r x i) = has_total_order l"
| "has_total_order (ConcatNode cs out) = True"
| "has_total_order (FromRangeNode s0 e0 st i) = True"
| "has_total_order (ReadLocalNode d items sess off) = True"
| "has_total_order (ReadTableNode src items sess) = table_ordered src"
| "has_total_order (CachedTableNode src items sess orig) = table_ordered src"
| "has_total_order (PromoteOffsetsNode c i) = True"
| "has_total_order (FilterNode c p) = has_total_order c"
| "has_total_order (OrderByNode c by tot) = (tot \<or> has_total_order c)"
| "has_total_order (ReversedNode c rv) = has_total_order c"
| "has_total_order (SelectionNode c pairs) = has_total_order c"
| "has_total_order (ProjectionNode c asg) = has_total_order c"
| "has_total_order (AggregateNode c aggs ks os dn) = True"
| "has_total_order (WindowOpNode c ds w) = has_total_order c"
| "has_total_order (JoinNode l r conds ty po) = (po \<and> ty \<noteq> OuterJoin \<and> has_total_order l \<and> has_total_order r)"
| "has_total_order _ = False"

text \<open>Removing the order of these adds no hidden column to the output.\<close>

fun plain :: "bfnode \<Rightarrow> bool" where
  "plain (InNode l r x i) = plain l"
| "plain (JoinNode l r conds ty po) = (plain l \<and> plain r)"
| "plain (FromRangeNode s0 e0 st i) = True"
| "plain (ConcatNode cs out) = True"
| "plain (ReadLocalNode d items sess off) = True"
| "plain (ReadTableNode src items sess) = True"
| "plain (CachedTableNode src items sess orig) = True"
| "plain (FilterNode c p) = plain c"
| "plain (OrderByNode c by tot) = plain c"
| "plain (ReversedNode c rv) = plain c"
| "plain (SelectionNode c pairs) = True"
| "plain (ProjectionNode c asg) = plain c"
| "plain (AggregateNode c aggs ks os dn) = True"
| "plain (WindowOpNode c ds w) = (WindowOpNode_inherits_order ds w = Inr False \<and> plain c)"
| "plain (ExplodeNode c cols off) = plain c"
| "plain (CteNode c) = plain c"
| "plain _ = False"

text \<open>
  What the pass relies on: operations that depend on the row order are over rows whose order is
  determined, an order that is declared total is, and limits and samples are gone.
\<close>

definition source_row :: "(string \<Rightarrow> sql_value) \<Rightarrow> row" where
  "source_row src = (\<lambda>i. src (id_sql i))"

definition source_orderly :: "engine \<Rightarrow> bq_source \<Rightarrow> scan_list \<Rightarrow> bool" where
  "source_orderly E src items \<longleftrightarrow> (\<forall>ord. src_ordering src = Some ord \<and> is_total_ordering ord \<longrightarrow>
     arranged E ord (map source_row (table_rows E src)) \<and>
     (\<forall>i \<in> ordering_referenced ord. i = ColumnId (id_sql i) \<and> id_sql i \<in> set (physical_names (src_table src)) \<and>
        (id_sql i \<in> set (map source_id items) \<longrightarrow> (i, id_sql i) \<in> set (map (\<lambda>it. (scan_id it, source_id it)) items))))"

fun orderly :: "engine \<Rightarrow> bfnode \<Rightarrow> bool" where
  "orderly E (SliceNode c a b s) = False"
| "orderly E (RandomSampleNode c fr) = False"
| "orderly E (ResultNode c outs ord k) = False"
| "orderly E (InNode l r x i) = plain r"
| "orderly E (ConcatNode cs out) = list_all (\<lambda>c. has_total_order c \<and> plain c) cs"
| "orderly E (FromRangeNode s0 e0 st i) =
     (plain s0 \<and> plain e0 \<and> length (rows E s0) \<le> 1 \<and> length (rows E e0) \<le> 1 \<and> 0 < st)"
| "orderly E (ReadTableNode src items sess) = source_orderly E src items"
| "orderly E (CachedTableNode src items sess orig) = source_orderly E src items"
| "orderly E (PromoteOffsetsNode c i) = has_total_order c"
| "orderly E (OrderByNode c by tot) = (tot \<longrightarrow> told_apart E by (rows E c))"
| "orderly E (AggregateNode c aggs ks os dn) = (AggregateNode_has_ordered_ops aggs = Inr True \<longrightarrow> has_total_order c)"
| "orderly E (WindowOpNode c ds w) =
     (WindowOpNode_inherits_order ds w = Inr True \<longrightarrow> has_total_order c \<and> inheriting_window ds w)"
| "orderly E _ = True"

subsection \<open>What the two functions return\<close>

definition grown :: "nat \<Rightarrow> nat \<Rightarrow> column_id list \<Rightarrow> column_id list \<Rightarrow> bool" where
  "grown k0 k is js \<longleftrightarrow> set is \<subseteq> set js \<and> (\<forall>j \<in> set js. older k j) \<and> (\<forall>j \<in> set js - set is. \<not> older k0 j)"

fun pulled :: "engine \<Rightarrow> nat \<Rightarrow> nat \<Rightarrow> bfnode \<Rightarrow> bfnode \<times> row_ordering \<Rightarrow> bool" where
  "pulled E k0 k n (m, ord) \<longleftrightarrow> grown k0 k (out_ids n) (out_ids m) \<and>
     reordered (set (out_ids n)) (rows E m) (rows E n) \<and>
     (has_total_order n \<longrightarrow> realizes E ord (set (out_ids n)) (rows E m) (rows E n) \<and> ordering_referenced ord \<subseteq> set (out_ids m))"

definition removed :: "engine \<Rightarrow> nat \<Rightarrow> nat \<Rightarrow> bfnode \<Rightarrow> bfnode \<Rightarrow> bool" where
  "removed E k0 k n m \<longleftrightarrow> grown k0 k (out_ids n) (out_ids m) \<and> (plain n \<longrightarrow> out_ids m = out_ids n) \<and>
     reordered (set (out_ids n)) (rows E m) (rows E n)"

lemma grown_mono: "grown k0 k is js \<Longrightarrow> k \<le> k' \<Longrightarrow> grown k0 k' is js"
  by (auto simp: grown_def intro: older_mono)

lemma pulled_mono: "pulled E k0 k n p \<Longrightarrow> k \<le> k' \<Longrightarrow> pulled E k0 k' n p"
  by (cases p) (auto intro: grown_mono)

declare pulled.simps [simp del]

lemma removed_mono: "removed E k0 k n m \<Longrightarrow> k \<le> k' \<Longrightarrow> removed E k0 k' n m"
  by (auto simp: removed_def intro: grown_mono)

lemma grown_refl: "\<forall>j \<in> set is. older k j \<Longrightarrow> grown k0 k is is"
  by (auto simp: grown_def)

lemma grown_append:
  "grown k0 k is js \<Longrightarrow> \<forall>j \<in> set new. older k j \<Longrightarrow> grown k0 k (is @ new) (js @ new)"
  by (auto simp: grown_def)

text \<open>A column that the plan defines is not a hidden one.\<close>

lemma grown_fresh: "grown k0 k is js \<Longrightarrow> older k0 i \<Longrightarrow> i \<notin> set is \<Longrightarrow> i \<notin> set js"
  by (auto simp: grown_def)

lemma grown_older: "grown k0 k is js \<Longrightarrow> j \<in> set js \<Longrightarrow> older k j"
  by (auto simp: grown_def)

subsection \<open>The state monad\<close>

definition sound_state :: "engine \<Rightarrow> nat \<Rightarrow> pull_state \<Rightarrow> bool" where
  "sound_state E k0 s \<longleftrightarrow> k0 \<le> id_counter s \<and>
     (\<forall>n p. pulled_cache s n = Some p \<longrightarrow> pulled E k0 (id_counter s) n p) \<and>
     (\<forall>n m. removed_cache s n = Some m \<longrightarrow> removed E k0 (id_counter s) n m)"

definition yields :: "engine \<Rightarrow> nat \<Rightarrow> nat \<Rightarrow> 'a pull \<Rightarrow> ('a \<Rightarrow> nat \<Rightarrow> bool) \<Rightarrow> bool" where
  "yields E k0 k m Q \<longleftrightarrow> (\<forall>s x s'. sound_state E k0 s \<longrightarrow> k \<le> id_counter s \<longrightarrow> m s = Inr (x, s') \<longrightarrow>
     sound_state E k0 s' \<and> id_counter s \<le> id_counter s' \<and> Q x (id_counter s'))"

lemma yieldsD: "yields E k0 k m Q \<Longrightarrow> sound_state E k0 s \<Longrightarrow> k \<le> id_counter s \<Longrightarrow> m s = Inr (x, s') \<Longrightarrow>
    sound_state E k0 s' \<and> id_counter s \<le> id_counter s' \<and> Q x (id_counter s')"
  by (auto simp: yields_def)

lemma yields_mono: "yields E k0 k m Q \<Longrightarrow> (\<And>x k'. k \<le> k' \<Longrightarrow> Q x k' \<Longrightarrow> R x k') \<Longrightarrow> yields E k0 k m R"
  unfolding yields_def by (meson order_trans)

lemma yields_start: "yields E k0 k m Q \<Longrightarrow> k \<le> k' \<Longrightarrow> yields E k0 k' m Q"
  unfolding yields_def by (meson order_trans)

lemma yields_sbind:
  assumes "yields E k0 k m Q" "\<And>x k'. k \<le> k' \<Longrightarrow> Q x k' \<Longrightarrow> yields E k0 k' (f x) R"
  shows "yields E k0 k (sbind m f) R"
  unfolding yields_def sbind_eq_Inr
proof (intro allI impI, elim exE conjE)
  fix s x s' y s'' assume s: "sound_state E k0 s" "k \<le> id_counter s" and m: "m s = Inr (y, s'')" and f: "f y s'' = Inr (x, s')"
  note first = yieldsD [OF assms(1) s m]
  then have "yields E k0 (id_counter s'') (f y) R" using assms(2) s(2) by (meson order_trans)
  then show "sound_state E k0 s' \<and> id_counter s \<le> id_counter s' \<and> R x (id_counter s')"
    using yieldsD [of E k0 "id_counter s''" "f y" R s'' x s'] first f by (meson order_refl order_trans)
qed

lemma yields_lift: "(\<And>x k'. k \<le> k' \<Longrightarrow> r = Inr x \<Longrightarrow> Q x k') \<Longrightarrow> yields E k0 k (lift r) Q"
  by (auto simp: yields_def lift_eq_Inr)

lemma yields_sbind_lift:
  "(\<And>x k'. k \<le> k' \<Longrightarrow> r = Inr x \<Longrightarrow> yields E k0 k' (f x) R) \<Longrightarrow> yields E k0 k (sbind (lift r) f) R"
  by (rule yields_sbind [of E k0 k "lift r" "\<lambda>x k'. r = Inr x"]) (rule yields_lift)

lemma yields_return: "(\<And>k'. k \<le> k' \<Longrightarrow> Q x k') \<Longrightarrow> yields E k0 k (lift (Inr x)) Q"
  by (rule yields_lift) simp

lemma yields_run: "yields E k0 k m Q \<Longrightarrow> yields E k0 k (\<lambda>s. m s) Q"
  by simp

lemma yields_if: "(b \<Longrightarrow> yields E k0 k m Q) \<Longrightarrow> (\<not> b \<Longrightarrow> yields E k0 k m' Q) \<Longrightarrow> yields E k0 k (\<lambda>s. if b then m s else m' s) Q"
  by (cases b) auto

lemma sound_state_counter:
  "sound_state E k0 s \<Longrightarrow> id_counter s \<le> k \<Longrightarrow> sound_state E k0 (s\<lparr>id_counter := k\<rparr>)"
  unfolding sound_state_def by simp (metis order_trans pulled_mono removed_mono)

lemma yields_fresh_id: "yields E k0 k fresh_id (\<lambda>i k'. i = guid_id k' \<and> k < k')"
  by (auto simp: yields_def fresh_id_def ColumnId_unique_eq intro: sound_state_counter)

lemma yields_cached_pull:
  assumes "yields E k0 k m (\<lambda>p k'. pulled E k0 k' n p)"
  shows "yields E k0 k (cached_pull n m) (\<lambda>p k'. pulled E k0 k' n p)"
  unfolding yields_def
proof (intro allI impI)
  fix s x s' assume s: "sound_state E k0 s" "k \<le> id_counter s" and run: "cached_pull n m s = Inr (x, s')"
  show "sound_state E k0 s' \<and> id_counter s \<le> id_counter s' \<and> pulled E k0 (id_counter s') n x"
  proof (cases "pulled_cache s n")
    case None
    then obtain t where "m s = Inr (x, t)" "s' = t\<lparr>pulled_cache := (pulled_cache t)(n \<mapsto> x)\<rparr>"
      using run by (auto simp: cached_pull_def sbind_eq_Inr)
    then show ?thesis using yieldsD [OF assms s, of x t] by (auto simp: sound_state_def)
  next
    case (Some p)
    then have "pulled E k0 (id_counter s) n p" using s(1) unfolding sound_state_def by blast
    moreover have "x = p" "s' = s" using run Some by (simp_all add: cached_pull_def)
    ultimately show ?thesis using s(1) by simp
  qed
qed

lemma yields_cached_remove:
  assumes "yields E k0 k m (\<lambda>p k'. removed E k0 k' n p)"
  shows "yields E k0 k (cached_remove n m) (\<lambda>p k'. removed E k0 k' n p)"
  unfolding yields_def
proof (intro allI impI)
  fix s x s' assume s: "sound_state E k0 s" "k \<le> id_counter s" and run: "cached_remove n m s = Inr (x, s')"
  show "sound_state E k0 s' \<and> id_counter s \<le> id_counter s' \<and> removed E k0 (id_counter s') n x"
  proof (cases "removed_cache s n")
    case None
    then obtain t where "m s = Inr (x, t)" "s' = t\<lparr>removed_cache := (removed_cache t)(n \<mapsto> x)\<rparr>"
      using run by (auto simp: cached_remove_def sbind_eq_Inr)
    then show ?thesis using yieldsD [OF assms s, of x t] by (auto simp: sound_state_def)
  next
    case (Some p)
    then show ?thesis using run s(1) by (auto simp: cached_remove_def sound_state_def)
  qed
qed

subsection \<open>Projected ordering columns\<close>

definition projected :: "engine \<Rightarrow> nat \<Rightarrow> nat \<Rightarrow> bfnode \<Rightarrow> expr ordering_expression list
    \<Rightarrow> bfnode \<times> expr ordering_expression list \<times> column_id list \<Rightarrow> bool" where
  "projected E k k' n parts = (\<lambda>(m, new_by, is). \<exists>f new. rows E m = map f (rows E n) \<and>
     (\<forall>r c. older k c \<longrightarrow> f r c = r c) \<and> out_ids m = out_ids n @ new \<and> (\<forall>j \<in> set new. older k' j \<and> \<not> older k j) \<and>
     list_all2 alike new_by parts \<and> over_columns new_by is \<and> parts_refs new_by \<subseteq> parts_refs parts \<union> set new \<and>
     (\<forall>r. part_values E new_by (f r) = part_values E parts r))"

lemma part_values_cong:
  "(\<And>c. c \<in> parts_refs ps \<Longrightarrow> r c = s c) \<Longrightarrow> part_values E ps r = part_values E ps s"
  unfolding part_values_def by (intro map_cong refl eval_depends) (auto simp: parts_refs_def referenced_columns_def)

lemma yields_project_parts:
  "\<forall>c \<in> parts_refs parts. older k c \<Longrightarrow> yields E k0 k (project_parts n parts) (\<lambda>p k'. projected E k k' n parts p)"
proof (induction parts arbitrary: n k)
  case Nil
  show ?case
    by (auto simp: yields_def projected_def over_columns_def part_values_def parts_refs_def intro!: exI [of _ id])
next
  case (Cons part parts)
  let ?e = "scalar_expression part"
  have refs: "\<forall>c \<in> parts_refs parts. older k c" "\<forall>c \<in> set (column_references ?e). older k c"
    using Cons.prems by (auto simp: parts_refs_def referenced_columns_def)
  show ?case
  proof (cases "\<exists>d. ?e = Deref d")
    case True
    then obtain d where d: "?e = Deref d" by blast
    have "yields E k0 k (sbind (project_parts n parts) (\<lambda>(m, new_by, is). lift (Inr (m, part # new_by, ref_id d # is))))
        (\<lambda>p k'. projected E k k' n (part # parts) p)"
    proof (rule yields_sbind [OF Cons.IH [OF refs(1)]], clarify, rule yields_return)
      fix m new_by "is" k1 k2 assume "projected E k k1 n parts (m, new_by, is)" and k2: "k1 \<le> k2"
      then obtain f new where p: "rows E m = map f (rows E n)" "\<And>r c. older k c \<Longrightarrow> f r c = r c" "out_ids m = out_ids n @ new"
          "\<forall>j \<in> set new. older k1 j \<and> \<not> older k j" "list_all2 alike new_by parts" "over_columns new_by is"
          "parts_refs new_by \<subseteq> parts_refs parts \<union> set new" "\<And>r. part_values E new_by (f r) = part_values E parts r"
        by (auto simp: projected_def)
      have "part_values E (part # new_by) (f r) = part_values E (part # parts) r" for r
        using p(2,8) refs(2) by (simp add: part_values_def d)
      then show "projected E k k2 n (part # parts) (m, part # new_by, ref_id d # is)"
        unfolding projected_def using p k2 d
        by (auto intro!: exI [of _ f] exI [of _ new] intro: older_mono simp: over_columns_def alike_def parts_refs_def)
    qed
    then show ?thesis by (simp add: yields_def d)
  next
    case False
    define g where "g i = sbind (project_parts (ProjectionNode n [(?e, i)]) parts) (\<lambda>(m, new_by, is).
          lift (Inr (m, OrderingExpression (Deref (DerefOp i)) (order_direction part) (na_last part) # new_by, i # is)))" for i
    have "yields E k0 k (sbind fresh_id g) (\<lambda>p k'. projected E k k' n (part # parts) p)"
    proof (rule yields_sbind [OF yields_fresh_id])
      fix i k1 assume "k \<le> k1" and i: "i = guid_id k1 \<and> k < k1"
      have refs1: "\<forall>c \<in> parts_refs parts. older k1 c" using refs(1) i by (auto intro: older_mono)
      have notin: "i \<notin> parts_refs parts" "\<not> older k i" using refs(1) i by auto
      show "yields E k0 k1 (g i) (\<lambda>p k'. projected E k k' n (part # parts) p)"
        unfolding g_def
      proof (rule yields_sbind [OF Cons.IH [OF refs1]], clarify, rule yields_return)
        fix m new_by "is" k2 k3 assume "projected E k1 k2 (ProjectionNode n [(?e, i)]) parts (m, new_by, is)" and k2: "k1 \<le> k2" "k2 \<le> k3"
        then obtain f new where p: "rows E m = map f (rows E (ProjectionNode n [(?e, i)]))" "\<And>r c. older k1 c \<Longrightarrow> f r c = r c"
            "out_ids m = out_ids (ProjectionNode n [(?e, i)]) @ new"
            "\<forall>j \<in> set new. older k2 j \<and> \<not> older k1 j" "list_all2 alike new_by parts" "over_columns new_by is"
            "parts_refs new_by \<subseteq> parts_refs parts \<union> set new" "\<And>r. part_values E new_by (f r) = part_values E parts r"
          by (auto simp: projected_def)
        let ?pr = "project_row E [(?e, i)]" and ?part = "OrderingExpression (Deref (DerefOp i)) (order_direction part) (na_last part)"
        have pr: "?pr r c = (if c = i then eval E r ?e else r c)" for r c by (simp add: project_row_def dict_of_Cons)
        have "part_values E new_by (f (?pr r)) = part_values E parts r" for r
          unfolding p(8) by (rule part_values_cong) (use notin in \<open>auto simp: pr\<close>)
        moreover have "f (?pr r) i = eval E r ?e" for r
        proof -
          have "older k1 i" using i by simp
          then show ?thesis by (simp add: p(2) pr)
        qed
        ultimately have "part_values E (?part # new_by) ((f \<circ> ?pr) r) = part_values E (part # parts) r" for r
          by (simp add: part_values_def)
        moreover have "(f \<circ> ?pr) r c = r c" if "older k c" for r c
        proof -
          have "c \<noteq> i" "older k1 c" using that notin(2) i by (auto intro: older_mono)
          then show ?thesis by (simp add: p(2) pr)
        qed
        moreover have "\<forall>j \<in> set (i # new). older k3 j \<and> \<not> older k j"
          using p(4) i k2 older_mono [of k _ k1] by (auto intro: older_mono)
        ultimately show "projected E k k3 n (part # parts) (m, ?part # new_by, i # is)"
          unfolding projected_def split_conv using p(1,3,5-7)
          by (intro exI [of _ "f \<circ> ?pr"] exI [of _ "i # new"])
            (auto simp: over_columns_def alike_def parts_refs_def referenced_columns_def)
      qed
    qed
    moreover have "project_parts n (part # parts) s = sbind fresh_id g s" for s
      using False by (cases ?e) (simp_all add: g_def [abs_def])
    ultimately show ?thesis by (simp add: yields_def)
  qed
qed

subsection \<open>Classes that keep or add columns\<close>

lemma pulledI:
  assumes "grown k0 k (out_ids n) (out_ids m)" "reordered (set (out_ids n)) (rows E m) (rows E n)"
    and "has_total_order n \<Longrightarrow> realizes E ord (set (out_ids n)) (rows E m) (rows E n)"
    and "has_total_order n \<Longrightarrow> ordering_referenced ord \<subseteq> set (out_ids m)"
  shows "pulled E k0 k n (m, ord)"
  using assms by (simp add: pulled.simps)

lemma pulledD:
  assumes "pulled E k0 k n (m, ord)"
  shows "grown k0 k (out_ids n) (out_ids m)" "reordered (set (out_ids n)) (rows E m) (rows E n)"
    "has_total_order n \<Longrightarrow> realizes E ord (set (out_ids n)) (rows E m) (rows E n)"
    "has_total_order n \<Longrightarrow> ordering_referenced ord \<subseteq> set (out_ids m)"
  using assms by (simp_all add: pulled.simps)

lemma removedI:
  "grown k0 k (out_ids n) (out_ids m) \<Longrightarrow> (plain n \<Longrightarrow> out_ids m = out_ids n) \<Longrightarrow>
     reordered (set (out_ids n)) (rows E m) (rows E n) \<Longrightarrow> removed E k0 k n m"
  by (simp add: removed_def)

lemma removedD:
  assumes "removed E k0 k n m"
  shows "grown k0 k (out_ids n) (out_ids m)" "plain n \<Longrightarrow> out_ids m = out_ids n"
    "reordered (set (out_ids n)) (rows E m) (rows E n)"
  using assms by (simp_all add: removed_def)

lemma refs_reverse [simp]: "referenced_columns (with_reverse p) = referenced_columns p"
  by (simp add: referenced_columns_def)

lemma pulled_reverse:
  assumes "lawful_order E" "pulled E k0 k c (mc, oc)" "ordering_with_reverse oc = Inr ord"
  shows "pulled E k0 k (ReversedNode c rv) (mc, ord)"
proof (rule pulledI)
  have "ordering_referenced ord = ordering_referenced oc"
  proof -
    have "ordering_value_columns ord = map with_reverse (ordering_value_columns oc)"
      using assms(3) by (cases oc) (auto simp: mk_total_def split: if_splits)
    then show ?thesis by (simp add: ordering_referenced_def)
  qed
  then show "has_total_order (ReversedNode c rv) \<Longrightarrow> ordering_referenced ord \<subseteq> set (out_ids mc)"
    using pulledD(4) [OF assms(2)] by simp
qed (use assms pulledD [OF assms(2)] in \<open>auto intro: representation\<close>)

lemma with_ordering_columns_refs:
  assumes "with_ordering_columns new oc = Inr ord"
  shows "ordering_referenced ord \<subseteq> parts_refs new \<union> ordering_referenced oc"
proof -
  have row: "set (truncate_row seen ps) \<subseteq> set ps" for seen ps
  proof (induction seen ps rule: truncate_row.induct)
    case (2 seen p ps)
    then show ?case by (cases "set (column_references (scalar_expression p)) \<subseteq> seen") (simp_all add: Let_def subset_insertI2)
  qed simp
  have total: "truncate_total must seen acc ps = Inr qs \<Longrightarrow> set qs \<subseteq> set acc \<union> set ps" for must seen acc ps qs
    by (induction must seen acc ps rule: truncate_total.induct) (auto simp: Let_def split: if_splits)
  show ?thesis
  proof (cases oc)
    case (RowOrdering ps enc)
    then show ?thesis using assms row [of "{}" "new @ ps"] by (auto simp: ordering_referenced_def parts_refs_def)
  next
    case (TotalOrdering ps enc cols)
    then obtain qs where "truncate_total cols {} [] (new @ ps) = Inr qs" "ordering_value_columns ord = qs"
      using assms by (auto simp: rbind_eq_Inr_iff mk_total_def split: if_splits)
    then show ?thesis using total [of cols "{}" "[]" "new @ ps" qs] TotalOrdering by (fastforce simp: ordering_referenced_def parts_refs_def)
  qed
qed

lemma projectedD:
  assumes "projected E k k' n parts (m, new_by, is)"
  shows "\<exists>f. rows E m = map f (rows E n) \<and> (\<forall>r c. older k c \<longrightarrow> f r c = r c) \<and> (\<forall>r. part_values E new_by (f r) = part_values E parts r)"
    "list_all2 alike new_by parts" "over_columns new_by is" "parts_refs new_by \<subseteq> parts_refs parts \<union> set (out_ids m)"
    "\<exists>new. out_ids m = out_ids n @ new \<and> (\<forall>j \<in> set new. older k' j \<and> \<not> older k j)"
  using assms unfolding projected_def by auto

lemma grown_projected:
  assumes "projected E k k' n parts (m, new_by, is)" "grown k0 k js (out_ids n)" "k0 \<le> k" "k \<le> k'"
  shows "grown k0 k' js (out_ids m)"
proof -
  obtain new where new: "out_ids m = out_ids n @ new" "\<forall>j \<in> set new. older k' j \<and> \<not> older k j"
    using projectedD(5) [OF assms(1)] by blast
  then have "\<not> older k0 j" if "j \<in> set new" for j using that older_mono [OF _ assms(3)] by blast
  then show ?thesis using assms(2) new older_mono [OF _ assms(4)] by (auto simp: grown_def)
qed

lemma projected_rows:
  assumes "projected E k k' mc parts (m, new_by, is)" "grown k0 k is' (out_ids mc)"
  shows "reordered (set is') (rows E mc) ts \<Longrightarrow> reordered (set is') (rows E m) ts"
    "realizes E oc (set is') (rows E mc) ts \<Longrightarrow> ordering_referenced oc \<subseteq> set (out_ids mc) \<Longrightarrow> realizes E oc (set is') (rows E m) ts"
    "parts_refs parts \<subseteq> set is' \<Longrightarrow> r \<in> set (rows E m) \<Longrightarrow> agree (set is') r t \<Longrightarrow> part_values E new_by r = part_values E parts t"
proof -
  obtain f where f: "rows E m = map f (rows E mc)" "\<And>r c. older k c \<Longrightarrow> f r c = r c" "\<And>r. part_values E new_by (f r) = part_values E parts r"
    using projectedD(1) [OF assms(1)] by blast
  have old: "older k c" if "c \<in> set is'" for c using that assms(2) by (auto simp: grown_def)
  have "agree (set is') r t \<Longrightarrow> agree (set is') (f r) (id t)" for r t using f(2) old by (auto simp: agree_def)
  then show "reordered (set is') (rows E mc) ts \<Longrightarrow> reordered (set is') (rows E m) ts"
    unfolding f(1) using reordered_map [of "set is'" "rows E mc" ts "set is'" f id] by simp
  show "realizes E oc (set is') (rows E mc) ts \<Longrightarrow> ordering_referenced oc \<subseteq> set (out_ids mc) \<Longrightarrow> realizes E oc (set is') (rows E m) ts"
  proof -
    assume r: "realizes E oc (set is') (rows E mc) ts" "ordering_referenced oc \<subseteq> set (out_ids mc)"
    have "f r c = r c" if "c \<in> ordering_referenced oc" for r c using that r(2) f(2) grown_older [OF assms(2)] by blast
    then show "realizes E oc (set is') (rows E m) ts"
      unfolding f(1) using realizes_map [OF r(1), of "set is'" f id] f(2) old by (simp add: agree_def)
  qed
  assume p: "parts_refs parts \<subseteq> set is'" "r \<in> set (rows E m)" "agree (set is') r t"
  then obtain s where s: "r = f s" unfolding f(1) by auto
  have "part_values E new_by r = part_values E parts s" by (simp add: s f(3))
  also have "\<dots> = part_values E parts t"
    by (rule part_values_cong) (use p s f(2) old in \<open>auto simp: agree_def\<close>)
  finally show "part_values E new_by r = part_values E parts t" .
qed

lemma pulled_order_by:
  assumes "lawful_order E" "k0 \<le> k" "k \<le> k'" "scoped (OrderByNode c by False)" "pulled E k0 k c (mc, oc)"
    and "projected E k k' mc by (m, new_by, is)" "with_ordering_columns new_by oc = Inr ord"
  shows "pulled E k0 k' (OrderByNode c by False) (m, ord)"
proof (rule pulledI)
  note c = pulledD [OF assms(5)] and p = projected_rows [OF assms(6) pulledD(1) [OF assms(5)]]
  have refs: "parts_refs by \<subseteq> set (out_ids c)" using assms(4) by simp
  show "grown k0 k' (out_ids (OrderByNode c by False)) (out_ids m)"
    using grown_projected [OF assms(6) c(1) assms(2,3)] by simp
  show "reordered (set (out_ids (OrderByNode c by False))) (rows E m) (rows E (OrderByNode c by False))"
    using p(1) [OF c(2)] refs by (simp add: reordered_sort)
  show "realizes E ord (set (out_ids (OrderByNode c by False))) (rows E m) (rows E (OrderByNode c by False))" if "has_total_order (OrderByNode c by False)"
    using that p(2) [OF c(3,4)] p(3) [OF refs]
    by (auto intro!: realizes_sort [OF assms(1) _ assms(7)] row_compare_keys [OF projectedD(2) [OF assms(6)]])
  show "ordering_referenced ord \<subseteq> set (out_ids m)" if "has_total_order (OrderByNode c by False)"
  proof -
    have "set (out_ids c) \<subseteq> set (out_ids mc)" using c(1) by (simp add: grown_def)
    moreover have "set (out_ids mc) \<subseteq> set (out_ids m)" using projectedD(5) [OF assms(6)] by auto
    moreover have "ordering_referenced oc \<subseteq> set (out_ids mc)" using c(4) that by simp
    ultimately show ?thesis
      using with_ordering_columns_refs [OF assms(7)] projectedD(4) [OF assms(6)] refs by blast
  qed
qed

lemma pulled_order_by_total:
  assumes "lawful_order E" "k0 \<le> k" "k \<le> k'" "scoped (OrderByNode c by True)" "orderly E (OrderByNode c by True)" "removed E k0 k c mc"
    and "projected E k k' mc by (m, new_by, is)" "mk_total new_by no_encoding (set is) = Inr ord"
  shows "pulled E k0 k' (OrderByNode c by True) (m, ord)"
proof (rule pulledI)
  note c = removedD [OF assms(6)] and p = projected_rows [OF assms(7) removedD(1) [OF assms(6)]]
  have refs: "parts_refs by \<subseteq> set (out_ids c)" using assms(4) by simp
  show "grown k0 k' (out_ids (OrderByNode c by True)) (out_ids m)"
    using grown_projected [OF assms(7) c(1) assms(2,3)] by simp
  show "reordered (set (out_ids (OrderByNode c by True))) (rows E m) (rows E (OrderByNode c by True))"
    using p(1) [OF c(3)] refs by (simp add: reordered_sort)
  show "realizes E ord (set (out_ids (OrderByNode c by True))) (rows E m) (rows E (OrderByNode c by True))"
    using realizes_sort_total [OF assms(1) p(1) [OF c(3)] _ projectedD(2,3) [OF assms(7)] p(3) [OF refs] assms(8)] assms(5) by simp
  have "set (out_ids c) \<subseteq> set (out_ids mc)" using c(1) by (simp add: grown_def)
  moreover have "set (out_ids mc) \<subseteq> set (out_ids m)" using projectedD(5) [OF assms(7)] by auto
  moreover have "ordering_referenced ord = parts_refs new_by"
    using assms(8) by (auto simp: mk_total_def ordering_referenced_def parts_refs_def split: if_splits)
  ultimately show "ordering_referenced ord \<subseteq> set (out_ids m)" using projectedD(4) [OF assms(7)] refs by blast
qed

lemma pulled_filter:
  assumes "scoped (FilterNode c p)" "pulled E k0 k c (mc, oc)" "with_non_sequential oc = Inr ord"
  shows "pulled E k0 k (FilterNode c p) (FilterNode mc p, ord)"
proof (rule pulledI)
  note c = pulledD [OF assms(2)]
  have p: "agree (set (out_ids c)) r t \<Longrightarrow> (eval E r p = BoolS True) = (eval E t p = BoolS True)" for r t
    using assms(1) eval_cong [of p "set (out_ids c)" r t E] by simp
  have refs: "ordering_referenced ord = ordering_referenced oc"
    using assms(3) by (cases oc) (auto simp: ordering_referenced_def mk_total_def split: if_splits)
  show "reordered (set (out_ids (FilterNode c p))) (rows E (FilterNode mc p)) (rows E (FilterNode c p))"
    using reordered_filter [OF c(2) p] by (simp add: filter_rows_def)
  show "realizes E ord (set (out_ids (FilterNode c p))) (rows E (FilterNode mc p)) (rows E (FilterNode c p))" if "has_total_order (FilterNode c p)"
    using realizes_filter [OF c(3) p assms(3)] that by (simp add: filter_rows_def)
  show "has_total_order (FilterNode c p) \<Longrightarrow> ordering_referenced ord \<subseteq> set (out_ids (FilterNode mc p))"
    using c(4) refs by simp
qed (use pulledD [OF assms(2)] in simp)

lemma fresh_not_referenced:
  "ordering_referenced ord \<subseteq> set js \<Longrightarrow> grown k0 k is js \<Longrightarrow> older k0 i \<Longrightarrow> i \<notin> set is \<Longrightarrow> i \<notin> ordering_referenced ord"
  using grown_fresh by blast

lemma pulled_projection:
  assumes "k0 \<le> k" "scoped (ProjectionNode c asg)" "ids_older k0 (ProjectionNode c asg)" "pulled E k0 k c (mc, oc)"
  shows "pulled E k0 k (ProjectionNode c asg) (ProjectionNode mc asg, oc)"
proof (rule pulledI)
  note c = pulledD [OF assms(4)]
  have new: "older k0 j \<and> j \<notin> set (out_ids c)" if "j \<in> snd ` set asg" for j
    using that assms(2) ids_older_out [OF assms(3), of j] by (auto simp: list_all_iff)
  have pr: "agree (set (out_ids c)) r t \<Longrightarrow> agree (set (out_ids c) \<union> snd ` set asg) (project_row E asg r) (project_row E asg t)" for r t
    using project_agree [of "set (out_ids c)" "[r]" "[t]" asg E] assms(2) by (auto simp: rows_agree_def list_all_iff)
  show "grown k0 k (out_ids (ProjectionNode c asg)) (out_ids (ProjectionNode mc asg))"
    using c(1) new older_mono [OF _ assms(1)] by (auto intro!: grown_append)
  show "reordered (set (out_ids (ProjectionNode c asg))) (rows E (ProjectionNode mc asg)) (rows E (ProjectionNode c asg))"
    using reordered_map [OF c(2) pr] by simp
  show "realizes E oc (set (out_ids (ProjectionNode c asg))) (rows E (ProjectionNode mc asg)) (rows E (ProjectionNode c asg))"
    if "has_total_order (ProjectionNode c asg)"
  proof -
    have t: "has_total_order c" using that by simp
    have "project_row E asg r i = r i" if "i \<in> ordering_referenced oc" for r i
      using that new fresh_not_referenced [OF c(4) [OF t] c(1)] by (intro project_row_other) blast
    then show ?thesis using realizes_map [OF c(3) [OF t] pr] by simp
  qed
  show "has_total_order (ProjectionNode c asg) \<Longrightarrow> ordering_referenced oc \<subseteq> set (out_ids (ProjectionNode mc asg))"
    using c(4) by auto
qed

lemma pulled_in:
  assumes "k0 \<le> k" "scoped (InNode l r x i)" "ids_older k0 (InNode l r x i)" "pulled E k0 k l (ml, ol)"
    and "out_ids mr = out_ids r" "reordered (set (out_ids r)) (rows E mr) (rows E r)"
  shows "pulled E k0 k (InNode l r x i) (InNode ml mr x i, ol)"
proof (rule pulledI)
  note c = pulledD [OF assms(4)]
  have new: "older k0 i" "i \<notin> set (out_ids l)" "ref_id x \<in> set (out_ids l)"
    using assms(2) ids_older_out [OF assms(3), of i] by auto
  define f where "f = (\<lambda>a :: row. a(i := BoolS (list_ex (\<lambda>s. case out_ids r of [] \<Rightarrow> False | j # _ \<Rightarrow> equal_keys E (a (ref_id x)) (s j)) (rows E r))))"
  have rows: "rows E (InNode ml mr x i) = map f (rows E ml)" "rows E (InNode l r x i) = map f (rows E l)"
    using isin_right [OF assms(6), of "out_ids r" E x i "rows E ml"] by (simp_all add: assms(5) isin_rows_def f_def)
  have f: "agree (set (out_ids l)) a b \<Longrightarrow> agree (set (out_ids (InNode l r x i))) (f a) (f b)" for a b
    using new(3) by (auto simp: agree_def f_def split: list.split)
  show "grown k0 k (out_ids (InNode l r x i)) (out_ids (InNode ml mr x i))"
    using c(1) new(1) older_mono [OF _ assms(1)] by (auto intro!: grown_append)
  show "reordered (set (out_ids (InNode l r x i))) (rows E (InNode ml mr x i)) (rows E (InNode l r x i))"
    unfolding rows by (rule reordered_map [OF c(2) f])
  show "realizes E ol (set (out_ids (InNode l r x i))) (rows E (InNode ml mr x i)) (rows E (InNode l r x i))" if "has_total_order (InNode l r x i)"
  proof -
    have t: "has_total_order l" using that by simp
    have keep: "f a j = a j" if "j \<in> ordering_referenced ol" for a j
      using that new fresh_not_referenced [OF c(4) [OF t] c(1), of i] by (auto simp: f_def)
    show ?thesis unfolding rows by (rule realizes_map [OF c(3) [OF t] f keep])
  qed
  show "has_total_order (InNode l r x i) \<Longrightarrow> ordering_referenced ol \<subseteq> set (out_ids (InNode ml mr x i))"
    using c(4) by auto
qed

lemma yields_fresh_ids:
  "yields E k0 k (fresh_ids xs) (\<lambda>ps k'. map fst ps = xs \<and> distinct (map snd ps) \<and> (\<forall>i \<in> snd ` set ps. older k' i \<and> \<not> older k i))"
proof (induction xs arbitrary: k)
  case Nil
  show ?case by (auto simp: yields_def)
next
  case (Cons x xs)
  have "yields E k0 k (sbind fresh_id (\<lambda>i. sbind (fresh_ids xs) (\<lambda>rest. lift (Inr ((x, i) # rest)))))
      (\<lambda>ps k'. map fst ps = x # xs \<and> distinct (map snd ps) \<and> (\<forall>i \<in> snd ` set ps. older k' i \<and> \<not> older k i))"
  proof (rule yields_sbind [OF yields_fresh_id], rule yields_sbind [OF Cons.IH], rule yields_return)
    fix i k1 ps k2 k3 assume "k \<le> k1" and i: "i = guid_id k1 \<and> k < k1" and "k1 \<le> k2" "k2 \<le> k3" and
      ps: "map fst ps = xs \<and> distinct (map snd ps) \<and> (\<forall>i \<in> snd ` set ps. older k2 i \<and> \<not> older k1 i)"
    have "older k1 i" using i by simp
    then have "i \<notin> snd ` set ps" using ps by blast
    moreover have "\<forall>j \<in> snd ` set ps. older k3 j \<and> \<not> older k j"
      using ps older_mono [OF _ \<open>k \<le> k1\<close>] older_mono [OF _ \<open>k2 \<le> k3\<close>] by blast
    ultimately show "map fst ((x, i) # ps) = x # xs \<and> distinct (map snd ((x, i) # ps)) \<and>
        (\<forall>i \<in> snd ` set ((x, i) # ps). older k3 i \<and> \<not> older k i)"
      using i ps older_mono [of k1 i k3] \<open>k1 \<le> k2\<close> \<open>k2 \<le> k3\<close> by auto
  qed
  then show ?case by (simp add: yields_def)
qed

lemma yields_selection:
  assumes "k0 \<le> k" "scoped (SelectionNode c pairs)" "ids_older k0 (SelectionNode c pairs)" "pulled E k0 k c (mc, oc)"
  shows "yields E k0 k (pull_order_selection pairs (mc, oc)) (\<lambda>p k'. pulled E k0 k' (SelectionNode c pairs) p)"
  unfolding pull_order_selection_def split_conv Let_def
proof (rule yields_sbind [OF yields_fresh_ids], rule yields_sbind_lift, rule yields_return)
  let ?hidden = "filter (\<lambda>col. col \<notin> set (map (\<lambda>(ref, _). ref_id ref) pairs)) (ordering_columns oc)"
  fix new k1 ord k2 k3 assume k: "k \<le> k1" "k1 \<le> k2" "k2 \<le> k3"
    and new: "map fst new = ?hidden \<and> distinct (map snd new) \<and> (\<forall>i \<in> snd ` set new. older k1 i \<and> \<not> older k i)"
    and ord: "ordering_remap_refs (get_id_mapping (pairs @ map (\<lambda>(k, v). (DerefOp k, v)) new)) False oc = Inr ord"
  let ?all = "pairs @ map (\<lambda>(k, v). (DerefOp k, v)) new" and ?n = "SelectionNode c pairs"
  let ?m = "SelectionNode mc ?all"
  note c = pulledD [OF assms(4)]
  have ids: "map snd ?all = map snd pairs @ map snd new" by (simp add: comp_def case_prod_unfold)
  have fresh: "\<not> older k0 i" "older k3 i" "\<not> older k i" if "i \<in> snd ` set new" for i
    using that new older_mono [OF _ assms(1)] older_mono [of k1 i k3] k by auto
  have own: "older k0 j" if "j \<in> snd ` set pairs" for j using that ids_older_out [OF assms(3), of j] by auto
  have dist: "distinct (map snd ?all)"
    unfolding ids using assms(2) new own fresh by auto
  have sel: "select_row ?all r j = r (ref_id d)" if "(d, j) \<in> set ?all" for d j r
    by (rule select_row_dict [OF dist that])
  have own_sel: "select_row pairs r j = r (ref_id d)" if "(d, j) \<in> set pairs" for d j r
    using that assms(2) by (intro select_row_dict) auto
  have f: "agree (set (out_ids ?n)) (select_row ?all r) (select_row pairs t)" if "agree (set (out_ids c)) r t" for r t
    using that sel own_sel assms(2) by (fastforce simp: agree_def list_all_iff)
  show "pulled E k0 k3 ?n (?m, ord)"
  proof (rule pulledI)
    show "grown k0 k3 (out_ids ?n) (out_ids ?m)"
    proof -
      have "older k3 j" if "(d, j) \<in> set pairs" for d j
        using own [of j] that older_mono [of k0 j k3] assms(1) k by force
      moreover have "older k3 j \<and> \<not> older k0 j" if "(d, j) \<in> set new" for d j
        using fresh [of j] that by force
      ultimately show ?thesis by (auto simp: grown_def comp_def case_prod_unfold)
    qed
    show "reordered (set (out_ids ?n)) (rows E ?m) (rows E ?n)"
      using reordered_map [OF c(2) f] by simp
    assume "has_total_order ?n"
    then have t: "has_total_order c" by simp
    let ?map = "get_id_mapping ?all"
    have image: "\<exists>i d. ?map col = Some i \<and> (d, i) \<in> set ?all \<and> ref_id d = col" if "col \<in> ordering_referenced oc" for col
    proof -
      have "col \<in> set (ordering_columns oc)"
        using that by (auto simp: ordering_columns_def ordering_referenced_def referenced_columns_def)
      then have "col \<in> set (map (\<lambda>(ref, _). ref_id ref) pairs) \<or> col \<in> fst ` set new"
        using arg_cong [OF conjunct1 [OF new], of set] by auto
      then have "col \<in> dom ?map"
        unfolding get_id_mapping_def dom_dict_of by (auto simp: image_Un image_image case_prod_unfold)
      then obtain i where i: "?map col = Some i" by blast
      then show ?thesis using dict_of_SomeD [of _ col i] unfolding get_id_mapping_def by fastforce
    qed
    have "select_row ?all r (get_or_self ?map col) = r col" if "col \<in> ordering_referenced oc" for r col
      using image [OF that] sel by (metis get_or_self_Some)
    then show "realizes E ord (set (out_ids ?n)) (rows E ?m) (rows E ?n)"
      using realizes_rename [OF c(3) [OF t] f ord] by simp
    have "ordering_referenced ord = get_or_self ?map ` ordering_referenced oc" by (rule ordering_remap_referenced [OF ord])
    then show "ordering_referenced ord \<subseteq> set (out_ids ?m)"
      using image by force
  qed
qed

subsection \<open>Offsets, windows and aggregates\<close>

lemma pulled_promote:
  assumes "ordered_engine E" "k0 \<le> k" "scoped (PromoteOffsetsNode c i)" "ids_older k0 (PromoteOffsetsNode c i)"
    and "has_total_order c" "pulled E k0 k c (mc, oc)" "pull_order_promote i (mc, oc) = Inr (m, ord)"
  shows "pulled E k0 k (PromoteOffsetsNode c i) (m, ord)"
proof (rule pulledI)
  note c = pulledD [OF assms(6)]
  have ids: "out_ids m = out_ids mc @ [i]"
    using assms(7) by (auto simp: pull_order_promote_def rbind_eq_Inr_iff row_number_def split: if_splits option.splits)
  have ord: "ordering_referenced ord = {i}"
    using assms(7) by (auto simp: pull_order_promote_def rbind_eq_Inr_iff from_offset_col_def mk_total_def ordering_referenced_def
        referenced_columns_def ascending_over_def split: if_splits option.splits)
  have i: "older k0 i" using ids_older_out [OF assms(4), of i] by simp
  show "grown k0 k (out_ids (PromoteOffsetsNode c i)) (out_ids m)"
    using c(1) older_mono [OF i assms(2)] unfolding ids by (simp add: grown_append)
  have "realizes E ord (set (out_ids (PromoteOffsetsNode c i))) (rows E m) (rows E (PromoteOffsetsNode c i))"
    using realizes_promote [OF assms(1,7) c(3) [OF assms(5)]] by simp
  then show "realizes E ord (set (out_ids (PromoteOffsetsNode c i))) (rows E m) (rows E (PromoteOffsetsNode c i))"
    "reordered (set (out_ids (PromoteOffsetsNode c i))) (rows E m) (rows E (PromoteOffsetsNode c i))"
    by (auto intro: realizes_reordered)
  show "ordering_referenced ord \<subseteq> set (out_ids m)" by (simp add: ord ids)
qed

lemma agg_op_parts: "agg_op e = Inr op \<Longrightarrow> agg_parts e = Some (op', args) \<Longrightarrow> op' = op"
  by (cases e) (auto simp: agg_op_def)

lemma any_while_False: "any_while p xs = Inr False \<Longrightarrow> x \<in> set xs \<Longrightarrow> p x = Inr False"
  by (induction xs) (auto simp: rbind_eq_Inr_iff split: if_splits)

lemma all_while_True: "all_while p xs = Inr True \<Longrightarrow> x \<in> set xs \<Longrightarrow> p x = Inr True"
  by (induction xs) (auto simp: rbind_eq_Inr_iff split: if_splits)

lemma inherits_order_False:
  assumes "WindowOpNode_inherits_order ds w = Inr False"
  shows "symmetric_window ds w"
proof -
  obtain b where b: "any_while (\<lambda>cdef. rbind (agg_op (cdef_expression cdef))
      (\<lambda>op. Inr (\<not> order_independent op \<and> implicitly_inherits_order op))) ds = Inr b" "\<not> b" "\<not> is_row_bounded w"
    using assms by (auto simp: WindowOpNode_inherits_order_def rbind_eq_Inr_iff)
  have "order_independent op \<or> \<not> implicitly_inherits_order op"
    if "d \<in> set ds" "agg_parts (cdef_expression d) = Some (op, args)" for d op args
    using any_while_False [OF _ that(1), of "\<lambda>cdef. rbind (agg_op (cdef_expression cdef))
      (\<lambda>op. Inr (\<not> order_independent op \<and> implicitly_inherits_order op))"] b that(2)
    by (auto simp: rbind_eq_Inr_iff dest: agg_op_parts)
  with b(3) show ?thesis by (auto simp: symmetric_window_def list_all_iff split: option.split)
qed

lemma ordered_ops_False:
  assumes "AggregateNode_has_ordered_ops aggs = Inr False"
  shows "order_free aggs"
proof -
  have all: "all_while (\<lambda>(agg, _). rbind (agg_op agg) (\<lambda>op. Inr (order_independent op))) aggs = Inr True"
    using assms by (auto simp: AggregateNode_has_ordered_ops_def rbind_eq_Inr_iff)
  have "order_independent op" if "(e, j) \<in> set aggs" "agg_parts e = Some (op, args)" for e j op args
    using all_while_True [OF all that(1)] that(2) by (auto simp: rbind_eq_Inr_iff dest: agg_op_parts)
  then show ?thesis by (auto simp: order_free_def list_all_iff split: option.split)
qed

lemma scoped_window:
  assumes "scoped (WindowOpNode c ds w)"
  shows "window_refs ds w \<subseteq> set (out_ids c)" "cdef_id ` set ds \<inter> set (out_ids c) = {}"
  using assms by (auto simp: window_refs_def list_all_iff)

lemma pulled_window:
  assumes "ordered_engine E" "k0 \<le> k" "scoped (WindowOpNode c ds w)" "ids_older k0 (WindowOpNode c ds w)" "orderly E (WindowOpNode c ds w)"
    and "pulled E k0 k c (mc, oc)" "WindowOpNode_inherits_order ds w = Inr inherits"
  shows "pulled E k0 k (WindowOpNode c ds w) (WindowOpNode mc ds (if inherits then order_window w oc else w), oc)"
proof (rule pulledI)
  note c = pulledD [OF assms(6)] and w = scoped_window [OF assms(3)]
  let ?n = "WindowOpNode c ds w" and ?m = "WindowOpNode mc ds (if inherits then order_window w oc else w)"
  have new: "older k0 j" "j \<notin> set (out_ids c)" if "j \<in> cdef_id ` set ds" for j
    using that w(2) ids_older_out [OF assms(4), of j] by auto
  have ids: "set (out_ids ?n) = set (out_ids c) \<union> cdef_id ` set ds" by simp
  show "grown k0 k (out_ids ?n) (out_ids ?m)"
    using c(1) new older_mono [OF _ assms(2)] by (auto intro!: grown_append)
  have apart: "cdef_id ` set ds \<inter> ordering_referenced oc = {}" if "has_total_order c"
    using new fresh_not_referenced [OF c(4) [OF that] c(1)] by blast
  have total: "realizes E oc (set (out_ids ?n)) (rows E ?m) (rows E ?n)" if t: "has_total_order c"
  proof (cases inherits)
    case True
    then have "inheriting_window ds w" using assms(5,7) by simp
    then show ?thesis
      using realizes_ordered_window [OF assms(1) _ w(1) c(3) [OF t] apart [OF t]] True by (simp add: ids)
  next
    case False
    then show ?thesis
      using realizes_window [OF assms(1) inherits_order_False w(1) c(3) [OF t] apart [OF t]] assms(7) by (simp add: ids)
  qed
  then show "has_total_order ?n \<Longrightarrow> realizes E oc (set (out_ids ?n)) (rows E ?m) (rows E ?n)" by simp
  show "reordered (set (out_ids ?n)) (rows E ?m) (rows E ?n)"
  proof (cases inherits)
    case True
    then show ?thesis using assms(5,7) total by (auto intro: realizes_reordered)
  next
    case False
    then show ?thesis
      using reordered_window [OF assms(1) inherits_order_False w(1) c(2)] assms(7) by (simp add: ids)
  qed
  show "has_total_order ?n \<Longrightarrow> ordering_referenced oc \<subseteq> set (out_ids ?m)" using c(4) by auto
qed

lemma pulled_aggregate:
  assumes "ordered_engine E" "k0 \<le> k" "scoped (AggregateNode c aggs ks os dn)" "ids_older k0 (AggregateNode c aggs ks os dn)"
    and "from_primary_key (map ref_id ks) = Inr ord" "rows E (AggregateNode mc aggs ks os' dn) = rows E (AggregateNode c aggs ks os dn)"
  shows "pulled E k0 k (AggregateNode c aggs ks os dn) (AggregateNode mc aggs ks os' dn, ord)"
proof (rule pulledI)
  let ?n = "AggregateNode c aggs ks os dn" and ?m = "AggregateNode mc aggs ks os' dn"
  have "\<forall>j \<in> set (out_ids ?n). older k j" using ids_older_out [OF assms(4)] older_mono [OF _ assms(2)] by blast
  then show "grown k0 k (out_ids ?n) (out_ids ?m)" by (auto intro: grown_refl)
  show "realizes E ord (set (out_ids ?n)) (rows E ?m) (rows E ?n)"
    using realizes_aggregate [OF assms(1,5), of aggs "rows E ?m" os dn "rows E c" "set (out_ids ?n)"] assms(3,6) by simp
  then show "reordered (set (out_ids ?n)) (rows E ?m) (rows E ?n)" by (rule realizes_reordered)
  show "ordering_referenced ord \<subseteq> set (out_ids ?m)"
    using assms(5) by (auto simp: from_primary_key_def mk_total_def ordering_referenced_def referenced_columns_def ascending_over_def split: if_splits)
qed

lemma scoped_aggregate: "scoped (AggregateNode c aggs ks os dn) \<Longrightarrow> agg_refs aggs (map ref_id ks) os \<subseteq> set (out_ids c)"
  by (auto simp: agg_refs_def list_all_iff)

lemma ordered_aggregate_rows:
  assumes "ordered_engine E" "scoped (AggregateNode c aggs ks os dn)" "has_total_order c" "pulled E k0 k c (mc, oc)"
    and "with_ordering_columns os oc = Inr by"
  shows "rows E (AggregateNode mc aggs ks (ordering_value_columns by) dn) = rows E (AggregateNode c aggs ks os dn)"
  using aggregate_ordered [OF assms(1) scoped_aggregate [OF assms(2)] pulledD(3) [OF assms(4,3)] assms(5)] by simp

lemma free_aggregate_rows:
  assumes "ordered_engine E" "scoped (AggregateNode c aggs ks os dn)" "AggregateNode_has_ordered_ops aggs = Inr False" "removed E k0 k c mc"
  shows "rows E (AggregateNode mc aggs ks os dn) = rows E (AggregateNode c aggs ks os dn)"
  using aggregate_reordered [OF assms(1) ordered_ops_False [OF assms(3)] scoped_aggregate [OF assms(2)] removedD(3) [OF assms(4)]] by simp

subsection \<open>Joins, ranges, sources, explosions and concatenations\<close>

lemma reordered_join_nodes:
  assumes "scoped (JoinNode l r conds ty po)" "ids_older k0 (JoinNode l r conds ty po)"
    and "grown k0 k (out_ids l) (out_ids ml)"
    and "reordered (set (out_ids l)) (rows E ml) (rows E l)" "reordered (set (out_ids r)) (rows E mr) (rows E r)"
  shows "reordered (set (out_ids (JoinNode l r conds ty po))) (rows E (JoinNode ml mr conds ty po)) (rows E (JoinNode l r conds ty po))"
proof -
  have "i \<in> set (out_ids ml) \<longleftrightarrow> i \<in> set (out_ids l)" if "i \<in> set (out_ids l) \<union> set (out_ids r)" for i
    using that assms(3) ids_older_out [OF assms(2), of i] by (auto simp: grown_def)
  then show ?thesis
    using assms(1) by (auto intro!: reordered_join [OF assms(4,5)] simp: list_all_iff)
qed

lemma grown_join:
  assumes "ids_older k0 (JoinNode l r conds ty po)" "grown k0 k (out_ids l) (out_ids ml)" "grown k0 k (out_ids r) (out_ids mr)"
  shows "grown k0 k (out_ids (JoinNode l r conds ty po)) (out_ids (JoinNode ml mr conds ty po))"
  using assms(2,3) by (auto simp: grown_def)

lemma pulled_range:
  assumes "ordered_engine E" "k0 \<le> k" "ids_older k0 (FromRangeNode s0 e0 st i)" "orderly E (FromRangeNode s0 e0 st i)"
    and "from_primary_key [i] = Inr ord"
  shows "pulled E k0 k (FromRangeNode s0 e0 st i) (FromRangeNode s0 e0 st i, ord)"
proof (rule pulledI)
  have "older k i" using ids_older_out [OF assms(3), of i] older_mono [OF _ assms(2)] by auto
  then show "grown k0 k (out_ids (FromRangeNode s0 e0 st i)) (out_ids (FromRangeNode s0 e0 st i))" by (simp add: grown_refl)
  show "realizes E ord (set (out_ids (FromRangeNode s0 e0 st i))) (rows E (FromRangeNode s0 e0 st i)) (rows E (FromRangeNode s0 e0 st i))"
    using arranged_range [OF assms(1,5)] assms(4) by (intro realizesI [OF refl]) auto
  show "ordering_referenced ord \<subseteq> set (out_ids (FromRangeNode s0 e0 st i))"
    using assms(5) by (auto simp: from_primary_key_def mk_total_def ordering_referenced_def referenced_columns_def ascending_over_def split: if_splits)
qed (simp add: reordered_mset)

lemma first_cell_reordered:
  assumes "out_ids m = out_ids n" "reordered (set (out_ids n)) (rows E m) (rows E n)" "length (rows E n) \<le> 1"
  shows "first_cell (out_ids m) (rows E m) = first_cell (out_ids n) (rows E n)"
proof -
  obtain zs where zs: "mset zs = mset (rows E m)" "rows_agree (set (out_ids n)) zs (rows E n)" using assms(2) by (auto simp: reordered_def)
  have "length (rows E m) \<le> 1" using assms(2,3) reordered_length by fastforce
  then have "zs = rows E m" using zs(1) by (cases "rows E m") auto
  then show ?thesis
    using zs(2) assms(1,3) by (cases "rows E m"; cases "rows E n"; cases "out_ids n") (auto simp: first_cell_def rows_agree_def agree_def)
qed

lemma yields_local:
  assumes "ordered_engine E" "k0 \<le> k" "ids_older k0 (ReadLocalNode d items sess off)"
  shows "yields E k0 k (pull_order_local d items sess off) (\<lambda>p k'. pulled E k0 k' (ReadLocalNode d items sess off) p)"
  unfolding pull_order_local_def
proof (rule yields_sbind)
  let ?n = "ReadLocalNode d items sess off"
  let ?Q = "\<lambda>i k'. older k' i \<and> (off = Some i \<or> off = None \<and> \<not> older k0 i)"
  show "yields E k0 k (case off of None \<Rightarrow> fresh_id | Some i \<Rightarrow> lift (Inr i)) ?Q"
  proof (cases off)
    case None
    then show ?thesis using assms(2) yields_mono [OF yields_fresh_id, of k ?Q] by simp
  next
    case (Some i)
    then show ?thesis
      using ids_older_out [OF assms(3), of i] older_mono [OF _ order_trans [OF assms(2)]] by (auto intro!: yields_return)
  qed
  fix i k1 assume k1: "k \<le> k1" and i: "?Q i k1"
  show "yields E k0 k1 (sbind (lift (from_offset_col i)) (\<lambda>order. lift (Inr (ReadLocalNode d items sess (Some i), order))))
      (\<lambda>p k'. pulled E k0 k' ?n p)"
  proof (rule yields_sbind_lift, rule yields_return, rule pulledI)
    fix ord k2 k3 assume k: "k1 \<le> k2" "k2 \<le> k3" and ord: "from_offset_col i = Inr ord"
    let ?m = "ReadLocalNode d items sess (Some i)"
    have old: "older k3 j" if "j \<in> set (out_ids ?n)" for j
      using ids_older_out [OF assms(3) that] older_mono [of k0 j k3] assms(2) k k1 by simp
    have "older k3 i" using i older_mono [of k1 i k3] k by simp
    then show "grown k0 k3 (out_ids ?n) (out_ids ?m)" using i old by (auto simp: grown_def split: option.splits)
    let ?rs = "map (scan_row items) (local_rows E (local_key d))"
    have m: "rows E ?m = promote_offsets i ?rs" by (simp add: read_local_def Let_def)
    have agree: "rows_agree (set (out_ids ?n)) (rows E ?m) (rows E ?n)"
    proof (cases off)
      case None
      then have "\<not> older k0 i" using i by simp
      then have "i \<notin> set (out_ids ?n)" using ids_older_out [OF assms(3)] by blast
      then show ?thesis unfolding m using None by (auto simp: read_local_def Let_def intro: rows_agree_mono [OF promote_base])
    next
      case (Some j)
      then show ?thesis using i by simp
    qed
    show "realizes E ord (set (out_ids ?n)) (rows E ?m) (rows E ?n)"
      using arranged_promote [OF assms(1) ord] agree unfolding m by (intro realizesI [OF refl]) auto
    show "reordered (set (out_ids ?n)) (rows E ?m) (rows E ?n)" using agree by (rule reordered_agree)
    show "ordering_referenced ord \<subseteq> set (out_ids ?m)"
      using ord by (auto simp: from_offset_col_def mk_total_def ordering_referenced_def referenced_columns_def ascending_over_def split: if_splits)
  qed
qed

end
