(* ===== verification/Order_Joins.thy ===== *)
theory Order_Joins
  imports Order_Soundness
begin

text \<open>
  Joins that keep the order of their inputs: the join of rows that realize the inputs realizes
  the ordered join, by the ordering of the outer input and then that of the inner one.
\<close>

subsection \<open>Rows of a nested loop\<close>

lemma sorted_wrt_concat:
  assumes "\<And>xs. xs \<in> set xss \<Longrightarrow> sorted_wrt P xs" "sorted_wrt (\<lambda>xs ys. \<forall>x \<in> set xs. \<forall>y \<in> set ys. P x y) xss"
  shows "sorted_wrt P (concat xss)"
  using assms by (induction xss) (auto simp: sorted_wrt_append)

text \<open>
  For each outer row, in their order, the rows it makes with some of the inner rows, in their
  order, or one row alone; the row \<open>mk a b\<close> shows the outer row on \<open>A\<close> and the inner one on \<open>B\<close>.
\<close>

definition nested :: "(row \<Rightarrow> row \<Rightarrow> row) \<Rightarrow> (row \<Rightarrow> row \<Rightarrow> bool) \<Rightarrow> bool \<Rightarrow> row list \<Rightarrow> row list \<Rightarrow> row list" where
  "nested mk on keep outer inner = concat (map (\<lambda>a.
     let ms = filter (on a) inner in if ms = [] \<and> keep then [mk a null_row] else map (mk a) ms) outer)"

lemma nested_joins:
  "inner_join pair on ls rs = nested pair on False ls rs"
  "left_join pair on ls rs = nested pair on True ls rs"
  by (simp_all add: inner_join_def left_join_def nested_def Let_def)

lemma strict_nested:
  assumes "strict E ps outer" "strict E qs inner"
    and "\<And>a b a' b'. row_compare E ps (mk a b) (mk a' b') = row_compare E ps a a'"
    and "\<And>a b b'. row_compare E qs (mk a b) (mk a b') = row_compare E qs b b'"
    and "\<And>a. row_compare E ps a a = 0"
  shows "strict E (ps @ qs) (nested mk on keep outer inner)"
  unfolding strict_def nested_def
proof (rule sorted_wrt_concat)
  have less: "row_compare E (ps @ qs) (mk a b) (mk a' b') < 0" if "row_compare E ps a a' < 0" for a b a' b'
    using that by (simp add: row_compare_append assms(3))
  fix xs assume "xs \<in> set (map (\<lambda>a. let ms = filter (on a) inner in if ms = [] \<and> keep then [mk a null_row] else map (mk a) ms) outer)"
  then obtain a where xs: "xs = (let ms = filter (on a) inner in if ms = [] \<and> keep then [mk a null_row] else map (mk a) ms)" by auto
  have "sorted_wrt (\<lambda>b b'. row_compare E qs b b' < 0) (filter (on a) inner)"
    using assms(2) unfolding strict_def by (rule sorted_wrt_filter)
  then have "sorted_wrt (\<lambda>r s. row_compare E (ps @ qs) r s < 0) (map (mk a) (filter (on a) inner))"
    by (simp add: sorted_wrt_map row_compare_append assms(3-5))
  then show "sorted_wrt (\<lambda>r s. row_compare E (ps @ qs) r s < 0) xs" by (simp add: xs Let_def)
next
  have less: "row_compare E (ps @ qs) (mk a b) (mk a' b') < 0" if "row_compare E ps a a' < 0" for a b a' b'
    using that by (simp add: row_compare_append assms(3))
  show "sorted_wrt (\<lambda>xs ys. \<forall>x \<in> set xs. \<forall>y \<in> set ys. row_compare E (ps @ qs) x y < 0)
     (map (\<lambda>a. let ms = filter (on a) inner in if ms = [] \<and> keep then [mk a null_row] else map (mk a) ms) outer)"
    unfolding sorted_wrt_map
    by (rule sorted_wrt_mono_rel [OF _ assms(1) [unfolded strict_def]]) (auto simp: Let_def less)
qed

lemma identified_nested:
  assumes "identified cols outer" "identified cols' inner"
    and "\<And>a b c. c \<in> cols \<Longrightarrow> mk a b c = a c" "\<And>a b c. c \<in> cols' \<Longrightarrow> mk a b c = b c"
  shows "identified (cols \<union> cols') (nested mk on keep outer inner)"
  unfolding identified_def nested_def
proof (rule sorted_wrt_concat)
  fix xs assume "xs \<in> set (map (\<lambda>a. let ms = filter (on a) inner in if ms = [] \<and> keep then [mk a null_row] else map (mk a) ms) outer)"
  then obtain a where xs: "xs = (let ms = filter (on a) inner in if ms = [] \<and> keep then [mk a null_row] else map (mk a) ms)" by auto
  have "sorted_wrt (\<lambda>b b'. \<exists>c \<in> cols'. b c \<noteq> b' c) (filter (on a) inner)"
    using assms(2) unfolding identified_def by (rule sorted_wrt_filter)
  then have "sorted_wrt (\<lambda>r s. \<exists>c \<in> cols \<union> cols'. r c \<noteq> s c) (map (mk a) (filter (on a) inner))"
    unfolding sorted_wrt_map by (rule sorted_wrt_mono_rel [rotated]) (use assms(4) in \<open>metis UnI2\<close>)
  then show "sorted_wrt (\<lambda>r s. \<exists>c \<in> cols \<union> cols'. r c \<noteq> s c) xs" by (simp add: xs Let_def)
next
  have "\<exists>c \<in> cols \<union> cols'. mk a b c \<noteq> mk a' b' c" if "\<exists>c \<in> cols. a c \<noteq> a' c" for a b a' b'
    using that assms(3) by (metis UnI1)
  then show "sorted_wrt (\<lambda>xs ys. \<forall>x \<in> set xs. \<forall>y \<in> set ys. \<exists>c \<in> cols \<union> cols'. x c \<noteq> y c)
     (map (\<lambda>a. let ms = filter (on a) inner in if ms = [] \<and> keep then [mk a null_row] else map (mk a) ms) outer)"
    unfolding sorted_wrt_map
    by (intro sorted_wrt_mono_rel [OF _ assms(1) [unfolded identified_def]]) (auto simp: Let_def)
qed

lemma arranged_nested:
  assumes "lawful_order E" "arranged E ord outer" "arranged E ord' inner" "join_ordering ord ord' = Inr new"
    and "\<And>a b c. c \<in> ordering_referenced ord \<Longrightarrow> mk a b c = a c" "\<And>a b c. c \<in> ordering_referenced ord' \<Longrightarrow> mk a b c = b c"
  shows "arranged E new (nested mk on keep outer inner)"
proof -
  obtain ps enc cols qs enc' cols' where ord: "ord = TotalOrdering ps enc cols" "ord' = TotalOrdering qs enc' cols'"
    using assms(2,3) by (cases ord; cases ord') auto
  then have new: "new = TotalOrdering (ps @ qs) no_encoding (cols \<union> cols')"
    using assms(4) by (auto simp: mk_total_def split: if_splits)
  have refs: "parts_refs ps = ordering_referenced ord" "parts_refs qs = ordering_referenced ord'"
    using parts_refs_ordering [of ord] parts_refs_ordering [of ord'] by (simp_all add: ord)
  have "row_compare E ps (mk a b) (mk a' b') = row_compare E ps a a'" for a b a' b'
    using assms(5) refs(1) by (intro row_compare_cong [of ps "parts_refs ps"]) (auto simp: agree_def)
  moreover have "row_compare E qs (mk a b) (mk a b') = row_compare E qs b b'" for a b b'
    using assms(6) refs(2) by (intro row_compare_cong [of qs "parts_refs qs"]) (auto simp: agree_def)
  moreover have "row_compare E ps a a = 0" for a by (rule comparison.refl [OF row_compare_comparison [OF assms(1)]])
  ultimately have "strict E (ps @ qs) (nested mk on keep outer inner)"
    using assms(2,3) by (intro strict_nested) (simp_all add: ord)
  moreover have "cols \<subseteq> parts_refs ps" "cols' \<subseteq> parts_refs qs"
    using assms(2,3) keyed_refs [of cols ps] keyed_refs [of cols' qs] by (simp_all add: ord)
  then have "identified (cols \<union> cols') (nested mk on keep outer inner)"
    using assms(2,3,5,6) refs by (intro identified_nested) (auto simp: ord)
  ultimately show ?thesis using assms(2,3) by (auto simp: new ord keyed_by_alt encoded_def no_encoding_def)
qed

lemma mset_nested:
  assumes "mset ls = mset ls'" "mset rs = mset rs'"
  shows "mset (nested mk on keep ls rs) = mset (nested mk on keep ls' rs')"
  unfolding nested_def
proof (rule mset_concat_map [OF assms(1)])
  fix l
  have m: "mset (filter (on l) rs) = mset (filter (on l) rs')" by (simp add: assms(2))
  then have "filter (on l) rs = [] \<longleftrightarrow> filter (on l) rs' = []" by (metis mset_zero_iff)
  then show "mset (let ms = filter (on l) rs in if ms = [] \<and> keep then [mk l null_row] else map (mk l) ms) =
      mset (let ms = filter (on l) rs' in if ms = [] \<and> keep then [mk l null_row] else map (mk l) ms)"
    using assms(2) by (simp add: Let_def)
qed

lemma nested_agree:
  assumes "rows_agree S ls ls'" "rows_agree T rs rs'"
    and "\<And>a a' b b'. agree S a a' \<Longrightarrow> agree T b b' \<Longrightarrow> agree U (mk a b) (mk' a' b')"
    and "\<And>a a' b b'. agree S a a' \<Longrightarrow> agree T b b' \<Longrightarrow> on a b = on' a' b'"
  shows "rows_agree U (nested mk on keep ls rs) (nested mk' on' keep ls' rs')"
proof (cases keep)
  case True
  then show ?thesis
    using left_join_rel [of "agree S" ls ls' "agree T" rs rs' "agree U" mk mk' on on'] assms
    by (simp add: rows_agree_def nested_joins)
next
  case False
  then show ?thesis
    using inner_join_rel [of "agree S" ls ls' "agree T" rs rs' "agree U" mk mk' on on'] assms
    by (simp add: rows_agree_def nested_joins)
qed

lemma realizes_nested [representation]:
  assumes "lawful_order E" "realizes E ord S outer ts" "realizes E ord' T inner us" "join_ordering ord ord' = Inr new"
    and "\<And>a b c. c \<in> ordering_referenced ord \<Longrightarrow> mk a b c = a c" "\<And>a b c. c \<in> ordering_referenced ord' \<Longrightarrow> mk a b c = b c"
    and "\<And>a a' b b'. agree S a a' \<Longrightarrow> agree T b b' \<Longrightarrow> agree U (mk a b) (mk' a' b')"
    and "\<And>a a' b b'. agree S a a' \<Longrightarrow> agree T b b' \<Longrightarrow> on a b = on' a' b'"
  shows "realizes E new U (nested mk on keep outer inner) (nested mk' on' keep ts us)"
proof -
  obtain zs where zs: "mset zs = mset outer" "rows_agree S zs ts" "arranged E ord zs" using assms(2) by (auto simp: realizes_def)
  obtain ws where ws: "mset ws = mset inner" "rows_agree T ws us" "arranged E ord' ws" using assms(3) by (auto simp: realizes_def)
  show ?thesis
  proof (rule realizesI)
    show "mset (nested mk on keep zs ws) = mset (nested mk on keep outer inner)" by (rule mset_nested [OF zs(1) ws(1)])
    show "rows_agree U (nested mk on keep zs ws) (nested mk' on' keep ts us)" by (rule nested_agree [OF zs(2) ws(2) assms(7,8)])
    show "arranged E new (nested mk on keep zs ws)" using assms(5,6) by (rule arranged_nested [OF assms(1) zs(3) ws(3) assms(4)])
  qed
qed

subsection \<open>The inputs of a join\<close>

text \<open>The constant indicator does not change the order.\<close>

lemma pulled_indicator:
  assumes "ordered_engine E" "k0 \<le> k" "k < k'" "pulled E k0 k n (m, ord)" "i = guid_id k'"
    and "with_ordering_columns [descending_over i True] ord = Inr ord'"
  shows "pulled E k0 k' n (ProjectionNode m [(const (BoolV True) None, i)], ord')"
proof (rule pulledI)
  note m = pulledD [OF assms(4)]
  let ?pr = "project_row E [(const (BoolV True) None, i)]"
  have pr: "?pr r j = (if j = i then BoolS True else r j)" for r j by (simp add: project_row_def dict_of_Cons const_def)
  have i: "\<not> older k i" using assms(3,5) by simp
  then have notin: "i \<notin> set (out_ids m)" using grown_older [OF m(1)] by blast
  then have own: "i \<notin> set (out_ids n)" using m(1) by (auto simp: grown_def)
  have keep: "agree (set (out_ids n)) r t \<Longrightarrow> agree (set (out_ids n)) (?pr r) (id t)" for r t using own by (auto simp: agree_def pr)
  have "older k' j" if "j \<in> set (out_ids m)" for j using grown_older [OF m(1) that] older_mono [of k j k'] assms(3) by simp
  then show "grown k0 k' (out_ids n) (out_ids (ProjectionNode m [(const (BoolV True) None, i)]))"
    using m(1) assms(2,3,5) by (auto simp: grown_def)
  show "reordered (set (out_ids n)) (rows E (ProjectionNode m [(const (BoolV True) None, i)])) (rows E n)"
    using reordered_map [of "set (out_ids n)" "rows E m" "rows E n" "set (out_ids n)" ?pr id] m(2) keep by simp
  show "realizes E ord' (set (out_ids n)) (rows E (ProjectionNode m [(const (BoolV True) None, i)])) (rows E n)" if t: "has_total_order n"
  proof -
    have "?pr r c = r c" if "c \<in> ordering_referenced ord" for r c using that m(4) [OF t] notin by (auto simp: pr)
    then have "realizes E ord (set (out_ids n)) (map ?pr (rows E m)) (map id (rows E n))"
      by (intro realizes_map [OF m(3) [OF t] keep])
    then have "realizes E ord' (set (out_ids n)) (map ?pr (rows E m)) (sort_rows E [] (rows E n))"
    proof (intro realizes_sort [OF ordered_engineD(1) [OF assms(1)] _ assms(6)])
      fix r s t u assume "r \<in> set (map ?pr (rows E m))" "s \<in> set (map ?pr (rows E m))"
      then have "r i = BoolS True" "s i = BoolS True" by (auto simp: pr)
      moreover have "value_order E (BoolS True) (BoolS True) = 0"
        using ordered_engineD(2) [OF assms(1)] by (simp add: keeps_keys_def)
      ultimately show "row_compare E [descending_over i True] r s = row_compare E [] t u"
        by (simp add: row_compare_single descending_over_def part_compare_def)
    qed simp
    then show ?thesis by simp
  qed
  show "ordering_referenced ord' \<subseteq> set (out_ids (ProjectionNode m [(const (BoolV True) None, i)]))" if "has_total_order n"
    using with_ordering_columns_refs [OF assms(6)] m(4) [OF that]
    by (auto simp: parts_refs_def descending_over_def referenced_columns_def)
qed

lemma select_renamed:
  assumes "\<And>j. j \<in> set is \<Longrightarrow> g j = g i \<Longrightarrow> j = i" "i \<in> set is"
  shows "select_row (map (\<lambda>i. (DerefOp i, g i)) is) r (g i) = r i"
proof -
  have "g i \<in> dom (dict_of (map (\<lambda>i. (g i, DerefOp i)) is))"
    unfolding dom_dict_of using assms(2) by (auto simp: image_image)
  then obtain d where d: "dict_of (map (\<lambda>i. (g i, DerefOp i)) is) (g i) = Some d" by blast
  then have "ref_id d = i" using dict_of_SomeD [OF d] assms(1) by auto
  with d show ?thesis by (simp add: select_row_def comp_def)
qed

definition apart :: "bfnode \<Rightarrow> bfnode \<Rightarrow> bool" where
  "apart m m' \<longleftrightarrow> set (out_ids m) \<inter> set (out_ids m') = {}"

lemma pulled_renamed:
  assumes "k0 \<le> k" "k \<le> k'" "grown k0 k (out_ids l) (out_ids ml)" "pulled E k0 k r (mr, ord)" "set (out_ids l) \<inter> set (out_ids r) = {}" "ids_older k0 r"
    and "map fst renames = filter (\<lambda>i. i \<in> set (out_ids mr)) (out_ids ml)" "distinct (map snd renames)"
    and "\<forall>i \<in> snd ` set renames. older k' i \<and> \<not> older k i"
    and "m = SelectionNode mr (map (\<lambda>i. (DerefOp i, get_or_self (dict_of renames) i)) (out_ids mr))"
    and "ordering_remap_refs (dict_of renames) True ord = Inr ord'"
  shows "pulled E k0 k' r (m, ord')" "apart ml m"
proof -
  let ?g = "get_or_self (dict_of renames)"
  note r = pulledD [OF assms(4)]
  have dom: "i \<in> dom (dict_of renames) \<longleftrightarrow> i \<in> set (out_ids ml) \<and> i \<in> set (out_ids mr)" for i
    using arg_cong [OF assms(7), of set] by auto
  have new: "older k' (?g i) \<and> \<not> older k (?g i)" if i: "i \<in> dom (dict_of renames)" for i
  proof -
    obtain j where j: "dict_of renames i = Some j" using i by blast
    then have "j \<in> snd ` set renames" using dict_of_SomeD [OF j] by force
    then show ?thesis using bspec [OF assms(9)] j by simp
  qed
  have old: "?g i = i" if "i \<notin> dom (dict_of renames)" for i using that by (auto simp: dict_of_eq_None_iff intro: get_or_self_None)
  have older_mr: "older k i" if "i \<in> set (out_ids mr)" for i using grown_older [OF r(1) that] .
  have inj: "j = i" if ij: "i \<in> set (out_ids mr)" "j \<in> set (out_ids mr)" "?g j = ?g i" for i j
  proof (cases "i \<in> dom (dict_of renames)")
    case True
    then have "j \<in> dom (dict_of renames)" using that new [OF True] old [of j] older_mr [OF that(2)] by metis
    then obtain a b where a: "dict_of renames i = Some a" "dict_of renames j = Some b" using True by blast
    then have "b = a" using ij(3) by simp
    then have "(i, a) \<in> set renames" "(j, a) \<in> set renames" using a by (auto dest: dict_of_SomeD)
    then show ?thesis using assms(8) by (metis eq_key_imp_eq_value distinct_map inj_onD prod.inject snd_conv)
  next
    case False
    then have "j \<notin> dom (dict_of renames)" using that new [of j] old [of i] older_mr [OF that(1)] by metis
    then show ?thesis using that(3) old False by simp
  qed
  have own: "?g i = i" if "i \<in> set (out_ids r)" for i
  proof -
    have "older k0 i" using ids_older_out [OF assms(6) that] .
    then have "i \<notin> set (out_ids ml)" using assms(3,5) that by (auto simp: grown_def)
    then show ?thesis using dom old by blast
  qed
  define f where "f = select_row (map (\<lambda>i. (DerefOp i, ?g i)) (out_ids mr))"
  have f: "f row (?g i) = row i" if "i \<in> set (out_ids mr)" for row i
    unfolding f_def by (rule select_renamed) (use inj that in auto)
  have sub: "set (out_ids r) \<subseteq> set (out_ids mr)" using r(1) by (simp add: grown_def)
  have keep: "agree (set (out_ids r)) (f a) (id b)" if "agree (set (out_ids r)) a b" for a b
  proof -
    have "f a i = a i" if "i \<in> set (out_ids r)" for i using f [of i a] own [OF that] sub that by auto
    then show ?thesis using that by (simp add: agree_def)
  qed
  have ids: "out_ids m = map ?g (out_ids mr)" by (simp add: assms(10) comp_def)
  have rows: "rows E m = map f (rows E mr)" by (simp add: assms(10) f_def)
  show "pulled E k0 k' r (m, ord')"
  proof (rule pulledI)
    have "older k' (?g i) \<and> (?g i \<in> set (out_ids r) \<or> \<not> older k0 (?g i))" if i: "i \<in> set (out_ids mr)" for i
    proof (cases "i \<in> dom (dict_of renames)")
      case True
      then show ?thesis using new [OF True] older_mono [OF _ assms(1)] by blast
    next
      case False
      then have "?g i = i" by (rule old)
      then show ?thesis using i older_mr [OF i] older_mono [OF _ assms(2)] r(1) by (auto simp: grown_def)
    qed
    then show "grown k0 k' (out_ids r) (out_ids m)"
      using own sub unfolding ids grown_def by (auto intro: rev_image_eqI)
    show "reordered (set (out_ids r)) (rows E m) (rows E r)"
      unfolding rows using reordered_map [of "set (out_ids r)" "rows E mr" "rows E r" "set (out_ids r)" f id] r(2) keep by simp
    assume t: "has_total_order r"
    have "f row (?g c) = row c" if "c \<in> ordering_referenced ord" for row c using that f r(4) [OF t] by blast
    then have "realizes E ord' (set (out_ids r)) (map f (rows E mr)) (map id (rows E r))"
      by (intro realizes_rename [OF r(3) [OF t] keep assms(11)])
    then show "realizes E ord' (set (out_ids r)) (rows E m) (rows E r)" by (simp add: rows)
    show "ordering_referenced ord' \<subseteq> set (out_ids m)"
      unfolding ids ordering_remap_referenced [OF assms(11)] using r(4) [OF t] by auto
  qed
  have "?g i \<notin> set (out_ids ml)" if "i \<in> set (out_ids mr)" for i
  proof (cases "i \<in> dom (dict_of renames)")
    case True
    then show ?thesis using new [OF True] grown_older [OF assms(3)] by blast
  next
    case False
    then show ?thesis using old [OF False] dom that by auto
  qed
  then show "apart ml m" unfolding apart_def ids by auto
qed

subsection \<open>The join of two pulled inputs\<close>

lemma AliasedRef_remap_identity: "AliasedRef_remap_vars m (AliasedRef_identity i) = (DerefOp i, get_or_self m i)"
  by (simp add: AliasedRef_remap_vars_def AliasedRef_identity_def)

lemma yields_resolve:
  assumes "k0 \<le> k" "grown k0 k (out_ids l) (out_ids ml)" "pulled E k0 k r (mr, ro)" "set (out_ids l) \<inter> set (out_ids r) = {}" "ids_older k0 r"
  shows "yields E k0 k (resolve_conflicts ml mr ro) (\<lambda>p k'. pulled E k0 k' r p \<and> apart ml (fst p))"
  unfolding resolve_conflicts_def Let_def
proof (rule yields_sbind_lift, rule yields_sbind_lift)
  fix ls k1 rs k2 assume k: "k \<le> k1" "k1 \<le> k2" and "ids ml = Inr ls" "ids mr = Inr rs"
  then have ids: "ls = out_ids ml" "rs = out_ids mr" by (simp_all add: ids_out_ids)
  let ?conflicts = "filter (\<lambda>i. i \<in> set rs) ls"
  let ?Q = "\<lambda>p k'. pulled E k0 k' r p \<and> apart ml (fst p)"
  have right: "pulled E k0 k2 r (mr, ro)" using assms(3) k by (auto intro: pulled_mono)
  have left: "grown k0 k2 (out_ids l) (out_ids ml)" using assms(2) k by (auto intro: grown_mono)
  have k0: "k0 \<le> k2" using assms(1) k by simp
  show "yields E k0 k2 (if ?conflicts = [] then lift (Inr (mr, ro))
      else sbind (rename_cols mr ?conflicts) (\<lambda>(right_child', mapping).
        sbind (lift (ordering_remap_refs mapping True ro)) (\<lambda>right_order'. lift (Inr (right_child', right_order'))))) ?Q"
  proof (cases "?conflicts = []")
    case True
    then have "apart ml mr" by (auto simp: apart_def ids filter_empty_conv)
    then have "yields E k0 k2 (lift (Inr (mr, ro))) ?Q" using right by (auto intro!: yields_return intro: pulled_mono)
    then show ?thesis using True by simp
  next
    case False
    have "yields E k0 k2 (sbind (rename_cols mr ?conflicts) (\<lambda>(right_child', mapping).
        sbind (lift (ordering_remap_refs mapping True ro)) (\<lambda>right_order'. lift (Inr (right_child', right_order'))))) ?Q"
    proof (rule yields_sbind [where Q = "\<lambda>p k'. \<exists>renames. map fst renames = ?conflicts \<and> distinct (map snd renames) \<and>
        (\<forall>i \<in> snd ` set renames. older k' i \<and> \<not> older k2 i) \<and>
        p = (SelectionNode mr (map (\<lambda>i. (DerefOp i, get_or_self (dict_of renames) i)) (out_ids mr)), dict_of renames)"])
      show "yields E k0 k2 (rename_cols mr ?conflicts) (\<lambda>p k'. \<exists>renames. map fst renames = ?conflicts \<and> distinct (map snd renames) \<and>
        (\<forall>i \<in> snd ` set renames. older k' i \<and> \<not> older k2 i) \<and>
        p = (SelectionNode mr (map (\<lambda>i. (DerefOp i, get_or_self (dict_of renames) i)) (out_ids mr)), dict_of renames))"
        unfolding rename_cols_def Let_def AliasedRef_remap_identity
      proof (rule yields_sbind [OF yields_fresh_ids], rule yields_sbind_lift, rule yields_return)
        fix renames k3 "is" k4 k5 assume "k3 \<le> k4" "k4 \<le> k5" "ids mr = Inr is"
          and new: "map fst renames = ?conflicts \<and> distinct (map snd renames) \<and> (\<forall>i \<in> snd ` set renames. older k3 i \<and> \<not> older k2 i)"
        moreover have "older k5 i" if "older k3 i" for i using that older_mono [of k3 i k5] \<open>k3 \<le> k4\<close> \<open>k4 \<le> k5\<close> by simp
        ultimately show "\<exists>renames'. map fst renames' = ?conflicts \<and> distinct (map snd renames') \<and>
            (\<forall>i \<in> snd ` set renames'. older k5 i \<and> \<not> older k2 i) \<and>
            (SelectionNode mr (map (\<lambda>i. (DerefOp i, get_or_self (dict_of renames) i)) is), dict_of renames) =
            (SelectionNode mr (map (\<lambda>i. (DerefOp i, get_or_self (dict_of renames') i)) (out_ids mr)), dict_of renames')"
          by (intro exI [of _ renames]) (auto dest!: ids_out_ids)
      qed
      fix p k3 assume k3: "k2 \<le> k3" and "\<exists>renames. map fst renames = ?conflicts \<and> distinct (map snd renames) \<and>
        (\<forall>i \<in> snd ` set renames. older k3 i \<and> \<not> older k2 i) \<and>
        p = (SelectionNode mr (map (\<lambda>i. (DerefOp i, get_or_self (dict_of renames) i)) (out_ids mr)), dict_of renames)"
      then obtain renames where r: "map fst renames = filter (\<lambda>i. i \<in> set (out_ids mr)) (out_ids ml)" "distinct (map snd renames)"
          "\<forall>i \<in> snd ` set renames. older k3 i \<and> \<not> older k2 i"
          "p = (SelectionNode mr (map (\<lambda>i. (DerefOp i, get_or_self (dict_of renames) i)) (out_ids mr)), dict_of renames)"
        unfolding ids by blast
      note renamed = pulled_renamed [OF k0 k3 left right assms(4,5) r(1-3) refl]
      show "yields E k0 k3 (case p of (right_child', mapping) \<Rightarrow>
          sbind (lift (ordering_remap_refs mapping True ro)) (\<lambda>right_order'. lift (Inr (right_child', right_order')))) ?Q"
        unfolding r(4) split_conv
      proof (rule yields_sbind_lift, rule yields_return)
        fix ord k4 k5 assume "k3 \<le> k4" "k4 \<le> k5" and ord: "ordering_remap_refs (dict_of renames) True ro = Inr ord"
        then show "pulled E k0 k5 r (SelectionNode mr (map (\<lambda>i. (DerefOp i, get_or_self (dict_of renames) i)) (out_ids mr)), ord) \<and>
            apart ml (fst (SelectionNode mr (map (\<lambda>i. (DerefOp i, get_or_self (dict_of renames) i)) (out_ids mr)), ord))"
          using renamed [OF ord] by (auto intro: pulled_mono)
      qed
    qed
    then show ?thesis using False by simp
  qed
qed

lemma yields_add_indicator:
  assumes "ordered_engine E" "k0 \<le> k" "pulled E k0 k n (m, ord)"
  shows "yields E k0 k (add_indicator b m ord) (\<lambda>p k'. pulled E k0 k' n p \<and> (\<forall>i \<in> set (out_ids (fst p)) - set (out_ids m). \<not> older k i))"
proof (cases b)
  case False
  then show ?thesis using assms(3) by (auto simp: add_indicator_def intro!: yields_return intro: pulled_mono)
next
  case True
  have "yields E k0 k (sbind fresh_id (\<lambda>indicator. sbind (lift (with_ordering_columns [descending_over indicator True] ord)) (\<lambda>order'.
      lift (Inr (ProjectionNode m [(const (BoolV True) None, indicator)], order')))))
    (\<lambda>p k'. pulled E k0 k' n p \<and> (\<forall>i \<in> set (out_ids (fst p)) - set (out_ids m). \<not> older k i))"
  proof (rule yields_sbind [OF yields_fresh_id], rule yields_sbind_lift, rule yields_return)
    fix i k1 ord' k2 k3 assume "k1 \<le> k2" "k2 \<le> k3" and i: "i = guid_id k1 \<and> k < k1"
      and ord': "with_ordering_columns [descending_over i True] ord = Inr ord'"
    then have "pulled E k0 k3 n (ProjectionNode m [(const (BoolV True) None, i)], ord')"
      using pulled_mono [OF pulled_indicator [OF assms(1,2) _ assms(3) _ ord', of k1]] by simp
    then show "pulled E k0 k3 n (ProjectionNode m [(const (BoolV True) None, i)], ord') \<and>
        (\<forall>j \<in> set (out_ids (fst (ProjectionNode m [(const (BoolV True) None, i)], ord'))) - set (out_ids m). \<not> older k j)"
      using i by auto
  qed
  then show ?thesis using True by (simp add: add_indicator_def)
qed

lemma pulled_join:
  assumes "ordered_engine E" "scoped (JoinNode l r conds ty True)" "ids_older k0 (JoinNode l r conds ty True)"
    and "pulled E k0 k l (ml, ol)" "pulled E k0 k r (mr, ro)" "apart ml mr"
    and "(if ty \<noteq> RightJoin then join_ordering ol ro else join_ordering ro ol) = Inr ord"
  shows "pulled E k0 k (JoinNode l r conds ty True) (JoinNode ml mr conds ty True, ord)"
proof (rule pulledI)
  let ?n = "JoinNode l r conds ty True" and ?m = "JoinNode ml mr conds ty True"
  note l = pulledD [OF assms(4)] and r = pulledD [OF assms(5)]
  show "grown k0 k (out_ids ?n) (out_ids ?m)" by (rule grown_join [OF assms(3) l(1) r(1)])
  show "reordered (set (out_ids ?n)) (rows E ?m) (rows E ?n)" by (rule reordered_join_nodes [OF assms(2,3) l(1,2) r(2)])
  assume "has_total_order ?n"
  then have t: "has_total_order l" "has_total_order r" "ty \<noteq> OuterJoin" by simp_all
  note lawful = ordered_engineD(1) [OF assms(1)] and tl = l(3) [OF t(1)] and tr = r(3) [OF t(2)]
  have refs: "ordering_referenced ol \<subseteq> set (out_ids ml)" "ordering_referenced ro \<subseteq> set (out_ids mr)" using l(4) r(4) t by blast+
  have left: "pair_row (out_ids ml) a b c = a c" if "c \<in> ordering_referenced ol" for a b c using that refs(1) by (auto simp: pair_row_def)
  have right: "pair_row (out_ids ml) a b c = b c" if "c \<in> ordering_referenced ro" for a b c
    using that refs(2) assms(6) by (auto simp: pair_row_def apart_def)
  let ?U = "set (out_ids ?n)"
  have pair: "agree ?U (pair_row (out_ids ml) a b) (pair_row (out_ids l) a' b')"
    if "agree (set (out_ids l)) a a'" "agree (set (out_ids r)) b b'" for a a' b b'
  proof (rule pair_agree [OF that])
    show "i \<in> set (out_ids ml) \<longleftrightarrow> i \<in> set (out_ids l)" if "i \<in> ?U" for i
      using l(1) ids_older_out [OF assms(3) that] by (auto simp: grown_def)
    then show "i \<in> set (out_ids l)" if "i \<in> ?U" "i \<in> set (out_ids ml)" for i using that by blast
    show "i \<in> set (out_ids r)" if "i \<in> ?U" "i \<notin> set (out_ids ml)" for i using that l(1) by (auto simp: grown_def)
  qed
  have on: "joins E conds a b = joins E conds a' b'" if "agree (set (out_ids l)) a a'" "agree (set (out_ids r)) b b'" for a a' b b'
    by (rule joins_agree [OF that]) (use assms(2) in \<open>auto simp: list_all_iff\<close>)
  show "realizes E ord ?U (rows E ?m) (rows E ?n)"
  proof (cases ty)
    case InnerJoin
    have o: "join_ordering ol ro = Inr ord" using assms(7) InnerJoin by simp
    show ?thesis using realizes_nested [OF lawful tl tr o left right pair on, where keep = False] by (simp add: InnerJoin ordered_join_def nested_joins)
  next
    case CrossJoin
    have o: "join_ordering ol ro = Inr ord" using assms(7) CrossJoin by simp
    show ?thesis
      using realizes_nested [OF lawful tl tr o left right pair, where keep = False and on = "\<lambda>_ _. True" and on' = "\<lambda>_ _. True"]
      by (simp add: CrossJoin ordered_join_def nested_joins)
  next
    case LeftJoin
    have o: "join_ordering ol ro = Inr ord" using assms(7) LeftJoin by simp
    show ?thesis using realizes_nested [OF lawful tl tr o left right pair on, where keep = True] by (simp add: LeftJoin ordered_join_def nested_joins)
  next
    case RightJoin
    have o: "join_ordering ro ol = Inr ord" using assms(7) RightJoin by simp
    show ?thesis
      using realizes_nested [OF lawful tr tl o, where keep = True and mk = "\<lambda>b a. pair_row (out_ids ml) a b" and mk' = "\<lambda>b a. pair_row (out_ids l) a b"
          and on = "\<lambda>b a. joins E conds a b" and on' = "\<lambda>b a. joins E conds a b" and U = ?U] left right pair on
      by (simp add: RightJoin ordered_join_def nested_joins)
  qed (use t(3) in simp)
  have "ordering_value_columns ord \<in> {ordering_value_columns ol @ ordering_value_columns ro, ordering_value_columns ro @ ordering_value_columns ol}"
    using assms(7) realizes_total [OF tl] realizes_total [OF tr] join_ordering_wf [of ol ro] join_ordering_wf [of ro ol] by (auto split: if_splits)
  then have "ordering_referenced ord = ordering_referenced ol \<union> ordering_referenced ro"
    by (auto simp: ordering_referenced_def)
  then show "ordering_referenced ord \<subseteq> set (out_ids ?m)" using refs by auto
qed

lemma yields_join_pulled:
  assumes "ordered_engine E" "k0 \<le> k" "scoped (JoinNode l r conds ty True)" "ids_older k0 (JoinNode l r conds ty True)"
    and "pulled E k0 k l (ml, ol)" "pulled E k0 k r (mr, ro)"
  shows "yields E k0 k (join_pulled conds ty True (ml, ol) (mr, ro)) (\<lambda>p k'. pulled E k0 k' (JoinNode l r conds ty True) p)"
  unfolding join_pulled_def split_conv
proof (rule yields_sbind [OF yields_resolve [OF assms(2) pulledD(1) [OF assms(5)] assms(6)]])
  show "set (out_ids l) \<inter> set (out_ids r) = {}" using assms(3) by simp
  show "ids_older k0 r" by (rule ids_older_child [OF assms(4)]) simp
  fix p k1 assume k1: "k \<le> k1" "pulled E k0 k1 r p \<and> apart ml (fst p)"
  obtain mr1 or1 where p: "p = (mr1, or1)" by (cases p)
  have r1: "pulled E k0 k1 r (mr1, or1)" "apart ml mr1" "pulled E k0 k1 l (ml, ol)"
    using k1 p pulled_mono [OF assms(5) k1(1)] by simp_all
  have k01: "k0 \<le> k1" using assms(2) k1(1) by simp
  show "yields E k0 k1 (case p of (right_child, right_order) \<Rightarrow>
     sbind (add_indicator (ty \<in> {RightJoin, OuterJoin}) ml ol) (\<lambda>(left_child, left_order).
     sbind (add_indicator (ty \<in> {LeftJoin, OuterJoin}) right_child right_order) (\<lambda>(right_child, right_order).
     sbind (lift (if ty \<noteq> RightJoin then join_ordering left_order right_order else join_ordering right_order left_order)) (\<lambda>new_order.
       lift (Inr (JoinNode left_child right_child conds ty True, new_order)))))) (\<lambda>p k'. pulled E k0 k' (JoinNode l r conds ty True) p)"
    unfolding p split_conv
  proof (rule yields_sbind [OF yields_add_indicator [OF assms(1) k01 r1(3)]])
    fix p k2 assume k2: "k1 \<le> k2" and q: "pulled E k0 k2 l p \<and> (\<forall>i \<in> set (out_ids (fst p)) - set (out_ids ml). \<not> older k1 i)"
    obtain ml2 ol2 where p: "p = (ml2, ol2)" by (cases p)
    have l2: "pulled E k0 k2 l (ml2, ol2)" "\<forall>i \<in> set (out_ids ml2) - set (out_ids ml). \<not> older k1 i" using q p by simp_all
    have r2: "pulled E k0 k2 r (mr1, or1)" by (rule pulled_mono [OF r1(1) k2])
    have apart2: "apart ml2 mr1"
      using r1(2) l2(2) grown_older [OF pulledD(1) [OF r1(1)]] unfolding apart_def by blast
    have k02: "k0 \<le> k2" using k01 k2 by simp
    show "yields E k0 k2 (case p of (left_child, left_order) \<Rightarrow>
     sbind (add_indicator (ty \<in> {LeftJoin, OuterJoin}) mr1 or1) (\<lambda>(right_child, right_order).
     sbind (lift (if ty \<noteq> RightJoin then join_ordering left_order right_order else join_ordering right_order left_order)) (\<lambda>new_order.
       lift (Inr (JoinNode left_child right_child conds ty True, new_order))))) (\<lambda>p k'. pulled E k0 k' (JoinNode l r conds ty True) p)"
      unfolding p split_conv
    proof (rule yields_sbind [OF yields_add_indicator [OF assms(1) k02 r2]])
      fix p k3 assume k3: "k2 \<le> k3" and q: "pulled E k0 k3 r p \<and> (\<forall>i \<in> set (out_ids (fst p)) - set (out_ids mr1). \<not> older k2 i)"
      obtain mr3 or3 where p: "p = (mr3, or3)" by (cases p)
      have r3: "pulled E k0 k3 r (mr3, or3)" "\<forall>i \<in> set (out_ids mr3) - set (out_ids mr1). \<not> older k2 i" using q p by simp_all
      have l3: "pulled E k0 k3 l (ml2, ol2)" by (rule pulled_mono [OF l2(1) k3])
      have apart3: "apart ml2 mr3"
        using apart2 r3(2) grown_older [OF pulledD(1) [OF l2(1)]] unfolding apart_def by blast
      show "yields E k0 k3 (case p of (right_child, right_order) \<Rightarrow>
         sbind (lift (if ty \<noteq> RightJoin then join_ordering ol2 right_order else join_ordering right_order ol2)) (\<lambda>new_order.
           lift (Inr (JoinNode ml2 right_child conds ty True, new_order)))) (\<lambda>p k'. pulled E k0 k' (JoinNode l r conds ty True) p)"
        unfolding p split_conv
        by (rule yields_sbind_lift, rule yields_return)
          (auto intro!: pulled_join [OF assms(1,3,4) _ _ apart3] intro: pulled_mono [OF l3] pulled_mono [OF r3(1)])
    qed
  qed
qed

end
