(* ===== verification/Order_Pulling.thy ===== *)
theory Order_Pulling
  imports Order_Joins
begin

text \<open>
  The sources and concatenations of \<^verbatim>\<open>core/rewrite/order.py\<close>, the induction over both of its functions,
  and what follows for a plan: \<^verbatim>\<open>defer_order\<close> keeps its result and \<^verbatim>\<open>bake_order\<close> its rows.
\<close>

subsection \<open>Stored tables\<close>

lemma fresh_scans_spec:
  "fresh_scans counter nms = (items, counter') \<Longrightarrow> counter \<le> counter' \<and> map source_id items = nms \<and> distinct (map scan_id items) \<and>
     (\<forall>i \<in> scan_id ` set items. older counter' i \<and> \<not> older counter i)"
proof (induction counter nms arbitrary: items counter' rule: fresh_scans.induct)
  case (2 counter nm nms)
  obtain rest where rest: "fresh_scans (Suc counter) nms = (rest, counter')" "items = ScanItem (guid_id (Suc counter)) nm # rest"
    using 2(2) by (auto simp: ColumnId_unique_eq split: prod.splits)
  have IH: "Suc counter \<le> counter' \<and> map source_id rest = nms \<and> distinct (map scan_id rest) \<and>
     (\<forall>i \<in> scan_id ` set rest. older counter' i \<and> \<not> older (Suc counter) i)"
    using 2(1) [of "guid_id (Suc counter)" "Suc counter" rest counter'] rest(1) by (simp add: ColumnId_unique_eq)
  moreover have "guid_id (Suc counter) \<notin> scan_id ` set rest"
  proof
    assume "guid_id (Suc counter) \<in> scan_id ` set rest"
    then have "\<not> older (Suc counter) (guid_id (Suc counter))" using IH by blast
    then show False by simp
  qed
  ultimately show ?case using rest(2) older_mono [of counter _ "Suc counter"] by auto
qed simp

lemma scan_row_item:
  assumes "distinct (map scan_id items)" "it \<in> set items"
  shows "scan_row items src (scan_id it) = src (source_id it)"
proof -
  have "dict_of (map (\<lambda>it. (scan_id it, source_id it)) items) (scan_id it) = Some (source_id it)"
    using assms by (intro dict_of_distinct) (auto simp: comp_def)
  then show ?thesis by (simp add: scan_row_def)
qed

lemma pulled_table:
  assumes "k0 \<le> k" "distinct (map scan_id items)" "\<And>i. i \<in> scan_id ` set items \<Longrightarrow> older k0 i" "source_orderly E src items"
    and "ReadTableNode_with_order_cols k src items = Inr ((items', ord), k')"
  shows "k \<le> k'" "grown k0 k' (map scan_id items) (map scan_id items')"
    "rows_agree (scan_id ` set items) (read_table E src items') (read_table E src items)"
    "table_ordered src \<Longrightarrow> realizes E ord (scan_id ` set items) (read_table E src items') (read_table E src items)"
    "table_ordered src \<Longrightarrow> ordering_referenced ord \<subseteq> scan_id ` set items'"
proof -
  obtain ord0 where ord0: "src_ordering src = Some ord0" using assms(5) by (auto simp: ReadTableNode_with_order_cols_def split: option.splits)
  define missing where "missing = filter (\<lambda>nm. nm \<in> id_sql ` ordering_referenced ord0 \<and> nm \<notin> set (map source_id items)) (physical_names (src_table src))"
  obtain new where new: "fresh_scans k missing = (new, k')" "items' = items @ new"
    and ord: "ordering_remap_refs (dict_of (map (\<lambda>item. (ColumnId (source_id item), scan_id item)) new)) True ord0 = Inr ord"
    using assms(5) by (auto simp: ReadTableNode_with_order_cols_def ord0 Let_def missing_def rbind_eq_Inr_iff split: prod.splits)
  let ?map = "dict_of (map (\<lambda>item. (ColumnId (source_id item), scan_id item)) new)"
  note spec = fresh_scans_spec [OF new(1)]
  show "k \<le> k'" using spec by simp
  have fresh: "older k' i \<and> \<not> older k0 i" if "i \<in> scan_id ` set new" for i
    using spec that older_mono [OF _ assms(1)] by blast
  have own: "older k' i" if "i \<in> scan_id ` set items" for i
    using assms(3) [OF that] older_mono [of k0 i k'] assms(1) spec by simp
  show "grown k0 k' (map scan_id items) (map scan_id items')"
    using fresh own by (auto simp: grown_def new(2))
  have dist: "distinct (map scan_id items')"
    using assms(2) spec fresh assms(3) by (auto simp: new(2))
  have agree: "agree (scan_id ` set items) (scan_row items' r) (scan_row items r)" for r
    using scan_row_item [OF dist, of _ r] scan_row_item [OF assms(2), of _ r] by (auto simp: agree_def new(2))
  show rows: "rows_agree (scan_id ` set items) (read_table E src items') (read_table E src items)"
    unfolding read_table_def by (rule rows_agreeI) (simp_all add: agree)
  assume "table_ordered src"
  then have total: "is_total_ordering ord0" by (simp add: table_ordered_def ord0)
  have source: "arranged E ord0 (map source_row (table_rows E src))"
    using assms(4) total ord0 unfolding source_orderly_def by blast
  have refs: "c = ColumnId (id_sql c)" "id_sql c \<in> set (physical_names (src_table src))"
      "id_sql c \<in> set (map source_id items) \<Longrightarrow> (c, id_sql c) \<in> set (map (\<lambda>it. (scan_id it, source_id it)) items)"
    if "c \<in> ordering_referenced ord0" for c
    using assms(4) total ord0 that unfolding source_orderly_def by blast+
  have scanned: "\<exists>it \<in> set items'. scan_id it = get_or_self ?map c \<and> source_id it = id_sql c" if c: "c \<in> ordering_referenced ord0" for c
  proof (cases "id_sql c \<in> set (map source_id items)")
    case True
    have "?map c = None"
    proof (rule ccontr)
      assume "?map c \<noteq> None"
      then have "c \<in> dom ?map" by blast
      then obtain it where "it \<in> set new" "c = ColumnId (source_id it)" unfolding dom_dict_of by auto
      then have "id_sql c \<in> set missing" using spec by (metis id_sql.simps(1) image_eqI list.set_map)
      with True show False by (simp add: missing_def)
    qed
    then show ?thesis using refs(3) [OF c True] by (force simp: new(2))
  next
    case False
    then have "id_sql c \<in> set missing" using refs(2) [OF c] c by (auto simp: missing_def)
    then obtain it where "it \<in> set new" "source_id it = id_sql c" using spec by (metis imageE list.set_map)
    then have "c \<in> dom ?map"
      unfolding dom_dict_of set_map image_image fst_conv using refs(1) [OF c] by (intro image_eqI [of _ _ it]) simp_all
    then obtain i where i: "?map c = Some i" by blast
    then obtain it where "it \<in> set new" "c = ColumnId (source_id it)" "i = scan_id it" using dict_of_SomeD [OF i] by auto
    with i show ?thesis by (metis UnCI get_or_self_Some id_sql.simps(1) new(2) set_append)
  qed
  let ?f = "\<lambda>r. scan_row items' (\<lambda>nm. r (ColumnId nm))"
  have keep: "?f r (get_or_self ?map c) = r c" if "c \<in> ordering_referenced ord0" for r c
    using scanned [OF that] scan_row_item [OF dist, of _ "\<lambda>nm. r (ColumnId nm)"] refs(1) [OF that] by fastforce
  have "arranged E ord (map ?f (map source_row (table_rows E src)))"
    by (rule arranged_rename [OF source ord]) (rule keep)
  moreover have "map ?f (map source_row (table_rows E src)) = read_table E src items'"
    by (simp add: read_table_def source_row_def)
  ultimately show "realizes E ord (scan_id ` set items) (read_table E src items') (read_table E src items)"
    using rows by (intro realizesI [OF refl]) auto
  have "ordering_referenced ord = get_or_self ?map ` ordering_referenced ord0" by (rule ordering_remap_referenced [OF ord])
  then show "ordering_referenced ord \<subseteq> scan_id ` set items'" using scanned by force
qed

lemma yields_table:
  assumes "k0 \<le> k" "distinct (map scan_id items)" "\<And>i. i \<in> scan_id ` set items \<Longrightarrow> older k0 i" "source_orderly E src items"
    and "\<And>items. rows E (node src items sess) = read_table E src items" "\<And>items. out_ids (node src items sess) = map scan_id items"
    and "has_total_order (node src items sess) = table_ordered src"
  shows "yields E k0 k (pull_order_table node src items sess) (\<lambda>p k'. pulled E k0 k' (node src items sess) p)"
  unfolding yields_def
proof (intro allI impI)
  fix s x s' assume s: "sound_state E k0 s" "k \<le> id_counter s" and run: "pull_order_table node src items sess s = Inr (x, s')"
  show "sound_state E k0 s' \<and> id_counter s \<le> id_counter s' \<and> pulled E k0 (id_counter s') (node src items sess) x"
  proof (cases "src_ordering src")
    case None
    then have x: "x = (node src items sess, RowOrdering [] no_encoding)" "s' = s" using run by (simp_all add: pull_order_table_def)
    have "older (id_counter s) i" if "i \<in> scan_id ` set items" for i
      using assms(1) assms(3) [OF that] older_mono [of k0 i "id_counter s"] s(2) by simp
    then have "pulled E k0 (id_counter s) (node src items sess) x"
      unfolding x using None assms(7) by (intro pulledI) (auto simp: assms(5,6) table_ordered_def reordered_mset intro: grown_refl)
    then show ?thesis using s(1) x by simp
  next
    case (Some ord0)
    then obtain items' ord k' where t: "ReadTableNode_with_order_cols (id_counter s) src items = Inr ((items', ord), k')"
      "x = (node src items' sess, ord)" "s' = s\<lparr>id_counter := k'\<rparr>"
      using run by (auto simp: pull_order_table_def rbind_eq_Inr_iff)
    note table = pulled_table [OF order_trans [OF assms(1) s(2)] assms(2,3,4) t(1)]
    have "pulled E k0 k' (node src items sess) x"
      unfolding t(2) using table(2-5) assms(7) by (intro pulledI) (auto simp: assms(5,6) reordered_agree)
    then show ?thesis using table(1) sound_state_counter [OF s(1) table(1)] t(3) by simp
  qed
qed

subsection \<open>Explosions\<close>

lemma yields_explode:
  assumes "k0 \<le> k" "scoped (ExplodeNode c cols off)" "ids_older k0 (ExplodeNode c cols off)" "pulled E k0 k c (mc, oc)"
  shows "yields E k0 k (pull_order_explode cols off (mc, oc)) (\<lambda>p k'. pulled E k0 k' (ExplodeNode c cols off) p)"
  unfolding pull_order_explode_def split_conv
proof (rule yields_sbind)
  let ?n = "ExplodeNode c cols off"
  let ?Q = "\<lambda>i k'. older k' i \<and> (off = Some i \<or> off = None \<and> \<not> older k i)"
  show "yields E k0 k (case off of None \<Rightarrow> fresh_id | Some i \<Rightarrow> lift (Inr i)) ?Q"
  proof (cases off)
    case None
    then show ?thesis using yields_mono [OF yields_fresh_id, of k ?Q] by simp
  next
    case (Some i)
    then show ?thesis
      using ids_older_out [OF assms(3), of i] older_mono [OF _ order_trans [OF assms(1)]] by (auto intro!: yields_return)
  qed
  fix i k1 assume k1: "k \<le> k1" and i: "?Q i k1"
  show "yields E k0 k1 (sbind (lift (from_offset_col i)) (\<lambda>inner_order. sbind (lift (join_ordering oc inner_order)) (\<lambda>new_order.
       lift (Inr (ExplodeNode mc cols (Some i), new_order))))) (\<lambda>p k'. pulled E k0 k' ?n p)"
  proof (rule yields_sbind_lift, rule yields_sbind_lift, rule yields_return, rule pulledI)
    fix ord k2 ord' k3 k4 assume k: "k1 \<le> k2" "k2 \<le> k3" "k3 \<le> k4"
    note c = pulledD [OF assms(4)]
    let ?m = "ExplodeNode mc cols (Some i)"
    have cols: "set (map ref_id cols) \<subseteq> set (out_ids c)" using assms(2) by simp
    have ids: "older k4 j" if "j \<in> set (out_ids ?n)" for j
      using ids_older_out [OF assms(3) that] older_mono [of k0 j k4] assms(1) k k1 by simp
    have old: "older k4 i" using i older_mono [of k1 i k4] k by simp
    have hidden: "\<not> older k0 i" if "off = None" using that i older_mono [OF _ assms(1)] by auto
    show "grown k0 k4 (out_ids ?n) (out_ids ?m)"
      using c(1) old ids hidden i older_mono [of k _ k4] k k1 by (auto simp: grown_def split: option.splits)
    show "reordered (set (out_ids ?n)) (rows E ?m) (rows E ?n)"
    proof (cases off)
      case None
      then have "\<not> older k i" using i by simp
      then have "i \<notin> set (out_ids c)" using c(1) grown_older [of k0 k "out_ids c" "out_ids mc" i] by (auto simp: grown_def)
      then show ?thesis using reordered_explode_offsets [OF c(2) cols] None by simp
    next
      case (Some j)
      then show ?thesis using reordered_explode [OF c(2) cols, of "Some j"] i by simp
    qed
  qed simp_all
qed

subsection \<open>Identity selections\<close>

lemma identity_selection_rows:
  assumes "identity_selection m n = Inr x" "set (out_ids n) \<subseteq> set (out_ids m)"
  shows "out_ids x = out_ids n" "rows_agree (set (out_ids n)) (rows E x) (rows E m)"
proof -
  have x: "x = SelectionNode m (map AliasedRef_identity (out_ids n))"
    using assms(1) by (auto simp: identity_selection_def rbind_eq_Inr_iff dest!: ids_out_ids)
  then show "out_ids x = out_ids n" by (simp add: AliasedRef_identity_def comp_def)
  show "rows_agree (set (out_ids n)) (rows E x) (rows E m)"
    using x by (auto intro!: rows_agreeI simp: agree_def select_identity)
qed

lemma yields_strictly:
  assumes "yields E k0 k m (\<lambda>x k'. removed E k0 k' n x)"
  shows "yields E k0 k (strictly n m) (\<lambda>x k'. out_ids x = out_ids n \<and> reordered (set (out_ids n)) (rows E x) (rows E n))"
  unfolding strictly_def
proof (rule yields_sbind [OF assms], rule yields_lift)
  fix x k1 y k2 assume r: "removed E k0 k1 n x" and y: "identity_selection x n = Inr y"
  have sub: "set (out_ids n) \<subseteq> set (out_ids x)" using removedD(1) [OF r] by (simp add: grown_def)
  have "reordered (set (out_ids n)) (rows E y) (rows E x)" using identity_selection_rows(2) [OF y sub] by (rule reordered_agree)
  then have "reordered (set (out_ids n)) (rows E y) (rows E n)" by (rule reordered_trans) (rule removedD(3) [OF r])
  with identity_selection_rows(1) [OF y sub] show "out_ids y = out_ids n \<and> reordered (set (out_ids n)) (rows E y) (rows E n)" by simp
qed

subsection \<open>Concatenations\<close>

definition concat_input :: "engine \<Rightarrow> int \<Rightarrow> bfnode \<Rightarrow> bfnode \<Rightarrow> bool" where
  "concat_input E i n m \<longleftrightarrow> (\<exists>zs t u. mset zs = mset (rows E m) \<and> rows_agree (set (out_ids n)) zs (rows E n) \<and>
     numbered E t u i zs \<and> out_ids m = out_ids n @ [t, u])"

lemma eval_index: "eval E r (const (IntV i) None) = IntS i"
  by (simp add: const_def)

lemma encoded_column:
  assumes "arranged E ord zs" "is_encoded (int_encoding ord)" "total_order_col ord = Some p"
  shows "\<exists>c. p = ascending_over c True \<and> strict E [ascending_over c True] zs \<and> c \<in> ordering_referenced ord"
  using assms by (cases ord) (auto simp: encoded_def ascending_over_def ordering_referenced_def referenced_columns_def split: list.splits)

lemma yields_concat_source:
  assumes "ordered_engine E" "k0 \<le> k" "ids_older k0 n" "has_total_order n" "pulled E k0 k n (m, ord)"
  shows "yields E k0 k (concat_source i n (m, ord)) (\<lambda>x k'. concat_input E i n x)"
  unfolding concat_source_def split_conv
proof (rule yields_sbind [OF yields_fresh_id], rule yields_sbind [OF yields_fresh_id], rule yields_sbind_lift, rule yields_sbind_lift, rule yields_return)
  fix u k1 t k2 x k3 "is" k4 k5
  assume u: "u = guid_id k1 \<and> k < k1" and t: "t = guid_id k2 \<and> k1 < k2" and nis: "ids n = Inr is"
    and x: "(if is_total_ordering ord \<and> is_encoded (int_encoding ord)
       then case total_order_col ord of None \<Rightarrow> Inl AssertionError
            | Some order_expression \<Rightarrow> Inr (ProjectionNode m [(scalar_expression order_expression, u)])
       else Inr (row_number u ord m)) = Inr x"
  note c = pulledD [OF assms(5)]
  obtain zs where zs: "mset zs = mset (rows E m)" "rows_agree (set (out_ids n)) zs (rows E n)" "arranged E ord zs"
    using c(3) [OF assms(4)] by (auto simp: realizes_def)
  have ids: "is = out_ids n" by (rule ids_out_ids [OF nis])
  have older_ids: "older k j" if "j \<in> set (out_ids n)" for j
    using ids_older_out [OF assms(3) that] older_mono [OF _ assms(2)] by blast
  have fresh: "u \<notin> set (out_ids n)" "t \<notin> set (out_ids n)" "t \<noteq> u"
    using older_ids [of u] older_ids [of t] u t by auto
  have "u \<notin> ordering_referenced ord"
    using c(4) [OF assms(4)] grown_older [OF c(1), of u] u by auto
  \<comment> \<open>the rows with their offsets, strictly sorted by them\<close>
  obtain ws where ws: "mset ws = mset (rows E x)" "rows_agree (- {u}) ws zs" "strict E [ascending_over u True] ws"
  proof (cases "is_total_ordering ord \<and> is_encoded (int_encoding ord)")
    case True
    then obtain p where p: "total_order_col ord = Some p" "x = ProjectionNode m [(scalar_expression p, u)]"
      using x by (auto split: option.splits)
    then obtain col where col: "p = ascending_over col True" "strict E [ascending_over col True] zs"
      using encoded_column [OF zs(3) _ p(1)] True by auto
    let ?f = "project_row E [(Deref (DerefOp col), u)]"
    have f: "?f r j = (if j = u then r col else r j)" for r j by (simp add: project_row_def dict_of_Cons)
    have "strict E [ascending_over u True] (map ?f zs)"
      using col(2) by (subst strict_map [where ps = "[ascending_over col True]"]) (simp_all add: row_compare_single f ascending_over_def part_compare_def)
    moreover have "rows_agree (- {u}) (map ?f zs) zs" by (rule rows_agreeI) (auto simp: agree_def f)
    moreover have "mset (map ?f zs) = mset (rows E x)" by (simp add: p(2) col(1) ascending_over_def zs(1))
    ultimately show thesis using that by blast
  next
    case False
    then have "mset (promote_offsets u zs) = mset (rows E x)"
      using x mset_row_number [OF assms(1) zs(3,1)] by (auto simp: row_number_def)
    moreover obtain o' where o': "from_offset_col u = Inr o'" using from_offset_col_wf by blast
    moreover have "strict E [ascending_over u True] (promote_offsets u zs)"
      using arranged_strict [OF arranged_promote [OF assms(1) o']] o' by (auto simp: from_offset_col_def mk_total_def split: if_splits)
    ultimately show thesis using that promote_base by blast
  qed
  let ?m = "SelectionNode (ProjectionNode x [(const (IntV i) None, t)]) (map AliasedRef_identity (is @ [t, u]))"
  define f where "f r = select_row (map AliasedRef_identity (is @ [t, u])) (project_row E [(const (IntV i) None, t)] r)" for r
  have f: "f r j = (if j = t then IntS i else r j)" if "j \<in> set (out_ids n) \<union> {t, u}" for r j
    using that unfolding f_def by (subst select_identity) (auto simp: ids project_row_def dict_of_Cons eval_index)
  have "rows E ?m = map f (rows E x)" by (simp add: comp_def f_def)
  then have "mset (map f ws) = mset (rows E ?m)" using ws(1) by (metis mset_map)
  moreover have "rows_agree (set (out_ids n)) (map f ws) (rows E n)"
  proof (rule rows_agree_trans [OF _ zs(2)], rule rows_agreeI)
    fix j assume j: "j < length (map f ws)"
    then have "agree (- {u}) (ws ! j) (zs ! j)" using rows_agree_nth [OF ws(2), of j] by simp
    then show "agree (set (out_ids n)) (map f ws ! j) (zs ! j)" using j f fresh by (auto simp: agree_def)
  qed (simp add: rows_agree_length [OF ws(2)])
  moreover have "numbered E t u i (map f ws)"
    unfolding numbered_def
  proof
    have u': "f r u = r u" for r using f [of u r] fresh(3) by simp
    show "strict E [ascending_over u True] (map f ws)"
      using ws(3) by (subst strict_map [where ps = "[ascending_over u True]"]) (simp_all add: row_compare_single ascending_over_def u' part_compare_def)
    show "\<forall>r \<in> set (map f ws). r t = IntS i" using f [of t] by auto
  qed
  ultimately show "concat_input E i n ?m"
    unfolding concat_input_def
    by (intro exI [of _ "map f ws"] exI [of _ t] exI [of _ u] conjI) (simp_all add: ids AliasedRef_identity_def comp_def)
qed

lemma concat_row_hidden:
  assumes "length is = length out" "a \<noteq> b"
  shows "concat_row (out @ [a, b]) (is @ [t, u]) r j = (if j = a then r t else if j = b then r u else concat_row out is r j)"
  using assms by (simp add: concat_row_def dict_of_append dict_of_Cons)

lemma concat_input_rows:
  assumes "concat_input E i n m" "length (out_ids n) = length out" "a \<noteq> b" "a \<notin> set out" "b \<notin> set out"
  shows "\<exists>ws. mset ws = mset (map (concat_row (out @ [a, b]) (out_ids m)) (rows E m)) \<and> numbered E a b i ws \<and>
    rows_agree (set out) ws (map (concat_row out (out_ids n)) (rows E n))"
proof -
  obtain zs t u where zs: "mset zs = mset (rows E m)" "rows_agree (set (out_ids n)) zs (rows E n)" "numbered E t u i zs" "out_ids m = out_ids n @ [t, u]"
    using assms(1) unfolding concat_input_def by blast
  let ?f = "concat_row (out @ [a, b]) (out_ids m)"
  have f: "?f r j = (if j = a then r t else if j = b then r u else concat_row out (out_ids n) r j)" for r j
    unfolding zs(4) by (rule concat_row_hidden [OF assms(2,3)])
  have "mset (map ?f zs) = mset (map ?f (rows E m))" using zs(1) by simp
  moreover have "strict E [ascending_over b True] (map ?f zs)"
    using zs(3) assms(3) unfolding numbered_def
    by (subst strict_map [where ps = "[ascending_over u True]"]) (simp_all add: row_compare_single ascending_over_def f part_compare_def)
  then have "numbered E a b i (map ?f zs)" using zs(3) by (simp add: numbered_def f)
  moreover have "rows_agree (set out) (map ?f zs) (map (concat_row out (out_ids n)) (rows E n))"
  proof (rule rows_agree_map [OF zs(2)])
    fix r s assume "agree (set (out_ids n)) r s"
    then have "concat_row out (out_ids n) r = concat_row out (out_ids n) s" by (rule concat_row_agree)
    then show "agree (set out) (?f r) (concat_row out (out_ids n) s)" using assms(4,5) f by (auto simp: agree_def)
  qed
  ultimately show ?thesis by blast
qed

lemma concat_inputs_rows:
  assumes "length ms = length cs" "\<And>j. j < length cs \<Longrightarrow> concat_input E (i + int j) (cs ! j) (ms ! j)"
    and "\<And>c. c \<in> set cs \<Longrightarrow> length (out_ids c) = length out" "a \<noteq> b" "a \<notin> set out" "b \<notin> set out"
  shows "\<exists>wss. length wss = length cs \<and> (\<forall>j < length wss. numbered E a b (i + int j) (wss ! j)) \<and>
    mset (concat wss) = mset (rows E (ConcatNode ms (out @ [a, b]))) \<and> rows_agree (set out) (concat wss) (rows E (ConcatNode cs out))"
  using assms(1-3)
proof (induction ms cs arbitrary: i rule: list_induct2)
  case Nil
  show ?case by simp
next
  case (Cons m ms c cs)
  obtain ws where ws: "mset ws = mset (map (concat_row (out @ [a, b]) (out_ids m)) (rows E m))" "numbered E a b i ws"
      "rows_agree (set out) ws (map (concat_row out (out_ids c)) (rows E c))"
    using concat_input_rows [OF _ _ assms(4-6), of E i c m] Cons.prems(1) [of 0] Cons.prems(2) [of c] by auto
  obtain wss where wss: "length wss = length cs" "\<forall>j < length wss. numbered E a b (i + 1 + int j) (wss ! j)"
      "mset (concat wss) = mset (rows E (ConcatNode ms (out @ [a, b])))" "rows_agree (set out) (concat wss) (rows E (ConcatNode cs out))"
    using Cons.IH [of "i + 1"] Cons.prems(1) [of "Suc j" for j] Cons.prems(2) by (auto simp: add.assoc)
  have "numbered E a b (i + int j) ((ws # wss) ! j)" if "j < length (ws # wss)" for j
    using that ws(2) wss(2) by (cases j) (auto simp: algebra_simps)
  moreover have "rows_agree (set out) (concat (ws # wss)) (rows E (ConcatNode (c # cs) out))"
    using ws(3) wss(4) by (auto simp: rows_agree_def intro: list_all2_appendI)
  moreover have "mset (concat (ws # wss)) = mset (rows E (ConcatNode (m # ms) (out @ [a, b])))"
    using ws(1) wss(3) by simp
  ultimately show ?case using wss(1) by (intro exI [of _ "ws # wss"]) simp
qed

lemma yields_concat:
  assumes "ordered_engine E" "k0 \<le> k" "scoped (ConcatNode cs out)" "ids_older k0 (ConcatNode cs out)"
    and "length ms = length cs" "\<And>j. j < length cs \<Longrightarrow> concat_input E (int j) (cs ! j) (ms ! j)"
  shows "yields E k0 k (concat_pulled ms out) (\<lambda>p k'. pulled E k0 k' (ConcatNode cs out) p)"
  unfolding concat_pulled_def
proof (rule yields_sbind [OF yields_fresh_id], rule yields_sbind [OF yields_fresh_id], rule yields_sbind_lift, rule yields_return)
  fix b k1 a k2 ord k3 k4 assume k: "k \<le> k1" "k1 \<le> k2" "k2 \<le> k3" "k3 \<le> k4"
    and b: "b = guid_id k1 \<and> k < k1" and a: "a = guid_id k2 \<and> k1 < k2" and ord: "from_primary_key [a, b] = Inr ord"
  let ?n = "ConcatNode cs out" and ?m = "ConcatNode ms (out @ [a, b])"
  have len: "length (out_ids c) = length out" if "c \<in> set cs" for c using that assms(3) by (simp add: list_all_iff)
  have "cs \<noteq> []" using assms(3) by simp
  then obtain c cs' where cs: "cs = c # cs'" by (cases cs) auto
  obtain m ms' where ms: "ms = m # ms'" using assms(5) cs by (cases ms) auto
  have ids: "out_ids ?n = out" using len [of c] by (simp add: cs map_fst_zip_take)
  obtain zs t u where "out_ids m = out_ids c @ [t, u]"
    using assms(6) [of 0] by (auto simp: cs ms concat_input_def)
  then have mids: "out_ids ?m = out @ [a, b]" using len [of c] by (simp add: ms cs map_fst_zip_take)
  have own: "older k0 j" if "j \<in> set out" for j by (rule ids_older_out [OF assms(4), unfolded ids, OF that])
  have fresh: "a \<noteq> b" "\<not> older k0 a" "\<not> older k0 b" "older k4 a" "older k4 b" using a b assms(2) k by auto
  then have notin: "a \<notin> set out" "b \<notin> set out" using own by blast+
  have "older k4 j" if "j \<in> set out" for j using own [OF that] older_mono [of k0 j k4] assms(2) k by simp
  then have grown: "grown k0 k4 (out_ids ?n) (out_ids ?m)" unfolding ids mids using fresh by (auto simp: grown_def)
  have "concat_input E (0 + int j) (cs ! j) (ms ! j)" if "j < length cs" for j using assms(6) [OF that] by simp
  then obtain wss where wss: "length wss = length cs" "\<forall>j < length wss. numbered E a b (0 + int j) (wss ! j)"
      "mset (concat wss) = mset (rows E ?m)" "rows_agree (set out) (concat wss) (rows E ?n)"
    using concat_inputs_rows [OF assms(5) _ len fresh(1) notin] by blast
  have "arranged E ord (concat wss)"
    by (rule arranged_numbered [OF assms(1) _ ord]) (use wss(2) in simp)
  then have total: "realizes E ord (set (out_ids ?n)) (rows E ?m) (rows E ?n)"
    unfolding ids using wss(3,4) by (intro realizesI)
  have "ordering_referenced ord \<subseteq> set (out_ids ?m)"
    unfolding mids using ord by (auto simp: from_primary_key_def mk_total_def ordering_referenced_def referenced_columns_def ascending_over_def split: if_splits)
  then show "pulled E k0 k4 ?n (?m, ord)"
    using grown total by (intro pulledI realizes_reordered [OF total])
qed

subsection \<open>Children without their order\<close>

lemma removed_transform:
  assumes "ordered_engine E" "k0 \<le> k" "scoped n" "ids_older k0 n" "orderly E n"
    and "\<And>c. c \<in> set (child_nodes n) \<Longrightarrow> removed E k0 k c (t c)"
    and "\<And>c parts tot. n \<noteq> OrderByNode c parts tot" "\<And>c rv. n \<noteq> ReversedNode c rv" "\<And>c i. n \<noteq> PromoteOffsetsNode c i"
    and "\<And>c ds w. n = WindowOpNode c ds w \<Longrightarrow> WindowOpNode_inherits_order ds w = Inr False"
    and "\<And>c aggs ks os dn. n = AggregateNode c aggs ks os dn \<Longrightarrow> AggregateNode_has_ordered_ops aggs = Inr False"
  shows "removed E k0 k n (transform_children t n)"
proof -
  have own: "older k j" if "j \<in> set (out_ids n)" for j
    using ids_older_out [OF assms(4) that] older_mono [OF _ assms(2)] by blast
  show ?thesis
  proof (cases n)
    case (InNode l r x i)
    note l = removedD [OF assms(6) [of l]] and r = removedD [OF assms(6) [of r]]
    define f where "f = (\<lambda>a :: row. a(i := BoolS (list_ex (\<lambda>s. case out_ids r of [] \<Rightarrow> False | j # _ \<Rightarrow> equal_keys E (a (ref_id x)) (s j)) (rows E r))))"
    have ids: "out_ids (t r) = out_ids r" using r(2) assms(5) by (simp add: InNode)
    have rows: "rows E (InNode (t l) (t r) x i) = map f (rows E (t l))" "rows E n = map f (rows E l)"
      using isin_right [of "set (out_ids r)" "rows E (t r)" "rows E r" "out_ids r" E x i "rows E (t l)"] r(3)
      by (simp_all add: InNode ids isin_rows_def f_def)
    have f: "agree (set (out_ids l)) a b \<Longrightarrow> agree (set (out_ids n)) (f a) (f b)" for a b
      using assms(3) by (auto simp: agree_def f_def InNode split: list.split)
    have "reordered (set (out_ids n)) (rows E (InNode (t l) (t r) x i)) (rows E n)"
      unfolding rows using reordered_map [of "set (out_ids l)" "rows E (t l)" "rows E l" "set (out_ids n)" f f] l(3) f by (simp add: InNode)
    then show ?thesis
      using l(1,2) own by (intro removedI) (auto simp: InNode intro!: grown_append)
  next
    case (JoinNode l r conds ty po)
    note l = removedD [OF assms(6) [of l]] and r = removedD [OF assms(6) [of r]]
    show ?thesis
      using reordered_join_nodes [OF assms(3) [unfolded JoinNode] assms(4) [unfolded JoinNode], of k "t l" E "t r"]
        grown_join [OF assms(4) [unfolded JoinNode], of k "t l" "t r"] l r
      unfolding JoinNode by (intro removedI) (auto simp: JoinNode)
  next
    case (ConcatNode cs out)
    have child: "out_ids (t c) = out_ids c \<and> reordered (set (out_ids c)) (rows E (t c)) (rows E c)" if "c \<in> set cs" for c
      using removedD [OF assms(6) [of c]] that assms(5) by (simp add: ConcatNode list_all_iff)
    have "out_ids (transform_children t n) = out_ids n"
      using child assms(3) by (cases cs) (auto simp: ConcatNode)
    moreover have "reordered UNIV (rows E (ConcatNode (map t cs) out)) (rows E (ConcatNode cs out))"
      by (rule reordered_concat_nodes) (use child in \<open>auto simp: list_all2_conv_all_nth\<close>)
    ultimately show ?thesis
      using own by (intro removedI) (auto simp: ConcatNode intro: grown_refl reordered_mono)
  next
    case (FromRangeNode s0 e0 st i)
    have "first_cell (out_ids (t c)) (rows E (t c)) = first_cell (out_ids c) (rows E c)" if "c = s0 \<or> c = e0" for c
      using removedD [OF assms(6) [of c]] that assms(5) by (intro first_cell_reordered) (auto simp: FromRangeNode)
    then show ?thesis
      using own by (intro removedI) (auto simp: FromRangeNode intro: grown_refl reordered_mset)
  next
    case (SelectionNode c pairs)
    note c = removedD [OF assms(6) [of c]]
    have "agree (set (out_ids n)) (select_row pairs a) (select_row pairs b)" if "agree (set (out_ids c)) a b" for a b
      using that select_row_dict [of pairs] assms(3) by (fastforce simp: agree_def SelectionNode list_all_iff)
    then have "reordered (set (out_ids n)) (map (select_row pairs) (rows E (t c))) (map (select_row pairs) (rows E c))"
      using c(3) by (intro reordered_map [of "set (out_ids c)"]) (auto simp: SelectionNode)
    then show ?thesis using own by (intro removedI) (auto simp: SelectionNode intro: grown_refl)
  next
    case (ProjectionNode c asg)
    note c = removedD [OF assms(6) [of c]]
    have "agree (set (out_ids n)) (project_row E asg a) (project_row E asg b)" if "agree (set (out_ids c)) a b" for a b
      using project_agree [of "set (out_ids c)" "[a]" "[b]" asg E] assms(3) that by (auto simp: rows_agree_def list_all_iff ProjectionNode)
    then have "reordered (set (out_ids n)) (map (project_row E asg) (rows E (t c))) (map (project_row E asg) (rows E c))"
      using c(3) by (intro reordered_map [of "set (out_ids c)"]) (auto simp: ProjectionNode)
    then show ?thesis using c(1,2) own by (intro removedI) (auto simp: ProjectionNode intro!: grown_append)
  next
    case (FilterNode c p)
    note c = removedD [OF assms(6) [of c]]
    have "(eval E a p = BoolS True) = (eval E b p = BoolS True)" if "agree (set (out_ids c)) a b" for a b
      using assms(3) eval_cong [of p "set (out_ids c)" a b E] that by (simp add: FilterNode)
    then have "reordered (set (out_ids c)) (filter_rows E p (rows E (t c))) (filter_rows E p (rows E c))"
      unfolding filter_rows_def using c(3) by (intro reordered_filter) (auto simp: FilterNode)
    then show ?thesis using c(1,2) by (intro removedI) (auto simp: FilterNode)
  next
    case (AggregateNode c aggs ks os dn)
    have "rows E (AggregateNode (t c) aggs ks os dn) = rows E n"
      unfolding AggregateNode
      using free_aggregate_rows [OF assms(1) assms(3) [unfolded AggregateNode] assms(11) [OF AggregateNode] assms(6) [of c]] by (simp add: AggregateNode)
    then show ?thesis using own by (intro removedI) (auto simp: AggregateNode intro: grown_refl reordered_mset)
  next
    case (WindowOpNode c ds w)
    note c = removedD [OF assms(6) [of c]] and w = scoped_window [OF assms(3) [unfolded WindowOpNode]]
    have "reordered (set (out_ids c) \<union> cdef_id ` set ds) (window_rows E w ds (rows E (t c))) (window_rows E w ds (rows E c))"
      using c(3) by (intro reordered_window [OF assms(1) inherits_order_False w(1)]) (use assms(10) in \<open>auto simp: WindowOpNode\<close>)
    then show ?thesis using c(1,2) own by (intro removedI) (auto simp: WindowOpNode intro!: grown_append)
  next
    case (ExplodeNode c cols off)
    note c = removedD [OF assms(6) [of c]]
    have "reordered (set (out_ids c) \<union> set_option off) (concat (map (explode_row (map ref_id cols) off) (rows E (t c))))
        (concat (map (explode_row (map ref_id cols) off) (rows E c)))"
      using c(3) assms(3) by (intro reordered_explode) (auto simp: ExplodeNode)
    then show ?thesis using c(1,2) own by (cases off; intro removedI) (auto simp: ExplodeNode intro!: grown_append)
  next
    case (CteNode c)
    then show ?thesis using removedD [OF assms(6) [of c]] by (intro removedI) auto
  qed (use assms(5,7-9) own in \<open>auto intro!: removedI grown_refl reordered_mset\<close>)
qed

subsection \<open>Both functions\<close>

lemma yields_thread:
  assumes "\<And>x k'. x \<in> set xs \<Longrightarrow> k \<le> k' \<Longrightarrow> yields E k0 k' (f x) (Q x)" "\<And>x y k k'. Q x y k \<Longrightarrow> k \<le> k' \<Longrightarrow> Q x y k'"
  shows "yields E k0 k (thread f xs) (\<lambda>ys k'. list_all2 (\<lambda>x y. Q x y k') xs ys)"
  using assms(1)
proof (induction xs arbitrary: k)
  case Nil
  show ?case by (simp add: yields_def)
next
  case (Cons x xs)
  have "yields E k0 k (sbind (f x) (\<lambda>y. sbind (thread f xs) (\<lambda>ys. lift (Inr (y # ys))))) (\<lambda>ys k'. list_all2 (\<lambda>x y. Q x y k') (x # xs) ys)"
  proof (rule yields_sbind [of E k0 k "f x" "Q x"])
    fix y k1 assume y: "k \<le> k1" "Q x y k1"
    show "yields E k0 k1 (sbind (thread f xs) (\<lambda>ys. lift (Inr (y # ys)))) (\<lambda>ys k'. list_all2 (\<lambda>x y. Q x y k') (x # xs) ys)"
    proof (rule yields_sbind [OF Cons.IH], rule Cons.prems)
      fix ys k2 assume k2: "k1 \<le> k2" "list_all2 (\<lambda>x y. Q x y k2) xs ys"
      show "yields E k0 k2 (lift (Inr (y # ys))) (\<lambda>ys k'. list_all2 (\<lambda>x y. Q x y k') (x # xs) ys)"
      proof (rule yields_return)
        fix k3 assume k3: "k2 \<le> k3"
        have "Q x y k3" by (rule assms(2) [OF y(2)]) (use k2(1) k3 in simp)
        moreover have "list_all2 (\<lambda>x y. Q x y k3) xs ys" using k2(2) by (rule list_all2_mono) (rule assms(2) [OF _ k3])
        ultimately show "list_all2 (\<lambda>x y. Q x y k3) (x # xs) (y # ys)" by simp
      qed
    qed (use y(1) in auto)
  qed (use Cons.prems in auto)
  then show ?case by (simp add: yields_def)
qed

lemma dict_of_zip_related:
  assumes "list_all2 R xs ys" "x \<in> set xs"
  shows "R x (get_or_self (dict_of (zip xs ys)) x)"
proof -
  have "x \<in> fst ` set (zip xs ys)"
    using assms list_all2_lengthD [OF assms(1)] by (metis list.set_map map_fst_zip)
  then obtain y where y: "dict_of (zip xs ys) x = Some y" by (metis dict_of_eq_None_iff not_None_eq)
  then show ?thesis using dict_of_SomeD [OF y] assms(1) by (auto simp: list_all2_iff get_or_self_def)
qed

lemma yields_transform:
  assumes "\<And>c k'. c \<in> set (child_nodes n) \<Longrightarrow> k \<le> k' \<Longrightarrow> yields E k0 k' (f c) (\<lambda>m k'. removed E k0 k' c m)"
    and "\<And>k' t. k \<le> k' \<Longrightarrow> (\<And>c. c \<in> set (child_nodes n) \<Longrightarrow> removed E k0 k' c (t c)) \<Longrightarrow> removed E k0 k' n (transform_children t n)"
  shows "yields E k0 k (transform_children_with f n) (\<lambda>m k'. removed E k0 k' n m)"
  unfolding transform_children_with_def
proof (rule yields_sbind [OF yields_thread [where Q = "\<lambda>c m k'. removed E k0 k' c m"]])
  fix ms k1 assume k1: "k \<le> k1" "list_all2 (\<lambda>c m. removed E k0 k1 c m) (child_nodes n) ms"
  show "yields E k0 k1 (lift (Inr (transform_children (get_or_self (dict_of (zip (child_nodes n) ms))) n))) (\<lambda>m k'. removed E k0 k' n m)"
  proof (rule yields_return)
    fix k2 assume k2: "k1 \<le> k2"
    show "removed E k0 k2 n (transform_children (get_or_self (dict_of (zip (child_nodes n) ms))) n)"
      using k1(1) k2 dict_of_zip_related [OF k1(2)] by (intro assms(2)) (auto intro: removed_mono)
  qed
qed (auto intro: assms(1) removed_mono)

definition handled :: "engine \<Rightarrow> nat \<Rightarrow> bfnode \<Rightarrow> bool" where
  "handled E k0 n \<longleftrightarrow> (\<forall>k \<ge> k0. yields E k0 k (pull_up_order_inner n) (\<lambda>p k'. pulled E k0 k' n p) \<and>
     yields E k0 k (remove_order n) (\<lambda>m k'. removed E k0 k' n m))"

lemma handledD:
  assumes "handled E k0 n" "k0 \<le> k"
  shows "yields E k0 k (pull_up_order_inner n) (\<lambda>p k'. pulled E k0 k' n p)" "yields E k0 k (remove_order n) (\<lambda>m k'. removed E k0 k' n m)"
  using assms by (simp_all add: handled_def)

lemma yields_eq: "(\<And>s. m s = m' s) \<Longrightarrow> yields E k0 k m' Q \<Longrightarrow> yields E k0 k m Q"
  by (simp add: yields_def)

text \<open>The pulled child, and what the step makes of it.\<close>

lemma yields_pulled_child:
  assumes "handled E k0 c" "k0 \<le> k"
    and "\<And>mc oc k'. k0 \<le> k' \<Longrightarrow> k \<le> k' \<Longrightarrow> pulled E k0 k' c (mc, oc) \<Longrightarrow> yields E k0 k' (f (mc, oc)) R"
  shows "yields E k0 k (sbind (pull_up_order_inner c) f) R"
proof (rule yields_sbind [OF handledD(1) [OF assms(1,2)]])
  fix x k' assume "k \<le> k'" "pulled E k0 k' c x"
  then show "yields E k0 k' (f x) R" using assms(2,3) by (cases x) simp
qed

lemma yields_removed_child:
  assumes "handled E k0 c" "k0 \<le> k" "\<And>mc k'. k0 \<le> k' \<Longrightarrow> removed E k0 k' c mc \<Longrightarrow> yields E k0 k' (f mc) R"
  shows "yields E k0 k (sbind (remove_order c) f) R"
  by (rule yields_sbind [OF handledD(2) [OF assms(1,2)]]) (use assms(2,3) in auto)

lemma yields_strict_child:
  assumes "handled E k0 c" "k0 \<le> k"
    and "\<And>mc k'. k0 \<le> k' \<Longrightarrow> k \<le> k' \<Longrightarrow> out_ids mc = out_ids c \<Longrightarrow> reordered (set (out_ids c)) (rows E mc) (rows E c) \<Longrightarrow> yields E k0 k' (f mc) R"
  shows "yields E k0 k (sbind (strictly c (remove_order c)) f) R"
  by (rule yields_sbind [OF yields_strictly [OF handledD(2) [OF assms(1,2)]]]) (use assms(2,3) in auto)

lemma older_refs: "scoped (OrderByNode c by tot) \<Longrightarrow> ids_older k0 (OrderByNode c by tot) \<Longrightarrow> k0 \<le> k \<Longrightarrow> \<forall>i \<in> parts_refs by. older k i"
  using ids_older_out [of k0 "OrderByNode c by tot"] older_mono [of k0 _ k] by auto

lemma yields_order_by:
  assumes "ordered_engine E" "handled E k0 c" "k0 \<le> k" "scoped (OrderByNode c by tot)" "ids_older k0 (OrderByNode c by tot)"
    and "orderly E (OrderByNode c by tot)"
  shows "yields E k0 k (pull_up_order_step (OrderByNode c by tot)) (\<lambda>p k'. pulled E k0 k' (OrderByNode c by tot) p)"
proof (cases tot)
  case True
  let ?n = "OrderByNode c by True"
  have "yields E k0 k (sbind (remove_order c) (\<lambda>child_result.
        sbind (project_parts child_result by) (\<lambda>(new_node, new_by, is).
        sbind (lift (mk_total new_by no_encoding (set is))) (\<lambda>new_order. lift (Inr (new_node, new_order)))))) (\<lambda>p k'. pulled E k0 k' ?n p)"
  proof (rule yields_removed_child [OF assms(2,3)])
    fix mc k1 assume k1: "k0 \<le> k1" "removed E k0 k1 c mc"
    show "yields E k0 k1 (sbind (project_parts mc by) (\<lambda>(new_node, new_by, is).
        sbind (lift (mk_total new_by no_encoding (set is))) (\<lambda>new_order. lift (Inr (new_node, new_order))))) (\<lambda>p k'. pulled E k0 k' ?n p)"
    proof (rule yields_sbind [OF yields_project_parts [OF older_refs [OF assms(4,5) k1(1)]]], clarify, rule yields_sbind_lift, rule yields_return)
      fix m new_by "is" k2 ord k3 k4 assume "k1 \<le> k2" "k2 \<le> k3" "k3 \<le> k4" "projected E k1 k2 mc by (m, new_by, is)"
        "mk_total new_by no_encoding (set is) = Inr ord"
      then show "pulled E k0 k4 ?n (m, ord)"
        using pulled_mono [OF pulled_order_by_total [OF ordered_engineD(1) [OF assms(1)] k1(1) _ _ _ k1(2)], of k2 "by" m new_by "is" ord k4] assms(4,6) True
        by simp
    qed
  qed
  then show ?thesis using True by (simp add: yields_def)
next
  case False
  let ?n = "OrderByNode c by False"
  have "yields E k0 k (sbind (pull_up_order_inner c) (\<lambda>(child_result, child_order).
        sbind (project_parts child_result by) (\<lambda>(new_node, new_by, is).
        sbind (lift (with_ordering_columns new_by child_order)) (\<lambda>new_order. lift (Inr (new_node, new_order)))))) (\<lambda>p k'. pulled E k0 k' ?n p)"
  proof (rule yields_pulled_child [OF assms(2,3)], unfold split_conv)
    fix mc oc k1 assume k1: "k0 \<le> k1" "pulled E k0 k1 c (mc, oc)"
    show "yields E k0 k1 (sbind (project_parts mc by) (\<lambda>(new_node, new_by, is).
        sbind (lift (with_ordering_columns new_by oc)) (\<lambda>new_order. lift (Inr (new_node, new_order))))) (\<lambda>p k'. pulled E k0 k' ?n p)"
    proof (rule yields_sbind [OF yields_project_parts [OF older_refs [OF assms(4,5) k1(1)]]], clarify, rule yields_sbind_lift, rule yields_return)
      fix m new_by "is" k2 ord k3 k4 assume "k1 \<le> k2" "k2 \<le> k3" "k3 \<le> k4" "projected E k1 k2 mc by (m, new_by, is)"
        "with_ordering_columns new_by oc = Inr ord"
      then show "pulled E k0 k4 ?n (m, ord)"
        using pulled_mono [OF pulled_order_by [OF ordered_engineD(1) [OF assms(1)] k1(1) _ _ k1(2)], of k2 "by" m new_by "is" ord k4] assms(4) False
        by simp
    qed
  qed
  then show ?thesis using False by (simp add: yields_def)
qed

lemma yields_concat_step:
  assumes "ordered_engine E" "k0 \<le> k" "scoped (ConcatNode cs out)" "ids_older k0 (ConcatNode cs out)" "orderly E (ConcatNode cs out)"
    and "\<And>c. c \<in> set cs \<Longrightarrow> handled E k0 c"
  shows "yields E k0 k (pull_up_order_step (ConcatNode cs out)) (\<lambda>p k'. pulled E k0 k' (ConcatNode cs out) p)"
proof -
  let ?f = "\<lambda>(i, source). sbind (pull_up_order_inner source) (concat_source (int i) source)"
  let ?Q = "\<lambda>(i :: nat, source) m (k' :: nat). concat_input E (int i) source m"
  have "yields E k0 k' (?f x) (?Q x)" if x: "x \<in> set (enumerate 0 cs)" and k': "k \<le> k'" for x k'
  proof -
    obtain i c where ic: "x = (i, c)" by (cases x)
    then have c: "c \<in> set cs" using x by (auto dest: enumerate_member)
    have t: "has_total_order c" using assms(5) c by (simp add: list_all_iff)
    have old: "ids_older k0 c" by (rule ids_older_child [OF assms(4)]) (simp add: c)
    have "k0 \<le> k'" using assms(2) k' by simp
    then show ?thesis
      unfolding ic split_conv
      by (rule yields_pulled_child [OF assms(6) [OF c]]) (rule yields_concat_source [OF assms(1) _ old t])
  qed
  then have th: "yields E k0 k (thread ?f (enumerate 0 cs)) (\<lambda>ms k'. list_all2 (\<lambda>x m. ?Q x m k') (enumerate 0 cs) ms)"
    by (rule yields_thread) auto
  have "yields E k0 k (sbind (thread ?f (enumerate 0 cs)) (\<lambda>new_sources. concat_pulled new_sources out)) (\<lambda>p k'. pulled E k0 k' (ConcatNode cs out) p)"
  proof (rule yields_sbind [OF th])
    fix ms k' assume k': "k \<le> k'" and ms: "list_all2 (\<lambda>x m. ?Q x m k') (enumerate 0 cs) ms"
    have len: "length ms = length cs" using list_all2_lengthD [OF ms] by simp
    have "concat_input E (int j) (cs ! j) (ms ! j)" if "j < length cs" for j
      using list_all2_nthD [OF ms, of j] that by (simp add: nth_enumerate_eq)
    then show "yields E k0 k' (concat_pulled ms out) (\<lambda>p k'. pulled E k0 k' (ConcatNode cs out) p)"
      using assms(2) k' by (intro yields_concat [OF assms(1) _ assms(3,4) len]) auto
  qed
  then show ?thesis by (simp add: yields_def)
qed

lemma yields_join_step:
  assumes "k0 \<le> k" "scoped (JoinNode l r conds ty po)" "ids_older k0 (JoinNode l r conds ty po)"
    and "handled E k0 l" "handled E k0 r" "ordered_engine E"
  shows "yields E k0 k (pull_up_order_step (JoinNode l r conds ty po)) (\<lambda>p k'. pulled E k0 k' (JoinNode l r conds ty po) p)"
proof (cases po)
  case False
  let ?n = "JoinNode l r conds ty False"
  have "yields E k0 k (sbind (strictly l (remove_order l)) (\<lambda>left_child. sbind (strictly r (remove_order r)) (\<lambda>right_child.
        lift (Inr (JoinNode left_child right_child conds ty False, RowOrdering [] no_encoding))))) (\<lambda>p k'. pulled E k0 k' ?n p)"
  proof (rule yields_strict_child [OF assms(4,1)], rule yields_strict_child [OF assms(5)], assumption, rule yields_return)
    fix ml k1 mr k2 k3 assume k: "k0 \<le> k1" "k0 \<le> k2" "k2 \<le> k3" and ml: "out_ids ml = out_ids l" "reordered (set (out_ids l)) (rows E ml) (rows E l)"
      and mr: "out_ids mr = out_ids r" "reordered (set (out_ids r)) (rows E mr) (rows E r)"
    have "older k3 j" if "j \<in> set (out_ids ?n)" for j
      using ids_older_out [OF assms(3)] that older_mono [of k0 j k3] k by simp
    then have grown: "grown k0 k3 (out_ids ?n) (out_ids ?n)" "grown k0 k3 (out_ids l) (out_ids ml)"
      by (auto simp: ml(1) intro!: grown_refl)
    have scoped: "scoped ?n" "ids_older k0 ?n" using assms(2,3) False by simp_all
    show "pulled E k0 k3 ?n (JoinNode ml mr conds ty False, RowOrdering [] no_encoding)"
      using grown(1) reordered_join_nodes [OF scoped grown(2) ml(2) mr(2)] by (intro pulledI) (simp_all add: ml(1) mr(1))
  qed
  then show ?thesis using False by (simp add: yields_def)
next
  case True
  let ?n = "JoinNode l r conds ty True"
  have "yields E k0 k (sbind (pull_up_order_inner l) (\<lambda>left. sbind (pull_up_order_inner r) (join_pulled conds ty True left))) (\<lambda>p k'. pulled E k0 k' ?n p)"
  proof (rule yields_pulled_child [OF assms(4,1)], rule yields_pulled_child [OF assms(5)], assumption)
    fix ml ol k1 mr ro k2 assume p: "k0 \<le> k1" "pulled E k0 k1 l (ml, ol)" "k0 \<le> k2" "k1 \<le> k2" "pulled E k0 k2 r (mr, ro)"
    show "yields E k0 k2 (join_pulled conds ty True (ml, ol) (mr, ro)) (\<lambda>p k'. pulled E k0 k' ?n p)"
      by (rule yields_join_pulled [OF assms(6) p(3) _ _ pulled_mono [OF p(2,4)] p(5)]) (use assms(2,3) True in simp_all)
  qed
  then show ?thesis using True by (simp add: yields_def)
qed

lemma yields_table_step:
  assumes "k0 \<le> k" "scoped n" "ids_older k0 n" "orderly E n"
    and "n = ReadTableNode src items sess \<and> node = ReadTableNode \<or>
      n = CachedTableNode src items sess orig \<and> node = (\<lambda>src items sess. CachedTableNode src items sess orig)"
  shows "yields E k0 k (pull_order_table node src items sess) (\<lambda>p k'. pulled E k0 k' n p)"
proof -
  have n: "n = node src items sess" using assms(5) by auto
  have own: "older k0 i" if "i \<in> scan_id ` set items" for i
    using ids_older_out [OF assms(3), of i] that assms(5) by auto
  show ?thesis
    unfolding n by (rule yields_table [OF assms(1) _ own]) (use assms(2,4,5) in auto)
qed

lemma yields_aggregate_step:
  assumes "ordered_engine E" "k0 \<le> k" "scoped (AggregateNode c aggs ks os dn)" "ids_older k0 (AggregateNode c aggs ks os dn)"
    and "orderly E (AggregateNode c aggs ks os dn)" "handled E k0 c"
  shows "yields E k0 k (pull_up_order_step (AggregateNode c aggs ks os dn)) (\<lambda>p k'. pulled E k0 k' (AggregateNode c aggs ks os dn) p)"
proof (rule yields_eq, rule pull_up_order_step.simps, rule yields_sbind_lift, rule yields_if)
  fix has_ordered_ops k1 assume k1: "k \<le> k1" and ops: "AggregateNode_has_ordered_ops aggs = Inr has_ordered_ops"
  let ?n = "AggregateNode c aggs ks os dn"
  have k01: "k0 \<le> k1" using assms(2) k1 by simp
  show "yields E k0 k1 (sbind (pull_up_order_inner c) (\<lambda>(child_result, child_order).
         sbind (lift (with_ordering_columns os child_order)) (\<lambda>new_order_by.
         sbind (lift (from_primary_key (map ref_id ks))) (\<lambda>new_order.
           lift (Inr (AggregateNode child_result aggs ks (ordering_value_columns new_order_by) dn, new_order)))))) (\<lambda>p k'. pulled E k0 k' ?n p)"
    if has_ordered_ops
  proof (rule yields_pulled_child [OF assms(6) k01], unfold split_conv, rule yields_sbind_lift, rule yields_sbind_lift, rule yields_return)
    fix mc oc k2 "by" k3 ord k4 k5 assume k: "k0 \<le> k2" "k2 \<le> k3" "k3 \<le> k4" "k4 \<le> k5" and c: "pulled E k0 k2 c (mc, oc)"
      and by': "with_ordering_columns os oc = Inr by" and ord: "from_primary_key (map ref_id ks) = Inr ord"
    have t: "has_total_order c" using assms(5) ops \<open>has_ordered_ops\<close> by simp
    have "k0 \<le> k5" using k by simp
    then show "pulled E k0 k5 ?n (AggregateNode mc aggs ks (ordering_value_columns by) dn, ord)"
      by (rule pulled_aggregate [OF assms(1) _ assms(3,4) ord]) (rule ordered_aggregate_rows [OF assms(1,3) t c by'])
  qed
  show "yields E k0 k1 (sbind (remove_order c) (\<lambda>child_result.
         sbind (lift (from_primary_key (map ref_id ks))) (\<lambda>new_order.
           lift (Inr (AggregateNode child_result aggs ks os dn, new_order))))) (\<lambda>p k'. pulled E k0 k' ?n p)"
    if "\<not> has_ordered_ops"
  proof (rule yields_removed_child [OF assms(6) k01], rule yields_sbind_lift, rule yields_return)
    fix mc k2 ord k3 k4 assume k: "k0 \<le> k2" "k2 \<le> k3" "k3 \<le> k4" and c: "removed E k0 k2 c mc"
      and ord: "from_primary_key (map ref_id ks) = Inr ord"
    have "k0 \<le> k4" using k by simp
    then show "pulled E k0 k4 ?n (AggregateNode mc aggs ks os dn, ord)"
      by (rule pulled_aggregate [OF assms(1) _ assms(3,4) ord])
        (rule free_aggregate_rows [OF assms(1,3) _ c], use ops \<open>\<not> has_ordered_ops\<close> in simp)
  qed
qed

lemma yields_pull_step:
  assumes "ordered_engine E" "k0 \<le> k" "scoped n" "ids_older k0 n" "orderly E n"
    and "\<And>c. c \<in> set (child_nodes n) \<Longrightarrow> handled E k0 c"
  shows "yields E k0 k (pull_up_order_step n) (\<lambda>p k'. pulled E k0 k' n p)"
proof (cases n)
  case (ReversedNode c rv)
  show ?thesis
    unfolding ReversedNode
    by (rule yields_eq, rule pull_up_order_step.simps, rule yields_pulled_child [OF _ assms(2)], use assms(6) ReversedNode in simp,
        unfold split_conv, rule yields_sbind_lift, rule yields_return)
      (auto intro: pulled_mono pulled_reverse [OF ordered_engineD(1) [OF assms(1)]])
next
  case (OrderByNode c "by" tot)
  then show ?thesis using yields_order_by [of E k0 c k "by" tot] assms by simp
next
  case (ProjectionNode c asg)
  show ?thesis
    unfolding ProjectionNode
  proof (rule yields_eq, rule pull_up_order_step.simps, rule yields_pulled_child [OF _ assms(2)])
    show "handled E k0 c" using assms(6) ProjectionNode by simp
    fix mc oc k' assume k': "k0 \<le> k'" and c: "pulled E k0 k' c (mc, oc)"
    show "yields E k0 k' (case (mc, oc) of (child_result, child_order) \<Rightarrow> lift (Inr (ProjectionNode child_result asg, child_order)))
        (\<lambda>p k'. pulled E k0 k' (ProjectionNode c asg) p)"
      using pulled_projection [OF k' _ _ c, of asg] assms(3,4) ProjectionNode by (auto intro!: yields_return intro: pulled_mono)
  qed
next
  case (JoinNode l r conds ty po)
  then show ?thesis using yields_join_step [of k0 k l r conds ty po E] assms by simp
next
  case (ConcatNode cs out)
  then show ?thesis using yields_concat_step [of E k0 k cs out] assms by simp
next
  case (FromRangeNode s0 e0 st i)
  have c: "handled E k0 s0" "handled E k0 e0" using assms(6) FromRangeNode by simp_all
  show ?thesis
    unfolding FromRangeNode
  proof (rule yields_eq, rule pull_up_order_step.simps, rule yields_strict_child [OF c(1) assms(2)], rule yields_strict_child [OF c(2)], assumption,
      rule yields_sbind_lift, rule yields_return)
    fix s1 k1 e1 k2 ord k3 k4 assume "k0 \<le> k2" "k2 \<le> k3" "k3 \<le> k4" "from_primary_key [i] = Inr ord"
    then show "pulled E k0 k4 (FromRangeNode s0 e0 st i) (FromRangeNode s0 e0 st i, ord)"
      using assms(4,5) FromRangeNode by (intro pulled_range [OF assms(1)]) simp_all
  qed
next
  case (ReadLocalNode d items sess off)
  then show ?thesis using yields_local [OF assms(1,2), of d items sess off] assms(4) by (simp add: yields_def)
next
  case (ReadTableNode src items sess)
  then show ?thesis using yields_table_step [OF assms(2-5), of src items sess ReadTableNode] by (simp add: yields_def)
next
  case (CachedTableNode src items sess orig)
  then show ?thesis
    using yields_table_step [OF assms(2-5), of src items sess "\<lambda>src items sess. CachedTableNode src items sess orig" orig]
    by (simp add: yields_def)
next
  case (PromoteOffsetsNode c i)
  show ?thesis
    unfolding PromoteOffsetsNode
  proof (rule yields_eq, rule pull_up_order_step.simps, rule yields_pulled_child [OF _ assms(2)])
    show "handled E k0 c" using assms(6) PromoteOffsetsNode by simp
    fix mc oc k' assume k': "k0 \<le> k'" and c: "pulled E k0 k' c (mc, oc)"
    show "yields E k0 k' (lift (pull_order_promote i (mc, oc))) (\<lambda>p k'. pulled E k0 k' (PromoteOffsetsNode c i) p)"
    proof (rule yields_lift)
      fix p k'' assume k: "k' \<le> k''" and p: "pull_order_promote i (mc, oc) = Inr p"
      then show "pulled E k0 k'' (PromoteOffsetsNode c i) p"
        using pulled_mono [OF pulled_promote [OF assms(1) k' _ _ _ c, of i "fst p" "snd p"] k] assms(3-5) PromoteOffsetsNode by simp
    qed
  qed
next
  case (FilterNode c q)
  show ?thesis
    unfolding FilterNode
  proof (rule yields_eq, rule pull_up_order_step.simps, rule yields_pulled_child [OF _ assms(2)], use assms(6) FilterNode in simp,
      unfold split_conv, rule yields_sbind_lift, rule yields_return)
    fix mc oc k1 ord k2 k3 assume k: "k1 \<le> k2" "k2 \<le> k3" and c: "pulled E k0 k1 c (mc, oc)" and ord: "with_non_sequential oc = Inr ord"
    show "pulled E k0 k3 (FilterNode c q) (FilterNode mc q, ord)"
      using pulled_mono [OF pulled_filter [OF _ c ord, of q], of k3] k assms(3) FilterNode by simp
  qed
next
  case (InNode l r x i)
  have c: "handled E k0 l" "handled E k0 r" using assms(6) InNode by simp_all
  show ?thesis
    unfolding InNode
  proof (rule yields_eq, rule pull_up_order_step.simps, rule yields_pulled_child [OF c(1) assms(2)], unfold split_conv,
      rule yields_strict_child [OF c(2)], assumption, rule yields_return)
    fix ml ol k1 mr k2 k3 assume k: "k0 \<le> k2" "k1 \<le> k2" "k2 \<le> k3" and l: "pulled E k0 k1 l (ml, ol)"
      and r: "out_ids mr = out_ids r" "reordered (set (out_ids r)) (rows E mr) (rows E r)"
    have "k0 \<le> k3" using k by simp
    moreover have "pulled E k0 k3 l (ml, ol)" using l k by (auto intro: pulled_mono)
    ultimately show "pulled E k0 k3 (InNode l r x i) (InNode ml mr x i, ol)"
      using assms(3,4) InNode r by (intro pulled_in) simp_all
  qed
next
  case (SelectionNode c pairs)
  show ?thesis
    unfolding SelectionNode
  proof (rule yields_eq, rule pull_up_order_step.simps, rule yields_pulled_child [OF _ assms(2)], use assms(6) SelectionNode in simp)
    fix mc oc k' assume k': "k0 \<le> k'" and c: "pulled E k0 k' c (mc, oc)"
    show "yields E k0 k' (pull_order_selection pairs (mc, oc)) (\<lambda>p k'. pulled E k0 k' (SelectionNode c pairs) p)"
      using assms(3,4) SelectionNode by (intro yields_selection [OF k' _ _ c]) simp_all
  qed
next
  case (AggregateNode c aggs ks os dn)
  then show ?thesis using yields_aggregate_step [of E k0 k c aggs ks os dn] assms by simp
next
  case (WindowOpNode c ds w)
  show ?thesis
    unfolding WindowOpNode
  proof (rule yields_eq, rule pull_up_order_step.simps, rule yields_pulled_child [OF _ assms(2)], use assms(6) WindowOpNode in simp,
      unfold split_conv, rule yields_sbind_lift, rule yields_return)
    fix mc oc k1 inherits k2 k3 assume k: "k0 \<le> k1" "k1 \<le> k2" "k2 \<le> k3" and c: "pulled E k0 k1 c (mc, oc)"
      and i: "WindowOpNode_inherits_order ds w = Inr inherits"
    show "pulled E k0 k3 (WindowOpNode c ds w) (WindowOpNode mc ds (if inherits then order_window w oc else w), oc)"
      using pulled_mono [OF pulled_window [OF assms(1) k(1) _ _ _ c i], of k3] k assms(3-5) WindowOpNode by simp
  qed
next
  case (ExplodeNode c cols off)
  show ?thesis
    unfolding ExplodeNode
  proof (rule yields_eq, rule pull_up_order_step.simps, rule yields_pulled_child [OF _ assms(2)], use assms(6) ExplodeNode in simp)
    fix mc oc k' assume k': "k0 \<le> k'" and c: "pulled E k0 k' c (mc, oc)"
    show "yields E k0 k' (pull_order_explode cols off (mc, oc)) (\<lambda>p k'. pulled E k0 k' (ExplodeNode c cols off) p)"
      using assms(3,4) ExplodeNode by (intro yields_explode [OF k' _ _ c]) simp_all
  qed
qed (use assms(5) in \<open>simp_all add: yields_def\<close>)

end
