(* ===== verification/Order_Induction.thy ===== *)
theory Order_Induction
  imports Order_Pulling
begin

text \<open>
  The order removed class by class, the induction over \<^verbatim>\<open>pull_up_order_inner\<close> and \<^verbatim>\<open>remove_order\<close>, and
  the entry points \<^verbatim>\<open>defer_order\<close> and \<^verbatim>\<open>bake_order\<close> of \<^verbatim>\<open>core/rewrite/order.py\<close>.
\<close>

subsection \<open>Removing the order\<close>

lemma removed_pulled:
  "pulled E k0 k n (m, ord) \<Longrightarrow> \<not> plain n \<Longrightarrow> removed E k0 k n m"
  by (auto simp: removed_def dest: pulledD)

lemma inherits_promote: "WindowOpNode_inherits_order [ColumnDef (NullaryAggregation RowNumberOp) i] (unbound [] 0 []) = Inr True"
  by (simp add: WindowOpNode_inherits_order_def agg_op_def order_independent_def implicitly_inherits_order_def RowNumberOp_traits_def WindowOp_traits_def)

lemma removed_promote:
  assumes "ordered_engine E" "k0 \<le> k" "scoped (PromoteOffsetsNode c i)" "ids_older k0 (PromoteOffsetsNode c i)"
    and "has_total_order c" "pulled E k0 k c (mc, oc)"
  shows "removed E k0 k (PromoteOffsetsNode c i) (row_number i oc mc)"
proof (rule removedI)
  note c = pulledD [OF assms(6)]
  obtain zs where zs: "mset zs = mset (rows E mc)" "rows_agree (set (out_ids c)) zs (rows E c)" "arranged E oc zs"
    using c(3) [OF assms(5)] by (auto simp: realizes_def)
  have "older k i" using ids_older_out [OF assms(4), of i] older_mono [OF _ assms(2)] by simp
  then show "grown k0 k (out_ids (PromoteOffsetsNode c i)) (out_ids (row_number i oc mc))"
    using c(1) by (simp add: row_number_def grown_append)
  have "mset (promote_offsets i zs) = mset (rows E (row_number i oc mc))"
    using mset_row_number [OF assms(1) zs(3,1)] by (simp add: row_number_def)
  then show "reordered (set (out_ids (PromoteOffsetsNode c i))) (rows E (row_number i oc mc)) (rows E (PromoteOffsetsNode c i))"
    using promote_agree [OF zs(2), of i] by (intro reorderedI) auto
qed simp

lemma yields_remove_window:
  assumes "ordered_engine E" "k0 \<le> k" "scoped (WindowOpNode c ds w)" "ids_older k0 (WindowOpNode c ds w)" "orderly E (WindowOpNode c ds w)"
    and "handled E k0 c"
  shows "yields E k0 k (remove_order_step (WindowOpNode c ds w)) (\<lambda>m k'. removed E k0 k' (WindowOpNode c ds w) m)"
proof (rule yields_eq, rule remove_order_step.simps, rule yields_sbind_lift, rule yields_if)
  fix inherits k1 assume k1: "k \<le> k1" and i: "WindowOpNode_inherits_order ds w = Inr inherits"
  let ?n = "WindowOpNode c ds w"
  have k01: "k0 \<le> k1" using assms(2) k1 by simp
  show "yields E k0 k1 (sbind (pull_up_order_inner c) (\<lambda>(child_result, child_order). lift (Inr (WindowOpNode child_result ds (order_window w child_order)))))
      (\<lambda>m k'. removed E k0 k' ?n m)" if inherits
  proof (rule yields_pulled_child [OF assms(6) k01], unfold split_conv, rule yields_return)
    fix mc oc k2 k3 assume k: "k0 \<le> k2" "k2 \<le> k3" and c: "pulled E k0 k2 c (mc, oc)"
    have "pulled E k0 k2 ?n (WindowOpNode mc ds (order_window w oc), oc)"
      using pulled_window [OF assms(1) k(1) assms(3-5) c i] \<open>inherits\<close> by simp
    then show "removed E k0 k3 ?n (WindowOpNode mc ds (order_window w oc))"
      by (rule removed_pulled [OF pulled_mono [OF _ k(2)]]) (use i \<open>inherits\<close> in simp)
  qed
  show "yields E k0 k1 (transform_children_with remove_order ?n) (\<lambda>m k'. removed E k0 k' ?n m)" if "\<not> inherits"
  proof (rule yields_transform)
    show "yields E k0 k' (remove_order d) (\<lambda>m k'. removed E k0 k' d m)" if "d \<in> set (child_nodes ?n)" "k1 \<le> k'" for d k'
      using handledD(2) [OF assms(6), of k'] that k01 by simp
    show "removed E k0 k' ?n (transform_children t ?n)"
      if "k1 \<le> k'" "\<And>d. d \<in> set (child_nodes ?n) \<Longrightarrow> removed E k0 k' d (t d)" for k' t
      by (rule removed_transform [OF assms(1) _ assms(3-5)]) (use that k01 i \<open>\<not> inherits\<close> in auto)
  qed
qed

lemma yields_remove_aggregate:
  assumes "ordered_engine E" "k0 \<le> k" "scoped (AggregateNode c aggs ks os dn)" "ids_older k0 (AggregateNode c aggs ks os dn)"
    and "orderly E (AggregateNode c aggs ks os dn)" "handled E k0 c"
  shows "yields E k0 k (remove_order_step (AggregateNode c aggs ks os dn)) (\<lambda>m k'. removed E k0 k' (AggregateNode c aggs ks os dn) m)"
proof (rule yields_eq, rule remove_order_step.simps, rule yields_sbind_lift, rule yields_if)
  fix has_ordered_ops k1 assume k1: "k \<le> k1" and ops: "AggregateNode_has_ordered_ops aggs = Inr has_ordered_ops"
  let ?n = "AggregateNode c aggs ks os dn"
  have k01: "k0 \<le> k1" using assms(2) k1 by simp
  show "yields E k0 k1 (sbind (pull_up_order_inner c) (\<lambda>(child_result, child_order).
         sbind (lift (with_ordering_columns os child_order)) (\<lambda>new_order_by.
           lift (Inr (AggregateNode child_result aggs ks (ordering_value_columns new_order_by) dn))))) (\<lambda>m k'. removed E k0 k' ?n m)"
    if has_ordered_ops
  proof (rule yields_pulled_child [OF assms(6) k01], unfold split_conv, rule yields_sbind_lift, rule yields_return)
    fix mc oc k2 "by" k3 k4 assume k: "k0 \<le> k2" "k2 \<le> k3" "k3 \<le> k4" and c: "pulled E k0 k2 c (mc, oc)"
      and by': "with_ordering_columns os oc = Inr by"
    have t: "has_total_order c" using assms(5) ops \<open>has_ordered_ops\<close> by simp
    note r = ordered_aggregate_rows [OF assms(1,3) t c by']
    have "older k4 j" if "j \<in> set (out_ids ?n)" for j
      using ids_older_out [OF assms(4) that] older_mono [of k0 j k4] k by simp
    then show "removed E k0 k4 ?n (AggregateNode mc aggs ks (ordering_value_columns by) dn)"
      by (intro removedI) (auto simp del: rows.simps simp: r intro: grown_refl reordered_mset)
  qed
  show "yields E k0 k1 (transform_children_with remove_order ?n) (\<lambda>m k'. removed E k0 k' ?n m)" if "\<not> has_ordered_ops"
  proof (rule yields_transform)
    show "yields E k0 k' (remove_order d) (\<lambda>m k'. removed E k0 k' d m)" if "d \<in> set (child_nodes ?n)" "k1 \<le> k'" for d k'
      using handledD(2) [OF assms(6), of k'] that k01 by simp
    show "removed E k0 k' ?n (transform_children t ?n)"
      if "k1 \<le> k'" "\<And>d. d \<in> set (child_nodes ?n) \<Longrightarrow> removed E k0 k' d (t d)" for k' t
      by (rule removed_transform [OF assms(1) _ assms(3-5)]) (use that k01 ops \<open>\<not> has_ordered_ops\<close> in auto)
  qed
qed

lemma yields_remove_promote:
  assumes "ordered_engine E" "k0 \<le> k" "scoped (PromoteOffsetsNode c i)" "ids_older k0 (PromoteOffsetsNode c i)" "orderly E (PromoteOffsetsNode c i)"
    and "handled E k0 c"
  shows "yields E k0 k (remove_order_step (PromoteOffsetsNode c i)) (\<lambda>m k'. removed E k0 k' (PromoteOffsetsNode c i) m)"
proof -
  let ?n = "PromoteOffsetsNode c i"
  have "yields E k0 k (sbind (pull_up_order_inner c) (\<lambda>(child_result, child_order). lift (Inr (row_number i child_order child_result))))
      (\<lambda>m k'. removed E k0 k' ?n m)"
  proof (rule yields_pulled_child [OF assms(6,2)], unfold split_conv, rule yields_return)
    fix mc oc k1 k2 assume k: "k0 \<le> k1" "k1 \<le> k2" and c: "pulled E k0 k1 c (mc, oc)"
    show "removed E k0 k2 ?n (row_number i oc mc)"
      using removed_mono [OF removed_promote [OF assms(1) k(1) assms(3,4) _ c] k(2)] assms(5) by simp
  qed
  moreover have "remove_order_step ?n s = sbind (pull_up_order_inner c) (\<lambda>(child_result, child_order). lift (Inr (row_number i child_order child_result))) s" for s
    by (simp add: rewrite_promote_offsets_def inherits_promote sbind_def [of "lift _"] lift_def [of "Inr True"] row_number_def order_window_unbound)
  ultimately show ?thesis by (simp add: yields_def)
qed

lemma yields_remove_step:
  assumes "ordered_engine E" "k0 \<le> k" "scoped n" "ids_older k0 n" "orderly E n"
    and "\<And>c. c \<in> set (child_nodes n) \<Longrightarrow> handled E k0 c"
  shows "yields E k0 k (remove_order_step n) (\<lambda>m k'. removed E k0 k' n m)"
proof -
  have child: "yields E k0 k' (remove_order c) (\<lambda>m k'. removed E k0 k' c m)" if "c \<in> set (child_nodes n)" "k \<le> k'" for c k'
    using handledD(2) [OF assms(6) [OF that(1)], of k'] that(2) assms(2) by simp
  have other: "yields E k0 k (transform_children_with remove_order n) (\<lambda>m k'. removed E k0 k' n m)"
    if "\<And>c parts tot. n \<noteq> OrderByNode c parts tot" "\<And>c rv. n \<noteq> ReversedNode c rv" "\<And>c i. n \<noteq> PromoteOffsetsNode c i"
      "\<And>c ds w. n \<noteq> WindowOpNode c ds w" "\<And>c aggs ks os dn. n \<noteq> AggregateNode c aggs ks os dn"
  proof (rule yields_transform [OF child])
    show "removed E k0 k' n (transform_children t n)" if "k \<le> k'" "\<And>d. d \<in> set (child_nodes n) \<Longrightarrow> removed E k0 k' d (t d)" for k' t
      by (rule removed_transform [OF assms(1) _ assms(3-5) that(2)]) (use that(1) assms(2) \<open>\<And>c parts tot. n \<noteq> OrderByNode c parts tot\<close>
        \<open>\<And>c rv. n \<noteq> ReversedNode c rv\<close> \<open>\<And>c i. n \<noteq> PromoteOffsetsNode c i\<close> \<open>\<And>c ds w. n \<noteq> WindowOpNode c ds w\<close>
        \<open>\<And>c aggs ks os dn. n \<noteq> AggregateNode c aggs ks os dn\<close> in auto)
  qed
  show ?thesis
  proof (cases n)
    case (OrderByNode c "by" tot)
    have "yields E k0 k (remove_order c) (\<lambda>m k'. removed E k0 k' n m)"
    proof (rule yields_mono [OF child])
      show "c \<in> set (child_nodes n)" by (simp add: OrderByNode)
      fix m k' assume c: "removed E k0 k' c m"
      have "reordered (set (out_ids c)) (rows E m) (sort_rows E by (rows E c))"
        using removedD(3) [OF c] assms(3) by (intro reordered_sort) (simp_all add: OrderByNode)
      then show "removed E k0 k' n m" using c by (simp add: removed_def OrderByNode)
    qed simp
    then show ?thesis by (simp add: yields_def OrderByNode)
  next
    case (ReversedNode c rv)
    have "yields E k0 k (remove_order c) (\<lambda>m k'. removed E k0 k' n m)"
      by (rule yields_mono [OF child]) (auto simp: ReversedNode removed_def reordered_rev)
    then show ?thesis by (simp add: yields_def ReversedNode)
  next
    case (WindowOpNode c ds w)
    then show ?thesis using yields_remove_window [OF assms(1,2), of c ds w] assms(3-6) by simp
  next
    case (PromoteOffsetsNode c i)
    then show ?thesis using yields_remove_promote [OF assms(1,2), of c i] assms(3-6) by simp
  next
    case (AggregateNode c aggs ks os dn)
    then show ?thesis using yields_remove_aggregate [OF assms(1,2), of c aggs ks os dn] assms(3-6) by simp
  qed (use other in \<open>simp_all add: yields_def\<close>)
qed

subsection \<open>Every plan\<close>

theorem handled_plan:
  assumes "ordered_engine E"
  shows "scoped n \<Longrightarrow> ids_older k0 n \<Longrightarrow> everywhere (orderly E) n \<Longrightarrow> handled E k0 n"
proof (induction "size n" arbitrary: n rule: less_induct)
  case less
  have c: "handled E k0 c" if "c \<in> set (child_nodes n)" for c
    using less.hyps [OF size_child_nodes [OF that]] less.prems that by (blast intro: scoped_children ids_older_child everywhere_child)
  have n: "orderly E n" using less.prems(3) by (simp add: everywhere_iff [of _ n])
  have "yields E k0 k (pull_up_order_inner n) (\<lambda>p k'. pulled E k0 k' n p)" if "k0 \<le> k" for k
    by (rule yields_eq [OF pull_up_order_inner.simps], rule yields_cached_pull,
      rule yields_pull_step [OF assms that less.prems(1,2) n c])
  moreover have "yields E k0 k (remove_order n) (\<lambda>m k'. removed E k0 k' n m)" if "k0 \<le> k" for k
    by (rule yields_eq [OF remove_order.simps], rule yields_cached_remove,
      rule yields_remove_step [OF assms that less.prems(1,2) n c])
  ultimately show ?case by (simp add: handled_def)
qed

lemma sound_empty_pull: "sound_state E k (empty_pull k)"
  by (simp add: sound_state_def empty_pull_def)

subsection \<open>The entry points\<close>

lemma run_pull_up_order:
  assumes "ordered_engine E" "scoped n" "ids_older k0 n" "everywhere (orderly E) n"
  shows "pull_up_order n True k0 = Inr ((m, ord), k1) \<Longrightarrow> pulled E k0 k1 n (m, ord) \<and> k0 \<le> k1"
    "pull_up_order n False k0 = Inr ((m, ord), k1) \<Longrightarrow> removed E k0 k1 n m \<and> k0 \<le> k1"
proof -
  note h = handledD [OF handled_plan [OF assms] order_refl]
  have start: "id_counter (empty_pull k0) = k0" by (simp add: empty_pull_def)
  show "pulled E k0 k1 n (m, ord) \<and> k0 \<le> k1" if run: "pull_up_order n True k0 = Inr ((m, ord), k1)"
  proof -
    obtain s where s: "pull_up_order_inner n (empty_pull k0) = Inr ((m, ord), s)" "k1 = id_counter s"
      using run by (auto simp: pull_up_order_def rbind_eq_Inr_iff)
    show ?thesis using yieldsD [OF h(1) sound_empty_pull _ s(1)] s(2) by (simp add: start)
  qed
  show "removed E k0 k1 n m \<and> k0 \<le> k1" if run: "pull_up_order n False k0 = Inr ((m, ord), k1)"
  proof -
    obtain s where s: "remove_order n (empty_pull k0) = Inr (m, s)" "k1 = id_counter s"
      using run by (auto simp: pull_up_order_def rbind_eq_Inr_iff sbind_eq_Inr lift_eq_Inr)
    show ?thesis using yieldsD [OF h(2) sound_empty_pull _ s(1)] s(2) by (simp add: start)
  qed
qed

text \<open>The rows of a result, from rows that realize those of its child.\<close>

lemma result_rows_realized:
  assumes "lawful_order E" "realizes E order (set is) rs ts"
    and "(case ord of None \<Rightarrow> Inr order | Some o' \<Rightarrow> with_ordering_columns (ordering_value_columns o') order) = Inr order_by"
    and "\<And>x. ord = Some x \<Longrightarrow> parts_refs (ordering_value_columns x) \<subseteq> set is" "\<And>d nm. (d, nm) \<in> set outs \<Longrightarrow> ref_id d \<in> set is"
    and "distinct (map snd outs)"
  shows "rows_agree (set (map (\<lambda>(_, nm). ColumnId nm) outs)) (result_rows E outs (Some order_by) limit rs) (result_rows E outs ord limit ts)"
proof -
  define sorted where "sorted = (case ord of None \<Rightarrow> ts | Some o' \<Rightarrow> sort_rows E (ordering_value_columns o') ts)"
  have "realizes E order_by (set is) rs sorted"
  proof (cases ord)
    case (Some x)
    then show ?thesis
      using realizes_sort [OF assms(1,2), of "ordering_value_columns x" order_by "ordering_value_columns x"] assms(3,4)
        row_compare_cong [of "ordering_value_columns x" "set is"]
      by (auto simp: sorted_def)
  qed (use assms(2,3) in \<open>simp add: sorted_def\<close>)
  then have agree: "rows_agree (set is) (sort_rows E (ordering_value_columns order_by) rs) sorted"
    by (rule realizes_sorted [OF assms(1)])
  let ?pairs = "map (\<lambda>(d, nm). (d, ColumnId nm)) outs"
  have "agree (snd ` set ?pairs) (select_row ?pairs r) (select_row ?pairs t)" if "agree (set is) r t" for r t
  proof -
    have "distinct (map snd ?pairs)" using assms(6) by (simp add: comp_def case_prod_unfold distinct_map inj_on_def)
    then show ?thesis using that select_row_dict [of ?pairs] assms(5) by (fastforce simp: agree_def)
  qed
  moreover have "rows_agree (set is) (case limit of None \<Rightarrow> sort_rows E (ordering_value_columns order_by) rs
      | Some n \<Rightarrow> take (nat n) (sort_rows E (ordering_value_columns order_by) rs)) (case limit of None \<Rightarrow> sorted | Some n \<Rightarrow> take (nat n) sorted)"
    using agree by (auto simp: rows_agree_def split: option.split)
  ultimately have "rows_agree (snd ` set ?pairs) (result_rows E outs (Some order_by) limit rs) (result_rows E outs ord limit ts)"
    unfolding result_rows_def Let_def option.case by (fold sorted_def) (rule rows_agree_map)
  then show ?thesis by (simp add: image_image case_prod_unfold)
qed

end
