(* ===== verification/Order_Removal.thy ===== *)
theory Order_Removal
  imports Rewrite_Order
begin

text \<open>
  After \<^verbatim>\<open>core/rewrite/order.py\<close> no node of a plan sorts, reverses or numbers rows by the order of its
  input. The two memoized functions keep this of every result in their caches.
\<close>

text \<open>
  The inputs of a range are left as they are: the code computes them without their order but
  returns the node it was given.
\<close>

fun no_row_order :: "bfnode \<Rightarrow> bool" where
  "no_row_order (OrderByNode c by tot) = False"
| "no_row_order (ReversedNode c rv) = False"
| "no_row_order (PromoteOffsetsNode c i) = False"
| "no_row_order (FromRangeNode s0 e0 st i) = True"
| "no_row_order (SliceNode c a b s) = no_row_order c"
| "no_row_order (InNode l r x i) = (no_row_order l \<and> no_row_order r)"
| "no_row_order (JoinNode l r conds ty po) = (no_row_order l \<and> no_row_order r)"
| "no_row_order (ConcatNode cs out) = list_all no_row_order cs"
| "no_row_order (FilterNode c p) = no_row_order c"
| "no_row_order (SelectionNode c pairs) = no_row_order c"
| "no_row_order (ProjectionNode c asg) = no_row_order c"
| "no_row_order (AggregateNode c aggs ks os dn) = no_row_order c"
| "no_row_order (WindowOpNode c ds w) = no_row_order c"
| "no_row_order (RandomSampleNode c fr) = no_row_order c"
| "no_row_order (ExplodeNode c cols off) = no_row_order c"
| "no_row_order (ResultNode c outs ord k) = no_row_order c"
| "no_row_order (CteNode c) = no_row_order c"
| "no_row_order _ = True"

lemma no_row_order_transform:
  assumes "\<And>c. c \<in> set (child_nodes n) \<Longrightarrow> no_row_order (t c)"
    and "\<And>c parts tot. n \<noteq> OrderByNode c parts tot" "\<And>c rv. n \<noteq> ReversedNode c rv" "\<And>c i. n \<noteq> PromoteOffsetsNode c i"
  shows "no_row_order (transform_children t n)"
  using assms by (cases n) (auto simp: list_all_iff)

definition unordered_caches :: "pull_state \<Rightarrow> bool" where
  "unordered_caches s \<longleftrightarrow> (\<forall>n p. pulled_cache s n = Some p \<longrightarrow> no_row_order (fst p)) \<and>
     (\<forall>n m. removed_cache s n = Some m \<longrightarrow> no_row_order m)"

lemma unordered_caches_counter [simp]: "unordered_caches (s\<lparr>id_counter := k\<rparr>) = unordered_caches s"
  by (simp add: unordered_caches_def)

definition gives :: "'a pull \<Rightarrow> ('a \<Rightarrow> bool) \<Rightarrow> bool" where
  "gives m P \<longleftrightarrow> (\<forall>s x s'. unordered_caches s \<longrightarrow> m s = Inr (x, s') \<longrightarrow> unordered_caches s' \<and> P x)"

lemma givesD: "gives m P \<Longrightarrow> unordered_caches s \<Longrightarrow> m s = Inr (x, s') \<Longrightarrow> unordered_caches s' \<and> P x"
  by (simp add: gives_def)

lemma gives_eq: "(\<And>s. m s = m' s) \<Longrightarrow> gives m' P \<Longrightarrow> gives m P"
  by (simp add: gives_def)

lemma gives_weaken: "gives m P \<Longrightarrow> (\<And>x. P x \<Longrightarrow> Q x) \<Longrightarrow> gives m Q"
  by (auto simp: gives_def)

lemma gives_sbind: "gives m P \<Longrightarrow> (\<And>x. P x \<Longrightarrow> gives (f x) Q) \<Longrightarrow> gives (sbind m f) Q"
  unfolding gives_def sbind_eq_Inr by blast

lemma gives_lift: "(\<And>x. r = Inr x \<Longrightarrow> P x) \<Longrightarrow> gives (lift r) P"
  by (auto simp: gives_def lift_eq_Inr)

lemma gives_return: "P x \<Longrightarrow> gives (lift (Inr x)) P"
  by (rule gives_lift) simp

lemma gives_sbind_lift: "(\<And>x. r = Inr x \<Longrightarrow> gives (f x) Q) \<Longrightarrow> gives (sbind (lift r) f) Q"
  by (rule gives_sbind [of "lift r" "\<lambda>x. r = Inr x"]) (rule gives_lift)

lemma gives_if: "(b \<Longrightarrow> gives m P) \<Longrightarrow> (\<not> b \<Longrightarrow> gives m' P) \<Longrightarrow> gives (\<lambda>s. if b then m s else m' s) P"
  by (cases b) auto

lemma gives_fresh_id: "gives fresh_id (\<lambda>_. True)"
  by (auto simp: gives_def fresh_id_def unordered_caches_def split: prod.splits)

lemma gives_sbind_fresh_id: "(\<And>i. gives (f i) Q) \<Longrightarrow> gives (sbind fresh_id f) Q"
  by (rule gives_sbind [OF gives_fresh_id])

lemma gives_fresh_ids: "gives (fresh_ids xs) (\<lambda>_. True)"
proof (induction xs)
  case (Cons x xs)
  have "gives (sbind fresh_id (\<lambda>i. sbind (fresh_ids xs) (\<lambda>rest. lift (Inr ((x, i) # rest))))) (\<lambda>_. True)"
    by (intro gives_sbind_fresh_id gives_sbind [OF Cons.IH] gives_return TrueI)
  then show ?case by (simp add: gives_def)
qed (simp add: gives_def)

lemma gives_thread:
  assumes "\<And>x. x \<in> set xs \<Longrightarrow> gives (f x) P"
  shows "gives (thread f xs) (list_all P)"
  using assms
proof (induction xs)
  case (Cons x xs)
  have "gives (sbind (f x) (\<lambda>y. sbind (thread f xs) (\<lambda>ys. lift (Inr (y # ys))))) (list_all P)"
    by (rule gives_sbind [OF Cons.prems], simp, rule gives_sbind [OF Cons.IH], rule Cons.prems, simp, rule gives_return) simp
  then show ?case by (simp add: gives_def)
qed (simp add: gives_def)

lemma gives_cached_pull:
  assumes "gives m (\<lambda>p. no_row_order (fst p))"
  shows "gives (cached_pull n m) (\<lambda>p. no_row_order (fst p))"
  unfolding gives_def
proof (intro allI impI)
  fix s x s' assume s: "unordered_caches s" and run: "cached_pull n m s = Inr (x, s')"
  show "unordered_caches s' \<and> no_row_order (fst x)"
  proof (cases "pulled_cache s n")
    case None
    then obtain t where "m s = Inr (x, t)" "s' = t\<lparr>pulled_cache := (pulled_cache t)(n \<mapsto> x)\<rparr>"
      using run by (auto simp: cached_pull_def sbind_eq_Inr)
    then show ?thesis using givesD [OF assms s, of x t] by (auto simp: unordered_caches_def)
  next
    case (Some p)
    then have "x = p" "s' = s" using run by (simp_all add: cached_pull_def)
    moreover have "no_row_order (fst p)" using Some s unfolding unordered_caches_def by blast
    ultimately show ?thesis using s by simp
  qed
qed

lemma gives_cached_remove:
  assumes "gives m no_row_order"
  shows "gives (cached_remove n m) no_row_order"
  unfolding gives_def
proof (intro allI impI)
  fix s x s' assume s: "unordered_caches s" and run: "cached_remove n m s = Inr (x, s')"
  show "unordered_caches s' \<and> no_row_order x"
  proof (cases "removed_cache s n")
    case None
    then obtain t where "m s = Inr (x, t)" "s' = t\<lparr>removed_cache := (removed_cache t)(n \<mapsto> x)\<rparr>"
      using run by (auto simp: cached_remove_def sbind_eq_Inr)
    then show ?thesis using givesD [OF assms s, of x t] by (auto simp: unordered_caches_def)
  next
    case (Some p)
    then have "x = p" "s' = s" using run by (simp_all add: cached_remove_def)
    moreover have "no_row_order p" using Some s unfolding unordered_caches_def by blast
    ultimately show ?thesis using s by simp
  qed
qed

subsection \<open>The helpers\<close>

lemma gives_project_parts: "no_row_order n \<Longrightarrow> gives (project_parts n parts) (\<lambda>p. no_row_order (fst p))"
proof (induction parts arbitrary: n)
  case (Cons part parts)
  show ?case
  proof (cases "\<exists>d. scalar_expression part = Deref d")
    case True
    then obtain d where d: "scalar_expression part = Deref d" by blast
    have "gives (sbind (project_parts n parts) (\<lambda>(m, new_by, is). lift (Inr (m, part # new_by, ref_id d # is)))) (\<lambda>p. no_row_order (fst p))"
      by (rule gives_sbind [OF Cons.IH [OF Cons.prems]], clarify, rule gives_return) simp
    then show ?thesis by (simp add: gives_def d)
  next
    case False
    define g where "g i = sbind (project_parts (ProjectionNode n [(scalar_expression part, i)]) parts) (\<lambda>(m, new_by, is).
          lift (Inr (m, OrderingExpression (Deref (DerefOp i)) (order_direction part) (na_last part) # new_by, i # is)))" for i
    have "gives (g i) (\<lambda>p. no_row_order (fst p))" for i
      unfolding g_def by (rule gives_sbind [OF Cons.IH], simp add: Cons.prems, clarify, rule gives_return) simp
    then have "gives (sbind fresh_id g) (\<lambda>p. no_row_order (fst p))" by (rule gives_sbind_fresh_id)
    moreover have "project_parts n (part # parts) s = sbind fresh_id g s" for s
      using False by (cases "scalar_expression part") (simp_all add: g_def [abs_def])
    ultimately show ?thesis by (simp add: gives_def)
  qed
qed (simp add: gives_def)

lemma no_row_order_row_number [simp]: "no_row_order (row_number i ord m) = no_row_order m"
  by (simp add: row_number_def)

lemma gives_promote: "no_row_order m \<Longrightarrow> gives (lift (pull_order_promote i (m, ord))) (\<lambda>p. no_row_order (fst p))"
  by (rule gives_lift) (auto simp: pull_order_promote_def rbind_eq_Inr_iff split: if_splits option.splits)

lemma gives_selection: "no_row_order m \<Longrightarrow> gives (pull_order_selection pairs (m, ord)) (\<lambda>p. no_row_order (fst p))"
  unfolding pull_order_selection_def Let_def split_conv
  by (rule gives_sbind [OF gives_fresh_ids], rule gives_sbind_lift, rule gives_return) simp

lemma gives_rename: "no_row_order m \<Longrightarrow> gives (rename_cols m cols) (\<lambda>p. no_row_order (fst p))"
  unfolding rename_cols_def Let_def by (rule gives_sbind [OF gives_fresh_ids], rule gives_sbind_lift, rule gives_return) simp

lemma gives_resolve:
  assumes "no_row_order mr"
  shows "gives (resolve_conflicts ml mr ord) (\<lambda>p. no_row_order (fst p))"
proof -
  have "gives (if cs = [] then lift (Inr (mr, ord)) else sbind (rename_cols mr cs) (\<lambda>(right_child', mapping).
      sbind (lift (ordering_remap_refs mapping True ord)) (\<lambda>right_order'. lift (Inr (right_child', right_order'))))) (\<lambda>p. no_row_order (fst p))" for cs
  proof (cases "cs = []")
    case False
    have "gives (sbind (rename_cols mr cs) (\<lambda>(right_child', mapping). sbind (lift (ordering_remap_refs mapping True ord))
        (\<lambda>right_order'. lift (Inr (right_child', right_order'))))) (\<lambda>p. no_row_order (fst p))"
      by (rule gives_sbind [OF gives_rename [OF assms]], clarify, rule gives_sbind_lift, rule gives_return) simp
    then show ?thesis using False by simp
  qed (simp add: gives_return assms)
  then show ?thesis unfolding resolve_conflicts_def Let_def by (intro gives_sbind_lift)
qed

lemma gives_indicator: "no_row_order m \<Longrightarrow> gives (add_indicator b m ord) (\<lambda>p. no_row_order (fst p))"
proof (cases b)
  case True
  assume "no_row_order m"
  then have "gives (sbind fresh_id (\<lambda>i. sbind (lift (with_ordering_columns [descending_over i True] ord)) (\<lambda>order'.
      lift (Inr (ProjectionNode m [(const (BoolV True) None, i)], order'))))) (\<lambda>p. no_row_order (fst p))"
    by (intro gives_sbind_fresh_id gives_sbind_lift gives_return) simp
  then show ?thesis using True by (simp add: add_indicator_def)
qed (simp add: add_indicator_def gives_return)

lemma gives_join:
  assumes "no_row_order ml" "no_row_order mr"
  shows "gives (join_pulled conds ty po (ml, ol) (mr, ro)) (\<lambda>p. no_row_order (fst p))"
  unfolding join_pulled_def split_conv
proof (rule gives_sbind [OF gives_resolve [OF assms(2)]], clarify)
  fix mr1 and or1 :: row_ordering assume "no_row_order (fst (mr1, or1))"
  then have r1: "no_row_order mr1" by simp
  show "gives (sbind (add_indicator (ty \<in> {RightJoin, OuterJoin}) ml ol) (\<lambda>(left_child, left_order).
     sbind (add_indicator (ty \<in> {LeftJoin, OuterJoin}) mr1 or1) (\<lambda>(right_child, right_order).
     sbind (lift (if ty \<noteq> RightJoin then join_ordering left_order right_order else join_ordering right_order left_order)) (\<lambda>new_order.
       lift (Inr (JoinNode left_child right_child conds ty po, new_order)))))) (\<lambda>p. no_row_order (fst p))"
    by (rule gives_sbind [OF gives_indicator [OF assms(1)]], clarify, rule gives_sbind [OF gives_indicator [OF r1]], clarify,
        rule gives_sbind_lift, rule gives_return) simp
qed

lemma gives_concat_source: "no_row_order m \<Longrightarrow> gives (concat_source i n (m, ord)) no_row_order"
  unfolding concat_source_def split_conv
  by (intro gives_sbind_fresh_id gives_sbind_lift gives_return) (auto split: if_splits option.splits)

lemma gives_concat: "list_all no_row_order ms \<Longrightarrow> gives (concat_pulled ms out) (\<lambda>p. no_row_order (fst p))"
  unfolding concat_pulled_def by (intro gives_sbind_fresh_id gives_sbind_lift gives_return) simp

lemma gives_offsets_id: "gives (case off of None \<Rightarrow> fresh_id | Some i \<Rightarrow> lift (Inr i)) (\<lambda>_. True)"
  by (cases off) (simp_all add: gives_fresh_id gives_return)

lemma gives_explode: "no_row_order m \<Longrightarrow> gives (pull_order_explode cols off (m, ord)) (\<lambda>p. no_row_order (fst p))"
  unfolding pull_order_explode_def split_conv
  by (rule gives_sbind [OF gives_offsets_id], intro gives_sbind_lift gives_return) simp

lemma gives_local: "gives (pull_order_local d items sess off) (\<lambda>p. no_row_order (fst p))"
  unfolding pull_order_local_def by (rule gives_sbind [OF gives_offsets_id], intro gives_sbind_lift gives_return) simp

lemma gives_table: "(\<And>items. no_row_order (node src items sess)) \<Longrightarrow> gives (pull_order_table node src items sess) (\<lambda>p. no_row_order (fst p))"
  by (auto simp: gives_def pull_order_table_def rbind_eq_Inr_iff split: if_splits)

lemma gives_strictly: "gives m no_row_order \<Longrightarrow> gives (strictly n m) no_row_order"
  unfolding strictly_def
  by (rule gives_sbind, assumption, rule gives_lift) (auto simp: identity_selection_def rbind_eq_Inr_iff split: if_splits)

lemma get_or_self_zip:
  assumes "list_all P ys" "length ys = length xs" "x \<in> set xs"
  shows "P (get_or_self (dict_of (zip xs ys)) x)"
proof -
  have "x \<in> fst ` set (zip xs ys)" using assms(2,3) by (metis list.set_map map_fst_zip)
  then obtain y where y: "dict_of (zip xs ys) x = Some y" by (metis dict_of_eq_None_iff not_None_eq)
  then show ?thesis using dict_of_SomeD [OF y] assms(1) by (auto simp: list_all_iff get_or_self_def dest: set_zip_rightD)
qed

lemma thread_length: "thread f xs s = Inr (ys, s') \<Longrightarrow> length ys = length xs"
  by (induction xs arbitrary: s ys) (auto simp: sbind_eq_Inr lift_eq_Inr)

lemma gives_transform:
  assumes "\<And>c. c \<in> set (child_nodes n) \<Longrightarrow> gives (f c) no_row_order"
    and "\<And>c parts tot. n \<noteq> OrderByNode c parts tot" "\<And>c rv. n \<noteq> ReversedNode c rv" "\<And>c i. n \<noteq> PromoteOffsetsNode c i"
  shows "gives (transform_children_with f n) no_row_order"
  unfolding transform_children_with_def
proof (rule gives_sbind)
  show "gives (thread f (child_nodes n)) (\<lambda>cs. list_all no_row_order cs \<and> length cs = length (child_nodes n))"
    using gives_thread [of "child_nodes n" f, OF assms(1)] thread_length unfolding gives_def by blast
  fix cs assume "list_all no_row_order cs \<and> length cs = length (child_nodes n)"
  then show "gives (lift (Inr (transform_children (get_or_self (dict_of (zip (child_nodes n) cs))) n))) no_row_order"
    using assms(2-4) by (intro gives_return no_row_order_transform get_or_self_zip [of no_row_order]) auto
qed

subsection \<open>Both functions\<close>

definition freed :: "bfnode \<Rightarrow> bool" where
  "freed n \<longleftrightarrow> gives (pull_up_order_inner n) (\<lambda>p. no_row_order (fst p)) \<and> gives (remove_order n) no_row_order"

lemma gives_pulled_child:
  assumes "freed c" "\<And>m ord. no_row_order m \<Longrightarrow> gives (f (m, ord)) P"
  shows "gives (sbind (pull_up_order_inner c) f) P"
proof (rule gives_sbind)
  show "gives (pull_up_order_inner c) (\<lambda>p. no_row_order (fst p))" using assms(1) by (simp add: freed_def)
  show "gives (f x) P" if "no_row_order (fst x)" for x using that assms(2) by (cases x) simp
qed

lemma gives_removed_child:
  assumes "freed c" "\<And>m. no_row_order m \<Longrightarrow> gives (f m) P"
  shows "gives (sbind (remove_order c) f) P"
  by (rule gives_sbind [of _ no_row_order]) (use assms in \<open>auto simp: freed_def\<close>)

lemma gives_strict_child:
  assumes "freed c" "\<And>m. no_row_order m \<Longrightarrow> gives (f m) P"
  shows "gives (sbind (strictly c (remove_order c)) f) P"
  by (rule gives_sbind [OF gives_strictly]) (use assms in \<open>auto simp: freed_def\<close>)

lemma gives_order_by:
  assumes "freed c"
  shows "gives (pull_up_order_step (OrderByNode c parts tot)) (\<lambda>p. no_row_order (fst p))"
proof (rule gives_eq, rule pull_up_order_step.simps, rule gives_if)
  let ?P = "\<lambda>p :: bfnode \<times> row_ordering. no_row_order (fst p)"
  show "gives (sbind (remove_order c) (\<lambda>child_result. sbind (project_parts child_result parts) (\<lambda>(new_node, new_by, is).
        sbind (lift (mk_total new_by no_encoding (set is))) (\<lambda>new_order. lift (Inr (new_node, new_order)))))) ?P"
    by (rule gives_removed_child [OF assms], rule gives_sbind [OF gives_project_parts], assumption, clarify, rule gives_sbind_lift, rule gives_return) simp
  show "gives (sbind (pull_up_order_inner c) (\<lambda>(child_result, child_order). sbind (project_parts child_result parts) (\<lambda>(new_node, new_by, is).
        sbind (lift (with_ordering_columns new_by child_order)) (\<lambda>new_order. lift (Inr (new_node, new_order)))))) ?P"
    by (rule gives_pulled_child [OF assms], unfold split_conv, rule gives_sbind [OF gives_project_parts], assumption, clarify, rule gives_sbind_lift,
        rule gives_return) simp
qed

lemma gives_pull_aggregate:
  assumes "freed c"
  shows "gives (pull_up_order_step (AggregateNode c aggs ks os dn)) (\<lambda>p. no_row_order (fst p))"
    "gives (remove_order_step (AggregateNode c aggs ks os dn)) no_row_order"
proof -
  show "gives (pull_up_order_step (AggregateNode c aggs ks os dn)) (\<lambda>p. no_row_order (fst p))"
    by (rule gives_eq, rule pull_up_order_step.simps, rule gives_sbind_lift, rule gives_if,
        (rule gives_pulled_child [OF assms], unfold split_conv, intro gives_sbind_lift gives_return, simp),
        (rule gives_removed_child [OF assms], intro gives_sbind_lift gives_return, simp))
  show "gives (remove_order_step (AggregateNode c aggs ks os dn)) no_row_order"
    by (rule gives_eq, rule remove_order_step.simps, rule gives_sbind_lift, rule gives_if,
        (rule gives_pulled_child [OF assms], unfold split_conv, intro gives_sbind_lift gives_return, simp),
        (rule gives_transform; use assms in \<open>simp add: freed_def\<close>))
qed

lemma gives_pull_step:
  assumes "\<And>c. c \<in> set (child_nodes n) \<Longrightarrow> freed c"
  shows "gives (pull_up_order_step n) (\<lambda>p. no_row_order (fst p))"
proof (cases n)
  case (ReversedNode c rv)
  then have c: "freed c" using assms by simp
  show ?thesis
    unfolding ReversedNode
    by (rule gives_eq, rule pull_up_order_step.simps, rule gives_pulled_child [OF c], unfold split_conv, rule gives_sbind_lift, rule gives_return) simp
next
  case (OrderByNode c parts tot)
  then show ?thesis using gives_order_by assms by simp
next
  case (ProjectionNode c asg)
  then have c: "freed c" using assms by simp
  show ?thesis
    unfolding ProjectionNode
    by (rule gives_eq, rule pull_up_order_step.simps, rule gives_pulled_child [OF c], unfold split_conv, rule gives_return) simp
next
  case (JoinNode l r conds ty po)
  then have c: "freed l" "freed r" using assms by simp_all
  show ?thesis
    unfolding JoinNode
    by (rule gives_eq, rule pull_up_order_step.simps, rule gives_if,
        (rule gives_pulled_child [OF c(1)], rule gives_pulled_child [OF c(2)], rule gives_join; assumption),
        (rule gives_strict_child [OF c(1)], rule gives_strict_child [OF c(2)], rule gives_return, simp))
next
  case (ConcatNode cs out)
  have c: "gives ((\<lambda>(i, source). sbind (pull_up_order_inner source) (concat_source (int i) source)) x) no_row_order" if "x \<in> set (enumerate 0 cs)" for x
  proof -
    obtain i c where x: "x = (i, c)" by (cases x)
    then have "freed c" using that assms ConcatNode by (auto dest: enumerate_member)
    then show ?thesis unfolding x split_conv by (rule gives_pulled_child) (rule gives_concat_source)
  qed
  show ?thesis
    unfolding ConcatNode
    by (rule gives_eq, rule pull_up_order_step.simps, rule gives_sbind [OF gives_thread], erule c, rule gives_concat)
next
  case (FromRangeNode s0 e0 st i)
  then have c: "freed s0" "freed e0" using assms by simp_all
  show ?thesis
    unfolding FromRangeNode
    by (rule gives_eq, rule pull_up_order_step.simps, rule gives_strict_child [OF c(1)], rule gives_strict_child [OF c(2)], rule gives_sbind_lift,
        rule gives_return) simp
next
  case (ReadLocalNode d items sess off)
  then show ?thesis using gives_local [of d items sess off] by (simp add: gives_def)
next
  case (ReadTableNode src items sess)
  then show ?thesis using gives_table [of ReadTableNode src sess] by (simp add: gives_def)
next
  case (CachedTableNode src items sess orig)
  then show ?thesis using gives_table [of "\<lambda>src items sess. CachedTableNode src items sess orig" src sess] by (simp add: gives_def)
next
  case (PromoteOffsetsNode c i)
  then have c: "freed c" using assms by simp
  show ?thesis
    unfolding PromoteOffsetsNode by (rule gives_eq, rule pull_up_order_step.simps, rule gives_pulled_child [OF c], rule gives_promote)
next
  case (FilterNode c p)
  then have c: "freed c" using assms by simp
  show ?thesis
    unfolding FilterNode
    by (rule gives_eq, rule pull_up_order_step.simps, rule gives_pulled_child [OF c], unfold split_conv, rule gives_sbind_lift, rule gives_return) simp
next
  case (InNode l r x i)
  then have c: "freed l" "freed r" using assms by simp_all
  show ?thesis
    unfolding InNode
    by (rule gives_eq, rule pull_up_order_step.simps, rule gives_pulled_child [OF c(1)], unfold split_conv, rule gives_strict_child [OF c(2)],
        rule gives_return) simp
next
  case (SelectionNode c pairs)
  then have c: "freed c" using assms by simp
  show ?thesis
    unfolding SelectionNode by (rule gives_eq, rule pull_up_order_step.simps, rule gives_pulled_child [OF c], rule gives_selection)
next
  case (AggregateNode c aggs ks os dn)
  then show ?thesis using gives_pull_aggregate(1) assms by simp
next
  case (WindowOpNode c ds w)
  then have c: "freed c" using assms by simp
  show ?thesis
    unfolding WindowOpNode
    by (rule gives_eq, rule pull_up_order_step.simps, rule gives_pulled_child [OF c], unfold split_conv, rule gives_sbind_lift, rule gives_return) simp
next
  case (RandomSampleNode c fr)
  then have c: "freed c" using assms by simp
  show ?thesis
    unfolding RandomSampleNode
    by (rule gives_eq, rule pull_up_order_step.simps, rule gives_pulled_child [OF c], unfold split_conv, rule gives_sbind_lift, rule gives_return) simp
next
  case (ExplodeNode c cols off)
  then have c: "freed c" using assms by simp
  show ?thesis
    unfolding ExplodeNode by (rule gives_eq, rule pull_up_order_step.simps, rule gives_pulled_child [OF c], rule gives_explode)
qed (simp_all add: gives_def)

lemma gives_remove_step:
  assumes "\<And>c. c \<in> set (child_nodes n) \<Longrightarrow> freed c"
  shows "gives (remove_order_step n) no_row_order"
proof -
  have child: "gives (remove_order c) no_row_order" if "c \<in> set (child_nodes n)" for c using assms [OF that] by (simp add: freed_def)
  show ?thesis
  proof (cases n)
    case (OrderByNode c parts tot)
    then show ?thesis using child by (simp add: gives_def)
  next
    case (ReversedNode c rv)
    then show ?thesis using child by (simp add: gives_def)
  next
    case (WindowOpNode c ds w)
    then have c: "freed c" using assms by simp
    show ?thesis
      unfolding WindowOpNode
      by (rule gives_eq, rule remove_order_step.simps, rule gives_sbind_lift, rule gives_if,
          (rule gives_pulled_child [OF c], unfold split_conv, rule gives_return, simp),
          (rule gives_transform; use c in \<open>simp add: freed_def\<close>))
  next
    case (PromoteOffsetsNode c i)
    then have c: "freed c" using assms by simp
    show ?thesis
      unfolding PromoteOffsetsNode
      by (rule gives_eq, subst remove_order_step.simps, unfold rewrite_promote_offsets_def, subst bfnode.case, rule refl,
          rule gives_sbind_lift, rule gives_if,
          (rule gives_pulled_child [OF c], unfold split_conv, rule gives_return, simp),
          (rule gives_removed_child [OF c], rule gives_return, simp))
  next
    case (AggregateNode c aggs ks os dn)
    then show ?thesis using gives_pull_aggregate(2) assms by simp
  qed (use gives_transform [of n remove_order, OF child] in \<open>simp_all add: gives_def\<close>)
qed

lemma freed_plan: "freed n"
proof (induction "size n" arbitrary: n rule: less_induct)
  case less
  have c: "freed c" if "c \<in> set (child_nodes n)" for c by (rule less.hyps [OF size_child_nodes [OF that]])
  have "gives (pull_up_order_inner n) (\<lambda>p. no_row_order (fst p))"
    by (rule gives_eq [OF pull_up_order_inner.simps], rule gives_cached_pull, rule gives_pull_step [OF c])
  moreover have "gives (remove_order n) no_row_order"
    by (rule gives_eq [OF remove_order.simps], rule gives_cached_remove, rule gives_remove_step [OF c])
  ultimately show ?case by (simp add: freed_def)
qed

lemma pull_up_order_unordered:
  assumes "pull_up_order n order_root k0 = Inr ((m, ord), k1)"
  shows "no_row_order m"
proof -
  have empty: "unordered_caches (empty_pull k0)" by (simp add: unordered_caches_def empty_pull_def)
  have g: "gives (pull_up_order_inner n) (\<lambda>p. no_row_order (fst p))" "gives (remove_order n) no_row_order"
    using freed_plan [of n] by (simp_all add: freed_def)
  show ?thesis
  proof (cases order_root)
    case True
    then obtain s where "pull_up_order_inner n (empty_pull k0) = Inr ((m, ord), s)"
      using assms by (auto simp: pull_up_order_def rbind_eq_Inr_iff)
    then show ?thesis using givesD [OF g(1) empty] by fastforce
  next
    case False
    then obtain s where "remove_order n (empty_pull k0) = Inr (m, s)"
      using assms by (auto simp: pull_up_order_def rbind_eq_Inr_iff sbind_eq_Inr lift_eq_Inr)
    then show ?thesis using givesD [OF g(2) empty] by blast
  qed
qed

end
