(* ===== verification/Order_Properties.thy ===== *)
theory Order_Properties
  imports Order_Induction Order_Removal Sample_Plans
begin

text \<open>
  What the order pull-up of \<^verbatim>\<open>core/rewrite/order.py\<close> guarantees of a plan, and the properties at work
  on a plan with offsets, a sort, a reversal and a filter, over an engine whose functions are known.
\<close>

subsection \<open>An engine\<close>

definition counting_order :: "sql_value \<Rightarrow> sql_value \<Rightarrow> int" where
  "counting_order a b = (case (a, b) of
     (IntS x, IntS y) \<Rightarrow> x - y | (IntS _, _) \<Rightarrow> - 1 | (_, IntS _) \<Rightarrow> 1 | _ \<Rightarrow> int (to_nat a) - int (to_nat b))"

definition counting_window :: "window_op \<Rightarrow> sql_value list list \<Rightarrow> nat \<Rightarrow> sql_value" where
  "counting_window op args k =
     IntS (int (if order_independent op \<or> \<not> implicitly_inherits_order op then length args else k))"

fun counting_range :: "sql_value \<Rightarrow> sql_value \<Rightarrow> int \<Rightarrow> sql_value list" where
  "counting_range (IntS a) (IntS b) step = (if 0 < step then map (\<lambda>j. IntS (a + int j * step)) [0..<nat ((b - a + step - 1) div step)] else [])"
| "counting_range _ _ step = []"

definition counting_engine :: engine where
  "counting_engine = sample_engine\<lparr> agg_value := (\<lambda>_ rs. IntS (int (length rs))),
     window_value := (\<lambda>op _ _ args _ k. counting_window op args k), value_order := counting_order,
     local_rows := (\<lambda>_. map (\<lambda>x s. if s = ''a'' then IntS x else NULL) [2, 1, 2]), range_values := counting_range \<rparr>"

lemma ordered_counting: "ordered_engine counting_engine"
proof -
  have inj: "to_nat a = to_nat b \<longleftrightarrow> a = b" for a b :: sql_value by simp
  have "counting_order a b = 0 \<longleftrightarrow> a = b" for a b
    by (cases a; cases b) (auto simp: counting_order_def inj)
  moreover have "counting_order a b < 0 \<longleftrightarrow> 0 < counting_order b a" for a b
    by (cases a; cases b) (auto simp: counting_order_def)
  moreover have "counting_order a c \<le> 0" if "counting_order a b \<le> 0" "counting_order b c \<le> 0" for a b c
    using that by (cases a; cases b; cases c) (auto simp: counting_order_def)
  ultimately have "lawful_order counting_engine"
    using keeps_keys_sample by (simp add: lawful_order_def keeps_keys_def counting_engine_def sample_engine_def)
  moreover have "NULL \<notin> set (counting_range a b step) \<and> sorted_wrt (\<lambda>v u. counting_order v u < 0) (counting_range a b step)" if "0 < step" for a b step
    using that by (cases "(a, b, step)" rule: counting_range.cases)
      (auto simp: counting_order_def sorted_wrt_iff_nth_less)
  moreover have "counting_window RowNumberOp args k = IntS (int k)" for args k
    by (simp add: counting_window_def order_independent_def implicitly_inherits_order_def RowNumberOp_traits_def WindowOp_traits_def)
  ultimately show ?thesis
    by (simp add: ordered_engine_def counting_engine_def counting_order_def) (auto simp: counting_window_def dest: mset_eq_length)
qed

subsection \<open>Plans to apply the properties to\<close>

definition sample_local :: bfnode where
  "sample_local = ReadLocalNode \<lparr> local_key = 0, local_schema = [(''a'', Some INT_DTYPE)], local_row_count = 3 \<rparr>
     [ScanItem (ColumnId ''a'') ''a''] None None"

definition sample_promoted :: bfnode where
  "sample_promoted = PromoteOffsetsNode (FilterNode sample_local (ScalarConstantExpression (BoolV True) (Some BOOL_DTYPE))) (ColumnId ''i'')"

definition sample_ranked :: bfnode where
  "sample_ranked = ReversedNode (OrderByNode sample_promoted [ascending_over (ColumnId ''a'') True] False) True"

text \<open>What the pass makes of it: the offsets as a row number over the offsets of the scan.\<close>

definition sample_numbered :: bfnode where
  "sample_numbered = row_number (ColumnId ''i'') (TotalOrdering [ascending_over (guid_id 1) True] (no_encoding\<lparr>is_encoded := True\<rparr>) {guid_id 1})
     (FilterNode (ReadLocalNode \<lparr> local_key = 0, local_schema = [(''a'', Some INT_DTYPE)], local_row_count = 3 \<rparr>
       [ScanItem (ColumnId ''a'') ''a''] None (Some (guid_id 1))) (ScalarConstantExpression (BoolV True) (Some BOOL_DTYPE)))"

definition sample_ordering :: row_ordering where
  "sample_ordering = TotalOrdering (map with_reverse [ascending_over (ColumnId ''a'') True, ascending_over (ColumnId ''i'') True])
     no_encoding {ColumnId ''i''}"

lemmas ranked_defs = sample_ranked_def sample_promoted_def sample_local_def

lemmas pull_defs = pull_up_order_inner.simps remove_order.simps cached_pull_def cached_remove_def sbind_def lift_def empty_pull_def pull_up_order_def
  pull_order_local_def pull_order_promote_def fresh_id_def ColumnId_unique_eq transform_children_with_def
  from_offset_col_def mk_total_def ascending_over_def no_encoding_def referenced_columns_def row_number_def

lemma sample_ranked_plan: "scoped sample_ranked" "ids_older 0 sample_ranked" "everywhere (orderly E) sample_ranked" "has_total_order sample_ranked"
  by (simp_all add: ranked_defs ids_older_iff everywhere_iff parts_refs_def referenced_columns_def ascending_over_def older_def guid_id_def)

lemma sample_ranked_pulled:
  "pull_up_order sample_ranked True 0 = Inr ((sample_numbered, sample_ordering), 1)"
  "pull_up_order sample_ranked False 0 = Inr ((sample_numbered, RowOrdering [] no_encoding), 1)"
  by (simp_all add: ranked_defs sample_numbered_def sample_ordering_def pull_defs rewrite_promote_offsets_def inherits_promote order_window_unbound ordering_is_sequential_def)

subsection \<open>The pulled order\<close>








definition sample_union :: bfnode where
  "sample_union = ConcatNode [ProjectionNode sample_promoted [(const (StrV ''p'') None, ColumnId ''p'')]]
     [ColumnId ''x'', ColumnId ''y'', ColumnId ''z'']"

lemmas union_rows = concat_row_def project_row_def filter_rows_def read_local_def promote_offsets_def with_column_def offsets_def scan_row_def
  counting_engine_def sample_engine_def const_def dict_of_def counting_window_def

lemma counting_window_cell: "window_cell counting_engine w rs (NullaryAggregation op) k \<noteq> StringS s"
  by (simp add: window_cell_def counting_engine_def counting_window_def Let_def)

text \<open>
  C22: Below a concatenation \<^verbatim>\<open>bake_order\<close> mixes up columns: removing the order of an input that numbers
  its rows adds a hidden column in the middle, and the outputs are matched by position. Here the
  constant of the last column is replaced by the row number.
\<close>

theorem bake_order_concat_columns:
  "\<exists>m k. bake_order sample_union 0 = Inr (m, k) \<and> out_ids m = out_ids sample_union \<and>
     map (\<lambda>r. r (ColumnId ''z'')) (rows counting_engine sample_union) = [StringS ''p'', StringS ''p'', StringS ''p''] \<and>
     length (rows counting_engine m) = 3 \<and> list_all (\<lambda>r. r (ColumnId ''z'') \<noteq> StringS ''p'') (rows counting_engine m)"
proof -
  let ?m = "ConcatNode [ProjectionNode sample_numbered [(const (StrV ''p'') None, ColumnId ''p'')]] [ColumnId ''x'', ColumnId ''y'', ColumnId ''z'']"
  have "bake_order sample_union 0 = Inr (?m, 1)"
    by (simp add: bake_order_def sample_union_def sample_promoted_def sample_local_def sample_numbered_def pull_defs rewrite_promote_offsets_def
        inherits_promote order_window_unbound ordering_is_sequential_def dict_of_def)
  moreover have "out_ids ?m = out_ids sample_union"
    by (simp add: sample_union_def sample_numbered_def sample_promoted_def sample_local_def row_number_def)
  moreover have "map (\<lambda>r. r (ColumnId ''z'')) (rows counting_engine sample_union) = [StringS ''p'', StringS ''p'', StringS ''p'']"
    by (simp add: sample_union_def sample_promoted_def sample_local_def union_rows)
  moreover have "length (rows counting_engine ?m) = 3" by (simp add: sample_numbered_def row_number_def union_rows window_rows_def)
  moreover have "list_all (\<lambda>r. r (ColumnId ''z'') \<noteq> StringS ''p'') (rows counting_engine ?m)"
    by (auto simp: list_all_iff sample_numbered_def row_number_def concat_row_def project_row_def dict_of_def window_rows_def counting_window_cell)
  ultimately show ?thesis by (intro exI [of _ ?m] exI [of _ 1]) simp
qed

end
