(* ===== verification/Plan_Validation.thy ===== *)
theory Plan_Validation
  imports Rewrite_Framework Sample_Plans
begin

text \<open>
  \<^verbatim>\<open>validate_tree\<close> of \<^verbatim>\<open>core/bigframe_node.py\<close> and the \<^verbatim>\<open>_validate\<close> methods of \<^verbatim>\<open>core/nodes.py\<close>, and what a plan
  that passes them is: typed, and well scoped but for the references that no method looks at.
\<close>

subsection \<open>The checks\<close>

definition raise_unless :: "py_error \<Rightarrow> bool \<Rightarrow> unit result" where
  "raise_unless e b = (if b then Inr () else Inl e)"

primrec each_passes :: "('a \<Rightarrow> unit result) \<Rightarrow> 'a list \<Rightarrow> unit result" where
  "each_passes f [] = Inr ()"
| "each_passes f (x # xs) = rbind (f x) (\<lambda>_. each_passes f xs)"

lemma raise_unless_iff [simp]: "raise_unless e b = Inr u \<longleftrightarrow> b"
  by (simp add: raise_unless_def)

lemma each_passes_iff [simp]: "each_passes f xs = Inr u \<longleftrightarrow> (\<forall>x \<in> set xs. f x = Inr ())"
  by (induction xs) (auto simp: rbind_eq_Inr_iff)

definition InNode_validate :: "bfnode \<Rightarrow> unit result" where
  "InNode_validate r = rbind (node_fields r) (\<lambda>fs. assert_that (length fs = 1))"

definition JoinNode_validate :: "bfnode \<Rightarrow> bfnode \<Rightarrow> unit result" where
  "JoinNode_validate l r = rbind (ids l) (\<lambda>ls. rbind (ids r) (\<lambda>rs. assert_that (set ls \<inter> set rs = {})))"

definition ConcatNode_validate :: "bfnode list \<Rightarrow> unit result" where
  "ConcatNode_validate cs =
     (if cs = [] then Inl ValueError
      else rbind (mapM (\<lambda>c. rbind (node_schema c) (\<lambda>s. Inr (schema_dtypes s))) cs)
             (\<lambda>child_schemas. raise_unless ValueError (length (remdups child_schemas) = 1)))"

definition ReadTableNode_validate :: "bq_source \<Rightarrow> scan_list \<Rightarrow> unit result" where
  "ReadTableNode_validate src items =
     raise_unless ValueError (set (map source_id items) \<subseteq> set (physical_names (src_table src)))"

definition SelectionNode_validate :: "bfnode \<Rightarrow> (deref \<times> column_id) list \<Rightarrow> unit result" where
  "SelectionNode_validate c = each_passes (\<lambda>(ref, _). rbind (ids c) (\<lambda>is. raise_unless ValueError (ref_id ref \<in> set is)))"

text \<open>
  A projection may not assign to a column of its child; the code looks for the identifier among
  the names of the schema, which are strings, and an identifier is equal to no string.
\<close>

definition id_among_names :: "column_id \<Rightarrow> string list \<Rightarrow> bool" where
  "id_among_names i names = False"

definition ProjectionNode_validate :: "bfnode \<Rightarrow> (expr \<times> column_id) list \<Rightarrow> unit result" where
  "ProjectionNode_validate c assignments =
     rbind (each_passes (\<lambda>(e, _). rbind (field_by_id c) (\<lambda>m. rbind (bind_schema_fields e m) (\<lambda>b.
              rbind (output_type b) (\<lambda>_. assert_that (is_scalar_expr e))))) assignments) (\<lambda>_.
       rbind (all_while (\<lambda>(_, i). rbind (node_schema c) (\<lambda>s. Inr (\<not> id_among_names i (schema_names s)))) assignments) assert_that)"

definition WindowOpNode_validate :: "bfnode \<Rightarrow> column_def list \<Rightarrow> expr window_spec \<Rightarrow> unit result" where
  "WindowOpNode_validate c agg_exprs w =
     rbind (each_passes (\<lambda>cdef.
        rbind (assert_that (is_aggregation (cdef_expression cdef))) (\<lambda>_.
        rbind (if is_row_bounded w
               then rbind (agg_op (cdef_expression cdef)) (\<lambda>op. assert_that (implicitly_inherits_order op))
               else Inr ()) (\<lambda>_.
        rbind (each_passes (\<lambda>agg_child. assert_that (is_scalar_expr agg_child)) (children (cdef_expression cdef))) (\<lambda>_.
          each_passes (\<lambda>ref. rbind (ids c) (\<lambda>is. assert_that (ref \<in> set is))) (column_references (cdef_expression cdef)))))) agg_exprs) (\<lambda>_.
     rbind (WindowOpNode_added_fields (node_fields c) agg_exprs) (\<lambda>added.
     rbind (assert_that (\<not> list_ex (\<lambda>f. field_dtype f = None) added)) (\<lambda>_.
       each_passes (\<lambda>e. assert_that (is_scalar_expr e)) (window_expressions w))))"

definition ExplodeNode_validate :: "bfnode \<Rightarrow> deref list \<Rightarrow> unit result" where
  "ExplodeNode_validate c = each_passes (\<lambda>ref. rbind (ids c) (\<lambda>is. assert_that (ref_id ref \<in> set is)))"

definition ResultNode_validate :: "bfnode \<Rightarrow> (deref \<times> string) list \<Rightarrow> unit result" where
  "ResultNode_validate c = each_passes (\<lambda>(ref, _). rbind (ids c) (\<lambda>is. assert_that (ref_id ref \<in> set is)))"

fun validate_node :: "bfnode \<Rightarrow> unit result" where
  "validate_node (InNode l r x i) = InNode_validate r"
| "validate_node (JoinNode l r conds ty po) = JoinNode_validate l r"
| "validate_node (ConcatNode cs out) = ConcatNode_validate cs"
| "validate_node (ReadTableNode src items sess) = ReadTableNode_validate src items"
| "validate_node (CachedTableNode src items sess orig) = ReadTableNode_validate src items"
| "validate_node (SelectionNode c pairs) = SelectionNode_validate c pairs"
| "validate_node (ProjectionNode c asg) = ProjectionNode_validate c asg"
| "validate_node (WindowOpNode c ds w) = WindowOpNode_validate c ds w"
| "validate_node (ExplodeNode c cols off) = ExplodeNode_validate c cols"
| "validate_node (ResultNode c outs ord k) = ResultNode_validate c outs"
| "validate_node n = Inr ()"

function validate_tree :: "bfnode \<Rightarrow> bool result" where
  "validate_tree n =
     rbind (mapM validate_tree (child_nodes n)) (\<lambda>_.
     rbind (validate_node n) (\<lambda>_.
     rbind (node_fields n) (\<lambda>field_list.
       if length (remdups field_list) \<noteq> length field_list then Inl ValueError else Inr True)))"
  by pat_completeness auto
termination by (relation "measure size") (auto dest: size_child_nodes)

declare validate_tree.simps [simp del]

subsection \<open>What passes\<close>

definition node_passes :: "bfnode \<Rightarrow> bool" where
  "node_passes n \<longleftrightarrow> validate_node n = Inr () \<and> (\<exists>fs. node_fields n = Inr fs \<and> distinct fs)"

lemma validate_tree_passes: "(\<exists>b. validate_tree n = Inr b) \<longleftrightarrow> everywhere node_passes n"
proof (induction "size n" arbitrary: n rule: less_induct)
  case less
  have child: "(\<exists>b. validate_tree c = Inr b) \<longleftrightarrow> everywhere node_passes c" if "c \<in> set (child_nodes n)" for c
    by (rule less.hyps [OF size_child_nodes [OF that]])
  have once: "length (remdups fs) \<noteq> length fs \<longleftrightarrow> \<not> distinct fs" for fs :: "field list"
    by (metis distinct_remdups length_remdups_eq remdups_id_iff_distinct)
  have "(\<exists>b. validate_tree n = Inr b) \<longleftrightarrow> (\<exists>bs. mapM validate_tree (child_nodes n) = Inr bs) \<and> node_passes n"
    by (auto simp: validate_tree.simps [of n] rbind_eq_Inr_iff node_passes_def once ex_bool_eq)
  also have "(\<exists>bs. mapM validate_tree (child_nodes n) = Inr bs) \<longleftrightarrow> list_all (everywhere node_passes) (child_nodes n)"
    unfolding list_all_iff using child mapM_each [of validate_tree "child_nodes n"] mapM_exists [of "child_nodes n" validate_tree] by blast
  finally show ?case by (subst everywhere_iff) blast
qed

lemma passes_typed: "everywhere node_passes n \<Longrightarrow> typed n"
  unfolding typed_def everywhere_def list_all_iff by (auto simp: node_passes_def)

subsection \<open>What passes is well scoped\<close>

text \<open>
  The parts of well-scopedness that no method looks at: that no column is defined twice, and the
  references of filters, sorts, join conditions, memberships, window specifications and final
  orderings, and of expressions whose schema is bound already.
\<close>

fun unchecked_refs :: "bfnode \<Rightarrow> bool" where
  "unchecked_refs (InNode l r x i) = (ref_id x \<in> set (out_ids l))"
| "unchecked_refs (JoinNode l r conds ty po) = list_all (\<lambda>(a, b). ref_id a \<in> set (out_ids l) \<and> ref_id b \<in> set (out_ids r)) conds"
| "unchecked_refs (ConcatNode cs out) = (case cs of [] \<Rightarrow> True | c # _ \<Rightarrow> length (out_ids c) = length out)"
| "unchecked_refs (FilterNode c p) = (set (column_references p) \<subseteq> set (out_ids c))"
| "unchecked_refs (OrderByNode c by tot) = (parts_refs by \<subseteq> set (out_ids c))"
| "unchecked_refs (ProjectionNode c asg) =
     list_all (\<lambda>(e, _). is_resolved e \<longrightarrow> set (column_references e) \<subseteq> set (out_ids c)) asg"
| "unchecked_refs (AggregateNode c aggs ks os dn) = (parts_refs os \<subseteq> set (out_ids c) \<and>
     list_all (\<lambda>(e, _). is_resolved e \<longrightarrow> set (column_references e) \<subseteq> set (out_ids c)) aggs)"
| "unchecked_refs (WindowOpNode c ds w) = (all_referenced_columns w \<subseteq> set (out_ids c))"
| "unchecked_refs (ResultNode c outs ord k) = (\<forall>x \<in> set_option ord. parts_refs (ordering_value_columns x) \<subseteq> set (out_ids c))"
| "unchecked_refs n = True"

lemma bound_refs:
  assumes "bind_schema_fields e (fields_by_id fs) = Inr b" "\<not> is_resolved e"
  shows "set (column_references e) \<subseteq> field_id ` set fs"
proof
  fix i assume i: "i \<in> set (column_references e)"
  have "fields_by_id fs i \<noteq> None"
    using assms i by (auto simp: bind_schema_fields_def bind_refs_subst all_bound_def split: if_splits)
  then show "i \<in> field_id ` set fs" by (auto simp: fields_by_id_def dict_of_eq_None_iff image_image)
qed

lemma fields_found: "lookup_or e (fields_by_id fs) i = Inr f \<Longrightarrow> i \<in> field_id ` set fs"
  by (cases "fields_by_id fs i") (auto simp: lookup_or_def fields_by_id_def dest!: dict_of_SomeD)

lemma node_fields_ids: "node_fields c = Inr fs \<Longrightarrow> field_id ` set fs = set (out_ids c)"
  using fields_out_ids [of c fs] by (metis list.set_map)

lemma passes_scoped_step:
  assumes "node_passes n" "distinct (out_ids n)" "unchecked_refs n" "\<And>c. c \<in> set (child_nodes n) \<Longrightarrow> scoped c \<and> (\<exists>fs. node_fields c = Inr fs)"
  shows "scoped n"
proof -
  obtain fs where n: "validate_node n = Inr ()" "node_fields n = Inr fs" using assms(1) by (auto simp: node_passes_def)
  show ?thesis
  proof (cases n)
    case (ConcatNode cs out)
    obtain c cs' where cs: "cs = c # cs'" using n(1) by (cases cs) (auto simp: ConcatNode ConcatNode_validate_def)
    obtain ss where ss: "mapM (\<lambda>c. rbind (node_schema c) (\<lambda>s. Inr (schema_dtypes s))) cs = Inr ss" "length (remdups ss) = 1"
      using n(1) by (auto simp: ConcatNode ConcatNode_validate_def cs rbind_eq_Inr_iff)
    then obtain s where s: "set ss = {s}" by (metis One_nat_def card_1_singletonE length_remdups_card_conv)
    have len: "length (out_ids d) = length s" if d: "d \<in> set cs" for d
    proof -
      obtain t where "t \<in> set ss" "rbind (node_schema d) (\<lambda>s. Inr (schema_dtypes s)) = Inr t" using mapM_each [OF ss(1) d] by blast
      then obtain x where "t \<in> set ss" "node_fields d = Inr x" "length t = length x"
        by (auto simp: node_schema_def rbind_eq_Inr_iff schema_dtypes_def)
      then show ?thesis using s fields_out_ids [of d x] by (metis length_map singletonD)
    qed
    have out: "length (out_ids c) = length out" using assms(3) by (simp add: ConcatNode cs)
    then have "out_ids n = out" by (simp add: ConcatNode cs map_fst_zip_take)
    then show ?thesis using assms(2,4) len out cs by (auto simp: ConcatNode list_all_iff)
  next
    case (JoinNode l r conds ty po)
    then show ?thesis using n(1) assms(3,4) by (auto simp: JoinNode_validate_def rbind_eq_Inr_iff dest!: ids_out_ids)
  next
    case (ProjectionNode c asg)
    obtain cf where cf: "node_fields c = Inr cf" using assms(4) ProjectionNode by auto
    have "set (column_references e) \<subseteq> set (out_ids c)" if "(e, j) \<in> set asg" for e j
    proof (cases "is_resolved e")
      case False
      have "\<forall>(e, _) \<in> set asg. rbind (bind_schema_fields e (fields_by_id cf)) (\<lambda>b. rbind (output_type b) (\<lambda>_. assert_that (is_scalar_expr e))) = Inr ()"
        using n(1) cf by (auto simp: ProjectionNode ProjectionNode_validate_def field_by_id_def rbind_eq_Inr_iff)
      then have "\<exists>b. bind_schema_fields e (fields_by_id cf) = Inr b" using that by (auto simp: rbind_eq_Inr_iff)
      then show ?thesis using bound_refs [OF _ False] node_fields_ids [OF cf] by blast
    qed (use assms(3) that in \<open>auto simp: ProjectionNode list_all_iff\<close>)
    moreover have "snd ` set asg \<inter> set (out_ids c) = {}" "distinct (map snd asg)" using assms(2) by (auto simp: ProjectionNode)
    ultimately show ?thesis using assms(4) by (fastforce simp: ProjectionNode list_all_iff)
  next
    case (AggregateNode c aggs ks os dn)
    obtain cf where cf: "node_fields c = Inr cf" using assms(4) AggregateNode by auto
    obtain kf af where kf: "mapM (\<lambda>ref. rbind (lookup_or KeyError (fields_by_id cf) (ref_id ref)) (\<lambda>f. Inr (if dn then with_nonnull f else f))) ks = Inr kf"
        and af: "mapM (\<lambda>(agg, i). aggregated_field (fields_by_id cf) agg i) aggs = Inr af"
      using n(2) by (auto simp: AggregateNode AggregateNode_fields_def cf rbind_eq_Inr_iff)
    have "ref_id k \<in> set (out_ids c)" if "k \<in> set ks" for k
      using mapM_each [OF kf that] fields_found [of KeyError cf "ref_id k"] node_fields_ids [OF cf] by (auto simp: rbind_eq_Inr_iff)
    then have "set (map ref_id ks) \<subseteq> set (out_ids c)" by auto
    moreover have refs: "set (column_references e) \<subseteq> set (out_ids c)" if "(e, j) \<in> set aggs" for e j
    proof (cases "is_resolved e")
      case False
      have "\<exists>b. bind_schema_fields e (fields_by_id cf) = Inr b"
        using mapM_each [OF af that] by (auto simp: aggregated_field_def rbind_eq_Inr_iff)
      then show ?thesis using bound_refs [OF _ False] node_fields_ids [OF cf] by blast
    qed (use assms(3) that in \<open>auto simp: AggregateNode list_all_iff\<close>)
    moreover have "list_all (\<lambda>(e, _). set (column_references e) \<subseteq> set (out_ids c)) aggs"
      by (auto simp: list_all_iff dest: subsetD [OF refs])
    ultimately show ?thesis using assms(2-4) by (auto simp: AggregateNode)
  next
    case (WindowOpNode c ds w)
    have "set (column_references (cdef_expression d)) \<subseteq> set (out_ids c)" if "d \<in> set ds" for d
      using n(1) that by (auto simp: WindowOpNode WindowOpNode_validate_def rbind_eq_Inr_iff dest!: ids_out_ids)
    then show ?thesis using assms(2-4) by (auto simp: WindowOpNode list_all_iff)
  next
    case (SelectionNode c pairs)
    then show ?thesis
      using n(1) assms(2,4) by (fastforce simp: SelectionNode_validate_def rbind_eq_Inr_iff list_all_iff dest!: ids_out_ids)
  next
    case (ExplodeNode c cols off)
    then show ?thesis
      using n(1) assms(2,4) by (fastforce simp: ExplodeNode_validate_def rbind_eq_Inr_iff dest!: ids_out_ids split: option.splits)
  next
    case (ResultNode c outs ord k)
    have "distinct (map snd outs)" using assms(2) by (auto simp: ResultNode distinct_map inj_on_def case_prod_unfold)
    then show ?thesis
      using n(1) assms(3,4) by (fastforce simp: ResultNode ResultNode_validate_def rbind_eq_Inr_iff list_all_iff dest!: ids_out_ids)
  qed (use assms in \<open>auto split: option.splits\<close>)
qed

lemma passes_scoped:
  "everywhere node_passes n \<Longrightarrow> everywhere (\<lambda>m. distinct (out_ids m) \<and> unchecked_refs m) n \<Longrightarrow> scoped n"
proof (induction "size n" arbitrary: n rule: less_induct)
  case less
  have n: "node_passes n" "distinct (out_ids n)" "unchecked_refs n"
    using less.prems by (auto simp: everywhere_iff [of _ n])
  show ?case
  proof (rule passes_scoped_step [OF n])
    fix c assume c: "c \<in> set (child_nodes n)"
    have "everywhere node_passes c" using everywhere_child [OF less.prems(1) c] .
    then show "scoped c \<and> (\<exists>fs. node_fields c = Inr fs)"
      using less.hyps [OF size_child_nodes [OF c]] everywhere_child [OF less.prems(2) c]
      by (auto simp: everywhere_iff [of node_passes c] node_passes_def)
  qed
qed

subsection \<open>Properties\<close>

text \<open>
  C20: A plan that \<^verbatim>\<open>validate_tree\<close> accepts is typed: no lookup of a column or of a type raises anywhere in
  it. If moreover no node of it defines a column twice and the references that no method checks are
  to columns of the child, the plan is well scoped, which is what the rewrites rely on.
\<close>

theorem validated_plans_scoped:
  assumes "validate_tree n = Inr b" "everywhere (\<lambda>m. distinct (out_ids m) \<and> unchecked_refs m) n"
  shows "typed n \<and> scoped n"
proof -
  have "everywhere node_passes n" using assms(1) validate_tree_passes [of n] by blast
  then show ?thesis using passes_typed passes_scoped assms(2) by blast
qed

lemma sample_validated: "validate_tree sample_scan = Inr True" "validate_tree sample_filter = Inr True"
proof -
  have "validate_node sample_scan = Inr ()"
    by (simp add: sample_defs ReadTableNode_validate_def physical_names_def raise_unless_def)
  then show scan: "validate_tree sample_scan = Inr True"
    by (simp add: validate_tree.simps [of sample_scan] sample_scan_fields mk_field_def) (simp add: sample_scan_def)
  show "validate_tree sample_filter = Inr True"
    using scan sample_scan_fields by (simp add: sample_filter_def validate_tree.simps [of "FilterNode _ _"] mk_field_def)
qed

theorem validated_plans_scoped_witness: "typed sample_filter \<and> scoped sample_filter"
proof (rule validated_plans_scoped [OF sample_validated(2)])
  show "everywhere (\<lambda>m. distinct (out_ids m) \<and> unchecked_refs m) sample_filter"
    by (simp add: sample_filter_def sample_scan_def col_def)
qed

text \<open>
  C21: \<^verbatim>\<open>validate_tree\<close> accepts a projection that assigns to a column its child has: the check compares
  the identifier with the names of the schema, which are strings, and the final check that no
  field occurs twice tells the two fields apart by their types. The plan has two columns of one identifier.
\<close>

theorem validate_tree_redefined_column:
  "validate_tree (ProjectionNode sample_scan [(const (StrV ''x'') None, ColumnId ''a'')]) = Inr True \<and>
   out_ids (ProjectionNode sample_scan [(const (StrV ''x'') None, ColumnId ''a'')]) = [ColumnId ''a'', ColumnId ''b'', ColumnId ''c'', ColumnId ''a'']"
proof -
  have expr: "bind_schema_fields (const (StrV ''x'') None) m = Inr (const (StrV ''x'') None)" "output_type (const (StrV ''x'') None) = Inr (Some STRING_DTYPE)"
    "is_scalar_expr (const (StrV ''x'') None)" for m
    by (simp_all add: const_def bind_schema_fields_def is_resolved_def output_type_def is_scalar_expr_def ScalarConstantExpression_props_def Expression_props_def)
  have id: "\<not> is_identity (const (StrV ''x'') None)"
    by (simp add: const_def is_identity_def ScalarConstantExpression_props_def Expression_props_def)
  have "validate_tree (ProjectionNode sample_scan [(const (StrV ''x'') None, ColumnId ''a'')]) = Inr True"
    using sample_validated(1) sample_scan_fields expr id
    by (simp add: validate_tree.simps [of "ProjectionNode _ _"] ProjectionNode_validate_def field_by_id_def node_schema_def id_among_names_def
        ProjectionNode_added_fields_def projected_field_def dtype_for_etype_def mk_field_def Let_def)
  then show ?thesis by (simp add: sample_scan_def)
qed

end
