(* ===== verification/Type_Conversions.thy ===== *)
theory Type_Conversions
  imports Complex_Main Dtypes
begin

text \<open>
  The conversions of \<^verbatim>\<open>bigframes/dtypes.py\<close> between the types of columns, the types of Arrow and the
  fields of a BigQuery table, and of \<^verbatim>\<open>core/schema.py\<close> between their sequences. The types of
  \<^verbatim>\<open>Dtypes\<close> are abstract; here a type is what the code has, a pandas extension type that may wrap an
  Arrow type. The classes of pyarrow and the BigQuery client are the constructors of their values.
\<close>

subsection \<open>The types of the libraries\<close>

datatype time_unit = Seconds | Milliseconds | Microseconds | Nanoseconds

datatype arrow_type =
    BoolT | IntT nat | UIntT nat | FloatT nat | StringT | LargeStringT | BinaryT
  | Date32T | Time64T time_unit | TimestampT time_unit "string option" | DurationT time_unit
  | Decimal128T nat nat | Decimal256T nat nat | NullT | JSONArrowType | JsonT
  | ListT arrow_type | StructT "(string \<times> arrow_type \<times> bool) list" | OtherT string

datatype bf_type =
    Int64Dtype | Float64Dtype | BooleanDtype | StringDtype | GeometryDtype | ArrowDtype (pyarrow_dtype: arrow_type)

datatype schema_field =
  SchemaField (sf_name: string) (sf_field_type: string) (sf_mode: string)
    (sf_description: "string option") (sf_fields: "schema_field list")

fun is_list :: "arrow_type \<Rightarrow> bool" where
  "is_list (ListT _) = True" | "is_list _ = False"

fun is_struct :: "arrow_type \<Rightarrow> bool" where
  "is_struct (StructT _) = True" | "is_struct _ = False"

fun is_duration :: "arrow_type \<Rightarrow> bool" where
  "is_duration (DurationT _) = True" | "is_duration _ = False"

definition is_json_arrow_type :: "arrow_type \<Rightarrow> bool" where
  "is_json_arrow_type a \<longleftrightarrow> a = JSONArrowType \<or> a = JsonT"

definition TIMEDELTA_TYPE :: bf_type where
  "TIMEDELTA_TYPE = ArrowDtype (DurationT Microseconds)"

definition OBJ_REF_TYPE :: bf_type where
  "OBJ_REF_TYPE = ArrowDtype (StructT [(''uri'', StringT, True), (''version'', StringT, True),
     (''authorizer'', StringT, True), (''details'', JSONArrowType, True)])"

subsection \<open>The table of simple types\<close>

text \<open>The columns of the table that \<^verbatim>\<open>Dtypes\<close> leaves out: the pandas type, the Arrow type and the SQL names.\<close>

definition SIMPLE_CONVERSIONS :: "(dtype \<times> bf_type \<times> arrow_type option \<times> string list) list" where
  "SIMPLE_CONVERSIONS =
     [(INT_DTYPE, Int64Dtype, Some (IntT 64), [''INTEGER'', ''INT64'']),
      (FLOAT_DTYPE, Float64Dtype, Some (FloatT 64), [''FLOAT'', ''FLOAT64'']),
      (BOOL_DTYPE, BooleanDtype, Some BoolT, [''BOOLEAN'', ''BOOL'']),
      (STRING_DTYPE, StringDtype, Some StringT, [''STRING'']),
      (JSON_DTYPE, ArrowDtype JSONArrowType, Some JSONArrowType, [''JSON'']),
      (DATE_DTYPE, ArrowDtype Date32T, Some Date32T, [''DATE'']),
      (TIME_DTYPE, ArrowDtype (Time64T Microseconds), Some (Time64T Microseconds), [''TIME'']),
      (DATETIME_DTYPE, ArrowDtype (TimestampT Microseconds None), Some (TimestampT Microseconds None), [''DATETIME'']),
      (TIMESTAMP_DTYPE, ArrowDtype (TimestampT Microseconds (Some ''UTC'')),
         Some (TimestampT Microseconds (Some ''UTC'')), [''TIMESTAMP'']),
      (BYTES_DTYPE, ArrowDtype BinaryT, Some BinaryT, [''BYTES'']),
      (NUMERIC_DTYPE, ArrowDtype (Decimal128T 38 9), Some (Decimal128T 38 9), [''NUMERIC'', ''DECIMAL'']),
      (BIGNUMERIC_DTYPE, ArrowDtype (Decimal256T 76 38), Some (Decimal256T 76 38), [''BIGNUMERIC'', ''BIGDECIMAL'']),
      (GEO_DTYPE, GeometryDtype, None, [''GEOGRAPHY''])]"

definition simple_dtypes :: "bf_type list" where
  "simple_dtypes = map (\<lambda>(_, t, _). t) SIMPLE_CONVERSIONS"

definition ARROW_TO_BIGFRAMES :: "(arrow_type \<times> bf_type) list" where
  "ARROW_TO_BIGFRAMES = concat (map (\<lambda>(_, t, a, _). case a of None \<Rightarrow> [] | Some a \<Rightarrow> [(a, t)]) SIMPLE_CONVERSIONS)"

definition ARROW_TO_BIGFRAMES_LOSSLESS :: "(arrow_type \<times> bf_type) list" where
  "ARROW_TO_BIGFRAMES_LOSSLESS =
     [(IntT 8, Int64Dtype), (IntT 16, Int64Dtype), (IntT 32, Int64Dtype),
      (UIntT 8, Int64Dtype), (UIntT 16, Int64Dtype), (UIntT 32, Int64Dtype),
      (FloatT 16, Float64Dtype), (FloatT 32, Float64Dtype)]"

definition BIGFRAMES_TO_ARROW :: "(bf_type \<times> arrow_type) list" where
  "BIGFRAMES_TO_ARROW = map (\<lambda>(a, t). (t, a)) ARROW_TO_BIGFRAMES @ [(GeometryDtype, StringT)]"

definition TK_TO_BIGFRAMES :: "(string \<times> bf_type) list" where
  "TK_TO_BIGFRAMES = concat (map (\<lambda>(_, t, _, tks). map (\<lambda>tk. (tk, t)) tks) SIMPLE_CONVERSIONS)"

definition BIGFRAMES_TO_TK :: "(bf_type \<times> string) list" where
  "BIGFRAMES_TO_TK = map (\<lambda>(_, t, _, tks). (t, hd tks)) SIMPLE_CONVERSIONS"

lemmas conversion_tables = SIMPLE_CONVERSIONS_def simple_dtypes_def ARROW_TO_BIGFRAMES_def ARROW_TO_BIGFRAMES_LOSSLESS_def
  BIGFRAMES_TO_ARROW_def TK_TO_BIGFRAMES_def BIGFRAMES_TO_TK_def

subsection \<open>Arrow types\<close>

definition arrow_dtype_to_bigframes_dtype :: "arrow_type \<Rightarrow> bool \<Rightarrow> bf_type result" where
  "arrow_dtype_to_bigframes_dtype a allow_lossless_cast =
     (if allow_lossless_cast \<and> dict_of ARROW_TO_BIGFRAMES_LOSSLESS a \<noteq> None then Inr (the (dict_of ARROW_TO_BIGFRAMES_LOSSLESS a))
      else case dict_of ARROW_TO_BIGFRAMES a of
        Some t \<Rightarrow> Inr t
      | None \<Rightarrow>
          if is_list a then Inr (ArrowDtype a)
          else if is_struct a then Inr (ArrowDtype a)
          else if is_duration a then Inr TIMEDELTA_TYPE
          else if a = StringT \<or> a = LargeStringT then Inr StringDtype
          else if a = NullT then Inr Float64Dtype
          else if is_json_arrow_type a then Inr (ArrowDtype JSONArrowType)
          else Inl TypeError)"

text \<open>A type that wraps an Arrow type of no table and no branch falls through: the function returns \<^verbatim>\<open>None\<close>.\<close>

definition bigframes_dtype_to_arrow_dtype :: "bf_type option \<Rightarrow> arrow_type option result" where
  "bigframes_dtype_to_arrow_dtype t =
     (case t of None \<Rightarrow> Inl TypeError
      | Some t \<Rightarrow>
         (case dict_of BIGFRAMES_TO_ARROW t of
            Some a \<Rightarrow> Inr (Some a)
          | None \<Rightarrow> (case t of
                ArrowDtype a \<Rightarrow> if is_duration a then Inr (Some a) else if is_list a then Inr (Some a)
                               else if is_struct a then Inr (Some a) else Inr None
              | _ \<Rightarrow> Inl TypeError)))"

text \<open>The factories of pyarrow raise on \<^verbatim>\<open>None\<close> for a type.\<close>

definition pa_type :: "arrow_type option \<Rightarrow> arrow_type result" where
  "pa_type a = (case a of None \<Rightarrow> Inl TypeError | Some a \<Rightarrow> Inr a)"

definition nested_arrow :: "bf_type option \<Rightarrow> arrow_type result" where
  "nested_arrow t = rbind (bigframes_dtype_to_arrow_dtype t) pa_type"

text \<open>Asking whether \<^verbatim>\<open>None\<close> is a list raises too, which happens before a field is made of it.\<close>

definition field_arrow :: "bf_type option \<Rightarrow> arrow_type result" where
  "field_arrow t = rbind (bigframes_dtype_to_arrow_dtype t) (\<lambda>a. case a of None \<Rightarrow> Inl AttributeError | Some a \<Rightarrow> Inr a)"

lemma field_arrow_Inr [simp]: "nested_arrow t = Inr a \<Longrightarrow> field_arrow t = Inr a"
  by (auto simp: field_arrow_def nested_arrow_def pa_type_def rbind_eq_Inr_iff split: option.splits)

definition get_struct_fields :: "bf_type \<Rightarrow> (string \<times> bf_type) list result" where
  "get_struct_fields t = (case t of
       ArrowDtype (StructT fs) \<Rightarrow> mapM (\<lambda>(nm, a, _). rbind (arrow_dtype_to_bigframes_dtype a False) (\<lambda>t. Inr (nm, t))) fs
     | _ \<Rightarrow> Inl AssertionError)"

definition get_array_inner_type :: "bf_type \<Rightarrow> bf_type result" where
  "get_array_inner_type t = (case t of
       ArrowDtype (ListT a) \<Rightarrow> arrow_dtype_to_bigframes_dtype a False
     | _ \<Rightarrow> Inl AssertionError)"

definition list_type :: "bf_type option \<Rightarrow> bf_type result" where
  "list_type values_type = rbind (nested_arrow values_type) (\<lambda>a. Inr (ArrowDtype (ListT a)))"

definition struct_type :: "(string \<times> bf_type) list \<Rightarrow> bf_type result" where
  "struct_type items =
     rbind (mapM (\<lambda>(nm, t). rbind (nested_arrow (Some t)) (\<lambda>a. Inr (nm, a, True))) items) (\<lambda>fs. Inr (ArrowDtype (StructT fs)))"

fun to_storage_type :: "arrow_type \<Rightarrow> arrow_type" where
  "to_storage_type JSONArrowType = StringT"
| "to_storage_type (ListT a) = ListT (to_storage_type a)"
| "to_storage_type (StructT fs) = StructT (map (\<lambda>(nm, a, nullable). (nm, to_storage_type a, nullable)) fs)"
| "to_storage_type a = a"

fun contains_db_dtypes_json_arrow_type :: "arrow_type \<Rightarrow> bool" where
  "contains_db_dtypes_json_arrow_type JSONArrowType = True"
| "contains_db_dtypes_json_arrow_type (ListT a) = contains_db_dtypes_json_arrow_type a"
| "contains_db_dtypes_json_arrow_type (StructT fs) = list_ex (\<lambda>(_, a, _). contains_db_dtypes_json_arrow_type a) fs"
| "contains_db_dtypes_json_arrow_type _ = False"

definition contains_db_dtypes_json_dtype :: "bf_type \<Rightarrow> bool" where
  "contains_db_dtypes_json_dtype t = (case t of ArrowDtype a \<Rightarrow> contains_db_dtypes_json_arrow_type a | _ \<Rightarrow> False)"

definition is_bigframes_dtype :: "bf_type \<Rightarrow> bool" where
  "is_bigframes_dtype t =
     (t \<in> set simple_dtypes \<or>
      (case t of ArrowDtype a \<Rightarrow> (case arrow_dtype_to_bigframes_dtype a False of Inl _ \<Rightarrow> False | Inr _ \<Rightarrow> True) | _ \<Rightarrow> False))"

subsection \<open>Fields of BigQuery tables\<close>

definition TIMEDELTA_DESCRIPTION_TAG :: string where
  "TIMEDELTA_DESCRIPTION_TAG = ''#microseconds''"

definition OBJ_REF_DESCRIPTION_TAG :: string where
  "OBJ_REF_DESCRIPTION_TAG = ''bigframes_dtype: OBJ_REF_DTYPE''"

definition endswith :: "string \<Rightarrow> string \<Rightarrow> bool" where
  "endswith s tag \<longleftrightarrow> length tag \<le> length s \<and> drop (length s - length tag) s = tag"

definition record_dtype :: "bool \<Rightarrow> (string \<times> bf_type) list \<Rightarrow> bf_type result" where
  "record_dtype is_repeated mapped_fields =
     rbind (mapM (\<lambda>(nm, t). rbind (field_arrow (Some t)) (\<lambda>a. Inr (nm, a, \<not> is_list a))) mapped_fields)
       (\<lambda>fs. Inr (ArrowDtype (if is_repeated then ListT (StructT fs) else StructT fs)))"

definition repeated_dtype :: "bool \<Rightarrow> bf_type \<Rightarrow> bf_type result" where
  "repeated_dtype is_repeated t =
     (if is_repeated then rbind (nested_arrow (Some t)) (\<lambda>a. Inr (ArrowDtype (ListT a))) else Inr t)"

fun convert_schema_field :: "schema_field \<Rightarrow> (string \<times> bf_type) result" where
  "convert_schema_field (SchemaField nm ty mode desc inner) =
     (let is_repeated = (mode = ''REPEATED'') in
      if ty = ''RECORD'' then
        if desc = Some OBJ_REF_DESCRIPTION_TAG then rbind (repeated_dtype is_repeated OBJ_REF_TYPE) (\<lambda>t. Inr (nm, t))
        else rbind (mapM convert_schema_field inner) (\<lambda>mapped_fields.
               rbind (record_dtype is_repeated mapped_fields) (\<lambda>t. Inr (nm, t)))
      else if ty = ''INTEGER'' \<and> (case desc of None \<Rightarrow> False | Some d \<Rightarrow> endswith d TIMEDELTA_DESCRIPTION_TAG) then Inr (nm, TIMEDELTA_TYPE)
      else case dict_of TK_TO_BIGFRAMES ty of
          Some t \<Rightarrow> rbind (repeated_dtype is_repeated t) (\<lambda>t. Inr (nm, t))
        | None \<Rightarrow> Inl TypeError)"

lemma rbind_cong [fundef_cong]:
  "r = r' \<Longrightarrow> (\<And>x. r' = Inr x \<Longrightarrow> f x = f' x) \<Longrightarrow> rbind r f = rbind r' f'"
  by (cases r') (simp_all add: rbind_def)

definition nesting :: "bf_type \<Rightarrow> nat" where
  "nesting t = (case t of ArrowDtype a \<Rightarrow> Suc (size a) | _ \<Rightarrow> 0)"

lemma nesting_arrow_to_bigframes: "arrow_dtype_to_bigframes_dtype a False = Inr t \<Longrightarrow> nesting t \<le> Suc (size a)"
  by (auto simp: arrow_dtype_to_bigframes_dtype_def TIMEDELTA_TYPE_def conversion_tables dict_of_Cons nesting_def
      split: option.splits if_splits)

lemma nesting_element: "arrow_dtype_to_bigframes_dtype a False = Inr t \<Longrightarrow> nesting t < nesting (ArrowDtype (ListT a))"
  using nesting_arrow_to_bigframes [of a t] by (simp add: nesting_def)

lemma nesting_field:
  "f \<in> set fs \<Longrightarrow> arrow_dtype_to_bigframes_dtype (fst (snd f)) False = Inr t \<Longrightarrow> nesting t < nesting (ArrowDtype (StructT fs))"
  using nesting_arrow_to_bigframes [of "fst (snd f)" t]
    size_list_estimation' [of f fs "size (fst (snd f))" "size_prod (\<lambda>x. 0) (size_prod size (\<lambda>x. 0))"]
  by (cases f) (auto simp: nesting_def)

function convert_to_schema_field :: "string \<Rightarrow> bf_type \<Rightarrow> (bf_type \<Rightarrow> string option) \<Rightarrow> schema_field result" where
  "convert_to_schema_field nm t overrides =
     (case overrides t of
        Some tk \<Rightarrow> Inr (SchemaField nm tk ''NULLABLE'' None [])
      | None \<Rightarrow>
     (case dict_of BIGFRAMES_TO_TK t of
        Some tk \<Rightarrow> Inr (SchemaField nm tk ''NULLABLE'' None [])
      | None \<Rightarrow>
     (case t of
        ArrowDtype a \<Rightarrow>
         (case a of
            ListT value_type \<Rightarrow>
              rbind (arrow_dtype_to_bigframes_dtype value_type False) (\<lambda>inner_type.
              rbind (convert_to_schema_field nm inner_type overrides) (\<lambda>inner_field.
                Inr (SchemaField nm (sf_field_type inner_field) ''REPEATED'' (sf_description inner_field) (sf_fields inner_field))))
          | StructT fs \<Rightarrow>
              rbind (mapM (\<lambda>f. rbind (arrow_dtype_to_bigframes_dtype (fst (snd f)) False) (\<lambda>inner_bf_type.
                       convert_to_schema_field (fst f) inner_bf_type overrides)) fs) (\<lambda>inner_fields.
                if t = OBJ_REF_TYPE then Inr (SchemaField nm ''RECORD'' ''NULLABLE'' (Some OBJ_REF_DESCRIPTION_TAG) inner_fields)
                else Inr (SchemaField nm ''RECORD'' ''NULLABLE'' None inner_fields))
          | _ \<Rightarrow> if a = DurationT Microseconds
                then Inr (SchemaField nm ''INTEGER'' ''NULLABLE'' (Some TIMEDELTA_DESCRIPTION_TAG) []) else Inl TypeError)
      | _ \<Rightarrow> Inl TypeError)))"
  by pat_completeness auto
termination
  by (relation "measure (\<lambda>(_, t, _). nesting t)") (auto simp: nesting_field nesting_element)

declare convert_to_schema_field.simps [simp del]

definition bf_type_from_type_kind :: "schema_field list \<Rightarrow> (string \<times> bf_type) list result" where
  "bf_type_from_type_kind bq_schema = rbind (mapM convert_schema_field bq_schema) (\<lambda>items. Inr (dict_items items))"

subsection \<open>Schemas\<close>

type_synonym bf_schema = "(string \<times> bf_type) list"

definition from_bq_schema :: "schema_field list \<Rightarrow> (string \<Rightarrow> bf_type option) \<Rightarrow> string list \<Rightarrow> bf_schema result" where
  "from_bq_schema schema column_type_overrides columns =
     rbind (if columns \<noteq> [] then mapM (lookup_or KeyError (dict_of (map (\<lambda>f. (sf_name f, f)) schema))) columns else Inr schema)
       (\<lambda>schema. rbind (bf_type_from_type_kind schema)
       (\<lambda>items. Inr (map (\<lambda>(nm, t). (nm, case column_type_overrides nm of None \<Rightarrow> t | Some t' \<Rightarrow> t')) items)))"

definition to_bigquery :: "bf_schema \<Rightarrow> (bf_type \<Rightarrow> string option) \<Rightarrow> schema_field list result" where
  "to_bigquery items overrides = mapM (\<lambda>item. convert_to_schema_field (fst item) (snd item) overrides) items"

definition to_pyarrow :: "bf_schema \<Rightarrow> bool \<Rightarrow> (string \<times> arrow_type \<times> bool) list result" where
  "to_pyarrow items use_storage_types =
     mapM (\<lambda>(nm, t). rbind (field_arrow (Some t)) (\<lambda>a.
        let a = (if use_storage_types then to_storage_type a else a) in Inr (nm, a, \<not> is_list a))) items"

subsection \<open>Predicates\<close>

definition is_time_or_date_like :: "etype \<Rightarrow> bool" where
  "is_time_or_date_like t \<longleftrightarrow> t \<in> {Some DATE_DTYPE, Some DATETIME_DTYPE, Some TIME_DTYPE, Some TIMESTAMP_DTYPE}"

definition is_array_string_like :: "bf_type option \<Rightarrow> bool" where
  "is_array_string_like t \<longleftrightarrow> t = Some (ArrowDtype (ListT StringT))"

definition is_json_like :: "etype \<Rightarrow> bool" where
  "is_json_like t \<longleftrightarrow> t = Some JSON_DTYPE \<or> t = Some STRING_DTYPE"

definition is_json_encoding_type :: "etype \<Rightarrow> bool" where
  "is_json_encoding_type t \<longleftrightarrow> t \<noteq> Some GEO_DTYPE"

definition is_iterable :: "etype \<Rightarrow> bool" where
  "is_iterable t \<longleftrightarrow> t \<in> {Some STRING_DTYPE, Some BYTES_DTYPE} \<or> is_array_like t"

definition is_clusterable :: "etype \<Rightarrow> bool" where
  "is_clusterable t \<longleftrightarrow> (case t of None \<Rightarrow> False | Some d \<Rightarrow> d \<in> set (map info_dtype (filter clusterable SIMPLE_TYPES)))"

lemma simple_types_rows: "map fst SIMPLE_CONVERSIONS = map info_dtype SIMPLE_TYPES"
  by (simp add: SIMPLE_CONVERSIONS_def SIMPLE_TYPES_def)

definition lcd_type_or_throw :: "dtype \<Rightarrow> dtype \<Rightarrow> dtype result" where
  "lcd_type_or_throw d1 d2 =
     rbind (lcd_type [Some d1, Some d2]) (\<lambda>r. case r of None \<Rightarrow> Inl NotImplementedError | Some d \<Rightarrow> Inr d)"

subsection \<open>Literals\<close>

text \<open>The values of Python that have a type, with the datetimes by their digits and whether they carry a time zone.\<close>

datatype pyval =
    PyNone | PyBool bool | PyInt int | PyFloat rat | PyNaN | PyDecimal rat | PyStr string | PyBytes string
  | PyDate "nat list" | PyTime "nat list" | PyDatetime "nat list" bool | PyTimedelta int | PyGeometry
  | PyList "pyval list" | PyDict "(string \<times> pyval) list" | PyScalar arrow_type | PyOther

text \<open>The classes that the code distinguishes; numpy's and pandas' classes go with Python's.\<close>

datatype py_type =
    TimedeltaClass | BoolClass | IntClass | FloatClass | DecimalClass | StrClass | BytesClass
  | DateClass | DatetimeClass | TimeClass | GeometryClass | OtherClass

fun py_type_of :: "pyval \<Rightarrow> py_type" where
  "py_type_of (PyBool _) = BoolClass" | "py_type_of (PyInt _) = IntClass" | "py_type_of (PyFloat _) = FloatClass"
| "py_type_of PyNaN = FloatClass" | "py_type_of (PyDecimal _) = DecimalClass" | "py_type_of (PyStr _) = StrClass"
| "py_type_of (PyBytes _) = BytesClass" | "py_type_of (PyDate _) = DateClass" | "py_type_of (PyTime _) = TimeClass"
| "py_type_of (PyDatetime _ _) = DatetimeClass" | "py_type_of (PyTimedelta _) = TimedeltaClass"
| "py_type_of PyGeometry = GeometryClass" | "py_type_of _ = OtherClass"

definition infer_dtype_from_python_type :: "py_type \<Rightarrow> bf_type result" where
  "infer_dtype_from_python_type c =
     (if c = TimedeltaClass then Inr TIMEDELTA_TYPE
      else if c = BoolClass then Inr BooleanDtype
      else if c = IntClass then Inr Int64Dtype
      else if c = FloatClass then Inr Float64Dtype
      else if c = DecimalClass then Inr (ArrowDtype (Decimal128T 38 9))
      else if c = StrClass then Inr StringDtype
      else if c = BytesClass then Inr (ArrowDtype BinaryT)
      else if c \<in> {DateClass, DatetimeClass} then Inr (ArrowDtype Date32T)
      else if c = TimeClass then Inr (ArrowDtype (Time64T Microseconds))
      else if c = GeometryClass then Inr GeometryDtype
      else Inl TypeError)"

definition bf_hierarchy :: "bf_type list" where
  "bf_hierarchy = [BooleanDtype, Int64Dtype, ArrowDtype (Decimal128T 38 9), ArrowDtype (Decimal256T 76 38), Float64Dtype]"

text \<open>The common type of columns, as \<^const>\<open>lcd_type\<close>, of pandas types.\<close>

definition bf_lcd_type :: "bf_type option list \<Rightarrow> bf_type option result" where
  "bf_lcd_type ts =
     (if ts = [] then Inl ValueError
      else let unique = remdups (map the (filter (\<lambda>t. t \<noteq> None) ts))
           in if unique = [] then Inr None
              else if length unique = 1 then Inr (Some (hd unique))
              else if \<exists>d \<in> set unique. d \<notin> set bf_hierarchy then Inr None
              else Inr (Some (bf_hierarchy ! foldr max (map (index_of bf_hierarchy) unique) 0)))"

fun infer_literal_bf_type :: "pyval \<Rightarrow> bf_type option result" where
  "infer_literal_bf_type (PyScalar a) = rbind (arrow_dtype_to_bigframes_dtype a False) (\<lambda>t. Inr (Some t))"
| "infer_literal_bf_type (PyDict items) =
     rbind (mapM (\<lambda>(key, v). rbind (infer_literal_bf_type v) (\<lambda>t. rbind (field_arrow t) (\<lambda>a. Inr (key, a, \<not> is_list a)))) items)
       (\<lambda>fs. Inr (Some (ArrowDtype (StructT fs))))"
| "infer_literal_bf_type (PyList vs) =
     rbind (mapM infer_literal_bf_type vs) (\<lambda>element_types.
     rbind (bf_lcd_type element_types) (\<lambda>common_type. rbind (list_type common_type) (\<lambda>t. Inr (Some t))))"
| "infer_literal_bf_type PyNone = Inr None"
| "infer_literal_bf_type PyNaN = Inr None"
| "infer_literal_bf_type (PyDatetime digits has_tz) =
     Inr (Some (ArrowDtype (TimestampT Microseconds (if has_tz then Some ''UTC'' else None))))"
| "infer_literal_bf_type v = rbind (infer_dtype_from_python_type (py_type_of v)) (\<lambda>t. Inr (Some t))"

fun arrow_type_to_literal :: "arrow_type \<Rightarrow> pyval result" where
  "arrow_type_to_literal (ListT a) = rbind (arrow_type_to_literal a) (\<lambda>v. Inr (PyList [v]))"
| "arrow_type_to_literal (StructT fs) =
     rbind (mapM (\<lambda>(nm, a, _). rbind (arrow_type_to_literal a) (\<lambda>v. Inr (nm, v))) fs) (\<lambda>items. Inr (PyDict (dict_items items)))"
| "arrow_type_to_literal StringT = Inr (PyStr ''string'')"
| "arrow_type_to_literal BinaryT = Inr (PyBytes ''bytes'')"
| "arrow_type_to_literal (FloatT _) = Inr (PyFloat 1)"
| "arrow_type_to_literal (IntT _) = Inr (PyInt 1)"
| "arrow_type_to_literal (UIntT _) = Inr (PyInt 1)"
| "arrow_type_to_literal BoolT = Inr (PyBool True)"
| "arrow_type_to_literal Date32T = Inr (PyDate [2025, 1, 1])"
| "arrow_type_to_literal (TimestampT _ tz) = Inr (PyDatetime [2025, 1, 1, 1, 1] (tz \<noteq> None))"
| "arrow_type_to_literal (Decimal128T _ _) = Inr (PyDecimal 1)"
| "arrow_type_to_literal (Decimal256T _ _) = Inr (PyDecimal 1)"
| "arrow_type_to_literal (Time64T _) = Inr (PyTime [1, 1, 1])"
| "arrow_type_to_literal _ = Inl TypeError"

end
