(* ===== verification/Type_Properties.thy ===== *)
theory Type_Properties
  imports Type_Conversions
begin

text \<open>
  What the conversions of \<^verbatim>\<open>Type_Conversions\<close> promise each other: the types that survive being stored
  in BigQuery, the literals that have the type they stand for, the storage types of Arrow.
\<close>

subsection \<open>What can be stored\<close>

text \<open>
  The Arrow types that survive being the type of a field or of an element: no list of lists, no
  list of durations, durations in microseconds, and fields that are nullable unless they are lists.
\<close>

fun nests :: "arrow_type \<Rightarrow> bool" where
  "nests (ListT a) = (\<not> is_list a \<and> \<not> is_duration a \<and> nests a)"
| "nests (StructT fs) = list_all (\<lambda>(_, a, nullable). nests a \<and> nullable = (\<not> is_list a)) fs"
| "nests (DurationT u) = (u = Microseconds)"
| "nests a = (dict_of ARROW_TO_BIGFRAMES a \<noteq> None)"

definition storable :: "bf_type \<Rightarrow> bool" where
  "storable t \<longleftrightarrow> t \<in> set simple_dtypes \<or>
     (case t of ArrowDtype a \<Rightarrow> (is_list a \<or> is_struct a \<or> is_duration a) \<and> nests a | _ \<Rightarrow> False)"

lemma tables_agree:
  "dict_of ARROW_TO_BIGFRAMES a = Some t \<Longrightarrow> dict_of BIGFRAMES_TO_ARROW t = Some a \<and>
     (\<exists>tk. dict_of BIGFRAMES_TO_TK t = Some tk \<and> dict_of TK_TO_BIGFRAMES tk = Some t \<and> tk \<noteq> ''RECORD'')"
  by (auto simp: conversion_tables dict_of_Cons split: if_splits)

lemma simple_dtypes_keep:
  "t \<in> set simple_dtypes \<Longrightarrow> \<exists>tk. dict_of BIGFRAMES_TO_TK t = Some tk \<and> dict_of TK_TO_BIGFRAMES tk = Some t \<and> tk \<noteq> ''RECORD''"
  by (auto simp: conversion_tables dict_of_Cons)

lemma not_in_tables [simp]:
  "dict_of ARROW_TO_BIGFRAMES (ListT a) = None" "dict_of ARROW_TO_BIGFRAMES (StructT fs) = None"
  "dict_of ARROW_TO_BIGFRAMES (DurationT u) = None"
  "dict_of BIGFRAMES_TO_ARROW (ArrowDtype (ListT a)) = None" "dict_of BIGFRAMES_TO_ARROW (ArrowDtype (StructT fs)) = None"
  "dict_of BIGFRAMES_TO_ARROW (ArrowDtype (DurationT u)) = None"
  "dict_of BIGFRAMES_TO_TK (ArrowDtype (ListT a)) = None" "dict_of BIGFRAMES_TO_TK (ArrowDtype (StructT fs)) = None"
  "dict_of BIGFRAMES_TO_TK (ArrowDtype (DurationT u)) = None"
  by (simp_all add: conversion_tables dict_of_Cons)

lemma arrow_to_bigframes_nested [simp]:
  "arrow_dtype_to_bigframes_dtype (ListT a) False = Inr (ArrowDtype (ListT a))"
  "arrow_dtype_to_bigframes_dtype (StructT fs) False = Inr (ArrowDtype (StructT fs))"
  "arrow_dtype_to_bigframes_dtype (DurationT u) False = Inr TIMEDELTA_TYPE"
  by (simp_all add: arrow_dtype_to_bigframes_dtype_def)

lemma nested_arrow_nested [simp]:
  "nested_arrow (Some (ArrowDtype (ListT a))) = Inr (ListT a)"
  "nested_arrow (Some (ArrowDtype (StructT fs))) = Inr (StructT fs)"
  "nested_arrow (Some (ArrowDtype (DurationT u))) = Inr (DurationT u)"
  by (simp_all add: nested_arrow_def bigframes_dtype_to_arrow_dtype_def pa_type_def)

text \<open>The Arrow type of an element is read as a type, and back.\<close>

lemma simple_read:
  "dict_of ARROW_TO_BIGFRAMES a = Some s \<Longrightarrow> arrow_dtype_to_bigframes_dtype a False = Inr s \<and> nested_arrow (Some s) = Inr a"
  using tables_agree [of a s]
  by (auto simp: arrow_dtype_to_bigframes_dtype_def nested_arrow_def bigframes_dtype_to_arrow_dtype_def pa_type_def)

lemma nests_cases:
  assumes "nests a"
  obtains (list) b where "a = ListT b" "nests b" "\<not> is_list b" "\<not> is_duration b"
    | (struct) fs where "a = StructT fs" "\<And>n b nullable. (n, b, nullable) \<in> set fs \<Longrightarrow> nests b \<and> nullable = (\<not> is_list b)"
    | (duration) "a = DurationT Microseconds" | (simple) s where "dict_of ARROW_TO_BIGFRAMES a = Some s"
proof (cases a)
  case (StructT fs)
  have "nests b \<and> nullable = (\<not> is_list b)" if "(n, b, nullable) \<in> set fs" for n b nullable
    using assms that by (auto simp: StructT list_all_iff)
  then show ?thesis using struct StructT by blast
qed (use assms list duration simple in auto)

lemma nests_read: "nests a \<Longrightarrow> \<exists>t. arrow_dtype_to_bigframes_dtype a False = Inr t \<and> nested_arrow (Some t) = Inr a"
  by (erule nests_cases) (auto simp: TIMEDELTA_TYPE_def dest!: simple_read)

subsection \<open>Fields round trip\<close>

text \<open>What a field is when its mode is changed to repeated.\<close>

definition repeat_field :: "schema_field \<Rightarrow> schema_field" where
  "repeat_field f = SchemaField (sf_name f) (sf_field_type f) ''REPEATED'' (sf_description f) (sf_fields f)"

definition converts_back :: "string \<Rightarrow> bf_type \<Rightarrow> bool" where
  "converts_back nm t \<longleftrightarrow> (\<exists>f. convert_to_schema_field nm t Map.empty = Inr f \<and> convert_schema_field f = Inr (nm, t) \<and> sf_name f = nm)"

definition converts_repeated :: "string \<Rightarrow> bf_type \<Rightarrow> arrow_type \<Rightarrow> bool" where
  "converts_repeated nm t a \<longleftrightarrow> (\<exists>f. convert_to_schema_field nm t Map.empty = Inr f \<and> sf_name f = nm \<and>
     convert_schema_field (repeat_field f) = Inr (nm, ArrowDtype (ListT a)))"

lemma simple_converts:
  assumes "dict_of BIGFRAMES_TO_TK t = Some tk" "dict_of TK_TO_BIGFRAMES tk = Some t" "tk \<noteq> ''RECORD''"
  shows "converts_back nm t" "nested_arrow (Some t) = Inr a \<Longrightarrow> converts_repeated nm t a"
  using assms by (auto simp: converts_back_def converts_repeated_def repeat_field_def convert_to_schema_field.simps [of _ t] repeated_dtype_def)

lemma struct_converts:
  assumes "\<And>n a nullable. (n, a, nullable) \<in> set fs \<Longrightarrow> (\<forall>t. arrow_dtype_to_bigframes_dtype a False = Inr t \<longrightarrow> converts_back n t) \<and>
             nests a \<and> nullable = (\<not> is_list a)"
  shows "converts_back nm (ArrowDtype (StructT fs)) \<and> converts_repeated nm (ArrowDtype (StructT fs)) (StructT fs)"
proof -
  define h where "h f = (fst f, projr (arrow_dtype_to_bigframes_dtype (fst (snd f)) False))" for f :: "string \<times> arrow_type \<times> bool"
  have "\<exists>y. rbind (arrow_dtype_to_bigframes_dtype (fst (snd f)) False) (\<lambda>t. convert_to_schema_field (fst f) t Map.empty) = Inr y \<and>
          convert_schema_field y = Inr (h f)" if "f \<in> set fs" for f
  proof -
    obtain n a nullable where f: "f = (n, a, nullable)" by (cases f)
    then have "nests a" "\<forall>t. arrow_dtype_to_bigframes_dtype a False = Inr t \<longrightarrow> converts_back n t" using assms that by blast+
    then show ?thesis using nests_read [of a] by (auto simp: f h_def converts_back_def)
  qed
  then obtain ys where
    ys: "mapM (\<lambda>f. rbind (arrow_dtype_to_bigframes_dtype (fst (snd f)) False) (\<lambda>t. convert_to_schema_field (fst f) t Map.empty)) fs = Inr ys"
      "mapM convert_schema_field ys = Inr (map h fs)"
    using mapM_round_trip [of fs "\<lambda>f. rbind (arrow_dtype_to_bigframes_dtype (fst (snd f)) False) (\<lambda>t. convert_to_schema_field (fst f) t Map.empty)"
        convert_schema_field h] by blast
  have "(\<lambda>(nm, t). rbind (field_arrow (Some t)) (\<lambda>a. Inr (nm, a, \<not> is_list a))) (h f) = Inr f" if "f \<in> set fs" for f
  proof -
    obtain n a nullable where f: "f = (n, a, nullable)" by (cases f)
    then have "nests a" "nullable = (\<not> is_list a)" using assms that by blast+
    then show ?thesis using nests_read [of a] by (auto simp: f h_def)
  qed
  then have reread: "mapM (\<lambda>(nm, t). rbind (field_arrow (Some t)) (\<lambda>a. Inr (nm, a, \<not> is_list a))) (map h fs) = Inr fs" by (rule mapM_back)
  show ?thesis using ys reread
    by (auto simp: converts_back_def converts_repeated_def repeat_field_def convert_to_schema_field.simps [of _ "ArrowDtype (StructT _)"]
        record_dtype_def repeated_dtype_def OBJ_REF_TYPE_def)
qed

lemma nests_converts:
  "nests a \<Longrightarrow> arrow_dtype_to_bigframes_dtype a False = Inr t \<Longrightarrow>
     converts_back nm t \<and> (\<not> is_list a \<longrightarrow> \<not> is_duration a \<longrightarrow> converts_repeated nm t a)"
proof (induction "size a" arbitrary: a nm t rule: less_induct)
  case less
  show ?case using less.prems(1)
  proof (cases rule: nests_cases)
    case (list b)
    then obtain s where s: "arrow_dtype_to_bigframes_dtype b False = Inr s" using nests_read [of b] by auto
    have "converts_repeated nm s b" using less.hyps [of b s nm] s list by simp
    then show ?thesis using less.prems s list
      by (auto simp: converts_back_def converts_repeated_def repeat_field_def convert_to_schema_field.simps [of _ "ArrowDtype (ListT _)"])
  next
    case (struct fs)
    have "(\<forall>t. arrow_dtype_to_bigframes_dtype b False = Inr t \<longrightarrow> converts_back n t) \<and> nests b \<and> nullable = (\<not> is_list b)"
      if "(n, b, nullable) \<in> set fs" for n b nullable
    proof -
      have "size b < size a" unfolding struct(1)
        using size_list_estimation' [OF that, of "size b" "size_prod (\<lambda>x. 0) (size_prod size (\<lambda>x. 0))"] by simp
      then show ?thesis using less.hyps [of b _ n] struct(2) [OF that] by blast
    qed
    from struct_converts [OF this] show ?thesis using less.prems(2) struct(1) by auto
  next
    case duration
    then show ?thesis using less.prems(2)
      by (auto simp: converts_back_def convert_to_schema_field.simps [of _ "ArrowDtype (DurationT _)"] TIMEDELTA_TYPE_def endswith_def)
  next
    case (simple s)
    then have "t = s" "nested_arrow (Some t) = Inr a" using less.prems(2) simple_read [OF simple] by auto
    then show ?thesis using tables_agree [OF simple] simple_converts by blast
  qed
qed

lemma storable_converts: "storable t \<Longrightarrow> converts_back nm t"
proof (unfold storable_def, elim disjE)
  assume "t \<in> set simple_dtypes"
  then show "converts_back nm t" using simple_dtypes_keep simple_converts(1) by blast
next
  assume "case t of ArrowDtype a \<Rightarrow> (is_list a \<or> is_struct a \<or> is_duration a) \<and> nests a | _ \<Rightarrow> False"
  then obtain a where "t = ArrowDtype a" "nests a" "is_list a \<or> is_struct a \<or> is_duration a" by (cases t) auto
  then show "converts_back nm t" using nests_converts [of a t nm] by (cases a) (auto simp: TIMEDELTA_TYPE_def)
qed

subsection \<open>Schemas round trip\<close>

lemma to_bigquery_back:
  assumes "\<And>nm t. (nm, t) \<in> set items \<Longrightarrow> storable t"
  shows "\<exists>fs. to_bigquery items Map.empty = Inr fs \<and> mapM convert_schema_field fs = Inr items \<and> map sf_name fs = map fst items"
  using assms unfolding to_bigquery_def
proof (induction items)
  case (Cons item items)
  obtain nm t where item: "item = (nm, t)" by (cases item)
  then obtain f where "convert_to_schema_field nm t Map.empty = Inr f" "convert_schema_field f = Inr (nm, t)" "sf_name f = nm"
    using storable_converts [of t nm] Cons.prems by (auto simp: converts_back_def)
  moreover obtain fs where "mapM (\<lambda>item. convert_to_schema_field (fst item) (snd item) Map.empty) items = Inr fs"
      "mapM convert_schema_field fs = Inr items" "map sf_name fs = map fst items"
    using Cons by auto
  ultimately show ?case by (intro exI [of _ "f # fs"]) (simp add: item)
qed simp

lemma convert_selected:
  assumes "mapM convert_schema_field fs = Inr items" "map sf_name fs = map fst items" "set columns \<subseteq> set (map fst items)"
  shows "rbind (mapM (lookup_or KeyError (dict_of (map (\<lambda>f. (sf_name f, f)) fs))) columns) (mapM convert_schema_field) =
           Inr (map (\<lambda>c. (c, the (dict_of items c))) columns)"
  using assms(3)
proof (induction columns)
  case (Cons c columns)
  have step: "\<exists>f. dict_of (map (\<lambda>f. (sf_name f, f)) fs) c = Some f \<and> convert_schema_field f = Inr (c, the (dict_of items c))"
    if "mapM convert_schema_field fs = Inr items" "map sf_name fs = map fst items" "c \<in> fst ` set items" for fs items
    using that
  proof (induction fs arbitrary: items)
    case (Cons f fs)
    then obtain t rest where items: "items = (sf_name f, t) # rest" "convert_schema_field f = Inr (sf_name f, t)"
        "mapM convert_schema_field fs = Inr rest" "map sf_name fs = map fst rest"
      by (auto simp: rbind_eq_Inr_iff)
    show ?case
    proof (cases "c \<in> fst ` set rest")
      case True
      then show ?thesis using Cons.IH [OF items(3,4)] dict_of_eq_None_iff [of rest c] by (auto simp: items dict_of_Cons split: option.splits)
    next
      case False
      have "sf_name ` set fs = fst ` set rest" using items(4) by (metis list.set_map)
      then have "dict_of (map (\<lambda>f. (sf_name f, f)) fs) c = None" "dict_of rest c = None"
        using False by (auto simp: dict_of_eq_None_iff image_image)
      moreover have "c = sf_name f" using False Cons.prems(3) by (auto simp: items)
      ultimately show ?thesis using items by (simp add: dict_of_Cons)
    qed
  qed simp
  show ?case using step [OF assms(1,2)] Cons by (auto simp: rbind_eq_Inr_iff)
qed simp


text \<open>
  C10: A schema of distinct columns whose types can be stored is written as BigQuery fields and read
  back as it was: \<^verbatim>\<open>from_bq_schema\<close> undoes \<^verbatim>\<open>to_bigquery\<close>, nested records, repeated fields, the
  tagged types (durations as integers, object references as records) included. Reading only some columns gives these.
\<close>

theorem schema_round_trip:
  assumes "distinct (map fst items)" "list_all storable (map snd items)"
  shows "\<exists>fs. to_bigquery items Map.empty = Inr fs \<and> from_bq_schema fs Map.empty [] = Inr items \<and>
     (\<forall>columns. columns \<noteq> [] \<and> distinct columns \<and> set columns \<subseteq> set (map fst items) \<longrightarrow>
        from_bq_schema fs Map.empty columns = Inr (map (\<lambda>c. (c, the (dict_of items c))) columns))"
proof -
  obtain fs where fs: "to_bigquery items Map.empty = Inr fs" "mapM convert_schema_field fs = Inr items" "map sf_name fs = map fst items"
    using to_bigquery_back [of items] assms(2) by (fastforce simp: list_all_iff)
  have "from_bq_schema fs Map.empty columns = Inr (map (\<lambda>c. (c, the (dict_of items c))) columns)"
    if "distinct columns" "columns \<noteq> []" "set columns \<subseteq> set (map fst items)" for columns
    using convert_selected [OF fs(2,3) that(3)] that(1,2)
    by (auto simp: from_bq_schema_def bf_type_from_type_kind_def rbind_eq_Inr_iff dict_items_distinct comp_def)
  then show ?thesis using fs dict_items_distinct [OF assms(1)]
    by (auto simp: from_bq_schema_def bf_type_from_type_kind_def)
qed

theorem schema_round_trip_witness:
  "\<exists>fs. to_bigquery [(''a'', ArrowDtype (ListT (StructT [(''x'', IntT 64, True)]))), (''b'', TIMEDELTA_TYPE)] Map.empty = Inr fs \<and>
     from_bq_schema fs Map.empty [] = Inr [(''a'', ArrowDtype (ListT (StructT [(''x'', IntT 64, True)]))), (''b'', TIMEDELTA_TYPE)]"
proof -
  have "list_all storable [ArrowDtype (ListT (StructT [(''x'', IntT 64, True)])), TIMEDELTA_TYPE]"
    by (simp add: storable_def TIMEDELTA_TYPE_def conversion_tables dict_of_Cons)
  then show ?thesis
    using schema_round_trip [of "[(''a'', ArrowDtype (ListT (StructT [(''x'', IntT 64, True)]))), (''b'', TIMEDELTA_TYPE)]"] by auto
qed

text \<open>
  \<^verbatim>\<open>struct_type\<close> makes every field nullable, and reading a field back makes the lists not nullable,
  so a struct with a list does not come back as the same type.
\<close>

lemma struct_type_of_list_changes:
  "\<exists>t f t'. struct_type [(''a'', ArrowDtype (ListT (IntT 64)))] = Inr t \<and> convert_to_schema_field nm t Map.empty = Inr f \<and>
     convert_schema_field f = Inr (nm, t') \<and> t' \<noteq> t"
  by (simp add: struct_type_def convert_to_schema_field.simps [of _ "ArrowDtype _"] convert_to_schema_field.simps [of _ Int64Dtype]
      record_dtype_def repeated_dtype_def OBJ_REF_TYPE_def conversion_tables dict_of_Cons arrow_dtype_to_bigframes_dtype_def nested_arrow_def
      bigframes_dtype_to_arrow_dtype_def pa_type_def field_arrow_def)

subsection \<open>Literals round trip\<close>

text \<open>
  The Arrow types that a literal can stand for: of the simple types those whose literals Python
  tells apart, which leaves out the two that share a class with another (large decimals, JSON).
\<close>

fun has_literal :: "arrow_type \<Rightarrow> bool" where
  "has_literal (ListT a) = has_literal a"
| "has_literal (StructT fs) = (distinct (map fst fs) \<and> list_all (\<lambda>(_, a, nullable). has_literal a \<and> nullable = (\<not> is_list a)) fs)"
| "has_literal a = (dict_of ARROW_TO_BIGFRAMES a \<noteq> None \<and> a \<noteq> Decimal256T 76 38 \<and> a \<noteq> JSONArrowType)"

lemma has_literal_cases:
  assumes "has_literal a"
  obtains (list) b where "a = ListT b" "has_literal b"
    | (struct) fs where "a = StructT fs" "distinct (map fst fs)"
        "\<And>n b nullable. (n, b, nullable) \<in> set fs \<Longrightarrow> has_literal b \<and> nullable = (\<not> is_list b)"
    | (simple) s where "dict_of ARROW_TO_BIGFRAMES a = Some s" "a \<noteq> Decimal256T 76 38" "a \<noteq> JSONArrowType"
proof (cases a)
  case (StructT fs)
  have "has_literal b \<and> nullable = (\<not> is_list b)" if "(n, b, nullable) \<in> set fs" for n b nullable
    using assms that by (auto simp: StructT list_all_iff)
  then show ?thesis using struct StructT assms by simp
qed (use assms list simple in auto)

definition has_type :: "arrow_type \<Rightarrow> pyval \<Rightarrow> bool" where
  "has_type a v \<longleftrightarrow> (\<exists>t. arrow_dtype_to_bigframes_dtype a False = Inr t \<and> infer_literal_bf_type v = Inr (Some t) \<and> nested_arrow (Some t) = Inr a)"

lemma simple_literal:
  "dict_of ARROW_TO_BIGFRAMES a = Some s \<Longrightarrow> a \<noteq> Decimal256T 76 38 \<Longrightarrow> a \<noteq> JSONArrowType \<Longrightarrow>
     \<exists>v. arrow_type_to_literal a = Inr v \<and> infer_literal_bf_type v = Inr (Some s)"
  by (auto simp: conversion_tables dict_of_Cons infer_dtype_from_python_type_def split: if_splits)

lemma struct_literal:
  assumes "distinct (map fst fs)"
    and "\<And>n a nullable. (n, a, nullable) \<in> set fs \<Longrightarrow> nullable = (\<not> is_list a) \<and> (\<exists>v. arrow_type_to_literal a = Inr v \<and> has_type a v)"
  shows "\<exists>v. arrow_type_to_literal (StructT fs) = Inr v \<and> has_type (StructT fs) v"
proof -
  let ?make = "\<lambda>(nm, a, _). rbind (arrow_type_to_literal a) (\<lambda>v. Inr (nm, v))"
  let ?read = "\<lambda>(key, v). rbind (infer_literal_bf_type v) (\<lambda>t. rbind (field_arrow t) (\<lambda>a. Inr (key, a, \<not> is_list a)))"
  have "\<exists>ys. mapM ?make fs = Inr ys \<and> mapM ?read ys = Inr (map id fs)"
  proof (rule mapM_round_trip)
    fix f assume "f \<in> set fs"
    obtain n a nullable where f: "f = (n, a, nullable)" by (cases f)
    then obtain v where "nullable = (\<not> is_list a)" "arrow_type_to_literal a = Inr v" "has_type a v" using assms(2) \<open>f \<in> set fs\<close> by blast
    then show "\<exists>y. ?make f = Inr y \<and> ?read y = Inr (id f)" by (auto simp: f has_type_def)
  qed
  then obtain items where items: "mapM ?make fs = Inr items" "mapM ?read items = Inr fs" by auto
  have "map fst items = map fst fs"
    using items(1) by (induction fs arbitrary: items) (auto simp: rbind_eq_Inr_iff)
  then have "dict_items items = items" using assms(1) dict_items_distinct [of items] by simp
  then show ?thesis using items by (auto simp: has_type_def)
qed

lemma list_literal:
  assumes "arrow_type_to_literal a = Inr v" "has_type a v"
  shows "arrow_type_to_literal (ListT a) = Inr (PyList [v]) \<and> has_type (ListT a) (PyList [v])"
  using assms by (auto simp: has_type_def bf_lcd_type_def list_type_def)

lemma literals_exist: "has_literal a \<Longrightarrow> \<exists>v. arrow_type_to_literal a = Inr v \<and> has_type a v"
proof (induction "size a" arbitrary: a rule: less_induct)
  case less
  show ?case using less.prems
  proof (cases rule: has_literal_cases)
    case (list b)
    then show ?thesis using less.hyps [of b] list_literal [of b] by auto
  next
    case (struct fs)
    have "nullable = (\<not> is_list b) \<and> (\<exists>v. arrow_type_to_literal b = Inr v \<and> has_type b v)" if "(n, b, nullable) \<in> set fs" for n b nullable
    proof -
      have "size b < size a" unfolding struct(1)
        using size_list_estimation' [OF that, of "size b" "size_prod (\<lambda>x. 0) (size_prod size (\<lambda>x. 0))"] by simp
      then show ?thesis using less.hyps [of b] struct(3) [OF that] by blast
    qed
    from struct_literal [OF struct(2) this] show ?thesis unfolding struct(1) .
  next
    case (simple s)
    then show ?thesis using simple_literal [of a s] simple_read [of a s] by (auto simp: has_type_def)
  qed
qed

text \<open>Conversely a type that its literal is inferred to have is one of these.\<close>

definition literal_typed :: "arrow_type \<Rightarrow> bool" where
  "literal_typed a \<longleftrightarrow> (\<exists>v t. arrow_type_to_literal a = Inr v \<and> infer_literal_bf_type v = Inr (Some t) \<and> nested_arrow (Some t) = Inr a)"

lemma nested_arrow_Some: "nested_arrow t = Inr a \<Longrightarrow> \<exists>s. t = Some s"
  by (cases t) (simp_all add: nested_arrow_def bigframes_dtype_to_arrow_dtype_def)

lemma field_arrow_nested: "field_arrow t = Inr a \<Longrightarrow> \<exists>s. t = Some s \<and> nested_arrow (Some s) = Inr a"
  by (cases t) (auto simp: field_arrow_def nested_arrow_def pa_type_def rbind_eq_Inr_iff bigframes_dtype_to_arrow_dtype_def split: option.splits)

lemma literal_typed_list: "literal_typed (ListT a) \<Longrightarrow> literal_typed a"
proof -
  assume "literal_typed (ListT a)"
  then obtain v t s where vs: "arrow_type_to_literal a = Inr v" "infer_literal_bf_type v = Inr s" "rbind (bf_lcd_type [s]) list_type = Inr t"
      "nested_arrow (Some t) = Inr (ListT a)"
    by (auto simp: literal_typed_def rbind_eq_Inr_iff)
  then have "bf_lcd_type [s] = Inr s" by (cases s) (simp_all add: bf_lcd_type_def)
  then obtain b where "nested_arrow s = Inr b" "t = ArrowDtype (ListT b)" using vs(3) by (auto simp: list_type_def rbind_eq_Inr_iff)
  then show ?thesis using vs nested_arrow_Some [of s b] by (auto simp: literal_typed_def)
qed

lemma mapM_zip:
  "mapM g xs = Inr ys \<Longrightarrow> mapM k ys = Inr zs \<Longrightarrow> (x, z) \<in> set (zip xs zs) \<Longrightarrow> \<exists>y. g x = Inr y \<and> k y = Inr z"
  by (induction xs arbitrary: ys zs) (auto simp: rbind_eq_Inr_iff)

lemma mapM_keys: "mapM k ys = Inr zs \<Longrightarrow> (\<And>y z. k y = Inr z \<Longrightarrow> fst z = fst y) \<Longrightarrow> map fst zs = map fst ys"
  by (induction ys arbitrary: zs) (auto simp: rbind_eq_Inr_iff)

lemma literal_typed_struct:
  assumes "literal_typed (StructT fs)"
  shows "distinct (map fst fs)" "(nm, a, nullable) \<in> set fs \<Longrightarrow> literal_typed a \<and> nullable = (\<not> is_list a)"
proof -
  let ?make = "\<lambda>(nm, a, _). rbind (arrow_type_to_literal a) (\<lambda>v. Inr (nm, v))"
  let ?read = "\<lambda>(key, v). rbind (infer_literal_bf_type v) (\<lambda>t. rbind (field_arrow t) (\<lambda>a. Inr (key, a, \<not> is_list a)))"
  obtain items where items: "mapM ?make fs = Inr items" "mapM ?read (dict_items items) = Inr fs"
    using assms by (auto simp: literal_typed_def rbind_eq_Inr_iff)
  have keys: "map fst items = map fst fs" "map fst fs = map fst (dict_items items)"
    by (rule mapM_keys [OF items(1)] mapM_keys [OF items(2)]; auto simp: rbind_eq_Inr_iff)+
  show dist: "distinct (map fst fs)" unfolding keys(2) by (simp add: dict_items_def comp_def first_occurrences_def)
  then have "dict_items items = items" using keys(1) by (intro dict_items_distinct) simp
  then have again: "mapM ?read items = Inr fs" using items(2) by simp
  assume "(nm, a, nullable) \<in> set fs"
  then have "((nm, a, nullable), (nm, a, nullable)) \<in> set (zip fs fs)" by (simp add: zip_same)
  from mapM_zip [OF items(1) again this] have "\<exists>y. ?make (nm, a, nullable) = Inr y \<and> ?read y = Inr (nm, a, nullable)" .
  then show "literal_typed a \<and> nullable = (\<not> is_list a)"
    by (auto simp: literal_typed_def rbind_eq_Inr_iff dest: field_arrow_nested)
qed

lemma literal_typed_has_literal: "literal_typed a \<Longrightarrow> has_literal a"
proof (induction "size a" arbitrary: a rule: less_induct)
  case less
  show ?case
  proof (cases a)
    case (ListT b)
    then show ?thesis using less literal_typed_list by simp
  next
    case (StructT fs)
    note fs = literal_typed_struct [OF less.prems [unfolded StructT]]
    have "has_literal b \<and> nullable = (\<not> is_list b)" if f: "(n, b, nullable) \<in> set fs" for n b nullable
    proof -
      have "size b < size a" unfolding StructT
        using size_list_estimation' [OF f, of "size b" "size_prod (\<lambda>x. 0) (size_prod size (\<lambda>x. 0))"] by simp
      then show ?thesis using less.hyps [of b] fs(2) [OF f] by blast
    qed
    then show ?thesis using fs(1) by (auto simp: StructT list_all_iff)
  qed (use less.prems in \<open>auto simp: literal_typed_def infer_dtype_from_python_type_def nested_arrow_def bigframes_dtype_to_arrow_dtype_def
        pa_type_def conversion_tables dict_of_Cons split: if_splits\<close>)
qed

text \<open>
  C38: The literal made for an Arrow type has that type, that is, \<^verbatim>\<open>infer_literal_type\<close> of \<^verbatim>\<open>arrow_type_to_literal\<close> is the
  type the Arrow type is read as, and that type is turned into the same Arrow type, exactly for the simple types
  other than BIGNUMERIC (whose literal is inferred to be NUMERIC) and JSON (which has no literal), and for
  the lists and the structs of such types, where a struct has no name twice and its fields are nullable unless
  they are lists.
\<close>

theorem literal_round_trip:
  "has_literal a \<longleftrightarrow> (\<exists>v t. arrow_type_to_literal a = Inr v \<and> infer_literal_bf_type v = Inr (Some t) \<and>
     arrow_dtype_to_bigframes_dtype a False = Inr t \<and> bigframes_dtype_to_arrow_dtype (Some t) = Inr (Some a))"
proof
  assume "has_literal a"
  then show "\<exists>v t. arrow_type_to_literal a = Inr v \<and> infer_literal_bf_type v = Inr (Some t) \<and>
     arrow_dtype_to_bigframes_dtype a False = Inr t \<and> bigframes_dtype_to_arrow_dtype (Some t) = Inr (Some a)"
    using literals_exist [of a] by (fastforce simp: has_type_def nested_arrow_def rbind_eq_Inr_iff pa_type_def split: option.splits)
next
  assume "\<exists>v t. arrow_type_to_literal a = Inr v \<and> infer_literal_bf_type v = Inr (Some t) \<and>
     arrow_dtype_to_bigframes_dtype a False = Inr t \<and> bigframes_dtype_to_arrow_dtype (Some t) = Inr (Some a)"
  then have "literal_typed a" by (auto simp: literal_typed_def nested_arrow_def pa_type_def)
  then show "has_literal a" by (rule literal_typed_has_literal)
qed

theorem literal_round_trip_witness:
  "\<exists>v t. arrow_type_to_literal (StructT [(''x'', ListT BoolT, False), (''y'', Date32T, True)]) = Inr v \<and> infer_literal_bf_type v = Inr (Some t) \<and>
     arrow_dtype_to_bigframes_dtype (StructT [(''x'', ListT BoolT, False), (''y'', Date32T, True)]) False = Inr t \<and>
     bigframes_dtype_to_arrow_dtype (Some t) = Inr (Some (StructT [(''x'', ListT BoolT, False), (''y'', Date32T, True)]))"
  by (rule literal_round_trip [THEN iffD1]) (simp add: conversion_tables dict_of_Cons)

subsection \<open>Common types and storage types\<close>

text \<open>The two levels of types agree on common types: on simple types the coercion commutes with the table.\<close>

definition pandas_dtype :: "dtype \<Rightarrow> bf_type" where
  "pandas_dtype d = fst (the (dict_of SIMPLE_CONVERSIONS d))"

lemma remdups_map_inj: "inj_on f (set xs) \<Longrightarrow> remdups (map f xs) = map f (remdups xs)"
  by (induction xs) auto

lemma pandas_dtype_inj: "inj_on pandas_dtype (set (map info_dtype SIMPLE_TYPES))"
  by (simp add: inj_on_def pandas_dtype_def conversion_tables SIMPLE_TYPES_def dict_of_Cons)

lemma bf_hierarchy_rows: "bf_hierarchy = map pandas_dtype hierarchy"
  by (simp add: bf_hierarchy_def hierarchy_def pandas_dtype_def conversion_tables dict_of_Cons)

lemma pandas_dtype_eq:
  "d \<in> set (map info_dtype SIMPLE_TYPES) \<Longrightarrow> e \<in> set (map info_dtype SIMPLE_TYPES) \<Longrightarrow> pandas_dtype d = pandas_dtype e \<longleftrightarrow> d = e"
  using pandas_dtype_inj by (auto dest: inj_onD)

lemma hierarchy_simple: "set hierarchy \<subseteq> set (map info_dtype SIMPLE_TYPES)"
  by (simp add: hierarchy_def SIMPLE_TYPES_def)

lemma index_of_map: "(\<And>x. x \<in> set xs \<Longrightarrow> f x = f y \<longleftrightarrow> x = y) \<Longrightarrow> index_of (map f xs) (f y) = index_of xs y"
  by (induction xs) auto

lemma bf_lcd_type_refines:
  assumes "\<And>d. Some d \<in> set ts \<Longrightarrow> d \<in> set (map info_dtype SIMPLE_TYPES)"
  shows "bf_lcd_type (map (map_option pandas_dtype) ts) = rbind (lcd_type ts) (\<lambda>t. Inr (map_option pandas_dtype t))"
proof -
  define unique where "unique = remdups (map the (filter (\<lambda>t. t \<noteq> None) ts))"
  have simple: "set unique \<subseteq> set (map info_dtype SIMPLE_TYPES)" using assms by (auto simp: unique_def)
  have "map the (filter (\<lambda>t. t \<noteq> None) (map (map_option pandas_dtype) ts)) = map pandas_dtype (map the (filter (\<lambda>t. t \<noteq> None) ts))"
    by (induction ts) auto
  then have unique: "remdups (map the (filter (\<lambda>t. t \<noteq> None) (map (map_option pandas_dtype) ts))) = map pandas_dtype unique"
    using remdups_map_inj [of pandas_dtype "map the (filter (\<lambda>t. t \<noteq> None) ts)"] inj_on_subset [OF pandas_dtype_inj, of "set unique"] simple
    by (simp add: unique_def)
  have member: "pandas_dtype d \<in> set bf_hierarchy \<longleftrightarrow> d \<in> set hierarchy" if "d \<in> set unique" for d
    unfolding bf_hierarchy_rows set_map using inj_on_image_mem_iff [OF pandas_dtype_inj _ hierarchy_simple] simple that by blast
  have "index_of bf_hierarchy (pandas_dtype d) = index_of hierarchy d" if "d \<in> set unique" for d
    unfolding bf_hierarchy_rows
    by (rule index_of_map) (use that simple hierarchy_simple in \<open>blast intro!: pandas_dtype_eq\<close>)
  then have index: "map (index_of bf_hierarchy) (map pandas_dtype unique) = map (index_of hierarchy) unique" by simp
  have below: "foldr max (map (index_of hierarchy) unique) 0 < length hierarchy" if "set unique \<subseteq> set hierarchy"
    using that index_of_nth [of _ hierarchy] by (induction unique) (auto simp: hierarchy_def)
  have outside: "(\<exists>d \<in> set (map pandas_dtype unique). d \<notin> set bf_hierarchy) \<longleftrightarrow> (\<exists>d \<in> set unique. d \<notin> set hierarchy)"
    using member by simp
  have top: "bf_hierarchy ! foldr max (map (index_of hierarchy) unique) 0 = pandas_dtype (hierarchy ! foldr max (map (index_of hierarchy) unique) 0)"
    if "\<not> (\<exists>d \<in> set unique. d \<notin> set hierarchy)"
    using below that unfolding bf_hierarchy_rows by (intro nth_map) blast
  show ?thesis
    unfolding bf_lcd_type_def lcd_type_def unique index Let_def unique_def [symmetric] outside
    by (cases "\<exists>d \<in> set unique. d \<notin> set hierarchy") (simp_all add: hd_map top)
qed

lemma storage_types_have_no_json:
  "\<not> contains_db_dtypes_json_arrow_type (to_storage_type a)" "to_storage_type (to_storage_type a) = to_storage_type a"
  by (induction a) (fastforce simp: list_ex_iff)+

end
