(* ===== verification/Stored_Types.thy ===== *)
theory Stored_Types
  imports Type_Properties
begin

text \<open>
  What BigQuery keeps of a nested type: every Arrow type that can be written as a field has a stored form,
  and that form is what is read back. The types that keep their form are those that \<^verbatim>\<open>Type_Properties\<close>
  proves to survive.
\<close>

subsection \<open>The stored form\<close>

fun stored :: "arrow_type \<Rightarrow> arrow_type" where
  "stored (ListT a) = (case stored a of DurationT _ \<Rightarrow> DurationT Microseconds | ListT b \<Rightarrow> ListT b | b \<Rightarrow> ListT b)"
| "stored (StructT fs) = StructT (map (\<lambda>(nm, a, _). (nm, stored a, \<not> is_list (stored a))) fs)"
| "stored (DurationT _) = DurationT Microseconds"
| "stored NullT = FloatT 64"
| "stored LargeStringT = StringT"
| "stored JsonT = JSONArrowType"
| "stored a = a"

lemma stored_of_list: "stored a = ListT b \<Longrightarrow> \<not> is_list b \<and> \<not> is_duration b \<and> is_list a"
proof (induction a arbitrary: b rule: stored.induct)
  case (1 a)
  then show ?case by (cases "stored a") auto
qed auto

lemma stored_list_twice: "stored (ListT (ListT a)) = stored (ListT a)"
  by (cases "stored a") auto

lemma stored_list_other: "\<not> is_list (stored a) \<Longrightarrow> \<not> is_duration (stored a) \<Longrightarrow> stored (ListT a) = ListT (stored a)"
  by (cases "stored a") auto

text \<open>Exactly the types that are told to survive keep their form.\<close>

lemma stored_list_fixed: "stored (ListT a) = ListT a \<longleftrightarrow> stored a = a \<and> \<not> is_list a \<and> \<not> is_duration a"
proof (cases "stored a")
  case (ListT c)
  then show ?thesis using stored_of_list [OF ListT] by auto
next
  case (DurationT u)
  then show ?thesis by (cases a) auto
qed auto

lemma stored_leaf:
  assumes "arrow_dtype_to_bigframes_dtype a False = Inr t" "\<not> is_list a" "\<not> is_struct a" "\<not> is_duration a"
  shows "arrow_dtype_to_bigframes_dtype (stored a) False = Inr t \<and> dict_of ARROW_TO_BIGFRAMES (stored a) = Some t \<and>
    nested_arrow (Some t) = Inr (stored a) \<and> (stored a = a \<longleftrightarrow> nests a)"
proof (cases "dict_of ARROW_TO_BIGFRAMES a")
  case (Some s)
  then have "stored a = a" "nests a" using assms(2-4) by (cases a; auto simp: conversion_tables dict_of_Cons)+
  moreover have "s = t" using assms(1) Some by (simp add: arrow_dtype_to_bigframes_dtype_def)
  ultimately show ?thesis using simple_read [OF Some] Some by simp
next
  case None
  then have "a \<in> {NullT, LargeStringT, JsonT}"
    using assms by (auto simp: arrow_dtype_to_bigframes_dtype_def is_json_arrow_type_def conversion_tables dict_of_Cons split: if_splits)
  then show ?thesis
    using assms(1) by (auto simp: arrow_dtype_to_bigframes_dtype_def is_json_arrow_type_def nested_arrow_def bigframes_dtype_to_arrow_dtype_def
        pa_type_def conversion_tables dict_of_Cons)
qed

subsection \<open>Reading a field back\<close>

definition reads :: "string \<Rightarrow> arrow_type \<Rightarrow> schema_field \<Rightarrow> bool" where
  "reads nm a f \<longleftrightarrow> (\<exists>t. arrow_dtype_to_bigframes_dtype a False = Inr t \<and> nested_arrow (Some t) = Inr a \<and> convert_schema_field f = Inr (nm, t))"

definition keeps_form :: "string \<Rightarrow> arrow_type \<Rightarrow> bool" where
  "keeps_form nm a \<longleftrightarrow> (\<forall>t f. arrow_dtype_to_bigframes_dtype a False = Inr t \<longrightarrow> convert_to_schema_field nm t Map.empty = Inr f \<longrightarrow>
     (nests a \<longleftrightarrow> stored a = a) \<and> reads nm (stored a) f \<and> reads nm (stored (ListT a)) (repeat_field f))"

lemma convert_to_schema_field_name: "convert_to_schema_field nm t overrides = Inr f \<Longrightarrow> sf_name f = nm"
  by (subst (asm) convert_to_schema_field.simps) (auto simp: rbind_eq_Inr_iff split: option.splits bf_type.splits arrow_type.splits if_splits)

lemma map_fixed_iff: "map g xs = xs \<longleftrightarrow> (\<forall>x \<in> set xs. g x = x)"
  by (induction xs) simp_all

lemma mapM_values:
  assumes "mapM g xs = Inr ys" "x \<in> set xs"
  obtains y where "g x = Inr y"
  using assms by (induction xs arbitrary: ys) (auto simp: rbind_eq_Inr_iff)

lemma mapM_reads:
  "mapM g xs = Inr ys \<Longrightarrow> (\<And>x y. x \<in> set xs \<Longrightarrow> g x = Inr y \<Longrightarrow> k y = Inr (h x)) \<Longrightarrow> mapM k ys = Inr (map h xs)"
  by (induction xs arbitrary: ys) (auto simp: rbind_eq_Inr_iff)

lemma leaf_keeps_form:
  assumes "\<not> is_list a" "\<not> is_struct a" "\<not> is_duration a"
  shows "keeps_form nm a"
  unfolding keeps_form_def
proof (intro allI impI)
  fix t f assume t: "arrow_dtype_to_bigframes_dtype a False = Inr t" and f: "convert_to_schema_field nm t Map.empty = Inr f"
  note leaf = stored_leaf [OF t assms]
  then obtain tk where tk: "dict_of BIGFRAMES_TO_TK t = Some tk" "dict_of TK_TO_BIGFRAMES tk = Some t" "tk \<noteq> ''RECORD''"
    using tables_agree [of "stored a" t] by blast
  then have "f = SchemaField nm tk ''NULLABLE'' None []" using f by (simp add: convert_to_schema_field.simps [of _ t])
  moreover have "\<not> is_list (stored a)" "\<not> is_duration (stored a)" using leaf by (cases "stored a"; simp)+
  ultimately show "(nests a \<longleftrightarrow> stored a = a) \<and> reads nm (stored a) f \<and> reads nm (stored (ListT a)) (repeat_field f)"
    using leaf tk by (simp add: stored_list_other reads_def repeat_field_def repeated_dtype_def del: stored.simps)
qed

lemma list_keeps_form: "keeps_form nm a \<Longrightarrow> keeps_form nm (ListT a)"
  unfolding keeps_form_def
  by (auto simp: convert_to_schema_field.simps [of _ "ArrowDtype (ListT _)"] rbind_eq_Inr_iff repeat_field_def stored_list_twice
      stored_list_fixed simp del: stored.simps dest: convert_to_schema_field_name)

lemma duration_keeps_form: "keeps_form nm (DurationT u)"
  by (auto simp: keeps_form_def reads_def convert_to_schema_field.simps [of _ "ArrowDtype (DurationT _)"] TIMEDELTA_TYPE_def repeat_field_def endswith_def)

lemma struct_keeps_form:
  assumes "\<And>n a nullable. (n, a, nullable) \<in> set fs \<Longrightarrow> keeps_form n a"
  shows "keeps_form nm (StructT fs)"
  unfolding keeps_form_def
proof (intro allI impI)
  fix t f assume t: "arrow_dtype_to_bigframes_dtype (StructT fs) False = Inr t" and f: "convert_to_schema_field nm t Map.empty = Inr f"
  let ?make = "\<lambda>f. rbind (arrow_dtype_to_bigframes_dtype (fst (snd f)) False) (\<lambda>inner_bf_type. convert_to_schema_field (fst f) inner_bf_type Map.empty)"
  define h where "h f = (fst f, projr (arrow_dtype_to_bigframes_dtype (stored (fst (snd f))) False))" for f :: "string \<times> arrow_type \<times> bool"
  have t: "t = ArrowDtype (StructT fs)" using t by simp
  obtain ys where ys: "mapM ?make fs = Inr ys"
    "f = SchemaField nm ''RECORD'' ''NULLABLE'' (if t = OBJ_REF_TYPE then Some OBJ_REF_DESCRIPTION_TAG else None) ys"
    using f by (auto simp: t convert_to_schema_field.simps [of _ "ArrowDtype (StructT _)"] rbind_eq_Inr_iff split: if_splits)
  have each: "convert_schema_field y = Inr (h x) \<and> nested_arrow (Some (snd (h x))) = Inr (stored (fst (snd x))) \<and>
      (nests (fst (snd x)) \<longleftrightarrow> stored (fst (snd x)) = fst (snd x))" if "x \<in> set fs" "?make x = Inr y" for x y
    using that assms [of "fst x" "fst (snd x)" "snd (snd x)"] by (auto simp: keeps_form_def reads_def h_def rbind_eq_Inr_iff)
  have written: "\<exists>y. ?make x = Inr y" if "x \<in> set fs" for x
    using mapM_values [OF ys(1) that] by blast
  have read_back: "mapM convert_schema_field ys = Inr (map h fs)" by (rule mapM_reads [OF ys(1)]) (use each in blast)
  have reread: "mapM (\<lambda>(nm, t). rbind (field_arrow (Some t)) (\<lambda>a. Inr (nm, a, \<not> is_list a))) (map h fs) =
      Inr (map (\<lambda>(nm, a, _). (nm, stored a, \<not> is_list (stored a))) fs)"
  proof (rule mapM_reads)
    show "mapM (\<lambda>x. Inr (h x)) fs = Inr (map h fs)" by (induction fs) simp_all
    show "(\<lambda>(nm, t). rbind (field_arrow (Some t)) (\<lambda>a. Inr (nm, a, \<not> is_list a))) y = Inr ((\<lambda>(nm, a, _). (nm, stored a, \<not> is_list (stored a))) x)"
      if x: "x \<in> set fs" "Inr (h x) = Inr y" for x y
    proof -
      obtain z where "?make x = Inr z" using written [OF x(1)] by blast
      from each [OF x(1) this] show ?thesis using x(2) by (auto simp: h_def case_prod_unfold)
    qed
  qed
  have nests: "nests (StructT fs) \<longleftrightarrow> stored (StructT fs) = StructT fs"
  proof -
    have "(case x of (nm, a, nullable) \<Rightarrow> nests a \<and> nullable = (\<not> is_list a)) \<longleftrightarrow> (case x of (nm, a, _) \<Rightarrow> (nm, stored a, \<not> is_list (stored a))) = x"
      if "x \<in> set fs" for x
      using each [OF that] written [OF that] by (cases x) fastforce
    then show ?thesis by (simp add: list_all_iff map_fixed_iff)
  qed
  show "(nests (StructT fs) \<longleftrightarrow> stored (StructT fs) = StructT fs) \<and> reads nm (stored (StructT fs)) f \<and> reads nm (stored (ListT (StructT fs))) (repeat_field f)"
  proof (cases "t = OBJ_REF_TYPE")
    case True
    then show ?thesis using nests by (simp add: ys(2) t OBJ_REF_TYPE_def reads_def repeat_field_def repeated_dtype_def)
  next
    case False
    then show ?thesis using nests read_back reread by (simp add: ys(2) reads_def repeat_field_def record_dtype_def)
  qed
qed

lemma every_type_keeps_form: "keeps_form nm a"
proof (induction "size a" arbitrary: a nm rule: less_induct)
  case less
  show ?case
  proof (cases a)
    case (ListT b)
    then show ?thesis using less [of b nm] list_keeps_form by simp
  next
    case (StructT fs)
    have "keeps_form n b" if "(n, b, nullable) \<in> set fs" for n b nullable
    proof (rule less)
      show "size b < size a" unfolding StructT
        using size_list_estimation' [OF that, of "size b" "size_prod (\<lambda>x. 0) (size_prod size (\<lambda>x. 0))"] by simp
    qed
    then show ?thesis unfolding StructT by (rule struct_keeps_form)
  qed (simp_all add: duration_keeps_form leaf_keeps_form)
qed



end
