(* ===== verification/Rewrite_Windows.thy ===== *)
theory Rewrite_Windows
  imports Order_Windows Rewrite_Slices Built_Plans
begin

text \<open>
  \<^verbatim>\<open>core/rewrite/windows.py\<close>: the order of a window is pulled out of it, into a sort below the window and
  a sort back above it; and the keys of windows bounded by a range are turned into microseconds.
\<close>

subsection \<open>The code\<close>

fun rewrite_window_node :: "nat step" where
  "rewrite_window_node (WindowOpNode c ds w) counter =
     (if window_ordering w = [] then Inr (WindowOpNode c ds w, counter)
      else case generate_guid ''col_'' counter of (offsets_id, counter') \<Rightarrow>
        let w_offsets = PromoteOffsetsNode c (ColumnId offsets_id);
            sorted_child = OrderByNode w_offsets (window_ordering w) False
        in rbind (without_order True w) (\<lambda>w'.
           let new_window_node = WindowOpNode sorted_child ds w';
               w_resetted_order = OrderByNode new_window_node [ascending_over (ColumnId offsets_id) True] True
           in rbind (ids (WindowOpNode c ds w)) (\<lambda>is.
                Inr (SelectionNode w_resetted_order (map AliasedRef_identity is), counter'))))"
| "rewrite_window_node n counter = Inr (n, counter)"

definition pull_out_window_order :: "bfnode \<Rightarrow> nat \<Rightarrow> (bfnode \<times> nat) result option" where
  "pull_out_window_order = bottom_up rewrite_window_node"

text \<open>
  \<^verbatim>\<open>rewrite_range_rolling\<close>: the key of a window bounded by a range is read in microseconds. The operator is
  one of \<^verbatim>\<open>operations/datetime_ops.py\<close>.
\<close>

definition UnixMicros :: scalar_op where
  "UnixMicros = OpaqueOp ''unix_micros'' (Some INT_DTYPE) False True False"

fun rewrite_range_rolling :: "bfnode \<Rightarrow> bfnode result" where
  "rewrite_range_rolling (WindowOpNode c ds w) =
     (if \<not> is_range_bounded w then Inr (WindowOpNode c ds w)
      else if length (window_ordering w) \<noteq> 1 then Inl ValueError
      else let ordering_expr = hd (window_ordering w);
               new_ordering = OrderingExpression (OpExpression UnixMicros [scalar_expression ordering_expr])
                 (order_direction ordering_expr) (na_last ordering_expr)
           in Inr (WindowOpNode c ds (WindowSpec (grouping_keys w) [new_ordering] (window_bounds w) (min_periods w))))"
| "rewrite_range_rolling n = Inr n"

subsection \<open>The rows\<close>

lemma promote_strict: "ordered_engine E \<Longrightarrow> strict E [ascending_over i nulls] (promote_offsets i rs)"
  using compare_ints [of E _ i] by (auto simp: strict_def sorted_wrt_iff_nth_less promote_nth)

lemma strict_filter: "strict E ps rs \<Longrightarrow> strict E ps (filter P rs)"
  unfolding strict_def by (rule sorted_wrt_filter)

text \<open>Over rows that an ordering tells apart, sorting and filtering commute.\<close>

lemma sort_filter_commute:
  assumes "lawful_order E" "strict E ps rs"
  shows "filter P (sort_rows E qs rs) = sort_rows E qs (filter P rs)"
proof -
  have "strict E (qs @ ps) (filter P (sort_rows E qs rs))" by (rule strict_filter [OF strict_extend [OF assms]])
  moreover have "strict E (qs @ ps) (sort_rows E qs (filter P rs))" by (rule strict_extend [OF assms(1) strict_filter [OF assms(2)]])
  ultimately show ?thesis
    using strict_sort_unique [OF assms(1), of "qs @ ps" _ "filter P rs"] by (metis mset_filter mset_sort_rows)
qed

text \<open>A window over sorted rows, of a function that reads the order of the rows and not the sort keys.\<close>

lemma window_cell_sorted:
  assumes "ordered_engine E" "strict E ps zs" "w' = WindowSpec (grouping_keys w) [] (window_bounds w) (min_periods w)"
    and "k < length (sort_rows E (window_ordering w) zs)" "l < length zs" "sort_rows E (window_ordering w) zs ! k = zs ! l"
    and "\<And>op args. agg_parts e = Some (op, args) \<Longrightarrow> implicitly_inherits_order op" "\<not> is_range_bounded w"
  shows "window_cell E w' (sort_rows E (window_ordering w) zs) e k = window_cell E w zs e l"
proof (cases "agg_parts e")
  case (Some x)
  then obtain op args where e: "agg_parts e = Some (op, args)" by (cases x) auto
  note lawful = ordered_engineD(1) [OF assms(1)]
  let ?rs = "sort_rows E (window_ordering w) zs"
  let ?P = "partition_rows E w' ?rs (?rs ! k)" and ?Q = "partition_rows E w zs (zs ! l)"
  obtain i where i: "i < length ?P" "?P ! i = ?rs ! k" "window_cell E w' ?rs e k = window_value E op (window_bounds w') (min_periods w')
      (map fst (window_inputs E w' args ?P)) (map snd (window_inputs E w' args ?P)) i"
    using window_cell_rows [OF e assms(4)] by blast
  obtain j where j: "j < length ?Q" "?Q ! j = zs ! l" "window_cell E w zs e l = window_value E op (window_bounds w) (min_periods w)
      (map fst (window_inputs E w args ?Q)) (map snd (window_inputs E w args ?Q)) j"
    using window_cell_rows [OF e assms(5)] by blast
  have group: "same_group E w' = same_group E w" by (auto simp: same_group_def assms(3) intro!: ext)
  have "?P = filter (same_group E w (zs ! l)) ?rs" by (simp add: partition_rows_def group assms(6)) (simp add: assms(3))
  then have same: "?P = ?Q" by (simp add: partition_rows_def sort_filter_commute [OF lawful assms(2)])
  have "strict E (window_ordering w @ ps) ?Q"
    unfolding partition_rows_def by (rule strict_extend [OF lawful strict_filter [OF assms(2)]])
  moreover have "i < length ?Q" "?Q ! i = zs ! l" using i(1,2) unfolding same by (simp_all add: assms(6))
  ultimately have "i = j" using j(1,2) strict_distinct [OF lawful] by (metis nth_eq_iff_index_eq)
  then show ?thesis
    unfolding i(3) j(3) same using ordered_engineD(6) [OF assms(1) assms(7) [OF e] assms(8)]
    by (simp add: window_inputs_def assms(3) comp_def)
qed (simp add: window_cell_def)

lemma window_offsets: "i \<notin> cdef_id ` set ds \<Longrightarrow> k < length rs \<Longrightarrow> (window_rows E w ds (promote_offsets i rs) ! k) i = IntS (int k)"
  using rows_agree_nth [OF window_base [of ds E w "promote_offsets i rs"], of k] by (simp add: agree_def promote_nth)

lemma window_rows_sorted_back:
  assumes "ordered_engine E" "inheriting_window ds w" "i \<notin> cdef_id ` set ds"
  shows "sort_rows E [ascending_over i True] (window_rows E (WindowSpec (grouping_keys w) [] (window_bounds w) (min_periods w)) ds
     (sort_rows E (window_ordering w) (promote_offsets i rs))) = window_rows E w ds (promote_offsets i rs)"
proof (rule strict_sort_unique [OF ordered_engineD(1) [OF assms(1)]])
  show "strict E [ascending_over i True] (window_rows E w ds (promote_offsets i rs))"
    using compare_ints [OF assms(1)] window_offsets [OF assms(3)] by (auto simp: strict_def sorted_wrt_iff_nth_less)
  show "mset (window_rows E (WindowSpec (grouping_keys w) [] (window_bounds w) (min_periods w)) ds
     (sort_rows E (window_ordering w) (promote_offsets i rs))) = mset (window_rows E w ds (promote_offsets i rs))"
    by (rule mset_window_rows, simp, rule window_cell_sorted [OF assms(1) promote_strict [OF assms(1)]])
      (use assms(2) in \<open>auto simp: inheriting_window_def list_all_iff split: option.splits\<close>)
qed

subsection \<open>The fields\<close>

lemma bind_schema_fields_cong:
  assumes "\<And>i. i \<in> set (column_references e) \<Longrightarrow> m i = m' i"
  shows "bind_schema_fields e m = bind_schema_fields e m'"
  using assms by (auto simp: bind_schema_fields_def bind_refs_subst all_bound_def bound_to_def intro!: subst_expr_cong)


lemma window_fields_cong:
  assumes "\<And>d i. d \<in> set ds \<Longrightarrow> i \<in> set (column_references (cdef_expression d)) \<Longrightarrow> fields_by_id fs i = fields_by_id fs' i"
  shows "WindowOpNode_added_fields (Inr fs) ds = WindowOpNode_added_fields (Inr fs') ds"
proof -
  have "aggregated_field (fields_by_id fs) (cdef_expression d) (cdef_id d) = aggregated_field (fields_by_id fs') (cdef_expression d) (cdef_id d)"
    if "d \<in> set ds" for d
    unfolding aggregated_field_def by (subst bind_schema_fields_cong) (use assms that in auto)
  then show ?thesis unfolding WindowOpNode_added_fields_def by (intro mapM_cong) simp_all
qed

lemma fields_by_id_snoc: "i \<noteq> field_id f \<Longrightarrow> fields_by_id (fs @ [f]) i = fields_by_id fs i"
  by (simp add: fields_by_id_def dict_of_append dict_of_Cons)

subsection \<open>One window\<close>

text \<open>Windows whose order can be pulled out: of functions that read the order of the rows, not the sort keys.\<close>

fun window_pullable :: "bfnode \<Rightarrow> bool" where
  "window_pullable (WindowOpNode c ds w) \<longleftrightarrow> window_ordering w = [] \<or> inheriting_window ds w"
| "window_pullable n \<longleftrightarrow> True"

definition windowable :: "engine \<Rightarrow> bfnode \<Rightarrow> bool" where
  "windowable E n \<longleftrightarrow> ordered_engine E \<and> (scoped n \<and> typed n) \<and> everywhere window_pullable n"

definition pulled_out :: "bfnode \<Rightarrow> column_def list \<Rightarrow> expr window_spec \<Rightarrow> column_id \<Rightarrow> bfnode" where
  "pulled_out c ds w i = SelectionNode (OrderByNode (WindowOpNode (OrderByNode (PromoteOffsetsNode c i) (window_ordering w) False) ds
      (WindowSpec (grouping_keys w) [] (window_bounds w) (min_periods w))) [ascending_over i True] True)
      (map AliasedRef_identity (out_ids c @ map cdef_id ds))"

lemma guid_col: "generate_guid ''col_'' counter = (''bfuid_col_'' @ digits (Suc counter), Suc counter)"
  by (simp add: generate_guid_def)

lemma rewrite_window_op:
  assumes "typed (WindowOpNode c ds w)" "window_ordering w \<noteq> []"
  shows "rewrite_window_node (WindowOpNode c ds w) s = Inr (pulled_out c ds w (guid_id (Suc s)), Suc s)"
  using assms(2) typed_ids [OF assms(1)]
  by (simp add: guid_col Let_def without_order_def pulled_out_def guid_id_def)

lemma window_scoped:
  "scoped (WindowOpNode c ds w) \<Longrightarrow> scoped c \<and> window_refs ds w \<subseteq> set (out_ids c) \<and> distinct (map cdef_id ds) \<and>
     cdef_id ` set ds \<inter> set (out_ids c) = {} \<and> distinct (out_ids c @ map cdef_id ds)"
  using scoped_distinct [of "WindowOpNode c ds w"] by (auto simp: window_refs_def list_all_iff)

lemma pulled_out_rows:
  assumes "windowable E (WindowOpNode c ds w)" "i \<notin> set (out_ids c)" "i \<notin> cdef_id ` set ds" "window_ordering w \<noteq> []"
  shows "same_output E (pulled_out c ds w i) (WindowOpNode c ds w)"
proof (rule same_output_agree)
  let ?S = "set (out_ids c) \<union> cdef_id ` set ds" and ?ids = "out_ids c @ map cdef_id ds"
  have E: "ordered_engine E" "inheriting_window ds w"
    using assms(1,4) by (simp_all add: windowable_def)
  have refs: "window_refs ds w \<subseteq> set (out_ids c)"
    using assms(1) window_scoped [of c ds w] unfolding windowable_def by blast
  have "rows_agree ?S (map (select_row (map AliasedRef_identity ?ids)) rs) rs" for rs
    using select_identity_rows [of ?ids rs] by simp
  then have "rows_agree ?S (rows E (pulled_out c ds w i)) (window_rows E w ds (promote_offsets i (rows E c)))"
    by (simp add: pulled_out_def window_rows_sorted_back [OF E assms(3)])
  moreover have "rows_agree ?S (window_rows E w ds (promote_offsets i (rows E c))) (window_rows E w ds (rows E c))"
    by (rule window_rows_agree [OF rows_agree_mono [OF promote_base] refs]) (use assms(2) in blast)
  ultimately have "rows_agree ?S (rows E (pulled_out c ds w i)) (window_rows E w ds (rows E c))" by (rule rows_agree_trans)
  then show "rows_agree (set (out_ids (WindowOpNode c ds w))) (rows E (pulled_out c ds w i)) (rows E (WindowOpNode c ds w))" by simp
qed (simp add: pulled_out_def comp_def AliasedRef_identity_def)


lemma parts_refs_single [simp]: "parts_refs [ascending_over i nulls] = {i}"
  by (simp add: parts_refs_def ascending_over_def referenced_columns_def)

lemma pulled_out_scoped:
  assumes "scoped (WindowOpNode c ds w)" "i \<notin> set (out_ids c)" "i \<notin> cdef_id ` set ds"
  shows "scoped (pulled_out c ds w i)"
proof -
  let ?w = "WindowSpec (grouping_keys w) [] (window_bounds w) (min_periods w)"
  have refs: "all_referenced_columns w \<subseteq> set (out_ids c)" using assms(1) by simp
  then have "parts_refs (window_ordering w) \<subseteq> set (out_ids c)"
    by (auto simp: all_referenced_columns_def parts_refs_def referenced_columns_def)
  then have "scoped (OrderByNode (PromoteOffsetsNode c i) (window_ordering w) False)" using assms(1,2) by auto
  moreover have "all_referenced_columns ?w \<subseteq> set (out_ids c)" using refs by (auto simp: all_referenced_columns_def)
  moreover have "list_all (\<lambda>d. set (column_references (cdef_expression d)) \<subseteq> insert i (set (out_ids c)) \<and> cdef_id d \<notin> insert i (set (out_ids c))) ds"
    using assms(1,3) by (fastforce simp: list_all_iff)
  ultimately have inner: "scoped (WindowOpNode (OrderByNode (PromoteOffsetsNode c i) (window_ordering w) False) ds ?w)"
    using assms(1) by auto
  have "distinct (out_ids c @ map cdef_id ds)" using window_scoped [OF assms(1)] by blast
  then show ?thesis
    using inner unfolding pulled_out_def by (auto simp: list_all_iff comp_def AliasedRef_identity_def)
qed

lemma pulled_out_plan:
  assumes "windowable E (WindowOpNode c ds w)" "ids_older s (WindowOpNode c ds w)" "window_ordering w \<noteq> []" "s < k"
  shows "windowable E (pulled_out c ds w (guid_id k)) \<and> same_plan E (pulled_out c ds w (guid_id k)) (WindowOpNode c ds w) \<and>
     ids_older k (pulled_out c ds w (guid_id k))"
proof -
  let ?n = "WindowOpNode c ds w" and ?i = "guid_id k" and ?w = "WindowSpec (grouping_keys w) [] (window_bounds w) (min_periods w)"
  let ?off = "mk_field ?i (Some INT_DTYPE) False"
  have n: "scoped ?n" "typed ?n" "everywhere window_pullable ?n" using assms(1) by (simp_all add: windowable_def)
  note sc = window_scoped [OF n(1)]
  have fresh: "?i \<notin> set (out_ids c)" "?i \<notin> cdef_id ` set ds" using ids_older_fresh [OF assms(2,4)] by auto
  obtain cf added where cf: "node_fields c = Inr cf" "WindowOpNode_added_fields (Inr cf) ds = Inr added" "typed c"
    using n(2) by (auto simp: typed_iff [of ?n] rbind_eq_Inr_iff)
  have ids: "map field_id cf = out_ids c" "map field_id (cf @ added) = out_ids c @ map cdef_id ds"
    using fields_out_ids [OF cf(1)] fields_out_ids [of ?n "cf @ added"] cf by simp_all
  have "WindowOpNode_added_fields (Inr (cf @ [?off])) ds = WindowOpNode_added_fields (Inr cf) ds"
  proof (intro window_fields_cong fields_by_id_snoc)
    fix d j assume "d \<in> set ds" "j \<in> set (column_references (cdef_expression d))"
    then have "j \<in> set (out_ids c)" using sc by (auto simp: window_refs_def)
    then show "j \<noteq> field_id ?off" using fresh(1) by (auto simp: mk_field_def)
  qed
  then have "WindowOpNode_added_fields (Inr (cf @ [?off])) ds = Inr added" using cf(2) by simp
  then have mid: "node_fields (WindowOpNode (OrderByNode (PromoteOffsetsNode c ?i) (window_ordering w) False) ds ?w) = Inr (cf @ [?off] @ added)"
    using cf by (simp add: PromoteOffsetsNode_added_fields_def)
  have names: "distinct (map field_id (cf @ [?off] @ added))"
    using ids sc fresh by (auto simp: mk_field_def)
  have fields: "node_fields (pulled_out c ds w ?i) = Inr (cf @ added)"
    unfolding pulled_out_def ids(2) [symmetric] by (rule select_identity_fields [OF _ names]) (use mid in \<open>simp, auto\<close>)
  have same: "same_output E (pulled_out c ds w ?i) ?n" by (rule pulled_out_rows [OF assms(1) fresh assms(3)])
  have "scoped (pulled_out c ds w ?i)"
    by (rule pulled_out_scoped [OF n(1) fresh])
  moreover have "typed (pulled_out c ds w ?i)"
    using cf mid fields unfolding pulled_out_def
    by (simp add: typed_iff [of "SelectionNode _ _"] typed_iff [of "OrderByNode _ _ _"] typed_iff [of "WindowOpNode _ _ _"] typed_iff [of "PromoteOffsetsNode _ _"]
        PromoteOffsetsNode_added_fields_def)
  moreover have "everywhere window_pullable (pulled_out c ds w ?i)" using n(3) by (simp add: pulled_out_def)
  moreover have "ids_older k (pulled_out c ds w ?i)"
    using ids_older_mono [OF assms(2), of k] assms(4)
    by (auto simp: pulled_out_def ids_older_iff [of _ "SelectionNode _ _"] ids_older_iff [of _ "OrderByNode _ _ _"] ids_older_iff [of _ "WindowOpNode _ _ _"]
        ids_older_iff [of _ "PromoteOffsetsNode _ _"] list_all_iff AliasedRef_identity_def)
  moreover have "ordered_engine E" using assms(1) by (simp add: windowable_def)
  ultimately show ?thesis using same fields cf by (simp add: windowable_def same_plan_def)
qed


text \<open>
  A range window of microseconds sorts its rows as before, when the conversion keeps the order of the
  keys, and puts its rows out as before, when range bounds are measured in microseconds.
\<close>

definition measures_micros :: "engine \<Rightarrow> bool" where
  "measures_micros E \<longleftrightarrow> (let micros = \<lambda>v. op_value E UnixMicros [v] in
     (\<forall>v. micros v = NULL \<longleftrightarrow> v = NULL) \<and> (\<forall>u v. value_order E (micros u) (micros v) = value_order E u v) \<and>
     (\<forall>op s e mp args keys i. window_value E op (Some (RangeWindowBounds s e)) mp args (map (map micros) keys) i =
        window_value E op (Some (RangeWindowBounds s e)) mp args keys i))"

lemma micros_compare:
  assumes "measures_micros E"
  shows "row_compare E [OrderingExpression (OpExpression UnixMicros [scalar_expression p]) (order_direction p) (na_last p)] r s = row_compare E [p] r s"
  using assms by (simp add: row_compare_single part_compare_def measures_micros_def Let_def)

lemma rewrite_range_rolling_rows:
  assumes "measures_micros E" "rewrite_range_rolling n = Inr m"
  shows "rows E m = rows E n \<and> out_ids m = out_ids n"
proof (cases "m = n")
  case False
  then obtain c ds w where n: "n = WindowOpNode c ds w" "is_range_bounded w" "length (window_ordering w) = 1"
    using assms(2) by (cases n) (auto split: if_splits)
  then obtain p where p: "window_ordering w = [p]" by (auto simp: length_Suc_conv)
  let ?p = "OrderingExpression (OpExpression UnixMicros [scalar_expression p]) (order_direction p) (na_last p)"
  let ?w = "WindowSpec (grouping_keys w) [?p] (window_bounds w) (min_periods w)"
  have m: "m = WindowOpNode c ds ?w" using assms(2) n p by simp
  obtain s e where b: "window_bounds w = Some (RangeWindowBounds s e)"
    using n(2) by (auto simp: is_range_bounded_def split: option.splits window_bounds.splits)
  have "partition_of E ?w rs k = partition_of E w rs k" for rs k
    using micros_compare [OF assms(1)] by (simp add: partition_of_def p)
  moreover have "window_value E op (Some (RangeWindowBounds s e)) mp args (map (\<lambda>j. [op_value E UnixMicros [g j]]) part) i =
      window_value E op (Some (RangeWindowBounds s e)) mp args (map (\<lambda>j. [g j]) part) i" for op mp args g i and part :: "nat list"
  proof -
    have "map (\<lambda>j. [op_value E UnixMicros [g j]]) part = map (map (\<lambda>v. op_value E UnixMicros [v])) (map (\<lambda>j. [g j]) part)" by simp
    then show ?thesis using assms(1) unfolding measures_micros_def Let_def by metis
  qed
  ultimately have "window_cell E ?w rs x k = window_cell E w rs x k" for rs x k
    by (auto simp: window_cell_def p b Let_def split: option.split)
  then have "window_cell E ?w rs = window_cell E w rs" for rs by (intro ext)
  then show ?thesis by (simp add: m n window_rows_def cong: option.case_cong)
qed simp

subsection \<open>Whole plans\<close>

lemma rewrite_window_sound:
  assumes "windowable E n" "ids_older s n"
  shows "\<exists>m s'. rewrite_window_node n s = Inr (m, s') \<and> windowable E m \<and> same_plan E m n \<and> ids_older s' m \<and> s \<le> s'"
proof (cases "\<exists>c ds w. n = WindowOpNode c ds w \<and> window_ordering w \<noteq> []")
  case True
  then obtain c ds w where n: "n = WindowOpNode c ds w" "window_ordering w \<noteq> []" by blast
  have "typed (WindowOpNode c ds w)" using assms(1) n(1) by (simp add: windowable_def)
  then show ?thesis
    using rewrite_window_op [of c ds w s] pulled_out_plan [of E c ds w s "Suc s"] assms n by auto
next
  case False
  then have "rewrite_window_node n s = Inr (n, s)" by (cases n) auto
  then show ?thesis using assms by auto
qed

lemma window_pullable_transform: "window_pullable (transform_children t n) = window_pullable n"
  by (cases n) auto

interpretation window_order: total_rewrite rewrite_window_node "same_plan E" "windowable E" ids_older "(\<le>)" for E
proof unfold_locales
  fix n m and s s' :: nat
  assume "windowable E n" "ids_older s n" "rewrite_window_node n s = Inr (m, s')"
  then show "windowable E m \<and> same_plan E m n \<and> ids_older s' m \<and> s \<le> s'" using rewrite_window_sound [of E n s] by auto
next
  fix n and s :: nat assume "windowable E n" "ids_older s n"
  then show "\<exists>m s'. rewrite_window_node n s = Inr (m, s')" using rewrite_window_sound [of E n s] by blast
next
  fix n t
  assume n: "windowable E n"
    and kids: "\<And>c. c \<in> set (child_nodes n) \<Longrightarrow> windowable E (t c) \<and> same_plan E (t c) c"
  have "everywhere window_pullable (transform_children t n)"
    using n kids by (intro everywhere_transform) (auto simp: windowable_def window_pullable_transform everywhere_iff [of window_pullable n])
  then show "windowable E (transform_children t n) \<and> same_plan E (transform_children t n) n"
    using same_plan_transform [of n t E] n kids by (simp add: windowable_def)
next
  fix n c assume "windowable E n" "c \<in> set (child_nodes n)"
  then show "windowable E c"
    using scoped_children everywhere_child [of window_pullable n c] typed_iff [of n] by (auto simp: windowable_def list_all_iff)
next
  fix n t and s :: nat
  assume "windowable E n" "ids_older s n" "\<And>c. c \<in> set (child_nodes n) \<Longrightarrow> ids_older s (t c) \<and> same_plan E (t c) c"
  then show "ids_older s (transform_children t n)"
    by (intro ids_older_transform [of n s t E]) (auto simp: windowable_def same_plan_def)
qed (auto intro: same_plan_trans ids_older_mono ids_older_child)

fun unordered_window :: "bfnode \<Rightarrow> bool" where
  "unordered_window (WindowOpNode c ds w) \<longleftrightarrow> window_ordering w = []"
| "unordered_window n \<longleftrightarrow> True"

lemma rewrite_window_unordered:
  assumes "rewrite_window_node n s = Inr (m, s')" "\<And>c. c \<in> set (child_nodes n) \<Longrightarrow> everywhere unordered_window c"
  shows "everywhere unordered_window m"
proof (cases "\<exists>c ds w. n = WindowOpNode c ds w \<and> window_ordering w \<noteq> []")
  case True
  then show ?thesis using assms by (auto simp: without_order_def rbind_eq_Inr_iff Let_def split: prod.splits)
next
  case False
  then have "m = n" "unordered_window n" using assms(1) by (cases n; auto)+
  then show ?thesis using assms(2) by (simp add: everywhere_iff [of _ n] list_all_iff)
qed

lemma pull_out_window_order_sound:
  assumes "windowable E r0" "ids_older s r0"
  shows "\<exists>m s'. pull_out_window_order r0 s = Some (Inr (m, s')) \<and> windowable E m \<and> same_plan E m r0 \<and> ids_older s' m \<and>
     everywhere unordered_window m"
proof -
  obtain m s' where m: "bottom_up rewrite_window_node r0 s = Some (Inr (m, s'))" "windowable E m" "same_plan E m r0" "ids_older s' m"
    using window_order.bottom_up_returns [OF assms] by blast
  have "everywhere unordered_window m"
    by (rule bottom_up_establishes [OF m(1), of "\<lambda>_. True"]) (simp_all add: rewrite_window_unordered)
  with m show ?thesis unfolding pull_out_window_order_def by blast
qed

end
