(* ===== verification/Schema_Binding.thy ===== *)
theory Schema_Binding
  imports Rewrite_Framework Field_Renaming
begin

text \<open>
  \<^verbatim>\<open>core/rewrite/schema_binding.py\<close>: every reference of the expressions of a plan becomes a resolved
  one, which carries the type and the nullability of the column. The plan computes what it did, and
  has the fields it had.
\<close>

subsection \<open>The code\<close>

definition from_field :: "field \<Rightarrow> deref" where
  "from_field f = ResolvedDerefOp (field_id f) (field_dtype f) (field_nullable f)"

definition resolve_ref :: "bfnode \<Rightarrow> deref \<Rightarrow> deref result" where
  "resolve_ref c ref = rbind (field_by_id c) (\<lambda>m. rbind (lookup_or KeyError m (ref_id ref)) (\<lambda>f. Inr (from_field f)))"

definition bind_to_child :: "bfnode \<Rightarrow> expr \<Rightarrow> expr result" where
  "bind_to_child c e = rbind (field_by_id c) (bind_schema_fields e)"

definition bind_part :: "bfnode \<Rightarrow> expr ordering_expression \<Rightarrow> expr ordering_expression result" where
  "bind_part c p = rbind (bind_to_child c (scalar_expression p)) (\<lambda>e. Inr (OrderingExpression e (order_direction p) (na_last p)))"

fun bind_schema_to_aggregation_expr :: "bfnode \<Rightarrow> expr \<Rightarrow> expr result" where
  "bind_schema_to_aggregation_expr c (UnaryAggregation op a) = rbind (bind_to_child c a) (\<lambda>a'. Inr (UnaryAggregation op a'))"
| "bind_schema_to_aggregation_expr c (BinaryAggregation op l r) =
     rbind (bind_to_child c l) (\<lambda>l'. rbind (bind_to_child c r) (\<lambda>r'. Inr (BinaryAggregation op l' r')))"
| "bind_schema_to_aggregation_expr c (NullaryAggregation op) = Inr (NullaryAggregation op)"
| "bind_schema_to_aggregation_expr c e = Inl AssertionError"

fun bind_schema_to_node :: "bfnode \<Rightarrow> bfnode result" where
  "bind_schema_to_node (ProjectionNode c asg) =
     rbind (mapM (\<lambda>(e, i). rbind (bind_to_child c e) (\<lambda>e'. Inr (e', i))) asg) (\<lambda>bound. Inr (ProjectionNode c bound))"
| "bind_schema_to_node (FilterNode c p) = rbind (bind_to_child c p) (\<lambda>p'. Inr (FilterNode c p'))"
| "bind_schema_to_node (OrderByNode c ps tot) = rbind (mapM (bind_part c) ps) (\<lambda>bound_bys. Inr (OrderByNode c bound_bys tot))"
| "bind_schema_to_node (JoinNode l r conds ty po) =
     rbind (mapM (\<lambda>(a, b). rbind (resolve_ref l a) (\<lambda>a'. rbind (resolve_ref r b) (\<lambda>b'. Inr (a', b')))) conds)
       (\<lambda>conditions. Inr (JoinNode l r conditions ty po))"
| "bind_schema_to_node (InNode l r left_col i) = rbind (resolve_ref l left_col) (\<lambda>ref. Inr (InNode l r ref i))"
| "bind_schema_to_node (AggregateNode c aggs ks os dn) =
     rbind (mapM (\<lambda>(e, i). rbind (bind_schema_to_aggregation_expr c e) (\<lambda>e'. Inr (e', i))) aggs)
       (\<lambda>aggregations. Inr (AggregateNode c aggregations ks os dn))"
| "bind_schema_to_node (WindowOpNode c ds w) =
     rbind (mapM (bind_to_child c) (grouping_keys w)) (\<lambda>keys.
     rbind (mapM (bind_part c) (window_ordering w)) (\<lambda>parts.
     rbind (mapM (\<lambda>d. rbind (bind_schema_to_aggregation_expr c (cdef_expression d)) (\<lambda>e. Inr (ColumnDef e (cdef_id d)))) ds) (\<lambda>agg_exprs.
       Inr (WindowOpNode c agg_exprs (WindowSpec keys parts (window_bounds w) (min_periods w))))))"
| "bind_schema_to_node n = Inr n"

definition bind_schema_to_tree :: "bfnode \<Rightarrow> (bfnode \<times> unit) result option" where
  "bind_schema_to_tree n = bottom_up (pure_step bind_schema_to_node) n ()"

subsection \<open>Bound expressions\<close>

text \<open>The references of an expression that are resolved already agree with the fields.\<close>

primrec agrees :: "(column_id \<Rightarrow> field option) \<Rightarrow> expr \<Rightarrow> bool" where
  "agrees m (ScalarConstantExpression v t) = True"
| "agrees m (UnboundVariableExpression i) = True"
| "agrees m (Deref d) = (d = DerefOp (ref_id d) \<or> (\<exists>f. m (ref_id d) = Some f \<and> d = from_field f))"
| "agrees m (OpExpression op inputs) = list_all (\<lambda>b. b) (map (agrees m) inputs)"
| "agrees m (NullaryAggregation w) = True"
| "agrees m (UnaryAggregation w a) = agrees m a"
| "agrees m (BinaryAggregation w l r) = (agrees m l \<and> agrees m r)"
| "agrees m (WindowExpression a w) = (agrees m a \<and> list_all (\<lambda>b. b) (window_expressions (map_window_spec (agrees m) w)))"

definition bound :: "(column_id \<Rightarrow> field option) \<Rightarrow> expr \<Rightarrow> expr" where
  "bound m e = subst_expr (bound_to (schema_binding m)) e"

definition keyed :: "(column_id \<Rightarrow> field option) \<Rightarrow> bool" where
  "keyed m \<longleftrightarrow> (\<forall>i f. m i = Some f \<longrightarrow> field_id f = i)"

lemma keyed_fields: "keyed (fields_by_id fs)"
  by (auto simp: keyed_def fields_by_id_def dest!: dict_of_SomeD)

lemma bound_simps [simp]:
  "bound m (NullaryAggregation op) = NullaryAggregation op" "bound m (UnaryAggregation op a) = UnaryAggregation op (bound m a)"
  "bound m (BinaryAggregation op l r) = BinaryAggregation op (bound m l) (bound m r)"
  "bound m (OpExpression f inputs) = OpExpression f (map (bound m) inputs)"
  by (simp_all add: bound_def)

lemma resolved_bound:
  assumes "agrees m e" "is_resolved e"
  shows "bound m e = e \<and> (\<forall>i \<in> set (column_references e). m i \<noteq> None)"
  using assms
proof (induction e)
  case (Deref d)
  then show ?case by (auto simp: bound_def bound_to_def schema_binding_def from_field_def split: deref.splits)
next
  case (OpExpression op inputs)
  have inputs: "bound m x = x \<and> (\<forall>i \<in> set (column_references x). m i \<noteq> None)" if "x \<in> set inputs" for x
    using OpExpression.IH [OF that] OpExpression.prems that by (simp add: list_all_iff)
  then have "map (bound m) inputs = inputs" by (intro map_idI) blast
  with inputs show ?case by (simp only: bound_simps) auto
next
  case (WindowExpression a w)
  have parts: "bound m x = x \<and> (\<forall>i \<in> set (column_references x). m i \<noteq> None)" if "x \<in> set_window_spec w" for x
    using WindowExpression.IH(2) [OF that] WindowExpression.prems that
    by (simp add: list_all_iff window_expressions_map set_window_expressions)
  have "map_window_spec (bound m) w = w" by (rule window_spec.map_ident_strong) (use parts in blast)
  moreover have "bound m a = a \<and> (\<forall>i \<in> set (column_references a). m i \<noteq> None)" using WindowExpression by simp
  ultimately show ?case using parts by (auto simp: bound_def [abs_def] set_window_expressions)
qed (auto simp: bound_def)

lemma bind_agrees:
  assumes "agrees m e" "\<forall>i \<in> set (column_references e). m i \<noteq> None"
  shows "bind_schema_fields e m = Inr (bound m e)"
  using resolved_bound [OF assms(1)] assms(2) by (auto simp: bind_schema_alt bound_def)

lemma references_bound:
  assumes "keyed m" "\<forall>i \<in> set (column_references e). m i \<noteq> None"
  shows "column_references (bound m e) = column_references e"
proof -
  have "concat (map (\<lambda>i. case schema_binding m i of None \<Rightarrow> [i] | Some x \<Rightarrow> column_references x) is) = is" if "\<forall>i \<in> set is. m i \<noteq> None" for "is"
    using that assms(1) by (induction "is") (auto simp: schema_binding_def keyed_def)
  then show ?thesis unfolding bound_def references_subst using assms(2) by blast
qed

lemma agrees_bound:
  assumes "keyed m" "\<forall>i \<in> set (column_references e). m i \<noteq> None"
  shows "agrees m (bound m e)"
  using assms(2)
proof (induction e)
  case (Deref d)
  then obtain f where "m (ref_id d) = Some f" by auto
  then show ?case using assms(1) by (auto simp: bound_def bound_to_def schema_binding_def keyed_def from_field_def)
next
  case (WindowExpression a w)
  then show ?case by (auto simp: bound_def list_all_iff window_expressions_map set_window_expressions)
qed (auto simp: bound_def list_all_iff)

lemma bound_bound:
  assumes "keyed m" "\<forall>i \<in> set (column_references e). m i \<noteq> None"
  shows "bound m (bound m e) = bound m e"
  unfolding bound_def subst_subst
proof (rule subst_expr_cong)
  fix d assume "ref_id d \<in> set (column_references e)"
  then obtain f where "m (ref_id d) = Some f" "field_id f = ref_id d" using assms by (auto simp: keyed_def)
  then show "subst_expr (bound_to (schema_binding m)) (bound_to (schema_binding m) d) = bound_to (schema_binding m) d"
    by (simp add: bound_to_def schema_binding_def)
qed

lemma bind_bound:
  assumes "keyed m" "\<forall>i \<in> set (column_references e). m i \<noteq> None"
  shows "bind_schema_fields (bound m e) m = Inr (bound m e)"
  using bind_agrees [OF agrees_bound [OF assms]] references_bound [OF assms] bound_bound [OF assms] assms(2) by simp

lemma eval_schema_bound: "keyed m \<Longrightarrow> eval E r (bound m e) = eval E r e"
proof (induction e)
  case (Deref d)
  then show ?case by (cases "m (ref_id d)") (auto simp: bound_def bound_to_def schema_binding_def keyed_def)
next
  case (OpExpression op inputs)
  then have "map (eval E r) (map (bound m) inputs) = map (eval E r) inputs" by simp
  then show ?case by (simp only: bound_simps eval.simps)
qed (auto simp: bound_def)

lemma agg_parts_bound: "agg_parts (bound m e) = (case e of Deref d \<Rightarrow> None | _ \<Rightarrow> map_option (\<lambda>(op, args). (op, map (bound m) args)) (agg_parts e))"
  by (cases e) (auto simp: bound_def bound_to_def schema_binding_def split: option.split)

lemma eval_agg_schema_bound: "keyed m \<Longrightarrow> eval_agg E rs (bound m e) = eval_agg E rs e"
  by (cases e) (simp_all add: eval_agg_def agg_parts_bound eval_schema_bound comp_def)


subsection \<open>One node\<close>

definition fields_of :: "bfnode \<Rightarrow> column_id \<Rightarrow> field option" where
  "fields_of c = (case node_fields c of Inl _ \<Rightarrow> Map.empty | Inr fs \<Rightarrow> fields_by_id fs)"

lemma keyed_fields_of [simp]: "keyed (fields_of c)"
  by (simp add: fields_of_def keyed_fields split: sum.split) (simp add: keyed_def)

lemma typed_fields: "typed c \<Longrightarrow> \<exists>fs. node_fields c = Inr fs"
  by (subst (asm) typed_iff) blast

lemma field_by_id_typed: "typed c \<Longrightarrow> field_by_id c = Inr (fields_of c)"
  using typed_fields [of c] by (auto simp: field_by_id_def fields_of_def)

lemma fields_of_out:
  assumes "typed c" "i \<in> set (out_ids c)"
  shows "fields_of c i \<noteq> None"
proof -
  obtain fs where fs: "node_fields c = Inr fs" using typed_fields [OF assms(1)] by blast
  then have "i \<in> field_id ` set fs" using assms(2) fields_out_ids [OF fs] by (metis list.set_map)
  then show ?thesis by (simp add: fs fields_of_def fields_by_id_def dict_of_eq_None_iff image_image)
qed

definition bound_part :: "(column_id \<Rightarrow> field option) \<Rightarrow> expr ordering_expression \<Rightarrow> expr ordering_expression" where
  "bound_part m p = OrderingExpression (bound m (scalar_expression p)) (order_direction p) (na_last p)"

definition bound_ref :: "(column_id \<Rightarrow> field option) \<Rightarrow> deref \<Rightarrow> deref" where
  "bound_ref m ref = (case m (ref_id ref) of None \<Rightarrow> ref | Some f \<Rightarrow> from_field f)"

fun bound_node :: "bfnode \<Rightarrow> bfnode" where
  "bound_node (ProjectionNode c asg) = ProjectionNode c (map (\<lambda>(e, i). (bound (fields_of c) e, i)) asg)"
| "bound_node (FilterNode c p) = FilterNode c (bound (fields_of c) p)"
| "bound_node (OrderByNode c ps tot) = OrderByNode c (map (bound_part (fields_of c)) ps) tot"
| "bound_node (JoinNode l r conds ty po) = JoinNode l r (map (\<lambda>(a, b). (bound_ref (fields_of l) a, bound_ref (fields_of r) b)) conds) ty po"
| "bound_node (InNode l r x i) = InNode l r (bound_ref (fields_of l) x) i"
| "bound_node (AggregateNode c aggs ks os dn) = AggregateNode c (map (\<lambda>(e, i). (bound (fields_of c) e, i)) aggs) ks os dn"
| "bound_node (WindowOpNode c ds w) = WindowOpNode c (map (\<lambda>d. ColumnDef (bound (fields_of c) (cdef_expression d)) (cdef_id d)) ds)
     (WindowSpec (map (bound (fields_of c)) (grouping_keys w)) (map (bound_part (fields_of c)) (window_ordering w)) (window_bounds w) (min_periods w))"
| "bound_node n = n"

text \<open>Nodes whose aggregations are aggregations and whose resolved references agree with the child's fields.\<close>

definition bindable_agg :: "(column_id \<Rightarrow> field option) \<Rightarrow> expr \<Rightarrow> bool" where
  "bindable_agg m e \<longleftrightarrow> agg_parts e \<noteq> None \<and> agrees m e"

fun binds_well :: "bfnode \<Rightarrow> bool" where
  "binds_well (ProjectionNode c asg) = list_all (\<lambda>(e, _). agrees (fields_of c) e) asg"
| "binds_well (FilterNode c p) = agrees (fields_of c) p"
| "binds_well (OrderByNode c ps tot) = list_all (\<lambda>p. agrees (fields_of c) (scalar_expression p)) ps"
| "binds_well (AggregateNode c aggs ks os dn) = list_all (\<lambda>(e, _). bindable_agg (fields_of c) e) aggs"
| "binds_well (WindowOpNode c ds w) = (list_all (\<lambda>d. bindable_agg (fields_of c) (cdef_expression d)) ds \<and>
     list_all (agrees (fields_of c)) (grouping_keys w) \<and> list_all (\<lambda>p. agrees (fields_of c) (scalar_expression p)) (window_ordering w))"
| "binds_well n = True"

text \<open>References to the columns of a typed child.\<close>

definition over :: "bfnode \<Rightarrow> expr \<Rightarrow> bool" where
  "over c e \<longleftrightarrow> set (column_references e) \<subseteq> set (out_ids c)"

lemma over_bound: "typed c \<Longrightarrow> over c e \<Longrightarrow> \<forall>i \<in> set (column_references e). fields_of c i \<noteq> None"
  using fields_of_out by (auto simp: over_def)

lemma bind_to_child_bound: "typed c \<Longrightarrow> over c e \<Longrightarrow> agrees (fields_of c) e \<Longrightarrow> bind_to_child c e = Inr (bound (fields_of c) e)"
  by (simp add: bind_to_child_def field_by_id_typed bind_agrees [OF _ over_bound])

lemma bind_part_bound:
  "typed c \<Longrightarrow> over c (scalar_expression p) \<Longrightarrow> agrees (fields_of c) (scalar_expression p) \<Longrightarrow> bind_part c p = Inr (bound_part (fields_of c) p)"
  by (simp add: bind_part_def bound_part_def bind_to_child_bound)

lemma bind_agg_bound:
  assumes "typed c" "over c e" "bindable_agg (fields_of c) e"
  shows "bind_schema_to_aggregation_expr c e = Inr (bound (fields_of c) e)"
  using assms by (cases e) (auto simp: bindable_agg_def over_def bind_to_child_bound)

lemma resolve_ref_bound: "typed c \<Longrightarrow> ref_id ref \<in> set (out_ids c) \<Longrightarrow> resolve_ref c ref = Inr (bound_ref (fields_of c) ref)"
  using fields_of_out [of c "ref_id ref"] by (auto simp: resolve_ref_def bound_ref_def field_by_id_typed lookup_or_def)

lemma parts_over: "parts_refs ps \<subseteq> set (out_ids c) \<Longrightarrow> p \<in> set ps \<Longrightarrow> over c (scalar_expression p)"
  by (auto simp: parts_refs_def referenced_columns_def over_def)

lemma window_over:
  "all_referenced_columns w \<subseteq> set (out_ids c) \<Longrightarrow> (\<forall>e \<in> set (grouping_keys w). over c e) \<and> (\<forall>p \<in> set (window_ordering w). over c (scalar_expression p))"
  by (auto simp: all_referenced_columns_def over_def)

lemma bind_node:
  assumes "scoped n" "typed n" "binds_well n"
  shows "bind_schema_to_node n = Inr (bound_node n)"
proof (cases n)
  case (ProjectionNode c asg)
  have c: "typed c" using assms(2) ProjectionNode typed_iff [of n] by simp
  have "mapM (\<lambda>(e, i). rbind (bind_to_child c e) (\<lambda>e'. Inr (e', i))) asg = Inr (map (\<lambda>(e, i). (bound (fields_of c) e, i)) asg)"
    by (rule mapM_InrI) (use assms c in \<open>fastforce simp: ProjectionNode list_all_iff over_def bind_to_child_bound\<close>)
  then show ?thesis unfolding ProjectionNode by simp
next
  case (FilterNode c p)
  have c: "typed c" using assms(2) FilterNode typed_iff [of n] by simp
  then show ?thesis using assms by (simp add: FilterNode bind_to_child_bound over_def)
next
  case (OrderByNode c ps tot)
  have c: "typed c" using assms(2) OrderByNode typed_iff [of n] by simp
  have "mapM (bind_part c) ps = Inr (map (bound_part (fields_of c)) ps)"
    by (rule mapM_InrI) (use assms c parts_over [of ps c] in \<open>auto simp: OrderByNode list_all_iff bind_part_bound\<close>)
  then show ?thesis unfolding OrderByNode by simp
next
  case (JoinNode l r conds ty po)
  have c: "typed l" "typed r" using assms(2) JoinNode typed_iff [of n] by simp_all
  have "mapM (\<lambda>(a, b). rbind (resolve_ref l a) (\<lambda>a'. rbind (resolve_ref r b) (\<lambda>b'. Inr (a', b')))) conds =
      Inr (map (\<lambda>(a, b). (bound_ref (fields_of l) a, bound_ref (fields_of r) b)) conds)"
    by (rule mapM_InrI) (use assms c in \<open>fastforce simp: JoinNode list_all_iff resolve_ref_bound\<close>)
  then show ?thesis unfolding JoinNode by simp
next
  case (InNode l r x i)
  have c: "typed l" using assms(2) InNode typed_iff [of n] by simp
  then show ?thesis using assms by (simp add: InNode resolve_ref_bound)
next
  case (AggregateNode c aggs ks os dn)
  have c: "typed c" using assms(2) AggregateNode typed_iff [of n] by simp
  have "mapM (\<lambda>(e, i). rbind (bind_schema_to_aggregation_expr c e) (\<lambda>e'. Inr (e', i))) aggs = Inr (map (\<lambda>(e, i). (bound (fields_of c) e, i)) aggs)"
    by (rule mapM_InrI) (use assms c in \<open>fastforce simp: AggregateNode list_all_iff over_def bind_agg_bound\<close>)
  then show ?thesis unfolding AggregateNode by simp
next
  case (WindowOpNode c ds w)
  have c: "typed c" using assms(2) WindowOpNode typed_iff [of n] by simp
  have w: "\<forall>e \<in> set (grouping_keys w). over c e" "\<forall>p \<in> set (window_ordering w). over c (scalar_expression p)"
    using window_over [of w c] assms(1) unfolding WindowOpNode by simp_all
  have "mapM (bind_to_child c) (grouping_keys w) = Inr (map (bound (fields_of c)) (grouping_keys w))"
    by (rule mapM_InrI) (use assms c w in \<open>auto simp: WindowOpNode list_all_iff bind_to_child_bound\<close>)
  moreover have "mapM (bind_part c) (window_ordering w) = Inr (map (bound_part (fields_of c)) (window_ordering w))"
    by (rule mapM_InrI) (use assms c w in \<open>auto simp: WindowOpNode list_all_iff bind_part_bound\<close>)
  moreover have "mapM (\<lambda>d. rbind (bind_schema_to_aggregation_expr c (cdef_expression d)) (\<lambda>e. Inr (ColumnDef e (cdef_id d)))) ds =
      Inr (map (\<lambda>d. ColumnDef (bound (fields_of c) (cdef_expression d)) (cdef_id d)) ds)"
    by (rule mapM_InrI) (use assms c in \<open>auto simp: WindowOpNode list_all_iff over_def bind_agg_bound\<close>)
  ultimately show ?thesis unfolding WindowOpNode by simp
qed auto


subsection \<open>What a bound node computes\<close>

lemma row_compare_bound: "keyed m \<Longrightarrow> row_compare E (map (bound_part m) ps) r s = row_compare E ps r s"
  unfolding row_compare_def by (induction ps) (simp_all add: bound_part_def eval_schema_bound part_compare_def)

lemma sort_rows_bound: "keyed m \<Longrightarrow> sort_rows E (map (bound_part m) ps) rs = sort_rows E ps rs"
proof -
  assume "keyed m"
  then have "row_compare E (map (bound_part m) ps) = row_compare E ps" by (intro ext row_compare_bound)
  then show ?thesis by (simp add: sort_rows_def)
qed

lemma dict_of_map_snd:
  "dict_of (map (\<lambda>(e, j). (j, f e)) asg) i = map_option f (dict_of (map (\<lambda>(e, j). (j, e)) asg) i)"
  by (induction asg) (auto simp: dict_of_Cons split: option.split)

lemma project_row_bound: "keyed m \<Longrightarrow> project_row E (map (\<lambda>(e, i). (bound m e, i)) asg) r = project_row E asg r"
  using dict_of_map_snd [of "bound m" asg]
  by (auto simp: project_row_def comp_def case_prod_unfold eval_schema_bound fun_eq_iff split: option.split)

lemma agg_row_bound: "keyed m \<Longrightarrow> agg_row E (map (\<lambda>(e, i). (bound m e, i)) aggs) ks key grp = agg_row E aggs ks key grp"
  by (simp add: agg_row_def comp_def case_prod_unfold eval_agg_schema_bound)

lemma window_cell_bound:
  assumes "keyed m" "agg_parts e \<noteq> None"
  shows "window_cell E (WindowSpec (map (bound m) (grouping_keys w)) (map (bound_part m) (window_ordering w)) (window_bounds w) (min_periods w)) rs (bound m e) k =
    window_cell E w rs e k"
proof -
  have "agg_parts (bound m e) = map_option (\<lambda>(op, args). (op, map (bound m) args)) (agg_parts e)"
    using assms(2) by (cases e) (simp_all add: agg_parts_bound)
  moreover have "eval E r \<circ> bound m = eval E r" for r by (simp add: eval_schema_bound [OF assms(1)] fun_eq_iff)
  moreover have "partition_of E (WindowSpec (map (bound m) (grouping_keys w)) (map (bound_part m) (window_ordering w)) (window_bounds w) (min_periods w)) rs k =
      partition_of E w rs k"
    by (simp add: partition_of_def row_compare_bound [OF assms(1)] eval_schema_bound [OF assms(1)] comp_def)
  moreover have "map (\<lambda>p. eval E r (scalar_expression p)) (map (bound_part m) ps) = map (\<lambda>p. eval E r (scalar_expression p)) ps" for r ps
    by (simp add: bound_part_def eval_schema_bound [OF assms(1)])
  ultimately show ?thesis by (simp only: window_cell_def window_spec.sel) (simp add: Let_def case_prod_unfold split: option.split)
qed

lemma dict_of_map_cdef:
  "dict_of (map (\<lambda>d. (cdef_id d, f (cdef_expression d))) ds) i = map_option f (dict_of (map (\<lambda>d. (cdef_id d, cdef_expression d)) ds) i)"
  by (induction ds) (auto simp: dict_of_Cons split: option.split)

lemma window_rows_bound:
  assumes "keyed m" "\<forall>d \<in> set ds. agg_parts (cdef_expression d) \<noteq> None"
  shows "window_rows E (WindowSpec (map (bound m) (grouping_keys w)) (map (bound_part m) (window_ordering w)) (window_bounds w) (min_periods w))
     (map (\<lambda>d. ColumnDef (bound m (cdef_expression d)) (cdef_id d)) ds) rs = window_rows E w ds rs"
proof -
  have "agg_parts e \<noteq> None" if "dict_of (map (\<lambda>d. (cdef_id d, cdef_expression d)) ds) i = Some e" for i e
    using dict_of_SomeD [OF that] assms(2) by auto
  then show ?thesis
    using window_cell_bound [OF assms(1), where w = w] dict_of_map_cdef [of "bound m" ds]
    by (auto simp: window_rows_def comp_def fun_eq_iff split: option.split)
qed

lemma ref_id_bound [simp]: "keyed m \<Longrightarrow> ref_id (bound_ref m ref) = ref_id ref"
  by (auto simp: bound_ref_def keyed_def from_field_def split: option.split)

lemma joins_bound:
  "keyed m \<Longrightarrow> keyed m' \<Longrightarrow> joins E (map (\<lambda>(a, b). (bound_ref m a, bound_ref m' b)) conds) = joins E conds"
  by (simp add: joins_def fun_eq_iff list_all_iff case_prod_unfold)

lemma bound_node_out [simp]: "out_ids (bound_node n) = out_ids n"
  by (cases n) (simp_all add: comp_def case_prod_unfold)

lemma bound_node_rows:
  assumes "binds_well n"
  shows "rows E (bound_node n) = rows E n"
proof (cases n)
  case (AggregateNode c aggs ks os dn)
  have "agg_row E (map (\<lambda>(e, i). (bound (fields_of c) e, i)) aggs) = agg_row E aggs" by (intro ext agg_row_bound) simp
  then have "aggregate_rows E (map (\<lambda>(e, i). (bound (fields_of c) e, i)) aggs) = aggregate_rows E aggs"
    unfolding aggregate_rows_def by (simp only:)
  then show ?thesis by (simp add: AggregateNode)
next
  case (WindowOpNode c ds w)
  then show ?thesis using assms by (simp add: window_rows_bound list_all_iff bindable_agg_def)
next
  case (InNode l r x i)
  then show ?thesis by (simp add: isin_rows_def cong: list.case_cong)
qed (simp_all add: project_row_bound filter_rows_def eval_schema_bound sort_rows_bound joins_bound)


subsection \<open>Its fields and its references\<close>

lemma projected_bound:
  "typed c \<Longrightarrow> over c e \<Longrightarrow> agrees (fields_of c) e \<Longrightarrow>
     projected_field (fields_of c) (bound (fields_of c) e) i = projected_field (fields_of c) e i"
  by (simp only: projected_field_def bind_agrees [OF _ over_bound] bind_bound [OF keyed_fields_of over_bound] references_bound [OF keyed_fields_of over_bound])

lemma aggregated_bound:
  "typed c \<Longrightarrow> over c e \<Longrightarrow> agrees (fields_of c) e \<Longrightarrow>
     aggregated_field (fields_of c) (bound (fields_of c) e) i = aggregated_field (fields_of c) e i"
  by (simp add: aggregated_field_def bind_agrees [OF _ over_bound] bind_bound [OF keyed_fields_of over_bound])

lemma node_fields_of: "node_fields c = Inr fs \<Longrightarrow> fields_by_id fs = fields_of c"
  by (simp add: fields_of_def)

lemma bound_node_fields:
  assumes "scoped n" "typed n" "binds_well n"
  shows "node_fields (bound_node n) = node_fields n"
proof (cases n)
  case (ProjectionNode c asg)
  have c: "typed c" using assms(2) ProjectionNode typed_iff [of n] by simp
  then obtain fs where fs: "node_fields c = Inr fs" using typed_fields by blast
  have "mapM (\<lambda>(e, i). projected_field (fields_of c) e i) (map (\<lambda>(e, i). (bound (fields_of c) e, i)) asg) =
      mapM (\<lambda>(e, i). projected_field (fields_of c) e i) asg"
    unfolding mapM_map by (rule mapM_cong) (use assms c in \<open>fastforce simp: ProjectionNode list_all_iff over_def projected_bound\<close>)+
  then show ?thesis by (simp add: ProjectionNode fs ProjectionNode_added_fields_def node_fields_of [OF fs])
next
  case (AggregateNode c aggs ks os dn)
  have c: "typed c" using assms(2) AggregateNode typed_iff [of n] by simp
  then obtain fs where fs: "node_fields c = Inr fs" using typed_fields by blast
  have "mapM (\<lambda>(e, i). aggregated_field (fields_of c) e i) (map (\<lambda>(e, i). (bound (fields_of c) e, i)) aggs) =
      mapM (\<lambda>(e, i). aggregated_field (fields_of c) e i) aggs"
    unfolding mapM_map by (rule mapM_cong) (use assms c in \<open>fastforce simp: AggregateNode list_all_iff over_def bindable_agg_def aggregated_bound\<close>)+
  then show ?thesis by (simp add: AggregateNode fs AggregateNode_fields_def node_fields_of [OF fs])
next
  case (WindowOpNode c ds w)
  have c: "typed c" using assms(2) WindowOpNode typed_iff [of n] by simp
  then obtain fs where fs: "node_fields c = Inr fs" using typed_fields by blast
  have "mapM (\<lambda>d. aggregated_field (fields_of c) (cdef_expression d) (cdef_id d)) (map (\<lambda>d. ColumnDef (bound (fields_of c) (cdef_expression d)) (cdef_id d)) ds) =
      mapM (\<lambda>d. aggregated_field (fields_of c) (cdef_expression d) (cdef_id d)) ds"
    unfolding mapM_map by (rule mapM_cong) (use assms c in \<open>fastforce simp: WindowOpNode list_all_iff over_def bindable_agg_def aggregated_bound\<close>)+
  then show ?thesis by (simp add: WindowOpNode fs WindowOpNode_added_fields_def node_fields_of [OF fs])
qed simp_all

lemma over_refs: "typed c \<Longrightarrow> over c e \<Longrightarrow> column_references (bound (fields_of c) e) = column_references e"
  by (rule references_bound [OF keyed_fields_of over_bound])

lemma parts_refs_bound:
  assumes "typed c" "parts_refs ps \<subseteq> set (out_ids c)"
  shows "parts_refs (map (bound_part (fields_of c)) ps) = parts_refs ps"
  using over_refs [OF assms(1) parts_over [OF assms(2)]] by (simp add: parts_refs_def referenced_columns_def bound_part_def)

lemma window_refs_bound:
  assumes "typed c" "all_referenced_columns w \<subseteq> set (out_ids c)"
  shows "all_referenced_columns (WindowSpec (map (bound (fields_of c)) (grouping_keys w)) (map (bound_part (fields_of c)) (window_ordering w)) (window_bounds w) (min_periods w)) =
    all_referenced_columns w"
  using over_refs [OF assms(1)] window_over [OF assms(2)] by (simp add: all_referenced_columns_def bound_part_def)

lemma bound_node_scoped:
  assumes "scoped n" "typed n"
  shows "scoped (bound_node n)"
proof (cases n)
  case (ProjectionNode c asg)
  have c: "typed c" using assms(2) ProjectionNode typed_iff [of n] by simp
  then show ?thesis using assms(1) over_refs [OF c] by (auto simp: ProjectionNode list_all_iff over_def comp_def case_prod_unfold)
next
  case (FilterNode c p)
  have c: "typed c" using assms(2) FilterNode typed_iff [of n] by simp
  then show ?thesis using assms(1) over_refs [OF c, of p] by (simp add: FilterNode over_def)
next
  case (OrderByNode c ps tot)
  have c: "typed c" using assms(2) OrderByNode typed_iff [of n] by simp
  then show ?thesis using assms(1) by (simp add: OrderByNode parts_refs_bound)
next
  case (AggregateNode c aggs ks os dn)
  have c: "typed c" using assms(2) AggregateNode typed_iff [of n] by simp
  then show ?thesis using assms(1) over_refs [OF c] by (auto simp: AggregateNode list_all_iff over_def comp_def case_prod_unfold)
next
  case (WindowOpNode c ds w)
  have c: "typed c" using assms(2) WindowOpNode typed_iff [of n] by simp
  then show ?thesis using assms(1) over_refs [OF c] by (simp add: WindowOpNode window_refs_bound list_all_iff over_def comp_def)
next
  case (JoinNode l r conds ty po)
  then show ?thesis using assms(1) by (auto simp: list_all_iff)
qed (use assms(1) in simp_all)

lemma bindable_bound:
  assumes "typed c" "over c e" "bindable_agg (fields_of c) e"
  shows "bindable_agg (fields_of c) (bound (fields_of c) e)"
proof -
  have "agrees (fields_of c) (bound (fields_of c) e)" by (rule agrees_bound [OF keyed_fields_of over_bound [OF assms(1,2)]])
  moreover have "agg_parts (bound (fields_of c) e) \<noteq> None" using assms(3) by (cases e) (simp_all add: bindable_agg_def)
  ultimately show ?thesis by (simp add: bindable_agg_def)
qed

lemma bound_node_binds:
  assumes "scoped n" "typed n" "binds_well n"
  shows "binds_well (bound_node n)"
proof (cases n)
  case (ProjectionNode c asg)
  have c: "typed c" using assms(2) ProjectionNode typed_iff [of n] by simp
  show ?thesis using assms(1) agrees_bound [OF keyed_fields_of over_bound [OF c]] by (fastforce simp: ProjectionNode list_all_iff over_def)
next
  case (FilterNode c p)
  have c: "typed c" using assms(2) FilterNode typed_iff [of n] by simp
  show ?thesis using assms(1) agrees_bound [OF keyed_fields_of over_bound [OF c]] by (simp add: FilterNode over_def)
next
  case (OrderByNode c ps tot)
  have c: "typed c" using assms(2) OrderByNode typed_iff [of n] by simp
  show ?thesis using assms(1) parts_over [of ps c] agrees_bound [OF keyed_fields_of over_bound [OF c]]
    by (simp add: OrderByNode list_all_iff bound_part_def)
next
  case (AggregateNode c aggs ks os dn)
  have c: "typed c" using assms(2) AggregateNode typed_iff [of n] by simp
  have "bindable_agg (fields_of c) (bound (fields_of c) e)" if "(e, i) \<in> set aggs" for e i
    by (rule bindable_bound [OF c]) (use assms(1,3) that in \<open>auto simp: AggregateNode list_all_iff over_def\<close>)
  then show ?thesis by (fastforce simp: AggregateNode list_all_iff)
next
  case (WindowOpNode c ds w)
  have c: "typed c" using assms(2) WindowOpNode typed_iff [of n] by simp
  have "bindable_agg (fields_of c) (bound (fields_of c) (cdef_expression d))" if "d \<in> set ds" for d
    by (rule bindable_bound [OF c]) (use assms(1,3) that in \<open>auto simp: WindowOpNode list_all_iff over_def\<close>)
  moreover have "\<forall>e \<in> set (grouping_keys w). over c e" "\<forall>p \<in> set (window_ordering w). over c (scalar_expression p)"
    using window_over [of w c] assms(1) unfolding WindowOpNode by simp_all
  ultimately show ?thesis using agrees_bound [OF keyed_fields_of over_bound [OF c]]
    by (simp add: WindowOpNode list_all_iff bound_part_def)
qed simp_all


subsection \<open>Whole plans\<close>

definition binds :: "bfnode \<Rightarrow> bool" where
  "binds n \<longleftrightarrow> (scoped n \<and> typed n) \<and> everywhere binds_well n"

lemma bound_node_children [simp]: "child_nodes (bound_node n) = child_nodes n"
  by (cases n) simp_all

lemma bind_node_sound:
  assumes "binds n"
  shows "bind_schema_to_node n = Inr (bound_node n) \<and> binds (bound_node n) \<and> same_plan E (bound_node n) n"
proof -
  have n: "scoped n" "typed n" "binds_well n" using assms everywhere_iff [of binds_well n] by (auto simp: binds_def)
  have "typed (bound_node n)" using n(2) bound_node_fields [OF n] by (simp add: typed_iff [of n] typed_iff [of "bound_node n"])
  moreover have "everywhere binds_well (bound_node n)"
    using assms bound_node_binds [OF n] by (simp add: binds_def everywhere_iff [of _ n] everywhere_iff [of _ "bound_node n"])
  ultimately show ?thesis
    using bind_node [OF n] bound_node_scoped [OF n(1,2)] bound_node_fields [OF n] bound_node_rows [OF n(3), of E]
    by (simp add: binds_def same_plan_def same_output_def table_def)
qed

lemma binds_well_transform:
  assumes "\<And>c. c \<in> set (child_nodes n) \<Longrightarrow> node_fields (t c) = node_fields c"
  shows "binds_well (transform_children t n) = binds_well n"
  using assms by (cases n) (simp_all add: fields_of_def)

interpretation binding: total_rewrite "pure_step bind_schema_to_node" "same_plan E" binds "\<lambda>_ _. True" "\<lambda>_ _. True" for E
proof unfold_locales
  fix n m :: bfnode and s s' :: unit
  assume "binds n" "pure_step bind_schema_to_node n s = Inr (m, s')"
  then show "binds m \<and> same_plan E m n \<and> True \<and> True"
    using bind_node_sound [of n E] by (auto simp: pure_step_def rbind_eq_Inr_iff)
next
  fix n and s :: unit assume "binds n"
  then show "\<exists>m s'. pure_step bind_schema_to_node n s = Inr (m, s')"
    using bind_node_sound [of n] by (auto simp: pure_step_def)
next
  fix n t
  assume n: "binds n" and kids: "\<And>c. c \<in> set (child_nodes n) \<Longrightarrow> binds (t c) \<and> same_plan E (t c) c"
  have "everywhere binds_well (transform_children t n)"
  proof (rule everywhere_transform)
    show "binds_well (transform_children t n)"
      using n kids by (subst binds_well_transform) (auto simp: same_plan_def binds_def everywhere_iff [of _ n])
  qed (use kids in \<open>simp add: binds_def\<close>)
  then show "binds (transform_children t n) \<and> same_plan E (transform_children t n) n"
    using same_plan_transform [of n t E] n kids by (simp add: binds_def)
next
  fix n c assume "binds n" "c \<in> set (child_nodes n)"
  then show "binds c"
    using scoped_children everywhere_child [of binds_well n c] typed_iff [of n] by (auto simp: binds_def list_all_iff)
qed (auto intro: same_plan_trans)

text \<open>Every expression the rewrite looks at is resolved afterwards, when it has no free variables.\<close>

fun bound_exprs :: "bfnode \<Rightarrow> expr list" where
  "bound_exprs (ProjectionNode c asg) = map fst asg"
| "bound_exprs (FilterNode c p) = [p]"
| "bound_exprs (OrderByNode c ps tot) = map scalar_expression ps"
| "bound_exprs (JoinNode l r conds ty po) = concat (map (\<lambda>(a, b). [Deref a, Deref b]) conds)"
| "bound_exprs (InNode l r x i) = [Deref x]"
| "bound_exprs (AggregateNode c aggs ks os dn) = map fst aggs"
| "bound_exprs (WindowOpNode c ds w) = map cdef_expression ds @ grouping_keys w @ map scalar_expression (window_ordering w)"
| "bound_exprs n = []"

lemma resolved_after_bind: "bind_to_child c e = Inr e' \<Longrightarrow> free_variables e = [] \<Longrightarrow> is_resolved e'"
  by (auto simp: bind_to_child_def rbind_eq_Inr_iff bind_schema_alt schema_binding_def intro!: resolved_subst split: if_splits)

lemma resolved_after_agg: "bind_schema_to_aggregation_expr c e = Inr e' \<Longrightarrow> free_variables e = [] \<Longrightarrow> is_resolved e'"
  by (cases e) (auto simp: rbind_eq_Inr_iff resolved_after_bind)

lemma resolved_from_field [simp]: "is_resolved (Deref (from_field f))"
  by (simp add: from_field_def)

lemma bind_node_resolved:
  assumes "bind_schema_to_node n = Inr m" "\<forall>e \<in> set (bound_exprs n). free_variables e = []"
  shows "\<forall>e \<in> set (bound_exprs m). is_resolved e"
proof (cases n)
  case (ProjectionNode c asg)
  then obtain b where b: "mapM (\<lambda>(e, i). rbind (bind_to_child c e) (\<lambda>e'. Inr (e', i))) asg = Inr b" "m = ProjectionNode c b"
    using assms(1) by (auto simp: rbind_eq_Inr_iff)
  have "\<forall>y \<in> set b. is_resolved (fst y)"
    by (rule mapM_holds [OF b(1)]) (use assms(2) resolved_after_bind in \<open>fastforce simp: ProjectionNode rbind_eq_Inr_iff\<close>)
  then show ?thesis using b(2) by simp
next
  case (FilterNode c p)
  then show ?thesis using assms resolved_after_bind by (auto simp: rbind_eq_Inr_iff)
next
  case (OrderByNode c ps tot)
  then obtain b where b: "mapM (bind_part c) ps = Inr b" "m = OrderByNode c b tot"
    using assms(1) by (auto simp: rbind_eq_Inr_iff)
  have "\<forall>y \<in> set b. is_resolved (scalar_expression y)"
    by (rule mapM_holds [OF b(1)]) (use assms(2) resolved_after_bind in \<open>fastforce simp: OrderByNode bind_part_def rbind_eq_Inr_iff\<close>)
  then show ?thesis using b(2) by simp
next
  case (JoinNode l r conds ty po)
  then obtain b where b: "mapM (\<lambda>(a, b). rbind (resolve_ref l a) (\<lambda>a'. rbind (resolve_ref r b) (\<lambda>b'. Inr (a', b')))) conds = Inr b" "m = JoinNode l r b ty po"
    using assms(1) by (auto simp: rbind_eq_Inr_iff)
  have "\<forall>y \<in> set b. is_resolved (Deref (fst y)) \<and> is_resolved (Deref (snd y))"
    by (rule mapM_holds [OF b(1)]) (auto simp: resolve_ref_def rbind_eq_Inr_iff from_field_def)
  then show ?thesis using b(2) by auto
next
  case (InNode l r x i)
  then show ?thesis using assms(1) by (auto simp: rbind_eq_Inr_iff resolve_ref_def from_field_def)
next
  case (AggregateNode c aggs ks os dn)
  then obtain b where b: "mapM (\<lambda>(e, i). rbind (bind_schema_to_aggregation_expr c e) (\<lambda>e'. Inr (e', i))) aggs = Inr b" "m = AggregateNode c b ks os dn"
    using assms(1) by (auto simp: rbind_eq_Inr_iff)
  have "\<forall>y \<in> set b. is_resolved (fst y)"
    by (rule mapM_holds [OF b(1)]) (use assms(2) resolved_after_agg in \<open>fastforce simp: AggregateNode rbind_eq_Inr_iff\<close>)
  then show ?thesis using b(2) by simp
next
  case (WindowOpNode c ds w)
  then obtain keys parts b where b: "mapM (bind_to_child c) (grouping_keys w) = Inr keys" "mapM (bind_part c) (window_ordering w) = Inr parts"
      "mapM (\<lambda>d. rbind (bind_schema_to_aggregation_expr c (cdef_expression d)) (\<lambda>e. Inr (ColumnDef e (cdef_id d)))) ds = Inr b"
      "m = WindowOpNode c b (WindowSpec keys parts (window_bounds w) (min_periods w))"
    using assms(1) by (auto simp: rbind_eq_Inr_iff)
  have "\<forall>y \<in> set keys. is_resolved y"
    by (rule mapM_holds [OF b(1)]) (use assms(2) resolved_after_bind in \<open>fastforce simp: WindowOpNode\<close>)
  moreover have "\<forall>y \<in> set parts. is_resolved (scalar_expression y)"
    by (rule mapM_holds [OF b(2)]) (use assms(2) resolved_after_bind in \<open>fastforce simp: WindowOpNode bind_part_def rbind_eq_Inr_iff\<close>)
  moreover have "\<forall>y \<in> set b. is_resolved (cdef_expression y)"
    by (rule mapM_holds [OF b(3)]) (use assms(2) resolved_after_agg in \<open>fastforce simp: WindowOpNode rbind_eq_Inr_iff\<close>)
  ultimately show ?thesis using b(4) by auto
qed (use assms(1) in auto)

definition closed_exprs :: "bfnode \<Rightarrow> bool" where
  "closed_exprs n \<longleftrightarrow> (\<forall>e \<in> set (bound_exprs n). free_variables e = [])"

definition resolved_exprs :: "bfnode \<Rightarrow> bool" where
  "resolved_exprs n \<longleftrightarrow> (\<forall>e \<in> set (bound_exprs n). is_resolved e)"

lemma bound_exprs_transform [simp]: "bound_exprs (transform_children t n) = bound_exprs n"
  by (cases n) simp_all

lemma bind_node_children: "bind_schema_to_node n = Inr m \<Longrightarrow> child_nodes m = child_nodes n"
  by (cases n) (auto simp: rbind_eq_Inr_iff)

lemma bind_schema_to_tree_sound:
  assumes "binds r0"
  shows "\<exists>m. bind_schema_to_tree r0 = Some (Inr (m, ())) \<and> binds m \<and> same_plan E m r0 \<and>
    (everywhere closed_exprs r0 \<longrightarrow> everywhere resolved_exprs m)"
proof -
  obtain m where m: "bottom_up (pure_step bind_schema_to_node) r0 () = Some (Inr (m, ()))" "binds m" "same_plan E m r0"
    using binding.bottom_up_returns [OF assms, of "()"] by auto
  have "everywhere resolved_exprs m" if closed: "everywhere closed_exprs r0"
  proof (rule bottom_up_establishes [OF m(1), of closed_exprs])
    show "closed_exprs n" if "n \<in> subnodes r0" for n
      using closed that by (auto simp: everywhere_def unique_nodes_set list_all_iff)
    show "everywhere resolved_exprs m'"
      if "closed_exprs n" "pure_step bind_schema_to_node n s = Inr (m', s')" "\<And>c. c \<in> set (child_nodes n) \<Longrightarrow> everywhere resolved_exprs c" for n s m' s'
      using that bind_node_resolved [of n m'] bind_node_children [of n m']
      by (auto simp: everywhere_iff [of _ m'] pure_step_def rbind_eq_Inr_iff list_all_iff resolved_exprs_def closed_exprs_def)
  qed (simp add: closed_exprs_def)
  with m show ?thesis unfolding bind_schema_to_tree_def by blast
qed

end
