(* ===== verification/Plan_Lowering.thy ===== *)
theory Plan_Lowering
  imports Rewrite_Windows Schema_Binding Rewrite_Scans
begin

text \<open>
  The rewrites that \<^verbatim>\<open>compile\<close> of \<^verbatim>\<open>core/compile/polars/compiler.py\<close> composes once a plan is pruned: slices
  become filters, the order of windows becomes sorts, and references are bound to the schema. What
  one pass establishes the next ones keep. Likewise for \<^verbatim>\<open>_try_adapt_plan\<close> of \<^verbatim>\<open>session/read_api_execution.py\<close>,
  which reduces a plan to a scan of a table and a limit.
\<close>

subsection \<open>The composition\<close>

definition then_pass :: "('a \<times> 's) result option \<Rightarrow> ('a \<Rightarrow> 's \<Rightarrow> 'b result option) \<Rightarrow> 'b result option" where
  "then_pass res next = (case res of None \<Rightarrow> None | Some (Inl e) \<Rightarrow> Some (Inl e) | Some (Inr (n, s)) \<Rightarrow> next n s)"

definition lower_for_polars :: "bfnode \<Rightarrow> nat \<Rightarrow> (bfnode \<times> unit) result option" where
  "lower_for_polars plan counter =
     then_pass (bottom_up rewrite_slice plan counter) (\<lambda>n1 counter1.
     then_pass (pull_out_window_order n1 counter1) (\<lambda>n2 counter2.
       bind_schema_to_tree n2))"

subsection \<open>Plans that can be lowered\<close>

text \<open>Nodes whose expressions are not bound yet, and whose aggregations are aggregations.\<close>

definition raw_expr :: "expr \<Rightarrow> bool" where
  "raw_expr e \<longleftrightarrow> Field_Renaming.plain e \<and> free_variables e = []"

fun aggregating :: "bfnode \<Rightarrow> bool" where
  "aggregating (AggregateNode c aggs ks os dn) = list_all (\<lambda>(e, _). agg_parts e \<noteq> None) aggs"
| "aggregating (WindowOpNode c ds w) = list_all (\<lambda>d. agg_parts (cdef_expression d) \<noteq> None) ds"
| "aggregating n = True"

definition lowerable :: "bfnode \<Rightarrow> bool" where
  "lowerable n \<longleftrightarrow> window_pullable n \<and> aggregating n \<and> (\<forall>e \<in> set (bound_exprs n). raw_expr e)"

lemma plain_agrees: "Field_Renaming.plain e \<Longrightarrow> agrees m e"
proof (induction e)
  case (WindowExpression a w)
  then show ?case by (auto simp: list_all_iff window_expressions_map set_window_expressions)
qed (auto simp: list_all_iff)

lemma lowerable_binds: "lowerable n \<Longrightarrow> binds_well n"
  by (cases n) (auto simp: lowerable_def raw_expr_def list_all_iff bindable_agg_def intro!: plain_agrees)

lemma lowerable_closed: "lowerable n \<Longrightarrow> closed_exprs n"
  by (simp add: lowerable_def closed_exprs_def raw_expr_def)

lemma lowerable_transform: "lowerable (transform_children t n) = lowerable n"
proof -
  have "aggregating (transform_children t n) = aggregating n" by (cases n) simp_all
  then show ?thesis by (simp add: lowerable_def window_pullable_transform)
qed

subsection \<open>Slices\<close>

lemma raw_binary: "raw_expr a \<Longrightarrow> raw_expr b \<Longrightarrow> raw_expr (OpExpression op [a, b])"
  by (simp add: raw_expr_def)

lemma raw_int [simp]: "raw_expr (int_const v)" "raw_expr (Deref (DerefOp i))"
  by (simp_all add: raw_expr_def int_const_def const_def)

lemma raw_merged:
  assumes "\<forall>p \<in> set ps. raw_expr p"
  shows "raw_expr (or_true (merge_predicates ps))"
proof (cases ps)
  case (Cons p qs)
  have "raw_expr p \<Longrightarrow> \<forall>q \<in> set qs. raw_expr q \<Longrightarrow> raw_expr (foldl (\<lambda>a b. OpExpression AndOp [a, b]) p qs)" for p qs
    by (induction qs arbitrary: p) (simp_all add: raw_binary)
  then show ?thesis using assms by (simp add: Cons or_true_def)
qed (simp add: or_true_def raw_expr_def const_def)

lemmas raw_conditions = raw_binary residue_cond_def complex_start_cond_def complex_stop_cond_def complex_start_diff_def

lemma convert_simple_raw: "raw_expr off \<Longrightarrow> convert_simple_slice off start stop step = Inr p \<Longrightarrow> raw_expr p"
  by (auto simp: convert_simple_slice_def rbind_eq_Inr_iff raw_conditions simp del: merge_predicates.simps intro!: raw_merged split: option.splits if_splits)

lemma convert_complex_raw: "raw_expr fwd \<Longrightarrow> raw_expr bwd \<Longrightarrow> convert_complex_slice fwd bwd start stop step = Inr p \<Longrightarrow> raw_expr p"
  by (auto simp: convert_complex_slice_def rbind_eq_Inr_iff raw_conditions simp del: merge_predicates.simps intro!: raw_merged split: option.splits)

lemma lowerable_simple [simp]:
  "lowerable (FilterNode c p) \<longleftrightarrow> raw_expr p" "lowerable (SelectionNode c pairs)" "lowerable (PromoteOffsetsNode c i)"
  "lowerable (ReversedNode c b)" "lowerable (OrderByNode c ps tot) \<longleftrightarrow> list_all (\<lambda>p. raw_expr (scalar_expression p)) ps"
  by (simp_all add: lowerable_def list_all_iff)

lemma slice_as_filter_lowerable:
  assumes "everywhere lowerable c" "slice_as_filter c start stop step s = Inr (m, s')"
  shows "everywhere lowerable m"
  using assms by (auto simp: slice_as_filter_def add_offsets_def rbind_eq_Inr_iff Let_def
      split: if_splits prod.splits dest!: drop_cols_node convert_simple_raw [OF raw_int(2)] convert_complex_raw [OF raw_int(2) raw_int(2)])

lemma rewrite_slice_lowerable:
  assumes "rewrite_slice n s = Inr (m, s')" "lowerable n" "\<And>c. c \<in> set (child_nodes n) \<Longrightarrow> everywhere lowerable c"
  shows "everywhere lowerable m"
proof (cases "is_slice n")
  case True
  then obtain c start stop step where n: "n = SliceNode c start stop step" by (cases n) auto
  then have c: "everywhere lowerable c" using assms(3) by simp
  have "m = c \<or> m = ReversedNode c True \<or> (\<exists>a b k. slice_as_filter c a b k s = Inr (m, s'))"
    using assms(1) by (auto simp: n rewrite_slice_node_def split: if_splits prod.splits)
  then show ?thesis using c slice_as_filter_lowerable [OF c] by auto
next
  case False
  then have "m = n" using assms(1) by (cases n) auto
  then show ?thesis using assms(2,3) by (simp add: everywhere_iff [of _ n] list_all_iff)
qed

subsection \<open>Windows and references\<close>

lemma rewrite_window_lowerable:
  assumes "rewrite_window_node n s = Inr (m, s')" "lowerable n" "\<And>c. c \<in> set (child_nodes n) \<Longrightarrow> everywhere lowerable c"
  shows "everywhere lowerable m"
proof (cases "\<exists>c ds w. n = WindowOpNode c ds w \<and> window_ordering w \<noteq> []")
  case True
  then obtain c ds w where n: "n = WindowOpNode c ds w" "window_ordering w \<noteq> []" by blast
  obtain i js where m: "m = SelectionNode (OrderByNode (WindowOpNode (OrderByNode (PromoteOffsetsNode c i) (window_ordering w) False) ds
      (WindowSpec (grouping_keys w) [] (window_bounds w) (min_periods w))) [ascending_over i True] True) js"
    using assms(1) n by (auto simp: without_order_def rbind_eq_Inr_iff Let_def split: prod.splits)
  have "everywhere lowerable c" using assms(3) n(1) by simp
  moreover have "lowerable (WindowOpNode (OrderByNode (PromoteOffsetsNode c i) (window_ordering w) False) ds
      (WindowSpec (grouping_keys w) [] (window_bounds w) (min_periods w)))" "list_all (\<lambda>p. raw_expr (scalar_expression p)) (window_ordering w)"
    using assms(2) n(1) by (auto simp: lowerable_def list_all_iff)
  ultimately show ?thesis by (simp add: m ascending_over_def)
next
  case False
  then have "m = n" using assms(1) by (cases n) auto
  then show ?thesis using assms(2,3) by (simp add: everywhere_iff [of _ n] list_all_iff)
qed

text \<open>Binding keeps the kind of every node, and the order of its windows empty.\<close>

definition lowered :: "bfnode \<Rightarrow> bool" where
  "lowered n \<longleftrightarrow> \<not> is_slice n \<and> unordered_window n"

lemma lowered_transform [simp]: "lowered (transform_children t n) = lowered n"
  by (cases n) (simp_all add: lowered_def)

lemma bind_node_lowered: "bind_schema_to_node n = Inr m \<Longrightarrow> lowered n \<Longrightarrow> lowered m"
  by (cases n) (auto simp: rbind_eq_Inr_iff lowered_def)

lemma rewrite_window_slices:
  assumes "rewrite_window_node n s = Inr (m, s')" "\<not> is_slice n" "\<And>c. c \<in> set (child_nodes n) \<Longrightarrow> no_slices c"
  shows "no_slices m"
proof (cases "\<exists>c ds w. n = WindowOpNode c ds w \<and> window_ordering w \<noteq> []")
  case True
  then show ?thesis using assms by (auto simp: without_order_def rbind_eq_Inr_iff Let_def no_slices_def split: prod.splits)
next
  case False
  then have "m = n" using assms(1) by (cases n) auto
  then show ?thesis using assms(2,3) by (simp add: no_slices_iff [of n] list_all_iff)
qed

lemma is_slice_transform [simp]: "is_slice (transform_children t n) = is_slice n"
  by (cases n) simp_all

subsection \<open>The whole composition\<close>

lemma everywhereD: "everywhere P n \<Longrightarrow> m \<in> subnodes n \<Longrightarrow> P m"
  by (auto simp: everywhere_def unique_nodes_set list_all_iff)

lemma lower_for_polars_sound:
  assumes "ordered_engine E" "sliceable E r0" "ids_older s r0" "everywhere lowerable r0"
  shows "\<exists>m. lower_for_polars r0 s = Some (Inr (m, ())) \<and> same_plan E m r0 \<and> everywhere lowered m \<and> everywhere resolved_exprs m"
proof -
  obtain n1 s1 where n1: "bottom_up rewrite_slice r0 s = Some (Inr (n1, s1))" "sliceable E n1" "same_plan E n1 r0" "ids_older s1 n1"
    using slicing.bottom_up_returns [OF assms(2,3)] by blast
  have slices1: "no_slices n1"
    by (rule bottom_up_establishes [OF n1(1), of "\<lambda>_. True"]) (simp_all add: rewrite_slice_no_slices)
  have low1: "everywhere lowerable n1"
    by (rule bottom_up_establishes [OF n1(1), of lowerable])
      (use assms(4) everywhereD lowerable_transform rewrite_slice_lowerable in blast)+
  have "everywhere window_pullable n1" by (rule everywhere_mono [OF low1]) (simp add: lowerable_def)
  then have "windowable E n1" using n1(2) assms(1) by (simp add: windowable_def sliceable_def)
  then obtain n2 s2 where n2: "bottom_up rewrite_window_node n1 s1 = Some (Inr (n2, s2))" "windowable E n2" "same_plan E n2 n1"
    using window_order.bottom_up_returns [OF _ n1(4)] by blast
  have low2: "everywhere lowerable n2"
    by (rule bottom_up_establishes [OF n2(1), of lowerable])
      (use low1 everywhereD lowerable_transform rewrite_window_lowerable in blast)+
  have "everywhere unordered_window n2"
    by (rule bottom_up_establishes [OF n2(1), of "\<lambda>_. True"]) (simp_all add: rewrite_window_unordered)
  moreover have "no_slices n2"
    by (rule bottom_up_establishes [OF n2(1), of "\<lambda>n. \<not> is_slice n"])
      (use slices1 everywhereD is_slice_transform rewrite_window_slices in \<open>unfold no_slices_def, blast\<close>)+
  ultimately have lowered2: "everywhere lowered n2" by (auto simp: no_slices_def lowered_def everywhere_def list_all_iff)
  have "binds n2"
    using n2(2) everywhere_mono [OF low2 lowerable_binds] by (simp add: binds_def windowable_def)
  moreover have "everywhere closed_exprs n2" by (rule everywhere_mono [OF low2 lowerable_closed])
  ultimately obtain m where m: "bind_schema_to_tree n2 = Some (Inr (m, ()))" "same_plan E m n2" "everywhere resolved_exprs m"
    using bind_schema_to_tree_sound [of n2 E] by blast
  have "everywhere lowered m"
  proof (rule bottom_up_establishes [OF m(1) [unfolded bind_schema_to_tree_def], of lowered])
    show "lowered n" if "n \<in> subnodes n2" for n by (rule everywhereD [OF lowered2 that])
    show "everywhere lowered m'"
      if "lowered n" "pure_step bind_schema_to_node n s = Inr (m', s')" "\<And>c. c \<in> set (child_nodes n) \<Longrightarrow> everywhere lowered c" for n s m' s'
      using that bind_node_lowered [of n m'] bind_node_children [of n m']
      by (auto simp: everywhere_iff [of _ m'] pure_step_def rbind_eq_Inr_iff list_all_iff)
  qed simp
  moreover have "same_plan E m r0" using m(2) n2(3) n1(3) by (blast intro: same_plan_trans)
  ultimately show ?thesis
    using m n1(1) n2(1) by (simp add: lower_for_polars_def then_pass_def pull_out_window_order_def)
qed

subsection \<open>Plans read without a query\<close>

fun scan_source :: "bfnode \<Rightarrow> bq_source option" where
  "scan_source (ReadTableNode src items sess) = Some src"
| "scan_source (CachedTableNode src items sess orig) = Some src"
| "scan_source n = None"

definition try_adapt_plan :: "bfnode \<Rightarrow> bool \<Rightarrow> nat \<Rightarrow> (bfnode \<times> int option) option result option" where
  "try_adapt_plan plan ordered counter =
     (case pull_out_limit plan of (plan0, limit) \<Rightarrow>
        then_pass (bottom_up rewrite_slice plan0 counter) (\<lambda>plan1 counter1.
          case (if \<not> ordered then bake_order plan1 counter1 else Inr (plan1, counter1)) of
            Inl e \<Rightarrow> Some (Inl e)
          | Inr (plan2, _) \<Rightarrow>
              map_option (\<lambda>res. rbind res (\<lambda>scan. Inr (case scan of
                  None \<Rightarrow> None
                | Some n \<Rightarrow> if limit \<noteq> None \<and> Option.bind (scan_source n) src_ordering \<noteq> None then None else Some (n, limit))))
                (try_reduce_to_table_scan plan2)))"

text \<open>Pulling out the limit keeps what the slice rewrite needs.\<close>

lemma pull_out_limit_fields: "pull_out_limit n = (m, limit) \<Longrightarrow> node_fields m = node_fields n"
proof (induction n arbitrary: m limit)
  case (SliceNode c start stop step)
  then show ?case by (auto split: prod.splits if_splits option.splits)
qed (auto split: prod.splits if_splits)

lemma pull_out_limit_ids: "pull_out_limit n = (m, limit) \<Longrightarrow> out_ids m = out_ids n"
proof (induction n arbitrary: m limit)
  case (SliceNode c start stop step)
  then show ?case by (auto split: prod.splits if_splits option.splits)
qed (auto split: prod.splits if_splits)

lemma pull_out_limit_typed: "pull_out_limit n = (m, limit) \<Longrightarrow> typed n \<Longrightarrow> typed m"
proof (induction n arbitrary: m limit)
  case (SliceNode c start stop step)
  then show ?case by (auto simp: typed_iff [of "SliceNode _ _ _ _"] split: prod.splits if_splits option.splits)
next
  case (SelectionNode c pairs)
  then show ?case
    by (auto simp: typed_iff [of "SelectionNode _ _"] pull_out_limit_fields split: prod.splits if_splits)
next
  case (ProjectionNode c asg)
  then show ?case
    by (auto simp: typed_iff [of "ProjectionNode _ _"] pull_out_limit_fields split: prod.splits if_splits)
qed auto

lemma pull_out_limit_nodes:
  assumes "pull_out_limit n = (m, limit)" "everywhere P n"
    and "\<And>c c' pairs. P (SelectionNode c pairs) \<Longrightarrow> P (SelectionNode c' pairs)" "\<And>c c' asg. P (ProjectionNode c asg) \<Longrightarrow> P (ProjectionNode c' asg)"
  shows "everywhere P m"
  using assms(1,2)
proof (induction n arbitrary: m limit)
  case (SliceNode c start stop step)
  then show ?case by (auto split: prod.splits if_splits option.splits)
next
  case (SelectionNode c pairs)
  then show ?case using assms(3) [of c pairs] by (auto split: prod.splits if_splits)
next
  case (ProjectionNode c asg)
  then show ?case using assms(4) [of c asg] by (auto split: prod.splits if_splits)
qed auto

lemma pull_out_limit_scoped: "pull_out_limit n = (m, limit) \<Longrightarrow> scoped n \<Longrightarrow> scoped m"
proof (induction n arbitrary: m limit)
  case (SliceNode c start stop step)
  then show ?case by (auto split: prod.splits if_splits option.splits)
qed (auto simp: pull_out_limit_ids split: prod.splits if_splits)

lemma pull_out_limit_older: "pull_out_limit n = (m, limit) \<Longrightarrow> ids_older s n \<Longrightarrow> ids_older s m"
proof (induction n arbitrary: m limit)
  case (SliceNode c start stop step)
  then show ?case by (auto simp: ids_older_iff [of _ "SliceNode _ _ _ _"] split: prod.splits if_splits option.splits)
next
  case (SelectionNode c pairs)
  then show ?case by (auto simp: ids_older_iff [of _ "SelectionNode _ _"] pull_out_limit_ids split: prod.splits if_splits)
next
  case (ProjectionNode c asg)
  then show ?case by (auto simp: ids_older_iff [of _ "ProjectionNode _ _"] pull_out_limit_ids split: prod.splits if_splits)
qed auto

lemma pull_out_limit_sliceable:
  assumes "pull_out_limit n = (m, limit)" "sliceable E n"
  shows "sliceable E m"
proof -
  have "slices_fit E m"
    using pull_out_limit_nodes [OF assms(1), of "\<lambda>m. counted E m \<and> slice_fits E m"] assms(2) by (auto simp: sliceable_def slices_fit_def)
  then show ?thesis
    using pull_out_limit_scoped [OF assms(1)] pull_out_limit_typed [OF assms(1)] assms(2) by (simp add: sliceable_def)
qed

text \<open>A plan without slices whose nodes are all scans and selections has no empty selection, when the plan before had none.\<close>

definition scan_node :: "bfnode \<Rightarrow> bool" where
  "scan_node n \<longleftrightarrow> is_table_scan n \<or> is_selection n"

lemma slice_as_filter_no_scan: "slice_as_filter c start stop step s = Inr (m, s') \<Longrightarrow> \<not> everywhere scan_node m"
  by (auto simp: slice_as_filter_def add_offsets_def rbind_eq_Inr_iff Let_def scan_node_def split: if_splits prod.splits dest!: drop_cols_node)

lemma rewrite_slice_mergeable:
  assumes "rewrite_slice n s = Inr (m, s')" "mergeable n" "\<And>c. c \<in> set (child_nodes n) \<Longrightarrow> everywhere scan_node c \<longrightarrow> everywhere mergeable c"
  shows "everywhere scan_node m \<longrightarrow> everywhere mergeable m"
proof (cases "is_slice n")
  case True
  then obtain c start stop step where n: "n = SliceNode c start stop step" by (cases n) auto
  then have c: "everywhere scan_node c \<longrightarrow> everywhere mergeable c" using assms(3) by simp
  have "m = c \<or> m = ReversedNode c True \<or> (\<exists>a b k. slice_as_filter c a b k s = Inr (m, s'))"
    using assms(1) by (auto simp: n rewrite_slice_node_def split: if_splits prod.splits)
  then show ?thesis using c slice_as_filter_no_scan by (auto simp: scan_node_def)
next
  case False
  then have "m = n" using assms(1) by (cases n) auto
  then show ?thesis using assms(2,3) by (simp add: everywhere_iff [of _ n] list_all_iff)
qed

lemma try_adapt_plan_sound:
  assumes "sliceable E plan" "ids_older s plan" "everywhere mergeable plan"
    and "try_adapt_plan plan True s = Some (Inr (Some (m, limit)))"
  shows "is_table_scan m \<and> out_ids m = out_ids plan \<and>
    rows_agree (set (out_ids plan)) (case limit of None \<Rightarrow> rows E m | Some k \<Rightarrow> take (nat k) (rows E m)) (rows E plan) \<and>
    (limit \<noteq> None \<longrightarrow> Option.bind (scan_source m) src_ordering = None)"
proof -
  obtain plan0 lim where p0: "pull_out_limit plan = (plan0, lim)" by (cases "pull_out_limit plan")
  have ok0: "sliceable E plan0" "ids_older s plan0"
    using pull_out_limit_sliceable [OF p0 assms(1)] pull_out_limit_older [OF p0 assms(2)] by auto
  have merge0: "everywhere mergeable plan0" by (rule pull_out_limit_nodes [OF p0 assms(3)]) simp_all
  obtain plan1 s1 where p1: "bottom_up rewrite_slice plan0 s = Some (Inr (plan1, s1))" "sliceable E plan1" "same_plan E plan1 plan0"
    using slicing.bottom_up_returns [OF ok0] by blast
  obtain scan where scan: "try_reduce_to_table_scan plan1 = Some (Inr (Some m))" "lim = limit"
      "\<not> (limit \<noteq> None \<and> Option.bind (scan_source m) src_ordering \<noteq> None)"
    using assms(4) p0 p1(1) by (auto simp: try_adapt_plan_def then_pass_def rbind_eq_Inr_iff split: option.splits if_splits)
  have "everywhere scan_node plan1"
    using scan(1) by (auto simp: try_reduce_to_table_scan_def everywhere_def scan_node_def list_all_iff list_ex_iff split: if_splits)
  moreover have "everywhere scan_node plan1 \<longrightarrow> everywhere mergeable plan1"
    by (rule bottom_up_establishes [OF p1(1), of mergeable])
      (use everywhereD [OF merge0] mergeable_transform rewrite_slice_mergeable in blast)+
  ultimately have "scannable plan1" using p1(2) by (simp add: scannable_def sliceable_def)
  then have m: "is_table_scan m" "same_plan E m plan1" using table_scan_sound [of plan1 m E] scan(1) by auto
  then have "same_plan E m plan0" using p1(3) by (blast intro: same_plan_trans)
  then have agree: "rows_agree (set (out_ids plan0)) (rows E m) (rows E plan0)" "out_ids m = out_ids plan0"
    by (simp_all add: same_plan_def same_output_iff)
  have "everywhere (counted E) plan" using assms(1) slices_fit_counted by (simp add: sliceable_def)
  then show ?thesis
    using pull_out_limit_sound [OF p0] agree m(1) scan(2,3)
    by (auto simp: rows_agree_def list_all2_takeI split: option.splits)
qed

end
