(* ===== verification/Traversal_Recursion.thy ===== *)
theory Traversal_Recursion
  imports Rewrite_Framework
begin

text \<open>
  The top-down traversal as an iteration with an invariant, and as recursion: it never fails when its
  transformation does not, and its result for a node is that of the recursion on the transformed node.
\<close>

text \<open>An entry of the stack that is looked at, with the transformed node.\<close>

definition transformed :: "'s step \<Rightarrow> results \<Rightarrow> 's \<Rightarrow> bfnode \<Rightarrow> bfnode option \<Rightarrow> bfnode \<Rightarrow> 's \<Rightarrow> bool" where
  "transformed t R s n x m s' \<longleftrightarrow> x = None \<and> R n = None \<and> t n s = Inr (m, s') \<or> x = Some m \<and> s' = s"

lemma find_SomeD: "find P xs = Some x \<Longrightarrow> x \<in> set xs \<and> P x"
  by (auto simp: find_Some_iff)

lemma top_down_loop_invariant:
  fixes t0 :: "'s step" and I :: "(bfnode \<times> bfnode option) list \<Rightarrow> results \<Rightarrow> 's \<Rightarrow> bool"
  assumes run: "top_down_loop t0 stack0 R0 s0 = Some res0" and init: "I stack0 R0 s0"
    and skip: "\<And>n rest R s. I ((n, None) # rest) R s \<Longrightarrow> R n \<noteq> None \<Longrightarrow> I rest R s"
    and push: "\<And>n x rest R s m s' c. I ((n, x) # rest) R s \<Longrightarrow> transformed t0 R s n x m s' \<Longrightarrow> c \<in> set (child_nodes m) \<Longrightarrow>
        R c = None \<Longrightarrow> I ((c, None) # (n, Some m) # rest) R s'"
    and finish: "\<And>n x rest R s m s'. I ((n, x) # rest) R s \<Longrightarrow> transformed t0 R s n x m s' \<Longrightarrow>
        (\<And>c. c \<in> set (child_nodes m) \<Longrightarrow> R c \<noteq> None) \<Longrightarrow> I rest (R(n \<mapsto> transform_children (get_or_self R) m)) s'"
  shows "case res0 of Inl e \<Rightarrow> \<exists>n s. t0 n s = Inl e | Inr (R', s') \<Rightarrow> I [] R' s'"
proof -
  define claim where "claim t stack R s res \<longleftrightarrow> (t = t0 \<longrightarrow> I stack R s \<longrightarrow>
      (case res of Inl e \<Rightarrow> \<exists>n s. t0 n s = Inl e | Inr (R', s') \<Rightarrow> I [] R' s'))"
    for t :: "'s step" and stack :: "(bfnode \<times> bfnode option) list" and R :: results and s :: 's and res :: "(results \<times> 's) result"
  have "claim t0 stack0 R0 s0 res0"
  proof (rule top_down_loop.raw_induct [where P = claim, OF _ run])
    fix loop t stack R s res
    assume IH: "\<And>t stack R s res. loop t stack R s = Some res \<Longrightarrow> claim t stack R s res"
      and body: "(case stack of [] \<Rightarrow> Some (Inr (R, s))
        | (node, t_node) # rest \<Rightarrow>
            if t_node = None \<and> R node \<noteq> None then loop t rest R s
            else case case t_node of None \<Rightarrow> t node s | Some m \<Rightarrow> Inr (m, s) of
              Inl e \<Rightarrow> Some (Inl e)
            | Inr (m, s') \<Rightarrow>
                (case find (\<lambda>c. R c = None) (rev (child_nodes m)) of
                   None \<Rightarrow> loop t rest (R(node \<mapsto> transform_children (get_or_self R) m)) s'
                 | Some c \<Rightarrow> loop t ((c, None) # (node, Some m) # rest) R s')) = Some res"
    show "claim t stack R s res"
      unfolding claim_def
    proof (intro impI)
      assume t: "t = t0" and I: "I stack R s"
      show "case res of Inl e \<Rightarrow> \<exists>n s. t0 n s = Inl e | Inr (R', s') \<Rightarrow> I [] R' s'"
      proof (cases stack)
        case Nil
        then show ?thesis using body I by auto
      next
        case (Cons x rest)
        obtain node t_node where x: "x = (node, t_node)" by (cases x)
        consider "t_node = None" "R node \<noteq> None" "loop t rest R s = Some res"
          | e where "t_node = None" "t node s = Inl e" "res = Inl e"
          | m s' where "transformed t0 R s node t_node m s'" "find (\<lambda>c. R c = None) (rev (child_nodes m)) = None"
              "loop t rest (R(node \<mapsto> transform_children (get_or_self R) m)) s' = Some res"
          | m s' c where "transformed t0 R s node t_node m s'" "find (\<lambda>c. R c = None) (rev (child_nodes m)) = Some c"
              "loop t ((c, None) # (node, Some m) # rest) R s' = Some res"
          using body t unfolding Cons x transformed_def by (auto split: if_splits option.splits sum.splits)
        then show ?thesis
        proof cases
          case 1
          have "I rest R s" by (rule skip [of node]) (use I 1 in \<open>simp_all add: Cons x\<close>)
          then show ?thesis using IH [OF 1(3)] t by (simp add: claim_def)
        next
          case 2
          then show ?thesis using t by auto
        next
          case 3
          have "I rest (R(node \<mapsto> transform_children (get_or_self R) m)) s'"
            by (rule finish [OF _ 3(1)]) (use I 3(2) in \<open>auto simp: Cons x find_None_iff\<close>)
          then show ?thesis using IH [OF 3(3)] t by (simp add: claim_def)
        next
          case 4
          have "I ((c, None) # (node, Some m) # rest) R s'"
            by (rule push [OF _ 4(1)]) (use I find_SomeD [OF 4(2)] in \<open>simp_all add: Cons x\<close>)
          then show ?thesis using IH [OF 4(3)] t by (simp add: claim_def)
        qed
      qed
    qed
  qed
  then show ?thesis using init by (simp add: claim_def)
qed

lemma top_down_loop_covers:
  assumes "top_down_loop t stack R s = Some (Inr (R', s'))"
  shows "dom R \<union> fst ` set stack \<subseteq> dom R'"
proof -
  define I where "I stack' R' s' \<longleftrightarrow> dom R \<union> fst ` set stack \<subseteq> dom R' \<union> fst ` set stack'"
    for stack' :: "(bfnode \<times> bfnode option) list" and R' :: results and s' :: 'a
  have "case Inr (R', s') :: (results \<times> 'a) result of Inl e \<Rightarrow> \<exists>n s. t n s = Inl e | Inr (R', s') \<Rightarrow> I [] R' s'"
    by (rule top_down_loop_invariant [OF assms]) (auto simp: I_def)
  then show ?thesis by (simp add: I_def)
qed

text \<open>A traversal with a transformation that never raises does not raise.\<close>

lemma top_down_total:
  assumes "\<And>n s. \<exists>m s'. t n s = Inr (m, s')" "top_down t r0 s = Some res"
  shows "\<exists>m s'. res = Inr (m, s')"
proof -
  obtain loop where loop: "top_down_loop t [(r0, None)] Map.empty s = Some loop"
      "res = rbind loop (\<lambda>(R, s'). rbind (lookup_or KeyError R r0) (\<lambda>m. Inr (m, s')))"
    using assms(2) by (auto simp: top_down_def)
  have "case loop of Inl e \<Rightarrow> \<exists>n s. t n s = Inl e | Inr (R', s') \<Rightarrow> True"
    using top_down_loop_invariant [OF loop(1), of "\<lambda>_ _ _. True"] by auto
  then obtain R s' where R: "loop = Inr (R, s')" using assms(1) by (cases loop) (auto, metis Inl_Inr_False)
  then have "r0 \<in> dom R" using top_down_loop_covers [of t "[(r0, None)]" Map.empty s R s'] loop(1) by auto
  then show ?thesis using loop(2) R by (auto simp: lookup_or_def)
qed

text \<open>
  The traversal is recursion: a function that satisfies the recursive equation on the nodes the traversal
  reaches gives its result.
\<close>

lemma top_down_recursion:
  assumes step: "\<And>n s m s'. n \<in> V \<Longrightarrow> t n s = Inr (m, s') \<Longrightarrow> set (child_nodes m) \<subseteq> V \<and> g n = transform_children g m"
    and run: "top_down t r0 s = Some (Inr (m, s'))" and r0: "r0 \<in> V"
  shows "m = g r0"
proof -
  obtain R where R: "top_down_loop t [(r0, None)] Map.empty s = Some (Inr (R, s'))" "R r0 = Some m"
    using run by (auto simp: top_down_def rbind_eq_Inr_iff lookup_or_def split: option.splits)
  define I where "I stack R s \<longleftrightarrow> (\<forall>n m. R n = Some m \<longrightarrow> m = g n) \<and>
      (\<forall>(n, x) \<in> set stack. n \<in> V \<and> (\<forall>m. x = Some m \<longrightarrow> set (child_nodes m) \<subseteq> V \<and> g n = transform_children g m))"
    for stack and R :: results and s :: 'a
  have known: "set (child_nodes k) \<subseteq> V \<and> g n = transform_children g k"
    if "I ((n, x) # rest) R s" "transformed t R s n x k s'" for n x rest R s k s'
    using that step [of n s k s'] by (auto simp: I_def transformed_def)
  have "case Inr (R, s') :: (results \<times> 'a) result of Inl e \<Rightarrow> \<exists>n s. t n s = Inl e | Inr (R', s') \<Rightarrow> I [] R' s'"
  proof (rule top_down_loop_invariant [OF R(1)])
    show "I [(r0, None)] Map.empty s" using r0 by (simp add: I_def)
    show "I rest R s" if "I ((n, None) # rest) R s" for n rest R s using that by (simp add: I_def)
    show "I ((c, None) # (n, Some k) # rest) R s'"
      if "I ((n, x) # rest) R s" "transformed t R s n x k s'" "c \<in> set (child_nodes k)" for n x rest R s k s' c
      using known [OF that(1,2)] that(1,3) by (auto simp: I_def)
    show "I rest (R(n \<mapsto> transform_children (get_or_self R) k)) s'"
      if entry: "I ((n, x) # rest) R s" "transformed t R s n x k s'" and kids: "\<And>c. c \<in> set (child_nodes k) \<Longrightarrow> R c \<noteq> None"
      for n x rest R s k s'
    proof -
      have "get_or_self R c = g c" if "c \<in> set (child_nodes k)" for c
        using kids [OF that] entry(1) by (auto simp: I_def get_or_self_def)
      then have "transform_children (get_or_self R) k = g n"
        using known [OF entry] by (metis transform_children_cong)
      then show ?thesis using entry(1) by (auto simp: I_def)
    qed
  qed
  then show ?thesis using R(2) by (simp add: I_def)
qed

text \<open>A bottom-up traversal that leaves every node of a plan as it is returns the plan.\<close>

lemma bottom_up_loop_identity:
  "bottom_up_loop t nodes R s = Inr (R', s') \<Longrightarrow> (\<forall>n \<in> set nodes. t n s = Inr (n, s)) \<Longrightarrow> (\<forall>n m. R n = Some m \<longrightarrow> m = n) \<Longrightarrow>
     s' = s \<and> (\<forall>n m. R' n = Some m \<longrightarrow> m = n)"
proof (induction nodes arbitrary: R)
  case (Cons n nodes)
  have "get_or_self R = (\<lambda>c. c)" using Cons.prems(3) by (auto simp: get_or_self_def fun_eq_iff split: option.split)
  then have "bottom_up_loop t nodes (R(n \<mapsto> n)) s = Inr (R', s')"
    using Cons.prems(1,2) by (auto simp: rbind_eq_Inr_iff with_results_def)
  moreover have "\<forall>n \<in> set nodes. t n s = Inr (n, s)" using Cons.prems(2) by simp
  moreover have "\<forall>k m. (R(n \<mapsto> n)) k = Some m \<longrightarrow> m = k" using Cons.prems(3) by (simp only: fun_upd_apply) (metis option.inject)
  ultimately show ?case by (rule Cons.IH)
qed simp

lemma bottom_up_identity:
  assumes "bottom_up t r0 s = Some (Inr (m, s'))" "\<And>n. n \<in> subnodes r0 \<Longrightarrow> t n s = Inr (n, s)"
  shows "m = r0 \<and> s' = s"
proof -
  obtain order where order: "iter_nodes_topo r0 = Some order" "set order = subnodes r0" using iter_nodes_topo_result by blast
  obtain R where R: "bottom_up_loop t order Map.empty s = Inr (R, s')" "R r0 = Some m"
    using assms(1) order(1) by (auto simp: bottom_up_def rbind_eq_Inr_iff lookup_or_def split: option.splits)
  show ?thesis using bottom_up_loop_identity [OF R(1)] assms(2) order(2) R(2) by auto
qed

end
