(* ===== verification/Rewrite_Ctes.thy ===== *)
theory Rewrite_Ctes
  imports Traversal_Recursion
begin

text \<open>
  \<^verbatim>\<open>core/rewrite/ctes.py\<close>: a node that several references in the plan point to is wrapped in a marker
  for a common table expression wherever it is referenced.
\<close>

subsection \<open>The code\<close>

definition node_parents :: "bfnode \<Rightarrow> bfnode \<Rightarrow> nat" where
  "node_parents r0 = fold (\<lambda>parent counts. fold (\<lambda>child counts. counts(child := counts child + 1)) (child_nodes parent) counts)
     (unique_nodes r0) (\<lambda>_. 0)"

definition add_cte_if_needed :: "(bfnode \<Rightarrow> nat) \<Rightarrow> bfnode \<Rightarrow> bfnode" where
  "add_cte_if_needed parents child = (if parents child > 1 then CteNode child else child)"

fun insert_cte_markers :: "(bfnode \<Rightarrow> nat) \<Rightarrow> bfnode \<Rightarrow> bfnode" where
  "insert_cte_markers parents (CteNode c) = CteNode c"
| "insert_cte_markers parents n = transform_children (add_cte_if_needed parents) n"

definition extract_ctes :: "bfnode \<Rightarrow> (bfnode \<times> unit) result option" where
  "extract_ctes r0 = top_down (pure_step (\<lambda>n. Inr (insert_cte_markers (node_parents r0) n))) r0 ()"

subsection \<open>What is counted\<close>

lemma fold_count: "fold (\<lambda>x counts. counts(x := Suc (counts x))) xs m y = m y + count_list xs y" for m :: "'a \<Rightarrow> nat"
  by (induction xs arbitrary: m) auto

text \<open>The references to a node from the distinct nodes of the plan.\<close>

lemma node_parents_count: "node_parents r0 n = sum_list (map (\<lambda>p. count_list (child_nodes p) n) (unique_nodes r0))"
proof -
  have "fold (\<lambda>parent counts. fold (\<lambda>child counts. counts(child := counts child + 1)) (child_nodes parent) counts) ps m n =
      m n + sum_list (map (\<lambda>p. count_list (child_nodes p) n) ps)" for ps and m :: "bfnode \<Rightarrow> nat"
    by (induction ps arbitrary: m) (simp_all add: fold_count)
  then show ?thesis by (simp add: node_parents_def)
qed

subsection \<open>Soundness\<close>

definition well_formed :: "bfnode \<Rightarrow> bool" where
  "well_formed n \<longleftrightarrow> scoped n \<and> typed n"

lemma typed_cte [simp]: "typed (CteNode c) \<longleftrightarrow> typed c"
  by (simp add: typed_iff [of "CteNode c"]) (metis typed_iff)

lemma same_plan_cte [simp]: "same_plan E (CteNode c) c"
  by (simp add: same_plan_def same_output_def table_def)

lemma insert_cte_markers_sound:
  assumes "well_formed n"
  shows "well_formed (insert_cte_markers parents n) \<and> same_plan E (insert_cte_markers parents n) n"
proof (cases "\<exists>c. n = CteNode c")
  case False
  have child: "scoped c \<and> typed c" if "c \<in> set (child_nodes n)" for c
    using assms that scoped_children [of n c] typed_iff [of n] by (auto simp: well_formed_def list_all_iff)
  have "insert_cte_markers parents n = transform_children (add_cte_if_needed parents) n"
    using False by (cases n) auto
  then show ?thesis
    using same_plan_transform [of n "add_cte_if_needed parents" E] assms child by (simp add: well_formed_def add_cte_if_needed_def)
qed (use assms in auto)

interpretation cte_markers: total_rewrite "pure_step (\<lambda>n. Inr (insert_cte_markers parents n))" "same_plan E" well_formed "\<lambda>_ _. True" "\<lambda>_ _. True"
  for E parents
proof unfold_locales
  fix n m :: bfnode and s s' :: unit
  assume "well_formed n" "pure_step (\<lambda>n. Inr (insert_cte_markers parents n)) n s = Inr (m, s')"
  then show "well_formed m \<and> same_plan E m n \<and> True \<and> True"
    using insert_cte_markers_sound [of n parents E] by (simp add: pure_step_def)
next
  fix n c assume "well_formed n" "c \<in> set (child_nodes n)"
  then show "well_formed c" using scoped_children typed_iff [of n] by (auto simp: well_formed_def list_all_iff)
next
  fix n t assume "well_formed n" "\<And>c. c \<in> set (child_nodes n) \<Longrightarrow> well_formed (t c) \<and> same_plan E (t c) c"
  then show "well_formed (transform_children t n) \<and> same_plan E (transform_children t n) n"
    using same_plan_transform [of n t E] by (simp add: well_formed_def)
qed (auto intro: same_plan_trans simp: pure_step_def)

text \<open>A marked child is larger than the child, and smaller than its parent.\<close>

definition marked_size :: "bfnode \<Rightarrow> nat" where
  "marked_size n = (case n of CteNode c \<Rightarrow> 2 * size c + 1 | _ \<Rightarrow> 2 * size n)"

lemma marked_size_le: "marked_size n \<le> 2 * size n"
  by (cases n) (simp_all add: marked_size_def)

lemma insert_cte_markers_decreases:
  assumes "c \<in> set (child_nodes (insert_cte_markers parents n))"
  shows "marked_size c < marked_size n"
proof (cases "\<exists>d. n = CteNode d")
  case True
  then show ?thesis using assms marked_size_le [of c] by (auto simp: marked_size_def)
next
  case False
  then have "insert_cte_markers parents n = transform_children (add_cte_if_needed parents) n" "marked_size n = 2 * size n"
    by (cases n; auto simp: marked_size_def)+
  then obtain d where d: "d \<in> set (child_nodes n)" "c = add_cte_if_needed parents d" using assms by auto
  have "size d < size n" by (rule size_child_nodes [OF d(1)])
  moreover have "marked_size c \<le> 2 * size d + 1"
    using marked_size_le [of d] by (simp add: d(2) add_cte_if_needed_def marked_size_def)
  ultimately show ?thesis using \<open>marked_size n = 2 * size n\<close> by linarith
qed

text \<open>The markers the pass inserts: around every reference, but a marker's own, to a node with more than one parent.\<close>

fun is_cte :: "bfnode \<Rightarrow> bool" where
  "is_cte (CteNode c) = True"
| "is_cte n = False"

function with_ctes :: "(bfnode \<Rightarrow> nat) \<Rightarrow> bfnode \<Rightarrow> bfnode" where
  "with_ctes parents n =
     transform_children (\<lambda>c. if \<not> is_cte n \<and> parents c > 1 then CteNode (with_ctes parents c) else with_ctes parents c) n"
  by pat_completeness auto
termination by (relation "measure (\<lambda>(parents, n). size n)") (auto dest: size_child_nodes)

declare with_ctes.simps [simp del]

lemma with_ctes_cte [simp]: "with_ctes parents (CteNode c) = CteNode (with_ctes parents c)"
  by (simp add: with_ctes.simps [of parents "CteNode c"])

lemma with_ctes_step: "with_ctes parents n = transform_children (with_ctes parents) (insert_cte_markers parents n)"
proof (cases "is_cte n")
  case True
  then show ?thesis by (cases n) simp_all
next
  case False
  then have "insert_cte_markers parents n = transform_children (add_cte_if_needed parents) n" by (cases n) simp_all
  then show ?thesis
    using False unfolding with_ctes.simps [of parents n]
    by (simp only: transform_children_comp) (rule transform_children_cong, simp_all add: add_cte_if_needed_def)
qed

lemma extract_ctes_sound:
  assumes "well_formed r0"
  shows "extract_ctes r0 = Some (Inr (with_ctes (node_parents r0) r0, ())) \<and> same_plan E (with_ctes (node_parents r0) r0) r0"
proof -
  let ?step = "pure_step (\<lambda>n. Inr (insert_cte_markers (node_parents r0) n))"
  have "\<exists>res. top_down ?step r0 () = Some res"
    by (rule top_down_returns [of "measure marked_size" "\<lambda>_. True"])
      (use insert_cte_markers_decreases in \<open>auto simp: pure_step_def\<close>)
  then obtain res where res: "top_down ?step r0 () = Some res" by blast
  have "\<exists>m s'. ?step n s = Inr (m, s')" for n s by (simp add: pure_step_def)
  from top_down_total [OF this res] obtain m where m: "res = Inr (m, ())" by auto
  have "m = with_ctes (node_parents r0) r0"
    by (rule top_down_recursion [of UNIV, OF _ res [unfolded m]]) (auto simp: pure_step_def intro: with_ctes_step)
  moreover have "same_plan E m r0"
    using cte_markers.top_down_sound [of "node_parents r0" r0 "()" m "()" E] assms res m by simp
  ultimately show ?thesis using res m by (simp add: extract_ctes_def)
qed

end
