(* ===== verification/Cache_Planning.thy ===== *)
theory Cache_Planning
  imports Row_Alignment Type_Conversions "HOL-Library.List_Lexorder" "HOL-Library.Char_ord"
begin

text \<open>
  \<^verbatim>\<open>core/tree_properties.py\<close>, \<^verbatim>\<open>core/pruning.py\<close>, \<^verbatim>\<open>session/planner.py\<close> and the substitution of
  \<^verbatim>\<open>session/execution_cache.py\<close>: which plans run without a query, how often a plan occurs in a session, which
  node of a plan to cache and by which columns to cluster it, and the replacement of cached plans
  by scans of their results.
\<close>

subsection \<open>Properties of plans\<close>

fun is_local_leaf :: "bfnode \<Rightarrow> bool" where
  "is_local_leaf (ReadLocalNode d items sess off) = True"
| "is_local_leaf n = False"

definition local_only :: "bfnode \<Rightarrow> bool" where
  "local_only n = (\<forall>r \<in> roots n. is_local_leaf r)"

function is_trivially_executable :: "bfnode \<Rightarrow> bool" where
  "is_trivially_executable n =
     (if local_only n then True
      else (let children_trivial = list_all is_trivially_executable (child_nodes n);
                self_trivial = \<not> n_non_local (props_of n) \<and> n_row_preserving (props_of n)
            in children_trivial \<and> self_trivial))"
  by pat_completeness auto
termination by (relation "measure size") (auto dest: size_child_nodes)

declare is_trivially_executable.simps [simp del]

function can_fast_peek :: "bfnode \<Rightarrow> bool" where
  "can_fast_peek n =
     (if local_only n then True
      else (let children_peekable = list_all can_fast_peek (child_nodes n); self_peekable = \<not> n_non_local (props_of n)
            in children_peekable \<and> self_peekable))"
  by pat_completeness auto
termination by (relation "measure size") (auto dest: size_child_nodes)

declare can_fast_peek.simps [simp del]

fun can_fast_head :: "bfnode \<Rightarrow> bool result" where
  "can_fast_head (ReadLocalNode d items sess off) = Inr True"
| "can_fast_head (ReadTableNode src items sess) =
     (if src_ordering src = None then Inr True else ReadTableNode_fast_ordered_limit src)"
| "can_fast_head (CachedTableNode src items sess orig) =
     (if src_ordering src = None then Inr True else ReadTableNode_fast_ordered_limit src)"
| "can_fast_head (ProjectionNode c asg) = can_fast_head c"
| "can_fast_head (SelectionNode c pairs) = can_fast_head c"
| "can_fast_head n = Inr False"

subsection \<open>Counting occurrences\<close>

text \<open>A dictionary of counts, as its items in order.\<close>

type_synonym counts = "(bfnode \<times> nat) list"

definition count_of :: "counts \<Rightarrow> bfnode \<Rightarrow> nat" where
  "count_of d n = (case dict_of d n of None \<Rightarrow> 0 | Some k \<Rightarrow> k)"

definition combine_counts :: "counts \<Rightarrow> counts \<Rightarrow> counts" where
  "combine_counts left right =
     dict_items (map (\<lambda>key. (key, count_of left key + count_of right key)) (map fst left @ map fst right))"

function subtree_counts :: "bfnode \<Rightarrow> counts" where
  "subtree_counts subtree =
     combine_counts (foldl combine_counts [] (map subtree_counts (child_nodes subtree))) [(subtree, 1)]"
  by pat_completeness auto
termination by (relation "measure size") (auto dest: size_child_nodes)

declare subtree_counts.simps [simp del]

definition count_nodes :: "bfnode list \<Rightarrow> counts" where
  "count_nodes forest = foldl combine_counts [] (map subtree_counts forest)"

text \<open>The counts of the nodes in a range of complexity; \<^verbatim>\<open>complexity\<close> is that of the plan with cached parts replaced.\<close>

function node_counts_inner :: "(bfnode \<Rightarrow> int result) \<Rightarrow> real \<Rightarrow> real \<Rightarrow> bfnode \<Rightarrow> counts result" where
  "node_counts_inner complexity min_complexity max_complexity subtree =
     rbind (complexity subtree) (\<lambda>subtree_complexity.
       if real_of_int subtree_complexity \<ge> min_complexity
       then rbind (mapM (node_counts_inner complexity min_complexity max_complexity) (child_nodes subtree)) (\<lambda>child_counts.
              let node_counts = foldl combine_counts [] child_counts
              in Inr (if real_of_int subtree_complexity \<le> max_complexity then combine_counts node_counts [(subtree, 1)] else node_counts))
       else Inr [])"
  by pat_completeness auto
termination by (relation "measure (\<lambda>(c, a, b, n). size n)") (auto dest: size_child_nodes)

declare node_counts_inner.simps [simp del]

text \<open>Python's \<^verbatim>\<open>max\<close> with a key: the first of the items with the largest key.\<close>

fun max_by :: "('a \<Rightarrow> real result) \<Rightarrow> 'a \<Rightarrow> real \<Rightarrow> 'a list \<Rightarrow> 'a result" where
  "max_by key best k [] = Inr best"
| "max_by key best k (x # xs) = rbind (key x) (\<lambda>kx. if kx > k then max_by key x kx xs else max_by key best k xs)"

definition select_cache_target ::
  "(bfnode \<Rightarrow> int result) \<Rightarrow> (int \<Rightarrow> nat \<Rightarrow> real) \<Rightarrow> bfnode \<Rightarrow> real \<Rightarrow> real \<Rightarrow> bfnode result" where
  "select_cache_target complexity heuristic r0 min_complexity max_complexity =
     rbind (node_counts_inner complexity min_complexity max_complexity r0) (\<lambda>node_counts.
       let score = (\<lambda>n. rbind (complexity n) (\<lambda>c. Inr (heuristic c (count_of node_counts n))))
       in case map fst node_counts of
            [] \<Rightarrow> Inl ValueError
          | n # ns \<Rightarrow> rbind (score n) (\<lambda>k. max_by score n k ns))"

subsection \<open>Predicates on clustered columns\<close>

definition is_comparison :: "scalar_op \<Rightarrow> bool" where
  "is_comparison op \<longleftrightarrow> op \<in> {EqOp, EqNullsMatchOp, NeOp, GtOp, GeOp, LtOp, LeOp}"

definition cluster_cols_for_comparison :: "expr \<Rightarrow> expr \<Rightarrow> column_id list" where
  "cluster_cols_for_comparison left_ex right_ex =
     (let col = (\<lambda>e. case e of Deref d \<Rightarrow> [ref_id d] | _ \<Rightarrow> [])
      in if is_const left_ex then col right_ex else if is_const right_ex then col left_ex else [])"

text \<open>An input that is not there raises.\<close>

fun cluster_cols_for_predicate :: "expr \<Rightarrow> column_id set \<Rightarrow> column_id list result" where
  "cluster_cols_for_predicate (Deref d) clusterable_cols = Inr (filter (\<lambda>c. c \<in> clusterable_cols) [ref_id d])"
| "cluster_cols_for_predicate (OpExpression op inputs) clusterable_cols =
     rbind (if is_comparison op then (case inputs of l # r # _ \<Rightarrow> Inr (cluster_cols_for_comparison l r) | _ \<Rightarrow> Inl IndexError)
        else if op = InvertOp then (case inputs of l # _ \<Rightarrow> cluster_cols_for_predicate l clusterable_cols | _ \<Rightarrow> Inl IndexError)
        else if op = AndOp \<or> op = OrOp then
          (case inputs of l # r # _ \<Rightarrow>
             rbind (cluster_cols_for_predicate l clusterable_cols) (\<lambda>left_cols.
             rbind (cluster_cols_for_predicate r clusterable_cols) (\<lambda>right_cols.
               Inr (left_cols @ filter (\<lambda>col. col \<notin> set left_cols) right_cols)))
           | _ \<Rightarrow> Inl IndexError)
        else Inr [])
       (\<lambda>cols. Inr (filter (\<lambda>c. c \<in> clusterable_cols) cols))"
| "cluster_cols_for_predicate e clusterable_cols = Inr []"

subsection \<open>The node to cache\<close>

record cache_choice =
  caching_target :: bfnode
  caching_target_refs :: nat
  cluster_candidates :: "column_id list"

definition clusterable_fields :: "bfnode \<Rightarrow> column_id set result" where
  "clusterable_fields n = rbind (node_fields n) (\<lambda>fs. Inr (field_id ` set (filter (\<lambda>f. is_clusterable (field_dtype f)) fs)))"

text \<open>After a node is passed: whether its child is referenced more often than the target so far.\<close>

definition consider_target :: "counts \<Rightarrow> bfnode \<Rightarrow> expr list \<Rightarrow> cache_choice \<Rightarrow> cache_choice result" where
  "consider_target node_counts cur_node filters choice =
     (let cur_node_refs = count_of node_counts cur_node
      in if cur_node_refs > caching_target_refs choice
         then rbind (clusterable_fields cur_node) (\<lambda>cluster_compatible_cols.
              rbind (mapM (\<lambda>f. cluster_cols_for_predicate f cluster_compatible_cols) filters) (\<lambda>cols.
                Inr \<lparr>caching_target = cur_node, caching_target_refs = cur_node_refs, cluster_candidates = remdups (concat cols)\<rparr>))
         else Inr choice)"

primrec cache_loop :: "counts \<Rightarrow> bfnode \<Rightarrow> expr list \<Rightarrow> cache_choice \<Rightarrow> cache_choice result" where
  "cache_loop counts (FilterNode c p) filters choice =
     (let filters' = filters @ [p]
      in rbind (consider_target counts c filters' choice) (cache_loop counts c filters'))"
| "cache_loop counts (ProjectionNode c asg) filters choice =
     rbind (mapM (bind_refs (dict_of (map (\<lambda>(e, i). (i, e)) asg)) True) filters) (\<lambda>filters'.
       rbind (consider_target counts c filters' choice) (cache_loop counts c filters'))"
| "cache_loop counts (SelectionNode c pairs) filters choice =
     rbind (mapM (bind_refs (dict_of (map (\<lambda>(ref, i). (i, Deref ref)) pairs)) False) filters) (\<lambda>filters'.
       rbind (consider_target counts c filters' choice) (cache_loop counts c filters'))"
| "cache_loop counts (SliceNode c a b s) filters choice = Inr choice"
| "cache_loop counts (InNode l r x i) filters choice = Inr choice"
| "cache_loop counts (JoinNode l r conds ty po) filters choice = Inr choice"
| "cache_loop counts (ConcatNode cs out) filters choice = Inr choice"
| "cache_loop counts (FromRangeNode s0 e0 st i) filters choice = Inr choice"
| "cache_loop counts (ReadLocalNode d items sess off) filters choice = Inr choice"
| "cache_loop counts (ReadTableNode src items sess) filters choice = Inr choice"
| "cache_loop counts (CachedTableNode src items sess orig) filters choice = Inr choice"
| "cache_loop counts (PromoteOffsetsNode c i) filters choice = Inr choice"
| "cache_loop counts (OrderByNode c ps tot) filters choice = Inr choice"
| "cache_loop counts (ReversedNode c rv) filters choice = Inr choice"
| "cache_loop counts (AggregateNode c aggs ks os dn) filters choice = Inr choice"
| "cache_loop counts (WindowOpNode c ds w) filters choice = Inr choice"
| "cache_loop counts (RandomSampleNode c fr) filters choice = Inr choice"
| "cache_loop counts (ExplodeNode c cols off) filters choice = Inr choice"
| "cache_loop counts (ResultNode c outs ord k) filters choice = Inr choice"
| "cache_loop counts (CteNode c) filters choice = Inr choice"

text \<open>The candidates are a set in the code; sorting them by name leaves no trace of its order but between equal names.\<close>

definition session_aware_cache_plan :: "bfnode \<Rightarrow> bfnode list \<Rightarrow> (bfnode \<times> column_id list) result" where
  "session_aware_cache_plan r0 session_forest =
     (let node_counts = count_nodes session_forest
      in rbind (cache_loop node_counts r0 [] \<lparr>caching_target = r0, caching_target_refs = count_of node_counts r0, cluster_candidates = []\<rparr>)
           (\<lambda>choice. Inr (caching_target choice, take 4 (sort_key id_sql (cluster_candidates choice)))))"

subsection \<open>Cached results\<close>

type_synonym execution_cache = "bfnode \<Rightarrow> bq_source option"

definition replace_if_cached :: "execution_cache \<Rightarrow> bfnode \<Rightarrow> bfnode result" where
  "replace_if_cached cache n =
     (case cache n of
        None \<Rightarrow> Inr n
      | Some src \<Rightarrow>
          rbind (node_fields n) (\<lambda>fs.
          rbind (node_session n) (\<lambda>table_session.
            let cached_replacement = CachedTableNode src (map (\<lambda>f. ScanItem (field_id f) (id_sql (field_id f))) fs) table_session n
            in rbind (node_schema n) (\<lambda>s. rbind (node_schema cached_replacement) (\<lambda>s'.
               rbind (assert_that (s = s')) (\<lambda>_. Inr cached_replacement))))))"

definition cache_results_table :: "execution_cache \<Rightarrow> bfnode \<Rightarrow> bq_source \<Rightarrow> execution_cache" where
  "cache_results_table cache original_root data = cache(original_root \<mapsto> data)"

definition subsitute_cached_subplans :: "execution_cache \<Rightarrow> bfnode \<Rightarrow> (bfnode \<times> unit) result option" where
  "subsitute_cached_subplans cache r0 = top_down (pure_step (replace_if_cached cache)) r0 ()"


subsection \<open>What is counted\<close>

function occurrences :: "bfnode \<Rightarrow> bfnode \<Rightarrow> nat" where
  "occurrences x n = (if n = x then 1 else 0) + sum_list (map (occurrences x) (child_nodes n))"
  by pat_completeness auto
termination by (relation "measure (\<lambda>(x, n). size n)") (auto dest: size_child_nodes)

declare occurrences.simps [simp del]

lemma dict_of_items: "dict_of (dict_items ps) k = dict_of ps k"
proof -
  have "dict_of (dict_items ps) k = (if k \<in> set (first_occurrences (map fst ps)) then Some (the (dict_of ps k)) else None)"
    unfolding dict_items_def by (rule dict_of_map_identity)
  then show ?thesis using dict_of_eq_None_iff [of ps k] by (auto simp: first_occurrences_def)
qed

lemma count_of_combine: "count_of (combine_counts left right) k = count_of left k + count_of right k"
proof -
  have "dict_of (combine_counts left right) k =
      (if k \<in> set (map fst left @ map fst right) then Some (count_of left k + count_of right k) else None)"
    unfolding combine_counts_def dict_of_items by (rule dict_of_map_identity)
  moreover have "k \<notin> set (map fst d) \<Longrightarrow> count_of d k = 0" for d
    using dict_of_eq_None_iff [of d k] by (simp add: count_of_def)
  ultimately show ?thesis by (simp add: count_of_def [of "combine_counts left right"])
qed

lemma count_of_foldl: "count_of (foldl combine_counts d ds) k = count_of d k + sum_list (map (\<lambda>x. count_of x k) ds)"
  by (induction ds arbitrary: d) (simp_all add: count_of_combine)

lemma subtree_counts_occurrences: "count_of (subtree_counts n) x = occurrences x n"
proof (induction "size n" arbitrary: n rule: less_induct)
  case less
  have "sum_list (map (\<lambda>c. count_of (subtree_counts c) x) (child_nodes n)) = sum_list (map (occurrences x) (child_nodes n))"
    using less.hyps size_child_nodes by (intro arg_cong [where f = sum_list] map_cong) auto
  then show ?case
    by (simp add: subtree_counts.simps [of n] occurrences.simps [of x n] count_of_combine count_of_foldl comp_def)
      (simp add: count_of_def dict_of_Cons)
qed

lemma count_nodes_occurrences: "count_of (count_nodes forest) n = sum_list (map (occurrences n) forest)"
  by (simp add: count_nodes_def count_of_foldl subtree_counts_occurrences comp_def) (simp add: count_of_def)

lemma occurs_at_root: "0 < occurrences n n"
  by (subst occurrences.simps) simp

subsection \<open>What the planner chooses\<close>

text \<open>The nodes below filters, projections and selections, which the planner may cache instead.\<close>

primrec de_cached :: "bfnode \<Rightarrow> bfnode list" where
  "de_cached (FilterNode c p) = c # de_cached c"
| "de_cached (ProjectionNode c asg) = c # de_cached c"
| "de_cached (SelectionNode c pairs) = c # de_cached c"
| "de_cached (SliceNode c a b s) = []"
| "de_cached (InNode l r x i) = []"
| "de_cached (JoinNode l r conds ty po) = []"
| "de_cached (ConcatNode cs out) = []"
| "de_cached (FromRangeNode s0 e0 st i) = []"
| "de_cached (ReadLocalNode d items sess off) = []"
| "de_cached (ReadTableNode src items sess) = []"
| "de_cached (CachedTableNode src items sess orig) = []"
| "de_cached (PromoteOffsetsNode c i) = []"
| "de_cached (OrderByNode c ps tot) = []"
| "de_cached (ReversedNode c rv) = []"
| "de_cached (AggregateNode c aggs ks os dn) = []"
| "de_cached (WindowOpNode c ds w) = []"
| "de_cached (RandomSampleNode c fr) = []"
| "de_cached (ExplodeNode c cols off) = []"
| "de_cached (ResultNode c outs ord k) = []"
| "de_cached (CteNode c) = []"

text \<open>The rows of the root are those of a node that pass the filters, transformed row by row.\<close>

definition passing :: "engine \<Rightarrow> expr list \<Rightarrow> row \<Rightarrow> bool" where
  "passing E filters r \<longleftrightarrow> (\<forall>f \<in> set filters. eval E r f = BoolS True)"

definition filtered_below :: "engine \<Rightarrow> bfnode \<Rightarrow> bfnode \<Rightarrow> expr list \<Rightarrow> bool" where
  "filtered_below E r0 n filters \<longleftrightarrow> (\<exists>g. rows E r0 = map g (filter (passing E filters) (rows E n)))"

lemma filtered_filter:
  assumes "filtered_below E r0 (FilterNode c p) filters"
  shows "filtered_below E r0 c (filters @ [p])"
proof -
  have "passing E (filters @ [p]) = (\<lambda>r. eval E r p = BoolS True \<and> passing E filters r)"
    by (rule ext) (auto simp: passing_def)
  then show ?thesis using assms by (simp add: filtered_below_def filter_rows_def conj_commute)
qed

lemma filtered_map:
  assumes "filtered_below E r0 n filters" "rows E n = map h (rows E c)" "\<And>r. passing E filters' r = passing E filters (h r)"
  shows "filtered_below E r0 c filters'"
proof -
  have same: "passing E filters' = passing E filters \<circ> h" using assms(3) by (auto simp: fun_eq_iff)
  obtain g where "rows E r0 = map g (filter (passing E filters) (map h (rows E c)))" using assms(1,2) by (auto simp: filtered_below_def)
  then have "rows E r0 = map (g \<circ> h) (filter (passing E filters') (rows E c))" unfolding same filter_map by simp
  then show ?thesis unfolding filtered_below_def by blast
qed

lemma mapM_bind_refs:
  assumes "mapM (bind_refs b partial) filters = Inr filters'"
  shows "filters' = map (subst_expr (bound_to b)) filters \<and> (\<forall>f \<in> set filters. all_bound b partial f)"
  using assms
proof (induction filters arbitrary: filters')
  case (Cons f filters)
  then show ?case by (auto simp: rbind_eq_Inr_iff bind_refs_subst split: if_splits)
qed simp

lemma filtered_projection:
  assumes "filtered_below E r0 (ProjectionNode c asg) filters" "mapM (bind_refs (dict_of (map (\<lambda>(e, i). (i, e)) asg)) True) filters = Inr filters'"
  shows "filtered_below E r0 c filters'"
proof (rule filtered_map [OF assms(1)])
  have "eval E (project_row E asg r) f = eval E r (subst_expr (bound_to (dict_of (map (\<lambda>(e, i). (i, e)) asg))) f)" for r f
    unfolding eval_bound project_row_def ..
  then show "passing E filters' r = passing E filters (project_row E asg r)" for r
    using mapM_bind_refs [OF assms(2)] by (simp add: passing_def)
qed simp

lemma filtered_selection:
  assumes "filtered_below E r0 (SelectionNode c pairs) filters" "mapM (bind_refs (dict_of (map (\<lambda>(ref, i). (i, Deref ref)) pairs)) False) filters = Inr filters'"
  shows "filtered_below E r0 c filters'"
proof (rule filtered_map [OF assms(1)])
  let ?b = "dict_of (map (\<lambda>(ref, i). (i, Deref ref)) pairs)"
  have look: "?b i = map_option Deref (dict_of (map (\<lambda>(d, j). (j, d)) pairs) i)" for i
    using dict_of_rename [of snd Deref fst pairs i] by (simp add: case_prod_unfold)
  have "eval E (select_row pairs r) f = eval E r (subst_expr (bound_to ?b) f)" if "all_bound ?b False f" for r f
    unfolding eval_bound
    by (rule eval_cong [OF subset_refl]) (use that in \<open>auto simp: agree_def select_row_def look all_bound_def split: option.splits\<close>)
  then show "passing E filters' r = passing E filters (select_row pairs r)" for r
    using mapM_bind_refs [OF assms(2)] by (simp add: passing_def)
qed simp

text \<open>The columns to cluster by occur in the filters and have a type that can be clustered.\<close>

lemma comparison_cols: "set (cluster_cols_for_comparison l r) \<subseteq> set (column_references l) \<union> set (column_references r)"
proof -
  have cols: "set (case e of Deref d \<Rightarrow> [ref_id d] | _ \<Rightarrow> []) \<subseteq> set (column_references e)" for e by (cases e) simp_all
  show ?thesis
    unfolding cluster_cols_for_comparison_def Let_def
    using le_supI2 [OF cols [of r]] le_supI1 [OF cols [of l]] by (cases "is_const l"; cases "is_const r") simp_all
qed

lemma predicate_cols:
  "cluster_cols_for_predicate e S = Inr cols \<Longrightarrow> set cols \<subseteq> S \<inter> set (column_references e)"
proof (induction e S arbitrary: cols rule: cluster_cols_for_predicate.induct)
  case (2 op inputs S)
  consider "is_comparison op" | "\<not> is_comparison op" "op = InvertOp" | "\<not> is_comparison op" "op \<noteq> InvertOp" "op = AndOp \<or> op = OrOp"
    | "\<not> is_comparison op" "op \<noteq> InvertOp" "\<not> (op = AndOp \<or> op = OrOp)" by blast
  then show ?case
  proof cases
    case 1
    then obtain l r rest where "inputs = l # r # rest" "cols = filter (\<lambda>c. c \<in> S) (cluster_cols_for_comparison l r)"
      using "2.prems" by (auto simp: rbind_eq_Inr_iff split: list.splits)
    then show ?thesis using comparison_cols [of l r] by auto
  next
    case 2
    then obtain l rest cols' where l: "inputs = l # rest" "cluster_cols_for_predicate l S = Inr cols'" "cols = filter (\<lambda>c. c \<in> S) cols'"
      using "2.prems" by (auto simp: rbind_eq_Inr_iff split: list.splits)
    have "set cols' \<subseteq> S \<inter> set (column_references l)" using "2.IH"(1) [OF 2 l(1,2)] .
    then show ?thesis using l by auto
  next
    case 3
    then obtain l r rest left_cols right_cols where l: "inputs = l # r # rest" "cluster_cols_for_predicate l S = Inr left_cols"
        "cluster_cols_for_predicate r S = Inr right_cols"
        "cols = filter (\<lambda>c. c \<in> S) (left_cols @ filter (\<lambda>col. col \<notin> set left_cols) right_cols)"
      using "2.prems" by (auto simp: rbind_eq_Inr_iff split: list.splits)
    have "set left_cols \<subseteq> S \<inter> set (column_references l)" using "2.IH"(2) [OF 3 l(1) refl l(2)] .
    moreover have "set right_cols \<subseteq> S \<inter> set (column_references r)" using "2.IH"(3) [OF 3 l(1) refl l(2,3)] .
    ultimately show ?thesis using l(1,4) by auto
  next
    case 4
    then show ?thesis using "2.prems" by simp
  qed
qed auto

definition choice_ok :: "engine \<Rightarrow> counts \<Rightarrow> bfnode \<Rightarrow> bfnode list \<Rightarrow> cache_choice \<Rightarrow> bool" where
  "choice_ok E counts r0 seen choice \<longleftrightarrow> caching_target choice \<in> set seen \<and>
     caching_target_refs choice = count_of counts (caching_target choice) \<and>
     (\<forall>n \<in> set seen. count_of counts n \<le> caching_target_refs choice) \<and> distinct (cluster_candidates choice) \<and>
     (\<exists>filters. filtered_below E r0 (caching_target choice) filters \<and>
        set (cluster_candidates choice) \<subseteq> (\<Union>f \<in> set filters. set (column_references f)) \<and>
        (\<exists>S. cluster_candidates choice = [] \<or> clusterable_fields (caching_target choice) = Inr S \<and> set (cluster_candidates choice) \<subseteq> S))"

lemma consider_target_ok:
  assumes "consider_target counts c filters choice = Inr choice'" "choice_ok E counts r0 seen choice" "filtered_below E r0 c filters"
  shows "choice_ok E counts r0 (seen @ [c]) choice'"
proof (cases "count_of counts c > caching_target_refs choice")
  case True
  then obtain S cols where S: "clusterable_fields c = Inr S" "mapM (\<lambda>f. cluster_cols_for_predicate f S) filters = Inr cols"
      "choice' = \<lparr>caching_target = c, caching_target_refs = count_of counts c, cluster_candidates = remdups (concat cols)\<rparr>"
    using assms(1) by (auto simp: consider_target_def Let_def rbind_eq_Inr_iff)
  have "set xs \<subseteq> S \<inter> (\<Union>f \<in> set filters. set (column_references f))" if "xs \<in> set cols" for xs
  proof -
    have "Inr xs \<in> set (map (\<lambda>f. cluster_cols_for_predicate f S) filters)"
      using S(2) that unfolding mapM_Inr_iff by simp
    then obtain f where "f \<in> set filters" "cluster_cols_for_predicate f S = Inr xs" by auto
    then show ?thesis using predicate_cols [of f S xs] by blast
  qed
  then have cols: "set (remdups (concat cols)) \<subseteq> S \<inter> (\<Union>f \<in> set filters. set (column_references f))"
    unfolding set_remdups set_concat by blast
  have refs: "\<forall>n \<in> set (seen @ [c]). count_of counts n \<le> count_of counts c" using assms(2) True by (force simp: choice_ok_def)
  show ?thesis unfolding choice_ok_def S(3) using S(1) cols refs assms(3) by (auto intro!: exI [of _ filters])
next
  case False
  then have "choice' = choice" using assms(1) by (simp add: consider_target_def Let_def)
  then show ?thesis using False assms(2) by (auto simp: choice_ok_def)
qed

lemma cache_loop_ok:
  "cache_loop counts n filters choice = Inr choice' \<Longrightarrow> choice_ok E counts r0 seen choice \<Longrightarrow> filtered_below E r0 n filters \<Longrightarrow>
     choice_ok E counts r0 (seen @ de_cached n) choice'"
proof (induction n arbitrary: filters choice seen)
  case (FilterNode c p)
  then obtain choice1 where c: "consider_target counts c (filters @ [p]) choice = Inr choice1" "cache_loop counts c (filters @ [p]) choice1 = Inr choice'"
    by (auto simp: rbind_eq_Inr_iff Let_def)
  note below = filtered_filter [OF FilterNode.prems(3)]
  show ?case using FilterNode.IH [OF c(2) consider_target_ok [OF c(1) FilterNode.prems(2) below] below] by simp
next
  case (ProjectionNode c asg)
  then obtain filters' choice1 where c: "mapM (bind_refs (dict_of (map (\<lambda>(e, i). (i, e)) asg)) True) filters = Inr filters'"
      "consider_target counts c filters' choice = Inr choice1" "cache_loop counts c filters' choice1 = Inr choice'"
    by (auto simp: rbind_eq_Inr_iff simp del: bind_refs_partial)
  note below = filtered_projection [OF ProjectionNode.prems(3) c(1)]
  show ?case using ProjectionNode.IH [OF c(3) consider_target_ok [OF c(2) ProjectionNode.prems(2) below] below] by simp
next
  case (SelectionNode c pairs)
  then obtain filters' choice1 where c: "mapM (bind_refs (dict_of (map (\<lambda>(ref, i). (i, Deref ref)) pairs)) False) filters = Inr filters'"
      "consider_target counts c filters' choice = Inr choice1" "cache_loop counts c filters' choice1 = Inr choice'"
    by (auto simp: rbind_eq_Inr_iff)
  note below = filtered_selection [OF SelectionNode.prems(3) c(1)]
  show ?case using SelectionNode.IH [OF c(3) consider_target_ok [OF c(2) SelectionNode.prems(2) below] below] by simp
qed auto

lemma cache_plan_ok:
  assumes "session_aware_cache_plan r0 forest = Inr (target, cols)"
  shows "\<exists>choice. choice_ok E (count_nodes forest) r0 (r0 # de_cached r0) choice \<and> target = caching_target choice \<and>
     cols = take 4 (sort_key id_sql (cluster_candidates choice))"
proof -
  let ?start = "\<lparr>caching_target = r0, caching_target_refs = count_of (count_nodes forest) r0, cluster_candidates = []\<rparr>"
  obtain choice where choice: "cache_loop (count_nodes forest) r0 [] ?start = Inr choice" "target = caching_target choice"
      "cols = take 4 (sort_key id_sql (cluster_candidates choice))"
    using assms by (auto simp: session_aware_cache_plan_def Let_def rbind_eq_Inr_iff)
  have below: "filtered_below E r0 r0 []" by (auto simp: filtered_below_def passing_def intro: exI [of _ id])
  then have "choice_ok E (count_nodes forest) r0 [r0] ?start" by (auto simp: choice_ok_def)
  from cache_loop_ok [OF choice(1) this below] choice show ?thesis by auto
qed

subsection \<open>Cached plans\<close>

text \<open>The table of a cached plan holds its rows, with the columns under their SQL names.\<close>

definition stores :: "engine \<Rightarrow> bq_source \<Rightarrow> bfnode \<Rightarrow> bool" where
  "stores E src n \<longleftrightarrow> list_all2 (\<lambda>stored r. \<forall>i \<in> set (out_ids n). stored (id_sql i) = r i) (table_rows E src) (rows E n)"

definition caches_rows :: "engine \<Rightarrow> execution_cache \<Rightarrow> bool" where
  "caches_rows E cache \<longleftrightarrow> (\<forall>n src. cache n = Some src \<longrightarrow> stores E src n)"

lemma cache_results_table_rows: "caches_rows E cache \<Longrightarrow> stores E src n \<Longrightarrow> caches_rows E (cache_results_table cache n src)"
  by (simp add: caches_rows_def cache_results_table_def)

lemma scan_named:
  assumes "i \<in> field_id ` set fs"
  shows "scan_row (map (\<lambda>f. ScanItem (field_id f) (id_sql (field_id f))) fs) stored i = stored (id_sql i)"
proof -
  have "dict_of (map (\<lambda>f. (field_id f, id_sql (field_id f))) fs) i \<noteq> None"
    using assms by (auto simp: dict_of_eq_None_iff image_image)
  then obtain nm where nm: "dict_of (map (\<lambda>f. (field_id f, id_sql (field_id f))) fs) i = Some nm" by blast
  then have "nm = id_sql i" by (auto dest!: dict_of_SomeD)
  with nm show ?thesis by (simp add: scan_row_def comp_def)
qed

lemma replace_if_cached_sound:
  assumes "caches_rows E cache" "scoped n" "replace_if_cached cache n = Inr m"
  shows "scoped m \<and> same_output E m n"
proof (cases "cache n")
  case None
  then show ?thesis using assms(2,3) by (simp add: replace_if_cached_def same_output_def)
next
  case (Some src)
  obtain fs sess where fs: "node_fields n = Inr fs"
      "m = CachedTableNode src (map (\<lambda>f. ScanItem (field_id f) (id_sql (field_id f))) fs) sess n"
    using assms(3) Some by (auto simp: replace_if_cached_def rbind_eq_Inr_iff Let_def)
  have ids: "out_ids m = out_ids n" "field_id ` set fs = set (out_ids n)"
    using fields_out_ids [OF fs(1)] by (auto simp: fs(2) comp_def simp flip: fields_out_ids [OF fs(1)])
  have "stores E src n" using assms(1) Some by (simp add: caches_rows_def)
  then have "rows_agree (set (out_ids n)) (rows E m) (rows E n)"
    by (auto simp: fs(2) read_table_def stores_def rows_agree_def list_all2_map1 agree_def scan_named ids(2) elim!: list_all2_mono)
  moreover have "scoped m" using scoped_distinct [OF assms(2)] ids(1) by (simp add: fs(2) comp_def)
  ultimately show ?thesis using ids(1) by (intro conjI same_output_agree) simp_all
qed

interpretation caching: plan_rewrite "pure_step (replace_if_cached cache)" "same_output E" "\<lambda>n. caches_rows E cache \<and> scoped n" "\<lambda>_ _. True" "\<lambda>_ _. True"
  for E cache
proof unfold_locales
  fix n m and s s' :: unit
  assume "caches_rows E cache \<and> scoped n" "pure_step (replace_if_cached cache) n s = Inr (m, s')"
  then show "(caches_rows E cache \<and> scoped m) \<and> same_output E m n \<and> True \<and> True"
    using replace_if_cached_sound by (auto simp: pure_step_def rbind_eq_Inr_iff)
next
  fix n t
  assume n: "caches_rows E cache \<and> scoped n"
    and kids: "\<And>c. c \<in> set (child_nodes n) \<Longrightarrow> (caches_rows E cache \<and> scoped (t c)) \<and> same_output E (t c) c"
  then show "(caches_rows E cache \<and> scoped (transform_children t n)) \<and> same_output E (transform_children t n) n"
    using scoped_transform [of n t] transform_children_same_output [of n E t] by (auto simp: same_output_def)
qed (auto intro: scoped_children same_output_trans)

lemma replaced_children: "replace_if_cached cache n = Inr m \<Longrightarrow> child_nodes m = child_nodes n \<or> child_nodes m = []"
  by (auto simp: replace_if_cached_def rbind_eq_Inr_iff Let_def split: option.splits)

lemma subsitute_cached_sound:
  assumes "caches_rows E cache" "scoped r0"
  shows "\<exists>res. subsitute_cached_subplans cache r0 = Some res \<and> (\<forall>m. res = Inr (m, ()) \<longrightarrow> scoped m \<and> same_output E m r0)"
proof -
  have "\<exists>res. top_down (pure_step (replace_if_cached cache)) r0 () = Some res"
    by (rule top_down_returns [of "measure size" "\<lambda>_. True"])
      (auto simp: pure_step_def rbind_eq_Inr_iff dest!: replaced_children intro: size_child_nodes)
  then show ?thesis
    using caching.top_down_sound [of cache r0 "()" _ "()" E] assms unfolding subsitute_cached_subplans_def by auto
qed

end
