(* ===== verification/Planning_Properties.thy ===== *)
theory Planning_Properties
  imports Plan_Lowering Rewrite_Ctes Cache_Planning Order_Properties Rewrite_Properties
begin

text \<open>
  What the passes between a plan and its compilation guarantee: the order of windows, references bound
  to the schema, common table expressions, the lowering for Polars, the scans of the Read API, and
  the choice of a node to cache.
\<close>

subsection \<open>Plans to apply the properties to\<close>

definition sample_window :: "bfnode \<Rightarrow> bfnode" where
  "sample_window c = WindowOpNode c [ColumnDef (NullaryAggregation RowNumberOp) (ColumnId ''n'')]
     (unbound [] 0 [ascending_over (ColumnId ''b'') True])"

definition sample_sliced :: bfnode where
  "sample_sliced = SliceNode sample_scan (Some 1) None 1"

lemma row_number_type: "bind_schema_fields (NullaryAggregation RowNumberOp) m = Inr (NullaryAggregation RowNumberOp)"
    "output_type (NullaryAggregation RowNumberOp) = Inr (Some INT_DTYPE)"
  by (simp_all add: bind_schema_fields_def bind_refs_subst all_bound_def output_type_def Aggregation_props_def Expression_props_def Let_def
      win_output_type_def window_traits_defs)

lemma sample_window_fields:
  assumes "node_fields c = Inr fs"
  shows "node_fields (sample_window c) = Inr (fs @ [mk_field (ColumnId ''n'') (Some INT_DTYPE) True])"
  using assms by (simp add: sample_window_def WindowOpNode_added_fields_def aggregated_field_def row_number_type)

lemma counting_rows [simp]: "rows counting_engine sample_scan = rows sample_engine sample_scan"
  by (simp add: sample_scan_def counting_engine_def read_table_def)

lemma integer_ops_counting: "integer_ops counting_engine"
  using integer_ops_sample by (simp add: integer_ops_def counting_engine_def)

lemma sample_sliced_plan:
  "sliceable counting_engine (sample_window sample_sliced)" "ids_older 0 (sample_window sample_sliced)"
  "everywhere lowerable (sample_window sample_sliced)"
proof -
  have "slice_fits counting_engine sample_sliced"
    unfolding sample_sliced_def by (rule unit_slice_fits) (simp_all add: the_step_def)
  moreover have "counted counting_engine sample_scan" by (simp add: sample_defs counting_engine_def sample_engine_def)
  ultimately have "slices_fit counting_engine (sample_window sample_sliced)"
    by (simp add: slices_fit_iff [of _ "SliceNode _ _ _ _"] slices_fit_iff [of _ "WindowOpNode _ _ _"] sample_window_def sample_sliced_def
        slices_fit_iff [of _ sample_scan] sample_rows the_step_def del: slice_fits.simps) (simp add: sample_scan_def)
  moreover have "typed (sample_window sample_sliced)"
    using sample_typed(1) sample_scan_fields sample_window_fields [of sample_sliced]
    by (simp add: typed_iff [of "sample_window _"] typed_iff [of "SliceNode _ _ _ _"] sample_sliced_def) (simp add: sample_window_def typed_iff [of "SliceNode _ _ _ _"])
  moreover have "scoped (sample_window sample_sliced)"
    by (simp add: sample_window_def sample_sliced_def sample_defs unbound_def all_referenced_columns_def ascending_over_def)
  ultimately show "sliceable counting_engine (sample_window sample_sliced)"
    using integer_ops_counting by (simp add: sliceable_def)
  show "ids_older 0 (sample_window sample_sliced)"
    by (simp add: sample_window_def sample_sliced_def sample_defs ids_older_iff older_def guid_id_def)
  show "everywhere lowerable (sample_window sample_sliced)"
    by (simp add: sample_window_def sample_sliced_def sample_defs lowerable_def inheriting_window_def unbound_def ascending_over_def raw_expr_def is_range_bounded_def
        implicitly_inherits_order_def RowNumberOp_traits_def WindowOp_traits_def)
qed

subsection \<open>Windows and references\<close>

text \<open>
  C11: pulling the order out of the windows of a plan always returns, with a plan that has the columns,
  the fields and the table of the original, and no window with an order of its own, when the windows
  read the order of their rows and are not bounded by a range.
\<close>

theorem window_order_pulled:
  assumes "windowable E r0" "ids_older s r0"
  shows "\<exists>m s'. pull_out_window_order r0 s = Some (Inr (m, s')) \<and> same_plan E m r0 \<and> everywhere unordered_window m"
  using pull_out_window_order_sound [OF assms] by blast

theorem window_order_pulled_witness:
  "\<exists>m s'. pull_out_window_order (sample_window sample_sliced) 0 = Some (Inr (m, s')) \<and>
     same_plan counting_engine m (sample_window sample_sliced) \<and> everywhere unordered_window m"
proof (rule window_order_pulled)
  have "everywhere window_pullable (sample_window sample_sliced)"
    by (rule everywhere_mono [OF sample_sliced_plan(3)]) (simp add: lowerable_def)
  then show "windowable counting_engine (sample_window sample_sliced)"
    using sample_sliced_plan(1) ordered_counting by (simp add: windowable_def sliceable_def)
qed (rule sample_sliced_plan)

text \<open>
  C12: binding the references of a plan to the schema always returns, with a plan that has the columns,
  the fields and the table of the original, and whose expressions are all resolved, when they have no
  free variables, aggregations are aggregations, and references resolved before agree with the schema.
\<close>

theorem schema_binding_resolves:
  assumes "binds r0" "everywhere closed_exprs r0"
  shows "\<exists>m. bind_schema_to_tree r0 = Some (Inr (m, ())) \<and> same_plan E m r0 \<and> everywhere resolved_exprs m"
  using bind_schema_to_tree_sound [OF assms(1)] assms(2) by blast

theorem schema_binding_resolves_witness:
  "\<exists>m. bind_schema_to_tree (sample_window sample_sliced) = Some (Inr (m, ())) \<and>
     same_plan counting_engine m (sample_window sample_sliced) \<and> everywhere resolved_exprs m"
proof (rule schema_binding_resolves)
  show "binds (sample_window sample_sliced)"
    using sample_sliced_plan(1) everywhere_mono [OF sample_sliced_plan(3) lowerable_binds] by (simp add: binds_def sliceable_def)
  show "everywhere closed_exprs (sample_window sample_sliced)"
    by (rule everywhere_mono [OF sample_sliced_plan(3) lowerable_closed])
qed

subsection \<open>Compositions\<close>

text \<open>
  C9: the rewrites before a plan is compiled for Polars compose: for a plan with slices that fit, windows
  that read the order of their rows and expressions not bound yet, they return a plan with the columns,
  the fields and the table of the original, without slices, without ordered windows and with every
  reference resolved.
\<close>

theorem polars_lowering_keeps_plan:
  assumes "ordered_engine E" "sliceable E r0" "ids_older s r0" "everywhere lowerable r0"
  shows "\<exists>m. lower_for_polars r0 s = Some (Inr (m, ())) \<and> same_plan E m r0 \<and> everywhere lowered m \<and> everywhere resolved_exprs m"
  by (rule lower_for_polars_sound [OF assms])

theorem polars_lowering_keeps_plan_witness:
  "\<exists>m. lower_for_polars (sample_window sample_sliced) 0 = Some (Inr (m, ())) \<and>
     same_plan counting_engine m (sample_window sample_sliced) \<and> everywhere lowered m \<and> everywhere resolved_exprs m"
  by (rule polars_lowering_keeps_plan [OF ordered_counting sample_sliced_plan])

text \<open>
  C16: a plan is marked for common table expressions exactly where a reference points to a node with more
  than one parent, and the marked plan has the columns, the fields and the table of the original.
\<close>

theorem ctes_extracted:
  assumes "well_formed r0"
  shows "extract_ctes r0 = Some (Inr (with_ctes (node_parents r0) r0, ())) \<and> same_plan E (with_ctes (node_parents r0) r0) r0"
  by (rule extract_ctes_sound [OF assms])

definition sample_twice :: bfnode where
  "sample_twice = ConcatNode [sample_filter, sample_filter] [ColumnId ''x'', ColumnId ''y'', ColumnId ''z'']"

lemma sample_twice_well_formed: "well_formed sample_twice"
proof -
  have "node_fields sample_filter = node_fields sample_scan" by (simp add: sample_filter_def)
  then have "\<exists>fs. node_fields sample_twice = Inr fs" using sample_scan_fields by (simp add: sample_twice_def)
  then show ?thesis
    using sample_typed(2) by (simp add: well_formed_def typed_iff [of sample_twice]) (simp add: sample_twice_def sample_defs)
qed

theorem ctes_extracted_witness:
  "extract_ctes sample_twice = Some (Inr (with_ctes (node_parents sample_twice) sample_twice, ())) \<and>
   same_plan sample_engine (with_ctes (node_parents sample_twice) sample_twice) sample_twice"
  by (rule ctes_extracted [OF sample_twice_well_formed])

subsection \<open>Caching\<close>

text \<open>
  C13: the node that the session-aware planner caches is the plan or a node below its filters, projections
  and selections that occurs most often in the session; the plan's rows are its rows that pass some
  filters, transformed row by row; and it is clustered by at most four columns, in the order of their
  names, that the filters refer to.
\<close>

theorem cache_target_serves_plan:
  assumes "session_aware_cache_plan r0 forest = Inr (target, cols)"
  shows "target \<in> set (r0 # de_cached r0) \<and>
    (\<forall>n \<in> set (r0 # de_cached r0). sum_list (map (occurrences n) forest) \<le> sum_list (map (occurrences target) forest)) \<and>
    length cols \<le> 4 \<and> distinct cols \<and> sorted (map id_sql cols) \<and>
    (\<exists>filters. filtered_below E r0 target filters \<and> set cols \<subseteq> (\<Union>f \<in> set filters. set (column_references f)))"
proof -
  obtain choice where choice: "choice_ok E (count_nodes forest) r0 (r0 # de_cached r0) choice" "target = caching_target choice"
      "cols = take 4 (sort_key id_sql (cluster_candidates choice))"
    using cache_plan_ok [OF assms] by blast
  obtain filters where filters: "filtered_below E r0 target filters"
      "set (cluster_candidates choice) \<subseteq> (\<Union>f \<in> set filters. set (column_references f))"
    using choice(1,2) by (auto simp: choice_ok_def)
  have "set cols \<subseteq> set (cluster_candidates choice)" unfolding choice(3) by (metis set_sort set_take_subset)
  with filters have "\<exists>filters. filtered_below E r0 target filters \<and> set cols \<subseteq> (\<Union>f \<in> set filters. set (column_references f))"
    by (meson order_trans)
  moreover have "distinct cols" "length cols \<le> 4" using choice(1) by (simp_all add: choice(3) choice_ok_def)
  moreover have "sorted (map id_sql cols)" by (simp add: choice(3) sorted_wrt_take flip: take_map)
  ultimately show ?thesis using choice(1,2) by (auto simp: choice_ok_def count_nodes_occurrences)
qed

lemma sample_occurrences:
  "sum_list (map (occurrences sample_selection) [sample_selection, sample_scan]) = 1"
  "sum_list (map (occurrences sample_filter) [sample_selection, sample_scan]) = 1"
  "sum_list (map (occurrences sample_scan) [sample_selection, sample_scan]) = 2"
  by (simp_all add: occurrences.simps sample_selection_def sample_filter_def sample_scan_def)

lemma sample_cache_choice: "session_aware_cache_plan sample_selection [sample_selection, sample_scan] = Inr (sample_scan, [ColumnId ''a''])"
proof -
  have counts: "count_of (count_nodes [sample_selection, sample_scan]) sample_selection = 1"
      "count_of (count_nodes [sample_selection, sample_scan]) sample_filter = 1"
      "count_of (count_nodes [sample_selection, sample_scan]) sample_scan = 2"
    using sample_occurrences by (simp_all add: count_nodes_occurrences)
  have "list_all (\<lambda>f. is_clusterable (field_dtype f)) [mk_field (ColumnId ''a'') (Some INT_DTYPE) True,
      mk_field (ColumnId ''b'') (Some INT_DTYPE) True, mk_field (ColumnId ''c'') (Some STRING_DTYPE) True]"
    by code_simp
  then have fields: "clusterable_fields sample_scan = Inr {ColumnId ''a'', ColumnId ''b'', ColumnId ''c''}"
    by (simp add: clusterable_fields_def sample_scan_fields mk_field_def del: set_filter)
  let ?p = "OpExpression GtOp [Deref (col ''a''), ScalarConstantExpression (IntV 1) (Some INT_DTYPE)]"
  have scan: "cache_loop cs sample_scan filters = Inr" for cs filters by (rule ext) (simp add: sample_scan_def)
  have filt: "cache_loop cs sample_filter [] = (\<lambda>choice. rbind (consider_target cs sample_scan [?p] choice) Inr)" for cs
    by (rule ext) (simp add: sample_filter_def Let_def scan)
  have loop: "cache_loop cs sample_selection [] choice = rbind (consider_target cs sample_filter [] choice)
      (\<lambda>choice. rbind (consider_target cs sample_scan [?p] choice) Inr)" for cs choice
    by (simp add: sample_selection_def Let_def filt)
  have "cluster_cols_for_predicate ?p {ColumnId ''a'', ColumnId ''b'', ColumnId ''c''} = Inr [ColumnId ''a'']"
    by (simp add: is_comparison_def cluster_cols_for_comparison_def col_def Let_def is_const_def deref_props_def DerefOp_props_def
        ScalarConstantExpression_props_def Expression_props_def)
  then show ?thesis
    by (simp add: session_aware_cache_plan_def loop consider_target_def counts fields Let_def)
qed

theorem cache_target_serves_plan_witness:
  "sample_scan \<in> set (sample_selection # de_cached sample_selection) \<and>
   (\<exists>filters. filtered_below sample_engine sample_selection sample_scan filters \<and> {ColumnId ''a''} \<subseteq> (\<Union>f \<in> set filters. set (column_references f)))"
  using cache_target_serves_plan [OF sample_cache_choice] by simp

text \<open>
  C14: replacing cached plans by scans of their results always returns, with a plan or an exception; a plan
  it returns is well scoped and has the columns and the table of the plan it was given, when the tables
  of the cache hold the rows of the plans they stand for.
\<close>

theorem cached_plans_substituted:
  assumes "caches_rows E cache" "scoped r0"
  shows "\<exists>res. subsitute_cached_subplans cache r0 = Some res \<and> (\<forall>m. res = Inr (m, ()) \<longrightarrow> scoped m \<and> same_output E m r0)"
  by (rule subsitute_cached_sound [OF assms])

theorem cached_plans_substituted_witness:
  "\<exists>res. subsitute_cached_subplans [sample_scan \<mapsto> sample_table] sample_selection = Some res \<and>
     (\<forall>m. res = Inr (m, ()) \<longrightarrow> scoped m \<and> same_output sample_engine m sample_selection)"
proof (rule cached_plans_substituted)
  show "caches_rows sample_engine [sample_scan \<mapsto> sample_table]"
    by (simp add: caches_rows_def stores_def sample_scan_def read_table_def list_all2_map2 list_all2_same scan_row_def dict_of_Cons)
qed (rule sample_scoped)

subsection \<open>Scans without a query\<close>

text \<open>
  C15: When the Read API executor accepts a plan in its row order, the scan and the limit it reads give the
  columns and the rows of the plan, cut at the limit where there is one, and a limited scan has no
  order of its own. The engine's integer operators are those of integers; the plan is well scoped, its fields can be
  computed, its sources report their sizes rightly, no limit is negative, its slices fit as for the slice rewrite (none starts before the
  first row backwards, and the residues the code tests are the slices' own), it
  has no column whose identifier is still to be generated, every selection in it selects some column (for an
  empty one the scan keeps a column) and no local scan has an offsets column.
\<close>

theorem read_api_scan_equals_plan:
  assumes "sliceable E plan" "ids_older s plan" "everywhere mergeable plan"
    and "try_adapt_plan plan True s = Some (Inr (Some (m, limit)))"
  shows "is_table_scan m \<and> out_ids m = out_ids plan \<and>
    rows_agree (set (out_ids plan)) (case limit of None \<Rightarrow> rows E m | Some k \<Rightarrow> take (nat k) (rows E m)) (rows E plan) \<and>
    (limit \<noteq> None \<longrightarrow> Option.bind (scan_source m) src_ordering = None)"
  by (rule try_adapt_plan_sound [OF assms])

lemma sample_limited: "sliceable sample_engine (SliceNode sample_columns None (Some 2) 1)" "ids_older 0 (SliceNode sample_columns None (Some 2) 1)"
    "everywhere mergeable (SliceNode sample_columns None (Some 2) 1)" "sliceable sample_engine sample_columns" "ids_older 0 sample_columns"
proof -
  have "slice_fits sample_engine (SliceNode sample_columns None (Some 2) 1)"
    by (rule unit_slice_fits) (simp_all add: the_step_def)
  moreover have "slices_fit sample_engine sample_columns"
    by (simp add: sample_columns_def sample_defs slices_fit_def sample_engine_def)
  moreover have "scoped sample_columns" by (simp add: sample_columns_def sample_defs)
  ultimately show "sliceable sample_engine (SliceNode sample_columns None (Some 2) 1)" "sliceable sample_engine sample_columns"
    using sample_columns_typed integer_ops_sample typed_iff [of sample_columns]
    by (simp_all add: sliceable_def slices_fit_iff [of _ "SliceNode _ _ _ _"] typed_iff [of "SliceNode _ _ _ _"] the_step_def del: slice_fits.simps)
  show "ids_older 0 (SliceNode sample_columns None (Some 2) 1)" "ids_older 0 sample_columns"
    by (simp_all add: sample_columns_def sample_defs ids_older_iff older_def guid_id_def)
  show "everywhere mergeable (SliceNode sample_columns None (Some 2) 1)" by (simp add: sample_columns_def sample_defs)
qed

theorem read_api_scan_equals_plan_witness:
  "\<exists>m. is_table_scan m \<and> out_ids m = out_ids sample_columns \<and>
     rows_agree (set (out_ids sample_columns)) (take 2 (rows sample_engine m)) (rows sample_engine (SliceNode sample_columns None (Some 2) 1))"
proof -
  let ?plan = "SliceNode sample_columns None (Some 2) 1"
  have limit: "pull_out_limit ?plan = (sample_columns, Some 2)"
    by (simp add: sample_columns_def sample_scan_def SliceNode_is_limit_def truthy_int_def)
  obtain m1 s1 where "bottom_up rewrite_slice sample_columns 0 = Some (Inr (m1, s1))"
    using slicing.bottom_up_returns [OF sample_limited(4,5)] by blast
  moreover have "m1 = sample_columns \<and> s1 = 0"
  proof (rule bottom_up_identity [OF calculation])
    have "everywhere (\<lambda>n. rewrite_slice n 0 = Inr (n, 0)) sample_columns" by (simp add: sample_columns_def sample_scan_def)
    then show "rewrite_slice n 0 = Inr (n, 0)" if "n \<in> subnodes sample_columns" for n using that by (rule everywhereD)
  qed
  ultimately have slices: "bottom_up rewrite_slice sample_columns 0 = Some (Inr (sample_columns, 0))" by simp
  obtain m where m: "try_reduce_to_table_scan sample_columns = Some (Inr (Some m))"
    using table_scan_complete [OF sample_columns_ok] by blast
  have "bottom_up_spec merge_scan sample_scan = Inr sample_scan"
    by (subst bottom_up_spec.simps) (simp add: sample_scan_def)
  then obtain items where items: "bottom_up_spec merge_scan sample_columns = Inr (ReadTableNode sample_table items None)"
    by (subst (asm) bottom_up_spec.simps) (simp add: sample_columns_def sample_scan_def has_multi_referenced_ids_def scan_project_def
        scan_selection_def col_def Let_def lookup_or_def dict_of_Cons)
  obtain res where "bottom_up (pure_step merge_scan) sample_columns () = Some res"
      "\<And>k. res = Inr (k, ()) \<longleftrightarrow> bottom_up_spec merge_scan sample_columns = Inr k"
    using bottom_up_exact [of merge_scan sample_columns] by blast
  with items have "bottom_up (pure_step merge_scan) sample_columns () = Some (Inr (ReadTableNode sample_table items None, ()))" by simp
  with m have "m = ReadTableNode sample_table items None" by (simp add: try_reduce_to_table_scan_def split: if_splits)
  then have unordered: "Option.bind (scan_source m) src_ordering = None" by (simp add: sample_table_def)
  have "try_adapt_plan ?plan True 0 = Some (Inr (Some (m, Some 2)))"
    unfolding try_adapt_plan_def limit by (simp add: then_pass_def slices m unordered)
  from read_api_scan_equals_plan [OF sample_limited(1-3) this] show ?thesis by auto
qed

end
