(* ===== verification/Spec2Isabelle.thy ===== *)
theory Spec2Isabelle
  imports Foundation_Properties Plan_Properties Rewrite_Pruning Rewrite_Properties Array_Properties Order_Properties Plan_Validation Stored_Types Planning_Properties
begin

text \<open>
  A verification library for the plan layer of BigQuery DataFrames (\<^verbatim>\<open>bigframes\<close>): the immutable
  tree of relational nodes that every data frame operation builds, and the rewrites that are
  applied to it before it is compiled and run.

  Parts of the program and the theories that model them:

  \<^item> \<^verbatim>\<open>Slices\<close>, \<^verbatim>\<open>Sequences\<close>, \<^verbatim>\<open>Ordered_Sets\<close> model \<^verbatim>\<open>core/slices.py\<close>, \<^verbatim>\<open>core/sequences.py\<close> and
    \<^verbatim>\<open>core/ordered_sets.py\<close>: slice normalisation against Python's own slicing, the chained
    sequence against list concatenation, the linked-list set (a heap of nodes and a dictionary)
    against a distinct list. The set's contract is the locale \<open>insertion_ordered\<close>, interpreted on
    the linked list.
  \<^item> \<^verbatim>\<open>Dtypes\<close>, \<^verbatim>\<open>Operators\<close>, \<^verbatim>\<open>Expressions\<close>, \<^verbatim>\<open>Schema\<close>, \<^verbatim>\<open>Windows\<close>, \<^verbatim>\<open>Row_Orderings\<close> model \<^verbatim>\<open>dtypes.py\<close>,
    the operator classes of \<^verbatim>\<open>operations/\<close>, and \<^verbatim>\<open>core/expression.py\<close>, \<^verbatim>\<open>agg_expressions.py\<close>,
    \<^verbatim>\<open>schema.py\<close>, \<^verbatim>\<open>window_spec.py\<close>, \<^verbatim>\<open>ordering.py\<close>. A class is a constructor, its properties are a
    record computed from the records of its parts, a raise is the left side of a sum.
  \<^item> \<^verbatim>\<open>Type_Conversions\<close> models the conversions of \<^verbatim>\<open>dtypes.py\<close> and \<^verbatim>\<open>core/schema.py\<close> between the types of
    columns, Arrow types, the fields of BigQuery tables and literals; \<^verbatim>\<open>Type_Properties\<close> shows which
    of them are round trips, and \<^verbatim>\<open>Stored_Types\<close> what exactly is read back of any type that can be written,
    a list of durations as a single duration, for one.
  \<^item> \<^verbatim>\<open>Nodes\<close> and \<^verbatim>\<open>Node_Operations\<close> model \<^verbatim>\<open>core/nodes.py\<close> and \<^verbatim>\<open>core/bigframe_node.py\<close>: the twenty node
    classes as one datatype, for every class its properties (\<open>X_props\<close>), the renamings of
    variables and references, additive nodes, and the queries of single classes.
  \<^item> \<^verbatim>\<open>Node_Semantics\<close> gives the rows of a plan, after the reference engine of
    \<^verbatim>\<open>core/compile/polars/compiler.py\<close>; the values of scalar operators, aggregates and window
    functions, the stored tables and the random choices are an \<open>engine\<close>, a parameter of every
    theorem. \<^verbatim>\<open>Node_Agreement\<close> shows which columns the rows of a node depend on,
    \<^verbatim>\<open>Plan_Equivalence\<close> defines well-scoped plans and plans with the same columns and table and
    shows that the equivalence is a congruence, \<^verbatim>\<open>Node_Metadata\<close> that row counts are exact, and
    \<^verbatim>\<open>Ordering_Semantics\<close> what truncating an ordering does to a sort (the locale \<open>row_values\<close>,
    interpreted on the engines that keep keys apart).
  \<^item> \<^verbatim>\<open>Traversals\<close> models the plan algorithms of \<^verbatim>\<open>core/bigframe_node.py\<close>: unique nodes, Kahn's
    topological order, the bottom-up, top-down and reducing traversals with their tables of
    results. Loops that may not end return an option; \<open>None\<close> is a traversal that does not return.
  \<^item> \<^verbatim>\<open>Rewrite_Framework\<close> states what a rewrite of one node promises (the locale \<open>plan_rewrite\<close>) and
    lifts it to whole plans; \<^verbatim>\<open>Rewrite_Pruning\<close> models \<^verbatim>\<open>core/rewrite/pruning.py\<close> and interprets it.
  \<^item> \<^verbatim>\<open>Rewrite_Slices\<close> models \<^verbatim>\<open>core/rewrite/slices.py\<close>: slices as filters over generated offsets (the
    counter of identifiers is the state of the rewrite, \<^verbatim>\<open>Fresh_Ids\<close>) and limits pulled into the
    result. Its predicates are shown right where the residue they test is that of the slice.
  \<^item> \<^verbatim>\<open>Rewrite_Scans\<close> models \<^verbatim>\<open>core/rewrite/scan_reduction.py\<close> and \<^verbatim>\<open>fold_row_count.py\<close>: plans of scans and
    selections as one scan, and counts of rows as local tables.
  \<^item> \<^verbatim>\<open>Rewrite_Selections\<close> models \<^verbatim>\<open>core/rewrite/select_pullup.py\<close>: selections pulled up over the nodes above
    them; \<^verbatim>\<open>Selection_Soundness\<close> shows that this always returns and keeps the plan, and \<^verbatim>\<open>Field_Renaming\<close> that
    the fields of a node do not depend on the names of the columns below it.
  \<^item> \<^verbatim>\<open>Row_Alignment\<close> models \<^verbatim>\<open>core/rewrite/implicit_align.py\<close>: the row join of two plans that select from
    and add columns to a shared descendant. \<^verbatim>\<open>Reference_Renaming\<close> holds what renaming references does to
    the rows of a node and describes additive nodes by the cells they add.
  \<^item> \<^verbatim>\<open>Array_Values\<close> models \<^verbatim>\<open>core/array_value.py\<close>, the operations that build plans; \<^verbatim>\<open>Built_Plans\<close>
    shows that each operation keeps plans well built, and that row joins of the plans that they build (a
    relation, with what each operation asks of its arguments) carry every column; \<^verbatim>\<open>Array_Operations\<close> shows that
    what is asked of the arguments is exact.
  \<^item> \<^verbatim>\<open>Rewrite_Order\<close> models \<^verbatim>\<open>core/rewrite/order.py\<close>: the two memoized functions that pull the row order
    up into ordering expressions and remove it, as a state monad over the counter of identifiers and
    both caches, and the entry points \<^verbatim>\<open>defer_order\<close> and \<^verbatim>\<open>bake_order\<close>. \<^verbatim>\<open>Stable_Sorting\<close> holds the laws of the
    sort (the locale \<open>comparison\<close>, interpreted on the row comparison of an engine with a lawful order);
    \<^verbatim>\<open>Order_Representation\<close> says when rows in any order, with an ordering, represent the rows of a plan;
    \<^verbatim>\<open>Order_Windows\<close>, \<^verbatim>\<open>Order_Groups\<close> and \<^verbatim>\<open>Order_Joins\<close> carry this over windows, offsets, aggregates, ranges,
    explosions and joins; \<^verbatim>\<open>Order_Soundness\<close> and \<^verbatim>\<open>Order_Pulling\<close> follow every branch of the two functions with
    an invariant of the caches, and \<^verbatim>\<open>Order_Induction\<close> closes the induction. \<^verbatim>\<open>Order_Removal\<close> shows that no
    node of the result reads the order of its input. The engine's laws are those of \<open>ordered_engine\<close>: its
    order of values is a total preorder, order-independent functions do not depend on the order of their
    rows. A plan is \<open>orderly\<close> when what depends on the row order has it determined (\<open>has_total_order\<close>): the
    theorems leave out limits, samples and slices, which are rewritten before, the order of the rows of
    an outer join, and that of an explosion, whose rows are kept up to their order.
  \<^item> \<^verbatim>\<open>Plan_Validation\<close> models \<^verbatim>\<open>validate_tree\<close> and the \<^verbatim>\<open>_validate\<close> methods of the nodes, and shows which
    part of being well scoped a plan that passes them has.
  \<^item> \<^verbatim>\<open>Rewrite_Windows\<close> models \<^verbatim>\<open>core/rewrite/windows.py\<close>, the order of windows as sorts below and above
    them; \<^verbatim>\<open>Schema_Binding\<close> models \<^verbatim>\<open>core/rewrite/schema_binding.py\<close>, and \<^verbatim>\<open>Plan_Lowering\<close> the composition of
    both with the slice rewrite, as \<^verbatim>\<open>compile\<close> of the Polars compiler does after pruning, and the reduction
    of a plan to a scan and a limit by \<^verbatim>\<open>session/read_api_execution.py\<close>.
  \<^item> \<^verbatim>\<open>Rewrite_Ctes\<close> models \<^verbatim>\<open>core/rewrite/ctes.py\<close>; \<^verbatim>\<open>Traversal_Recursion\<close> shows that the top-down traversal
    is recursion, from an invariant of its stack and its table of results.
  \<^item> \<^verbatim>\<open>Cache_Planning\<close> models \<^verbatim>\<open>core/tree_properties.py\<close>, \<^verbatim>\<open>core/pruning.py\<close>, \<^verbatim>\<open>session/planner.py\<close> and the
    substitution of \<^verbatim>\<open>session/execution_cache.py\<close>: how often a plan occurs, the node to cache and its
    clustering, and scans of cached results in place of plans.

  Bounds and fuel: the fixed point of the pruning step is bounded by 100 attempts in the code,
  and the model has the same bound; the soundness of the rewrite does not depend on it. No other
  definition uses fuel.

  The properties are in \<^verbatim>\<open>Foundation_Properties\<close>, \<^verbatim>\<open>Plan_Properties\<close>, \<^verbatim>\<open>Rewrite_Properties\<close>, \<^verbatim>\<open>Array_Properties\<close>,
  \<^verbatim>\<open>Order_Properties\<close>, \<^verbatim>\<open>Plan_Validation\<close>, \<^verbatim>\<open>Type_Properties\<close>, \<^verbatim>\<open>Stored_Types\<close>, \<^verbatim>\<open>Planning_Properties\<close> and here, each with a
  witness at a concrete input where it has hypotheses; \<^verbatim>\<open>Sample_Plans\<close> holds those inputs.

  Not modelled: the pandas-facing API (\<^verbatim>\<open>dataframe.py\<close>, \<^verbatim>\<open>series.py\<close>, \<^verbatim>\<open>core/blocks.py\<close>), the SQL
  compilers (text produced through \<^verbatim>\<open>ibis\<close> and \<^verbatim>\<open>sqlglot\<close>), sessions and execution (BigQuery
  services), lowerings of operators to a dialect, and tests of scalars against a type. Hash values and the caching of properties have
  no effect on results and are left out; equality of nodes is structural, as in the code.
\<close>

subsection \<open>Column pruning\<close>

text \<open>
  C1: column pruning always returns, with a plan or an exception; a plan it returns is well
  scoped and has the columns and the table of the plan it was given, on every engine. The plan
  given is well scoped, and has either no concatenation or no selection that uses a column twice.
\<close>

theorem column_pruning_keeps_table:
  assumes "scoped r0" "everywhere (selects_once b) r0"
  shows "\<exists>res. column_pruning r0 = Some res \<and> (\<forall>m. res = Inr m \<longrightarrow> scoped m \<and> same_output E m r0)"
  using column_pruning_returns [of r0] column_pruning_sound [of r0 _ b E] assms by blast

theorem column_pruning_keeps_table_witness:
  "\<exists>res. column_pruning sample_selection = Some res \<and>
     (\<forall>m. res = Inr m \<longrightarrow> scoped m \<and> same_output sample_engine m sample_selection)"
proof (rule column_pruning_keeps_table)
  show "scoped sample_selection" by (rule sample_scoped)
  show "everywhere (selects_once True) sample_selection" by (simp add: sample_defs)
qed

text \<open>
  C2: One pruning step on a selection of a well-scoped plan, in which there is no concatenation or no selection
  that uses a column twice, gives a well-scoped plan with the same columns and the same table. The step
  removes the selection, keeps its outputs over another child, or pushes a selection into every input of a
  concatenation.
\<close>

theorem pruning_step_keeps_table:
  assumes "prune_selection_child child pairs = Inr m" "scoped (SelectionNode child pairs)"
    and "everywhere (selects_once b) (SelectionNode child pairs)"
  shows "scoped m \<and> same_output E m (SelectionNode child pairs) \<and> pruned_form child pairs m"
  using prune_selection_child_sound [OF assms(1), of b E] prune_selection_child_form [OF assms(1)] assms(2,3) by blast

theorem pruning_step_keeps_table_witness:
  "same_output sample_engine (SelectionNode (FilterNode (SelectionNode sample_scan
       [AliasedRef_identity (ColumnId ''a''), AliasedRef_identity (ColumnId ''b'')])
     (OpExpression GtOp [Deref (col ''a''), ScalarConstantExpression (IntV 1) (Some INT_DTYPE)])) [(col ''b'', ColumnId ''x'')])
   (SelectionNode sample_filter [(col ''b'', ColumnId ''x'')])"
proof (rule pruning_step_keeps_table [THEN conjunct2, THEN conjunct1])
  show "prune_selection_child sample_filter [(col ''b'', ColumnId ''x'')] =
     Inr (SelectionNode (FilterNode (SelectionNode sample_scan
       [AliasedRef_identity (ColumnId ''a''), AliasedRef_identity (ColumnId ''b'')])
     (OpExpression GtOp [Deref (col ''a''), ScalarConstantExpression (IntV 1) (Some INT_DTYPE)])) [(col ''b'', ColumnId ''x'')])"
    using sample_ids
    by (simp add: prune_selection_child_def sample_selection_def prune_under_def Let_def
        sample_filter_def transform_childrenM_def prune_node_def SelectionNode_consumed_ids_def col_def)
  show "scoped (SelectionNode sample_filter [(col ''b'', ColumnId ''x'')])"
    using sample_scoped(3) by (simp add: sample_selection_def)
  show "everywhere (selects_once True) (SelectionNode sample_filter [(col ''b'', ColumnId ''x'')])"
    by (simp add: sample_defs)
qed

text \<open>
  C5: A selection over a concatenation is pushed into the inputs as it is: the pruned plan of a well-scoped
  selection is well scoped exactly when the selection uses no column twice. Where it does, every input of
  the new concatenation selects a column twice under one identifier.
\<close>

theorem prune_concat_duplicates:
  assumes "prune_selection_child (ConcatNode cs out) pairs = Inr m" "scoped (SelectionNode (ConcatNode cs out) pairs)"
  shows "(scoped m \<longleftrightarrow> distinct (map (ref_id \<circ> fst) pairs)) \<and>
    (scoped m \<or> (\<exists>kids out'. m = ConcatNode kids out' \<and> (\<forall>k \<in> set kids. \<not> distinct (out_ids k))))"
  using prune_concat_step_scoped [OF assms] prune_concat_scoped_iff [OF assms] by blast

theorem prune_concat_duplicates_witness:
  "\<exists>m. prune_selection_child (ConcatNode [sample_scan, sample_scan] [ColumnId ''p'', ColumnId ''q'', ColumnId ''r''])
         [(col ''p'', ColumnId ''x''), (col ''p'', ColumnId ''y'')] = Inr m \<and> \<not> scoped m"
proof -
  obtain m where m: "prune_selection_child (ConcatNode [sample_scan, sample_scan] [ColumnId ''p'', ColumnId ''q'', ColumnId ''r''])
      [(col ''p'', ColumnId ''x''), (col ''p'', ColumnId ''y'')] = Inr m"
    by (simp add: prune_selection_child_def prune_under_def prune_concat_def ids_def sample_scan_fields
      SelectionNode_fields_def selected_field_def lookup_or_def dict_of_def fields_by_id_def col_def nth_or_def
      AliasedRef_identity_def ConcatNode_fields_def)
  have "scoped (SelectionNode (ConcatNode [sample_scan, sample_scan] [ColumnId ''p'', ColumnId ''q'', ColumnId ''r''])
      [(col ''p'', ColumnId ''x''), (col ''p'', ColumnId ''y'')])"
    by (simp add: sample_defs col_def)
  from prune_concat_duplicates [OF m this] m show ?thesis by (simp add: col_def)
qed

end
